(* ===== verification/Sol_Prelude.thy ===== *)
theory Sol_Prelude
  imports Main "HOL-Library.Word" "HOL-Library.Signed_Division" "HOL-Library.Monad_Syntax"
begin

text \<open>
  Shared vocabulary of the development: the machine types, the reading and writing of C arrays
  (an access outside the array is the value \<open>None\<close>, so a definition that returns
  \<open>Some\<close> has made no access out of bounds), the big-endian byte helpers that
  \<^verbatim>\<open>kernel/netstack.c\<close>, \<^verbatim>\<open>kernel/tls.c\<close> and \<^verbatim>\<open>kernel/drivers/virtio/virtio_net.c\<close>
  each define for themselves, the resource pool and bounded queue interfaces, and the generic
  lemmas the components share.
\<close>

unbundle bit_operations_syntax

section \<open>Machine types\<close>

type_synonym u8 = "8 word"
type_synonym u16 = "16 word"
type_synonym u32 = "32 word"
type_synonym u64 = "64 word"
type_synonym bytes = "u8 list"

named_theorems mem_simps \<open>reading and writing of arrays\<close>
named_theorems word_size_simps \<open>bounds and conversions of machine words\<close>

section \<open>Arrays with checked accesses\<close>

definition rd :: "'a list \<Rightarrow> nat \<Rightarrow> 'a option" where
  "rd xs i = (if i < length xs then Some (xs ! i) else None)"

text \<open>\<^verbatim>\<open>xs[i - j]\<close> with unsigned indices: a difference below zero wraps around and the access lies before the array.\<close>

definition rd_sub :: "'a list \<Rightarrow> nat \<Rightarrow> nat \<Rightarrow> 'a option" where
  "rd_sub xs i j = (if j \<le> i then rd xs (i - j) else None)"

definition wr :: "'a list \<Rightarrow> nat \<Rightarrow> 'a \<Rightarrow> 'a list option" where
  "wr xs i v = (if i < length xs then Some (xs[i := v]) else None)"

definition rd_range :: "'a list \<Rightarrow> nat \<Rightarrow> nat \<Rightarrow> 'a list option" where
  "rd_range xs off n = (if off + n \<le> length xs then Some (take n (drop off xs)) else None)"

definition wr_range :: "'a list \<Rightarrow> nat \<Rightarrow> 'a list \<Rightarrow> 'a list option" where
  "wr_range xs off ys =
     (if off + length ys \<le> length xs
      then Some (take off xs @ ys @ drop (off + length ys) xs) else None)"

lemma rd_Some [mem_simps]: "i < length xs \<Longrightarrow> rd xs i = Some (xs ! i)"
  by (simp add: rd_def)

lemma rd_sub_Some [mem_simps]: "j \<le> i \<Longrightarrow> i - j < length xs \<Longrightarrow> rd_sub xs i j = Some (xs ! (i - j))"
  by (simp add: rd_sub_def rd_Some)

lemma rd_eq_Some [mem_simps]: "rd xs i = Some v \<longleftrightarrow> i < length xs \<and> v = xs ! i"
  by (auto simp: rd_def)

lemma rd_eq_None [mem_simps]: "rd xs i = None \<longleftrightarrow> length xs \<le> i"
  by (auto simp: rd_def)

lemma wr_eq_Some [mem_simps]: "wr xs i v = Some ys \<longleftrightarrow> i < length xs \<and> ys = xs[i := v]"
  by (auto simp: wr_def)

lemma wr_Some [mem_simps]: "i < length xs \<Longrightarrow> wr xs i v = Some (xs[i := v])"
  by (simp add: wr_def)

lemma wr_eq_None [mem_simps]: "wr xs i v = None \<longleftrightarrow> length xs \<le> i"
  by (auto simp: wr_def)

lemma rd_range_Some [mem_simps]:
  "off + n \<le> length xs \<Longrightarrow> rd_range xs off n = Some (take n (drop off xs))"
  by (simp add: rd_range_def)

lemma rd_range_length: "rd_range xs off n = Some ys \<Longrightarrow> length ys = n"
  by (auto simp: rd_range_def split: if_splits)

lemma rd_range_nth: "rd_range xs off n = Some ys \<Longrightarrow> i < n \<Longrightarrow> ys ! i = xs ! (off + i)"
  by (auto simp: rd_range_def split: if_splits)

lemma wr_range_Some [mem_simps]:
  "off + length ys \<le> length xs \<Longrightarrow>
   wr_range xs off ys = Some (take off xs @ ys @ drop (off + length ys) xs)"
  by (simp add: wr_range_def)

lemma wr_range_eq_None [mem_simps]:
  "wr_range xs off ys = None \<longleftrightarrow> length xs < off + length ys"
  by (auto simp: wr_range_def)

lemma wr_range_length: "wr_range xs off ys = Some zs \<Longrightarrow> length zs = length xs"
  by (auto simp: wr_range_def split: if_splits)

lemma wr_range_nth:
  assumes "wr_range xs off ys = Some zs" and "i < length xs"
  shows "zs ! i = (if off \<le> i \<and> i < off + length ys then ys ! (i - off) else xs ! i)"
proof -
  from assms(1) have len: "off + length ys \<le> length xs"
    and zs: "zs = take off xs @ ys @ drop (off + length ys) xs"
    by (auto simp: wr_range_def split: if_splits)
  show ?thesis
    using len assms(2) by (auto simp: zs nth_append)
qed

text \<open>Writes and reads of one segment of an array that is given in pieces.\<close>

lemma wr_range_seg:
  "k = length A \<Longrightarrow> length B' = length B \<Longrightarrow> wr_range (A @ B @ C) k B' = Some (A @ B' @ C)"
  by (simp add: wr_range_def)

lemma wr_seg: "k = length A \<Longrightarrow> wr (A @ b # C) k b' = Some (A @ b' # C)"
  by (simp add: wr_def)

lemma rd_seg: "k = length A \<Longrightarrow> rd (A @ b # C) k = Some b"
  by (simp add: rd_def)

lemma rd_prefix: "n = length A \<Longrightarrow> rd_range (A @ B) 0 n = Some A"
  by (simp add: rd_range_def)

section \<open>Words and natural numbers\<close>

lemma unat_of_nat_lt [word_size_simps]:
  "n < 2 ^ LENGTH('a::len) \<Longrightarrow> unat (of_nat n :: 'a word) = n"
  by (simp add: unat_of_nat take_bit_nat_eq_self)

lemma unat_plus_lt:
  fixes a b :: "'a::len word"
  shows "unat a + unat b < 2 ^ LENGTH('a) \<Longrightarrow> unat (a + b) = unat a + unat b"
  by (simp add: unat_word_ariths)

lemma unat_Suc_lt:
  fixes a :: "'a::len word"
  assumes "unat a + 1 < 2 ^ LENGTH('a)"
  shows "unat (a + 1) = unat a + 1"
proof -
  have "unat (a + 1) = (unat a + unat (1 :: 'a word)) mod 2 ^ LENGTH('a)"
    by (rule unat_word_ariths)
  with assms show ?thesis by simp
qed

lemma unat_u64_less: "unat (w :: u64) < 2 ^ 64"
proof -
  have "unat w < 2 ^ LENGTH(64)" by (rule unsigned_less)
  then show ?thesis by simp
qed

lemma unat_u32_less: "unat (w :: u32) < 2 ^ 32"
proof -
  have "unat w < 2 ^ LENGTH(32)" by (rule unsigned_less)
  then show ?thesis by simp
qed

lemma unat_u16_less: "unat (w :: u16) < 65536"
proof -
  have "unat w < 2 ^ LENGTH(16)" by (rule unsigned_less)
  then show ?thesis by simp
qed

lemma unat_u8_less: "unat (w :: u8) < 256"
proof -
  have "unat w < 2 ^ LENGTH(8)" by (rule unsigned_less)
  then show ?thesis by simp
qed

section \<open>Signed sums\<close>

text \<open>Signed 64-bit arithmetic, where an overflow is undefined behaviour.\<close>

definition in64 :: "int \<Rightarrow> bool" where
  "in64 z \<longleftrightarrow> - (2 ^ 63) \<le> z \<and> z < 2 ^ 63"

definition sadd :: "int \<Rightarrow> int \<Rightarrow> int option" where
  "sadd a b = (if in64 (a + b) then Some (a + b) else None)"

definition ssub :: "int \<Rightarrow> int \<Rightarrow> int option" where
  "ssub a b = (if in64 (a - b) then Some (a - b) else None)"

section \<open>Big-endian fields\<close>

definition mk16 :: "u8 \<Rightarrow> u8 \<Rightarrow> u16" where
  "mk16 a b = push_bit 8 (ucast a) OR ucast b"

definition mk32 :: "u8 \<Rightarrow> u8 \<Rightarrow> u8 \<Rightarrow> u8 \<Rightarrow> u32" where
  "mk32 a b c d =
     push_bit 24 (ucast a) OR push_bit 16 (ucast b) OR push_bit 8 (ucast c) OR ucast d"

definition bytes16 :: "u16 \<Rightarrow> bytes" where
  "bytes16 v = [ucast (drop_bit 8 v), ucast v]"

definition bytes32 :: "u32 \<Rightarrow> bytes" where
  "bytes32 v = [ucast (drop_bit 24 v), ucast (drop_bit 16 v), ucast (drop_bit 8 v), ucast v]"

lemma length_bytes16 [simp]: "length (bytes16 v) = 2"
  by (simp add: bytes16_def)

lemma length_bytes32 [simp]: "length (bytes32 v) = 4"
  by (simp add: bytes32_def)

lemma mk16_bytes16: "mk16 (ucast (drop_bit 8 v)) (ucast v) = (v :: u16)"
  unfolding mk16_def
  by (rule bit_word_eqI) (auto simp: bit_simps)

lemma mk32_bytes32:
  "mk32 (ucast (drop_bit 24 v)) (ucast (drop_bit 16 v)) (ucast (drop_bit 8 v)) (ucast v)
   = (v :: u32)"
  unfolding mk32_def
proof (rule bit_word_eqI)
  fix n assume "n < LENGTH(32)"
  then show "bit (push_bit 24 (ucast (ucast (drop_bit 24 v) :: u8)) OR
      push_bit 16 (ucast (ucast (drop_bit 16 v) :: u8)) OR
      push_bit 8 (ucast (ucast (drop_bit 8 v) :: u8)) OR ucast (ucast v :: u8) :: u32) n = bit v n"
    by (cases "n < 8"; cases "n < 16"; cases "n < 24") (auto simp: bit_simps)
qed

lemma push_or:
  assumes "m < 2 ^ n"
  shows "push_bit n (of_nat x) OR of_nat m = (of_nat (x * 2 ^ n + m) :: 'a :: len word)"
proof -
  have "push_bit n x AND take_bit n m = 0" by (rule bit_eqI) (auto simp: bit_simps)
  then have "push_bit n x AND m = 0" using assms by (simp add: take_bit_nat_eq_self)
  then have "push_bit n x OR m = x * 2 ^ n + m" using disjunctive_add_eq_or [of "push_bit n x" m] by (simp add: push_bit_eq_mult)
  then have "(of_nat (push_bit n x OR m) :: 'a word) = of_nat (x * 2 ^ n + m)" by simp
  then show ?thesis by (simp add: of_nat_or_eq push_bit_of_nat)
qed

lemma mk32_of_nat:
  "mk32 a b c d = of_nat (unat a * 2 ^ 24 + (unat b * 2 ^ 16 + (unat c * 2 ^ 8 + unat d)))"
proof -
  have u: "(ucast w :: u32) = of_nat (unat w)" for w :: u8 by simp
  have l: "unat w < 256" for w :: u8 using unsigned_less [of w, where 'a = nat] by simp
  have 1: "push_bit 8 (of_nat (unat c)) OR of_nat (unat d) = (of_nat (unat c * 2 ^ 8 + unat d) :: u32)"
    by (rule push_or) (use l [of d] in simp)
  have 2: "push_bit 16 (of_nat (unat b)) OR of_nat (unat c * 2 ^ 8 + unat d) = (of_nat (unat b * 2 ^ 16 + (unat c * 2 ^ 8 + unat d)) :: u32)"
    by (rule push_or) (use l [of d] l [of c] in simp)
  show ?thesis unfolding mk32_def u or.assoc 1 2
    by (rule push_or) (use l [of d] l [of c] l [of b] in simp)
qed

lemma bytes32_mk32: "bytes32 (mk32 a b c d) = [a, b, c, d]"
proof -
  have "(ucast (drop_bit 24 (mk32 a b c d)) :: u8) = a" "(ucast (drop_bit 16 (mk32 a b c d)) :: u8) = b"
    "(ucast (drop_bit 8 (mk32 a b c d)) :: u8) = c" "(ucast (mk32 a b c d) :: u8) = d"
    unfolding mk32_def by (rule bit_word_eqI; auto simp: bit_simps dest: bit_imp_le_length)+
  then show ?thesis by (simp add: bytes32_def)
qed

text \<open>One more, with the carry from byte to byte.\<close>

lemma unat_byte_Suc: "unat (w + 1 :: u8) = (if unat w = 255 then 0 else unat w + 1)"
  using unsigned_less [of w, where 'a = nat] by (auto simp: unat_plus_if')

lemma mk32_Suc:
  "mk32 a b c d + 1 = (if d + 1 \<noteq> 0 then mk32 a b c (d + 1) else if c + 1 \<noteq> 0 then mk32 a b (c + 1) 0
     else if b + 1 \<noteq> 0 then mk32 a (b + 1) 0 0 else mk32 (a + 1) 0 0 0)"
proof -
  let ?n = "unat a * 2 ^ 24 + (unat b * 2 ^ 16 + (unat c * 2 ^ 8 + unat d))"
  have z: "w + 1 = 0 \<longleftrightarrow> unat w = 255" for w :: u8 by (simp add: unat_byte_Suc word_unat_eq_iff)
  have s: "mk32 a b c d + 1 = of_nat (?n + 1)" by (simp add: mk32_of_nat)
  have o: "(of_nat (2 ^ 32) :: u32) = 0" by simp
  have eq: "mk32 a b c d + 1 = mk32 p q r t" if "unat p * 2 ^ 24 + (unat q * 2 ^ 16 + (unat r * 2 ^ 8 + unat t)) = ?n + 1" for p q r t
    unfolding s mk32_of_nat [of p q r t] that ..
  consider "unat d \<noteq> 255" | "unat d = 255" "unat c \<noteq> 255" | "unat d = 255" "unat c = 255" "unat b \<noteq> 255"
    | "unat d = 255" "unat c = 255" "unat b = 255" "unat a \<noteq> 255" | "unat d = 255" "unat c = 255" "unat b = 255" "unat a = 255" by blast
  then show ?thesis
  proof cases
    case 1
    then show ?thesis using eq [of a b c "d + 1"] by (simp add: z unat_byte_Suc)
  next
    case 2
    then show ?thesis using eq [of a b "c + 1" 0] by (simp add: z unat_byte_Suc)
  next
    case 3
    then show ?thesis using eq [of a "b + 1" 0 0] by (simp add: z unat_byte_Suc)
  next
    case 4
    then show ?thesis using eq [of "a + 1" 0 0 0] by (simp add: z unat_byte_Suc)
  next
    case 5
    then have "?n + 1 = 2 ^ 32" by simp
    then have "mk32 a b c d + 1 = 0" using s o by (simp only:)
    moreover have "mk32 (a + 1) 0 0 0 = 0" using 5 by (simp add: mk32_of_nat unat_byte_Suc)
    ultimately show ?thesis using 5 z by simp
  qed
qed

lemma mk16_inject: "mk16 a b = mk16 a' b' \<Longrightarrow> a = a' \<and> b = b'"
proof -
  assume eq: "mk16 a b = mk16 a' b'"
  have "\<And>n. bit (mk16 a b) n = bit (mk16 a' b') n" using eq by simp
  then have bits: "\<And>n. bit (push_bit 8 (ucast a) OR ucast b :: u16) n =
      bit (push_bit 8 (ucast a') OR ucast b' :: u16) n"
    by (simp add: mk16_def)
  have "a = a'"
  proof (rule bit_word_eqI)
    fix n assume "n < LENGTH(8)"
    then show "bit a n = bit a' n" using bits [of "n + 8"] by (auto simp: bit_simps dest: bit_imp_le_length)
  qed
  moreover have "b = b'"
  proof (rule bit_word_eqI)
    fix n assume "n < LENGTH(8)"
    then show "bit b n = bit b' n" using bits [of n] by (auto simp: bit_simps)
  qed
  ultimately show ?thesis by simp
qed

text \<open>The division of C truncates.\<close>

lemma sdiv_nonneg: "0 \<le> a \<Longrightarrow> 0 < b \<Longrightarrow> a sdiv b = a div (b :: int)"
  by (cases "a = 0") (simp_all add: signed_divide_int_def)

end
