(* ===== verification/Libc.thy ===== *)
theory Libc
  imports Sol_Prelude
begin

text \<open>
  The memory and string functions of \<^verbatim>\<open>libc/string.c\<close>. Source and destination are addresses in
  one memory, a list of bytes, so that overlap is visible; an access outside the memory is
  \<open>None\<close>. The loops run byte by byte as in the code.
\<close>

section \<open>Copying\<close>

text \<open>\<open>copy_at mem d s i\<close> is \<^verbatim>\<open>d[i] = s[i]\<close>.\<close>

definition copy_at :: "bytes \<Rightarrow> nat \<Rightarrow> nat \<Rightarrow> nat \<Rightarrow> bytes option" where
  "copy_at mem d s i = do { b \<leftarrow> rd mem (s + i); wr mem (d + i) b }"

fun copy_loop :: "nat list \<Rightarrow> bytes \<Rightarrow> nat \<Rightarrow> nat \<Rightarrow> bytes option" where
  "copy_loop [] mem d s = Some mem"
| "copy_loop (i # is) mem d s = do { mem' \<leftarrow> copy_at mem d s i; copy_loop is mem' d s }"

definition memcpy :: "bytes \<Rightarrow> nat \<Rightarrow> nat \<Rightarrow> nat \<Rightarrow> bytes option" where
  "memcpy mem d s n = copy_loop [0 ..< n] mem d s"

definition memmove :: "bytes \<Rightarrow> nat \<Rightarrow> nat \<Rightarrow> nat \<Rightarrow> bytes option" where
  "memmove mem d s n =
     (if d = s \<or> n = 0 then Some mem
      else if d < s then copy_loop [0 ..< n] mem d s
      else copy_loop (rev [0 ..< n]) mem d s)"

fun memset_loop :: "nat list \<Rightarrow> bytes \<Rightarrow> nat \<Rightarrow> u8 \<Rightarrow> bytes option" where
  "memset_loop [] mem d c = Some mem"
| "memset_loop (i # is) mem d c = do { mem' \<leftarrow> wr mem (d + i) c; memset_loop is mem' d c }"

definition memset :: "bytes \<Rightarrow> nat \<Rightarrow> u32 \<Rightarrow> nat \<Rightarrow> bytes option" where
  "memset mem d c n = memset_loop [0 ..< n] mem d (ucast c)"

section \<open>Comparing and scanning\<close>

fun memcmp_loop :: "nat list \<Rightarrow> bytes \<Rightarrow> nat \<Rightarrow> nat \<Rightarrow> int option" where
  "memcmp_loop [] mem a b = Some 0"
| "memcmp_loop (i # is) mem a b =
     do { x \<leftarrow> rd mem (a + i); y \<leftarrow> rd mem (b + i);
          if x \<noteq> y then Some (uint x - uint y) else memcmp_loop is mem a b }"

definition memcmp :: "bytes \<Rightarrow> nat \<Rightarrow> nat \<Rightarrow> nat \<Rightarrow> int option" where
  "memcmp mem a b n = memcmp_loop [0 ..< n] mem a b"

function strlen_from :: "bytes \<Rightarrow> nat \<Rightarrow> nat \<Rightarrow> nat option" where
  "strlen_from mem s len =
     (if s + len < length mem then (if mem ! (s + len) \<noteq> 0 then strlen_from mem s (Suc len) else Some len)
      else None)"
  by pat_completeness auto
termination by (relation "measure (\<lambda>(mem, s, len). length mem - (s + len))") auto

declare strlen_from.simps [simp del]

definition strlen :: "bytes \<Rightarrow> nat \<Rightarrow> nat option" where
  "strlen mem s = strlen_from mem s 0"

function strcmp :: "bytes \<Rightarrow> nat \<Rightarrow> nat \<Rightarrow> int option" where
  "strcmp mem a b =
     (if a < length mem \<and> b < length mem then
        (if mem ! a \<noteq> 0 \<and> mem ! a = mem ! b then strcmp mem (a + 1) (b + 1)
         else Some (uint (mem ! a) - uint (mem ! b)))
      else None)"
  by pat_completeness auto
termination by (relation "measure (\<lambda>(mem, a, b). length mem - a)") auto

declare strcmp.simps [simp del]

text \<open>\<^verbatim>\<open>strcpy\<close> may read what it has just written; \<open>fuel\<close> bounds the bytes copied.\<close>

fun strcpy :: "nat \<Rightarrow> bytes \<Rightarrow> nat \<Rightarrow> nat \<Rightarrow> bytes option" where
  "strcpy 0 mem d s = None"
| "strcpy (Suc fuel) mem d s =
     do { b \<leftarrow> rd mem s; mem' \<leftarrow> wr mem d b;
          if b = 0 then Some mem' else strcpy fuel mem' (d + 1) (s + 1) }"

section \<open>The copy loops\<close>

lemma copy_at_Some: "d + i < length mem \<Longrightarrow> s + i < length mem \<Longrightarrow>
    copy_at mem d s i = Some (mem[d + i := mem ! (s + i)])"
  by (simp add: copy_at_def rd_Some wr_Some)

text \<open>Copying an ordered set of indices gives the original bytes as long as no index is read after
  it was overwritten.\<close>

lemma copy_loop_spec:
  assumes "\<forall>i \<in> set is. d + i < length mem \<and> s + i < length mem" and "distinct is"
    and "\<And>xs i ys j. is = xs @ i # ys \<Longrightarrow> j \<in> set xs \<Longrightarrow> s + i \<noteq> d + j"
  shows "\<exists>mem'. copy_loop is mem d s = Some mem' \<and> length mem' = length mem
    \<and> (\<forall>k < length mem. mem' ! k = (if d \<le> k \<and> k - d \<in> set is then mem ! (s + (k - d)) else mem ! k))"
  using assms
proof (induction "is" arbitrary: mem)
  case Nil
  then show ?case by simp
next
  case (Cons i "is")
  let ?mem = "mem[d + i := mem ! (s + i)]"
  have step: "copy_at mem d s i = Some ?mem" using Cons.prems(1) by (simp add: copy_at_Some)
  have safe: "s + i' \<noteq> d + j" if "is = xs @ i' # ys" "j \<in> set (i # xs)" for xs i' ys j
    using Cons.prems(3) [of "i # xs" i' ys j] that by simp
  obtain mem' where m: "copy_loop is ?mem d s = Some mem'" "length mem' = length ?mem"
    "\<forall>k < length ?mem. mem' ! k = (if d \<le> k \<and> k - d \<in> set is then ?mem ! (s + (k - d)) else ?mem ! k)"
    using Cons.IH [of ?mem] Cons.prems(1,2) safe by auto
  have keep: "?mem ! (s + i') = mem ! (s + i')" if i': "i' \<in> set is" for i'
  proof -
    obtain xs ys where "is = xs @ i' # ys" using i' by (meson split_list)
    from safe [OF this, of i] show ?thesis by simp
  qed
  have "mem' ! k = (if d \<le> k \<and> k - d \<in> set (i # is) then mem ! (s + (k - d)) else mem ! k)"
    if k: "k < length mem" for k
  proof (cases "d \<le> k \<and> k - d \<in> set is")
    case True
    then show ?thesis using m(3) k keep [of "k - d"] by simp
  next
    case False
    have "mem' ! k = ?mem ! k"
      using m(3) [rule_format, of k] k by (simp only: length_list_update if_not_P [OF False])
    then show ?thesis using False k by (cases "k = d + i") auto
  qed
  then show ?case using step m(1,2) by simp
qed

lemma copy_result:
  assumes "length mem' = length mem" and "d + n \<le> length mem" and "s + n \<le> length mem"
    and "\<forall>k < length mem. mem' ! k = (if d \<le> k \<and> k - d \<in> {0 ..< n} then mem ! (s + (k - d)) else mem ! k)"
  shows "wr_range mem d (take n (drop s mem)) = Some mem'"
proof -
  let ?ys = "take n (drop s mem)"
  have len: "length ?ys = n" using assms(3) by simp
  then have some: "d + length ?ys \<le> length mem" using assms(2) by simp
  obtain zs where zs: "wr_range mem d ?ys = Some zs" using wr_range_Some [OF some] by blast
  have "zs = mem'"
  proof (rule nth_equalityI)
    show "length zs = length mem'" using wr_range_length [OF zs] assms(1) by simp
    fix k assume "k < length zs"
    then have k: "k < length mem" using wr_range_length [OF zs] by simp
    show "zs ! k = mem' ! k"
      using wr_range_nth [OF zs k] assms(4) k len by auto
  qed
  then show ?thesis using zs by simp
qed

lemma rev_upt_split: "rev [0 ..< n] = xs @ i # ys \<Longrightarrow> j \<in> set xs \<Longrightarrow> i < j"
proof -
  assume "rev [0 ..< n] = xs @ i # ys" and j: "j \<in> set xs"
  then have "[0 ..< n] = rev ys @ i # rev xs" by (metis rev.simps(2) rev_append rev_rev_ident append.assoc append_Cons append_Nil)
  moreover have "sorted_wrt (<) [0 ..< n]" by simp
  ultimately have "sorted_wrt (<) (rev ys @ i # rev xs)" by simp
  then show ?thesis using j by (auto simp: sorted_wrt_append)
qed

lemma upt_split: "[0 ..< n] = xs @ i # ys \<Longrightarrow> j \<in> set xs \<Longrightarrow> j < i"
proof -
  assume "[0 ..< n] = xs @ i # ys" and j: "j \<in> set xs"
  moreover have "sorted_wrt (<) [0 ..< n]" by simp
  ultimately have "sorted_wrt (<) (xs @ i # ys)" by simp
  then show ?thesis using j by (auto simp: sorted_wrt_append)
qed

lemma strlen_from_spec:
  assumes "\<forall>i < n. mem ! (s + i) \<noteq> 0" and "s + n < length mem" and "mem ! (s + n) = 0" and "len \<le> n"
  shows "strlen_from mem s len = Some n"
  using assms(4)
proof (induction "n - len" arbitrary: len)
  case 0
  then show ?case using assms(2,3) by (subst strlen_from.simps) simp
next
  case (Suc m)
  then have "m = n - Suc len" "Suc len \<le> n" by simp_all
  from Suc.hyps(1) [OF this] show ?case
    using assms Suc by (subst strlen_from.simps) simp
qed

section \<open>Properties\<close>

text \<open>\<^verbatim>\<open>memmove\<close> on any two ranges inside the memory, overlapping or not, in either direction,
  makes the destination what the source was before the call and touches nothing else.\<close>

theorem memmove_correct:
  assumes "d + n \<le> length mem" and "s + n \<le> length mem"
  shows "memmove mem d s n = wr_range mem d (take n (drop s mem))"
proof -
  consider "d = s \<or> n = 0" | "d < s" "0 < n" | "s < d" "0 < n" by linarith
  then show ?thesis
  proof cases
    case 1
    then have "wr_range mem d (take n (drop s mem)) = Some mem"
      using assms by (intro copy_result) auto
    then show ?thesis using 1 by (auto simp: memmove_def)
  next
    case 2
    have "\<forall>i \<in> set [0 ..< n]. d + i < length mem \<and> s + i < length mem" using assms by auto
    moreover have "s + i \<noteq> d + j" if "[0 ..< n] = xs @ i # ys" "j \<in> set xs" for xs i ys j
      using upt_split [OF that] 2 by simp
    ultimately obtain mem' where m: "copy_loop [0 ..< n] mem d s = Some mem'" "length mem' = length mem"
      "\<forall>k < length mem. mem' ! k = (if d \<le> k \<and> k - d \<in> set [0 ..< n] then mem ! (s + (k - d)) else mem ! k)"
      using copy_loop_spec [of "[0 ..< n]" d mem s] distinct_upt by blast
    then have "wr_range mem d (take n (drop s mem)) = Some mem'"
      using assms by (intro copy_result) simp_all
    then show ?thesis using m(1) 2 by (simp add: memmove_def)
  next
    case 3
    have "\<forall>i \<in> set (rev [0 ..< n]). d + i < length mem \<and> s + i < length mem" using assms by auto
    moreover have "s + i \<noteq> d + j" if "rev [0 ..< n] = xs @ i # ys" "j \<in> set xs" for xs i ys j
      using rev_upt_split [OF that] 3 by simp
    moreover have "distinct (rev [0 ..< n])" by simp
    ultimately obtain mem' where m: "copy_loop (rev [0 ..< n]) mem d s = Some mem'" "length mem' = length mem"
      "\<forall>k < length mem. mem' ! k = (if d \<le> k \<and> k - d \<in> set (rev [0 ..< n]) then mem ! (s + (k - d)) else mem ! k)"
      using copy_loop_spec [of "rev [0 ..< n]" d mem s] by blast
    then have "wr_range mem d (take n (drop s mem)) = Some mem'"
      using assms by (intro copy_result) simp_all
    then show ?thesis using m(1) 3 by (simp add: memmove_def)
  qed
qed

theorem memmove_correct_witness:
  "memmove [1, 2, 3, 4, 5] 1 0 4 = Some [1, 1, 2, 3, 4]"
  using memmove_correct [of 1 4 "[1, 2, 3, 4, 5]" 0] by (simp add: wr_range_def)

text \<open>\<^verbatim>\<open>memcpy\<close> copies the source to the destination when the two ranges do not overlap, or
  the destination starts below the source.\<close>

theorem memcpy_correct:
  assumes "d + n \<le> length mem" and "s + n \<le> length mem" and "d \<le> s \<or> s + n \<le> d"
  shows "memcpy mem d s n = wr_range mem d (take n (drop s mem))"
proof -
  have safe: "s + i \<noteq> d + j" if "[0 ..< n] = xs @ i # ys" "j \<in> set xs" for xs i ys j
  proof -
    have "j < i" by (rule upt_split [OF that])
    moreover have "i \<in> set [0 ..< n]" by (subst that(1)) simp
    ultimately show ?thesis using assms(3) by auto
  qed
  have "\<forall>i \<in> set [0 ..< n]. d + i < length mem \<and> s + i < length mem" using assms by auto
  with safe obtain mem' where
    m: "copy_loop [0 ..< n] mem d s = Some mem'" "length mem' = length mem"
    "\<forall>k < length mem. mem' ! k = (if d \<le> k \<and> k - d \<in> set [0 ..< n] then mem ! (s + (k - d)) else mem ! k)"
    using copy_loop_spec [of "[0 ..< n]" d mem s] distinct_upt by blast
  then have "wr_range mem d (take n (drop s mem)) = Some mem'"
    using assms by (intro copy_result) simp_all
  then show ?thesis using m(1) by (simp add: memcpy_def)
qed

theorem memcpy_correct_witness:
  "memcpy [1, 2, 3, 4, 5] 0 3 2 = Some [4, 5, 3, 4, 5]"
  using memcpy_correct [of 0 2 "[1, 2, 3, 4, 5]" 3] by (simp add: wr_range_def)

text \<open>\<^verbatim>\<open>strlen\<close> returns the distance to the first zero byte, without reading past it.\<close>

theorem strlen_correct:
  assumes "\<forall>i < n. mem ! (s + i) \<noteq> 0" and "s + n < length mem" and "mem ! (s + n) = 0"
  shows "strlen mem s = Some n"
  unfolding strlen_def by (rule strlen_from_spec [OF assms]) simp

theorem strlen_correct_witness: "strlen [7, 7, 7, 0, 7] 1 = Some 2"
proof -
  have "\<forall>i < 2. [7, 7, 7, 0, 7] ! (1 + i) \<noteq> (0 :: u8)"
    by (auto simp: less_2_cases_iff)
  then show ?thesis using strlen_correct [of 2 "[7, 7, 7, 0, 7]" 1] by simp
qed

end
