(* ===== verification/Desktop_Files.thy ===== *)
theory Desktop_Files
  imports Libc
begin

text \<open>
  The files and the notepad of \<^verbatim>\<open>kernel/desktop.c\<close>: the table of 32 files in memory, the notepad's text,
  cursor and save-as line, its keys, and the file manager's counting. Character arrays are byte lists of
  their declared sizes, read and written with checks; a key's result is the notepad, the files and whether
  the window is drawn again.

  The lemmas show that no key and no file operation leaves its array, that the text and the cursor are a
  list with a gap, and that the table is a finite map from names to contents.
\<close>

section \<open>Strings in arrays\<close>

text \<open>\<open>strcmp(a, b) == 0\<close> on two arrays; \<open>None\<close> if it runs behind one of them.\<close>

fun cstr_same :: "bytes \<Rightarrow> bytes \<Rightarrow> bool option" where
  "cstr_same (x # a) (y # b) = (if x \<noteq> 0 \<and> x = y then cstr_same a b else Some (x = y))"
| "cstr_same _ _ = None"

text \<open>The loop \<open>while (src[n] && n < m) dst[n] = src[n++]\<close> with the terminator after it.\<close>

function copy_cstr :: "nat \<Rightarrow> bytes \<Rightarrow> bytes \<Rightarrow> nat \<Rightarrow> (nat \<times> bytes) option" where
  "copy_cstr m src dst n =
     do { c \<leftarrow> rd src n;
          if c \<noteq> 0 \<and> n < m then do { dst \<leftarrow> wr dst n c; copy_cstr m src dst (n + 1) }
          else do { dst \<leftarrow> wr dst n 0; Some (n, dst) } }"
  by pat_completeness auto

termination by (relation "measure (\<lambda>(m, src, dst, n). m - n)") auto

declare copy_cstr.simps [simp del]

section \<open>The files\<close>

definition NOTEPAD_MAX_TEXT :: nat where "NOTEPAD_MAX_TEXT = 8192"
definition NOTEPAD_MAX_FNAME :: nat where "NOTEPAD_MAX_FNAME = 64"
definition FS_MAX_FILES :: nat where "FS_MAX_FILES = 32"
definition FS_MAX_FDATA :: nat where "FS_MAX_FDATA = 4096"

record fs_file =
  ff_name :: bytes
  ff_data :: bytes
  ff_len :: nat
  ff_used :: bool

fun fs_find_from :: "bytes \<Rightarrow> nat \<Rightarrow> fs_file list \<Rightarrow> int option" where
  "fs_find_from name i [] = Some (- 1)"
| "fs_find_from name i (f # fs) =
     (if ff_used f then do { eq \<leftarrow> cstr_same (ff_name f) name; if eq then Some (int i) else fs_find_from name (i + 1) fs }
      else fs_find_from name (i + 1) fs)"

definition fs_find :: "bytes \<Rightarrow> fs_file list \<Rightarrow> int option" where
  "fs_find name fs = fs_find_from name 0 (take FS_MAX_FILES fs)"

fun first_free :: "nat \<Rightarrow> fs_file list \<Rightarrow> nat option" where
  "first_free i [] = None"
| "first_free i (f # fs) = (if ff_used f then first_free (i + 1) fs else Some i)"

text \<open>The contents of a slot stay from its last use: only the length is reset.\<close>

definition fs_create :: "bytes \<Rightarrow> fs_file list \<Rightarrow> (int \<times> fs_file list) option" where
  "fs_create name fs =
     do { idx \<leftarrow> fs_find name fs;
          if idx \<ge> 0 then Some (idx, fs)
          else (case first_free 0 (take FS_MAX_FILES fs) of
                  None \<Rightarrow> Some (- 1, fs)
                | Some i \<Rightarrow>
                    do { f \<leftarrow> rd fs i; (_, nm) \<leftarrow> copy_cstr (NOTEPAD_MAX_FNAME - 1) name (ff_name f) 0;
                         Some (int i, fs[i := f\<lparr>ff_used := True, ff_len := 0, ff_name := nm\<rparr>]) }) }"

definition fs_delete :: "int \<Rightarrow> fs_file list \<Rightarrow> fs_file list option" where
  "fs_delete idx fs =
     (if idx < 0 \<or> idx \<ge> int FS_MAX_FILES then Some fs
      else do { f \<leftarrow> rd fs (nat idx); nm \<leftarrow> wr (ff_name f) 0 0;
                Some (fs[nat idx := f\<lparr>ff_used := False, ff_len := 0, ff_name := nm,
                                      ff_data := replicate (length (ff_data f)) 0\<rparr>]) })"

text \<open>\<^verbatim>\<open>memcpy\<close> of \<open>n\<close> bytes of another array into a slot, and the new length.\<close>

definition fs_store :: "nat \<Rightarrow> bytes \<Rightarrow> nat \<Rightarrow> fs_file list \<Rightarrow> fs_file list option" where
  "fs_store i src n fs =
     do { f \<leftarrow> rd fs i; v \<leftarrow> rd_range src 0 n; d \<leftarrow> wr_range (ff_data f) 0 v;
          Some (fs[i := f\<lparr>ff_data := d, ff_len := n\<rparr>]) }"

section \<open>The notepad's text\<close>

text \<open>\<open>np_own_title\<close>: the window's title points to the notepad's own string.\<close>

record np =
  np_text :: bytes
  np_len :: nat
  np_cursor :: nat
  np_fname :: bytes
  np_title :: bytes
  np_own_title :: bool
  np_dirty :: bool
  np_file_idx :: int
  np_show_open :: bool
  np_save_as :: bool
  np_save_as_buf :: bytes
  np_save_as_cursor :: nat

definition np_init :: "np \<Rightarrow> np option" where
  "np_init w =
     do { fname \<leftarrow> wr (np_fname w) 0 0; title \<leftarrow> wr (np_title w) 0 0; buf \<leftarrow> wr (np_save_as_buf w) 0 0;
          text \<leftarrow> wr (np_text w) 0 0;
          Some (w\<lparr>np_len := 0, np_cursor := 0, np_fname := fname, np_title := title, np_dirty := False,
                  np_file_idx := - 1, np_show_open := False, np_save_as := False, np_save_as_cursor := 0,
                  np_save_as_buf := buf, np_text := text\<rparr>) }"

text \<open>The newlines among \<open>n\<close> characters from \<open>i\<close>, and the characters before the cursor on its line.\<close>

fun newlines :: "bytes \<Rightarrow> nat \<Rightarrow> nat \<Rightarrow> nat \<Rightarrow> nat option" where
  "newlines text i 0 row = Some row"
| "newlines text i (Suc n) row = do { c \<leftarrow> rd text i; newlines text (i + 1) n (if c = 10 then row + 1 else row) }"

definition np_cursor_row :: "np \<Rightarrow> nat option" where
  "np_cursor_row w = newlines (np_text w) 0 (min (np_cursor w) (np_len w)) 0"

fun col_back :: "bytes \<Rightarrow> nat \<Rightarrow> nat \<Rightarrow> nat option" where
  "col_back text 0 col = Some col"
| "col_back text (Suc i) col = do { c \<leftarrow> rd text i; if c \<noteq> 10 then col_back text i (col + 1) else Some col }"

definition np_cursor_col :: "np \<Rightarrow> nat option" where
  "np_cursor_col w = col_back (np_text w) (np_cursor w) 0"

definition np_move_cursor :: "int \<Rightarrow> np \<Rightarrow> np" where
  "np_move_cursor delta w =
     (let p = int (np_cursor w) + delta; p = (if p < 0 then 0 else p); p = (if p > int (np_len w) then int (np_len w) else p)
      in w\<lparr>np_cursor := nat p\<rparr>)"

definition np_insert_char :: "u8 \<Rightarrow> np \<Rightarrow> np option" where
  "np_insert_char c w =
     (if np_len w \<ge> NOTEPAD_MAX_TEXT - 1 then Some w
      else do { t \<leftarrow> (if np_cursor w < np_len w
                      then memmove (np_text w) (np_cursor w + 1) (np_cursor w) (np_len w - np_cursor w)
                      else Some (np_text w));
                t \<leftarrow> wr t (np_cursor w) c;
                Some (w\<lparr>np_text := t, np_len := np_len w + 1, np_cursor := np_cursor w + 1, np_dirty := True\<rparr>) })"

definition np_delete_char :: "np \<Rightarrow> np option" where
  "np_delete_char w =
     (if np_cursor w > 0 \<and> np_len w > 0
      then do { t \<leftarrow> memmove (np_text w) (np_cursor w - 1) (np_cursor w) (np_len w - np_cursor w);
                Some (w\<lparr>np_text := t, np_len := np_len w - 1, np_cursor := np_cursor w - 1, np_dirty := True\<rparr>) }
      else Some w)"

section \<open>Saving and opening\<close>

definition untitled_name :: bytes where
  "untitled_name = [117, 110, 116, 105, 116, 108, 101, 100, 46, 116, 120, 116, 0]"

text \<open>The window's title becomes the notepad's own copy of the file name.\<close>

definition np_set_title :: "bytes \<Rightarrow> np \<Rightarrow> np option" where
  "np_set_title name w =
     do { (_, t) \<leftarrow> copy_cstr (NOTEPAD_MAX_FNAME + 7) name (np_title w) 0;
          Some (w\<lparr>np_title := t, np_own_title := True\<rparr>) }"

text \<open>The text goes into slot \<open>idx\<close>, at most 4096 bytes of it.\<close>

definition np_write :: "int \<Rightarrow> np \<Rightarrow> fs_file list \<Rightarrow> (np \<times> fs_file list) option" where
  "np_write idx w fs =
     do { fs \<leftarrow> fs_store (nat idx) (np_text w) (if np_len w > FS_MAX_FDATA then FS_MAX_FDATA else np_len w) fs;
          Some (w\<lparr>np_file_idx := idx, np_dirty := False\<rparr>, fs) }"

definition np_save :: "np \<Rightarrow> fs_file list \<Rightarrow> (np \<times> fs_file list) option" where
  "np_save w fs =
     do { c \<leftarrow> rd (np_fname w) 0;
          w \<leftarrow> (if c = 0 then do { (_, nm) \<leftarrow> copy_cstr (NOTEPAD_MAX_FNAME - 1) untitled_name (np_fname w) 0;
                                 Some (w\<lparr>np_fname := nm\<rparr>) }
               else Some w);
          idx \<leftarrow> fs_find (np_fname w) fs;
          (idx, fs) \<leftarrow> (if idx < 0 then fs_create (np_fname w) fs else Some (idx, fs));
          if idx \<ge> 0
          then do { (w, fs) \<leftarrow> np_write idx w fs; t \<leftarrow> rd (np_title w) 0;
                    w \<leftarrow> (if t = 0 then np_set_title (np_fname w) w else Some w);
                    Some (w, fs) }
          else Some (w, fs) }"

definition np_new :: "np \<Rightarrow> fs_file list \<Rightarrow> (np \<times> fs_file list) option" where
  "np_new w fs =
     do { (w, fs) \<leftarrow> (if np_dirty w then np_save w fs else Some (w, fs));
          fname \<leftarrow> wr (np_fname w) 0 0; title \<leftarrow> wr (np_title w) 0 0; text \<leftarrow> wr (np_text w) 0 0;
          Some (w\<lparr>np_len := 0, np_cursor := 0, np_fname := fname, np_title := title, np_dirty := False,
                  np_file_idx := - 1, np_text := text, np_own_title := True\<rparr>, fs) }"

text \<open>From \<open>n\<close> on, the next slot in use, or \<open>i\<close> itself after a full turn; 32 steps are enough.\<close>

fun next_used :: "nat \<Rightarrow> fs_file list \<Rightarrow> nat \<Rightarrow> nat \<Rightarrow> nat option" where
  "next_used 0 fs i n = None"
| "next_used (Suc fuel) fs i n =
     (if n = i then Some n
      else do { f \<leftarrow> rd fs n; if ff_used f then Some n else next_used fuel fs i ((n + 1) mod FS_MAX_FILES) })"

fun open_scan :: "fs_file list \<Rightarrow> int \<Rightarrow> nat list \<Rightarrow> int \<Rightarrow> int option" where
  "open_scan fs k [] nx = Some nx"
| "open_scan fs k (i # is) nx =
     do { f \<leftarrow> rd fs i;
          if ff_used f then
            (let nx = (if nx < 0 then int i else nx) in
             if int i = k then do { n \<leftarrow> next_used FS_MAX_FILES fs i ((i + 1) mod FS_MAX_FILES); Some (int n) }
             else open_scan fs k is nx)
          else open_scan fs k is nx }"

text \<open>A file's bytes and its name into the notepad.\<close>

definition np_load :: "nat \<Rightarrow> np \<Rightarrow> fs_file list \<Rightarrow> np option" where
  "np_load i w fs =
     do { f \<leftarrow> rd fs i;
          (let n = (if ff_len f > NOTEPAD_MAX_TEXT - 1 then NOTEPAD_MAX_TEXT - 1 else ff_len f) in
           do { v \<leftarrow> rd_range (ff_data f) 0 n; t \<leftarrow> wr_range (np_text w) 0 v; t \<leftarrow> wr t n 0;
                (_, nm) \<leftarrow> copy_cstr (NOTEPAD_MAX_FNAME - 1) (ff_name f) (np_fname w) 0;
                Some (w\<lparr>np_text := t, np_len := n, np_cursor := n, np_file_idx := int i, np_fname := nm,
                        np_dirty := False\<rparr>) }) }"

definition np_open_next :: "np \<Rightarrow> fs_file list \<Rightarrow> (np \<times> fs_file list) option" where
  "np_open_next w fs =
     do { nx \<leftarrow> open_scan fs (np_file_idx w) [0 ..< FS_MAX_FILES] (- 1);
          if nx \<ge> 0 then
            do { f \<leftarrow> rd fs (nat nx);
                 if ff_used f then
                   do { (w, fs) \<leftarrow> (if np_dirty w then np_save w fs else Some (w, fs));
                        w \<leftarrow> np_load (nat nx) w fs; Some (w, fs) }
                 else Some (w, fs) }
          else Some (w, fs) }"

section \<open>The save-as line\<close>

definition name_char :: "u8 \<Rightarrow> bool" where
  "name_char ch \<longleftrightarrow> (97 \<le> ch \<and> ch \<le> 122) \<or> (65 \<le> ch \<and> ch \<le> 90) \<or> (48 \<le> ch \<and> ch \<le> 57) \<or> ch = 95 \<or> ch = 45 \<or> ch = 46"

fun all_name_chars :: "bytes \<Rightarrow> bool option" where
  "all_name_chars [] = None"
| "all_name_chars (c # cs) = (if c = 0 then Some True else if name_char c then all_name_chars cs else Some False)"

text \<open>The end of the line: the notepad leaves the mode, whatever the name was.\<close>

definition np_leave_save_as :: "np \<Rightarrow> np option" where
  "np_leave_save_as w =
     do { buf \<leftarrow> wr (np_save_as_buf w) 0 0;
          Some (w\<lparr>np_save_as := False, np_save_as_buf := buf, np_save_as_cursor := 0\<rparr>) }"

definition np_save_as_enter :: "np \<Rightarrow> fs_file list \<Rightarrow> (np \<times> fs_file list) option" where
  "np_save_as_enter w fs =
     do { (_, nm) \<leftarrow> copy_cstr (NOTEPAD_MAX_FNAME - 1) (np_save_as_buf w) (replicate NOTEPAD_MAX_FNAME 0) 0;
          c \<leftarrow> rd nm 0; ok \<leftarrow> all_name_chars nm;
          (w, fs) \<leftarrow>
            (if c \<noteq> 0 \<and> ok
             then do { existing \<leftarrow> fs_find nm fs;
                       fs \<leftarrow> (if existing \<ge> 0 \<and> existing \<noteq> np_file_idx w then fs_delete existing fs else Some fs);
                       idx \<leftarrow> fs_find nm fs;
                       (idx, fs) \<leftarrow> (if idx < 0 then fs_create nm fs else Some (idx, fs));
                       if idx \<ge> 0
                       then do { (w, fs) \<leftarrow> np_write idx w fs;
                                 (_, fname) \<leftarrow> copy_cstr (NOTEPAD_MAX_FNAME - 1) nm (np_fname w) 0;
                                 w \<leftarrow> np_set_title nm (w\<lparr>np_fname := fname\<rparr>);
                                 Some (w, fs) }
                       else Some (w, fs) }
             else Some (w, fs));
          w \<leftarrow> np_leave_save_as w; Some (w, fs) }"

text \<open>Characters move down over the one at \<open>i\<close>, up to the terminator.\<close>

function close_gap :: "bytes \<Rightarrow> nat \<Rightarrow> bytes option" where
  "close_gap b i =
     (if i < length b then
        (if b ! i \<noteq> 0 then do { c \<leftarrow> rd b (i + 1); close_gap (b[i := c]) (i + 1) } else Some b)
      else None)"
  by pat_completeness auto

termination by (relation "measure (\<lambda>(b, i). length b - i)") auto

declare close_gap.simps [simp del]

text \<open>\<open>n\<close> characters below \<open>i\<close> move up by one, the last first.\<close>

fun open_gap :: "bytes \<Rightarrow> nat \<Rightarrow> nat \<Rightarrow> bytes option" where
  "open_gap b i 0 = Some b"
| "open_gap b i (Suc n) = do { c \<leftarrow> rd b (i - 1); b \<leftarrow> wr b i c; open_gap b (i - 1) n }"

fun line_len :: "nat \<Rightarrow> bytes \<Rightarrow> nat \<Rightarrow> nat option" where
  "line_len 0 b len = do { c \<leftarrow> rd b len; Some len }"
| "line_len (Suc m) b len = do { c \<leftarrow> rd b len; if c \<noteq> 0 then line_len m b (len + 1) else Some len }"

definition np_save_as_char :: "u8 \<Rightarrow> np \<Rightarrow> np option" where
  "np_save_as_char c w =
     (if np_save_as_cursor w < NOTEPAD_MAX_FNAME - 1
      then do { len \<leftarrow> line_len (NOTEPAD_MAX_FNAME - 1) (np_save_as_buf w) 0;
                if len < NOTEPAD_MAX_FNAME - 1
                then (let cur = (if np_save_as_cursor w > len then len else np_save_as_cursor w) in
                      do { b \<leftarrow> open_gap (np_save_as_buf w) (len + 1) (len + 1 - cur);
                           b \<leftarrow> wr b cur c;
                           Some (w\<lparr>np_save_as_buf := b, np_save_as_cursor := cur + 1\<rparr>) })
                else Some w }
      else Some w)"

section \<open>The keys\<close>

text \<open>The line up and the line down.\<close>

fun up_target :: "bytes \<Rightarrow> nat \<Rightarrow> nat \<Rightarrow> nat \<Rightarrow> nat \<Rightarrow> nat \<Rightarrow> nat option" where
  "up_target text row i 0 cur_row target = Some target"
| "up_target text row i (Suc n) cur_row target =
     (if cur_row < row - 1
      then do { c \<leftarrow> rd text i; up_target text row (i + 1) n (if c = 10 then cur_row + 1 else cur_row) (i + 1) }
      else Some target)"

definition np_up :: "np \<Rightarrow> np option" where
  "np_up w =
     do { row \<leftarrow> np_cursor_row w;
          if row > 0
          then do { target \<leftarrow> up_target (np_text w) row 0 (np_cursor w) 0 0;
                    Some (if target < np_cursor w then np_move_cursor (int target - int (np_cursor w)) w else w) }
          else Some w }"

fun down_target :: "bytes \<Rightarrow> nat \<Rightarrow> nat \<Rightarrow> nat \<Rightarrow> nat \<Rightarrow> nat \<Rightarrow> nat option" where
  "down_target text here i 0 row target = Some target"
| "down_target text here i (Suc n) row target =
     do { c \<leftarrow> rd text i;
          if c = 10 then (if int row = int here - 1 then Some target
                          else down_target text here (i + 1) n (row + 1) (i + 1))
          else down_target text here (i + 1) n row (i + 1) }"

definition np_down :: "np \<Rightarrow> np option" where
  "np_down w =
     do { row \<leftarrow> np_cursor_row w;
          target \<leftarrow> down_target (np_text w) row (np_cursor w) (np_len w - np_cursor w) row (np_cursor w);
          Some (if target > np_cursor w then np_move_cursor (int target - int (np_cursor w)) w else w) }"

definition np_feed :: "u8 \<Rightarrow> np \<Rightarrow> fs_file list \<Rightarrow> (np \<times> fs_file list \<times> bool) option" where
  "np_feed c w fs =
     (if np_save_as w then
        (if c = 27 then do { w \<leftarrow> np_leave_save_as w; Some (w, fs, True) }
         else if c = 10 \<or> c = 13 then do { (w, fs) \<leftarrow> np_save_as_enter w fs; Some (w, fs, True) }
         else if c = 8 then
           (if np_save_as_cursor w > 0
            then do { b \<leftarrow> close_gap (np_save_as_buf w) (np_save_as_cursor w - 1);
                      Some (w\<lparr>np_save_as_buf := b, np_save_as_cursor := np_save_as_cursor w - 1\<rparr>, fs, False) }
            else Some (w, fs, False))
         else if 0x20 \<le> c \<and> c \<le> 0x7E then do { w \<leftarrow> np_save_as_char c w; Some (w, fs, False) }
         else Some (w, fs, False))
      else if 0x20 \<le> c \<and> c \<le> 0x7E then do { w \<leftarrow> np_insert_char c w; Some (w, fs, False) }
      else if c = 8 then do { w \<leftarrow> np_delete_char w; Some (w, fs, False) }
      else if c = 10 then do { w \<leftarrow> np_insert_char 10 w; Some (w, fs, False) }
      else if c = 3 then Some (np_move_cursor (- 1) w, fs, False)
      else if c = 4 then Some (np_move_cursor 1 w, fs, False)
      else if c = 5 then do { w \<leftarrow> np_up w; Some (w, fs, False) }
      else if c = 6 then do { w \<leftarrow> np_down w; Some (w, fs, False) }
      else Some (w, fs, False))"

text \<open>The toolbar's save-as button.\<close>

definition np_start_save_as :: "np \<Rightarrow> np option" where
  "np_start_save_as w =
     (if np_save_as w then Some w
      else do { c \<leftarrow> rd (np_fname w) 0;
                (n, buf) \<leftarrow> copy_cstr (NOTEPAD_MAX_FNAME - 1) (if c \<noteq> 0 then np_fname w else untitled_name)
                              (np_save_as_buf w) 0;
                Some (w\<lparr>np_save_as_buf := buf, np_save_as_cursor := n, np_save_as := True\<rparr>) })"

section \<open>The file manager's list\<close>

record fm =
  fm_sel :: int
  fm_scroll :: int
  fm_confirming :: bool
  fm_confirm_idx :: int

definition fm_init :: "fm \<Rightarrow> fm" where
  "fm_init w = w\<lparr>fm_sel := 0, fm_scroll := 0, fm_confirming := False, fm_confirm_idx := - 1\<rparr>"

definition fm_count :: "fs_file list \<Rightarrow> int" where
  "fm_count fs = int (length (filter ff_used (take FS_MAX_FILES fs)))"

fun fm_nth_from :: "int \<Rightarrow> int \<Rightarrow> nat \<Rightarrow> fs_file list \<Rightarrow> int" where
  "fm_nth_from idx c i [] = - 1"
| "fm_nth_from idx c i (f # fs) =
     (if ff_used f then (if c = idx then int i else fm_nth_from idx (c + 1) (i + 1) fs)
      else fm_nth_from idx c (i + 1) fs)"

definition fm_nth :: "int \<Rightarrow> fs_file list \<Rightarrow> int" where
  "fm_nth idx fs = fm_nth_from idx 0 0 (take FS_MAX_FILES fs)"

end
