(* ===== verification/Rtc.thy ===== *)
theory Rtc
  imports Sol_Prelude
begin

text \<open>
  The CMOS clock, \<^verbatim>\<open>kernel/arch/x86_64/rtc.c\<close>. The chip is two functions: what the status
  register A reads at each poll, and what each register holds when it is read. Dates are integers,
  as in the code; a year, a month and a day become a day number in the lemmas.
\<close>

section \<open>Reading the clock\<close>

record rtc_datetime =
  dt_year :: int
  dt_month :: int
  dt_day :: int
  dt_hour :: int
  dt_minute :: int
  dt_second :: int

text \<open>The bounded wait for the end of an update.\<close>

fun rtc_wait :: "(nat \<Rightarrow> u8) \<Rightarrow> nat \<Rightarrow> nat \<Rightarrow> bool" where
  "rtc_wait stat_a i 0 = False"
| "rtc_wait stat_a i (Suc n) = (if stat_a i AND 0x80 = 0 then True else rtc_wait stat_a (Suc i) n)"

definition rtc_update_done :: "(nat \<Rightarrow> u8) \<Rightarrow> bool" where
  "rtc_update_done stat_a = rtc_wait stat_a 0 100000"

definition bcd_to_bin :: "u8 \<Rightarrow> int" where
  "bcd_to_bin v = uint (drop_bit 4 v AND 0x0F) * 10 + uint (v AND 0x0F)"

definition rtc_read :: "(nat \<Rightarrow> u8) \<Rightarrow> (u8 \<Rightarrow> u8) \<Rightarrow> rtc_datetime option" where
  "rtc_read stat_a reg =
     (if \<not> rtc_update_done stat_a then None
      else (let hour = reg 0x04; b = reg 0x0B;
                bin = (b AND 0x04 \<noteq> 0); hour12 = (b AND 0x02 = 0);
                field = (\<lambda>v. if bin then uint v else bcd_to_bin v);
                h = (if bin then uint hour else bcd_to_bin (hour AND 0x7F));
                pm = (hour AND 0x80 \<noteq> 0);
                h1 = (if hour12 \<and> pm \<and> h \<noteq> 12 then h + 12 else h);
                h2 = (if hour12 \<and> \<not> pm \<and> h1 = 12 then 0 else h1)
            in Some \<lparr>dt_year = 2000 + field (reg 0x09), dt_month = field (reg 0x08),
                     dt_day = field (reg 0x07), dt_hour = h2,
                     dt_minute = field (reg 0x02), dt_second = field (reg 0x00)\<rparr>))"

section \<open>Indian Standard Time\<close>

definition leap_year :: "int \<Rightarrow> bool" where
  "leap_year y \<longleftrightarrow> y mod 4 = 0 \<and> (y mod 100 \<noteq> 0 \<or> y mod 400 = 0)"

definition days_in_month :: "int \<Rightarrow> int \<Rightarrow> int" where
  "days_in_month month year =
     (if month < 1 \<or> month > 12 then 31
      else if month = 2 \<and> leap_year year then 29
      else [31, 28, 31, 30, 31, 30, 31, 31, 30, 31, 30, 31] ! nat (month - 1))"

definition rtc_to_ist :: "rtc_datetime \<Rightarrow> rtc_datetime" where
  "rtc_to_ist dt =
     (let total = dt_hour dt * 60 + dt_minute dt + 330;
          dt = dt\<lparr>dt_hour := (total div 60) mod 24, dt_minute := total mod 60\<rparr>
      in if total \<ge> 24 * 60 then
           (let dt = dt\<lparr>dt_day := dt_day dt + 1\<rparr> in
            if dt_day dt > days_in_month (dt_month dt) (dt_year dt) then
              (let dt = dt\<lparr>dt_day := 1, dt_month := dt_month dt + 1\<rparr> in
               if dt_month dt > 12 then dt\<lparr>dt_month := 1, dt_year := dt_year dt + 1\<rparr> else dt)
            else dt)
         else dt)"

definition rtc_read_ist :: "(nat \<Rightarrow> u8) \<Rightarrow> (u8 \<Rightarrow> u8) \<Rightarrow> rtc_datetime option" where
  "rtc_read_ist stat_a reg = map_option rtc_to_ist (rtc_read stat_a reg)"

section \<open>Dates as numbers\<close>

text \<open>The calendar, apart from the code: its months and leap years, and the number of a day since the start of the
  year 2000 in closed form.\<close>

definition gregorian_leap :: "int \<Rightarrow> bool" where
  "gregorian_leap y \<longleftrightarrow> 4 dvd y \<and> (100 dvd y \<longrightarrow> 400 dvd y)"

definition month_days :: "int \<Rightarrow> int \<Rightarrow> int" where
  "month_days y m = (if m \<in> {4, 6, 9, 11} then 30 else if m = 2 then (if gregorian_leap y then 29 else 28) else 31)"

definition valid_dt :: "rtc_datetime \<Rightarrow> bool" where
  "valid_dt dt \<longleftrightarrow>
     2000 \<le> dt_year dt \<and> 1 \<le> dt_month dt \<and> dt_month dt \<le> 12
   \<and> 1 \<le> dt_day dt \<and> dt_day dt \<le> month_days (dt_year dt) (dt_month dt)
   \<and> 0 \<le> dt_hour dt \<and> dt_hour dt < 24 \<and> 0 \<le> dt_minute dt \<and> dt_minute dt < 60
   \<and> 0 \<le> dt_second dt \<and> dt_second dt < 60"

definition leap_days :: "int \<Rightarrow> int" where
  "leap_days y = y div 4 - y div 100 + y div 400"

definition month_start :: "int \<Rightarrow> int \<Rightarrow> int" where
  "month_start y m = [0, 31, 59, 90, 120, 151, 181, 212, 243, 273, 304, 334] ! nat (m - 1)
     + (if 2 < m \<and> gregorian_leap y then 1 else 0)"

definition day_number :: "int \<Rightarrow> int \<Rightarrow> int \<Rightarrow> int" where
  "day_number y m d = 365 * (y - 2000) + (leap_days (y - 1) - leap_days 1999) + month_start y m + (d - 1)"

text \<open>The minutes since the start of the year 2000.\<close>

definition minutes :: "rtc_datetime \<Rightarrow> int" where
  "minutes dt = day_number (dt_year dt) (dt_month dt) (dt_day dt) * 1440 + dt_hour dt * 60 + dt_minute dt"

lemma leap_year_gregorian: "leap_year y = gregorian_leap y"
  by (auto simp: leap_year_def gregorian_leap_def dvd_eq_mod_eq_0)

lemma month_cases:
  fixes m :: int
  assumes "1 \<le> m" "m \<le> 12"
  shows "m = 1 \<or> m = 2 \<or> m = 3 \<or> m = 4 \<or> m = 5 \<or> m = 6 \<or> m = 7 \<or> m = 8 \<or> m = 9 \<or> m = 10 \<or> m = 11 \<or> m = 12"
  using assms by presburger

lemma days_in_month_calendar: "1 \<le> m \<Longrightarrow> m \<le> 12 \<Longrightarrow> days_in_month m y = month_days y m"
  by (drule (1) month_cases) (elim disjE; simp add: days_in_month_def month_days_def leap_year_gregorian)

lemma next_day: "day_number y m (d + 1) = day_number y m d + 1"
  by (simp add: day_number_def)

lemma next_month:
  assumes "1 \<le> m" "m < 12"
  shows "day_number y (m + 1) 1 = day_number y m (month_days y m) + 1"
proof -
  have "m \<le> 12" using assms by simp
  from month_cases [OF assms(1) this] assms(2) show ?thesis
    by (elim disjE) (simp_all add: day_number_def month_start_def month_days_def)
qed

lemma leap_days_next: "leap_days y = leap_days (y - 1) + (if gregorian_leap y then 1 else 0)"
proof -
  have step: "y div k = (y - 1) div k + (if k dvd y then 1 else 0)" if "0 < k" for k :: int
  proof (cases "k dvd y")
    case True
    then obtain z where z: "y = k * z" by blast
    have "(k * z - 1) div k = (k * (z - 1) + (k - 1)) div k" by (simp add: algebra_simps)
    also have "\<dots> = (z - 1) + (k - 1) div k" using that by (simp add: div_mult_self4)
    finally show ?thesis using that z by simp
  next
    case False
    have "y = k * (y div k) + y mod k" by simp
    moreover have "0 < y mod k" "y mod k < k" using False that pos_mod_sign [OF that, of y] pos_mod_bound [OF that, of y]
      by (simp_all add: dvd_eq_mod_eq_0)
    ultimately have "(y - 1) div k = y div k"
      by (intro int_div_pos_eq [of _ _ _ "y mod k - 1"]) linarith+
    then show ?thesis using False by simp
  qed
  have d: "100 dvd y \<Longrightarrow> 4 dvd y" "400 dvd y \<Longrightarrow> 100 dvd y" by (auto intro: dvd_trans [of _ 100 y] dvd_trans [of 4 100 y])
  have "leap_days y = leap_days (y - 1) + ((if 4 dvd y then 1 else 0) - (if 100 dvd y then 1 else 0) + (if 400 dvd y then 1 else 0))"
    unfolding leap_days_def step [of 4, simplified] step [of 100, simplified] step [of 400, simplified] by linarith
  also have "(if 4 dvd y then 1 else 0) - (if 100 dvd y then 1 else 0) + (if 400 dvd y then 1 else 0)
      = (if gregorian_leap y then 1 else 0 :: int)"
    using d by (cases "400 dvd y"; cases "100 dvd y"; cases "4 dvd y"; simp add: gregorian_leap_def)
  finally show ?thesis .
qed

lemma next_year: "day_number (y + 1) 1 1 = day_number y 12 31 + 1"
  using leap_days_next [of y] by (simp add: day_number_def month_start_def)

lemma ist_time:
  fixes t :: int
  assumes "0 \<le> t" "t < 2880"
  shows "t div 60 mod 24 * 60 + t mod 60 = (if t \<ge> 1440 then t - 1440 else t)"
proof -
  have "t div 60 mod 24 = (if t \<ge> 1440 then t div 60 - 24 else t div 60)"
  proof (cases "t \<ge> 1440")
    case True
    then have "24 \<le> t div 60" "t div 60 \<le> 47"
      using zdiv_mono1 [of 1440 t 60] zdiv_mono1 [of t 2879 60] assms by simp_all
    then have "(t div 60 - 24) mod 24 = t div 60 - 24" by (intro mod_pos_pos_trivial) simp_all
    then show ?thesis using True by simp
  next
    case False
    then have "0 \<le> t div 60" "t div 60 \<le> 23"
      using zdiv_mono1 [of 0 t 60] zdiv_mono1 [of t 1439 60] assms by simp_all
    then show ?thesis using False by simp
  qed
  then show ?thesis using div_mult_mod_eq [of t 60] by (auto simp: left_diff_distrib)
qed

lemma last_month: "1 \<le> m \<Longrightarrow> m \<le> 12 \<Longrightarrow> 28 \<le> month_days y m"
  by (simp add: month_days_def)

lemma month_short: "month_days y m \<le> 31"
  by (simp add: month_days_def)

section \<open>Register encodings\<close>

text \<open>
  How the chip encodes a value and an hour in its four modes: binary or BCD, 24 or 12 hours, where
  the 12-hour modes set bit 7 for the afternoon.
\<close>

definition enc_field :: "bool \<Rightarrow> int \<Rightarrow> u8" where
  "enc_field bin v = (if bin then word_of_int v else word_of_int (v div 10 * 16 + v mod 10))"

definition enc_hour :: "bool \<Rightarrow> bool \<Rightarrow> int \<Rightarrow> u8" where
  "enc_hour bin h24 h =
     (if h24 then enc_field bin h
      else enc_field bin (if h mod 12 = 0 then 12 else h mod 12) OR (if h \<ge> 12 then 0x80 else 0))"

definition enc_reg :: "bool \<Rightarrow> bool \<Rightarrow> rtc_datetime \<Rightarrow> u8 \<Rightarrow> u8" where
  "enc_reg bin h24 dt r =
     (if r = 0x00 then enc_field bin (dt_second dt)
      else if r = 0x02 then enc_field bin (dt_minute dt)
      else if r = 0x04 then enc_hour bin h24 (dt_hour dt)
      else if r = 0x07 then enc_field bin (dt_day dt)
      else if r = 0x08 then enc_field bin (dt_month dt)
      else if r = 0x09 then enc_field bin (dt_year dt - 2000)
      else if r = 0x0B then (if bin then 4 else 0) OR (if h24 then 2 else 0)
      else 0)"

definition dec_field :: "bool \<Rightarrow> u8 \<Rightarrow> int" where
  "dec_field bin v = (if bin then uint v else bcd_to_bin v)"

definition dec_hour :: "bool \<Rightarrow> bool \<Rightarrow> u8 \<Rightarrow> int" where
  "dec_hour bin h24 hour =
     (let h = (if bin then uint hour else bcd_to_bin (hour AND 0x7F));
          pm = (hour AND 0x80 \<noteq> 0);
          h1 = (if \<not> h24 \<and> pm \<and> h \<noteq> 12 then h + 12 else h)
      in if \<not> h24 \<and> \<not> pm \<and> h1 = 12 then 0 else h1)"

lemma rtc_wait_ready: "stat_a i AND 0x80 = 0 \<Longrightarrow> 0 < n \<Longrightarrow> rtc_wait stat_a i n"
  by (cases n) auto

lemma list_all_int: "list_all P (map int [0 ..< n]) \<Longrightarrow> 0 \<le> v \<Longrightarrow> v < int n \<Longrightarrow> P v"
  by (auto simp: list_all_iff dest!: bspec [of _ _ "nat v"])

lemma dec_enc_field: "0 \<le> v \<Longrightarrow> v < 100 \<Longrightarrow> dec_field bin (enc_field bin v) = v"
proof -
  have "list_all (\<lambda>v. dec_field True (enc_field True v) = v \<and> dec_field False (enc_field False v) = v)
      (map int [0 ..< 100])" by code_simp
  from list_all_int [OF this] show "0 \<le> v \<Longrightarrow> v < 100 \<Longrightarrow> ?thesis" by (cases bin) simp_all
qed

lemma dec_enc_hour:
  assumes "0 \<le> h" "h < 24"
  shows "dec_hour bin h24 (enc_hour bin h24 h) =
    (if bin \<and> \<not> h24 \<and> h \<ge> 12 then 140 + (if h = 12 then 12 else h - 12) else h)"
proof -
  have "list_all (\<lambda>h. list_all (\<lambda>(bin, h24). dec_hour bin h24 (enc_hour bin h24 h) =
      (if bin \<and> \<not> h24 \<and> h \<ge> 12 then 140 + (if h = 12 then 12 else h - 12) else h))
      [(True, True), (True, False), (False, True), (False, False)]) (map int [0 ..< 24])" by code_simp
  from list_all_int [OF this assms(1)] assms(2) show ?thesis by (cases bin; cases h24) simp_all
qed

lemma rtc_read_dec:
  assumes "rtc_update_done stat_a"
  shows "rtc_read stat_a (enc_reg bin h24 dt) =
    Some \<lparr>dt_year = 2000 + dec_field bin (enc_field bin (dt_year dt - 2000)),
          dt_month = dec_field bin (enc_field bin (dt_month dt)),
          dt_day = dec_field bin (enc_field bin (dt_day dt)),
          dt_hour = dec_hour bin h24 (enc_hour bin h24 (dt_hour dt)),
          dt_minute = dec_field bin (enc_field bin (dt_minute dt)),
          dt_second = dec_field bin (enc_field bin (dt_second dt))\<rparr>"
  using assms by (cases bin; cases h24) (simp_all add: rtc_read_def enc_reg_def dec_field_def dec_hour_def Let_def)

section \<open>Properties\<close>

text \<open>Reading the clock gives back the date and time that the chip holds, in BCD mode with 12 or
  24 hours and in binary mode with 24 hours. In binary mode with 12 hours the afternoon flag is not
  cleared, and every time from noon on is read with an hour above 140.\<close>

theorem rtc_read_decodes:
  assumes "rtc_update_done stat_a" and v: "valid_dt dt" "dt_year dt < 2100"
  shows "rtc_read stat_a (enc_reg bin h24 dt) =
    Some (if bin \<and> \<not> h24 \<and> dt_hour dt \<ge> 12
          then dt\<lparr>dt_hour := 140 + (if dt_hour dt = 12 then 12 else dt_hour dt - 12)\<rparr> else dt)"
proof -
  have "dt_day dt < 100"
  proof -
    have "month_days (dt_year dt) (dt_month dt) \<le> 31" by (rule month_short)
    then show ?thesis using v by (simp add: valid_dt_def)
  qed
  then show ?thesis
    unfolding rtc_read_dec [OF assms(1)]
    using v by (simp add: valid_dt_def dec_enc_field dec_enc_hour)
qed

theorem rtc_read_decodes_witness:
  "rtc_read (\<lambda>_. 0) (enc_reg False False \<lparr>dt_year = 2024, dt_month = 2, dt_day = 29, dt_hour = 20,
     dt_minute = 15, dt_second = 7\<rparr>) = Some \<lparr>dt_year = 2024, dt_month = 2, dt_day = 29,
     dt_hour = 20, dt_minute = 15, dt_second = 7\<rparr>"
proof -
  have "rtc_update_done (\<lambda>_. 0)" by (simp add: rtc_update_done_def rtc_wait_ready)
  then show ?thesis
    using rtc_read_decodes [of "\<lambda>_. 0" "\<lparr>dt_year = 2024, dt_month = 2, dt_day = 29, dt_hour = 20,
     dt_minute = 15, dt_second = 7\<rparr>" False False]
    by (simp add: valid_dt_def month_days_def gregorian_leap_def)
qed

text \<open>C40. The conversion to Indian Standard Time adds exactly 330 minutes to any date that the registers can hold (the years
  2000 to 2255), across the end of a day, a month, a leap February or a year, leaves the seconds as they are, and yields a date of the calendar
  again. Dates are counted by the Gregorian rules, in closed form.\<close>

theorem rtc_to_ist_correct:
  assumes v: "valid_dt dt" and "dt_year dt \<le> 2255"
  shows "minutes (rtc_to_ist dt) = minutes dt + 330 \<and> dt_second (rtc_to_ist dt) = dt_second dt \<and> valid_dt (rtc_to_ist dt)"
proof -
  let ?t = "dt_hour dt * 60 + dt_minute dt + 330" and ?last = "month_days (dt_year dt) (dt_month dt)"
  have h: "0 \<le> dt_hour dt" "dt_hour dt < 24" "0 \<le> dt_minute dt" "dt_minute dt < 60"
    and m: "1 \<le> dt_month dt" "dt_month dt \<le> 12" and d: "dt_day dt \<le> ?last"
    using v by (simp_all add: valid_dt_def)
  note dim = days_in_month_calendar [OF m, of "dt_year dt"]
  obtain h' m' where hm: "h' = ?t div 60 mod 24" "m' = ?t mod 60" by simp
  have T: "h' * 60 + m' = (if ?t \<ge> 1440 then ?t - 1440 else ?t)"
    unfolding hm by (rule ist_time) (use h in linarith)+
  have B: "0 \<le> h'" "h' < 24" "0 \<le> m'" "m' < 60" by (simp_all add: hm)
  let ?dt = "dt\<lparr>dt_hour := h', dt_minute := m'\<rparr>"
  consider (same) "\<not> ?t \<ge> 1440" | (day) "?t \<ge> 1440" "dt_day dt + 1 \<le> ?last"
    | (month) "?t \<ge> 1440" "dt_day dt = ?last" "dt_month dt < 12" | (year) "?t \<ge> 1440" "dt_day dt = ?last" "dt_month dt = 12"
    using d m by linarith
  then show ?thesis
  proof cases
    case same
    then have r: "rtc_to_ist dt = ?dt" by (simp add: rtc_to_ist_def Let_def hm)
    have "h' * 60 + m' = ?t" using T same by simp
    then show ?thesis using v B by (simp add: r minutes_def valid_dt_def)
  next
    case day
    then have r: "rtc_to_ist dt = ?dt\<lparr>dt_day := dt_day dt + 1\<rparr>" by (simp add: rtc_to_ist_def Let_def hm dim)
    have "h' * 60 + m' = ?t - 1440" using T day by simp
    then show ?thesis using v B day by (simp add: r minutes_def valid_dt_def next_day)
  next
    case month
    then have r: "rtc_to_ist dt = ?dt\<lparr>dt_day := 1, dt_month := dt_month dt + 1\<rparr>" by (simp add: rtc_to_ist_def Let_def hm dim)
    have "h' * 60 + m' = ?t - 1440" using T month by simp
    then show ?thesis
      using v B month next_month [OF m(1) month(3), of "dt_year dt"] last_month [of "dt_month dt + 1" "dt_year dt"]
      by (simp add: r minutes_def valid_dt_def)
  next
    case year
    then have r: "rtc_to_ist dt = ?dt\<lparr>dt_day := 1, dt_month := 1, dt_year := dt_year dt + 1\<rparr>"
      using dim by (simp add: rtc_to_ist_def Let_def hm)
    have "h' * 60 + m' = ?t - 1440" using T year by simp
    moreover have "?last = 31" using year(3) by (simp add: month_days_def)
    ultimately show ?thesis
      using v B year next_year [of "dt_year dt"] last_month [of 1 "dt_year dt + 1"]
      by (simp add: r minutes_def valid_dt_def)
  qed
qed

theorem rtc_to_ist_correct_witness:
  "minutes (rtc_to_ist \<lparr>dt_year = 2024, dt_month = 2, dt_day = 29, dt_hour = 20, dt_minute = 15,
     dt_second = 7\<rparr>) = minutes \<lparr>dt_year = 2024, dt_month = 2, dt_day = 29, dt_hour = 20,
     dt_minute = 15, dt_second = 7\<rparr> + 330"
  using rtc_to_ist_correct [of "\<lparr>dt_year = 2024, dt_month = 2, dt_day = 29, dt_hour = 20,
     dt_minute = 15, dt_second = 7\<rparr>"]
  by (simp add: valid_dt_def month_days_def gregorian_leap_def)

end
