(* ===== verification/Desktop_Terminal.thy ===== *)
theory Desktop_Terminal
  imports Desktop_Files Rtc
begin

text \<open>
  The terminal of \<^verbatim>\<open>kernel/desktop.c\<close>: number and clock texts, the scrollback of 80 lines, the input line
  and the command interpreter; and the address line of the browser, which is edited in the same way, with
  its navigation. The clock and the heap's figures are parameters; a request to the network is a value.
\<close>

section \<open>Texts\<close>

definition lit :: "string \<Rightarrow> bytes" where
  "lit s = map of_char s"

text \<open>A local array of \<open>n\<close> bytes that receives a text and its terminator.\<close>

definition in_buf :: "nat \<Rightarrow> bytes \<Rightarrow> bytes option" where
  "in_buf n s = (if length s < n then Some (s @ [0]) else None)"

fun low_digits :: "nat \<Rightarrow> nat \<Rightarrow> bytes" where
  "low_digits 0 v = []"
| "low_digits (Suc n) v = (if v > 0 then of_nat (48 + v mod 10) # low_digits n (v div 10) else [])"

definition put_digits :: "int \<Rightarrow> nat \<Rightarrow> bytes" where
  "put_digits v digits =
     (let t = (if v = 0 then [48] else low_digits 6 (nat v)) in rev (t @ replicate (digits - length t) 48))"

definition ul_to_str :: "u64 \<Rightarrow> bytes" where
  "ul_to_str v = rev (if v = 0 then [48] else low_digits 22 (unat v))"

definition months :: "string list" where
  "months = [''Jan'', ''Feb'', ''Mar'', ''Apr'', ''May'', ''Jun'', ''Jul'', ''Aug'', ''Sep'', ''Oct'', ''Nov'', ''Dec'']"

definition month_name :: "int \<Rightarrow> bytes" where
  "month_name m = (if 1 \<le> m \<and> m \<le> 12 then lit (months ! nat (m - 1)) else lit ''???'')"

definition date_text :: "rtc_datetime \<Rightarrow> bytes" where
  "date_text dt = month_name (dt_month dt) @ lit '' '' @ put_digits (dt_day dt) 2 @ lit '', '' @ put_digits (dt_year dt) 4"

definition time_text :: "rtc_datetime \<Rightarrow> bytes" where
  "time_text dt = put_digits (dt_hour dt) 2 @ lit '':'' @ put_digits (dt_minute dt) 2 @ lit '':'' @ put_digits (dt_second dt) 2"

definition build_clock_str :: "rtc_datetime option \<Rightarrow> bytes option" where
  "build_clock_str now =
     in_buf 40 (case now of None \<Rightarrow> lit ''--:--:--'' | Some dt \<Rightarrow> time_text dt @ lit '' '' @ date_text dt)"

section \<open>A line of input\<close>

definition TERM_SCROLL_MAX :: nat where "TERM_SCROLL_MAX = 80"
definition TERM_LINE_MAX :: nat where "TERM_LINE_MAX = 88"

record line =
  ln_buf :: bytes
  ln_len :: nat
  ln_cur :: nat

definition line_insert :: "u8 \<Rightarrow> line \<Rightarrow> line option" where
  "line_insert c s =
     (if ln_len s < TERM_LINE_MAX - 1
      then do { b \<leftarrow> (if ln_cur s < ln_len s then memmove (ln_buf s) (ln_cur s + 1) (ln_cur s) (ln_len s - ln_cur s)
                      else Some (ln_buf s));
                b \<leftarrow> wr b (ln_cur s) c;
                Some \<lparr>ln_buf = b, ln_len = ln_len s + 1, ln_cur = ln_cur s + 1\<rparr> }
      else Some s)"

definition line_back :: "line \<Rightarrow> line option" where
  "line_back s =
     (if ln_cur s > 0
      then do { b \<leftarrow> (if ln_cur s < ln_len s then memmove (ln_buf s) (ln_cur s - 1) (ln_cur s) (ln_len s - ln_cur s)
                      else Some (ln_buf s));
                b \<leftarrow> wr b (ln_len s - 1) 0;
                Some \<lparr>ln_buf = b, ln_len = ln_len s - 1, ln_cur = ln_cur s - 1\<rparr> }
      else Some s)"

definition line_left :: "line \<Rightarrow> line" where
  "line_left s = (if ln_cur s > 0 then s\<lparr>ln_cur := ln_cur s - 1\<rparr> else s)"

definition line_right :: "line \<Rightarrow> line" where
  "line_right s = (if ln_cur s < ln_len s then s\<lparr>ln_cur := ln_cur s + 1\<rparr> else s)"

section \<open>The scrollback\<close>

record tm =
  tm_lines :: "bytes list"
  tm_len :: nat
  tm_scroll :: nat
  tm_input :: line

text \<open>The oldest line is dropped by moving the rows; \<open>s\<close> is a string with its terminator.\<close>

definition term_append_line :: "bytes \<Rightarrow> tm \<Rightarrow> tm option" where
  "term_append_line s w =
     (let w = (if tm_len w \<ge> TERM_SCROLL_MAX
               then w\<lparr>tm_lines := take (TERM_SCROLL_MAX - 1) (drop 1 (tm_lines w)) @ drop (TERM_SCROLL_MAX - 1) (tm_lines w),
                      tm_len := TERM_SCROLL_MAX - 1\<rparr>
               else w) in
      do { row \<leftarrow> rd (tm_lines w) (tm_len w);
           (_, row) \<leftarrow> copy_cstr (TERM_LINE_MAX - 1) s row 0;
           Some (w\<lparr>tm_lines := (tm_lines w)[tm_len w := row], tm_len := tm_len w + 1, tm_scroll := 0\<rparr>) })"

definition term_print :: "string \<Rightarrow> tm \<Rightarrow> tm option" where
  "term_print s w = term_append_line (lit s @ [0]) w"

fun term_prints :: "string list \<Rightarrow> tm \<Rightarrow> tm option" where
  "term_prints [] w = Some w"
| "term_prints (s # ss) w = do { w \<leftarrow> term_print s w; term_prints ss w }"

definition term_print_time :: "rtc_datetime option \<Rightarrow> tm \<Rightarrow> tm option" where
  "term_print_time now w =
     (case now of
        None \<Rightarrow> term_print ''Time: --:--:--'' w
      | Some dt \<Rightarrow> do { buf \<leftarrow> in_buf 24 (lit ''Time: '' @ time_text dt @ lit '' IST''); term_append_line buf w })"

definition term_print_date :: "rtc_datetime option \<Rightarrow> tm \<Rightarrow> tm option" where
  "term_print_date now w =
     (case now of
        None \<Rightarrow> term_print ''Date: --/--/----'' w
      | Some dt \<Rightarrow> do { buf \<leftarrow> in_buf 32 (lit ''Date: '' @ date_text dt); term_append_line buf w })"

definition term_print_mem :: "u64 \<Rightarrow> u64 \<Rightarrow> tm \<Rightarrow> tm option" where
  "term_print_mem used free w =
     do { buf \<leftarrow> in_buf 96 (lit ''Heap: '' @ ul_to_str (used div 1024) @ lit '' KiB used, '' @ ul_to_str (free div 1024)
                            @ lit '' KiB free'');
          term_append_line buf w }"

section \<open>The command interpreter\<close>

text \<open>What a command may ask about the rest of the system.\<close>

record sys_info =
  si_now :: "rtc_datetime option"
  si_used :: u64
  si_free :: u64

definition TERM_PROMPT :: string where "TERM_PROMPT = ''solos@sol$ ''"

text \<open>The end of a run of blanks, or of other characters, from \<open>i\<close> on.\<close>

function skip_blanks :: "bytes \<Rightarrow> nat \<Rightarrow> nat option" where
  "skip_blanks b i = (if i < length b then (if b ! i = 32 then skip_blanks b (i + 1) else Some i) else None)"
  by pat_completeness auto

termination by (relation "measure (\<lambda>(b, i). length b - i)") auto

function skip_token :: "bytes \<Rightarrow> nat \<Rightarrow> nat option" where
  "skip_token b i = (if i < length b then (if b ! i \<noteq> 0 \<and> b ! i \<noteq> 32 then skip_token b (i + 1) else Some i) else None)"
  by pat_completeness auto

termination by (relation "measure (\<lambda>(b, i). length b - i)") auto

declare skip_blanks.simps [simp del] skip_token.simps [simp del]

text \<open>The comparison of the token with a name, by its length and then by its bytes.\<close>

definition token_is :: "bytes \<Rightarrow> nat \<Rightarrow> nat \<Rightarrow> string \<Rightarrow> bool option" where
  "token_is cmd a n name =
     (if n = length name then do { v \<leftarrow> rd_range cmd a n; Some (v = lit name) } else Some False)"

text \<open>The result is the terminal and whether the machine is asked to reboot, after which nothing runs.\<close>

definition term_command :: "sys_info \<Rightarrow> bytes \<Rightarrow> nat \<Rightarrow> nat \<Rightarrow> nat \<Rightarrow> tm \<Rightarrow> (tm \<times> bool) option" where
  "term_command si cmd a n rest w =
     do { is_help \<leftarrow> token_is cmd a n ''help''; is_clear \<leftarrow> token_is cmd a n ''clear''; is_about \<leftarrow> token_is cmd a n ''about'';
          is_echo \<leftarrow> token_is cmd a n ''echo''; is_time \<leftarrow> token_is cmd a n ''time''; is_date \<leftarrow> token_is cmd a n ''date'';
          is_mem \<leftarrow> token_is cmd a n ''mem''; is_reboot \<leftarrow> token_is cmd a n ''reboot'';
          if is_help then do { w \<leftarrow> term_prints [''Commands: help, clear, about, echo,'', ''time, date, mem, reboot.''] w; Some (w, False) }
          else if is_clear then Some (w\<lparr>tm_len := 0, tm_scroll := 0\<rparr>, False)
          else if is_about
          then do { w \<leftarrow> term_prints [''Sol OS'', ''Version 0.1'', ''Architecture: x86_64'', ''Resolution: 1920x1080'',
                                     ''Bootloader: Limine''] w; Some (w, False) }
          else if is_echo
          then do { c \<leftarrow> rd cmd rest; w \<leftarrow> (if c \<noteq> 0 then term_append_line (drop rest cmd) w else Some w); Some (w, False) }
          else if is_time then do { w \<leftarrow> term_print_time (si_now si) w; Some (w, False) }
          else if is_date then do { w \<leftarrow> term_print_date (si_now si) w; Some (w, False) }
          else if is_mem then do { w \<leftarrow> term_print_mem (si_used si) (si_free si) w; Some (w, False) }
          else if is_reboot then do { w \<leftarrow> term_print ''Rebooting...'' w; Some (w, True) }
          else do { w \<leftarrow> term_print ''Unknown command. Type 'help'.'' w; Some (w, False) } }"

definition term_exec :: "sys_info \<Rightarrow> tm \<Rightarrow> (tm \<times> bool) option" where
  "term_exec si w =
     (let s = tm_input w; len = ln_len s in
      do { typed \<leftarrow> rd_range (ln_buf s) 0 (min len (TERM_LINE_MAX - 1 - length TERM_PROMPT));
           echo \<leftarrow> in_buf TERM_LINE_MAX (lit TERM_PROMPT @ typed);
           w \<leftarrow> term_append_line echo w;
           line \<leftarrow> rd_range (ln_buf s) 0 (if len > TERM_LINE_MAX - 1 then TERM_LINE_MAX - 1 else len);
           cmd \<leftarrow> in_buf TERM_LINE_MAX line;
           b \<leftarrow> wr (ln_buf s) 0 0;
           (let w = w\<lparr>tm_input := \<lparr>ln_buf = b, ln_len = 0, ln_cur = 0\<rparr>\<rparr> in
            do { a \<leftarrow> skip_blanks cmd 0; c \<leftarrow> rd cmd a;
                 if c = 0 then Some (w, False)
                 else do { t \<leftarrow> skip_token cmd a; rest \<leftarrow> skip_blanks cmd t; term_command si cmd a (t - a) rest w } }) })"

definition term_feed :: "sys_info \<Rightarrow> u8 \<Rightarrow> tm \<Rightarrow> (tm \<times> bool) option" where
  "term_feed si c w =
     (if 0x20 \<le> c \<and> c \<le> 0x7E then do { s \<leftarrow> line_insert c (tm_input w); Some (w\<lparr>tm_input := s\<rparr>, False) }
      else if c = 8 then do { s \<leftarrow> line_back (tm_input w); Some (w\<lparr>tm_input := s\<rparr>, False) }
      else if c = 10 then term_exec si w
      else if c = 1 \<or> c = 5 then
        Some (w\<lparr>tm_scroll := (if tm_scroll w + 1 > tm_len w then tm_len w else tm_scroll w + 1)\<rparr>, False)
      else if c = 2 \<or> c = 6 then Some (if tm_scroll w > 0 then w\<lparr>tm_scroll := tm_scroll w - 1\<rparr> else w, False)
      else if c = 3 then Some (w\<lparr>tm_input := line_left (tm_input w)\<rparr>, False)
      else if c = 4 then Some (w\<lparr>tm_input := line_right (tm_input w)\<rparr>, False)
      else Some (w, False))"

section \<open>The browser's address line\<close>

datatype br_page = BR_PAGE_HOME | BR_PAGE_SITE | BR_PAGE_SEARCH
datatype br_state = BR_WEB_IDLE | BR_WEB_BUSY | BR_WEB_OK | BR_WEB_ERR

definition BR_WEB_MAX :: nat where "BR_WEB_MAX = 8192"

record br =
  br_input :: line
  br_https :: bool
  br_page :: br_page
  br_site_name :: bytes
  br_title :: bytes
  br_web :: bytes
  br_web_len :: nat
  br_web_state :: br_state

text \<open>\<open>n\<close> is the size of the destination; the loop ends one before it.\<close>

definition br_copy :: "bytes \<Rightarrow> nat \<Rightarrow> bytes \<Rightarrow> bytes option" where
  "br_copy dst n src = map_option snd (copy_cstr (n - 1) src dst 0)"

fun br_prefix :: "bytes \<Rightarrow> bytes \<Rightarrow> bool option" where
  "br_prefix s [] = Some True"
| "br_prefix [] (p # ps) = None"
| "br_prefix (c # s) (p # ps) = (if c \<noteq> p then Some False else br_prefix s ps)"

definition br_web_set_err :: "string \<Rightarrow> br \<Rightarrow> br option" where
  "br_web_set_err msg w =
     (let t = take (BR_WEB_MAX - 1) (lit ''Could not load the page: '' @ lit msg) in
      do { b \<leftarrow> wr_range (br_web w) 0 (t @ [0]); Some (w\<lparr>br_web := b, br_web_len := length t, br_web_state := BR_WEB_ERR\<rparr>) })"

text \<open>The codes are those of the network stack: 0 is success.\<close>

definition br_web_done :: "nat \<Rightarrow> nat \<Rightarrow> nat \<Rightarrow> br \<Rightarrow> br option" where
  "br_web_done status off len w =
     (if status = 0 \<and> off \<le> BR_WEB_MAX then
        do { b \<leftarrow> memmove (br_web w) 0 off len;
             b \<leftarrow> (if len < BR_WEB_MAX then wr b len 0 else Some b);
             Some (w\<lparr>br_web := b, br_web_len := len, br_web_state := BR_WEB_OK\<rparr>) }
      else br_web_set_err
             (if status = 1 then ''no network device.'' else if status = 2 then ''could not resolve the host name.''
              else if status = 3 then ''connection failed or timed out.''
              else if status = 4 then ''the server returned an error.'' else ''request aborted.'') w)"

definition br_blank :: "u8 \<Rightarrow> bool" where
  "br_blank c \<longleftrightarrow> c = 32 \<or> c = 9"

definition lower :: "u8 \<Rightarrow> u8" where
  "lower c = (if 65 \<le> c \<and> c \<le> 90 then c - 65 + 97 else c)"

definition br_token :: "bytes \<Rightarrow> bytes" where
  "br_token typed = rev (dropWhile br_blank (rev (map lower typed)))"

definition br_domain :: "bytes \<Rightarrow> bytes" where
  "br_domain s = take (TERM_LINE_MAX - 1) (takeWhile (\<lambda>c. c \<noteq> 0 \<and> c \<noteq> 47 \<and> c \<noteq> 63 \<and> c \<noteq> 35) s)"

text \<open>
  The second result is the URL of the request that the network stack is asked for. \<open>typed\<close> is the line, \<open>s\<close> the
  lower-case text behind the scheme.
\<close>

definition br_navigate :: "br \<Rightarrow> (br \<times> bytes option) option" where
  "br_navigate w =
     do { typed \<leftarrow> rd_range (ln_buf (br_input w)) 0 (ln_len (br_input w));
          if list_all br_blank typed then Some (w, None)
          else do { tok \<leftarrow> in_buf TERM_LINE_MAX (br_token typed);
                    http \<leftarrow> br_prefix tok (lit ''http://''); https \<leftarrow> br_prefix tok (lit ''https://'');
                    (let is_https = (\<not> http \<and> https); s = (if http then drop 7 tok else if https then drop 8 tok else tok);
                         text = takeWhile (\<lambda>c. c \<noteq> 0) s in
                     if \<not> list_ex br_blank text then
                       do { www \<leftarrow> br_prefix (br_domain s @ [0]) (lit ''www.'');
                            (let dom = (if www then drop 4 (br_domain s) else br_domain s) in
                             do { site \<leftarrow> br_copy (br_site_name w) TERM_LINE_MAX (dom @ [0]);
                                  title \<leftarrow> br_copy (br_title w) TERM_LINE_MAX (dom @ [0]);
                                  (let w = w\<lparr>br_https := is_https, br_page := BR_PAGE_SITE, br_site_name := site, br_title := title\<rparr> in
                                   if dom = lit ''sol.os'' \<or> dom = lit ''solos''
                                   then do { title \<leftarrow> br_copy title TERM_LINE_MAX (lit ''sol.os/home'' @ [0]);
                                             Some (w\<lparr>br_page := BR_PAGE_HOME, br_title := title, br_web_state := BR_WEB_IDLE\<rparr>, None) }
                                   else do { url \<leftarrow> in_buf (TERM_LINE_MAX + 16)
                                                     ((if is_https then lit ''https://'' else lit ''http://'') @ dom @ lit ''/'');
                                             Some (w\<lparr>br_web_len := 0, br_web_state := BR_WEB_BUSY\<rparr>, Some url) }) }) }
                     else
                       do { site \<leftarrow> br_copy (br_site_name w) TERM_LINE_MAX s;
                            title \<leftarrow> br_copy (br_title w) TERM_LINE_MAX (lit ''Search'' @ [0]);
                            Some (w\<lparr>br_page := BR_PAGE_SEARCH, br_site_name := site, br_title := title\<rparr>, None) }) } }"

definition br_feed :: "u8 \<Rightarrow> br \<Rightarrow> (br \<times> bytes option) option" where
  "br_feed c w =
     (if 0x20 \<le> c \<and> c \<le> 0x7E then do { s \<leftarrow> line_insert c (br_input w); Some (w\<lparr>br_input := s\<rparr>, None) }
      else if c = 8 then do { s \<leftarrow> line_back (br_input w); Some (w\<lparr>br_input := s\<rparr>, None) }
      else if c = 3 then Some (w\<lparr>br_input := line_left (br_input w)\<rparr>, None)
      else if c = 4 then Some (w\<lparr>br_input := line_right (br_input w)\<rparr>, None)
      else if c = 10 then br_navigate w
      else Some (w, None))"

end
