(* ===== verification/Desktop_Windows.thy ===== *)
theory Desktop_Windows
  imports Desktop_Terminal "HOL-Library.Signed_Division"
begin

text \<open>
  The window manager of \<^verbatim>\<open>kernel/desktop.c\<close>: the table of eight windows, their order, opening, raising,
  closing, minimising and maximising, hit tests, mouse presses, dragging and resizing, and the keys for the
  focused window. A redraw composes its rectangle, which scrolls the lists of the file managers in it, and records
  it as damage; the pixels are the subject of the theory \<open>Desktop_Paint\<close>. A fetch is its URL and
  an abort its window. Coordinates are integers: the lemmas bound every window by the screen, so that no sum
  leaves 64 bits.
\<close>

section \<open>Windows\<close>

definition TASKBAR_H :: int where "TASKBAR_H = 48"
definition START_W :: int where "START_W = 96"
definition START_H :: int where "START_H = 34"
definition TASK_WIN_W :: int where "TASK_WIN_W = 150"
definition TASK_WIN_H :: int where "TASK_WIN_H = 34"
definition TASK_GAP :: int where "TASK_GAP = 8"
definition TITLE_H :: int where "TITLE_H = 26"
definition BTN_W :: int where "BTN_W = 22"
definition BTN_H :: int where "BTN_H = 20"
definition BTN_MARGIN :: int where "BTN_MARGIN = 4"
definition BTN_GAP :: int where "BTN_GAP = 2"
definition MAX_WINDOWS :: nat where "MAX_WINDOWS = 8"
definition MAX_WIN_LINES :: nat where "MAX_WIN_LINES = 8"
definition MIN_WIN_W :: int where "MIN_WIN_W = 200"
definition MIN_WIN_H :: int where "MIN_WIN_H = 120"
definition RESIZE_GUTTER :: int where "RESIZE_GUTTER = 18"
definition MENU_W :: int where "MENU_W = 200"
definition MENU_ITEM_H :: int where "MENU_ITEM_H = 40"
definition MENU_PAD :: int where "MENU_PAD = 6"
definition CURSOR_W :: int where "CURSOR_W = 12"
definition CURSOR_H :: int where "CURSOR_H = 20"
definition FONT_H :: int where "FONT_H = 8"

text \<open>Where a title points to; a notepad's own title is marked in its record.\<close>

datatype win_title = Title string | File_Name nat

record win =
  w_used :: bool
  w_x :: int
  w_y :: int
  w_w :: int
  w_h :: int
  w_title :: win_title
  w_lines :: "string list"
  w_order :: u32
  w_min :: bool
  w_max :: bool
  w_rx :: int
  w_ry :: int
  w_rw :: int
  w_rh :: int
  w_kind :: nat
  w_tm :: tm
  w_br :: br
  w_np :: np
  w_fm :: fm

type_synonym rect = "int \<times> int \<times> int \<times> int"

record desk =
  dk_gw :: nat
  dk_gh :: nat
  dk_wins :: "win list"
  dk_order :: u32
  dk_drag :: "nat option"
  dk_off_x :: int
  dk_off_y :: int
  dk_resize :: "nat option"
  dk_rs_x :: int
  dk_rs_y :: int
  dk_rs_w :: int
  dk_rs_h :: int
  dk_menu :: bool
  dk_opens :: u32
  dk_cx :: int
  dk_cy :: int
  dk_buttons :: u8
  dk_last_sec :: nat
  dk_fs :: "fs_file list"
  dk_redraws :: "rect list"
  dk_aborts :: "nat list"
  dk_fetches :: "(nat \<times> bytes) list"
  dk_probes :: nat
  dk_halted :: bool

definition work_h :: "desk \<Rightarrow> int" where
  "work_h d = int (dk_gh d) - TASKBAR_H"

definition visible_win :: "win \<Rightarrow> bool" where
  "visible_win w \<longleftrightarrow> w_used w \<and> \<not> w_min w"

text \<open>The four comparisons in turn, each with its signed sum.\<close>

definition win_rect_intersects :: "win \<Rightarrow> int \<Rightarrow> int \<Rightarrow> int \<Rightarrow> int \<Rightarrow> bool option" where
  "win_rect_intersects win x y w h =
     do { r \<leftarrow> sadd x w;
          if \<not> w_x win < r then Some False
          else do { wr \<leftarrow> sadd (w_x win) (w_w win);
               if \<not> x < wr then Some False
               else do { b \<leftarrow> sadd y h;
                    if \<not> w_y win < b then Some False
                    else do { wb \<leftarrow> sadd (w_y win) (w_h win); Some (y < wb) } } } }"

text \<open>Drawing a file manager brings its selection and its first row into range: the one effect that composing the
  scene has on the windows.\<close>

function fm_down :: "int \<Rightarrow> int \<Rightarrow> int \<Rightarrow> int \<Rightarrow> int" where
  "fm_down rows files sel scroll = (if scroll + rows \<le> sel \<and> scroll < files then fm_down rows files sel (scroll + 1) else scroll)"
  by pat_completeness auto

termination by (relation "measure (\<lambda>(rows, files, sel, scroll). nat (files - scroll))") auto

function fm_up :: "int \<Rightarrow> int \<Rightarrow> int" where
  "fm_up sel scroll = (if scroll > sel \<and> scroll > 0 then fm_up sel (scroll - 1) else scroll)"
  by pat_completeness auto

termination by (relation "measure (\<lambda>(sel, scroll). nat scroll)") auto

declare fm_down.simps [simp del] fm_up.simps [simp del]

definition fm_rows :: "win \<Rightarrow> int" where
  "fm_rows w = max 2 ((w_h w - 2 - TITLE_H) sdiv FONT_H)"

definition fm_view :: "int \<Rightarrow> int \<Rightarrow> fm \<Rightarrow> fm" where
  "fm_view rows files m =
     (let sel = (if fm_sel m \<ge> files then (if files > 0 then files - 1 else 0) else fm_sel m);
          scroll = (if fm_scroll m > sel \<and> fm_scroll m > 0 then sel else fm_scroll m) in
      m\<lparr>fm_sel := sel, fm_scroll := fm_up sel (fm_down rows files sel scroll)\<rparr>)"

definition view_win :: "desk \<Rightarrow> int \<Rightarrow> int \<Rightarrow> int \<Rightarrow> int \<Rightarrow> win \<Rightarrow> win" where
  "view_win d x y w h win =
     (if visible_win win \<and> w_kind win = 4 \<and> win_rect_intersects win x y w h = Some True
      then win\<lparr>w_fm := fm_view (fm_rows win) (fm_count (dk_fs d)) (w_fm win)\<rparr> else win)"

text \<open>A rectangle with a pixel on the screen.\<close>

definition hits_screen :: "desk \<Rightarrow> int \<Rightarrow> int \<Rightarrow> int \<Rightarrow> int \<Rightarrow> bool" where
  "hits_screen d x y w h \<longleftrightarrow> w > 0 \<and> h > 0 \<and> x < int (dk_gw d) \<and> y < int (dk_gh d) \<and> x + w > 0 \<and> y + h > 0"

text \<open>The damage that is recorded; the rectangle is composed first.\<close>

definition note_damage :: "int \<Rightarrow> int \<Rightarrow> int \<Rightarrow> int \<Rightarrow> desk \<Rightarrow> desk" where
  "note_damage x y w h d = d\<lparr>dk_redraws := dk_redraws d @ [(x, y, w, h)]\<rparr>"

definition redraw_rect :: "int \<Rightarrow> int \<Rightarrow> int \<Rightarrow> int \<Rightarrow> desk \<Rightarrow> desk" where
  "redraw_rect x y w h d =
     note_damage x y w h (if hits_screen d x y w h then d\<lparr>dk_wins := map (view_win d x y w h) (dk_wins d)\<rparr> else d)"

definition redraw_union :: "rect \<Rightarrow> rect \<Rightarrow> desk \<Rightarrow> desk" where
  "redraw_union = (\<lambda>(x0, y0, w0, h0) (x1, y1, w1, h1) d.
     let ux = min x0 x1; uy = min y0 y1; ux1 = max (x0 + w0) (x1 + w1); uy1 = max (y0 + h0) (y1 + h1) in
     if ux1 \<le> ux \<or> uy1 \<le> uy then d else redraw_rect ux uy (ux1 - ux) (uy1 - uy) d)"

definition redraw_taskbar :: "desk \<Rightarrow> desk" where
  "redraw_taskbar d = redraw_rect 0 (work_h d) (int (dk_gw d)) TASKBAR_H d"

definition redraw_all_titles :: "desk \<Rightarrow> desk" where
  "redraw_all_titles d =
     fold (\<lambda>i d. let w = dk_wins d ! i in if visible_win w then redraw_rect (w_x w) (w_y w) (w_w w) TITLE_H d else d)
       [0 ..< length (dk_wins d)] d"

definition win_rect :: "win \<Rightarrow> rect" where
  "win_rect w = (w_x w, w_y w, w_w w, w_h w)"

definition redraw_win :: "nat \<Rightarrow> desk \<Rightarrow> desk" where
  "redraw_win i d = (let w = dk_wins d ! i in redraw_rect (w_x w) (w_y w) (w_w w) (w_h w) d)"

definition upd_win :: "nat \<Rightarrow> (win \<Rightarrow> win) \<Rightarrow> desk \<Rightarrow> desk" where
  "upd_win i f d = d\<lparr>dk_wins := (dk_wins d)[i := f (dk_wins d ! i)]\<rparr>"

section \<open>Order and hit tests\<close>

text \<open>The loop over the table: the best index so far and its order.\<close>

fun topmost_from :: "nat \<Rightarrow> win list \<Rightarrow> (nat \<times> u32) option \<Rightarrow> (nat \<times> u32) option" where
  "topmost_from i [] best = best"
| "topmost_from i (w # ws) best =
     topmost_from (i + 1) ws
       (if visible_win w \<and> (case best of None \<Rightarrow> True | Some (_, o') \<Rightarrow> w_order w > o') then Some (i, w_order w) else best)"

definition win_topmost_index :: "desk \<Rightarrow> nat option" where
  "win_topmost_index d = map_option fst (topmost_from 0 (dk_wins d) None)"

definition win_is_topmost :: "nat \<Rightarrow> desk \<Rightarrow> bool" where
  "win_is_topmost i d \<longleftrightarrow> win_topmost_index d = Some i"

definition win_count :: "desk \<Rightarrow> nat" where
  "win_count d = length (filter w_used (dk_wins d))"

definition win_contains :: "win \<Rightarrow> int \<Rightarrow> int \<Rightarrow> bool" where
  "win_contains w px py \<longleftrightarrow> px \<ge> w_x w \<and> py \<ge> w_y w \<and> px < w_x w + w_w w \<and> py < w_y w + w_h w"

datatype win_btn = Btn_None | Btn_Close | Btn_Max | Btn_Min

definition win_button_at :: "win \<Rightarrow> int \<Rightarrow> int \<Rightarrow> win_btn" where
  "win_button_at w px py =
     (if \<not> win_contains w px py then Btn_None
      else if py < w_y w \<or> py \<ge> w_y w + TITLE_H then Btn_None
      else (let b = w_y w + 3 in
        if py < b \<or> py \<ge> b + BTN_H then Btn_None
        else (let c0 = w_x w + w_w w - BTN_MARGIN - BTN_W; m0 = c0 - BTN_W - BTN_GAP; n0 = m0 - BTN_W - BTN_GAP in
          if px \<ge> c0 then Btn_Close else if px \<ge> m0 then Btn_Max else if px \<ge> n0 then Btn_Min else Btn_None)))"

fun topmost_at_from :: "nat \<Rightarrow> int \<Rightarrow> int \<Rightarrow> win list \<Rightarrow> (nat \<times> u32) option \<Rightarrow> (nat \<times> u32) option" where
  "topmost_at_from i px py [] best = best"
| "topmost_at_from i px py (w # ws) best =
     topmost_at_from (i + 1) px py ws
       (if visible_win w \<and> win_contains w px py \<and> (case best of None \<Rightarrow> True | Some (_, o') \<Rightarrow> w_order w > o')
        then Some (i, w_order w) else best)"

definition win_topmost_at :: "int \<Rightarrow> int \<Rightarrow> desk \<Rightarrow> nat option" where
  "win_topmost_at px py d = map_option fst (topmost_at_from 0 px py (dk_wins d) None)"

section \<open>Icons\<close>

record icon =
  ic_label :: string
  ic_glyph :: u8
  ic_color :: u32
  ic_kind :: nat
  ic_title :: string
  ic_lines :: "string list"
  ic_w :: int
  ic_h :: int

definition ic_terminal_lines :: "string list" where
  "ic_terminal_lines =
     [''Sol OS terminal'', ''A shell lands in a later phase.'', ''For now this window exists to'',
      ''prove the desktop can launch.'']"

definition ic_settings_lines :: "string list" where
  "ic_settings_lines =
     [''Settings'', ''  Resolution: 1920x1080'', ''  Color depth: 32 bpp'', ''Appearance'', ''  Theme: Sol OS default'',
      ''System'', ''  Architecture: x86_64'', ''  Sol OS version 0.1'']"

definition ic_about_lines :: "string list" where
  "ic_about_lines =
     [''Sol OS'', ''Version 0.1'', ''Architecture: x86_64'', ''Resolution: 1920x1080'', ''Bootloader: Limine'',
      ''Welcome to Sol OS.'']"

definition g_icons :: "icon list" where
  "g_icons =
     [\<lparr>ic_label = ''Terminal'', ic_glyph = 62, ic_color = 0x00458BD9, ic_kind = 1, ic_title = ''Terminal'',
       ic_lines = ic_terminal_lines, ic_w = 460, ic_h = 220\<rparr>,
      \<lparr>ic_label = ''Files'', ic_glyph = 70, ic_color = 0x00F5A623, ic_kind = 4, ic_title = ''Files'',
       ic_lines = [], ic_w = 460, ic_h = 220\<rparr>,
      \<lparr>ic_label = ''Settings'', ic_glyph = 83, ic_color = 0x003AAFA9, ic_kind = 0, ic_title = ''Settings'',
       ic_lines = ic_settings_lines, ic_w = 460, ic_h = 220\<rparr>,
      \<lparr>ic_label = ''About'', ic_glyph = 65, ic_color = 0x006B5B95, ic_kind = 0, ic_title = ''About Sol OS'',
       ic_lines = ic_about_lines, ic_w = 460, ic_h = 220\<rparr>,
      \<lparr>ic_label = ''Browser'', ic_glyph = 66, ic_color = 0x00E5484D, ic_kind = 2, ic_title = ''Browser'',
       ic_lines = [], ic_w = 720, ic_h = 460\<rparr>,
      \<lparr>ic_label = ''Notepad'', ic_glyph = 78, ic_color = 0x0074BE8D, ic_kind = 3, ic_title = ''Untitled'',
       ic_lines = [], ic_w = 500, ic_h = 320\<rparr>]"

definition ICON_W :: int where "ICON_W = 72"
definition ICON_H :: int where "ICON_H = 72"
definition ICON_X0 :: int where "ICON_X0 = 24"
definition ICON_Y0 :: int where "ICON_Y0 = 24"
definition ICON_ROW_STEP :: int where "ICON_ROW_STEP = 98"
definition ICON_LABEL_H :: int where "ICON_LABEL_H = 16"

definition icon_at :: "int \<Rightarrow> int \<Rightarrow> nat option" where
  "icon_at px py =
     find (\<lambda>i. let iy = ICON_Y0 + int i * ICON_ROW_STEP in
             px \<ge> ICON_X0 \<and> px < ICON_X0 + ICON_W \<and> py \<ge> iy \<and> py < iy + ICON_H + ICON_LABEL_H)
       [0 ..< length g_icons]"

section \<open>Window operations\<close>

definition br_init :: "br \<Rightarrow> br option" where
  "br_init b =
     do { inp \<leftarrow> wr_range (ln_buf (br_input b)) 0 (lit ''sol.os/home'' @ [0]);
          site \<leftarrow> br_copy (br_site_name b) TERM_LINE_MAX (lit ''sol.os/home'' @ [0]);
          title \<leftarrow> br_copy (br_title b) TERM_LINE_MAX (lit ''sol.os/home'' @ [0]);
          Some (b\<lparr>br_input := \<lparr>ln_buf = inp, ln_len = 11, ln_cur = 11\<rparr>, br_page := BR_PAGE_HOME, br_web_len := 0,
                  br_web_state := BR_WEB_IDLE, br_site_name := site, br_title := title\<rparr>) }"

definition tm_init :: "tm \<Rightarrow> tm option" where
  "tm_init t =
     do { b \<leftarrow> wr (ln_buf (tm_input t)) 0 0;
          term_prints [''Sol OS terminal 0.1'', ''Type 'help' for commands.'']
            (t\<lparr>tm_len := 0, tm_scroll := 0, tm_input := \<lparr>ln_buf = b, ln_len = 0, ln_cur = 0\<rparr>\<rparr>) }"

text \<open>The application's state of a new window.\<close>

definition app_init :: "nat \<Rightarrow> string list \<Rightarrow> win \<Rightarrow> win option" where
  "app_init kind ls w =
     (if kind = 1 then do { t \<leftarrow> tm_init (w_tm w); Some (w\<lparr>w_tm := t\<rparr>) }
      else if kind = 2 then do { b \<leftarrow> br_init (w_br w); Some (w\<lparr>w_br := b\<rparr>) }
      else if kind = 3 then do { n \<leftarrow> np_init (w_np w); Some (w\<lparr>w_np := n\<lparr>np_own_title := False\<rparr>\<rparr>) }
      else if kind = 4 then Some (w\<lparr>w_fm := fm_init (w_fm w)\<rparr>)
      else Some (w\<lparr>w_lines := take MAX_WIN_LINES ls\<rparr>))"

definition place_win :: "desk \<Rightarrow> rect \<Rightarrow> rect" where
  "place_win d = (\<lambda>(x, y, w, h).
     let x = (if x < 0 then 0 else x); y = (if y < 0 then 0 else y);
         x = (if x + w > int (dk_gw d) then int (dk_gw d) - w else x);
         y = (if y + h > work_h d then work_h d - h else y);
         w = (if w < MIN_WIN_W then MIN_WIN_W else w); h = (if h < MIN_WIN_H then MIN_WIN_H else h) in (x, y, w, h))"

fun free_win :: "nat \<Rightarrow> win list \<Rightarrow> nat option" where
  "free_win i [] = None"
| "free_win i (w # ws) = (if w_used w then free_win (i + 1) ws else Some i)"

definition win_open :: "win_title \<Rightarrow> rect \<Rightarrow> nat \<Rightarrow> string list \<Rightarrow> desk \<Rightarrow> (nat option \<times> desk) option" where
  "win_open title r kind ls d =
     (let (x, y, w, h) = place_win d r in
      case free_win 0 (dk_wins d) of
        None \<Rightarrow> Some (None, d)
      | Some i \<Rightarrow>
          (let n = (dk_wins d ! i)\<lparr>w_used := True, w_x := x, w_y := y, w_w := w, w_h := h, w_title := title, w_kind := kind,
                     w_order := dk_order d + 1, w_min := False, w_max := False\<rparr> in
           do { n \<leftarrow> app_init kind ls n;
                Some (Some i, redraw_all_titles (d\<lparr>dk_order := dk_order d + 1, dk_wins := (dk_wins d)[i := n]\<rparr>)) }))"

definition win_raise :: "nat \<Rightarrow> desk \<Rightarrow> desk option" where
  "win_raise i d =
     do { w \<leftarrow> rd (dk_wins d) i;
          if \<not> w_used w then Some d
          else do { prev \<leftarrow> win_topmost_index d;
                    if prev = i then Some d
                    else do { p \<leftarrow> rd (dk_wins d) prev;
                              Some (redraw_taskbar (redraw_all_titles (redraw_union (win_rect w) (win_rect p)
                                (upd_win i (\<lambda>w. w\<lparr>w_order := dk_order d + 1\<rparr>) (d\<lparr>dk_order := dk_order d + 1\<rparr>))))) } } }"

definition release_win :: "nat \<Rightarrow> desk \<Rightarrow> desk" where
  "release_win i d =
     d\<lparr>dk_drag := (if dk_drag d = Some i then None else dk_drag d),
       dk_resize := (if dk_resize d = Some i then None else dk_resize d)\<rparr>"

definition win_close :: "nat \<Rightarrow> desk \<Rightarrow> desk option" where
  "win_close i d =
     do { w \<leftarrow> rd (dk_wins d) i;
          Some (if \<not> w_used w then d
                else redraw_taskbar (redraw_all_titles (redraw_rect (w_x w) (w_y w) (w_w w) (w_h w)
                       (release_win i (upd_win i (\<lambda>w. w\<lparr>w_used := False\<rparr>) (d\<lparr>dk_aborts := dk_aborts d @ [i]\<rparr>)))))) }"

definition win_minimize :: "nat \<Rightarrow> desk \<Rightarrow> desk option" where
  "win_minimize i d =
     do { w \<leftarrow> rd (dk_wins d) i;
          Some (if \<not> w_used w \<or> w_min w then d
                else redraw_taskbar (redraw_all_titles (redraw_rect (w_x w) (w_y w) (w_w w) (w_h w)
                       (release_win i (upd_win i (\<lambda>w. w\<lparr>w_min := True\<rparr>) d))))) }"

definition win_restore_from_taskbar :: "nat \<Rightarrow> desk \<Rightarrow> desk option" where
  "win_restore_from_taskbar i d =
     do { w \<leftarrow> rd (dk_wins d) i;
          Some (if \<not> w_used w then d
                else redraw_taskbar (redraw_all_titles (redraw_win i
                       (upd_win i (\<lambda>w. w\<lparr>w_min := False, w_order := dk_order d + 1\<rparr>) (d\<lparr>dk_order := dk_order d + 1\<rparr>))))) }"

definition unmaximize :: "win \<Rightarrow> win" where
  "unmaximize w = w\<lparr>w_x := w_rx w, w_y := w_ry w, w_w := w_rw w, w_h := w_rh w, w_max := False\<rparr>"

definition maximize :: "desk \<Rightarrow> win \<Rightarrow> win" where
  "maximize d w =
     w\<lparr>w_rx := w_x w, w_ry := w_y w, w_rw := w_w w, w_rh := w_h w, w_x := 0, w_y := 0, w_w := int (dk_gw d), w_h := work_h d,
       w_max := True\<rparr>"

definition win_toggle_max :: "nat \<Rightarrow> desk \<Rightarrow> desk option" where
  "win_toggle_max i d =
     do { w \<leftarrow> rd (dk_wins d) i;
          Some (if \<not> w_used w then d
                else (let w' = (if \<not> w_max w then maximize d w else unmaximize w) in
                      redraw_taskbar (redraw_union (win_rect w) (win_rect w') (upd_win i (\<lambda>_. w') d)))) }"

definition icon_open :: "nat \<Rightarrow> desk \<Rightarrow> desk option" where
  "icon_open idx d =
     do { ic \<leftarrow> rd g_icons idx;
          (let k = int (unat (dk_opens d mod 4)); x = 300 + k * 36; y = 90 + k * 28 in
           do { (r, d) \<leftarrow> win_open (Title (ic_title ic)) (x, y, ic_w ic, ic_h ic) (ic_kind ic) (ic_lines ic)
                             (d\<lparr>dk_opens := dk_opens d + 1\<rparr>);
                Some (case r of None \<Rightarrow> d | Some i \<Rightarrow> redraw_taskbar (redraw_win i d)) }) }"

definition fm_open_selected :: "nat \<Rightarrow> desk \<Rightarrow> desk option" where
  "fm_open_selected i d =
     do { w \<leftarrow> rd (dk_wins d) i;
          (let idx = fm_nth (fm_sel (w_fm w)) (dk_fs d) in
           if idx < 0 then Some d
           else do { (r, d) \<leftarrow> win_open (File_Name (nat idx)) (w_x w + 40, w_y w + 40, 500, 320) 3 [] d;
                     case r of
                       None \<Rightarrow> Some d
                     | Some ni \<Rightarrow>
                         do { f \<leftarrow> rd (dk_fs d) (nat idx); n \<leftarrow> np_load (nat idx) (w_np (dk_wins d ! ni)) (dk_fs d);
                              n \<leftarrow> np_set_title (ff_name f) n;
                              win_raise ni (upd_win ni (\<lambda>w. w\<lparr>w_np := n\<rparr>) d) } }) }"

section \<open>The taskbar and the start menu\<close>

definition start_x :: int where "start_x = 8"

definition start_y :: "desk \<Rightarrow> int" where
  "start_y d = int (dk_gh d) - TASKBAR_H + (TASKBAR_H - START_H) div 2"

definition task_btn_x :: "nat \<Rightarrow> int" where
  "task_btn_x i = 112 + int i * (TASK_WIN_W + TASK_GAP)"

fun taskbar_slot :: "int \<Rightarrow> nat \<Rightarrow> nat \<Rightarrow> win list \<Rightarrow> nat option" where
  "taskbar_slot px i slot [] = None"
| "taskbar_slot px i slot (w # ws) =
     (if \<not> w_used w then taskbar_slot px (i + 1) slot ws
      else if px \<ge> task_btn_x slot \<and> px < task_btn_x slot + TASK_WIN_W then Some i
      else taskbar_slot px (i + 1) (slot + 1) ws)"

definition taskbar_win_at :: "int \<Rightarrow> int \<Rightarrow> desk \<Rightarrow> nat option" where
  "taskbar_win_at px py d =
     (if py < start_y d \<or> py \<ge> start_y d + TASK_WIN_H then None else taskbar_slot px 0 0 (dk_wins d))"

definition menu_x :: int where "menu_x = 8"

definition menu_h :: int where
  "menu_h = MENU_PAD * 2 + int (length g_icons) * MENU_ITEM_H"

definition menu_y :: "desk \<Rightarrow> int" where
  "menu_y d = work_h d - menu_h - 4"

definition close_start_menu :: "desk \<Rightarrow> desk" where
  "close_start_menu d =
     (if \<not> dk_menu d then d else redraw_rect menu_x (menu_y d) MENU_W menu_h (d\<lparr>dk_menu := False\<rparr>))"

definition open_start_menu :: "desk \<Rightarrow> desk" where
  "open_start_menu d =
     (if dk_menu d then d else redraw_rect menu_x (menu_y d) MENU_W menu_h (d\<lparr>dk_menu := True\<rparr>))"

end
