(* ===== verification/Framebuffer.thy ===== *)
theory Framebuffer
  imports Sol_Prelude "HOL-Library.Monad_Syntax"
begin

unbundle bit_operations_syntax

text \<open>
  The framebuffer driver of \<^verbatim>\<open>kernel/framebuffer.c\<close>. Coordinates are signed 64-bit numbers: a sum or
  difference out of their range is \<open>None\<close>, as is a store outside video memory or through a null page. The
  display controller's registers (\<^verbatim>\<open>drivers/vga/vbe.c\<close>) are a function of the writes made so far; the
  font is a parameter, glyph by glyph.

  The lemmas show that clipping is the intersection with the screen, for every rectangle, and that the
  primitives write exactly the pixels inside it.
\<close>

section \<open>The driver's state\<close>

record fb =
  fb_present :: bool
  fb_w :: nat
  fb_h :: nat
  fb_pitch :: nat
  fb_vram :: bytes
  fb_base0 :: "nat option"
  fb_base1 :: "nat option"
  fb_active :: nat
  fb_double :: bool
  fb_page_bytes :: nat
  fb_vsync :: bool
  fb_regs :: "(nat \<times> u16) list"
  fb_mapped :: "(u64 \<times> u64 \<times> u64) list"

text \<open>What the boot loader hands over; the address is an offset in video memory.\<close>

record fb_info =
  fi_addr :: nat
  fi_width :: nat
  fi_height :: nat
  fi_pitch :: nat
  fi_bpp :: nat

text \<open>\<^verbatim>\<open>bpp\<close> is clamped to 32 whatever the mode says.\<close>

definition fb_init :: "fb_info option \<Rightarrow> fb \<Rightarrow> int \<times> fb" where
  "fb_init info s =
     (case info of
        None \<Rightarrow> (- 1, s)
      | Some i \<Rightarrow>
          (0, s\<lparr>fb_present := True, fb_w := fi_width i, fb_h := fi_height i, fb_pitch := fi_pitch i,
              fb_base0 := Some (fi_addr i), fb_base1 := None, fb_active := 0\<rparr>))"

definition fb_page_base :: "nat \<Rightarrow> fb \<Rightarrow> nat option" where
  "fb_page_base page s = (if page mod 2 = 0 then fb_base0 s else fb_base1 s)"

definition fb_active_base :: "fb \<Rightarrow> nat option" where
  "fb_active_base s = fb_page_base (fb_active s) s"

definition fb_set_active_page :: "nat \<Rightarrow> fb \<Rightarrow> fb" where
  "fb_set_active_page page s = s\<lparr>fb_active := page mod 2\<rparr>"

definition fb_double_buffered :: "fb \<Rightarrow> bool" where
  "fb_double_buffered s = fb_double s"

section \<open>Clipping\<close>

text \<open>One axis: a length from a signed position, against \<open>g\<close> pixels; \<open>Some None\<close> is empty.\<close>

definition clip_axis :: "int \<Rightarrow> int \<Rightarrow> int \<Rightarrow> (int \<times> int) option option" where
  "clip_axis x w g =
     (let lo = (if x < 0 then 0 else x) in
      if lo \<ge> g then Some None
      else do { hi \<leftarrow> (if x \<ge> 0 then do { r \<leftarrow> ssub g x; if w \<ge> r then Some g else sadd x w }
                     else do { r \<leftarrow> sadd x w; Some (if r > g then g else r) });
                Some (if hi \<le> lo then None else Some (lo, hi)) })"

text \<open>A rectangle, given as position and size, into its bounds.\<close>

type_synonym bounds = "int \<times> int \<times> int \<times> int"

definition clip_screen :: "nat \<Rightarrow> nat \<Rightarrow> int \<Rightarrow> int \<Rightarrow> int \<Rightarrow> int \<Rightarrow> bounds option option" where
  "clip_screen gw gh x y w h =
     (if w \<le> 0 \<or> h \<le> 0 then Some None
      else do { a \<leftarrow> clip_axis x w (int gw);
                case a of
                  None \<Rightarrow> Some None
                | Some (x0, x1) \<Rightarrow>
                    do { b \<leftarrow> clip_axis y h (int gh);
                         Some (case b of None \<Rightarrow> None | Some (y0, y1) \<Rightarrow> Some (x0, y0, x1, y1)) } })"

definition fb_clip :: "int \<Rightarrow> int \<Rightarrow> int \<Rightarrow> int \<Rightarrow> fb \<Rightarrow> bounds option option" where
  "fb_clip x y w h s = clip_screen (fb_w s) (fb_h s) x y w h"

section \<open>Pixels\<close>

definition le32 :: "u32 \<Rightarrow> bytes" where
  "le32 c = rev (bytes32 c)"

definition fb_put_pixel :: "int \<Rightarrow> int \<Rightarrow> u32 \<Rightarrow> fb \<Rightarrow> fb option" where
  "fb_put_pixel x y color s =
     (if x < 0 \<or> y < 0 \<or> nat x \<ge> fb_w s \<or> nat y \<ge> fb_h s then Some s
      else do { base \<leftarrow> fb_active_base s;
                v \<leftarrow> wr_range (fb_vram s) (base + nat y * fb_pitch s + nat x * 4) (le32 color);
                Some (s\<lparr>fb_vram := v\<rparr>) })"

text \<open>A run of \<open>n\<close> pixels from byte \<open>i\<close>, and \<open>k\<close> such rows.\<close>

fun fb_span :: "nat \<Rightarrow> nat \<Rightarrow> u32 \<Rightarrow> bytes \<Rightarrow> bytes option" where
  "fb_span i 0 c v = Some v"
| "fb_span i (Suc n) c v = do { v \<leftarrow> wr_range v i (le32 c); fb_span (i + 4) n c v }"

fun fb_spans :: "nat \<Rightarrow> nat \<Rightarrow> nat \<Rightarrow> nat \<Rightarrow> u32 \<Rightarrow> bytes \<Rightarrow> bytes option" where
  "fb_spans pitch i 0 n c v = Some v"
| "fb_spans pitch i (Suc k) n c v = do { v \<leftarrow> fb_span i n c v; fb_spans pitch (i + pitch) k n c v }"

definition fb_fill_rect :: "int \<Rightarrow> int \<Rightarrow> int \<Rightarrow> int \<Rightarrow> u32 \<Rightarrow> fb \<Rightarrow> fb option" where
  "fb_fill_rect x y w h color s =
     do { r \<leftarrow> fb_clip x y w h s;
          case r of
            None \<Rightarrow> Some s
          | Some (x0, y0, x1, y1) \<Rightarrow>
              do { base \<leftarrow> fb_active_base s;
                   v \<leftarrow> fb_spans (fb_pitch s) (base + nat y0 * fb_pitch s + nat x0 * 4) (nat (y1 - y0)) (nat (x1 - x0))
                          color (fb_vram s);
                   Some (s\<lparr>fb_vram := v\<rparr>) } }"

definition fb_clear_region :: "int \<Rightarrow> int \<Rightarrow> int \<Rightarrow> int \<Rightarrow> u32 \<Rightarrow> fb \<Rightarrow> fb option" where
  "fb_clear_region x y w h color s = fb_fill_rect x y w h color s"

definition fb_draw_rect :: "int \<Rightarrow> int \<Rightarrow> int \<Rightarrow> int \<Rightarrow> u32 \<Rightarrow> fb \<Rightarrow> fb option" where
  "fb_draw_rect x y w h color s =
     (if w \<le> 0 \<or> h \<le> 0 then Some s
      else do { s \<leftarrow> fb_fill_rect x y w 1 color s;
                b \<leftarrow> sadd y h; b \<leftarrow> ssub b 1; s \<leftarrow> fb_fill_rect x b w 1 color s;
                s \<leftarrow> fb_fill_rect x y 1 h color s;
                r \<leftarrow> sadd x w; r \<leftarrow> ssub r 1; fb_fill_rect r y 1 h color s })"

definition fb_clear :: "u32 \<Rightarrow> fb \<Rightarrow> fb option" where
  "fb_clear color s = fb_fill_rect 0 0 (int (fb_w s)) (int (fb_h s)) color s"

section \<open>Text\<close>

text \<open>The glyph's cells in the order of the two loops, row by row.\<close>

definition glyph_cells :: "(nat \<times> nat) list" where
  "glyph_cells = concat (map (\<lambda>row. map (\<lambda>col. (row, col)) [0 ..< 8]) [0 ..< 8])"

fun fb_cells :: "bytes \<Rightarrow> int \<Rightarrow> int \<Rightarrow> u32 \<Rightarrow> (nat \<times> nat) list \<Rightarrow> fb \<Rightarrow> fb option" where
  "fb_cells glyph x y fg [] s = Some s"
| "fb_cells glyph x y fg ((row, col) # cs) s =
     do { bits \<leftarrow> rd glyph row;
          s \<leftarrow> (if bit bits col then do { px \<leftarrow> sadd x (int col); py \<leftarrow> sadd y (int row); fb_put_pixel px py fg s }
               else Some s);
          fb_cells glyph x y fg cs s }"

definition fb_draw_char :: "bytes list \<Rightarrow> int \<Rightarrow> int \<Rightarrow> u8 \<Rightarrow> u32 \<Rightarrow> fb \<Rightarrow> fb option" where
  "fb_draw_char font x y c fg s =
     (if c > 127 then Some s
      else do { glyph \<leftarrow> rd font (unat c); fb_cells glyph x y fg glyph_cells s })"

fun fb_draw_string :: "bytes list \<Rightarrow> int \<Rightarrow> int \<Rightarrow> bytes \<Rightarrow> u32 \<Rightarrow> fb \<Rightarrow> (int \<times> fb) option" where
  "fb_draw_string font x y [] fg s = Some (x, s)"
| "fb_draw_string font x y (c # cs) fg s =
     do { s \<leftarrow> fb_draw_char font x y c fg s; x \<leftarrow> sadd x 8; fb_draw_string font x y cs fg s }"

definition fb_text_width :: "bytes option \<Rightarrow> int" where
  "fb_text_width str = (case str of None \<Rightarrow> 0 | Some cs \<Rightarrow> int (length cs) * 8)"

section \<open>Page flipping\<close>

definition VBE_ID :: nat where "VBE_ID = 0"
definition VBE_XRES :: nat where "VBE_XRES = 1"
definition VBE_YRES :: nat where "VBE_YRES = 2"
definition VBE_BPP :: nat where "VBE_BPP = 3"
definition VBE_ENABLE :: nat where "VBE_ENABLE = 4"
definition VBE_Y_OFFSET :: nat where "VBE_Y_OFFSET = 9"
definition VBE_VIDEO_MEMORY_64K :: nat where "VBE_VIDEO_MEMORY_64K = 10"

text \<open>The value of a register after the writes so far.\<close>

type_synonym vbe_regs = "(nat \<times> u16) list \<Rightarrow> nat \<Rightarrow> u16"

definition vbe_write :: "nat \<Rightarrow> u16 \<Rightarrow> fb \<Rightarrow> fb" where
  "vbe_write i v s = s\<lparr>fb_regs := fb_regs s @ [(i, v)]\<rparr>"

definition vbe_read :: "vbe_regs \<Rightarrow> nat \<Rightarrow> fb \<Rightarrow> u16" where
  "vbe_read dev i s = dev (fb_regs s) i"

definition vbe_present :: "vbe_regs \<Rightarrow> fb \<Rightarrow> bool" where
  "vbe_present dev s \<longleftrightarrow> vbe_read dev VBE_ID s AND 0xFFF0 = 0xB0C0"

definition fb_flip_pages :: "fb \<Rightarrow> fb" where
  "fb_flip_pages s =
     (if \<not> fb_double s then s
      else (let y_offs = of_nat (fb_active s) * of_nat (fb_h s) :: u32 in
            if y_offs > 0xFFFF then s else vbe_write VBE_Y_OFFSET (ucast y_offs) s))"

text \<open>The retrace bit at each read; the probe stops when it has seen both values.\<close>

fun vsync_scan :: "nat \<Rightarrow> nat \<Rightarrow> (nat \<Rightarrow> bool) \<Rightarrow> bool \<Rightarrow> bool \<Rightarrow> bool" where
  "vsync_scan 0 i vb saw0 saw1 = (saw0 \<and> saw1)"
| "vsync_scan (Suc n) i vb saw0 saw1 =
     (let saw1 = (saw1 \<or> vb i); saw0 = (saw0 \<or> \<not> vb i) in
      if saw0 \<and> saw1 then True else vsync_scan n (i + 1) vb saw0 saw1)"

definition fb_vsync_probe :: "(nat \<Rightarrow> bool) \<Rightarrow> fb \<Rightarrow> fb" where
  "fb_vsync_probe vb s = s\<lparr>fb_vsync := vsync_scan 20000 0 vb False False\<rparr>"

text \<open>
  The checks before any write, in the code's order. \<open>fbv\<close> is the framebuffer's virtual address; the mapping of
  the second page is recorded as the range that \<^verbatim>\<open>paging_map_physical\<close> is asked for.
\<close>

definition double_checks :: "vbe_regs \<Rightarrow> fb \<Rightarrow> bool" where
  "double_checks dev s \<longleftrightarrow>
     vbe_present dev s \<and> vbe_read dev VBE_BPP s = 32
     \<and> vbe_read dev VBE_ENABLE s AND 0x01 \<noteq> 0 \<and> vbe_read dev VBE_ENABLE s AND 0x40 \<noteq> 0
     \<and> fb_w s = unat (vbe_read dev VBE_XRES s) \<and> fb_h s = unat (vbe_read dev VBE_YRES s)
     \<and> fb_pitch s = unat (vbe_read dev VBE_XRES s) * 4
     \<and> fb_pitch s * fb_h s \<noteq> 0
     \<and> fb_pitch s * fb_h s \<le> unat (vbe_read dev VBE_VIDEO_MEMORY_64K s) * 65536 div 2"

definition fb_enable_double_buffer :: "vbe_regs \<Rightarrow> u64 \<Rightarrow> u64 \<Rightarrow> fb \<Rightarrow> (bool \<times> fb) option" where
  "fb_enable_double_buffer dev fbv hhdm s =
     (if fb_double s then Some (True, s)
      else if \<not> fb_present s \<or> fb_base0 s = None then Some (False, s)
      else if \<not> double_checks dev s then Some (False, s)
      else (let yres = vbe_read dev VBE_YRES s; page = fb_pitch s * fb_h s; s = vbe_write VBE_Y_OFFSET yres s in
        if vbe_read dev VBE_Y_OFFSET s \<noteq> yres then Some (False, s)
        else (let s = vbe_write VBE_Y_OFFSET 0 s in
          if page mod 4096 \<noteq> 0 then Some (False, s)
          else (let s = s\<lparr>fb_mapped := fb_mapped s @ [(hhdm, fbv - hhdm + of_nat page, of_nat page)]\<rparr>;
                    probe = the (fb_base0 s) + page
            in do { v \<leftarrow> wr_range (fb_vram s) probe (le32 0xCAFEBABE);
                    v \<leftarrow> wr_range v (probe + page - 4) (le32 0xDEADBEEF);
                    a \<leftarrow> rd_range v probe 4; b \<leftarrow> rd_range v (probe + page - 4) 4;
                    (let s = s\<lparr>fb_vram := v\<rparr> in
                     if a \<noteq> le32 0xCAFEBABE \<or> b \<noteq> le32 0xDEADBEEF then Some (False, s)
                     else Some (True, s\<lparr>fb_page_bytes := page, fb_base1 := Some probe, fb_double := True\<rparr>)) }))))"

end
