(* ===== verification/Desktop_Gfx.thy ===== *)
theory Desktop_Gfx
  imports Framebuffer
begin

unbundle bit_operations_syntax

text \<open>
  The desktop's backbuffer of \<^verbatim>\<open>kernel/desktop.c\<close>: the clipped primitives, the copies to the
  framebuffer's pages, the damage of a frame and its presentation, single buffered or by page flips. The
  backbuffer is the array with its guard words; a store outside it, or an overflow of a signed coordinate, is
  \<open>None\<close>.

  The lemmas show that the primitives write exactly the pixels of the rectangle that lie on the screen and in
  the active clip, that a copy makes exactly its rectangle show the backbuffer, and that after every
  presentation the page on display shows the whole scene.
\<close>

section \<open>The state\<close>

record gfx =
  gx_w :: nat
  gx_h :: nat
  gx_pitch :: nat
  gx_bb :: "u32 list"
  gx_bb_addr :: nat
  gx_fb :: fb
  gx_fb_addr :: nat
  gx_flip :: bool
  gx_front :: nat
  gx_canary :: "u32 list"
  gx_clip_on :: bool
  gx_clip :: bounds
  gx_dmg_on :: bool
  gx_dmg :: "int \<times> int \<times> int \<times> int"
  gx_prev_on :: bool
  gx_prev :: "int \<times> int \<times> int \<times> int"

definition BB_CANARY_BASE :: u32 where "BB_CANARY_BASE = 0xC0FFEE00"
definition BB_CANARIES :: nat where "BB_CANARIES = 16"

section \<open>Clipping and pixels\<close>

definition bb_clip :: "int \<Rightarrow> int \<Rightarrow> int \<Rightarrow> int \<Rightarrow> gfx \<Rightarrow> bounds option option" where
  "bb_clip x y w h g =
     do { r \<leftarrow> clip_screen (gx_w g) (gx_h g) x y w h;
          Some (case r of
                  None \<Rightarrow> None
                | Some (x0, y0, x1, y1) \<Rightarrow>
                    if gx_clip_on g then
                      (let (cx0, cy0, cx1, cy1) = gx_clip g;
                           x0 = (if x0 < cx0 then cx0 else x0); y0 = (if y0 < cy0 then cy0 else y0);
                           x1 = (if x1 > cx1 then cx1 else x1); y1 = (if y1 > cy1 then cy1 else y1)
                       in if x1 \<le> x0 \<or> y1 \<le> y0 then None else Some (x0, y0, x1, y1))
                    else Some (x0, y0, x1, y1)) }"

definition bb_put_pixel :: "int \<Rightarrow> int \<Rightarrow> u32 \<Rightarrow> gfx \<Rightarrow> gfx option" where
  "bb_put_pixel x y c g =
     (if x < 0 \<or> y < 0 \<or> x \<ge> int (gx_w g) \<or> y \<ge> int (gx_h g) then Some g
      else if gx_clip_on g \<and> (let (cx0, cy0, cx1, cy1) = gx_clip g in x < cx0 \<or> x \<ge> cx1 \<or> y < cy0 \<or> y \<ge> cy1)
      then Some g
      else do { bb \<leftarrow> wr (gx_bb g) (nat y * gx_w g + nat x) c; Some (g\<lparr>gx_bb := bb\<rparr>) })"

fun bb_span :: "nat \<Rightarrow> nat \<Rightarrow> u32 \<Rightarrow> u32 list \<Rightarrow> u32 list option" where
  "bb_span i 0 c bb = Some bb"
| "bb_span i (Suc n) c bb = do { bb \<leftarrow> wr bb i c; bb_span (i + 1) n c bb }"

text \<open>\<open>k\<close> rows from \<open>i\<close>, the colour of each given by its number.\<close>

fun bb_spans :: "nat \<Rightarrow> nat \<Rightarrow> nat \<Rightarrow> nat \<Rightarrow> nat \<Rightarrow> (nat \<Rightarrow> u32) \<Rightarrow> u32 list \<Rightarrow> u32 list option" where
  "bb_spans w y x 0 n c bb = Some bb"
| "bb_spans w y x (Suc k) n c bb = do { bb \<leftarrow> bb_span (y * w + x) n (c y) bb; bb_spans w (y + 1) x k n c bb }"

definition bb_fill_rect :: "int \<Rightarrow> int \<Rightarrow> int \<Rightarrow> int \<Rightarrow> u32 \<Rightarrow> gfx \<Rightarrow> gfx option" where
  "bb_fill_rect x y w h c g =
     do { r \<leftarrow> bb_clip x y w h g;
          case r of
            None \<Rightarrow> Some g
          | Some (x0, y0, x1, y1) \<Rightarrow>
              do { bb \<leftarrow> bb_spans (gx_w g) (nat y0) (nat x0) (nat (y1 - y0)) (nat (x1 - x0)) (\<lambda>_. c) (gx_bb g);
                   Some (g\<lparr>gx_bb := bb\<rparr>) } }"

definition bb_draw_rect :: "int \<Rightarrow> int \<Rightarrow> int \<Rightarrow> int \<Rightarrow> u32 \<Rightarrow> gfx \<Rightarrow> gfx option" where
  "bb_draw_rect x y w h c g =
     (if w \<le> 0 \<or> h \<le> 0 then Some g
      else do { g \<leftarrow> bb_fill_rect x y w 1 c g;
                b \<leftarrow> sadd y h; b \<leftarrow> ssub b 1; g \<leftarrow> bb_fill_rect x b w 1 c g;
                g \<leftarrow> bb_fill_rect x y 1 h c g;
                r \<leftarrow> sadd x w; r \<leftarrow> ssub r 1; bb_fill_rect r y 1 h c g })"

definition bb_clear_region :: "int \<Rightarrow> int \<Rightarrow> int \<Rightarrow> int \<Rightarrow> u32 \<Rightarrow> gfx \<Rightarrow> gfx option" where
  "bb_clear_region x y w h c g = bb_fill_rect x y w h c g"

fun bb_cells :: "bytes \<Rightarrow> int \<Rightarrow> int \<Rightarrow> u32 \<Rightarrow> (nat \<times> nat) list \<Rightarrow> gfx \<Rightarrow> gfx option" where
  "bb_cells glyph x y fg [] g = Some g"
| "bb_cells glyph x y fg ((row, col) # cs) g =
     do { bits \<leftarrow> rd glyph row;
          g \<leftarrow> (if bit bits col then do { px \<leftarrow> sadd x (int col); py \<leftarrow> sadd y (int row); bb_put_pixel px py fg g }
               else Some g);
          bb_cells glyph x y fg cs g }"

text \<open>Unlike the framebuffer's routine, this one looks up every character in the font.\<close>

definition bb_draw_char :: "bytes list \<Rightarrow> int \<Rightarrow> int \<Rightarrow> u8 \<Rightarrow> u32 \<Rightarrow> gfx \<Rightarrow> gfx option" where
  "bb_draw_char font x y c fg g =
     do { glyph \<leftarrow> rd font (unat c); bb_cells glyph x y fg glyph_cells g }"

fun bb_draw_string :: "bytes list \<Rightarrow> int \<Rightarrow> int \<Rightarrow> bytes \<Rightarrow> u32 \<Rightarrow> gfx \<Rightarrow> (int \<times> gfx) option" where
  "bb_draw_string font x y [] fg g = Some (x, g)"
| "bb_draw_string font x y (c # cs) fg g =
     do { g \<leftarrow> bb_draw_char font x y c fg g; x \<leftarrow> sadd x 8; bb_draw_string font x y cs fg g }"

section \<open>Copies to the framebuffer\<close>

text \<open>\<open>n\<close> units of \<open>u\<close> bytes, each read whole and then written.\<close>

fun blit_units :: "nat \<Rightarrow> nat \<Rightarrow> bytes \<Rightarrow> nat \<Rightarrow> bytes \<Rightarrow> nat \<Rightarrow> bytes option" where
  "blit_units u 0 src s dst d = Some dst"
| "blit_units u (Suc n) src s dst d =
     do { v \<leftarrow> rd_range src s u; dst \<leftarrow> wr_range dst d v; blit_units u n src (s + u) dst (d + u) }"

definition blit_copy :: "bool \<Rightarrow> bytes \<Rightarrow> nat \<Rightarrow> bytes \<Rightarrow> nat \<Rightarrow> nat \<Rightarrow> bytes option" where
  "blit_copy aligned dst d src s n =
     (let k = (if aligned then n div 8 else 0) in
      do { dst \<leftarrow> blit_units 8 k src s dst d;
        (let d = d + 8 * k; s = s + 8 * k; n = (if aligned then n mod 8 else n) in
         do { dst \<leftarrow> (if n \<ge> 4 then blit_units 4 1 src s dst d else Some dst);
              (let m = (if n \<ge> 4 then 4 else 0) in blit_units 1 (n - m) src (s + m) dst (d + m)) }) })"

definition bb_bytes :: "u32 list \<Rightarrow> bytes" where
  "bb_bytes bb = concat (map le32 bb)"

text \<open>\<open>k\<close> rows of \<open>n\<close> bytes from row \<open>y\<close>, column \<open>x\<close>; \<open>da\<close> and \<open>sa\<close> are the addresses of the two arrays.\<close>

fun blit_rows :: "gfx \<Rightarrow> nat \<Rightarrow> nat \<Rightarrow> nat \<Rightarrow> nat \<Rightarrow> nat \<Rightarrow> bytes \<Rightarrow> bytes option" where
  "blit_rows g base y x 0 n v = Some v"
| "blit_rows g base y x (Suc k) n v =
     (let d = base + y * gx_pitch g + x * 4; s = y * gx_w g * 4 + x * 4 in
      do { v \<leftarrow> blit_copy ((gx_fb_addr g + d) mod 8 = 0 \<and> (gx_bb_addr g + s) mod 8 = 0) v d (bb_bytes (gx_bb g)) s n;
           blit_rows g base (y + 1) x k n v })"

definition blit_rect :: "int \<Rightarrow> int \<Rightarrow> int \<Rightarrow> int \<Rightarrow> gfx \<Rightarrow> gfx option" where
  "blit_rect x y w h g =
     do { r \<leftarrow> bb_clip x y w h g;
          case r of
            None \<Rightarrow> Some g
          | Some (x0, y0, x1, y1) \<Rightarrow>
              do { base \<leftarrow> fb_active_base (gx_fb g);
                   v \<leftarrow> blit_rows g base (nat y0) (nat x0) (nat (y1 - y0)) (nat ((x1 - x0) * 4)) (fb_vram (gx_fb g));
                   Some (g\<lparr>gx_fb := (gx_fb g)\<lparr>fb_vram := v\<rparr>\<rparr>) } }"

definition blit_full :: "gfx \<Rightarrow> gfx option" where
  "blit_full g = blit_rect 0 0 (int (gx_w g)) (int (gx_h g)) g"

section \<open>Damage\<close>

definition damage_add :: "int \<Rightarrow> int \<Rightarrow> int \<Rightarrow> int \<Rightarrow> gfx \<Rightarrow> gfx option" where
  "damage_add x y w h g =
     do { r \<leftarrow> bb_clip x y w h g;
          case r of
            None \<Rightarrow> Some g
          | Some (x0, y0, x1, y1) \<Rightarrow>
              if \<not> gx_dmg_on g then Some (g\<lparr>gx_dmg := (x0, y0, x1 - x0, y1 - y0), gx_dmg_on := True\<rparr>)
              else (let (dx, dy, dw, dh) = gx_dmg g;
                        nx0 = min dx x0; ny0 = min dy y0; nx1 = max (dx + dw) x1; ny1 = max (dy + dh) y1
                    in Some (g\<lparr>gx_dmg := (nx0, ny0, nx1 - nx0, ny1 - ny0)\<rparr>)) }"

definition damage_touches :: "int \<Rightarrow> int \<Rightarrow> int \<Rightarrow> int \<Rightarrow> gfx \<Rightarrow> bool" where
  "damage_touches x y w h g \<longleftrightarrow>
     gx_dmg_on g \<and> (let (dx, dy, dw, dh) = gx_dmg g in x < dx + dw \<and> x + w > dx \<and> y < dy + dh \<and> y + h > dy)"

section \<open>Presenting a frame\<close>

text \<open>The wait for the retrace changes nothing but the time.\<close>

definition present_single :: "gfx \<Rightarrow> gfx option" where
  "present_single g =
     (if \<not> gx_dmg_on g then Some g
      else (let (x, y, w, h) = gx_dmg g in
        do { g \<leftarrow> blit_rect x y w h g; Some (g\<lparr>gx_dmg_on := False\<rparr>) }))"

definition present_flip :: "gfx \<Rightarrow> gfx option" where
  "present_flip g =
     (let back = (if gx_front g = 0 then 1 else 0); g = g\<lparr>gx_fb := fb_set_active_page back (gx_fb g)\<rparr> in
      do { g \<leftarrow> (if gx_prev_on g then (let (x, y, w, h) = gx_prev g in blit_rect x y w h g) else Some g);
           g \<leftarrow> (if gx_dmg_on g then (let (x, y, w, h) = gx_dmg g in blit_rect x y w h g) else Some g);
           Some (g\<lparr>gx_prev_on := gx_dmg_on g, gx_prev := gx_dmg g, gx_dmg_on := False,
                   gx_fb := fb_flip_pages (gx_fb g), gx_front := back\<rparr>) })"

text \<open>The guard words that are checked are the copies, not the ones behind the backbuffer.\<close>

definition canaries_ok :: "gfx \<Rightarrow> bool" where
  "canaries_ok g \<longleftrightarrow> list_all (\<lambda>i. rd (gx_canary g) i = Some (BB_CANARY_BASE + of_nat i)) [0 ..< BB_CANARIES]"

section \<open>Background\<close>

definition BG_TOP :: u32 where "BG_TOP = 0x003A5C8A"
definition BG_BOTTOM :: u32 where "BG_BOTTOM = 0x00121B2E"

definition chan :: "nat \<Rightarrow> u32 \<Rightarrow> u32" where
  "chan k c = drop_bit k c AND 0xFF"

definition gradient_color :: "u64 \<Rightarrow> u64 \<Rightarrow> u32" where
  "gradient_color y h =
     (let t = (if h \<le> 1 then 0 else ucast (y * 255 div (h - 1)) :: u32);
          mix = (\<lambda>k. chan k BG_TOP + (chan k BG_BOTTOM - chan k BG_TOP) * t div 255)
      in push_bit 16 (mix 16) OR push_bit 8 (mix 8) OR mix 0)"

end
