(* ===== verification/Inflate.thy ===== *)
theory Inflate
  imports Sol_Prelude
begin

unbundle bit_operations_syntax

text \<open>
  The DEFLATE decoder of \<^verbatim>\<open>kernel/png.c\<close>: the bit reader, canonical Huffman tables and
  \<^verbatim>\<open>inflate\<close>. Reads and writes outside an array are \<open>None\<close>, as is a loop that does not end; the
  code's own failure value is \<open>Some (None, out)\<close>.

  The lemmas show that on every input whatsoever the decoder ends without leaving its arrays, and
  that it restores what stored blocks hold.
\<close>

section \<open>The bit reader\<close>

record br =
  br_p :: bytes
  br_pos :: nat
  br_bitbuf :: u32
  br_bitcnt :: nat

function br_bits :: "nat \<Rightarrow> br \<Rightarrow> u32 \<times> br" where
  "br_bits n b =
     (if br_bitcnt b < n then
        (if br_pos b \<ge> length (br_p b) then (0xFFFFFFFF, b)
         else br_bits n (b\<lparr>br_bitbuf := br_bitbuf b OR push_bit (br_bitcnt b) (ucast (br_p b ! br_pos b)),
                           br_pos := br_pos b + 1, br_bitcnt := br_bitcnt b + 8\<rparr>))
      else (br_bitbuf b AND (push_bit n 1 - 1),
            b\<lparr>br_bitbuf := drop_bit n (br_bitbuf b), br_bitcnt := br_bitcnt b - n\<rparr>))"
  by pat_completeness auto
termination
  by (relation "measure (\<lambda>(n, b). length (br_p b) - br_pos b)") auto

declare br_bits.simps [simp del]

section \<open>Huffman tables\<close>

definition HUFF_MAX_BITS :: nat where "HUFF_MAX_BITS = 15"

record huff =
  hf_counts :: "nat list"
  hf_symbols :: "nat list"

text \<open>The loop over the code lengths; the table's symbols are those the builder has stored.\<close>

fun huff_dec_loop :: "huff \<Rightarrow> nat list \<Rightarrow> int \<Rightarrow> int \<Rightarrow> int \<Rightarrow> br \<Rightarrow> (int \<times> br) option" where
  "huff_dec_loop h [] code fst_code idx b = Some (-1, b)"
| "huff_dec_loop h (len # lens) code fst_code idx b =
     (let (v, b) = br_bits 1 b;
          code = code OR sint v
      in do { c \<leftarrow> rd (hf_counts h) len;
              (let cnt = int c in
               if code - cnt < fst_code then
                 (let sym = idx + (code - fst_code) in
                  if sym < 0 \<or> sym \<ge> int (length (hf_symbols h)) then Some (-1, b)
                  else do { s \<leftarrow> rd (hf_symbols h) (nat sym); Some (int s, b) })
               else huff_dec_loop h lens (code * 2) ((fst_code + cnt) * 2) (idx + cnt) b) })"

definition huff_dec :: "huff \<Rightarrow> br \<Rightarrow> (int \<times> br) option" where
  "huff_dec h b = huff_dec_loop h [1 ..< HUFF_MAX_BITS + 1] 0 0 0 b"

fun huff_count :: "bytes \<Rightarrow> nat list \<Rightarrow> nat list option" where
  "huff_count [] counts = Some counts"
| "huff_count (l # lens) counts =
     (if unat l > HUFF_MAX_BITS then None
      else huff_count lens (if l \<noteq> 0 then counts[unat l := counts ! unat l + 1] else counts))"

text \<open>\<open>None\<close> is the builder's own failure.\<close>

definition huff_build :: "bytes \<Rightarrow> huff option" where
  "huff_build lens =
     do { counts \<leftarrow> huff_count lens (replicate (HUFF_MAX_BITS + 1) 0);
          if \<exists>i \<in> set [1 ..< HUFF_MAX_BITS + 1]. counts ! i > 2 ^ i then None
          else Some \<lparr>hf_counts = counts,
                     hf_symbols = take (288 + 32)
                       (concat (map (\<lambda>len. filter (\<lambda>i. unat (lens ! i) = len) [0 ..< length lens])
                                    [1 ..< HUFF_MAX_BITS + 1]))\<rparr> }"

definition len_base :: "nat list" where
  "len_base = [3, 4, 5, 6, 7, 8, 9, 10, 11, 13, 15, 17, 19, 23, 27, 31,
     35, 43, 51, 59, 67, 83, 99, 115, 131, 163, 195, 227, 258]"

definition len_extra :: "nat list" where
  "len_extra = [0, 0, 0, 0, 0, 0, 0, 0, 1, 1, 1, 1, 2, 2, 2, 2, 3, 3, 3, 3, 4, 4, 4, 4, 5, 5, 5, 5, 0]"

definition dist_base :: "nat list" where
  "dist_base = [1, 2, 3, 4, 5, 7, 9, 13, 17, 25, 33, 49, 65, 97, 129, 193,
     257, 385, 513, 769, 1025, 1537, 2049, 3073, 4097, 6145, 8193, 12289, 16385, 24577]"

definition dist_extra :: "nat list" where
  "dist_extra = [0, 0, 0, 0, 1, 1, 2, 2, 3, 3, 4, 4, 5, 5, 6, 6,
     7, 7, 8, 8, 9, 9, 10, 10, 11, 11, 12, 12, 13, 13]"

definition huff_fixed :: "(huff \<times> huff) option" where
  "huff_fixed =
     do { lit \<leftarrow> huff_build (replicate 144 8 @ replicate 112 9 @ replicate 24 7 @ replicate 8 8);
          dist \<leftarrow> huff_build (replicate 32 5);
          Some (lit, dist) }"

definition clc_order :: "nat list" where
  "clc_order = [16, 17, 18, 0, 8, 7, 9, 6, 10, 5, 11, 4, 12, 3, 13, 2, 14, 1, 15]"

section \<open>The tables of a dynamic block\<close>

fun read_clc :: "nat list \<Rightarrow> bytes \<Rightarrow> br \<Rightarrow> (bytes \<times> br) option" where
  "read_clc [] lens b = Some (lens, b)"
| "read_clc (i # is) lens b =
     (let (v, b) = br_bits 3 b
      in do { k \<leftarrow> rd clc_order i; lens \<leftarrow> wr lens k (ucast v); read_clc is lens b })"

text \<open>A run of \<open>k\<close> equal lengths; the inner \<open>None\<close> is the code's failure when it passes \<open>tot\<close>.\<close>

fun put_run :: "nat \<Rightarrow> nat \<Rightarrow> nat \<Rightarrow> u8 \<Rightarrow> bytes \<Rightarrow> (nat \<times> bytes) option option" where
  "put_run 0 tot li v lens = Some (Some (li, lens))"
| "put_run (Suc k) tot li v lens =
     (if li \<ge> tot then Some None
      else do { lens \<leftarrow> wr lens li v; put_run k tot (li + 1) v lens })"

definition rep_count :: "int \<Rightarrow> u32 \<Rightarrow> nat" where
  "rep_count base v = nat (base + sint v)"

partial_function (option) read_lens ::
    "huff \<Rightarrow> nat \<Rightarrow> nat \<Rightarrow> bytes \<Rightarrow> br \<Rightarrow> (bytes \<times> br) option option" where
  "read_lens clc tot li lens b =
     (if li \<ge> tot then Some (Some (lens, b))
      else do { (sym, b) \<leftarrow> huff_dec clc b;
        if sym < 0 \<or> sym > 18 then Some None
        else if sym < 16 then
          do { lens \<leftarrow> wr lens li (of_int sym); read_lens clc tot (li + 1) lens b }
        else if sym = 16 \<and> li = 0 then Some None
        else do { prev \<leftarrow> (if sym = 16 then rd lens (li - 1) else Some 0);
          (let (v, b) = br_bits (if sym = 16 then 2 else if sym = 17 then 3 else 7) b in
           do { r \<leftarrow> put_run (rep_count (if sym = 18 then 11 else 3) v) tot li prev lens;
                if r = None then Some None
                else read_lens clc tot (fst (the r)) (snd (the r)) b }) } })"

definition read_trees :: "int \<Rightarrow> int \<Rightarrow> int \<Rightarrow> br \<Rightarrow> ((huff \<times> huff) \<times> br) option option" where
  "read_trees hlit hdist hclen b =
     (if hlit > 288 \<or> hdist > 32 \<or> hclen > 19 then Some None
      else do { (cl, b) \<leftarrow> read_clc [0 ..< nat hclen] (replicate 19 0) b;
        case huff_build cl of
          None \<Rightarrow> Some None
        | Some clc \<Rightarrow>
            do { r \<leftarrow> read_lens clc (nat (hlit + hdist)) 0 (replicate (288 + 32) 0) b;
                 case r of
                   None \<Rightarrow> Some None
                 | Some (lens, b) \<Rightarrow>
                     (case huff_build (take (nat hlit) lens) of
                        None \<Rightarrow> Some None
                      | Some lit \<Rightarrow>
                          (case huff_build (take (nat hdist) (drop (nat hlit) lens)) of
                             None \<Rightarrow> Some None
                           | Some dist \<Rightarrow> Some (Some ((lit, dist), b)))) } })"

definition read_tables :: "br \<Rightarrow> ((huff \<times> huff) \<times> br) option option" where
  "read_tables b =
     (let (v1, b) = br_bits 5 b; (v2, b) = br_bits 5 b; (v3, b) = br_bits 4 b
      in read_trees (257 + sint v1) (1 + sint v2) (4 + sint v3) b)"

section \<open>Inflation\<close>

fun copy_match :: "nat \<Rightarrow> nat \<Rightarrow> bytes \<Rightarrow> nat \<Rightarrow> (bytes \<times> nat) option" where
  "copy_match 0 distv out opos = Some (out, opos)"
| "copy_match (Suc n) distv out opos =
     do { x \<leftarrow> rd_sub out opos distv; out \<leftarrow> wr out opos x; copy_match n distv out (opos + 1) }"

text \<open>The symbols of one block; the last component of a result is \<open>None\<close> on the code's failure.\<close>

partial_function (option) inflate_codes ::
    "huff \<Rightarrow> huff \<Rightarrow> br \<Rightarrow> bytes \<Rightarrow> nat \<Rightarrow> (bytes \<times> (br \<times> nat) option) option" where
  "inflate_codes lit dist b out opos =
     do { (sym, b) \<leftarrow> huff_dec lit b;
       if sym < 0 then Some (out, None)
       else if sym < 256 then
         (if opos \<ge> length out then Some (out, None)
          else do { out \<leftarrow> wr out opos (of_int sym); inflate_codes lit dist b out (opos + 1) })
       else if sym = 256 then Some (out, Some (b, opos))
       else if sym \<le> 285 then
         do { lb \<leftarrow> rd len_base (nat sym - 257);
              le \<leftarrow> rd len_extra (nat sym - 257);
              (let (v, b) = br_bits le b; len = lb + unat v in
               do { (dsym, b) \<leftarrow> huff_dec dist b;
                    if dsym < 0 \<or> dsym > 29 then Some (out, None)
                    else do { db \<leftarrow> rd dist_base (nat dsym);
                      de \<leftarrow> rd dist_extra (nat dsym);
                      (let (v, b) = br_bits de b; distv = db + unat v in
                       if distv > opos then Some (out, None)
                       else if opos + len > length out then Some (out, None)
                       else do { (out, opos) \<leftarrow> copy_match len distv out opos;
                                 inflate_codes lit dist b out opos }) } }) }
       else Some (out, None) }"

definition inflate_stored :: "br \<Rightarrow> bytes \<Rightarrow> nat \<Rightarrow> (bytes \<times> (br \<times> nat) option) option" where
  "inflate_stored b out opos =
     (let b = b\<lparr>br_bitbuf := 0, br_bitcnt := 0\<rparr> in
      if br_pos b + 4 > length (br_p b) then Some (out, None)
      else do { h \<leftarrow> rd_range (br_p b) (br_pos b) 4;
        (let len = unat (h ! 0) + 256 * unat (h ! 1); nlen = unat (h ! 2) + 256 * unat (h ! 3);
             pos = br_pos b + 4
         in if len XOR 0xFFFF \<noteq> nlen then Some (out, None)
            else if pos + len > length (br_p b) then Some (out, None)
            else if opos + len > length out then Some (out, None)
            else do { bs \<leftarrow> rd_range (br_p b) pos len;
                      out \<leftarrow> wr_range out opos bs;
                      Some (out, Some (b\<lparr>br_pos := pos + len\<rparr>, opos + len)) }) })"

definition inflate_block :: "int \<Rightarrow> br \<Rightarrow> bytes \<Rightarrow> nat \<Rightarrow> (bytes \<times> (br \<times> nat) option) option" where
  "inflate_block ty b out opos =
     (if ty = 3 then Some (out, None)
      else if ty = 0 then inflate_stored b out opos
      else if ty = 1 then do { (lit, dist) \<leftarrow> huff_fixed; inflate_codes lit dist b out opos }
      else do { r \<leftarrow> read_tables b;
                case r of None \<Rightarrow> Some (out, None)
                | Some ((lit, dist), b) \<Rightarrow> inflate_codes lit dist b out opos })"

partial_function (option) inflate_blocks :: "br \<Rightarrow> bytes \<Rightarrow> nat \<Rightarrow> (bytes \<times> nat option) option" where
  "inflate_blocks b out opos =
     (let (last, b) = br_bits 1 b; (ty, b) = br_bits 2 b in
      do { (out, r) \<leftarrow> inflate_block (sint ty) b out opos;
           if r = None then Some (out, None)
           else if last \<noteq> 0 then Some (out, Some (snd (the r)))
           else inflate_blocks (fst (the r)) out (snd (the r)) })"

text \<open>The zlib wrapper is skipped when its two bytes are a valid header.\<close>

definition zlib_header :: "bytes \<Rightarrow> bool" where
  "zlib_header src \<longleftrightarrow> length src \<ge> 2
   \<and> src ! 0 AND 0x0F = 8 \<and> drop_bit 4 (src ! 0) \<le> 7 \<and> src ! 1 AND 0x20 = 0
   \<and> mk16 (src ! 0) (src ! 1) mod 31 = 0"

definition inflate :: "bytes \<Rightarrow> bytes \<Rightarrow> (bytes \<times> nat option) option" where
  "inflate src out =
     (let src = (if zlib_header src then drop 2 src else src)
      in inflate_blocks \<lparr>br_p = src, br_pos = 0, br_bitbuf = 0, br_bitcnt = 0\<rparr> out 0)"

unbundle bit_operations_syntax

section \<open>The decoder stays inside its arrays and ends\<close>

text \<open>The bits that a reader still has; every loop of the decoder uses some of them up.\<close>

definition br_ok :: "br \<Rightarrow> bool" where
  "br_ok b \<longleftrightarrow> br_pos b \<le> length (br_p b)"

definition bits_left :: "br \<Rightarrow> nat" where
  "bits_left b = 8 * (length (br_p b) - br_pos b) + br_bitcnt b"

text \<open>\<open>b'\<close> continues \<open>b\<close>.\<close>

definition br_after :: "br \<Rightarrow> br \<Rightarrow> bool" where
  "br_after b b' \<longleftrightarrow> br_p b' = br_p b \<and> br_ok b' \<and> bits_left b' \<le> bits_left b"

lemma br_after_trans: "br_after a b \<Longrightarrow> br_after b c \<Longrightarrow> br_after a c"
  by (auto simp: br_after_def)

lemma br_after_ok: "br_after a b \<Longrightarrow> br_ok b"
  by (simp add: br_after_def)

lemma br_after_refl: "br_ok b \<Longrightarrow> br_after b b"
  by (simp add: br_after_def)

lemma br_bits_spec:
  "br_ok b \<Longrightarrow> br_bits n b = (v, b') \<Longrightarrow>
   br_after b b' \<and> (bits_left b' + n = bits_left b \<or> v = 0xFFFFFFFF)"
proof (induction n b rule: br_bits.induct)
  case (1 n b)
  show ?case
  proof (cases "br_bitcnt b < n")
    case more: True
    show ?thesis
    proof (cases "br_pos b \<ge> length (br_p b)")
      case True
      then show ?thesis using 1(2,3) more by (simp add: br_bits.simps [of n b] br_after_refl)
    next
      case False
      let ?b = "b\<lparr>br_bitbuf := br_bitbuf b OR push_bit (br_bitcnt b) (ucast (br_p b ! br_pos b)),
                  br_pos := br_pos b + 1, br_bitcnt := br_bitcnt b + 8\<rparr>"
      have left: "bits_left ?b = bits_left b" and ok: "br_ok ?b"
        using False by (auto simp: bits_left_def br_ok_def)
      have "br_bits n ?b = (v, b')" using 1(3) more False by (simp add: br_bits.simps [of n b])
      then show ?thesis using 1(1) [OF more False ok] left by (simp add: br_after_def)
    qed
  next
    case False
    then have b': "b' = b\<lparr>br_bitbuf := drop_bit n (br_bitbuf b), br_bitcnt := br_bitcnt b - n\<rparr>"
      using 1(3) by (simp add: br_bits.simps [of n b])
    show ?thesis using False 1(2) by (simp add: b' br_after_def br_ok_def bits_left_def)
  qed
qed

definition huff_ok :: "huff \<Rightarrow> bool" where
  "huff_ok h \<longleftrightarrow> length (hf_counts h) = 16"

lemma huff_dec_loop_spec:
  assumes "huff_ok h"
  shows "br_ok b \<Longrightarrow> \<forall>l \<in> set lens. l < 16 \<Longrightarrow> 0 \<le> idx \<Longrightarrow> idx \<le> fc \<Longrightarrow>
    \<exists>r b'. huff_dec_loop h lens code fc idx b = Some (r, b') \<and> br_after b b'
      \<and> (0 \<le> r \<longrightarrow> bits_left b' < bits_left b)"
proof (induction lens arbitrary: code fc idx b)
  case Nil
  then show ?case by (simp add: br_after_refl)
next
  case (Cons len lens)
  obtain v b1 where v: "br_bits 1 b = (v, b1)" by (cases "br_bits 1 b")
  note a = br_bits_spec [OF Cons.prems(1) v]
  have b1: "br_after b b1" using a by simp
  let ?cnt = "int (hf_counts h ! len)"
  let ?code = "code OR sint v"
  have c: "rd (hf_counts h) len = Some (hf_counts h ! len)"
    using Cons.prems(2) assms by (simp add: rd_Some huff_ok_def)
  let ?sym = "idx + (?code - fc)"
  show ?case
  proof (cases "?code - ?cnt < fc")
    case hit: True
    show ?thesis
    proof (cases "?sym < 0 \<or> ?sym \<ge> int (length (hf_symbols h))")
      case True
      then show ?thesis using hit b1 v [simplified] by (simp add: c Let_def)
    next
      case False
      have "v \<noteq> 0xFFFFFFFF"
      proof
        assume "v = 0xFFFFFFFF"
        then have "sint v = -1" by simp
        then show False using False Cons.prems(4) by simp
      qed
      then have "bits_left b1 < bits_left b" using a by auto
      moreover have "rd (hf_symbols h) (nat ?sym) = Some (hf_symbols h ! nat ?sym)"
        using False by (simp add: rd_Some nat_less_iff)
      ultimately show ?thesis using hit False b1 v [simplified] by (simp add: c Let_def)
    qed
  next
    case False
    have "\<exists>r b'. huff_dec_loop h lens (?code * 2) ((fc + ?cnt) * 2) (idx + ?cnt) b1 = Some (r, b')
        \<and> br_after b1 b' \<and> (0 \<le> r \<longrightarrow> bits_left b' < bits_left b1)"
      by (rule Cons.IH) (use Cons.prems br_after_ok [OF b1] in auto)
    then obtain r b' where r: "huff_dec_loop h lens (?code * 2) ((fc + ?cnt) * 2) (idx + ?cnt) b1 = Some (r, b')"
        "br_after b1 b'" "0 \<le> r \<longrightarrow> bits_left b' < bits_left b1" by blast
    then have "huff_dec_loop h (len # lens) code fc idx b = Some (r, b')"
      using False v [simplified] by (simp add: c Let_def)
    then show ?thesis using b1 r(3) br_after_trans [OF b1 r(2)] by (auto simp: br_after_def)
  qed
qed

lemma huff_dec_spec:
  assumes "huff_ok h" "br_ok b"
  shows "\<exists>r b'. huff_dec h b = Some (r, b') \<and> br_after b b' \<and> (0 \<le> r \<longrightarrow> bits_left b' < bits_left b)"
  unfolding huff_dec_def using assms by (intro huff_dec_loop_spec) (auto simp: HUFF_MAX_BITS_def)

lemma huff_build_ok:
  assumes "huff_build lens = Some h"
  shows "huff_ok h"
proof -
  have "huff_count ls cs = Some cs' \<Longrightarrow> length cs' = length cs" for ls cs cs'
    by (induction ls cs rule: huff_count.induct) (auto split: if_splits)
  then show ?thesis
    using assms by (auto simp: huff_build_def huff_ok_def HUFF_MAX_BITS_def bind_eq_Some_conv split: if_splits)
qed

lemma read_clc_spec:
  "br_ok b \<Longrightarrow> \<forall>i \<in> set is. i < 19 \<Longrightarrow> length lens = 19 \<Longrightarrow>
   \<exists>lens' b'. read_clc is lens b = Some (lens', b') \<and> br_after b b'"
proof (induction "is" arbitrary: lens b)
  case (Cons i "is")
  obtain v b1 where v: "br_bits 3 b = (v, b1)" by (cases "br_bits 3 b")
  have b1: "br_after b b1" using br_bits_spec [OF Cons.prems(1) v] by simp
  have "list_all (\<lambda>k. k < 19) clc_order" and len: "length clc_order = 19" by (simp_all add: clc_order_def)
  then have k: "clc_order ! i < 19" using Cons.prems(2) by (simp add: list_all_length)
  obtain lens' b' where "read_clc is (lens[clc_order ! i := ucast v]) b1 = Some (lens', b')" "br_after b1 b'"
    using Cons.IH [OF br_after_ok [OF b1], of "lens[clc_order ! i := ucast v]"] Cons.prems by auto
  then show ?case using Cons.prems(2,3) k len br_after_trans [OF b1]
    by (auto simp: v rd_Some wr_Some)
qed (simp add: br_after_refl)

lemma put_run_spec:
  "tot \<le> length lens \<Longrightarrow> li \<le> tot \<Longrightarrow>
   \<exists>r. put_run k tot li v lens = Some r
     \<and> (\<forall>li' lens'. r = Some (li', lens') \<longrightarrow> li' \<le> tot \<and> length lens' = length lens)"
proof (induction k arbitrary: li lens)
  case (Suc k)
  show ?case
  proof (cases "li \<ge> tot")
    case False
    then show ?thesis using Suc.IH [of "lens[li := v]" "li + 1"] Suc.prems by (simp add: wr_Some)
  qed simp
qed simp

lemma read_lens_spec:
  assumes "huff_ok clc"
  shows "br_ok b \<Longrightarrow> tot \<le> length lens \<Longrightarrow> li \<le> tot \<Longrightarrow>
    \<exists>r. read_lens clc tot li lens b = Some r \<and> (\<forall>lens' b'. r = Some (lens', b') \<longrightarrow> br_after b b')"
proof (induction "bits_left b" arbitrary: b li lens rule: less_induct)
  case less
  show ?case
  proof (cases "li \<ge> tot")
    case True
    then show ?thesis using less.prems by (subst read_lens.simps) (simp add: br_after_refl)
  next
    case more: False
    obtain sym b1 where sym: "huff_dec clc b = Some (sym, b1)" "br_after b b1"
        "0 \<le> sym \<longrightarrow> bits_left b1 < bits_left b"
      using huff_dec_spec [OF assms less.prems(1)] by blast
    show ?thesis
    proof (cases "sym < 0 \<or> sym > 18 \<or> sym = 16 \<and> li = 0")
      case True
      then show ?thesis using more sym(1) by (subst read_lens.simps) auto
    next
      case ok: False
      then have lt: "bits_left b1 < bits_left b" using sym(3) by simp
      show ?thesis
      proof (cases "sym < 16")
        case True
        let ?lens = "lens[li := of_int sym]"
        have "\<exists>r. read_lens clc tot (li + 1) ?lens b1 = Some r \<and> (\<forall>lens' b'. r = Some (lens', b') \<longrightarrow> br_after b1 b')"
          by (rule less.hyps [OF lt br_after_ok [OF sym(2)]]) (use less.prems more in auto)
        then show ?thesis using more ok True sym(1) less.prems br_after_trans [OF sym(2)]
          by (subst read_lens.simps) (auto simp: wr_Some)
      next
        case False
        let ?n = "if sym = 16 then 2 else if sym = 17 then 3 else 7 :: nat"
        let ?prev = "if sym = 16 then lens ! (li - 1) else 0"
        have "li - 1 < length lens" using more less.prems by linarith
        then have prev: "(if sym = 16 then rd lens (li - 1) else Some 0) = Some ?prev"
          by (simp add: rd_Some)
        obtain v b2 where v: "br_bits ?n b1 = (v, b2)" by (cases "br_bits ?n b1")
        have b2: "br_after b1 b2" using br_bits_spec [OF br_after_ok [OF sym(2)] v] by simp
        let ?k = "rep_count (if sym = 18 then 11 else 3) v"
        obtain r where r: "put_run ?k tot li ?prev lens = Some r"
            "\<forall>li' lens'. r = Some (li', lens') \<longrightarrow> li' \<le> tot \<and> length lens' = length lens"
          using put_run_spec [of tot lens li ?k ?prev] less.prems by auto
        have step: "read_lens clc tot li lens b
            = (if r = None then Some None else read_lens clc tot (fst (the r)) (snd (the r)) b2)"
          using more ok False sym(1) prev v r(1) by (subst read_lens.simps) (auto simp: Let_def)
        show ?thesis
        proof (cases r)
          case (Some q)
          have "bits_left b2 < bits_left b" using lt b2 by (simp add: br_after_def)
          then have "\<exists>r. read_lens clc tot (fst q) (snd q) b2 = Some r
              \<and> (\<forall>lens' b'. r = Some (lens', b') \<longrightarrow> br_after b2 b')"
            using less.hyps [OF _ br_after_ok [OF b2]] r(2) Some less.prems by (cases q) simp
          then show ?thesis using step Some br_after_trans [OF br_after_trans [OF sym(2) b2]] by auto
        qed (use step in simp)
      qed
    qed
  qed
qed


lemma huff_count_replicate:
  assumes "unat x \<le> 15" "x \<noteq> 0"
  shows "unat x < length counts \<Longrightarrow>
    huff_count (replicate n x @ ls) counts = huff_count ls (counts[unat x := counts ! unat x + n])"
  by (induction n arbitrary: counts) (use assms in \<open>auto simp: HUFF_MAX_BITS_def\<close>)

lemma huff_count_runs:
  "\<forall>(n, x) \<in> set runs. x \<noteq> 0 \<and> unat x \<le> 15 \<Longrightarrow> length counts = 16 \<Longrightarrow>
   huff_count (concat (map (\<lambda>(n, x). replicate n x) runs)) counts
     = Some (fold (\<lambda>(n, x) c. c[unat x := c ! unat x + n]) runs counts)"
  by (induction runs arbitrary: counts) (auto simp: huff_count_replicate)

text \<open>The fixed code: no length has more codes than its bits allow.\<close>

definition huff_sizes_ok :: "nat list \<Rightarrow> bool" where
  "huff_sizes_ok counts \<longleftrightarrow> list_all (\<lambda>i. counts ! i \<le> 2 ^ i) [1 ..< HUFF_MAX_BITS + 1]"

lemma huff_build_Some:
  assumes "huff_count lens (replicate (HUFF_MAX_BITS + 1) 0) = Some counts" "huff_sizes_ok counts"
  shows "huff_build lens \<noteq> None"
  using assms by (auto simp: huff_build_def huff_sizes_ok_def list_all_iff not_less)

lemma huff_fixed_ok: "\<exists>lit dist. huff_fixed = Some (lit, dist) \<and> huff_ok lit \<and> huff_ok dist"
proof -
  let ?z = "replicate (HUFF_MAX_BITS + 1) 0 :: nat list"
  have u: "unat (8 :: u8) = 8" "unat (9 :: u8) = 9" "unat (7 :: u8) = 7" "unat (5 :: u8) = 5" by simp_all
  have "huff_count (replicate 144 8 @ replicate 112 9 @ replicate 24 7 @ replicate 8 8) ?z
      = Some (?z[8 := 144, 9 := 112, 7 := 24, 8 := 152])"
    using huff_count_runs [of "[(144, 8), (112, 9), (24, 7), (8, 8)]" ?z]
    by (simp add: u HUFF_MAX_BITS_def del: replicate.simps)
  moreover have "huff_sizes_ok (?z[8 := 144, 9 := 112, 7 := 24, 8 := 152])"
    by (simp add: huff_sizes_ok_def HUFF_MAX_BITS_def upt_rec nth_list_update del: replicate.simps)
  ultimately have lit: "huff_build (replicate 144 8 @ replicate 112 9 @ replicate 24 7 @ replicate 8 8) \<noteq> None"
    by (rule huff_build_Some)
  have "huff_count (replicate 32 5) ?z = Some (?z[5 := 32])"
    using huff_count_runs [of "[(32, 5)]" ?z] by (simp add: u HUFF_MAX_BITS_def del: replicate.simps)
  moreover have "huff_sizes_ok (?z[5 := 32])"
    by (simp add: huff_sizes_ok_def HUFF_MAX_BITS_def upt_rec nth_list_update del: replicate.simps)
  ultimately have "huff_build (replicate 32 5) \<noteq> None"
    by (rule huff_build_Some)
  then show ?thesis using lit huff_build_ok by (auto simp: huff_fixed_def bind_eq_Some_conv)
qed

definition trees_spec :: "br \<Rightarrow> ((huff \<times> huff) \<times> br) option option \<Rightarrow> bool" where
  "trees_spec b t \<longleftrightarrow> (\<exists>r. t = Some r
    \<and> (\<forall>lit dist b'. r = Some ((lit, dist), b') \<longrightarrow> huff_ok lit \<and> huff_ok dist \<and> br_after b b'))"

lemma read_trees_spec:
  assumes "br_ok b"
  shows "trees_spec b (read_trees hlit hdist hclen b)"
proof (cases "hlit > 288 \<or> hdist > 32 \<or> hclen > 19")
  case False
  obtain cl b4 where cl: "read_clc [0 ..< nat hclen] (replicate 19 0) b = Some (cl, b4)" "br_after b b4"
    using read_clc_spec [OF assms, of "[0 ..< nat hclen]" "replicate 19 0"] False by fastforce
  show ?thesis
  proof (cases "huff_build cl")
    case None
    then show ?thesis using False cl
      by (simp add: trees_spec_def read_trees_def del: replicate.simps upt.simps)
  next
    case (Some clc)
    have "nat (hlit + hdist) \<le> length (replicate (288 + 32) 0)" using False by (simp add: nat_le_iff)
    from read_lens_spec [OF huff_build_ok [OF Some] br_after_ok [OF cl(2)] this, of 0]
    obtain r where r: "read_lens clc (nat (hlit + hdist)) 0 (replicate (288 + 32) 0) b4 = Some r"
        "\<forall>lens' b'. r = Some (lens', b') \<longrightarrow> br_after b4 b'" by blast
    then show ?thesis using False cl(1) Some br_after_trans [OF cl(2)] huff_build_ok
      by (auto simp: trees_spec_def read_trees_def split: option.splits
          simp del: replicate.simps upt.simps)
  qed
qed (simp add: trees_spec_def read_trees_def)

lemma read_tables_spec:
  assumes "br_ok b"
  shows "trees_spec b (read_tables b)"
proof -
  obtain v1 b1 where v1: "br_bits 5 b = (v1, b1)" by (cases "br_bits 5 b")
  have b1: "br_after b b1" using br_bits_spec [OF assms v1] by simp
  obtain v2 b2 where v2: "br_bits 5 b1 = (v2, b2)" by (cases "br_bits 5 b1")
  have b2: "br_after b b2" using br_bits_spec [OF br_after_ok [OF b1] v2] br_after_trans [OF b1] by simp
  obtain v3 b3 where v3: "br_bits 4 b2 = (v3, b3)" by (cases "br_bits 4 b2")
  have b3: "br_after b b3" using br_bits_spec [OF br_after_ok [OF b2] v3] br_after_trans [OF b2] by simp
  have "trees_spec b3 (read_tables b)"
    using read_trees_spec [OF br_after_ok [OF b3]] by (simp add: read_tables_def v1 v2 v3)
  then show ?thesis using br_after_trans [OF b3] by (auto simp: trees_spec_def)
qed

lemma copy_match_spec:
  "distv \<le> opos \<Longrightarrow> opos + n \<le> length out \<Longrightarrow> 0 < distv \<Longrightarrow>
   \<exists>out'. copy_match n distv out opos = Some (out', opos + n) \<and> length out' = length out"
proof (induction n arbitrary: out opos)
  case (Suc n)
  then show ?case using Suc.IH [of "opos + 1" "out[opos := out ! (opos - distv)]"]
    by (simp add: rd_sub_Some wr_Some)
qed simp

text \<open>What a block decoder promises: it returns, keeps the output's length, and consumes bits.\<close>

definition block_spec :: "br \<Rightarrow> bytes \<Rightarrow> (bytes \<times> (br \<times> nat) option) option \<Rightarrow> bool" where
  "block_spec b out t \<longleftrightarrow> (\<exists>out' r. t = Some (out', r) \<and> length out' = length out
    \<and> (\<forall>b' k. r = Some (b', k) \<longrightarrow> br_after b b' \<and> k \<le> length out))"

lemma block_spec_fail: "block_spec b out (Some (out, None))"
  by (simp add: block_spec_def)

lemma block_spec_trans:
  "block_spec b1 out1 t \<Longrightarrow> br_after b b1 \<Longrightarrow> length out1 = length out \<Longrightarrow> block_spec b out t"
  using br_after_trans by (fastforce simp: block_spec_def)

lemma dist_base_pos: "i < 30 \<Longrightarrow> 0 < dist_base ! i"
proof -
  have "list_all (\<lambda>d. 0 < d) dist_base" "length dist_base = 30" by (simp_all add: dist_base_def)
  then show "i < 30 \<Longrightarrow> 0 < dist_base ! i" by (simp add: list_all_length)
qed

lemma inflate_codes_spec:
  assumes ok: "huff_ok lit" "huff_ok dist"
  shows "br_ok b \<Longrightarrow> opos \<le> length out \<Longrightarrow> block_spec b out (inflate_codes lit dist b out opos)"
proof (induction "bits_left b" arbitrary: b out opos rule: less_induct)
  case less
  obtain sym b1 where sym: "huff_dec lit b = Some (sym, b1)" "br_after b b1"
      "0 \<le> sym \<longrightarrow> bits_left b1 < bits_left b"
    using huff_dec_spec [OF ok(1) less.prems(1)] by blast
  have IH: "block_spec b out (inflate_codes lit dist b2 out2 opos2)"
    if "0 \<le> sym" "br_after b1 b2" "length out2 = length out" "opos2 \<le> length out" for b2 out2 opos2
  proof (rule block_spec_trans)
    have "bits_left b2 < bits_left b" using sym(3) that(1,2) by (simp add: br_after_def)
    then show "block_spec b2 out2 (inflate_codes lit dist b2 out2 opos2)"
      by (rule less.hyps) (use that br_after_ok in simp_all)
  qed (use sym(2) that br_after_trans in auto)
  consider "sym < 0 \<or> 285 < sym \<or> (0 \<le> sym \<and> sym < 256 \<and> opos \<ge> length out)"
    | "0 \<le> sym" "sym < 256" "opos < length out" | "sym = 256" | "256 < sym" "sym \<le> 285" by linarith
  then show ?case
  proof cases
    case 1
    then show ?thesis using sym(1) by (subst inflate_codes.simps) (auto simp: block_spec_fail)
  next
    case 2
    then show ?thesis
      using sym(1) IH [of b1 "out[opos := of_int sym]" "opos + 1"] br_after_refl [OF br_after_ok [OF sym(2)]]
      by (subst inflate_codes.simps) (simp add: wr_Some)
  next
    case 3
    then show ?thesis using sym(1,2) less.prems
      by (subst inflate_codes.simps) (simp add: block_spec_def)
  next
    case 4
    have li: "nat sym - 257 < 29" using 4 by linarith
    then have lt: "nat sym - 257 < length len_base" "nat sym - 257 < length len_extra"
      by (simp_all add: len_base_def len_extra_def)
    define lb le where "lb = len_base ! (nat sym - 257)" and "le = len_extra ! (nat sym - 257)"
    have rds: "rd len_base (nat sym - 257) = Some lb" "rd len_extra (nat sym - 257) = Some le"
      using lt by (simp_all add: rd_Some lb_def le_def)
    obtain v b2 where v: "br_bits le b1 = (v, b2)" by (cases "br_bits le b1")
    have b2: "br_after b1 b2" using br_bits_spec [OF br_after_ok [OF sym(2)] v] by simp
    obtain ds b3 where ds: "huff_dec dist b2 = Some (ds, b3)" "br_after b2 b3"
      using huff_dec_spec [OF ok(2) br_after_ok [OF b2]] by blast
    show ?thesis
    proof (cases "ds < 0 \<or> ds > 29")
      case True
      then show ?thesis using 4 sym(1) rds v ds(1)
        by (subst inflate_codes.simps) (auto simp: block_spec_fail)
    next
      case False
      then have di: "nat ds < 30" by linarith
      then have lt: "nat ds < length dist_base" "nat ds < length dist_extra"
        by (simp_all add: dist_base_def dist_extra_def)
      define db de where "db = dist_base ! nat ds" and "de = dist_extra ! nat ds"
      have rds2: "rd dist_base (nat ds) = Some db" "rd dist_extra (nat ds) = Some de"
        using lt by (simp_all add: rd_Some db_def de_def)
      obtain w b4 where w: "br_bits de b3 = (w, b4)" by (cases "br_bits de b3")
      have b4: "br_after b1 b4"
        using br_bits_spec [OF br_after_ok [OF ds(2)] w] br_after_trans [OF br_after_trans [OF b2 ds(2)]] by simp
      define distv len where "distv = db + unat w" and "len = lb + unat v"
      have step: "inflate_codes lit dist b out opos
          = (if distv > opos then Some (out, None)
             else if opos + len > length out then Some (out, None)
             else do { (out, opos) \<leftarrow> copy_match len distv out opos; inflate_codes lit dist b4 out opos })"
        using 4 sym(1) rds v ds(1) False rds2 w
        by (subst inflate_codes.simps) (simp add: distv_def len_def)
      show ?thesis
      proof (cases "distv > opos \<or> opos + len > length out")
        case True
        then show ?thesis using step by (auto simp: block_spec_fail)
      next
        case False
        have "0 < distv" using dist_base_pos [OF di] by (simp add: distv_def db_def)
        then obtain out' where out': "copy_match len distv out opos = Some (out', opos + len)"
            "length out' = length out"
          using copy_match_spec False by (metis not_less)
        have "block_spec b out (inflate_codes lit dist b4 out' (opos + len))"
          by (rule IH) (use 4 b4 out' False in simp_all)
        then show ?thesis using step False out'(1) by simp
      qed
    qed
  qed
qed

lemma inflate_stored_spec:
  assumes "br_ok b" "opos \<le> length out"
  shows "block_spec b out (inflate_stored b out opos)"
proof -
  let ?b = "b\<lparr>br_bitbuf := 0, br_bitcnt := 0\<rparr>"
  show ?thesis
  proof (cases "br_pos b + 4 > length (br_p b)")
    case True
    then show ?thesis by (simp add: inflate_stored_def block_spec_fail)
  next
    case False
    obtain h where h: "rd_range (br_p b) (br_pos b) 4 = Some h" using False by (simp add: rd_range_Some)
    define len nlen where "len = unat (h ! 0) + 256 * unat (h ! 1)" and "nlen = unat (h ! 2) + 256 * unat (h ! 3)"
    let ?pos = "br_pos b + 4"
    show ?thesis
    proof (cases "len XOR 0xFFFF \<noteq> nlen \<or> ?pos + len > length (br_p b) \<or> opos + len > length out")
      case True
      then have "inflate_stored b out opos = Some (out, None)"
        using False h by (auto simp: inflate_stored_def Let_def len_def nlen_def)
      then show ?thesis by (simp add: block_spec_fail)
    next
      case fits: False
      obtain bs where bs: "rd_range (br_p b) ?pos len = Some bs" "length bs = len"
        using fits rd_range_Some rd_range_length by (metis not_less)
      obtain out' where out': "wr_range out opos bs = Some out'" "length out' = length out"
        using fits bs(2) by (simp add: wr_range_Some)
      have "inflate_stored b out opos
          = Some (out', Some (?b\<lparr>br_pos := ?pos + len\<rparr>, opos + len))"
        using False h fits bs(1) out'(1) unfolding len_def nlen_def
        by (simp add: inflate_stored_def Let_def)
      then show ?thesis using fits out'(2)
        by (simp add: block_spec_def br_after_def br_ok_def bits_left_def)
    qed
  qed
qed

lemma inflate_block_spec:
  assumes "br_ok b" "opos \<le> length out"
  shows "block_spec b out (inflate_block ty b out opos)"
proof -
  consider "ty = 3" | "ty = 0" | "ty = 1" | "ty \<noteq> 3" "ty \<noteq> 0" "ty \<noteq> 1" by blast
  then show ?thesis
  proof cases
    case 3
    obtain lit dist where fixed: "huff_fixed = Some (lit, dist)" "huff_ok lit" "huff_ok dist"
      using huff_fixed_ok by blast
    then show ?thesis using 3 inflate_codes_spec [OF fixed(2,3) assms]
      by (simp add: inflate_block_def fixed(1))
  next
    case 4
    obtain r where r: "read_tables b = Some r"
        "\<forall>lit dist b'. r = Some ((lit, dist), b') \<longrightarrow> huff_ok lit \<and> huff_ok dist \<and> br_after b b'"
      using read_tables_spec [OF assms(1)] by (auto simp: trees_spec_def)
    show ?thesis
    proof (cases r)
      case (Some q)
      obtain lit dist b' where q: "q = ((lit, dist), b')" by (metis prod.exhaust)
      then have ok: "huff_ok lit" "huff_ok dist" "br_after b b'" using r(2) Some by auto
      have "block_spec b out (inflate_codes lit dist b' out opos)"
        using block_spec_trans [OF inflate_codes_spec [OF ok(1,2) br_after_ok [OF ok(3)] assms(2)] ok(3)] by simp
      then show ?thesis using 4 r(1) Some q by (simp add: inflate_block_def)
    qed (use 4 r(1) in \<open>simp add: inflate_block_def block_spec_fail\<close>)
  qed (use assms in \<open>simp_all add: inflate_block_def block_spec_fail inflate_stored_spec\<close>)
qed

lemma inflate_blocks_spec:
  "br_ok b \<Longrightarrow> opos \<le> length out \<Longrightarrow>
   \<exists>out' r. inflate_blocks b out opos = Some (out', r) \<and> length out' = length out
     \<and> (\<forall>k. r = Some k \<longrightarrow> k \<le> length out)"
proof (induction "bits_left b" arbitrary: b out opos rule: less_induct)
  case less
  obtain lst b1 where lst: "br_bits 1 b = (lst, b1)" by (cases "br_bits 1 b")
  note a1 = br_bits_spec [OF less.prems(1) lst]
  obtain ty b2 where ty: "br_bits 2 b1 = (ty, b2)" by (cases "br_bits 2 b1")
  have b1: "br_after b b1" using a1 by simp
  have b2: "br_after b1 b2" using br_bits_spec [OF br_after_ok [OF b1] ty] by simp
  obtain out' r where r: "inflate_block (sint ty) b2 out opos = Some (out', r)" "length out' = length out"
      "\<forall>b' k. r = Some (b', k) \<longrightarrow> br_after b2 b' \<and> k \<le> length out"
    using inflate_block_spec [OF br_after_ok [OF b2] less.prems(2), of "sint ty"] by (auto simp: block_spec_def)
  have step: "inflate_blocks b out opos
      = (if r = None then Some (out', None) else if lst \<noteq> 0 then Some (out', Some (snd (the r)))
         else inflate_blocks (fst (the r)) out' (snd (the r)))"
    using lst ty r(1) by (subst inflate_blocks.simps) (simp add: Let_def)
  show ?case
  proof (cases r)
    case (Some q)
    obtain b' k where q: "q = (b', k)" by (cases q)
    have b': "br_after b2 b'" "k \<le> length out" using r(3) Some q by auto
    show ?thesis
    proof (cases "lst \<noteq> 0")
      case False
      then have "bits_left b1 < bits_left b" using a1 by auto
      then have "bits_left b' < bits_left b" using b2 b'(1) by (simp add: br_after_def)
      from less.hyps [OF this br_after_ok [OF b'(1)], of k out'] show ?thesis
        using step Some q False b'(2) r(2) by auto
    qed (use step Some q r(2) b'(2) in auto)
  qed (use step r(2) in auto)
qed

lemma inflate_Some:
  "\<exists>out' r. inflate src out = Some (out', r) \<and> length out' = length out \<and> (\<forall>k. r = Some k \<longrightarrow> k \<le> length out)"
proof -
  define s where "s = (if zlib_header src then drop 2 src else src)"
  have "br_ok \<lparr>br_p = s, br_pos = 0, br_bitbuf = 0, br_bitcnt = 0\<rparr>" by (simp add: br_ok_def)
  from inflate_blocks_spec [OF this, of 0 out] show ?thesis
    unfolding inflate_def Let_def s_def [symmetric] by auto
qed

text \<open>C28. The inflater is memory safe and ends, on every input: whatever bytes a file holds and
  whatever the output's size, it returns, having read inside its tables and the source only and
  written inside the output, and a length it reports is at most the output's.\<close>

lemma inflate_safe:
  "\<exists>out' r. inflate src out = Some (out', r) \<and> length out' = length out
     \<and> (case r of None \<Rightarrow> True | Some k \<Rightarrow> k \<le> length out)"
proof -
  obtain out' r where "inflate src out = Some (out', r)" "length out' = length out"
      "\<forall>k. r = Some k \<longrightarrow> k \<le> length out"
    using inflate_Some by blast
  then show ?thesis by (cases r) auto
qed

section \<open>Stored blocks\<close>

text \<open>The encoder that the format's description gives for uncompressed blocks.\<close>

definition stored_header :: "bool \<Rightarrow> nat \<Rightarrow> bytes" where
  "stored_header final n =
     [if final then 1 else 0, word_of_nat n, word_of_nat (n div 256),
      NOT (word_of_nat n), NOT (word_of_nat (n div 256))]"

fun deflate_stored :: "bytes list \<Rightarrow> bytes" where
  "deflate_stored [] = []"
| "deflate_stored (c # cs) = stored_header (cs = []) (length c) @ c @ deflate_stored cs"

definition zlib_stored :: "bytes list \<Rightarrow> bytes" where
  "zlib_stored cs = [0x78, 0x01] @ deflate_stored cs"

lemma unat_not_word: "unat (NOT w) = 2 ^ LENGTH('a) - 1 - unat w" for w :: "'a::len word"
proof -
  have "NOT w = - 1 - w" by (simp add: not_eq_complement)
  moreover have "unat w < 2 ^ LENGTH('a)" by (rule unsigned_less)
  then have "unat w \<le> 2 ^ LENGTH('a) - 1" by linarith
  ultimately show ?thesis by (simp add: unat_sub_if_size word_size unsigned_minus_1_eq_mask mask_eq_exp_minus_1)
qed

lemma xor_65535: "n XOR 65535 = 65535 - n" if "n < 65536" for n :: nat
proof -
  let ?w = "word_of_nat n :: 16 word"
  have n: "unat ?w = n" using that by (simp add: unat_of_nat take_bit_eq_mod)
  have "unat (?w XOR - 1) = unat ?w XOR unat (- 1 :: 16 word)" by (rule unsigned_xor_eq)
  moreover have "?w XOR - 1 = NOT ?w" by simp
  ultimately show ?thesis using unat_not_word [of ?w] n by (simp add: unsigned_minus_1_eq_mask mask_eq_exp_minus_1)
qed

lemma stored_lengths:
  assumes "n < 65536"
  shows "unat (word_of_nat n :: u8) + 256 * unat (word_of_nat (n div 256) :: u8) = n"
    "unat (NOT (word_of_nat n :: u8)) + 256 * unat (NOT (word_of_nat (n div 256) :: u8)) = n XOR 65535"
proof -
  have lo: "unat (word_of_nat n :: u8) = n mod 256" and hi: "unat (word_of_nat (n div 256) :: u8) = n div 256"
    using assms by (simp_all add: unat_of_nat take_bit_eq_mod)
  show "unat (word_of_nat n :: u8) + 256 * unat (word_of_nat (n div 256) :: u8) = n"
    by (simp add: lo hi)
  define q r where "q = n div 256" and "r = n mod 256"
  have qr: "n = 256 * q + r" "q < 256" "r < 256"
    using assms by (simp_all add: q_def r_def less_mult_imp_div_less)
  then have "255 - r + 256 * (255 - q) = 65535 - n" by (simp add: algebra_simps)
  then show "unat (NOT (word_of_nat n :: u8)) + 256 * unat (NOT (word_of_nat (n div 256) :: u8)) = n XOR 65535"
    using assms by (simp add: unat_not_word lo hi xor_65535 q_def r_def)
qed

lemma stored_bits:
  assumes "pos < length p" "p ! pos = (if final then 1 else 0)"
  shows "br_bits 1 \<lparr>br_p = p, br_pos = pos, br_bitbuf = 0, br_bitcnt = 0\<rparr>
      = (if final then 1 else 0, \<lparr>br_p = p, br_pos = pos + 1, br_bitbuf = 0, br_bitcnt = 7\<rparr>)"
    "br_bits 2 \<lparr>br_p = p, br_pos = pos + 1, br_bitbuf = 0, br_bitcnt = 7\<rparr>
      = (0, \<lparr>br_p = p, br_pos = pos + 1, br_bitbuf = 0, br_bitcnt = 5\<rparr>)"
  using assms by (simp_all add: br_bits.simps)

lemma inflate_blocks_stored:
  "cs \<noteq> [] \<Longrightarrow> \<forall>c \<in> set cs. length c < 65536 \<Longrightarrow>
   length done' + length (concat cs) + length C = length out \<Longrightarrow> out = done' @ B @ C \<Longrightarrow>
   length B = length (concat cs) \<Longrightarrow>
   inflate_blocks \<lparr>br_p = pre @ deflate_stored cs @ rest, br_pos = length pre, br_bitbuf = 0, br_bitcnt = 0\<rparr>
     out (length done') = Some (done' @ concat cs @ C, Some (length done' + length (concat cs)))"
proof (induction cs arbitrary: pre done' B out)
  case (Cons c cs)
  let ?p = "pre @ deflate_stored (c # cs) @ rest"
  define p where "p = ?p"
  have hdr: "length (stored_header (cs = []) (length c)) = 5" by (simp add: stored_header_def)
  have b0: "length pre < length p" "p ! length pre = (if cs = [] then 1 else 0)"
    by (simp_all add: p_def stored_header_def)
  note bits = stored_bits [OF b0]
  have n: "length c < 65536" using Cons.prems(2) by simp
  define h where "h = tl (stored_header (cs = []) (length c))"
  have h: "rd_range p (length pre + 1) 4 = Some h"
    by (simp add: p_def h_def stored_header_def rd_range_def)
  have len: "unat (h ! 0) + 256 * unat (h ! 1) = length c"
      "unat (h ! 2) + 256 * unat (h ! 3) = length c XOR 65535"
    using stored_lengths [OF n] by (simp_all add: h_def stored_header_def)
  have c: "rd_range p (length pre + 1 + 4) (length c) = Some c"
    by (simp add: p_def stored_header_def rd_range_def)
  let ?B1 = "take (length c) B" and ?B2 = "drop (length c) B"
  have out: "out = done' @ ?B1 @ (?B2 @ C)" using Cons.prems(4) by simp
  have B1: "length ?B1 = length c" using Cons.prems(5) by simp
  have wr: "wr_range out (length done') c = Some (done' @ c @ (?B2 @ C))"
    unfolding out by (rule wr_range_seg) (use B1 in simp_all)
  have fits: "length pre + 1 + 4 + length c \<le> length p" "length done' + length c \<le> length out"
      "length pre + 1 + 4 \<le> length p"
    using Cons.prems(3) hdr by (simp_all add: p_def)
  have step: "inflate_block 0 \<lparr>br_p = p, br_pos = length pre + 1, br_bitbuf = 0, br_bitcnt = 5\<rparr> out (length done')
      = Some (done' @ c @ (?B2 @ C), Some (\<lparr>br_p = p, br_pos = length pre + 1 + 4 + length c,
          br_bitbuf = 0, br_bitcnt = 0\<rparr>, length done' + length c))"
    using fits h c wr len by (simp add: inflate_block_def inflate_stored_def Let_def)
  show ?case
  proof (cases "cs = []")
    case True
    then show ?thesis using step bits Cons.prems(5) unfolding p_def [symmetric]
      by (subst inflate_blocks.simps) simp
  next
    case False
    have pos: "length (pre @ stored_header False (length c) @ c) = length pre + 1 + 4 + length c"
      using hdr False by simp
    have "inflate_blocks \<lparr>br_p = (pre @ stored_header False (length c) @ c) @ deflate_stored cs @ rest,
         br_pos = length (pre @ stored_header False (length c) @ c), br_bitbuf = 0, br_bitcnt = 0\<rparr>
         ((done' @ c) @ ?B2 @ C) (length (done' @ c))
       = Some ((done' @ c) @ concat cs @ C, Some (length (done' @ c) + length (concat cs)))"
      by (rule Cons.IH [where B = ?B2]) (use Cons.prems False in auto)
    then have "inflate_blocks \<lparr>br_p = p, br_pos = length pre + 1 + 4 + length c, br_bitbuf = 0, br_bitcnt = 0\<rparr>
         (done' @ c @ ?B2 @ C) (length done' + length c)
       = Some (done' @ concat (c # cs) @ C, Some (length done' + length (concat (c # cs))))"
      unfolding pos using False by (simp add: p_def add.assoc)
    then show ?thesis using step bits False unfolding p_def [symmetric]
      by (subst inflate_blocks.simps) simp
  qed
qed simp

lemma stored_blocks_inflate:
  assumes "cs \<noteq> []" "\<forall>c \<in> set cs. length c < 65536" "length (concat cs) \<le> length out"
  shows "inflate (zlib_stored cs @ trailer) out
    = Some (concat cs @ drop (length (concat cs)) out, Some (length (concat cs)))"
proof -
  have hdr: "zlib_header (zlib_stored cs @ trailer)" by (simp add: zlib_header_def zlib_stored_def mk16_def)
  have "inflate_blocks \<lparr>br_p = [] @ deflate_stored cs @ trailer, br_pos = length ([] :: bytes), br_bitbuf = 0,
      br_bitcnt = 0\<rparr> out (length ([] :: bytes)) = Some ([] @ concat cs @ drop (length (concat cs)) out,
        Some (length ([] :: bytes) + length (concat cs)))"
    by (rule inflate_blocks_stored [where B = "take (length (concat cs)) out"]) (use assms in auto)
  then show ?thesis using hdr by (simp add: inflate_def zlib_stored_def)
qed

text \<open>The inflater restores stored data: for any chunks of fewer than 64 KiB each, written as
  stored blocks behind the zlib header and followed by any bytes (the checksum that the decoder never
  looks at), it fills an output that has room with exactly the chunks' bytes, reports their number,
  and leaves the rest of the output as it was.\<close>

lemma inflate_stored_roundtrip:
  assumes "cs \<noteq> []" "\<forall>c \<in> set cs. length c < 65536" "length (concat cs) \<le> length out"
  shows "inflate (zlib_stored cs @ trailer) out
    = Some (concat cs @ drop (length (concat cs)) out, Some (length (concat cs)))"
  using assms by (rule stored_blocks_inflate)

lemma inflate_stored_roundtrip_witness:
  "inflate (zlib_stored [[1, 2], [3]] @ [9, 9, 9, 9]) [0, 0, 0, 7, 7] = Some ([1, 2, 3, 7, 7], Some 3)"
  using inflate_stored_roundtrip [of "[[1, 2], [3]]" "[0, 0, 0, 7, 7]" "[9, 9, 9, 9]"] by simp

end
