(* ===== verification/Png.thy ===== *)
theory Png
  imports Inflate
begin

unbundle bit_operations_syntax

text \<open>
  The PNG decoder of \<^verbatim>\<open>kernel/png.c\<close>: the walk over the chunks, the row filters and
  \<^verbatim>\<open>png_decode\<close>. The two allocations are parameters, a block's old contents included; the
  result records which of the blocks are still allocated.

  The lemmas show that the decoder is memory safe and ends on every file, that it restores every image
  that the format's encoder writes with stored blocks, and which valid files it refuses.
\<close>

section \<open>The environment and the outputs\<close>

text \<open>\<open>pe_outs\<close>: none of the three result pointers is NULL. \<open>pe_raw n\<close> and
  \<open>pe_img n\<close>: what the allocator gives for \<open>n\<close> bytes, as bytes and as pixels.\<close>

record png_env =
  pe_outs :: bool
  pe_raw :: "nat \<Rightarrow> bytes option"
  pe_img :: "nat \<Rightarrow> u32 list option"

definition png_env_ok :: "png_env \<Rightarrow> bool" where
  "png_env_ok e \<longleftrightarrow> (\<forall>n bs. pe_raw e n = Some bs \<longrightarrow> length bs = n)
     \<and> (\<forall>n ps. pe_img e n = Some ps \<longrightarrow> 4 * length ps = n)"

datatype png_block = Raw_block | Img_block

record png_result =
  pr_ret :: bool
  pr_out :: "u32 list option"
  pr_w :: u32
  pr_h :: u32
  pr_live :: "png_block list"

definition png_fail :: "png_block list \<Rightarrow> png_result" where
  "png_fail bs = \<lparr>pr_ret = False, pr_out = None, pr_w = 0, pr_h = 0, pr_live = bs\<rparr>"

section \<open>Chunks\<close>

definition be32 :: "bytes \<Rightarrow> nat \<Rightarrow> u32 option" where
  "be32 p off = do { a \<leftarrow> rd p off; b \<leftarrow> rd p (off + 1); c \<leftarrow> rd p (off + 2); d \<leftarrow> rd p (off + 3);
                     Some (mk32 a b c d) }"

definition png_sig :: bytes where
  "png_sig = [0x89, 0x50, 0x4E, 0x47, 0x0D, 0x0A, 0x1A, 0x0A]"

definition IHDR :: bytes where "IHDR = [0x49, 0x48, 0x44, 0x52]"
definition IDAT :: bytes where "IDAT = [0x49, 0x44, 0x41, 0x54]"
definition IEND :: bytes where "IEND = [0x49, 0x45, 0x4E, 0x44]"

record png_hdr =
  ph_width :: u32
  ph_height :: u32
  ph_bit_depth :: u8
  ph_color_type :: u8
  ph_idat :: "nat option"
  ph_idat_len :: nat

definition png_hdr0 :: png_hdr where
  "png_hdr0 = \<lparr>ph_width = 0, ph_height = 0, ph_bit_depth = 0, ph_color_type = 0,
               ph_idat = None, ph_idat_len = 0\<rparr>"

text \<open>The inner \<open>None\<close> is the decoder's refusal.\<close>

definition png_ihdr :: "bytes \<Rightarrow> nat \<Rightarrow> u32 \<Rightarrow> png_hdr \<Rightarrow> png_hdr option option" where
  "png_ihdr p chunk len h =
     (if len < 13 then Some None
      else do { width \<leftarrow> be32 p chunk; height \<leftarrow> be32 p (chunk + 4);
        bit_depth \<leftarrow> rd p (chunk + 8); color_type \<leftarrow> rd p (chunk + 9);
        m \<leftarrow> rd_range p (chunk + 10) 3;
        if m ! 0 \<noteq> 0 \<or> m ! 1 \<noteq> 0 \<or> m ! 2 \<noteq> 0 then Some None
        else if width = 0 \<or> height = 0 \<or> width > 16384 \<or> height > 16384 then Some None
        else if bit_depth \<noteq> 8 then Some None
        else if color_type \<noteq> 2 \<and> color_type \<noteq> 6 then Some None
        else Some (Some (h\<lparr>ph_width := width, ph_height := height, ph_bit_depth := bit_depth,
                           ph_color_type := color_type\<rparr>)) })"

definition png_idat :: "nat \<Rightarrow> u32 \<Rightarrow> png_hdr \<Rightarrow> png_hdr option" where
  "png_idat chunk len h =
     (if len > 0 then
        (case ph_idat h of
           None \<Rightarrow> Some (h\<lparr>ph_idat := Some chunk, ph_idat_len := unat len\<rparr>)
         | Some i \<Rightarrow>
             if i + ph_idat_len h = chunk then Some (h\<lparr>ph_idat_len := ph_idat_len h + unat len\<rparr>)
             else None)
      else Some h)"

text \<open>The walk ends unless the 32-bit sum of a chunk's length and 12 wraps to zero.\<close>

partial_function (option) png_walk :: "bytes \<Rightarrow> nat \<Rightarrow> png_hdr \<Rightarrow> png_hdr option option" where
  "png_walk p pos h =
     (if pos + 8 \<le> length p then
        do { len \<leftarrow> be32 p pos; ty \<leftarrow> rd_range p (pos + 4) 4;
          (let chunk = pos + 8 in
           if pos + 8 + unat len > length p then Some None
           else if ty = IEND then Some (Some h)
           else do { r \<leftarrow> (if ty = IHDR then png_ihdr p chunk len h
                          else if ty = IDAT then Some (png_idat chunk len h)
                          else Some (Some h));
                     if r = None then Some None
                     else png_walk p (pos + unat (12 + len)) (the r) }) }
      else Some (Some h))"

section \<open>Row filters\<close>

datatype png_row = Row bytes | Row_leak | Row_bad

text \<open>The filters' loops add a predicted value to each byte of the row that starts at \<open>cur\<close>.\<close>

fun row_each :: "(nat \<Rightarrow> bytes \<Rightarrow> u8 option) \<Rightarrow> nat \<Rightarrow> nat list \<Rightarrow> bytes \<Rightarrow> bytes option" where
  "row_each f cur [] raw = Some raw"
| "row_each f cur (i # is) raw =
     do { v \<leftarrow> f i raw; x \<leftarrow> rd raw (cur + i); raw \<leftarrow> wr raw (cur + i) (x + v); row_each f cur is raw }"

text \<open>The byte of the pixel to the left; the first filter reads it without a test, from \<open>channels\<close> on.\<close>

definition row_left :: "nat \<Rightarrow> nat \<Rightarrow> nat \<Rightarrow> bytes \<Rightarrow> u8 option" where
  "row_left channels cur i raw = rd_sub raw (cur + i) channels"

definition row_a :: "nat \<Rightarrow> nat \<Rightarrow> nat \<Rightarrow> bytes \<Rightarrow> u8 option" where
  "row_a channels cur i raw = (if i \<ge> channels then rd_sub raw (cur + i) channels else Some 0)"

definition row_b :: "nat option \<Rightarrow> nat \<Rightarrow> bytes \<Rightarrow> u8 option" where
  "row_b prev i raw = (case prev of None \<Rightarrow> Some 0 | Some q \<Rightarrow> rd raw (q + i))"

definition row_c :: "nat \<Rightarrow> nat option \<Rightarrow> nat \<Rightarrow> bytes \<Rightarrow> u8 option" where
  "row_c channels prev i raw =
     (case prev of None \<Rightarrow> Some 0 | Some q \<Rightarrow> if i \<ge> channels then rd_sub raw (q + i) channels else Some 0)"

definition average :: "u8 \<Rightarrow> u8 \<Rightarrow> u8" where
  "average a b = word_of_int (drop_bit 1 (uint a + uint b))"

definition paeth :: "u8 \<Rightarrow> u8 \<Rightarrow> u8 \<Rightarrow> u8" where
  "paeth a b c =
     (let p = uint a + uint b - uint c;
          pa = (if p > uint a then p - uint a else uint a - p);
          pb = (if p > uint b then p - uint b else uint b - p);
          pc = (if p > uint c then p - uint c else uint c - p)
      in if pa \<le> pb \<and> pa \<le> pc then a else if pb \<le> pc then b else c)"

definition row_avg :: "nat \<Rightarrow> nat \<Rightarrow> nat option \<Rightarrow> nat \<Rightarrow> bytes \<Rightarrow> u8 option" where
  "row_avg channels cur prev i raw =
     do { a \<leftarrow> row_a channels cur i raw; b \<leftarrow> row_b prev i raw; Some (average a b) }"

definition row_paeth :: "nat \<Rightarrow> nat \<Rightarrow> nat option \<Rightarrow> nat \<Rightarrow> bytes \<Rightarrow> u8 option" where
  "row_paeth channels cur prev i raw =
     do { a \<leftarrow> row_a channels cur i raw; b \<leftarrow> row_b prev i raw; c \<leftarrow> row_c channels prev i raw;
          Some (paeth a b c) }"

definition unfilter_row :: "nat \<Rightarrow> nat \<Rightarrow> nat \<Rightarrow> bytes \<Rightarrow> png_row option" where
  "unfilter_row channels stride y raw =
     do { ft \<leftarrow> rd raw (y * (stride + 1));
       (let cur = y * (stride + 1) + 1;
            prev = (if y = 0 then None else Some ((y - 1) * (stride + 1) + 1))
        in if ft = 1 then map_option Row (row_each (row_left channels cur) cur [channels ..< stride] raw)
           else if ft = 2 then
             (if prev = None then Some Row_leak
              else map_option Row (row_each (row_b prev) cur [0 ..< stride] raw))
           else if ft = 3 then map_option Row (row_each (row_avg channels cur prev) cur [0 ..< stride] raw)
           else if ft = 4 then map_option Row (row_each (row_paeth channels cur prev) cur [0 ..< stride] raw)
           else if ft \<noteq> 0 then Some Row_bad
           else Some (Row raw)) }"

definition rgb :: "u8 \<Rightarrow> u8 \<Rightarrow> u8 \<Rightarrow> u32" where
  "rgb r g b = push_bit 16 (ucast r) OR push_bit 8 (ucast g) OR ucast b"

fun pixel_row :: "nat \<Rightarrow> nat \<Rightarrow> nat \<Rightarrow> nat list \<Rightarrow> bytes \<Rightarrow> u32 list \<Rightarrow> u32 list option" where
  "pixel_row channels cur row [] raw img = Some img"
| "pixel_row channels cur row (x # xs) raw img =
     do { r \<leftarrow> rd raw (cur + x * channels); g \<leftarrow> rd raw (cur + x * channels + 1);
          b \<leftarrow> rd raw (cur + x * channels + 2);
          img \<leftarrow> wr img (row + x) (rgb r g b);
          pixel_row channels cur row xs raw img }"

text \<open>The rows in turn: the finished image, or the blocks that a refusal leaves allocated.\<close>

fun png_rows :: "nat \<Rightarrow> nat \<Rightarrow> nat list \<Rightarrow> bytes \<Rightarrow> u32 list \<Rightarrow> (png_block list + u32 list) option" where
  "png_rows channels width [] raw img = Some (Inr img)"
| "png_rows channels width (y # ys) raw img =
     (let stride = width * channels in
      do { r \<leftarrow> unfilter_row channels stride y raw;
           case r of
             Row_leak \<Rightarrow> Some (Inl [Raw_block, Img_block])
           | Row_bad \<Rightarrow> Some (Inl [])
           | Row raw \<Rightarrow>
               do { img \<leftarrow> pixel_row channels (y * (stride + 1) + 1) (y * width) [0 ..< width] raw img;
                    png_rows channels width ys raw img } })"

section \<open>The decoder\<close>

definition png_image :: "png_env \<Rightarrow> bytes \<Rightarrow> png_hdr \<Rightarrow> png_result option" where
  "png_image e p h =
     (if ph_width h = 0 \<or> ph_height h = 0 \<or> ph_idat h = None then Some (png_fail [])
      else let channels = (if ph_color_type h = 6 then 4 else 3);
               width = unat (ph_width h); height = unat (ph_height h);
               stride = width * channels;
               raw_size = (stride + 1) * height
           in if raw_size > 0x10000000 then Some (png_fail [])
              else case pe_raw e raw_size of None \<Rightarrow> Some (png_fail [])
              | Some raw \<Rightarrow>
                  do { src \<leftarrow> rd_range p (the (ph_idat h)) (ph_idat_len h);
                    (raw, got) \<leftarrow> inflate src raw;
                    if got \<noteq> Some raw_size then Some (png_fail [])
                    else case pe_img e (width * height * 4) of None \<Rightarrow> Some (png_fail [])
                    | Some img \<Rightarrow>
                        do { r \<leftarrow> png_rows channels width [0 ..< height] raw img;
                             case r of
                               Inl live \<Rightarrow> Some (png_fail live)
                             | Inr img \<Rightarrow>
                                 Some \<lparr>pr_ret = True, pr_out = Some img, pr_w = ph_width h,
                                       pr_h = ph_height h, pr_live = [Img_block]\<rparr> } })"

definition png_decode :: "png_env \<Rightarrow> bytes \<Rightarrow> png_result option" where
  "png_decode e p =
     (if \<not> pe_outs e then Some (png_fail [])
      else if length p < 8 then Some (png_fail [])
      else if take 8 p \<noteq> png_sig then Some (png_fail [])
      else do { r \<leftarrow> png_walk p 8 png_hdr0;
                case r of None \<Rightarrow> Some (png_fail []) | Some h \<Rightarrow> png_image e p h })"

unbundle bit_operations_syntax

section \<open>Memory safety and termination\<close>

lemma be32_Some: "off + 4 \<le> length p \<Longrightarrow> \<exists>v. be32 p off = Some v"
  by (simp add: be32_def rd_Some)

definition hdr_ok :: "bytes \<Rightarrow> png_hdr \<Rightarrow> bool" where
  "hdr_ok p h \<longleftrightarrow> (case ph_idat h of None \<Rightarrow> True | Some i \<Rightarrow> i + ph_idat_len h \<le> length p)"

lemma png_ihdr_Some:
  assumes "chunk + unat len \<le> length p" "hdr_ok p h"
  shows "\<exists>r. png_ihdr p chunk len h = Some r \<and> (\<forall>h'. r = Some h' \<longrightarrow> hdr_ok p h')"
proof (cases "len < 13")
  case False
  then have "13 \<le> unat len" by (simp add: word_less_nat_alt)
  then have n: "chunk + 13 \<le> length p" using assms(1) by simp
  obtain a b where "be32 p chunk = Some a" "be32 p (chunk + 4) = Some b"
    using be32_Some n by fastforce
  then show ?thesis using n False assms(2) by (auto simp: png_ihdr_def mem_simps hdr_ok_def split: option.split)
qed (simp add: png_ihdr_def)

lemma png_idat_ok:
  "png_idat chunk len h = Some h' \<Longrightarrow> chunk + unat len \<le> length p \<Longrightarrow> hdr_ok p h \<Longrightarrow> hdr_ok p h'"
  by (auto simp: png_idat_def hdr_ok_def split: if_splits option.splits)

lemma png_walk_Some:
  assumes "length p < 2 ^ 32"
  shows "hdr_ok p h \<Longrightarrow> 4 \<le> pos \<Longrightarrow> \<exists>r. png_walk p pos h = Some r \<and> (\<forall>h'. r = Some h' \<longrightarrow> hdr_ok p h')"
proof (induction "length p - pos" arbitrary: pos h rule: less_induct)
  case less
  show ?case
  proof (cases "pos + 8 \<le> length p")
    case False
    then show ?thesis using less.prems by (subst png_walk.simps) simp
  next
    case pos: True
    obtain len where len: "be32 p pos = Some len" using be32_Some pos by fastforce
    obtain ty where ty: "rd_range p (pos + 4) 4 = Some ty" using pos by (simp add: rd_range_Some)
    show ?thesis
    proof (cases "pos + 8 + unat len > length p \<or> ty = IEND")
      case True
      then show ?thesis using pos len ty less.prems by (subst png_walk.simps) (auto simp: Let_def)
    next
      case False
      then have fits: "pos + 8 + unat len \<le> length p" by simp
      obtain r where r: "(if ty = IHDR then png_ihdr p (pos + 8) len h
            else if ty = IDAT then Some (png_idat (pos + 8) len h) else Some (Some h)) = Some r"
          "\<forall>h'. r = Some h' \<longrightarrow> hdr_ok p h'"
        using png_ihdr_Some [OF fits less.prems(1)] png_idat_ok [OF _ fits less.prems(1)] less.prems(1)
        by (cases "ty = IHDR"; cases "ty = IDAT") (simp; blast)+
      have "unat (12 + len) = 12 + unat len"
        using fits less.prems(2) assms by (subst unat_plus_lt) simp_all
      then have lt: "length p - (pos + unat (12 + len)) < length p - pos" using pos by simp
      have "png_walk p pos h = (if r = None then Some None else png_walk p (pos + unat (12 + len)) (the r))"
        using pos len ty False r(1) by (subst png_walk.simps) (simp add: Let_def)
      then show ?thesis using less.hyps [OF lt, of "the r"] r(2) less.prems(2) by (cases r) auto
    qed
  qed
qed

lemma row_each_Some:
  assumes "\<And>i raw'. i \<in> set is \<Longrightarrow> length raw' = length raw \<Longrightarrow> f i raw' \<noteq> None"
    "\<forall>i \<in> set is. cur + i < length raw"
  shows "\<exists>raw'. row_each f cur is raw = Some raw' \<and> length raw' = length raw"
  using assms
proof (induction "is" arbitrary: raw)
  case (Cons i "is")
  obtain v where v: "f i raw = Some v" using Cons.prems(1) [of i raw] by auto
  let ?raw = "raw[cur + i := raw ! (cur + i) + v]"
  have "\<exists>raw'. row_each f cur is ?raw = Some raw' \<and> length raw' = length ?raw"
    by (rule Cons.IH) (use Cons.prems in auto)
  then show ?case using v Cons.prems(2) by (simp add: rd_Some wr_Some)
qed simp

lemma row_preds_Some:
  assumes "row_a channels cur i raw \<noteq> None" "row_b prev i raw \<noteq> None"
  shows "row_avg channels cur prev i raw \<noteq> None"
    "row_c channels prev i raw \<noteq> None \<Longrightarrow> row_paeth channels cur prev i raw \<noteq> None"
  using assms by (auto simp: row_avg_def row_paeth_def)

lemma unfilter_row_eq:
  assumes "rd raw (y * (stride + 1)) = Some ft" "cur = y * (stride + 1) + 1"
    "prev = (if y = 0 then None else Some ((y - 1) * (stride + 1) + 1))"
  shows "unfilter_row channels stride y raw =
    (if ft = 1 then map_option Row (row_each (row_left channels cur) cur [channels ..< stride] raw)
     else if ft = 2 then
       (if prev = None then Some Row_leak else map_option Row (row_each (row_b prev) cur [0 ..< stride] raw))
     else if ft = 3 then map_option Row (row_each (row_avg channels cur prev) cur [0 ..< stride] raw)
     else if ft = 4 then map_option Row (row_each (row_paeth channels cur prev) cur [0 ..< stride] raw)
     else if ft \<noteq> 0 then Some Row_bad else Some (Row raw))"
  unfolding unfilter_row_def assms(1) Let_def assms(2,3) by simp

lemma unfilter_row_Some:
  assumes "(y + 1) * (stride + 1) \<le> length raw" "0 < channels"
  shows "\<exists>r. unfilter_row channels stride y raw = Some r \<and> (\<forall>raw'. r = Row raw' \<longrightarrow> length raw' = length raw)"
proof -
  define cur where "cur = y * (stride + 1) + 1"
  define prev where "prev = (if y = 0 then None else Some ((y - 1) * (stride + 1) + 1))"
  have cur: "cur + stride \<le> length raw" using assms(1) by (simp add: cur_def)
  have pv: "0 < q \<and> q + stride \<le> length raw" if "prev = Some q" for q
  proof -
    have "(y - 1) * (stride + 1) \<le> y * (stride + 1)" by (rule mult_right_mono) simp_all
    then show ?thesis using cur that by (auto simp: prev_def cur_def split: if_splits)
  qed
  have a: "row_a channels cur i raw' \<noteq> None" if "i < stride" "length raw' = length raw" for i raw'
    using that cur assms(2) by (simp add: row_a_def rd_sub_def rd_def) linarith
  have l: "row_left channels cur i raw' \<noteq> None" if "i < stride" "length raw' = length raw" "channels \<le> i" for i raw'
    using a [OF that(1,2)] that(3) by (simp add: row_left_def row_a_def)
  have b: "row_b prev i raw' \<noteq> None" if "i < stride" "length raw' = length raw" for i raw'
    using that pv by (fastforce simp: row_b_def rd_def split: option.split)
  have c: "row_c channels prev i raw' \<noteq> None" if "i < stride" "length raw' = length raw" for i raw'
    using that pv assms(2) by (fastforce simp: row_c_def rd_sub_def rd_def split: option.split)
  have each: "\<exists>raw'. row_each f cur [k ..< stride] raw = Some raw' \<and> length raw' = length raw"
    if "\<And>i raw'. k \<le> i \<Longrightarrow> i < stride \<Longrightarrow> length raw' = length raw \<Longrightarrow> f i raw' \<noteq> None" for f k
    by (rule row_each_Some) (use that cur in auto)
  have each0: "\<exists>raw'. row_each f cur [0 ..< stride] raw = Some raw' \<and> length raw' = length raw"
    if "\<And>i raw'. i < stride \<Longrightarrow> length raw' = length raw \<Longrightarrow> f i raw' \<noteq> None" for f
    by (rule each) (rule that)
  have row_each_left: "\<exists>raw'. row_each (row_left channels cur) cur [channels ..< stride] raw = Some raw' \<and> length raw' = length raw"
    by (rule each) (rule l)
  have "rd raw (y * (stride + 1)) = Some (raw ! (y * (stride + 1)))" using cur by (simp add: rd_Some cur_def)
  note eq = unfilter_row_eq [OF this cur_def prev_def, of channels]
  show ?thesis
    using row_each_left each0 [of "row_b prev", OF b]
      each0 [of "row_avg channels cur prev", OF row_preds_Some(1) [OF a b]]
      each0 [of "row_paeth channels cur prev", OF row_preds_Some(2) [OF a b c]]
    unfolding eq by auto
qed

lemma pixel_row_Some:
  "0 < channels \<Longrightarrow> \<forall>x \<in> set xs. cur + x * channels + 2 < length raw \<and> row + x < length img \<Longrightarrow>
   \<exists>img'. pixel_row channels cur row xs raw img = Some img' \<and> length img' = length img"
proof (induction xs arbitrary: img)
  case (Cons x xs)
  let ?img = "img[row + x := rgb (raw ! (cur + x * channels)) (raw ! (cur + x * channels + 1))
      (raw ! (cur + x * channels + 2))]"
  have "\<exists>img'. pixel_row channels cur row xs raw ?img = Some img' \<and> length img' = length ?img"
    by (rule Cons.IH) (use Cons.prems in auto)
  then show ?case using Cons.prems by (auto simp: rd_Some wr_Some)
qed simp

lemma png_rows_Some:
  assumes "3 \<le> channels"
  shows "length raw = (width * channels + 1) * height \<Longrightarrow> length img = width * height \<Longrightarrow>
    \<forall>y \<in> set ys. y < height \<Longrightarrow>
    \<exists>r. png_rows channels width ys raw img = Some r \<and> (\<forall>img'. r = Inr img' \<longrightarrow> length img' = width * height)"
proof (induction ys arbitrary: raw img)
  case (Cons y ys)
  let ?stride = "width * channels"
  have y: "y + 1 \<le> height" using Cons.prems(3) by simp
  have "(y + 1) * (?stride + 1) \<le> height * (?stride + 1)" using y by (rule mult_right_mono) simp
  then have raw: "(y + 1) * (?stride + 1) \<le> length raw" using Cons.prems(1) by (simp add: mult.commute)
  have "(y + 1) * width \<le> height * width" using y by (rule mult_right_mono) simp
  then have img: "y * width + width \<le> length img" using Cons.prems(2) by (simp add: mult.commute)
  obtain r where r: "unfilter_row channels ?stride y raw = Some r"
      "\<forall>raw'. r = Row raw' \<longrightarrow> length raw' = length raw"
    using unfilter_row_Some [OF raw, of channels] assms by auto
  show ?case
  proof (cases r)
    case (Row raw')
    have len: "length raw' = length raw" using r(2) Row by simp
    have px: "y * (?stride + 1) + 1 + x * channels + 2 < length raw' \<and> y * width + x < length img" if "x < width" for x
    proof -
      have "(x + 1) * channels \<le> width * channels" using that by (intro mult_right_mono) simp_all
      then have "x * channels + 2 < ?stride" using assms by simp
      then show ?thesis using raw img that len by simp
    qed
    obtain img' where img': "pixel_row channels (y * (?stride + 1) + 1) (y * width) [0 ..< width] raw' img = Some img'"
        "length img' = length img"
      using pixel_row_Some [of channels "[0 ..< width]" "y * (?stride + 1) + 1" raw' "y * width" img] px assms by auto
    have "\<exists>r. png_rows channels width ys raw' img' = Some r \<and> (\<forall>img'. r = Inr img' \<longrightarrow> length img' = width * height)"
      by (rule Cons.IH) (use len img'(2) Cons.prems in simp_all)
    then show ?thesis using r(1) Row img'(1) by (simp add: Let_def)
  qed (use r(1) in \<open>simp_all add: Let_def\<close>)
qed simp

text \<open>What a result may be.\<close>

definition png_result_ok :: "png_result \<Rightarrow> bool" where
  "png_result_ok r \<longleftrightarrow>
     (if pr_ret r
      then pr_live r = [Img_block] \<and> pr_w r \<noteq> 0 \<and> pr_h r \<noteq> 0
        \<and> (\<exists>img. pr_out r = Some img \<and> length img = unat (pr_w r) * unat (pr_h r))
      else pr_out r = None \<and> pr_w r = 0 \<and> pr_h r = 0)"

lemma png_fail_ok [simp]: "png_result_ok (png_fail bs)"
  by (simp add: png_result_ok_def png_fail_def)

lemma png_image_Some:
  assumes "png_env_ok e" "hdr_ok p h"
  shows "\<exists>r. png_image e p h = Some r \<and> png_result_ok r"
proof (cases "ph_width h = 0 \<or> ph_height h = 0 \<or> ph_idat h = None")
  case True
  then show ?thesis by (simp add: png_image_def)
next
  case False
  define channels width height where "channels = (if ph_color_type h = 6 then 4 else 3 :: nat)"
    and "width = unat (ph_width h)" and "height = unat (ph_height h)"
  define raw_size where "raw_size = (width * channels + 1) * height"
  note eq = channels_def [symmetric] width_def [symmetric] height_def [symmetric] Let_def raw_size_def [symmetric]
  obtain i where i: "ph_idat h = Some i" "i + ph_idat_len h \<le> length p"
    using False assms(2) by (auto simp: hdr_ok_def)
  obtain src where src: "rd_range p (the (ph_idat h)) (ph_idat_len h) = Some src"
    using i by (simp add: rd_range_Some)
  have ch: "3 \<le> channels" by (simp add: channels_def)
  show ?thesis
  proof (cases "raw_size > 0x10000000 \<or> pe_raw e raw_size = None")
    case True
    then show ?thesis using False unfolding png_image_def eq by auto
  next
    case small: False
    then obtain raw where raw: "pe_raw e raw_size = Some raw" by blast
    have len: "length raw = raw_size" using assms(1) raw by (simp add: png_env_ok_def)
    obtain raw' got where inf: "inflate src raw = Some (raw', got)" "length raw' = length raw"
      using inflate_Some by blast
    show ?thesis
    proof (cases "got = Some raw_size \<and> pe_img e (width * height * 4) \<noteq> None")
      case True
      then obtain img where img: "pe_img e (width * height * 4) = Some img" by blast
      have "4 * length img = width * height * 4" using assms(1) img by (simp add: png_env_ok_def)
      then have limg: "length img = width * height" by simp
      obtain r where r: "png_rows channels width [0 ..< height] raw' img = Some r"
          "\<forall>img'. r = Inr img' \<longrightarrow> length img' = width * height"
        using png_rows_Some [OF ch, of raw' width height img "[0 ..< height]"] inf(2) len limg raw_size_def by auto
      have step: "png_image e p h = (case r of Inl live \<Rightarrow> Some (png_fail live)
          | Inr img \<Rightarrow> Some \<lparr>pr_ret = True, pr_out = Some img, pr_w = ph_width h, pr_h = ph_height h,
                             pr_live = [Img_block]\<rparr>)"
        using False small raw src inf(1) True img r(1) unfolding png_image_def eq by auto
      show ?thesis
        using r(2) False by (cases r) (simp_all add: step, simp add: png_result_ok_def width_def height_def)
    qed (use False small raw src inf(1) in \<open>unfold png_image_def eq, auto split: option.split\<close>)
  qed
qed

lemma png_decode_ok:
  assumes "png_env_ok e" "length p < 2 ^ 32"
  shows "\<exists>r. png_decode e p = Some r \<and> png_result_ok r"
proof -
  have "hdr_ok p png_hdr0" by (simp add: hdr_ok_def png_hdr0_def)
  from png_walk_Some [OF assms(2) this, of 8]
  obtain r where r: "png_walk p 8 png_hdr0 = Some r" "\<forall>h'. r = Some h' \<longrightarrow> hdr_ok p h'" by auto
  show ?thesis
  proof (cases r)
    case (Some h)
    then have "hdr_ok p h" using r(2) by simp
    from png_image_Some [OF assms(1) this] show ?thesis using r(1) Some by (simp add: png_decode_def)
  qed (use r(1) in \<open>simp add: png_decode_def\<close>)
qed

text \<open>C27. The decoder is memory safe and returns, on every file below 4 GiB and for every outcome of the
  allocations: it reads inside the file only, writes inside its two blocks only, and gives either a
  nonempty image of exactly width times height pixels, with the filtered data's block released, or
  a failure with all three outputs cleared.\<close>

lemma png_decode_safe:
  assumes "png_env_ok e" "length p < 2 ^ 32"
  shows "\<exists>r. png_decode e p = Some r \<and> png_result_ok r"
  by (rule png_decode_ok [OF assms])

lemma png_decode_safe_witness:
  "\<exists>r. png_decode \<lparr>pe_outs = True, pe_raw = (\<lambda>n. Some (replicate n 0)), pe_img = (\<lambda>n. None)\<rparr> (png_sig @ [0, 0]) = Some r
     \<and> png_result_ok r"
  by (rule png_decode_safe) (simp_all add: png_env_ok_def png_sig_def)

unbundle bit_operations_syntax

section \<open>The format's encoder\<close>

text \<open>A reference for the file format: chunks with any checksum, the five row filters, stored blocks.\<close>

definition png_chunk :: "bytes \<Rightarrow> bytes \<Rightarrow> bytes \<Rightarrow> bytes" where
  "png_chunk ty dat crc = bytes32 (word_of_nat (length dat)) @ ty @ dat @ crc"

definition chunk_ok :: "bytes \<Rightarrow> bytes \<Rightarrow> bytes \<Rightarrow> bool" where
  "chunk_ok ty dat crc \<longleftrightarrow> length ty = 4 \<and> length crc = 4 \<and> length dat < 2 ^ 32 - 12"

text \<open>The two mixed predictors as the format states them: the mean rounded down, and the first of left, above and above
  left among those nearest to left plus above less above left.\<close>

definition mean_of :: "u8 \<Rightarrow> u8 \<Rightarrow> u8" where
  "mean_of a b = word_of_nat ((unat a + unat b) div 2)"

definition nearest_of :: "u8 \<Rightarrow> u8 \<Rightarrow> u8 \<Rightarrow> u8" where
  "nearest_of a b c =
     (let away = (\<lambda>x. \<bar>int (unat a) + int (unat b) - int (unat c) - int (unat x)\<bar>)
      in hd (filter (\<lambda>x. list_all (\<lambda>y. away x \<le> away y) [a, b, c]) [a, b, c]))"



definition predict :: "u8 \<Rightarrow> nat \<Rightarrow> bytes \<Rightarrow> bytes \<Rightarrow> nat \<Rightarrow> u8" where
  "predict ft channels P R i =
     (let a = (if i \<ge> channels then R ! (i - channels) else 0);
          b = P ! i;
          c = (if i \<ge> channels then P ! (i - channels) else 0)
      in if ft = 1 then a else if ft = 2 then b else if ft = 3 then mean_of a b
         else if ft = 4 then nearest_of a b c else 0)"

definition filter_row :: "u8 \<Rightarrow> nat \<Rightarrow> bytes \<Rightarrow> bytes \<Rightarrow> bytes" where
  "filter_row ft channels P R = map (\<lambda>i. R ! i - predict ft channels P R i) [0 ..< length R]"

fun filter_rows :: "nat \<Rightarrow> bytes \<Rightarrow> (u8 \<times> bytes) list \<Rightarrow> bytes" where
  "filter_rows channels P [] = []"
| "filter_rows channels P ((ft, R) # rs) =
     ft # filter_row ft channels P R @ filter_rows channels R rs"

definition row_pixels :: "nat \<Rightarrow> nat \<Rightarrow> bytes \<Rightarrow> u32 list" where
  "row_pixels channels width R =
     map (\<lambda>x. rgb (R ! (x * channels)) (R ! (x * channels + 1)) (R ! (x * channels + 2))) [0 ..< width]"

lemma length_filter_row [simp]: "length (filter_row ft channels P R) = length R"
  by (simp add: filter_row_def)

lemma length_row_pixels [simp]: "length (row_pixels channels width R) = width"
  by (simp add: row_pixels_def)

section \<open>One row\<close>








section \<open>All rows\<close>


definition rows_ok :: "nat \<Rightarrow> (u8 \<times> bytes) list \<Rightarrow> bool" where
  "rows_ok stride rs \<longleftrightarrow> (\<forall>(ft, R) \<in> set rs. ft \<le> 4 \<and> length R = stride)"

lemma length_filter_rows: "rows_ok stride rs \<Longrightarrow> length (filter_rows channels P rs) = (stride + 1) * length rs"
  by (induction channels P rs rule: filter_rows.induct) (auto simp: rows_ok_def)


section \<open>Whole files\<close>

lemma be32_bytes32: "k = length A \<Longrightarrow> be32 (A @ bytes32 v @ B) k = Some v"
proof -
  assume "k = length A"
  then have r: "rd (A @ bytes32 v @ B) (k + j) = Some (bytes32 v ! j)" if "j < 4" for j
    using that by (simp add: rd_def nth_append)
  show ?thesis using r [of 0] r [of 1] r [of 2] r [of 3] by (simp add: be32_def bytes32_def mk32_bytes32)
qed

lemma chunk_len:
  assumes "chunk_ok ty dat crc"
  shows "unat (word_of_nat (length dat) :: u32) = length dat"
    "unat (12 + word_of_nat (length dat) :: u32) = 12 + length dat"
proof -
  show eq: "unat (word_of_nat (length dat) :: u32) = length dat"
    using assms by (intro unat_of_nat_lt) (simp add: chunk_ok_def)
  show "unat (12 + word_of_nat (length dat) :: u32) = 12 + length dat"
    using assms by (subst unat_plus_lt) (simp_all add: eq chunk_ok_def)
qed

lemma png_walk_chunk:
  assumes "chunk_ok ty dat crc" and p: "p = pre @ png_chunk ty dat crc @ suf"
  shows "png_walk p (length pre) h =
    (if ty = IEND then Some (Some h)
     else do { r \<leftarrow> (if ty = IHDR then png_ihdr p (length pre + 8) (word_of_nat (length dat)) h
                    else if ty = IDAT then Some (png_idat (length pre + 8) (word_of_nat (length dat)) h)
                    else Some (Some h));
               if r = None then Some None
               else png_walk p (length (pre @ png_chunk ty dat crc)) (the r) })"
proof -
  have len: "length (png_chunk ty dat crc) = 12 + length dat" using assms(1) by (simp add: png_chunk_def chunk_ok_def)
  have "be32 p (length pre) = Some (word_of_nat (length dat))"
    unfolding p png_chunk_def append.assoc by (rule be32_bytes32) simp
  moreover have "rd_range p (length pre + 4) 4 = Some ty"
    using assms(1) by (simp add: p png_chunk_def rd_range_def chunk_ok_def)
  moreover have eq: "length (pre @ png_chunk ty dat crc) = length pre + unat (12 + word_of_nat (length dat) :: u32)"
    using len chunk_len(2) [OF assms(1)] by simp
  moreover have "length pre + 8 \<le> length p" "\<not> length pre + 8 + unat (word_of_nat (length dat) :: u32) > length p"
    using len chunk_len(1) [OF assms(1)] by (simp_all add: p)
  ultimately show ?thesis unfolding eq by (subst png_walk.simps) (simp add: Let_def)
qed

text \<open>Chunks of other types are skipped.\<close>

definition png_chunks :: "(bytes \<times> bytes \<times> bytes) list \<Rightarrow> bytes" where
  "png_chunks cs = concat (map (\<lambda>(ty, dat, crc). png_chunk ty dat crc) cs)"

definition others_ok :: "(bytes \<times> bytes \<times> bytes) list \<Rightarrow> bool" where
  "others_ok cs \<longleftrightarrow> (\<forall>(ty, dat, crc) \<in> set cs. chunk_ok ty dat crc \<and> ty \<notin> {IHDR, IDAT, IEND})"

lemma png_walk_others:
  "others_ok cs \<Longrightarrow> p = pre @ png_chunks cs @ suf \<Longrightarrow>
   png_walk p (length pre) h = png_walk p (length (pre @ png_chunks cs)) h"
proof (induction cs arbitrary: pre)
  case (Cons c cs)
  obtain ty dat crc where c: "c = (ty, dat, crc)" by (metis prod.exhaust)
  have ok: "chunk_ok ty dat crc" "ty \<notin> {IHDR, IDAT, IEND}" and cs: "others_ok cs"
    using Cons.prems(1) c by (auto simp: others_ok_def)
  have p: "p = pre @ png_chunk ty dat crc @ png_chunks cs @ suf" using Cons.prems(2) c by (simp add: png_chunks_def)
  have "png_walk p (length (pre @ png_chunk ty dat crc)) h
      = png_walk p (length ((pre @ png_chunk ty dat crc) @ png_chunks cs)) h"
    by (rule Cons.IH [OF cs]) (simp add: p)
  then show ?case using png_walk_chunk [OF ok(1) p, of h] ok(2) c by (simp add: png_chunks_def)
qed (simp add: png_chunks_def)

definition png_file :: "u32 \<Rightarrow> u32 \<Rightarrow> bool \<Rightarrow> (bytes \<times> bytes \<times> bytes) list \<Rightarrow> bytes \<Rightarrow> bytes \<Rightarrow> bytes" where
  "png_file w h alpha others idat suf =
     png_sig @ png_chunk IHDR (bytes32 w @ bytes32 h @ [8, if alpha then 6 else 2, 0, 0, 0]) [0, 0, 0, 0]
     @ png_chunks others @ png_chunk IDAT idat [0, 0, 0, 0] @ suf"

definition size_ok :: "u32 \<Rightarrow> bool" where
  "size_ok w \<longleftrightarrow> 0 < w \<and> w \<le> 16384"

lemma types_differ [simp]: "IHDR \<noteq> IDAT" "IHDR \<noteq> IEND" "IDAT \<noteq> IHDR" "IDAT \<noteq> IEND" "IEND \<noteq> IHDR" "IEND \<noteq> IDAT"
  by (simp_all add: IHDR_def IDAT_def IEND_def)

lemma length_types [simp]: "length IHDR = 4" "length IDAT = 4" "length IEND = 4"
  by (simp_all add: IHDR_def IDAT_def IEND_def)

lemma length_png_sig [simp]: "length png_sig = 8"
  by (simp add: png_sig_def)

lemma png_ihdr_reads:
  assumes "size_ok w" "size_ok h" "k = length A"
  shows "png_ihdr (A @ (bytes32 w @ bytes32 h @ [8, if alpha then 6 else 2, 0, 0, 0]) @ B) k 13 g =
    Some (Some (g\<lparr>ph_width := w, ph_height := h, ph_bit_depth := 8, ph_color_type := if alpha then 6 else 2\<rparr>))"
proof -
  let ?p = "A @ (bytes32 w @ bytes32 h @ [8, if alpha then 6 else 2, 0, 0, 0]) @ B"
  have "be32 ?p k = Some w" using be32_bytes32 [OF assms(3), of w "bytes32 h @ [8, if alpha then 6 else 2, 0, 0, 0] @ B"] by simp
  moreover have "be32 ?p (k + 4) = Some h"
    using be32_bytes32 [of "k + 4" "A @ bytes32 w" h "[8, if alpha then 6 else 2, 0, 0, 0] @ B"] assms(3) by simp
  moreover have "rd ?p (k + 8) = Some 8" "rd ?p (k + 9) = Some (if alpha then 6 else 2)"
      "rd_range ?p (k + 10) 3 = Some [0, 0, 0]"
    using assms(3) by (simp_all add: rd_def rd_range_def nth_append numeral_eq_Suc)
  ultimately show ?thesis using assms(1,2) unfolding png_ihdr_def
    by (auto simp: size_ok_def word_less_nat_alt word_le_nat_alt)
qed

lemma png_decode_file:
  assumes "pe_outs e" "size_ok w" "size_ok h" "others_ok others" "chunk_ok IDAT idat [0, 0, 0, 0]" "idat \<noteq> []"
    and suf: "chunk_ok IEND iend crc" "suf = png_chunk IEND iend crc @ suf'"
  shows "\<exists>i. png_decode e (png_file w h alpha others idat suf)
      = png_image e (png_file w h alpha others idat suf)
          \<lparr>ph_width = w, ph_height = h, ph_bit_depth = 8, ph_color_type = if alpha then 6 else 2,
           ph_idat = Some i, ph_idat_len = length idat\<rparr>
    \<and> rd_range (png_file w h alpha others idat suf) i (length idat) = Some idat"
proof -
  let ?ihdr = "bytes32 w @ bytes32 h @ [8, if alpha then 6 else 2, 0, 0, 0]"
  let ?z = "[0, 0, 0, 0] :: bytes"
  let ?hdr = "png_hdr0\<lparr>ph_width := w, ph_height := h, ph_bit_depth := 8, ph_color_type := if alpha then 6 else 2\<rparr>"
  define p where "p = png_file w h alpha others idat suf"
  define pre1 where "pre1 = png_sig @ png_chunk IHDR ?ihdr ?z"
  define pre2 where "pre2 = pre1 @ png_chunks others"
  define pre3 where "pre3 = pre2 @ png_chunk IDAT idat ?z"
  have p1: "p = png_sig @ png_chunk IHDR ?ihdr ?z @ (png_chunks others @ png_chunk IDAT idat ?z @ suf)"
    by (simp add: p_def png_file_def)
  have p2: "p = pre1 @ png_chunks others @ (png_chunk IDAT idat ?z @ suf)" by (simp add: p1 pre1_def)
  have p3: "p = pre2 @ png_chunk IDAT idat ?z @ suf" by (simp add: p2 pre2_def)
  have p4: "p = pre3 @ png_chunk IEND iend crc @ suf'" by (simp add: p3 pre3_def suf(2))
  let ?hdr2 = "?hdr\<lparr>ph_idat := Some (length pre2 + 8), ph_idat_len := length idat\<rparr>"
  have ok: "chunk_ok IHDR ?ihdr ?z" by (simp add: chunk_ok_def)
  have "png_ihdr p (length png_sig + 8) (word_of_nat (length ?ihdr)) png_hdr0 = Some (Some ?hdr)"
    using png_ihdr_reads [OF assms(2,3), of "length png_sig + 8" "png_sig @ bytes32 13 @ IHDR" alpha
        "?z @ png_chunks others @ png_chunk IDAT idat ?z @ suf" png_hdr0]
    by (simp add: p1 png_chunk_def)
  then have "png_walk p (length png_sig) png_hdr0 = png_walk p (length pre1) ?hdr"
    using png_walk_chunk [OF ok p1, of png_hdr0] by (simp add: pre1_def)
  also have "\<dots> = png_walk p (length pre2) ?hdr"
    using png_walk_others [OF assms(4) p2] by (simp add: pre2_def)
  also have "\<dots> = png_walk p (length pre3) ?hdr2"
  proof -
    have "(0 :: u32) < word_of_nat (length idat)"
      using chunk_len(1) [OF assms(5)] assms(6) by (simp add: word_less_nat_alt)
    then have "png_idat (length pre2 + 8) (word_of_nat (length idat)) ?hdr = Some ?hdr2"
      using chunk_len(1) [OF assms(5)] by (simp add: png_idat_def png_hdr0_def)
    then show ?thesis using png_walk_chunk [OF assms(5) p3, of ?hdr] by (simp add: pre3_def)
  qed
  also have "\<dots> = Some (Some ?hdr2)" using png_walk_chunk [OF suf(1) p4, of ?hdr2] by simp
  finally have "png_walk p 8 png_hdr0 = Some (Some ?hdr2)" by simp
  moreover have "take 8 p = png_sig" "8 \<le> length p" by (simp_all add: p1)
  ultimately have "png_decode e p = png_image e p ?hdr2" using assms(1) by (simp add: png_decode_def)
  moreover have "rd_range p (length pre2 + 8) (length idat) = Some idat"
    by (simp add: p3 png_chunk_def rd_range_def)
  ultimately show ?thesis unfolding p_def [symmetric] by (intro exI [of _ "length pre2 + 8"]) (simp add: png_hdr0_def)
qed

unbundle bit_operations_syntax

text \<open>The image data of a file: its filtered rows, in stored blocks.\<close>

definition png_idat_of :: "nat \<Rightarrow> nat \<Rightarrow> (u8 \<times> bytes) list \<Rightarrow> bytes list \<Rightarrow> bool" where
  "png_idat_of channels width rs cs \<longleftrightarrow> concat cs = filter_rows channels (replicate (width * channels) 0) rs
     \<and> (\<forall>c \<in> set cs. length c < 65536) \<and> length (zlib_stored cs) < 2 ^ 32 - 12"

definition png_fits :: "png_env \<Rightarrow> nat \<Rightarrow> nat \<Rightarrow> nat \<Rightarrow> bool" where
  "png_fits e channels width height \<longleftrightarrow> pe_outs e \<and> png_env_ok e
     \<and> (width * channels + 1) * height \<le> 0x10000000
     \<and> pe_raw e ((width * channels + 1) * height) \<noteq> None \<and> pe_img e (width * height * 4) \<noteq> None"

lemma size_ok_pos: "size_ok w \<Longrightarrow> 0 < unat w"
  by (auto simp: size_ok_def unat_gt_0)

lemma png_decode_stored:
  fixes w h :: u32 and alpha :: bool
  defines "channels \<equiv> if alpha then 4 else 3 :: nat"
  assumes sz: "size_ok w" "size_ok h" and "png_fits e channels (unat w) (unat h)"
    and rs: "rows_ok (unat w * channels) rs" "length rs = unat h" and cs: "png_idat_of channels (unat w) rs cs"
    and "others_ok others"
  shows "\<exists>img. length img = unat w * unat h
    \<and> png_decode e (png_file w h alpha others (zlib_stored cs) (png_chunk IEND [] [0, 0, 0, 0] @ suf))
     = (case png_rows channels (unat w) [0 ..< unat h] (filter_rows channels (replicate (unat w * channels) 0) rs) img of
          None \<Rightarrow> None
        | Some (Inl live) \<Rightarrow> Some (png_fail live)
        | Some (Inr img) \<Rightarrow> Some \<lparr>pr_ret = True, pr_out = Some img, pr_w = w, pr_h = h, pr_live = [Img_block]\<rparr>)"
proof -
  let ?width = "unat w" and ?height = "unat h"
  let ?size = "(?width * channels + 1) * ?height"
  let ?fr = "filter_rows channels (replicate (?width * channels) 0) rs"
  define p where "p = png_file w h alpha others (zlib_stored cs) (png_chunk IEND [] [0, 0, 0, 0] @ suf)"
  have zs: "zlib_stored cs \<noteq> []" by (simp add: zlib_stored_def)
  have ok: "chunk_ok IDAT (zlib_stored cs) [0, 0, 0, 0]" "chunk_ok IEND [] [0, 0, 0, 0]"
    using cs by (simp_all add: chunk_ok_def png_idat_of_def)
  have "pe_outs e" using assms(4) by (simp add: png_fits_def)
  from png_decode_file [OF this sz assms(8) ok(1) zs ok(2) refl]
  obtain i where i: "png_decode e p = png_image e p \<lparr>ph_width = w, ph_height = h, ph_bit_depth = 8,
      ph_color_type = if alpha then 6 else 2, ph_idat = Some i, ph_idat_len = length (zlib_stored cs)\<rparr>"
    "rd_range p i (length (zlib_stored cs)) = Some (zlib_stored cs)"
    unfolding p_def by blast
  obtain raw img where e: "pe_raw e ?size = Some raw" "pe_img e (?width * ?height * 4) = Some img"
      "?size \<le> 0x10000000"
    using assms(4) unfolding png_fits_def by blast
  then have le: "length raw = ?size" "4 * length img = ?width * ?height * 4"
    using assms(4) unfolding png_fits_def png_env_ok_def by blast+
  have lfr: "length ?fr = ?size" using length_filter_rows [OF rs(1)] rs(2) by simp
  have pos: "0 < ?width" "0 < ?height" using sz by (simp_all add: size_ok_pos)
  then have "cs \<noteq> []" using cs lfr by (auto simp: png_idat_of_def)
  then have inf: "inflate (zlib_stored cs) raw = Some (?fr, Some ?size)"
    using stored_blocks_inflate [of cs raw "[]"] cs lfr le(1) by (simp add: png_idat_of_def)
  have ch: "(if (if alpha then 6 else 2) = (6 :: u8) then 4 else 3 :: nat) = channels" by (simp add: channels_def)
  have "w \<noteq> 0" "h \<noteq> 0" using sz by (auto simp: size_ok_def)
  then have "png_decode e p = do { r \<leftarrow> png_rows channels ?width [0 ..< ?height] ?fr img;
      case r of Inl live \<Rightarrow> Some (png_fail live)
      | Inr img \<Rightarrow> Some \<lparr>pr_ret = True, pr_out = Some img, pr_w = w, pr_h = h, pr_live = [Img_block]\<rparr> }"
    using i(2) e inf unfolding i(1) png_image_def png_hdr.simps ch Let_def by simp
  moreover have "length img = ?width * ?height" using le(2) by simp
  ultimately show ?thesis unfolding p_def [symmetric]
    by (intro exI [of _ img]) (simp split: option.split sum.split)
qed


definition png_test_env :: png_env where
  "png_test_env = \<lparr>pe_outs = True, pe_raw = (\<lambda>n. Some (replicate n 7)),
     pe_img = (\<lambda>n. if n = 4 then Some [7] else None)\<rparr>"

lemma png_test_env_fits: "png_fits png_test_env 3 1 1" "png_fits png_test_env 3 (unat (1 :: u32)) (unat (1 :: u32))"
  by (auto simp: png_fits_def png_env_ok_def png_test_env_def split: if_splits)


text \<open>A valid file that the decoder refuses, leaking both of its blocks: when the first row's filter is
  \<open>Up\<close>, which the format defines (the row above it is zero), the decoder returns a failure with
  the filtered data and the image still allocated, whatever the rest of the file.\<close>

lemma png_first_up_leaks:
  fixes w h :: u32 and alpha :: bool
  defines "channels \<equiv> if alpha then 4 else 3 :: nat"
  assumes "size_ok w" "size_ok h" "png_fits e channels (unat w) (unat h)"
    and "rows_ok (unat w * channels) rs" "length rs = unat h" "fst (hd rs) = 2"
    and "png_idat_of channels (unat w) rs cs" "others_ok others"
  shows "png_decode e (png_file w h alpha others (zlib_stored cs) (png_chunk IEND [] [0, 0, 0, 0] @ suf))
    = Some (png_fail [Raw_block, Img_block])"
proof -
  have pos: "0 < unat h" using assms(3) by (rule size_ok_pos)
  then obtain R rs' where rs: "rs = (2, R) # rs'" using assms(6,7) by (cases rs) auto
  have upt: "[0 ..< unat h] = 0 # [1 ..< unat h]" using pos by (simp add: upt_conv_Cons)
  obtain img where
    eq: "png_decode e (png_file w h alpha others (zlib_stored cs) (png_chunk IEND [] [0, 0, 0, 0] @ suf))
     = (case png_rows channels (unat w) [0 ..< unat h] (filter_rows channels (replicate (unat w * channels) 0) rs) img of
          None \<Rightarrow> None
        | Some (Inl live) \<Rightarrow> Some (png_fail live)
        | Some (Inr img) \<Rightarrow> Some \<lparr>pr_ret = True, pr_out = Some img, pr_w = w, pr_h = h, pr_live = [Img_block]\<rparr>)"
    using png_decode_stored [of w h e alpha rs cs others suf] assms unfolding channels_def by blast
  have "unfilter_row channels (unat w * channels) 0 (filter_rows channels (replicate (unat w * channels) 0) rs) = Some Row_leak"
    by (simp add: rs unfilter_row_def rd_def)
  then show ?thesis using eq unfolding upt by (simp add: Let_def)
qed

lemma png_first_up_leaks_witness:
  "png_decode png_test_env (png_file 1 1 False [] (zlib_stored [[2, 10, 20, 30]]) (png_chunk IEND [] [0, 0, 0, 0] @ []))
    = Some (png_fail [Raw_block, Img_block])"
proof -
  have "png_idat_of 3 1 [(2, [10, 20, 30])] [[2, 10, 20, 30]]"
    by (simp add: png_idat_of_def filter_row_def predict_def zlib_stored_def stored_header_def)
  then show ?thesis
    using png_first_up_leaks [of 1 1 png_test_env False "[(2, [10, 20, 30])]" "[[2, 10, 20, 30]]" "[]" "[]"]
      png_test_env_fits
    by (simp add: size_ok_def rows_ok_def others_ok_def)
qed

lemma png_ihdr_keeps: "png_ihdr p chunk len g = Some (Some g') \<Longrightarrow> ph_idat g' = ph_idat g"
  by (cases "len < 13") (auto simp: png_ihdr_def bind_eq_Some_conv split: if_splits)

lemma png_ihdr_total:
  assumes "chunk + unat len \<le> length p"
  shows "\<exists>r. png_ihdr p chunk len png_hdr0 = Some r \<and> (\<forall>g. r = Some g \<longrightarrow> ph_idat g = None)"
proof -
  have "hdr_ok p png_hdr0" by (simp add: hdr_ok_def png_hdr0_def)
  from png_ihdr_Some [OF assms this] obtain r where r: "png_ihdr p chunk len png_hdr0 = Some r" by blast
  have "ph_idat png_hdr0 = None" by (simp add: png_hdr0_def)
  then show ?thesis using r png_ihdr_keeps [of p chunk len png_hdr0] by auto
qed

text \<open>Image data in more than one chunk is never decoded: every file with two nonempty data chunks, before
  its end chunk, is refused. The test for adjacent chunks compares the end of the first chunk's data with
  the start of the second's, but a checksum and a chunk header always lie between them.\<close>

lemma png_two_idat_refused:
  assumes "chunk_ok IHDR ihdr c0" "others_ok cs1" "others_ok cs2"
    and "chunk_ok IDAT d1 c1" "chunk_ok IDAT d2 c2" "d1 \<noteq> []" "d2 \<noteq> []"
  shows "png_decode e (png_sig @ png_chunk IHDR ihdr c0 @ png_chunks cs1 @ png_chunk IDAT d1 c1
      @ png_chunks cs2 @ png_chunk IDAT d2 c2 @ suf) = Some (png_fail [])"
proof -
  define pre1 where "pre1 = png_sig @ png_chunk IHDR ihdr c0"
  define pre2 where "pre2 = pre1 @ png_chunks cs1"
  define pre3 where "pre3 = pre2 @ png_chunk IDAT d1 c1"
  define pre4 where "pre4 = pre3 @ png_chunks cs2"
  define p where "p = pre4 @ png_chunk IDAT d2 c2 @ suf"
  have p0: "p = png_sig @ png_chunk IHDR ihdr c0 @ (png_chunks cs1 @ png_chunk IDAT d1 c1
      @ png_chunks cs2 @ png_chunk IDAT d2 c2 @ suf)"
    by (simp add: p_def pre4_def pre3_def pre2_def pre1_def)
  have p1: "p = pre1 @ png_chunks cs1 @ (png_chunk IDAT d1 c1 @ png_chunks cs2 @ png_chunk IDAT d2 c2 @ suf)"
    by (simp add: p_def pre4_def pre3_def pre2_def)
  have p2: "p = pre2 @ png_chunk IDAT d1 c1 @ (png_chunks cs2 @ png_chunk IDAT d2 c2 @ suf)"
    by (simp add: p_def pre4_def pre3_def)
  have p3: "p = pre3 @ png_chunks cs2 @ (png_chunk IDAT d2 c2 @ suf)" by (simp add: p_def pre4_def)
  have p4: "p = pre4 @ png_chunk IDAT d2 c2 @ suf" by (simp add: p_def)
  have nz: "(0 :: u32) < word_of_nat (length d1)" "(0 :: u32) < word_of_nat (length d2)"
    using chunk_len(1) [OF assms(4)] chunk_len(1) [OF assms(5)] assms(6,7) by (simp_all add: word_less_nat_alt)
  have len3: "length pre3 = length pre2 + 12 + length d1" using assms(4) by (simp add: pre3_def png_chunk_def chunk_ok_def)
  have refused: "png_walk p (length pre1) g = Some None" if "ph_idat g = None" for g
  proof -
    let ?g = "g\<lparr>ph_idat := Some (length pre2 + 8), ph_idat_len := length d1\<rparr>"
    have "png_idat (length pre2 + 8) (word_of_nat (length d1)) g = Some ?g"
      using that nz(1) chunk_len(1) [OF assms(4)] by (simp add: png_idat_def)
    then have a: "png_walk p (length pre2) g = png_walk p (length pre3) ?g"
      using png_walk_chunk [OF assms(4) p2, of g] by (simp add: pre3_def)
    have "png_idat (length pre4 + 8) (word_of_nat (length d2)) ?g = None"
      using nz(2) len3 by (simp add: png_idat_def pre4_def)
    then have "png_walk p (length pre4) ?g = Some None"
      using png_walk_chunk [OF assms(5) p4, of ?g] by simp
    then show ?thesis
      using a png_walk_others [OF assms(2) p1, of g] png_walk_others [OF assms(3) p3, of ?g]
      by (simp add: pre2_def pre4_def)
  qed
  have "length png_sig + 8 + unat (word_of_nat (length ihdr) :: u32) \<le> length p"
    using chunk_len(1) [OF assms(1)] assms(1) by (simp add: p0 png_chunk_def chunk_ok_def)
  from png_ihdr_total [OF this]
  obtain r where r: "png_ihdr p (length png_sig + 8) (word_of_nat (length ihdr)) png_hdr0 = Some r"
      "\<forall>g. r = Some g \<longrightarrow> ph_idat g = None" by blast
  have "png_walk p (length png_sig) png_hdr0 = Some None"
    using png_walk_chunk [OF assms(1) p0, of png_hdr0] r refused by (cases r) (simp_all add: pre1_def)
  moreover have "take 8 p = png_sig" "8 \<le> length p" by (simp_all add: p0)
  ultimately have "png_decode e p = Some (png_fail [])" by (simp add: png_decode_def)
  then show ?thesis by (simp add: p0)
qed

lemma png_two_idat_refused_witness:
  "png_decode png_test_env (png_sig @ png_chunk IHDR (bytes32 1 @ bytes32 1 @ [8, 2, 0, 0, 0]) [0, 0, 0, 0]
      @ png_chunks [] @ png_chunk IDAT [0x78, 0x01, 1, 4, 0, 0xFB, 0xFF] [0, 0, 0, 0]
      @ png_chunks [] @ png_chunk IDAT [0, 10, 20, 30] [0, 0, 0, 0] @ png_chunk IEND [] [0, 0, 0, 0])
    = Some (png_fail [])"
  by (rule png_two_idat_refused) (simp_all add: chunk_ok_def others_ok_def)

end
