(* ===== verification/Wallpaper.thy ===== *)
theory Wallpaper
  imports Png
begin

text \<open>
  The wallpaper of \<^verbatim>\<open>kernel/wallpaper.c\<close>: the search among the boot loader's modules, the decoding, and the
  copy of a region into the backbuffer. A module is its path and the contents at its address; either pointer
  may be NULL.

  The lemmas show that the search finds a path with the substring, that an image that is kept has exactly
  width times height pixels, and that the copy writes exactly the region's pixels that the image has.
\<close>

section \<open>Finding the module\<close>

record wall_module =
  wm_path :: "bytes option"
  wm_data :: "bytes option"

record wall =
  wl_img :: "u32 list"
  wl_w :: nat
  wl_h :: nat

definition module_path :: "wall_module \<Rightarrow> bytes" where
  "module_path m = (case wm_path m of None \<Rightarrow> [] | Some p \<Rightarrow> p)"

text \<open>The comparison at one position stops at the end of either string.\<close>

fun matches_at :: "bytes \<Rightarrow> bytes \<Rightarrow> bool" where
  "matches_at s [] = True"
| "matches_at [] (n # ns) = False"
| "matches_at (c # s) (n # ns) = (c = n \<and> matches_at s ns)"

fun path_contains :: "bytes \<Rightarrow> bytes \<Rightarrow> bool" where
  "path_contains [] needle = False"
| "path_contains (c # s) needle = (matches_at (c # s) needle \<or> path_contains s needle)"

definition wallpaper_init :: "png_env \<Rightarrow> wall_module list option \<Rightarrow> wall option option" where
  "wallpaper_init e mods =
     (case mods of
        None \<Rightarrow> Some None
      | Some ms \<Rightarrow>
          (case find (\<lambda>m. path_contains (module_path m) (map of_char ''wallpaper'')) ms of
             None \<Rightarrow> Some None
           | Some m \<Rightarrow>
               (case wm_data m of
                  None \<Rightarrow> Some None
                | Some content \<Rightarrow>
                    if content = [] then Some None
                    else do { r \<leftarrow> png_decode e content;
                              Some (if pr_ret r
                                    then map_option (\<lambda>img. \<lparr>wl_img = img, wl_w = unat (pr_w r), wl_h = unat (pr_h r)\<rparr>) (pr_out r)
                                    else None) })))"

section \<open>Copying a region\<close>

fun copy_pixels :: "u32 list \<Rightarrow> nat \<Rightarrow> u32 list \<Rightarrow> nat \<Rightarrow> nat \<Rightarrow> u32 list option" where
  "copy_pixels src s dst d 0 = Some dst"
| "copy_pixels src s dst d (Suc n) =
     do { c \<leftarrow> rd src s; dst \<leftarrow> wr dst d c; copy_pixels src (s + 1) dst (d + 1) n }"

fun copy_rows :: "wall \<Rightarrow> nat \<Rightarrow> nat \<Rightarrow> nat \<Rightarrow> nat \<Rightarrow> nat \<Rightarrow> u32 list \<Rightarrow> u32 list option" where
  "copy_rows v bb_w y x 0 n bb = Some bb"
| "copy_rows v bb_w y x (Suc k) n bb =
     do { bb \<leftarrow> copy_pixels (wl_img v) (y * wl_w v + x) bb (y * bb_w + x) n; copy_rows v bb_w (y + 1) x k n bb }"

definition wallpaper_render :: "wall option \<Rightarrow> u32 list \<Rightarrow> nat \<Rightarrow> int \<Rightarrow> int \<Rightarrow> int \<Rightarrow> int \<Rightarrow> u32 list option" where
  "wallpaper_render v bb bb_w x0 y0 x1 y1 =
     (case v of
        None \<Rightarrow> Some bb
      | Some v \<Rightarrow>
          (let x0 = (if x0 < 0 then 0 else x0); y0 = (if y0 < 0 then 0 else y0);
               x1 = (if x1 > int (wl_w v) then int (wl_w v) else x1); y1 = (if y1 > int (wl_h v) then int (wl_h v) else y1) in
           if x1 \<le> x0 \<or> y1 \<le> y0 then Some bb
           else copy_rows v bb_w (nat y0) (nat x0) (nat (y1 - y0)) (nat (x1 - x0)) bb))"

section \<open>The search\<close>

lemma matches_at_take: "matches_at s n \<longleftrightarrow> (\<exists>z. s = n @ z)"
  by (induction s n rule: matches_at.induct) auto

lemma path_contains_substring: "n \<noteq> [] \<Longrightarrow> path_contains s n \<longleftrightarrow> (\<exists>a z. s = a @ n @ z)"
proof (induction s)
  case (Cons c s)
  have "(\<exists>a z. c # s = a @ n @ z) \<longleftrightarrow> (\<exists>z. c # s = n @ z) \<or> (\<exists>a z. s = a @ n @ z)"
    by (metis Cons_eq_append_conv append_Cons append_self_conv2)
  then show ?case using Cons by (simp add: matches_at_take)
qed simp

section \<open>The copy\<close>

lemma copy_pixels_spec:
  "s + n \<le> length src \<Longrightarrow> d + n \<le> length dst \<Longrightarrow>
   \<exists>dst'. copy_pixels src s dst d n = Some dst' \<and> length dst' = length dst
     \<and> (\<forall>j < length dst. dst' ! j = (if d \<le> j \<and> j < d + n then src ! (s + (j - d)) else dst ! j))"
proof (induction n arbitrary: s d dst)
  case (Suc n)
  obtain dst' where dst': "copy_pixels src (s + 1) (dst[d := src ! s]) (d + 1) n = Some dst'" "length dst' = length dst"
      "\<forall>j < length dst. dst' ! j = (if d + 1 \<le> j \<and> j < d + 1 + n then src ! (s + 1 + (j - (d + 1))) else dst[d := src ! s] ! j)"
    using Suc.IH [of "s + 1" "d + 1" "dst[d := src ! s]"] Suc.prems by auto
  have "dst' ! j = (if d \<le> j \<and> j < d + Suc n then src ! (s + (j - d)) else dst ! j)" if j: "j < length dst" for j
  proof (cases "j = d")
    case True
    then show ?thesis using dst'(3) j by simp
  next
    case False
    have "s + 1 + (j - (d + 1)) = s + (j - d)" if "d + 1 \<le> j" using that by simp
    moreover have "d + 1 \<le> j \<and> j < d + 1 + n \<longleftrightarrow> d \<le> j \<and> j < d + Suc n" using False by auto
    ultimately show ?thesis using dst'(3) j False by auto
  qed
  then show ?case using Suc.prems dst'(1,2) by (auto simp: rd_Some wr_Some)
qed auto

lemma copy_row_bounds:
  fixes x y w n h :: nat
  assumes "x + n \<le> w" "y < h"
  shows "y * w + x + n \<le> h * w"
proof -
  have "y * w + x + n \<le> Suc y * w" using assms(1) by simp
  also have "\<dots> \<le> h * w" using assms(2) by (intro mult_right_mono) simp_all
  finally show ?thesis .
qed

lemma pixel_index:
  fixes x y x' y' w :: nat
  assumes "x < w" "x' < w"
  shows "y * w + x = y' * w + x' \<longleftrightarrow> y = y' \<and> x = x'"
  by (metis assms add.commute mod_mult_self3 mod_less div_mult_self3 div_less add_0 less_nat_zero_code)

lemma row_range:
  fixes x y px py w n :: nat
  assumes "x + n \<le> w" "px < w"
  shows "y * w + x \<le> py * w + px \<and> py * w + px < y * w + x + n \<longleftrightarrow> py = y \<and> x \<le> px \<and> px < x + n"
proof
  assume a: "y * w + x \<le> py * w + px \<and> py * w + px < y * w + x + n"
  define k where "k = py * w + px - (y * w + x)"
  have k: "k < n" "py * w + px = y * w + (x + k)" using a unfolding k_def by linarith+
  have "x + k < w" using k(1) assms(1) by simp
  from pixel_index [OF assms(2) this, of py y] k show "py = y \<and> x \<le> px \<and> px < x + n" by simp
qed auto

lemma copy_rows_spec:
  assumes img: "length (wl_img v) = wl_w v * wl_h v" and x: "x + n \<le> wl_w v" "x + n \<le> bb_w"
  shows "y + k \<le> wl_h v \<Longrightarrow> y + k \<le> bb_h \<Longrightarrow> bb_w * bb_h \<le> length bb \<Longrightarrow>
    \<exists>bb'. copy_rows v bb_w y x k n bb = Some bb' \<and> length bb' = length bb
      \<and> (\<forall>j < length bb. bb_w * bb_h \<le> j \<longrightarrow> bb' ! j = bb ! j)
      \<and> (\<forall>px < bb_w. \<forall>py < bb_h. bb' ! (py * bb_w + px) =
           (if x \<le> px \<and> px < x + n \<and> y \<le> py \<and> py < y + k then wl_img v ! (py * wl_w v + px) else bb ! (py * bb_w + px)))"
proof (induction k arbitrary: y bb)
  case (Suc k)
  have src: "y * wl_w v + x + n \<le> length (wl_img v)"
    using copy_row_bounds [OF x(1), of y "wl_h v"] Suc.prems(1) img by (simp add: mult.commute)
  have dst: "y * bb_w + x + n \<le> bb_w * bb_h" using copy_row_bounds [OF x(2), of y bb_h] Suc.prems(2) by (simp add: mult.commute)
  obtain b1 where b1: "copy_pixels (wl_img v) (y * wl_w v + x) bb (y * bb_w + x) n = Some b1" "length b1 = length bb"
      "\<forall>j < length bb. b1 ! j = (if y * bb_w + x \<le> j \<and> j < y * bb_w + x + n
          then wl_img v ! (y * wl_w v + x + (j - (y * bb_w + x))) else bb ! j)"
    using copy_pixels_spec [OF src, of "y * bb_w + x" bb] dst Suc.prems(3) by auto
  have cap: "bb_w * bb_h \<le> length b1" using Suc.prems(3) b1(2) by simp
  obtain b2 where b2: "copy_rows v bb_w (y + 1) x k n b1 = Some b2" "length b2 = length b1"
      "\<forall>j < length b1. bb_w * bb_h \<le> j \<longrightarrow> b2 ! j = b1 ! j"
      "\<forall>px < bb_w. \<forall>py < bb_h. b2 ! (py * bb_w + px) =
           (if x \<le> px \<and> px < x + n \<and> y + 1 \<le> py \<and> py < y + 1 + k then wl_img v ! (py * wl_w v + px) else b1 ! (py * bb_w + px))"
    using Suc.IH [of "y + 1" b1] Suc.prems cap by auto
  have "b2 ! j = bb ! j" if "j < length bb" "bb_w * bb_h \<le> j" for j
    using that b2(3) b1(2,3) dst by simp
  moreover have "b2 ! (py * bb_w + px) =
      (if x \<le> px \<and> px < x + n \<and> y \<le> py \<and> py < y + Suc k then wl_img v ! (py * wl_w v + px) else bb ! (py * bb_w + px))"
    if p: "px < bb_w" "py < bb_h" for px py
  proof -
    have "py * bb_w + px + 1 \<le> bb_h * bb_w" by (rule copy_row_bounds) (use p in simp_all)
    then have j: "py * bb_w + px < length bb" using Suc.prems(3) by (simp add: mult.commute)
    have "y * wl_w v + x + (y * bb_w + px - (y * bb_w + x)) = y * wl_w v + px" if "x \<le> px" using that by simp
    then have one: "b1 ! (py * bb_w + px) = (if py = y \<and> x \<le> px \<and> px < x + n then wl_img v ! (py * wl_w v + px) else bb ! (py * bb_w + px))"
      using b1(3) j row_range [OF x(2) p(1), of y py] by auto
    show ?thesis using b2(4) p one by auto
  qed
  ultimately show ?case using b1(1,2) b2(1,2) by auto
qed auto

lemma wallpaper_render_spec:
  assumes img: "length (wl_img v) = wl_w v * wl_h v" and bb: "bb_w * bb_h \<le> length bb"
    and region: "0 \<le> x0" "x1 \<le> int bb_w" "0 \<le> y0" "y1 \<le> int bb_h"
  shows "\<exists>bb'. wallpaper_render (Some v) bb bb_w x0 y0 x1 y1 = Some bb' \<and> length bb' = length bb
    \<and> (\<forall>j < length bb. bb_w * bb_h \<le> j \<longrightarrow> bb' ! j = bb ! j)
    \<and> (\<forall>px < bb_w. \<forall>py < bb_h. bb' ! (py * bb_w + px) =
         (if x0 \<le> int px \<and> int px < x1 \<and> y0 \<le> int py \<and> int py < y1 \<and> px < wl_w v \<and> py < wl_h v
          then wl_img v ! (py * wl_w v + px) else bb ! (py * bb_w + px)))"
proof -
  define a where "a = min x1 (int (wl_w v))"
  define b where "b = min y1 (int (wl_h v))"
  have run: "wallpaper_render (Some v) bb bb_w x0 y0 x1 y1 =
      (if a \<le> x0 \<or> b \<le> y0 then Some bb else copy_rows v bb_w (nat y0) (nat x0) (nat (b - y0)) (nat (a - x0)) bb)"
    using region by (simp add: wallpaper_render_def Let_def a_def b_def min_def)
  have cond: "(x0 \<le> int px \<and> int px < x1 \<and> y0 \<le> int py \<and> int py < y1 \<and> px < wl_w v \<and> py < wl_h v)
      \<longleftrightarrow> (x0 \<le> int px \<and> int px < a \<and> y0 \<le> int py \<and> int py < b)" for px py
    by (auto simp: a_def b_def)
  show ?thesis
  proof (cases "a \<le> x0 \<or> b \<le> y0")
    case True
    then show ?thesis unfolding run cond by auto
  next
    case False
    have ints: "int (nat x0) = x0" "int (nat y0) = y0" "int (nat (a - x0)) = a - x0" "int (nat (b - y0)) = b - y0"
      using False region by auto
    have sums: "int (nat x0 + nat (a - x0)) = a" "int (nat y0 + nat (b - y0)) = b" using ints by simp_all
    have le: "a \<le> int (wl_w v)" "a \<le> int bb_w" "b \<le> int (wl_h v)" "b \<le> int bb_h" using region by (auto simp: a_def b_def)
    have fit: "nat x0 + nat (a - x0) \<le> wl_w v" "nat x0 + nat (a - x0) \<le> bb_w" "nat y0 + nat (b - y0) \<le> wl_h v" "nat y0 + nat (b - y0) \<le> bb_h"
      using sums le by linarith+
    have c2: "(x0 \<le> int px \<and> int px < a \<and> y0 \<le> int py \<and> int py < b)
        \<longleftrightarrow> (nat x0 \<le> px \<and> px < nat x0 + nat (a - x0) \<and> nat y0 \<le> py \<and> py < nat y0 + nat (b - y0))" for px py
      using ints by linarith
    from copy_rows_spec [OF img fit(1,2,3,4) bb] show ?thesis unfolding run cond c2 using False by simp
  qed
qed

text \<open>The wallpaper is copied exactly: a region of the screen gets the image's pixels where the image has any, and
  no other pixel of the backbuffer changes. A region outside a smaller image is not painted at all.\<close>

theorem wallpaper_render_exact:
  assumes img: "length (wl_img v) = wl_w v * wl_h v" and bb: "bb_w * bb_h \<le> length bb"
    and region: "0 \<le> x0" "x1 \<le> int bb_w" "0 \<le> y0" "y1 \<le> int bb_h"
  shows "\<exists>bb'. wallpaper_render (Some v) bb bb_w x0 y0 x1 y1 = Some bb' \<and> length bb' = length bb
    \<and> (\<forall>j < length bb. bb_w * bb_h \<le> j \<longrightarrow> bb' ! j = bb ! j)
    \<and> (\<forall>px < bb_w. \<forall>py < bb_h. bb' ! (py * bb_w + px) =
         (if x0 \<le> int px \<and> int px < x1 \<and> y0 \<le> int py \<and> int py < y1 \<and> px < wl_w v \<and> py < wl_h v
          then wl_img v ! (py * wl_w v + px) else bb ! (py * bb_w + px)))"
  by (rule wallpaper_render_spec [OF assms])

theorem wallpaper_render_exact_witness:
  "\<exists>bb'. wallpaper_render (Some \<lparr>wl_img = [7], wl_w = 1, wl_h = 1\<rparr>) [1, 2, 3, 4] 2 0 0 2 2 = Some bb' \<and> bb' ! 0 = 7 \<and> bb' ! 3 = 4"
proof -
  let ?v = "\<lparr>wl_img = [7], wl_w = 1, wl_h = 1\<rparr> :: wall" and ?bb = "[1, 2, 3, 4] :: u32 list"
  have h: "length (wl_img ?v) = wl_w ?v * wl_h ?v" "2 * 2 \<le> length ?bb" "(0 :: int) \<le> 0" "2 \<le> int 2" by simp_all
  from wallpaper_render_exact [OF h(1,2,3,4,3,4)] obtain bb' where b: "wallpaper_render (Some ?v) ?bb 2 0 0 2 2 = Some bb'"
    "\<And>px py. px < 2 \<Longrightarrow> py < 2 \<Longrightarrow> bb' ! (py * 2 + px) =
       (if 0 \<le> int px \<and> int px < 2 \<and> 0 \<le> int py \<and> int py < 2 \<and> px < wl_w ?v \<and> py < wl_h ?v
        then wl_img ?v ! (py * wl_w ?v + px) else ?bb ! (py * 2 + px))"
    by auto
  show ?thesis using b(1) b(2) [of 0 0] b(2) [of 1 1] by simp
qed

text \<open>The set-up ends on every module below 4 GiB, and an image that it keeps has width times height pixels.\<close>

lemma wallpaper_init_ok:
  assumes "png_env_ok e" "\<And>ms m f. mods = Some ms \<Longrightarrow> m \<in> set ms \<Longrightarrow> wm_data m = Some f \<Longrightarrow> length f < 2 ^ 32"
  shows "\<exists>r. wallpaper_init e mods = Some r \<and> (\<forall>v. r = Some v \<longrightarrow> length (wl_img v) = wl_w v * wl_h v)"
proof (cases mods)
  case (Some ms)
  let ?f = "find (\<lambda>m. path_contains (module_path m) (map of_char ''wallpaper'')) ms"
  show ?thesis
  proof (cases ?f)
    case None
    then show ?thesis unfolding wallpaper_init_def Some by simp
  next
    case f: (Some m)
    then have m: "m \<in> set ms" by (auto simp: find_Some_iff)
    show ?thesis
    proof (cases "wm_data m")
      case None
      then show ?thesis unfolding wallpaper_init_def Some using f by simp
    next
      case d: (Some content)
      obtain r where r: "png_decode e content = Some r" "png_result_ok r" using png_decode_ok [OF assms(1) assms(2) [OF Some m d]] by blast
      then show ?thesis unfolding wallpaper_init_def Some using f d by (auto simp: png_result_ok_def)
    qed
  qed
qed (simp add: wallpaper_init_def)

end
