(* ===== verification/Desktop_Paint.thy ===== *)
theory Desktop_Paint
  imports Desktop_Windows Desktop_Gfx Wallpaper
begin

unbundle bit_operations_syntax

text \<open>
  The drawing of \<^verbatim>\<open>kernel/desktop.c\<close>: every routine that draws a part of the scene is a function to the list of
  its calls of the primitives, in their order; \<open>None\<close> is a read outside an array or a store outside a text
  buffer. \<open>scene_region\<close> runs the calls on the backbuffer under the clip. The clock is a parameter that does
  not change while a scene is drawn.
\<close>

section \<open>Calls of the primitives\<close>

datatype draw =
    Fill int int int int u32
  | Box int int int int u32
  | Glyph int int u8 u32
  | Text int int bytes u32
  | Scaled int int bytes u32 int

definition FONT_W :: int where "FONT_W = 8"

text \<open>A string that ends inside its array.\<close>

definition c_text :: "bytes \<Rightarrow> bytes option" where
  "c_text b = (if 0 \<in> set b then Some (takeWhile (\<lambda>c. c \<noteq> 0) b) else None)"

text \<open>Characters drawn one by one, each a cell further.\<close>

definition glyph_run :: "int \<Rightarrow> int \<Rightarrow> bytes \<Rightarrow> u32 \<Rightarrow> draw list" where
  "glyph_run x y cs fg = map (\<lambda>(i, c). Glyph (x + int i * FONT_W) y c fg) (enumerate 0 cs)"

definition text_w :: "string \<Rightarrow> int" where
  "text_w s = int (length s) * FONT_W"

definition label :: "int \<Rightarrow> int \<Rightarrow> string \<Rightarrow> u32 \<Rightarrow> draw" where
  "label x y s fg = Text x y (lit s) fg"

section \<open>Palette\<close>

definition TASKBAR_BG :: u32 where "TASKBAR_BG = 0x001F2A3C"
definition TASKBAR_EDGE :: u32 where "TASKBAR_EDGE = 0x00F5A623"
definition START_BG :: u32 where "START_BG = 0x00F5A623"
definition START_TEXT :: u32 where "START_TEXT = 0x001B2A4A"
definition CLOCK_TEXT :: u32 where "CLOCK_TEXT = 0x00FFFFFF"
definition TASKBAR_BTN_BG :: u32 where "TASKBAR_BTN_BG = 0x00313E55"
definition TASKBAR_BTN_ACT :: u32 where "TASKBAR_BTN_ACT = 0x00F5A623"
definition TASKBAR_BTN_TEXT :: u32 where "TASKBAR_BTN_TEXT = 0x00FFFFFF"
definition TASKBAR_BTN_TACT :: u32 where "TASKBAR_BTN_TACT = 0x001B2A4A"
definition WIN_BORDER :: u32 where "WIN_BORDER = 0x000B1119"
definition TITLE_ACTIVE :: u32 where "TITLE_ACTIVE = 0x00F5A623"
definition TITLE_ACT_TEXT :: u32 where "TITLE_ACT_TEXT = 0x001B2A4A"
definition TITLE_INACT :: u32 where "TITLE_INACT = 0x00505E6E"
definition TITLE_INACT_TEXT :: u32 where "TITLE_INACT_TEXT = 0x00FFFFFF"
definition BTN_BG_ACT :: u32 where "BTN_BG_ACT = 0x00D98E17"
definition BTN_BG_INACT :: u32 where "BTN_BG_INACT = 0x00424F5E"
definition BTN_GLYPH :: u32 where "BTN_GLYPH = 0x00FFFFFF"
definition BODY_BG :: u32 where "BODY_BG = 0x00F4F6F9"
definition BODY_TEXT :: u32 where "BODY_TEXT = 0x001B2A4A"
definition TERM_BG :: u32 where "TERM_BG = 0x00131720"
definition TERM_TEXT :: u32 where "TERM_TEXT = 0x00FFFFFF"
definition NOTEPAD_BG :: u32 where "NOTEPAD_BG = 0x00FAFAFA"
definition NOTEPAD_TEXT :: u32 where "NOTEPAD_TEXT = 0x001B2A4A"
definition NOTEPAD_LINE_NUM :: u32 where "NOTEPAD_LINE_NUM = 0x00808080"
definition CURSOR_OUTLINE :: u32 where "CURSOR_OUTLINE = 0x00000000"
definition CURSOR_FILL :: u32 where "CURSOR_FILL = 0x00FFFFFF"

section \<open>Icons, taskbar and start menu\<close>

definition icon_draw :: "draw list" where
  "icon_draw =
     concat (map (\<lambda>i. let ic = g_icons ! i; ix = ICON_X0; iy = ICON_Y0 + int i * ICON_ROW_STEP in
         [Fill ix iy ICON_W ICON_H WIN_BORDER, Fill (ix + 2) (iy + 2) (ICON_W - 4) (ICON_H - 4) (ic_color ic),
          Glyph (ix + (ICON_W - FONT_W) div 2) (iy + (ICON_H - FONT_H) div 2) (ic_glyph ic) 0x00FFFFFF,
          label (ix + (ICON_W - text_w (ic_label ic)) sdiv 2) (iy + ICON_H + 6) (ic_label ic) 0x00FFFFFF])
       [0 ..< length g_icons])"

text \<open>What a window's title points to: a constant, the name of a file, or the notepad's own title.\<close>

definition title_text :: "desk \<Rightarrow> win \<Rightarrow> bytes option" where
  "title_text d w =
     (if w_kind w = 3 \<and> np_own_title (w_np w) then c_text (np_title (w_np w))
      else case w_title w of Title s \<Rightarrow> Some (lit s) | File_Name k \<Rightarrow> do { f \<leftarrow> rd (dk_fs d) k; c_text (ff_name f) })"

fun task_buttons :: "desk \<Rightarrow> nat \<Rightarrow> nat \<Rightarrow> win list \<Rightarrow> draw list option" where
  "task_buttons d i slot [] = Some []"
| "task_buttons d i slot (w # ws) =
     (if \<not> w_used w then task_buttons d (i + 1) slot ws
      else do { t \<leftarrow> title_text d w;
                rest \<leftarrow> task_buttons d (i + 1) (slot + 1) ws;
                (let active = win_is_topmost i d; bx = task_btn_x slot; by = start_y d in
                 Some ([Fill bx by TASK_WIN_W TASK_WIN_H (if active then TASKBAR_BTN_ACT else TASKBAR_BTN_BG),
                        Text (bx + 8) (by + (TASK_WIN_H - FONT_H) div 2) t
                          (if active then TASKBAR_BTN_TACT else TASKBAR_BTN_TEXT)] @ rest)) })"

definition CLOCK_MARGIN :: int where "CLOCK_MARGIN = 16"

definition render_taskbar :: "rtc_datetime option \<Rightarrow> desk \<Rightarrow> draw list option" where
  "render_taskbar now d =
     (let y = int (dk_gh d) - TASKBAR_H; gw = int (dk_gw d) in
      do { btns \<leftarrow> task_buttons d 0 0 (dk_wins d);
           buf \<leftarrow> build_clock_str now;
           clock \<leftarrow> c_text buf;
           Some ([Fill 0 y gw TASKBAR_H TASKBAR_BG, Fill 0 y gw 1 TASKBAR_EDGE,
                  Fill start_x (start_y d) START_W START_H START_BG,
                  label (start_x + 12) (start_y d + (START_H - FONT_H) div 2) ''Start'' START_TEXT] @ btns
                 @ [Text (gw - CLOCK_MARGIN - int (length clock) * FONT_W) (y + (TASKBAR_H - FONT_H) div 2) clock CLOCK_TEXT]) })"

text \<open>The second's tick draws the clock alone.\<close>

definition render_clock :: "rtc_datetime option \<Rightarrow> desk \<Rightarrow> (draw list \<times> desk) option" where
  "render_clock now d =
     do { buf \<leftarrow> build_clock_str now;
          clock \<leftarrow> c_text buf;
          (let tw = int (length clock) * FONT_W; x = int (dk_gw d) - CLOCK_MARGIN - tw;
               y = int (dk_gh d) - TASKBAR_H + (TASKBAR_H - FONT_H) div 2 in
           Some ([Fill (x - 8) (int (dk_gh d) - TASKBAR_H + 4) (tw + 2 * 8) (TASKBAR_H - 8) TASKBAR_BG, Text x y clock CLOCK_TEXT],
                 note_damage (x - 8) (int (dk_gh d) - TASKBAR_H + 4) (tw + 2 * 8) (TASKBAR_H - 8) d)) }"

definition render_start_menu :: "desk \<Rightarrow> draw list" where
  "render_start_menu d =
     (let mx = menu_x; my = menu_y d in
      [Fill mx my MENU_W menu_h TASKBAR_BG, Box mx my MENU_W menu_h WIN_BORDER]
      @ concat (map (\<lambda>i. let iy = my + MENU_PAD + int i * MENU_ITEM_H; ty = iy + (MENU_ITEM_H - 6 - FONT_H) div 2 in
            [Fill (mx + MENU_PAD) iy (MENU_W - 2 * MENU_PAD) (MENU_ITEM_H - 6) TASKBAR_BTN_BG,
             Glyph (mx + MENU_PAD + 8) ty (ic_glyph (g_icons ! i)) 0x00FFFFFF,
             label (mx + MENU_PAD + 30) ty (ic_label (g_icons ! i)) CLOCK_TEXT])
          [0 ..< length g_icons]))"

section \<open>The terminal\<close>

definition TERM_ROW_H :: int where "TERM_ROW_H = 10"

text \<open>A row of the scrollback: its characters up to the end of the string, at most \<open>cols\<close> of them.\<close>

fun row_text :: "nat \<Rightarrow> bytes \<Rightarrow> bytes option" where
  "row_text 0 s = Some []"
| "row_text (Suc n) [] = None"
| "row_text (Suc n) (c # s) = (if c = 0 then Some [] else map_option ((#) c) (row_text n s))"

fun term_rows :: "bytes list \<Rightarrow> nat \<Rightarrow> nat \<Rightarrow> nat \<Rightarrow> int \<Rightarrow> int \<Rightarrow> draw list option" where
  "term_rows rows from 0 cols x y = Some []"
| "term_rows rows from (Suc n) cols x y =
     do { s \<leftarrow> rd rows from; t \<leftarrow> row_text cols s; rest \<leftarrow> term_rows rows (from + 1) n cols x (y + TERM_ROW_H);
          Some (glyph_run x y t TERM_TEXT @ rest) }"

definition term_render :: "desk \<Rightarrow> win \<Rightarrow> bool \<Rightarrow> draw list option" where
  "term_render d w active =
     (let bx = w_x w + 1; by = w_y w + 1 + TITLE_H; bw = w_w w - 2; bh = w_h w - 2 - TITLE_H;
          rows = max 2 ((bh - 2) sdiv TERM_ROW_H);
          cols = min (max 8 ((bw - 8) sdiv FONT_W)) (int TERM_LINE_MAX - 1);
          tx = bx + 4; ty = by + 2; sb = rows - 1; t = w_tm w;
          from = max 0 (int (tm_len t) - sb - int (tm_scroll t));
          iy = ty + sb * TERM_ROW_H; prompt = take (nat cols) (lit TERM_PROMPT) in
      do { ls \<leftarrow> term_rows (tm_lines t) (nat from) (nat sb) (nat cols) tx ty;
           typed \<leftarrow> rd_range (ln_buf (tm_input t)) 0 (min (ln_len (tm_input t)) (nat cols - length prompt));
           Some ([Fill bx by bw bh TERM_BG] @ ls @ glyph_run tx iy prompt TERM_TEXT
                 @ glyph_run (tx + int (length prompt) * FONT_W) iy typed TERM_TEXT
                 @ (if active \<and> odd (dk_last_sec d)
                    then [Fill (tx + (int (length prompt) + int (ln_cur (tm_input t))) * FONT_W) (iy + FONT_H + 1) FONT_W 2 TERM_TEXT]
                    else [])) })"

section \<open>The browser's pages\<close>

definition g_days_full :: "string list" where
  "g_days_full = [''Sunday'', ''Monday'', ''Tuesday'', ''Wednesday'', ''Thursday'', ''Friday'', ''Saturday'']"

definition month_offsets :: "int list" where
  "month_offsets = [0, 3, 2, 5, 0, 3, 5, 1, 4, 6, 2, 4]"

text \<open>Divisions of C truncate; a month outside the table reads outside it.\<close>

definition day_of_week :: "int \<Rightarrow> int \<Rightarrow> int \<Rightarrow> int option" where
  "day_of_week y m d =
     (let y = (if m < 3 then y - 1 else y) in
      if m < 1 then None
      else do { t \<leftarrow> rd month_offsets (nat (m - 1));
                Some ((y + y sdiv 4 - y sdiv 100 + y sdiv 400 + t + d) smod 7) })"

definition no_time :: rtc_datetime where
  "no_time = \<lparr>dt_year = 0, dt_month = 0, dt_day = 0, dt_hour = 0, dt_minute = 0, dt_second = 0\<rparr>"

definition build_ist_datetime :: "rtc_datetime option \<Rightarrow> (rtc_datetime \<times> int) option" where
  "build_ist_datetime now =
     (case now of
        Some dt \<Rightarrow> do { dow \<leftarrow> day_of_week (dt_year dt) (dt_month dt) (dt_day dt); Some (dt, dow) }
      | None \<Rightarrow> Some (no_time, 0))"

definition long_date :: "rtc_datetime \<Rightarrow> int \<Rightarrow> bytes" where
  "long_date dt dow =
     (if 0 \<le> dow \<and> dow \<le> 6 then lit (g_days_full ! nat dow) else lit ''???'') @ lit '', '' @ put_digits (dt_day dt) 2 @ lit '' ''
     @ month_name (dt_month dt) @ lit '' '' @ put_digits (dt_year dt) 4"

definition browser_home :: "rtc_datetime option \<Rightarrow> int \<Rightarrow> int \<Rightarrow> int \<Rightarrow> int \<Rightarrow> draw list option" where
  "browser_home now cx py cw ph =
     (if cw < 320 \<or> ph < 220 then Some [Fill cx py cw ph 0x00FFFFFF]
      else do { (dt, dow) \<leftarrow> build_ist_datetime now;
        tbuf \<leftarrow> in_buf 24 (time_text dt);
        dbuf \<leftarrow> in_buf 32 (long_date dt dow);
        clock \<leftarrow> c_text tbuf;
        date \<leftarrow> c_text dbuf;
        (let st_y = py + 34 + 2 * FONT_H + 12;
             sw = max 120 (if cw < 560 then cw - 80 else 480);
             sb_x = cx + (cw - sw) sdiv 2; sb_y = st_y + FONT_H + 26;
             pw = min 400 (cw - 60); px0 = cx + (cw - pw) sdiv 2; py0 = sb_y + 26 + 30 in
         Some [Fill cx py cw ph 0x00FFFFFF,
               Scaled (cx + (cw - text_w ''SOL OS'' * 2) sdiv 2) (py + 34) (lit ''SOL OS'') 0x002766A8 2,
               label (cx + (cw - text_w ''Welcome to the Sol OS browser.'') sdiv 2) st_y ''Welcome to the Sol OS browser.'' 0x00607080,
               Fill sb_x sb_y sw 26 0x00F4F6F9, Box sb_x sb_y sw 26 0x00DDE2EA,
               label (sb_x + 10) (sb_y + (26 - FONT_H) sdiv 2) ''Search or type a URL...'' 0x008090A0,
               Fill px0 py0 pw 132 0x00F4F6F9, Box px0 py0 pw 132 0x00DDE2EA,
               label (px0 + (pw - text_w ''Indian Standard Time (IST)'') sdiv 2) (py0 + 10) ''Indian Standard Time (IST)'' 0x002766A8,
               Scaled (px0 + (pw - int (length clock) * FONT_W * 2) sdiv 2) (py0 + 10 + FONT_H + 10) clock 0x001B2A4A 2,
               Text (px0 + (pw - int (length date) * FONT_W) sdiv 2) (py0 + 10 + FONT_H + 10 + 2 * FONT_H + 14) date 0x00607080]) })"

text \<open>The word that is collected is drawn at a blank, at the end, or when its buffer of 64 is full; then the current
  character is dropped, blank or not.\<close>

definition WORD_MAX :: nat where "WORD_MAX = 64"

definition wrap_flush :: "int \<Rightarrow> int \<Rightarrow> u32 \<Rightarrow> int \<Rightarrow> int \<Rightarrow> bytes \<Rightarrow> draw list \<times> int \<times> int" where
  "wrap_flush x0 max_w fg x y word =
     (let ww = int (length word) * FONT_W; wrap = (word \<noteq> [] \<and> x - x0 + ww > max_w);
          x = (if wrap then x0 else x); y = (if wrap then y + FONT_H + 2 else y) in
      (if word \<noteq> [] then [Text x y word fg] else [], x + ww + FONT_W, y))"

fun wrap_chars :: "int \<Rightarrow> int \<Rightarrow> u32 \<Rightarrow> int \<Rightarrow> int \<Rightarrow> bytes \<Rightarrow> bytes \<Rightarrow> draw list \<times> int" where
  "wrap_chars x0 max_w fg x y word [] = (let (ds, x, y) = wrap_flush x0 max_w fg x y word in (ds, y))"
| "wrap_chars x0 max_w fg x y word (c # cs) =
     (if c = 32 \<or> length word = WORD_MAX - 1
      then (let (ds, x, y) = wrap_flush x0 max_w fg x y word; (rest, y) = wrap_chars x0 max_w fg x y [] cs in (ds @ rest, y))
      else wrap_chars x0 max_w fg x y (word @ [c]) cs)"

definition br_wrap_text :: "int \<Rightarrow> int \<Rightarrow> int \<Rightarrow> bytes \<Rightarrow> u32 \<Rightarrow> draw list \<times> int" where
  "br_wrap_text x y max_w s fg = wrap_chars x max_w fg x y [] s"

text \<open>Text appended to a buffer while there is room for it before the last byte.\<close>

definition push_text :: "nat \<Rightarrow> bytes \<Rightarrow> bytes \<Rightarrow> bytes" where
  "push_text n t acc = acc @ take (n - 1 - length acc) t"

definition BANNER_MAX :: nat where "BANNER_MAX = TERM_LINE_MAX + 24"

definition digit_of :: "nat \<Rightarrow> u8" where
  "digit_of v = of_nat (48 + v mod 10)"

definition web_banner :: "Desktop_Terminal.br \<Rightarrow> bytes \<Rightarrow> bytes" where
  "web_banner b site =
     (let scheme = (if br_https b then lit ''https'' else lit ''http'');
          url = (\<lambda>pre. push_text BANNER_MAX site (push_text BANNER_MAX scheme (push_text BANNER_MAX (lit pre) []) @ lit ''://'')) in
      case br_web_state b of
        BR_WEB_BUSY \<Rightarrow> url ''Loading ''
      | BR_WEB_OK \<Rightarrow> push_text BANNER_MAX (lit '' bytes'')
           (push_text BANNER_MAX (lit '' - '') (url ''Fetched '')
            @ [digit_of (br_web_len b div 1000), digit_of (br_web_len b div 100), digit_of (br_web_len b div 10), digit_of (br_web_len b)])
      | _ \<Rightarrow> push_text BANNER_MAX (lit ''Page could not be loaded'') [])"

text \<open>Tags and entities are dropped and blanks collapsed: the state is inside a tag, inside an entity, after a blank.\<close>

fun strip_html :: "nat \<Rightarrow> bool \<Rightarrow> bool \<Rightarrow> bool \<Rightarrow> nat \<Rightarrow> bytes \<Rightarrow> bytes" where
  "strip_html lim tag ent sp o_len [] = []"
| "strip_html lim tag ent sp o_len (c # cs) =
     (if \<not> o_len + 1 < lim then []
      else if c = 60 then strip_html lim True ent sp o_len cs
      else if tag then strip_html lim (c \<noteq> 62) ent sp o_len cs
      else if c = 38 then strip_html lim tag True sp o_len cs
      else if ent then strip_html lim tag (c \<noteq> 59) sp o_len cs
      else if c = 9 \<or> c = 13 \<or> c = 10 \<or> c = 32
      then (if sp then strip_html lim tag ent True o_len cs else 32 # strip_html lim tag ent True (o_len + 1) cs)
      else c # strip_html lim tag ent False (o_len + 1) cs)"

definition browser_web :: "int \<Rightarrow> int \<Rightarrow> int \<Rightarrow> Desktop_Terminal.br \<Rightarrow> draw list option" where
  "browser_web cx py cw b =
     do { site \<leftarrow> c_text (br_site_name b);
          banner \<leftarrow> in_buf BANNER_MAX (web_banner b site);
          banner \<leftarrow> c_text banner;
          (let top = [Text (cx + 16) (py + 10) banner 0x00808080, Fill (cx + 16) (py + 10 + FONT_H + 6) (cw - 32) 1 0x00E8EBF0] in
           case br_web_state b of
             BR_WEB_BUSY \<Rightarrow> Some (top @ [label (cx + 16) (py + 42) ''Fetching over the SLIRP gateway...'' 0x00404040])
           | BR_WEB_ERR \<Rightarrow> do { t \<leftarrow> c_text (br_web b); Some (top @ [Text (cx + 16) (py + 42) t 0x00C0392B]) }
           | _ \<Rightarrow> do { page \<leftarrow> rd_range (br_web b) 0 (br_web_len b);
                      text \<leftarrow> in_buf BR_WEB_MAX (strip_html BR_WEB_MAX False False True 0 page);
                      text \<leftarrow> c_text text;
                      Some (top @ fst (br_wrap_text (cx + 16) (py + 42) (cw - 32) text 0x00333333)) }) }"

definition site_para :: "string list" where
  "site_para =
     [''This is a static preview of the page you asked for.'', ''sol-os runs its own virtual network with no real'',
      ''internet access, so live content cannot load here.'', ''The address bar and tab already work; try a search'',
      ''query to see the mock results page instead.'']"

definition browser_site :: "int \<Rightarrow> int \<Rightarrow> int \<Rightarrow> int \<Rightarrow> Desktop_Terminal.br \<Rightarrow> draw list option" where
  "browser_site cx py cw ph b =
     (if cw < 320 \<or> ph < 200 then Some [Fill cx py cw ph 0x00FFFFFF]
      else if br_web_state b \<noteq> BR_WEB_IDLE
      then do { ds \<leftarrow> browser_web cx py cw b; Some (Fill cx py cw ph 0x00FFFFFF # ds) }
      else do { site \<leftarrow> c_text (br_site_name b);
        (let wm = int (length site) * FONT_W * 2; small = wm > cw - 40;
             wm = (if small then wm sdiv 2 else wm); scale = (if small then 1 else 2); pyy = py + 44 + 12 + FONT_H + 20 in
         Some ([Fill cx py cw ph 0x00FFFFFF, Fill cx py cw 44 0x002766A8,
                Scaled (cx + (cw - wm) sdiv 2) (py + (44 - FONT_H * 2) div 2) site 0x00FFFFFF scale,
                label (cx + 16) (py + 44 + 12) ''Home   About   Contact'' 0x001B2A4A]
               @ map (\<lambda>(i, s). label (cx + 16) (pyy + int i * (FONT_H + 4)) s 0x00404448) (enumerate 0 site_para)
               @ [Fill (cx + cw - 150) (py + 44 + 12) 134 20 0x00F4F6F9, Box (cx + cw - 150) (py + 44 + 12) 134 20 0x00DDE2EA,
                  label (cx + cw - 144) (py + 44 + 12 + 6) ''sol.os preview'' 0x008090A0])) })"

definition search_results :: "(string \<times> string \<times> string) list" where
  "search_results =
     [(''Sol OS - the 64-bit microkernel you can build'', ''sol-os.dev/docs'',
       ''Boots a graphical desktop in about 8 seconds, with a window''),
      (''Sol OS browser - IST clock preview'', ''sol-os.dev/browser'', ''manager, terminal emulator and this very browser.''),
      (''Virtio-net driver - source on GitHub'', ''github.com/sol-os/virtio-net'',
       ''A live Indian Standard Time clock, built on the RTC driver.''),
      (''The framebuffer compositor, explained'', ''wiki.sol-os.org/compositor'',
       ''A real virtio-net driver for ICMP echo and ARP replies.'')]"

text \<open>The results as far as they fit, a line between two of them; the second component is where the last one ends.\<close>

fun search_rows :: "int \<Rightarrow> int \<Rightarrow> int \<Rightarrow> (string \<times> string \<times> string) list \<Rightarrow> int \<Rightarrow> draw list \<times> int" where
  "search_rows cx cw bottom [] y = ([], y)"
| "search_rows cx cw bottom ((t, u, s) # rs) y =
     (if y + FONT_H * 3 > bottom then ([], y)
      else (let (ds, y2) = br_wrap_text (cx + 20) (y + 2 * (FONT_H + 2)) (cw - 40) (lit s) 0x0056514D;
                (rest, y3) = search_rows cx cw bottom rs (y2 + 14 + 10) in
        ([label (cx + 20) y t 0x00AB0D1A, label (cx + 20) (y + (FONT_H + 2)) u 0x00216600] @ ds
         @ (if rs \<noteq> [] then [Fill (cx + 20) (y2 + 14) (cw - 40) 1 0x00E8EBF0] else []) @ rest, y3)))"

definition browser_search :: "int \<Rightarrow> int \<Rightarrow> int \<Rightarrow> int \<Rightarrow> Desktop_Terminal.br \<Rightarrow> draw list option" where
  "browser_search cx py cw ph b =
     (if cw < 320 \<or> ph < 160 then Some [Fill cx py cw ph 0x00FFFFFF]
      else do { q \<leftarrow> c_text (br_site_name b);
        head \<leftarrow> in_buf (TERM_LINE_MAX + 16)
                 (push_text (TERM_LINE_MAX + 16) q (push_text (TERM_LINE_MAX + 16) (lit ''Results for \"'') []) @ [34]);
        head \<leftarrow> c_text head;
        (let y = py + 14 + FONT_H + 10; (ds, y2) = search_rows cx cw (py + ph) search_results (y + 10) in
         Some ([Fill cx py cw ph 0x00FFFFFF, Text (cx + 20) (py + 14) head 0x001B2A4A, Fill (cx + 20) y (cw - 40) 1 0x00E8EBF0] @ ds
               @ (if y2 + FONT_H < py + ph
                  then [label (cx + 20) (py + ph - FONT_H - 8) ''sol.os search - mock index, no real network'' 0x00808080] else []))) })"

section \<open>The notepad\<close>

definition NOTEPAD_ROW_H :: int where "NOTEPAD_ROW_H = 12"
definition NOTEPAD_BAR_H :: int where "NOTEPAD_BAR_H = 30"
definition NOTEPAD_STATUSBAR_H :: int where "NOTEPAD_STATUSBAR_H = 20"
definition NOTEPAD_MARGIN :: int where "NOTEPAD_MARGIN = 6"
definition NOTEPAD_LINENUM_W :: int where "NOTEPAD_LINENUM_W = 32"
definition NP_W :: int where "NP_W = 50"
definition NP_H :: int where "NP_H = 24"
definition NP_GAP :: int where "NP_GAP = 8"

text \<open>The title that is built for the toolbar is cut off at its first character: the index that terminates it is not the
  one that counted the copied characters.\<close>

definition np_toolbar_title :: "np \<Rightarrow> bytes option" where
  "np_toolbar_title n =
     do { t0 \<leftarrow> rd (np_title n) 0; f0 \<leftarrow> rd (np_fname n) 0;
          (let src = (if t0 \<noteq> 0 then np_title n else if f0 \<noteq> 0 then np_fname n else lit ''Untitled'' @ [0]) in
           do { copied \<leftarrow> row_text NOTEPAD_MAX_FNAME src;
                buf \<leftarrow> in_buf (NOTEPAD_MAX_FNAME + 4) copied;
                buf \<leftarrow> wr_range (buf @ replicate (NOTEPAD_MAX_FNAME + 4 - length buf) 0) 0
                        (if np_dirty n then lit ''* '' @ [0] else [0]);
                c_text buf }) }"

definition np_render_chrome :: "win \<Rightarrow> bool \<Rightarrow> draw list option" where
  "np_render_chrome w active =
     (let x = w_x w; bw = w_w w; n = w_np w; tx = (if active then TITLE_ACT_TEXT else TITLE_INACT_TEXT);
          bg = (if active then BTN_BG_ACT else BTN_BG_INACT); tb = w_y w + TITLE_H + 1;
          c0 = x + bw - BTN_MARGIN - NP_W; o0 = c0 - NP_W - NP_GAP; a0 = o0 - NP_W - NP_GAP; n0 = a0 - NP_W - NP_GAP;
          by = tb + (NOTEPAD_BAR_H - NP_H) div 2; ty = by + (NP_H - FONT_H) div 2 in
      do { t \<leftarrow> (if np_save_as n
                 then do { name \<leftarrow> row_text NOTEPAD_MAX_FNAME (np_save_as_buf n);
                           t \<leftarrow> in_buf (NOTEPAD_MAX_FNAME + 8) (push_text (NOTEPAD_MAX_FNAME + 7) name (lit ''Save As: ''));
                           c_text t }
                 else np_toolbar_title n);
           Some [Fill (x + 1) tb (bw - 2) NOTEPAD_BAR_H 0x00F0F4F8, Box (x + 1) tb (bw - 2) NOTEPAD_BAR_H 0x00C0C8D4,
                 Text (x + 10) (tb + (NOTEPAD_BAR_H - FONT_H) div 2) t tx,
                 Fill c0 by NP_W NP_H bg, label (c0 + 8) ty ''Save'' BTN_GLYPH,
                 Fill o0 by NP_W NP_H bg, label (o0 + 8) ty ''Open'' BTN_GLYPH,
                 Fill a0 by NP_W NP_H bg, label (a0 + 8) ty ''As'' BTN_GLYPH,
                 Fill n0 by NP_W NP_H bg, label (n0 + 8) ty ''New'' BTN_GLYPH] })"

text \<open>The end of the line that starts at \<open>i\<close>, with \<open>n\<close> characters left.\<close>

fun line_end :: "bytes \<Rightarrow> nat \<Rightarrow> nat \<Rightarrow> nat option" where
  "line_end t i 0 = Some i"
| "line_end t i (Suc n) = do { c \<leftarrow> rd t i; if c \<noteq> 10 then line_end t (i + 1) n else Some i }"

text \<open>The start of the row \<open>r\<close> rows further.\<close>

fun row_start :: "bytes \<Rightarrow> nat \<Rightarrow> nat \<Rightarrow> nat \<Rightarrow> nat option" where
  "row_start t len i 0 = Some i"
| "row_start t len i (Suc r) =
     (if i < len then do { e \<leftarrow> line_end t i (len - i); row_start t len (if e < len then e + 1 else e) r } else Some i)"

fun dec_rev :: "nat \<Rightarrow> bytes" where
  "dec_rev n = (if n < 10 then [of_nat (48 + n)] else of_nat (48 + n mod 10) # dec_rev (n div 10))"

declare dec_rev.simps [simp del]

definition dec_text :: "nat \<Rightarrow> bytes" where
  "dec_text n = rev (dec_rev n)"

fun np_lines :: "bytes \<Rightarrow> nat \<Rightarrow> nat \<Rightarrow> nat \<Rightarrow> nat \<Rightarrow> nat \<Rightarrow> int \<Rightarrow> int \<Rightarrow> int \<Rightarrow> draw list option" where
  "np_lines t len cols num 0 i bx tx ty = Some []"
| "np_lines t len cols num (Suc n) i bx tx ty =
     (if i < len
      then do { e \<leftarrow> line_end t i (len - i); digits \<leftarrow> in_buf 8 (dec_text num); digits \<leftarrow> c_text digits;
                cells \<leftarrow> rd_range t i (min (e - i) cols);
                rest \<leftarrow> np_lines t len cols (num + 1) n (e + 1) bx tx (ty + NOTEPAD_ROW_H);
                Some ([Text (bx + 4) ty digits NOTEPAD_LINE_NUM] @ glyph_run tx ty cells NOTEPAD_TEXT @ rest) }
      else Some [])"

definition np_render :: "desk \<Rightarrow> win \<Rightarrow> bool \<Rightarrow> draw list option" where
  "np_render d w active =
     (let x = w_x w; y = w_y w; n = w_np w; bx = x + 1; by = y + 1 + TITLE_H + NOTEPAD_BAR_H; bw2 = w_w w - 2;
          bh2 = w_h w - 2 - TITLE_H - NOTEPAD_BAR_H - NOTEPAD_STATUSBAR_H;
          rows = max 2 (bh2 sdiv NOTEPAD_ROW_H);
          cols = max 8 ((bw2 - NOTEPAD_LINENUM_W - NOTEPAD_MARGIN * 2) sdiv FONT_W);
          tx = bx + NOTEPAD_LINENUM_W + NOTEPAD_MARGIN; sby = y + w_h w - NOTEPAD_STATUSBAR_H in
      do { chrome \<leftarrow> np_render_chrome w active;
           cur \<leftarrow> np_cursor_row n;
           col \<leftarrow> np_cursor_col n;
           (let first = (if int cur \<ge> rows then nat (int cur - rows + 1) else 0) in
            do { from \<leftarrow> row_start (np_text n) (np_len n) 0 first;
                 ls \<leftarrow> np_lines (np_text n) (np_len n) (nat cols) (first + 1) (nat rows) from bx tx (by + 2);
                 status \<leftarrow> in_buf 48 (lit ''Ln '' @ dec_text (cur + 1) @ lit '', Col '' @ dec_text (col + 1));
                 status \<leftarrow> c_text status;
                 (let row = int cur - int first; cx = tx + int col * FONT_W; cy = by + 2 + row * NOTEPAD_ROW_H in
                  Some (chrome @ [Fill bx by bw2 bh2 NOTEPAD_BG] @ ls
                    @ (if active \<and> odd (dk_last_sec d) \<and> row \<ge> 0 \<and> row < rows \<and> cx < tx + cols * FONT_W
                       then [Fill cx cy FONT_W (NOTEPAD_ROW_H - 2) 0x00D0D8E0] else [])
                    @ [Fill (x + 1) sby bw2 NOTEPAD_STATUSBAR_H 0x00E0E4E8,
                       Text (x + 8) (sby + (NOTEPAD_STATUSBAR_H - FONT_H) div 2) status 0x00405060])) }) })"

section \<open>The file manager\<close>

text \<open>Rows that are ten pixels apart, while the height of the list is counted in rows of eight.\<close>

fun fm_entries :: "fs_file list \<Rightarrow> fm \<Rightarrow> int \<Rightarrow> int \<Rightarrow> int \<Rightarrow> nat \<Rightarrow> int \<Rightarrow> draw list option" where
  "fm_entries fs m bx bw2 i 0 ty = Some []"
| "fm_entries fs m bx bw2 i (Suc n) ty =
     (if fm_scroll m + i < fm_count fs
      then (let idx = fm_nth (fm_scroll m + i) fs in
            if idx < 0 then Some []
            else do { f \<leftarrow> rd fs (nat idx); name \<leftarrow> c_text (ff_name f);
                      size_str \<leftarrow> in_buf 16 (lit '' ('' @ dec_text (ff_len f) @ lit ''B)''); size_str \<leftarrow> c_text size_str;
                      rest \<leftarrow> fm_entries fs m bx bw2 (i + 1) n (ty + FONT_H + 2);
                      Some ((if fm_sel m = fm_scroll m + i then [Fill (bx + 2) (ty - 1) (bw2 - 4) (FONT_H + 2) 0x00D0D8E0] else [])
                            @ [Text (bx + 8) ty name BODY_TEXT, Text (bx + 8 + bw2 - 80) ty size_str 0x00808080] @ rest) })
      else Some [])"

definition fm_dialog :: "fs_file list \<Rightarrow> win \<Rightarrow> fm \<Rightarrow> draw list option" where
  "fm_dialog fs w m =
     (let dx = w_x w + (w_w w - 340) sdiv 2; dy = w_y w + (w_h w - 120) sdiv 2; idx = fm_nth (fm_confirm_idx m) fs in
      do { name \<leftarrow> (if idx \<ge> 0 then do { f \<leftarrow> rd fs (nat idx); t \<leftarrow> c_text (ff_name f); Some [Text (dx + 12) (dy + 34) t 0x00404040] }
                    else Some []);
           Some ([Fill dx dy 340 120 0x00FAFAFA, Box dx dy 340 120 0x00C0C8D4,
                  label (dx + 12) (dy + 14) ''Delete selected file?'' 0x001B2A4A] @ name
                 @ [label (dx + 12) (dy + 60) ''Press Y to confirm, N to cancel'' 0x00404040,
                    Fill (dx + 340 - BTN_MARGIN - BTN_W - 4) (dy + 120 - 36) BTN_W BTN_H 0x00D04040,
                    label (dx + 340 - BTN_MARGIN - BTN_W + 4) (dy + 120 - 30) ''No'' BTN_GLYPH,
                    Fill (dx + 12) (dy + 120 - 36) BTN_W BTN_H 0x0040A0D0,
                    label (dx + 22) (dy + 120 - 30) ''Yes'' BTN_GLYPH]) })"

definition fm_render :: "desk \<Rightarrow> win \<Rightarrow> bool \<Rightarrow> draw list option" where
  "fm_render d w active =
     (let x = w_x w; y = w_y w; bw = w_w w; bh = w_h w; fs = dk_fs d; m = fm_view (fm_rows w) (fm_count fs) (w_fm w);
          bg = (if active then BTN_BG_ACT else BTN_BG_INACT);
          c0 = x + bw - BTN_MARGIN - BTN_W; d0 = c0 - BTN_W - BTN_GAP - 8; by = y + 3;
          bx = x + 1; by2 = y + 1 + TITLE_H; bw2 = bw - 2; bh2 = bh - 2 - TITLE_H in
      do { t \<leftarrow> title_text d w;
           es \<leftarrow> fm_entries fs m bx bw2 0 (nat (fm_rows w)) (by2 + 4);
           dialog \<leftarrow> (if fm_confirming m then fm_dialog fs w m else Some []);
           Some ([Box x y bw bh WIN_BORDER, Fill (x + 1) (y + 1) (bw - 2) TITLE_H (if active then TITLE_ACTIVE else TITLE_INACT),
                  Text (x + 7) (y + (TITLE_H - FONT_H) div 2) t (if active then TITLE_ACT_TEXT else TITLE_INACT_TEXT),
                  Fill c0 by BTN_W BTN_H bg, Glyph (c0 + (BTN_W - FONT_W) div 2) (by + (BTN_H - FONT_H) div 2) 120 BTN_GLYPH,
                  Fill d0 by BTN_W BTN_H (if fm_confirming m then 0x00F0A0A0 else bg),
                  label (d0 + 4) (by + (BTN_H - FONT_H) div 2) ''Del'' BTN_GLYPH, Fill bx by2 bw2 bh2 BODY_BG] @ es
                 @ (if fm_count fs = 0 then [label (bx + 8) (by2 + bh2 sdiv 2 - FONT_H div 2) ''No files yet.'' 0x00808080] else [])
                 @ dialog) })"

section \<open>Windows\<close>

definition addr_from :: "Desktop_Terminal.br \<Rightarrow> int \<Rightarrow> int" where
  "addr_from b nfit =
     (let len = int (ln_len (br_input b)); cur = int (ln_cur (br_input b)) in
      if len > nfit
      then (let s = len - nfit; s = (if cur \<ge> s + nfit then cur - nfit + 1 else s); s = (if cur < s then cur else s) in
            if s < 0 then 0 else s)
      else 0)"

text \<open>The grip is placed by the variable that the address bar left behind, not by the window.\<close>

definition browser_render :: "rtc_datetime option \<Rightarrow> desk \<Rightarrow> win \<Rightarrow> bool \<Rightarrow> draw list option" where
  "browser_render now d w active =
     (let b = w_br w; cx = w_x w + 1; cy = w_y w + 1 + TITLE_H; cw = w_w w - 2; ch = w_h w - 2 - TITLE_H;
          tab_y = cy + 6; ntb_x = cx + 20 + 180 + 6; nav_y = cy + 30; page_y = nav_y + 34;
          ab_x = cx + 20 + 56; ab_w = cw - 20 * 2 - 56; ab_tx = ab_x + 8; ab_ty = nav_y + (24 - FONT_H) div 2 + 5;
          nfit = max 1 ((ab_w - 16) sdiv FONT_W); from = addr_from b nfit; len = ln_len (br_input b);
          shown = min (nat (int len - from)) (nat nfit); pph = cy + ch - page_y in
      do { t0 \<leftarrow> rd (br_title b) 0;
           tab \<leftarrow> (if t0 \<noteq> 0 then c_text (br_title b) else title_text d w);
           typed \<leftarrow> (if len = 0 then Some [] else rd_range (ln_buf (br_input b)) (nat from) shown);
           page \<leftarrow> (case br_page b of
                      BR_PAGE_SITE \<Rightarrow> browser_site cx page_y cw pph b
                    | BR_PAGE_SEARCH \<Rightarrow> browser_search cx page_y cw pph b
                    | BR_PAGE_HOME \<Rightarrow> browser_home now cx page_y cw pph);
           (let x_end = ab_tx + int (length typed) * FONT_W;
                caret = ab_tx + (int (ln_cur (br_input b)) - from) * FONT_W; gr = x_end + w_w w - 12; gb = w_y w + w_h w - 12 in
            Some ([Fill cx cy cw ch 0x00E8EBF0, Fill (cx + 20) tab_y 180 24 0x00FFFFFF, Fill ntb_x tab_y 26 24 0x00DDE2EA,
                   Fill (ntb_x + 9) (tab_y + 24 div 2 - 1) 8 2 0x008090A0, Fill (ntb_x + 12) (tab_y + 4) 2 16 0x008090A0,
                   Text (cx + 20 + 7) (tab_y + (24 - FONT_H) div 2) tab BODY_TEXT, Fill cx nav_y cw 34 0x00F4F6F9,
                   Fill (cx + 20) (nav_y + 5) 24 24 0x00FFFFFF, Fill (cx + 20 + 26) (nav_y + 5) 24 24 0x00FFFFFF,
                   Glyph (cx + 20 + 8) (nav_y + (24 - FONT_H) div 2 + 5) 60 0x00A0A8B4,
                   Glyph (cx + 20 + 34) (nav_y + (24 - FONT_H) div 2 + 5) 62 0x00A0A8B4, Fill ab_x (nav_y + 5) ab_w 24 0x00FFFFFF]
                  @ (if len = 0 then [label ab_tx ab_ty ''Search or type a URL...'' 0x008090A0] else glyph_run ab_tx ab_ty typed 0x001B2A4A)
                  @ (if active \<and> odd (dk_last_sec d) \<and> caret < ab_tx + ab_w - 16 then [Fill caret (ab_ty + 1) 1 FONT_H 0x001B2A4A] else [])
                  @ page
                  @ (if \<not> w_max w
                     then [Fill gr (gb + 8) 10 2 0x00C0C8D4, Fill (gr + 4) (gb + 4) 10 2 0x00C0C8D4, Fill (gr + 8) gb 10 2 0x00C0C8D4]
                     else []))) })"

definition info_render :: "win \<Rightarrow> draw list" where
  "info_render w =
     (let x = w_x w; y = w_y w; gr = x + w_w w - 12; gb = y + w_h w - 12; ly = y + 1 + TITLE_H + 6 in
      [Fill (x + 1) (y + 1 + TITLE_H) (w_w w - 2) (w_h w - 2 - TITLE_H) BODY_BG]
      @ map (\<lambda>(i, s). label (x + 8) (ly + int i * (FONT_H + 4)) s BODY_TEXT) (enumerate 0 (take MAX_WIN_LINES (w_lines w)))
      @ (if \<not> w_max w
         then [Fill gr (gb + 8) 8 2 0x00C0C8D4, Fill (gr + 4) (gb + 4) 8 2 0x00C0C8D4, Fill (gr + 8) gb 4 2 0x00C0C8D4] else []))"

definition win_frame :: "win \<Rightarrow> bytes \<Rightarrow> bool \<Rightarrow> draw list" where
  "win_frame w title active =
     (let x = w_x w; y = w_y w; bw = w_w w; bg = (if active then BTN_BG_ACT else BTN_BG_INACT);
          c0 = x + bw - BTN_MARGIN - BTN_W; m0 = c0 - BTN_W - BTN_GAP; n0 = m0 - BTN_W - BTN_GAP; by = y + 3;
          gx = m0 + (BTN_W - 12) div 2; gy = by + (BTN_H - 10) div 2 in
      [Box x y bw (w_h w) WIN_BORDER, Fill (x + 1) (y + 1) (bw - 2) TITLE_H (if active then TITLE_ACTIVE else TITLE_INACT),
       Text (x + 7) (y + (TITLE_H - FONT_H) div 2) title (if active then TITLE_ACT_TEXT else TITLE_INACT_TEXT),
       Fill c0 by BTN_W BTN_H bg, Fill m0 by BTN_W BTN_H bg, Fill n0 by BTN_W BTN_H bg,
       Fill (n0 + (BTN_W - 12) div 2) (by + BTN_H div 2 - 1) 12 2 BTN_GLYPH,
       Fill gx gy 12 1 BTN_GLYPH, Fill gx (gy + 9) 12 1 BTN_GLYPH, Fill gx (gy + 1) 1 8 BTN_GLYPH, Fill (gx + 11) (gy + 1) 1 8 BTN_GLYPH,
       Glyph (c0 + (BTN_W - FONT_W) div 2) (by + (BTN_H - FONT_H) div 2) 120 BTN_GLYPH])"

definition win_render :: "rtc_datetime option \<Rightarrow> desk \<Rightarrow> nat \<Rightarrow> draw list option" where
  "win_render now d i =
     do { w \<leftarrow> rd (dk_wins d) i;
          t0 \<leftarrow> rd (np_title (w_np w)) 0;
          title \<leftarrow> (if w_kind w = 3 \<and> t0 \<noteq> 0 then c_text (np_title (w_np w)) else title_text d w);
          body \<leftarrow> (let active = win_is_topmost i d in
             if w_kind w = 1 then term_render d w active
             else if w_kind w = 2 then browser_render now d w active
             else if w_kind w = 3 then np_render d w active
             else if w_kind w = 4 then fm_render d w active
             else Some (info_render w));
          Some (win_frame w title (win_is_topmost i d) @ body) }"

section \<open>The scene\<close>

text \<open>The font, the wallpaper and the clock that a scene is drawn with.\<close>

record painter =
  pt_font :: "bytes list"
  pt_wall :: "wall option"
  pt_now :: "rtc_datetime option"

text \<open>The visible windows by their order, by insertion from the end.\<close>

definition insert_win :: "win list \<Rightarrow> nat \<Rightarrow> nat list \<Rightarrow> nat list" where
  "insert_win ws i s =
     (let later = (\<lambda>j. w_order (ws ! j) > w_order (ws ! i)) in
      rev (dropWhile later (rev s)) @ [i] @ rev (takeWhile later (rev s)))"

definition sorted_wins :: "desk \<Rightarrow> nat list" where
  "sorted_wins d =
     fold (\<lambda>i s. if visible_win (dk_wins d ! i) then insert_win (dk_wins d) i s else s) [0 ..< length (dk_wins d)] []"

text \<open>The windows in turn; a file manager that is drawn is also brought into range.\<close>

fun render_wins :: "rtc_datetime option \<Rightarrow> rect \<Rightarrow> nat list \<Rightarrow> desk \<Rightarrow> (draw list \<times> desk) option" where
  "render_wins now r [] d = Some ([], d)"
| "render_wins now r (i # is) d =
     (let (x, y, w, h) = r in
      do { hit \<leftarrow> win_rect_intersects (dk_wins d ! i) x y w h;
           if \<not> hit then render_wins now r is d
           else do { ds \<leftarrow> win_render now d i;
                     (rest, d) \<leftarrow> render_wins now r is (upd_win i (view_win d x y w h) d);
                     Some (ds @ rest, d) } })"

text \<open>The test of an open start menu against a region, with its signed sums.\<close>

definition menu_meets :: "desk \<Rightarrow> rect \<Rightarrow> bool option" where
  "menu_meets d = (\<lambda>(x, y, w, h).
     if \<not> dk_menu d \<or> \<not> x < menu_x + MENU_W then Some False
     else do { r \<leftarrow> sadd x w;
          if \<not> menu_x < r \<or> \<not> y < menu_y d + menu_h then Some False
          else do { b \<leftarrow> sadd y h; Some (menu_y d < b) } })"

definition scene_draws :: "rtc_datetime option \<Rightarrow> rect \<Rightarrow> int \<Rightarrow> desk \<Rightarrow> (draw list \<times> desk) option" where
  "scene_draws now r y1 d =
     do { (ds, d) \<leftarrow> render_wins now r (sorted_wins d) d;
          bar \<leftarrow> (if y1 > work_h d then render_taskbar now d else Some []);
          menu \<leftarrow> menu_meets d r;
          Some (icon_draw @ ds @ bar @ (if menu then render_start_menu d else []), d) }"

fun scaled_cells :: "bytes \<Rightarrow> int \<Rightarrow> int \<Rightarrow> u32 \<Rightarrow> int \<Rightarrow> (nat \<times> nat) list \<Rightarrow> gfx \<Rightarrow> gfx option" where
  "scaled_cells glyph x y fg k [] g = Some g"
| "scaled_cells glyph x y fg k ((row, col) # cs) g =
     do { bits \<leftarrow> rd glyph row;
          g \<leftarrow> (if bit bits col then do { px \<leftarrow> sadd x (int col * k); py \<leftarrow> sadd y (int row * k); bb_fill_rect px py k k fg g } else Some g);
          scaled_cells glyph x y fg k cs g }"

fun bb_draw_string_scaled :: "bytes list \<Rightarrow> int \<Rightarrow> int \<Rightarrow> bytes \<Rightarrow> u32 \<Rightarrow> int \<Rightarrow> gfx \<Rightarrow> gfx option" where
  "bb_draw_string_scaled font x y [] fg k g = Some g"
| "bb_draw_string_scaled font x y (c # cs) fg k g =
     do { glyph \<leftarrow> rd font (unat c); g \<leftarrow> scaled_cells glyph x y fg (max 1 k) glyph_cells g;
          x \<leftarrow> sadd x (FONT_W * max 1 k); bb_draw_string_scaled font x y cs fg k g }"

fun run_draw :: "bytes list \<Rightarrow> draw \<Rightarrow> gfx \<Rightarrow> gfx option" where
  "run_draw font (Fill x y w h c) g = bb_fill_rect x y w h c g"
| "run_draw font (Box x y w h c) g = bb_draw_rect x y w h c g"
| "run_draw font (Glyph x y c fg) g = bb_draw_char font x y c fg g"
| "run_draw font (Text x y s fg) g = map_option snd (bb_draw_string font x y s fg g)"
| "run_draw font (Scaled x y s fg k) g = bb_draw_string_scaled font x y s fg k g"

fun run_draws :: "bytes list \<Rightarrow> draw list \<Rightarrow> gfx \<Rightarrow> gfx option" where
  "run_draws font [] g = Some g"
| "run_draws font (a # as) g = do { g \<leftarrow> run_draw font a g; run_draws font as g }"

definition scene_background :: "wall option \<Rightarrow> bounds \<Rightarrow> gfx \<Rightarrow> gfx option" where
  "scene_background v = (\<lambda>(x0, y0, x1, y1) g.
     do { bb \<leftarrow> (if v \<noteq> None then wallpaper_render v (gx_bb g) (gx_w g) x0 y0 x1 y1
                else bb_spans (gx_w g) (nat y0) (nat x0) (nat (y1 - y0)) (nat (x1 - x0))
                       (\<lambda>yy. gradient_color (of_nat yy) (of_nat (gx_h g))) (gx_bb g));
          Some (g\<lparr>gx_bb := bb\<rparr>) })"

definition scene_region :: "painter \<Rightarrow> rect \<Rightarrow> gfx \<times> desk \<Rightarrow> (gfx \<times> desk) option" where
  "scene_region p r = (\<lambda>(g, d).
     (let (x, y, w, h) = r in
      do { c \<leftarrow> bb_clip x y w h g;
           case c of
             None \<Rightarrow> Some (g, d)
           | Some (x0, y0, x1, y1) \<Rightarrow>
               do { g1 \<leftarrow> scene_background (pt_wall p) (x0, y0, x1, y1) (g\<lparr>gx_clip_on := True, gx_clip := (x0, y0, x1, y1)\<rparr>);
                    (ds, d) \<leftarrow> scene_draws (pt_now p) r y1 d;
                    g1 \<leftarrow> run_draws (pt_font p) ds g1;
                    Some (g1\<lparr>gx_clip_on := gx_clip_on g, gx_clip := gx_clip g\<rparr>, d) } }))"

text \<open>\<^verbatim>\<open>redraw_rect\<close> on the pixels.\<close>

definition compose_rect :: "painter \<Rightarrow> rect \<Rightarrow> gfx \<times> desk \<Rightarrow> (gfx \<times> desk) option" where
  "compose_rect p r s =
     (let (x, y, w, h) = r in do { (g, d) \<leftarrow> scene_region p r s; g \<leftarrow> damage_add x y w h g; Some (g, d) })"

section \<open>The cursor and the frame\<close>

definition cursor_bmp :: "nat list list" where
  "cursor_bmp =
     [[1,0,0,0,0,0,0,0,0,0,0,0],
      [1,1,0,0,0,0,0,0,0,0,0,0],
      [1,1,1,0,0,0,0,0,0,0,0,0],
      [1,2,2,1,0,0,0,0,0,0,0,0],
      [1,2,2,2,1,0,0,0,0,0,0,0],
      [1,2,2,2,2,1,0,0,0,0,0,0],
      [1,2,2,2,2,2,1,0,0,0,0,0],
      [1,2,2,2,2,2,2,1,0,0,0,0],
      [1,2,2,2,2,2,2,2,1,0,0,0],
      [1,2,2,2,2,2,2,2,2,1,0,0],
      [1,2,2,2,2,2,2,2,2,2,1,0],
      [1,2,2,2,2,2,2,2,2,2,2,1],
      [1,2,2,2,2,2,2,2,2,2,2,1],
      [1,2,2,2,2,2,2,2,2,2,2,1],
      [1,2,2,2,2,2,2,2,2,2,2,1],
      [1,2,2,2,2,2,2,2,2,2,2,1],
      [0,0,0,1,2,2,2,2,2,2,2,1],
      [0,0,0,0,1,2,2,2,2,2,1,0],
      [0,0,0,0,0,1,2,2,2,1,0,0],
      [0,0,0,0,0,0,1,2,1,0,0,0]]"

fun cursor_row :: "int \<Rightarrow> int \<Rightarrow> nat list \<Rightarrow> gfx \<Rightarrow> gfx option" where
  "cursor_row x y [] g = Some g"
| "cursor_row x y (v # vs) g =
     do { g \<leftarrow> (if v = 0 then Some g else bb_put_pixel x y (if v = 1 then CURSOR_OUTLINE else CURSOR_FILL) g);
          cursor_row (x + 1) y vs g }"

fun cursor_rows :: "int \<Rightarrow> int \<Rightarrow> nat list list \<Rightarrow> gfx \<Rightarrow> gfx option" where
  "cursor_rows x y [] g = Some g"
| "cursor_rows x y (r # rs) g = do { g \<leftarrow> cursor_row x y r g; cursor_rows x (y + 1) rs g }"

definition cursor_draw_bb :: "int \<Rightarrow> int \<Rightarrow> gfx \<Rightarrow> gfx option" where
  "cursor_draw_bb cx cy g =
     do { g1 \<leftarrow> cursor_rows cx cy cursor_bmp (g\<lparr>gx_clip_on := False\<rparr>); Some (g1\<lparr>gx_clip_on := gx_clip_on g\<rparr>) }"

text \<open>The position is where the cursor was last drawn.\<close>

definition present :: "painter \<Rightarrow> int \<times> int \<Rightarrow> gfx \<times> desk \<Rightarrow> ((int \<times> int) \<times> gfx \<times> desk) option" where
  "present p pos s =
     (let (bx, by) = pos; cx = dk_cx (snd s); cy = dk_cy (snd s); moved = (bx \<noteq> cx \<or> by \<noteq> cy) in
      do { (g, d) \<leftarrow> (if moved then compose_rect p (bx, by, CURSOR_W, CURSOR_H) s else Some s);
           g \<leftarrow> (if moved \<or> damage_touches cx cy CURSOR_W CURSOR_H g
                then do { g \<leftarrow> cursor_draw_bb cx cy g; damage_add cx cy CURSOR_W CURSOR_H g } else Some g);
           g \<leftarrow> (if gx_flip g then present_flip g else present_single g);
           Some ((cx, cy), g, d) })"

end
