(* ===== verification/Desktop_Draw.thy ===== *)
theory Desktop_Draw
  imports Desktop_Gfx
begin

text \<open>
  What the drawing of \<^verbatim>\<open>kernel/desktop.c\<close> does: clipping is intersection, the primitives write exactly the
  visible pixels of their rectangle, the row copy copies bytes whatever its alignment, and after every page
  flip the page on display shows the whole backbuffer, if each drawing is recorded as damage. The state is
  described by \<open>gfx_ok\<close> and \<open>flip_inv\<close>, for screens of at most \<open>2^20\<close> pixels a side.
\<close>

section \<open>Clipping is intersection\<close>

lemma clip_axis_spec:
  assumes "in64 x" "in64 w" "0 < w" "0 \<le> g" "g < 2 ^ 62"
  shows "clip_axis x w g = Some (if max 0 x < min g (x + w) then Some (max 0 x, min g (x + w)) else None)"
  using assms by (auto simp: clip_axis_def sadd_def ssub_def in64_def Let_def max_def min_def)

text \<open>A pixel that drawing may touch: on the screen and in the active clip.\<close>

definition visible :: "gfx \<Rightarrow> int \<Rightarrow> int \<Rightarrow> bool" where
  "visible g px py \<longleftrightarrow> 0 \<le> px \<and> px < int (gx_w g) \<and> 0 \<le> py \<and> py < int (gx_h g)
     \<and> (gx_clip_on g \<longrightarrow> (let (cx0, cy0, cx1, cy1) = gx_clip g in cx0 \<le> px \<and> px < cx1 \<and> cy0 \<le> py \<and> py < cy1))"

definition in_rect :: "int \<Rightarrow> int \<Rightarrow> int \<Rightarrow> int \<Rightarrow> int \<Rightarrow> int \<Rightarrow> bool" where
  "in_rect x y w h px py \<longleftrightarrow> x \<le> px \<and> px < x + w \<and> y \<le> py \<and> py < y + h"

definition in_bounds :: "bounds option \<Rightarrow> int \<Rightarrow> int \<Rightarrow> bool" where
  "in_bounds r px py \<longleftrightarrow> (case r of None \<Rightarrow> False | Some (x0, y0, x1, y1) \<Rightarrow> x0 \<le> px \<and> px < x1 \<and> y0 \<le> py \<and> py < y1)"

text \<open>Sizes that \<^verbatim>\<open>desktop_init\<close> admits, and the arguments' range.\<close>

definition screen_ok :: "gfx \<Rightarrow> bool" where
  "screen_ok g \<longleftrightarrow> gx_w g \<le> 2 ^ 20 \<and> gx_h g \<le> 2 ^ 20 \<and> gx_w g * gx_h g \<le> length (gx_bb g)"

definition rect64 :: "int \<Rightarrow> int \<Rightarrow> int \<Rightarrow> int \<Rightarrow> bool" where
  "rect64 x y w h \<longleftrightarrow> in64 x \<and> in64 y \<and> in64 w \<and> in64 h"

lemma clip_screen_spec:
  assumes "rect64 x y w h" "gw \<le> 2 ^ 20" "gh \<le> 2 ^ 20"
  shows "\<exists>r. clip_screen gw gh x y w h = Some r
    \<and> (\<forall>px py. in_bounds r px py \<longleftrightarrow> in_rect x y w h px py \<and> 0 \<le> px \<and> px < int gw \<and> 0 \<le> py \<and> py < int gh)
    \<and> (\<forall>x0 y0 x1 y1. r = Some (x0, y0, x1, y1) \<longrightarrow> 0 \<le> x0 \<and> x0 < x1 \<and> x1 \<le> int gw \<and> 0 \<le> y0 \<and> y0 < y1 \<and> y1 \<le> int gh)"
proof (cases "w \<le> 0 \<or> h \<le> 0")
  case True
  then show ?thesis by (auto simp: clip_screen_def in_bounds_def in_rect_def)
next
  case False
  have a: "clip_axis x w (int gw) = Some (if max 0 x < min (int gw) (x + w) then Some (max 0 x, min (int gw) (x + w)) else None)"
    using assms False by (intro clip_axis_spec) (auto simp: rect64_def)
  have b: "clip_axis y h (int gh) = Some (if max 0 y < min (int gh) (y + h) then Some (max 0 y, min (int gh) (y + h)) else None)"
    using assms False by (intro clip_axis_spec) (auto simp: rect64_def)
  show ?thesis
    using False unfolding clip_screen_def a b by (auto simp: in_bounds_def in_rect_def)
qed

lemma bb_clip_spec:
  assumes "rect64 x y w h" "screen_ok g"
  shows "\<exists>r. bb_clip x y w h g = Some r
    \<and> (\<forall>px py. in_bounds r px py \<longleftrightarrow> in_rect x y w h px py \<and> visible g px py)
    \<and> (\<forall>x0 y0 x1 y1. r = Some (x0, y0, x1, y1) \<longrightarrow> 0 \<le> x0 \<and> x0 < x1 \<and> x1 \<le> int (gx_w g) \<and> 0 \<le> y0 \<and> y0 < y1 \<and> y1 \<le> int (gx_h g))"
proof -
  have wh: "gx_w g \<le> 2 ^ 20" "gx_h g \<le> 2 ^ 20" using assms(2) by (simp_all add: screen_ok_def)
  obtain r where r: "clip_screen (gx_w g) (gx_h g) x y w h = Some r"
    and px: "\<And>px py. in_bounds r px py \<longleftrightarrow> in_rect x y w h px py \<and> 0 \<le> px \<and> px < int (gx_w g) \<and> 0 \<le> py \<and> py < int (gx_h g)"
    and bnd: "\<And>x0 y0 x1 y1. r = Some (x0, y0, x1, y1) \<Longrightarrow>
        0 \<le> x0 \<and> x0 < x1 \<and> x1 \<le> int (gx_w g) \<and> 0 \<le> y0 \<and> y0 < y1 \<and> y1 \<le> int (gx_h g)"
    using clip_screen_spec [OF assms(1) wh] by blast
  obtain cx0 cy0 cx1 cy1 where c: "gx_clip g = (cx0, cy0, cx1, cy1)" by (cases "gx_clip g")
  show ?thesis
  proof (cases r)
    case None
    then have "\<not> in_bounds r px py" for px py by (simp add: in_bounds_def)
    then show ?thesis using r None px by (auto simp: bb_clip_def visible_def in_bounds_def)
  next
    case (Some b)
    obtain x0 y0 x1 y1 where b: "b = (x0, y0, x1, y1)" by (cases b)
    have inb: "x0 \<le> px \<and> px < x1 \<and> y0 \<le> py \<and> py < y1 \<longleftrightarrow>
        in_rect x y w h px py \<and> 0 \<le> px \<and> px < int (gx_w g) \<and> 0 \<le> py \<and> py < int (gx_h g)" for px py
      using px [of px py] Some b by (simp add: in_bounds_def)
    note bb = bnd [OF Some [unfolded b]]
    show ?thesis
    proof (cases "gx_clip_on g")
      case False
      then show ?thesis using r Some b inb bb by (auto simp: bb_clip_def visible_def in_bounds_def)
    next
      case True
      let ?r = "if min x1 cx1 \<le> max x0 cx0 \<or> min y1 cy1 \<le> max y0 cy0 then None
        else Some (max x0 cx0, max y0 cy0, min x1 cx1, min y1 cy1)"
      have "bb_clip x y w h g = Some ?r"
        using r Some b c True by (auto simp: bb_clip_def Let_def max_def min_def)
      moreover have "in_bounds ?r px py \<longleftrightarrow> in_rect x y w h px py \<and> visible g px py" for px py
        using inb [of px py] c True by (auto simp: in_bounds_def visible_def)
      moreover have "0 \<le> a \<and> a < c \<and> c \<le> int (gx_w g) \<and> 0 \<le> b' \<and> b' < d \<and> d \<le> int (gx_h g)"
        if "?r = Some (a, b', c, d)" for a b' c d
        using that bb by (auto split: if_splits)
      ultimately show ?thesis by blast
    qed
  qed
qed

section \<open>Filling\<close>

lemma bb_span_spec:
  "i + n \<le> length bb \<Longrightarrow>
   \<exists>bb'. bb_span i n c bb = Some bb' \<and> length bb' = length bb
     \<and> (\<forall>j < length bb. bb' ! j = (if i \<le> j \<and> j < i + n then c else bb ! j))"
proof (induction n arbitrary: i bb)
  case (Suc n)
  obtain bb' where bb': "bb_span (i + 1) n c (bb[i := c]) = Some bb'" "length bb' = length bb"
      "\<forall>j < length bb. bb' ! j = (if i + 1 \<le> j \<and> j < i + 1 + n then c else bb[i := c] ! j)"
    using Suc.IH [of "i + 1" "bb[i := c]"] Suc.prems by auto
  have "wr bb i c = Some (bb[i := c])" using Suc.prems by (simp add: wr_Some)
  then show ?case using bb' by (auto simp: nth_list_update)
qed auto

text \<open>The rows of a rectangle, by pixel.\<close>

lemma row_index:
  fixes x y x' y' w :: nat
  assumes "x < w" "x' < w"
  shows "y * w + x = y' * w + x' \<longleftrightarrow> y = y' \<and> x = x'"
proof
  assume e: "y * w + x = y' * w + x'"
  have "(y * w + x) div w = y" "(y' * w + x') div w = y'" using assms by simp_all
  then have "y = y'" using e by simp
  then show "y = y' \<and> x = x'" using e by simp
qed simp

lemma row_less:
  fixes x y w h :: nat
  assumes "x < w" "y < h"
  shows "y * w + x < w * h"
proof -
  have "y * w + x < Suc y * w" using assms(1) by simp
  also have "\<dots> \<le> h * w" using assms(2) by (intro mult_right_mono) simp_all
  finally show ?thesis by (simp add: mult.commute)
qed

lemma bb_spans_spec:
  assumes "x + n \<le> w" "y + k \<le> h" "w * h \<le> length bb"
  shows "\<exists>bb'. bb_spans w y x k n c bb = Some bb' \<and> length bb' = length bb
     \<and> (\<forall>j < length bb. w * h \<le> j \<longrightarrow> bb' ! j = bb ! j)
     \<and> (\<forall>px < w. \<forall>py < h. bb' ! (py * w + px) =
          (if x \<le> px \<and> px < x + n \<and> y \<le> py \<and> py < y + k then c py else bb ! (py * w + px)))"
  using assms(2,3)
proof (induction k arbitrary: y bb)
  case (Suc k)
  show ?case
  proof (cases "n = 0")
    case True
    have "bb_spans w y x m 0 c bb = Some bb" for m y by (induction m arbitrary: y) simp_all
    then show ?thesis using True by auto
  next
    case False
    then have w: "0 < w" using assms(1) by simp
    have fits: "y * w + x + n \<le> w * h"
    proof -
      have "y * w + x + n \<le> Suc y * w" using assms(1) by simp
      also have "\<dots> \<le> h * w" using Suc.prems(1) by (intro mult_right_mono) simp_all
      finally show ?thesis by (simp add: mult.commute)
    qed
    then obtain b1 where b1: "bb_span (y * w + x) n (c y) bb = Some b1" "length b1 = length bb"
        "\<forall>j < length bb. b1 ! j = (if y * w + x \<le> j \<and> j < y * w + x + n then c y else bb ! j)"
      using bb_span_spec [of "y * w + x" n bb "c y"] Suc.prems(2) by (auto simp: add.assoc)
    obtain b2 where b2: "bb_spans w (y + 1) x k n c b1 = Some b2" "length b2 = length b1"
        "\<forall>j < length b1. w * h \<le> j \<longrightarrow> b2 ! j = b1 ! j"
        "\<forall>px < w. \<forall>py < h. b2 ! (py * w + px) =
          (if x \<le> px \<and> px < x + n \<and> y + 1 \<le> py \<and> py < y + 1 + k then c py else b1 ! (py * w + px))"
      using Suc.IH [of "y + 1" b1] Suc.prems b1(2) by auto
    have row: "b1 ! (py * w + px) = (if x \<le> px \<and> px < x + n \<and> py = y then c py else bb ! (py * w + px))"
      if "px < w" "py < h" for px py
    proof -
      have lt: "py * w + px < length bb" using row_less [OF that] Suc.prems(2) by simp
      have "y * w + x \<le> py * w + px \<and> py * w + px < y * w + x + n \<longleftrightarrow> x \<le> px \<and> px < x + n \<and> py = y"
      proof
        assume a: "y * w + x \<le> py * w + px \<and> py * w + px < y * w + x + n"
        define i where "i = py * w + px - y * w"
        have i: "py * w + px = y * w + i" "x \<le> i" "i < x + n" using a by (auto simp: i_def)
        then have "py = y \<and> px = i" using row_index [of px w i py y] that(1) assms(1) by simp
        then show "x \<le> px \<and> px < x + n \<and> py = y" using i by simp
      qed auto
      then show ?thesis using b1(3) lt by auto
    qed
    have guard: "b2 ! j = bb ! j" if "j < length bb" "w * h \<le> j" for j
      using b2(2,3) b1(2,3) that fits by auto
    have "bb_spans w y x (Suc k) n c bb = Some b2" using b1(1) b2(1) by simp
    then show ?thesis using b1(2) b2(2,4) row guard by (intro exI [of _ b2]) auto
  qed
qed auto

lemma nat_span:
  fixes a b p :: int
  assumes "0 \<le> a" "a < b" "0 \<le> p"
  shows "nat a \<le> nat p \<and> nat p < nat a + nat (b - a) \<longleftrightarrow> a \<le> p \<and> p < b"
  using assms by linarith

text \<open>What a drawing operation leaves alone, and the pixels by position.\<close>

definition pixel :: "gfx \<Rightarrow> int \<Rightarrow> int \<Rightarrow> u32" where
  "pixel g px py = gx_bb g ! (nat py * gx_w g + nat px)"

definition on_screen :: "gfx \<Rightarrow> int \<Rightarrow> int \<Rightarrow> bool" where
  "on_screen g px py \<longleftrightarrow> 0 \<le> px \<and> px < int (gx_w g) \<and> 0 \<le> py \<and> py < int (gx_h g)"

text \<open>Only the backbuffer changes, not its length, and nothing behind the screen's pixels.\<close>

definition bb_only :: "gfx \<Rightarrow> gfx \<Rightarrow> bool" where
  "bb_only g g' \<longleftrightarrow> (\<exists>bb. g' = g\<lparr>gx_bb := bb\<rparr> \<and> length bb = length (gx_bb g)
     \<and> (\<forall>j < length bb. gx_w g * gx_h g \<le> j \<longrightarrow> bb ! j = gx_bb g ! j))"

lemma bb_only_refl [simp]: "bb_only g g"
  unfolding bb_only_def by (rule exI [of _ "gx_bb g"]) simp

lemma bb_only_trans: "bb_only g g1 \<Longrightarrow> bb_only g1 g2 \<Longrightarrow> bb_only g g2"
proof -
  assume a: "bb_only g g1" "bb_only g1 g2"
  obtain b1 where b1: "g1 = g\<lparr>gx_bb := b1\<rparr>" "length b1 = length (gx_bb g)"
      "\<forall>j < length b1. gx_w g * gx_h g \<le> j \<longrightarrow> b1 ! j = gx_bb g ! j" using a(1) by (auto simp: bb_only_def)
  obtain b2 where b2: "g2 = g1\<lparr>gx_bb := b2\<rparr>" "length b2 = length (gx_bb g1)"
      "\<forall>j < length b2. gx_w g1 * gx_h g1 \<le> j \<longrightarrow> b2 ! j = gx_bb g1 ! j" using a(2) unfolding bb_only_def by blast
  show "bb_only g g2" unfolding bb_only_def by (rule exI [of _ b2]) (use b1 b2 in auto)
qed

lemma bb_only_simps:
  assumes "bb_only g g'"
  shows "gx_w g' = gx_w g" "gx_h g' = gx_h g" "gx_clip_on g' = gx_clip_on g" "gx_clip g' = gx_clip g"
    "visible g' = visible g" "on_screen g' = on_screen g" "screen_ok g' = screen_ok g"
  using assms by (auto simp: bb_only_def visible_def on_screen_def screen_ok_def fun_eq_iff)

lemma bb_fill_rect_spec:
  assumes "rect64 x y w h" "screen_ok g"
  shows "\<exists>g'. bb_fill_rect x y w h c g = Some g' \<and> bb_only g g'
    \<and> (\<forall>px py. on_screen g px py \<longrightarrow>
          pixel g' px py = (if in_rect x y w h px py \<and> visible g px py then c else pixel g px py))"
proof -
  obtain r where r: "bb_clip x y w h g = Some r"
    and px: "\<And>px py. in_bounds r px py \<longleftrightarrow> in_rect x y w h px py \<and> visible g px py"
    and bnd: "\<And>x0 y0 x1 y1. r = Some (x0, y0, x1, y1) \<Longrightarrow>
        0 \<le> x0 \<and> x0 < x1 \<and> x1 \<le> int (gx_w g) \<and> 0 \<le> y0 \<and> y0 < y1 \<and> y1 \<le> int (gx_h g)"
    using bb_clip_spec [OF assms] by blast
  show ?thesis
  proof (cases r)
    case None
    then have "\<not> (in_rect x y w h px py \<and> visible g px py)" for px py using px by (simp add: in_bounds_def)
    then have "\<forall>px py. on_screen g px py \<longrightarrow>
        pixel g px py = (if in_rect x y w h px py \<and> visible g px py then c else pixel g px py)" by auto
    then show ?thesis using r None by (simp add: bb_fill_rect_def)
  next
    case (Some b)
    obtain x0 y0 x1 y1 where b: "b = (x0, y0, x1, y1)" by (cases b)
    note bb = bnd [OF Some [unfolded b]]
    have "nat x0 + nat (x1 - x0) \<le> gx_w g" "nat y0 + nat (y1 - y0) \<le> gx_h g" using bb by auto
    from bb_spans_spec [OF this, of "gx_bb g" "\<lambda>_. c"] assms(2) obtain b' where
      b': "bb_spans (gx_w g) (nat y0) (nat x0) (nat (y1 - y0)) (nat (x1 - x0)) (\<lambda>_. c) (gx_bb g) = Some b'"
        "length b' = length (gx_bb g)" "\<forall>j < length (gx_bb g). gx_w g * gx_h g \<le> j \<longrightarrow> b' ! j = gx_bb g ! j"
      and pix: "\<forall>px < gx_w g. \<forall>py < gx_h g. b' ! (py * gx_w g + px) =
          (if nat x0 \<le> px \<and> px < nat x0 + nat (x1 - x0) \<and> nat y0 \<le> py \<and> py < nat y0 + nat (y1 - y0) then c
           else gx_bb g ! (py * gx_w g + px))"
      by (auto simp: screen_ok_def)
    have "pixel (g\<lparr>gx_bb := b'\<rparr>) px' py' = (if in_rect x y w h px' py' \<and> visible g px' py' then c else pixel g px' py')"
      if "on_screen g px' py'" for px' py'
    proof -
      have lt: "nat px' < gx_w g" "nat py' < gx_h g" using that by (auto simp: on_screen_def)
      have "(nat x0 \<le> nat px' \<and> nat px' < nat x0 + nat (x1 - x0) \<and> nat y0 \<le> nat py' \<and> nat py' < nat y0 + nat (y1 - y0))
          = in_bounds r px' py'"
        using bb that Some b nat_span [of x0 x1 px'] nat_span [of y0 y1 py']
        by (simp add: in_bounds_def on_screen_def) blast
      then show ?thesis using pix [rule_format, OF lt] px [of px' py'] by (simp add: pixel_def)
    qed
    moreover have "bb_only g (g\<lparr>gx_bb := b'\<rparr>)" using b'(2,3) unfolding bb_only_def by auto
    ultimately show ?thesis using r Some b b'(1) by (simp add: bb_fill_rect_def)
  qed
qed

text \<open>C19. Filling a rectangle writes exactly the pixels of the rectangle that are on the screen and in the active
  clip, for all 64-bit coordinates and sizes: no sum overflows, no store leaves the backbuffer, and
  neither the other pixels nor the guard words change.\<close>

theorem bb_fill_rect_exact:
  assumes "rect64 x y w h" "screen_ok g"
  shows "\<exists>g'. bb_fill_rect x y w h c g = Some g' \<and> bb_only g g'
    \<and> (\<forall>px py. on_screen g px py \<longrightarrow>
          pixel g' px py = (if in_rect x y w h px py \<and> visible g px py then c else pixel g px py))"
  by (rule bb_fill_rect_spec [OF assms])

theorem bb_fill_rect_exact_witness:
  "\<exists>g'. bb_fill_rect (- 1) 0 3 9 7 \<lparr>gx_w = 4, gx_h = 2, gx_pitch = 16, gx_bb = replicate 24 0, gx_bb_addr = 0,
       gx_fb = \<lparr>fb_present = True, fb_w = 4, fb_h = 2, fb_pitch = 16, fb_vram = [], fb_base0 = None, fb_base1 = None,
         fb_active = 0, fb_double = False, fb_page_bytes = 0, fb_vsync = False, fb_regs = [], fb_mapped = []\<rparr>,
       gx_fb_addr = 0, gx_flip = False, gx_front = 0, gx_canary = [], gx_clip_on = True, gx_clip = (0, 1, 9, 9),
       gx_dmg_on = False, gx_dmg = (0, 0, 0, 0), gx_prev_on = False, gx_prev = (0, 0, 0, 0)\<rparr> = Some g' \<and> pixel g' 1 1 = 7"
proof -
  let ?g = "\<lparr>gx_w = 4, gx_h = 2, gx_pitch = 16, gx_bb = replicate 24 0, gx_bb_addr = 0,
       gx_fb = \<lparr>fb_present = True, fb_w = 4, fb_h = 2, fb_pitch = 16, fb_vram = [], fb_base0 = None, fb_base1 = None,
         fb_active = 0, fb_double = False, fb_page_bytes = 0, fb_vsync = False, fb_regs = [], fb_mapped = []\<rparr>,
       gx_fb_addr = 0, gx_flip = False, gx_front = 0, gx_canary = [], gx_clip_on = True, gx_clip = (0, 1, 9, 9),
       gx_dmg_on = False, gx_dmg = (0, 0, 0, 0), gx_prev_on = False, gx_prev = (0, 0, 0, 0)\<rparr>"
  have "rect64 (- 1) 0 3 9" "screen_ok ?g" by (simp_all add: rect64_def in64_def screen_ok_def)
  from bb_fill_rect_exact [OF this, of 7] show ?thesis
    by (auto simp: on_screen_def in_rect_def visible_def)
qed

text \<open>A drawing operation: it succeeds and changes only visible pixels.\<close>

definition draws :: "gfx \<Rightarrow> gfx \<Rightarrow> bool" where
  "draws g g' \<longleftrightarrow> bb_only g g' \<and> (\<forall>px py. on_screen g px py \<and> \<not> visible g px py \<longrightarrow> pixel g' px py = pixel g px py)"

lemma draws_refl [simp]: "draws g g"
  by (simp add: draws_def)

lemma draws_trans:
  assumes "draws g g1" "draws g1 g2"
  shows "draws g g2"
  using assms bb_only_trans [of g g1 g2] bb_only_simps [of g g1] by (simp add: draws_def)

lemma bb_fill_rect_draws:
  assumes "rect64 x y w h" "screen_ok g"
  shows "\<exists>g'. bb_fill_rect x y w h c g = Some g' \<and> draws g g'"
  using bb_fill_rect_spec [OF assms, of c] by (auto simp: draws_def)

lemma bb_put_pixel_draws:
  assumes "screen_ok g"
  shows "\<exists>g'. bb_put_pixel x y c g = Some g' \<and> draws g g'"
proof (cases "visible g x y")
  case False
  then have "bb_put_pixel x y c g = Some g"
    by (cases "gx_clip g") (auto simp: bb_put_pixel_def visible_def)
  then show ?thesis by simp
next
  case True
  then have v: "nat x < gx_w g" "nat y < gx_h g" "0 \<le> x" "0 \<le> y" by (auto simp: visible_def)
  let ?i = "nat y * gx_w g + nat x"
  have i: "?i < gx_w g * gx_h g" by (rule row_less [OF v(1,2)])
  then have "wr (gx_bb g) ?i c = Some ((gx_bb g)[?i := c])" using assms by (simp add: wr_Some screen_ok_def)
  moreover have "\<not> (x < 0 \<or> y < 0 \<or> x \<ge> int (gx_w g) \<or> y \<ge> int (gx_h g))"
    "\<not> (gx_clip_on g \<and> (let (cx0, cy0, cx1, cy1) = gx_clip g in x < cx0 \<or> x \<ge> cx1 \<or> y < cy0 \<or> y \<ge> cy1))"
    using True by (auto simp: visible_def)
  ultimately have run: "bb_put_pixel x y c g = Some (g\<lparr>gx_bb := (gx_bb g)[?i := c]\<rparr>)"
    by (auto simp: bb_put_pixel_def Let_def)
  have "pixel (g\<lparr>gx_bb := (gx_bb g)[?i := c]\<rparr>) px py = pixel g px py" if "on_screen g px py" "\<not> visible g px py" for px py
  proof -
    have p: "nat px < gx_w g" "0 \<le> px" "0 \<le> py" using that(1) by (auto simp: on_screen_def)
    have "nat py * gx_w g + nat px \<noteq> ?i"
    proof
      assume "nat py * gx_w g + nat px = ?i"
      then have "py = y \<and> px = x" using row_index [OF p(1) v(1)] p(2,3) v(3,4) by (simp add: eq_nat_nat_iff)
      then show False using that(2) True by simp
    qed
    then show ?thesis by (simp add: pixel_def)
  qed
  moreover have "bb_only g (g\<lparr>gx_bb := (gx_bb g)[?i := c]\<rparr>)" using i by (auto simp: bb_only_def)
  ultimately show ?thesis using run by (simp add: draws_def)
qed

lemma draws_ok: "draws g g' \<Longrightarrow> screen_ok g \<Longrightarrow> screen_ok g'"
  unfolding draws_def using bb_only_simps(7) by blast

lemma bb_cells_draws:
  assumes "length glyph = 8" "- (2 ^ 62) \<le> x" "x \<le> 2 ^ 62" "- (2 ^ 62) \<le> y" "y \<le> 2 ^ 62"
  shows "set cs \<subseteq> {..<8} \<times> {..<8} \<Longrightarrow> screen_ok g \<Longrightarrow> \<exists>g'. bb_cells glyph x y fg cs g = Some g' \<and> draws g g'"
proof (induction cs arbitrary: g)
  case (Cons a cs)
  obtain row col where a: "a = (row, col)" by (cases a)
  have rc: "row < 8" "col < 8" using Cons.prems(1) a by auto
  have sum: "sadd x (int col) = Some (x + int col)" "sadd y (int row) = Some (y + int row)"
    using assms rc by (auto simp: sadd_def in64_def)
  obtain g1 where g1: "(if bit (glyph ! row) col then bb_put_pixel (x + int col) (y + int row) fg g else Some g) = Some g1"
      "draws g g1"
    using bb_put_pixel_draws [OF Cons.prems(2), of "x + int col" "y + int row" fg]
    by (cases "bit (glyph ! row) col") auto
  obtain g2 where "bb_cells glyph x y fg cs g1 = Some g2" "draws g1 g2"
    using Cons.IH [of g1] Cons.prems draws_ok [OF g1(2)] by auto
  moreover have "bb_cells glyph x y fg (a # cs) g = bb_cells glyph x y fg cs g1"
    using g1(1) sum rc(1) assms(1) by (cases "bit (glyph ! row) col") (simp_all add: a rd_Some)
  ultimately show ?case using draws_trans [OF g1(2)] by auto
qed simp

definition font_ok :: "bytes list \<Rightarrow> bool" where
  "font_ok font \<longleftrightarrow> length font = 128 \<and> list_all (\<lambda>gl. length gl = 8) font"

lemma glyph_cells_range: "set glyph_cells \<subseteq> {..<8} \<times> {..<8}"
  by (auto simp: glyph_cells_def)

lemma bb_draw_char_draws:
  assumes "font_ok font" "c < 128" "- (2 ^ 62) \<le> x" "x \<le> 2 ^ 62" "- (2 ^ 62) \<le> y" "y \<le> 2 ^ 62" "screen_ok g"
  shows "\<exists>g'. bb_draw_char font x y c fg g = Some g' \<and> draws g g'"
proof -
  have c: "unat c < length font" using assms(1,2) by (simp add: font_ok_def word_less_nat_alt)
  then have "length (font ! unat c) = 8" using assms(1) by (simp add: font_ok_def list_all_length)
  then show ?thesis
    using bb_cells_draws [OF _ assms(3-6) glyph_cells_range assms(7)] c by (simp add: bb_draw_char_def rd_Some)
qed

lemma bb_draw_string_draws:
  assumes "font_ok font" "\<forall>c \<in> set cs. c < 128" "- (2 ^ 61) \<le> x" "x + 8 * int (length cs) \<le> 2 ^ 62"
    and "- (2 ^ 62) \<le> y" "y \<le> 2 ^ 62" "screen_ok g"
  shows "\<exists>g'. bb_draw_string font x y cs fg g = Some (x + 8 * int (length cs), g') \<and> draws g g'"
  using assms(2-4,7)
proof (induction cs arbitrary: x g)
  case (Cons c cs)
  obtain g1 where g1: "bb_draw_char font x y c fg g = Some g1" "draws g g1"
    using bb_draw_char_draws [OF assms(1) _ _ _ assms(5,6), of c x g fg] Cons.prems by auto
  have "sadd x 8 = Some (x + 8)" using Cons.prems(2,3) by (auto simp: sadd_def in64_def)
  moreover obtain g2 where "bb_draw_string font (x + 8) y cs fg g1 = Some (x + 8 + 8 * int (length cs), g2)" "draws g1 g2"
    using Cons.IH [of "x + 8" g1] Cons.prems draws_ok [OF g1(2)] by auto
  ultimately show ?case using g1 draws_trans [OF g1(2)] by (auto simp: algebra_simps)
qed simp

text \<open>Text is drawn safely: for every string of ASCII characters, at every position that the screen's size bounds,
  each glyph is found, no pixel is stored outside the backbuffer or outside the active clip, and the end
  position is eight pixels further for each character.\<close>

theorem bb_draw_string_safe:
  assumes "font_ok font" "\<forall>c \<in> set cs. c < 128" "- (2 ^ 61) \<le> x" "x + 8 * int (length cs) \<le> 2 ^ 62"
    and "- (2 ^ 62) \<le> y" "y \<le> 2 ^ 62" "screen_ok g"
  shows "\<exists>g'. bb_draw_string font x y cs fg g = Some (x + 8 * int (length cs), g') \<and> draws g g'"
  by (rule bb_draw_string_draws [OF assms])

text \<open>A character of code 128 or more is looked up behind the end of the font.\<close>

theorem bb_draw_char_high:
  assumes "length font = 128" "128 \<le> c"
  shows "bb_draw_char font x y c fg g = None"
  using assms by (simp add: bb_draw_char_def rd_def word_le_nat_alt)

theorem bb_draw_char_high_witness: "\<forall>g. bb_draw_char (replicate 128 (replicate 8 0)) 0 0 0xC3 0 g = None"
  by (intro allI bb_draw_char_high) simp_all

section \<open>Copying is a copy\<close>

lemma blit_units_copy:
  assumes "s + u * n \<le> length src" "d + u * n \<le> length dst"
  shows "blit_units u n src s dst d = Some (take d dst @ take (u * n) (drop s src) @ drop (d + u * n) dst)"
  using assms
proof (induction n arbitrary: s d dst)
  case (Suc n)
  let ?v = "take u (drop s src)"
  let ?dst = "take d dst @ ?v @ drop (d + u) dst"
  have l: "length ?v = u" using Suc.prems(1) by simp
  have r: "rd_range src s u = Some ?v" using Suc.prems(1) by (simp add: rd_range_Some)
  have w: "wr_range dst d ?v = Some ?dst" using Suc.prems(2) l by (simp add: wr_range_Some)
  have ih: "blit_units u n src (s + u) ?dst (d + u)
      = Some (take (d + u) ?dst @ take (u * n) (drop (s + u) src) @ drop (d + u + u * n) ?dst)"
    using Suc.prems l by (intro Suc.IH) simp_all
  have parts: "take (d + u) ?dst = take d dst @ ?v" "drop (d + u + u * n) ?dst = drop (d + u * Suc n) dst"
    using Suc.prems(2) l by (simp_all add: algebra_simps)
  have v: "?v @ take (u * n) (drop (s + u) src) = take (u * Suc n) (drop s src)"
    by (simp add: take_add add.commute)
  show ?case using r w ih v unfolding parts by simp
qed simp

lemma blit_units_append:
  assumes "s + a + b \<le> length src" "d + a + b \<le> length dst"
  shows "take (d + a) (take d dst @ take a (drop s src) @ drop (d + a) dst) @ take b (drop (s + a) src)
      @ drop (d + a + b) (take d dst @ take a (drop s src) @ drop (d + a) dst)
    = take d dst @ take (a + b) (drop s src) @ drop (d + (a + b)) dst"
  using assms by (simp add: take_add ac_simps)

text \<open>The row copy, with its three sizes of store, copies exactly \<open>n\<close> bytes, aligned or not.\<close>

theorem blit_copy_exact:
  assumes "s + n \<le> length src" "d + n \<le> length dst"
  shows "blit_copy al dst d src s n = Some (take d dst @ take n (drop s src) @ drop (d + n) dst)"
proof -
  define k where "k = (if al then n div 8 else 0)"
  define n1 where "n1 = (if al then n mod 8 else n)"
  define m where "m = (if n1 \<ge> 4 then 4 else (0 :: nat))"
  have n: "n = 8 * k + n1" by (auto simp: k_def n1_def)
  have m: "m \<le> n1" by (simp add: m_def)
  let ?d1 = "take d dst @ take (8 * k) (drop s src) @ drop (d + 8 * k) dst"
  have b1: "blit_units 8 k src s dst d = Some ?d1" using assms n by (intro blit_units_copy) simp_all
  have l1: "length ?d1 = length dst" using assms n by simp
  let ?d2 = "take d dst @ take (8 * k + m) (drop s src) @ drop (d + (8 * k + m)) dst"
  have b2: "(if n1 \<ge> 4 then blit_units 4 1 src (s + 8 * k) ?d1 (d + 8 * k) else Some ?d1) = Some ?d2"
  proof (cases "n1 \<ge> 4")
    case True
    then have "blit_units 4 1 src (s + 8 * k) ?d1 (d + 8 * k) = Some (take (d + 8 * k) ?d1 @ take 4 (drop (s + 8 * k) src) @ drop (d + 8 * k + 4) ?d1)"
      using blit_units_copy [of "s + 8 * k" 4 1 src "d + 8 * k" ?d1] assms n l1 by simp
    moreover have "m = 4" using True by (simp add: m_def)
    ultimately show ?thesis using True blit_units_append [of s "8 * k" 4 src d dst] assms n by simp
  qed (simp add: m_def)
  have l2: "length ?d2 = length dst" using assms n m by simp
  have "blit_units 1 (n1 - m) src (s + (8 * k + m)) ?d2 (d + (8 * k + m))
      = Some (take (d + (8 * k + m)) ?d2 @ take (1 * (n1 - m)) (drop (s + (8 * k + m)) src) @ drop (d + (8 * k + m) + 1 * (n1 - m)) ?d2)"
    using assms n m l2 by (intro blit_units_copy) simp_all
  also have "\<dots> = Some (take d dst @ take n (drop s src) @ drop (d + n) dst)"
    using blit_units_append [of s "8 * k + m" "n1 - m" src d dst] assms n m by simp
  finally have b3: "blit_units 1 (n1 - m) src (s + (8 * k + m)) ?d2 (d + (8 * k + m))
      = Some (take d dst @ take n (drop s src) @ drop (d + n) dst)" .
  have "blit_copy al dst d src s n = do { x \<leftarrow> blit_units 8 k src s dst d;
      x \<leftarrow> (if n1 \<ge> 4 then blit_units 4 1 src (s + 8 * k) x (d + 8 * k) else Some x);
      blit_units 1 (n1 - m) src (s + (8 * k + m)) x (d + (8 * k + m)) }"
    unfolding blit_copy_def k_def n1_def m_def Let_def by (simp add: add.assoc)
  then show ?thesis using b1 b2 b3 by simp
qed

theorem blit_copy_exact_witness:
  "blit_copy True (replicate 16 0) 0 [1, 2, 3, 4, 5, 6, 7, 8, 9, 10, 11, 12, 13] 0 13
    = Some (take 0 (replicate 16 0) @ take 13 (drop 0 [1, 2, 3, 4, 5, 6, 7, 8, 9, 10, 11, 12, 13]) @ drop (0 + 13) (replicate 16 0))"
  by (rule blit_copy_exact) simp_all

section \<open>What a page shows\<close>

lemma bb_bytes_nth: "4 * i + t < 4 * length bb \<Longrightarrow> t < 4 \<Longrightarrow> bb_bytes bb ! (4 * i + t) = le32 (bb ! i) ! t"
proof (induction bb arbitrary: i)
  case (Cons b bb)
  have l: "length (le32 b) = 4" by (simp add: le32_def)
  show ?case
  proof (cases i)
    case 0
    then show ?thesis using Cons.prems l by (simp add: bb_bytes_def nth_append)
  next
    case (Suc j)
    then have "bb_bytes (b # bb) ! (4 * i + t) = bb_bytes bb ! (4 * j + t)"
      using l by (simp add: bb_bytes_def nth_append)
    then show ?thesis using Cons.IH [of j] Cons.prems Suc by simp
  qed
qed simp

lemma length_bb_bytes: "length (bb_bytes bb) = 4 * length bb"
  by (induction bb) (simp_all add: bb_bytes_def le32_def)

text \<open>The bytes of \<open>k\<close> copied rows: byte \<open>cx\<close> of row \<open>cy\<close> of the page at \<open>base\<close>.\<close>

lemma blit_rows_spec:
  assumes "y + k \<le> gx_h g" "4 * x + n \<le> 4 * gx_w g" "4 * gx_w g \<le> gx_pitch g" "gx_w g * gx_h g \<le> length (gx_bb g)"
    and "base + gx_h g * gx_pitch g \<le> length v"
  shows "\<exists>v'. blit_rows g base y x k n v = Some v' \<and> length v' = length v
    \<and> (\<forall>j < length v. j < base \<or> base + gx_h g * gx_pitch g \<le> j \<longrightarrow> v' ! j = v ! j)
    \<and> (\<forall>cy < gx_h g. \<forall>cx < gx_pitch g. v' ! (base + (cy * gx_pitch g + cx)) =
         (if y \<le> cy \<and> cy < y + k \<and> 4 * x \<le> cx \<and> cx < 4 * x + n then bb_bytes (gx_bb g) ! (cy * gx_w g * 4 + cx)
          else v ! (base + (cy * gx_pitch g + cx))))"
  using assms(1,5)
proof (induction k arbitrary: y v)
  case (Suc k)
  let ?p = "gx_pitch g" and ?w = "gx_w g" and ?B = "bb_bytes (gx_bb g)"
  let ?d = "base + y * ?p + x * 4" and ?s = "y * ?w * 4 + x * 4"
  have srow: "?s + n \<le> length ?B"
  proof -
    have "?s + n \<le> 4 * (Suc y * ?w)" using assms(2) by simp
    also have "\<dots> \<le> 4 * (gx_h g * ?w)" using Suc.prems(1) by (intro mult_left_mono mult_right_mono) simp_all
    also have "\<dots> \<le> 4 * length (gx_bb g)" using assms(4) by (simp add: mult.commute)
    finally show ?thesis by (simp add: length_bb_bytes)
  qed
  have rowend: "y * ?p + (x * 4 + n) \<le> gx_h g * ?p"
  proof -
    have "y * ?p + (x * 4 + n) \<le> Suc y * ?p" using assms(2,3) by simp
    also have "\<dots> \<le> gx_h g * ?p" using Suc.prems(1) by (intro mult_right_mono) simp_all
    finally show ?thesis .
  qed
  then have drow: "?d + n \<le> length v" using Suc.prems(2) by simp
  let ?v1 = "take ?d v @ take n (drop ?s ?B) @ drop (?d + n) v"
  have c: "blit_copy al v ?d ?B ?s n = Some ?v1" for al by (rule blit_copy_exact [OF srow drow])
  have l1: "length ?v1 = length v" using srow drow by simp
  have v1: "?v1 ! j = (if ?d \<le> j \<and> j < ?d + n then ?B ! (?s + (j - ?d)) else v ! j)" if "j < length v" for j
    using srow drow that by (auto simp: nth_append)
  obtain v2 where v2: "blit_rows g base (y + 1) x k n ?v1 = Some v2" "length v2 = length ?v1"
      "\<forall>j < length ?v1. j < base \<or> base + gx_h g * ?p \<le> j \<longrightarrow> v2 ! j = ?v1 ! j"
      "\<forall>cy < gx_h g. \<forall>cx < ?p. v2 ! (base + (cy * ?p + cx)) =
         (if y + 1 \<le> cy \<and> cy < y + 1 + k \<and> 4 * x \<le> cx \<and> cx < 4 * x + n then ?B ! (cy * ?w * 4 + cx)
          else ?v1 ! (base + (cy * ?p + cx)))"
    using Suc.IH [of "y + 1" ?v1] Suc.prems l1 by auto
  have row: "?v1 ! (base + (cy * ?p + cx)) = (if cy = y \<and> 4 * x \<le> cx \<and> cx < 4 * x + n then ?B ! (cy * ?w * 4 + cx)
          else v ! (base + (cy * ?p + cx)))" if "cy < gx_h g" "cx < ?p" for cy cx
  proof -
    have lt: "base + (cy * ?p + cx) < length v"
      using row_less [of cx ?p cy "gx_h g"] that Suc.prems(2) by (simp add: mult.commute)
    have "?d \<le> base + (cy * ?p + cx) \<and> base + (cy * ?p + cx) < ?d + n \<longleftrightarrow> cy = y \<and> 4 * x \<le> cx \<and> cx < 4 * x + n"
    proof
      assume a: "?d \<le> base + (cy * ?p + cx) \<and> base + (cy * ?p + cx) < ?d + n"
      define i where "i = cy * ?p + cx - y * ?p"
      have i: "cy * ?p + cx = y * ?p + i" "4 * x \<le> i" "i < 4 * x + n" using a by (auto simp: i_def)
      then have "cy = y \<and> cx = i" using row_index [of cx ?p i cy y] that(2) assms(2,3) by simp
      then show "cy = y \<and> 4 * x \<le> cx \<and> cx < 4 * x + n" using i by simp
    qed auto
    then show ?thesis using v1 [OF lt] by auto
  qed
  have out: "?v1 ! j = v ! j" if "j < length v" "j < base \<or> base + gx_h g * ?p \<le> j" for j
    using v1 [OF that(1)] that(2) rowend by auto
  have run: "blit_rows g base y x (Suc k) n v = Some v2" using c v2(1) by (simp add: Let_def)
  have all: "v2 ! (base + (cy * ?p + cx)) =
      (if y \<le> cy \<and> cy < y + Suc k \<and> 4 * x \<le> cx \<and> cx < 4 * x + n then ?B ! (cy * ?w * 4 + cx)
       else v ! (base + (cy * ?p + cx)))" if "cy < gx_h g" "cx < ?p" for cy cx
    using v2(4) [rule_format, OF that] row [OF that] by (cases "cy = y") auto
  show ?case
  proof (intro exI conjI)
    show "blit_rows g base y x (Suc k) n v = Some v2" by (rule run)
    show "length v2 = length v" using v2(2) l1 by simp
    show "\<forall>j < length v. j < base \<or> base + gx_h g * ?p \<le> j \<longrightarrow> v2 ! j = v ! j" using v2(3) l1 out by metis
    show "\<forall>cy < gx_h g. \<forall>cx < ?p. v2 ! (base + (cy * ?p + cx)) =
      (if y \<le> cy \<and> cy < y + Suc k \<and> 4 * x \<le> cx \<and> cx < 4 * x + n then ?B ! (cy * ?w * 4 + cx)
       else v ! (base + (cy * ?p + cx)))" using all by blast
  qed
qed auto

text \<open>The four bytes of a pixel of page \<open>p\<close>, and whether it shows the backbuffer's pixel.\<close>

definition page_byte :: "gfx \<Rightarrow> nat \<Rightarrow> int \<Rightarrow> int \<Rightarrow> nat \<Rightarrow> u8" where
  "page_byte g p px py t =
     fb_vram (gx_fb g) ! (the (fb_page_base p (gx_fb g)) + (nat py * gx_pitch g + (4 * nat px + t)))"

definition shows_pixel :: "gfx \<Rightarrow> nat \<Rightarrow> int \<Rightarrow> int \<Rightarrow> bool" where
  "shows_pixel g p px py \<longleftrightarrow> (\<forall>t < 4. page_byte g p px py t = le32 (pixel g px py) ! t)"

definition page_fits :: "gfx \<Rightarrow> nat \<Rightarrow> bool" where
  "page_fits g p \<longleftrightarrow>
     (\<exists>b. fb_page_base p (gx_fb g) = Some b \<and> b + gx_h g * gx_pitch g \<le> length (fb_vram (gx_fb g)))"

definition pages_apart :: "gfx \<Rightarrow> bool" where
  "pages_apart g \<longleftrightarrow>
     (\<forall>a b. fb_base0 (gx_fb g) = Some a \<and> fb_base1 (gx_fb g) = Some b \<longrightarrow>
        a + gx_h g * gx_pitch g \<le> b \<or> b + gx_h g * gx_pitch g \<le> a)"

definition gfx_ok :: "gfx \<Rightarrow> bool" where
  "gfx_ok g \<longleftrightarrow> screen_ok g \<and> 4 * gx_w g \<le> gx_pitch g \<and> fb_active (gx_fb g) < 2 \<and> pages_apart g"

text \<open>A copy to the active page: the rectangle shows the backbuffer, nothing else on either page changes.\<close>

lemma page_byte_range:
  assumes "on_screen g px py" "4 * gx_w g \<le> gx_pitch g" "t < 4"
  shows "nat py < gx_h g" "4 * nat px + t < gx_pitch g"
  using assms by (auto simp: on_screen_def)

lemma blit_rect_shows:
  assumes "rect64 x y w h" "gfx_ok g" "page_fits g (fb_active (gx_fb g))"
  shows "\<exists>v. blit_rect x y w h g = Some (g\<lparr>gx_fb := (gx_fb g)\<lparr>fb_vram := v\<rparr>\<rparr>) \<and> length v = length (fb_vram (gx_fb g))
    \<and> (\<forall>p px py t. p < 2 \<and> page_fits g p \<and> on_screen g px py \<and> t < 4 \<longrightarrow>
         page_byte (g\<lparr>gx_fb := (gx_fb g)\<lparr>fb_vram := v\<rparr>\<rparr>) p px py t =
           (if p = fb_active (gx_fb g) \<and> in_rect x y w h px py \<and> visible g px py then le32 (pixel g px py) ! t
            else page_byte g p px py t))"
proof -
  let ?a = "fb_active (gx_fb g)" and ?P = "gx_h g * gx_pitch g" and ?v0 = "fb_vram (gx_fb g)"
  have so: "screen_ok g" and pitch: "4 * gx_w g \<le> gx_pitch g" and a2: "?a < 2" and apart: "pages_apart g"
    using assms(2) by (simp_all add: gfx_ok_def)
  obtain base where base: "fb_page_base ?a (gx_fb g) = Some base" "base + ?P \<le> length ?v0"
    using assms(3) by (auto simp: page_fits_def)
  obtain r where r: "bb_clip x y w h g = Some r"
    and px: "\<And>px py. in_bounds r px py \<longleftrightarrow> in_rect x y w h px py \<and> visible g px py"
    and bnd: "\<And>x0 y0 x1 y1. r = Some (x0, y0, x1, y1) \<Longrightarrow>
        0 \<le> x0 \<and> x0 < x1 \<and> x1 \<le> int (gx_w g) \<and> 0 \<le> y0 \<and> y0 < y1 \<and> y1 \<le> int (gx_h g)"
    using bb_clip_spec [OF assms(1) so] by blast
  show ?thesis
  proof (cases r)
    case None
    have no: "\<not> (in_rect x y w h px' py' \<and> visible g px' py')" for px' py'
      using px [of px' py'] None by (simp add: in_bounds_def)
    show ?thesis by (rule exI [of _ ?v0]) (use r None no in \<open>auto simp: blit_rect_def\<close>)
  next
    case (Some b)
    obtain x0 y0 x1 y1 where b: "b = (x0, y0, x1, y1)" by (cases b)
    note bb = bnd [OF Some [unfolded b]]
    have n: "nat ((x1 - x0) * 4) = 4 * nat (x1 - x0)" by simp
    have fit: "nat y0 + nat (y1 - y0) \<le> gx_h g" "4 * nat x0 + nat ((x1 - x0) * 4) \<le> 4 * gx_w g"
      using bb by auto
    obtain v where v: "blit_rows g base (nat y0) (nat x0) (nat (y1 - y0)) (nat ((x1 - x0) * 4)) ?v0 = Some v" "length v = length ?v0"
      and out: "\<forall>j < length ?v0. j < base \<or> base + ?P \<le> j \<longrightarrow> v ! j = ?v0 ! j"
      and inside: "\<forall>cy < gx_h g. \<forall>cx < gx_pitch g. v ! (base + (cy * gx_pitch g + cx)) =
         (if nat y0 \<le> cy \<and> cy < nat y0 + nat (y1 - y0) \<and> 4 * nat x0 \<le> cx \<and> cx < 4 * nat x0 + nat ((x1 - x0) * 4)
          then bb_bytes (gx_bb g) ! (cy * gx_w g * 4 + cx) else ?v0 ! (base + (cy * gx_pitch g + cx)))"
      using blit_rows_spec [OF fit pitch _ base(2)] so by (auto simp: screen_ok_def)
    let ?g' = "g\<lparr>gx_fb := (gx_fb g)\<lparr>fb_vram := v\<rparr>\<rparr>"
    have run: "blit_rect x y w h g = Some ?g'"
      using r Some b base(1) v(1) by (simp add: blit_rect_def fb_active_base_def)
    have pb: "fb_page_base p (gx_fb ?g') = fb_page_base p (gx_fb g)" for p by (simp add: fb_page_base_def)
    have res: "page_byte ?g' p px' py' t =
           (if p = ?a \<and> in_rect x y w h px' py' \<and> visible g px' py' then le32 (pixel g px' py') ! t
            else page_byte g p px' py' t)"
      if p: "p < 2" "page_fits g p" and on: "on_screen g px' py'" and t: "t < 4" for p px' py' t
    proof -
      note rng = page_byte_range [OF on pitch t]
      show ?thesis
      proof (cases "p = ?a")
        case True
        have idx: "(nat y0 \<le> nat py' \<and> nat py' < nat y0 + nat (y1 - y0) \<and> 4 * nat x0 \<le> 4 * nat px' + t
              \<and> 4 * nat px' + t < 4 * nat x0 + nat ((x1 - x0) * 4)) = in_bounds r px' py'"
        proof -
          have "4 * nat x0 \<le> 4 * nat px' + t \<and> 4 * nat px' + t < 4 * nat x0 + nat ((x1 - x0) * 4)
              \<longleftrightarrow> nat x0 \<le> nat px' \<and> nat px' < nat x0 + nat (x1 - x0)"
            using t unfolding n by linarith
          then show ?thesis
            using bb on Some b nat_span [of x0 x1 px'] nat_span [of y0 y1 py'] by (simp add: in_bounds_def on_screen_def) blast
        qed
        have src: "bb_bytes (gx_bb g) ! (nat py' * gx_w g * 4 + (4 * nat px' + t)) = le32 (pixel g px' py') ! t"
        proof -
          let ?i = "nat py' * gx_w g + nat px'"
          have "nat px' < gx_w g" "nat py' < gx_h g" using on by (auto simp: on_screen_def)
          then have "?i < gx_w g * gx_h g" by (rule row_less)
          then have "?i < length (gx_bb g)" using so by (simp add: screen_ok_def)
          then have "bb_bytes (gx_bb g) ! (4 * ?i + t) = le32 (gx_bb g ! ?i) ! t" using t by (intro bb_bytes_nth) simp_all
          moreover have "nat py' * gx_w g * 4 + (4 * nat px' + t) = 4 * ?i + t" by simp
          ultimately show ?thesis by (simp only: pixel_def)
        qed
        show ?thesis
          using inside [rule_format, OF rng] idx px [of px' py'] src True base(1) pb by (simp add: page_byte_def)
      next
        case False
        obtain c where c: "fb_page_base p (gx_fb g) = Some c" "c + ?P \<le> length ?v0" using p(2) by (auto simp: page_fits_def)
        have "c + ?P \<le> base \<or> base + ?P \<le> c"
          using apart False p(1) a2 c(1) base(1) unfolding pages_apart_def fb_page_base_def
          by (cases "p = 0") (auto simp: less_2_cases_iff)
        moreover have "nat py' * gx_pitch g + (4 * nat px' + t) < ?P"
          using row_less [OF rng(2,1)] by (simp add: mult.commute)
        ultimately have "v ! (c + (nat py' * gx_pitch g + (4 * nat px' + t))) = ?v0 ! (c + (nat py' * gx_pitch g + (4 * nat px' + t)))"
          using out c(2) by auto
        then show ?thesis using False c(1) pb by (simp add: page_byte_def)
      qed
    qed
    show ?thesis by (rule exI [of _ v]) (use run v(2) res in auto)
  qed
qed

section \<open>Damage and presentation\<close>

definition covered :: "bool \<Rightarrow> int \<times> int \<times> int \<times> int \<Rightarrow> int \<Rightarrow> int \<Rightarrow> bool" where
  "covered on r px py \<longleftrightarrow> on \<and> (case r of (x, y, w, h) \<Rightarrow> in_rect x y w h px py)"

text \<open>
  Between two frames: the page on display differs from the backbuffer only inside this frame's damage, the
  other page only inside this frame's and the last one's. Damage rectangles are on the screen.
\<close>

definition dmg_ok :: "gfx \<Rightarrow> int \<times> int \<times> int \<times> int \<Rightarrow> bool" where
  "dmg_ok g r \<longleftrightarrow> (case r of (x, y, w, h) \<Rightarrow> 0 \<le> x \<and> 0 \<le> y \<and> 0 < w \<and> 0 < h \<and> x + w \<le> int (gx_w g) \<and> y + h \<le> int (gx_h g))"

definition flip_inv :: "gfx \<Rightarrow> bool" where
  "flip_inv g \<longleftrightarrow> gfx_ok g \<and> \<not> gx_clip_on g \<and> gx_front g < 2 \<and> page_fits g 0 \<and> page_fits g 1
     \<and> (gx_dmg_on g \<longrightarrow> dmg_ok g (gx_dmg g)) \<and> (gx_prev_on g \<longrightarrow> dmg_ok g (gx_prev g))
     \<and> (\<forall>px py. on_screen g px py \<and> \<not> covered (gx_dmg_on g) (gx_dmg g) px py \<longrightarrow> shows_pixel g (gx_front g) px py)
     \<and> (\<forall>px py. on_screen g px py \<and> \<not> covered (gx_dmg_on g) (gx_dmg g) px py \<and> \<not> covered (gx_prev_on g) (gx_prev g) px py
           \<longrightarrow> shows_pixel g (1 - gx_front g) px py)"

lemma dmg_rect64: "dmg_ok g (x, y, w, h) \<Longrightarrow> screen_ok g \<Longrightarrow> rect64 x y w h"
  by (auto simp: dmg_ok_def screen_ok_def rect64_def in64_def)

text \<open>A copy of one damage rectangle to the active page, as \<^verbatim>\<open>present_flip\<close> makes two of.\<close>

definition blit_dmg :: "bool \<Rightarrow> int \<times> int \<times> int \<times> int \<Rightarrow> gfx \<Rightarrow> gfx option" where
  "blit_dmg on r g = (if on then (let (x, y, w, h) = r in blit_rect x y w h g) else Some g)"

lemma blit_dmg_shows:
  assumes "gfx_ok g" "\<not> gx_clip_on g" "page_fits g 0" "page_fits g 1" "on \<longrightarrow> dmg_ok g r"
  shows "\<exists>v. blit_dmg on r g = Some (g\<lparr>gx_fb := (gx_fb g)\<lparr>fb_vram := v\<rparr>\<rparr>) \<and> length v = length (fb_vram (gx_fb g))
    \<and> (\<forall>p px py t. p < 2 \<and> on_screen g px py \<and> t < 4 \<longrightarrow>
         page_byte (g\<lparr>gx_fb := (gx_fb g)\<lparr>fb_vram := v\<rparr>\<rparr>) p px py t =
           (if p = fb_active (gx_fb g) \<and> covered on r px py then le32 (pixel g px py) ! t else page_byte g p px py t))"
proof (cases on)
  case False
  show ?thesis by (rule exI [of _ "fb_vram (gx_fb g)"]) (simp add: blit_dmg_def covered_def False)
next
  case True
  obtain x y w h where r: "r = (x, y, w, h)" by (cases r)
  have fits: "page_fits g p" if "p < 2" for p using assms(3,4) that by (cases "p = 0") (auto simp: less_2_cases_iff)
  have vis: "visible g px py" if "on_screen g px py" for px py
    using that assms(2) by (simp add: visible_def on_screen_def)
  have "rect64 x y w h" using dmg_rect64 [of g x y w h] assms(1,5) True r by (simp add: gfx_ok_def)
  from blit_rect_shows [OF this assms(1)] fits assms(1) obtain v where
    v: "blit_rect x y w h g = Some (g\<lparr>gx_fb := (gx_fb g)\<lparr>fb_vram := v\<rparr>\<rparr>)" "length v = length (fb_vram (gx_fb g))"
      "\<forall>p px py t. p < 2 \<and> page_fits g p \<and> on_screen g px py \<and> t < 4 \<longrightarrow>
         page_byte (g\<lparr>gx_fb := (gx_fb g)\<lparr>fb_vram := v\<rparr>\<rparr>) p px py t =
           (if p = fb_active (gx_fb g) \<and> in_rect x y w h px py \<and> visible g px py then le32 (pixel g px py) ! t
            else page_byte g p px py t)"
    by (auto simp: gfx_ok_def)
  show ?thesis
  proof (intro exI conjI allI impI)
    show "blit_dmg on r g = Some (g\<lparr>gx_fb := (gx_fb g)\<lparr>fb_vram := v\<rparr>\<rparr>)" using v(1) True r by (simp add: blit_dmg_def)
    show "length v = length (fb_vram (gx_fb g))" by (rule v(2))
    fix p t :: nat and px py :: int
    assume a: "p < 2 \<and> on_screen g px py \<and> t < 4"
    then show "page_byte (g\<lparr>gx_fb := (gx_fb g)\<lparr>fb_vram := v\<rparr>\<rparr>) p px py t =
        (if p = fb_active (gx_fb g) \<and> covered on r px py then le32 (pixel g px py) ! t else page_byte g p px py t)"
      using v(3) fits [of p] vis [of px py] True r by (simp add: covered_def)
  qed
qed

lemma present_flip_unfold:
  "present_flip g =
     (let back = (if gx_front g = 0 then 1 else 0) in
      do { g1 \<leftarrow> blit_dmg (gx_prev_on g) (gx_prev g) (g\<lparr>gx_fb := fb_set_active_page back (gx_fb g)\<rparr>);
           g2 \<leftarrow> blit_dmg (gx_dmg_on g1) (gx_dmg g1) g1;
           Some (g2\<lparr>gx_prev_on := gx_dmg_on g2, gx_prev := gx_dmg g2, gx_dmg_on := False,
                   gx_fb := fb_flip_pages (gx_fb g2), gx_front := back\<rparr>) })"
  unfolding present_flip_def blit_dmg_def Let_def by simp

text \<open>What a page shows does not depend on the fields that the flip sets.\<close>

lemma page_byte_cong:
  assumes "fb_vram (gx_fb g') = fb_vram (gx_fb g)" "fb_base0 (gx_fb g') = fb_base0 (gx_fb g)"
    "fb_base1 (gx_fb g') = fb_base1 (gx_fb g)" "gx_pitch g' = gx_pitch g"
  shows "page_byte g' p px py t = page_byte g p px py t"
  using assms by (simp add: page_byte_def fb_page_base_def)

lemma flip_regs:
  "fb_vram (fb_flip_pages f) = fb_vram f" "fb_base0 (fb_flip_pages f) = fb_base0 f" "fb_base1 (fb_flip_pages f) = fb_base1 f"
  "fb_active (fb_flip_pages f) = fb_active f" "fb_h (fb_flip_pages f) = fb_h f" "fb_double (fb_flip_pages f) = fb_double f"
  by (simp_all add: fb_flip_pages_def vbe_write_def Let_def)

lemma present_flip_ok:
  assumes "flip_inv g"
  shows "\<exists>g'. present_flip g = Some g' \<and> flip_inv g' \<and> gx_front g' = 1 - gx_front g \<and> gx_bb g' = gx_bb g
    \<and> (\<forall>px py. on_screen g' px py \<longrightarrow> shows_pixel g' (gx_front g') px py)"
proof -
  have inv: "gfx_ok g" "\<not> gx_clip_on g" "gx_front g < 2" "page_fits g 0" "page_fits g 1"
    "gx_dmg_on g \<longrightarrow> dmg_ok g (gx_dmg g)" "gx_prev_on g \<longrightarrow> dmg_ok g (gx_prev g)"
    and front: "\<And>px py. on_screen g px py \<Longrightarrow> \<not> covered (gx_dmg_on g) (gx_dmg g) px py \<Longrightarrow> shows_pixel g (gx_front g) px py"
    and behind: "\<And>px py. on_screen g px py \<Longrightarrow> \<not> covered (gx_dmg_on g) (gx_dmg g) px py \<Longrightarrow>
        \<not> covered (gx_prev_on g) (gx_prev g) px py \<Longrightarrow> shows_pixel g (1 - gx_front g) px py"
    using assms by (simp_all add: flip_inv_def)
  define bk where "bk = 1 - gx_front g"
  have bk: "bk = (if gx_front g = 0 then 1 else 0)" "bk < 2" "bk \<noteq> gx_front g" "1 - bk = gx_front g"
    using inv(3) by (cases "gx_front g = 0"; simp add: bk_def)+
  define g0 where "g0 = g\<lparr>gx_fb := fb_set_active_page bk (gx_fb g)\<rparr>"
  have act0: "fb_active (gx_fb g0) = bk" using bk(2) by (simp add: g0_def fb_set_active_page_def)
  have same0: "on_screen g0 = on_screen g" "pixel g0 = pixel g" "\<not> gx_clip_on g0" "page_byte g0 = page_byte g"
    by (simp_all add: g0_def on_screen_def pixel_def page_byte_def fb_set_active_page_def fb_page_base_def inv(2) fun_eq_iff)
  have ok0: "gfx_ok g0" "page_fits g0 0" "page_fits g0 1" "gx_prev_on g \<longrightarrow> dmg_ok g0 (gx_prev g)"
    using inv bk(2) by (simp_all add: g0_def gfx_ok_def screen_ok_def pages_apart_def page_fits_def fb_page_base_def
        fb_set_active_page_def dmg_ok_def)
  obtain v1 where v1: "blit_dmg (gx_prev_on g) (gx_prev g) g0 = Some (g0\<lparr>gx_fb := (gx_fb g0)\<lparr>fb_vram := v1\<rparr>\<rparr>)"
      "length v1 = length (fb_vram (gx_fb g0))"
    and b1: "\<forall>p px py t. p < 2 \<and> on_screen g0 px py \<and> t < 4 \<longrightarrow>
         page_byte (g0\<lparr>gx_fb := (gx_fb g0)\<lparr>fb_vram := v1\<rparr>\<rparr>) p px py t =
           (if p = fb_active (gx_fb g0) \<and> covered (gx_prev_on g) (gx_prev g) px py then le32 (pixel g0 px py) ! t else page_byte g0 p px py t)"
    using blit_dmg_shows [OF ok0(1) same0(3) ok0(2,3,4)] by blast
  define g1 where "g1 = g0\<lparr>gx_fb := (gx_fb g0)\<lparr>fb_vram := v1\<rparr>\<rparr>"
  have same1: "on_screen g1 = on_screen g" "pixel g1 = pixel g" "\<not> gx_clip_on g1" "fb_active (gx_fb g1) = bk"
    "gx_dmg_on g1 = gx_dmg_on g" "gx_dmg g1 = gx_dmg g"
    using same0 act0 by (simp_all add: g1_def on_screen_def pixel_def fun_eq_iff) (simp_all add: g0_def)
  have ok1: "gfx_ok g1" "page_fits g1 0" "page_fits g1 1" "gx_dmg_on g \<longrightarrow> dmg_ok g1 (gx_dmg g)"
    using ok0 inv(6) v1(2) by (simp_all add: g1_def gfx_ok_def screen_ok_def pages_apart_def page_fits_def fb_page_base_def dmg_ok_def)
      (simp add: g0_def)
  obtain v2 where v2: "blit_dmg (gx_dmg_on g) (gx_dmg g) g1 = Some (g1\<lparr>gx_fb := (gx_fb g1)\<lparr>fb_vram := v2\<rparr>\<rparr>)"
      "length v2 = length (fb_vram (gx_fb g1))"
    and b2: "\<forall>p px py t. p < 2 \<and> on_screen g1 px py \<and> t < 4 \<longrightarrow>
         page_byte (g1\<lparr>gx_fb := (gx_fb g1)\<lparr>fb_vram := v2\<rparr>\<rparr>) p px py t =
           (if p = fb_active (gx_fb g1) \<and> covered (gx_dmg_on g) (gx_dmg g) px py then le32 (pixel g1 px py) ! t else page_byte g1 p px py t)"
    using blit_dmg_shows [OF ok1(1) same1(3) ok1(2,3,4)] by blast
  define g2 where "g2 = g1\<lparr>gx_fb := (gx_fb g1)\<lparr>fb_vram := v2\<rparr>\<rparr>"
  define g' where "g' = g2\<lparr>gx_prev_on := gx_dmg_on g2, gx_prev := gx_dmg g2, gx_dmg_on := False,
                   gx_fb := fb_flip_pages (gx_fb g2), gx_front := bk\<rparr>"
  have run: "present_flip g = Some g'"
    unfolding present_flip_unfold Let_def bk(1) [symmetric] g0_def [symmetric]
    using v1(1) v2(1) same1(5,6) by (simp add: g1_def [symmetric] g2_def [symmetric] g'_def)
  have bytes: "page_byte g' p px py t =
      (if p = bk \<and> (covered (gx_dmg_on g) (gx_dmg g) px py \<or> covered (gx_prev_on g) (gx_prev g) px py)
       then le32 (pixel g px py) ! t else page_byte g p px py t)"
    if "p < 2" "on_screen g px py" "t < 4" for p px py t
  proof -
    have "page_byte g' p px py t = page_byte g2 p px py t" by (rule page_byte_cong) (simp_all add: g'_def flip_regs)
    also have "\<dots> = (if p = bk \<and> covered (gx_dmg_on g) (gx_dmg g) px py then le32 (pixel g px py) ! t else page_byte g1 p px py t)"
      using b2 that same1 unfolding g2_def by simp
    also have "page_byte g1 p px py t = (if p = bk \<and> covered (gx_prev_on g) (gx_prev g) px py then le32 (pixel g px py) ! t
        else page_byte g p px py t)"
      using b1 that same0 act0 unfolding g1_def by simp
    finally show ?thesis by auto
  qed
  have pix: "pixel g' = pixel g" "on_screen g' = on_screen g" "gx_front g' = bk" "gx_bb g' = gx_bb g"
    by (simp_all add: g'_def g2_def g1_def g0_def pixel_def on_screen_def fun_eq_iff)
  have full: "shows_pixel g' bk px py" if "on_screen g px py" for px py
    unfolding shows_pixel_def pix
    using bytes [OF bk(2) that] behind [OF that] by (auto simp: shows_pixel_def bk_def)
  have other: "shows_pixel g' (gx_front g) px py" if "on_screen g px py" "\<not> covered (gx_dmg_on g) (gx_dmg g) px py" for px py
    unfolding shows_pixel_def pix using bytes [OF inv(3) that(1)] front [OF that] bk(3) by (simp add: shows_pixel_def)
  have dmg': "gx_dmg_on g' = False" "gx_prev_on g' = gx_dmg_on g" "gx_prev g' = gx_dmg g"
    by (simp_all add: g'_def g2_def g1_def g0_def)
  have ok': "gfx_ok g'" "page_fits g' 0" "page_fits g' 1" "\<not> gx_clip_on g'" "gx_dmg_on g \<longrightarrow> dmg_ok g' (gx_dmg g)"
    using ok1 v2(2) same1(3) by (simp_all add: g'_def g2_def gfx_ok_def screen_ok_def pages_apart_def page_fits_def
        fb_page_base_def dmg_ok_def flip_regs)
  have "flip_inv g'"
    unfolding flip_inv_def dmg' pix(2,3) bk(4) using ok' bk(2) full other by (simp add: covered_def)
  then show ?thesis using run full pix by (auto simp: bk_def)
qed

text \<open>Page flipping shows the scene: if the pages differ from the backbuffer at most inside the damage, then
  presenting a frame succeeds, the page that it puts on display shows the backbuffer at every pixel, and the
  condition holds again for the next frame.\<close>

theorem present_flip_shows:
  assumes "flip_inv g"
  shows "\<exists>g'. present_flip g = Some g' \<and> flip_inv g' \<and> gx_front g' = 1 - gx_front g \<and> gx_bb g' = gx_bb g
    \<and> (\<forall>px py. on_screen g' px py \<longrightarrow> shows_pixel g' (gx_front g') px py)"
  by (rule present_flip_ok [OF assms])

lemma damage_add_inv:
  assumes inv: "flip_inv g" and bb: "bb_only g g1" and rect: "rect64 x y w h"
    and inside: "\<forall>px py. on_screen g px py \<and> \<not> in_rect x y w h px py \<longrightarrow> pixel g1 px py = pixel g px py"
  shows "\<exists>g2. damage_add x y w h g1 = Some g2 \<and> flip_inv g2 \<and> gx_bb g2 = gx_bb g1"
proof -
  obtain b where b: "g1 = g\<lparr>gx_bb := b\<rparr>" "length b = length (gx_bb g)" using bb by (auto simp: bb_only_def)
  have i: "gfx_ok g" "\<not> gx_clip_on g" "gx_front g < 2" "page_fits g 0" "page_fits g 1"
    "gx_dmg_on g \<longrightarrow> dmg_ok g (gx_dmg g)" "gx_prev_on g \<longrightarrow> dmg_ok g (gx_prev g)"
    and front: "\<And>px py. on_screen g px py \<Longrightarrow> \<not> covered (gx_dmg_on g) (gx_dmg g) px py \<Longrightarrow> shows_pixel g (gx_front g) px py"
    and behind: "\<And>px py. on_screen g px py \<Longrightarrow> \<not> covered (gx_dmg_on g) (gx_dmg g) px py \<Longrightarrow>
        \<not> covered (gx_prev_on g) (gx_prev g) px py \<Longrightarrow> shows_pixel g (1 - gx_front g) px py"
    using inv by (simp_all add: flip_inv_def)
  have so: "screen_ok g1" using i(1) b by (simp add: gfx_ok_def screen_ok_def)
  have vis: "visible g1 px py = on_screen g px py" for px py using i(2) b by (simp add: visible_def on_screen_def)
  obtain r where r: "bb_clip x y w h g1 = Some r"
    and px: "\<And>px py. in_bounds r px py \<longleftrightarrow> in_rect x y w h px py \<and> on_screen g px py"
    and bnd: "\<And>x0 y0 x1 y1. r = Some (x0, y0, x1, y1) \<Longrightarrow>
        0 \<le> x0 \<and> x0 < x1 \<and> x1 \<le> int (gx_w g) \<and> 0 \<le> y0 \<and> y0 < y1 \<and> y1 \<le> int (gx_h g)"
    using bb_clip_spec [OF rect so] vis b by auto
  have keep: "flip_inv (g1\<lparr>gx_dmg := r', gx_dmg_on := on\<rparr>)"
    if d: "on \<longrightarrow> dmg_ok g r'"
      and cov: "\<And>px py. on_screen g px py \<Longrightarrow> in_rect x y w h px py \<or> covered (gx_dmg_on g) (gx_dmg g) px py \<Longrightarrow> covered on r' px py"
    for r' on
  proof -
    let ?g2 = "g1\<lparr>gx_dmg := r', gx_dmg_on := on\<rparr>"
    have same: "shows_pixel ?g2 p px py = shows_pixel g p px py" if "on_screen g px py" "\<not> in_rect x y w h px py" for p px py
    proof -
      have "pixel ?g2 px py = pixel g px py" using inside that b by (simp add: pixel_def)
      moreover have "page_byte ?g2 p px py t = page_byte g p px py t" for t by (simp add: page_byte_def b)
      ultimately show ?thesis by (simp add: shows_pixel_def)
    qed
    have "shows_pixel ?g2 (gx_front g) px py" if "on_screen g px py" "\<not> covered on r' px py" for px py
      using same [OF that(1)] front [OF that(1)] cov [OF that(1)] that(2) by blast
    moreover have "shows_pixel ?g2 (1 - gx_front g) px py"
      if "on_screen g px py" "\<not> covered on r' px py" "\<not> covered (gx_prev_on g) (gx_prev g) px py" for px py
      using same [OF that(1)] behind [OF that(1) _ that(3)] cov [OF that(1)] that(2) by blast
    moreover have "on_screen ?g2 = on_screen g" by (simp add: on_screen_def b fun_eq_iff)
    ultimately show ?thesis
      using i d b unfolding flip_inv_def
      by (simp add: gfx_ok_def screen_ok_def pages_apart_def page_fits_def dmg_ok_def)
  qed
  show ?thesis
  proof (cases r)
    case None
    then have out: "\<not> in_rect x y w h px py" if "on_screen g px py" for px py
      using px [of px py] that None by (simp add: in_bounds_def)
    have "g1 = g1\<lparr>gx_dmg := gx_dmg g, gx_dmg_on := gx_dmg_on g\<rparr>" by (simp add: b)
    then have "flip_inv g1" using keep [of "gx_dmg_on g" "gx_dmg g"] i(6) out by auto
    then show ?thesis using r None by (simp add: damage_add_def)
  next
    case (Some b')
    obtain x0 y0 x1 y1 where b': "b' = (x0, y0, x1, y1)" by (cases b')
    note bb' = bnd [OF Some [unfolded b']]
    have inb: "x0 \<le> px \<and> px < x1 \<and> y0 \<le> py \<and> py < y1" if "on_screen g px py" "in_rect x y w h px py" for px py
      using px [of px py] that Some b' by (simp add: in_bounds_def)
    show ?thesis
    proof (cases "gx_dmg_on g")
      case False
      have "flip_inv (g1\<lparr>gx_dmg := (x0, y0, x1 - x0, y1 - y0), gx_dmg_on := True\<rparr>)"
        using bb' inb False by (intro keep) (auto simp: dmg_ok_def covered_def in_rect_def)
      then show ?thesis using r Some b' False b by (simp add: damage_add_def)
    next
      case True
      obtain dx dy dw dh where d: "gx_dmg g = (dx, dy, dw, dh)" by (cases "gx_dmg g")
      have dok: "0 \<le> dx" "0 \<le> dy" "0 < dw" "0 < dh" "dx + dw \<le> int (gx_w g)" "dy + dh \<le> int (gx_h g)"
        using i(6) True d by (auto simp: dmg_ok_def)
      let ?u = "(min dx x0, min dy y0, max (dx + dw) x1 - min dx x0, max (dy + dh) y1 - min dy y0)"
      have "flip_inv (g1\<lparr>gx_dmg := ?u, gx_dmg_on := True\<rparr>)"
      proof (rule keep)
        show "True \<longrightarrow> dmg_ok g ?u" using bb' dok by (auto simp: dmg_ok_def min_def max_def)
        show "covered True ?u px py"
          if "on_screen g px py" "in_rect x y w h px py \<or> covered (gx_dmg_on g) (gx_dmg g) px py" for px py
          using inb [OF that(1)] that(2) d by (auto simp: covered_def in_rect_def min_def max_def)
      qed
      moreover have "g1\<lparr>gx_dmg := ?u, gx_dmg_on := True\<rparr> = g1\<lparr>gx_dmg := ?u\<rparr>" using True b(1) by simp
      ultimately have inv2: "flip_inv (g1\<lparr>gx_dmg := ?u\<rparr>)" by (rule subst [rotated])
      have g1: "gx_dmg_on g1" "gx_dmg g1 = (dx, dy, dw, dh)" using True b(1) d by simp_all
      have "damage_add x y w h g1 = Some (g1\<lparr>gx_dmg := ?u\<rparr>)" using r Some b' g1 by (simp add: damage_add_def Let_def)
      then show ?thesis using inv2 by simp
    qed
  qed
qed

text \<open>Damage keeps the pages repairable: after any drawing that changes only pixels of a rectangle,
  recording that rectangle succeeds and the condition for presenting holds again.\<close>

theorem damage_add_keeps:
  assumes inv: "flip_inv g" and bb: "bb_only g g1" and rect: "rect64 x y w h"
    and inside: "\<forall>px py. on_screen g px py \<and> \<not> in_rect x y w h px py \<longrightarrow> pixel g1 px py = pixel g px py"
  shows "\<exists>g2. damage_add x y w h g1 = Some g2 \<and> flip_inv g2 \<and> gx_bb g2 = gx_bb g1"
  by (rule damage_add_inv [OF assms])

text \<open>A screen of one pixel with two pages, for concrete instances.\<close>

definition tiny_gfx :: "u32 \<Rightarrow> bool \<Rightarrow> gfx" where
  "tiny_gfx c on = \<lparr>gx_w = 1, gx_h = 1, gx_pitch = 4, gx_bb = c # replicate 16 0, gx_bb_addr = 0,
     gx_fb = \<lparr>fb_present = True, fb_w = 1, fb_h = 1, fb_pitch = 4, fb_vram = replicate 8 0, fb_base0 = Some 0,
       fb_base1 = Some 4, fb_active = 0, fb_double = True, fb_page_bytes = 4, fb_vsync = False, fb_regs = [], fb_mapped = []\<rparr>,
     gx_fb_addr = 0, gx_flip = True, gx_front = 0, gx_canary = [], gx_clip_on = False, gx_clip = (0, 0, 0, 0),
     gx_dmg_on = on, gx_dmg = (0, 0, 1, 1), gx_prev_on = False, gx_prev = (0, 0, 0, 0)\<rparr>"

lemma tiny_gfx_inv:
  assumes "on \<or> c = 0"
  shows "flip_inv (tiny_gfx c on)"
proof -
  have scr: "on_screen (tiny_gfx c on) px py \<longleftrightarrow> px = 0 \<and> py = 0" for px py by (auto simp: on_screen_def tiny_gfx_def)
  have z: "le32 0 ! t = 0" if "t < 4" for t using that by (auto simp: le32_def bytes32_def nth_Cons' less_Suc_eq numeral_eq_Suc)
  have "replicate 8 (0 :: u8) ! (k + t) = 0" if "k \<le> 4" "t < 4" for k t using that by (simp del: replicate.simps)
  from this [of 0] this [of 4] z have "shows_pixel (tiny_gfx 0 on) 0 0 0" "shows_pixel (tiny_gfx 0 on) 1 0 0"
    by (simp_all add: shows_pixel_def page_byte_def tiny_gfx_def fb_page_base_def pixel_def del: replicate.simps)
  then have "\<forall>px py. on_screen (tiny_gfx c on) px py \<and> \<not> covered on (0, 0, 1, 1) px py \<longrightarrow>
      shows_pixel (tiny_gfx c on) 0 px py \<and> shows_pixel (tiny_gfx c on) 1 px py"
    using assms scr by (auto simp: covered_def in_rect_def)
  moreover have "gfx_ok (tiny_gfx c on)" "page_fits (tiny_gfx c on) 0" "page_fits (tiny_gfx c on) 1"
      "dmg_ok (tiny_gfx c on) (0, 0, 1, 1)"
    by (simp_all add: tiny_gfx_def gfx_ok_def screen_ok_def pages_apart_def page_fits_def fb_page_base_def dmg_ok_def)
  moreover have "gx_dmg_on (tiny_gfx c on) = on" "gx_dmg (tiny_gfx c on) = (0, 0, 1, 1)" "gx_front (tiny_gfx c on) = 0"
      "\<not> gx_prev_on (tiny_gfx c on)" "\<not> gx_clip_on (tiny_gfx c on)"
    by (simp_all add: tiny_gfx_def)
  ultimately show ?thesis unfolding flip_inv_def by (cases on) simp_all
qed

theorem present_flip_shows_witness:
  "\<exists>g'. present_flip (tiny_gfx 7 True) = Some g' \<and> gx_front g' = 1 \<and> flip_inv g'"
proof -
  have "gx_front (tiny_gfx 7 True) = 0" by (simp add: tiny_gfx_def)
  then show ?thesis using present_flip_shows [OF tiny_gfx_inv [of True 7]] by auto
qed

theorem damage_add_keeps_witness:
  "\<exists>g2. damage_add 0 0 1 1 (tiny_gfx 7 False) = Some g2 \<and> flip_inv g2"
proof -
  have "bb_only (tiny_gfx 0 False) (tiny_gfx 7 False)"
    unfolding bb_only_def by (rule exI [of _ "7 # replicate 16 0"]) (auto simp: tiny_gfx_def nth_Cons')
  then show ?thesis
    using damage_add_keeps [OF tiny_gfx_inv [of False 0], of "tiny_gfx 7 False" 0 0 1 1]
    by (auto simp: rect64_def in64_def in_rect_def on_screen_def tiny_gfx_def)
qed

theorem bb_draw_string_safe_witness:
  "\<exists>g'. bb_draw_string (replicate 128 (replicate 8 0xFF)) (- 3) 0 [104, 105] 7 (tiny_gfx 0 False) = Some (13, g')
     \<and> draws (tiny_gfx 0 False) g'"
proof -
  have "font_ok (replicate 128 (replicate 8 0xFF))" "\<forall>c \<in> set [104, 105 :: u8]. c < 128" "screen_ok (tiny_gfx 0 False)"
    by (simp_all add: font_ok_def list_all_iff screen_ok_def tiny_gfx_def del: replicate.simps)
  from bb_draw_string_safe [OF this(1,2) _ _ _ _ this(3), of "- 3" 0 7] show ?thesis by simp
qed

text \<open>The background's gradient does not end in its bottom colour: the differences of the channels are unsigned,
  so that they wrap before the division, and the last row of a screen has another colour than
  \<open>BG_BOTTOM\<close>, with the byte above the red channel set.\<close>

theorem gradient_misses_bottom:
  assumes "2 \<le> h" "h \<le> 2 ^ 32"
  shows "gradient_color (h - 1) h = 0x01131D2F \<and> BG_BOTTOM \<noteq> 0x01131D2F"
proof -
  define m where "m = h - 1"
  have m: "0 < unat m" "unat m < 2 ^ 32"
    using assms by (auto simp: m_def unat_sub_if' word_le_nat_alt)
  then have "unat (m * 255) = unat m * 255" by (simp add: unat_word_ariths)
  then have "unat (m * 255 div m) = unat m * 255 div unat m" by (simp add: unat_div_distrib)
  also have "\<dots> = unat (255 :: u64)" using m(1) by simp
  finally have t: "(h - 1) * 255 div (h - 1) = 255" unfolding m_def by (simp add: word_unat_eq_iff)
  have "\<not> h \<le> 1" using assms(1) by (simp add: word_le_nat_alt)
  then show ?thesis unfolding gradient_color_def t by (simp add: Let_def chan_def BG_TOP_def BG_BOTTOM_def)
qed

theorem gradient_misses_bottom_witness: "gradient_color 767 768 = 0x01131D2F"
  using gradient_misses_bottom [of 768] by simp

end
