(* ===== verification/Desktop_Notepad.thy ===== *)
theory Desktop_Notepad
  imports Desktop_Files
begin

text \<open>
  What the notepad and the files of \<^verbatim>\<open>kernel/desktop.c\<close> do. The table of files implements a finite map
  from names to contents (\<open>fs_map\<close>), the text with its cursor the two lists before and behind the cursor
  (\<open>np_abs\<close>), the save-as line a string with a position; every key leads from a well-formed notepad to a
  well-formed one (\<open>np_ok\<close>, \<open>fs_ok\<close>).
\<close>

section \<open>Strings\<close>

definition terminated :: "bytes \<Rightarrow> bool" where
  "terminated a \<longleftrightarrow> 0 \<in> set a"

definition cstr :: "bytes \<Rightarrow> bytes" where
  "cstr a = takeWhile (\<lambda>c. c \<noteq> 0) a"

lemma cstr_nth: "i < length (cstr a) \<Longrightarrow> i < length a \<and> cstr a ! i = a ! i \<and> a ! i \<noteq> 0"
  using nth_mem [of i "cstr a"] length_takeWhile_le [of "\<lambda>c. c \<noteq> 0" a]
  by (auto simp: cstr_def takeWhile_nth dest: set_takeWhileD)

lemma cstr_end: "terminated a \<Longrightarrow> length (cstr a) < length a \<and> a ! length (cstr a) = 0"
proof -
  assume "terminated a"
  then have "length (cstr a) < length a"
    unfolding cstr_def terminated_def by (induction a) auto
  then show ?thesis using nth_length_takeWhile [of "\<lambda>c. c \<noteq> 0" a] by (auto simp: cstr_def)
qed

lemma cstr_take: "take (length (cstr a)) a = cstr a"
  by (simp add: cstr_def takeWhile_eq_take [symmetric])

lemma cstr_append: "0 \<notin> set p \<Longrightarrow> cstr (p @ 0 # z) = p"
  by (auto simp: cstr_def takeWhile_append)

lemma cstr_no_zero: "0 \<notin> set (cstr a)"
  by (auto simp: cstr_def dest: set_takeWhileD)

lemma terminated_split:
  assumes "terminated a"
  obtains z where "a = cstr a @ 0 # z"
proof -
  have "a = take (length (cstr a)) a @ a ! length (cstr a) # drop (Suc (length (cstr a))) a"
    using cstr_end [OF assms] by (intro id_take_nth_drop) simp
  then show ?thesis using that cstr_end [OF assms] cstr_take [of a] by metis
qed

lemma terminated_append [simp]: "terminated (p @ 0 # z)"
  by (simp add: terminated_def)

lemma cstr_same_spec: "terminated a \<Longrightarrow> terminated b \<Longrightarrow> cstr_same a b = Some (cstr a = cstr b)"
  by (induction a b rule: cstr_same.induct) (auto simp: terminated_def cstr_def)

lemma copy_cstr_spec:
  assumes "terminated src" "m < length dst" "n \<le> min m (length (cstr src))" "take n dst = take n src"
  shows "\<exists>z. copy_cstr m src dst n = Some (min m (length (cstr src)), take m (cstr src) @ 0 # z)
    \<and> length (take m (cstr src) @ 0 # z) = length dst"
  using assms
proof (induction "m - n" arbitrary: n dst rule: less_induct)
  case less
  have n: "n < length src" using less.prems(1,3) cstr_end [OF less.prems(1)] by auto
  have eq: "take n src = take n (cstr src)" using less.prems(3) cstr_take [of src] by (metis min.bounded_iff take_take min_def)
  show ?case
  proof (cases "n < min m (length (cstr src))")
    case True
    then have c: "src ! n \<noteq> 0" "n < m" "n < length dst" using cstr_nth [of n src] less.prems(2) by auto
    have "take (Suc n) (dst[n := src ! n]) = take (Suc n) src"
      using c(3) n less.prems(4) by (simp add: take_Suc_conv_app_nth)
    then show ?thesis
      using less.hyps [of "n + 1" "dst[n := src ! n]"] less.prems True c n
      by (simp add: copy_cstr.simps [of m src dst n] mem_simps)
  next
    case False
    then have nk: "n = min m (length (cstr src))" using less.prems(3) by linarith
    then have stop: "\<not> (src ! n \<noteq> 0 \<and> n < m)" using cstr_end [OF less.prems(1)] by (auto simp: min_def split: if_splits)
    have "n < length dst" using nk less.prems(2) by simp
    from this less.prems(4) eq nk have "dst[n := 0] = take m (cstr src) @ 0 # drop (Suc n) dst"
      by (simp add: upd_conv_take_nth_drop min_def split: if_splits)
    have len: "length (take m (cstr src) @ 0 # drop (Suc n) dst) = length dst"
      using \<open>dst[n := 0] = _\<close> by (metis length_list_update)
    have "copy_cstr m src dst n = Some (n, dst[n := 0])"
      using stop n \<open>n < length dst\<close> by (subst copy_cstr.simps) (simp only: rd_Some wr_Some if_False Option.bind.simps)
    then show ?thesis using \<open>dst[n := 0] = _\<close> len nk by (intro exI [of _ "drop (Suc n) dst"]) simp
  qed
qed

lemma copy_cstr_fits:
  assumes "terminated src" "m < length dst"
  obtains d where "copy_cstr m src dst 0 = Some (min m (length (cstr src)), d)" "length d = length dst" "terminated d"
    "cstr d = take m (cstr src)"
proof -
  obtain z where "copy_cstr m src dst 0 = Some (min m (length (cstr src)), take m (cstr src) @ 0 # z)"
      "length (take m (cstr src) @ 0 # z) = length dst"
    using copy_cstr_spec [OF assms, of 0] by auto
  moreover have "0 \<notin> set (take m (cstr src))" using cstr_no_zero [of src] in_set_takeD by fastforce
  ultimately show ?thesis using that cstr_append terminated_append by blast
qed

section \<open>The table of files is a map\<close>

definition file_ok :: "fs_file \<Rightarrow> bool" where
  "file_ok f \<longleftrightarrow> length (ff_name f) = NOTEPAD_MAX_FNAME \<and> terminated (ff_name f)
     \<and> length (ff_data f) = FS_MAX_FDATA \<and> ff_len f \<le> FS_MAX_FDATA"

definition named :: "bytes \<Rightarrow> fs_file \<Rightarrow> bool" where
  "named nm f \<longleftrightarrow> ff_used f \<and> cstr (ff_name f) = nm"

definition fs_ok :: "fs_file list \<Rightarrow> bool" where
  "fs_ok fs \<longleftrightarrow> length fs = FS_MAX_FILES \<and> (\<forall>i < length fs. file_ok (fs ! i))
     \<and> (\<forall>i < length fs. \<forall>j < length fs. \<forall>nm. named nm (fs ! i) \<and> named nm (fs ! j) \<longrightarrow> i = j)"

definition content :: "fs_file \<Rightarrow> bytes" where
  "content f = take (ff_len f) (ff_data f)"

definition fs_map :: "fs_file list \<Rightarrow> bytes \<Rightarrow> bytes option" where
  "fs_map fs nm = map_option content (find (named nm) fs)"

definition fs_full :: "fs_file list \<Rightarrow> bool" where
  "fs_full fs \<longleftrightarrow> list_all ff_used fs"

lemma fs_uniq: "fs_ok fs \<Longrightarrow> i < length fs \<Longrightarrow> j < length fs \<Longrightarrow> named nm (fs ! i) \<Longrightarrow> named nm (fs ! j) \<Longrightarrow> i = j"
  unfolding fs_ok_def by blast

lemma fs_map_at:
  assumes "fs_ok fs" "i < length fs" "named nm (fs ! i)"
  shows "fs_map fs nm = Some (content (fs ! i))"
proof -
  obtain f where f: "find (named nm) fs = Some f" using assms(2,3) by (metis find_None_iff not_None_eq nth_mem)
  then obtain j where "j < length fs" "named nm (fs ! j)" "f = fs ! j" by (auto simp: find_Some_iff)
  then show ?thesis using fs_uniq [OF assms(1,2) _ assms(3)] f by (auto simp: fs_map_def)
qed

lemma fs_map_none: "\<forall>i < length fs. \<not> named nm (fs ! i) \<Longrightarrow> fs_map fs nm = None"
  by (auto simp: fs_map_def find_None_iff in_set_conv_nth)

lemma fs_map_cases:
  assumes "fs_ok fs"
  obtains i where "i < length fs" "named nm (fs ! i)" "fs_map fs nm = Some (content (fs ! i))"
  | "\<forall>i < length fs. \<not> named nm (fs ! i)" "fs_map fs nm = None"
proof (cases "\<exists>i < length fs. named nm (fs ! i)")
  case True
  then show ?thesis using that(1) fs_map_at [OF assms] by blast
next
  case False
  then show ?thesis using that(2) fs_map_none [of fs nm] by simp
qed

text \<open>Replacing the slot of a name, or a free slot, by one of that name changes the map at that name.\<close>

lemma fs_upd:
  assumes ok: "fs_ok fs" and i: "i < length fs" and f: "file_ok f" "named nm f"
    and old: "named nm (fs ! i) \<or> \<not> ff_used (fs ! i) \<and> fs_map fs nm = None"
  shows "fs_ok (fs[i := f]) \<and> fs_map (fs[i := f]) = (fs_map fs)(nm \<mapsto> content f)"
proof
  have other: "\<not> named nm (fs ! j)" if "j < length fs" "j \<noteq> i" for j
    using old fs_uniq [OF ok that(1) i, of nm] that(2) fs_map_at [OF ok that(1), of nm] by auto
  have uniq: "named n' f \<longleftrightarrow> n' = nm" for n' using f(2) by (auto simp: named_def)
  show ok': "fs_ok (fs[i := f])"
    using ok i f other uniq unfolding fs_ok_def by (auto simp: nth_list_update)
  show "fs_map (fs[i := f]) = (fs_map fs)(nm \<mapsto> content f)"
  proof
    fix n'
    show "fs_map (fs[i := f]) n' = ((fs_map fs)(nm \<mapsto> content f)) n'"
    proof (cases "n' = nm")
      case True
      then show ?thesis using fs_map_at [OF ok', of i nm] i f by simp
    next
      case False
      show ?thesis
      proof (cases rule: fs_map_cases [OF ok, of n'])
        case (1 j)
        then have "j \<noteq> i" using False old by (auto simp: named_def)
        then show ?thesis using 1 fs_map_at [OF ok', of j n'] False by simp
      next
        case 2
        then have "fs_map (fs[i := f]) n' = None"
          using False uniq i by (intro fs_map_none) (auto simp: nth_list_update)
        then show ?thesis using 2 False by simp
      qed
    qed
  qed
qed

lemma fs_find_from_spec:
  assumes "\<forall>f \<in> set fs. file_ok f" "terminated name"
  shows "\<exists>r. fs_find_from name k fs = Some r \<and>
    (r = - 1 \<and> (\<forall>i < length fs. \<not> named (cstr name) (fs ! i))
     \<or> (\<exists>i < length fs. r = int (k + i) \<and> named (cstr name) (fs ! i)))"
  using assms(1)
proof (induction fs arbitrary: k)
  case (Cons f fs)
  have eq: "cstr_same (ff_name f) name = Some (cstr (ff_name f) = cstr name)"
    using cstr_same_spec Cons.prems assms(2) by (simp add: file_ok_def)
  obtain r where r: "fs_find_from name (k + 1) fs = Some r"
    "r = - 1 \<and> (\<forall>i < length fs. \<not> named (cstr name) (fs ! i))
     \<or> (\<exists>i < length fs. r = int (k + 1 + i) \<and> named (cstr name) (fs ! i))"
    using Cons.IH [of "k + 1"] Cons.prems by auto
  show ?case
  proof (cases "named (cstr name) f")
    case True
    then show ?thesis using eq by (auto simp: named_def intro!: exI [of _ 0])
  next
    case False
    then have "fs_find_from name k (f # fs) = Some r" using eq r(1) by (auto simp: named_def)
    moreover have "r = - 1 \<and> (\<forall>i < length (f # fs). \<not> named (cstr name) ((f # fs) ! i))
        \<or> (\<exists>i < length (f # fs). r = int (k + i) \<and> named (cstr name) ((f # fs) ! i))"
      using r(2) False by (force simp: less_Suc_eq_0_disj)
    ultimately show ?thesis by blast
  qed
qed simp

lemma fs_find_cases:
  assumes "fs_ok fs" "terminated name"
  obtains i where "i < length fs" "fs_find name fs = Some (int i)" "named (cstr name) (fs ! i)"
    "fs_map fs (cstr name) = Some (content (fs ! i))"
  | "fs_find name fs = Some (- 1)" "fs_map fs (cstr name) = None"
proof -
  have "\<forall>f \<in> set fs. file_ok f" "take FS_MAX_FILES fs = fs" using assms(1) by (auto simp: fs_ok_def in_set_conv_nth)
  then show ?thesis
    using fs_find_from_spec [of fs name 0] assms that fs_map_at [OF assms(1)] fs_map_none [of fs "cstr name"]
    by (auto simp: fs_find_def)
qed

lemma first_free_spec:
  "case first_free k fs of None \<Rightarrow> list_all ff_used fs
   | Some i \<Rightarrow> k \<le> i \<and> i - k < length fs \<and> \<not> ff_used (fs ! (i - k))"
proof (induction fs arbitrary: k)
  case (Cons f fs)
  show ?case using Cons.IH [of "k + 1"] by (auto split: option.splits simp: nth_Cons' Suc_diff_Suc)
qed simp

lemma fs_create_spec:
  assumes ok: "fs_ok fs" and t: "terminated name" and len: "length (cstr name) < NOTEPAD_MAX_FNAME"
  obtains i fs' where "fs_create name fs = Some (int i, fs')" "i < length fs'" "fs_ok fs'" "named (cstr name) (fs' ! i)"
    "\<And>d. (fs_map fs')(cstr name \<mapsto> d) = (fs_map fs)(cstr name \<mapsto> d)" "fs_map fs (cstr name) \<noteq> None \<or> \<not> fs_full fs"
  | "fs_create name fs = Some (- 1, fs)" "fs_map fs (cstr name) = None" "fs_full fs"
proof (cases rule: fs_find_cases [OF ok t])
  case (1 i)
  then show ?thesis using that(1) [of i fs] ok by (simp add: fs_create_def)
next
  case 2
  have tk: "take FS_MAX_FILES fs = fs" using ok by (simp add: fs_ok_def)
  show ?thesis
  proof (cases "first_free 0 fs")
    case None
    then show ?thesis using that(2) 2 first_free_spec [of fs 0] tk by (simp add: fs_create_def fs_full_def)
  next
    case (Some i)
    then have i: "i < length fs" "\<not> ff_used (fs ! i)" using first_free_spec [of fs 0] by auto
    have fok: "file_ok (fs ! i)" using ok i(1) by (simp add: fs_ok_def)
    obtain d where d: "copy_cstr (NOTEPAD_MAX_FNAME - 1) name (ff_name (fs ! i)) 0
          = Some (min (NOTEPAD_MAX_FNAME - 1) (length (cstr name)), d)"
        "length d = length (ff_name (fs ! i))" "terminated d" "cstr d = take (NOTEPAD_MAX_FNAME - 1) (cstr name)"
      using copy_cstr_fits [OF t, of "NOTEPAD_MAX_FNAME - 1" "ff_name (fs ! i)"] fok
      by (auto simp: file_ok_def NOTEPAD_MAX_FNAME_def)
    let ?f = "(fs ! i)\<lparr>ff_used := True, ff_len := 0, ff_name := d\<rparr>"
    have f: "file_ok ?f" "named (cstr name) ?f" using fok d(2-4) len by (auto simp: file_ok_def named_def)
    from fs_upd [OF ok i(1) f] i(2) 2(2)
    have u: "fs_ok (fs[i := ?f])" "fs_map (fs[i := ?f]) = (fs_map fs)(cstr name \<mapsto> content ?f)" by auto
    have "fs_create name fs = Some (int i, fs[i := ?f])"
      using 2(1) Some tk i(1) d(1) by (simp add: fs_create_def mem_simps)
    moreover have "\<not> fs_full fs" using i by (auto simp: fs_full_def list_all_length)
    ultimately show ?thesis using that(1) [of i "fs[i := ?f]"] i(1) f u by simp
  qed
qed

lemma fs_store_spec:
  assumes ok: "fs_ok fs" and i: "i < length fs" "named nm (fs ! i)" and n: "n \<le> FS_MAX_FDATA" "n \<le> length src"
  obtains fs' where "fs_store i src n fs = Some fs'" "fs_ok fs'" "fs_map fs' = (fs_map fs)(nm \<mapsto> take n src)"
    "named nm (fs' ! i)" "content (fs' ! i) = take n src" "length fs' = length fs"
proof -
  have fok: "file_ok (fs ! i)" using ok i(1) by (simp add: fs_ok_def)
  then have d: "wr_range (ff_data (fs ! i)) 0 (take n src) = Some (take n src @ drop n (ff_data (fs ! i)))"
    using n by (simp add: file_ok_def mem_simps min_absorb2)
  let ?f = "(fs ! i)\<lparr>ff_data := take n src @ drop n (ff_data (fs ! i)), ff_len := n\<rparr>"
  have f: "file_ok ?f" "named nm ?f" "content ?f = take n src"
    using fok i(2) n by (auto simp: file_ok_def named_def content_def)
  have "fs_store i src n fs = Some (fs[i := ?f])" using d i(1) n by (simp add: fs_store_def mem_simps)
  then show ?thesis using that fs_upd [OF ok i(1) f(1,2)] i f by simp
qed

section \<open>The text around the cursor\<close>

definition np_ok :: "np \<Rightarrow> bool" where
  "np_ok w \<longleftrightarrow> length (np_text w) = NOTEPAD_MAX_TEXT \<and> np_len w < NOTEPAD_MAX_TEXT \<and> np_cursor w \<le> np_len w
     \<and> length (np_fname w) = NOTEPAD_MAX_FNAME \<and> terminated (np_fname w)
     \<and> length (np_title w) = NOTEPAD_MAX_FNAME + 8 \<and> terminated (np_title w)
     \<and> length (np_save_as_buf w) = NOTEPAD_MAX_FNAME \<and> terminated (np_save_as_buf w)
     \<and> np_save_as_cursor w \<le> length (cstr (np_save_as_buf w))"

definition np_abs :: "np \<Rightarrow> bytes \<times> bytes" where
  "np_abs w = (take (np_cursor w) (np_text w), take (np_len w - np_cursor w) (drop (np_cursor w) (np_text w)))"

definition np_content :: "np \<Rightarrow> bytes" where
  "np_content w = take (np_len w) (np_text w)"

lemma np_split:
  assumes "np_ok w"
  obtains l r z where "np_text w = l @ r @ z" "np_cursor w = length l" "np_len w = length l + length r" "z \<noteq> []"
    "np_abs w = (l, r)"
proof -
  let ?l = "take (np_cursor w) (np_text w)" and ?r = "take (np_len w - np_cursor w) (drop (np_cursor w) (np_text w))"
  let ?z = "drop (np_len w) (np_text w)"
  have n: "np_cursor w \<le> np_len w" "np_len w < length (np_text w)" using assms by (auto simp: np_ok_def)
  have "?r @ ?z = drop (np_cursor w) (np_text w)"
    using n(1) append_take_drop_id [of "np_len w - np_cursor w" "drop (np_cursor w) (np_text w)"] by (simp add: drop_drop)
  then have "np_text w = ?l @ ?r @ ?z" by simp
  moreover have "length ?l = np_cursor w" "length ?r = np_len w - np_cursor w" "?z \<noteq> []" using n by auto
  ultimately show ?thesis using that [of ?l ?r ?z] n by (simp add: np_abs_def)
qed

lemma np_abs_eq: "np_text w = l @ r @ z \<Longrightarrow> np_cursor w = length l \<Longrightarrow> np_len w = length l + length r \<Longrightarrow> np_abs w = (l, r)"
  by (simp add: np_abs_def)

lemma np_content_abs: "np_ok w \<Longrightarrow> np_content w = fst (np_abs w) @ snd (np_abs w)"
  by (erule np_split) (simp add: np_content_def)

subsection \<open>Inserting and deleting\<close>

lemma memmove_seg:
  assumes "mem = p @ r @ z" "s = length p" "n = length r" "d + n \<le> length mem"
  shows "memmove mem d s n = Some (take d mem @ r @ drop (d + n) mem)"
  using memmove_correct [of d n mem s] assms by (simp add: mem_simps)

lemma np_insert_text:
  assumes "t = l @ r @ y # z"
  shows "(if length l < length l + length r then memmove t (length l + 1) (length l) (length r) else Some t)
       = Some (take (length l + 1) t @ r @ z)"
proof (cases r)
  case Nil
  then show ?thesis using assms by simp
next
  case (Cons a as)
  then show ?thesis using memmove_seg [of t l r "y # z" "length l" "length r" "length l + 1"] assms by simp
qed

lemma np_insert_char_spec:
  assumes ok: "np_ok w" and abs: "np_abs w = (l, r)"
  shows "\<exists>w'. np_insert_char c w = Some w' \<and> np_ok w' \<and>
    np_abs w' = (if length l + length r < NOTEPAD_MAX_TEXT - 1 then (l @ [c], r) else (l, r))"
proof -
  obtain z where w: "np_text w = l @ r @ z" "np_cursor w = length l" "np_len w = length l + length r" "z \<noteq> []"
    using np_split [OF ok] abs by (metis prod.inject)
  show ?thesis
  proof (cases "length l + length r < NOTEPAD_MAX_TEXT - 1")
    case False
    then show ?thesis using ok abs w by (simp add: np_insert_char_def)
  next
    case True
    obtain y zs where z: "z = y # zs" using w(4) by (cases z) auto
    let ?t = "take (length l + 1) (np_text w) @ r @ zs"
    have t1: "(if np_cursor w < np_len w then memmove (np_text w) (np_cursor w + 1) (np_cursor w) (np_len w - np_cursor w)
        else Some (np_text w)) = Some ?t"
      by (simp only: w(2,3) add_diff_cancel_left' np_insert_text [OF w(1) [unfolded z]])
    have "take (length l + 1) (np_text w) = l @ [hd (r @ [y])]" using w(1) z by (cases r) simp_all
    then have t2: "wr ?t (np_cursor w) c = Some (l @ c # r @ zs)" using w(2) by (simp add: wr_def list_update_append)
    let ?w = "w\<lparr>np_text := (l @ [c]) @ r @ zs, np_len := np_len w + 1, np_cursor := np_cursor w + 1, np_dirty := True\<rparr>"
    have run: "np_insert_char c w = Some ?w"
      using True w(3) t2 unfolding np_insert_char_def t1 by simp
    have "np_ok ?w" using ok w z True by (simp add: np_ok_def)
    moreover have "np_abs ?w = (l @ [c], r)" using w by (intro np_abs_eq) simp_all
    ultimately show ?thesis using run True by simp
  qed
qed

lemma np_delete_char_spec:
  assumes ok: "np_ok w" and abs: "np_abs w = (l, r)"
  shows "\<exists>w'. np_delete_char w = Some w' \<and> np_ok w' \<and> np_abs w' = (butlast l, r)"
proof -
  obtain z where w: "np_text w = l @ r @ z" "np_cursor w = length l" "np_len w = length l + length r" "z \<noteq> []"
    using np_split [OF ok] abs by (metis prod.inject)
  show ?thesis
  proof (cases l rule: rev_cases)
    case Nil
    then show ?thesis using ok abs w by (simp add: np_delete_char_def)
  next
    case (snoc a x)
    have "memmove (np_text w) (length l - 1) (length l) (length r)
        = Some (take (length l - 1) (np_text w) @ r @ drop (length l - 1 + length r) (np_text w))"
      using w by (intro memmove_seg [of _ l r z]) auto
    moreover have "take (length l - 1) (np_text w) = a" using w snoc by simp
    ultimately obtain z' where t: "memmove (np_text w) (length l - 1) (length l) (length r) = Some (a @ r @ z')"
        "z' = drop (length l - 1 + length r) (np_text w)" by simp
    let ?w = "w\<lparr>np_text := a @ r @ z', np_len := np_len w - 1, np_cursor := np_cursor w - 1, np_dirty := True\<rparr>"
    have run: "np_delete_char w = Some ?w" using t(1) w snoc by (simp add: np_delete_char_def)
    have "length (a @ r @ z') = length (np_text w)" using w(1) t(2) snoc by simp
    then have "np_ok ?w" using ok w snoc by (simp add: np_ok_def)
    moreover have "np_abs ?w = (a, r)" using w snoc by (intro np_abs_eq) simp_all
    ultimately show ?thesis using run snoc by simp
  qed
qed

subsection \<open>Moving the cursor\<close>

lemma np_move_to:
  assumes ok: "np_ok w" and "np_abs w = (l, r)" and "0 \<le> int (length l) + d" "int (length l) + d \<le> int (length (l @ r))"
  shows "np_ok (np_move_cursor d w)
    \<and> np_abs (np_move_cursor d w) = (take (nat (int (length l) + d)) (l @ r), drop (nat (int (length l) + d)) (l @ r))"
proof -
  obtain z where w: "np_text w = l @ r @ z" "np_cursor w = length l" "np_len w = length l + length r"
    using np_split [OF ok] assms(2) by (metis prod.inject)
  define k where "k = nat (int (length l) + d)"
  have k: "k \<le> length l + length r" using assms(3,4) by (simp add: k_def)
  have mv: "np_move_cursor d w = w\<lparr>np_cursor := k\<rparr>" using w assms(3,4) by (simp add: np_move_cursor_def Let_def k_def)
  have "np_abs (w\<lparr>np_cursor := k\<rparr>) = (take k (l @ r), drop k (l @ r))"
    by (rule np_abs_eq [where z = z])
      (use w k in \<open>simp_all add: append_assoc [symmetric] del: append_assoc take_append drop_append\<close>)
  moreover have "np_ok (w\<lparr>np_cursor := k\<rparr>)" using ok k w(3) by (simp add: np_ok_def)
  ultimately show ?thesis using mv k_def by simp
qed

lemma np_move_none:
  assumes "np_ok w" "np_abs w = (l, r)" "d = - 1 \<and> l = [] \<or> d = 1 \<and> r = []"
  shows "np_move_cursor d w = w"
proof -
  obtain z where w: "np_cursor w = length l" "np_len w = length l + length r"
    using np_split [OF assms(1)] assms(2) by (metis prod.inject)
  then show ?thesis using assms(3) by (auto simp: np_move_cursor_def Let_def)
qed

definition count_nl :: "bytes \<Rightarrow> nat" where
  "count_nl xs = length (filter (\<lambda>c. c = 10) xs)"

lemma newlines_spec: "i + n \<le> length t \<Longrightarrow> newlines t i n row = Some (row + count_nl (take n (drop i t)))"
proof (induction n arbitrary: i row)
  case (Suc n)
  then have "take (Suc n) (drop i t) = t ! i # take n (drop (i + 1) t)" by (simp add: Cons_nth_drop_Suc [symmetric])
  then show ?case using Suc by (simp add: mem_simps count_nl_def)
qed (simp add: count_nl_def)

lemma np_row: "np_ok w \<Longrightarrow> np_abs w = (l, r) \<Longrightarrow> np_cursor_row w = Some (count_nl l)"
  by (erule np_split) (auto simp: np_cursor_row_def newlines_spec)

text \<open>The text up to the beginning of its last line, and the characters through the \<open>k\<close>-th newline.\<close>

definition line_start :: "bytes \<Rightarrow> bytes" where
  "line_start l = rev (dropWhile (\<lambda>c. c \<noteq> 10) (rev l))"

fun skip_lines :: "nat \<Rightarrow> bytes \<Rightarrow> nat" where
  "skip_lines 0 xs = 0"
| "skip_lines (Suc k) [] = 0"
| "skip_lines (Suc k) (x # xs) = 1 + skip_lines (if x = 10 then k else Suc k) xs"

lemma line_start_split: "\<exists>q. l = line_start l @ q \<and> 10 \<notin> set q"
proof -
  have "rev l = takeWhile (\<lambda>c. c \<noteq> 10) (rev l) @ dropWhile (\<lambda>c. c \<noteq> 10) (rev l)" by simp
  then have "l = line_start l @ rev (takeWhile (\<lambda>c. c \<noteq> 10) (rev l))"
    unfolding line_start_def by (metis rev_append rev_rev_ident)
  then show ?thesis by (intro exI conjI) (auto dest: set_takeWhileD)
qed

lemma line_start_last: "line_start l = [] \<or> last (line_start l) = 10"
  using hd_dropWhile [of "\<lambda>c. c \<noteq> 10" "rev l"] by (auto simp: line_start_def last_rev)

lemma count_nl_simps [simp]: "count_nl [] = 0" "count_nl (xs @ ys) = count_nl xs + count_nl ys"
  "count_nl (c # xs) = (if c = 10 then Suc (count_nl xs) else count_nl xs)"
  by (simp_all add: count_nl_def)

lemma count_nl_0: "10 \<notin> set q \<Longrightarrow> count_nl q = 0"
  by (induction q) auto

lemma skip_lines_at: "p = [] \<or> last p = 10 \<Longrightarrow> skip_lines (count_nl p) (p @ ys) = length p"
proof (induction p)
  case (Cons x p)
  show ?case
  proof (cases "p = []")
    case False
    then have "last p = 10" using Cons.prems by simp
    then have "count_nl p \<noteq> 0" using False by (induction p) (auto split: if_splits)
    then show ?thesis using Cons.IH \<open>last p = 10\<close> by (cases "count_nl p") auto
  qed (use Cons.prems in simp)
qed simp

lemma up_target_spec:
  "i + n \<le> length t \<Longrightarrow> cr \<le> row - 1 \<Longrightarrow>
   up_target t row i n cr i = Some (i + skip_lines (row - 1 - cr) (take n (drop i t)))"
proof (induction n arbitrary: i cr)
  case (Suc n)
  have tk: "take (Suc n) (drop i t) = t ! i # take n (drop (i + 1) t)" using Suc.prems by (simp add: Cons_nth_drop_Suc [symmetric])
  show ?case
  proof (cases "cr < row - 1")
    case True
    then obtain k where k: "row - 1 - cr = Suc k" by (cases "row - 1 - cr") auto
    then have "row - 1 - (cr + 1) = k" by simp
    then show ?thesis using True Suc.IH [of "i + 1" "cr + 1"] Suc.IH [of "i + 1" cr] Suc.prems tk k by (simp add: mem_simps)
  qed (use Suc.prems in auto)
next
  case 0
  have "skip_lines k [] = 0" for k by (cases k) simp_all
  then show ?case by simp
qed

definition ed_up :: "bytes \<times> bytes \<Rightarrow> bytes \<times> bytes" where
  "ed_up = (\<lambda>(l, r). if 10 \<in> set l then (let k = line_start (butlast (line_start l)) in (k, drop (length k) l @ r)) else (l, r))"

lemma np_up_spec:
  assumes ok: "np_ok w" and abs: "np_abs w = (l, r)"
  shows "\<exists>w'. np_up w = Some w' \<and> np_ok w' \<and> np_abs w' = ed_up (l, r)"
proof -
  obtain z where w: "np_text w = l @ r @ z" "np_cursor w = length l" "np_len w = length l + length r"
    using np_split [OF ok] abs by (metis prod.inject)
  show ?thesis
  proof (cases "10 \<in> set l")
    case False
    then show ?thesis using np_row [OF ok abs] ok abs by (simp add: np_up_def ed_up_def count_nl_0)
  next
    case True
    obtain q where q: "l = line_start l @ q" "10 \<notin> set q" using line_start_split by blast
    then have ne: "line_start l \<noteq> []" using True by auto
    define a where "a = butlast (line_start l)"
    have ls: "line_start l = a @ [10]" using ne line_start_last [of l] by (metis a_def append_butlast_last_id)
    obtain q' where q': "a = line_start a @ q'" "10 \<notin> set q'" using line_start_split by blast
    define k where "k = line_start a"
    have l: "l = k @ q' @ 10 # q" using q(1) ls q'(1) by (metis append.assoc append_Cons append_Nil k_def)
    have cnt: "count_nl l = Suc (count_nl k)" using q(2) q'(2) by (simp add: l count_nl_0)
    have "up_target (np_text w) (count_nl l) 0 (np_cursor w) 0 0 = Some (skip_lines (count_nl l - 1) l)"
      using up_target_spec [of 0 "np_cursor w" "np_text w" 0 "count_nl l"] w by simp
    also have "skip_lines (count_nl k) l = length k"
      using skip_lines_at [of k "q' @ 10 # q"] line_start_last [of a] by (subst l) (simp add: k_def)
    then have "skip_lines (count_nl l - 1) l = length k" by (simp add: cnt)
    finally have up: "up_target (np_text w) (count_nl l) 0 (np_cursor w) 0 0 = Some (length k)" .
    have lt: "length k < length l" using l by simp
    have "np_up w = Some (np_move_cursor (int (length k) - int (length l)) w)"
      using np_row [OF ok abs] cnt up w(2) lt by (simp add: np_up_def)
    moreover have "take (length k) (l @ r) = k" "drop (length k) (l @ r) = drop (length k) l @ r" using l by simp_all
    ultimately show ?thesis
      using np_move_to [OF ok abs, of "int (length k) - int (length l)"] lt True
      by (simp add: ed_up_def Let_def k_def a_def)
  qed
qed

lemma down_target_spec:
  "i + n \<le> length t \<Longrightarrow> here \<le> row \<Longrightarrow> down_target t here i n row i = Some (i + n)"
  by (induction n arbitrary: i row) (auto simp: mem_simps)

lemma np_down_spec:
  assumes ok: "np_ok w" and abs: "np_abs w = (l, r)"
  shows "\<exists>w'. np_down w = Some w' \<and> np_ok w' \<and> np_abs w' = (l @ r, [])"
proof -
  obtain z where w: "np_text w = l @ r @ z" "np_cursor w = length l" "np_len w = length l + length r"
    using np_split [OF ok] abs by (metis prod.inject)
  have "down_target (np_text w) (count_nl l) (np_cursor w) (length r) (count_nl l) (np_cursor w) = Some (length l + length r)"
    using down_target_spec [of "length l" "length r" "np_text w"] w by simp
  then have run: "np_down w = Some (if r \<noteq> [] then np_move_cursor (int (length r)) w else w)"
    using np_row [OF ok abs] w by (simp add: np_down_def)
  show ?thesis using np_move_to [OF ok abs, of "int (length r)"] ok abs run by (cases "r = []") simp_all
qed


section \<open>Saving and opening\<close>

definition np_file :: "np \<Rightarrow> bytes" where
  "np_file w = (if cstr (np_fname w) = [] then cstr untitled_name else cstr (np_fname w))"

lemma rd_cstr: "terminated a \<Longrightarrow> rd a 0 = Some (if cstr a = [] then 0 else hd (cstr a))"
  by (cases a) (auto simp: terminated_def cstr_def rd_def)

lemma rd_cstr_zero: "terminated a \<Longrightarrow> \<exists>c. rd a 0 = Some c \<and> (c = 0 \<longleftrightarrow> cstr a = [])"
  by (cases a) (auto simp: terminated_def cstr_def rd_def)

lemma cstr_untitled: "terminated untitled_name" "length (cstr untitled_name) = 12" "cstr untitled_name \<noteq> []"
  by (simp_all add: untitled_name_def terminated_def cstr_def)

lemma cstr_short: "terminated a \<Longrightarrow> length a = NOTEPAD_MAX_FNAME \<Longrightarrow> length (cstr a) < NOTEPAD_MAX_FNAME"
  using cstr_end [of a] by simp

lemma np_set_title_spec:
  assumes "np_ok w" "terminated nm" "length (cstr nm) < NOTEPAD_MAX_FNAME"
  obtains t where "np_set_title nm w = Some (w\<lparr>np_title := t, np_own_title := True\<rparr>)" "np_ok (w\<lparr>np_title := t, np_own_title := True\<rparr>)"
    "cstr t = cstr nm"
proof -
  obtain d where "copy_cstr (NOTEPAD_MAX_FNAME + 7) nm (np_title w) 0 = Some (min (NOTEPAD_MAX_FNAME + 7) (length (cstr nm)), d)"
      "length d = length (np_title w)" "terminated d" "cstr d = take (NOTEPAD_MAX_FNAME + 7) (cstr nm)"
    using copy_cstr_fits [OF assms(2), of "NOTEPAD_MAX_FNAME + 7" "np_title w"] assms(1) by (auto simp: np_ok_def)
  then show ?thesis using that [of d] assms by (simp add: np_set_title_def np_ok_def)
qed

lemma np_write_spec:
  assumes ok: "np_ok w" "fs_ok fs" and i: "i < length fs" "named nm (fs ! i)"
  obtains fs' where "np_write (int i) w fs = Some (w\<lparr>np_file_idx := int i, np_dirty := False\<rparr>, fs')" "fs_ok fs'"
    "fs_map fs' = (fs_map fs)(nm \<mapsto> take FS_MAX_FDATA (np_content w))"
    "named nm (fs' ! i)" "content (fs' ! i) = take FS_MAX_FDATA (np_content w)" "length fs' = length fs"
proof -
  let ?n = "if np_len w > FS_MAX_FDATA then FS_MAX_FDATA else np_len w"
  have tk: "take ?n (np_text w) = take FS_MAX_FDATA (np_content w)" by (simp add: np_content_def min_def)
  have "?n \<le> FS_MAX_FDATA" "?n \<le> length (np_text w)" using ok(1) by (auto simp: np_ok_def)
  from fs_store_spec [OF ok(2) i this] obtain fs' where
    st: "fs_store i (np_text w) ?n fs = Some fs'" "fs_ok fs'" "fs_map fs' = (fs_map fs)(nm \<mapsto> take ?n (np_text w))"
      "named nm (fs' ! i)" "content (fs' ! i) = take ?n (np_text w)" "length fs' = length fs" by blast
  have "np_write (int i) w fs = Some (w\<lparr>np_file_idx := int i, np_dirty := False\<rparr>, fs')"
    using st(1) by (simp add: np_write_def)
  then show ?thesis by (rule that) (use st(2-) tk in simp_all)
qed

lemma np_save_spec:
  assumes ok: "np_ok w" "fs_ok fs"
  shows "\<exists>w' fs'. np_save w fs = Some (w', fs') \<and> np_ok w' \<and> fs_ok fs' \<and> np_abs w' = np_abs w \<and> np_content w' = np_content w
    \<and> cstr (np_fname w') = np_file w \<and> np_save_as w' = np_save_as w
    \<and> (if fs_map fs (np_file w) \<noteq> None \<or> \<not> fs_full fs
       then fs_map fs' = (fs_map fs)(np_file w \<mapsto> take FS_MAX_FDATA (np_content w)) \<and> \<not> np_dirty w'
          \<and> (\<exists>i < length fs'. np_file_idx w' = int i \<and> named (np_file w) (fs' ! i) \<and> content (fs' ! i) = take FS_MAX_FDATA (np_content w))
       else fs' = fs \<and> np_dirty w' = np_dirty w)"
proof -
  obtain c where c: "rd (np_fname w) 0 = Some c" "c = 0 \<longleftrightarrow> cstr (np_fname w) = []"
    using rd_cstr_zero [of "np_fname w"] ok(1) by (auto simp: np_ok_def)
  obtain nm where nm: "(if c = 0 then do { (_, nm) \<leftarrow> copy_cstr (NOTEPAD_MAX_FNAME - 1) untitled_name (np_fname w) 0;
        Some (w\<lparr>np_fname := nm\<rparr>) } else Some w) = Some (w\<lparr>np_fname := nm\<rparr>)"
      "length nm = NOTEPAD_MAX_FNAME" "terminated nm" "cstr nm = np_file w"
  proof (cases "c = 0")
    case True
    obtain d where "copy_cstr (NOTEPAD_MAX_FNAME - 1) untitled_name (np_fname w) 0
          = Some (min (NOTEPAD_MAX_FNAME - 1) (length (cstr untitled_name)), d)"
        "length d = length (np_fname w)" "terminated d" "cstr d = take (NOTEPAD_MAX_FNAME - 1) (cstr untitled_name)"
      using copy_cstr_fits [OF cstr_untitled(1), of "NOTEPAD_MAX_FNAME - 1" "np_fname w"] ok(1)
      by (auto simp: np_ok_def NOTEPAD_MAX_FNAME_def)
    then show ?thesis using True c ok(1) cstr_untitled(2)
      by (intro that [of d]) (simp_all add: np_ok_def np_file_def NOTEPAD_MAX_FNAME_def)
  next
    case False
    then show ?thesis using c ok(1) by (intro that [of "np_fname w"]) (simp_all add: np_ok_def np_file_def)
  qed
  define w1 where "w1 = w\<lparr>np_fname := nm\<rparr>"
  have w1: "np_ok w1" "np_abs w1 = np_abs w" "np_content w1 = np_content w" "np_fname w1 = nm" "np_dirty w1 = np_dirty w"
      "np_save_as w1 = np_save_as w"
    using ok(1) nm(2,3) by (simp_all add: w1_def np_ok_def np_abs_def np_content_def)
  have short: "length (cstr nm) < NOTEPAD_MAX_FNAME" using cstr_short nm(2,3) by simp
  have run: "np_save w fs = (do { idx \<leftarrow> fs_find nm fs;
          (idx, fs) \<leftarrow> (if idx < 0 then fs_create nm fs else Some (idx, fs));
          if idx \<ge> 0
          then do { (w, fs) \<leftarrow> np_write idx w1 fs; t \<leftarrow> rd (np_title w) 0;
                    w \<leftarrow> (if t = 0 then np_set_title (np_fname w) w else Some w);
                    Some (w, fs) }
          else Some (w1, fs) })"
    using c(1) nm(1) [folded w1_def] w1(4) unfolding np_save_def by (simp cong: if_cong)
  have fin: ?thesis
    if at: "(do { idx \<leftarrow> fs_find nm fs; (if idx < 0 then fs_create nm fs else Some (idx, fs)) }) = Some (int i, fs1)"
      and i: "i < length fs1" "fs_ok fs1" "named (np_file w) (fs1 ! i)"
      and m: "\<And>d. (fs_map fs1)(np_file w \<mapsto> d) = (fs_map fs)(np_file w \<mapsto> d)"
      and room: "fs_map fs (np_file w) \<noteq> None \<or> \<not> fs_full fs" for i fs1
  proof -
    obtain fs' where st: "np_write (int i) w1 fs1 = Some (w1\<lparr>np_file_idx := int i, np_dirty := False\<rparr>, fs')" "fs_ok fs'"
      "fs_map fs' = (fs_map fs1)(np_file w \<mapsto> take FS_MAX_FDATA (np_content w1))" "named (np_file w) (fs' ! i)"
      "content (fs' ! i) = take FS_MAX_FDATA (np_content w1)" "length fs' = length fs1"
      using np_write_spec [OF w1(1) i(2,1,3)] by metis
    define w2 where "w2 = w1\<lparr>np_file_idx := int i, np_dirty := False\<rparr>"
    have w2: "np_ok w2" using w1(1) by (simp add: w2_def np_ok_def)
    obtain t where t: "rd (np_title w2) 0 = Some t" using rd_cstr_zero [of "np_title w2"] w2 by (auto simp: np_ok_def)
    obtain tt where tt: "np_set_title nm w2 = Some (w2\<lparr>np_title := tt, np_own_title := True\<rparr>)" "np_ok (w2\<lparr>np_title := tt, np_own_title := True\<rparr>)"
      using np_set_title_spec [OF w2 nm(3) short] by metis
    define w3 where "w3 = (if t = 0 then w2\<lparr>np_title := tt, np_own_title := True\<rparr> else w2)"
    have "np_fname w2 = nm" by (simp add: w2_def w1(4))
    then have "(if t = 0 then np_set_title (np_fname w2) w2 else Some w2) = Some w3" using tt(1) by (simp add: w3_def)
    then have "np_save w fs = Some (w3, fs')"
      unfolding run using at st(1) t unfolding w2_def [symmetric] by (cases "fs_find nm fs") auto
    moreover have "np_ok w3" "np_abs w3 = np_abs w" "np_content w3 = np_content w" "cstr (np_fname w3) = np_file w"
        "\<not> np_dirty w3" "np_file_idx w3 = int i" "np_save_as w3 = np_save_as w"
      using w2 tt(2) w1 nm(4) unfolding w3_def w2_def by (simp_all add: np_abs_def np_content_def split: if_split)
    ultimately show ?thesis using st(2-) i m room w1(3) by auto
  qed
  show ?thesis
  proof (cases rule: fs_find_cases [OF ok(2) nm(3)])
    case (1 i)
    then show ?thesis using fin [of i fs] ok(2) nm(4) by auto
  next
    case 2
    note none = 2
    show ?thesis
    proof (cases rule: fs_create_spec [OF ok(2) nm(3) short])
      case (1 i fs1)
      then show ?thesis using fin [of i fs1] none nm(4) by auto
    next
      case 2
      then have "np_save w fs = Some (w1, fs)" unfolding run using none by simp
      then show ?thesis using 2 w1 nm(4) ok(2) by auto
    qed
  qed
qed

lemma np_load_spec:
  assumes ok: "np_ok w" "fs_ok fs" and i: "i < length fs"
  shows "\<exists>w'. np_load i w fs = Some w' \<and> np_ok w' \<and> np_abs w' = (content (fs ! i), []) \<and> cstr (np_fname w') = cstr (ff_name (fs ! i))
    \<and> np_file_idx w' = int i \<and> \<not> np_dirty w' \<and> np_save_as w' = np_save_as w"
proof -
  have f: "file_ok (fs ! i)" using ok(2) i by (simp add: fs_ok_def)
  let ?n = "ff_len (fs ! i)" and ?v = "content (fs ! i)"
  have n: "?n < NOTEPAD_MAX_TEXT" "?n \<le> FS_MAX_FDATA" "?n \<le> length (ff_data (fs ! i))" "length ?v = ?n"
    using f by (auto simp: file_ok_def NOTEPAD_MAX_TEXT_def FS_MAX_FDATA_def content_def)
  have "rd_range (ff_data (fs ! i)) 0 ?n = Some ?v" using n(3) by (simp add: mem_simps content_def)
  moreover have "wr_range (np_text w) 0 ?v = Some (?v @ drop ?n (np_text w))"
    using n ok(1) by (simp add: mem_simps np_ok_def)
  moreover have "wr (?v @ drop ?n (np_text w)) ?n 0 = Some (?v @ [] @ (drop ?n (np_text w))[0 := 0])"
    using n ok(1) by (simp add: wr_def np_ok_def list_update_append)
  moreover obtain d where d: "copy_cstr (NOTEPAD_MAX_FNAME - 1) (ff_name (fs ! i)) (np_fname w) 0
          = Some (min (NOTEPAD_MAX_FNAME - 1) (length (cstr (ff_name (fs ! i)))), d)"
      "length d = length (np_fname w)" "terminated d" "cstr d = take (NOTEPAD_MAX_FNAME - 1) (cstr (ff_name (fs ! i)))"
    using copy_cstr_fits [of "ff_name (fs ! i)" "NOTEPAD_MAX_FNAME - 1" "np_fname w"] f ok(1)
    by (auto simp: np_ok_def file_ok_def NOTEPAD_MAX_FNAME_def)
  moreover have "\<not> ?n > NOTEPAD_MAX_TEXT - 1" using n(1) by simp
  moreover define w' where "w' = w\<lparr>np_text := ?v @ [] @ (drop ?n (np_text w))[0 := 0], np_len := ?n, np_cursor := ?n,
      np_file_idx := int i, np_fname := d, np_dirty := False\<rparr>"
  ultimately have "np_load i w fs = Some w'" using i by (simp add: np_load_def mem_simps Let_def)
  moreover have "np_ok w'" using ok(1) n d by (simp add: np_ok_def w'_def)
  moreover have "np_abs w' = (?v, [])" by (rule np_abs_eq) (simp_all add: w'_def n(4))
  moreover have "cstr (np_fname w') = cstr (ff_name (fs ! i))"
    using d(4) f cstr_short [of "ff_name (fs ! i)"] by (simp add: w'_def file_ok_def)
  ultimately show ?thesis by (simp add: w'_def)
qed


section \<open>The save-as line\<close>

lemma all_name_chars_spec: "terminated a \<Longrightarrow> all_name_chars a = Some (list_all name_char (cstr a))"
  by (induction a) (auto simp: terminated_def cstr_def)

lemma close_gap_spec:
  "x \<noteq> 0 \<Longrightarrow> 0 \<notin> set a \<Longrightarrow> close_gap (p @ x # a @ 0 # z) (length p) = Some (p @ a @ 0 # 0 # z)"
proof (induction a arbitrary: p x)
  case Nil
  have "close_gap (p @ 0 # 0 # z) (length p + 1) = Some (p @ 0 # 0 # z)"
    by (subst close_gap.simps) (simp add: nth_append)
  then show ?case using Nil by (subst close_gap.simps) (simp add: rd_def nth_append list_update_append)
next
  case (Cons y a)
  have "close_gap (p @ y # y # a @ 0 # z) (length p + 1) = Some (p @ y # a @ 0 # 0 # z)"
    using Cons.IH [of y "p @ [y]"] Cons.prems by simp
  then show ?case using Cons.prems by (subst close_gap.simps) (simp add: rd_def nth_append list_update_append)
qed

lemma open_gap_spec:
  "open_gap (p @ q @ y # z) (length p + length q) (length q) = Some (p @ hd (q @ [y]) # q @ z)"
proof (induction q arbitrary: y z rule: rev_induct)
  case (snoc x q)
  have "open_gap (p @ (q @ [x]) @ y # z) (length p + length (q @ [x])) (length (q @ [x]))
      = open_gap (p @ q @ x # x # z) (length p + length q) (length q)"
    by (simp add: rd_def wr_def nth_append list_update_append)
  also have "\<dots> = Some (p @ hd (q @ [x]) # q @ x # z)" by (rule snoc)
  finally show ?case by (cases q) simp_all
qed simp

lemma line_len_spec:
  "i \<le> length (cstr b) \<Longrightarrow> terminated b \<Longrightarrow> length (cstr b) \<le> i + m \<Longrightarrow> line_len m b i = Some (length (cstr b))"
proof (induction m arbitrary: i)
  case (Suc m)
  show ?case
  proof (cases "i = length (cstr b)")
    case False
    then have "i < length b" "b ! i \<noteq> 0" using cstr_nth [of i b] Suc.prems(1) by auto
    then show ?thesis using Suc.IH [of "i + 1"] Suc.prems False by (simp add: mem_simps)
  qed (use cstr_end [OF Suc.prems(2)] in \<open>simp add: mem_simps\<close>)
qed (use cstr_end [of b] in \<open>simp add: mem_simps\<close>)

lemma save_as_split:
  assumes "np_ok w"
  obtains a d z where "np_save_as_buf w = a @ d @ 0 # z" "np_save_as_cursor w = length a" "cstr (np_save_as_buf w) = a @ d"
    "0 \<notin> set (a @ d)" "length a + length d + 1 + length z = NOTEPAD_MAX_FNAME"
proof -
  let ?s = "cstr (np_save_as_buf w)" and ?k = "np_save_as_cursor w"
  obtain z where z: "np_save_as_buf w = ?s @ 0 # z" using terminated_split assms unfolding np_ok_def by metis
  have k: "?k \<le> length ?s" "length (np_save_as_buf w) = NOTEPAD_MAX_FNAME" using assms by (auto simp: np_ok_def)
  have s: "take ?k ?s @ drop ?k ?s = ?s" by simp
  show ?thesis
  proof (rule that)
    show "np_save_as_buf w = take ?k ?s @ drop ?k ?s @ 0 # z" using z s by (metis append.assoc)
    show "0 \<notin> set (take ?k ?s @ drop ?k ?s)" unfolding s by (rule cstr_no_zero)
    show "length (take ?k ?s) + length (drop ?k ?s) + 1 + length z = NOTEPAD_MAX_FNAME"
      using arg_cong [OF z, of length] k by simp
  qed (use k in simp_all)
qed

lemma np_ok_line:
  "np_ok w \<Longrightarrow> length b = NOTEPAD_MAX_FNAME \<Longrightarrow> terminated b \<Longrightarrow> k \<le> length (cstr b) \<Longrightarrow>
   np_ok (w\<lparr>np_save_as_buf := b, np_save_as_cursor := k\<rparr>)"
  by (simp add: np_ok_def)

definition np_line :: "np \<Rightarrow> bytes \<times> bytes" where
  "np_line w = (take (np_save_as_cursor w) (cstr (np_save_as_buf w)), drop (np_save_as_cursor w) (cstr (np_save_as_buf w)))"

lemma np_save_as_char_spec:
  assumes ok: "np_ok w" and c: "c \<noteq> 0" and ln: "np_line w = (a, d)"
  shows "\<exists>b k. np_save_as_char c w = Some (w\<lparr>np_save_as_buf := b, np_save_as_cursor := k\<rparr>)
    \<and> np_ok (w\<lparr>np_save_as_buf := b, np_save_as_cursor := k\<rparr>)
    \<and> np_line (w\<lparr>np_save_as_buf := b, np_save_as_cursor := k\<rparr>)
        = (if length a + length d < NOTEPAD_MAX_FNAME - 1 then (a @ [c], d) else (a, d))"
proof -
  obtain z where w: "np_save_as_buf w = a @ d @ 0 # z" "np_save_as_cursor w = length a" "cstr (np_save_as_buf w) = a @ d"
    "0 \<notin> set (a @ d)" "length a + length d + 1 + length z = NOTEPAD_MAX_FNAME"
    by (rule save_as_split [OF ok]) (use ln in \<open>auto simp: np_line_def\<close>)
  have same: "w\<lparr>np_save_as_buf := np_save_as_buf w, np_save_as_cursor := np_save_as_cursor w\<rparr> = w" by simp
  show ?thesis
  proof (cases "length a + length d < NOTEPAD_MAX_FNAME - 1")
    case False
    have "line_len (NOTEPAD_MAX_FNAME - 1) (np_save_as_buf w) 0 = Some (length a + length d)"
      using line_len_spec [of 0 "np_save_as_buf w" "NOTEPAD_MAX_FNAME - 1"] w by (simp add: terminated_def)
    then have "np_save_as_char c w = Some w" using False by (simp add: np_save_as_char_def)
    then show ?thesis using False ok ln same by (intro exI [of _ "np_save_as_buf w"] exI [of _ "np_save_as_cursor w"]) simp
  next
    case True
    then obtain y zs where z: "z = y # zs" using w(5) by (cases z) auto
    have len: "line_len (NOTEPAD_MAX_FNAME - 1) (np_save_as_buf w) 0 = Some (length a + length d)"
      using line_len_spec [of 0 "np_save_as_buf w" "NOTEPAD_MAX_FNAME - 1"] w by (simp add: terminated_def)
    have gap: "open_gap (np_save_as_buf w) (length a + length d + 1) (length d + 1) = Some (a @ hd (d @ [0]) # d @ 0 # zs)"
      using open_gap_spec [of a "d @ [0]" y zs] w(1) z by (cases d) simp_all
    have w1: "wr (a @ hd (d @ [0]) # d @ 0 # zs) (length a) c = Some (a @ c # d @ 0 # zs)"
      by (simp add: wr_def list_update_append)
    let ?b = "(a @ [c] @ d) @ 0 # zs"
    have cs: "cstr ?b = a @ [c] @ d" using w(4) c by (intro cstr_append) auto
    have "length a + length d + 1 - length a = length d + 1" by simp
    then have "np_save_as_char c w = Some (w\<lparr>np_save_as_buf := ?b, np_save_as_cursor := length a + 1\<rparr>)"
      using True len gap w1 w(2) by (simp add: np_save_as_char_def Let_def)
    moreover have "np_ok (w\<lparr>np_save_as_buf := ?b, np_save_as_cursor := length a + 1\<rparr>)"
      by (rule np_ok_line [OF ok]) (use w(5) z cs in \<open>simp_all add: terminated_def\<close>)
    moreover have "np_line (w\<lparr>np_save_as_buf := ?b, np_save_as_cursor := length a + 1\<rparr>) = (a @ [c], d)"
      using cs by (simp add: np_line_def)
    ultimately show ?thesis using True by (intro exI [of _ ?b] exI [of _ "length a + 1"]) simp
  qed
qed

lemma np_save_as_back_spec:
  assumes ok: "np_ok w" and ln: "np_line w = (a, d)" and pos: "np_save_as_cursor w > 0"
  shows "\<exists>b. close_gap (np_save_as_buf w) (np_save_as_cursor w - 1) = Some b
    \<and> np_ok (w\<lparr>np_save_as_buf := b, np_save_as_cursor := np_save_as_cursor w - 1\<rparr>)
    \<and> np_line (w\<lparr>np_save_as_buf := b, np_save_as_cursor := np_save_as_cursor w - 1\<rparr>) = (butlast a, d)"
proof -
  obtain z where w: "np_save_as_buf w = a @ d @ 0 # z" "np_save_as_cursor w = length a"
    "0 \<notin> set (a @ d)" "length a + length d + 1 + length z = NOTEPAD_MAX_FNAME"
    by (rule save_as_split [OF ok]) (use ln in \<open>auto simp: np_line_def\<close>)
  obtain p x where a: "a = p @ [x]" using pos w(2) by (cases a rule: rev_cases) auto
  have "close_gap (np_save_as_buf w) (np_save_as_cursor w - 1) = Some ((p @ d) @ 0 # 0 # z)"
    using close_gap_spec [of x d p z] w a by auto
  moreover have cs: "cstr ((p @ d) @ 0 # 0 # z) = p @ d" using w(3) a by (intro cstr_append) auto
  moreover have "np_ok (w\<lparr>np_save_as_buf := (p @ d) @ 0 # 0 # z, np_save_as_cursor := np_save_as_cursor w - 1\<rparr>)"
    by (rule np_ok_line [OF ok]) (use w(2,4) a cs in \<open>simp_all add: terminated_def\<close>)
  moreover have "np_line (w\<lparr>np_save_as_buf := (p @ d) @ 0 # 0 # z, np_save_as_cursor := np_save_as_cursor w - 1\<rparr>) = (butlast a, d)"
    using cs a w(2) by (simp add: np_line_def)
  ultimately show ?thesis by blast
qed

lemma np_leave_save_as_spec:
  assumes "np_ok w"
  shows "\<exists>w'. np_leave_save_as w = Some w' \<and> np_ok w' \<and> np_abs w' = np_abs w \<and> \<not> np_save_as w' \<and> np_fname w' = np_fname w
    \<and> np_dirty w' = np_dirty w \<and> np_file_idx w' = np_file_idx w"
proof -
  have "length (np_save_as_buf w) = NOTEPAD_MAX_FNAME" using assms by (simp add: np_ok_def)
  then obtain y z where b: "np_save_as_buf w = y # z" by (cases "np_save_as_buf w") (auto simp: NOTEPAD_MAX_FNAME_def)
  have "terminated (0 # z)" by (simp add: terminated_def)
  then show ?thesis using assms b by (simp add: np_leave_save_as_def wr_def np_ok_def np_abs_def)
qed

lemma fs_delete_spec:
  assumes ok: "fs_ok fs" and i: "i < length fs" "named nm (fs ! i)"
  obtains fs' where "fs_delete (int i) fs = Some fs'" "fs_ok fs'" "fs_map fs' = (fs_map fs)(nm := None)" "\<not> fs_full fs'"
proof -
  have f: "file_ok (fs ! i)" "length fs = FS_MAX_FILES" using ok i by (auto simp: fs_ok_def)
  obtain y z where nm: "ff_name (fs ! i) = y # z" using f(1) by (cases "ff_name (fs ! i)") (auto simp: file_ok_def NOTEPAD_MAX_FNAME_def)
  let ?f = "(fs ! i)\<lparr>ff_used := False, ff_len := 0, ff_name := 0 # z, ff_data := replicate (length (ff_data (fs ! i))) 0\<rparr>"
  let ?fs = "fs[i := ?f]"
  have fok: "file_ok ?f" using f(1) nm by (simp add: file_ok_def terminated_def)
  have not: "\<not> named n' ?f" for n' by (simp add: named_def)
  have ok': "fs_ok ?fs" using ok fok not i(1) unfolding fs_ok_def by (auto simp: nth_list_update)
  have "fs_map ?fs n' = ((fs_map fs)(nm := None)) n'" for n'
  proof (cases "n' = nm")
    case True
    have "\<forall>j < length ?fs. \<not> named nm (?fs ! j)"
    proof (intro allI impI)
      fix j assume j: "j < length ?fs"
      show "\<not> named nm (?fs ! j)"
      proof (cases "j = i")
        case False
        then show ?thesis using fs_uniq [OF ok _ i(1), of j nm] j i(2) by auto
      qed (use not i(1) in simp)
    qed
    from fs_map_none [OF this] show ?thesis using True by simp
  next
    case False
    show ?thesis
    proof (cases rule: fs_map_cases [OF ok, of n'])
      case (1 j)
      then have "j \<noteq> i" using False i(2) by (auto simp: named_def)
      then show ?thesis using 1 fs_map_at [OF ok', of j n'] False by simp
    next
      case 2
      then have "fs_map ?fs n' = None" using not i(1) by (intro fs_map_none) (auto simp: nth_list_update)
      then show ?thesis using 2 False by simp
    qed
  qed
  moreover have "fs_delete (int i) fs = Some ?fs" using i(1) f(2) nm by (simp add: fs_delete_def mem_simps)
  moreover have "\<not> fs_full ?fs" using i(1) by (auto simp: fs_full_def list_all_length intro!: exI [of _ i])
  ultimately show ?thesis using that ok' by blast
qed


lemma np_save_as_enter_spec:
  assumes ok: "np_ok w" "fs_ok fs"
  shows "\<exists>w' fs'. np_save_as_enter w fs = Some (w', fs') \<and> np_ok w' \<and> fs_ok fs' \<and> np_abs w' = np_abs w \<and> \<not> np_save_as w'
    \<and> (let nm = cstr (np_save_as_buf w) in
        if nm \<noteq> [] \<and> list_all name_char nm \<and> (fs_map fs nm \<noteq> None \<or> \<not> fs_full fs)
        then fs_map fs' = (fs_map fs)(nm \<mapsto> take FS_MAX_FDATA (np_content w)) \<and> cstr (np_fname w') = nm \<and> \<not> np_dirty w'
        else fs' = fs \<and> np_fname w' = np_fname w \<and> np_dirty w' = np_dirty w)"
proof -
  define nm where "nm = cstr (np_save_as_buf w)"
  have short: "length nm < NOTEPAD_MAX_FNAME" using cstr_short ok(1) by (simp add: np_ok_def nm_def)
  obtain d where d: "copy_cstr (NOTEPAD_MAX_FNAME - 1) (np_save_as_buf w) (replicate NOTEPAD_MAX_FNAME 0) 0
        = Some (min (NOTEPAD_MAX_FNAME - 1) (length nm), d)" "length d = NOTEPAD_MAX_FNAME" "terminated d" "cstr d = nm"
    using copy_cstr_fits [of "np_save_as_buf w" "NOTEPAD_MAX_FNAME - 1" "replicate NOTEPAD_MAX_FNAME 0"] ok(1) short
    by (auto simp: np_ok_def nm_def NOTEPAD_MAX_FNAME_def)
  obtain c where c: "rd d 0 = Some c" "c = 0 \<longleftrightarrow> nm = []" using rd_cstr_zero [OF d(3)] d(4) by auto
  have nc: "all_name_chars d = Some (list_all name_char nm)" using all_name_chars_spec [OF d(3)] d(4) by simp
  show ?thesis
  proof (cases "nm \<noteq> [] \<and> list_all name_char nm")
    case False
    obtain w' where "np_leave_save_as w = Some w' \<and> np_ok w' \<and> np_abs w' = np_abs w \<and> \<not> np_save_as w' \<and> np_fname w' = np_fname w
        \<and> np_dirty w' = np_dirty w" using np_leave_save_as_spec [OF ok(1)] by blast
    then show ?thesis using False d(1) c nc ok(2) unfolding nm_def [symmetric] by (auto simp: np_save_as_enter_def)
  next
    case True
    define put where "put fs = (do { idx \<leftarrow> fs_find d fs; if idx < 0 then fs_create d fs else Some (idx, fs) })" for fs
    define del where "del = (do { existing \<leftarrow> fs_find d fs;
        if existing \<ge> 0 \<and> existing \<noteq> np_file_idx w then fs_delete existing fs else Some fs })"
    have run: "np_save_as_enter w fs = (do { fs \<leftarrow> del; p \<leftarrow> put fs;
        (w, fs) \<leftarrow> (case p of (idx, fs) \<Rightarrow> if idx \<ge> 0
             then do { (w, fs) \<leftarrow> np_write idx w fs;
                       (_, fname) \<leftarrow> copy_cstr (NOTEPAD_MAX_FNAME - 1) d (np_fname w) 0;
                       w \<leftarrow> np_set_title d (w\<lparr>np_fname := fname\<rparr>);
                       Some (w, fs) }
             else Some (w, fs));
        w \<leftarrow> np_leave_save_as w; Some (w, fs) })"
      using True d(1) c nc by (simp add: np_save_as_enter_def del_def put_def)
    have put: "(\<exists>i fs2. put fs1 = Some (int i, fs2) \<and> i < length fs2 \<and> fs_ok fs2 \<and> named nm (fs2 ! i)
          \<and> (\<forall>d. (fs_map fs2)(nm \<mapsto> d) = (fs_map fs1)(nm \<mapsto> d)) \<and> (fs_map fs1 nm \<noteq> None \<or> \<not> fs_full fs1))
        \<or> put fs1 = Some (- 1, fs1) \<and> fs_map fs1 nm = None \<and> fs_full fs1" if "fs_ok fs1" for fs1
    proof (cases rule: fs_find_cases [OF that d(3)])
      case (1 i)
      then show ?thesis using that d(4) by (intro disjI1 exI [of _ i] exI [of _ fs1]) (simp add: put_def)
    next
      case 2
      note none = 2
      show ?thesis
      proof (cases rule: fs_create_spec [OF that d(3)])
        case (2 i fs2)
        then show ?thesis using none d(4) by (intro disjI1 exI [of _ i] exI [of _ fs2]) (simp add: put_def)
      qed (use none short d(4) in \<open>simp_all add: put_def\<close>)
    qed
    obtain fs1 where fs1: "del = Some fs1" "fs_ok fs1" "fs1 = fs \<or> fs_map fs1 = (fs_map fs)(nm := None) \<and> \<not> fs_full fs1 \<and> fs_map fs nm \<noteq> None"
    proof (cases rule: fs_find_cases [OF ok(2) d(3)])
      case (1 i)
      obtain fs' where "fs_delete (int i) fs = Some fs'" "fs_ok fs'" "fs_map fs' = (fs_map fs)(nm := None)" "\<not> fs_full fs'"
        using fs_delete_spec [OF ok(2) 1(1) 1(3)] d(4) by metis
      note del = this
      show ?thesis
      proof (cases "int i = np_file_idx w")
        case True
        then have "del = Some fs" using 1(2) by (simp add: del_def)
        then show ?thesis using that [of fs] ok(2) by simp
      next
        case False
        then have "del = Some fs'" using 1(2) del(1) by (simp add: del_def)
        then show ?thesis using that [of fs'] del 1(4) d(4) by simp
      qed
    qed (use that [of fs] ok(2) in \<open>simp add: del_def\<close>)
    show ?thesis using put [OF fs1(2)]
    proof
      assume "put fs1 = Some (- 1, fs1) \<and> fs_map fs1 nm = None \<and> fs_full fs1"
      then have p: "put fs1 = Some (- 1, fs1)" "fs_map fs1 nm = None" "fs_full fs1" by simp_all
      then have fs: "fs1 = fs" using fs1(3) by blast
      obtain w' where w': "np_leave_save_as w = Some w'" "np_ok w'" "np_abs w' = np_abs w" "\<not> np_save_as w'"
          "np_fname w' = np_fname w" "np_dirty w' = np_dirty w" using np_leave_save_as_spec [OF ok(1)] by blast
      have "np_save_as_enter w fs = Some (w', fs)" unfolding run using fs1(1) p(1) fs w'(1) by simp
      then show ?thesis using p(2,3) fs w' ok(2) unfolding nm_def [symmetric] by (auto simp: Let_def)
    next
      assume "\<exists>i fs2. put fs1 = Some (int i, fs2) \<and> i < length fs2 \<and> fs_ok fs2 \<and> named nm (fs2 ! i)
          \<and> (\<forall>d. (fs_map fs2)(nm \<mapsto> d) = (fs_map fs1)(nm \<mapsto> d)) \<and> (fs_map fs1 nm \<noteq> None \<or> \<not> fs_full fs1)"
      then obtain i fs2 where p: "put fs1 = Some (int i, fs2)" "i < length fs2" "fs_ok fs2" "named nm (fs2 ! i)"
        and m: "\<forall>d. (fs_map fs2)(nm \<mapsto> d) = (fs_map fs1)(nm \<mapsto> d)" and room: "fs_map fs1 nm \<noteq> None \<or> \<not> fs_full fs1" by blast
      obtain fs3 where st: "np_write (int i) w fs2 = Some (w\<lparr>np_file_idx := int i, np_dirty := False\<rparr>, fs3)" "fs_ok fs3"
          "fs_map fs3 = (fs_map fs2)(nm \<mapsto> take FS_MAX_FDATA (np_content w))"
        using np_write_spec [OF ok(1) p(3,2,4)] by metis
      obtain fname where fn: "copy_cstr (NOTEPAD_MAX_FNAME - 1) d (np_fname w) 0 = Some (min (NOTEPAD_MAX_FNAME - 1) (length nm), fname)"
          "length fname = NOTEPAD_MAX_FNAME" "terminated fname" "cstr fname = nm"
        using copy_cstr_fits [OF d(3), of "NOTEPAD_MAX_FNAME - 1" "np_fname w"] ok(1) short d(4)
        by (auto simp: np_ok_def NOTEPAD_MAX_FNAME_def)
      define w2 where "w2 = w\<lparr>np_file_idx := int i, np_dirty := False, np_fname := fname\<rparr>"
      have w2: "np_ok w2" using ok(1) fn by (simp add: w2_def np_ok_def)
      obtain t where t: "np_set_title d w2 = Some (w2\<lparr>np_title := t, np_own_title := True\<rparr>)" "np_ok (w2\<lparr>np_title := t, np_own_title := True\<rparr>)"
        using np_set_title_spec [OF w2 d(3)] short d(4) by metis
      obtain w' where w': "np_leave_save_as (w2\<lparr>np_title := t, np_own_title := True\<rparr>) = Some w'" "np_ok w'"
          "np_abs w' = np_abs (w2\<lparr>np_title := t, np_own_title := True\<rparr>)" "\<not> np_save_as w'"
          "np_fname w' = np_fname (w2\<lparr>np_title := t, np_own_title := True\<rparr>)" "np_dirty w' = np_dirty (w2\<lparr>np_title := t, np_own_title := True\<rparr>)"
        using np_leave_save_as_spec [OF t(2)] by blast
      have "np_save_as_enter w fs = Some (w', fs3)"
        unfolding run using fs1(1) p(1) st(1) fn(1) t(1) w'(1) by (simp add: w2_def)
      moreover have "np_abs w' = np_abs w" "cstr (np_fname w') = nm" "\<not> np_dirty w'"
        using w'(3,5,6) fn(4) by (simp_all add: w2_def np_abs_def)
      moreover have "fs_map fs3 = (fs_map fs)(nm \<mapsto> take FS_MAX_FDATA (np_content w))" using st(3) m fs1(3) by auto
      moreover have "fs_map fs nm \<noteq> None \<or> \<not> fs_full fs" using room fs1(3) by auto
      ultimately show ?thesis using w'(2,4) st(2) True unfolding nm_def [symmetric] by (auto simp: Let_def)
    qed
  qed
qed

section \<open>The keys\<close>

text \<open>The notepad as a user sees it: the text around the cursor and, in the save-as mode, the name around its cursor.\<close>

type_synonym ed = "(bytes \<times> bytes) \<times> (bytes \<times> bytes) option"

definition np_view :: "np \<Rightarrow> ed" where
  "np_view w = (np_abs w, if np_save_as w then Some (np_line w) else None)"

definition printable :: "u8 \<Rightarrow> bool" where
  "printable c \<longleftrightarrow> 0x20 \<le> c \<and> c \<le> 0x7E"

definition ed_insert :: "nat \<Rightarrow> u8 \<Rightarrow> bytes \<times> bytes \<Rightarrow> bytes \<times> bytes" where
  "ed_insert m c = (\<lambda>(l, r). if length l + length r < m then (l @ [c], r) else (l, r))"

definition ed_move :: "bool \<Rightarrow> bytes \<times> bytes \<Rightarrow> bytes \<times> bytes" where
  "ed_move right = (\<lambda>(l, r). if right then (if r = [] then (l, r) else (l @ [hd r], tl r))
                          else (if l = [] then (l, r) else (butlast l, last l # r)))"

definition ed_key :: "u8 \<Rightarrow> ed \<Rightarrow> ed" where
  "ed_key c = (\<lambda>(t, line).
     case line of
       Some (a, d) \<Rightarrow>
         if c = 27 \<or> c = 10 \<or> c = 13 then (t, None)
         else if c = 8 then (t, Some (butlast a, d))
         else if printable c then (t, Some (ed_insert (NOTEPAD_MAX_FNAME - 1) c (a, d)))
         else (t, Some (a, d))
     | None \<Rightarrow>
         (if printable c \<or> c = 10 then ed_insert (NOTEPAD_MAX_TEXT - 1) c t
          else if c = 8 then (butlast (fst t), snd t)
          else if c = 3 then ed_move False t
          else if c = 4 then ed_move True t
          else if c = 5 then ed_up t
          else if c = 6 then (fst t @ snd t, [])
          else t, None))"

lemma ed_move_spec:
  assumes ok: "np_ok w" and abs: "np_abs w = (l, r)"
  shows "np_ok (np_move_cursor (if right then 1 else - 1) w)
    \<and> np_abs (np_move_cursor (if right then 1 else - 1) w) = ed_move right (l, r)"
proof (cases "(if right then r else l) = []")
  case True
  then show ?thesis using np_move_none [OF ok abs, of "if right then 1 else - 1"] ok abs by (auto simp: ed_move_def)
next
  case False
  then have "take (nat (int (length l) + (if right then 1 else - 1))) (l @ r) = fst (ed_move right (l, r))"
     "drop (nat (int (length l) + (if right then 1 else - 1))) (l @ r) = snd (ed_move right (l, r))"
    by (cases right; cases r; cases l rule: rev_cases; simp add: ed_move_def nat_add_distrib)+
  moreover have "0 \<le> int (length l) + (if right then 1 else - 1)" "int (length l) + (if right then 1 else - 1) \<le> int (length (l @ r))"
    using False by (cases l; cases r; auto split: if_splits)+
  ultimately show ?thesis using np_move_to [OF ok abs, of "if right then 1 else - 1"] by simp
qed

lemma np_feed_spec:
  assumes ok: "np_ok w" "fs_ok fs"
  shows "\<exists>w' fs' r. np_feed c w fs = Some (w', fs', r) \<and> np_ok w' \<and> fs_ok fs' \<and> np_view w' = ed_key c (np_view w)
    \<and> (np_save_as w \<and> (c = 10 \<or> c = 13) \<or> fs' = fs)"
proof -
  obtain l r where abs: "np_abs w = (l, r)" by (cases "np_abs w")
  obtain a d where ln: "np_line w = (a, d)" by (cases "np_line w")
  show ?thesis
  proof (cases "np_save_as w")
    case True
    have fin1: ?thesis if "np_feed c w fs = Some (w', fs, b)" "np_ok w'" "np_view w' = ed_key c (np_view w)" for w' b
      using that ok(2) by blast
    have v: "np_view w = ((l, r), Some (a, d))" using True abs ln by (simp add: np_view_def)
    consider "c = 27" | "c = 10 \<or> c = 13" | "c = 8" | "printable c" | "c \<notin> {27, 10, 13, 8}" "\<not> printable c" by blast
    then show ?thesis
    proof cases
      case 1
      obtain w' where "np_leave_save_as w = Some w'" "np_ok w'" "np_abs w' = np_abs w" "\<not> np_save_as w'"
        using np_leave_save_as_spec [OF ok(1)] by blast
      then have "np_feed c w fs = Some (w', fs, True)" "np_view w' = ed_key c (np_view w)" "np_ok w'"
        using 1 True v abs by (simp_all add: np_feed_def np_view_def ed_key_def)
      then show ?thesis using ok(2) by blast
    next
      case 2
      obtain w' fs' where "np_save_as_enter w fs = Some (w', fs')" "np_ok w'" "fs_ok fs'" "np_abs w' = np_abs w" "\<not> np_save_as w'"
        using np_save_as_enter_spec [OF ok] by blast
      then show ?thesis using 2 True v abs by (auto simp: np_feed_def np_view_def ed_key_def)
    next
      case 3
      show ?thesis
      proof (cases "np_save_as_cursor w > 0")
        case False
        then have "a = []" using ln by (simp add: np_line_def)
        then show ?thesis using 3 True v False ok ln by (auto simp: np_feed_def ed_key_def)
      next
        case pos: True
        obtain b where "close_gap (np_save_as_buf w) (np_save_as_cursor w - 1) = Some b"
          "np_ok (w\<lparr>np_save_as_buf := b, np_save_as_cursor := np_save_as_cursor w - 1\<rparr>)"
          "np_line (w\<lparr>np_save_as_buf := b, np_save_as_cursor := np_save_as_cursor w - 1\<rparr>) = (butlast a, d)"
          using np_save_as_back_spec [OF ok(1) ln pos] by blast
        then show ?thesis using 3 True v pos abs
          by (intro fin1 [of "w\<lparr>np_save_as_buf := b, np_save_as_cursor := np_save_as_cursor w - 1\<rparr>" False])
            (simp_all add: np_feed_def ed_key_def np_view_def np_abs_def)
      qed
    next
      case 4
      then have "c \<noteq> 0" "c \<noteq> 27" "c \<noteq> 10" "c \<noteq> 13" "c \<noteq> 8" by (auto simp: printable_def)
      moreover obtain b k where "np_save_as_char c w = Some (w\<lparr>np_save_as_buf := b, np_save_as_cursor := k\<rparr>)"
          "np_ok (w\<lparr>np_save_as_buf := b, np_save_as_cursor := k\<rparr>)"
          "np_line (w\<lparr>np_save_as_buf := b, np_save_as_cursor := k\<rparr>) = ed_insert (NOTEPAD_MAX_FNAME - 1) c (a, d)"
        using np_save_as_char_spec [OF ok(1) \<open>c \<noteq> 0\<close> ln] by (auto simp: ed_insert_def)
      ultimately show ?thesis using True v 4 abs
        by (intro fin1 [of "w\<lparr>np_save_as_buf := b, np_save_as_cursor := k\<rparr>" False])
          (simp_all add: np_feed_def ed_key_def np_view_def np_abs_def printable_def)
    next
      case 5
      then show ?thesis using True v ok ln by (auto simp: np_feed_def ed_key_def printable_def)
    qed
  next
    case False
    have v: "np_view w = ((l, r), None)" using False abs by (simp add: np_view_def)
    have fin: ?thesis
      if "np_feed c w fs = Some (w', fs, False)" "np_ok w'" "np_save_as w' = np_save_as w"
        "ed_key c ((l, r), None) = (np_abs w', None)" for w'
      by (intro exI [of _ w'] exI [of _ fs] exI [of _ False]) (use that v False ok(2) in \<open>simp add: np_view_def\<close>)
    have keep: "np_insert_char x w = Some w' \<Longrightarrow> np_save_as w' = np_save_as w"
      "np_delete_char w = Some w' \<Longrightarrow> np_save_as w' = np_save_as w"
      "np_up w = Some w' \<Longrightarrow> np_save_as w' = np_save_as w"
      "np_down w = Some w' \<Longrightarrow> np_save_as w' = np_save_as w" "np_save_as (np_move_cursor k w) = np_save_as w" for x w' k
      by (auto simp: np_insert_char_def np_delete_char_def np_up_def np_down_def np_move_cursor_def Let_def bind_eq_Some_conv
          split: if_splits)
    consider "printable c \<or> c = 10" | "c = 8" | "c = 3" | "c = 4" | "c = 5" | "c = 6" | "c \<notin> {10, 8, 3, 4, 5, 6}" "\<not> printable c"
      by blast
    then show ?thesis
    proof cases
      case 1
      obtain w' where "np_insert_char c w = Some w'" "np_ok w'" "np_abs w' = ed_insert (NOTEPAD_MAX_TEXT - 1) c (l, r)"
        using np_insert_char_spec [OF ok(1) abs, of c] by (auto simp: ed_insert_def)
      then show ?thesis using 1 False keep(1) by (intro fin [of w']) (auto simp: np_feed_def ed_key_def printable_def)
    next
      case 2
      obtain w' where "np_delete_char w = Some w'" "np_ok w'" "np_abs w' = (butlast l, r)"
        using np_delete_char_spec [OF ok(1) abs] by auto
      then show ?thesis using 2 False keep(2) by (intro fin [of w']) (auto simp: np_feed_def ed_key_def printable_def)
    next
      case 3
      then show ?thesis using ed_move_spec [OF ok(1) abs, of False] False keep(5)
        by (intro fin [of "np_move_cursor (- 1) w"]) (auto simp: np_feed_def ed_key_def printable_def)
    next
      case 4
      then show ?thesis using ed_move_spec [OF ok(1) abs, of True] False keep(5)
        by (intro fin [of "np_move_cursor 1 w"]) (auto simp: np_feed_def ed_key_def printable_def)
    next
      case 5
      obtain w' where "np_up w = Some w'" "np_ok w'" "np_abs w' = ed_up (l, r)" using np_up_spec [OF ok(1) abs] by auto
      then show ?thesis using 5 False keep(3) by (intro fin [of w']) (auto simp: np_feed_def ed_key_def printable_def)
    next
      case 6
      obtain w' where "np_down w = Some w'" "np_ok w'" "np_abs w' = (l @ r, [])" using np_down_spec [OF ok(1) abs] by auto
      then show ?thesis using 6 False keep(4) by (intro fin [of w']) (auto simp: np_feed_def ed_key_def printable_def)
    next
      case 7
      then show ?thesis using False ok abs by (intro fin [of w]) (auto simp: np_feed_def ed_key_def printable_def)
    qed
  qed
qed

text \<open>C12. The notepad implements an editor with a gap: every key, in every well-formed state, leads to a
  well-formed state without an access outside an array, and to the state of the editor that the key asks for.
  Only the return key of the save-as line touches the files. The cursor-down key goes to the end of the text,
  not to the next line.\<close>

theorem notepad_refines:
  assumes ok: "np_ok w" "fs_ok fs"
  shows "\<exists>w' fs' r. np_feed c w fs = Some (w', fs', r) \<and> np_ok w' \<and> fs_ok fs' \<and> np_view w' = ed_key c (np_view w)
    \<and> (np_save_as w \<and> (c = 10 \<or> c = 13) \<or> fs' = fs)"
  by (rule np_feed_spec [OF ok])

text \<open>Saving under a new name stores the text under that name, replaces a file of that name, leaves every
  other file alone and gives the notepad the name; a name with other characters, or a full table, leaves the
  files and the notepad's text as they were. The mode is left in every case.\<close>

theorem np_save_as_correct:
  assumes "np_ok w" "fs_ok fs" "np_save_as w" "c = 10 \<or> c = 13"
  shows "\<exists>w' fs'. np_feed c w fs = Some (w', fs', True) \<and> np_content w' = np_content w
    \<and> (let nm = cstr (np_save_as_buf w) in
        if nm \<noteq> [] \<and> list_all name_char nm \<and> (fs_map fs nm \<noteq> None \<or> \<not> fs_full fs)
        then fs_map fs' = (fs_map fs)(nm \<mapsto> take FS_MAX_FDATA (np_content w)) \<and> cstr (np_fname w') = nm \<and> \<not> np_dirty w'
        else fs' = fs \<and> np_fname w' = np_fname w \<and> np_dirty w' = np_dirty w)"
proof -
  obtain w' fs' where *: "np_save_as_enter w fs = Some (w', fs')" "np_ok w'" "np_abs w' = np_abs w"
    "let nm = cstr (np_save_as_buf w) in
        if nm \<noteq> [] \<and> list_all name_char nm \<and> (fs_map fs nm \<noteq> None \<or> \<not> fs_full fs)
        then fs_map fs' = (fs_map fs)(nm \<mapsto> take FS_MAX_FDATA (np_content w)) \<and> cstr (np_fname w') = nm \<and> \<not> np_dirty w'
        else fs' = fs \<and> np_fname w' = np_fname w \<and> np_dirty w' = np_dirty w"
    using np_save_as_enter_spec [OF assms(1,2)] by blast
  have "np_feed c w fs = Some (w', fs', True)" using assms(3,4) *(1) by (auto simp: np_feed_def)
  moreover have "np_content w' = np_content w" using *(2,3) assms(1) by (simp add: np_content_abs)
  ultimately show ?thesis using *(4) by blast
qed

text \<open>C22. A text that was saved is found again: what the notepad saves, any notepad that opens the file's slot
  gets back with the cursor behind it, up to the 4096 bytes that a file holds; a longer text loses the rest,
  although the notepad calls it saved.\<close>

theorem notepad_save_open:
  assumes "np_ok w" "fs_ok fs" "np_ok v" "fs_map fs (np_file w) \<noteq> None \<or> \<not> fs_full fs"
  shows "\<exists>w' fs' v'. np_save w fs = Some (w', fs') \<and> \<not> np_dirty w' \<and> np_load (nat (np_file_idx w')) v fs' = Some v'
    \<and> np_abs v' = (take FS_MAX_FDATA (np_content w), []) \<and> cstr (np_fname v') = np_file w
    \<and> fs_map fs' = (fs_map fs)(np_file w \<mapsto> take FS_MAX_FDATA (np_content w))"
proof -
  obtain w' fs' i where s: "np_save w fs = Some (w', fs')" "\<not> np_dirty w'" "fs_ok fs'" "i < length fs'" "np_file_idx w' = int i"
      "named (np_file w) (fs' ! i)" "content (fs' ! i) = take FS_MAX_FDATA (np_content w)"
      "fs_map fs' = (fs_map fs)(np_file w \<mapsto> take FS_MAX_FDATA (np_content w))"
    using np_save_spec [OF assms(1,2)] assms(4) by auto
  then show ?thesis using np_load_spec [OF assms(3) s(3,4)] by (auto simp: named_def)
qed

section \<open>A concrete notepad\<close>

definition empty_np :: "bool \<Rightarrow> np" where
  "empty_np sa = \<lparr>np_text = replicate NOTEPAD_MAX_TEXT 0, np_len = 0, np_cursor = 0, np_fname = replicate NOTEPAD_MAX_FNAME 0,
     np_title = replicate (NOTEPAD_MAX_FNAME + 8) 0, np_own_title = False, np_dirty = False, np_file_idx = - 1,
     np_show_open = False, np_save_as = sa, np_save_as_buf = [97, 0] @ replicate 62 0, np_save_as_cursor = 1\<rparr>"

definition empty_fs :: "fs_file list" where
  "empty_fs = replicate FS_MAX_FILES \<lparr>ff_name = replicate NOTEPAD_MAX_FNAME 0, ff_data = replicate FS_MAX_FDATA 0,
     ff_len = 0, ff_used = False\<rparr>"

lemma empty_np_ok: "np_ok (empty_np sa)"
  by (simp add: np_ok_def empty_np_def terminated_def cstr_def NOTEPAD_MAX_TEXT_def NOTEPAD_MAX_FNAME_def
      del: replicate.simps)

lemma empty_fs_ok: "fs_ok empty_fs"
  by (simp add: fs_ok_def empty_fs_def file_ok_def named_def terminated_def NOTEPAD_MAX_FNAME_def FS_MAX_FILES_def FS_MAX_FDATA_def
      del: replicate.simps)

lemma empty_fs_free: "\<not> fs_full empty_fs"
  by (simp add: fs_full_def empty_fs_def list_all_length FS_MAX_FILES_def del: replicate.simps) (rule exI [of _ 0], simp)

theorem notepad_refines_witness:
  "\<exists>w' fs'. np_feed 104 (empty_np False) empty_fs = Some (w', fs', False) \<and> np_abs w' = ([104], [])"
proof -
  have abs: "np_abs (empty_np False) = ([], [])" "\<not> np_save_as (empty_np False)"
    by (simp_all add: np_abs_def empty_np_def del: replicate.simps)
  then have v: "ed_key 104 (np_view (empty_np False)) = (([104], []), None)"
    by (simp add: np_view_def ed_key_def printable_def ed_insert_def NOTEPAD_MAX_TEXT_def)
  obtain w' fs' r where w': "np_feed 104 (empty_np False) empty_fs = Some (w', fs', r)"
      "np_view w' = ed_key 104 (np_view (empty_np False))"
    using notepad_refines [OF empty_np_ok [of False] empty_fs_ok, of 104] by blast
  then have "\<not> r" using abs(2) by (auto simp: np_feed_def bind_eq_Some_conv)
  then show ?thesis using w' v by (auto simp: np_view_def)
qed

theorem np_save_as_correct_witness:
  "\<exists>w' fs'. np_feed 10 (empty_np True) empty_fs = Some (w', fs', True) \<and> fs_map fs' [97] = Some []"
proof -
  have n: "cstr (np_save_as_buf (empty_np True)) = [97]" "np_content (empty_np True) = []" "np_save_as (empty_np True)"
    by (simp_all add: empty_np_def cstr_def np_content_def del: replicate.simps)
  from np_save_as_correct [OF empty_np_ok empty_fs_ok n(3), of 10] show ?thesis
    using n empty_fs_free by (auto simp: name_char_def Let_def)
qed

theorem notepad_save_open_witness:
  "\<exists>w' fs' v'. np_save (empty_np False) empty_fs = Some (w', fs') \<and> np_load (nat (np_file_idx w')) (empty_np True) fs' = Some v'
     \<and> cstr (np_fname v') = cstr untitled_name"
proof -
  have "np_file (empty_np False) = cstr untitled_name"
    by (simp add: np_file_def empty_np_def cstr_def NOTEPAD_MAX_FNAME_def del: replicate.simps)
  then show ?thesis using notepad_save_open [OF empty_np_ok empty_fs_ok empty_np_ok, of False True] empty_fs_free by auto
qed

end
