(* ===== verification/Desktop_Console.thy ===== *)
theory Desktop_Console
  imports Desktop_Terminal Desktop_Notepad
begin

text \<open>
  What the terminal of \<^verbatim>\<open>kernel/desktop.c\<close> does: the input line is a list with a gap, the scrollback is the
  last 80 lines of everything printed, each cut to 87 characters, and every key leads from a well-formed
  terminal to a well-formed one, as the command interpreter on lists (\<open>tv_key\<close>) says. The address line of the
  browser is the same line; its navigation stays inside its arrays.
\<close>

section \<open>The input line\<close>

definition line_ok :: "line \<Rightarrow> bool" where
  "line_ok s \<longleftrightarrow> length (ln_buf s) = TERM_LINE_MAX \<and> ln_len s < TERM_LINE_MAX \<and> ln_cur s \<le> ln_len s
     \<and> 0 \<notin> set (take (ln_len s) (ln_buf s))"

definition line_abs :: "line \<Rightarrow> bytes \<times> bytes" where
  "line_abs s = (take (ln_cur s) (ln_buf s), take (ln_len s - ln_cur s) (drop (ln_cur s) (ln_buf s)))"

lemma line_split:
  assumes "line_ok s" "line_abs s = (l, r)"
  obtains z where "ln_buf s = l @ r @ z" "ln_cur s = length l" "ln_len s = length l + length r" "z \<noteq> []" "0 \<notin> set (l @ r)"
proof -
  have n: "ln_cur s \<le> ln_len s" "ln_len s < length (ln_buf s)" using assms(1) by (auto simp: line_ok_def)
  have l: "l = take (ln_cur s) (ln_buf s)" "r = take (ln_len s - ln_cur s) (drop (ln_cur s) (ln_buf s))"
    using assms(2) by (simp_all add: line_abs_def)
  let ?z = "drop (ln_len s) (ln_buf s)"
  have "r @ ?z = drop (ln_cur s) (ln_buf s)"
    using n(1) append_take_drop_id [of "ln_len s - ln_cur s" "drop (ln_cur s) (ln_buf s)"] by (simp add: l drop_drop)
  then have b: "ln_buf s = l @ r @ ?z" by (simp add: l)
  have len: "length l = ln_cur s" "length r = ln_len s - ln_cur s" using n by (simp_all add: l)
  have "take (ln_len s) (l @ r @ ?z) = l @ r" using len n(1) by simp
  then have "0 \<notin> set (l @ r)" using assms(1) unfolding line_ok_def b [symmetric] by simp
  moreover have "?z \<noteq> []" using n(2) by simp
  moreover have "ln_cur s = length l" "ln_len s = length l + length r" using len n(1) by simp_all
  ultimately show ?thesis using b that [of ?z] by blast
qed

lemma line_make:
  assumes "ln_buf s = l @ r @ z" "ln_cur s = length l" "ln_len s = length l + length r" "0 \<notin> set (l @ r)"
    "length (l @ r @ z) = TERM_LINE_MAX" "z \<noteq> []"
  shows "line_ok s \<and> line_abs s = (l, r)"
  using assms by (cases z) (auto simp: line_ok_def line_abs_def)

lemma line_insert_spec:
  assumes ok: "line_ok s" and abs: "line_abs s = (l, r)" and c: "c \<noteq> 0"
  shows "\<exists>s'. line_insert c s = Some s' \<and> line_ok s' \<and> line_abs s' = ed_insert (TERM_LINE_MAX - 1) c (l, r)"
proof -
  obtain z where s: "ln_buf s = l @ r @ z" "ln_cur s = length l" "ln_len s = length l + length r" "z \<noteq> []" "0 \<notin> set (l @ r)"
    using line_split [OF ok abs] by blast
  show ?thesis
  proof (cases "length l + length r < TERM_LINE_MAX - 1")
    case False
    then show ?thesis using ok abs s by (simp add: line_insert_def ed_insert_def)
  next
    case True
    obtain y zs where z: "z = y # zs" using s(4) by (cases z) auto
    let ?t = "take (length l + 1) (ln_buf s) @ r @ zs"
    have t1: "(if ln_cur s < ln_len s then memmove (ln_buf s) (ln_cur s + 1) (ln_cur s) (ln_len s - ln_cur s) else Some (ln_buf s)) = Some ?t"
      by (simp only: s(2,3) add_diff_cancel_left' np_insert_text [OF s(1) [unfolded z]])
    have "take (length l + 1) (ln_buf s) = l @ [hd (r @ [y])]" using s(1) z by (cases r) simp_all
    then have t2: "wr ?t (ln_cur s) c = Some (l @ c # r @ zs)" using s(2) by (simp add: wr_def list_update_append)
    let ?s = "\<lparr>ln_buf = (l @ [c]) @ r @ zs, ln_len = ln_len s + 1, ln_cur = ln_cur s + 1\<rparr>"
    have run: "line_insert c s = Some ?s" using True s(3) t2 unfolding line_insert_def t1 by simp
    have "length (ln_buf s) = TERM_LINE_MAX" using ok by (simp add: line_ok_def)
    then have "length ((l @ [c]) @ r @ zs) = TERM_LINE_MAX" "zs \<noteq> []" using s(1) z True by auto
    then have "line_ok ?s \<and> line_abs ?s = (l @ [c], r)" using s c by (intro line_make) auto
    then show ?thesis using run True by (simp add: ed_insert_def)
  qed
qed

lemma line_back_spec:
  assumes ok: "line_ok s" and abs: "line_abs s = (l, r)"
  shows "\<exists>s'. line_back s = Some s' \<and> line_ok s' \<and> line_abs s' = (butlast l, r)"
proof -
  obtain z where s: "ln_buf s = l @ r @ z" "ln_cur s = length l" "ln_len s = length l + length r" "z \<noteq> []" "0 \<notin> set (l @ r)"
    using line_split [OF ok abs] by blast
  show ?thesis
  proof (cases l rule: rev_cases)
    case Nil
    then show ?thesis using ok abs s by (simp add: line_back_def)
  next
    case (snoc a x)
    obtain b where b: "(if ln_cur s < ln_len s then memmove (ln_buf s) (ln_cur s - 1) (ln_cur s) (ln_len s - ln_cur s) else Some (ln_buf s))
        = Some b" "\<exists>y. b = a @ r @ y # z"
    proof (cases "r = []")
      case True
      then show ?thesis using that [of "a @ x # z"] s snoc by simp
    next
      case False
      have "memmove (ln_buf s) (length l - 1) (length l) (length r)
          = Some (take (length l - 1) (ln_buf s) @ r @ drop (length l - 1 + length r) (ln_buf s))"
        using s by (intro memmove_seg [of _ l r z]) auto
      also have "take (length l - 1) (ln_buf s) = a" using s snoc by simp
      also have "drop (length l - 1 + length r) (ln_buf s) = last r # z"
        using s(1) snoc False by (cases r rule: rev_cases) simp_all
      finally show ?thesis using that [of "a @ r @ last r # z"] False s by simp
    qed
    then obtain y where y: "b = a @ r @ y # z" by blast
    let ?s = "\<lparr>ln_buf = a @ r @ 0 # z, ln_len = ln_len s - 1, ln_cur = ln_cur s - 1\<rparr>"
    have "wr b (ln_len s - 1) 0 = Some (a @ r @ 0 # z)"
      using y s(3) snoc by (simp add: wr_def list_update_append)
    then have run: "line_back s = Some ?s" using b(1) s(2) snoc by (simp add: line_back_def)
    have "length (ln_buf s) = TERM_LINE_MAX" using ok by (simp add: line_ok_def)
    then have "line_ok ?s \<and> line_abs ?s = (a, r)" using s snoc by (intro line_make [where z = "0 # z"]) auto
    then show ?thesis using run snoc by simp
  qed
qed

lemma line_move_spec:
  assumes ok: "line_ok s" and abs: "line_abs s = (l, r)"
  shows "line_ok (line_left s) \<and> line_abs (line_left s) = ed_move False (l, r)"
    "line_ok (line_right s) \<and> line_abs (line_right s) = ed_move True (l, r)"
proof -
  obtain z where s: "ln_buf s = l @ r @ z" "ln_cur s = length l" "ln_len s = length l + length r" "z \<noteq> []" "0 \<notin> set (l @ r)"
    using line_split [OF ok abs] by blast
  have len: "length (l @ r @ z) = TERM_LINE_MAX" using ok s(1) by (simp add: line_ok_def)
  show "line_ok (line_left s) \<and> line_abs (line_left s) = ed_move False (l, r)"
  proof (cases l rule: rev_cases)
    case Nil
    then show ?thesis using ok abs s by (simp add: line_left_def ed_move_def)
  next
    case (snoc a x)
    have "line_ok (s\<lparr>ln_cur := length a\<rparr>) \<and> line_abs (s\<lparr>ln_cur := length a\<rparr>) = (a, x # r)"
      using s len snoc by (intro line_make [where z = z]) auto
    then show ?thesis using s snoc by (simp add: line_left_def ed_move_def)
  qed
  show "line_ok (line_right s) \<and> line_abs (line_right s) = ed_move True (l, r)"
  proof (cases r)
    case Nil
    then show ?thesis using ok abs s by (simp add: line_right_def ed_move_def)
  next
    case (Cons x a)
    have "line_ok (s\<lparr>ln_cur := length l + 1\<rparr>) \<and> line_abs (s\<lparr>ln_cur := length l + 1\<rparr>) = (l @ [x], a)"
      using s len Cons by (intro line_make [where z = z]) auto
    then show ?thesis using s Cons by (simp add: line_right_def ed_move_def)
  qed
qed

section \<open>The scrollback\<close>

definition tm_ok :: "tm \<Rightarrow> bool" where
  "tm_ok w \<longleftrightarrow> length (tm_lines w) = TERM_SCROLL_MAX \<and> (\<forall>row \<in> set (tm_lines w). length row = TERM_LINE_MAX)
     \<and> (\<forall>row \<in> set (take (tm_len w) (tm_lines w)). terminated row)
     \<and> tm_len w \<le> TERM_SCROLL_MAX \<and> tm_scroll w \<le> tm_len w \<and> line_ok (tm_input w)"

definition shown :: "tm \<Rightarrow> bytes list" where
  "shown w = map cstr (take (tm_len w) (tm_lines w))"

definition last_lines :: "bytes list \<Rightarrow> bytes list" where
  "last_lines xs = drop (length xs - TERM_SCROLL_MAX) xs"

lemma last_lines_append: "last_lines (last_lines xs @ ys) = last_lines (xs @ ys)"
proof (cases "length xs \<le> TERM_SCROLL_MAX")
  case True
  then show ?thesis by (simp add: last_lines_def)
next
  case False
  define k where "k = length xs - TERM_SCROLL_MAX"
  have k: "k \<le> length xs" "length (drop k xs @ ys) - TERM_SCROLL_MAX = length ys" "length (xs @ ys) - TERM_SCROLL_MAX = length ys + k"
    using False by (simp_all add: k_def)
  have "drop (length ys) (drop k xs @ ys) = drop (length ys) (drop k (xs @ ys))" using k(1) by simp
  also have "\<dots> = drop (length ys + k) (xs @ ys)" by (rule drop_drop)
  finally show ?thesis unfolding last_lines_def k_def [symmetric] k(2,3) .
qed

lemma last_lines_short: "length xs \<le> TERM_SCROLL_MAX \<Longrightarrow> last_lines xs = xs"
  by (simp add: last_lines_def)

lemma length_shown: "tm_ok w \<Longrightarrow> length (shown w) = tm_len w"
  by (simp add: tm_ok_def shown_def)

lemma shown_short: "tm_ok w \<Longrightarrow> last_lines (shown w) = shown w"
  by (rule last_lines_short) (simp add: length_shown, simp add: tm_ok_def)

lemma term_append_line_spec:
  assumes ok: "tm_ok w" and s: "terminated s"
  shows "\<exists>w'. term_append_line s w = Some w' \<and> tm_ok w' \<and> shown w' = last_lines (shown w @ [take (TERM_LINE_MAX - 1) (cstr s)])
    \<and> tm_scroll w' = 0 \<and> tm_input w' = tm_input w"
proof -
  define w1 where "w1 = (if tm_len w \<ge> TERM_SCROLL_MAX
               then w\<lparr>tm_lines := take (TERM_SCROLL_MAX - 1) (drop 1 (tm_lines w)) @ drop (TERM_SCROLL_MAX - 1) (tm_lines w),
                      tm_len := TERM_SCROLL_MAX - 1\<rparr> else w)"
  have L: "length (tm_lines w) = TERM_SCROLL_MAX" "0 < TERM_SCROLL_MAX" "tm_len w \<le> TERM_SCROLL_MAX"
    using ok by (simp_all add: tm_ok_def TERM_SCROLL_MAX_def)
  have len1: "length (tm_lines w1) = TERM_SCROLL_MAX" "tm_len w1 < TERM_SCROLL_MAX" using L by (auto simp: w1_def)
  have tk1: "take (tm_len w1) (tm_lines w1) = drop (Suc (tm_len w) - TERM_SCROLL_MAX) (take (tm_len w) (tm_lines w))"
  proof (cases "tm_len w \<ge> TERM_SCROLL_MAX")
    case True
    then show ?thesis using L by (simp add: w1_def)
  qed (simp add: w1_def)
  have rows1: "\<forall>row \<in> set (tm_lines w1). length row = TERM_LINE_MAX" "\<forall>row \<in> set (take (tm_len w1) (tm_lines w1)). terminated row"
  proof -
    show "\<forall>row \<in> set (tm_lines w1). length row = TERM_LINE_MAX"
      using ok unfolding w1_def tm_ok_def by (auto dest: in_set_takeD in_set_dropD)
    show "\<forall>row \<in> set (take (tm_len w1) (tm_lines w1)). terminated row"
      using ok unfolding tk1 tm_ok_def by (auto dest: in_set_dropD)
  qed
  obtain d where d: "copy_cstr (TERM_LINE_MAX - 1) s (tm_lines w1 ! tm_len w1) 0 = Some (min (TERM_LINE_MAX - 1) (length (cstr s)), d)"
      "length d = TERM_LINE_MAX" "terminated d" "cstr d = take (TERM_LINE_MAX - 1) (cstr s)"
    using copy_cstr_fits [OF s, of "TERM_LINE_MAX - 1" "tm_lines w1 ! tm_len w1"] rows1(1) len1
    by (auto simp: TERM_LINE_MAX_def)
  define w' where "w' = w1\<lparr>tm_lines := (tm_lines w1)[tm_len w1 := d], tm_len := tm_len w1 + 1, tm_scroll := 0\<rparr>"
  have "term_append_line s w = Some w'"
    unfolding term_append_line_def w1_def [symmetric] Let_def using d(1) len1 by (simp add: mem_simps w'_def)
  moreover have tk: "take (tm_len w') (tm_lines w') = take (tm_len w1) (tm_lines w1) @ [d]"
    using len1 by (simp add: w'_def take_Suc_conv_app_nth)
  moreover have "tm_ok w'"
  proof -
    have "\<forall>row \<in> set (tm_lines w'). length row = TERM_LINE_MAX"
      using rows1(1) d(2) by (auto simp: w'_def dest: set_update_subset_insert [THEN subsetD])
    moreover have "\<forall>row \<in> set (take (tm_len w') (tm_lines w')). terminated row" using rows1(2) d(3) by (simp add: tk)
    moreover have "tm_input w' = tm_input w" by (simp add: w'_def w1_def)
    ultimately show ?thesis using len1 ok by (simp add: tm_ok_def) (simp add: w'_def)
  qed
  moreover have "shown w' = last_lines (shown w @ [take (TERM_LINE_MAX - 1) (cstr s)])"
    using L by (simp add: shown_def tk tk1 d(4) last_lines_def drop_map)
  ultimately show ?thesis by (simp add: w'_def w1_def)
qed

section \<open>Texts that fit\<close>

lemma lit_chars: "lit [] = []" "lit (c # s) = of_char c # lit s"
  by (simp_all add: lit_def)

lemma lit_append [simp]: "lit (s @ t) = lit s @ lit t"
  by (simp add: lit_def)

lemma length_lit [simp]: "length (lit s) = length s"
  by (simp add: lit_def)

lemma of_char_less: "(of_char x :: nat) < 256"
proof -
  have "(of_char x :: nat) = of_char x mod 256" by (rule of_char_mod_256 [symmetric])
  also have "\<dots> < 256" by (rule mod_less_divisor) (rule zero_less_numeral)
  finally show ?thesis .
qed

lemma unat_of_char: "unat (of_char c :: u8) = of_char c"
proof -
  have "(of_char c :: nat) < 2 ^ LENGTH(8)" unfolding len_num1 using of_char_less [of c] by (simp del: of_char_mod_256)
  then have "unat (of_nat (of_char c) :: u8) = of_char c" by (rule unat_of_nat_lt)
  then show ?thesis unfolding of_nat_of_char .
qed

lemma of_char_u8_inject: "(of_char c :: u8) = of_char c' \<longleftrightarrow> c = c'"
proof
  assume "(of_char c :: u8) = of_char c'"
  then have "unat (of_char c :: u8) = unat (of_char c' :: u8)" by (rule arg_cong)
  then have "(of_char c :: nat) = of_char c'" unfolding unat_of_char .
  then show "c = c'" by (rule of_char_eqI)
next
  assume "c = c'" then show "(of_char c :: u8) = of_char c'" by (rule arg_cong)
qed
lemma lit_inject [simp]: "lit s = lit t \<longleftrightarrow> s = t"
  unfolding lit_def by (intro inj_map_eq_map inj_onI) (simp only: of_char_u8_inject)

lemma term_print_spec:
  assumes "tm_ok w" "0 \<notin> set (lit s)" "length s < TERM_LINE_MAX"
  shows "\<exists>w'. term_print s w = Some w' \<and> tm_ok w' \<and> shown w' = last_lines (shown w @ [lit s]) \<and> tm_scroll w' = 0 \<and> tm_input w' = tm_input w"
proof -
  have "cstr (lit s @ 0 # []) = lit s" using assms(2) by (rule cstr_append)
  then show ?thesis using term_append_line_spec [OF assms(1), of "lit s @ [0]"] assms(3) by (simp add: term_print_def)
qed

lemma term_prints_spec:
  assumes "tm_ok w" "\<forall>s \<in> set ss. 0 \<notin> set (lit s) \<and> length s < TERM_LINE_MAX" "tm_scroll w = 0"
  shows "\<exists>w'. term_prints ss w = Some w' \<and> tm_ok w' \<and> shown w' = last_lines (shown w @ map lit ss) \<and> tm_scroll w' = 0 \<and> tm_input w' = tm_input w"
  using assms
proof (induction ss arbitrary: w)
  case Nil
  then show ?case by (simp add: shown_short)
next
  case (Cons s ss)
  obtain w1 where w1: "term_print s w = Some w1" "tm_ok w1" "shown w1 = last_lines (shown w @ [lit s])" "tm_scroll w1 = 0" "tm_input w1 = tm_input w"
    using term_print_spec [of w s] Cons.prems by auto
  show ?case using Cons.IH [OF w1(2) _ w1(4)] Cons.prems w1 by (auto simp: last_lines_append)
qed

lemma low_digits_range: "0 \<notin> set (low_digits n v)" "length (low_digits n v) \<le> n"
proof -
  have "of_nat (48 + v mod 10) \<noteq> (0 :: u8)" for v :: nat
  proof -
    have "v mod 10 < 10" by simp
    then have "unat (of_nat (48 + v mod 10) :: u8) = 48 + v mod 10" by (subst unat_of_nat_lt) (auto simp: simp_thms)
    then show ?thesis by (metis add_eq_0_iff_both_eq_0 unat_0 zero_neq_numeral)
  qed
  then show "0 \<notin> set (low_digits n v)" by (induction n arbitrary: v) auto
  show "length (low_digits n v) \<le> n" by (induction n arbitrary: v) auto
qed

lemma low_digits_length: "v < 10 ^ k \<Longrightarrow> length (low_digits n v) \<le> k"
proof (induction n arbitrary: v k)
  case (Suc n)
  show ?case
  proof (cases k)
    case 0
    then show ?thesis using Suc.prems by simp
  next
    case (Suc j)
    then have "v div 10 < 10 ^ j" using Suc.prems by (simp add: less_mult_imp_div_less mult.commute)
    then show ?thesis using Suc.IH [of "v div 10" j] Suc by simp
  qed
qed simp

lemma put_digits_range:
  assumes "0 \<le> v" "v < 10 ^ k" "0 < k"
  shows "0 \<notin> set (put_digits v d)" "length (put_digits v d) \<le> max d k"
proof -
  have "nat v < 10 ^ k" using assms by (simp add: nat_less_iff)
  then have l: "length (if v = 0 then [48 :: u8] else low_digits 6 (nat v)) \<le> k" using low_digits_length assms(3) by simp
  show "0 \<notin> set (put_digits v d)" using low_digits_range(1) [of 6 "nat v"] by (auto simp: put_digits_def Let_def)
  show "length (put_digits v d) \<le> max d k" using l by (auto simp: put_digits_def Let_def)
qed

section \<open>What the clock reads\<close>

definition now_ok :: "rtc_datetime \<Rightarrow> bool" where
  "now_ok dt \<longleftrightarrow> 0 \<le> dt_hour dt \<and> dt_hour dt < 1000 \<and> 0 \<le> dt_minute dt \<and> dt_minute dt < 1000
     \<and> 0 \<le> dt_second dt \<and> dt_second dt < 1000 \<and> 0 \<le> dt_day dt \<and> dt_day dt < 1000 \<and> 0 \<le> dt_year dt \<and> dt_year dt < 100000"

definition si_ok :: "sys_info \<Rightarrow> bool" where
  "si_ok si \<longleftrightarrow> (\<forall>dt. si_now si = Some dt \<longrightarrow> now_ok dt)"

lemma bcd_range: "0 \<le> bcd_to_bin v" "bcd_to_bin v \<le> 165"
proof -
  have a: "uint (x AND 0x0F) \<le> 15" for x :: u8 using word_and_le1 [of x 15] by (simp add: word_le_def and.commute)
  have b: "0 \<le> uint (x :: u8)" for x by simp
  show "0 \<le> bcd_to_bin v" using b by (simp add: bcd_to_bin_def)
  show "bcd_to_bin v \<le> 165" using a [of v] a [of "drop_bit 4 v"] unfolding bcd_to_bin_def by linarith
qed

section \<open>Texts of the clock\<close>

lemma months_texts: "0 \<notin> set (month_name m)" "length (month_name m) = 3"
proof -
  have "m = 1 \<or> m = 2 \<or> m = 3 \<or> m = 4 \<or> m = 5 \<or> m = 6 \<or> m = 7 \<or> m = 8 \<or> m = 9 \<or> m = 10 \<or> m = 11 \<or> m = 12"
    if "1 \<le> m" "m \<le> 12" using that by presburger
  then show "0 \<notin> set (month_name m)" "length (month_name m) = 3"
    by (auto simp: month_name_def months_def lit_chars)
qed

lemma time_text_range: "now_ok dt \<Longrightarrow> 0 \<notin> set (time_text dt) \<and> length (time_text dt) \<le> 11"
  using put_digits_range [of "dt_hour dt" 3 2] put_digits_range [of "dt_minute dt" 3 2] put_digits_range [of "dt_second dt" 3 2]
  by (simp add: now_ok_def time_text_def lit_chars)

lemma date_text_range: "now_ok dt \<Longrightarrow> 0 \<notin> set (date_text dt) \<and> length (date_text dt) \<le> 14"
  using put_digits_range [of "dt_day dt" 3 2] put_digits_range [of "dt_year dt" 5 4] months_texts [of "dt_month dt"]
  by (simp add: now_ok_def date_text_def lit_chars)

lemma build_clock_str_ok: "(\<forall>dt. now = Some dt \<longrightarrow> now_ok dt) \<Longrightarrow> \<exists>b. build_clock_str now = Some b \<and> b \<noteq> [] \<and> length b \<le> 40"
  using time_text_range date_text_range by (cases now) (fastforce simp: build_clock_str_def in_buf_def lit_chars)+

section \<open>The interpreter on lists\<close>

definition mem_text :: "sys_info \<Rightarrow> bytes" where
  "mem_text si = lit ''Heap: '' @ ul_to_str (si_used si div 1024) @ lit '' KiB used, '' @ ul_to_str (si_free si div 1024) @ lit '' KiB free''"

definition time_reply :: "sys_info \<Rightarrow> bytes" where
  "time_reply si = (case si_now si of None \<Rightarrow> lit ''Time: --:--:--'' | Some dt \<Rightarrow> lit ''Time: '' @ time_text dt @ lit '' IST'')"

definition date_reply :: "sys_info \<Rightarrow> bytes" where
  "date_reply si = (case si_now si of None \<Rightarrow> lit ''Date: --/--/----'' | Some dt \<Rightarrow> lit ''Date: '' @ date_text dt)"

text \<open>The lines that a command prints; \<open>None\<close> clears the screen.\<close>

definition reply :: "sys_info \<Rightarrow> bytes \<Rightarrow> bytes list option" where
  "reply si cmd =
     (let args = dropWhile (\<lambda>c. c = 32) cmd; tok = takeWhile (\<lambda>c. c \<noteq> 32) args;
          rest = dropWhile (\<lambda>c. c = 32) (drop (length tok) args) in
      if args = [] then Some []
      else if tok = lit ''help'' then Some (map lit [''Commands: help, clear, about, echo,'', ''time, date, mem, reboot.''])
      else if tok = lit ''clear'' then None
      else if tok = lit ''about''
      then Some (map lit [''Sol OS'', ''Version 0.1'', ''Architecture: x86_64'', ''Resolution: 1920x1080'', ''Bootloader: Limine''])
      else if tok = lit ''echo'' then Some (if rest = [] then [] else [rest])
      else if tok = lit ''time'' then Some [time_reply si]
      else if tok = lit ''date'' then Some [date_reply si]
      else if tok = lit ''mem'' then Some [mem_text si]
      else if tok = lit ''reboot'' then Some [lit ''Rebooting...'']
      else Some [lit ''Unknown command. Type 'help'.''])"

definition reboots :: "bytes \<Rightarrow> bool" where
  "reboots cmd \<longleftrightarrow> takeWhile (\<lambda>c. c \<noteq> 32) (dropWhile (\<lambda>c. c = 32) cmd) = lit ''reboot''"

text \<open>A printed line.\<close>

lemma term_append_text:
  assumes "tm_ok w" "0 \<notin> set s" "length s < TERM_LINE_MAX"
  shows "\<exists>w'. term_append_line (s @ [0]) w = Some w' \<and> tm_ok w' \<and> shown w' = last_lines (shown w @ [s]) \<and> tm_scroll w' = 0
    \<and> tm_input w' = tm_input w"
  using term_append_line_spec [OF assms(1), of "s @ [0]"] cstr_append [OF assms(2), of "[]"] assms(3) by simp

lemma term_print_time_spec:
  assumes "tm_ok w" "si_ok si"
  shows "\<exists>w'. term_print_time (si_now si) w = Some w' \<and> tm_ok w' \<and> shown w' = last_lines (shown w @ [time_reply si])
    \<and> tm_scroll w' = 0 \<and> tm_input w' = tm_input w"
proof (cases "si_now si")
  case None
  then show ?thesis using term_print_spec [OF assms(1), of "''Time: --:--:--''"]
    by (simp add: term_print_time_def time_reply_def TERM_LINE_MAX_def lit_chars)
next
  case (Some dt)
  then have dt: "0 \<notin> set (time_text dt)" "length (time_text dt) \<le> 11" using time_text_range assms(2) by (simp_all add: si_ok_def)
  then show ?thesis using Some term_append_text [OF assms(1), of "lit ''Time: '' @ time_text dt @ lit '' IST''"]
    by (simp add: term_print_time_def time_reply_def in_buf_def TERM_LINE_MAX_def lit_chars)
qed

lemma term_print_date_spec:
  assumes "tm_ok w" "si_ok si"
  shows "\<exists>w'. term_print_date (si_now si) w = Some w' \<and> tm_ok w' \<and> shown w' = last_lines (shown w @ [date_reply si])
    \<and> tm_scroll w' = 0 \<and> tm_input w' = tm_input w"
proof (cases "si_now si")
  case None
  then show ?thesis using term_print_spec [OF assms(1), of "''Date: --/--/----''"]
    by (simp add: term_print_date_def date_reply_def TERM_LINE_MAX_def lit_chars)
next
  case (Some dt)
  then have dt: "0 \<notin> set (date_text dt)" "length (date_text dt) \<le> 14" using date_text_range assms(2) by (simp_all add: si_ok_def)
  then show ?thesis using Some term_append_text [OF assms(1), of "lit ''Date: '' @ date_text dt"]
    by (simp add: term_print_date_def date_reply_def in_buf_def TERM_LINE_MAX_def lit_chars)
qed

lemma ul_to_str_range: "0 \<notin> set (ul_to_str v)" "length (ul_to_str v) \<le> 22"
  using low_digits_range [of 22 "unat v"] by (auto simp: ul_to_str_def)

lemma term_print_mem_spec:
  assumes "tm_ok w"
  shows "\<exists>w'. term_print_mem (si_used si) (si_free si) w = Some w' \<and> tm_ok w' \<and> shown w' = last_lines (shown w @ [mem_text si])
    \<and> tm_scroll w' = 0 \<and> tm_input w' = tm_input w"
proof -
  have "0 \<notin> set (mem_text si)" "length (mem_text si) \<le> 70"
    using ul_to_str_range [of "si_used si div 1024"] ul_to_str_range [of "si_free si div 1024"] by (auto simp: mem_text_def lit_chars)
  then show ?thesis using term_append_text [OF assms, of "mem_text si"]
    by (simp add: term_print_mem_def in_buf_def TERM_LINE_MAX_def mem_text_def lit_chars)
qed

subsection \<open>Tokens\<close>

lemma skip_blanks_spec: "0 \<notin> set x \<Longrightarrow> skip_blanks (p @ x @ [0]) (length p) = Some (length p + length (takeWhile (\<lambda>c. c = 32) x))"
proof (induction x arbitrary: p)
  case Nil
  then show ?case by (subst skip_blanks.simps) simp
next
  case (Cons c x)
  show ?case
  proof (cases "c = 32")
    case True
    then show ?thesis using Cons.IH [of "p @ [c]"] Cons.prems by (subst skip_blanks.simps) simp
  next
    case False
    then show ?thesis by (subst skip_blanks.simps) simp
  qed
qed

lemma skip_token_spec: "0 \<notin> set x \<Longrightarrow> skip_token (p @ x @ [0]) (length p) = Some (length p + length (takeWhile (\<lambda>c. c \<noteq> 32) x))"
proof (induction x arbitrary: p)
  case Nil
  then show ?case by (subst skip_token.simps) simp
next
  case (Cons c x)
  show ?case
  proof (cases "c \<noteq> 32")
    case True
    then show ?thesis using Cons.IH [of "p @ [c]"] Cons.prems by (subst skip_token.simps) auto
  next
    case False
    then show ?thesis by (subst skip_token.simps) simp
  qed
qed

lemma token_is_spec: "token_is (p @ tok @ z) (length p) (length tok) name = Some (tok = lit name)"
  by (auto simp: token_is_def rd_range_def dest: arg_cong [of _ _ length])

lemma term_command_spec:
  assumes ok: "tm_ok w" "si_ok si" "tm_scroll w = 0"
    and cmd: "cmd = p @ tok @ b @ rest @ [0]" "0 \<notin> set rest" "length rest < TERM_LINE_MAX"
    and r: "r = (if tok = lit ''help'' then Some (map lit [''Commands: help, clear, about, echo,'', ''time, date, mem, reboot.''])
      else if tok = lit ''clear'' then None
      else if tok = lit ''about''
      then Some (map lit [''Sol OS'', ''Version 0.1'', ''Architecture: x86_64'', ''Resolution: 1920x1080'', ''Bootloader: Limine''])
      else if tok = lit ''echo'' then Some (if rest = [] then [] else [rest])
      else if tok = lit ''time'' then Some [time_reply si]
      else if tok = lit ''date'' then Some [date_reply si]
      else if tok = lit ''mem'' then Some [mem_text si]
      else if tok = lit ''reboot'' then Some [lit ''Rebooting...'']
      else Some [lit ''Unknown command. Type 'help'.''])"
  shows "\<exists>w'. term_command si cmd (length p) (length tok) (length (p @ tok @ b)) w = Some (w', tok = lit ''reboot'') \<and> tm_ok w'
    \<and> shown w' = (case r of None \<Rightarrow> [] | Some ls \<Rightarrow> last_lines (shown w @ ls)) \<and> tm_scroll w' = 0 \<and> tm_input w' = tm_input w"
proof -
  define N where "N = length tok"
  have tk: "token_is cmd (length p) N name = Some (tok = lit name)" for name
    unfolding cmd(1) N_def by (rule token_is_spec)
  define R where "R = length (p @ tok @ b)"
  have rest: "drop R cmd = rest @ [0]" "rd cmd R = Some (if rest = [] then 0 else hd rest)"
    using cmd(1) by (simp_all add: R_def rd_def nth_append hd_conv_nth)
  have hd: "rest \<noteq> [] \<Longrightarrow> hd rest \<noteq> 0" using cmd(2) by (cases rest) auto
  note run = term_command_def [of si cmd "length p" N R w, unfolded tk Option.bind.bind_lunit]
  consider "tok = lit ''help''" | "tok = lit ''clear''" | "tok = lit ''about''" | "tok = lit ''echo''" | "tok = lit ''time''"
    | "tok = lit ''date''" | "tok = lit ''mem''" | "tok = lit ''reboot''"
    | "tok \<notin> {lit ''help'', lit ''clear'', lit ''about'', lit ''echo'', lit ''time'', lit ''date'', lit ''mem'', lit ''reboot''}"
    by blast
  then have "\<exists>w'. term_command si cmd (length p) N R w = Some (w', tok = lit ''reboot'') \<and> tm_ok w'
    \<and> shown w' = (case r of None \<Rightarrow> [] | Some ls \<Rightarrow> last_lines (shown w @ ls)) \<and> tm_scroll w' = 0 \<and> tm_input w' = tm_input w"
  proof cases
    case 1
    have "\<exists>w'. term_prints [''Commands: help, clear, about, echo,'', ''time, date, mem, reboot.''] w = Some w' \<and> tm_ok w'
        \<and> shown w' = last_lines (shown w @ map lit [''Commands: help, clear, about, echo,'', ''time, date, mem, reboot.''])
        \<and> tm_scroll w' = 0 \<and> tm_input w' = tm_input w"
      by (rule term_prints_spec [OF ok(1) _ ok(3)]) (simp add: TERM_LINE_MAX_def lit_chars)
    then show ?thesis using 1 r by (auto simp: run simp del: term_prints.simps)
  next
    case 2
    then show ?thesis using r ok by (simp add: run tm_ok_def shown_def)
  next
    case 3
    have "\<exists>w'. term_prints [''Sol OS'', ''Version 0.1'', ''Architecture: x86_64'', ''Resolution: 1920x1080'', ''Bootloader: Limine''] w
        = Some w' \<and> tm_ok w' \<and> shown w' = last_lines (shown w @ map lit [''Sol OS'', ''Version 0.1'', ''Architecture: x86_64'',
           ''Resolution: 1920x1080'', ''Bootloader: Limine'']) \<and> tm_scroll w' = 0 \<and> tm_input w' = tm_input w"
      by (rule term_prints_spec [OF ok(1) _ ok(3)]) (simp add: TERM_LINE_MAX_def lit_chars)
    then show ?thesis using 3 r by (auto simp: run simp del: term_prints.simps)
  next
    case 4
    show ?thesis
    proof (cases "rest = []")
      case True
      then show ?thesis using 4 r ok rest by (simp add: run shown_short)
    next
      case False
      then show ?thesis using 4 r rest hd term_append_text [OF ok(1) cmd(2,3)] by (auto simp: run)
    qed
  next
    case 5
    then show ?thesis using r term_print_time_spec [OF ok(1,2)] by (auto simp: run)
  next
    case 6
    then show ?thesis using r term_print_date_spec [OF ok(1,2)] by (auto simp: run)
  next
    case 7
    then show ?thesis using r term_print_mem_spec [OF ok(1), of si] by (auto simp: run)
  next
    case 8
    then show ?thesis using r term_print_spec [OF ok(1), of "''Rebooting...''"] by (auto simp: run TERM_LINE_MAX_def lit_chars)
  next
    case 9
    then have "r = Some [lit ''Unknown command. Type 'help'.'']" using r by simp
    then show ?thesis using 9 term_print_spec [OF ok(1), of "''Unknown command. Type 'help'.''"] by (auto simp: run TERM_LINE_MAX_def lit_chars)
  qed
  then show ?thesis unfolding R_def N_def .
qed


section \<open>A command line\<close>

lemma term_exec_spec:
  assumes ok: "tm_ok w" "si_ok si" and abs: "line_abs (tm_input w) = (l, r)"
  shows "\<exists>w'. term_exec si w = Some (w', reboots (l @ r)) \<and> tm_ok w' \<and> tm_scroll w' = 0 \<and> line_abs (tm_input w') = ([], [])
    \<and> shown w' = (case reply si (l @ r) of None \<Rightarrow> []
        | Some ls \<Rightarrow> last_lines (shown w @ take (TERM_LINE_MAX - 1) (lit TERM_PROMPT @ l @ r) # ls))"
proof -
  have lok: "line_ok (tm_input w)" using ok(1) by (simp add: tm_ok_def)
  obtain z where s: "ln_buf (tm_input w) = l @ r @ z" "ln_len (tm_input w) = length l + length r" "z \<noteq> []" "0 \<notin> set (l @ r)"
    using line_split [OF lok abs] by blast
  define cmd where "cmd = l @ r"
  have c: "0 \<notin> set cmd" "length cmd < TERM_LINE_MAX" "ln_buf (tm_input w) = cmd @ z" "ln_len (tm_input w) = length cmd"
    using s lok by (simp_all add: cmd_def line_ok_def)
  have pr: "length TERM_PROMPT = 11" "0 \<notin> set (lit TERM_PROMPT)" by (simp_all add: TERM_PROMPT_def lit_chars)
  define e where "e = lit TERM_PROMPT @ take (TERM_LINE_MAX - 1 - length TERM_PROMPT) cmd"
  have e: "0 \<notin> set e" "length e < TERM_LINE_MAX" "e = take (TERM_LINE_MAX - 1) (lit TERM_PROMPT @ cmd)"
    using pr c(1) by (auto simp: e_def TERM_LINE_MAX_def dest: in_set_takeD)
  have typed: "rd_range (ln_buf (tm_input w)) 0 (min (ln_len (tm_input w)) (TERM_LINE_MAX - 1 - length TERM_PROMPT))
      = Some (take (TERM_LINE_MAX - 1 - length TERM_PROMPT) cmd)"
    unfolding c(3,4) by (simp add: rd_range_def min_def)
  obtain w1 where w1: "term_append_line (e @ [0]) w = Some w1" "tm_ok w1" "shown w1 = last_lines (shown w @ [e])" "tm_scroll w1 = 0"
    using term_append_text [OF ok(1) e(1,2)] by blast
  have line: "rd_range (ln_buf (tm_input w)) 0 (if ln_len (tm_input w) > TERM_LINE_MAX - 1 then TERM_LINE_MAX - 1 else ln_len (tm_input w))
      = Some cmd"
  proof -
    have "\<not> length cmd > TERM_LINE_MAX - 1" using c(2) by linarith
    then show ?thesis unfolding c(3,4) by (simp add: rd_range_def)
  qed
  have "length (ln_buf (tm_input w)) = TERM_LINE_MAX" using lok by (simp add: line_ok_def)
  then obtain b where b: "wr (ln_buf (tm_input w)) 0 0 = Some b" "length b = TERM_LINE_MAX" by (simp add: wr_def TERM_LINE_MAX_def)
  define w2 where "w2 = w1\<lparr>tm_input := \<lparr>ln_buf = b, ln_len = 0, ln_cur = 0\<rparr>\<rparr>"
  have w2: "tm_ok w2" "shown w2 = last_lines (shown w @ [e])" "tm_scroll w2 = 0" "line_abs (tm_input w2) = ([], [])"
    using w1 b(2) by (simp_all add: w2_def tm_ok_def shown_def line_ok_def line_abs_def TERM_LINE_MAX_def)
  define p args where "p = takeWhile (\<lambda>c. c = 32) cmd" and "args = dropWhile (\<lambda>c. c = 32) cmd"
  have pa: "cmd = p @ args" by (simp add: p_def args_def)
  have a0: "0 \<notin> set args" using c(1) pa by simp
  have blanks: "skip_blanks (cmd @ [0]) 0 = Some (length p)" using skip_blanks_spec [OF c(1), of "[]"] by (simp add: p_def)
  have chr: "rd (cmd @ [0]) (length p) = Some (if args = [] then 0 else hd args)"
    unfolding pa by (simp add: rd_def nth_append hd_conv_nth)
  have run: "term_exec si w = (if args = [] then Some (w2, False)
      else do { t \<leftarrow> skip_token (cmd @ [0]) (length p); rest \<leftarrow> skip_blanks (cmd @ [0]) t;
                term_command si (cmd @ [0]) (length p) (t - length p) rest w2 })"
  proof -
    have "hd args \<noteq> 0" if "args \<noteq> []" using that a0 by (cases args) auto
    moreover have "in_buf TERM_LINE_MAX (lit TERM_PROMPT @ take (TERM_LINE_MAX - 1 - length TERM_PROMPT) cmd) = Some (e @ [0])"
      using e(2) unfolding e_def [symmetric] by (simp add: in_buf_def)
    moreover have "in_buf TERM_LINE_MAX cmd = Some (cmd @ [0])" using c(2) by (simp add: in_buf_def)
    ultimately show ?thesis
      unfolding term_exec_def Let_def typed line b(1) Option.bind.bind_lunit
      by (simp only: w1(1) blanks chr Option.bind.bind_lunit w2_def [symmetric] if_True if_False split: if_split) simp
  qed
  show ?thesis
  proof (cases "args = []")
    case True
    then have "reply si cmd = Some []" by (simp add: reply_def args_def Let_def)
    moreover have "\<not> reboots cmd" using True by (simp add: reboots_def args_def [symmetric] lit_chars)
    ultimately show ?thesis using run True w2 e(3) by (simp add: cmd_def [symmetric])
  next
    case False
    define tok more where "tok = takeWhile (\<lambda>c. c \<noteq> 32) args" and "more = drop (length tok) args"
    define bl rest where "bl = takeWhile (\<lambda>c. c = 32) more" and "rest = dropWhile (\<lambda>c. c = 32) more"
    have tm: "args = tok @ more" by (simp add: more_def tok_def dropWhile_eq_drop [symmetric])
    have mr: "more = bl @ rest" by (simp add: bl_def rest_def)
    have t: "skip_token (cmd @ [0]) (length p) = Some (length (p @ tok))"
      using skip_token_spec [OF a0, of p] pa by (simp add: tok_def)
    have m0: "0 \<notin> set more" using a0 tm by simp
    have r: "skip_blanks (cmd @ [0]) (length (p @ tok)) = Some (length (p @ tok @ bl))"
      using skip_blanks_spec [OF m0, of "p @ tok"] pa tm by (simp add: bl_def)
    have "0 \<notin> set rest" "length rest < TERM_LINE_MAX" using m0 mr c(2) pa tm by auto
    from term_command_spec [OF w2(1) ok(2) w2(3) _ this refl, of "cmd @ [0]" p tok bl] obtain w' where
      w': "term_command si (cmd @ [0]) (length p) (length tok) (length (p @ tok @ bl)) w2 = Some (w', tok = lit ''reboot'')"
        "tm_ok w'" "tm_scroll w' = 0" "tm_input w' = tm_input w2"
        "shown w' = (case reply si cmd of None \<Rightarrow> [] | Some ls \<Rightarrow> last_lines (shown w2 @ ls))"
      using pa tm mr False unfolding reply_def args_def [symmetric] tok_def [symmetric] more_def [symmetric] rest_def [symmetric] Let_def
      by auto
    have "term_exec si w = Some (w', reboots cmd)"
      unfolding run using False t r w'(1) by (simp add: reboots_def args_def [symmetric] tok_def [symmetric])
    moreover have "shown w' = (case reply si cmd of None \<Rightarrow> [] | Some ls \<Rightarrow> last_lines (shown w @ e # ls))"
      using w'(5) w2(2) last_lines_append [of "shown w @ [e]"] by (simp split: option.split)
    ultimately show ?thesis using w'(2-4) w2(4) unfolding cmd_def [symmetric] e(3) [symmetric] by simp
  qed
qed

text \<open>The terminal as a user sees it: the scrollback, how far it is scrolled up, the line around the cursor.\<close>

type_synonym tv = "bytes list \<times> nat \<times> bytes \<times> bytes"

definition tv_view :: "tm \<Rightarrow> tv" where
  "tv_view w = (shown w, tm_scroll w, line_abs (tm_input w))"

definition tv_key :: "sys_info \<Rightarrow> u8 \<Rightarrow> tv \<Rightarrow> tv" where
  "tv_key si c = (\<lambda>(ls, sc, l, r).
     if printable c then (ls, sc, ed_insert (TERM_LINE_MAX - 1) c (l, r))
     else if c = 8 then (ls, sc, butlast l, r)
     else if c = 10 then
       (case reply si (l @ r) of
          None \<Rightarrow> ([], 0, [], [])
        | Some out \<Rightarrow> (last_lines (ls @ take (TERM_LINE_MAX - 1) (lit TERM_PROMPT @ l @ r) # out), 0, [], []))
     else if c = 1 \<or> c = 5 then (ls, min (sc + 1) (length ls), l, r)
     else if c = 2 \<or> c = 6 then (ls, sc - 1, l, r)
     else if c = 3 then (ls, sc, ed_move False (l, r))
     else if c = 4 then (ls, sc, ed_move True (l, r))
     else (ls, sc, l, r))"

lemma term_feed_spec:
  assumes ok: "tm_ok w" "si_ok si"
  shows "\<exists>w'. term_feed si c w = Some (w', c = 10 \<and> reboots (fst (line_abs (tm_input w)) @ snd (line_abs (tm_input w))))
    \<and> tm_ok w' \<and> tv_view w' = tv_key si c (tv_view w)"
proof -
  obtain l r where abs: "line_abs (tm_input w) = (l, r)" by (cases "line_abs (tm_input w)")
  have lok: "line_ok (tm_input w)" using ok(1) by (simp add: tm_ok_def)
  have line: "tm_ok (w\<lparr>tm_input := s\<rparr>)" "tv_view (w\<lparr>tm_input := s\<rparr>) = (shown w, tm_scroll w, line_abs s)" if "line_ok s" for s
    using ok(1) that by (simp_all add: tm_ok_def tv_view_def shown_def)
  have scroll: "tm_ok (w\<lparr>tm_scroll := k\<rparr>)" "tv_view (w\<lparr>tm_scroll := k\<rparr>) = (shown w, k, l, r)" if "k \<le> tm_len w" for k
    using ok(1) that abs by (simp_all add: tm_ok_def tv_view_def shown_def)
  have v: "tv_view w = (shown w, tm_scroll w, l, r)" using abs by (simp add: tv_view_def)
  consider "printable c" | "c = 8" | "c = 10" | "c = 1 \<or> c = 5" | "c = 2 \<or> c = 6" | "c = 3" | "c = 4"
    | "c \<notin> {8, 10, 1, 5, 2, 6, 3, 4}" "\<not> printable c" by blast
  then show ?thesis
  proof cases
    case 1
    then have "c \<noteq> 0" "c \<noteq> 10" by (auto simp: printable_def)
    then obtain s where s: "line_insert c (tm_input w) = Some s" "line_ok s" "line_abs s = ed_insert (TERM_LINE_MAX - 1) c (l, r)"
      using line_insert_spec [OF lok abs] by blast
    then show ?thesis using 1 line [OF s(2)] v \<open>c \<noteq> 10\<close> by (simp add: term_feed_def tv_key_def printable_def)
  next
    case 2
    obtain s where s: "line_back (tm_input w) = Some s" "line_ok s" "line_abs s = (butlast l, r)"
      using line_back_spec [OF lok abs] by blast
    then show ?thesis using 2 line [OF s(2)] v by (simp add: term_feed_def tv_key_def printable_def)
  next
    case 3
    obtain w' where w': "term_exec si w = Some (w', reboots (l @ r))" "tm_ok w'" "tm_scroll w' = 0" "line_abs (tm_input w') = ([], [])"
      "shown w' = (case reply si (l @ r) of None \<Rightarrow> []
        | Some ls \<Rightarrow> last_lines (shown w @ take (TERM_LINE_MAX - 1) (lit TERM_PROMPT @ l @ r) # ls))"
      using term_exec_spec [OF ok abs] by blast
    then have "tv_view w' = tv_key si c (tv_view w)"
      using 3 unfolding v tv_view_def [of w'] by (simp add: tv_key_def printable_def split: option.split)
    then show ?thesis using 3 w'(1,2) abs by (simp add: term_feed_def)
  next
    case 4
    have one: "\<not> (32 :: u8) \<le> 1" by (simp add: word_le_nat_alt)
    have k: "(if tm_scroll w + 1 > tm_len w then tm_len w else tm_scroll w + 1) = min (tm_scroll w + 1) (length (shown w))"
      using length_shown [OF ok(1)] by (simp add: min_def)
    have le: "min (tm_scroll w + 1) (length (shown w)) \<le> tm_len w" using length_shown [OF ok(1)] by simp
    have "term_feed si c w = Some (w\<lparr>tm_scroll := min (tm_scroll w + 1) (length (shown w))\<rparr>, False)"
      using 4 k one by (auto simp: term_feed_def)
    then show ?thesis using 4 one scroll [OF le] v by (auto simp: tv_key_def printable_def)
  next
    case 5
    have le: "tm_scroll w - 1 \<le> tm_len w" using ok(1) unfolding tm_ok_def by linarith
    have "w\<lparr>tm_scroll := tm_scroll w - 1\<rparr> = w" if "tm_scroll w = 0" using that by simp
    then have "term_feed si c w = Some (w\<lparr>tm_scroll := tm_scroll w - 1\<rparr>, False)" using 5 by (auto simp: term_feed_def)
    then show ?thesis using 5 scroll [OF le] v by (auto simp: tv_key_def printable_def)
  next
    case 6
    then show ?thesis using line [of "line_left (tm_input w)"] line_move_spec(1) [OF lok abs] v
      by (simp add: term_feed_def tv_key_def printable_def)
  next
    case 7
    then show ?thesis using line [of "line_right (tm_input w)"] line_move_spec(2) [OF lok abs] v
      by (simp add: term_feed_def tv_key_def printable_def)
  next
    case 8
    then show ?thesis using ok v by (auto simp: term_feed_def tv_key_def printable_def)
  qed
qed

text \<open>C8. The terminal implements its interpreter on lists: every key, in every well-formed state, leads to a
  well-formed state without an access outside an array, the scrollback is the last 80 of the lines printed so
  far, a command is echoed with the prompt and answered by the lines of \<open>reply\<close>, and only \<^verbatim>\<open>reboot\<close> stops the
  machine.\<close>

theorem terminal_refines:
  assumes ok: "tm_ok w" "si_ok si"
  shows "\<exists>w'. term_feed si c w = Some (w', c = 10 \<and> reboots (fst (line_abs (tm_input w)) @ snd (line_abs (tm_input w))))
    \<and> tm_ok w' \<and> tv_view w' = tv_key si c (tv_view w)"
  by (rule term_feed_spec [OF ok])

section \<open>A concrete terminal\<close>

definition empty_tm :: tm where
  "empty_tm = \<lparr>tm_lines = replicate TERM_SCROLL_MAX (replicate TERM_LINE_MAX 0), tm_len = 0, tm_scroll = 0,
     tm_input = \<lparr>ln_buf = [101, 99, 104, 111, 32, 104, 105] @ replicate 81 0, ln_len = 7, ln_cur = 7\<rparr>\<rparr>"

lemma empty_tm_ok: "tm_ok empty_tm" "line_abs (tm_input empty_tm) = ([101, 99, 104, 111, 32, 104, 105], [])" "shown empty_tm = []"
  by (simp_all add: tm_ok_def empty_tm_def line_ok_def line_abs_def shown_def TERM_LINE_MAX_def TERM_SCROLL_MAX_def del: replicate.simps)

theorem terminal_refines_witness:
  "\<exists>w'. term_feed \<lparr>si_now = None, si_used = 0, si_free = 0\<rparr> 10 empty_tm = Some (w', False)
     \<and> shown w' = [lit ''solos@sol$ echo hi'', lit ''hi'']"
proof -
  have si: "si_ok \<lparr>si_now = None, si_used = 0, si_free = 0\<rparr>" by (simp add: si_ok_def)
  have r: "reply \<lparr>si_now = None, si_used = 0, si_free = 0\<rparr> [101, 99, 104, 111, 32, 104, 105] = Some [[104, 105]]"
    "\<not> reboots [101, 99, 104, 111, 32, 104, 105]"
    by (simp_all add: reply_def reboots_def lit_chars Let_def)
  from terminal_refines [OF empty_tm_ok(1) si, of 10] obtain w' where
    w': "term_feed \<lparr>si_now = None, si_used = 0, si_free = 0\<rparr> 10 empty_tm = Some (w', False)"
      "tv_view w' = tv_key \<lparr>si_now = None, si_used = 0, si_free = 0\<rparr> 10 (tv_view empty_tm)"
    using r(2) by (auto simp: empty_tm_ok(2))
  have "shown w' = last_lines [take (TERM_LINE_MAX - 1) (lit TERM_PROMPT @ [101, 99, 104, 111, 32, 104, 105]), [104, 105]]"
    using w'(2) r(1) by (simp add: tv_view_def empty_tm_ok tv_key_def printable_def)
  then show ?thesis using w'(1) by (simp add: last_lines_def TERM_SCROLL_MAX_def TERM_LINE_MAX_def TERM_PROMPT_def lit_chars)
qed

section \<open>The clock's fields\<close>

lemma rtc_to_ist_now:
  assumes "0 \<le> dt_day dt" "dt_day dt < 300" "0 \<le> dt_second dt" "dt_second dt < 300" "0 \<le> dt_year dt" "dt_year dt < 3000"
  shows "now_ok (rtc_to_ist dt)"
proof -
  define q where "q = dt_hour dt * 60 + dt_minute dt + 330"
  have "0 \<le> q div 60 mod 24 \<and> q div 60 mod 24 < 24" "0 \<le> q mod 60 \<and> q mod 60 < 60" by simp_all
  then show ?thesis
    using assms unfolding rtc_to_ist_def q_def [symmetric] Let_def now_ok_def by (auto split: if_split)
qed

lemma rtc_now_ok:
  assumes "rtc_read_ist stat_a reg = Some dt"
  shows "now_ok dt"
proof -
  define field where "field = (\<lambda>v. if reg 0x0B AND 0x04 \<noteq> 0 then uint v else bcd_to_bin v)"
  have f: "0 \<le> field v \<and> field v < 300" for v
  proof -
    have "uint v < 2 ^ 8" using uint_lt2p [of v] by simp
    then show ?thesis using bcd_range [of v] by (simp add: field_def)
  qed
  obtain d where d: "rtc_read stat_a reg = Some d" "dt = rtc_to_ist d" using assms by (auto simp: rtc_read_ist_def)
  then have "dt_day d = field (reg 0x07)" "dt_second d = field (reg 0x00)" "dt_year d = 2000 + field (reg 0x09)"
    by (auto simp: rtc_read_def Let_def field_def split: if_split_asm)
  then show ?thesis using f [of "reg 0x07"] f [of "reg 0x00"] f [of "reg 0x09"] d(2) by (simp add: rtc_to_ist_now)
qed

section \<open>The browser's address line\<close>

definition br_ok :: "br \<Rightarrow> bool" where
  "br_ok b \<longleftrightarrow> line_ok (br_input b) \<and> length (br_site_name b) = TERM_LINE_MAX \<and> terminated (br_site_name b)
     \<and> length (br_title b) = TERM_LINE_MAX \<and> terminated (br_title b) \<and> length (br_web b) = BR_WEB_MAX \<and> br_web_len b \<le> BR_WEB_MAX
     \<and> (br_web_state b = BR_WEB_ERR \<longrightarrow> terminated (br_web b))"

lemma br_copy_spec:
  assumes "terminated src" "length dst = TERM_LINE_MAX"
  obtains d where "br_copy dst TERM_LINE_MAX src = Some d" "length d = TERM_LINE_MAX" "terminated d"
    "cstr d = take (TERM_LINE_MAX - 1) (cstr src)"
proof -
  have "TERM_LINE_MAX - 1 < length dst" using assms(2) by (simp add: TERM_LINE_MAX_def)
  from copy_cstr_fits [OF assms(1) this] show ?thesis using that assms(2) by (fastforce simp: br_copy_def)
qed

lemma br_prefix_spec: "terminated s \<Longrightarrow> 0 \<notin> set p \<Longrightarrow> br_prefix s p = Some (take (length p) s = p)"
  by (induction s p rule: br_prefix.induct) (auto simp: terminated_def)

definition web_set :: "br \<Rightarrow> br \<Rightarrow> bool" where
  "web_set b b' \<longleftrightarrow> (\<exists>m k s. b' = b\<lparr>br_web := m, br_web_len := k, br_web_state := s\<rparr> \<and> length m = BR_WEB_MAX \<and> k \<le> BR_WEB_MAX
     \<and> (s = BR_WEB_ERR \<longrightarrow> terminated m))"

lemma web_set_ok: "web_set b b' \<Longrightarrow> br_ok b \<Longrightarrow> br_ok b'"
  by (auto simp: web_set_def br_ok_def)

lemma web_setI: "length m = BR_WEB_MAX \<Longrightarrow> k \<le> BR_WEB_MAX \<Longrightarrow> (s = BR_WEB_ERR \<longrightarrow> terminated m) \<Longrightarrow> web_set b (b\<lparr>br_web := m, br_web_len := k, br_web_state := s\<rparr>)"
  unfolding web_set_def by blast

lemma br_web_set_err_run: "length (br_web b) = BR_WEB_MAX \<Longrightarrow> \<exists>b'. br_web_set_err msg b = Some b' \<and> web_set b b'"
proof -
  assume web: "length (br_web b) = BR_WEB_MAX"
  define t where "t = take (BR_WEB_MAX - 1) (lit ''Could not load the page: '' @ lit msg)"
  have t: "length t \<le> BR_WEB_MAX - 1" "Suc (length t) \<le> BR_WEB_MAX" by (simp_all add: t_def BR_WEB_MAX_def)
  have "br_web_set_err msg b = Some (b\<lparr>br_web := (t @ [0]) @ drop (Suc (length t)) (br_web b), br_web_len := length t, br_web_state := BR_WEB_ERR\<rparr>)"
    unfolding br_web_set_err_def t_def [symmetric] Let_def using t web by (simp add: wr_range_def)
  moreover have "web_set b (b\<lparr>br_web := (t @ [0]) @ drop (Suc (length t)) (br_web b), br_web_len := length t, br_web_state := BR_WEB_ERR\<rparr>)"
    using web t by (intro web_setI) (simp_all add: terminated_def)
  ultimately show ?thesis by blast
qed

lemma br_web_done_run:
  assumes web: "length (br_web b) = BR_WEB_MAX" and st: "status = 0 \<longrightarrow> off + len \<le> BR_WEB_MAX"
  shows "\<exists>b'. br_web_done status off len b = Some b' \<and> web_set b b'"
proof (cases "status = 0 \<and> off \<le> BR_WEB_MAX")
  case True
  have le: "off + len \<le> BR_WEB_MAX" using True st by simp
  obtain m where m: "memmove (br_web b) 0 off len = Some m" "length m = BR_WEB_MAX"
    using memmove_correct [of 0 len "br_web b" off] web le by (auto simp: wr_range_def)
  have set: "web_set b (b\<lparr>br_web := m', br_web_len := len, br_web_state := BR_WEB_OK\<rparr>)" if "length m' = BR_WEB_MAX" for m'
    using that le by (intro web_setI) simp_all
  show ?thesis using True m set [of m] set [of "m[len := 0]"] by (cases "len < BR_WEB_MAX") (simp_all add: br_web_done_def wr_Some)
next
  case False
  have "br_web_done status off len b = br_web_set_err
             (if status = 1 then ''no network device.'' else if status = 2 then ''could not resolve the host name.''
              else if status = 3 then ''connection failed or timed out.''
              else if status = 4 then ''the server returned an error.'' else ''request aborted.'') b"
    using False unfolding br_web_done_def by (rule if_not_P)
  then show ?thesis using br_web_set_err_run [OF web] by presburger
qed

lemma br_schemes: "0 \<notin> set (lit ''http://'')" "0 \<notin> set (lit ''https://'')" "0 \<notin> set (lit ''www.'')" "0 \<notin> set (lit ''Search'')"
  "0 \<notin> set (lit ''sol.os/home'')"
  by (simp_all add: lit_chars)

lemma br_domain_range: "length (br_domain s) < TERM_LINE_MAX" "0 \<notin> set (br_domain s)"
  by (auto simp: br_domain_def TERM_LINE_MAX_def dest!: in_set_takeD set_takeWhileD)

lemma br_navigate_ok:
  assumes ok: "br_ok b"
  shows "\<exists>b' u. br_navigate b = Some (b', u) \<and> br_ok b'
    \<and> (\<forall>url. u = Some url \<longrightarrow> (\<exists>dom. length dom < TERM_LINE_MAX \<and> 0 \<notin> set dom
          \<and> url = (if br_https b' then lit ''https://'' else lit ''http://'') @ dom @ lit ''/'' @ [0]))"
proof -
  define typed where "typed = take (ln_len (br_input b)) (ln_buf (br_input b))"
  have typed: "rd_range (ln_buf (br_input b)) 0 (ln_len (br_input b)) = Some typed" "length typed < TERM_LINE_MAX"
    using ok by (simp_all add: br_ok_def line_ok_def rd_range_def typed_def)
  show ?thesis
  proof (cases "list_all br_blank typed")
    case True
    then show ?thesis using typed ok by (simp add: br_navigate_def)
  next
    case False
    define tok where "tok = br_token typed @ [0]"
    have len: "length (br_token typed) \<le> length typed"
      using length_dropWhile_le [of br_blank "rev (map lower typed)"] by (simp add: br_token_def)
    then have tok: "in_buf TERM_LINE_MAX (br_token typed) = Some tok" using typed(2) by (simp add: in_buf_def tok_def)
    have tt: "terminated tok" by (simp add: tok_def terminated_def)
    define http https where "http \<longleftrightarrow> take 7 tok = lit ''http://''" and "https \<longleftrightarrow> take 8 tok = lit ''https://''"
    have pre: "br_prefix tok (lit ''http://'') = Some http" "br_prefix tok (lit ''https://'') = Some https"
      using br_prefix_spec [OF tt br_schemes(1)] br_prefix_spec [OF tt br_schemes(2)] by (simp_all add: http_def https_def numeral_eq_Suc)
    define s where "s = (if http then drop 7 tok else if https then drop 8 tok else tok)"
    have drop_ok: "terminated (drop k tok)" if "take k tok = lit p" "length p = k" "0 \<notin> set (lit p)" for k p
    proof -
      have "tok = lit p @ drop k tok" using that(1) by (metis append_take_drop_id)
      then have "0 \<in> set (lit p @ drop k tok)" using tt unfolding terminated_def by metis
      then show ?thesis using that(3) by (simp add: terminated_def)
    qed
    have st: "terminated s"
      using tt drop_ok [of 7 "''http://''"] drop_ok [of 8 "''https://''"] br_schemes(1,2) by (simp add: s_def http_def https_def)
    have site: "length (br_site_name b) = TERM_LINE_MAX" "length (br_title b) = TERM_LINE_MAX" using ok by (simp_all add: br_ok_def)
    note run = br_navigate_def [of b, unfolded typed(1) Option.bind.bind_lunit if_not_P [OF False] tok pre Let_def, folded s_def]
    show ?thesis
    proof (cases "list_ex br_blank (takeWhile (\<lambda>c. c \<noteq> 0) s)")
      case True
      obtain d t where d: "br_copy (br_site_name b) TERM_LINE_MAX s = Some d" "length d = TERM_LINE_MAX" "terminated d"
        "br_copy (br_title b) TERM_LINE_MAX (lit ''Search'' @ [0]) = Some t" "length t = TERM_LINE_MAX" "terminated t"
        using br_copy_spec [OF st site(1)] br_copy_spec [OF terminated_append site(2)] by metis
      then show ?thesis using True ok unfolding run by (simp add: br_ok_def)
    next
      case noblank: False
      define dom0 where "dom0 = br_domain s"
      define www where "www \<longleftrightarrow> take 4 (dom0 @ [0]) = lit ''www.''"
      have wp: "br_prefix (dom0 @ [0]) (lit ''www.'') = Some www"
        using br_prefix_spec [OF _ br_schemes(3), of "dom0 @ [0]"] by (simp add: terminated_def numeral_eq_Suc www_def)
      define dom where "dom = (if www then drop 4 dom0 else dom0)"
      have dom: "length dom < TERM_LINE_MAX" "0 \<notin> set dom"
        using br_domain_range [of s] by (auto simp: dom_def dom0_def dest: in_set_dropD)
      obtain d t where d: "br_copy (br_site_name b) TERM_LINE_MAX (dom @ [0]) = Some d" "length d = TERM_LINE_MAX" "terminated d"
        "br_copy (br_title b) TERM_LINE_MAX (dom @ [0]) = Some t" "length t = TERM_LINE_MAX" "terminated t"
        using br_copy_spec [OF terminated_append site(1)] br_copy_spec [OF terminated_append site(2)] by metis
      obtain t2 where t2: "br_copy t TERM_LINE_MAX (lit ''sol.os/home'' @ [0]) = Some t2" "length t2 = TERM_LINE_MAX" "terminated t2"
        using br_copy_spec [OF terminated_append d(5)] by metis
      define url where "url = (if \<not> http \<and> https then lit ''https://'' else lit ''http://'') @ dom @ lit ''/''"
      have url: "in_buf (TERM_LINE_MAX + 16) url = Some (url @ [0])"
        using dom(1) by (simp add: in_buf_def url_def TERM_LINE_MAX_def)
      define b0 where "b0 = b\<lparr>br_https := \<not> http \<and> https, br_page := BR_PAGE_SITE, br_site_name := d, br_title := t\<rparr>"
      have b0: "br_ok b0" "br_https b0 \<longleftrightarrow> \<not> http \<and> https" using ok d by (simp_all add: b0_def br_ok_def)
      have nav: "br_navigate b = (if dom = lit ''sol.os'' \<or> dom = lit ''solos''
          then Some (b0\<lparr>br_page := BR_PAGE_HOME, br_title := t2, br_web_state := BR_WEB_IDLE\<rparr>, None)
          else Some (b0\<lparr>br_web_len := 0, br_web_state := BR_WEB_BUSY\<rparr>, Some (url @ [0])))"
        unfolding run dom0_def [symmetric] wp Option.bind.bind_lunit dom_def [symmetric] d(1,4) t2(1) url_def [symmetric] url b0_def [symmetric]
        using noblank by simp
      show ?thesis
      proof (cases "dom = lit ''sol.os'' \<or> dom = lit ''solos''")
        case True
        then show ?thesis using nav b0(1) t2(2,3) by (simp add: br_ok_def)
      next
        case False
        have "br_ok (b0\<lparr>br_web_len := 0, br_web_state := BR_WEB_BUSY\<rparr>)" using b0(1) by (simp add: br_ok_def)
        moreover have "url @ [0] = (if br_https (b0\<lparr>br_web_len := 0, br_web_state := BR_WEB_BUSY\<rparr>) then lit ''https://'' else lit ''http://'')
            @ dom @ lit ''/'' @ [0]"
          using b0(2) by (simp add: url_def)
        ultimately show ?thesis using nav False dom by auto
      qed
    qed
  qed
qed

lemma br_feed_ok:
  assumes ok: "br_ok b"
  shows "\<exists>b' u. br_feed c b = Some (b', u) \<and> br_ok b'
    \<and> (\<forall>url. u = Some url \<longrightarrow> (\<exists>dom. length dom < TERM_LINE_MAX \<and> 0 \<notin> set dom
          \<and> url = (if br_https b' then lit ''https://'' else lit ''http://'') @ dom @ lit ''/'' @ [0]))"
proof -
  obtain l r where abs: "line_abs (br_input b) = (l, r)" by (cases "line_abs (br_input b)")
  have lok: "line_ok (br_input b)" using ok by (simp add: br_ok_def)
  have line: "br_ok (b\<lparr>br_input := s\<rparr>)" if "line_ok s" for s using ok that by (simp add: br_ok_def)
  consider "printable c" | "c = 8" | "c = 3" | "c = 4" | "c = 10" | "c \<notin> {8, 3, 4, 10}" "\<not> printable c" by blast
  then show ?thesis
  proof cases
    case 1
    then have "c \<noteq> 0" by (auto simp: printable_def)
    then obtain s where s: "line_insert c (br_input b) = Some s" "line_ok s" using line_insert_spec [OF lok abs] by blast
    then show ?thesis using 1 line [OF s(2)] by (simp add: br_feed_def printable_def)
  next
    case 2
    obtain s where s: "line_back (br_input b) = Some s" "line_ok s" using line_back_spec [OF lok abs] by blast
    then show ?thesis using 2 line [OF s(2)] by (simp add: br_feed_def)
  next
    case 3
    then show ?thesis using line line_move_spec(1) [OF lok abs] by (simp add: br_feed_def)
  next
    case 4
    then show ?thesis using line line_move_spec(2) [OF lok abs] by (simp add: br_feed_def)
  next
    case 5
    then show ?thesis using br_navigate_ok [OF ok] by (simp add: br_feed_def)
  next
    case 6
    then show ?thesis using ok by (auto simp: br_feed_def printable_def)
  qed
qed

end
