(* ===== verification/Desktop_Input.thy ===== *)
theory Desktop_Input
  imports Desktop_Windows
begin

unbundle bit_operations_syntax

text \<open>
  The events of \<^verbatim>\<open>kernel/desktop.c\<close>: the dispatch of a mouse press to the taskbar, the start menu, the
  icons, the applications and the window frames, and one round of \<^verbatim>\<open>desktop_poll\<close>: the movement, dragging and
  resizing, the buttons, the keys for the focused window and the clock's second.
\<close>

section \<open>Clicks in the notepad and the file manager\<close>

datatype np_btn = Np_None | Np_Save | Np_Open | Np_As | Np_New

definition NP_BTN_W :: int where "NP_BTN_W = 50"
definition NP_BTN_GAP :: int where "NP_BTN_GAP = 8"
definition NOTEPAD_CHROME_H :: int where "NOTEPAD_CHROME_H = 30"

definition np_button_at :: "win \<Rightarrow> int \<Rightarrow> int \<Rightarrow> np_btn" where
  "np_button_at w px py =
     (let ty = w_y w + TITLE_H + 1 in
      if py < ty \<or> py \<ge> ty + NOTEPAD_CHROME_H then Np_None
      else (let s = w_x w + w_w w - BTN_MARGIN - NP_BTN_W; step = NP_BTN_W + NP_BTN_GAP in
        if px \<ge> s \<and> px < s + NP_BTN_W then Np_Save
        else if px \<ge> s - step \<and> px < s - step + NP_BTN_W then Np_Open
        else if px \<ge> s - 2 * step \<and> px < s - 2 * step + NP_BTN_W then Np_As
        else if px \<ge> s - 3 * step \<and> px < s - 3 * step + NP_BTN_W then Np_New
        else Np_None))"

text \<open>A click on the toolbar; \<open>None\<close> inside if the click is not on it.\<close>

definition np_click :: "nat \<Rightarrow> np_btn \<Rightarrow> desk \<Rightarrow> desk option option" where
  "np_click i b d =
     (let n = w_np (dk_wins d ! i);
          put = (\<lambda>(n, fs). Some (Some (redraw_win i (upd_win i (\<lambda>w. w\<lparr>w_np := n\<rparr>) (d\<lparr>dk_fs := fs\<rparr>))))) in
      case b of
        Np_New \<Rightarrow> np_new n (dk_fs d) \<bind> put
      | Np_Open \<Rightarrow> np_open_next n (dk_fs d) \<bind> put
      | Np_Save \<Rightarrow> np_save n (dk_fs d) \<bind> put
      | Np_As \<Rightarrow> np_start_save_as n \<bind> (\<lambda>n. put (n, dk_fs d))
      | Np_None \<Rightarrow> Some None)"

definition in_box :: "int \<Rightarrow> int \<Rightarrow> int \<Rightarrow> int \<Rightarrow> int \<Rightarrow> int \<Rightarrow> bool" where
  "in_box px py x y w h \<longleftrightarrow> px \<ge> x \<and> px < x + w \<and> py \<ge> y \<and> py < y + h"

text \<open>The deletion that was asked for, and the selection that stays in the list.\<close>

definition fm_delete :: "fm \<Rightarrow> fs_file list \<Rightarrow> (fm \<times> fs_file list) option" where
  "fm_delete m fs =
     (let idx = fm_nth (fm_confirm_idx m) fs in
      do { (m, fs) \<leftarrow> (if idx \<ge> 0
             then do { fs \<leftarrow> fs_delete idx fs;
                       Some (if fm_sel m \<ge> fm_count fs
                             then m\<lparr>fm_sel := (if fm_count fs > 0 then fm_count fs - 1 else 0)\<rparr> else m, fs) }
             else Some (m, fs));
           Some (m\<lparr>fm_confirming := False, fm_confirm_idx := - 1\<rparr>, fs) })"

definition fm_cancel :: "fm \<Rightarrow> fm" where
  "fm_cancel m = m\<lparr>fm_confirming := False, fm_confirm_idx := - 1\<rparr>"

definition fm_ask :: "fm \<Rightarrow> fs_file list \<Rightarrow> fm" where
  "fm_ask m fs = (if fm_nth (fm_sel m) fs \<ge> 0 then m\<lparr>fm_confirming := True, fm_confirm_idx := fm_sel m\<rparr> else m)"

definition put_fm :: "nat \<Rightarrow> fm \<times> fs_file list \<Rightarrow> desk \<Rightarrow> desk" where
  "put_fm i = (\<lambda>(m, fs) d. redraw_win i (upd_win i (\<lambda>w. w\<lparr>w_fm := m\<rparr>) (d\<lparr>dk_fs := fs\<rparr>)))"

text \<open>A click while the question is open: yes, no, or nothing at all.\<close>

definition fm_click_confirm :: "nat \<Rightarrow> int \<Rightarrow> int \<Rightarrow> desk \<Rightarrow> desk option" where
  "fm_click_confirm i px py d =
     (let w = dk_wins d ! i; bw2 = w_w w - 2; bh2 = w_h w - 2 - TITLE_H;
          dx = w_x w + (bw2 - 340) sdiv 2; dy = w_y w + (bh2 - 120) sdiv 2; btn_y = dy + 120 - 36 in
      if in_box px py (dx + 12) btn_y BTN_W BTN_H then do { r \<leftarrow> fm_delete (w_fm w) (dk_fs d); Some (put_fm i r d) }
      else if in_box px py (dx + 340 - BTN_MARGIN - BTN_W - 4) btn_y BTN_W BTN_H
      then Some (put_fm i (fm_cancel (w_fm w), dk_fs d) d)
      else Some d)"

text \<open>A click otherwise; \<open>None\<close> inside if the frame of the window gets it.\<close>

definition fm_click :: "nat \<Rightarrow> int \<Rightarrow> int \<Rightarrow> desk \<Rightarrow> desk option option" where
  "fm_click i px py d =
     (let w = dk_wins d ! i; m = w_fm w; bx = w_x w + 1; by2 = w_y w + 1 + TITLE_H; bh2 = w_h w - 2 - TITLE_H;
          rows = max 2 (bh2 sdiv FONT_H); c0 = w_x w + w_w w - BTN_MARGIN - BTN_W; d0 = c0 - BTN_W - BTN_GAP - 8 in
      if in_box px py d0 (w_y w + 3) BTN_W BTN_H
      then Some (Some (if fm_nth (fm_sel m) (dk_fs d) \<ge> 0 then put_fm i (fm_ask m (dk_fs d), dk_fs d) d else d))
      else if in_box px py c0 (w_y w + 3) BTN_W BTN_H then do { d \<leftarrow> win_close i d; Some (Some d) }
      else if in_box px py bx by2 (w_w w - 2) (rows * FONT_H)
      then (let new_sel = fm_scroll m + (py - by2) sdiv FONT_H in
            Some (Some (if new_sel < fm_count (dk_fs d) then put_fm i (m\<lparr>fm_sel := new_sel\<rparr>, dk_fs d) d else d)))
      else Some None)"

section \<open>A press of the left button\<close>

definition frame_press :: "nat \<Rightarrow> int \<Rightarrow> int \<Rightarrow> desk \<Rightarrow> desk option" where
  "frame_press i px py d =
     (let w = dk_wins d ! i in
      case win_button_at w px py of
        Btn_Close \<Rightarrow> win_close i d
      | Btn_Max \<Rightarrow> win_toggle_max i d
      | Btn_Min \<Rightarrow> win_minimize i d
      | Btn_None \<Rightarrow>
          if \<not> w_max w \<and> px \<ge> w_x w + w_w w - RESIZE_GUTTER \<and> px < w_x w + w_w w
             \<and> py \<ge> w_y w + w_h w - RESIZE_GUTTER \<and> py < w_y w + w_h w
          then do { d \<leftarrow> win_raise i d;
                    Some (d\<lparr>dk_resize := Some i, dk_off_x := px - w_x w, dk_off_y := py - w_y w, dk_rs_x := px, dk_rs_y := py,
                            dk_rs_w := w_w w, dk_rs_h := w_h w\<rparr>) }
          else if py < w_y w + TITLE_H
          then do { d \<leftarrow> win_raise i d; Some (d\<lparr>dk_drag := Some i, dk_off_x := px - w_x w, dk_off_y := py - w_y w\<rparr>) }
          else win_raise i d)"

definition window_press :: "nat \<Rightarrow> int \<Rightarrow> int \<Rightarrow> desk \<Rightarrow> desk option" where
  "window_press i px py d =
     (let w = dk_wins d ! i in
      do { r \<leftarrow> (if w_kind w = 3 then np_click i (np_button_at w px py) d
                else if w_kind w = 4 then
                  (if fm_confirming (w_fm w) then map_option Some (fm_click_confirm i px py d) else fm_click i px py d)
                else Some None);
           case r of Some d \<Rightarrow> Some d | None \<Rightarrow> frame_press i px py d })"

definition taskbar_press :: "int \<Rightarrow> int \<Rightarrow> desk \<Rightarrow> desk option" where
  "taskbar_press px py d =
     (if in_box px py start_x (start_y d) START_W START_H
      then Some (if dk_menu d then close_start_menu d else open_start_menu d)
      else (let d = close_start_menu d in
        case taskbar_win_at px py d of
          None \<Rightarrow> Some d
        | Some i \<Rightarrow> if w_min (dk_wins d ! i) then win_restore_from_taskbar i d else win_raise i d))"

definition handle_left_press :: "int \<Rightarrow> int \<Rightarrow> desk \<Rightarrow> desk option" where
  "handle_left_press px py d =
     (if py \<ge> work_h d then taskbar_press px py d
      else if dk_menu d \<and> in_box px py menu_x (menu_y d) MENU_W menu_h
      then (let row = (py - menu_y d - MENU_PAD) sdiv MENU_ITEM_H in
            if row \<ge> 0 \<and> row < int (length g_icons) then icon_open (nat row) (close_start_menu d) else Some d)
      else (let d = close_start_menu d in
        case win_topmost_at px py d of
          None \<Rightarrow> (case icon_at px py of None \<Rightarrow> Some d | Some ic \<Rightarrow> icon_open ic d)
        | Some i \<Rightarrow> window_press i px py d))"

section \<open>Movement\<close>

definition clamp_cursor :: "int \<Rightarrow> int \<Rightarrow> int" where
  "clamp_cursor c hi = (let c = (if c < 0 then 0 else c) in if c > hi then hi else c)"

definition move_cursor :: "int \<Rightarrow> int \<Rightarrow> desk \<Rightarrow> desk" where
  "move_cursor dx dy d =
     d\<lparr>dk_cx := clamp_cursor (dk_cx d + dx) (int (dk_gw d) - CURSOR_W),
       dk_cy := clamp_cursor (dk_cy d + dy) (int (dk_gh d) - CURSOR_H)\<rparr>"

definition drag_step :: "int \<Rightarrow> int \<Rightarrow> desk \<Rightarrow> desk option" where
  "drag_step dx dy d =
     (case dk_drag d of
        None \<Rightarrow> Some d
      | Some i \<Rightarrow>
          do { w \<leftarrow> rd (dk_wins d) i;
               Some (if w_used w \<and> (dx \<noteq> 0 \<or> dy \<noteq> 0)
                 then (let w = (if w_max w then unmaximize w else w);
                           nx = dk_cx d - dk_off_x d; ny = dk_cy d - dk_off_y d;
                           nx = (if nx + w_w w > int (dk_gw d) then int (dk_gw d) - w_w w else nx);
                           ny = (if ny + w_h w > work_h d then work_h d - w_h w else ny);
                           nx = (if nx < 0 then 0 else nx); ny = (if ny < 0 then 0 else ny) in
                       redraw_rect 0 0 (int (dk_gw d)) (int (dk_gh d)) (upd_win i (\<lambda>_. w\<lparr>w_x := nx, w_y := ny\<rparr>) d))
                 else d) })"

definition resize_step :: "desk \<Rightarrow> desk option" where
  "resize_step d =
     (case dk_resize d of
        None \<Rightarrow> Some d
      | Some i \<Rightarrow>
          do { w \<leftarrow> rd (dk_wins d) i;
               Some (if \<not> w_used w then d
                 else if w_max w then d\<lparr>dk_resize := None\<rparr>
                 else (let nw = dk_rs_w d + (dk_cx d - dk_rs_x d); nh = dk_rs_h d + (dk_cy d - dk_rs_y d);
                           nw = (if nw < MIN_WIN_W then MIN_WIN_W else nw); nh = (if nh < MIN_WIN_H then MIN_WIN_H else nh);
                           nw = (if w_x w + nw > int (dk_gw d) then int (dk_gw d) - w_x w else nw);
                           nh = (if w_y w + nh > work_h d then work_h d - w_y w else nh) in
                       if nw \<noteq> w_w w \<or> nh \<noteq> w_h w
                       then redraw_union (win_rect w) (w_x w, w_y w, nw, nh) (upd_win i (\<lambda>w. w\<lparr>w_w := nw, w_h := nh\<rparr>) d)
                       else d)) })"

section \<open>Keys\<close>

definition fm_key :: "nat \<Rightarrow> u8 \<Rightarrow> desk \<Rightarrow> desk option" where
  "fm_key i c d =
     (let m = w_fm (dk_wins d ! i); set = (\<lambda>m d. upd_win i (\<lambda>w. w\<lparr>w_fm := m\<rparr>) d) in
      if fm_confirming m then
        (if c = 121 \<or> c = 89 then do { (m, fs) \<leftarrow> fm_delete m (dk_fs d); Some (set m (d\<lparr>dk_fs := fs\<rparr>)) }
         else if c = 110 \<or> c = 78 \<or> c = 27 then Some (set (fm_cancel m) d)
         else Some d)
      else if c = 10 \<or> c = 13 then fm_open_selected i d
      else if c = 5 then Some (if fm_sel m > 0 then set (m\<lparr>fm_sel := fm_sel m - 1\<rparr>) d else d)
      else if c = 6 then Some (if fm_sel m < fm_count (dk_fs d) - 1 then set (m\<lparr>fm_sel := fm_sel m + 1\<rparr>) d else d)
      else if c = 127 \<or> c = 8 then Some (set (fm_ask m (dk_fs d)) d)
      else Some d)"

text \<open>A reboot does not return.\<close>

definition key_step :: "sys_info \<Rightarrow> u8 \<Rightarrow> desk \<Rightarrow> desk option" where
  "key_step si c d =
     (case win_topmost_index d of
        None \<Rightarrow> Some d
      | Some i \<Rightarrow>
          (let w = dk_wins d ! i in
           if w_kind w = 1 then
             do { (t, rb) \<leftarrow> term_feed si c (w_tm w);
                  (let d = upd_win i (\<lambda>w. w\<lparr>w_tm := t\<rparr>) d in Some (if rb then d\<lparr>dk_halted := True\<rparr> else redraw_win i d)) }
           else if w_kind w = 2 then
             do { (b, url) \<leftarrow> br_feed c (w_br w);
                  (let d = upd_win i (\<lambda>w. w\<lparr>w_br := b\<rparr>) d;
                       d = (case url of None \<Rightarrow> d | Some u \<Rightarrow> d\<lparr>dk_fetches := dk_fetches d @ [(i, u)]\<rparr>) in
                   Some (redraw_win i d)) }
           else if w_kind w = 3 then
             do { (n, fs, r) \<leftarrow> np_feed c (w_np w) (dk_fs d);
                  (let d = upd_win i (\<lambda>w. w\<lparr>w_np := n\<rparr>) (d\<lparr>dk_fs := fs\<rparr>); d = (if r then redraw_win i d else d) in
                   Some (redraw_win i d)) }
           else if w_kind w = 4 then do { d \<leftarrow> fm_key i c d; Some (redraw_win i d) }
           else Some d))"

fun keys_step :: "sys_info \<Rightarrow> u8 list \<Rightarrow> desk \<Rightarrow> desk option" where
  "keys_step si [] d = Some d"
| "keys_step si (c # cs) d =
     (if dk_halted d then Some d else do { d \<leftarrow> key_step si c d; keys_step si cs d })"

section \<open>One round\<close>

text \<open>The callback that the network stack may make for the window of a finished request.\<close>

definition web_done :: "(nat \<times> nat \<times> nat \<times> nat) option \<Rightarrow> desk \<Rightarrow> desk option" where
  "web_done r d =
     (case r of
        None \<Rightarrow> Some d
      | Some (i, status, off, len) \<Rightarrow>
          do { w \<leftarrow> rd (dk_wins d) i;
               if \<not> w_used w then Some d
               else do { b \<leftarrow> br_web_done status off len (w_br w); Some (redraw_win i (upd_win i (\<lambda>w. w\<lparr>w_br := b\<rparr>) d)) } })"

definition buttons_step :: "u8 \<Rightarrow> u8 \<Rightarrow> desk \<Rightarrow> desk option" where
  "buttons_step prev btns d =
     (let pressed = btns AND NOT prev; released = prev AND NOT btns in
      do { d \<leftarrow> (if pressed AND 1 \<noteq> 0 then handle_left_press (dk_cx d) (dk_cy d) d else Some d);
           d \<leftarrow> (if pressed AND 2 \<noteq> 0
                then (case win_topmost_at (dk_cx d) (dk_cy d) d of None \<Rightarrow> Some d | Some i \<Rightarrow> win_raise i d)
                else Some d);
           Some (if released AND 1 \<noteq> 0 then d\<lparr>dk_drag := None, dk_resize := None\<rparr> else d) })"

text \<open>The clock's rectangle depends on its text; the retrace is probed again every ten seconds.\<close>

definition second_step :: "sys_info \<Rightarrow> nat \<Rightarrow> desk \<Rightarrow> desk option" where
  "second_step si sec d =
     (if sec = dk_last_sec d then Some d
      else do { buf \<leftarrow> build_clock_str (si_now si);
        (let tw = int (length buf - 1) * 8;
             d = note_damage (int (dk_gw d) - 16 - tw - 8) (int (dk_gh d) - TASKBAR_H + 4) (tw + 16) (TASKBAR_H - 8)
                   (d\<lparr>dk_last_sec := sec\<rparr>);
             d = (if sec mod 10 = 0 then d\<lparr>dk_probes := dk_probes d + 1\<rparr> else d);
             d = (case win_topmost_index d of
                    None \<Rightarrow> d
                  | Some i \<Rightarrow> (if w_kind (dk_wins d ! i) = 1 \<or> w_kind (dk_wins d ! i) = 3 then redraw_win i d else d)) in
         Some (fold (\<lambda>i d. if visible_win (dk_wins d ! i) \<and> w_kind (dk_wins d ! i) = 2 then redraw_win i d else d)
                 [0 ..< length (dk_wins d)] d)) })"

record poll_input =
  pi_web :: "(nat \<times> nat \<times> nat \<times> nat) option"
  pi_dx :: int
  pi_dy :: int
  pi_btns :: u8
  pi_keys :: "u8 list"
  pi_sec :: nat
  pi_sys :: sys_info

definition desktop_poll :: "poll_input \<Rightarrow> desk \<Rightarrow> desk option" where
  "desktop_poll i d =
     do { d \<leftarrow> web_done (pi_web i) d;
          (let d = move_cursor (pi_dx i) (pi_dy i) d; prev = dk_buttons d; d = d\<lparr>dk_buttons := pi_btns i\<rparr> in
           do { d \<leftarrow> drag_step (pi_dx i) (pi_dy i) d;
                d \<leftarrow> resize_step d;
                d \<leftarrow> buttons_step prev (pi_btns i) d;
                d \<leftarrow> keys_step (pi_sys i) (pi_keys i) d;
                if dk_halted d then Some d else second_step (pi_sys i) (pi_sec i) d }) }"

end
