(* ===== verification/Desktop_Safe.thy ===== *)
theory Desktop_Safe
  imports Desktop_Console Desktop_Input
begin

text \<open>
  The window manager of \<^verbatim>\<open>kernel/desktop.c\<close> keeps its state well-formed (\<open>desk_inv\<close>): every window lies on the
  screen above the taskbar and is at least of the minimal size, a dragged or resized window is visible, the
  applications' states and the files are well-formed. Every operation, and a whole round of
  \<^verbatim>\<open>desktop_poll\<close> on any input, preserves it without an access outside an array.
\<close>

section \<open>Well-formed windows\<close>

definition np_shape :: "np \<Rightarrow> bool" where
  "np_shape n \<longleftrightarrow> length (np_text n) = NOTEPAD_MAX_TEXT \<and> length (np_fname n) = NOTEPAD_MAX_FNAME
     \<and> length (np_title n) = NOTEPAD_MAX_FNAME + 8 \<and> length (np_save_as_buf n) = NOTEPAD_MAX_FNAME"

definition tm_shape :: "tm \<Rightarrow> bool" where
  "tm_shape t \<longleftrightarrow> length (tm_lines t) = TERM_SCROLL_MAX \<and> (\<forall>row \<in> set (tm_lines t). length row = TERM_LINE_MAX)
     \<and> length (ln_buf (tm_input t)) = TERM_LINE_MAX"

definition br_shape :: "br \<Rightarrow> bool" where
  "br_shape b \<longleftrightarrow> length (ln_buf (br_input b)) = TERM_LINE_MAX \<and> length (br_site_name b) = TERM_LINE_MAX
     \<and> length (br_title b) = TERM_LINE_MAX \<and> length (br_web b) = BR_WEB_MAX"

lemma shapes: "np_ok n \<Longrightarrow> np_shape n" "tm_ok t \<Longrightarrow> tm_shape t" "br_ok b \<Longrightarrow> br_shape b"
  by (simp_all add: np_ok_def np_shape_def tm_ok_def tm_shape_def line_ok_def br_ok_def br_shape_def)

definition geom_ok :: "int \<Rightarrow> int \<Rightarrow> rect \<Rightarrow> bool" where
  "geom_ok gw wh = (\<lambda>(x, y, w, h). 0 \<le> x \<and> 0 \<le> y \<and> MIN_WIN_W \<le> w \<and> MIN_WIN_H \<le> h \<and> x + w \<le> gw \<and> y + h \<le> wh)"

definition app_ok :: "win \<Rightarrow> bool" where
  "app_ok w \<longleftrightarrow> (w_kind w = 1 \<longrightarrow> tm_ok (w_tm w)) \<and> (w_kind w = 2 \<longrightarrow> br_ok (w_br w)) \<and> (w_kind w = 3 \<longrightarrow> np_ok (w_np w))"

definition win_ok :: "int \<Rightarrow> int \<Rightarrow> win \<Rightarrow> bool" where
  "win_ok gw wh w \<longleftrightarrow> np_shape (w_np w) \<and> tm_shape (w_tm w) \<and> br_shape (w_br w)
     \<and> (w_used w \<longrightarrow> geom_ok gw wh (win_rect w) \<and> (w_max w \<longrightarrow> geom_ok gw wh (w_rx w, w_ry w, w_rw w, w_rh w)) \<and> app_ok w
          \<and> (\<forall>k. w_title w = File_Name k \<longrightarrow> k < FS_MAX_FILES))"

definition held_ok :: "desk \<Rightarrow> bool" where
  "held_ok d \<longleftrightarrow> (\<forall>i. dk_drag d = Some i \<or> dk_resize d = Some i \<longrightarrow> i < length (dk_wins d) \<and> visible_win (dk_wins d ! i))"

text \<open>A screen that the largest application fits on, of a size that \<^verbatim>\<open>desktop_init\<close> admits.\<close>

definition screen_fits :: "desk \<Rightarrow> bool" where
  "screen_fits d \<longleftrightarrow> 720 \<le> dk_gw d \<and> dk_gw d \<le> 2 ^ 20 \<and> 508 \<le> dk_gh d \<and> dk_gh d \<le> 2 ^ 20"

definition desk_inv :: "desk \<Rightarrow> bool" where
  "desk_inv d \<longleftrightarrow> screen_fits d \<and> length (dk_wins d) = MAX_WINDOWS
     \<and> (\<forall>i < length (dk_wins d). win_ok (int (dk_gw d)) (work_h d) (dk_wins d ! i)) \<and> fs_ok (dk_fs d) \<and> held_ok d
     \<and> 0 \<le> dk_cx d \<and> dk_cx d \<le> int (dk_gw d) - CURSOR_W \<and> 0 \<le> dk_cy d \<and> dk_cy d \<le> int (dk_gh d) - CURSOR_H"

lemma desk_inv_frame [simp]:
  "desk_inv (d\<lparr>dk_redraws := a\<rparr>) = desk_inv d" "desk_inv (d\<lparr>dk_order := b\<rparr>) = desk_inv d"
  "desk_inv (d\<lparr>dk_menu := c\<rparr>) = desk_inv d" "desk_inv (d\<lparr>dk_opens := b\<rparr>) = desk_inv d"
  "desk_inv (d\<lparr>dk_aborts := e\<rparr>) = desk_inv d" "desk_inv (d\<lparr>dk_fetches := f\<rparr>) = desk_inv d"
  "desk_inv (d\<lparr>dk_probes := g\<rparr>) = desk_inv d" "desk_inv (d\<lparr>dk_last_sec := g\<rparr>) = desk_inv d"
  "desk_inv (d\<lparr>dk_buttons := h\<rparr>) = desk_inv d" "desk_inv (d\<lparr>dk_halted := c\<rparr>) = desk_inv d"
  "desk_inv (d\<lparr>dk_off_x := k\<rparr>) = desk_inv d" "desk_inv (d\<lparr>dk_off_y := k\<rparr>) = desk_inv d"
  "desk_inv (d\<lparr>dk_rs_x := k\<rparr>) = desk_inv d" "desk_inv (d\<lparr>dk_rs_y := k\<rparr>) = desk_inv d"
  "desk_inv (d\<lparr>dk_rs_w := k\<rparr>) = desk_inv d" "desk_inv (d\<lparr>dk_rs_h := k\<rparr>) = desk_inv d"
  by (simp_all add: desk_inv_def screen_fits_def work_h_def held_ok_def)

text \<open>A redraw changes nothing but the list of redraws and the views of the file managers.\<close>

definition same_but_fm :: "win \<Rightarrow> win \<Rightarrow> bool" where
  "same_but_fm w w' \<longleftrightarrow> (\<exists>m. w' = w\<lparr>w_fm := m\<rparr>)"

lemma same_but_fm_refl [simp]: "same_but_fm w w"
  unfolding same_but_fm_def by (rule exI [of _ "w_fm w"]) simp

lemma same_but_fm_trans: "same_but_fm w w1 \<Longrightarrow> same_but_fm w1 w2 \<Longrightarrow> same_but_fm w w2"
  by (auto simp: same_but_fm_def)

lemma same_but_fm_keeps:
  assumes "same_but_fm w w'"
  shows "win_ok gw wh w' = win_ok gw wh w" "visible_win w' = visible_win w" "w_used w' = w_used w" "w_kind w' = w_kind w"
    "w_order w' = w_order w" "win_rect w' = win_rect w" "w_max w' = w_max w" "w_min w' = w_min w"
  using assms by (auto simp: same_but_fm_def win_ok_def app_ok_def win_rect_def visible_win_def)

lemma same_but_fm_view [simp]: "same_but_fm w (view_win d x y ww wh w)"
proof (cases "visible_win w \<and> w_kind w = 4 \<and> win_rect_intersects w x y ww wh = Some True")
  case True
  then have "view_win d x y ww wh w = w\<lparr>w_fm := fm_view (fm_rows w) (fm_count (dk_fs d)) (w_fm w)\<rparr>" by (simp add: view_win_def)
  then show ?thesis unfolding same_but_fm_def by (rule exI)
next
  case False
  then have "view_win d x y ww wh w = w" by (auto simp: view_win_def)
  then show ?thesis by simp
qed

definition only_redraws :: "desk \<Rightarrow> desk \<Rightarrow> bool" where
  "only_redraws d d' \<longleftrightarrow> (\<exists>r ws. d' = d\<lparr>dk_redraws := r, dk_wins := ws\<rparr> \<and> list_all2 same_but_fm (dk_wins d) ws)"

lemma only_redraws_refl [simp]: "only_redraws d d"
  unfolding only_redraws_def by (rule exI [of _ "dk_redraws d"], rule exI [of _ "dk_wins d"]) (simp add: list_all2_refl)

lemma only_redraws_trans: "only_redraws d d1 \<Longrightarrow> only_redraws d1 d2 \<Longrightarrow> only_redraws d d2"
proof -
  assume "only_redraws d d1" "only_redraws d1 d2"
  then obtain r ws r' ws' where d: "d1 = d\<lparr>dk_redraws := r, dk_wins := ws\<rparr>" "list_all2 same_but_fm (dk_wins d) ws"
    "d2 = d1\<lparr>dk_redraws := r', dk_wins := ws'\<rparr>" "list_all2 same_but_fm (dk_wins d1) ws'"
    unfolding only_redraws_def by blast
  then have "list_all2 same_but_fm (dk_wins d) ws'" using list_all2_trans [OF same_but_fm_trans] by auto
  moreover have "d2 = d\<lparr>dk_redraws := r', dk_wins := ws'\<rparr>" using d(1,3) by simp
  ultimately show ?thesis unfolding only_redraws_def by blast
qed

lemma note_damage_only [simp]: "only_redraws d (note_damage x y w h d)"
  unfolding only_redraws_def note_damage_def by (rule exI [of _ "dk_redraws d @ [(x, y, w, h)]"], rule exI [of _ "dk_wins d"]) (simp add: list_all2_refl)

lemma redraw_rect_only: "only_redraws d (redraw_rect x y w h d)"
proof -
  have "only_redraws d (d\<lparr>dk_wins := map (view_win d x y w h) (dk_wins d)\<rparr>)"
    unfolding only_redraws_def by (rule exI [of _ "dk_redraws d"], rule exI [of _ "map (view_win d x y w h) (dk_wins d)"])
      (simp add: list_all2_conv_all_nth)
  then show ?thesis unfolding redraw_rect_def using only_redraws_trans note_damage_only by simp
qed

lemma redraw_win_only: "only_redraws d (redraw_win i d)"
  by (simp add: redraw_win_def Let_def redraw_rect_only)

lemma fold_only:
  assumes "\<And>i d. only_redraws d (f i d)"
  shows "only_redraws d (fold f is d)"
proof (induction "is" arbitrary: d)
  case (Cons i ks)
  show ?case using only_redraws_trans [OF assms Cons.IH] by simp
qed simp

lemma only_redraws_intros [simp]:
  "only_redraws d (redraw_rect x y w h d)" "only_redraws d (redraw_union a b d)" "only_redraws d (redraw_taskbar d)"
  "only_redraws d (redraw_all_titles d)" "only_redraws d (redraw_win i d)"
  using redraw_rect_only redraw_win_only
  by (simp_all add: redraw_union_def redraw_taskbar_def redraw_all_titles_def Let_def fold_only split: prod.split)

lemma only_redraws_nth:
  assumes "only_redraws d d'" "i < length (dk_wins d)"
  shows "same_but_fm (dk_wins d ! i) (dk_wins d' ! i)"
  using assms by (auto simp: only_redraws_def list_all2_conv_all_nth)

lemma only_redraws_keeps:
  assumes "only_redraws d d'"
  shows "length (dk_wins d') = length (dk_wins d)" "dk_fs d' = dk_fs d" "dk_gw d' = dk_gw d" "dk_gh d' = dk_gh d"
    "work_h d' = work_h d" "dk_order d' = dk_order d" "dk_halted d' = dk_halted d" "dk_cx d' = dk_cx d" "dk_cy d' = dk_cy d"
    "dk_drag d' = dk_drag d" "dk_resize d' = dk_resize d" "dk_menu d' = dk_menu d" "dk_opens d' = dk_opens d"
    "list_all2 same_but_fm (dk_wins d) (dk_wins d')"
  using assms by (auto simp: only_redraws_def work_h_def list_all2_lengthD)

lemma only_redraws_inv:
  assumes "only_redraws d d'"
  shows "desk_inv d' = desk_inv d"
proof -
  note k = only_redraws_keeps [OF assms]
  have "win_ok gw wh (dk_wins d' ! i) = win_ok gw wh (dk_wins d ! i)" "visible_win (dk_wins d' ! i) = visible_win (dk_wins d ! i)"
    if "i < length (dk_wins d)" for i gw wh
    using same_but_fm_keeps [OF only_redraws_nth [OF assms that]] by auto
  then have "held_ok d' = held_ok d" "(\<forall>i < length (dk_wins d'). win_ok (int (dk_gw d')) (work_h d') (dk_wins d' ! i))
      = (\<forall>i < length (dk_wins d). win_ok (int (dk_gw d)) (work_h d) (dk_wins d ! i))"
    unfolding held_ok_def k by blast+
  then show ?thesis using k by (simp add: desk_inv_def screen_fits_def)
qed

lemma redraws_keep [simp]:
  "desk_inv (note_damage x y w h d) = desk_inv d"
  "desk_inv (redraw_rect x y w h d) = desk_inv d" "desk_inv (redraw_union a b d) = desk_inv d"
  "desk_inv (redraw_taskbar d) = desk_inv d" "desk_inv (redraw_all_titles d) = desk_inv d" "desk_inv (redraw_win i d) = desk_inv d"
  by (rule only_redraws_inv, simp)+

lemma redraws_wins [simp]:
  "length (dk_wins (redraw_rect x y w h d)) = length (dk_wins d)" "length (dk_wins (redraw_union a b d)) = length (dk_wins d)"
  "length (dk_wins (redraw_taskbar d)) = length (dk_wins d)" "length (dk_wins (redraw_all_titles d)) = length (dk_wins d)"
  "length (dk_wins (redraw_win i d)) = length (dk_wins d)"
  by (rule only_redraws_keeps(1), simp)+

lemma redraws_fs [simp]:
  "dk_fs (redraw_rect x y w h d) = dk_fs d" "dk_fs (redraw_union a b d) = dk_fs d"
  "dk_fs (redraw_taskbar d) = dk_fs d" "dk_fs (redraw_all_titles d) = dk_fs d" "dk_fs (redraw_win i d) = dk_fs d"
  by (rule only_redraws_keeps(2), simp)+

lemma redraws_visible:
  assumes "only_redraws d d'" "i < length (dk_wins d)" "visible_win (dk_wins d ! i)"
  shows "i < length (dk_wins d') \<and> visible_win (dk_wins d' ! i)"
  using only_redraws_keeps(1) [OF assms(1)] same_but_fm_keeps(2) [OF only_redraws_nth [OF assms(1,2)]] assms(2,3) by simp

lemma desk_inv_win: "desk_inv d \<Longrightarrow> i < length (dk_wins d) \<Longrightarrow> win_ok (int (dk_gw d)) (work_h d) (dk_wins d ! i)"
  by (simp add: desk_inv_def)

lemma upd_win_keeps:
  assumes inv: "desk_inv d" and i: "i < length (dk_wins d)" and f: "win_ok (int (dk_gw d)) (work_h d) (f (dk_wins d ! i))"
    and vis: "visible_win (dk_wins d ! i) \<Longrightarrow> visible_win (f (dk_wins d ! i))"
  shows "desk_inv (upd_win i f d)"
proof -
  have "win_ok (int (dk_gw d)) (work_h d) (dk_wins (upd_win i f d) ! j)" if "j < length (dk_wins d)" for j
    using desk_inv_win [OF inv that] f that by (cases "j = i") (simp_all add: upd_win_def)
  moreover have "visible_win (dk_wins (upd_win i f d) ! j)" if "j < length (dk_wins d)" "visible_win (dk_wins d ! j)" for j
    using vis that by (cases "j = i") (simp_all add: upd_win_def)
  moreover have "work_h (upd_win i f d) = work_h d" "dk_gw (upd_win i f d) = dk_gw d" "dk_gh (upd_win i f d) = dk_gh d"
    "length (dk_wins (upd_win i f d)) = length (dk_wins d)" "dk_fs (upd_win i f d) = dk_fs d" "dk_drag (upd_win i f d) = dk_drag d"
    "dk_resize (upd_win i f d) = dk_resize d" "dk_cx (upd_win i f d) = dk_cx d" "dk_cy (upd_win i f d) = dk_cy d"
    by (simp_all add: upd_win_def work_h_def)
  moreover have "held_ok (upd_win i f d)"
    unfolding held_ok_def
  proof (intro allI impI)
    fix j
    assume "dk_drag (upd_win i f d) = Some j \<or> dk_resize (upd_win i f d) = Some j"
    then have "dk_drag d = Some j \<or> dk_resize d = Some j" by (simp add: upd_win_def)
    then have "j < length (dk_wins d)" "visible_win (dk_wins d ! j)" using inv unfolding desk_inv_def held_ok_def by blast+
    then show "j < length (dk_wins (upd_win i f d)) \<and> visible_win (dk_wins (upd_win i f d) ! j)"
      using vis by (cases "j = i") (simp_all add: upd_win_def)
  qed
  ultimately show ?thesis using inv by (simp add: desk_inv_def screen_fits_def)
qed

lemma fs_keeps: "desk_inv d \<Longrightarrow> fs_ok fs \<Longrightarrow> desk_inv (d\<lparr>dk_fs := fs\<rparr>)"
proof -
  have "held_ok (d\<lparr>dk_fs := fs\<rparr>) = held_ok d" "screen_fits (d\<lparr>dk_fs := fs\<rparr>) = screen_fits d" "work_h (d\<lparr>dk_fs := fs\<rparr>) = work_h d"
    by (simp_all add: held_ok_def screen_fits_def work_h_def)
  then show "desk_inv d \<Longrightarrow> fs_ok fs \<Longrightarrow> desk_inv (d\<lparr>dk_fs := fs\<rparr>)" by (simp add: desk_inv_def)
qed

section \<open>Finding windows\<close>

lemma topmost_from_index:
  "topmost_from i ws best = Some (k, ord) \<Longrightarrow>
   best = Some (k, ord) \<or> (i \<le> k \<and> k < i + length ws \<and> visible_win (ws ! (k - i)) \<and> w_order (ws ! (k - i)) = ord)"
proof (induction ws arbitrary: i best)
  case (Cons w ws)
  let ?b = "if visible_win w \<and> (case best of None \<Rightarrow> True | Some (_, o') \<Rightarrow> w_order w > o') then Some (i, w_order w) else best"
  from Cons.IH [of "i + 1" ?b] Cons.prems
  have "?b = Some (k, ord) \<or> (i + 1 \<le> k \<and> k < i + 1 + length ws \<and> visible_win (ws ! (k - (i + 1))) \<and> w_order (ws ! (k - (i + 1))) = ord)"
    by simp
  then show ?case
  proof
    assume "?b = Some (k, ord)"
    then show ?thesis by (auto split: if_split_asm)
  next
    assume a: "i + 1 \<le> k \<and> k < i + 1 + length ws \<and> visible_win (ws ! (k - (i + 1))) \<and> w_order (ws ! (k - (i + 1))) = ord"
    then have "(w # ws) ! (k - i) = ws ! (k - (i + 1))" by (simp add: nth_Cons')
    then show ?thesis using a by simp
  qed
qed simp

lemma topmost_from_None: "topmost_from i ws best = None \<Longrightarrow> best = None \<and> (\<forall>w \<in> set ws. \<not> visible_win w)"
proof (induction ws arbitrary: i best)
  case (Cons w ws)
  from Cons.IH [OF Cons.prems [unfolded topmost_from.simps]] show ?case
    by (auto split: if_split_asm option.split_asm)
qed simp

lemma topmost_index_visible:
  assumes "win_topmost_index d = Some i"
  shows "i < length (dk_wins d) \<and> visible_win (dk_wins d ! i)"
proof -
  obtain ord where "topmost_from 0 (dk_wins d) None = Some (i, ord)" using assms by (auto simp: win_topmost_index_def)
  from topmost_from_index [OF this] show ?thesis by simp
qed

lemma topmost_index_exists:
  assumes "i < length (dk_wins d)" "visible_win (dk_wins d ! i)"
  obtains j where "win_topmost_index d = Some j"
proof (cases "win_topmost_index d")
  case None
  then have "topmost_from 0 (dk_wins d) None = None" by (simp add: win_topmost_index_def)
  from topmost_from_None [OF this] show ?thesis using assms by simp
qed

lemma topmost_at_index:
  "topmost_at_from i px py ws best = Some (k, ord) \<Longrightarrow>
   best = Some (k, ord) \<or> (i \<le> k \<and> k < i + length ws \<and> visible_win (ws ! (k - i)) \<and> win_contains (ws ! (k - i)) px py)"
proof (induction ws arbitrary: i best)
  case (Cons w ws)
  let ?b = "if visible_win w \<and> win_contains w px py \<and> (case best of None \<Rightarrow> True | Some (_, o') \<Rightarrow> w_order w > o')
     then Some (i, w_order w) else best"
  from Cons.IH [of "i + 1" ?b] Cons.prems
  have "?b = Some (k, ord) \<or> (i + 1 \<le> k \<and> k < i + 1 + length ws \<and> visible_win (ws ! (k - (i + 1))) \<and> win_contains (ws ! (k - (i + 1))) px py)"
    by simp
  then show ?case
  proof
    assume "?b = Some (k, ord)"
    then show ?thesis by (auto split: if_split_asm)
  next
    assume a: "i + 1 \<le> k \<and> k < i + 1 + length ws \<and> visible_win (ws ! (k - (i + 1))) \<and> win_contains (ws ! (k - (i + 1))) px py"
    then have "(w # ws) ! (k - i) = ws ! (k - (i + 1))" by (simp add: nth_Cons')
    then show ?thesis using a by simp
  qed
qed simp

lemma topmost_at_visible:
  assumes "win_topmost_at px py d = Some i"
  shows "i < length (dk_wins d) \<and> visible_win (dk_wins d ! i) \<and> win_contains (dk_wins d ! i) px py"
proof -
  obtain ord where "topmost_at_from 0 px py (dk_wins d) None = Some (i, ord)" using assms by (auto simp: win_topmost_at_def)
  from topmost_at_index [OF this] show ?thesis by simp
qed

lemma taskbar_slot_used: "taskbar_slot px i slot ws = Some k \<Longrightarrow> i \<le> k \<and> k < i + length ws \<and> w_used (ws ! (k - i))"
proof (induction ws arbitrary: i slot)
  case (Cons w ws)
  have shift: "i + 1 \<le> k \<Longrightarrow> (w # ws) ! (k - i) = ws ! (k - (i + 1))" by (simp add: nth_Cons')
  show ?case using Cons.prems Cons.IH [of "i + 1" slot] Cons.IH [of "i + 1" "slot + 1"] shift by (auto split: if_split_asm)
qed simp

lemma free_win_spec: "free_win i ws = Some k \<Longrightarrow> i \<le> k \<and> k < i + length ws \<and> \<not> w_used (ws ! (k - i))"
proof (induction ws arbitrary: i)
  case (Cons w ws)
  have shift: "i + 1 \<le> k \<Longrightarrow> (w # ws) ! (k - i) = ws ! (k - (i + 1))" by (simp add: nth_Cons')
  show ?case using Cons.prems Cons.IH [of "i + 1"] shift by (auto split: if_split_asm)
qed simp

section \<open>Opening\<close>

lemma tm_init_ok: "tm_shape t \<Longrightarrow> \<exists>t'. tm_init t = Some t' \<and> tm_ok t'"
proof -
  assume sh: "tm_shape t"
  obtain b where b: "wr (ln_buf (tm_input t)) 0 0 = Some b" "length b = TERM_LINE_MAX"
  proof -
    have "0 < length (ln_buf (tm_input t))" using sh by (simp add: tm_shape_def TERM_LINE_MAX_def)
    then show ?thesis using that [of "(ln_buf (tm_input t))[0 := 0]"] sh by (simp add: wr_Some tm_shape_def)
  qed
  let ?t = "t\<lparr>tm_len := 0, tm_scroll := 0, tm_input := \<lparr>ln_buf = b, ln_len = 0, ln_cur = 0\<rparr>\<rparr>"
  have "tm_ok ?t" using sh b(2) by (simp add: tm_ok_def tm_shape_def line_ok_def TERM_LINE_MAX_def)
  from term_prints_spec [OF this, of "[''Sol OS terminal 0.1'', ''Type 'help' for commands.'']"]
  show ?thesis using b(1) by (auto simp: tm_init_def lit_chars TERM_LINE_MAX_def simp del: term_prints.simps)
qed

lemma br_init_ok: "br_shape b \<Longrightarrow> \<exists>b'. br_init b = Some b' \<and> br_ok b'"
proof -
  assume sh: "br_shape b"
  have len: "length (ln_buf (br_input b)) = TERM_LINE_MAX" "length (br_site_name b) = TERM_LINE_MAX" "length (br_title b) = TERM_LINE_MAX"
    using sh by (simp_all add: br_shape_def)
  obtain s where s: "br_copy (br_site_name b) TERM_LINE_MAX (lit ''sol.os/home'' @ [0]) = Some s" "length s = TERM_LINE_MAX" "terminated s"
    using br_copy_spec [OF terminated_append len(2)] by metis
  obtain t where t: "br_copy (br_title b) TERM_LINE_MAX (lit ''sol.os/home'' @ [0]) = Some t" "length t = TERM_LINE_MAX" "terminated t"
    using br_copy_spec [OF terminated_append len(3)] by metis
  let ?inp = "(lit ''sol.os/home'' @ [0]) @ drop 12 (ln_buf (br_input b))"
  have i: "wr_range (ln_buf (br_input b)) 0 (lit ''sol.os/home'' @ [0]) = Some ?inp"
    using len(1) by (simp add: wr_range_def TERM_LINE_MAX_def numeral_eq_Suc)
  have "line_ok \<lparr>ln_buf = ?inp, ln_len = 11, ln_cur = 11\<rparr>" using len(1) br_schemes(5) by (simp add: line_ok_def TERM_LINE_MAX_def)
  then show ?thesis using s t i sh by (simp add: br_init_def br_ok_def br_shape_def)
qed

lemma np_init_ok: "np_shape n \<Longrightarrow> \<exists>n'. np_init n = Some n' \<and> np_ok n'"
proof -
  assume sh: "np_shape n"
  have *: "\<exists>x'. wr x 0 0 = Some x' \<and> length x' = length x \<and> terminated x' \<and> cstr x' = []" if "0 < length x" for x :: bytes
    using that by (cases x) (auto simp: wr_def terminated_def cstr_def)
  have pos: "0 < length (np_fname n)" "0 < length (np_title n)" "0 < length (np_save_as_buf n)" "0 < length (np_text n)"
    using sh by (simp_all add: np_shape_def NOTEPAD_MAX_FNAME_def NOTEPAD_MAX_TEXT_def)
  show ?thesis using sh *[OF pos(1)] *[OF pos(2)] *[OF pos(3)] *[OF pos(4)]
    by (auto simp: np_init_def np_ok_def np_shape_def NOTEPAD_MAX_TEXT_def)
qed

lemma app_init_ok:
  assumes "np_shape (w_np w)" "tm_shape (w_tm w)" "br_shape (w_br w)" "w_kind w = kind"
  shows "\<exists>w'. app_init kind ls w = Some w' \<and> np_shape (w_np w') \<and> tm_shape (w_tm w') \<and> br_shape (w_br w') \<and> app_ok w'
    \<and> win_rect w' = win_rect w \<and> w_used w' = w_used w \<and> w_min w' = w_min w \<and> w_max w' = w_max w \<and> w_kind w' = kind
    \<and> w_order w' = w_order w \<and> w_title w' = w_title w"
proof -
  consider "kind = 1" | "kind = 2" | "kind = 3" | "kind = 4" | "kind \<notin> {1, 2, 3, 4}" by blast
  then show ?thesis
  proof cases
    case 1
    then show ?thesis using tm_init_ok [OF assms(2)] assms shapes by (auto simp: app_init_def app_ok_def win_rect_def)
  next
    case 2
    then show ?thesis using br_init_ok [OF assms(3)] assms shapes by (auto simp: app_init_def app_ok_def win_rect_def)
  next
    case 3
    have own: "np_ok (n\<lparr>np_own_title := False\<rparr>)" if "np_ok n" for n using that by (simp add: np_ok_def)
    show ?thesis using 3 np_init_ok [OF assms(1)] assms shapes own by (auto simp: app_init_def app_ok_def win_rect_def)
  next
    case 4
    then show ?thesis using assms by (simp add: app_init_def app_ok_def win_rect_def)
  next
    case 5
    then show ?thesis using assms by (simp add: app_init_def app_ok_def win_rect_def)
  qed
qed

lemma place_win_ok:
  assumes "screen_fits d" "MIN_WIN_W \<le> w" "w \<le> 720" "MIN_WIN_H \<le> h" "h \<le> 460"
  shows "geom_ok (int (dk_gw d)) (work_h d) (place_win d (x, y, w, h))"
  using assms by (auto simp: geom_ok_def place_win_def Let_def screen_fits_def work_h_def TASKBAR_H_def)

lemma win_open_ok:
  assumes inv: "desk_inv d" and r: "MIN_WIN_W \<le> w" "w \<le> 720" "MIN_WIN_H \<le> h" "h \<le> 460"
    and tt: "\<forall>k. title = File_Name k \<longrightarrow> k < FS_MAX_FILES"
  obtains "win_open title (x, y, w, h) kind ls d = Some (None, d)"
  | i d' where "win_open title (x, y, w, h) kind ls d = Some (Some i, d')" "desk_inv d'" "i < length (dk_wins d')"
      "visible_win (dk_wins d' ! i)" "w_kind (dk_wins d' ! i) = kind" "w_order (dk_wins d' ! i) = dk_order d + 1" "dk_order d' = dk_order d + 1"
      "dk_fs d' = dk_fs d" "\<not> w_used (dk_wins d ! i)"
proof (cases "free_win 0 (dk_wins d)")
  case None
  then show ?thesis using that(1) by (simp add: win_open_def split: prod.split)
next
  case (Some i)
  obtain x' y' w' h' where p: "place_win d (x, y, w, h) = (x', y', w', h')" by (cases "place_win d (x, y, w, h)")
  have i: "i < length (dk_wins d)" "\<not> w_used (dk_wins d ! i)" using free_win_spec [OF Some] by auto
  let ?n = "(dk_wins d ! i)\<lparr>w_used := True, w_x := x', w_y := y', w_w := w', w_h := h', w_title := title, w_kind := kind,
                     w_order := dk_order d + 1, w_min := False, w_max := False\<rparr>"
  have sh: "np_shape (w_np ?n)" "tm_shape (w_tm ?n)" "br_shape (w_br ?n)"
    using desk_inv_win [OF inv i(1)] by (simp_all add: win_ok_def)
  obtain n where n: "app_init kind ls ?n = Some n" "np_shape (w_np n)" "tm_shape (w_tm n)" "br_shape (w_br n)" "app_ok n"
      "win_rect n = win_rect ?n" "w_used n" "\<not> w_min n" "\<not> w_max n" "w_kind n = kind" "w_order n = dk_order d + 1" "w_title n = title"
    using app_init_ok [OF sh, of kind ls] by auto
  have "screen_fits d" using inv by (simp add: desk_inv_def)
  then have g: "geom_ok (int (dk_gw d)) (work_h d) (win_rect n)"
    using place_win_ok [of d w h x y] r unfolding n(6) p by (simp add: win_rect_def)
  let ?d = "d\<lparr>dk_order := dk_order d + 1, dk_wins := (dk_wins d)[i := n]\<rparr>"
  have "desk_inv (upd_win i (\<lambda>_. n) (d\<lparr>dk_order := dk_order d + 1\<rparr>))"
    using inv i n g tt by (intro upd_win_keeps) (simp_all add: win_ok_def visible_win_def work_h_def)
  then have inv': "desk_inv ?d" by (simp add: upd_win_def)
  have run: "win_open title (x, y, w, h) kind ls d = Some (Some i, redraw_all_titles ?d)"
    using Some p n(1) by (simp add: win_open_def)
  let ?r = "redraw_all_titles ?d"
  have il: "i < length (dk_wins ?d)" using i by simp
  note same = same_but_fm_keeps [OF only_redraws_nth [OF only_redraws_intros(4) il]]
  have "visible_win (dk_wins ?r ! i)" "w_kind (dk_wins ?r ! i) = kind" "w_order (dk_wins ?r ! i) = dk_order d + 1"
    using same(2,4,5) n i(1) by (simp_all add: visible_win_def)
  moreover have "dk_order ?r = dk_order d + 1" using only_redraws_keeps(6) [OF only_redraws_intros(4), of ?d] by simp
  ultimately show ?thesis using that(2) [OF run] inv' i by simp
qed

section \<open>Changing an application's state\<close>

lemma app_keeps:
  assumes inv: "desk_inv d" and i: "i < length (dk_wins d)"
  shows "np_ok n \<Longrightarrow> desk_inv (upd_win i (\<lambda>w. w\<lparr>w_np := n\<rparr>) d)"
    "tm_ok t \<Longrightarrow> desk_inv (upd_win i (\<lambda>w. w\<lparr>w_tm := t\<rparr>) d)"
    "br_ok b \<Longrightarrow> desk_inv (upd_win i (\<lambda>w. w\<lparr>w_br := b\<rparr>) d)"
    "desk_inv (upd_win i (\<lambda>w. w\<lparr>w_fm := m\<rparr>) d)"
    "desk_inv (upd_win i (\<lambda>w. w\<lparr>w_order := ord\<rparr>) d)"
  using desk_inv_win [OF inv i] shapes
  by (intro upd_win_keeps [OF inv i]; simp add: win_ok_def app_ok_def win_rect_def visible_win_def)+

lemma release_keeps:
  assumes inv: "desk_inv d" and i: "i < length (dk_wins d)" and f: "win_ok (int (dk_gw d)) (work_h d) (f (dk_wins d ! i))"
  shows "desk_inv (release_win i (upd_win i f d))"
proof -
  let ?d = "release_win i (upd_win i f d)"
  have "win_ok (int (dk_gw d)) (work_h d) (dk_wins ?d ! j)" if "j < length (dk_wins d)" for j
    using desk_inv_win [OF inv that] f that by (cases "j = i") (simp_all add: upd_win_def release_win_def)
  moreover have "held_ok ?d"
    unfolding held_ok_def
  proof (intro allI impI)
    fix j
    assume h: "dk_drag ?d = Some j \<or> dk_resize ?d = Some j"
    then have "dk_drag d = Some j \<or> dk_resize d = Some j" "j \<noteq> i" by (auto simp: upd_win_def release_win_def split: if_split_asm)
    moreover have "j < length (dk_wins d)" "visible_win (dk_wins d ! j)" using inv calculation(1) unfolding desk_inv_def held_ok_def by blast+
    ultimately show "j < length (dk_wins ?d) \<and> visible_win (dk_wins ?d ! j)" by (simp add: upd_win_def release_win_def)
  qed
  moreover have "work_h ?d = work_h d" "dk_gw ?d = dk_gw d" "dk_gh ?d = dk_gh d"
    "length (dk_wins ?d) = length (dk_wins d)" "dk_fs ?d = dk_fs d" "dk_cx ?d = dk_cx d" "dk_cy ?d = dk_cy d"
    by (simp_all add: upd_win_def release_win_def work_h_def)
  ultimately show ?thesis using inv by (simp add: desk_inv_def screen_fits_def)
qed

lemma app_okD:
  assumes "desk_inv d" "i < length (dk_wins d)" "w_used (dk_wins d ! i)"
  shows "w_kind (dk_wins d ! i) = 1 \<Longrightarrow> tm_ok (w_tm (dk_wins d ! i))" "w_kind (dk_wins d ! i) = 2 \<Longrightarrow> br_ok (w_br (dk_wins d ! i))"
    "w_kind (dk_wins d ! i) = 3 \<Longrightarrow> np_ok (w_np (dk_wins d ! i))"
  using desk_inv_win [OF assms(1,2)] assms(3) by (simp_all add: win_ok_def app_ok_def)

lemma geomD:
  assumes "desk_inv d" "i < length (dk_wins d)" "w_used (dk_wins d ! i)"
  shows "geom_ok (int (dk_gw d)) (work_h d) (win_rect (dk_wins d ! i))"
    "w_max (dk_wins d ! i) \<Longrightarrow> geom_ok (int (dk_gw d)) (work_h d) (w_rx (dk_wins d ! i), w_ry (dk_wins d ! i), w_rw (dk_wins d ! i), w_rh (dk_wins d ! i))"
  using desk_inv_win [OF assms(1,2)] assms(3) by (simp_all add: win_ok_def)

section \<open>Window operations\<close>

lemma raise_only: "only_redraws d (redraw_taskbar (redraw_all_titles (redraw_union a b d)))"
  by (rule only_redraws_trans [OF only_redraws_intros(2) only_redraws_trans [OF only_redraws_intros(4) only_redraws_intros(3)]])

lemma win_raise_ok:
  assumes inv: "desk_inv d" and i: "i < length (dk_wins d)" "visible_win (dk_wins d ! i)"
  shows "\<exists>d'. win_raise i d = Some d' \<and> desk_inv d' \<and> i < length (dk_wins d') \<and> visible_win (dk_wins d' ! i)"
proof -
  obtain prev where p: "win_topmost_index d = Some prev" using topmost_index_exists [OF i] by blast
  have pl: "prev < length (dk_wins d)" using topmost_index_visible [OF p] by simp
  have used: "w_used (dk_wins d ! i)" using i(2) by (simp add: visible_win_def)
  show ?thesis
  proof (cases "prev = i")
    case True
    then show ?thesis using inv i p used by (simp add: win_raise_def rd_Some)
  next
    case False
    let ?d = "upd_win i (\<lambda>w. w\<lparr>w_order := dk_order d + 1\<rparr>) (d\<lparr>dk_order := dk_order d + 1\<rparr>)"
    have "desk_inv ?d" using app_keeps(5) [of "d\<lparr>dk_order := dk_order d + 1\<rparr>" i] inv i(1) by simp
    moreover have "i < length (dk_wins ?d)" "visible_win (dk_wins ?d ! i)" using i by (simp_all add: upd_win_def visible_win_def)
    moreover have "only_redraws ?d (redraw_taskbar (redraw_all_titles (redraw_union (win_rect (dk_wins d ! i)) (win_rect (dk_wins d ! prev)) ?d)))"
      (is "only_redraws ?d ?r")
      by (rule raise_only)
    ultimately have "i < length (dk_wins ?r)" "visible_win (dk_wins ?r ! i)" "desk_inv ?r"
      using redraws_visible only_redraws_inv by blast+
    then show ?thesis using False i(1) p pl used by (simp add: win_raise_def rd_Some)
  qed
qed

lemma win_close_ok:
  assumes inv: "desk_inv d" and i: "i < length (dk_wins d)"
  shows "\<exists>d'. win_close i d = Some d' \<and> desk_inv d'"
proof -
  have "desk_inv (release_win i (upd_win i (\<lambda>w. w\<lparr>w_used := False\<rparr>) (d\<lparr>dk_aborts := dk_aborts d @ [i]\<rparr>)))"
    using inv i desk_inv_win [OF inv i] by (intro release_keeps) (simp_all add: win_ok_def work_h_def)
  then show ?thesis using inv i by (simp add: win_close_def rd_Some)
qed

lemma win_minimize_ok:
  assumes inv: "desk_inv d" and i: "i < length (dk_wins d)"
  shows "\<exists>d'. win_minimize i d = Some d' \<and> desk_inv d'"
proof -
  have "desk_inv (release_win i (upd_win i (\<lambda>w. w\<lparr>w_min := True\<rparr>) d))"
    using inv i desk_inv_win [OF inv i] by (intro release_keeps) (simp_all add: win_ok_def app_ok_def win_rect_def)
  then show ?thesis using inv i by (simp add: win_minimize_def rd_Some)
qed

lemma win_restore_ok:
  assumes inv: "desk_inv d" and i: "i < length (dk_wins d)"
  shows "\<exists>d'. win_restore_from_taskbar i d = Some d' \<and> desk_inv d'"
proof -
  have "desk_inv (upd_win i (\<lambda>w. w\<lparr>w_min := False, w_order := dk_order d + 1\<rparr>) (d\<lparr>dk_order := dk_order d + 1\<rparr>))"
    using inv i desk_inv_win [OF inv i]
    by (intro upd_win_keeps) (simp_all add: win_ok_def app_ok_def win_rect_def visible_win_def work_h_def)
  then show ?thesis using inv i by (simp add: win_restore_from_taskbar_def rd_Some)
qed

lemma maximize_ok: "screen_fits d \<Longrightarrow> win_ok (int (dk_gw d)) (work_h d) w \<Longrightarrow> win_ok (int (dk_gw d)) (work_h d) (maximize d w)"
  by (auto simp: win_ok_def maximize_def win_rect_def geom_ok_def app_ok_def screen_fits_def work_h_def TASKBAR_H_def MIN_WIN_W_def MIN_WIN_H_def)

lemma unmaximize_ok: "win_ok gw wh w \<Longrightarrow> w_max w \<Longrightarrow> win_ok gw wh (unmaximize w)"
  by (simp add: win_ok_def unmaximize_def win_rect_def app_ok_def)

lemma win_toggle_max_ok:
  assumes inv: "desk_inv d" and i: "i < length (dk_wins d)"
  shows "\<exists>d'. win_toggle_max i d = Some d' \<and> desk_inv d'"
proof -
  have sf: "screen_fits d" using inv by (simp add: desk_inv_def)
  have "desk_inv (upd_win i (\<lambda>_. maximize d (dk_wins d ! i)) d)"
    using maximize_ok [OF sf desk_inv_win [OF inv i]]
    by (intro upd_win_keeps [OF inv i]) (simp_all add: visible_win_def maximize_def)
  moreover have "desk_inv (upd_win i (\<lambda>_. unmaximize (dk_wins d ! i)) d)" if "w_max (dk_wins d ! i)"
    using unmaximize_ok [OF desk_inv_win [OF inv i] that]
    by (intro upd_win_keeps [OF inv i]) (simp_all add: visible_win_def unmaximize_def)
  ultimately show ?thesis using inv i by (simp add: win_toggle_max_def rd_Some Let_def)
qed

lemma icons_ok: "ic \<in> set g_icons \<Longrightarrow> MIN_WIN_W \<le> ic_w ic \<and> ic_w ic \<le> 720 \<and> MIN_WIN_H \<le> ic_h ic \<and> ic_h ic \<le> 460"
  by (auto simp: g_icons_def MIN_WIN_W_def MIN_WIN_H_def)

lemma icon_open_ok:
  assumes inv: "desk_inv d" and i: "i < length g_icons"
  shows "\<exists>d'. icon_open i d = Some d' \<and> desk_inv d'"
proof -
  define ic where "ic = g_icons ! i"
  have r: "MIN_WIN_W \<le> ic_w ic" "ic_w ic \<le> 720" "MIN_WIN_H \<le> ic_h ic" "ic_h ic \<le> 460"
    using icons_ok [of ic] i by (simp_all add: ic_def)
  have inv1: "desk_inv (d\<lparr>dk_opens := dk_opens d + 1\<rparr>)" using inv by simp
  define k where "k = int (unat (dk_opens d mod 4))"
  have run: "icon_open i d = do { (r, d) \<leftarrow> win_open (Title (ic_title ic)) (300 + k * 36, 90 + k * 28, ic_w ic, ic_h ic) (ic_kind ic) (ic_lines ic)
                             (d\<lparr>dk_opens := dk_opens d + 1\<rparr>);
                Some (case r of None \<Rightarrow> d | Some i \<Rightarrow> redraw_taskbar (redraw_win i d)) }"
    using i by (simp add: icon_open_def rd_Some ic_def k_def Let_def)
  have no_file: "\<forall>k. Title (ic_title ic) = File_Name k \<longrightarrow> k < FS_MAX_FILES" by simp
  show ?thesis
    by (rule win_open_ok [OF inv1 r no_file, of "300 + k * 36" "90 + k * 28" "ic_kind ic" "ic_lines ic"])
      (use inv1 run in simp_all)
qed

section \<open>The notepad and the file manager\<close>

lemma np_save_ok:
  assumes "np_ok n" "fs_ok fs"
  obtains n' fs' where "np_save n fs = Some (n', fs')" "np_ok n'" "fs_ok fs'"
  using np_save_spec [OF assms] by blast

lemma np_autosave_ok:
  assumes "np_ok n" "fs_ok fs"
  obtains n' fs' where "(if np_dirty n then np_save n fs else Some (n, fs)) = Some (n', fs')" "np_ok n'" "fs_ok fs'"
proof (cases "np_dirty n")
  case True
  obtain n' fs' where "np_save n fs = Some (n', fs')" "np_ok n'" "fs_ok fs'" by (rule np_save_ok [OF assms])
  then show ?thesis using that True by simp
qed (use that assms in simp)

lemma np_new_ok:
  assumes "np_ok n" "fs_ok fs"
  obtains n' fs' where "np_new n fs = Some (n', fs')" "np_ok n'" "fs_ok fs'"
proof -
  obtain n1 fs1 where s: "(if np_dirty n then np_save n fs else Some (n, fs)) = Some (n1, fs1)" "np_ok n1" "fs_ok fs1"
    by (rule np_autosave_ok [OF assms])
  have *: "\<exists>x'. wr x 0 0 = Some x' \<and> length x' = length x \<and> terminated x'" if "0 < length x" for x :: bytes
    using that by (cases x) (auto simp: wr_def terminated_def)
  have pos: "0 < length (np_fname n1)" "0 < length (np_title n1)" "0 < length (np_text n1)"
    using s(2) by (simp_all add: np_ok_def NOTEPAD_MAX_FNAME_def NOTEPAD_MAX_TEXT_def)
  obtain f t x where w: "wr (np_fname n1) 0 0 = Some f" "length f = length (np_fname n1)" "terminated f"
    "wr (np_title n1) 0 0 = Some t" "length t = length (np_title n1)" "terminated t"
    "wr (np_text n1) 0 0 = Some x" "length x = length (np_text n1)"
    using *[OF pos(1)] *[OF pos(2)] *[OF pos(3)] by blast
  let ?n = "n1\<lparr>np_len := 0, np_cursor := 0, np_fname := f, np_title := t, np_dirty := False, np_file_idx := - 1, np_text := x, np_own_title := True\<rparr>"
  have "np_new n fs = Some (?n, fs1)" unfolding np_new_def s(1) using w by simp
  moreover have "np_ok ?n" using s(2) w by (simp add: np_ok_def)
  ultimately show ?thesis using that s(3) by blast
qed

lemma next_used_enough:
  assumes "length fs = FS_MAX_FILES" "i < FS_MAX_FILES" "n < FS_MAX_FILES" "(if n \<le> i then i - n else FS_MAX_FILES + i - n) < fuel"
  shows "\<exists>m < FS_MAX_FILES. next_used fuel fs i n = Some m"
  using assms(3,4)
proof (induction fuel arbitrary: n)
  case (Suc fuel)
  have step: "(n + 1) mod FS_MAX_FILES = (if n + 1 = FS_MAX_FILES then 0 else n + 1)" using Suc.prems(1) by simp
  show ?case
  proof (cases "n = i \<or> ff_used (fs ! n)")
    case True
    then show ?thesis using Suc.prems assms(1) by (auto simp: rd_Some)
  next
    case False
    have "(if (n + 1) mod FS_MAX_FILES \<le> i then i - (n + 1) mod FS_MAX_FILES else FS_MAX_FILES + i - (n + 1) mod FS_MAX_FILES) < fuel"
      unfolding step using Suc.prems False assms(2) by (auto split: if_split_asm)
    then show ?thesis using False Suc.IH [of "(n + 1) mod FS_MAX_FILES"] Suc.prems assms(1,2) by (simp add: rd_Some)
  qed
qed simp

lemma open_scan_ok:
  assumes "length fs = FS_MAX_FILES" "set is \<subseteq> {..< FS_MAX_FILES}" "nx < int FS_MAX_FILES"
  shows "\<exists>r. open_scan fs k is nx = Some r \<and> r < int FS_MAX_FILES"
  using assms(2,3)
proof (induction "is" arbitrary: nx)
  case (Cons i ks)
  have i: "i < FS_MAX_FILES" using Cons.prems by simp
  have "(if (i + 1) mod FS_MAX_FILES \<le> i then i - (i + 1) mod FS_MAX_FILES else FS_MAX_FILES + i - (i + 1) mod FS_MAX_FILES) < FS_MAX_FILES"
  proof (cases "i + 1 = FS_MAX_FILES")
    case False
    then have "(i + 1) mod FS_MAX_FILES = i + 1" using i by simp
    then show ?thesis using i by simp
  qed (use i in simp)
  then obtain m where m: "m < FS_MAX_FILES" "next_used FS_MAX_FILES fs i ((i + 1) mod FS_MAX_FILES) = Some m"
    using next_used_enough [OF assms(1) i, of "(i + 1) mod FS_MAX_FILES" FS_MAX_FILES] i by auto
  then show ?case using Cons.IH [of nx] Cons.IH [of "int i"] Cons.prems i assms(1) by (auto simp: rd_Some Let_def)
qed simp

lemma np_open_next_ok:
  assumes ok: "np_ok n" "fs_ok fs"
  obtains n' fs' where "np_open_next n fs = Some (n', fs')" "np_ok n'" "fs_ok fs'"
proof -
  have len: "length fs = FS_MAX_FILES" using ok(2) by (simp add: fs_ok_def)
  obtain r where r: "open_scan fs (np_file_idx n) [0 ..< FS_MAX_FILES] (- 1) = Some r" "r < int FS_MAX_FILES"
    using open_scan_ok [OF len, of "[0 ..< FS_MAX_FILES]" "- 1"] by (auto simp: atLeast0LessThan)
  obtain n1 fs1 where s: "(if np_dirty n then np_save n fs else Some (n, fs)) = Some (n1, fs1)" "np_ok n1" "fs_ok fs1"
    by (rule np_autosave_ok [OF ok])
  show ?thesis
  proof (cases "r \<ge> 0 \<and> ff_used (fs ! nat r)")
    case True
    then have i: "nat r < length fs" "nat r < length fs1" using r(2) len s(3) by (auto simp: fs_ok_def)
    obtain n2 where "np_load (nat r) n1 fs1 = Some n2" "np_ok n2" using np_load_spec [OF s(2,3) i(2)] by blast
    then have "np_open_next n fs = Some (n2, fs1)" using True r(1) i s(1) by (simp add: np_open_next_def rd_Some)
    then show ?thesis using that \<open>np_ok n2\<close> s(3) by blast
  next
    case False
    then have "np_open_next n fs = Some (n, fs)" using r len by (auto simp: np_open_next_def rd_Some)
    then show ?thesis using that ok by blast
  qed
qed

lemma np_start_save_as_ok:
  assumes ok: "np_ok n"
  obtains n' where "np_start_save_as n = Some n'" "np_ok n'"
proof (cases "np_save_as n")
  case True
  then show ?thesis using that ok by (simp add: np_start_save_as_def)
next
  case False
  obtain c where c: "rd (np_fname n) 0 = Some c" using rd_cstr_zero [of "np_fname n"] ok by (auto simp: np_ok_def)
  have src: "terminated (if c \<noteq> 0 then np_fname n else untitled_name)" using ok cstr_untitled(1) by (simp add: np_ok_def)
  have "NOTEPAD_MAX_FNAME - 1 < length (np_save_as_buf n)" using ok by (simp add: np_ok_def NOTEPAD_MAX_FNAME_def)
  from copy_cstr_fits [OF src this] obtain b where
    b: "copy_cstr (NOTEPAD_MAX_FNAME - 1) (if c \<noteq> 0 then np_fname n else untitled_name) (np_save_as_buf n) 0
        = Some (min (NOTEPAD_MAX_FNAME - 1) (length (cstr (if c \<noteq> 0 then np_fname n else untitled_name))), b)"
      "length b = length (np_save_as_buf n)" "terminated b"
      "cstr b = take (NOTEPAD_MAX_FNAME - 1) (cstr (if c \<noteq> 0 then np_fname n else untitled_name))" by blast
  have "np_start_save_as n = Some (n\<lparr>np_save_as_buf := b, np_save_as_cursor := length (cstr b), np_save_as := True\<rparr>)"
    unfolding np_start_save_as_def using False c b(1,4) by (simp add: min.commute)
  moreover have "np_ok (n\<lparr>np_save_as_buf := b, np_save_as_cursor := length (cstr b), np_save_as := True\<rparr>)"
    using ok b(2,3) by (simp add: np_ok_def)
  ultimately show ?thesis by (rule that)
qed

lemma fm_nth_range:
  assumes "fs_ok fs" "fm_nth k fs \<ge> 0"
  shows "nat (fm_nth k fs) < length fs \<and> ff_used (fs ! nat (fm_nth k fs))"
proof -
  have "fm_nth_from k c i xs = r \<Longrightarrow> r \<ge> 0 \<Longrightarrow> int i \<le> r \<and> nat r - i < length xs \<and> ff_used (xs ! (nat r - i))" for c i xs r
  proof (induction xs arbitrary: c i)
    case (Cons f xs)
    show ?case
    proof (cases "ff_used f \<and> c = k")
      case True
      then show ?thesis using Cons.prems by auto
    next
      case False
      then obtain c' where "fm_nth_from k c' (i + 1) xs = r" using Cons.prems(1) by (auto split: if_split_asm)
      from Cons.IH [OF this Cons.prems(2)] have *: "int (i + 1) \<le> r" "nat r - (i + 1) < length xs" "ff_used (xs ! (nat r - (i + 1)))" by auto
      then have "nat r - i = Suc (nat r - (i + 1))" by linarith
      then show ?thesis using * by simp
    qed
  qed simp
  from this [of 0 0 fs] assms show ?thesis by (simp add: fm_nth_def fs_ok_def)
qed

lemma fm_delete_ok:
  assumes "fs_ok fs"
  obtains m' fs' where "fm_delete m fs = Some (m', fs')" "fs_ok fs'"
proof (cases "fm_nth (fm_confirm_idx m) fs \<ge> 0")
  case True
  let ?i = "nat (fm_nth (fm_confirm_idx m) fs)"
  have i: "?i < length fs" "named (cstr (ff_name (fs ! ?i))) (fs ! ?i)" using fm_nth_range [OF assms True] by (simp_all add: named_def)
  obtain fs' where "fs_delete (int ?i) fs = Some fs'" "fs_ok fs'" using fs_delete_spec [OF assms i] by metis
  then show ?thesis using that True by (simp add: fm_delete_def Let_def)
next
  case False
  then show ?thesis using that assms by (simp add: fm_delete_def Let_def)
qed

lemma put_fm_ok: "desk_inv d \<Longrightarrow> i < length (dk_wins d) \<Longrightarrow> fs_ok fs \<Longrightarrow> desk_inv (put_fm i (m, fs) d)"
  using app_keeps(4) [of "d\<lparr>dk_fs := fs\<rparr>" i m] fs_keeps by (simp add: put_fm_def)

lemma desk_fs_ok: "desk_inv d \<Longrightarrow> fs_ok (dk_fs d)"
  by (simp add: desk_inv_def)

lemma fm_open_selected_ok:
  assumes inv: "desk_inv d" and i: "i < length (dk_wins d)"
  shows "\<exists>d'. fm_open_selected i d = Some d' \<and> desk_inv d'"
proof (cases "fm_nth (fm_sel (w_fm (dk_wins d ! i))) (dk_fs d) < 0")
  case True
  then show ?thesis using inv i by (simp add: fm_open_selected_def rd_Some)
next
  case False
  define k where "k = nat (fm_nth (fm_sel (w_fm (dk_wins d ! i))) (dk_fs d))"
  have k: "k < length (dk_fs d)" using fm_nth_range [OF desk_fs_ok [OF inv]] False by (simp add: k_def)
  define x y where "x = w_x (dk_wins d ! i) + 40" and "y = w_y (dk_wins d ! i) + 40"
  have run: "fm_open_selected i d = do { (r, d) \<leftarrow> win_open (File_Name k) (x, y, 500, 320) 3 [] d;
                     case r of
                       None \<Rightarrow> Some d
                     | Some ni \<Rightarrow>
                         do { f \<leftarrow> rd (dk_fs d) k; n \<leftarrow> np_load k (w_np (dk_wins d ! ni)) (dk_fs d);
                              n \<leftarrow> np_set_title (ff_name f) n;
                              win_raise ni (upd_win ni (\<lambda>w. w\<lparr>w_np := n\<rparr>) d) } }"
    using False i unfolding k_def x_def y_def by (simp add: fm_open_selected_def rd_Some Let_def)
  have sz: "MIN_WIN_W \<le> 500" "(500 :: int) \<le> 720" "MIN_WIN_H \<le> 320" "(320 :: int) \<le> 460" by (simp_all add: MIN_WIN_W_def MIN_WIN_H_def)
  have tt: "\<forall>j. File_Name k = File_Name j \<longrightarrow> j < FS_MAX_FILES" using k desk_fs_ok [OF inv] by (simp add: fs_ok_def)
  show ?thesis
  proof (rule win_open_ok [OF inv sz tt, of x y 3 "[]"], goal_cases)
    case 1
    then show ?case using run inv by simp
  next
    case (2 ni d1)
    define n where "n = dk_wins d1 ! ni"
    have d1: "desk_inv d1" "ni < length (dk_wins d1)" "dk_wins d1 ! ni = n" using 2 by (auto simp: n_def)
    have "w_used n" using 2 by (simp add: visible_win_def n_def)
    then have nok: "np_ok (w_np n)" using app_okD(3) [OF d1(1,2)] 2 by (simp add: n_def)
    have fok: "fs_ok (dk_fs d1)" "k < length (dk_fs d1)" using desk_fs_ok [OF d1(1)] k 2 by simp_all
    obtain n1 where n1: "np_load k (w_np n) (dk_fs d1) = Some n1" "np_ok n1" using np_load_spec [OF nok fok] by blast
    have f: "file_ok (dk_fs d1 ! k)" using fok by (simp add: fs_ok_def)
    then have nm: "terminated (ff_name (dk_fs d1 ! k))" "length (cstr (ff_name (dk_fs d1 ! k))) < NOTEPAD_MAX_FNAME"
      using cstr_short by (simp_all add: file_ok_def)
    obtain t where t: "np_set_title (ff_name (dk_fs d1 ! k)) n1 = Some (n1\<lparr>np_title := t, np_own_title := True\<rparr>)"
        "np_ok (n1\<lparr>np_title := t, np_own_title := True\<rparr>)"
      using np_set_title_spec [OF n1(2) nm] by metis
    let ?d = "upd_win ni (\<lambda>w. w\<lparr>w_np := n1\<lparr>np_title := t, np_own_title := True\<rparr>\<rparr>) d1"
    have "desk_inv ?d" using app_keeps(1) [OF d1(1,2) t(2)] .
    moreover have "ni < length (dk_wins ?d)" "visible_win (dk_wins ?d ! ni)"
      using d1(2) 2 by (simp_all add: upd_win_def visible_win_def)
    ultimately obtain d2 where "win_raise ni ?d = Some d2" "desk_inv d2" using win_raise_ok by blast
    then show ?case using run 2 d1(3) fok(2) n1(1) t(1) by (simp add: rd_Some)
  qed
qed

section \<open>Dragging and resizing\<close>

lemma clamp_cursor_range: "0 \<le> hi \<Longrightarrow> 0 \<le> clamp_cursor c hi \<and> clamp_cursor c hi \<le> hi"
  by (simp add: clamp_cursor_def Let_def)

lemma move_cursor_ok: "desk_inv d \<Longrightarrow> desk_inv (move_cursor dx dy d)"
proof -
  assume inv: "desk_inv d"
  then have "0 \<le> int (dk_gw d) - CURSOR_W" "0 \<le> int (dk_gh d) - CURSOR_H"
    by (simp_all add: desk_inv_def screen_fits_def CURSOR_W_def CURSOR_H_def)
  moreover have "held_ok (move_cursor dx dy d) = held_ok d" "screen_fits (move_cursor dx dy d) = screen_fits d"
    "work_h (move_cursor dx dy d) = work_h d"
    by (simp_all add: held_ok_def move_cursor_def screen_fits_def work_h_def)
  ultimately show ?thesis using inv clamp_cursor_range by (simp add: desk_inv_def) (simp add: move_cursor_def)
qed

lemma heldD:
  assumes "desk_inv d" "dk_drag d = Some i \<or> dk_resize d = Some i"
  shows "i < length (dk_wins d)" "visible_win (dk_wins d ! i)" "w_used (dk_wins d ! i)"
  using assms unfolding desk_inv_def held_ok_def visible_win_def by blast+

text \<open>Moving or resizing a window inside the screen.\<close>

lemma place_keeps:
  assumes inv: "desk_inv d" and i: "i < length (dk_wins d)" and w: "win_ok (int (dk_gw d)) (work_h d) w"
    and g: "w_used w \<Longrightarrow> geom_ok (int (dk_gw d)) (work_h d) (x, y, ww, wh)" and vis: "visible_win w"
  shows "desk_inv (upd_win i (\<lambda>_. w\<lparr>w_x := x, w_y := y, w_w := ww, w_h := wh\<rparr>) d)"
  using w g vis by (intro upd_win_keeps [OF inv i]) (simp_all add: win_ok_def win_rect_def app_ok_def visible_win_def)

lemma drag_step_ok:
  assumes inv: "desk_inv d"
  shows "\<exists>d'. drag_step dx dy d = Some d' \<and> desk_inv d'"
proof (cases "dk_drag d")
  case None
  then show ?thesis using inv by (simp add: drag_step_def)
next
  case (Some i)
  then have h: "i < length (dk_wins d)" "visible_win (dk_wins d ! i)" "w_used (dk_wins d ! i)" using heldD [OF inv] by auto
  define w where "w = (if w_max (dk_wins d ! i) then unmaximize (dk_wins d ! i) else dk_wins d ! i)"
  have ok: "win_ok (int (dk_gw d)) (work_h d) w"
    using desk_inv_win [OF inv h(1)] unmaximize_ok [OF desk_inv_win [OF inv h(1)]] by (simp add: w_def)
  have vis: "visible_win w" using h(2) by (simp add: w_def visible_win_def unmaximize_def)
  then have g: "geom_ok (int (dk_gw d)) (work_h d) (win_rect w)" using ok by (simp add: win_ok_def visible_win_def)
  define nx where "nx = dk_cx d - dk_off_x d"
  define ny where "ny = dk_cy d - dk_off_y d"
  define nx1 where "nx1 = (if nx + w_w w > int (dk_gw d) then int (dk_gw d) - w_w w else nx)"
  define ny1 where "ny1 = (if ny + w_h w > work_h d then work_h d - w_h w else ny)"
  define nx2 where "nx2 = (if nx1 < 0 then 0 else nx1)"
  define ny2 where "ny2 = (if ny1 < 0 then 0 else ny1)"
  have "geom_ok (int (dk_gw d)) (work_h d) (nx2, ny2, w_w w, w_h w)"
    using g by (simp add: geom_ok_def win_rect_def nx2_def ny2_def nx1_def ny1_def)
  from place_keeps [OF inv h(1) ok this vis] have "desk_inv (upd_win i (\<lambda>_. w\<lparr>w_x := nx2, w_y := ny2\<rparr>) d)" by simp
  moreover have "drag_step dx dy d = Some (if dx \<noteq> 0 \<or> dy \<noteq> 0
      then redraw_rect 0 0 (int (dk_gw d)) (int (dk_gh d)) (upd_win i (\<lambda>_. w\<lparr>w_x := nx2, w_y := ny2\<rparr>) d) else d)"
    unfolding nx2_def ny2_def nx1_def ny1_def nx_def ny_def w_def using Some h by (simp add: drag_step_def rd_Some Let_def)
  ultimately show ?thesis using inv by simp
qed

lemma resize_step_ok:
  assumes inv: "desk_inv d"
  shows "\<exists>d'. resize_step d = Some d' \<and> desk_inv d'"
proof (cases "dk_resize d")
  case None
  then show ?thesis using inv by (simp add: resize_step_def)
next
  case (Some i)
  then have h: "i < length (dk_wins d)" "visible_win (dk_wins d ! i)" "w_used (dk_wins d ! i)" using heldD [OF inv] by auto
  define w where "w = dk_wins d ! i"
  have ok: "win_ok (int (dk_gw d)) (work_h d) w" using desk_inv_win [OF inv h(1)] by (simp add: w_def)
  have vis: "visible_win w" using h(2) by (simp add: w_def)
  have g: "geom_ok (int (dk_gw d)) (work_h d) (win_rect w)" using ok vis by (simp add: win_ok_def visible_win_def)
  have "held_ok d \<Longrightarrow> held_ok (d\<lparr>dk_resize := None\<rparr>)" by (simp add: held_ok_def)
  then have rel: "desk_inv (d\<lparr>dk_resize := None\<rparr>)"
    using inv by (simp add: desk_inv_def screen_fits_def work_h_def)
  define nw nh where "nw = dk_rs_w d + (dk_cx d - dk_rs_x d)" and "nh = dk_rs_h d + (dk_cy d - dk_rs_y d)"
  define nw1 nh1 where "nw1 = (if nw < MIN_WIN_W then MIN_WIN_W else nw)" and "nh1 = (if nh < MIN_WIN_H then MIN_WIN_H else nh)"
  define nw2 where "nw2 = (if w_x w + nw1 > int (dk_gw d) then int (dk_gw d) - w_x w else nw1)"
  define nh2 where "nh2 = (if w_y w + nh1 > work_h d then work_h d - w_y w else nh1)"
  have "geom_ok (int (dk_gw d)) (work_h d) (w_x w, w_y w, nw2, nh2)"
    using g by (simp add: geom_ok_def win_rect_def nw2_def nh2_def nw1_def nh1_def)
  from place_keeps [OF inv h(1) ok this vis] have "desk_inv (upd_win i (\<lambda>_. w\<lparr>w_w := nw2, w_h := nh2\<rparr>) d)" by simp
  then have "desk_inv (upd_win i (\<lambda>w. w\<lparr>w_w := nw2, w_h := nh2\<rparr>) d)" by (simp add: upd_win_def w_def)
  moreover have "resize_step d = Some (if w_max w then d\<lparr>dk_resize := None\<rparr>
      else if nw2 \<noteq> w_w w \<or> nh2 \<noteq> w_h w
      then redraw_union (win_rect w) (w_x w, w_y w, nw2, nh2) (upd_win i (\<lambda>w. w\<lparr>w_w := nw2, w_h := nh2\<rparr>) d) else d)"
    unfolding nw2_def nh2_def nw1_def nh1_def nw_def nh_def w_def using Some h by (simp add: resize_step_def rd_Some Let_def)
  ultimately show ?thesis using inv rel by simp
qed

section \<open>Clicks\<close>

lemma fs_np_keeps:
  assumes "desk_inv d" "i < length (dk_wins d)" "fs_ok fs" "np_ok n"
  shows "desk_inv (upd_win i (\<lambda>w. w\<lparr>w_np := n\<rparr>) (d\<lparr>dk_fs := fs\<rparr>))"
  using app_keeps(1) [of "d\<lparr>dk_fs := fs\<rparr>" i n] fs_keeps [OF assms(1,3)] assms(2,4) by simp

lemma fs_fm_keeps:
  assumes "desk_inv d" "i < length (dk_wins d)" "fs_ok fs"
  shows "desk_inv (upd_win i (\<lambda>w. w\<lparr>w_fm := m\<rparr>) (d\<lparr>dk_fs := fs\<rparr>))"
  using app_keeps(4) [of "d\<lparr>dk_fs := fs\<rparr>" i m] fs_keeps [OF assms(1,3)] assms(2) by simp

lemma np_click_ok:
  assumes inv: "desk_inv d" and i: "i < length (dk_wins d)" and ok: "np_ok (w_np (dk_wins d ! i))"
  shows "\<exists>r. np_click i b d = Some r \<and> (\<forall>d'. r = Some d' \<longrightarrow> desk_inv d')"
proof -
  have fs: "fs_ok (dk_fs d)" by (rule desk_fs_ok [OF inv])
  obtain n1 fs1 where 1: "np_new (w_np (dk_wins d ! i)) (dk_fs d) = Some (n1, fs1)" "np_ok n1" "fs_ok fs1" by (rule np_new_ok [OF ok fs])
  obtain n2 fs2 where 2: "np_open_next (w_np (dk_wins d ! i)) (dk_fs d) = Some (n2, fs2)" "np_ok n2" "fs_ok fs2" by (rule np_open_next_ok [OF ok fs])
  obtain n3 fs3 where 3: "np_save (w_np (dk_wins d ! i)) (dk_fs d) = Some (n3, fs3)" "np_ok n3" "fs_ok fs3" by (rule np_save_ok [OF ok fs])
  obtain n4 where 4: "np_start_save_as (w_np (dk_wins d ! i)) = Some n4" "np_ok n4" by (rule np_start_save_as_ok [OF ok])
  show ?thesis using 1 2 3 4 fs_np_keeps [OF inv i] app_keeps(1) [OF inv i] by (cases b) (simp_all add: np_click_def)
qed

lemma fm_click_confirm_ok:
  assumes inv: "desk_inv d" and i: "i < length (dk_wins d)"
  shows "\<exists>d'. fm_click_confirm i px py d = Some d' \<and> desk_inv d'"
proof -
  have fs: "fs_ok (dk_fs d)" by (rule desk_fs_ok [OF inv])
  obtain m' fs' where "fm_delete (w_fm (dk_wins d ! i)) (dk_fs d) = Some (m', fs')" "fs_ok fs'" by (rule fm_delete_ok [OF fs])
  then show ?thesis using put_fm_ok [OF inv i] fs inv by (simp add: fm_click_confirm_def Let_def)
qed

lemma fm_click_ok:
  assumes inv: "desk_inv d" and i: "i < length (dk_wins d)"
  shows "\<exists>r. fm_click i px py d = Some r \<and> (\<forall>d'. r = Some d' \<longrightarrow> desk_inv d')"
proof -
  obtain d1 where "win_close i d = Some d1" "desk_inv d1" using win_close_ok [OF inv i] by blast
  then show ?thesis using put_fm_ok [OF inv i desk_fs_ok [OF inv]] inv by (simp add: fm_click_def Let_def)
qed

lemma grab_ok:
  assumes inv: "desk_inv d" and i: "i < length (dk_wins d)" "visible_win (dk_wins d ! i)"
  shows "desk_inv (d\<lparr>dk_drag := Some i, dk_off_x := a, dk_off_y := b\<rparr>)"
    "desk_inv (d\<lparr>dk_resize := Some i, dk_off_x := a, dk_off_y := b, dk_rs_x := e, dk_rs_y := f, dk_rs_w := g, dk_rs_h := h\<rparr>)"
proof -
  have "held_ok d \<Longrightarrow> held_ok (d\<lparr>dk_drag := Some i, dk_off_x := a, dk_off_y := b\<rparr>)"
    "held_ok d \<Longrightarrow> held_ok (d\<lparr>dk_resize := Some i, dk_off_x := a, dk_off_y := b, dk_rs_x := e, dk_rs_y := f, dk_rs_w := g, dk_rs_h := h\<rparr>)"
    using i unfolding held_ok_def by auto
  then show "desk_inv (d\<lparr>dk_drag := Some i, dk_off_x := a, dk_off_y := b\<rparr>)"
    "desk_inv (d\<lparr>dk_resize := Some i, dk_off_x := a, dk_off_y := b, dk_rs_x := e, dk_rs_y := f, dk_rs_w := g, dk_rs_h := h\<rparr>)"
    using inv by (simp_all add: desk_inv_def screen_fits_def work_h_def)
qed

lemma frame_press_ok:
  assumes inv: "desk_inv d" and i: "i < length (dk_wins d)" "visible_win (dk_wins d ! i)"
  shows "\<exists>d'. frame_press i px py d = Some d' \<and> desk_inv d'"
proof -
  obtain d1 where r: "win_raise i d = Some d1" "desk_inv d1" "i < length (dk_wins d1)" "visible_win (dk_wins d1 ! i)"
    using win_raise_ok [OF inv i] by blast
  obtain d2 where c: "win_close i d = Some d2" "desk_inv d2" using win_close_ok [OF inv i(1)] by blast
  obtain d3 where m: "win_minimize i d = Some d3" "desk_inv d3" using win_minimize_ok [OF inv i(1)] by blast
  obtain d4 where t: "win_toggle_max i d = Some d4" "desk_inv d4" using win_toggle_max_ok [OF inv i(1)] by blast
  show ?thesis using r c m t grab_ok [OF r(2-4)]
    by (cases "win_button_at (dk_wins d ! i) px py") (simp_all add: frame_press_def Let_def)
qed

lemma window_press_ok:
  assumes inv: "desk_inv d" and i: "i < length (dk_wins d)" "visible_win (dk_wins d ! i)"
  shows "\<exists>d'. window_press i px py d = Some d' \<and> desk_inv d'"
proof -
  obtain f where f: "frame_press i px py d = Some f" "desk_inv f" using frame_press_ok [OF inv i] by blast
  obtain c where c: "fm_click_confirm i px py d = Some c" "desk_inv c" using fm_click_confirm_ok [OF inv i(1)] by blast
  obtain r where r: "fm_click i px py d = Some r" "\<forall>d'. r = Some d' \<longrightarrow> desk_inv d'" using fm_click_ok [OF inv i(1)] by blast
  have "\<exists>r. np_click i b d = Some r \<and> (\<forall>d'. r = Some d' \<longrightarrow> desk_inv d')" if "w_kind (dk_wins d ! i) = 3" for b
    using np_click_ok [OF inv i(1)] app_okD(3) [OF inv i(1)] that i(2) by (simp add: visible_win_def)
  then consider (np) q where "w_kind (dk_wins d ! i) = 3" "np_click i (np_button_at (dk_wins d ! i) px py) d = Some q"
      "\<forall>d'. q = Some d' \<longrightarrow> desk_inv d'"
    | (other) "w_kind (dk_wins d ! i) \<noteq> 3" by blast
  then show ?thesis
  proof cases
    case np
    then show ?thesis using f by (cases q) (simp_all add: window_press_def Let_def)
  next
    case other
    then show ?thesis using f c r by (cases r) (simp_all add: window_press_def Let_def)
  qed
qed

lemma menu_keeps [simp]: "desk_inv (close_start_menu d) = desk_inv d" "desk_inv (open_start_menu d) = desk_inv d"
  by (simp_all add: close_start_menu_def open_start_menu_def)

lemma taskbar_press_ok:
  assumes inv: "desk_inv d"
  shows "\<exists>d'. taskbar_press px py d = Some d' \<and> desk_inv d'"
proof (cases "taskbar_win_at px py (close_start_menu d)")
  case None
  then show ?thesis using inv by (simp add: taskbar_press_def Let_def)
next
  case (Some i)
  let ?d = "close_start_menu d"
  have "taskbar_slot px 0 0 (dk_wins ?d) = Some i" using Some by (simp add: taskbar_win_at_def split: if_split_asm)
  from taskbar_slot_used [OF this] have i: "i < length (dk_wins ?d)" "w_used (dk_wins ?d ! i)" by auto
  have inv': "desk_inv ?d" using inv by simp
  obtain d1 where 1: "win_restore_from_taskbar i ?d = Some d1" "desk_inv d1" using win_restore_ok [OF inv' i(1)] by blast
  show ?thesis
  proof (cases "w_min (dk_wins ?d ! i)")
    case True
    then show ?thesis using Some 1 inv by (simp add: taskbar_press_def Let_def)
  next
    case False
    then obtain d2 where "win_raise i ?d = Some d2" "desk_inv d2" using win_raise_ok [OF inv' i(1)] i(2) by (auto simp: visible_win_def)
    then show ?thesis using Some False inv by (simp add: taskbar_press_def Let_def)
  qed
qed

lemma icon_at_range: "icon_at px py = Some i \<Longrightarrow> i < length g_icons"
  by (auto simp: icon_at_def find_Some_iff)

lemma handle_left_press_ok:
  assumes inv: "desk_inv d"
  shows "\<exists>d'. handle_left_press px py d = Some d' \<and> desk_inv d'"
proof -
  let ?d = "close_start_menu d"
  have inv': "desk_inv ?d" using inv by simp
  have t: "\<exists>d'. taskbar_press px py d = Some d' \<and> desk_inv d'" by (rule taskbar_press_ok [OF inv])
  have ic: "\<exists>d'. icon_open k ?d = Some d' \<and> desk_inv d'" if "k < length g_icons" for k by (rule icon_open_ok [OF inv' that])
  consider "py \<ge> work_h d" | "\<not> py \<ge> work_h d" "dk_menu d \<and> in_box px py menu_x (menu_y d) MENU_W menu_h"
    | "\<not> py \<ge> work_h d" "\<not> (dk_menu d \<and> in_box px py menu_x (menu_y d) MENU_W menu_h)" by blast
  then show ?thesis
  proof cases
    case 1
    then show ?thesis using t by (simp add: handle_left_press_def)
  next
    case 2
    define row where "row = (py - menu_y d - MENU_PAD) sdiv MENU_ITEM_H"
    have run: "handle_left_press px py d = (if row \<ge> 0 \<and> row < int (length g_icons) then icon_open (nat row) ?d else Some d)"
      using 2 by (simp add: handle_left_press_def row_def Let_def)
    show ?thesis
    proof (cases "row \<ge> 0 \<and> row < int (length g_icons)")
      case True
      then have "nat row < length g_icons" by linarith
      from ic [OF this] True show ?thesis unfolding run by simp
    next
      case False
      then have "handle_left_press px py d = Some d" unfolding run by (simp only: if_False)
      then show ?thesis using inv by blast
    qed
  next
    case False: 3
    show ?thesis
    proof (cases "win_topmost_at px py ?d")
      case None
      have run: "handle_left_press px py d = (case icon_at px py of None \<Rightarrow> Some ?d | Some k \<Rightarrow> icon_open k ?d)"
        unfolding handle_left_press_def Let_def if_not_P [OF False(1)] if_not_P [OF False(2)] None by simp
      show ?thesis using ic icon_at_range [of px py] inv' unfolding run by (cases "icon_at px py") simp_all
    next
      case (Some i)
      then have "\<exists>d'. window_press i px py ?d = Some d' \<and> desk_inv d'"
        using topmost_at_visible [OF Some] window_press_ok [OF inv'] by simp
      then show ?thesis unfolding handle_left_press_def Let_def if_not_P [OF False(1)] if_not_P [OF False(2)] Some by simp
    qed
  qed
qed


section \<open>Keys and the round\<close>

lemma fm_key_ok:
  assumes inv: "desk_inv d" and i: "i < length (dk_wins d)"
  shows "\<exists>d'. fm_key i c d = Some d' \<and> desk_inv d'"
proof -
  obtain m fs where del: "fm_delete (w_fm (dk_wins d ! i)) (dk_fs d) = Some (m, fs)" "fs_ok fs" by (rule fm_delete_ok [OF desk_fs_ok [OF inv]])
  obtain d1 where o: "fm_open_selected i d = Some d1" "desk_inv d1" using fm_open_selected_ok [OF inv i] by blast
  show ?thesis using del(1) o fs_fm_keeps [OF inv i del(2)] app_keeps(4) [OF inv i] inv by (simp add: fm_key_def Let_def)
qed

lemma key_step_ok:
  assumes inv: "desk_inv d" and si: "si_ok si"
  shows "\<exists>d'. key_step si c d = Some d' \<and> desk_inv d'"
proof (cases "win_topmost_index d")
  case None
  then show ?thesis using inv by (simp add: key_step_def)
next
  case (Some i)
  have i: "i < length (dk_wins d)" "w_used (dk_wins d ! i)" using topmost_index_visible [OF Some] by (simp_all add: visible_win_def)
  consider "w_kind (dk_wins d ! i) = 1" | "w_kind (dk_wins d ! i) = 2" | "w_kind (dk_wins d ! i) = 3" | "w_kind (dk_wins d ! i) = 4"
    | "w_kind (dk_wins d ! i) \<notin> {1, 2, 3, 4}" by blast
  then show ?thesis
  proof cases
    case 1
    from term_feed_spec [OF app_okD(1) [OF inv i 1] si, of c] obtain t rb
      where t: "term_feed si c (w_tm (dk_wins d ! i)) = Some (t, rb)" "tm_ok t" by blast
    then show ?thesis using Some 1 app_keeps(2) [OF inv i(1) t(2)] by (simp add: key_step_def Let_def)
  next
    case 2
    from br_feed_ok [OF app_okD(2) [OF inv i 2], of c] obtain b u
      where b: "br_feed c (w_br (dk_wins d ! i)) = Some (b, u)" "br_ok b" by blast
    then show ?thesis using Some 2 app_keeps(3) [OF inv i(1) b(2)] by (cases u) (simp_all add: key_step_def Let_def)
  next
    case 3
    from np_feed_spec [OF app_okD(3) [OF inv i 3] desk_fs_ok [OF inv], of c] obtain n fs r
      where n: "np_feed c (w_np (dk_wins d ! i)) (dk_fs d) = Some (n, fs, r)" "np_ok n" "fs_ok fs" by blast
    then show ?thesis using Some 3 fs_np_keeps [OF inv i(1) n(3,2)] by (simp add: key_step_def Let_def)
  next
    case 4
    obtain d1 where "fm_key i c d = Some d1" "desk_inv d1" using fm_key_ok [OF inv i(1)] by blast
    then show ?thesis using Some 4 by (simp add: key_step_def Let_def)
  next
    case 5
    then show ?thesis using Some inv by (simp add: key_step_def Let_def)
  qed
qed

lemma keys_step_ok: "desk_inv d \<Longrightarrow> si_ok si \<Longrightarrow> \<exists>d'. keys_step si cs d = Some d' \<and> desk_inv d'"
proof (induction cs arbitrary: d)
  case (Cons c cs)
  obtain d1 where d1: "key_step si c d = Some d1" "desk_inv d1" using key_step_ok [OF Cons.prems] by blast
  from Cons.IH [OF d1(2) Cons.prems(2)] show ?case using d1(1) Cons.prems(1) by simp
qed simp

lemma buttons_step_ok:
  assumes inv: "desk_inv d"
  shows "\<exists>d'. buttons_step prev btns d = Some d' \<and> desk_inv d'"
proof -
  obtain d1 where d1: "(if (btns AND NOT prev) AND 1 \<noteq> 0 then handle_left_press (dk_cx d) (dk_cy d) d else Some d) = Some d1" "desk_inv d1"
    using handle_left_press_ok [OF inv] inv by (cases "(btns AND NOT prev) AND 1 \<noteq> 0") auto
  define f where "f = ((btns AND NOT prev) AND 2 \<noteq> 0)"
  obtain d2 where d2: "(if f
                then (case win_topmost_at (dk_cx d1) (dk_cy d1) d1 of None \<Rightarrow> Some d1 | Some i \<Rightarrow> win_raise i d1)
                else Some d1) = Some d2" "desk_inv d2"
  proof (cases "win_topmost_at (dk_cx d1) (dk_cy d1) d1")
    case None
    then show ?thesis using that d1(2) by (cases f) simp_all
  next
    case (Some i)
    obtain d' where "win_raise i d1 = Some d'" "desk_inv d'" using win_raise_ok [OF d1(2)] topmost_at_visible [OF Some] by blast
    then show ?thesis using that d1(2) Some by (cases f) simp_all
  qed
  have rel: "desk_inv (d2\<lparr>dk_drag := None, dk_resize := None\<rparr>)"
    using d2(2) by (simp add: desk_inv_def screen_fits_def work_h_def held_ok_def)
  show ?thesis unfolding buttons_step_def Let_def f_def [symmetric] d1(1) Option.bind.bind_lunit d2(1) using rel d2(2) by simp
qed

lemma web_done_ok:
  assumes inv: "desk_inv d" and r: "\<And>i status off len. r = Some (i, status, off, len) \<Longrightarrow> i < MAX_WINDOWS \<and> (status = 0 \<longrightarrow> off + len \<le> BR_WEB_MAX)"
  shows "\<exists>d'. web_done r d = Some d' \<and> desk_inv d'"
proof (cases r)
  case None
  then show ?thesis using inv by (simp add: web_done_def)
next
  case (Some a)
  obtain i status off len where a: "a = (i, status, off, len)" by (cases a)
  have i: "i < length (dk_wins d)" and st: "status = 0 \<longrightarrow> off + len \<le> BR_WEB_MAX"
    using r [of i status off len] Some a inv by (auto simp: desk_inv_def)
  have ok: "win_ok (int (dk_gw d)) (work_h d) (dk_wins d ! i)" by (rule desk_inv_win [OF inv i])
  then have web: "length (br_web (w_br (dk_wins d ! i))) = BR_WEB_MAX" by (simp add: win_ok_def br_shape_def)
  obtain b where b: "br_web_done status off len (w_br (dk_wins d ! i)) = Some b" "web_set (w_br (dk_wins d ! i)) b"
    using br_web_done_run [OF web st] by blast
  have "br_shape b" using ok b(2) by (auto simp: win_ok_def web_set_def br_shape_def)
  moreover have "br_ok (w_br (dk_wins d ! i)) \<Longrightarrow> br_ok b" by (rule web_set_ok [OF b(2)])
  ultimately have "desk_inv (upd_win i (\<lambda>w. w\<lparr>w_br := b\<rparr>) d)"
    using ok by (intro upd_win_keeps [OF inv i]) (simp_all add: win_ok_def app_ok_def win_rect_def visible_win_def)
  then show ?thesis using inv i Some a b(1) by (simp add: web_done_def rd_Some)
qed

lemma second_step_ok:
  assumes inv: "desk_inv d" and si: "si_ok si"
  shows "\<exists>d'. second_step si sec d = Some d' \<and> desk_inv d'"
proof (cases "sec = dk_last_sec d")
  case True
  then show ?thesis using inv by (simp add: second_step_def)
next
  case False
  obtain buf where buf: "build_clock_str (si_now si) = Some buf" using build_clock_str_ok [of "si_now si"] si by (auto simp: si_ok_def)
  define d1 where "d1 = note_damage (int (dk_gw d) - 16 - int (length buf - 1) * 8 - 8) (int (dk_gh d) - TASKBAR_H + 4)
    (int (length buf - 1) * 8 + 16) (TASKBAR_H - 8) (d\<lparr>dk_last_sec := sec\<rparr>)"
  define d2 where "d2 = (if sec mod 10 = 0 then d1\<lparr>dk_probes := dk_probes d1 + 1\<rparr> else d1)"
  define d3 where "d3 = (case win_topmost_index d2 of None \<Rightarrow> d2
    | Some i \<Rightarrow> (if w_kind (dk_wins d2 ! i) = 1 \<or> w_kind (dk_wins d2 ! i) = 3 then redraw_win i d2 else d2))"
  define d4 where "d4 = fold (\<lambda>i d. if visible_win (dk_wins d ! i) \<and> w_kind (dk_wins d ! i) = 2 then redraw_win i d else d) [0 ..< length (dk_wins d3)] d3"
  have run: "second_step si sec d = Some d4"
    unfolding second_step_def if_not_P [OF False] buf Option.bind.bind_lunit Let_def d4_def d3_def d2_def d1_def ..
  have "desk_inv d1" using inv by (simp add: d1_def)
  then have "desk_inv d2" by (simp add: d2_def)
  then have "desk_inv d3" by (simp add: d3_def split: option.split)
  moreover have "only_redraws d3 d4" unfolding d4_def by (rule fold_only) simp
  ultimately have "desk_inv d4" using only_redraws_inv [of d3 d4] by simp
  then show ?thesis using run by blast
qed

definition poll_ok :: "poll_input \<Rightarrow> bool" where
  "poll_ok i \<longleftrightarrow> si_ok (pi_sys i)
     \<and> (case pi_web i of None \<Rightarrow> True | Some (k, status, off, len) \<Rightarrow> k < MAX_WINDOWS \<and> (status = 0 \<longrightarrow> off + len \<le> BR_WEB_MAX))"

lemma desktop_poll_ok:
  assumes "desk_inv d" "poll_ok i"
  shows "\<exists>d'. desktop_poll i d = Some d' \<and> desk_inv d'"
proof -
  have si: "si_ok (pi_sys i)" using assms(2) by (simp add: poll_ok_def)
  obtain d1 where d1: "web_done (pi_web i) d = Some d1" "desk_inv d1"
  proof -
    have "k < MAX_WINDOWS \<and> (status = 0 \<longrightarrow> off + len \<le> BR_WEB_MAX)" if "pi_web i = Some (k, status, off, len)" for k status off len
      using assms(2) that by (simp add: poll_ok_def)
    then show ?thesis using web_done_ok [OF assms(1), of "pi_web i"] that by blast
  qed
  define d2 where "d2 = (move_cursor (pi_dx i) (pi_dy i) d1)\<lparr>dk_buttons := pi_btns i\<rparr>"
  have "desk_inv d2" using move_cursor_ok [OF d1(2)] by (simp add: d2_def)
  then obtain d3 where d3: "drag_step (pi_dx i) (pi_dy i) d2 = Some d3" "desk_inv d3" using drag_step_ok by blast
  obtain d4 where d4: "resize_step d3 = Some d4" "desk_inv d4" using resize_step_ok [OF d3(2)] by blast
  obtain d5 where d5: "buttons_step (dk_buttons (move_cursor (pi_dx i) (pi_dy i) d1)) (pi_btns i) d4 = Some d5" "desk_inv d5"
    using buttons_step_ok [OF d4(2)] by blast
  obtain d6 where d6: "keys_step (pi_sys i) (pi_keys i) d5 = Some d6" "desk_inv d6" using keys_step_ok [OF d5(2) si] by blast
  obtain d7 where d7: "second_step (pi_sys i) (pi_sec i) d6 = Some d7" "desk_inv d7" using second_step_ok [OF d6(2) si] by blast
  show ?thesis unfolding desktop_poll_def Let_def d1(1) Option.bind.bind_lunit d2_def [symmetric] d3(1) d4(1) d5(1) d6(1) d7(1)
    using d6(2) d7(2) by simp
qed

text \<open>A round of the desktop never leaves an array and keeps every window well-formed: on any mouse motion,
  any buttons, any keys and any page that the network stack delivers within the buffer it was given, in any
  well-formed state (windows inside the screen, above the taskbar and of at least the minimal size, the held window
  visible, the terminal, browser, notepad and file states in bounds), \<^verbatim>\<open>desktop_poll\<close> completes and its state
  is well-formed.\<close>

theorem desktop_poll_safe:
  assumes "desk_inv d" "poll_ok i"
  shows "\<exists>d'. desktop_poll i d = Some d' \<and> desk_inv d'"
  by (rule desktop_poll_ok [OF assms])

definition idle_win :: win where
  "idle_win = \<lparr>w_used = False, w_x = 0, w_y = 0, w_w = 0, w_h = 0, w_title = Title [], w_lines = [], w_order = 0, w_min = False,
     w_max = False, w_rx = 0, w_ry = 0, w_rw = 0, w_rh = 0, w_kind = 0, w_tm = empty_tm,
     w_br = \<lparr>br_input = \<lparr>ln_buf = replicate TERM_LINE_MAX 0, ln_len = 0, ln_cur = 0\<rparr>, br_https = False, br_page = BR_PAGE_HOME,
       br_site_name = replicate TERM_LINE_MAX 0, br_title = replicate TERM_LINE_MAX 0, br_web = replicate BR_WEB_MAX 0, br_web_len = 0,
       br_web_state = BR_WEB_IDLE\<rparr>, w_np = empty_np False, w_fm = \<lparr>fm_sel = 0, fm_scroll = 0, fm_confirming = False, fm_confirm_idx = - 1\<rparr>\<rparr>"

definition empty_desk :: desk where
  "empty_desk = \<lparr>dk_gw = 1024, dk_gh = 768, dk_wins = replicate MAX_WINDOWS idle_win, dk_order = 0, dk_drag = None, dk_off_x = 0, dk_off_y = 0,
     dk_resize = None, dk_rs_x = 0, dk_rs_y = 0, dk_rs_w = 0, dk_rs_h = 0, dk_menu = False, dk_opens = 0, dk_cx = 30, dk_cy = 30,
     dk_buttons = 0, dk_last_sec = 0, dk_fs = empty_fs, dk_redraws = [], dk_aborts = [], dk_fetches = [], dk_probes = 0, dk_halted = False\<rparr>"

lemma empty_desk_inv: "desk_inv empty_desk"
proof -
  have "np_shape (empty_np False)" "tm_shape empty_tm" using shapes(1) [OF empty_np_ok] shapes(2) [OF empty_tm_ok(1)] by auto
  then have "win_ok gw wh idle_win" for gw wh
    by (simp add: win_ok_def idle_win_def br_shape_def del: replicate.simps)
  then show ?thesis
    using empty_fs_ok by (simp add: desk_inv_def empty_desk_def screen_fits_def held_ok_def MAX_WINDOWS_def CURSOR_W_def CURSOR_H_def
      del: replicate.simps)
qed

text \<open>A press on the first icon, then a key for the terminal that it opens.\<close>

theorem desktop_poll_safe_witness:
  "\<exists>d'. desktop_poll \<lparr>pi_web = None, pi_dx = 0, pi_dy = 0, pi_btns = 1, pi_keys = [104, 10], pi_sec = 7,
           pi_sys = \<lparr>si_now = None, si_used = 0, si_free = 0\<rparr>\<rparr> empty_desk = Some d' \<and> desk_inv d'"
  by (rule desktop_poll_safe [OF empty_desk_inv]) (simp add: poll_ok_def si_ok_def)

section \<open>The stacking order\<close>

lemma topmost_from_max:
  "topmost_from i ws best = r \<Longrightarrow> (\<forall>j < length ws. visible_win (ws ! j) \<longrightarrow> (\<exists>k ord. r = Some (k, ord) \<and> w_order (ws ! j) \<le> ord))
     \<and> (\<forall>b o'. best = Some (b, o') \<longrightarrow> (\<exists>k ord. r = Some (k, ord) \<and> o' \<le> ord))"
proof (induction ws arbitrary: i best)
  case (Cons w ws)
  let ?b = "if visible_win w \<and> (case best of None \<Rightarrow> True | Some (_, o') \<Rightarrow> w_order w > o') then Some (i, w_order w) else best"
  have IH: "\<forall>j < length ws. visible_win (ws ! j) \<longrightarrow> (\<exists>k ord. r = Some (k, ord) \<and> w_order (ws ! j) \<le> ord)"
    "\<forall>b o'. ?b = Some (b, o') \<longrightarrow> (\<exists>k ord. r = Some (k, ord) \<and> o' \<le> ord)"
    using Cons.IH [of "i + 1" ?b] Cons.prems by simp_all
  have best: "\<exists>k ord. r = Some (k, ord) \<and> o' \<le> ord" if "best = Some (b, o')" for b o'
  proof (cases "visible_win w \<and> w_order w > o'")
    case True
    then have "?b = Some (i, w_order w)" using that by simp
    then obtain k ord where "r = Some (k, ord)" "w_order w \<le> ord" using IH(2) by blast
    then show ?thesis using True by auto
  next
    case False
    then have "?b = Some (b, o')" using that by auto
    then show ?thesis using IH(2) by blast
  qed
  have "\<exists>k ord. r = Some (k, ord) \<and> w_order w \<le> ord" if "visible_win w"
  proof (cases best)
    case None
    then have "?b = Some (i, w_order w)" using that by simp
    then show ?thesis using IH(2) by blast
  next
    case (Some p)
    obtain b o' where p: "p = (b, o')" by (cases p)
    show ?thesis
    proof (cases "w_order w > o'")
      case True
      then have "?b = Some (i, w_order w)" using that Some p by simp
      then show ?thesis using IH(2) by blast
    next
      case False
      then show ?thesis using best [of b o'] Some p by (auto intro: order_trans)
    qed
  qed
  then show ?case using IH(1) best by (auto simp: nth_Cons split: nat.split)
qed simp

lemma topmost_index_max:
  assumes "win_topmost_index d = Some i" "j < length (dk_wins d)" "visible_win (dk_wins d ! j)"
  shows "w_order (dk_wins d ! j) \<le> w_order (dk_wins d ! i)"
proof -
  obtain ord where o: "topmost_from 0 (dk_wins d) None = Some (i, ord)" using assms(1) by (auto simp: win_topmost_index_def)
  have "w_order (dk_wins d ! i) = ord" using topmost_from_index [OF o] by simp
  then show ?thesis using topmost_from_max [OF o] assms(2,3) by auto
qed

lemma next_order:
  fixes x :: u32
  assumes "x \<noteq> - 1"
  shows "x < x + 1"
proof -
  have "1 + x \<noteq> 0" using assms by (metis eq_neg_iff_add_eq_0 add.commute)
  then have "unat (x + 1) = Suc (unat x)" by (metis unatSuc add.commute)
  then show ?thesis unfolding word_less_nat_alt by linarith
qed

definition orders_ok :: "desk \<Rightarrow> bool" where
  "orders_ok d \<longleftrightarrow> (\<forall>w \<in> set (dk_wins d). w_order w \<le> dk_order d)"

text \<open>C16. Raising a window gives it the focus: as long as the 32-bit order counter has not wrapped, a visible window
  that is raised, as every press on it does, is then the topmost one, the one that gets the keys; no other
  window changes, and the orders stay below the counter.\<close>

theorem win_raise_focuses:
  assumes "i < length (dk_wins d)" "visible_win (dk_wins d ! i)" "orders_ok d" "dk_order d \<noteq> - 1"
  shows "\<exists>d'. win_raise i d = Some d' \<and> win_topmost_index d' = Some i \<and> orders_ok d'
    \<and> (\<exists>ord. list_all2 same_but_fm ((dk_wins d)[i := (dk_wins d ! i)\<lparr>w_order := ord\<rparr>]) (dk_wins d'))"
proof -
  obtain prev where p: "win_topmost_index d = Some prev" using topmost_index_exists [OF assms(1,2)] by blast
  have pl: "prev < length (dk_wins d)" using topmost_index_visible [OF p] by simp
  have used: "w_used (dk_wins d ! i)" using assms(2) by (simp add: visible_win_def)
  show ?thesis
  proof (cases "prev = i")
    case True
    have "win_raise i d = Some d" using True assms(1) p used by (simp add: win_raise_def rd_Some)
    moreover have "list_all2 same_but_fm ((dk_wins d)[i := (dk_wins d ! i)\<lparr>w_order := w_order (dk_wins d ! i)\<rparr>]) (dk_wins d)"
      by (simp add: list_all2_refl)
    ultimately show ?thesis using True p assms(3) by blast
  next
    case False
    let ?u = "(dk_wins d ! i)\<lparr>w_order := dk_order d + 1\<rparr>"
    let ?d1 = "upd_win i (\<lambda>w. w\<lparr>w_order := dk_order d + 1\<rparr>) (d\<lparr>dk_order := dk_order d + 1\<rparr>)"
    let ?d = "redraw_taskbar (redraw_all_titles (redraw_union (win_rect (dk_wins d ! i)) (win_rect (dk_wins d ! prev)) ?d1))"
    have run: "win_raise i d = Some ?d" using False assms(1) p pl used by (simp add: win_raise_def rd_Some)
    have only: "only_redraws ?d1 ?d" by (rule raise_only)
    then have ord: "dk_order ?d = dk_order d + 1" using only_redraws_keeps(6) by (auto simp: upd_win_def)
    have less: "dk_order d < dk_order d + 1" by (rule next_order [OF assms(4)])
    have old: "w_order (dk_wins d ! j) < dk_order d + 1" if "j < length (dk_wins d)" for j
      using assms(3) that less nth_mem [OF that] unfolding orders_ok_def by (meson order.strict_trans1)
    have w1: "dk_wins ?d1 = (dk_wins d)[i := ?u]" by (simp add: upd_win_def)
    then have ws: "list_all2 same_but_fm ((dk_wins d)[i := ?u]) (dk_wins ?d)" using only_redraws_keeps(14) [OF only] by simp
    have len: "length (dk_wins ?d) = length (dk_wins d)" using only_redraws_keeps(1) [OF only] w1 by simp
    have same: "w_order (dk_wins ?d ! j) = w_order ((dk_wins d)[i := ?u] ! j)" "visible_win (dk_wins ?d ! j) = visible_win ((dk_wins d)[i := ?u] ! j)"
      if "j < length (dk_wins d)" for j
      using same_but_fm_keeps [OF list_all2_nthD [OF ws]] that by auto
    have ok: "orders_ok ?d"
      unfolding orders_ok_def ord
    proof
      fix w
      assume "w \<in> set (dk_wins ?d)"
      then obtain j where j: "j < length (dk_wins d)" "w = dk_wins ?d ! j" by (metis in_set_conv_nth len)
      then show "w_order w \<le> dk_order d + 1" using same(1) [OF j(1)] old [OF j(1)] by (cases "j = i") (simp_all add: order.strict_implies_order)
    qed
    have "visible_win ?u" using assms(2) by (simp add: visible_win_def)
    then have "visible_win (dk_wins ?d ! i)" "i < length (dk_wins ?d)" using same(2) [OF assms(1)] len assms(1) by simp_all
    then obtain k where k: "win_topmost_index ?d = Some k" using topmost_index_exists by blast
    have kl: "k < length (dk_wins d)" using topmost_index_visible [OF k] len by simp
    have "w_order (dk_wins ?d ! i) \<le> w_order (dk_wins ?d ! k)"
      by (rule topmost_index_max [OF k]) fact+
    then have "dk_order d + 1 \<le> w_order ((dk_wins d)[i := ?u] ! k)" unfolding same(1) [OF kl] same(1) [OF assms(1)] using assms(1) by simp
    then have "k = i" using old [OF kl] by (cases "k = i") auto
    then show ?thesis using run ws k ok by blast
  qed
qed

text \<open>The restore button undoes the maximise button: pressed twice on a window that is not maximised, the window has
  its old rectangle and is not maximised; in between it covers the screen above the taskbar.\<close>

theorem maximize_roundtrip:
  assumes "i < length (dk_wins d)" "w_used (dk_wins d ! i)" "\<not> w_max (dk_wins d ! i)"
  shows "\<exists>d1 d2. win_toggle_max i d = Some d1 \<and> win_rect (dk_wins d1 ! i) = (0, 0, int (dk_gw d), work_h d)
    \<and> win_toggle_max i d1 = Some d2 \<and> win_rect (dk_wins d2 ! i) = win_rect (dk_wins d ! i) \<and> \<not> w_max (dk_wins d2 ! i)"
proof -
  let ?w = "dk_wins d ! i"
  let ?u1 = "upd_win i (\<lambda>_. maximize d ?w) d"
  let ?d1 = "redraw_taskbar (redraw_union (win_rect ?w) (win_rect (maximize d ?w)) ?u1)"
  have r1: "win_toggle_max i d = Some ?d1" using assms by (simp add: win_toggle_max_def rd_Some Let_def)
  have o1: "only_redraws ?u1 ?d1" by (rule only_redraws_trans [OF only_redraws_intros(2) only_redraws_intros(3)])
  have l1: "i < length (dk_wins ?u1)" "dk_wins ?u1 ! i = maximize d ?w" using assms(1) by (simp_all add: upd_win_def)
  obtain m where m: "dk_wins ?d1 ! i = (maximize d ?w)\<lparr>w_fm := m\<rparr>"
    using only_redraws_nth [OF o1 l1(1)] l1(2) by (auto simp: same_but_fm_def)
  have len: "i < length (dk_wins ?d1)" using only_redraws_keeps(1) [OF o1] l1(1) by simp
  let ?m = "dk_wins ?d1 ! i"
  let ?u2 = "upd_win i (\<lambda>_. unmaximize ?m) ?d1"
  let ?d2 = "redraw_taskbar (redraw_union (win_rect ?m) (win_rect (unmaximize ?m)) ?u2)"
  have "w_used ?m" "w_max ?m" unfolding m using assms by (simp_all add: maximize_def)
  then have r2: "win_toggle_max i ?d1 = Some ?d2" using len by (simp add: win_toggle_max_def rd_Some Let_def)
  have o2: "only_redraws ?u2 ?d2" by (rule only_redraws_trans [OF only_redraws_intros(2) only_redraws_intros(3)])
  have l2: "i < length (dk_wins ?u2)" "dk_wins ?u2 ! i = unmaximize ?m" using len by (simp_all add: upd_win_def)
  note k = same_but_fm_keeps [OF only_redraws_nth [OF o2 l2(1)]]
  have "win_rect (dk_wins ?d2 ! i) = win_rect ?w" "\<not> w_max (dk_wins ?d2 ! i)"
    unfolding k(6,7) l2(2) unfolding m by (simp_all add: unmaximize_def maximize_def win_rect_def)
  moreover have "win_rect ?m = (0, 0, int (dk_gw d), work_h d)" unfolding m by (simp add: maximize_def win_rect_def)
  ultimately show ?thesis using r1 r2 by blast
qed

text \<open>The hit test is the search for the topmost window in a table where the others are minimised.\<close>

definition only_at :: "int \<Rightarrow> int \<Rightarrow> win \<Rightarrow> win" where
  "only_at px py w = (if win_contains w px py then w else w\<lparr>w_min := True\<rparr>)"

lemma only_at_simps: "visible_win (only_at px py w) \<longleftrightarrow> visible_win w \<and> win_contains w px py" "w_order (only_at px py w) = w_order w"
  by (simp_all add: only_at_def visible_win_def)

lemma topmost_at_from_only: "topmost_at_from i px py ws best = topmost_from i (map (only_at px py) ws) best"
  by (induction ws arbitrary: i best) (auto simp: only_at_simps split: option.split)

text \<open>C17. A press reaches the window that is seen at the point: the hit test finds a visible window that contains the
  point and has the greatest order among those, and finds none only if no visible window contains the point.\<close>

theorem win_topmost_at_seen:
  "case win_topmost_at px py d of
     None \<Rightarrow> \<not> (\<exists>j < length (dk_wins d). visible_win (dk_wins d ! j) \<and> win_contains (dk_wins d ! j) px py)
   | Some i \<Rightarrow> i < length (dk_wins d) \<and> visible_win (dk_wins d ! i) \<and> win_contains (dk_wins d ! i) px py
       \<and> \<not> (\<exists>j < length (dk_wins d). visible_win (dk_wins d ! j) \<and> win_contains (dk_wins d ! j) px py
               \<and> w_order (dk_wins d ! j) > w_order (dk_wins d ! i))"
proof (cases "win_topmost_at px py d")
  case None
  then have "topmost_from 0 (map (only_at px py) (dk_wins d)) None = None"
    by (simp add: win_topmost_at_def topmost_at_from_only)
  from topmost_from_None [OF this] show ?thesis using None by (fastforce simp: only_at_simps in_set_conv_nth)
next
  case (Some i)
  then obtain ord where o: "topmost_from 0 (map (only_at px py) (dk_wins d)) None = Some (i, ord)"
    by (auto simp: win_topmost_at_def topmost_at_from_only)
  have i: "i < length (dk_wins d)" "visible_win (dk_wins d ! i)" "win_contains (dk_wins d ! i) px py" "w_order (dk_wins d ! i) = ord"
    using topmost_from_index [OF o] by (auto simp: only_at_simps)
  have "w_order (dk_wins d ! j) \<le> ord" if "j < length (dk_wins d)" "visible_win (dk_wins d ! j)" "win_contains (dk_wins d ! j) px py" for j
    using topmost_from_max [OF o] that by (auto simp: only_at_simps)
  then have "\<not> (\<exists>j < length (dk_wins d). visible_win (dk_wins d ! j) \<and> win_contains (dk_wins d ! j) px py
               \<and> w_order (dk_wins d ! j) > w_order (dk_wins d ! i))"
    unfolding i(4) using leD by blast
  then show ?thesis using Some i by simp
qed

definition two_wins :: desk where
  "two_wins = empty_desk\<lparr>dk_wins := [idle_win\<lparr>w_used := True, w_order := 1, w_w := 300, w_h := 200\<rparr>,
                                  idle_win\<lparr>w_used := True, w_order := 2, w_w := 400, w_h := 200\<rparr>], dk_order := 2\<rparr>"

lemma two_wins_simps:
  "dk_wins two_wins = [idle_win\<lparr>w_used := True, w_order := 1, w_w := 300, w_h := 200\<rparr>, idle_win\<lparr>w_used := True, w_order := 2, w_w := 400, w_h := 200\<rparr>]"
  "dk_order two_wins = 2" "dk_gw two_wins = 1024" "work_h two_wins = 720"
  by (simp_all add: two_wins_def empty_desk_def work_h_def TASKBAR_H_def)

theorem win_raise_focuses_witness:
  "win_topmost_index two_wins = Some 1 \<and> (\<exists>d'. win_raise 0 two_wins = Some d' \<and> win_topmost_index d' = Some 0)"
proof -
  have "win_topmost_index two_wins = Some 1"
    by (simp add: win_topmost_index_def two_wins_simps visible_win_def idle_win_def)
  moreover have "orders_ok two_wins" by (simp add: orders_ok_def two_wins_simps word_le_nat_alt)
  moreover have "visible_win (dk_wins two_wins ! 0)" by (simp add: two_wins_simps visible_win_def idle_win_def)
  ultimately show ?thesis using win_raise_focuses [of 0 two_wins] by (auto simp: two_wins_simps)
qed

theorem maximize_roundtrip_witness:
  "\<exists>d1 d2. win_toggle_max 0 two_wins = Some d1 \<and> win_rect (dk_wins d1 ! 0) = (0, 0, 1024, 720)
     \<and> win_toggle_max 0 d1 = Some d2 \<and> win_rect (dk_wins d2 ! 0) = (0, 0, 300, 200)"
proof -
  have "win_rect (dk_wins two_wins ! 0) = (0, 0, 300, 200)" "w_used (dk_wins two_wins ! 0)" "\<not> w_max (dk_wins two_wins ! 0)"
    by (simp_all add: two_wins_simps win_rect_def idle_win_def)
  moreover have "0 < length (dk_wins two_wins)" by (simp add: two_wins_simps(1))
  ultimately show ?thesis using maximize_roundtrip [of 0 two_wins] unfolding two_wins_simps(3,4) by auto
qed

end
