(* ===== verification/Desktop_Scene.thy ===== *)
theory Desktop_Scene
  imports Desktop_Paint Desktop_Draw Desktop_Safe Font "HOL-Library.Multiset"
begin

text \<open>
  The scene of \<^verbatim>\<open>kernel/desktop.c\<close> is drawn safely: in every well-formed state each routine completes, its reads
  of the window's arrays and its text buffers are in range, and its calls of the primitives have coordinates far from
  an overflow and characters that the font has. Such calls draw only under the clip.
\<close>

section \<open>Drawing calls\<close>

definition near :: "int \<Rightarrow> bool" where
  "near v \<longleftrightarrow> - (2 ^ 40) \<le> v \<and> v \<le> 2 ^ 40"

definition ascii :: "bytes \<Rightarrow> bool" where
  "ascii s \<longleftrightarrow> (\<forall>c \<in> set s. c < 128)"

text \<open>Calls whose coordinates are far from an overflow and whose characters are in the font.\<close>

fun draw_ok :: "draw \<Rightarrow> bool" where
  "draw_ok (Fill x y w h c) \<longleftrightarrow> near x \<and> near y \<and> near w \<and> near h"
| "draw_ok (Box x y w h c) \<longleftrightarrow> near x \<and> near y \<and> near w \<and> near h"
| "draw_ok (Glyph x y c fg) \<longleftrightarrow> near x \<and> near y \<and> c < 128"
| "draw_ok (Text x y s fg) \<longleftrightarrow> near x \<and> near y \<and> length s \<le> 2 ^ 20 \<and> ascii s"
| "draw_ok (Scaled x y s fg k) \<longleftrightarrow> near x \<and> near y \<and> length s \<le> 2 ^ 20 \<and> ascii s \<and> k \<le> 16"

lemma near_rect64: "near x \<Longrightarrow> near y \<Longrightarrow> near w \<Longrightarrow> near h \<Longrightarrow> rect64 x y w h"
  by (simp add: near_def rect64_def in64_def)

lemma near_fill:
  assumes "near x" "near y" "near w" "near h" "screen_ok g"
  shows "\<exists>g'. bb_fill_rect x y w h c g = Some g' \<and> draws g g'"
  by (rule bb_fill_rect_draws [OF near_rect64]) (rule assms)+

lemma wide_fill:
  assumes "- (2 ^ 42) \<le> x" "x \<le> 2 ^ 42" "- (2 ^ 42) \<le> y" "y \<le> 2 ^ 42" "- (2 ^ 42) \<le> w" "w \<le> 2 ^ 42" "- (2 ^ 42) \<le> h" "h \<le> 2 ^ 42" "screen_ok g"
  shows "\<exists>g'. bb_fill_rect x y w h c g = Some g' \<and> draws g g'"
  by (rule bb_fill_rect_draws) (use assms in \<open>simp_all add: rect64_def in64_def\<close>)

lemma box_draws:
  assumes n: "near x" "near y" "near w" "near h" and ok: "screen_ok g"
  shows "\<exists>g'. bb_draw_rect x y w h c g = Some g' \<and> draws g g'"
proof (cases "w \<le> 0 \<or> h \<le> 0")
  case True
  then show ?thesis by (simp add: bb_draw_rect_def)
next
  case False
  have s: "sadd y h = Some (y + h)" "ssub (y + h) 1 = Some (y + h - 1)" "sadd x w = Some (x + w)" "ssub (x + w) 1 = Some (x + w - 1)"
    using n by (simp_all add: sadd_def ssub_def in64_def near_def)
  obtain g1 where 1: "bb_fill_rect x y w 1 c g = Some g1" "draws g g1" using wide_fill [of x y w 1 g c] n ok by (auto simp: near_def)
  obtain g2 where 2: "bb_fill_rect x (y + h - 1) w 1 c g1 = Some g2" "draws g1 g2"
    using wide_fill [of x "y + h - 1" w 1 g1 c] n draws_ok [OF 1(2) ok] by (auto simp: near_def)
  note d2 = draws_trans [OF 1(2) 2(2)]
  obtain g3 where 3: "bb_fill_rect x y 1 h c g2 = Some g3" "draws g2 g3"
    using wide_fill [of x y 1 h g2 c] n draws_ok [OF d2 ok] by (auto simp: near_def)
  note d3 = draws_trans [OF d2 3(2)]
  obtain g4 where 4: "bb_fill_rect (x + w - 1) y 1 h c g3 = Some g4" "draws g3 g4"
    using wide_fill [of "x + w - 1" y 1 h g3 c] n draws_ok [OF d3 ok] by (auto simp: near_def)
  show ?thesis using False s 1(1) 2(1) 3(1) 4(1) draws_trans [OF d3 4(2)] by (simp add: bb_draw_rect_def)
qed

lemma scaled_cells_draws:
  assumes "length glyph = 8" "- (2 ^ 41) \<le> x" "x \<le> 2 ^ 41" "near y" "1 \<le> k" "k \<le> 16"
  shows "set cs \<subseteq> {..<8} \<times> {..<8} \<Longrightarrow> screen_ok g \<Longrightarrow> \<exists>g'. scaled_cells glyph x y fg k cs g = Some g' \<and> draws g g'"
proof (induction cs arbitrary: g)
  case (Cons a cs)
  obtain row col where a: "a = (row, col)" by (cases a)
  have rc: "row < 8" "col < 8" using Cons.prems(1) a by auto
  have "int col * k \<le> 8 * 16" by (rule mult_mono) (use rc assms(5,6) in auto)
  moreover have "int row * k \<le> 8 * 16" by (rule mult_mono) (use rc assms(5,6) in auto)
  moreover have "0 \<le> int col * k" "0 \<le> int row * k" using assms(5) by simp_all
  ultimately have b: "- (2 ^ 42) \<le> x + int col * k" "x + int col * k \<le> 2 ^ 42" "- (2 ^ 42) \<le> y + int row * k" "y + int row * k \<le> 2 ^ 42"
    using assms(2-4) unfolding near_def by simp_all
  then have sum: "sadd x (int col * k) = Some (x + int col * k)" "sadd y (int row * k) = Some (y + int row * k)"
    by (auto simp: sadd_def in64_def)
  obtain g1 where g1: "(if bit (glyph ! row) col then bb_fill_rect (x + int col * k) (y + int row * k) k k fg g else Some g) = Some g1" "draws g g1"
  proof (cases "bit (glyph ! row) col")
    case True
    obtain g1 where "bb_fill_rect (x + int col * k) (y + int row * k) k k fg g = Some g1" "draws g g1"
      using wide_fill [OF b, of k k g fg] assms(5,6) Cons.prems(2) by auto
    then show ?thesis using that True by simp
  qed (use that in simp)
  obtain g2 where "scaled_cells glyph x y fg k cs g1 = Some g2" "draws g1 g2"
    using Cons.IH [of g1] Cons.prems draws_ok [OF g1(2)] by auto
  moreover have "scaled_cells glyph x y fg k (a # cs) g = scaled_cells glyph x y fg k cs g1"
    using g1(1) sum rc(1) assms(1) by (cases "bit (glyph ! row) col") (simp_all add: a rd_Some)
  ultimately show ?case using draws_trans [OF g1(2)] by auto
qed simp

lemma scaled_string_draws:
  assumes "font_ok font" "near y" "k \<le> 16"
  shows "ascii s \<Longrightarrow> - (2 ^ 40) \<le> x \<Longrightarrow> x + 128 * int (length s) \<le> 2 ^ 41 \<Longrightarrow> screen_ok g \<Longrightarrow>
    \<exists>g'. bb_draw_string_scaled font x y s fg k g = Some g' \<and> draws g g'"
proof (induction s arbitrary: x g)
  case (Cons c s)
  have c: "unat c < length font" using assms(1) Cons.prems(1) by (simp add: font_ok_def ascii_def word_less_nat_alt)
  then have gl: "length (font ! unat c) = 8" using assms(1) by (simp add: font_ok_def list_all_length)
  have k: "1 \<le> max 1 k" "max 1 k \<le> 16" using assms(3) by auto
  obtain g1 where g1: "scaled_cells (font ! unat c) x y fg (max 1 k) glyph_cells g = Some g1" "draws g g1"
    using scaled_cells_draws [OF gl _ _ assms(2) k glyph_cells_range, of x g fg] Cons.prems by auto
  have kk: "0 \<le> FONT_W * max 1 k" "FONT_W * max 1 k \<le> 128" using k by (simp_all add: FONT_W_def)
  then have "sadd x (FONT_W * max 1 k) = Some (x + FONT_W * max 1 k)" using Cons.prems(2,3) unfolding sadd_def in64_def by simp
  moreover obtain g2 where "bb_draw_string_scaled font (x + FONT_W * max 1 k) y s fg k g1 = Some g2" "draws g1 g2"
    using Cons.IH [of "x + FONT_W * max 1 k" g1] Cons.prems kk draws_ok [OF g1(2)] by (auto simp: ascii_def)
  ultimately show ?case using g1 c draws_trans [OF g1(2)] by (simp add: rd_Some)
qed simp

lemma run_draw_draws:
  assumes "font_ok font" "draw_ok a" "screen_ok g"
  shows "\<exists>g'. run_draw font a g = Some g' \<and> draws g g'"
proof (cases a)
  case (Fill x y w h c)
  then show ?thesis using near_fill assms by simp
next
  case (Box x y w h c)
  then show ?thesis using box_draws assms by simp
next
  case (Glyph x y c fg)
  then show ?thesis using bb_draw_char_draws [OF assms(1) _ _ _ _ _ assms(3), of c x y fg] assms(2) by (auto simp: near_def)
next
  case (Text x y s fg)
  then show ?thesis using bb_draw_string_draws [OF assms(1) _ _ _ _ _ assms(3), of s x y fg] assms(2) by (auto simp: near_def ascii_def)
next
  case (Scaled x y s fg k)
  then show ?thesis using scaled_string_draws [OF assms(1), of y k s x g fg] assms(2,3) by (auto simp: near_def)
qed

lemma run_draws_draws:
  assumes "font_ok font"
  shows "list_all draw_ok as \<Longrightarrow> screen_ok g \<Longrightarrow> \<exists>g'. run_draws font as g = Some g' \<and> draws g g'"
proof (induction as arbitrary: g)
  case (Cons a as)
  obtain g1 where g1: "run_draw font a g = Some g1" "draws g g1" using run_draw_draws [OF assms, of a g] Cons.prems by auto
  obtain g2 where "run_draws font as g1 = Some g2" "draws g1 g2" using Cons.IH [of g1] Cons.prems draws_ok [OF g1(2)] by auto
  then show ?case using g1 draws_trans [OF g1(2)] by auto
qed simp

section \<open>The background\<close>

definition wall_ok :: "wall option \<Rightarrow> bool" where
  "wall_ok v \<longleftrightarrow> (\<forall>w. v = Some w \<longrightarrow> length (wl_img w) = wl_w w * wl_h w)"

lemma background_draws:
  assumes ok: "screen_ok g" and clip: "gx_clip_on g" "gx_clip g = (x0, y0, x1, y1)" and v: "wall_ok v"
    and b: "0 \<le> x0" "x0 < x1" "x1 \<le> int (gx_w g)" "0 \<le> y0" "y0 < y1" "y1 \<le> int (gx_h g)"
  shows "\<exists>g'. scene_background v (x0, y0, x1, y1) g = Some g' \<and> draws g g'"
proof -
  have len: "gx_w g * gx_h g \<le> length (gx_bb g)" using ok by (simp add: screen_ok_def)
  have fin: "draws g (g\<lparr>gx_bb := bb\<rparr>)"
    if "length bb = length (gx_bb g)" "\<forall>j < length (gx_bb g). gx_w g * gx_h g \<le> j \<longrightarrow> bb ! j = gx_bb g ! j"
      "\<And>px py. px < gx_w g \<Longrightarrow> py < gx_h g \<Longrightarrow> \<not> (x0 \<le> int px \<and> int px < x1 \<and> y0 \<le> int py \<and> int py < y1)
          \<Longrightarrow> bb ! (py * gx_w g + px) = gx_bb g ! (py * gx_w g + px)" for bb
    unfolding draws_def
  proof (intro conjI allI impI)
    show "bb_only g (g\<lparr>gx_bb := bb\<rparr>)" using that(1,2) unfolding bb_only_def by auto
    fix px py
    assume "on_screen g px py \<and> \<not> visible g px py"
    then show "pixel (g\<lparr>gx_bb := bb\<rparr>) px py = pixel g px py"
      using that(3) [of "nat px" "nat py"] clip by (auto simp: pixel_def on_screen_def visible_def)
  qed
  show ?thesis
  proof (cases v)
    case None
    have n: "nat x0 + nat (x1 - x0) = nat x1" "nat y0 + nat (y1 - y0) = nat y1" using b by simp_all
    have r: "nat x0 + nat (x1 - x0) \<le> gx_w g" "nat y0 + nat (y1 - y0) \<le> gx_h g" unfolding n using b by simp_all
    obtain bb where bb: "bb_spans (gx_w g) (nat y0) (nat x0) (nat (y1 - y0)) (nat (x1 - x0))
                       (\<lambda>yy. gradient_color (of_nat yy) (of_nat (gx_h g))) (gx_bb g) = Some bb" "length bb = length (gx_bb g)"
        "\<forall>j < length (gx_bb g). gx_w g * gx_h g \<le> j \<longrightarrow> bb ! j = gx_bb g ! j"
        "\<forall>px < gx_w g. \<forall>py < gx_h g. bb ! (py * gx_w g + px) =
          (if nat x0 \<le> px \<and> px < nat x0 + nat (x1 - x0) \<and> nat y0 \<le> py \<and> py < nat y0 + nat (y1 - y0)
           then gradient_color (of_nat py) (of_nat (gx_h g)) else gx_bb g ! (py * gx_w g + px))"
      using bb_spans_spec [OF r len] by blast
    have "(nat x0 \<le> px \<and> px < nat x0 + nat (x1 - x0) \<and> nat y0 \<le> py \<and> py < nat y0 + nat (y1 - y0))
        \<longleftrightarrow> (x0 \<le> int px \<and> int px < x1 \<and> y0 \<le> int py \<and> int py < y1)" for px py
      unfolding n using b by (simp add: nat_le_iff) linarith
    then have "draws g (g\<lparr>gx_bb := bb\<rparr>)" using bb(2-4) by (intro fin) auto
    then show ?thesis using None bb(1) by (simp add: scene_background_def)
  next
    case (Some w)
    have "length (wl_img w) = wl_w w * wl_h w" using v Some by (simp add: wall_ok_def)
    from wallpaper_render_spec [OF this len b(1,3,4,6)] obtain bb where
      bb: "wallpaper_render (Some w) (gx_bb g) (gx_w g) x0 y0 x1 y1 = Some bb" "length bb = length (gx_bb g)"
        "\<forall>j < length (gx_bb g). gx_w g * gx_h g \<le> j \<longrightarrow> bb ! j = gx_bb g ! j"
        "\<forall>px < gx_w g. \<forall>py < gx_h g. bb ! (py * gx_w g + px) =
          (if x0 \<le> int px \<and> int px < x1 \<and> y0 \<le> int py \<and> int py < y1 \<and> px < wl_w w \<and> py < wl_h w
           then wl_img w ! (py * wl_w w + px) else gx_bb g ! (py * gx_w g + px))" by blast
    have "draws g (g\<lparr>gx_bb := bb\<rparr>)" using bb(2-4) by (intro fin) auto
    then show ?thesis using Some bb(1) by (simp add: scene_background_def)
  qed
qed

section \<open>Texts\<close>

lemma ascii_simps [simp]:
  "ascii []" "ascii (c # s) \<longleftrightarrow> c < 128 \<and> ascii s" "ascii (s @ t) \<longleftrightarrow> ascii s \<and> ascii t" "ascii (rev s) \<longleftrightarrow> ascii s"
  "ascii (replicate n c) \<longleftrightarrow> n = 0 \<or> c < 128"
  by (auto simp: ascii_def)

lemma ascii_take: "ascii s \<Longrightarrow> ascii (take n s)" "ascii s \<Longrightarrow> ascii (drop n s)" "ascii s \<Longrightarrow> ascii (takeWhile P s)"
  by (auto simp: ascii_def dest: in_set_takeD in_set_dropD set_takeWhileD)

text \<open>The texts of the program are in ASCII.\<close>

definition plain :: "string \<Rightarrow> bool" where
  "plain s \<longleftrightarrow> ascii (lit s) \<and> length s \<le> 2 ^ 10"

lemma ascii_lit: "list_all (\<lambda>c. \<not> digit7 c) s \<Longrightarrow> ascii (lit s)"
proof (induction s)
  case (Cons c s)
  have "(of_char c :: nat) < 128" using Cons.prems by (cases c) (simp add: of_char_def)
  then have "(of_char c :: u8) < 128" using unat_of_char [of c] by (simp add: word_less_nat_alt del: of_char_mod_256)
  then show ?case using Cons by (simp add: lit_chars)
qed (simp add: lit_chars)

lemma digit_ascii: "(of_nat (48 + v mod 10) :: u8) < 128"
proof -
  have "v mod 10 < 10" by simp
  then have "unat (of_nat (48 + v mod 10) :: u8) = 48 + v mod 10" by (subst unat_of_nat_lt) (auto simp: simp_thms)
  then show ?thesis using \<open>v mod 10 < 10\<close> by (simp add: word_less_nat_alt del: of_nat_add)
qed

lemma low_digits_ascii [simp]: "ascii (low_digits n v)"
  using digit_ascii by (induction n arbitrary: v) simp_all

lemma put_digits_ascii [simp]: "ascii (put_digits v n)"
  by (simp add: put_digits_def Let_def)

lemma month_ascii [simp]: "ascii (month_name m)"
proof -
  have "m = 1 \<or> m = 2 \<or> m = 3 \<or> m = 4 \<or> m = 5 \<or> m = 6 \<or> m = 7 \<or> m = 8 \<or> m = 9 \<or> m = 10 \<or> m = 11 \<or> m = 12"
    if "1 \<le> m" "m \<le> 12" using that by presburger
  then show ?thesis by (auto simp: month_name_def months_def ascii_lit)
qed

lemma clock_ascii [simp]: "ascii (time_text dt)" "ascii (date_text dt)" "ascii (long_date dt dow)"
proof -
  show "ascii (time_text dt)" "ascii (date_text dt)" by (simp_all add: time_text_def date_text_def ascii_lit)
  have "dow = 0 \<or> dow = 1 \<or> dow = 2 \<or> dow = 3 \<or> dow = 4 \<or> dow = 5 \<or> dow = 6" if "0 \<le> dow" "dow \<le> 6" using that by presburger
  then show "ascii (long_date dt dow)" by (auto simp: long_date_def g_days_full_def ascii_lit)
qed

lemma c_text_terminated: "terminated b \<Longrightarrow> c_text b = Some (cstr b)"
  by (simp add: c_text_def terminated_def cstr_def)

lemma c_text_zero [simp]: "0 \<notin> set s \<Longrightarrow> c_text (s @ [0]) = Some s"
  using cstr_append [of s "[]"] by (simp add: c_text_def cstr_def)

lemma c_text_any: "\<exists>t. c_text (s @ [0]) = Some t \<and> length t \<le> length s \<and> (ascii s \<longrightarrow> ascii t)"
  using length_takeWhile_le [of "\<lambda>c. c \<noteq> 0" s] ascii_take(3) [of s "\<lambda>c. c \<noteq> 0"] unfolding c_text_def
  by (cases "0 \<in> set s") (auto simp: takeWhile_append takeWhile_append1)

lemma cstr_ascii: "ascii b \<Longrightarrow> ascii (cstr b)" "length (cstr b) \<le> length b"
  by (simp_all add: cstr_def ascii_take length_takeWhile_le)

text \<open>A local array that holds a text, read back as a string.\<close>

lemma in_buf_text:
  assumes "length s < n" "ascii s"
  obtains b t where "in_buf n s = Some b" "c_text b = Some t" "length t \<le> length s" "ascii t"
  using c_text_any [of s] assms by (auto simp: in_buf_def)

section \<open>Lists of calls\<close>

definition fine :: "draw list \<Rightarrow> bool" where
  "fine ds \<longleftrightarrow> list_all draw_ok ds"

lemma fine_simps [simp]:
  "fine []" "fine (a # ds) \<longleftrightarrow> draw_ok a \<and> fine ds" "fine (ds @ es) \<longleftrightarrow> fine ds \<and> fine es"
  by (auto simp: fine_def)

lemma fine_concat: "(\<And>x. x \<in> set xs \<Longrightarrow> fine (f x)) \<Longrightarrow> fine (concat (map f xs))"
  by (induction xs) (auto)

lemma fine_map: "(\<And>x. x \<in> set xs \<Longrightarrow> draw_ok (f x)) \<Longrightarrow> fine (map f xs)"
  by (induction xs) auto

text \<open>Positions on the screen, with room for the widths and offsets that are added to them.\<close>

definition close :: "int \<Rightarrow> bool" where
  "close v \<longleftrightarrow> - (2 ^ 30) \<le> v \<and> v \<le> 2 ^ 30"

lemma label_ok: "near x \<Longrightarrow> near y \<Longrightarrow> ascii (lit s) \<Longrightarrow> length s \<le> 2 ^ 20 \<Longrightarrow> draw_ok (label x y s fg)"
  by (simp add: label_def)

lemma glyph_run_fine:
  assumes "close x" "near y" "ascii cs" "length cs \<le> 2 ^ 20"
  shows "fine (glyph_run x y cs fg)"
  unfolding glyph_run_def
proof (rule fine_map, clarify)
  fix i c assume "(i, c) \<in> set (enumerate 0 cs)"
  then have i: "i < length cs" "c = cs ! i" by (auto simp: in_set_enumerate_eq)
  then have "near (x + int i * FONT_W)" using assms(1,4) by (simp add: near_def close_def FONT_W_def)
  then show "draw_ok (Glyph (x + int i * FONT_W) y c fg)" using i assms by (simp add: ascii_def)
qed


lemma sdiv_bound: "\<bar>a sdiv b\<bar> \<le> \<bar>a\<bar>" for a b :: int
proof -
  have q: "0 \<le> \<bar>a\<bar> div \<bar>b\<bar>" "\<bar>a\<bar> div \<bar>b\<bar> \<le> \<bar>a\<bar>"
    using zdiv_mono2 [of "\<bar>a\<bar>" 1 "\<bar>b\<bar>"] by (cases "b = 0"; simp add: pos_imp_zdiv_nonneg_iff)+
  have "\<bar>a sdiv b\<bar> = \<bar>sgn a * sgn b\<bar> * (\<bar>a\<bar> div \<bar>b\<bar>)" unfolding signed_divide_int_def abs_mult by (simp add: abs_of_nonneg [OF q(1)])
  moreover have "\<bar>sgn a * sgn b\<bar> \<le> 1" by (simp add: sgn_if)
  ultimately show ?thesis using mult_right_mono [of "\<bar>sgn a * sgn b\<bar>" 1 "\<bar>a\<bar> div \<bar>b\<bar>"] q by linarith
qed

lemma sdiv_within: "- n \<le> a \<Longrightarrow> a \<le> n \<Longrightarrow> - n \<le> a sdiv b" "- n \<le> a \<Longrightarrow> a \<le> n \<Longrightarrow> a sdiv b \<le> n" for a b n :: int
  using sdiv_bound [of a b] by linarith+

definition placed :: "win \<Rightarrow> bool" where
  "placed w \<longleftrightarrow> 0 \<le> w_x w \<and> w_x w \<le> 2 ^ 20 \<and> 0 \<le> w_y w \<and> w_y w \<le> 2 ^ 20 \<and> 200 \<le> w_w w \<and> w_w w \<le> 2 ^ 20
     \<and> 120 \<le> w_h w \<and> w_h w \<le> 2 ^ 20"

text \<open>The characters that a window can show are in the font.\<close>

definition win_legible :: "win \<Rightarrow> bool" where
  "win_legible w \<longleftrightarrow> (\<forall>s. w_title w = Title s \<longrightarrow> plain s) \<and> (\<forall>s \<in> set (w_lines w). plain s)
     \<and> (w_kind w = 1 \<longrightarrow> (\<forall>row \<in> set (tm_lines (w_tm w)). ascii row) \<and> ascii (ln_buf (tm_input (w_tm w))))
     \<and> (w_kind w = 2 \<longrightarrow> ascii (ln_buf (br_input (w_br w))) \<and> ascii (br_site_name (w_br w)) \<and> ascii (br_title (w_br w)) \<and> ascii (br_web (w_br w)))
     \<and> (w_kind w = 3 \<longrightarrow> ascii (np_text (w_np w)) \<and> ascii (np_fname (w_np w)) \<and> ascii (np_title (w_np w)) \<and> ascii (np_save_as_buf (w_np w)))"

definition desk_legible :: "desk \<Rightarrow> bool" where
  "desk_legible d \<longleftrightarrow> (\<forall>w \<in> set (dk_wins d). w_used w \<longrightarrow> win_legible w) \<and> (\<forall>f \<in> set (dk_fs d). ascii (ff_name f))"

lemmas geometry = TASKBAR_H_def START_W_def START_H_def TASK_WIN_W_def TASK_WIN_H_def TASK_GAP_def TITLE_H_def BTN_W_def BTN_H_def
  BTN_MARGIN_def BTN_GAP_def MIN_WIN_W_def MIN_WIN_H_def MENU_W_def MENU_ITEM_H_def MENU_PAD_def CURSOR_W_def CURSOR_H_def FONT_H_def FONT_W_def
  start_x_def start_y_def menu_x_def menu_y_def menu_h_def work_h_def task_btn_x_def CLOCK_MARGIN_def text_w_def

lemma win_placed: "desk_inv d \<Longrightarrow> i < length (dk_wins d) \<Longrightarrow> w_used (dk_wins d ! i) \<Longrightarrow> placed (dk_wins d ! i)"
  using desk_inv_win [of d i]
  by (auto simp: win_ok_def geom_ok_def win_rect_def placed_def desk_inv_def screen_fits_def geometry)

lemma icons_plain: "\<forall>ic \<in> set g_icons. ic_glyph ic < 128 \<and> ascii (lit (ic_label ic)) \<and> length (ic_label ic) \<le> 20"
  by (simp add: g_icons_def ascii_lit)

lemma icon_draw_fine: "fine icon_draw"
  unfolding icon_draw_def Let_def
proof (rule fine_concat)
  fix i assume "i \<in> set [0 ..< length g_icons]"
  then have i: "i < length g_icons" by simp
  have n: "length g_icons \<le> 20" by (simp add: g_icons_def)
  have ic: "ic_glyph (g_icons ! i) < 128" "ascii (lit (ic_label (g_icons ! i)))" "length (ic_label (g_icons ! i)) \<le> 20"
    using icons_plain nth_mem [OF i] by blast+
  have s: "- 1000 \<le> (ICON_W - text_w (ic_label (g_icons ! i))) sdiv 2" "(ICON_W - text_w (ic_label (g_icons ! i))) sdiv 2 \<le> 1000"
    using ic(3) by (intro sdiv_within; simp add: ICON_W_def geometry)+
  have y: "0 \<le> int i" "int i \<le> 20" using i n by simp_all
  show "fine [Fill ICON_X0 (ICON_Y0 + int i * ICON_ROW_STEP) ICON_W ICON_H WIN_BORDER,
      Fill (ICON_X0 + 2) (ICON_Y0 + int i * ICON_ROW_STEP + 2) (ICON_W - 4) (ICON_H - 4) (ic_color (g_icons ! i)),
      Glyph (ICON_X0 + (ICON_W - FONT_W) div 2) (ICON_Y0 + int i * ICON_ROW_STEP + (ICON_H - FONT_H) div 2) (ic_glyph (g_icons ! i)) 16777215,
      label (ICON_X0 + (ICON_W - text_w (ic_label (g_icons ! i))) sdiv 2) (ICON_Y0 + int i * ICON_ROW_STEP + ICON_H + 6) (ic_label (g_icons ! i)) 16777215]"
    using ic s y unfolding label_def
    by (simp add: near_def ICON_X0_def ICON_Y0_def ICON_W_def ICON_H_def ICON_ROW_STEP_def FONT_W_def FONT_H_def)
qed

lemma title_text_ok:
  assumes "desk_inv d" "desk_legible d" "i < length (dk_wins d)" "w_used (dk_wins d ! i)"
  obtains t where "title_text d (dk_wins d ! i) = Some t" "ascii t" "length t \<le> 2 ^ 10"
proof -
  let ?w = "dk_wins d ! i"
  have ok: "win_ok (int (dk_gw d)) (work_h d) ?w" "fs_ok (dk_fs d)" using desk_inv_win [OF assms(1,3)] assms(1) by (simp_all add: desk_inv_def)
  have l: "win_legible ?w" using assms(2,3,4) by (simp add: desk_legible_def)
  show ?thesis
  proof (cases "w_kind ?w = 3 \<and> np_own_title (w_np ?w)")
    case True
    then have n: "np_ok (w_np ?w)" "ascii (np_title (w_np ?w))" using ok(1) l assms(4) by (auto simp: win_ok_def app_ok_def win_legible_def)
    then show ?thesis using that [of "cstr (np_title (w_np ?w))"] True cstr_ascii [of "np_title (w_np ?w)"]
      by (simp add: title_text_def np_ok_def c_text_terminated NOTEPAD_MAX_FNAME_def)
  next
    case F: False
    show ?thesis
    proof (cases "w_title ?w")
      case (Title s)
      then show ?thesis using that [of "lit s"] F l by (simp add: title_text_def win_legible_def plain_def)
    next
      case (File_Name k)
      then have k: "k < length (dk_fs d)" using ok assms(4) by (simp add: win_ok_def fs_ok_def)
      then have f: "file_ok (dk_fs d ! k)" "ascii (ff_name (dk_fs d ! k))" using ok(2) assms(2) by (simp_all add: fs_ok_def desk_legible_def)
      then show ?thesis using that [of "cstr (ff_name (dk_fs d ! k))"] F File_Name k cstr_ascii [of "ff_name (dk_fs d ! k)"]
        by (simp add: title_text_def rd_Some file_ok_def c_text_terminated NOTEPAD_MAX_FNAME_def)
    qed
  qed
qed

lemma drop_at: "i < length xs \<Longrightarrow> drop i xs = y # ys \<Longrightarrow> xs ! i = y" "i < length xs \<Longrightarrow> drop i xs = y # ys \<Longrightarrow> ys = drop (i + 1) xs"
  using Cons_nth_drop_Suc [of i xs] by simp_all

lemma task_buttons_fine:
  assumes inv: "desk_inv d" and leg: "desk_legible d"
  shows "ws = drop i (dk_wins d) \<Longrightarrow> slot + length ws \<le> 100 \<Longrightarrow> \<exists>ds. task_buttons d i slot ws = Some ds \<and> fine ds"
proof (induction ws arbitrary: i slot)
  case (Cons w ws)
  have il: "i < length (dk_wins d)" using Cons.prems(1) by (cases "i < length (dk_wins d)") simp_all
  note i = il drop_at [OF il Cons.prems(1) [symmetric]]
  show ?case
  proof (cases "w_used w")
    case False
    then show ?thesis using Cons.IH [OF i(3), of slot] Cons.prems(2) by simp
  next
    case True
    obtain t where t: "title_text d w = Some t" "ascii t" "length t \<le> 2 ^ 10" using title_text_ok [OF inv leg i(1)] True i(2) by auto
    obtain ds where ds: "task_buttons d (i + 1) (slot + 1) ws = Some ds" "fine ds" using Cons.IH [OF i(3), of "slot + 1"] Cons.prems(2) by auto
    have "int slot \<le> 100" "dk_gh d \<le> 2 ^ 20" using Cons.prems(2) inv by (simp_all add: desk_inv_def screen_fits_def)
    then show ?thesis using True t ds by (simp add: near_def geometry Let_def)
  qed
qed simp

definition clock_ok :: "rtc_datetime option \<Rightarrow> bool" where
  "clock_ok now \<longleftrightarrow> (\<forall>dt. now = Some dt \<longrightarrow> now_ok dt \<and> 1 \<le> dt_month dt \<and> dt_month dt \<le> 12)"

lemma clock_str:
  assumes "clock_ok now"
  obtains b t where "build_clock_str now = Some b" "c_text b = Some t" "length t \<le> 40" "ascii t"
proof -
  define s where "s = (case now of None \<Rightarrow> lit ''--:--:--'' | Some dt \<Rightarrow> time_text dt @ lit '' '' @ date_text dt)"
  have "length s < 40" "ascii s"
    using assms time_text_range [of "the now"] date_text_range [of "the now"] by (cases now; simp add: s_def clock_ok_def ascii_lit)+
  from in_buf_text [OF this] show ?thesis using that \<open>length s < 40\<close> unfolding build_clock_str_def s_def [symmetric] by (metis less_le_trans nless_le order_trans)
qed

lemma render_taskbar_fine:
  assumes inv: "desk_inv d" and leg: "desk_legible d" and now: "clock_ok now"
  shows "\<exists>ds. render_taskbar now d = Some ds \<and> fine ds"
proof -
  obtain btns where b: "task_buttons d 0 0 (dk_wins d) = Some btns" "fine btns"
    using task_buttons_fine [OF inv leg, of "dk_wins d" 0 0] inv by (auto simp: desk_inv_def MAX_WINDOWS_def)
  obtain buf t where c: "build_clock_str now = Some buf" "c_text buf = Some t" "length t \<le> 40" "ascii t" by (rule clock_str [OF now])
  have g: "dk_gw d \<le> 2 ^ 20" "dk_gh d \<le> 2 ^ 20" using inv by (simp_all add: desk_inv_def screen_fits_def)
  then show ?thesis using b c by (simp add: render_taskbar_def Let_def near_def geometry label_def ascii_lit)
qed

lemma render_start_menu_fine:
  assumes inv: "desk_inv d"
  shows "fine (render_start_menu d)"
proof -
  have g: "dk_gh d \<le> 2 ^ 20" using inv by (simp add: desk_inv_def screen_fits_def)
  have n: "length g_icons \<le> 20" by (simp add: g_icons_def)
  show ?thesis unfolding render_start_menu_def Let_def fine_simps
  proof (intro conjI fine_concat)
    show "draw_ok (Fill menu_x (menu_y d) MENU_W menu_h TASKBAR_BG)" "draw_ok (Box menu_x (menu_y d) MENU_W menu_h WIN_BORDER)"
      using g n by (simp_all add: near_def geometry)
    fix i assume "i \<in> set [0 ..< length g_icons]"
    then have i: "i < length g_icons" by simp
    have ic: "ic_glyph (g_icons ! i) < 128" "ascii (lit (ic_label (g_icons ! i)))" "length (ic_label (g_icons ! i)) \<le> 20"
      using icons_plain nth_mem [OF i] by blast+
    have y: "0 \<le> int i" "int i \<le> 20" using i n by simp_all
    show "fine [Fill (menu_x + MENU_PAD) (menu_y d + MENU_PAD + int i * MENU_ITEM_H) (MENU_W - 2 * MENU_PAD) (MENU_ITEM_H - 6) TASKBAR_BTN_BG,
        Glyph (menu_x + MENU_PAD + 8) (menu_y d + MENU_PAD + int i * MENU_ITEM_H + (MENU_ITEM_H - 6 - FONT_H) div 2) (ic_glyph (g_icons ! i)) 16777215,
        label (menu_x + MENU_PAD + 30) (menu_y d + MENU_PAD + int i * MENU_ITEM_H + (MENU_ITEM_H - 6 - FONT_H) div 2) (ic_label (g_icons ! i)) CLOCK_TEXT]"
      using ic y g n by (simp add: near_def geometry label_def)
  qed simp_all
qed

lemma placedD:
  assumes "placed w"
  shows "0 \<le> w_x w" "w_x w \<le> 1048576" "0 \<le> w_y w" "w_y w \<le> 1048576" "200 \<le> w_w w" "w_w w \<le> 1048576" "120 \<le> w_h w" "w_h w \<le> 1048576"
  using assms by (simp_all add: placed_def)

lemma win_frame_fine:
  assumes "placed w" "ascii t" "length t \<le> 2 ^ 10"
  shows "fine (win_frame w t active)"
  using placedD [OF assms(1)] assms(2,3) unfolding win_frame_def Let_def by (simp add: near_def geometry)

lemma info_render_fine:
  assumes "placed w" "\<forall>s \<in> set (w_lines w). plain s"
  shows "fine (info_render w)"
proof -
  have "draw_ok (label (w_x w + 8) (w_y w + 1 + TITLE_H + 6 + int i * (FONT_H + 4)) s BODY_TEXT)"
    if "(i, s) \<in> set (enumerate 0 (take MAX_WIN_LINES (w_lines w)))" for i s
  proof -
    have "i < MAX_WIN_LINES" "s \<in> set (w_lines w)" using that in_set_takeD by (fastforce simp: in_set_enumerate_eq)+
    moreover have "ascii (lit s)" "length s \<le> 1024" using calculation(2) assms(2) by (simp_all add: plain_def)
    ultimately show ?thesis using placedD [OF assms(1)] by (simp add: label_def near_def geometry MAX_WIN_LINES_def)
  qed
  then have "fine (map (\<lambda>(i, s). label (w_x w + 8) (w_y w + 1 + TITLE_H + 6 + int i * (FONT_H + 4)) s BODY_TEXT)
      (enumerate 0 (take MAX_WIN_LINES (w_lines w))))" by (intro fine_map) auto
  then show ?thesis using placedD [OF assms(1)] unfolding info_render_def Let_def by (simp add: near_def geometry)
qed

section \<open>The terminal\<close>

lemma row_text_fits: "n < length s \<Longrightarrow> \<exists>t. row_text n s = Some t \<and> length t \<le> n \<and> (ascii s \<longrightarrow> ascii t)"
proof (induction n s rule: row_text.induct)
  case (3 n c s)
  then show ?case by (cases "c = 0") auto
qed auto

lemma term_rows_fine:
  assumes "\<forall>row \<in> set rows. length row = TERM_LINE_MAX \<and> ascii row" "cols < TERM_LINE_MAX" "close x"
  shows "from + n \<le> length rows \<Longrightarrow> 0 \<le> y \<Longrightarrow> y + 10 * int n \<le> 2 ^ 40 \<Longrightarrow> \<exists>ds. term_rows rows from n cols x y = Some ds \<and> fine ds"
proof (induction n arbitrary: "from" y)
  case (Suc n)
  have f: "from < length rows" using Suc.prems(1) by simp
  then have row: "length (rows ! from) = TERM_LINE_MAX" "ascii (rows ! from)" using assms(1) by simp_all
  obtain t where t: "row_text cols (rows ! from) = Some t" "length t \<le> cols" "ascii t" using row_text_fits [of cols "rows ! from"] assms(2) row by auto
  obtain ds where ds: "term_rows rows (from + 1) n cols x (y + TERM_ROW_H) = Some ds" "fine ds"
    using Suc.IH [of "from + 1" "y + TERM_ROW_H"] Suc.prems by (auto simp: TERM_ROW_H_def)
  have "fine (glyph_run x y t TERM_TEXT)"
    using t assms(2,3) Suc.prems by (intro glyph_run_fine) (simp_all add: near_def TERM_LINE_MAX_def)
  then show ?case using f t(1) ds by (simp add: rd_Some)
qed simp

lemma term_render_fine:
  assumes pl: "placed w" and ok: "tm_ok (w_tm w)" and short: "w_h w \<le> 849"
    and leg: "\<forall>row \<in> set (tm_lines (w_tm w)). ascii row" "ascii (ln_buf (tm_input (w_tm w)))"
  shows "\<exists>ds. term_render d w active = Some ds \<and> fine ds"
proof -
  note p = placedD [OF pl]
  define bh where "bh = w_h w - 2 - TITLE_H"
  define rows where "rows = max 2 ((bh - 2) sdiv TERM_ROW_H)"
  define cols where "cols = min (max 8 ((w_w w - 2 - 8) sdiv FONT_W)) (int TERM_LINE_MAX - 1)"
  have b: "0 \<le> bh - 2" "bh - 2 \<le> 819" using p short by (simp_all add: bh_def geometry)
  have "(bh - 2) sdiv TERM_ROW_H = (bh - 2) div 10" using b(1) unfolding TERM_ROW_H_def by (intro sdiv_nonneg) auto
  then have r: "2 \<le> rows" "rows \<le> 81" using b unfolding rows_def by auto
  have c: "8 \<le> cols" "cols \<le> 87" "nat cols < TERM_LINE_MAX" unfolding cols_def by (simp_all add: TERM_LINE_MAX_def)
  define t where "t = w_tm w"
  define first where "first = max 0 (int (tm_len t) - (rows - 1) - int (tm_scroll t))"
  have t: "length (tm_lines t) = 80" "\<forall>row \<in> set (tm_lines t). length row = TERM_LINE_MAX \<and> ascii row" "tm_len t \<le> 80" "line_ok (tm_input t)"
    using ok leg(1) by (simp_all add: tm_ok_def t_def TERM_SCROLL_MAX_def)
  have f: "nat first + nat (rows - 1) \<le> length (tm_lines t)" using t(1,3) r by (simp add: first_def)
  obtain ls where ls: "term_rows (tm_lines t) (nat first) (nat (rows - 1)) (nat cols) (w_x w + 1 + 4) (w_y w + 1 + TITLE_H + 2) = Some ls" "fine ls"
    using term_rows_fine [OF t(2) c(3) _ f, of "w_x w + 1 + 4" "w_y w + 1 + TITLE_H + 2"] p r by (auto simp: close_def geometry)
  define m where "m = min (ln_len (tm_input t)) (nat cols - length (take (nat cols) (lit TERM_PROMPT)))"
  have m0: "m \<le> ln_len (tm_input t)" by (simp add: m_def)
  then have m: "0 + m \<le> length (ln_buf (tm_input t))" using t(4) by (simp add: line_ok_def)
  have l: "ascii (lit TERM_PROMPT)" by (simp add: TERM_PROMPT_def ascii_lit)
  have m2: "m \<le> 87" "ln_cur (tm_input t) \<le> 87" using t(4) m0 by (simp_all add: line_ok_def TERM_LINE_MAX_def)
  have pr: "length (take (nat cols) (lit TERM_PROMPT)) \<le> 12" by (simp add: TERM_PROMPT_def)
  have "fine (glyph_run (w_x w + 1 + 4) (w_y w + 1 + TITLE_H + 2 + (rows - 1) * TERM_ROW_H) (take (nat cols) (lit TERM_PROMPT)) TERM_TEXT)"
    using p r l pr by (intro glyph_run_fine) (simp_all add: close_def near_def geometry TERM_ROW_H_def ascii_take)
  moreover have "fine (glyph_run (w_x w + 1 + 4 + int (length (take (nat cols) (lit TERM_PROMPT))) * FONT_W)
      (w_y w + 1 + TITLE_H + 2 + (rows - 1) * TERM_ROW_H) (take m (drop 0 (ln_buf (tm_input t)))) TERM_TEXT)"
    using p r pr m2 leg(2) by (intro glyph_run_fine) (simp_all add: close_def near_def geometry TERM_ROW_H_def ascii_take t_def)
  moreover have "draw_ok (Fill (w_x w + 1) (w_y w + 1 + TITLE_H) (w_w w - 2) bh TERM_BG)"
    "draw_ok (Fill (w_x w + 1 + 4 + (int (length (take (nat cols) (lit TERM_PROMPT))) + int (ln_cur (tm_input t))) * FONT_W)
      (w_y w + 1 + TITLE_H + 2 + (rows - 1) * TERM_ROW_H + FONT_H + 1) FONT_W 2 TERM_TEXT)"
    using p r pr m2 b by (simp_all add: near_def geometry TERM_ROW_H_def)
  moreover have "rd_range (ln_buf (tm_input t)) 0 m = Some (take m (drop 0 (ln_buf (tm_input t))))" using m by (rule rd_range_Some)
  ultimately show ?thesis using ls
    unfolding term_render_def Let_def bh_def [symmetric] rows_def [symmetric] cols_def [symmetric] t_def [symmetric] first_def [symmetric] m_def [symmetric]
    by simp
qed

section \<open>The browser's pages\<close>

lemma length_push_text: "length (push_text n t acc) = length acc + min (n - 1 - length acc) (length t)"
  by (simp add: push_text_def min.commute)

lemma ascii_push_text [simp]: "ascii t \<Longrightarrow> ascii acc \<Longrightarrow> ascii (push_text n t acc)"
  by (simp add: push_text_def ascii_take)

lemma digit_of_ascii [simp]: "digit_of v < 128"
  unfolding digit_of_def by (rule digit_ascii)

lemma web_banner_fits:
  assumes "length site \<le> 87" "ascii site"
  shows "length (web_banner b site) < BANNER_MAX" "ascii (web_banner b site)"
proof -
  show "length (web_banner b site) < BANNER_MAX" using assms(1)
    by (cases "br_web_state b") (auto simp: web_banner_def length_push_text BANNER_MAX_def TERM_LINE_MAX_def)
  show "ascii (web_banner b site)" using assms(2)
    by (cases "br_web_state b") (auto simp: web_banner_def ascii_lit)
qed

lemma strip_html_fits: "o_len < lim \<Longrightarrow> length (strip_html lim tag ent sp o_len cs) + o_len < lim"
  by (induction lim tag ent sp o_len cs rule: strip_html.induct) auto

lemma strip_html_ascii: "ascii cs \<Longrightarrow> ascii (strip_html lim tag ent sp o_len cs)"
  by (induction lim tag ent sp o_len cs rule: strip_html.induct) auto

lemma wrap_chars_fine:
  "ascii (word @ cs) \<Longrightarrow> length word < WORD_MAX \<Longrightarrow> - (2 ^ 30) \<le> x \<Longrightarrow> x + 8 * int (length word + length cs + 1) \<le> 2 ^ 30
   \<Longrightarrow> - (2 ^ 30) \<le> x0 \<Longrightarrow> x0 + 8 * int (length word + length cs + 1) \<le> 2 ^ 30
   \<Longrightarrow> - (2 ^ 30) \<le> y \<Longrightarrow> y + 10 * int (length cs + 1) \<le> 2 ^ 30
   \<Longrightarrow> fine (fst (wrap_chars x0 max_w fg x y word cs)) \<and> y \<le> snd (wrap_chars x0 max_w fg x y word cs)
       \<and> snd (wrap_chars x0 max_w fg x y word cs) \<le> y + 10 * int (length cs + 1)"
proof (induction cs arbitrary: x y word)
  case Nil
  then show ?case by (auto simp: wrap_flush_def Let_def near_def FONT_H_def WORD_MAX_def)
next
  case (Cons c cs)
  show ?case
  proof (cases "c = 32 \<or> length word = WORD_MAX - 1")
    case F: True
    obtain ds x' y' where f: "wrap_flush x0 max_w fg x y word = (ds, x', y')" by (cases "wrap_flush x0 max_w fg x y word")
    have "fine ds" "- (2 ^ 30) \<le> x'" "x' + 8 * int (length cs + 1) \<le> 2 ^ 30" "y \<le> y'" "y' \<le> y + 10"
      using f Cons.prems by (auto simp: wrap_flush_def Let_def near_def FONT_H_def FONT_W_def WORD_MAX_def split: if_splits)
    moreover from this have "fine (fst (wrap_chars x0 max_w fg x' y' [] cs)) \<and> y' \<le> snd (wrap_chars x0 max_w fg x' y' [] cs)
       \<and> snd (wrap_chars x0 max_w fg x' y' [] cs) \<le> y' + 10 * int (length cs + 1)"
      using Cons.prems by (intro Cons.IH) (auto simp: WORD_MAX_def)
    ultimately show ?thesis using F f by (auto split: prod.split)
  next
    case False
    then have "length (word @ [c]) < WORD_MAX" using Cons.prems(2) by auto
    then have "fine (fst (wrap_chars x0 max_w fg x y (word @ [c]) cs)) \<and> y \<le> snd (wrap_chars x0 max_w fg x y (word @ [c]) cs)
         \<and> snd (wrap_chars x0 max_w fg x y (word @ [c]) cs) \<le> y + 10 * int (length cs + 1)"
      using Cons.prems by (intro Cons.IH) auto
    then show ?thesis using False by auto
  qed
qed

lemma br_wrap_fine:
  assumes "ascii s" "length s \<le> 2 ^ 14" "- (2 ^ 24) \<le> x" "x \<le> 2 ^ 24" "- (2 ^ 24) \<le> y" "y \<le> 2 ^ 24"
  shows "fine (fst (br_wrap_text x y max_w s fg))" "y \<le> snd (br_wrap_text x y max_w s fg)"
    "snd (br_wrap_text x y max_w s fg) \<le> y + 10 * int (length s + 1)"
  using wrap_chars_fine [of "[]" s x x y max_w fg] assms by (simp_all add: br_wrap_text_def WORD_MAX_def)

text \<open>The area that a page is drawn on.\<close>

definition area :: "int \<Rightarrow> int \<Rightarrow> int \<Rightarrow> int \<Rightarrow> bool" where
  "area cx py cw ph \<longleftrightarrow> 0 \<le> cx \<and> cx \<le> 2 ^ 22 \<and> 0 \<le> py \<and> py \<le> 2 ^ 22 \<and> - (2 ^ 22) \<le> cw \<and> cw \<le> 2 ^ 22 \<and> - (2 ^ 22) \<le> ph \<and> ph \<le> 2 ^ 22"

lemma areaD:
  assumes "area cx py cw ph"
  shows "0 \<le> cx" "cx \<le> 4194304" "0 \<le> py" "py \<le> 4194304" "- 4194304 \<le> cw" "cw \<le> 4194304" "- 4194304 \<le> ph" "ph \<le> 4194304"
  using assms by (simp_all add: area_def)

lemma site_name_ok: "br_ok b \<Longrightarrow> ascii (br_site_name b) \<Longrightarrow> \<exists>t. c_text (br_site_name b) = Some t \<and> ascii t \<and> length t \<le> 87"
  using cstr_ascii [of "br_site_name b"] cstr_end [of "br_site_name b"]
  by (auto simp: br_ok_def c_text_terminated TERM_LINE_MAX_def)

lemma browser_web_fine:
  assumes ok: "br_ok b" and leg: "ascii (br_site_name b)" "ascii (br_web b)" and ar: "area cx py cw ph"
  shows "\<exists>ds. browser_web cx py cw b = Some ds \<and> fine ds"
proof -
  note a = areaD [OF ar]
  obtain site where s: "c_text (br_site_name b) = Some site" "ascii site" "length site \<le> 87" using site_name_ok [OF ok leg(1)] by blast
  obtain buf t where t: "in_buf BANNER_MAX (web_banner b site) = Some buf" "c_text buf = Some t" "length t \<le> length (web_banner b site)" "ascii t"
    by (rule in_buf_text [OF web_banner_fits [OF s(3,2)]])
  have tl: "length t \<le> 112" using t(3) web_banner_fits(1) [OF s(3,2), of b] by (simp add: BANNER_MAX_def TERM_LINE_MAX_def)
  have head: "fine [Text (cx + 16) (py + 10) t 0x00808080, Fill (cx + 16) (py + 10 + FONT_H + 6) (cw - 32) 1 0x00E8EBF0]"
    using a t(4) tl by (simp add: near_def FONT_H_def)
  have web: "length (br_web b) = 8192" "br_web_len b \<le> 8192" using ok by (simp_all add: br_ok_def BR_WEB_MAX_def)
  define page where "page = take (br_web_len b) (br_web b)"
  have pg: "rd_range (br_web b) 0 (br_web_len b) = Some page" using web by (simp add: rd_range_Some page_def)
  define strip where "strip = strip_html BR_WEB_MAX False False True 0 page"
  have "length strip < BR_WEB_MAX" "ascii strip"
    using strip_html_fits [of 0 BR_WEB_MAX] strip_html_ascii [of page] leg(2) by (simp_all add: strip_def BR_WEB_MAX_def page_def ascii_take)
  then obtain buf2 t2 where t2: "in_buf BR_WEB_MAX strip = Some buf2" "c_text buf2 = Some t2" "length t2 \<le> length strip" "ascii t2"
    by (rule in_buf_text)
  have l2: "length t2 \<le> 2 ^ 14" using t2(3) \<open>length strip < BR_WEB_MAX\<close> by (simp add: BR_WEB_MAX_def)
  have w: "fine (fst (br_wrap_text (cx + 16) (py + 42) (cw - 32) t2 0x00333333))" using a by (intro br_wrap_fine t2(4) l2) simp_all
  show ?thesis
  proof (cases "br_web_state b")
    case BR_WEB_BUSY
    then show ?thesis using s(1) t(1,2) head a unfolding browser_web_def
      by (simp add: label_def ascii_lit near_def)
  next
    case BR_WEB_ERR
    then have "terminated (br_web b)" using ok by (simp add: br_ok_def)
    moreover have "ascii (cstr (br_web b))" "length (cstr (br_web b)) \<le> 8192" using cstr_ascii [of "br_web b"] leg(2) web(1) by simp_all
    ultimately show ?thesis using BR_WEB_ERR s(1) t(1,2) head a unfolding browser_web_def
      by (simp add: c_text_terminated near_def)
  next
    case BR_WEB_IDLE
    then show ?thesis using s(1) t(1,2) head pg t2(1,2) w unfolding browser_web_def strip_def by simp
  next
    case BR_WEB_OK
    then show ?thesis using s(1) t(1,2) head pg t2(1,2) w unfolding browser_web_def strip_def by simp
  qed
qed

lemma site_para_plain: "\<forall>s \<in> set site_para. ascii (lit s) \<and> length s \<le> 100" "length site_para \<le> 10"
  by (simp_all add: site_para_def ascii_lit)

lemma browser_site_fine:
  assumes ok: "br_ok b" and leg: "ascii (br_site_name b)" "ascii (br_web b)" and ar: "area cx py cw ph"
  shows "\<exists>ds. browser_site cx py cw ph b = Some ds \<and> fine ds"
proof -
  note a = areaD [OF ar]
  have bg: "draw_ok (Fill cx py cw ph 0x00FFFFFF)" using a by (simp add: near_def)
  obtain site where s: "c_text (br_site_name b) = Some site" "ascii site" "length site \<le> 87" using site_name_ok [OF ok leg(1)] by blast
  obtain web where web: "browser_web cx py cw b = Some web" "fine web" using browser_web_fine [OF ok leg ar] by blast
  let ?w = "int (length site) * FONT_W * 2"
  have w: "0 \<le> ?w" "?w \<le> 2000" using s(3) by (simp_all add: FONT_W_def)
  then have w2: "- 2000 \<le> ?w sdiv 2" "?w sdiv 2 \<le> 2000" using sdiv_within [of 2000 ?w 2] by simp_all
  have d: "- 5000000 \<le> (cw - ?w) sdiv 2" "(cw - ?w) sdiv 2 \<le> 5000000" "- 5000000 \<le> (cw - ?w sdiv 2) sdiv 2" "(cw - ?w sdiv 2) sdiv 2 \<le> 5000000"
    using a w w2 by (intro sdiv_within; linarith)+
  have "fine (map (\<lambda>(i, s). label (cx + 16) (py + 44 + 12 + FONT_H + 20 + int i * (FONT_H + 4)) s 0x00404448) (enumerate 0 site_para))"
  proof (rule fine_map, clarify)
    fix i p assume "(i, p) \<in> set (enumerate 0 site_para)"
    then have "i < length site_para" "p \<in> set site_para" by (auto simp: in_set_enumerate_eq)
    then have "int i \<le> 10" "ascii (lit p)" "length p \<le> 100" using site_para_plain by auto
    then show "draw_ok (label (cx + 16) (py + 44 + 12 + FONT_H + 20 + int i * (FONT_H + 4)) p 0x00404448)"
      using a by (simp add: label_def near_def FONT_H_def)
  qed
  then show ?thesis using bg web s(1,2,3) a d
    unfolding browser_site_def Let_def
    by (auto simp: label_def ascii_lit near_def FONT_H_def)
qed

lemma search_rows_fine:
  assumes "\<forall>(t, u, s) \<in> set rs. plain t \<and> plain u \<and> plain s" "0 \<le> cx" "cx \<le> 2 ^ 22" "- (2 ^ 22) \<le> cw" "cw \<le> 2 ^ 22"
  shows "0 \<le> y \<Longrightarrow> y + 2 ^ 14 * int (length rs) \<le> 2 ^ 23 \<Longrightarrow> fine (fst (search_rows cx cw bottom rs y)) \<and> snd (search_rows cx cw bottom rs y) \<le> 2 ^ 23"
  using assms(1)
proof (induction rs arbitrary: y)
  case (Cons r rs)
  obtain t u s where r: "r = (t, u, s)" by (cases r)
  have p: "ascii (lit t)" "ascii (lit u)" "ascii (lit s)" "length t \<le> 1024" "length u \<le> 1024" "length s \<le> 1024" using Cons.prems(3) r by (auto simp: plain_def)
  show ?case
  proof (cases "y + FONT_H * 3 > bottom")
    case False
    obtain ds y2 where w: "br_wrap_text (cx + 20) (y + 2 * (FONT_H + 2)) (cw - 40) (lit s) 0x0056514D = (ds, y2)"
      by (cases "br_wrap_text (cx + 20) (y + 2 * (FONT_H + 2)) (cw - 40) (lit s) 0x0056514D")
    have "fine ds" "y + 20 \<le> y2" "y2 \<le> y + 20 + 10 * 1025"
      using br_wrap_fine [of "lit s" "cx + 20" "y + 2 * (FONT_H + 2)" "cw - 40" "0x0056514D"] w p(3,6) assms(2,3) Cons.prems(1,2) by (auto simp: FONT_H_def)
    moreover from this have "fine (fst (search_rows cx cw bottom rs (y2 + 14 + 10))) \<and> snd (search_rows cx cw bottom rs (y2 + 14 + 10)) \<le> 2 ^ 23"
      using Cons.prems by (intro Cons.IH) auto
    moreover obtain rest y3 where "search_rows cx cw bottom rs (y2 + 14 + 10) = (rest, y3)" by (cases "search_rows cx cw bottom rs (y2 + 14 + 10)")
    ultimately show ?thesis using False r w p assms(2-5) Cons.prems(1,2) by (auto simp: label_def near_def FONT_H_def)
  qed (use Cons.prems r in auto)
qed auto

lemma search_results_plain: "\<forall>(t, u, s) \<in> set search_results. plain t \<and> plain u \<and> plain s" "length search_results = 4"
  by (simp_all add: search_results_def plain_def ascii_lit)

lemma browser_search_fine:
  assumes ok: "br_ok b" and leg: "ascii (br_site_name b)" and ar: "area cx py cw ph"
  shows "\<exists>ds. browser_search cx py cw ph b = Some ds \<and> fine ds"
proof -
  note a = areaD [OF ar]
  obtain q where q: "c_text (br_site_name b) = Some q" "ascii q" "length q \<le> 87" using site_name_ok [OF ok leg] by blast
  define h where "h = push_text (TERM_LINE_MAX + 16) q (push_text (TERM_LINE_MAX + 16) (lit ''Results for \"'') []) @ [34]"
  have "length h < TERM_LINE_MAX + 16" "ascii h" using q(2,3) by (simp_all add: h_def length_push_text TERM_LINE_MAX_def ascii_lit)
  then obtain buf t where t: "in_buf (TERM_LINE_MAX + 16) h = Some buf" "c_text buf = Some t" "length t \<le> length h" "ascii t" by (rule in_buf_text)
  have tl: "length t \<le> 2 ^ 20" using t(3) \<open>length h < TERM_LINE_MAX + 16\<close> by (simp add: TERM_LINE_MAX_def)
  obtain ds y2 where d: "search_rows cx cw (py + ph) search_results (py + 14 + FONT_H + 10 + 10) = (ds, y2)"
    by (cases "search_rows cx cw (py + ph) search_results (py + 14 + FONT_H + 10 + 10)")
  have "fine ds" using search_rows_fine [OF search_results_plain(1), of cx cw "py + 14 + FONT_H + 10 + 10" "py + ph"] d a search_results_plain(2)
    by (simp add: FONT_H_def)
  then show ?thesis using q(1) t(1) [unfolded h_def] t(2,4) tl d a unfolding browser_search_def Let_def
    by (auto simp: label_def ascii_lit near_def FONT_H_def)
qed

lemma day_of_week_ok: "1 \<le> m \<Longrightarrow> m \<le> 12 \<Longrightarrow> \<exists>w. day_of_week y m d = Some w"
  by (simp add: day_of_week_def month_offsets_def rd_def Let_def)

lemma long_date_length: "now_ok dt \<Longrightarrow> length (long_date dt dow) < 32"
proof -
  assume "now_ok dt"
  then have "length (put_digits (dt_day dt) 2) \<le> 3" "length (put_digits (dt_year dt) 4) \<le> 5"
    using put_digits_range [of "dt_day dt" 3 2] put_digits_range [of "dt_year dt" 5 4] by (simp_all add: now_ok_def)
  moreover have "dow = 0 \<or> dow = 1 \<or> dow = 2 \<or> dow = 3 \<or> dow = 4 \<or> dow = 5 \<or> dow = 6" if "0 \<le> dow" "dow \<le> 6" using that by presburger
  ultimately show ?thesis using months_texts(2) [of "dt_month dt"] by (auto simp: long_date_def g_days_full_def)
qed

lemma no_time_ok: "now_ok no_time"
  by (simp add: now_ok_def no_time_def)

lemma browser_home_fine:
  assumes now: "clock_ok now" and ar: "area cx py cw ph"
  shows "\<exists>ds. browser_home now cx py cw ph = Some ds \<and> fine ds"
proof (cases "cw < 320 \<or> ph < 220")
  case True
  then show ?thesis using areaD [OF ar] by (auto simp: browser_home_def near_def)
next
  case False
  note a = areaD [OF ar]
  obtain dt dow where dt: "build_ist_datetime now = Some (dt, dow)" "now_ok dt"
  proof (cases now)
    case None
    then show ?thesis using that no_time_ok by (simp add: build_ist_datetime_def)
  next
    case (Some t)
    then have "now_ok t" "1 \<le> dt_month t" "dt_month t \<le> 12" using now by (simp_all add: clock_ok_def)
    moreover obtain k where "day_of_week (dt_year t) (dt_month t) (dt_day t) = Some k" using day_of_week_ok calculation(2,3) by blast
    ultimately show ?thesis using that Some by (simp add: build_ist_datetime_def)
  qed
  have "length (time_text dt) < 24" using time_text_range [OF dt(2)] by simp
  then obtain b1 t1 where t1: "in_buf 24 (time_text dt) = Some b1" "c_text b1 = Some t1" "length t1 \<le> length (time_text dt)" "ascii t1"
    using in_buf_text [OF _ clock_ascii(1)] by metis
  obtain b2 t2 where t2: "in_buf 32 (long_date dt dow) = Some b2" "c_text b2 = Some t2" "length t2 \<le> length (long_date dt dow)" "ascii t2"
    by (rule in_buf_text [OF long_date_length [OF dt(2)] clock_ascii(3)])
  have l: "int (length t1) \<le> 40" "int (length t2) \<le> 40" "length t1 \<le> 1048576" "length t2 \<le> 1048576"
    using t1(3) t2(3) time_text_range [OF dt(2)] long_date_length [OF dt(2), of dow] by linarith+
  define sw where "sw = max 120 (if cw < 560 then cw - 80 else 480)"
  define pw where "pw = min 400 (cw - 60)"
  have w: "120 \<le> sw" "sw \<le> 480" "260 \<le> pw" "pw \<le> 400" using False by (auto simp: sw_def pw_def)
  have d: "- 5000000 \<le> (cw - v) sdiv 2" "(cw - v) sdiv 2 \<le> 5000000" if "- 1000 \<le> v" "v \<le> 1000" for v
    using a that by (intro sdiv_within; linarith)+
  have e: "- 5000000 \<le> (pw - v) sdiv 2" "(pw - v) sdiv 2 \<le> 5000000" if "- 1000 \<le> v" "v \<le> 1000" for v
    using w that by (intro sdiv_within; linarith)+
  show ?thesis
    using False a dt(1) t1(1,2,4) t2(1,2,4) l w d [of 96] d [of 240] d [of sw] d [of pw] e [of 208] e [of "int (length t1) * FONT_W * 2"] e [of "int (length t2) * FONT_W"]
    unfolding browser_home_def Let_def sw_def [symmetric] pw_def [symmetric]
    by (simp add: label_def ascii_lit near_def FONT_H_def FONT_W_def text_w_def)
qed

lemma addr_from_range: "ln_cur (br_input b) \<le> ln_len (br_input b) \<Longrightarrow> 1 \<le> n \<Longrightarrow> 0 \<le> addr_from b n \<and> addr_from b n \<le> int (ln_len (br_input b))"
  by (simp add: addr_from_def Let_def)

lemma browser_render_fine:
  assumes pl: "placed w" and ok: "br_ok (w_br w)" and now: "clock_ok now"
    and leg: "ascii (ln_buf (br_input (w_br w)))" "ascii (br_site_name (w_br w))" "ascii (br_title (w_br w))" "ascii (br_web (w_br w))"
    and t: "title_text d w = Some t" "ascii t" "length t \<le> 2 ^ 10"
  shows "\<exists>ds. browser_render now d w active = Some ds \<and> fine ds"
proof -
  note p = placedD [OF pl]
  define b where "b = w_br w"
  have line: "line_ok (br_input b)" "length (br_title b) = 88" "terminated (br_title b)" using ok by (simp_all add: b_def br_ok_def TERM_LINE_MAX_def)
  have ln: "length (ln_buf (br_input b)) = 88" "ln_len (br_input b) < 88" "ln_cur (br_input b) \<le> ln_len (br_input b)"
    using line(1) by (simp_all add: line_ok_def TERM_LINE_MAX_def)
  have ti: "ascii (br_title b)" using leg(3) by (simp add: b_def)
  obtain tab where tab: "(if br_title b ! 0 \<noteq> 0 then c_text (br_title b) else title_text d w) = Some tab" "ascii tab" "length tab \<le> 2 ^ 20"
    using c_text_terminated [OF line(3)] cstr_ascii [of "br_title b"] ti line(2) t by (cases "br_title b ! 0 = 0") auto
  define cx where "cx = w_x w + 1"
  define cy where "cy = w_y w + 1 + TITLE_H"
  define cw where "cw = w_w w - 2"
  define pph where "pph = cy + (w_h w - 2 - TITLE_H) - (cy + 30 + 34)"
  define nfit where "nfit = max 1 ((cw - 20 * 2 - 56 - 16) sdiv FONT_W)"
  have nfit: "1 \<le> nfit" by (simp add: nfit_def)
  define start where "start = addr_from b nfit"
  have st: "0 \<le> start" "start \<le> int (ln_len (br_input b))" using addr_from_range [OF ln(3) nfit] by (simp_all add: start_def)
  define n where "n = min (nat (int (ln_len (br_input b)) - start)) (nat nfit)"
  have n: "nat start + n \<le> length (ln_buf (br_input b))" "n \<le> 88" using st ln by (auto simp: n_def)
  define typed where "typed = (if ln_len (br_input b) = 0 then [] else take n (drop (nat start) (ln_buf (br_input b))))"
  have ty: "(if ln_len (br_input b) = 0 then Some [] else rd_range (ln_buf (br_input b)) (nat start) n) = Some typed"
    "ascii typed" "int (length typed) \<le> 88"
    using n leg(1) by (auto simp: typed_def rd_range_Some b_def ascii_take)
  have g: "0 \<le> cx" "cx \<le> 1048577" "0 \<le> cy" "cy \<le> 1048603" "198 \<le> cw" "cw \<le> 1048574" "- 64 \<le> pph" "pph \<le> 1048576"
    using p by (simp_all add: cx_def cy_def cw_def pph_def TITLE_H_def)
  have ar: "area cx (cy + 30 + 34) cw pph" using g by (simp add: area_def)
  obtain page where page: "(case br_page b of BR_PAGE_SITE \<Rightarrow> browser_site cx (cy + 30 + 34) cw pph b
      | BR_PAGE_SEARCH \<Rightarrow> browser_search cx (cy + 30 + 34) cw pph b | BR_PAGE_HOME \<Rightarrow> browser_home now cx (cy + 30 + 34) cw pph) = Some page" "fine page"
    using browser_site_fine [OF ok leg(2,4) ar] browser_search_fine [OF ok leg(2) ar] browser_home_fine [OF now ar]
    by (cases "br_page b") (auto simp: b_def)
  have run: "fine (glyph_run (cx + 20 + 56 + 8) (cy + 30 + (24 - FONT_H) div 2 + 5) typed 0x001B2A4A)"
    using g ty(2,3) by (intro glyph_run_fine) (simp_all add: close_def near_def FONT_H_def)
  have rd0: "rd (br_title b) 0 = Some (br_title b ! 0)" using line(2) by (simp add: rd_Some)
  have cur: "0 \<le> int (ln_cur (br_input b))" "int (ln_cur (br_input b)) \<le> 88" "start \<le> 88" using ln st by simp_all
  show ?thesis
    using tab run page(2) g ty(1,3) p cur st(1) nfit
    unfolding browser_render_def Let_def b_def [symmetric] cx_def [symmetric] cy_def [symmetric] cw_def [symmetric]
    unfolding pph_def [symmetric] nfit_def [symmetric]
    unfolding start_def [symmetric]
    unfolding n_def [symmetric]
    by (simp add: rd0 page(1) near_def FONT_H_def FONT_W_def TITLE_H_def label_def ascii_lit)
qed

section \<open>The notepad\<close>

lemma row_text_terminated: "terminated s \<Longrightarrow> \<exists>t. row_text n s = Some t \<and> length t \<le> n \<and> (ascii s \<longrightarrow> ascii t)"
proof (induction n s rule: row_text.induct)
  case (3 n c s)
  then show ?case by (cases "c = 0") (auto simp: terminated_def)
qed (auto simp: terminated_def)

lemma length_dec_rev: "n < 10 ^ k \<Longrightarrow> 0 < k \<Longrightarrow> length (dec_rev n) \<le> k"
proof (induction n arbitrary: k rule: dec_rev.induct)
  case (1 n)
  show ?case
  proof (cases "n < 10")
    case True
    then show ?thesis using 1(3) by (simp add: dec_rev.simps [of n])
  next
    case False
    then obtain j where k: "k = Suc j" "0 < j" using 1(2,3) by (cases k; cases "k - 1") auto
    have "n div 10 < 10 ^ j" using 1(2) k by (simp add: div_less_iff_less_mult mult.commute)
    then have "length (dec_rev (n div 10)) \<le> j" using 1(1) [OF False _ k(2)] by blast
    then show ?thesis using False k by (simp add: dec_rev.simps [of n])
  qed
qed

lemma dec_text_fits: "n < 10 ^ k \<Longrightarrow> 0 < k \<Longrightarrow> length (dec_text n) \<le> k"
  by (simp add: dec_text_def length_dec_rev)

lemma dec_rev_ascii: "ascii (dec_rev n)"
proof (induction n rule: dec_rev.induct)
  case (1 n)
  show ?case
  proof (cases "n < 10")
    case True
    then show ?thesis using digit_ascii [of n] by (simp add: dec_rev.simps [of n] del: of_nat_add)
  next
    case False
    then show ?thesis using digit_ascii [of n] 1 by (simp add: dec_rev.simps [of n] del: of_nat_add)
  qed
qed

lemma dec_text_ascii [simp]: "ascii (dec_text n)"
  by (simp add: dec_text_def dec_rev_ascii)

text \<open>The toolbar never shows a title: whatever the file, it is empty, or a star when the text is modified.\<close>

lemma np_toolbar_title_lost:
  assumes "np_ok n"
  shows "np_toolbar_title n = Some (if np_dirty n then lit ''* '' else [])"
proof -
  define src where "src = (if np_title n ! 0 \<noteq> 0 then np_title n else if np_fname n ! 0 \<noteq> 0 then np_fname n else lit ''Untitled'' @ [0])"
  have "terminated src" using assms by (auto simp: src_def np_ok_def terminated_def)
  then obtain t where t: "row_text NOTEPAD_MAX_FNAME src = Some t" "length t \<le> NOTEPAD_MAX_FNAME" using row_text_terminated by blast
  define ys where "ys = (if np_dirty n then lit ''* '' else [])"
  have ys: "0 \<notin> set ys" "ascii ys" "length ys \<le> 2" by (simp_all add: ys_def lit_chars ascii_lit)
  have y: "(if np_dirty n then lit ''* '' @ [0] else [0]) = ys @ [0]" by (simp add: ys_def)
  define buf where "buf = (t @ [0]) @ replicate (NOTEPAD_MAX_FNAME + 4 - length (t @ [0])) 0"
  have bl: "0 + length (ys @ [0]) \<le> length buf" using ys(3) t(2) by (simp add: buf_def NOTEPAD_MAX_FNAME_def)
  define z where "z = drop (0 + length (ys @ [0])) buf"
  have "takeWhile (\<lambda>c. c \<noteq> 0) (ys @ 0 # z) = ys" using cstr_append [OF ys(1), of z] by (simp add: cstr_def)
  then have c: "c_text (take 0 buf @ (ys @ [0]) @ z) = Some ys" by (simp add: c_text_def)
  have r: "rd (np_title n) 0 = Some (np_title n ! 0)" "rd (np_fname n) 0 = Some (np_fname n ! 0)"
    using assms by (simp_all add: rd_Some np_ok_def NOTEPAD_MAX_FNAME_def)
  have i: "in_buf (NOTEPAD_MAX_FNAME + 4) t = Some (t @ [0])" using t(2) by (simp add: in_buf_def)
  have "np_toolbar_title n = do { buf \<leftarrow> wr_range buf 0 (ys @ [0]); c_text buf }"
    unfolding np_toolbar_title_def r Let_def bind.simps option.simps src_def [symmetric] t(1) i y buf_def Option.bind.bind_lunit ..
  then show ?thesis using wr_range_Some [OF bl] c by (simp add: z_def ys_def)
qed

lemma np_render_chrome_fine:
  assumes pl: "placed w" and ok: "np_ok (w_np w)" and leg: "ascii (np_save_as_buf (w_np w))"
  shows "\<exists>ds. np_render_chrome w active = Some ds \<and> fine ds"
proof -
  note p = placedD [OF pl]
  define n where "n = w_np w"
  obtain t where t: "(if np_save_as n
      then do { name \<leftarrow> row_text NOTEPAD_MAX_FNAME (np_save_as_buf n);
                t \<leftarrow> in_buf (NOTEPAD_MAX_FNAME + 8) (push_text (NOTEPAD_MAX_FNAME + 7) name (lit ''Save As: ''));
                c_text t }
      else np_toolbar_title n) = Some t" "ascii t" "length t \<le> 1000"
  proof (cases "np_save_as n")
    case True
    have "terminated (np_save_as_buf n)" using ok by (simp add: n_def np_ok_def)
    then obtain name where name: "row_text NOTEPAD_MAX_FNAME (np_save_as_buf n) = Some name" "ascii name"
      using row_text_terminated leg unfolding n_def by blast
    define s where "s = push_text (NOTEPAD_MAX_FNAME + 7) name (lit ''Save As: '')"
    have "length s < NOTEPAD_MAX_FNAME + 8" "ascii s" using name(2) by (simp_all add: s_def length_push_text NOTEPAD_MAX_FNAME_def ascii_lit)
    then obtain b t where "in_buf (NOTEPAD_MAX_FNAME + 8) s = Some b" "c_text b = Some t" "length t \<le> length s" "ascii t" by (rule in_buf_text)
    then show ?thesis using that [of t] True name(1) \<open>length s < NOTEPAD_MAX_FNAME + 8\<close> by (simp add: s_def NOTEPAD_MAX_FNAME_def)
  next
    case False
    then show ?thesis using that [of "if np_dirty n then lit ''* '' else []"] np_toolbar_title_lost [OF ok] by (simp add: n_def ascii_lit)
  qed
  show ?thesis
    unfolding np_render_chrome_def Let_def n_def [symmetric] t(1) bind.bind_lunit
    using p t(2,3) by (simp add: near_def geometry NOTEPAD_BAR_H_def NP_W_def NP_H_def NP_GAP_def label_def ascii_lit)
qed

lemma line_end_range: "i + n \<le> length t \<Longrightarrow> \<exists>e. line_end t i n = Some e \<and> i \<le> e \<and> e \<le> i + n"
proof (induction n arbitrary: i)
  case (Suc n)
  obtain e where "line_end t (i + 1) n = Some e" "i + 1 \<le> e" "e \<le> i + 1 + n" using Suc.IH [of "i + 1"] Suc.prems by auto
  then show ?case using Suc.prems by (auto simp: rd_Some)
qed simp

lemma row_start_range: "len \<le> length t \<Longrightarrow> i \<le> len \<Longrightarrow> \<exists>j. row_start t len i r = Some j \<and> j \<le> len"
proof (induction r arbitrary: i)
  case (Suc r)
  show ?case
  proof (cases "i < len")
    case True
    obtain e where e: "line_end t i (len - i) = Some e" "i \<le> e" "e \<le> i + (len - i)" using line_end_range [of i "len - i" t] Suc.prems True by auto
    then show ?thesis using Suc.IH [of "if e < len then e + 1 else e"] Suc.prems True by auto
  qed (use Suc.prems in auto)
qed simp

lemma np_lines_fine:
  assumes "len \<le> length t" "ascii t" "close tx" "0 \<le> bx" "bx \<le> 2 ^ 22" "cols \<le> 2 ^ 20"
  shows "num + n < 10 ^ 7 \<Longrightarrow> 0 \<le> ty \<Longrightarrow> ty + 12 * int n \<le> 2 ^ 40 \<Longrightarrow> \<exists>ds. np_lines t len cols num n i bx tx ty = Some ds \<and> fine ds"
proof (induction n arbitrary: num i ty)
  case (Suc n)
  show ?case
  proof (cases "i < len")
    case True
    obtain e where e: "line_end t i (len - i) = Some e" "i \<le> e" "e \<le> i + (len - i)" using line_end_range [of i "len - i" t] assms(1) True by auto
    have "length (dec_text num) < 8" using dec_text_fits [of num 7] Suc.prems(1) by simp
    then obtain b dg where d: "in_buf 8 (dec_text num) = Some b" "c_text b = Some dg" "length dg \<le> length (dec_text num)" "ascii dg"
      using in_buf_text [OF _ dec_text_ascii] by metis
    have rr: "i + min (e - i) cols \<le> length t" using e True assms(1) by simp
    define cells where "cells = take (min (e - i) cols) (drop i t)"
    have run: "fine (glyph_run tx ty cells NOTEPAD_TEXT)"
      using assms Suc.prems by (intro glyph_run_fine) (auto simp: near_def cells_def ascii_take)
    obtain rest where rest: "np_lines t len cols (num + 1) n (e + 1) bx tx (ty + NOTEPAD_ROW_H) = Some rest" "fine rest"
      using Suc.IH [of "num + 1" "ty + NOTEPAD_ROW_H" "e + 1"] Suc.prems by (auto simp: NOTEPAD_ROW_H_def)
    have "draw_ok (Text (bx + 4) ty dg NOTEPAD_LINE_NUM)" using assms(4,5) Suc.prems(2,3) d(3,4) \<open>length (dec_text num) < 8\<close> by (simp add: near_def)
    then show ?thesis using True e(1) d(1,2) rd_range_Some [OF rr] rest run by (simp add: cells_def)
  qed simp
qed simp

lemma newlines_range: "i + n \<le> length t \<Longrightarrow> \<exists>r. newlines t i n row = Some r \<and> r \<le> row + n"
proof (induction n arbitrary: i row)
  case (Suc n)
  obtain r where "newlines t (i + 1) n (if t ! i = 10 then row + 1 else row) = Some r" "r \<le> (if t ! i = 10 then row + 1 else row) + n"
    using Suc.IH [of "i + 1" "if t ! i = 10 then row + 1 else row"] Suc.prems by auto
  then show ?case using Suc.prems by (auto simp: rd_Some split: if_splits)
qed simp

lemma col_back_range: "i \<le> length t \<Longrightarrow> \<exists>c. col_back t i col = Some c \<and> c \<le> col + i"
proof (induction i arbitrary: col)
  case (Suc i)
  obtain c where "col_back t i (col + 1) = Some c" "c \<le> col + 1 + i" using Suc.IH [of "col + 1"] Suc.prems by auto
  then show ?case using Suc.prems by (auto simp: rd_Some)
qed simp

lemma np_render_fine:
  assumes pl: "placed w" and ok: "np_ok (w_np w)" and leg: "ascii (np_text (w_np w))" "ascii (np_save_as_buf (w_np w))"
  shows "\<exists>ds. np_render d w active = Some ds \<and> fine ds"
proof -
  note p = placedD [OF pl]
  define n where "n = w_np w"
  have len: "length (np_text n) = 8192" "np_len n < 8192" "np_cursor n \<le> np_len n"
    using ok by (simp_all add: n_def np_ok_def NOTEPAD_MAX_TEXT_def)
  obtain chrome where ch: "np_render_chrome w active = Some chrome" "fine chrome" using np_render_chrome_fine [OF pl ok leg(2)] by blast
  obtain cur where cur: "np_cursor_row n = Some cur" "cur \<le> 8192"
    using newlines_range [of 0 "min (np_cursor n) (np_len n)" "np_text n" 0] len by (auto simp: np_cursor_row_def)
  obtain col where col: "np_cursor_col n = Some col" "col \<le> 8192"
    using col_back_range [of "np_cursor n" "np_text n" 0] len by (auto simp: np_cursor_col_def)
  define bh2 where "bh2 = w_h w - 2 - TITLE_H - NOTEPAD_BAR_H - NOTEPAD_STATUSBAR_H"
  define rows where "rows = max 2 (bh2 sdiv NOTEPAD_ROW_H)"
  define cols where "cols = max 8 ((w_w w - 2 - NOTEPAD_LINENUM_W - NOTEPAD_MARGIN * 2) sdiv FONT_W)"
  have b: "42 \<le> bh2" "bh2 \<le> 1048576" using p by (simp_all add: bh2_def TITLE_H_def NOTEPAD_BAR_H_def NOTEPAD_STATUSBAR_H_def)
  have r: "2 \<le> rows" "rows \<le> 1048576" using b sdiv_within [of 1048576 bh2 NOTEPAD_ROW_H] by (auto simp: rows_def)
  have "(w_w w - 2 - NOTEPAD_LINENUM_W - NOTEPAD_MARGIN * 2) sdiv FONT_W \<le> 1048576"
    using p by (intro sdiv_within) (simp_all add: NOTEPAD_LINENUM_W_def NOTEPAD_MARGIN_def)
  then have c: "8 \<le> cols" "cols \<le> 1048576" by (auto simp: cols_def)
  define first where "first = (if int cur \<ge> rows then nat (int cur - rows + 1) else 0)"
  have f: "first \<le> cur" using r by (auto simp: first_def)
  obtain i where i: "row_start (np_text n) (np_len n) 0 first = Some i" using row_start_range [of "np_len n" "np_text n" 0 first] len by auto
  have nr: "nat cols \<le> 1048576" "first + nat rows < 9999999" using c r f cur(2) by linarith+
  define bx where "bx = w_x w + 1"
  define by' where "by' = w_y w + 1 + TITLE_H + NOTEPAD_BAR_H"
  define tx where "tx = bx + NOTEPAD_LINENUM_W + NOTEPAD_MARGIN"
  have g: "0 \<le> bx" "bx \<le> 1048577" "0 \<le> by'" "by' \<le> 1048640" "0 \<le> tx" "tx \<le> 1048640"
    using p by (simp_all add: bx_def by'_def tx_def TITLE_H_def NOTEPAD_BAR_H_def NOTEPAD_LINENUM_W_def NOTEPAD_MARGIN_def)
  obtain ls where ls: "np_lines (np_text n) (np_len n) (nat cols) (first + 1) (nat rows) i bx tx (by' + 2) = Some ls" "fine ls"
    using np_lines_fine [of "np_len n" "np_text n" tx bx "nat cols" "first + 1" "nat rows" "by' + 2" i] leg(1) len g c r nr
    by (auto simp: close_def n_def)
  define st where "st = lit ''Ln '' @ dec_text (cur + 1) @ lit '', Col '' @ dec_text (col + 1)"
  have "length (dec_text (cur + 1)) \<le> 4" "length (dec_text (col + 1)) \<le> 4" using dec_text_fits [of _ 4] cur(2) col(2) by simp_all
  then have "length st < 48" "ascii st" by (simp_all add: st_def ascii_lit)
  then obtain buf t where t: "in_buf 48 st = Some buf" "c_text buf = Some t" "length t \<le> length st" "ascii t" by (rule in_buf_text)
  have tl: "length t \<le> 1048576" using t(3) \<open>length st < 48\<close> by simp
  have row: "- 1048576 \<le> int cur - int first" "int cur - int first \<le> 8192" "int col \<le> 8192" using f cur(2) col(2) by simp_all
  show ?thesis
    unfolding np_render_def Let_def n_def [symmetric] bh2_def [symmetric] bx_def [symmetric] by'_def [symmetric]
    unfolding rows_def [symmetric] cols_def [symmetric] tx_def [symmetric]
    unfolding ch(1) cur(1) col(1) bind.bind_lunit first_def [symmetric]
    unfolding i ls(1) bind.bind_lunit st_def [symmetric]
    unfolding t(1) bind.bind_lunit t(2)
    using ch(2) ls(2) g b c r row p t(4) tl
    by (simp add: near_def FONT_W_def FONT_H_def NOTEPAD_ROW_H_def NOTEPAD_STATUSBAR_H_def)
qed

section \<open>The file manager\<close>

lemma fm_entries_fine:
  assumes fs: "fs_ok fs" and leg: "\<forall>f \<in> set fs. ascii (ff_name f)" and g: "0 \<le> bx" "bx \<le> 2 ^ 22" "- (2 ^ 22) \<le> bw2" "bw2 \<le> 2 ^ 22"
  shows "0 \<le> ty \<Longrightarrow> ty + 10 * int n \<le> 2 ^ 30 \<Longrightarrow> \<exists>ds. fm_entries fs m bx bw2 i n ty = Some ds \<and> fine ds"
proof (induction n arbitrary: i ty)
  case (Suc n)
  let ?k = "fm_nth (fm_scroll m + i) fs"
  show ?case
  proof (cases "fm_scroll m + i < fm_count fs \<and> \<not> ?k < 0")
    case True
    then have k: "nat ?k < length fs" using fm_nth_range [OF fs, of "fm_scroll m + i"] by simp
    let ?f = "fs ! nat ?k"
    have f: "file_ok ?f" "ascii (ff_name ?f)" using fs leg k by (simp_all add: fs_ok_def)
    have name: "c_text (ff_name ?f) = Some (cstr (ff_name ?f))" "ascii (cstr (ff_name ?f))" "length (cstr (ff_name ?f)) \<le> 64"
      using f cstr_ascii [of "ff_name ?f"] by (simp_all add: file_ok_def c_text_terminated NOTEPAD_MAX_FNAME_def)
    define s where "s = lit '' ('' @ dec_text (ff_len ?f) @ lit ''B)''"
    have "length (dec_text (ff_len ?f)) \<le> 4" using dec_text_fits [of "ff_len ?f" 4] f(1) by (simp add: file_ok_def FS_MAX_FDATA_def)
    then have "length s < 16" "ascii s" by (simp_all add: s_def ascii_lit)
    then obtain b t where t: "in_buf 16 s = Some b" "c_text b = Some t" "length t \<le> length s" "ascii t" by (rule in_buf_text)
    have tl: "length t \<le> 1048576" "length (cstr (ff_name ?f)) \<le> 1048576" using t(3) \<open>length s < 16\<close> name(3) by simp_all
    obtain rest where rest: "fm_entries fs m bx bw2 (i + 1) n (ty + FONT_H + 2) = Some rest" "fine rest"
      using Suc.IH [of "ty + FONT_H + 2" "i + 1"] Suc.prems by (auto simp: FONT_H_def)
    have "fine ((if fm_sel m = fm_scroll m + i then [Fill (bx + 2) (ty - 1) (bw2 - 4) (FONT_H + 2) 0x00D0D8E0] else [])
        @ [Text (bx + 8) ty (cstr (ff_name ?f)) BODY_TEXT, Text (bx + 8 + bw2 - 80) ty t 0x00808080] @ rest)"
      using g Suc.prems name(2) t(4) tl rest(2) by (simp add: near_def FONT_H_def)
    moreover have "fm_entries fs m bx bw2 i (Suc n) ty = Some ((if fm_sel m = fm_scroll m + i then [Fill (bx + 2) (ty - 1) (bw2 - 4) (FONT_H + 2) 0x00D0D8E0] else [])
        @ [Text (bx + 8) ty (cstr (ff_name ?f)) BODY_TEXT, Text (bx + 8 + bw2 - 80) ty t 0x00808080] @ rest)"
      using True rd_Some [OF k] name(1) t(1) [unfolded s_def] t(2) rest(1) by (simp add: Let_def)
    ultimately show ?thesis by blast
  qed (auto simp: Let_def)
qed simp

lemma fm_dialog_fine:
  assumes pl: "placed w" and fs: "fs_ok fs" and leg: "\<forall>f \<in> set fs. ascii (ff_name f)"
  shows "\<exists>ds. fm_dialog fs w m = Some ds \<and> fine ds"
proof -
  note p = placedD [OF pl]
  have d: "- 5000000 \<le> (w_w w - 340) sdiv 2" "(w_w w - 340) sdiv 2 \<le> 5000000" "- 5000000 \<le> (w_h w - 120) sdiv 2" "(w_h w - 120) sdiv 2 \<le> 5000000"
    using p by (intro sdiv_within; linarith)+
  let ?k = "fm_nth (fm_confirm_idx m) fs" and ?dx = "w_x w + (w_w w - 340) sdiv 2" and ?dy = "w_y w + (w_h w - 120) sdiv 2"
  obtain ns where ns: "(if ?k \<ge> 0 then do { f \<leftarrow> rd fs (nat ?k); t \<leftarrow> c_text (ff_name f); Some [Text (?dx + 12) (?dy + 34) t 0x00404040] } else Some []) = Some ns" "fine ns"
  proof (cases "?k \<ge> 0")
    case True
    then have k: "nat ?k < length fs" using fm_nth_range [OF fs, of "fm_confirm_idx m"] by simp
    let ?f = "fs ! nat ?k"
    have f: "file_ok ?f" "ascii (ff_name ?f)" using fs leg k by (simp_all add: fs_ok_def)
    then have name: "c_text (ff_name ?f) = Some (cstr (ff_name ?f))" "ascii (cstr (ff_name ?f))" "length (cstr (ff_name ?f)) \<le> 64"
      using cstr_ascii [of "ff_name ?f"] by (simp_all add: file_ok_def c_text_terminated NOTEPAD_MAX_FNAME_def)
    then show ?thesis using that True rd_Some [OF k] p d by (simp add: near_def)
  qed (use that in simp)
  show ?thesis using ns(2) p d unfolding fm_dialog_def Let_def ns(1) bind.bind_lunit
    by (simp add: near_def geometry label_def ascii_lit)
qed

lemma fm_render_fine:
  assumes pl: "placed w" and fs: "fs_ok (dk_fs d)" and leg: "\<forall>f \<in> set (dk_fs d). ascii (ff_name f)"
    and t: "title_text d w = Some t" "ascii t" "length t \<le> 2 ^ 10"
  shows "\<exists>ds. fm_render d w active = Some ds \<and> fine ds"
proof -
  note p = placedD [OF pl]
  define m where "m = fm_view (fm_rows w) (fm_count (dk_fs d)) (w_fm w)"
  have r: "0 \<le> fm_rows w" "fm_rows w \<le> 1048576" using p sdiv_within(2) [of 1048576 "w_h w - 2 - TITLE_H" FONT_H] by (simp_all add: fm_rows_def TITLE_H_def)
  obtain es where es: "fm_entries (dk_fs d) m (w_x w + 1) (w_w w - 2) 0 (nat (fm_rows w)) (w_y w + 1 + TITLE_H + 4) = Some es" "fine es"
    using fm_entries_fine [OF fs leg, of "w_x w + 1" "w_w w - 2" "w_y w + 1 + TITLE_H + 4" "nat (fm_rows w)" m 0] p r by (auto simp: TITLE_H_def)
  obtain ds where ds: "(if fm_confirming m then fm_dialog (dk_fs d) w m else Some []) = Some ds" "fine ds"
    using fm_dialog_fine [OF pl fs leg] by (cases "fm_confirming m") auto
  have h: "- 1048576 \<le> (w_h w - 2 - TITLE_H) sdiv 2" "(w_h w - 2 - TITLE_H) sdiv 2 \<le> 1048576" using p by (intro sdiv_within; simp add: TITLE_H_def)+
  show ?thesis
    unfolding fm_render_def Let_def m_def [symmetric] t(1) es(1) ds(1) bind.bind_lunit
    using es(2) ds(2) p h t(2,3) by (simp add: near_def geometry label_def ascii_lit)
qed

section \<open>Windows\<close>

text \<open>The terminals that are drawn have no more rows than their scrollback: a higher one reads past it.\<close>

definition terms_fit :: "desk \<Rightarrow> bool" where
  "terms_fit d \<longleftrightarrow> (\<forall>w \<in> set (dk_wins d). visible_win w \<and> w_kind w = 1 \<longrightarrow> w_h w < 850)"

definition paintable :: "painter \<Rightarrow> desk \<Rightarrow> bool" where
  "paintable p d \<longleftrightarrow> font_ok (pt_font p) \<and> wall_ok (pt_wall p) \<and> clock_ok (pt_now p)
     \<and> desk_inv d \<and> desk_legible d \<and> terms_fit d"

lemma win_render_fine:
  assumes "desk_inv d" "desk_legible d" "clock_ok now" "terms_fit d" "i < length (dk_wins d)" "visible_win (dk_wins d ! i)"
  shows "\<exists>ds. win_render now d i = Some ds \<and> fine ds"
proof -
  define w where "w = dk_wins d ! i"
  have u: "w_used (dk_wins d ! i)" using assms(6) by (simp add: visible_win_def)
  have pl: "placed w" using win_placed [OF assms(1,5) u] by (simp add: w_def)
  have ok: "win_ok (int (dk_gw d)) (work_h d) w" "fs_ok (dk_fs d)" using desk_inv_win [OF assms(1,5)] assms(1) by (simp_all add: desk_inv_def w_def)
  have app: "app_ok w" "np_shape (w_np w)" using ok(1) u by (simp_all add: win_ok_def w_def)
  have leg: "win_legible w" "\<forall>f \<in> set (dk_fs d). ascii (ff_name f)" using assms(2,5) u by (simp_all add: desk_legible_def w_def)
  obtain t where t: "title_text d w = Some t" "ascii t" "length t \<le> 2 ^ 10" using title_text_ok [OF assms(1,2,5) u] by (auto simp: w_def)
  have h: "w_kind w = 1 \<Longrightarrow> w_h w \<le> 849" using assms(4-6) by (fastforce simp: terms_fit_def w_def)
  have t0: "rd (np_title (w_np w)) 0 = Some (np_title (w_np w) ! 0)" using app(2) by (simp add: rd_Some np_shape_def)
  obtain title where title: "(if w_kind w = 3 \<and> np_title (w_np w) ! 0 \<noteq> 0 then c_text (np_title (w_np w)) else title_text d w) = Some title"
      "ascii title" "length title \<le> 2 ^ 10"
  proof (cases "w_kind w = 3 \<and> np_title (w_np w) ! 0 \<noteq> 0")
    case True
    then have "np_ok (w_np w)" "ascii (np_title (w_np w))" using app(1) leg(1) by (simp_all add: app_ok_def win_legible_def)
    then show ?thesis using that True cstr_ascii [of "np_title (w_np w)"] by (simp add: np_ok_def c_text_terminated NOTEPAD_MAX_FNAME_def)
  qed (use that t in auto)
  note fr = win_frame_fine [OF pl title(2,3)]
  have e: "win_render now d i = do { body \<leftarrow> (let active = win_is_topmost i d in
             if w_kind w = 1 then term_render d w active
             else if w_kind w = 2 then browser_render now d w active
             else if w_kind w = 3 then np_render d w active
             else if w_kind w = 4 then fm_render d w active
             else Some (info_render w));
          Some (win_frame w title (win_is_topmost i d) @ body) }"
    unfolding win_render_def rd_Some [OF assms(5)] bind.bind_lunit w_def [symmetric] t0 title(1) ..
  have "\<exists>body. (let active = win_is_topmost i d in
             if w_kind w = 1 then term_render d w active
             else if w_kind w = 2 then browser_render now d w active
             else if w_kind w = 3 then np_render d w active
             else if w_kind w = 4 then fm_render d w active
             else Some (info_render w)) = Some body \<and> fine body"
    unfolding Let_def
  proof (cases "w_kind w = 1 \<or> w_kind w = 2")
    case True
    then show "\<exists>body. (if w_kind w = 1 then term_render d w (win_is_topmost i d) else if w_kind w = 2 then browser_render now d w (win_is_topmost i d)
        else if w_kind w = 3 then np_render d w (win_is_topmost i d) else if w_kind w = 4 then fm_render d w (win_is_topmost i d)
        else Some (info_render w)) = Some body \<and> fine body"
    proof
      assume k: "w_kind w = 1"
      then have "tm_ok (w_tm w)" "\<forall>row \<in> set (tm_lines (w_tm w)). ascii row" "ascii (ln_buf (tm_input (w_tm w)))"
        using app(1) leg(1) by (simp_all add: app_ok_def win_legible_def)
      from term_render_fine [OF pl this(1) h [OF k] this(2,3)] k show ?thesis by simp
    next
      assume k: "w_kind w = 2"
      then have b: "br_ok (w_br w)" "ascii (ln_buf (br_input (w_br w)))" "ascii (br_site_name (w_br w))" "ascii (br_title (w_br w))" "ascii (br_web (w_br w))"
        using app(1) leg(1) by (simp_all add: app_ok_def win_legible_def)
      from browser_render_fine [OF pl b(1) assms(3) b(2-5) t] k show ?thesis by simp
    qed
  next
    case F: False
    show "\<exists>body. (if w_kind w = 1 then term_render d w (win_is_topmost i d) else if w_kind w = 2 then browser_render now d w (win_is_topmost i d)
        else if w_kind w = 3 then np_render d w (win_is_topmost i d) else if w_kind w = 4 then fm_render d w (win_is_topmost i d)
        else Some (info_render w)) = Some body \<and> fine body"
    proof (cases "w_kind w = 3")
      case True
      then have n: "np_ok (w_np w)" "ascii (np_text (w_np w))" "ascii (np_save_as_buf (w_np w))"
        using app(1) leg(1) by (simp_all add: app_ok_def win_legible_def)
      from np_render_fine [OF pl n] True show ?thesis by simp
    next
      case False
      have "\<forall>s \<in> set (w_lines w). plain s" using leg(1) by (simp add: win_legible_def)
      then have i: "fine (info_render w)" by (rule info_render_fine [OF pl])
      have k: "w_kind w \<noteq> 1" "w_kind w \<noteq> 2" using F by simp_all
      show ?thesis
        unfolding if_not_P [OF k(1)] if_not_P [OF k(2)] if_not_P [OF False]
        using fm_render_fine [OF pl ok(2) leg(2) t] i by (cases "w_kind w = 4") simp_all
    qed
  qed
  then show ?thesis using fr unfolding e by auto
qed

lemma only_redraws_legible:
  assumes "only_redraws d d'"
  shows "desk_legible d' = desk_legible d"
proof -
  have l: "list_all2 same_but_fm (dk_wins d) (dk_wins d')" "dk_fs d' = dk_fs d" using only_redraws_keeps [OF assms] by simp_all
  have "list_all2 same_but_fm ws ws' \<Longrightarrow> (\<forall>w \<in> set ws'. w_used w \<longrightarrow> win_legible w) = (\<forall>w \<in> set ws. w_used w \<longrightarrow> win_legible w)" for ws ws'
  proof (induction rule: list_all2_induct)
    case (Cons w ws w' ws')
    obtain m where m: "w' = w\<lparr>w_fm := m\<rparr>" using Cons(1) by (auto simp: same_but_fm_def)
    have "win_legible w' = win_legible w" "w_used w' = w_used w" unfolding m win_legible_def by simp_all
    then show ?case using Cons.IH by simp
  qed simp
  from this [OF l(1)] show ?thesis unfolding desk_legible_def l(2) by simp
qed

section \<open>The order of the windows\<close>

lemma insert_win_perm: "mset (insert_win ws i s) = add_mset i (mset s)"
proof -
  let ?P = "\<lambda>j. w_order (ws ! j) > w_order (ws ! i)"
  have "mset (dropWhile ?P (rev s)) + mset (takeWhile ?P (rev s)) = mset (rev s)"
    by (metis mset_append takeWhile_dropWhile_id union_commute)
  then show ?thesis by (simp add: insert_win_def Let_def)
qed

lemma insert_win_sorted:
  assumes "sorted (map (\<lambda>j. w_order (ws ! j)) s)"
  shows "sorted (map (\<lambda>j. w_order (ws ! j)) (insert_win ws i s))"
proof -
  let ?o = "\<lambda>j. w_order (ws ! j)" and ?P = "\<lambda>j. w_order (ws ! j) > w_order (ws ! i)"
  define a where "a = rev (dropWhile ?P (rev s))"
  define b where "b = rev (takeWhile ?P (rev s))"
  have s: "s = a @ b" unfolding a_def b_def by (metis rev_append rev_rev_ident takeWhile_dropWhile_id)
  have b: "\<forall>j \<in> set b. ?o i < ?o j" by (auto simp: b_def dest: set_takeWhileD)
  have ab: "sorted (map ?o a)" "sorted (map ?o b)" "\<forall>x \<in> set a. \<forall>y \<in> set b. ?o x \<le> ?o y" using assms by (auto simp: s sorted_append)
  have "\<forall>j \<in> set a. ?o j \<le> ?o i"
  proof (cases "dropWhile ?P (rev s)")
    case Nil
    then show ?thesis unfolding a_def Nil by simp
  next
    case (Cons k r)
    then have k: "\<not> ?P k" using hd_dropWhile [of ?P "rev s"] by simp
    have "a = rev r @ [k]" using Cons by (simp add: a_def)
    then have "\<forall>j \<in> set a. ?o j \<le> ?o k" using ab(1) by (auto simp: sorted_append)
    then show ?thesis using k by (meson leI order_trans)
  qed
  then show ?thesis using ab b unfolding insert_win_def Let_def a_def [symmetric] b_def [symmetric]
    by (auto simp: sorted_append less_imp_le intro: order_trans)
qed

lemma sorted_wins_spec:
  "mset (sorted_wins d) = mset (filter (\<lambda>i. visible_win (dk_wins d ! i)) [0 ..< length (dk_wins d)])"
  "sorted (map (\<lambda>j. w_order (dk_wins d ! j)) (sorted_wins d))"
proof -
  have "mset (fold (\<lambda>i s. if visible_win (dk_wins d ! i) then insert_win (dk_wins d) i s else s) is s)
      = mset (filter (\<lambda>i. visible_win (dk_wins d ! i)) is) + mset s" for "is" s
    by (induction "is" arbitrary: s) (simp_all add: insert_win_perm)
  then show "mset (sorted_wins d) = mset (filter (\<lambda>i. visible_win (dk_wins d ! i)) [0 ..< length (dk_wins d)])" by (simp add: sorted_wins_def)
  have "sorted (map (\<lambda>j. w_order (dk_wins d ! j)) s) \<Longrightarrow>
    sorted (map (\<lambda>j. w_order (dk_wins d ! j)) (fold (\<lambda>i s. if visible_win (dk_wins d ! i) then insert_win (dk_wins d) i s else s) is s))" for "is" s
    by (induction "is" arbitrary: s) (simp_all add: insert_win_sorted)
  then show "sorted (map (\<lambda>j. w_order (dk_wins d ! j)) (sorted_wins d))" by (simp add: sorted_wins_def)
qed

lemma sorted_wins_set: "set (sorted_wins d) = {i. i < length (dk_wins d) \<and> visible_win (dk_wins d ! i)}" "distinct (sorted_wins d)"
proof -
  show "set (sorted_wins d) = {i. i < length (dk_wins d) \<and> visible_win (dk_wins d ! i)}"
    using arg_cong [OF sorted_wins_spec(1), of set_mset d] by auto
  have "distinct (sorted_wins d) = distinct (filter (\<lambda>i. visible_win (dk_wins d ! i)) [0 ..< length (dk_wins d)])"
    using mset_eq_imp_distinct_iff [OF sorted_wins_spec(1)] .
  then show "distinct (sorted_wins d)" by simp
qed

end
