(* ===== verification/Desktop_Pixels.thy ===== *)
theory Desktop_Pixels
  imports Desktop_Scene
begin

text \<open>
  What the scene of \<^verbatim>\<open>kernel/desktop.c\<close> puts on the screen, pixel by pixel. The reference is geometric: the ink of a
  call, the ground under the windows, the windows of a region from the lowest to the highest, and the colour that all of
  them leave on a pixel (\<open>scene_color\<close>). A region that is composed has this colour at every pixel of its rectangle,
  changes no other, and has the effect on the windows that \<^verbatim>\<open>redraw_rect\<close> has in the window model.
\<close>

section \<open>The ink of a call\<close>

text \<open>Which colour a call gives to a pixel, by geometry alone: a rectangle, its frame, the set bits of a character's glyph,
  a line of characters of eight by eight pixels, and the same enlarged.\<close>

definition glyph_bit :: "bytes list \<Rightarrow> u8 \<Rightarrow> int \<Rightarrow> int \<Rightarrow> bool" where
  "glyph_bit font c i j \<longleftrightarrow> 0 \<le> i \<and> i < 8 \<and> 0 \<le> j \<and> j < 8 \<and> bit (font ! unat c ! nat j) (nat i)"

fun inked :: "bytes list \<Rightarrow> draw \<Rightarrow> int \<Rightarrow> int \<Rightarrow> u32 option" where
  "inked font (Fill x y w h c) px py = (if in_rect x y w h px py then Some c else None)"
| "inked font (Box x y w h c) px py =
     (if in_rect x y w h px py \<and> (px = x \<or> px = x + w - 1 \<or> py = y \<or> py = y + h - 1) then Some c else None)"
| "inked font (Glyph x y c fg) px py = (if glyph_bit font c (px - x) (py - y) then Some fg else None)"
| "inked font (Text x y s fg) px py =
     (if 0 \<le> px - x \<and> px - x < 8 * int (length s) \<and> glyph_bit font (s ! nat ((px - x) div 8)) ((px - x) mod 8) (py - y) then Some fg else None)"
| "inked font (Scaled x y s fg k) px py =
     (let z = max 1 k; i = (px - x) div z; j = (py - y) div z in
      if 0 \<le> i \<and> i < 8 * int (length s) \<and> glyph_bit font (s ! nat (i div 8)) (i mod 8) j then Some fg else None)"

text \<open>A pixel after a list of calls, from the colour it had.\<close>

fun painted :: "bytes list \<Rightarrow> draw list \<Rightarrow> int \<Rightarrow> int \<Rightarrow> u32 \<Rightarrow> u32" where
  "painted font [] px py c = c"
| "painted font (a # as) px py c = painted font as px py (case inked font a px py of None \<Rightarrow> c | Some c' \<Rightarrow> c')"

lemma painted_append: "painted font (as @ bs) px py c = painted font bs px py (painted font as px py c)"
  by (induction as arbitrary: c) simp_all

section \<open>Drawing is exact\<close>

definition paints :: "gfx \<Rightarrow> gfx \<Rightarrow> (int \<Rightarrow> int \<Rightarrow> u32 option) \<Rightarrow> bool" where
  "paints g g' f \<longleftrightarrow> bb_only g g' \<and> (\<forall>px py. on_screen g px py \<longrightarrow>
     pixel g' px py = (if visible g px py then (case f px py of None \<Rightarrow> pixel g px py | Some c \<Rightarrow> c) else pixel g px py))"

lemma paints_draws: "paints g g' f \<Longrightarrow> draws g g'"
  by (auto simp: paints_def draws_def)

lemma paints_refl: "(\<And>px py. f px py = None) \<Longrightarrow> paints g g f"
  by (simp add: paints_def)

lemma paints_trans:
  assumes "paints g g1 f" "paints g1 g2 h" "\<And>px py. k px py = (case h px py of None \<Rightarrow> f px py | Some c \<Rightarrow> Some c)"
  shows "paints g g2 k"
proof -
  have b: "bb_only g g1" "bb_only g1 g2" using assms(1,2) by (simp_all add: paints_def)
  note f = bb_only_simps [OF b(1)]
  have "pixel g2 px py = (if visible g px py then (case k px py of None \<Rightarrow> pixel g px py | Some c \<Rightarrow> c) else pixel g px py)"
    if "on_screen g px py" for px py
    using assms(1,2) that unfolding paints_def f(5,6) by (simp add: assms(3) split: option.split)
  then show ?thesis using bb_only_trans [OF b] by (simp add: paints_def)
qed

lemma paints_cong: "paints g g' f \<Longrightarrow> (\<And>px py. f px py = h px py) \<Longrightarrow> paints g g' h"
  by (simp add: paints_def)

lemma fill_paints:
  assumes "rect64 x y w h" "screen_ok g"
  shows "\<exists>g'. bb_fill_rect x y w h c g = Some g' \<and> paints g g' (\<lambda>px py. if in_rect x y w h px py then Some c else None)"
  using bb_fill_rect_spec [OF assms, of c] by (auto simp: paints_def)

lemma put_pixel_paints:
  assumes "screen_ok g"
  shows "\<exists>g'. bb_put_pixel x y c g = Some g' \<and> paints g g' (\<lambda>px py. if px = x \<and> py = y then Some c else None)"
proof (cases "visible g x y")
  case False
  then have "bb_put_pixel x y c g = Some g"
    by (cases "gx_clip g") (auto simp: bb_put_pixel_def visible_def)
  then show ?thesis using False by (auto simp: paints_def)
next
  case True
  then have v: "nat x < gx_w g" "nat y < gx_h g" "0 \<le> x" "0 \<le> y" by (auto simp: visible_def)
  let ?i = "nat y * gx_w g + nat x"
  have i: "?i < gx_w g * gx_h g" by (rule row_less [OF v(1,2)])
  then have wr: "wr (gx_bb g) ?i c = Some ((gx_bb g)[?i := c])" and l: "?i < length (gx_bb g)"
    using assms by (simp_all add: wr_Some screen_ok_def)
  have "\<not> (x < 0 \<or> y < 0 \<or> x \<ge> int (gx_w g) \<or> y \<ge> int (gx_h g))"
    "\<not> (gx_clip_on g \<and> (let (cx0, cy0, cx1, cy1) = gx_clip g in x < cx0 \<or> x \<ge> cx1 \<or> y < cy0 \<or> y \<ge> cy1))"
    using True by (auto simp: visible_def)
  with wr have run: "bb_put_pixel x y c g = Some (g\<lparr>gx_bb := (gx_bb g)[?i := c]\<rparr>)"
    by (auto simp: bb_put_pixel_def Let_def)
  have "pixel (g\<lparr>gx_bb := (gx_bb g)[?i := c]\<rparr>) px py
      = (if visible g px py then (case if px = x \<and> py = y then Some c else None of None \<Rightarrow> pixel g px py | Some c \<Rightarrow> c) else pixel g px py)"
    if "on_screen g px py" for px py
  proof -
    have p: "nat px < gx_w g" "0 \<le> px" "0 \<le> py" using that by (auto simp: on_screen_def)
    have "nat py * gx_w g + nat px = ?i \<longleftrightarrow> px = x \<and> py = y"
      using row_index [OF p(1) v(1)] p(2,3) v(3,4) by (auto simp: eq_nat_nat_iff)
    then show ?thesis using True l by (auto simp: pixel_def)
  qed
  moreover have "bb_only g (g\<lparr>gx_bb := (gx_bb g)[?i := c]\<rparr>)" using i by (auto simp: bb_only_def)
  ultimately show ?thesis using run by (simp add: paints_def)
qed

lemma box_paints:
  assumes n: "near x" "near y" "near w" "near h" and ok: "screen_ok g"
  shows "\<exists>g'. bb_draw_rect x y w h c g = Some g' \<and> paints g g' (inked font (Box x y w h c))"
proof (cases "w \<le> 0 \<or> h \<le> 0")
  case True
  then show ?thesis by (auto simp: bb_draw_rect_def in_rect_def intro!: paints_refl)
next
  case False
  have s: "sadd y h = Some (y + h)" "ssub (y + h) 1 = Some (y + h - 1)" "sadd x w = Some (x + w)" "ssub (x + w) 1 = Some (x + w - 1)"
    using n by (simp_all add: sadd_def ssub_def in64_def near_def)
  have r: "rect64 x y w 1" "rect64 x (y + h - 1) w 1" "rect64 x y 1 h" "rect64 (x + w - 1) y 1 h"
    using n by (simp_all add: rect64_def in64_def near_def)
  obtain g1 where 1: "bb_fill_rect x y w 1 c g = Some g1" "paints g g1 (\<lambda>px py. if in_rect x y w 1 px py then Some c else None)"
    using fill_paints [OF r(1) ok] by blast
  note o1 = draws_ok [OF paints_draws [OF 1(2)] ok]
  obtain g2 where 2: "bb_fill_rect x (y + h - 1) w 1 c g1 = Some g2" "paints g1 g2 (\<lambda>px py. if in_rect x (y + h - 1) w 1 px py then Some c else None)"
    using fill_paints [OF r(2) o1] by blast
  note o2 = draws_ok [OF paints_draws [OF 2(2)] o1]
  obtain g3 where 3: "bb_fill_rect x y 1 h c g2 = Some g3" "paints g2 g3 (\<lambda>px py. if in_rect x y 1 h px py then Some c else None)"
    using fill_paints [OF r(3) o2] by blast
  note o3 = draws_ok [OF paints_draws [OF 3(2)] o2]
  obtain g4 where 4: "bb_fill_rect (x + w - 1) y 1 h c g3 = Some g4" "paints g3 g4 (\<lambda>px py. if in_rect (x + w - 1) y 1 h px py then Some c else None)"
    using fill_paints [OF r(4) o3] by blast
  let ?f = "\<lambda>px py. if in_rect x y w 1 px py then Some c else None"
  let ?f2 = "\<lambda>px py. if in_rect x (y + h - 1) w 1 px py then Some c else ?f px py"
  let ?f3 = "\<lambda>px py. if in_rect x y 1 h px py then Some c else ?f2 px py"
  have p2: "paints g g2 ?f2" by (rule paints_trans [OF 1(2) 2(2)]) simp
  have p3: "paints g g3 ?f3" by (rule paints_trans [OF p2 3(2)]) simp
  have "paints g g4 (inked font (Box x y w h c))"
    by (rule paints_trans [OF p3 4(2)]) (use False in \<open>auto simp: in_rect_def\<close>)
  moreover have "bb_draw_rect x y w h c g = Some g4" using False s 1(1) 2(1) 3(1) 4(1) by (simp add: bb_draw_rect_def)
  ultimately show ?thesis by blast
qed

section \<open>Characters\<close>

lemma bb_cells_paints:
  assumes "length glyph = 8" "- (2 ^ 62) \<le> x" "x \<le> 2 ^ 62" "- (2 ^ 62) \<le> y" "y \<le> 2 ^ 62"
  shows "set cs \<subseteq> {..<8} \<times> {..<8} \<Longrightarrow> screen_ok g \<Longrightarrow> \<exists>g'. bb_cells glyph x y fg cs g = Some g'
    \<and> paints g g' (\<lambda>px py. if \<exists>(row, col) \<in> set cs. bit (glyph ! row) col \<and> px = x + int col \<and> py = y + int row then Some fg else None)"
proof (induction cs arbitrary: g)
  case Nil
  then show ?case by (auto intro!: paints_refl)
next
  case (Cons a cs)
  obtain row col where a: "a = (row, col)" by (cases a)
  have rc: "row < 8" "col < 8" using Cons.prems(1) a by auto
  have sum: "sadd x (int col) = Some (x + int col)" "sadd y (int row) = Some (y + int row)"
    using assms rc by (auto simp: sadd_def in64_def)
  let ?f = "\<lambda>px py. if bit (glyph ! row) col \<and> px = x + int col \<and> py = y + int row then Some fg else None"
  obtain g1 where g1: "(if bit (glyph ! row) col then bb_put_pixel (x + int col) (y + int row) fg g else Some g) = Some g1" "paints g g1 ?f"
  proof (cases "bit (glyph ! row) col")
    case True
    then show ?thesis using put_pixel_paints [OF Cons.prems(2), of "x + int col" "y + int row" fg] that by auto
  qed (use that [of g] in \<open>simp add: paints_refl\<close>)
  obtain g2 where g2: "bb_cells glyph x y fg cs g1 = Some g2"
      "paints g1 g2 (\<lambda>px py. if \<exists>(row, col) \<in> set cs. bit (glyph ! row) col \<and> px = x + int col \<and> py = y + int row then Some fg else None)"
    using Cons.IH [of g1] Cons.prems draws_ok [OF paints_draws [OF g1(2)]] by auto
  have "bb_cells glyph x y fg (a # cs) g = Some g2"
    using g1(1) g2(1) sum rc(1) assms(1) by (cases "bit (glyph ! row) col") (simp_all add: a rd_Some)
  moreover have "paints g g2 (\<lambda>px py. if \<exists>(row, col) \<in> set (a # cs). bit (glyph ! row) col \<and> px = x + int col \<and> py = y + int row then Some fg else None)"
    by (rule paints_trans [OF g1(2) g2(2)]) (auto simp: a)
  ultimately show ?case by blast
qed

lemma glyph_cells_all: "(row, col) \<in> set glyph_cells \<longleftrightarrow> row < 8 \<and> col < 8"
  by (auto simp: glyph_cells_def image_iff)

lemma char_paints:
  assumes "font_ok font" "c < 128" "- (2 ^ 62) \<le> x" "x \<le> 2 ^ 62" "- (2 ^ 62) \<le> y" "y \<le> 2 ^ 62" "screen_ok g"
  shows "\<exists>g'. bb_draw_char font x y c fg g = Some g' \<and> paints g g' (inked font (Glyph x y c fg))"
proof -
  have c: "unat c < length font" using assms(1,2) by (simp add: font_ok_def word_less_nat_alt)
  then have "length (font ! unat c) = 8" using assms(1) by (simp add: font_ok_def list_all_length)
  from bb_cells_paints [OF this assms(3-6) glyph_cells_range assms(7)] obtain g' where
    g': "bb_cells (font ! unat c) x y fg glyph_cells g = Some g'"
      "paints g g' (\<lambda>px py. if \<exists>(row, col) \<in> set glyph_cells. bit (font ! unat c ! row) col \<and> px = x + int col \<and> py = y + int row then Some fg else None)"
    by blast
  have "(\<exists>(row, col) \<in> set glyph_cells. bit (font ! unat c ! row) col \<and> px = x + int col \<and> py = y + int row) \<longleftrightarrow> glyph_bit font c (px - x) (py - y)" for px py
  proof
    assume "glyph_bit font c (px - x) (py - y)"
    then have "(nat (py - y), nat (px - x)) \<in> set glyph_cells \<and> bit (font ! unat c ! nat (py - y)) (nat (px - x))
        \<and> px = x + int (nat (px - x)) \<and> py = y + int (nat (py - y))" by (auto simp: glyph_bit_def glyph_cells_all)
    then show "\<exists>(row, col) \<in> set glyph_cells. bit (font ! unat c ! row) col \<and> px = x + int col \<and> py = y + int row" by blast
  qed (auto simp: glyph_bit_def glyph_cells_all)
  then have "paints g g' (inked font (Glyph x y c fg))" using paints_cong [OF g'(2), of "inked font (Glyph x y c fg)"] by simp
  then show ?thesis using g'(1) c by (simp add: bb_draw_char_def rd_Some)
qed

lemma div_8: "i div 8 = (i - 8) div 8 + 1" "i mod 8 = (i - 8) mod 8" for i :: int
  by presburger+

lemma string_paints:
  assumes "font_ok font" "\<forall>c \<in> set cs. c < 128" "- (2 ^ 61) \<le> x" "x + 8 * int (length cs) \<le> 2 ^ 62"
    and "- (2 ^ 62) \<le> y" "y \<le> 2 ^ 62" "screen_ok g"
  shows "\<exists>g'. bb_draw_string font x y cs fg g = Some (x + 8 * int (length cs), g') \<and> paints g g' (inked font (Text x y cs fg))"
  using assms(2-4,7)
proof (induction cs arbitrary: x g)
  case Nil
  then show ?case by (auto intro!: paints_refl)
next
  case (Cons c cs)
  obtain g1 where g1: "bb_draw_char font x y c fg g = Some g1" "paints g g1 (inked font (Glyph x y c fg))"
    using char_paints [OF assms(1) _ _ _ assms(5,6), of c x g fg] Cons.prems by auto
  have s: "sadd x 8 = Some (x + 8)" using Cons.prems(2,3) by (auto simp: sadd_def in64_def)
  obtain g2 where g2: "bb_draw_string font (x + 8) y cs fg g1 = Some (x + 8 + 8 * int (length cs), g2)" "paints g1 g2 (inked font (Text (x + 8) y cs fg))"
  proof -
    have "\<forall>c \<in> set cs. c < 128" "- (2 ^ 61) \<le> x + 8" "x + 8 + 8 * int (length cs) \<le> 2 ^ 62" "screen_ok g1"
      using Cons.prems draws_ok [OF paints_draws [OF g1(2)]] by auto
    from Cons.IH [OF this] that show ?thesis by blast
  qed
  have "paints g g2 (inked font (Text x y (c # cs) fg))"
  proof (rule paints_trans [OF g1(2) g2(2)])
    fix px py
    let ?i = "px - x"
    consider "?i < 0" | "0 \<le> ?i" "?i < 8" | "8 \<le> ?i" by linarith
    then show "inked font (Text x y (c # cs) fg) px py
        = (case inked font (Text (x + 8) y cs fg) px py of None \<Rightarrow> inked font (Glyph x y c fg) px py | Some c \<Rightarrow> Some c)"
    proof cases
      case 1
      then show ?thesis by (simp add: glyph_bit_def)
    next
      case 2
      then have "?i div 8 = 0" "?i mod 8 = ?i" by (simp_all add: div_pos_pos_trivial mod_pos_pos_trivial)
      then show ?thesis using 2 by simp
    next
      case 3
      have i: "px - (x + 8) = ?i - 8" by simp
      note q = div_8 [of ?i]
      have "0 \<le> (?i - 8) div 8" using 3 by simp
      then have "nat (?i div 8) = Suc (nat ((?i - 8) div 8))" unfolding q(1) by simp
      moreover have "\<not> glyph_bit font c ?i (py - y)" using 3 by (simp add: glyph_bit_def)
      ultimately show ?thesis using 3 unfolding inked.simps i q(2) by simp
    qed
  qed
  moreover have "bb_draw_string font x y (c # cs) fg g = Some (x + 8 * int (length (c # cs)), g2)"
    using g1(1) g2(1) s by (simp add: algebra_simps)
  ultimately show ?case by blast
qed

section \<open>Enlarged characters\<close>

lemma scaled_cells_paints:
  assumes "length glyph = 8" "- (2 ^ 41) \<le> x" "x \<le> 2 ^ 41" "near y" "1 \<le> k" "k \<le> 16"
  shows "set cs \<subseteq> {..<8} \<times> {..<8} \<Longrightarrow> screen_ok g \<Longrightarrow> \<exists>g'. scaled_cells glyph x y fg k cs g = Some g'
    \<and> paints g g' (\<lambda>px py. if \<exists>(row, col) \<in> set cs. bit (glyph ! row) col \<and> (px - x) div k = int col \<and> (py - y) div k = int row then Some fg else None)"
proof (induction cs arbitrary: g)
  case Nil
  then show ?case by (auto intro!: paints_refl)
next
  case (Cons a cs)
  obtain row col where a: "a = (row, col)" by (cases a)
  have rc: "row < 8" "col < 8" using Cons.prems(1) a by auto
  have "int col * k \<le> 8 * 16" by (rule mult_mono) (use rc assms(5,6) in auto)
  moreover have "int row * k \<le> 8 * 16" by (rule mult_mono) (use rc assms(5,6) in auto)
  moreover have "0 \<le> int col * k" "0 \<le> int row * k" using assms(5) by simp_all
  ultimately have b: "- (2 ^ 42) \<le> x + int col * k" "x + int col * k \<le> 2 ^ 42" "- (2 ^ 42) \<le> y + int row * k" "y + int row * k \<le> 2 ^ 42"
    using assms(2-4) unfolding near_def by simp_all
  then have sum: "sadd x (int col * k) = Some (x + int col * k)" "sadd y (int row * k) = Some (y + int row * k)"
    by (auto simp: sadd_def in64_def)
  have r: "rect64 (x + int col * k) (y + int row * k) k k" using b assms(5,6) by (auto simp: rect64_def in64_def)
  have cell: "a + int n * k \<le> p \<and> p < a + int n * k + k \<longleftrightarrow> (p - a) div k = int n" for a n p
  proof -
    have m: "0 \<le> (p - a) mod k" "(p - a) mod k < k" using assms(5) by simp_all
    have "(p - a) div k = int n \<longleftrightarrow> int n * k \<le> p - a \<and> p - a < int n * k + k"
    proof
      assume "(p - a) div k = int n"
      then show "int n * k \<le> p - a \<and> p - a < int n * k + k"
        using div_mult_mod_eq [of "p - a" k] m by simp
    next
      assume "int n * k \<le> p - a \<and> p - a < int n * k + k"
      then show "(p - a) div k = int n" by (intro int_div_pos_eq [of _ _ _ "p - a - int n * k"]) (auto simp: mult.commute)
    qed
    then show ?thesis by auto
  qed
  let ?f = "\<lambda>px py. if bit (glyph ! row) col \<and> (px - x) div k = int col \<and> (py - y) div k = int row then Some fg else None"
  obtain g1 where g1: "(if bit (glyph ! row) col then bb_fill_rect (x + int col * k) (y + int row * k) k k fg g else Some g) = Some g1" "paints g g1 ?f"
  proof (cases "bit (glyph ! row) col")
    case True
    obtain g1 where "bb_fill_rect (x + int col * k) (y + int row * k) k k fg g = Some g1"
      "paints g g1 (\<lambda>px py. if in_rect (x + int col * k) (y + int row * k) k k px py then Some fg else None)"
      using fill_paints [OF r Cons.prems(2)] by blast
    moreover have "in_rect (x + int col * k) (y + int row * k) k k px py \<longleftrightarrow> (px - x) div k = int col \<and> (py - y) div k = int row" for px py
      using cell [of x col px] cell [of y row py] by (auto simp: in_rect_def)
    ultimately show ?thesis using that True by simp
  qed (use that [of g] in \<open>simp add: paints_refl\<close>)
  obtain g2 where g2: "scaled_cells glyph x y fg k cs g1 = Some g2"
      "paints g1 g2 (\<lambda>px py. if \<exists>(row, col) \<in> set cs. bit (glyph ! row) col \<and> (px - x) div k = int col \<and> (py - y) div k = int row then Some fg else None)"
    using Cons.IH [of g1] Cons.prems draws_ok [OF paints_draws [OF g1(2)]] by auto
  have "scaled_cells glyph x y fg k (a # cs) g = Some g2"
    using g1(1) g2(1) sum rc(1) assms(1) by (cases "bit (glyph ! row) col") (simp_all add: a rd_Some)
  moreover have "paints g g2 (\<lambda>px py. if \<exists>(row, col) \<in> set (a # cs). bit (glyph ! row) col \<and> (px - x) div k = int col \<and> (py - y) div k = int row then Some fg else None)"
    by (rule paints_trans [OF g1(2) g2(2)]) (auto simp: a)
  ultimately show ?case by blast
qed

lemma scaled_paints:
  assumes "font_ok font" "near y" "k \<le> 16"
  shows "ascii s \<Longrightarrow> - (2 ^ 40) \<le> x \<Longrightarrow> x + 128 * int (length s) \<le> 2 ^ 41 \<Longrightarrow> screen_ok g \<Longrightarrow>
    \<exists>g'. bb_draw_string_scaled font x y s fg k g = Some g' \<and> paints g g' (inked font (Scaled x y s fg k))"
proof (induction s arbitrary: x g)
  case Nil
  then show ?case by (auto simp: Let_def intro!: paints_refl)
next
  case (Cons c s)
  define z where "z = max 1 k"
  have z: "1 \<le> z" "z \<le> 16" using assms(3) by (auto simp: z_def)
  have c: "unat c < length font" using assms(1) Cons.prems(1) by (simp add: font_ok_def ascii_def word_less_nat_alt)
  then have gl: "length (font ! unat c) = 8" using assms(1) by (simp add: font_ok_def list_all_length)
  let ?f = "\<lambda>px py. if glyph_bit font c ((px - x) div z) ((py - y) div z) then Some fg else None"
  obtain g1 where g1: "scaled_cells (font ! unat c) x y fg z glyph_cells g = Some g1" "paints g g1 ?f"
  proof -
    have b: "- (2 ^ 41) \<le> x" "x \<le> 2 ^ 41" using Cons.prems(2,3) by auto
    obtain g1 where g: "scaled_cells (font ! unat c) x y fg z glyph_cells g = Some g1"
      "paints g g1 (\<lambda>px py. if \<exists>(row, col) \<in> set glyph_cells. bit (font ! unat c ! row) col \<and> (px - x) div z = int col \<and> (py - y) div z = int row then Some fg else None)"
      using scaled_cells_paints [OF gl b assms(2) z glyph_cells_range Cons.prems(4)] by blast
    have "(\<exists>(row, col) \<in> set glyph_cells. bit (font ! unat c ! row) col \<and> i = int col \<and> j = int row) \<longleftrightarrow> glyph_bit font c i j" for i j
    proof
      assume "glyph_bit font c i j"
      then have "(nat j, nat i) \<in> set glyph_cells \<and> bit (font ! unat c ! nat j) (nat i) \<and> i = int (nat i) \<and> j = int (nat j)"
        by (auto simp: glyph_bit_def glyph_cells_all)
      then show "\<exists>(row, col) \<in> set glyph_cells. bit (font ! unat c ! row) col \<and> i = int col \<and> j = int row" by blast
    qed (auto simp: glyph_bit_def glyph_cells_all)
    then show ?thesis using that g by simp
  qed
  have kk: "0 \<le> FONT_W * z" "FONT_W * z \<le> 128" using z by (simp_all add: FONT_W_def)
  have s: "sadd x (FONT_W * z) = Some (x + FONT_W * z)" using Cons.prems(2,3) kk unfolding sadd_def in64_def by simp
  obtain g2 where g2: "bb_draw_string_scaled font (x + FONT_W * z) y s fg k g1 = Some g2" "paints g1 g2 (inked font (Scaled (x + FONT_W * z) y s fg k))"
  proof -
    have "ascii s" "- (2 ^ 40) \<le> x + FONT_W * z" "x + FONT_W * z + 128 * int (length s) \<le> 2 ^ 41" "screen_ok g1"
      using Cons.prems kk draws_ok [OF paints_draws [OF g1(2)]] by (auto simp: ascii_def)
    from Cons.IH [OF this] that show ?thesis by blast
  qed
  have "paints g g2 (inked font (Scaled x y (c # s) fg k))"
  proof (rule paints_trans [OF g1(2) g2(2)])
    fix px py
    let ?i = "(px - x) div z" and ?j = "(py - y) div z"
    have i: "(px - (x + FONT_W * z)) div z = ?i - 8"
    proof -
      have "px - (x + FONT_W * z) = (px - x) + (- 8) * z" by (simp add: FONT_W_def)
      then have "(px - (x + FONT_W * z)) div z = ((px - x) + (- 8) * z) div z" by (rule arg_cong)
      also have "\<dots> = - 8 + ?i" by (rule div_mult_self1) (use z(1) in simp)
      finally show ?thesis by simp
    qed
    consider "?i < 0" | "0 \<le> ?i" "?i < 8" | "8 \<le> ?i" by linarith
    then show "inked font (Scaled x y (c # s) fg k) px py
        = (case inked font (Scaled (x + FONT_W * z) y s fg k) px py of None \<Rightarrow> ?f px py | Some c \<Rightarrow> Some c)"
    proof cases
      case 1
      then show ?thesis unfolding inked.simps Let_def z_def [symmetric] i by (simp add: glyph_bit_def)
    next
      case 2
      then have "?i div 8 = 0" "?i mod 8 = ?i" by (simp_all add: div_pos_pos_trivial mod_pos_pos_trivial)
      then show ?thesis using 2 unfolding inked.simps Let_def z_def [symmetric] i by simp
    next
      case 3
      note q = div_8 [of ?i]
      have "0 \<le> (?i - 8) div 8" using 3 by simp
      then have "nat (?i div 8) = Suc (nat ((?i - 8) div 8))" unfolding q(1) by simp
      moreover have "\<not> glyph_bit font c ?i ?j" using 3 by (simp add: glyph_bit_def)
      ultimately show ?thesis using 3 unfolding inked.simps Let_def z_def [symmetric] i q(2) by simp
    qed
  qed
  moreover have "bb_draw_string_scaled font x y (c # s) fg k g = Some g2" using g1(1) g2(1) s c by (simp add: rd_Some z_def)
  ultimately show ?case by blast
qed

section \<open>Lists of calls\<close>

lemma run_draw_paints:
  assumes "font_ok font" "draw_ok a" "screen_ok g"
  shows "\<exists>g'. run_draw font a g = Some g' \<and> paints g g' (inked font a)"
proof (cases a)
  case (Fill x y w h c)
  have "rect64 x y w h" using assms(2) Fill by (simp add: near_rect64)
  from fill_paints [OF this assms(3), of c] obtain g' where g': "bb_fill_rect x y w h c g = Some g'"
    "paints g g' (\<lambda>px py. if in_rect x y w h px py then Some c else None)" by blast
  have "paints g g' (inked font a)" by (rule paints_cong [OF g'(2)]) (simp add: Fill)
  then show ?thesis using g'(1) Fill by simp
next
  case (Box x y w h c)
  then show ?thesis using box_paints assms by simp
next
  case (Glyph x y c fg)
  then show ?thesis using char_paints [OF assms(1) _ _ _ _ _ assms(3), of c x y fg] assms(2) by (auto simp: near_def)
next
  case (Text x y s fg)
  have "\<forall>c \<in> set s. c < 128" "- (2 ^ 61) \<le> x" "x + 8 * int (length s) \<le> 2 ^ 62" "- (2 ^ 62) \<le> y" "y \<le> 2 ^ 62"
    using assms(2) Text by (auto simp: near_def ascii_def)
  from string_paints [OF assms(1) this assms(3), of fg] show ?thesis unfolding Text run_draw.simps by force
next
  case (Scaled x y s fg k)
  have "near y" "k \<le> 16" "ascii s" "- (2 ^ 40) \<le> x" "x + 128 * int (length s) \<le> 2 ^ 41" using assms(2) Scaled by (auto simp: near_def)
  from scaled_paints [OF assms(1) this assms(3), of fg] show ?thesis unfolding Scaled run_draw.simps .
qed

lemma run_draws_exact:
  assumes "font_ok font"
  shows "fine as \<Longrightarrow> screen_ok g \<Longrightarrow> \<exists>g'. run_draws font as g = Some g' \<and> draws g g'
    \<and> (\<forall>px py. on_screen g px py \<and> visible g px py \<longrightarrow> pixel g' px py = painted font as px py (pixel g px py))"
proof (induction as arbitrary: g)
  case (Cons a as)
  obtain g1 where g1: "run_draw font a g = Some g1" "paints g g1 (inked font a)" using run_draw_paints [OF assms, of a g] Cons.prems by auto
  note d = paints_draws [OF g1(2)]
  have b: "on_screen g1 = on_screen g" "visible g1 = visible g" using bb_only_simps(5,6) [of g g1] d by (simp_all add: draws_def)
  obtain g2 where g2: "run_draws font as g1 = Some g2" "draws g1 g2"
    "\<forall>px py. on_screen g px py \<and> visible g px py \<longrightarrow> pixel g2 px py = painted font as px py (pixel g1 px py)"
    using Cons.IH [of g1] Cons.prems draws_ok [OF d] unfolding b by auto
  then show ?case using g1 draws_trans [OF d g2(2)] by (auto simp: paints_def split: option.split)
qed simp

section \<open>The background\<close>

text \<open>The colour of the ground: the gradient of the row, or the wallpaper where it has a pixel.\<close>

definition ground :: "wall option \<Rightarrow> gfx \<Rightarrow> int \<Rightarrow> int \<Rightarrow> u32" where
  "ground v g px py =
     (case v of
        None \<Rightarrow> gradient_color (of_nat (nat py)) (of_nat (gx_h g))
      | Some w \<Rightarrow> if px < int (wl_w w) \<and> py < int (wl_h w) then wl_img w ! (nat py * wl_w w + nat px) else pixel g px py)"

lemma background_exact:
  assumes ok: "screen_ok g" and clip: "gx_clip_on g" "gx_clip g = (x0, y0, x1, y1)" and v: "wall_ok v"
    and b: "0 \<le> x0" "x0 < x1" "x1 \<le> int (gx_w g)" "0 \<le> y0" "y0 < y1" "y1 \<le> int (gx_h g)"
  shows "\<exists>g'. scene_background v (x0, y0, x1, y1) g = Some g'
    \<and> paints g g' (\<lambda>px py. Some (ground v g px py))"
proof -
  have len: "gx_w g * gx_h g \<le> length (gx_bb g)" using ok by (simp add: screen_ok_def)
  have fin: "paints g (g\<lparr>gx_bb := bb\<rparr>) (\<lambda>px py. Some (ground v g px py))"
    if "length bb = length (gx_bb g)" "\<forall>j < length (gx_bb g). gx_w g * gx_h g \<le> j \<longrightarrow> bb ! j = gx_bb g ! j"
      "\<And>px py. px < gx_w g \<Longrightarrow> py < gx_h g \<Longrightarrow> bb ! (py * gx_w g + px)
        = (if x0 \<le> int px \<and> int px < x1 \<and> y0 \<le> int py \<and> int py < y1 then ground v g (int px) (int py) else gx_bb g ! (py * gx_w g + px))" for bb
    unfolding paints_def
  proof (intro conjI allI impI)
    show "bb_only g (g\<lparr>gx_bb := bb\<rparr>)" using that(1,2) unfolding bb_only_def by auto
    fix px py
    assume o: "on_screen g px py"
    then have "nat px < gx_w g" "nat py < gx_h g" "int (nat px) = px" "int (nat py) = py" by (auto simp: on_screen_def)
    with that(3) [OF this(1,2)] show "pixel (g\<lparr>gx_bb := bb\<rparr>) px py
        = (if visible g px py then (case Some (ground v g px py) of None \<Rightarrow> pixel g px py | Some c \<Rightarrow> c) else pixel g px py)"
      using o clip by (auto simp: pixel_def on_screen_def visible_def)
  qed
  show ?thesis
  proof (cases v)
    case None
    have n: "nat x0 + nat (x1 - x0) = nat x1" "nat y0 + nat (y1 - y0) = nat y1" using b by simp_all
    have r: "nat x0 + nat (x1 - x0) \<le> gx_w g" "nat y0 + nat (y1 - y0) \<le> gx_h g" unfolding n using b by simp_all
    obtain bb where bb: "bb_spans (gx_w g) (nat y0) (nat x0) (nat (y1 - y0)) (nat (x1 - x0))
                       (\<lambda>yy. gradient_color (of_nat yy) (of_nat (gx_h g))) (gx_bb g) = Some bb" "length bb = length (gx_bb g)"
        "\<forall>j < length (gx_bb g). gx_w g * gx_h g \<le> j \<longrightarrow> bb ! j = gx_bb g ! j"
        "\<forall>px < gx_w g. \<forall>py < gx_h g. bb ! (py * gx_w g + px) =
          (if nat x0 \<le> px \<and> px < nat x0 + nat (x1 - x0) \<and> nat y0 \<le> py \<and> py < nat y0 + nat (y1 - y0)
           then gradient_color (of_nat py) (of_nat (gx_h g)) else gx_bb g ! (py * gx_w g + px))"
      using bb_spans_spec [OF r len] by blast
    have "(nat x0 \<le> px \<and> px < nat x0 + nat (x1 - x0) \<and> nat y0 \<le> py \<and> py < nat y0 + nat (y1 - y0))
        \<longleftrightarrow> (x0 \<le> int px \<and> int px < x1 \<and> y0 \<le> int py \<and> int py < y1)" for px py
      unfolding n using b by (simp add: nat_le_iff) linarith
    then have "paints g (g\<lparr>gx_bb := bb\<rparr>) (\<lambda>px py. Some (ground v g px py))"
      using bb(2-4) by (intro fin) (simp_all add: ground_def None)
    then show ?thesis using None bb(1) by (simp add: scene_background_def)
  next
    case (Some w)
    have "length (wl_img w) = wl_w w * wl_h w" using v Some by (simp add: wall_ok_def)
    from wallpaper_render_spec [OF this len b(1,3,4,6)] obtain bb where
      bb: "wallpaper_render (Some w) (gx_bb g) (gx_w g) x0 y0 x1 y1 = Some bb" "length bb = length (gx_bb g)"
        "\<forall>j < length (gx_bb g). gx_w g * gx_h g \<le> j \<longrightarrow> bb ! j = gx_bb g ! j"
        "\<forall>px < gx_w g. \<forall>py < gx_h g. bb ! (py * gx_w g + px) =
          (if x0 \<le> int px \<and> int px < x1 \<and> y0 \<le> int py \<and> int py < y1 \<and> px < wl_w w \<and> py < wl_h w
           then wl_img w ! (py * wl_w w + px) else gx_bb g ! (py * gx_w g + px))" by blast
    have "paints g (g\<lparr>gx_bb := bb\<rparr>) (\<lambda>px py. Some (ground v g px py))"
      using bb(2-4) by (intro fin) (auto simp: ground_def Some pixel_def)
    then show ?thesis using Some bb(1) by (simp add: scene_background_def)
  qed
qed

section \<open>The stack of windows\<close>

text \<open>The visible windows from the lowest to the highest: by their order, and by slot among equals.\<close>

definition window_stack :: "desk \<Rightarrow> nat list" where
  "window_stack d = sort_key (\<lambda>i. w_order (dk_wins d ! i)) (filter (\<lambda>i. visible_win (dk_wins d ! i)) [0 ..< length (dk_wins d)])"

lemma insert_win_filter:
  assumes "sorted (map (\<lambda>j. w_order (ws ! j)) s)"
  shows "filter (\<lambda>j. w_order (ws ! j) = k) (insert_win ws i s) = filter (\<lambda>j. w_order (ws ! j) = k) (s @ [i])"
proof -
  let ?P = "\<lambda>j. w_order (ws ! j) > w_order (ws ! i)"
  define a where "a = rev (dropWhile ?P (rev s))"
  define b where "b = rev (takeWhile ?P (rev s))"
  have s: "s = a @ b" unfolding a_def b_def by (metis rev_append rev_rev_ident takeWhile_dropWhile_id)
  have b: "\<forall>j \<in> set b. w_order (ws ! i) < w_order (ws ! j)" by (auto simp: b_def dest: set_takeWhileD)
  have "w_order (ws ! i) = k \<Longrightarrow> filter (\<lambda>j. w_order (ws ! j) = k) b = []" using b by (auto simp: filter_empty_conv)
  then show ?thesis unfolding insert_win_def Let_def a_def [symmetric] b_def [symmetric] by (simp add: s)
qed

lemma sorted_wins_stack: "sorted_wins d = window_stack d"
proof -
  let ?f = "\<lambda>i s. if visible_win (dk_wins d ! i) then insert_win (dk_wins d) i s else s"
  have st: "sorted (map (\<lambda>j. w_order (dk_wins d ! j)) s) \<Longrightarrow>
      filter (\<lambda>j. w_order (dk_wins d ! j) = k) (fold ?f is s)
      = filter (\<lambda>j. w_order (dk_wins d ! j) = k) (s @ filter (\<lambda>i. visible_win (dk_wins d ! i)) is)" for k "is" s
    by (induction "is" arbitrary: s) (simp_all add: insert_win_filter insert_win_sorted)
  show ?thesis unfolding window_stack_def
  proof (rule properties_for_sort_key [symmetric])
    show "filter (\<lambda>x. w_order (dk_wins d ! k) = w_order (dk_wins d ! x)) (sorted_wins d)
        = filter (\<lambda>x. w_order (dk_wins d ! k) = w_order (dk_wins d ! x)) (filter (\<lambda>i. visible_win (dk_wins d ! i)) [0 ..< length (dk_wins d)])"
      if "k \<in> set (sorted_wins d)" for k
      using st [of "[]" "w_order (dk_wins d ! k)" "[0 ..< length (dk_wins d)]"] by (simp add: sorted_wins_def eq_commute [of "w_order (dk_wins d ! k)"])
  qed (rule sorted_wins_spec)+
qed

section \<open>The calls of a scene\<close>

definition win_meets :: "win \<Rightarrow> rect \<Rightarrow> bool" where
  "win_meets win = (\<lambda>(x, y, w, h). w_x win < x + w \<and> x < w_x win + w_w win \<and> w_y win < y + h \<and> y < w_y win + w_h win)"

definition calls_of :: "draw list option \<Rightarrow> draw list" where
  "calls_of t = (case t of None \<Rightarrow> [] | Some ds \<Rightarrow> ds)"

text \<open>The icons, the visible windows that meet the region from the lowest to the highest, the taskbar if the region reaches
  it, and the start menu if it is open and meets the region.\<close>

definition scene_calls :: "rtc_datetime option \<Rightarrow> desk \<Rightarrow> rect \<Rightarrow> draw list" where
  "scene_calls now d = (\<lambda>(x, y, w, h).
     icon_draw
     @ concat (map (\<lambda>i. calls_of (win_render now d i)) (filter (\<lambda>i. win_meets (dk_wins d ! i) (x, y, w, h)) (window_stack d)))
     @ (if y + h > work_h d then calls_of (render_taskbar now d) else [])
     @ (if dk_menu d \<and> x < menu_x + MENU_W \<and> menu_x < x + w \<and> y < menu_y d + menu_h \<and> menu_y d < y + h then render_start_menu d else []))"

text \<open>Rectangles whose coordinates and ends are 64-bit numbers.\<close>

definition rect_ends :: "int \<Rightarrow> int \<Rightarrow> int \<Rightarrow> int \<Rightarrow> bool" where
  "rect_ends x y w h \<longleftrightarrow> rect64 x y w h \<and> in64 (x + w) \<and> in64 (y + h)"

lemma win_meets_intersects:
  assumes "placed win" "rect_ends x y w h"
  shows "win_rect_intersects win x y w h = Some (win_meets win (x, y, w, h))"
proof -
  have "in64 (x + w)" "in64 (y + h)" "in64 (w_x win + w_w win)" "in64 (w_y win + w_h win)"
    using assms by (auto simp: rect_ends_def placed_def in64_def)
  then show ?thesis by (simp add: win_rect_intersects_def win_meets_def sadd_def)
qed

lemma view_win_cong: "dk_fs d' = dk_fs d \<Longrightarrow> view_win d' x y w h = view_win d x y w h"
  by (simp add: view_win_def fun_eq_iff)

lemma upd_view_only: "i < length (dk_wins d) \<Longrightarrow> only_redraws d (upd_win i (view_win d x y w h) d)"
  unfolding only_redraws_def upd_win_def
  by (rule exI [of _ "dk_redraws d"], rule exI [of _ "(dk_wins d)[i := view_win d x y w h (dk_wins d ! i)]"])
    (auto simp: list_all2_conv_all_nth nth_list_update)

lemma topmost_from_same: "list_all2 same_but_fm ws ws' \<Longrightarrow> topmost_from i ws' best = topmost_from i ws best"
proof (induction arbitrary: i best rule: list_all2_induct)
  case (Cons w ws w' ws')
  show ?case unfolding topmost_from.simps same_but_fm_keeps(2,5) [OF Cons.hyps(1)] Cons.IH ..
qed simp

lemma topmost_same: "list_all2 same_but_fm (dk_wins d) ws \<Longrightarrow> win_is_topmost i (d\<lparr>dk_wins := ws\<rparr>) = win_is_topmost i d"
  by (simp add: win_is_topmost_def win_topmost_index_def topmost_from_same)

lemma title_same: "title_text (d\<lparr>dk_wins := ws\<rparr>) w = title_text d w" "same_but_fm w w' \<Longrightarrow> title_text d w' = title_text d w"
  by (auto simp: title_text_def same_but_fm_def split: win_title.split)

lemma win_render_same:
  assumes "list_all2 same_but_fm (dk_wins d) ws" "i < length ws" "ws ! i = dk_wins d ! i"
  shows "win_render now (d\<lparr>dk_wins := ws\<rparr>) i = win_render now d i"
proof -
  have l: "length ws = length (dk_wins d)" using assms(1) by (simp add: list_all2_lengthD)
  have f: "dk_last_sec (d\<lparr>dk_wins := ws\<rparr>) = dk_last_sec d" "dk_fs (d\<lparr>dk_wins := ws\<rparr>) = dk_fs d" by simp_all
  have r: "term_render (d\<lparr>dk_wins := ws\<rparr>) w a = term_render d w a" "browser_render now (d\<lparr>dk_wins := ws\<rparr>) w a = browser_render now d w a"
    "np_render (d\<lparr>dk_wins := ws\<rparr>) w a = np_render d w a" "fm_render (d\<lparr>dk_wins := ws\<rparr>) w a = fm_render d w a" for w a
    unfolding term_render_def browser_render_def np_render_def fm_render_def title_same(1) f by (rule refl)+
  have "rd (dk_wins (d\<lparr>dk_wins := ws\<rparr>)) i = rd (dk_wins d) i" using assms(2,3) l by (simp add: rd_Some)
  then show ?thesis unfolding win_render_def title_same(1) topmost_same [OF assms(1)] r by (rule arg_cong)
qed

lemma task_buttons_same:
  assumes "list_all2 same_but_fm (dk_wins d) ws"
  shows "list_all2 same_but_fm us us' \<Longrightarrow> task_buttons (d\<lparr>dk_wins := ws\<rparr>) i slot us' = task_buttons d i slot us"
proof (induction arbitrary: i slot rule: list_all2_induct)
  case (Cons u us u' us')
  show ?case using same_but_fm_keeps(3) [OF Cons.hyps(1)] title_same(2) [OF Cons.hyps(1), of d] Cons.IH
    by (simp add: title_same(1) topmost_same [OF assms] start_y_def)
qed simp

lemma bars_same:
  assumes "list_all2 same_but_fm (dk_wins d) ws"
  shows "render_taskbar now (d\<lparr>dk_wins := ws\<rparr>) = render_taskbar now d" "render_start_menu (d\<lparr>dk_wins := ws\<rparr>) = render_start_menu d"
proof -
  have "menu_y (d\<lparr>dk_wins := ws\<rparr>) = menu_y d" by (simp add: menu_y_def work_h_def)
  then show "render_start_menu (d\<lparr>dk_wins := ws\<rparr>) = render_start_menu d" by (simp only: render_start_menu_def)
  show "render_taskbar now (d\<lparr>dk_wins := ws\<rparr>) = render_taskbar now d"
    using task_buttons_same [OF assms assms, of 0 0] by (simp add: render_taskbar_def start_y_def)
qed

section \<open>The scene of a region\<close>

lemma only_redraws_fit:
  assumes "only_redraws d d'" "terms_fit d"
  shows "terms_fit d'"
proof -
  obtain r ws where d': "d' = d\<lparr>dk_redraws := r, dk_wins := ws\<rparr>" "list_all2 same_but_fm (dk_wins d) ws"
    using assms(1) by (auto simp: only_redraws_def)
  have "visible_win w \<and> w_kind w = 1 \<longrightarrow> w_h w < 850" if w: "w \<in> set ws" for w
  proof -
    obtain i where i: "i < length ws" "w = ws ! i" using w by (auto simp: in_set_conv_nth)
    then have l: "i < length (dk_wins d)" and s: "same_but_fm (dk_wins d ! i) w"
      using d'(2) by (simp_all add: list_all2_conv_all_nth)
    have "dk_wins d ! i \<in> set (dk_wins d)" using l by simp
    moreover have "w_h w = w_h (dk_wins d ! i)" using s by (auto simp: same_but_fm_def)
    ultimately show ?thesis using assms(2) same_but_fm_keeps [OF s] unfolding terms_fit_def by metis
  qed
  then show ?thesis by (simp add: terms_fit_def d'(1))
qed

lemma only_wins: "only_redraws d (d\<lparr>dk_wins := ws\<rparr>) \<Longrightarrow> list_all2 same_but_fm (dk_wins d) ws"
  by (auto simp: only_redraws_def dest: arg_cong [where f = dk_wins])

lemma render_wins_fine:
  assumes "clock_ok now" "rect_ends x y w h"
  shows "desk_inv d \<Longrightarrow> desk_legible d \<Longrightarrow> terms_fit d \<Longrightarrow> distinct is
    \<Longrightarrow> \<forall>i \<in> set is. i < length (dk_wins d) \<and> visible_win (dk_wins d ! i)
    \<Longrightarrow> \<exists>ds ws. render_wins now (x, y, w, h) is d = Some (ds, d\<lparr>dk_wins := ws\<rparr>) \<and> fine ds \<and> length ws = length (dk_wins d)
      \<and> ds = concat (map (\<lambda>i. calls_of (win_render now d i)) (filter (\<lambda>i. win_meets (dk_wins d ! i) (x, y, w, h)) is))
      \<and> (\<forall>j < length ws. ws ! j = (if j \<in> set is then view_win d x y w h (dk_wins d ! j) else dk_wins d ! j))"
proof (induction "is" arbitrary: d)
  case Nil
  show ?case by (rule exI [of _ "[]"], rule exI [of _ "dk_wins d"]) simp
next
  case (Cons i js)
  have i: "i < length (dk_wins d)" "visible_win (dk_wins d ! i)" "i \<notin> set js" using Cons.prems(4,5) by auto
  have u: "w_used (dk_wins d ! i)" using i(2) by (simp add: visible_win_def)
  have hit: "win_rect_intersects (dk_wins d ! i) x y w h = Some (win_meets (dk_wins d ! i) (x, y, w, h))"
    by (rule win_meets_intersects [OF win_placed [OF Cons.prems(1) i(1) u] assms(2)])
  show ?case
  proof (cases "win_meets (dk_wins d ! i) (x, y, w, h)")
    case False
    obtain ds ws where r: "render_wins now (x, y, w, h) js d = Some (ds, d\<lparr>dk_wins := ws\<rparr>)" "fine ds" "length ws = length (dk_wins d)"
      "ds = concat (map (\<lambda>i. calls_of (win_render now d i)) (filter (\<lambda>i. win_meets (dk_wins d ! i) (x, y, w, h)) js))"
      "\<forall>j < length ws. ws ! j = (if j \<in> set js then view_win d x y w h (dk_wins d ! j) else dk_wins d ! j)"
      using Cons.IH [OF Cons.prems(1-3)] Cons.prems(4,5) by auto
    have "view_win d x y w h (dk_wins d ! i) = dk_wins d ! i" using False hit by (simp add: view_win_def)
    then have "\<forall>j < length ws. ws ! j = (if j \<in> set (i # js) then view_win d x y w h (dk_wins d ! j) else dk_wins d ! j)" using r(5) by auto
    moreover have "render_wins now (x, y, w, h) (i # js) d = Some (ds, d\<lparr>dk_wins := ws\<rparr>)"
      unfolding render_wins.simps Let_def prod.case hit bind.bind_lunit using False r(1) by simp
    ultimately show ?thesis using r(2-4) False by (intro exI [of _ ds] exI [of _ ws]) simp
  next
    case True
    obtain ds1 where d1: "win_render now d i = Some ds1" "fine ds1"
      using win_render_fine [OF Cons.prems(1,2) assms(1) Cons.prems(3) i(1,2)] by auto
    define d' where "d' = upd_win i (view_win d x y w h) d"
    have only: "only_redraws d d'" unfolding d'_def by (rule upd_view_only [OF i(1)])
    have ws': "dk_wins d' = (dk_wins d)[i := view_win d x y w h (dk_wins d ! i)]" "d'\<lparr>dk_wins := ws\<rparr> = d\<lparr>dk_wins := ws\<rparr>"
      "d' = d\<lparr>dk_wins := (dk_wins d)[i := view_win d x y w h (dk_wins d ! i)]\<rparr>" for ws
      by (simp_all add: d'_def upd_win_def)
    have lw: "length (dk_wins d') = length (dk_wins d)" by (simp add: ws'(1))
    have vis: "\<forall>k \<in> set js. k < length (dk_wins d') \<and> visible_win (dk_wins d' ! k)"
      using redraws_visible [OF only] Cons.prems(5) by simp
    have inv: "desk_inv d'" "desk_legible d'" "terms_fit d'"
      using only_redraws_inv [OF only] only_redraws_legible [OF only] only_redraws_fit [OF only] Cons.prems(1-3) by simp_all
    have v: "view_win d' x y w h = view_win d x y w h" by (rule view_win_cong) (rule only_redraws_keeps(2) [OF only])
    obtain ds ws where r: "render_wins now (x, y, w, h) js d' = Some (ds, d\<lparr>dk_wins := ws\<rparr>)" "fine ds" "length ws = length (dk_wins d')"
      "ds = concat (map (\<lambda>i. calls_of (win_render now d' i)) (filter (\<lambda>i. win_meets (dk_wins d' ! i) (x, y, w, h)) js))"
      "\<forall>j < length ws. ws ! j = (if j \<in> set js then view_win d x y w h (dk_wins d' ! j) else dk_wins d' ! j)"
      using Cons.IH [OF inv _ vis] Cons.prems(4) unfolding v ws'(2) by auto
    have all2: "list_all2 same_but_fm (dk_wins d) ((dk_wins d)[i := view_win d x y w h (dk_wins d ! i)])"
      by (rule only_wins) (use only ws'(3) in simp)
    have same: "dk_wins d' ! k = dk_wins d ! k" "win_render now d' k = win_render now d k" if "k \<in> set js" for k
    proof -
      have k: "k < length (dk_wins d)" "k \<noteq> i" using that Cons.prems(5) i(3) by auto
      then show e: "dk_wins d' ! k = dk_wins d ! k" by (simp add: ws'(1))
      show "win_render now d' k = win_render now d k"
        unfolding ws'(3) by (rule win_render_same [OF all2]) (use k in simp_all)
    qed
    have f: "filter (\<lambda>i. win_meets (dk_wins d' ! i) (x, y, w, h)) js = filter (\<lambda>i. win_meets (dk_wins d ! i) (x, y, w, h)) js"
      by (rule filter_cong [OF refl]) (simp add: same(1))
    have m: "map (\<lambda>i. calls_of (win_render now d' i)) (filter P js) = map (\<lambda>i. calls_of (win_render now d i)) (filter P js)" for P
      by (rule map_cong [OF refl]) (simp add: same(2))
    have ds: "ds = concat (map (\<lambda>i. calls_of (win_render now d i)) (filter (\<lambda>i. win_meets (dk_wins d ! i) (x, y, w, h)) js))"
      unfolding r(4) f m ..
    have "ws ! j = (if j \<in> set (i # js) then view_win d x y w h (dk_wins d ! j) else dk_wins d ! j)" if "j < length ws" for j
      using r(3,5) that i(3) unfolding ws'(1) by (cases "j = i") simp_all
    moreover have "render_wins now (x, y, w, h) (i # js) d = Some (ds1 @ ds, d\<lparr>dk_wins := ws\<rparr>)"
      unfolding render_wins.simps Let_def prod.case hit bind.bind_lunit using True d1(1) r(1) by (simp add: d'_def)
    ultimately show ?thesis using r(2,3) d1 True ds lw by (intro exI [of _ "ds1 @ ds"] exI [of _ ws]) (simp add: calls_of_def)
  qed
qed

definition viewed :: "desk \<Rightarrow> rect \<Rightarrow> desk" where
  "viewed d = (\<lambda>(x, y, w, h). d\<lparr>dk_wins := map (view_win d x y w h) (dk_wins d)\<rparr>)"

lemma viewed_only: "only_redraws d (viewed d r)"
proof -
  obtain x y w h where r: "r = (x, y, w, h)" by (cases r)
  show ?thesis unfolding only_redraws_def r viewed_def
    by (rule exI [of _ "dk_redraws d"], rule exI [of _ "map (view_win d x y w h) (dk_wins d)"]) (simp add: list_all2_conv_all_nth)
qed

lemma menu_meets_exact:
  assumes "rect_ends x y w h"
  shows "menu_meets d (x, y, w, h) = Some (dk_menu d \<and> x < menu_x + MENU_W \<and> menu_x < x + w \<and> y < menu_y d + menu_h \<and> menu_y d < y + h)"
  using assms by (auto simp: menu_meets_def rect_ends_def sadd_def)

lemma scene_draws_exact:
  assumes "clock_ok now" "desk_inv d" "desk_legible d" "terms_fit d" "rect_ends x y w h" "y1 > work_h d \<longleftrightarrow> y + h > work_h d"
  shows "scene_draws now (x, y, w, h) y1 d = Some (scene_calls now d (x, y, w, h), viewed d (x, y, w, h)) \<and> fine (scene_calls now d (x, y, w, h))"
proof -
  let ?v = "viewed d (x, y, w, h)"
  have vis: "\<forall>i \<in> set (sorted_wins d). i < length (dk_wins d) \<and> visible_win (dk_wins d ! i)" using sorted_wins_set(1) [of d] by simp
  obtain ds ws where r: "render_wins now (x, y, w, h) (sorted_wins d) d = Some (ds, d\<lparr>dk_wins := ws\<rparr>)" "fine ds" "length ws = length (dk_wins d)"
    "ds = concat (map (\<lambda>i. calls_of (win_render now d i)) (filter (\<lambda>i. win_meets (dk_wins d ! i) (x, y, w, h)) (sorted_wins d)))"
    "\<forall>j < length ws. ws ! j = (if j \<in> set (sorted_wins d) then view_win d x y w h (dk_wins d ! j) else dk_wins d ! j)"
    using render_wins_fine [OF assms(1,5,2-4) sorted_wins_set(2) vis] by blast
  have "ws = map (view_win d x y w h) (dk_wins d)"
  proof (rule nth_equalityI)
    fix j assume "j < length ws"
    then show "ws ! j = map (view_win d x y w h) (dk_wins d) ! j" using r(3,5) sorted_wins_set(1) [of d] by (auto simp: view_win_def)
  qed (simp add: r(3))
  then have v: "d\<lparr>dk_wins := ws\<rparr> = ?v" by (simp add: viewed_def)
  note only = viewed_only [of d "(x, y, w, h)"]
  have v': "?v = d\<lparr>dk_wins := map (view_win d x y w h) (dk_wins d)\<rparr>" by (simp add: viewed_def)
  have all2: "list_all2 same_but_fm (dk_wins d) (map (view_win d x y w h) (dk_wins d))"
    by (rule only_wins) (use only v' in simp)
  have bars: "render_taskbar now ?v = render_taskbar now d" "render_start_menu ?v = render_start_menu d"
    unfolding v' by (rule bars_same [OF all2])+
  have keep: "work_h ?v = work_h d" "dk_menu ?v = dk_menu d" "menu_y ?v = menu_y d" by (simp_all add: v' work_h_def menu_y_def)
  obtain t where t: "render_taskbar now d = Some t" "fine t" using render_taskbar_fine [OF assms(2,3,1)] by auto
  let ?bar = "if y + h > work_h d then calls_of (render_taskbar now d) else []"
  let ?on = "dk_menu d \<and> x < menu_x + MENU_W \<and> menu_x < x + w \<and> y < menu_y d + menu_h \<and> menu_y d < y + h"
  have bar: "(if y1 > work_h ?v then render_taskbar now ?v else Some []) = Some ?bar" unfolding keep bars assms(6) by (simp add: t(1) calls_of_def)
  have fb: "fine ?bar" by (simp add: t calls_of_def)
  have menu: "menu_meets ?v (x, y, w, h) = Some ?on" unfolding menu_meets_exact [OF assms(5)] keep ..
  have fm: "fine (if ?on then render_start_menu d else [])" using render_start_menu_fine [OF assms(2)] by simp
  have calls: "scene_calls now d (x, y, w, h) = icon_draw @ ds @ ?bar @ (if ?on then render_start_menu d else [])"
    by (simp only: scene_calls_def prod.case r(4) sorted_wins_stack)
  have "scene_draws now (x, y, w, h) y1 d = Some (icon_draw @ ds @ ?bar @ (if ?on then render_start_menu ?v else []), ?v)"
    unfolding scene_draws_def r(1) v bind.bind_lunit prod.case bar menu ..
  then show ?thesis unfolding bars(2) calls using icon_draw_fine r(2) fb fm by simp
qed

text \<open>The colour of a pixel of a rectangle that is composed.\<close>

definition scene_color :: "painter \<Rightarrow> desk \<Rightarrow> rect \<Rightarrow> gfx \<Rightarrow> int \<Rightarrow> int \<Rightarrow> u32" where
  "scene_color p d r g px py = painted (pt_font p) (scene_calls (pt_now p) d r) px py (ground (pt_wall p) g px py)"

lemma scene_color_frame: "gx_h g' = gx_h g \<Longrightarrow> gx_w g' = gx_w g \<Longrightarrow> gx_bb g' = gx_bb g \<Longrightarrow> scene_color p d r g' px py = scene_color p d r g px py"
  by (simp add: scene_color_def ground_def pixel_def split: option.split)

text \<open>A rectangle of the screen that holds what the scene of a state has there, over the background.\<close>

definition shows_scene :: "painter \<Rightarrow> desk \<Rightarrow> rect \<Rightarrow> gfx \<Rightarrow> gfx \<Rightarrow> bool" where
  "shows_scene p d r g g' \<longleftrightarrow> (case r of (x, y, w, h) \<Rightarrow>
     \<forall>px py. on_screen g px py \<longrightarrow> pixel g' px py = (if in_rect x y w h px py then scene_color p d r g px py else pixel g px py))"

lemma scene_region_ok:
  assumes p: "paintable p d" and g: "screen_ok g" "\<not> gx_clip_on g" "gx_w g = dk_gw d" "gx_h g = dk_gh d" and r: "rect_ends x y w h"
  shows "\<exists>g'. scene_region p (x, y, w, h) (g, d) = Some (g', if hits_screen d x y w h then viewed d (x, y, w, h) else d) \<and> bb_only g g'
    \<and> shows_scene p d (x, y, w, h) g g'"
proof -
  have r64: "rect64 x y w h" using r by (simp add: rect_ends_def)
  obtain c where c: "bb_clip x y w h g = Some c" "\<And>px py. in_bounds c px py \<longleftrightarrow> in_rect x y w h px py \<and> visible g px py"
    "\<And>x0 y0 x1 y1. c = Some (x0, y0, x1, y1) \<Longrightarrow> 0 \<le> x0 \<and> x0 < x1 \<and> x1 \<le> int (gx_w g) \<and> 0 \<le> y0 \<and> y0 < y1 \<and> y1 \<le> int (gx_h g)"
    using bb_clip_spec [OF r64 g(1)] by blast
  have vis: "visible g px py \<longleftrightarrow> on_screen g px py" for px py using g(2) by (simp add: visible_def on_screen_def)
  show ?thesis
  proof (cases c)
    case None
    have "\<not> hits_screen d x y w h"
    proof
      assume "hits_screen d x y w h"
      then have "in_rect x y w h (max 0 x) (max 0 y) \<and> visible g (max 0 x) (max 0 y)"
        using g(3,4) p unfolding vis paintable_def desk_inv_def screen_fits_def hits_screen_def in_rect_def on_screen_def by auto
      then show False using c(2) [of "max 0 x" "max 0 y"] None by (simp add: in_bounds_def)
    qed
    moreover have "\<not> in_rect x y w h px py" if "on_screen g px py" for px py
      using c(2) [of px py] that None vis by (simp add: in_bounds_def)
    then have "shows_scene p d (x, y, w, h) g g" by (simp add: shows_scene_def)
    ultimately show ?thesis using c(1) None by (intro exI [of _ g]) (simp add: scene_region_def)
  next
    case (Some b)
    obtain x0 y0 x1 y1 where b: "c = Some (x0, y0, x1, y1)" using Some by (cases b) simp
    have bnd: "0 \<le> x0" "x0 < x1" "x1 \<le> int (gx_w g)" "0 \<le> y0" "y0 < y1" "y1 \<le> int (gx_h g)" using c(3) [OF b] by simp_all
    have inb: "x0 \<le> px \<and> px < x1 \<and> y0 \<le> py \<and> py < y1 \<longleftrightarrow> in_rect x y w h px py \<and> on_screen g px py" for px py
      using c(2) [of px py] unfolding b in_bounds_def vis by simp
    have hit: "hits_screen d x y w h" using inb [of x0 y0] bnd g(3,4) by (auto simp: hits_screen_def in_rect_def on_screen_def)
    have "y1 = min (int (gx_h g)) (y + h)"
      using inb [of x0 "y1 - 1"] inb [of x0 y1] bnd by (auto simp: in_rect_def on_screen_def min_def)
    then have yb: "y1 > work_h d \<longleftrightarrow> y + h > work_h d" using g(4) by (auto simp: work_h_def TASKBAR_H_def)
    define g0 where "g0 = g\<lparr>gx_clip_on := True, gx_clip := (x0, y0, x1, y1)\<rparr>"
    have g0: "screen_ok g0" "gx_clip_on g0" "gx_clip g0 = (x0, y0, x1, y1)" "gx_w g0 = gx_w g" "gx_h g0 = gx_h g" "gx_bb g0 = gx_bb g"
      "on_screen g0 = on_screen g"
      using g(1) by (simp_all add: g0_def screen_ok_def on_screen_def fun_eq_iff)
    have v0: "on_screen g px py \<Longrightarrow> visible g0 px py \<longleftrightarrow> in_rect x y w h px py" for px py
      using inb [of px py] unfolding visible_def g0(2-5) by (auto simp: on_screen_def g0(2))
    have pp: "font_ok (pt_font p)" "wall_ok (pt_wall p)" "clock_ok (pt_now p)" "desk_inv d" "desk_legible d" "terms_fit d"
      using p by (simp_all add: paintable_def)
    obtain g1 where g1: "scene_background (pt_wall p) (x0, y0, x1, y1) g0 = Some g1" "paints g0 g1 (\<lambda>px py. Some (ground (pt_wall p) g0 px py))"
      using background_exact [OF g0(1-3) pp(2)] bnd g0(4,5) by auto
    note d1 = paints_draws [OF g1(2)]
    have s1: "on_screen g1 = on_screen g" "visible g1 = visible g0"
      using bb_only_simps(5,6) [of g0 g1] d1 g0(7) by (simp_all add: draws_def)
    define ds where "ds = scene_calls (pt_now p) d (x, y, w, h)"
    have ds: "scene_draws (pt_now p) (x, y, w, h) y1 d = Some (ds, viewed d (x, y, w, h))" "fine ds"
      using scene_draws_exact [OF pp(3-6) r yb] by (simp_all add: ds_def)
    obtain g2 where g2: "run_draws (pt_font p) ds g1 = Some g2" "draws g1 g2"
      "\<forall>px py. on_screen g px py \<and> visible g0 px py \<longrightarrow> pixel g2 px py = painted (pt_font p) ds px py (pixel g1 px py)"
      using run_draws_exact [OF pp(1) ds(2) draws_ok [OF d1 g0(1)]] unfolding s1 by blast
    have d: "draws g0 g2" by (rule draws_trans [OF d1 g2(2)])
    then obtain bb where bb: "g2 = g0\<lparr>gx_bb := bb\<rparr>" "length bb = length (gx_bb g0)" "\<forall>j < length bb. gx_w g0 * gx_h g0 \<le> j \<longrightarrow> bb ! j = gx_bb g0 ! j"
      by (auto simp: draws_def bb_only_def)
    define g' where "g' = g2\<lparr>gx_clip_on := gx_clip_on g, gx_clip := gx_clip g\<rparr>"
    have g': "g' = g\<lparr>gx_bb := bb\<rparr>" by (simp add: g'_def bb(1) g0_def)
    have px': "pixel g' px py = pixel g2 px py" "pixel g0 px py = pixel g px py" for px py by (simp_all add: pixel_def g'_def g0(4,6))
    have gr: "ground (pt_wall p) g0 px py = ground (pt_wall p) g px py" for px py by (simp add: ground_def px' g0(5) split: option.split)
    have "bb_only g g'" unfolding bb_only_def g' by (rule exI [of _ bb]) (use bb(2,3) in \<open>simp add: g0_def\<close>)
    moreover have "pixel g' px py = (if in_rect x y w h px py then scene_color p d (x, y, w, h) g px py else pixel g px py)"
      if o: "on_screen g px py" for px py
    proof (cases "in_rect x y w h px py")
      case True
      then have v: "visible g0 px py" using v0 [OF o] by simp
      then have "pixel g1 px py = ground (pt_wall p) g px py" using g1(2) o by (simp add: paints_def gr g0(7))
      then show ?thesis using g2(3) o v True by (simp add: px'(1) scene_color_def ds_def)
    next
      case False
      then have "\<not> visible g0 px py" using v0 [OF o] by simp
      then have "pixel g2 px py = pixel g0 px py" using d o by (simp add: draws_def g0(7))
      then show ?thesis using False by (simp add: px')
    qed
    then have "shows_scene p d (x, y, w, h) g g'" by (simp add: shows_scene_def)
    moreover have "scene_region p (x, y, w, h) (g, d) = Some (g', viewed d (x, y, w, h))"
      using c(1) b g1(1) ds(1) g2(1) unfolding g0_def by (simp add: scene_region_def g'_def)
    ultimately show ?thesis using hit by auto
  qed
qed

end
