(* ===== verification/Desktop_Frame.thy ===== *)
theory Desktop_Frame
  imports Desktop_Pixels
begin

text \<open>
  A frame of \<^verbatim>\<open>kernel/desktop.c\<close>: composing a rectangle puts the scene there; the cursor is drawn exactly; presenting
  repairs the place that the cursor left and keeps the display equal to the scene with the cursor on it.
\<close>

section \<open>The cursor\<close>

definition cursor_color :: "nat \<Rightarrow> u32" where
  "cursor_color v = (if v = 1 then CURSOR_OUTLINE else CURSOR_FILL)"

lemma put_pixel_exact:
  assumes "screen_ok g" "\<not> gx_clip_on g"
  shows "\<exists>g'. bb_put_pixel x y c g = Some g' \<and> bb_only g g'
    \<and> (\<forall>px py. on_screen g px py \<longrightarrow> pixel g' px py = (if px = x \<and> py = y then c else pixel g px py))"
proof (cases "on_screen g x y")
  case False
  then have "bb_put_pixel x y c g = Some g" by (auto simp: bb_put_pixel_def on_screen_def)
  then show ?thesis using False by (intro exI [of _ g]) auto
next
  case True
  then have v: "nat x < gx_w g" "nat y < gx_h g" "0 \<le> x" "0 \<le> y" by (auto simp: on_screen_def)
  let ?i = "nat y * gx_w g + nat x"
  let ?g = "g\<lparr>gx_bb := (gx_bb g)[?i := c]\<rparr>"
  have i: "?i < gx_w g * gx_h g" by (rule row_less [OF v(1,2)])
  have il: "?i < length (gx_bb g)" using i assms(1) by (simp add: screen_ok_def)
  have run: "bb_put_pixel x y c g = Some ?g" using True il assms(2) by (simp add: bb_put_pixel_def on_screen_def wr_Some)
  have bb: "bb_only g ?g" unfolding bb_only_def by (rule exI [of _ "(gx_bb g)[?i := c]"]) (use i in auto)
  have "pixel ?g px py = (if px = x \<and> py = y then c else pixel g px py)" if "on_screen g px py" for px py
  proof -
    have p: "nat px < gx_w g" "0 \<le> px" "0 \<le> py" using that by (auto simp: on_screen_def)
    have "nat py * gx_w g + nat px = ?i \<longleftrightarrow> px = x \<and> py = y"
      using row_index [OF p(1) v(1)] p(2,3) v(3,4) by (auto simp: eq_nat_nat_iff)
    then show ?thesis using il by (auto simp: pixel_def)
  qed
  then show ?thesis using run bb by blast
qed

lemma bb_only_frame: "bb_only g g' \<Longrightarrow> screen_ok g' = screen_ok g" "bb_only g g' \<Longrightarrow> gx_clip_on g' = gx_clip_on g"
  "bb_only g g' \<Longrightarrow> on_screen g' = on_screen g" "bb_only g g' \<Longrightarrow> gx_w g' = gx_w g" "bb_only g g' \<Longrightarrow> gx_h g' = gx_h g"
  by (auto simp: bb_only_def screen_ok_def on_screen_def fun_eq_iff)

lemma cursor_row_exact:
  "screen_ok g \<Longrightarrow> \<not> gx_clip_on g \<Longrightarrow> \<exists>g'. cursor_row x y vs g = Some g' \<and> bb_only g g'
    \<and> (\<forall>px py. on_screen g px py \<longrightarrow> pixel g' px py =
        (if py = y \<and> x \<le> px \<and> px < x + int (length vs) \<and> vs ! nat (px - x) \<noteq> 0 then cursor_color (vs ! nat (px - x)) else pixel g px py))"
proof (induction vs arbitrary: x g)
  case (Cons v vs)
  obtain g1 where g1: "(if v = 0 then Some g else bb_put_pixel x y (if v = 1 then CURSOR_OUTLINE else CURSOR_FILL) g) = Some g1" "bb_only g g1"
    "\<forall>px py. on_screen g px py \<longrightarrow> pixel g1 px py = (if px = x \<and> py = y \<and> v \<noteq> 0 then cursor_color v else pixel g px py)"
  proof (cases "v = 0")
    case False
    then show ?thesis using put_pixel_exact [OF Cons.prems, of x y "cursor_color v"] that by (auto simp: cursor_color_def)
  qed (use that [of g] in simp)
  note f = bb_only_frame [OF g1(2)]
  obtain g2 where g2: "cursor_row (x + 1) y vs g1 = Some g2" "bb_only g1 g2"
    "\<forall>px py. on_screen g px py \<longrightarrow> pixel g2 px py =
        (if py = y \<and> x + 1 \<le> px \<and> px < x + 1 + int (length vs) \<and> vs ! nat (px - (x + 1)) \<noteq> 0 then cursor_color (vs ! nat (px - (x + 1))) else pixel g1 px py)"
    using Cons.IH [of g1 "x + 1"] Cons.prems unfolding f by blast
  have "pixel g2 px py = (if py = y \<and> x \<le> px \<and> px < x + int (length (v # vs)) \<and> (v # vs) ! nat (px - x) \<noteq> 0
      then cursor_color ((v # vs) ! nat (px - x)) else pixel g px py)" if o: "on_screen g px py" for px py
  proof -
    consider "px < x" | "px = x" | "x + 1 \<le> px" by linarith
    then show ?thesis
    proof cases
      case 3
      then have "nat (px - x) = Suc (nat (px - (x + 1)))" by simp
      then show ?thesis using g1(3) g2(3) o 3 by simp
    qed (use g1(3) g2(3) o in auto)
  qed
  then show ?case using g1(1) g2(1) bb_only_trans [OF g1(2) g2(2)] by (auto simp: bind_eq_Some_conv)
qed auto

lemma cursor_rows_exact:
  "screen_ok g \<Longrightarrow> \<not> gx_clip_on g \<Longrightarrow> \<exists>g'. cursor_rows x y rs g = Some g' \<and> bb_only g g'
    \<and> (\<forall>px py. on_screen g px py \<longrightarrow> pixel g' px py =
        (if y \<le> py \<and> py < y + int (length rs) \<and> x \<le> px \<and> px < x + int (length (rs ! nat (py - y))) \<and> rs ! nat (py - y) ! nat (px - x) \<noteq> 0
         then cursor_color (rs ! nat (py - y) ! nat (px - x)) else pixel g px py))"
proof (induction rs arbitrary: y g)
  case (Cons r rs)
  obtain g1 where g1: "cursor_row x y r g = Some g1" "bb_only g g1"
    "\<forall>px py. on_screen g px py \<longrightarrow> pixel g1 px py =
        (if py = y \<and> x \<le> px \<and> px < x + int (length r) \<and> r ! nat (px - x) \<noteq> 0 then cursor_color (r ! nat (px - x)) else pixel g px py)"
    using cursor_row_exact [OF Cons.prems] by blast
  note f = bb_only_frame [OF g1(2)]
  obtain g2 where g2: "cursor_rows x (y + 1) rs g1 = Some g2" "bb_only g1 g2"
    "\<forall>px py. on_screen g px py \<longrightarrow> pixel g2 px py =
        (if y + 1 \<le> py \<and> py < y + 1 + int (length rs) \<and> x \<le> px \<and> px < x + int (length (rs ! nat (py - (y + 1))))
            \<and> rs ! nat (py - (y + 1)) ! nat (px - x) \<noteq> 0
         then cursor_color (rs ! nat (py - (y + 1)) ! nat (px - x)) else pixel g1 px py)"
    using Cons.IH [of g1 "y + 1"] Cons.prems unfolding f by blast
  have "pixel g2 px py = (if y \<le> py \<and> py < y + int (length (r # rs)) \<and> x \<le> px \<and> px < x + int (length ((r # rs) ! nat (py - y)))
        \<and> (r # rs) ! nat (py - y) ! nat (px - x) \<noteq> 0
      then cursor_color ((r # rs) ! nat (py - y) ! nat (px - x)) else pixel g px py)" if o: "on_screen g px py" for px py
  proof -
    consider "py < y" | "py = y" | "y + 1 \<le> py" by linarith
    then show ?thesis
    proof cases
      case 3
      then have "nat (py - y) = Suc (nat (py - (y + 1)))" by simp
      then show ?thesis using g1(3) g2(3) o 3 by simp
    qed (use g1(3) g2(3) o in auto)
  qed
  then show ?case using g1(1) g2(1) bb_only_trans [OF g1(2) g2(2)] by (auto simp: bind_eq_Some_conv)
qed auto

text \<open>The pixels of the cursor's shape have its colours.\<close>

definition cursor_shape :: "int \<Rightarrow> int \<Rightarrow> nat" where
  "cursor_shape i j = (if 0 \<le> i \<and> i < CURSOR_W \<and> 0 \<le> j \<and> j < CURSOR_H then cursor_bmp ! nat j ! nat i else 0)"

definition cursor_on :: "gfx \<Rightarrow> int \<times> int \<Rightarrow> bool" where
  "cursor_on g = (\<lambda>(cx, cy). \<forall>px py. on_screen g px py \<and> cursor_shape (px - cx) (py - cy) \<noteq> 0
      \<longrightarrow> pixel g px py = cursor_color (cursor_shape (px - cx) (py - cy)))"

lemma cursor_bmp_shape: "length cursor_bmp = 20" "k < 20 \<Longrightarrow> length (cursor_bmp ! k) = 12"
proof -
  show "length cursor_bmp = 20" by (simp add: cursor_bmp_def)
  have "list_all (\<lambda>r. length r = 12) cursor_bmp" by (simp add: cursor_bmp_def)
  then show "k < 20 \<Longrightarrow> length (cursor_bmp ! k) = 12" by (simp add: list_all_length cursor_bmp_def)
qed

lemma cursor_draw_exact:
  assumes "screen_ok g" "\<not> gx_clip_on g"
  shows "\<exists>g'. cursor_draw_bb cx cy g = Some g' \<and> bb_only g g' \<and> cursor_on g' (cx, cy)
    \<and> (\<forall>px py. on_screen g px py \<and> cursor_shape (px - cx) (py - cy) = 0 \<longrightarrow> pixel g' px py = pixel g px py)"
proof -
  have g: "g\<lparr>gx_clip_on := False\<rparr> = g" using assms(2) by simp
  obtain g' where g': "cursor_rows cx cy cursor_bmp g = Some g'" "bb_only g g'"
    and px: "\<And>px py. on_screen g px py \<Longrightarrow> pixel g' px py =
        (if cy \<le> py \<and> py < cy + int (length cursor_bmp) \<and> cx \<le> px \<and> px < cx + int (length (cursor_bmp ! nat (py - cy)))
            \<and> cursor_bmp ! nat (py - cy) ! nat (px - cx) \<noteq> 0
         then cursor_color (cursor_bmp ! nat (py - cy) ! nat (px - cx)) else pixel g px py)"
    using cursor_rows_exact [OF assms, of cx cy cursor_bmp] by blast
  have e: "pixel g' px py = (if cursor_shape (px - cx) (py - cy) \<noteq> 0 then cursor_color (cursor_shape (px - cx) (py - cy)) else pixel g px py)"
    if "on_screen g px py" for px py
  proof (cases "cy \<le> py \<and> py < cy + 20")
    case True
    then have "length (cursor_bmp ! nat (py - cy)) = 12" by (intro cursor_bmp_shape(2)) auto
    then show ?thesis using px [OF that] True by (simp add: cursor_shape_def CURSOR_W_def CURSOR_H_def cursor_bmp_shape(1))
  next
    case False
    then show ?thesis using px [OF that] by (auto simp: cursor_shape_def CURSOR_W_def CURSOR_H_def cursor_bmp_shape(1))
  qed
  have "gx_clip_on g' = gx_clip_on g" using bb_only_frame(2) [OF g'(2)] .
  then have "cursor_draw_bb cx cy g = Some (g'\<lparr>gx_clip_on := gx_clip_on g'\<rparr>)" unfolding cursor_draw_bb_def g g'(1) by simp
  then have "cursor_draw_bb cx cy g = Some g'" by simp
  moreover have "cursor_on g' (cx, cy)" using e bb_only_frame(3) [OF g'(2)] by (simp add: cursor_on_def)
  ultimately show ?thesis using g'(2) e by (intro exI [of _ g']) simp
qed

section \<open>Composing and presenting\<close>

lemma damage_add_shape:
  assumes "damage_add x y w h g = Some g'"
  obtains on r where "g' = g\<lparr>gx_dmg_on := on, gx_dmg := r\<rparr>"
proof -
  obtain c where c: "bb_clip x y w h g = Some c" using assms unfolding damage_add_def by (cases "bb_clip x y w h g") auto
  show ?thesis
  proof (cases c)
    case None
    then have "g' = g\<lparr>gx_dmg_on := gx_dmg_on g, gx_dmg := gx_dmg g\<rparr>" using assms c by (simp add: damage_add_def)
    then show ?thesis by (rule that)
  next
    case (Some q)
    obtain x0 y0 x1 y1 where q: "q = (x0, y0, x1, y1)" by (cases q)
    obtain dx dy dw dh where d: "gx_dmg g = (dx, dy, dw, dh)" by (cases "gx_dmg g")
    have "g' = g\<lparr>gx_dmg_on := True, gx_dmg := (if gx_dmg_on g
        then (min dx x0, min dy y0, max (dx + dw) x1 - min dx x0, max (dy + dh) y1 - min dy y0) else (x0, y0, x1 - x0, y1 - y0))\<rparr>"
      using assms c Some q d by (cases "gx_dmg_on g") (auto simp: damage_add_def Let_def intro!: gfx.equality)
    then show ?thesis by (rule that)
  qed
qed

lemma damage_add_frame:
  assumes "damage_add x y w h g = Some g'"
  shows "gx_w g' = gx_w g" "gx_h g' = gx_h g" "gx_bb g' = gx_bb g" "gx_flip g' = gx_flip g"
  by (rule damage_add_shape [OF assms], simp)+

lemma damage_add_bb: "damage_add x y w h (g\<lparr>gx_bb := b\<rparr>) = map_option (\<lambda>g'. g'\<lparr>gx_bb := b\<rparr>) (damage_add x y w h g)"
proof -
  have f: "gx_w (g\<lparr>gx_bb := b\<rparr>) = gx_w g" "gx_h (g\<lparr>gx_bb := b\<rparr>) = gx_h g" "gx_clip_on (g\<lparr>gx_bb := b\<rparr>) = gx_clip_on g"
    "gx_clip (g\<lparr>gx_bb := b\<rparr>) = gx_clip g" by simp_all
  have c: "bb_clip x y w h (g\<lparr>gx_bb := b\<rparr>) = bb_clip x y w h g" unfolding bb_clip_def f ..
  show ?thesis
  proof (cases "bb_clip x y w h g")
    case None
    then show ?thesis by (simp add: damage_add_def c)
  next
    case (Some r)
    show ?thesis
    proof (cases r)
      case None
      then show ?thesis using Some by (simp add: damage_add_def c)
    next
      case (Some q)
      then show ?thesis using \<open>bb_clip x y w h g = Some r\<close> by (cases q; cases "gx_dmg g"; cases "gx_dmg_on g") (simp_all add: damage_add_def c Let_def)
    qed
  qed
qed

lemma flip_inv_screen: "flip_inv g \<Longrightarrow> screen_ok g \<and> \<not> gx_clip_on g"
  by (simp add: flip_inv_def gfx_ok_def)

text \<open>The damage after adding a rectangle covers what it covered, and the rectangle.\<close>

lemma damage_add_covers:
  assumes inv: "flip_inv g" and r: "rect64 x y w h" and a: "damage_add x y w h g = Some g'"
    and o: "on_screen g px py" and c: "covered (gx_dmg_on g) (gx_dmg g) px py \<or> in_rect x y w h px py"
  shows "covered (gx_dmg_on g') (gx_dmg g') px py"
proof -
  have s: "screen_ok g" "\<not> gx_clip_on g" using flip_inv_screen [OF inv] by simp_all
  obtain b where b: "bb_clip x y w h g = Some b" "\<And>px py. in_bounds b px py \<longleftrightarrow> in_rect x y w h px py \<and> visible g px py"
    using bb_clip_spec [OF r s(1)] by blast
  have vis: "visible g px py" using o s(2) by (simp add: visible_def on_screen_def)
  show ?thesis
  proof (cases b)
    case None
    then have "g' = g" "\<not> in_rect x y w h px py" using a b(1) b(2) [of px py] vis by (auto simp: damage_add_def in_bounds_def)
    then show ?thesis using c by simp
  next
    case (Some q)
    obtain x0 y0 x1 y1 where q: "q = (x0, y0, x1, y1)" by (cases q)
    have i: "in_rect x y w h px py \<Longrightarrow> x0 \<le> px \<and> px < x1 \<and> y0 \<le> py \<and> py < y1" using b(2) [of px py] vis Some q by (simp add: in_bounds_def)
    obtain dx dy dw dh where d: "gx_dmg g = (dx, dy, dw, dh)" by (cases "gx_dmg g")
    show ?thesis
    proof (cases "gx_dmg_on g")
      case True
      then have "gx_dmg_on g'" "gx_dmg g' = (min dx x0, min dy y0, max (dx + dw) x1 - min dx x0, max (dy + dh) y1 - min dy y0)"
        using a b(1) Some q d by (auto simp: damage_add_def Let_def)
      then show ?thesis using c i True d by (auto simp: covered_def in_rect_def)
    next
      case False
      then have "gx_dmg_on g'" "gx_dmg g' = (x0, y0, x1 - x0, y1 - y0)" using a b(1) Some q by (auto simp: damage_add_def)
      then show ?thesis using c i False by (auto simp: covered_def in_rect_def)
    qed
  qed
qed

lemma damage_touches_iff:
  assumes "gx_dmg_on g \<longrightarrow> dmg_ok g (gx_dmg g)" "0 < w" "0 < h"
  shows "damage_touches x y w h g \<longleftrightarrow> (\<exists>px py. on_screen g px py \<and> in_rect x y w h px py \<and> covered (gx_dmg_on g) (gx_dmg g) px py)"
proof -
  obtain dx dy dw dh where d: "gx_dmg g = (dx, dy, dw, dh)" by (cases "gx_dmg g")
  show ?thesis
  proof
    assume t: "damage_touches x y w h g"
    then have "gx_dmg_on g" "x < dx + dw" "x + w > dx" "y < dy + dh" "y + h > dy" using d by (auto simp: damage_touches_def)
    moreover have "0 \<le> dx" "0 \<le> dy" "0 < dw" "0 < dh" "dx + dw \<le> int (gx_w g)" "dy + dh \<le> int (gx_h g)" using assms(1) d \<open>gx_dmg_on g\<close> by (auto simp: dmg_ok_def)
    ultimately show "\<exists>px py. on_screen g px py \<and> in_rect x y w h px py \<and> covered (gx_dmg_on g) (gx_dmg g) px py"
      using assms(2,3) d by (intro exI [of _ "max x dx"] exI [of _ "max y dy"]) (auto simp: on_screen_def in_rect_def covered_def)
  next
    assume "\<exists>px py. on_screen g px py \<and> in_rect x y w h px py \<and> covered (gx_dmg_on g) (gx_dmg g) px py"
    then show "damage_touches x y w h g" using d by (auto simp: damage_touches_def covered_def in_rect_def)
  qed
qed

text \<open>Between two frames: the pages are repairable, and the cursor is in the backbuffer where it was last drawn, unless
  the damage reaches it and the next frame draws it again.\<close>

definition frame_inv :: "gfx \<Rightarrow> int \<times> int \<Rightarrow> bool" where
  "frame_inv g pos \<longleftrightarrow> flip_inv g \<and> (\<not> damage_touches (fst pos) (snd pos) CURSOR_W CURSOR_H g \<longrightarrow> cursor_on g pos)"

definition on_desk :: "gfx \<Rightarrow> desk \<Rightarrow> bool" where
  "on_desk g d \<longleftrightarrow> gx_w g = dk_gw d \<and> gx_h g = dk_gh d"

lemma cursor_on_cong:
  assumes "cursor_on g pos" "on_screen g' = on_screen g"
    and "\<And>px py. on_screen g px py \<Longrightarrow> in_rect (fst pos) (snd pos) CURSOR_W CURSOR_H px py \<Longrightarrow> pixel g' px py = pixel g px py"
  shows "cursor_on g' pos"
proof -
  obtain cx cy where p: "pos = (cx, cy)" by (cases pos)
  have "pixel g' px py = cursor_color (cursor_shape (px - cx) (py - cy))"
    if "on_screen g px py" "cursor_shape (px - cx) (py - cy) \<noteq> 0" for px py
  proof -
    have "in_rect cx cy CURSOR_W CURSOR_H px py" using that(2) by (auto simp: cursor_shape_def in_rect_def split: if_splits)
    then have "pixel g' px py = pixel g px py" using assms(3) [OF that(1)] by (simp add: p)
    also have "\<dots> = cursor_color (cursor_shape (px - cx) (py - cy))" using assms(1) that by (simp add: cursor_on_def p)
    finally show ?thesis .
  qed
  then show ?thesis by (simp add: cursor_on_def p assms(2))
qed

lemma compose_rect_ok:
  assumes p: "paintable p d" and g: "flip_inv g" "on_desk g d" and re: "rect_ends x y w h"
  shows "\<exists>g' d'. compose_rect p (x, y, w, h) (g, d) = Some (g', d') \<and> only_redraws d d' \<and> redraw_rect x y w h d = note_damage x y w h d'
    \<and> flip_inv g' \<and> on_desk g' d' \<and> gx_flip g' = gx_flip g \<and> (frame_inv g pos \<longrightarrow> frame_inv g' pos)
    \<and> shows_scene p d (x, y, w, h) g g'"
proof -
  have r: "rect64 x y w h" using re by (simp add: rect_ends_def)
  have s: "screen_ok g" "\<not> gx_clip_on g" using flip_inv_screen [OF g(1)] by simp_all
  define d' where "d' = (if hits_screen d x y w h then viewed d (x, y, w, h) else d)"
  obtain g1 where g1: "scene_region p (x, y, w, h) (g, d) = Some (g1, d')" "bb_only g g1" "shows_scene p d (x, y, w, h) g g1"
    using scene_region_ok [OF p s _ _ re] g(2) unfolding d'_def on_desk_def by blast
  have off: "\<forall>px py. on_screen g px py \<and> \<not> in_rect x y w h px py \<longrightarrow> pixel g1 px py = pixel g px py"
    using g1(3) by (simp add: shows_scene_def)
  obtain g2 where g2: "damage_add x y w h g1 = Some g2" "flip_inv g2" "gx_bb g2 = gx_bb g1"
    using damage_add_inv [OF g(1) g1(2) r off] by blast
  have k: "only_redraws d d'" using viewed_only by (simp add: d'_def)
  note fr = damage_add_frame [OF g2(1)] bb_only_frame [OF g1(2)]
  have fl: "gx_flip g1 = gx_flip g" using g1(2) by (auto simp: bb_only_def)
  have os: "on_screen g2 = on_screen g" by (simp add: on_screen_def fun_eq_iff fr)
  have pix: "pixel g2 px py = pixel g1 px py" for px py by (simp add: pixel_def fr)
  have "frame_inv g2 pos" if f: "frame_inv g pos"
    unfolding frame_inv_def
  proof (intro conjI impI)
    assume nt: "\<not> damage_touches (fst pos) (snd pos) CURSOR_W CURSOR_H g2"
    have dm: "gx_dmg_on g1 = gx_dmg_on g" "gx_dmg g1 = gx_dmg g" using g1(2) by (auto simp: bb_only_def)
    have dok: "gx_dmg_on g \<longrightarrow> dmg_ok g (gx_dmg g)" "gx_dmg_on g2 \<longrightarrow> dmg_ok g2 (gx_dmg g2)" using g(1) g2(2) by (simp_all add: flip_inv_def)
    have wh: "(0 :: int) < CURSOR_W" "(0 :: int) < CURSOR_H" by (simp_all add: CURSOR_W_def CURSOR_H_def)
    obtain g3 where g3: "damage_add x y w h g = Some g3" using damage_add_inv [OF g(1) bb_only_refl r] by blast
    obtain b where b: "g1 = g\<lparr>gx_bb := b\<rparr>" using g1(2) by (auto simp: bb_only_def)
    have c3: "gx_dmg_on g2 = gx_dmg_on g3" "gx_dmg g2 = gx_dmg g3"
      using g2(1) unfolding b damage_add_bb g3 by auto
    have cov: "covered (gx_dmg_on g2) (gx_dmg g2) px py"
      if "on_screen g px py" "covered (gx_dmg_on g) (gx_dmg g) px py \<or> in_rect x y w h px py" for px py
      using damage_add_covers [OF g(1) r g3 that] unfolding c3 .
    have out: "\<not> (covered (gx_dmg_on g) (gx_dmg g) px py \<or> in_rect x y w h px py)"
      if "on_screen g px py" "in_rect (fst pos) (snd pos) CURSOR_W CURSOR_H px py" for px py
      using nt cov [OF that(1)] that unfolding damage_touches_iff [OF dok(2) wh] os by blast
    then have "\<not> damage_touches (fst pos) (snd pos) CURSOR_W CURSOR_H g" unfolding damage_touches_iff [OF dok(1) wh] by blast
    then have "cursor_on g pos" using f by (simp add: frame_inv_def)
    then show "cursor_on g2 pos" using off out pix os by (intro cursor_on_cong [of g pos g2]) auto
  qed (rule g2(2))
  moreover have "compose_rect p (x, y, w, h) (g, d) = Some (g2, d')" using g1(1) g2(1) by (simp add: compose_rect_def)
  moreover have "redraw_rect x y w h d = note_damage x y w h d'" by (simp add: redraw_rect_def d'_def viewed_def)
  moreover have "on_desk g2 d'" using g(2) only_redraws_keeps [OF k] by (simp add: on_desk_def fr)
  ultimately show ?thesis using g2(2) fr(4) fl g1(3) k by (intro exI [of _ g2] exI [of _ d']) (simp add: pix shows_scene_def)
qed

lemma present_flip_frame:
  assumes "present_flip g = Some g'"
  shows "gx_w g' = gx_w g" "gx_h g' = gx_h g"
proof -
  have b: "blit_dmg on r g = Some g' \<Longrightarrow> gx_w g' = gx_w g \<and> gx_h g' = gx_h g" for on r g g'
    unfolding blit_dmg_def blit_rect_def by (auto split: prod.splits if_splits option.splits simp: bind_eq_Some_conv)
  show "gx_w g' = gx_w g" "gx_h g' = gx_h g"
    using assms unfolding present_flip_unfold Let_def by (auto simp: bind_eq_Some_conv dest!: b)
qed

lemma present_ok:
  assumes p: "paintable p d" and g: "frame_inv g (bx, by)" "gx_flip g" "on_desk g d" and n: "near bx" "near by"
  shows "\<exists>g' d'. present p (bx, by) (g, d) = Some ((dk_cx d, dk_cy d), g', d') \<and> only_redraws d d' \<and> on_desk g' d'
    \<and> frame_inv g' (dk_cx d, dk_cy d) \<and> cursor_on g' (dk_cx d, dk_cy d)
    \<and> (\<forall>px py. on_screen g' px py \<longrightarrow> shows_pixel g' (gx_front g') px py)
    \<and> (\<forall>px py. on_screen g px py \<and> cursor_shape (px - dk_cx d) (py - dk_cy d) = 0
         \<longrightarrow> pixel g' px py = (if (bx, by) \<noteq> (dk_cx d, dk_cy d) \<and> in_rect bx by CURSOR_W CURSOR_H px py
                                then scene_color p d (bx, by, CURSOR_W, CURSOR_H) g px py else pixel g px py))"
proof -
  define cx where "cx = dk_cx d"
  define cy where "cy = dk_cy d"
  have inv: "flip_inv g" using g(1) by (simp add: frame_inv_def)
  have rb: "rect_ends bx by CURSOR_W CURSOR_H" using n by (simp add: rect_ends_def rect64_def in64_def near_def CURSOR_W_def CURSOR_H_def)
  have dd: "desk_inv d" using p by (simp add: paintable_def)
  then have rc: "rect64 cx cy CURSOR_W CURSOR_H"
    by (intro near_rect64) (auto simp: near_def cx_def cy_def desk_inv_def screen_fits_def CURSOR_W_def CURSOR_H_def)
  define moved where "moved \<longleftrightarrow> bx \<noteq> cx \<or> by \<noteq> cy"
  obtain g1 d1 where 1: "(if moved then compose_rect p (bx, by, CURSOR_W, CURSOR_H) (g, d) else Some (g, d)) = Some (g1, d1)"
    "only_redraws d d1" "flip_inv g1" "on_desk g1 d1" "gx_flip g1" "frame_inv g1 (bx, by)"
    "\<forall>px py. on_screen g px py \<longrightarrow> pixel g1 px py = (if moved \<and> in_rect bx by CURSOR_W CURSOR_H px py
       then scene_color p d (bx, by, CURSOR_W, CURSOR_H) g px py else pixel g px py)" "on_screen g1 = on_screen g"
  proof (cases moved)
    case True
    obtain g' d' where c: "compose_rect p (bx, by, CURSOR_W, CURSOR_H) (g, d) = Some (g', d')"
      "only_redraws d d'" "flip_inv g'" "on_desk g' d'" "gx_flip g' = gx_flip g"
      "frame_inv g (bx, by) \<longrightarrow> frame_inv g' (bx, by)"
      "shows_scene p d (bx, by, CURSOR_W, CURSOR_H) g g'"
      using compose_rect_ok [OF p inv g(3) rb, of "(bx, by)"] by blast
    have "on_screen g' = on_screen g" using c(4) g(3) only_redraws_keeps [OF c(2)] by (simp add: on_desk_def on_screen_def fun_eq_iff)
    then show ?thesis using that [of g' d'] True c g(1,2) by (simp add: shows_scene_def)
  next
    case False
    then show ?thesis using that [of g d] inv g by simp
  qed
  have s1: "screen_ok g1" "\<not> gx_clip_on g1" using flip_inv_screen [OF 1(3)] by simp_all
  obtain g2 where 2: "(if moved \<or> damage_touches cx cy CURSOR_W CURSOR_H g1
      then do { g \<leftarrow> cursor_draw_bb cx cy g1; damage_add cx cy CURSOR_W CURSOR_H g } else Some g1) = Some g2"
    "flip_inv g2" "gx_flip g2" "on_screen g2 = on_screen g1" "cursor_on g2 (cx, cy)" "gx_w g2 = gx_w g1" "gx_h g2 = gx_h g1"
    "\<forall>px py. on_screen g1 px py \<and> cursor_shape (px - cx) (py - cy) = 0 \<longrightarrow> pixel g2 px py = pixel g1 px py"
  proof (cases "moved \<or> damage_touches cx cy CURSOR_W CURSOR_H g1")
    case True
    obtain gc where c: "cursor_draw_bb cx cy g1 = Some gc" "bb_only g1 gc" "cursor_on gc (cx, cy)"
      "\<forall>px py. on_screen g1 px py \<and> cursor_shape (px - cx) (py - cy) = 0 \<longrightarrow> pixel gc px py = pixel g1 px py"
      using cursor_draw_exact [OF s1] by blast
    have out: "\<forall>px py. on_screen g1 px py \<and> \<not> in_rect cx cy CURSOR_W CURSOR_H px py \<longrightarrow> pixel gc px py = pixel g1 px py"
      using c(4) by (auto simp: cursor_shape_def in_rect_def)
    obtain g2 where a: "damage_add cx cy CURSOR_W CURSOR_H gc = Some g2" "flip_inv g2" using damage_add_inv [OF 1(3) c(2) rc out] by blast
    note fr = damage_add_frame [OF a(1)] bb_only_frame [OF c(2)]
    have fl: "gx_flip gc = gx_flip g1" using c(2) by (auto simp: bb_only_def)
    have os: "on_screen g2 = on_screen gc" "on_screen gc = on_screen g1" by (simp_all add: on_screen_def fun_eq_iff fr)
    have pix: "pixel g2 px py = pixel gc px py" for px py by (simp add: pixel_def fr)
    have "cursor_on g2 (cx, cy)" by (rule cursor_on_cong [OF c(3) os(1)]) (rule pix)
    then show ?thesis using that [of g2] True c(1,4) a os fl fr 1(5) pix by simp
  next
    case False
    then have "bx = cx" "by = cy" by (simp_all add: moved_def)
    then have "cursor_on g1 (cx, cy)" using False 1(6) by (simp add: frame_inv_def)
    then show ?thesis using that [of g1] False 1(3,5) by simp
  qed
  obtain g3 where 3: "present_flip g2 = Some g3" "flip_inv g3" "gx_bb g3 = gx_bb g2"
    "\<forall>px py. on_screen g3 px py \<longrightarrow> shows_pixel g3 (gx_front g3) px py"
    using present_flip_ok [OF 2(2)] by blast
  have size: "gx_w g3 = gx_w g2" "gx_h g3 = gx_h g2" using present_flip_frame [OF 3(1)] by simp_all
  have os3: "on_screen g3 = on_screen g2" by (simp add: on_screen_def fun_eq_iff size)
  have pix3: "pixel g3 px py = pixel g2 px py" for px py by (simp add: pixel_def size 3(3))
  have cur: "cursor_on g3 (cx, cy)" by (rule cursor_on_cong [OF 2(5) os3]) (rule pix3)
  have "present p (bx, by) (g, d) = Some ((cx, cy), g3, d1)"
    using 1(1) 2(1,3) 3(1) unfolding present_def Let_def prod.case snd_conv cx_def [symmetric] cy_def [symmetric] moved_def [symmetric]
    by simp
  moreover have "on_desk g3 d1" using 1(4) size 2(6,7) by (simp add: on_desk_def)
  moreover have "frame_inv g3 (cx, cy)" using 3(2) cur by (simp add: frame_inv_def)
  moreover have "pixel g3 px py = (if (bx, by) \<noteq> (cx, cy) \<and> in_rect bx by CURSOR_W CURSOR_H px py
      then scene_color p d (bx, by, CURSOR_W, CURSOR_H) g px py else pixel g px py)"
    if "on_screen g px py" "cursor_shape (px - cx) (py - cy) = 0" for px py
    using 1(7,8) 2(8) that pix3 by (simp add: moved_def)
  ultimately show ?thesis using 1(2) cur 3(4) unfolding cx_def [symmetric] cy_def [symmetric] by blast
qed

section \<open>What the scene guarantees\<close>

text \<open>C10. Drawing a region of the scene is safe, exact, and stays in the region. In every well-formed state whose texts are
  in the font and whose visible terminals are lower than 850 pixels, for any rectangle whose coordinates and ends
  are 64-bit numbers, \<^verbatim>\<open>scene_region\<close> completes, with every read of a window's arrays and every store in the
  backbuffer in range; afterwards each pixel of the rectangle has the colour of the scene (the ground under the icons, the
  windows in the order of their stack, the taskbar and the open menu), no pixel outside the rectangle has changed, the clip
  is restored, and the only effect on the windows is that the file managers the rectangle crosses bring their selection into
  view.\<close>

theorem scene_region_confined:
  assumes "paintable p d" "screen_ok g" "\<not> gx_clip_on g" "gx_w g = dk_gw d" "gx_h g = dk_gh d" "rect_ends x y w h"
  shows "\<exists>g'. scene_region p (x, y, w, h) (g, d) = Some (g', if hits_screen d x y w h then viewed d (x, y, w, h) else d) \<and> bb_only g g'
    \<and> (\<forall>px py. on_screen g px py
         \<longrightarrow> pixel g' px py = (if in_rect x y w h px py then scene_color p d (x, y, w, h) g px py else pixel g px py))"
  using scene_region_ok [OF assms] by (simp add: shows_scene_def)

text \<open>C11. Composing a rectangle puts the scene on the pixels, implements the redraw of the window model and keeps the
  frame presentable. Under the hypotheses of C10 the rectangle shows the icons, windows, taskbar and menu of the state, each
  pixel with the colour of the scene, and no pixel outside changes; the desktop that is left is the one of
  the abstract operation \<^verbatim>\<open>redraw_rect\<close>; and the pages and the cursor can still be repaired by the next frame.\<close>

theorem compose_refines_redraw:
  assumes "paintable p d" "flip_inv g" "on_desk g d" "rect_ends x y w h"
  shows "\<exists>g' d'. compose_rect p (x, y, w, h) (g, d) = Some (g', d') \<and> only_redraws d d' \<and> redraw_rect x y w h d = note_damage x y w h d'
    \<and> flip_inv g' \<and> on_desk g' d' \<and> gx_flip g' = gx_flip g \<and> (frame_inv g pos \<longrightarrow> frame_inv g' pos)
    \<and> (\<forall>px py. on_screen g px py
         \<longrightarrow> pixel g' px py = (if in_rect x y w h px py then scene_color p d (x, y, w, h) g px py else pixel g px py))"
  using compose_rect_ok [OF assms, of pos] by (simp add: shows_scene_def)

text \<open>C9. A presented frame shows the scene with the cursor on it, when page flipping is armed (the single-buffer path is
  not covered), the state is well-formed as for C10 and the cursor's last position is no further than two to the fortieth.
  Wherever the cursor was last drawn and wherever it is now, \<^verbatim>\<open>present\<close> completes, the page on display equals the
  backbuffer at every pixel, the cursor's shape has its colours at the current position, the rectangle of the old
  position, if the cursor has moved, holds the scene again where the new shape does not cover it, every other pixel is what
  was composed, and the state is ready for the next frame.\<close>

theorem present_shows_cursor:
  assumes "paintable p d" "frame_inv g (bx, by)" "gx_flip g" "on_desk g d" "near bx" "near by"
  shows "\<exists>g' d'. present p (bx, by) (g, d) = Some ((dk_cx d, dk_cy d), g', d') \<and> only_redraws d d' \<and> on_desk g' d'
    \<and> frame_inv g' (dk_cx d, dk_cy d) \<and> cursor_on g' (dk_cx d, dk_cy d)
    \<and> (\<forall>px py. on_screen g' px py \<longrightarrow> shows_pixel g' (gx_front g') px py)
    \<and> (\<forall>px py. on_screen g px py \<and> cursor_shape (px - dk_cx d) (py - dk_cy d) = 0
         \<longrightarrow> pixel g' px py = (if (bx, by) \<noteq> (dk_cx d, dk_cy d) \<and> in_rect bx by CURSOR_W CURSOR_H px py
                                then scene_color p d (bx, by, CURSOR_W, CURSOR_H) g px py else pixel g px py))"
  by (rule present_ok [OF assms])

lemma topmost_stack_last:
  assumes "win_topmost_index d = Some i"
    and "\<forall>j < length (dk_wins d). visible_win (dk_wins d ! j) \<and> w_order (dk_wins d ! j) = w_order (dk_wins d ! i) \<longrightarrow> j = i"
  shows "\<exists>below. window_stack d = below @ [i]"
proof -
  have i: "i \<in> set (sorted_wins d)" using assms(1) topmost_index_visible [of d i] by (simp add: sorted_wins_set(1))
  then have ne: "sorted_wins d \<noteq> []" by auto
  define k where "k = last (sorted_wins d)"
  have s: "sorted_wins d = butlast (sorted_wins d) @ [k]" using ne by (simp add: k_def)
  have k: "k < length (dk_wins d)" "visible_win (dk_wins d ! k)" using last_in_set [OF ne] by (simp_all add: sorted_wins_set(1) k_def)
  have "\<forall>j \<in> set (butlast (sorted_wins d)). w_order (dk_wins d ! j) \<le> w_order (dk_wins d ! k)"
    using sorted_wins_spec(2) [of d] by (subst (asm) s) (auto simp: sorted_append)
  then have "w_order (dk_wins d ! i) \<le> w_order (dk_wins d ! k)" using i by (subst (asm) s) auto
  then have "w_order (dk_wins d ! k) = w_order (dk_wins d ! i)" using topmost_index_max [OF assms(1) k] by simp
  then have "k = i" using assms(2) k by blast
  then show ?thesis using s by (auto simp: sorted_wins_stack)
qed

text \<open>C18. Windows are painted by their order: in a well-formed state as for C10, for a region whose ends are 64-bit
  numbers, the paint loop issues exactly the drawing of the visible windows that meet the region, each once, from the lowest
  to the highest (by slot among equals), and no other call; so a window that is drawn later lies over one drawn before. When
  the window with the focus shares its order with no other and meets the region, its drawing is the last of all.\<close>

theorem windows_painted_in_order:
  assumes "paintable p d" "rect_ends x y w h"
  shows "\<exists>ds d'. render_wins (pt_now p) (x, y, w, h) (sorted_wins d) d = Some (ds, d') \<and> only_redraws d d'
    \<and> ds = concat (map (\<lambda>i. calls_of (win_render (pt_now p) d i)) (filter (\<lambda>i. win_meets (dk_wins d ! i) (x, y, w, h)) (window_stack d)))
    \<and> (\<forall>i. win_topmost_index d = Some i
        \<and> (\<forall>j < length (dk_wins d). visible_win (dk_wins d ! j) \<and> w_order (dk_wins d ! j) = w_order (dk_wins d ! i) \<longrightarrow> j = i)
        \<and> win_meets (dk_wins d ! i) (x, y, w, h)
        \<longrightarrow> (\<exists>below. ds = below @ calls_of (win_render (pt_now p) d i)))"
proof -
  have pp: "clock_ok (pt_now p)" "desk_inv d" "desk_legible d" "terms_fit d" using assms(1) by (simp_all add: paintable_def)
  have vis: "\<forall>i \<in> set (sorted_wins d). i < length (dk_wins d) \<and> visible_win (dk_wins d ! i)" using sorted_wins_set(1) [of d] by simp
  obtain ds ws where r: "render_wins (pt_now p) (x, y, w, h) (sorted_wins d) d = Some (ds, d\<lparr>dk_wins := ws\<rparr>)" "length ws = length (dk_wins d)"
    "ds = concat (map (\<lambda>i. calls_of (win_render (pt_now p) d i)) (filter (\<lambda>i. win_meets (dk_wins d ! i) (x, y, w, h)) (sorted_wins d)))"
    "\<forall>j < length ws. ws ! j = (if j \<in> set (sorted_wins d) then view_win d x y w h (dk_wins d ! j) else dk_wins d ! j)"
    using render_wins_fine [OF pp(1) assms(2) pp(2-4) sorted_wins_set(2) vis] by blast
  have "list_all2 same_but_fm (dk_wins d) ws" using r(2,4) by (simp add: list_all2_conv_all_nth)
  then have only: "only_redraws d (d\<lparr>dk_wins := ws\<rparr>)" unfolding only_redraws_def
    by (intro exI [of _ "dk_redraws d"] exI [of _ ws]) simp
  have "\<exists>below. ds = below @ calls_of (win_render (pt_now p) d i)"
    if t: "win_topmost_index d = Some i
        \<and> (\<forall>j < length (dk_wins d). visible_win (dk_wins d ! j) \<and> w_order (dk_wins d ! j) = w_order (dk_wins d ! i) \<longrightarrow> j = i)
        \<and> win_meets (dk_wins d ! i) (x, y, w, h)" for i
  proof -
    obtain below where "window_stack d = below @ [i]" using topmost_stack_last t by blast
    then show ?thesis using t unfolding r(3) sorted_wins_stack by simp
  qed
  then show ?thesis using r(1,3) only unfolding sorted_wins_stack by blast
qed

lemma term_rows_beyond: "length rows < from + n \<Longrightarrow> 0 < n \<Longrightarrow> term_rows rows from n cols x y = None"
proof (induction n arbitrary: "from" y)
  case (Suc n)
  show ?case
  proof (cases "from < length rows")
    case True
    then have "term_rows rows (from + 1) n cols x (y + TERM_ROW_H) = None" using Suc.IH [of "from + 1" "y + TERM_ROW_H"] Suc.prems(1) True by simp
    then show ?thesis by (cases "row_text cols (rows ! from)") (simp_all add: rd_def)
  qed (simp add: rd_def)
qed simp

text \<open>C31. A terminal of 850 rows of pixels or more, as a maximised one on a screen of 1080, draws lines that do not exist:
  \<^verbatim>\<open>term_render\<close> takes one row per ten pixels and reads them all, but the scrollback has eighty, so it reads past the
  array. (Lower windows are within it.)\<close>

theorem term_render_reads_past:
  assumes "tm_ok (w_tm w)" "850 \<le> w_h w"
  shows "term_render d w active = None"
proof -
  define rows where "rows = max 2 ((w_h w - 2 - TITLE_H - 2) sdiv TERM_ROW_H)"
  have "(w_h w - 2 - TITLE_H - 2) sdiv TERM_ROW_H = (w_h w - 30) div 10"
    using assms(2) by (simp add: TERM_ROW_H_def TITLE_H_def sdiv_nonneg)
  then have r: "82 \<le> rows" using assms(2) by (simp add: rows_def)
  then have n: "length (tm_lines (w_tm w)) < nat (rows - 1)" using assms(1) by (simp add: tm_ok_def TERM_SCROLL_MAX_def)
  have "term_rows (tm_lines (w_tm w)) k (nat (rows - 1)) c x y = None" for k c x y
    using n by (intro term_rows_beyond) auto
  then show ?thesis unfolding term_render_def Let_def rows_def [symmetric] by simp
qed

section \<open>A concrete frame\<close>

text \<open>A screen of the size of \<open>empty_desk\<close> of which every pixel is damaged.\<close>

definition blank_gfx :: gfx where
  "blank_gfx = \<lparr>gx_w = 1024, gx_h = 768, gx_pitch = 4096, gx_bb = replicate 786432 0, gx_bb_addr = 0,
     gx_fb = \<lparr>fb_present = True, fb_w = 1024, fb_h = 768, fb_pitch = 4096, fb_vram = replicate 6291456 0, fb_base0 = Some 0,
       fb_base1 = Some 3145728, fb_active = 0, fb_double = True, fb_page_bytes = 3145728, fb_vsync = False, fb_regs = [], fb_mapped = []\<rparr>,
     gx_fb_addr = 0, gx_flip = True, gx_front = 0, gx_canary = [], gx_clip_on = False, gx_clip = (0, 0, 0, 0),
     gx_dmg_on = True, gx_dmg = (0, 0, 1024, 768), gx_prev_on = False, gx_prev = (0, 0, 0, 0)\<rparr>"

definition plain_painter :: painter where
  "plain_painter = \<lparr>pt_font = font8x8_basic, pt_wall = None, pt_now = None\<rparr>"

lemma blank_gfx_inv: "flip_inv blank_gfx" "frame_inv blank_gfx (30, 30)" "on_desk blank_gfx empty_desk" "screen_ok blank_gfx"
proof -
  have "\<not> (on_screen blank_gfx px py \<and> \<not> covered True (0, 0, 1024, 768) px py)" for px py
    by (auto simp: on_screen_def blank_gfx_def covered_def in_rect_def)
  moreover have s: "gfx_ok blank_gfx" "page_fits blank_gfx 0" "page_fits blank_gfx 1" "dmg_ok blank_gfx (0, 0, 1024, 768)"
    by (simp_all add: blank_gfx_def gfx_ok_def screen_ok_def pages_apart_def page_fits_def fb_page_base_def dmg_ok_def)
  moreover have "gx_dmg_on blank_gfx" "gx_dmg blank_gfx = (0, 0, 1024, 768)" "gx_front blank_gfx = 0" "\<not> gx_prev_on blank_gfx" "\<not> gx_clip_on blank_gfx"
    by (simp_all add: blank_gfx_def)
  ultimately show f: "flip_inv blank_gfx" unfolding flip_inv_def by auto
  have "damage_touches 30 30 CURSOR_W CURSOR_H blank_gfx" by (simp add: damage_touches_def blank_gfx_def CURSOR_W_def CURSOR_H_def)
  then show "frame_inv blank_gfx (30, 30)" using f by (simp add: frame_inv_def)
  show "on_desk blank_gfx empty_desk" by (simp add: on_desk_def blank_gfx_def empty_desk_def)
  show "screen_ok blank_gfx" using s(1) by (simp add: gfx_ok_def)
qed

lemma empty_paintable: "paintable plain_painter empty_desk"
proof -
  have "desk_legible empty_desk"
    by (auto simp: desk_legible_def empty_desk_def idle_win_def empty_fs_def ascii_def simp del: replicate.simps)
  then show ?thesis using font8x8_basic_ok empty_desk_inv
    by (simp add: paintable_def plain_painter_def wall_ok_def clock_ok_def) (auto simp: terms_fit_def empty_desk_def idle_win_def visible_win_def)
qed

theorem scene_region_confined_witness:
  "\<exists>g' d'. scene_region plain_painter (10, 20, 300, 200) (blank_gfx, empty_desk) = Some (g', d') \<and> bb_only blank_gfx g'
    \<and> pixel g' 12 150 = scene_color plain_painter empty_desk (10, 20, 300, 200) blank_gfx 12 150"
proof -
  have r: "rect_ends 10 20 300 200" "\<not> gx_clip_on blank_gfx" "gx_w blank_gfx = dk_gw empty_desk" "gx_h blank_gfx = dk_gh empty_desk"
    by (simp_all add: rect_ends_def rect64_def in64_def blank_gfx_def empty_desk_def)
  have "on_screen blank_gfx 12 150" "in_rect 10 20 300 200 12 150" by (simp_all add: on_screen_def blank_gfx_def in_rect_def)
  then show ?thesis using scene_region_confined [OF empty_paintable blank_gfx_inv(4) r(2-4,1)] by auto
qed

theorem compose_refines_redraw_witness:
  "\<exists>g' d'. compose_rect plain_painter (10, 20, 300, 200) (blank_gfx, empty_desk) = Some (g', d') \<and> frame_inv g' (30, 30)
    \<and> pixel g' 12 150 = scene_color plain_painter empty_desk (10, 20, 300, 200) blank_gfx 12 150"
proof -
  have r: "rect_ends 10 20 300 200" by (simp add: rect_ends_def rect64_def in64_def)
  have "on_screen blank_gfx 12 150" "in_rect 10 20 300 200 12 150" by (simp_all add: on_screen_def blank_gfx_def in_rect_def)
  then show ?thesis using compose_refines_redraw [OF empty_paintable blank_gfx_inv(1,3) r, of "(30, 30)"] blank_gfx_inv(2) by auto
qed

theorem present_shows_cursor_witness:
  "\<exists>g' d'. present plain_painter (30, 30) (blank_gfx, empty_desk) = Some ((30, 30), g', d') \<and> cursor_on g' (30, 30)"
proof -
  have "gx_flip blank_gfx" "near 30" "dk_cx empty_desk = 30" "dk_cy empty_desk = 30" by (simp_all add: blank_gfx_def near_def empty_desk_def)
  from present_shows_cursor [OF empty_paintable blank_gfx_inv(2) this(1) blank_gfx_inv(3) this(2,2)] this(3,4) show ?thesis by auto
qed

text \<open>Two windows at the origin, the second over the first.\<close>

definition pair_desk :: desk where
  "pair_desk = empty_desk\<lparr>dk_wins := dk_wins two_wins @ replicate (MAX_WINDOWS - 2) idle_win, dk_order := 2\<rparr>"

lemma pair_paintable: "paintable plain_painter pair_desk"
proof -
  have wins: "dk_wins pair_desk = dk_wins two_wins @ replicate (MAX_WINDOWS - 2) idle_win" by (simp add: pair_desk_def)
  have set: "w = idle_win \<or> w = idle_win\<lparr>w_used := True, w_order := 1, w_w := 300, w_h := 200\<rparr>
      \<or> w = idle_win\<lparr>w_used := True, w_order := 2, w_w := 400, w_h := 200\<rparr>" if "w \<in> set (dk_wins pair_desk)" for w
    using that by (auto simp: wins two_wins_simps)
  have "np_shape (empty_np False)" "tm_shape empty_tm" using shapes(1) [OF empty_np_ok] shapes(2) [OF empty_tm_ok(1)] by auto
  then have ok: "\<forall>w \<in> set (dk_wins pair_desk). win_ok 1024 720 w"
    by (auto dest!: set simp: win_ok_def app_ok_def geom_ok_def win_rect_def visible_win_def idle_win_def br_shape_def MIN_WIN_W_def MIN_WIN_H_def simp del: replicate.simps)
  have gh: "dk_gw pair_desk = 1024" "dk_gh pair_desk = 768" "work_h pair_desk = 720" "length (dk_wins pair_desk) = MAX_WINDOWS"
    by (simp_all add: pair_desk_def empty_desk_def work_h_def TASKBAR_H_def two_wins_simps MAX_WINDOWS_def)
  have at: "\<forall>i < length (dk_wins pair_desk). win_ok 1024 720 (dk_wins pair_desk ! i)" using ok by simp
  have "desk_inv pair_desk"
    unfolding desk_inv_def screen_fits_def held_ok_def gh using at empty_fs_ok unfolding gh(4)
    by (simp add: pair_desk_def empty_desk_def CURSOR_W_def CURSOR_H_def)
  moreover have "\<forall>w \<in> set (dk_wins pair_desk). win_legible w"
    by (auto dest!: set simp: win_legible_def idle_win_def plain_def ascii_def lit_def)
  then have "desk_legible pair_desk"
    by (auto simp: desk_legible_def pair_desk_def empty_desk_def empty_fs_def ascii_def simp del: replicate.simps)
  moreover have "terms_fit pair_desk" by (auto dest!: set simp: terms_fit_def idle_win_def)
  ultimately show ?thesis using font8x8_basic_ok by (simp add: paintable_def plain_painter_def wall_ok_def clock_ok_def)
qed

theorem windows_painted_in_order_witness:
  "\<exists>below d'. render_wins None (0, 0, 1024, 768) (sorted_wins pair_desk) pair_desk = Some (below @ calls_of (win_render None pair_desk 1), d')"
proof -
  have i: "dk_wins pair_desk ! 1 = idle_win\<lparr>w_used := True, w_order := 2, w_w := 400, w_h := 200\<rparr>" by (simp add: pair_desk_def two_wins_simps)
  have "win_topmost_index pair_desk = Some 1"
    by (simp add: win_topmost_index_def pair_desk_def two_wins_simps visible_win_def idle_win_def MAX_WINDOWS_def numeral_eq_Suc)
  moreover have "\<forall>j < length (dk_wins pair_desk). visible_win (dk_wins pair_desk ! j) \<and> w_order (dk_wins pair_desk ! j) = w_order (dk_wins pair_desk ! 1) \<longrightarrow> j = 1"
    unfolding i by (auto simp: pair_desk_def two_wins_simps nth_append nth_Cons' visible_win_def idle_win_def less_Suc_eq split: if_splits)
  moreover have "win_meets (dk_wins pair_desk ! 1) (0, 0, 1024, 768)" unfolding i by (simp add: win_meets_def idle_win_def)
  moreover have "rect_ends 0 0 1024 768" "pt_now plain_painter = None" by (simp_all add: rect_ends_def rect64_def in64_def plain_painter_def)
  ultimately show ?thesis using windows_painted_in_order [OF pair_paintable, of 0 0 1024 768] by fastforce
qed

theorem term_render_reads_past_witness:
  "term_render empty_desk (idle_win\<lparr>w_used := True, w_kind := 1, w_w := 1920, w_h := 1032\<rparr>) True = None"
  by (rule term_render_reads_past) (simp_all add: idle_win_def empty_tm_ok)

end
