(* ===== verification/Desktop_Boot.thy ===== *)
theory Desktop_Boot
  imports Desktop_Frame
begin

text \<open>
  The start of the desktop in \<^verbatim>\<open>kernel/desktop.c\<close>: \<^verbatim>\<open>desktop_init\<close> checks the framebuffer, takes the backbuffer from the
  heap and guards it, draws its self-test, arms the page flipping, opens the first window, fills the file store,
  draws the scene and the cursor and copies it to the pages. What it returns satisfies the invariants that the rounds and
  the frames keep. \<open>Some None\<close> is the endless halt after a fatal message.
\<close>

section \<open>The self-test\<close>

definition windows_inside :: "desk \<Rightarrow> bool" where
  "windows_inside d \<longleftrightarrow>
     list_all (\<lambda>w. w_used w \<longrightarrow> \<not> (w_x w < 0 \<or> w_y w < 0 \<or> w_w w \<le> 0 \<or> w_h w \<le> 0
        \<or> w_x w + w_w w > int (dk_gw d) \<or> w_y w + w_h w > int (dk_gh d))) (dk_wins d)"

definition desktop_gfx_integrity :: "gfx \<Rightarrow> desk \<Rightarrow> bool" where
  "desktop_gfx_integrity g d \<longleftrightarrow> canaries_ok g \<and> windows_inside d"

text \<open>A word of the backbuffer, compared; a negative index wraps and is out of range.\<close>

definition expect :: "int \<Rightarrow> u32 \<Rightarrow> gfx \<Rightarrow> bool \<Rightarrow> bool option" where
  "expect k v g ok = do { u \<leftarrow> (if k < 0 then None else rd (gx_bb g) (nat k)); Some (ok \<and> u = v) }"

definition gfx_selftest :: "bytes list \<Rightarrow> desk \<Rightarrow> gfx \<Rightarrow> (bool \<times> gfx) option" where
  "gfx_selftest font d g =
     (let gw = int (gx_w g); gh = int (gx_h g) in
      do { g \<leftarrow> bb_clear_region 0 0 gw gh 0x00000000 g;
           g \<leftarrow> bb_fill_rect (- 10) 5 40 30 0x00111111 g;
           ok \<leftarrow> expect (5 * gw + 0) 0x00111111 g True;
           ok \<leftarrow> expect (5 * gw + 29) 0x00111111 g ok;
           ok \<leftarrow> expect (5 * gw + 30) 0x00000000 g ok;
           g \<leftarrow> bb_fill_rect (gw - 5) 10 40 30 0x00222222 g;
           ok \<leftarrow> expect (10 * gw + (gw - 5)) 0x00222222 g ok;
           ok \<leftarrow> expect (10 * gw + (gw - 1)) 0x00222222 g ok;
           g \<leftarrow> bb_fill_rect 10 (- 10) 40 30 0x00333333 g;
           ok \<leftarrow> expect (0 * gw + 20) 0x00333333 g ok;
           g \<leftarrow> bb_fill_rect 10 (gh - 5) 40 30 0x00444444 g;
           ok \<leftarrow> expect ((gh - 5) * gw + 20) 0x00444444 g ok;
           ok \<leftarrow> expect ((gh - 1) * gw + 20) 0x00444444 g ok;
           g \<leftarrow> bb_fill_rect (- 500) (- 500) 10000 10000 0x00555555 g;
           ok \<leftarrow> expect ((gh - 1) * gw + (gw - 1)) 0x00555555 g ok;
           ok \<leftarrow> expect (0 * gw + 0) 0x00555555 g ok;
           g \<leftarrow> bb_fill_rect 100 50 0 0 0x00666666 g;
           ok \<leftarrow> expect (50 * gw + 100) 0x00555555 g ok;
           g \<leftarrow> bb_fill_rect 100 50 (- 20) (- 20) 0x00666666 g;
           ok \<leftarrow> expect (50 * gw + 100) 0x00555555 g ok;
           g \<leftarrow> bb_fill_rect (- 100) (- 100) 10 10 0x00777777 g;
           g \<leftarrow> bb_fill_rect gw 0 100 100 0x00777777 g;
           g \<leftarrow> bb_fill_rect 0 gh 100 100 0x00777777 g;
           ok \<leftarrow> expect (0 * gw + 0) 0x00555555 g ok;
           g \<leftarrow> bb_draw_char font (- 3) (- 3) 65 0x00888888 g;
           (_, g) \<leftarrow> bb_draw_string font (gw - 10) (gh - 6) (lit ''edge'') 0x00888888 g;
           Some (ok \<and> desktop_gfx_integrity g d, g) })"

section \<open>Start-up\<close>

text \<open>What the desktop starts from: the boot loader's framebuffer and the driver's state, the heap, the modules, the
  display controller, the clock.\<close>

record boot =
  bt_info :: "fb_info option"
  bt_fb :: fb
  bt_fb_addr :: nat
  bt_alloc :: "nat \<Rightarrow> (nat \<times> u32 list) option"
  bt_png :: png_env
  bt_modules :: "wall_module list option"
  bt_font :: "bytes list"
  bt_vbe :: vbe_regs
  bt_fbv :: u64
  bt_hhdm :: u64
  bt_retrace :: "nat \<Rightarrow> bool"
  bt_now :: "rtc_datetime option"
  bt_ticks :: nat

definition BB_GUARD_BYTES :: nat where "BB_GUARD_BYTES = 64"

definition zero_win :: win where
  "zero_win = \<lparr>w_used = False, w_x = 0, w_y = 0, w_w = 0, w_h = 0, w_title = Title [], w_lines = [], w_order = 0, w_min = False,
     w_max = False, w_rx = 0, w_ry = 0, w_rw = 0, w_rh = 0, w_kind = 0,
     w_tm = \<lparr>tm_lines = replicate TERM_SCROLL_MAX (replicate TERM_LINE_MAX 0), tm_len = 0, tm_scroll = 0,
       tm_input = \<lparr>ln_buf = replicate TERM_LINE_MAX 0, ln_len = 0, ln_cur = 0\<rparr>\<rparr>,
     w_br = \<lparr>br_input = \<lparr>ln_buf = replicate TERM_LINE_MAX 0, ln_len = 0, ln_cur = 0\<rparr>, br_https = False, br_page = BR_PAGE_HOME,
       br_site_name = replicate TERM_LINE_MAX 0, br_title = replicate TERM_LINE_MAX 0, br_web = replicate BR_WEB_MAX 0, br_web_len = 0,
       br_web_state = BR_WEB_IDLE\<rparr>,
     w_np = \<lparr>np_text = replicate NOTEPAD_MAX_TEXT 0, np_len = 0, np_cursor = 0, np_fname = replicate NOTEPAD_MAX_FNAME 0,
       np_title = replicate (NOTEPAD_MAX_FNAME + 8) 0, np_own_title = False, np_dirty = False, np_file_idx = 0, np_show_open = False,
       np_save_as = False, np_save_as_buf = replicate NOTEPAD_MAX_FNAME 0, np_save_as_cursor = 0\<rparr>,
     w_fm = \<lparr>fm_sel = 0, fm_scroll = 0, fm_confirming = False, fm_confirm_idx = 0\<rparr>\<rparr>"

definition zero_fs :: "fs_file list" where
  "zero_fs = replicate FS_MAX_FILES \<lparr>ff_name = replicate NOTEPAD_MAX_FNAME 0, ff_data = replicate FS_MAX_FDATA 0, ff_len = 0, ff_used = False\<rparr>"

text \<open>The static state before \<^verbatim>\<open>desktop_init\<close>, with the size that it reads first.\<close>

definition zero_desk :: "nat \<Rightarrow> nat \<Rightarrow> desk" where
  "zero_desk gw gh = \<lparr>dk_gw = gw, dk_gh = gh, dk_wins = replicate MAX_WINDOWS zero_win, dk_order = 0, dk_drag = None, dk_off_x = 0,
     dk_off_y = 0, dk_resize = None, dk_rs_x = 0, dk_rs_y = 0, dk_rs_w = 0, dk_rs_h = 0, dk_menu = False, dk_opens = 0, dk_cx = 0,
     dk_cy = 0, dk_buttons = 0, dk_last_sec = 0, dk_fs = zero_fs, dk_redraws = [], dk_aborts = [], dk_fetches = [], dk_probes = 0,
     dk_halted = False\<rparr>"

definition about_lines :: "string list" where
  "about_lines =
     [''Welcome to Sol OS!'', ''Desktop: mouse via VirtIO.'', ''Drag the title bar to move windows.'',
      ''Bottom-right corner resizes windows.'', ''Start menu: icons and the terminal.'', ''Terminal: '' @ [CHR 0x27] @ ''help'' @ [CHR 0x27] @ '' lists commands.'']"

text \<open>The characters of a text with its line ends.\<close>

definition demo_welcome :: bytes where
  "demo_welcome = lit ''Welcome to Sol OS Notepad!'' @ [10, 10] @ lit ''This is a simple text editor.'' @ [10]
     @ lit ''Try typing, saving, and opening files.'' @ [10]"

definition demo_notes :: bytes where
  "demo_notes = lit ''Sol OS 0.1'' @ [10] @ lit ''- Desktop with windows'' @ [10] @ lit ''- Terminal emulator'' @ [10]
     @ lit ''- Browser with live fetch'' @ [10] @ lit ''- Notepad with file support'' @ [10]"

definition demo_file :: "string \<Rightarrow> bytes \<Rightarrow> fs_file list \<Rightarrow> fs_file list option" where
  "demo_file name text fs =
     do { (idx, fs) \<leftarrow> fs_create (lit name @ [0]) fs;
          if idx \<ge> 0
          then do { f \<leftarrow> rd fs (nat idx); data \<leftarrow> wr_range (ff_data f) 0 text;
                    Some (fs[nat idx := f\<lparr>ff_data := data, ff_len := length text\<rparr>]) }
          else Some fs }"

fun guard_words :: "nat \<Rightarrow> nat \<Rightarrow> nat \<Rightarrow> u32 list \<Rightarrow> u32 list option" where
  "guard_words k i 0 bb = Some bb"
| "guard_words k i (Suc n) bb = do { bb \<leftarrow> wr bb (k + i) (BB_CANARY_BASE + of_nat i); guard_words k (i + 1) n bb }"

text \<open>The redraws of an operation on the pixels, in their order.\<close>

fun compose_all :: "painter \<Rightarrow> rect list \<Rightarrow> gfx \<times> desk \<Rightarrow> (gfx \<times> desk) option" where
  "compose_all p [] s = Some s"
| "compose_all p (r # rs) s = do { s \<leftarrow> compose_rect p r s; compose_all p rs s }"

definition init_pages :: "gfx \<Rightarrow> gfx option" where
  "init_pages g =
     (if gx_flip g
      then do { g \<leftarrow> blit_full (g\<lparr>gx_fb := fb_set_active_page 0 (gx_fb g)\<rparr>);
                g \<leftarrow> blit_full (g\<lparr>gx_fb := fb_set_active_page 1 (gx_fb g)\<rparr>);
                Some (g\<lparr>gx_fb := fb_set_active_page 0 (gx_fb g)\<rparr>) }
      else blit_full g)"

text \<open>The surface with its guarded backbuffer.\<close>

definition boot_gfx :: "boot \<Rightarrow> fb_info \<Rightarrow> nat \<Rightarrow> u32 list \<Rightarrow> gfx" where
  "boot_gfx b i addr mem =
     \<lparr>gx_w = fi_width i, gx_h = fi_height i, gx_pitch = fi_pitch i, gx_bb = mem, gx_bb_addr = addr, gx_fb = bt_fb b,
      gx_fb_addr = bt_fb_addr b, gx_flip = False, gx_front = 0, gx_canary = map (\<lambda>k. BB_CANARY_BASE + of_nat k) [0 ..< BB_CANARIES],
      gx_clip_on = False, gx_clip = (0, 0, 0, 0), gx_dmg_on = False, gx_dmg = (0, 0, 0, 0), gx_prev_on = False, gx_prev = (0, 0, 0, 0)\<rparr>"

definition boot_flip :: "boot \<Rightarrow> gfx \<Rightarrow> gfx option" where
  "boot_flip b g =
     do { (flip, f) \<leftarrow> fb_enable_double_buffer (bt_vbe b) (bt_fbv b) (bt_hhdm b) (gx_fb g);
          Some (g\<lparr>gx_flip := flip, gx_fb := fb_vsync_probe (bt_retrace b) f\<rparr>) }"

text \<open>The first window with its redraws, the files, the scene and the cursor.\<close>

definition boot_scene :: "painter \<Rightarrow> gfx \<Rightarrow> desk \<Rightarrow> ((int \<times> int) \<times> gfx \<times> desk) option" where
  "boot_scene p g d =
     do { (_, d) \<leftarrow> win_open (Title ''About Sol OS'') (120, 90, 460, 240) 0 about_lines d;
          (g, d) \<leftarrow> compose_all p (dk_redraws d) (g, d\<lparr>dk_redraws := []\<rparr>);
          fs \<leftarrow> demo_file ''welcome.txt'' demo_welcome zero_fs;
          fs \<leftarrow> demo_file ''notes.txt'' demo_notes fs;
          (g, d) \<leftarrow> scene_region p (0, 0, int (gx_w g), int (gx_h g)) (g, d\<lparr>dk_fs := fs\<rparr>);
          (let cx = int (gx_w g div 2) - CURSOR_W div 2; cy = int (gx_h g div 2) - CURSOR_H div 2 in
           do { g \<leftarrow> cursor_draw_bb cx cy g; Some ((cx, cy), g, d\<lparr>dk_cx := cx, dk_cy := cy\<rparr>) }) }"

definition desktop_init :: "boot \<Rightarrow> ((int \<times> int) \<times> gfx \<times> desk) option option" where
  "desktop_init b =
     (case bt_info b of
        None \<Rightarrow> Some None
      | Some i \<Rightarrow>
          (let gw = fi_width i; gh = fi_height i; bytes = gw * gh * 4 in
           if fi_bpp i \<noteq> 32 then Some None
           else if gw = 0 \<or> gh = 0 then Some None
           else if gw > 0x100000 \<or> gh > 0x100000 \<or> gw * gh > 0x40000000 div 4 then Some None
           else (case bt_alloc b (bytes + BB_GUARD_BYTES) of
               None \<Rightarrow> Some None
             | Some (addr, mem) \<Rightarrow>
                 do { mem \<leftarrow> guard_words (bytes div 4) 0 BB_CANARIES mem;
                      wall \<leftarrow> wallpaper_init (bt_png b) (bt_modules b);
                      (_, g) \<leftarrow> gfx_selftest (bt_font b) (zero_desk gw gh) (boot_gfx b i addr mem);
                      g \<leftarrow> boot_flip b g;
                      (pos, g, d) \<leftarrow> boot_scene \<lparr>pt_font = bt_font b, pt_wall = wall, pt_now = bt_now b\<rparr> g (zero_desk gw gh);
                      g \<leftarrow> init_pages g;
                      Some (Some (pos, g\<lparr>gx_dmg_on := False, gx_prev_on := False\<rparr>, d\<lparr>dk_last_sec := bt_ticks b div 100\<rparr>)) })))"

section \<open>The self-test passes\<close>

lemma fill_step:
  assumes "screen_ok g" "\<not> gx_clip_on g" "near x" "near y" "near w" "near h"
  obtains g' where "bb_fill_rect x y w h c g = Some g'" "bb_only g g'" "screen_ok g'" "\<not> gx_clip_on g'" "on_screen g' = on_screen g"
    "\<And>px py. on_screen g px py \<Longrightarrow> pixel g' px py = (if in_rect x y w h px py then c else pixel g px py)"
proof -
  obtain g' where g': "bb_fill_rect x y w h c g = Some g'" "bb_only g g'"
    "\<forall>px py. on_screen g px py \<longrightarrow> pixel g' px py = (if in_rect x y w h px py \<and> visible g px py then c else pixel g px py)"
    using bb_fill_rect_spec [OF near_rect64 assms(1)] assms(3-6) by blast
  moreover have "visible g px py \<longleftrightarrow> on_screen g px py" for px py using assms(2) by (simp add: visible_def on_screen_def)
  ultimately show ?thesis using that [of g'] bb_only_frame [OF g'(2)] assms(1,2) by simp
qed

lemma expect_pixel:
  assumes "screen_ok g" "on_screen g px py" "gx_w g = w"
  shows "expect (py * int w + px) v g ok = Some (ok \<and> pixel g px py = v)"
proof -
  have p: "nat px < gx_w g" "nat py < gx_h g" "0 \<le> px" "0 \<le> py" using assms(2) by (auto simp: on_screen_def)
  have "nat py * gx_w g + nat px < gx_w g * gx_h g" by (rule row_less [OF p(1,2)])
  then have l: "nat py * gx_w g + nat px < length (gx_bb g)" using assms(1) by (simp add: screen_ok_def)
  have k: "nat (py * int w + px) = nat py * gx_w g + nat px" using p assms(3) by (simp add: nat_add_distrib nat_mult_distrib)
  have "0 \<le> py * int w + px" using p by simp
  then show ?thesis using l unfolding expect_def k pixel_def by (simp add: rd_Some)
qed

lemma zero_desk_inside: "windows_inside (zero_desk gw gh)"
  by (auto simp: windows_inside_def zero_desk_def list_all_iff zero_win_def)

lemma guard_canaries: "gx_canary g = map (\<lambda>k. BB_CANARY_BASE + of_nat k) [0 ..< BB_CANARIES] \<Longrightarrow> canaries_ok g"
  by (simp add: canaries_ok_def list_all_iff rd_Some)

lemma gfx_selftest_ok:
  assumes ok: "screen_ok g" "\<not> gx_clip_on g" "canaries_ok g" and size: "101 \<le> gx_w g" "51 \<le> gx_h g" and font: "font_ok font"
    and win: "windows_inside d"
  shows "\<exists>r g'. gfx_selftest font d g = Some (r, g') \<and> bb_only g g' \<and> (gx_w g \<le> 9500 \<and> gx_h g \<le> 9500 \<longrightarrow> r)"
proof -
  define gw where "gw = int (gx_w g)"
  define gh where "gh = int (gx_h g)"
  have wh: "101 \<le> gw" "51 \<le> gh" "gw \<le> 1048576" "gh \<le> 1048576" using size ok(1) by (simp_all add: gw_def gh_def screen_ok_def)
  have os: "on_screen g px py \<longleftrightarrow> 0 \<le> px \<and> px < gw \<and> 0 \<le> py \<and> py < gh" for px py by (simp add: on_screen_def gw_def gh_def)
  have n: "near 0" "near gw" "near gh" "near (- 10)" "near 5" "near 40" "near 30" "near (gw - 5)" "near 10" "near (gh - 5)" "near (- 500)" "near 10000"
    "near 100" "near 50" "near (- 20)" "near (- 100)"
    using wh by (simp_all add: near_def)
  obtain g1 where 1: "bb_fill_rect 0 0 gw gh 0 g = Some g1" "bb_only g g1" "screen_ok g1" "\<not> gx_clip_on g1" "on_screen g1 = on_screen g"
    "\<And>px py. on_screen g px py \<Longrightarrow> pixel g1 px py = (if in_rect 0 0 gw gh px py then 0 else pixel g px py)"
    using fill_step [OF ok(1,2) n(1,1,2,3)] by blast
  obtain g2 where 2: "bb_fill_rect (- 10) 5 40 30 0x00111111 g1 = Some g2" "bb_only g1 g2" "screen_ok g2" "\<not> gx_clip_on g2" "on_screen g2 = on_screen g1"
    "\<And>px py. on_screen g1 px py \<Longrightarrow> pixel g2 px py = (if in_rect (- 10) 5 40 30 px py then 0x00111111 else pixel g1 px py)"
    using fill_step [OF 1(3,4) n(4,5,6,7)] by blast
  obtain g3 where 3: "bb_fill_rect (gw - 5) 10 40 30 0x00222222 g2 = Some g3" "bb_only g2 g3" "screen_ok g3" "\<not> gx_clip_on g3" "on_screen g3 = on_screen g2"
    "\<And>px py. on_screen g2 px py \<Longrightarrow> pixel g3 px py = (if in_rect (gw - 5) 10 40 30 px py then 0x00222222 else pixel g2 px py)"
    using fill_step [OF 2(3,4) n(8,9,6,7)] by blast
  obtain g4 where 4: "bb_fill_rect 10 (- 10) 40 30 0x00333333 g3 = Some g4" "bb_only g3 g4" "screen_ok g4" "\<not> gx_clip_on g4" "on_screen g4 = on_screen g3"
    "\<And>px py. on_screen g3 px py \<Longrightarrow> pixel g4 px py = (if in_rect 10 (- 10) 40 30 px py then 0x00333333 else pixel g3 px py)"
    using fill_step [OF 3(3,4) n(9,4,6,7)] by blast
  obtain g5 where 5: "bb_fill_rect 10 (gh - 5) 40 30 0x00444444 g4 = Some g5" "bb_only g4 g5" "screen_ok g5" "\<not> gx_clip_on g5" "on_screen g5 = on_screen g4"
    "\<And>px py. on_screen g4 px py \<Longrightarrow> pixel g5 px py = (if in_rect 10 (gh - 5) 40 30 px py then 0x00444444 else pixel g4 px py)"
    using fill_step [OF 4(3,4) n(9,10,6,7)] by blast
  obtain g6 where 6: "bb_fill_rect (- 500) (- 500) 10000 10000 0x00555555 g5 = Some g6" "bb_only g5 g6" "screen_ok g6" "\<not> gx_clip_on g6" "on_screen g6 = on_screen g5"
    "\<And>px py. on_screen g5 px py \<Longrightarrow> pixel g6 px py = (if in_rect (- 500) (- 500) 10000 10000 px py then 0x00555555 else pixel g5 px py)"
    using fill_step [OF 5(3,4) n(11,11,12,12)] by blast
  obtain g7 where 7: "bb_fill_rect 100 50 0 0 0x00666666 g6 = Some g7" "bb_only g6 g7" "screen_ok g7" "\<not> gx_clip_on g7" "on_screen g7 = on_screen g6"
    "\<And>px py. on_screen g6 px py \<Longrightarrow> pixel g7 px py = (if in_rect 100 50 0 0 px py then 0x00666666 else pixel g6 px py)"
    using fill_step [OF 6(3,4) n(13,14,1,1)] by blast
  obtain g8 where 8: "bb_fill_rect 100 50 (- 20) (- 20) 0x00666666 g7 = Some g8" "bb_only g7 g8" "screen_ok g8" "\<not> gx_clip_on g8" "on_screen g8 = on_screen g7"
    "\<And>px py. on_screen g7 px py \<Longrightarrow> pixel g8 px py = (if in_rect 100 50 (- 20) (- 20) px py then 0x00666666 else pixel g7 px py)"
    using fill_step [OF 7(3,4) n(13,14,15,15)] by blast
  obtain g9 where 9: "bb_fill_rect (- 100) (- 100) 10 10 0x00777777 g8 = Some g9" "bb_only g8 g9" "screen_ok g9" "\<not> gx_clip_on g9" "on_screen g9 = on_screen g8"
    "\<And>px py. on_screen g8 px py \<Longrightarrow> pixel g9 px py = (if in_rect (- 100) (- 100) 10 10 px py then 0x00777777 else pixel g8 px py)"
    using fill_step [OF 8(3,4) n(16,16,9,9)] by blast
  obtain g10 where 10: "bb_fill_rect gw 0 100 100 0x00777777 g9 = Some g10" "bb_only g9 g10" "screen_ok g10" "\<not> gx_clip_on g10" "on_screen g10 = on_screen g9"
    "\<And>px py. on_screen g9 px py \<Longrightarrow> pixel g10 px py = (if in_rect gw 0 100 100 px py then 0x00777777 else pixel g9 px py)"
    using fill_step [OF 9(3,4) n(2,1,13,13)] by blast
  obtain g11 where 11: "bb_fill_rect 0 gh 100 100 0x00777777 g10 = Some g11" "bb_only g10 g11" "screen_ok g11" "\<not> gx_clip_on g11" "on_screen g11 = on_screen g10"
    "\<And>px py. on_screen g10 px py \<Longrightarrow> pixel g11 px py = (if in_rect 0 gh 100 100 px py then 0x00777777 else pixel g10 px py)"
    using fill_step [OF 10(3,4) n(1,3,13,13)] by blast
  obtain g12 where 12: "bb_draw_char font (- 3) (- 3) 65 0x00888888 g11 = Some g12" "draws g11 g12"
    using bb_draw_char_draws [OF font, of 65 "- 3" "- 3" g11 "0x00888888"] 11(3) by auto
  have ed: "ascii (lit ''edge'')" "length (lit ''edge'') = 4" by (simp_all add: ascii_lit)
  obtain x13 g13 where 13: "bb_draw_string font (gw - 10) (gh - 6) (lit ''edge'') 0x00888888 g12 = Some (x13, g13)" "draws g12 g13"
    using bb_draw_string_draws [OF font, of "lit ''edge''" "gw - 10" "gh - 6" g12 "0x00888888"] draws_ok [OF 12(2) 11(3)] wh ed
    by (auto simp: ascii_def)
  have all: "bb_only g g13" using 1(2) 2(2) 3(2) 4(2) 5(2) 6(2) 7(2) 8(2) 9(2) 10(2) 11(2) 12(2) 13(2) unfolding draws_def by (meson bb_only_trans)
  have w: "gx_w g2 = gx_w g" "gx_w g3 = gx_w g" "gx_w g4 = gx_w g" "gx_w g5 = gx_w g" "gx_w g6 = gx_w g" "gx_w g7 = gx_w g" "gx_w g8 = gx_w g" "gx_w g11 = gx_w g"
    using bb_only_frame(4) [OF 1(2)] bb_only_frame(4) [OF 2(2)] bb_only_frame(4) [OF 3(2)] bb_only_frame(4) [OF 4(2)] bb_only_frame(4) [OF 5(2)]
      bb_only_frame(4) [OF 6(2)] bb_only_frame(4) [OF 7(2)] bb_only_frame(4) [OF 8(2)] bb_only_frame(4) [OF 9(2)] bb_only_frame(4) [OF 10(2)] bb_only_frame(4) [OF 11(2)]
    by simp_all
  note osn = 1(5) 2(5) 3(5) 4(5) 5(5) 6(5) 7(5) 8(5) 9(5) 10(5) 11(5)
  note e2 = expect_pixel [OF 2(3) _ w(1), folded gw_def] and e3 = expect_pixel [OF 3(3) _ w(2), folded gw_def] and e4 = expect_pixel [OF 4(3) _ w(3), folded gw_def]
    and e5 = expect_pixel [OF 5(3) _ w(4), folded gw_def] and e6 = expect_pixel [OF 6(3) _ w(5), folded gw_def] and e7 = expect_pixel [OF 7(3) _ w(6), folded gw_def]
    and e8 = expect_pixel [OF 8(3) _ w(7), folded gw_def] and e11 = expect_pixel [OF 11(3) _ w(8), folded gw_def]
  have o: "on_screen g 0 5" "on_screen g 29 5" "on_screen g 30 5" "on_screen g (gw - 5) 10" "on_screen g (gw - 1) 10" "on_screen g 20 0" "on_screen g 20 (gh - 5)"
    "on_screen g 20 (gh - 1)" "on_screen g (gw - 1) (gh - 1)" "on_screen g 0 0" "on_screen g 100 50"
    using wh by (simp_all add: os)
  have can: "desktop_gfx_integrity g13 d" using all ok(3) win by (auto simp: desktop_gfx_integrity_def bb_only_def canaries_ok_def)
  define r where "r \<longleftrightarrow> pixel g2 0 5 = 0x00111111 \<and> pixel g2 29 5 = 0x00111111 \<and> pixel g2 30 5 = 0 \<and> pixel g3 (gw - 5) 10 = 0x00222222
    \<and> pixel g3 (gw - 1) 10 = 0x00222222 \<and> pixel g4 20 0 = 0x00333333 \<and> pixel g5 20 (gh - 5) = 0x00444444 \<and> pixel g5 20 (gh - 1) = 0x00444444
    \<and> pixel g6 (gw - 1) (gh - 1) = 0x00555555 \<and> pixel g6 0 0 = 0x00555555 \<and> pixel g7 100 50 = 0x00555555 \<and> pixel g8 100 50 = 0x00555555
    \<and> pixel g11 0 0 = 0x00555555"
  have run: "gfx_selftest font d g = Some (r, g13)"
    using e2 [of 0 5] e2 [of 29 5] e2 [of 30 5] e3 [of "gw - 5" 10] e3 [of "gw - 1" 10] e4 [of 20 0] e5 [of 20 "gh - 5"] e5 [of 20 "gh - 1"]
      e6 [of "gw - 1" "gh - 1"] e6 [of 0 0] e7 [of 100 50] e8 [of 100 50] e11 [of 0 0] o can
    unfolding gfx_selftest_def Let_def bb_clear_region_def gw_def [symmetric] gh_def [symmetric] osn
    by (simp add: 1(1) 2(1) 3(1) 4(1) 5(1) 6(1) 7(1) 8(1) 9(1) 10(1) 11(1) 12(1) 13(1) r_def)
  have "r" if small: "gw \<le> 9500" "gh \<le> 9500"
    unfolding r_def using wh small o
    by (simp add: 1(6) 2(6) 3(6) 4(6) 5(6) 6(6) 7(6) 8(6) 9(6) 10(6) 11(6) osn in_rect_def)
  then show ?thesis using run all by (auto simp: gw_def gh_def)
qed

section \<open>The first state\<close>

lemma guard_words_ok: "k + i + n \<le> length bb \<Longrightarrow> \<exists>bb'. guard_words k i n bb = Some bb' \<and> length bb' = length bb"
proof (induction n arbitrary: i bb)
  case (Suc n)
  then show ?case using Suc.IH [of "i + 1" "bb[k + i := BB_CANARY_BASE + of_nat i]"] by (simp add: wr_Some)
qed simp

lemma zero_fs_empty: "zero_fs = empty_fs"
  by (simp add: zero_fs_def empty_fs_def)

lemma zero_win_ok: "win_ok gw wh zero_win"
  by (simp add: win_ok_def zero_win_def np_shape_def tm_shape_def br_shape_def del: replicate.simps)

lemma zero_desk_inv:
  assumes "720 \<le> gw" "gw \<le> 2 ^ 20" "508 \<le> gh" "gh \<le> 2 ^ 20"
  shows "desk_inv (zero_desk gw gh)"
  using assms zero_win_ok empty_fs_ok
  by (simp add: desk_inv_def zero_desk_def screen_fits_def held_ok_def MAX_WINDOWS_def CURSOR_W_def CURSOR_H_def zero_fs_empty del: replicate.simps)

lemma empty_names: "\<forall>f \<in> set empty_fs. ascii (ff_name f)"
  by (simp add: empty_fs_def del: replicate.simps)

definition near_rect :: "rect \<Rightarrow> bool" where
  "near_rect = (\<lambda>(x, y, w, h). near x \<and> near y \<and> near w \<and> near h)"

lemma redraw_near: "desk_inv d \<Longrightarrow> \<forall>r \<in> set (dk_redraws d). near_rect r \<Longrightarrow> near_rect (x, y, w, h) \<Longrightarrow> \<forall>r \<in> set (dk_redraws (redraw_rect x y w h d)). near_rect r"
  by (auto simp: redraw_rect_def note_damage_def)

lemma titles_near:
  assumes "desk_inv d" "\<forall>r \<in> set (dk_redraws d). near_rect r"
  shows "\<forall>r \<in> set (dk_redraws (redraw_all_titles d)). near_rect r"
proof -
  have "desk_inv d \<Longrightarrow> \<forall>i \<in> set is. i < length (dk_wins d) \<Longrightarrow> \<forall>r \<in> set (dk_redraws d). near_rect r \<Longrightarrow>
    \<forall>r \<in> set (dk_redraws (fold (\<lambda>i d. let w = dk_wins d ! i in if visible_win w then redraw_rect (w_x w) (w_y w) (w_w w) TITLE_H d else d) is d)). near_rect r"
    for "is" d
  proof (induction "is" arbitrary: d)
    case (Cons i js)
    let ?w = "dk_wins d ! i"
    let ?d = "if visible_win ?w then redraw_rect (w_x ?w) (w_y ?w) (w_w ?w) TITLE_H d else d"
    have "near_rect (w_x ?w, w_y ?w, w_w ?w, TITLE_H)" if "visible_win ?w"
      using placedD [OF win_placed [OF Cons.prems(1), of i]] Cons.prems(2) that
      by (simp add: near_rect_def near_def TITLE_H_def visible_win_def)
    then have "\<forall>r \<in> set (dk_redraws ?d). near_rect r"
      using redraw_near [OF Cons.prems(1,3), of "w_x ?w" "w_y ?w" "w_w ?w" TITLE_H] Cons.prems(3) by (cases "visible_win ?w") simp_all
    moreover have "desk_inv ?d" "\<forall>j \<in> set js. j < length (dk_wins ?d)" using Cons.prems(1,2) by simp_all
    ultimately show ?case using Cons.IH [of ?d] by (simp add: Let_def)
  qed simp
  from this [OF assms(1) _ assms(2), of "[0 ..< length (dk_wins d)]"] show ?thesis unfolding redraw_all_titles_def by simp
qed

lemma about_plain: "\<forall>s \<in> set about_lines. plain s" "plain ''About Sol OS''"
  by (simp_all add: about_lines_def plain_def ascii_lit lit_chars)

lemma first_window:
  assumes s: "720 \<le> gw" "gw \<le> 2 ^ 20" "508 \<le> gh" "gh \<le> 2 ^ 20"
  obtains d where "win_open (Title ''About Sol OS'') (120, 90, 460, 240) 0 about_lines (zero_desk gw gh) = Some (Some 0, d)"
    "desk_inv d" "desk_legible d" "dk_gw d = gw" "dk_gh d = gh" "\<forall>r \<in> set (dk_redraws d). near_rect r" "terms_fit d"
proof -
  let ?z = "zero_desk gw gh"
  obtain x y w h where r: "place_win ?z (120, 90, 460, 240) = (x, y, w, h)" by (cases "place_win ?z (120, 90, 460, 240)")
  have inv: "desk_inv ?z" by (rule zero_desk_inv [OF s])
  have wins: "dk_wins ?z = replicate 8 zero_win" "dk_redraws ?z = []" "dk_order ?z = 0" by (simp_all add: zero_desk_def MAX_WINDOWS_def)
  define n where "n = zero_win\<lparr>w_used := True, w_x := x, w_y := y, w_w := w, w_h := h, w_title := Title ''About Sol OS'', w_kind := 0,
      w_order := 1, w_min := False, w_max := False, w_lines := take MAX_WIN_LINES about_lines\<rparr>"
  define d0 where "d0 = ?z\<lparr>dk_order := 1, dk_wins := (replicate 8 zero_win)[0 := n]\<rparr>"
  have f: "free_win 0 (replicate 8 zero_win) = Some 0" by (simp add: numeral_eq_Suc zero_win_def)
  have run: "win_open (Title ''About Sol OS'') (120, 90, 460, 240) 0 about_lines ?z = Some (Some 0, redraw_all_titles d0)"
    using f unfolding win_open_def r by (simp add: wins app_init_def d0_def n_def del: replicate.simps)
  have inv': "desk_inv (redraw_all_titles d0)"
    by (rule win_open_ok [OF inv, of 460 240 "Title ''About Sol OS''" 120 90 0 about_lines]) (use run in \<open>simp_all add: MIN_WIN_W_def MIN_WIN_H_def\<close>)
  then have inv0: "desk_inv d0" by simp
  have "win_legible n" using about_plain by (auto simp: win_legible_def n_def dest: in_set_takeD)
  then have "desk_legible d0" using empty_names
    by (auto simp: desk_legible_def d0_def zero_desk_def zero_fs_empty zero_win_def numeral_eq_Suc)
  then have "desk_legible (redraw_all_titles d0)" using only_redraws_legible [of d0 "redraw_all_titles d0"] by simp
  moreover have "dk_gw (redraw_all_titles d0) = gw" "dk_gh (redraw_all_titles d0) = gh"
    using only_redraws_keeps(3,4) [of d0 "redraw_all_titles d0"] by (simp_all add: d0_def zero_desk_def)
  moreover have "\<forall>r \<in> set (dk_redraws (redraw_all_titles d0)). near_rect r" by (rule titles_near [OF inv0]) (simp add: d0_def wins)
  moreover have "terms_fit d0" by (auto simp: terms_fit_def d0_def n_def zero_win_def numeral_eq_Suc)
  then have "terms_fit (redraw_all_titles d0)" by (rule only_redraws_fit [rotated]) simp
  ultimately show ?thesis using that [OF run inv'] by simp
qed

section \<open>The first files\<close>

lemma copy_cstr_ascii: "copy_cstr m src dst n = Some (k, d) \<Longrightarrow> ascii src \<Longrightarrow> ascii dst \<Longrightarrow> ascii d"
proof (induction m src dst n arbitrary: k d rule: copy_cstr.induct)
  case (1 m src dst n)
  have up: "ascii (xs[i := c])" if "ascii xs" "c < 128" for xs i c
    using that set_update_subset_insert [of xs i c] by (auto simp: ascii_def)
  obtain c where c: "rd src n = Some c" using 1(2) by (subst (asm) copy_cstr.simps) (auto simp: bind_eq_Some_conv)
  then have c1: "c < 128" "n < length src" using 1(3) by (auto simp: rd_eq_Some ascii_def)
  show ?case
  proof (cases "c \<noteq> 0 \<and> n < m")
    case True
    then obtain d1 where d1: "wr dst n c = Some d1" "copy_cstr m src d1 (n + 1) = Some (k, d)"
      using 1(2) c by (subst (asm) copy_cstr.simps) (auto simp: bind_eq_Some_conv)
    then have "ascii d1" using up 1(4) c1(1) by (auto simp: wr_eq_Some)
    then show ?thesis using 1(1) [OF c True d1(1,2) 1(3)] by blast
  next
    case False
    then obtain d1 where "wr dst n 0 = Some d1" "d = d1" using 1(2) c by (subst (asm) copy_cstr.simps) (auto simp: bind_eq_Some_conv)
    then show ?thesis using up 1(4) by (auto simp: wr_eq_Some)
  qed
qed

lemma demo_file_ok:
  assumes ok: "fs_ok fs" "\<forall>f \<in> set fs. ascii (ff_name f)" and nm: "ascii (lit name)" "0 \<notin> set (lit name)" "length name < NOTEPAD_MAX_FNAME"
    and t: "length text \<le> FS_MAX_FDATA"
  shows "\<exists>fs'. demo_file name text fs = Some fs' \<and> fs_ok fs' \<and> (\<forall>f \<in> set fs'. ascii (ff_name f))"
proof -
  have tm: "terminated (lit name @ [0])" by (simp add: terminated_def)
  have c: "cstr (lit name @ [0]) = lit name" using cstr_append [OF nm(2), of "[]"] by simp
  have l: "length (cstr (lit name @ [0])) < NOTEPAD_MAX_FNAME" using nm(3) by (simp add: c)
  obtain idx fs1 where r: "fs_create (lit name @ [0]) fs = Some (idx, fs1)" "fs_ok fs1" "idx \<ge> 0 \<Longrightarrow> nat idx < length fs1"
  proof (cases rule: fs_create_spec [OF ok(1) tm l])
    case (1 i fs')
    then show ?thesis using that [of "int i" fs'] by simp
  next
    case 2
    then show ?thesis using that [of "- 1" fs] ok(1) by simp
  qed
  have names: "\<forall>f \<in> set fs1. ascii (ff_name f)"
  proof -
    obtain k where k: "fs_find (lit name @ [0]) fs = Some k" using r(1) by (auto simp: fs_create_def bind_eq_Some_conv)
    show ?thesis
    proof (cases "k \<ge> 0")
      case True
      then show ?thesis using r(1) k ok(2) by (simp add: fs_create_def)
    next
      case F: False
      show ?thesis
      proof (cases "first_free 0 (take FS_MAX_FILES fs)")
        case None
        then show ?thesis using r(1) k F ok(2) by (simp add: fs_create_def)
      next
        case (Some i)
        then obtain f n' nm' where s: "rd fs i = Some f" "copy_cstr (NOTEPAD_MAX_FNAME - 1) (lit name @ [0]) (ff_name f) 0 = Some (n', nm')"
            "fs1 = fs[i := f\<lparr>ff_used := True, ff_len := 0, ff_name := nm'\<rparr>]"
          using r(1) k F by (auto simp: fs_create_def bind_eq_Some_conv)
        have i: "i < length fs" "f = fs ! i" using s(1) by (simp_all add: rd_eq_Some)
        then have fl: "length (ff_name f) = NOTEPAD_MAX_FNAME" "ascii (ff_name f)" using ok by (simp_all add: fs_ok_def file_ok_def)
        have "ascii nm'" using copy_cstr_ascii [OF s(2)] nm(1) fl(2) by simp
        then show ?thesis unfolding s(3) using ok(2) set_update_subset_insert [of fs i] by fastforce
      qed
    qed
  qed
  show ?thesis
  proof (cases "idx \<ge> 0")
    case True
    define f where "f = fs1 ! nat idx"
    have i: "nat idx < length fs1" using r(3) True by simp
    have f: "file_ok f" using r(2) i by (simp add: fs_ok_def f_def)
    then have wl: "0 + length text \<le> length (ff_data f)" using t by (simp add: file_ok_def)
    define f' where "f' = f\<lparr>ff_data := take 0 (ff_data f) @ text @ drop (0 + length text) (ff_data f), ff_len := length text\<rparr>"
    have "demo_file name text fs = Some (fs1[nat idx := f'])"
      using r(1) True i wr_range_Some [OF wl] by (simp add: demo_file_def rd_Some f_def [symmetric] f'_def)
    moreover have "fs_ok (fs1[nat idx := f'])"
    proof -
      have f': "file_ok f'" "\<And>nm. named nm f' = named nm f" using f t wl by (simp_all add: file_ok_def f'_def named_def)
      have n: "named nm (fs1[nat idx := f'] ! j) = named nm (fs1 ! j)" if "j < length fs1" for nm j
        using f'(2) that by (cases "j = nat idx") (simp_all add: f_def)
      have "file_ok (fs1[nat idx := f'] ! j)" if "j < length fs1" for j
        using f'(1) r(2) that by (cases "j = nat idx") (simp_all add: fs_ok_def)
      then show ?thesis using r(2) n unfolding fs_ok_def length_list_update by blast
    qed
    moreover have "\<forall>g \<in> set (fs1[nat idx := f']). ascii (ff_name g)"
    proof -
      have "ascii (ff_name f')" using names i by (simp add: f'_def f_def)
      then show ?thesis using names set_update_subset_insert [of fs1 "nat idx" f'] by blast
    qed
    ultimately show ?thesis by blast
  next
    case False
    then show ?thesis using r names by (simp add: demo_file_def)
  qed
qed

section \<open>Composing before the pages are in step\<close>

text \<open>Only the backbuffer's content and the damage differ.\<close>

definition same_surface :: "gfx \<Rightarrow> gfx \<Rightarrow> bool" where
  "same_surface g g' \<longleftrightarrow> (\<exists>bb on r. g' = g\<lparr>gx_bb := bb, gx_dmg_on := on, gx_dmg := r\<rparr> \<and> length bb = length (gx_bb g))"

lemma same_surface_refl [simp]: "same_surface g g"
  unfolding same_surface_def by (rule exI [of _ "gx_bb g"], rule exI [of _ "gx_dmg_on g"], rule exI [of _ "gx_dmg g"]) simp

lemma same_surface_trans: "same_surface g g1 \<Longrightarrow> same_surface g1 g2 \<Longrightarrow> same_surface g g2"
proof -
  assume "same_surface g g1" "same_surface g1 g2"
  then obtain bb on r bb' on' r' where "g1 = g\<lparr>gx_bb := bb, gx_dmg_on := on, gx_dmg := r\<rparr>" "length bb = length (gx_bb g)"
    "g2 = g1\<lparr>gx_bb := bb', gx_dmg_on := on', gx_dmg := r'\<rparr>" "length bb' = length (gx_bb g1)" unfolding same_surface_def by blast
  then have "g2 = g\<lparr>gx_bb := bb', gx_dmg_on := on', gx_dmg := r'\<rparr>" "length bb' = length (gx_bb g)" by simp_all
  then show ?thesis unfolding same_surface_def by blast
qed

lemma bb_only_same: "bb_only g g' \<Longrightarrow> same_surface g g'"
proof -
  assume "bb_only g g'"
  then obtain bb where "g' = g\<lparr>gx_bb := bb\<rparr>" "length bb = length (gx_bb g)" by (auto simp: bb_only_def)
  then show ?thesis unfolding same_surface_def by (intro exI [of _ bb] exI [of _ "gx_dmg_on g"] exI [of _ "gx_dmg g"]) simp
qed

lemma damage_add_same: "damage_add x y w h g = Some g' \<Longrightarrow> same_surface g g'"
proof -
  assume "damage_add x y w h g = Some g'"
  then obtain on r where "g' = g\<lparr>gx_dmg_on := on, gx_dmg := r\<rparr>" by (rule damage_add_shape)
  then show ?thesis unfolding same_surface_def by (intro exI [of _ "gx_bb g"] exI [of _ on] exI [of _ r]) simp
qed

lemma damage_add_total:
  assumes "rect64 x y w h" "screen_ok g"
  shows "\<exists>g'. damage_add x y w h g = Some g'"
proof -
  obtain c where "bb_clip x y w h g = Some c" using bb_clip_spec [OF assms] by blast
  then show ?thesis by (cases c; cases "the c"; cases "gx_dmg g"; cases "gx_dmg_on g") (simp_all add: damage_add_def Let_def)
qed

lemma same_surface_frame:
  assumes "same_surface g g'"
  shows "screen_ok g' = screen_ok g" "gx_clip_on g' = gx_clip_on g" "gx_w g' = gx_w g" "gx_h g' = gx_h g" "gx_fb g' = gx_fb g"
    "gx_flip g' = gx_flip g" "gx_front g' = gx_front g" "gx_pitch g' = gx_pitch g"
  using assms by (auto simp: same_surface_def screen_ok_def)

lemma paintable_only: "paintable p d \<Longrightarrow> only_redraws d d' \<Longrightarrow> paintable p d'"
  using only_redraws_inv only_redraws_legible only_redraws_fit by (simp add: paintable_def)

lemma compose_total:
  assumes p: "paintable p d" and g: "screen_ok g" "\<not> gx_clip_on g" "on_desk g d" and r: "rect_ends x y w h"
  shows "\<exists>g' d'. compose_rect p (x, y, w, h) (g, d) = Some (g', d') \<and> only_redraws d d' \<and> same_surface g g'"
proof -
  define d' where "d' = (if hits_screen d x y w h then viewed d (x, y, w, h) else d)"
  obtain g1 where g1: "scene_region p (x, y, w, h) (g, d) = Some (g1, d')" "bb_only g g1"
    using scene_region_ok [OF p g(1,2) _ _ r] g(3) unfolding d'_def on_desk_def by blast
  obtain g2 where g2: "damage_add x y w h g1 = Some g2" using damage_add_total [of x y w h] r bb_only_frame(1) [OF g1(2)] g(1) unfolding rect_ends_def by blast
  have "compose_rect p (x, y, w, h) (g, d) = Some (g2, d')" using g1(1) g2 by (simp add: compose_rect_def)
  moreover have "only_redraws d d'" using viewed_only by (simp add: d'_def)
  moreover have "same_surface g g2" using same_surface_trans [OF bb_only_same [OF g1(2)] damage_add_same [OF g2]] .
  ultimately show ?thesis by blast
qed

lemma compose_all_total:
  "paintable p d \<Longrightarrow> screen_ok g \<Longrightarrow> \<not> gx_clip_on g \<Longrightarrow> on_desk g d \<Longrightarrow> \<forall>r \<in> set rs. near_rect r \<Longrightarrow>
    \<exists>g' d'. compose_all p rs (g, d) = Some (g', d') \<and> only_redraws d d' \<and> same_surface g g'"
proof (induction rs arbitrary: g d)
  case (Cons r rs)
  obtain x y w h where r: "r = (x, y, w, h)" by (cases r)
  have r64: "rect_ends x y w h" using Cons.prems(5) r by (simp add: near_rect_def rect_ends_def rect64_def in64_def near_def)
  obtain g1 d1 where 1: "compose_rect p r (g, d) = Some (g1, d1)" "only_redraws d d1" "same_surface g g1"
    using compose_total [OF Cons.prems(1-4) r64] unfolding r by blast
  note f = same_surface_frame [OF 1(3)]
  have on: "on_desk g1 d1" using Cons.prems(4) only_redraws_keeps(3,4) [OF 1(2)] by (simp add: on_desk_def f)
  obtain g2 d2 where "compose_all p rs (g1, d1) = Some (g2, d2)" "only_redraws d1 d2" "same_surface g1 g2"
    using Cons.IH [OF paintable_only [OF Cons.prems(1) 1(2)] _ _ on] Cons.prems(2,3,5) f by auto
  then show ?case using 1 only_redraws_trans same_surface_trans by (auto simp: bind_eq_Some_conv)
qed simp

text \<open>The screen that the start-up leaves: the scene of the desktop, before the cursor was put in the middle, with the cursor
  on it.\<close>

definition first_frame :: "painter \<Rightarrow> gfx \<Rightarrow> desk \<Rightarrow> bool" where
  "first_frame p g d \<longleftrightarrow> (\<exists>g0 d0.
     d = (viewed d0 (0, 0, int (dk_gw d), int (dk_gh d)))\<lparr>dk_cx := dk_cx d, dk_cy := dk_cy d, dk_last_sec := dk_last_sec d\<rparr>
     \<and> (\<forall>px py. on_screen g px py \<and> cursor_shape (px - dk_cx d) (py - dk_cy d) = 0
          \<longrightarrow> pixel g px py = scene_color p d0 (0, 0, int (dk_gw d), int (dk_gh d)) g0 px py))"

section \<open>The pages\<close>

lemma fits_on: "on_screen g px py \<Longrightarrow> in_rect 0 0 (int (gx_w g)) (int (gx_h g)) px py"
  by (simp add: on_screen_def in_rect_def)

lemma blit_full_shows:
  assumes ok: "gfx_ok g" "\<not> gx_clip_on g" "page_fits g (fb_active (gx_fb g))"
  shows "\<exists>v. blit_full g = Some (g\<lparr>gx_fb := (gx_fb g)\<lparr>fb_vram := v\<rparr>\<rparr>) \<and> length v = length (fb_vram (gx_fb g))
    \<and> (\<forall>px py. on_screen g px py \<longrightarrow> shows_pixel (g\<lparr>gx_fb := (gx_fb g)\<lparr>fb_vram := v\<rparr>\<rparr>) (fb_active (gx_fb g)) px py)
    \<and> (\<forall>p px py. p < 2 \<and> p \<noteq> fb_active (gx_fb g) \<and> page_fits g p \<and> on_screen g px py \<and> shows_pixel g p px py
         \<longrightarrow> shows_pixel (g\<lparr>gx_fb := (gx_fb g)\<lparr>fb_vram := v\<rparr>\<rparr>) p px py)"
proof -
  have so: "screen_ok g" "fb_active (gx_fb g) < 2" using ok(1) by (simp_all add: gfx_ok_def)
  then have "rect64 0 0 (int (gx_w g)) (int (gx_h g))" by (simp add: rect64_def in64_def screen_ok_def)
  from blit_rect_shows [OF this ok(1,3)] obtain v where v: "blit_full g = Some (g\<lparr>gx_fb := (gx_fb g)\<lparr>fb_vram := v\<rparr>\<rparr>)"
    "length v = length (fb_vram (gx_fb g))"
    "\<And>p px py t. p < 2 \<Longrightarrow> page_fits g p \<Longrightarrow> on_screen g px py \<Longrightarrow> t < 4 \<Longrightarrow>
         page_byte (g\<lparr>gx_fb := (gx_fb g)\<lparr>fb_vram := v\<rparr>\<rparr>) p px py t =
           (if p = fb_active (gx_fb g) \<and> in_rect 0 0 (int (gx_w g)) (int (gx_h g)) px py \<and> visible g px py then le32 (pixel g px py) ! t
            else page_byte g p px py t)"
    unfolding blit_full_def by blast
  have px: "pixel (g\<lparr>gx_fb := f\<rparr>) px py = pixel g px py" for f px py by (simp add: pixel_def)
  have vis: "visible g px py \<longleftrightarrow> on_screen g px py" for px py using ok(2) by (simp add: visible_def on_screen_def)
  show ?thesis using v ok(3) so(2) fits_on by (intro exI [of _ v]) (auto simp: shows_pixel_def px vis)
qed

text \<open>What the driver found: both pages in video memory, one behind the other, or a single page.\<close>

definition pages_ok :: "gfx \<Rightarrow> bool" where
  "pages_ok g \<longleftrightarrow> gfx_ok g \<and> fb_active (gx_fb g) = 0 \<and> page_fits g 0 \<and> (gx_flip g \<longrightarrow> page_fits g 1)"

lemma page_fits_fb: "page_fits (g\<lparr>gx_fb := f\<rparr>) p \<longleftrightarrow>
    (\<exists>b. fb_page_base p f = Some b \<and> b + gx_h g * gx_pitch g \<le> length (fb_vram f))"
  by (simp add: page_fits_def)

lemma init_pages_ok:
  assumes ok: "pages_ok g" "\<not> gx_clip_on g" "gx_front g = 0"
  shows "\<exists>g'. init_pages g = Some g' \<and> gx_bb g' = gx_bb g \<and> gx_w g' = gx_w g \<and> gx_h g' = gx_h g \<and> gx_flip g' = gx_flip g
    \<and> (\<forall>px py. on_screen g px py \<longrightarrow> shows_pixel g' 0 px py)
    \<and> (gx_flip g \<longrightarrow> flip_inv (g'\<lparr>gx_dmg_on := False, gx_prev_on := False\<rparr>))"
proof (cases "gx_flip g")
  case False
  have a: "fb_active (gx_fb g) = 0" "gfx_ok g" "page_fits g (fb_active (gx_fb g))" using ok(1) by (simp_all add: pages_ok_def)
  obtain v where v: "blit_full g = Some (g\<lparr>gx_fb := (gx_fb g)\<lparr>fb_vram := v\<rparr>\<rparr>)"
    "\<forall>px py. on_screen g px py \<longrightarrow> shows_pixel (g\<lparr>gx_fb := (gx_fb g)\<lparr>fb_vram := v\<rparr>\<rparr>) (fb_active (gx_fb g)) px py"
    using blit_full_shows [OF a(2) ok(2) a(3)] by blast
  then show ?thesis using False a(1) by (simp add: init_pages_def)
next
  case True
  define g0 where "g0 = g\<lparr>gx_fb := fb_set_active_page 0 (gx_fb g)\<rparr>"
  have a: "gfx_ok g" "page_fits g 0" "page_fits g 1" using ok(1) True by (simp_all add: pages_ok_def)
  have base: "fb_page_base p (fb_set_active_page k f) = fb_page_base p f" "fb_vram (fb_set_active_page k f) = fb_vram f" for p k f
    by (simp_all add: fb_page_base_def fb_set_active_page_def)
  have ok0: "gfx_ok g0" "\<not> gx_clip_on g0" "fb_active (gx_fb g0) = 0" "page_fits g0 0" "page_fits g0 1" "on_screen g0 = on_screen g"
    using a ok(2) by (simp_all add: g0_def gfx_ok_def screen_ok_def pages_apart_def fb_set_active_page_def page_fits_def fb_page_base_def on_screen_def fun_eq_iff)
  obtain v1 where 1: "blit_full g0 = Some (g0\<lparr>gx_fb := (gx_fb g0)\<lparr>fb_vram := v1\<rparr>\<rparr>)" "length v1 = length (fb_vram (gx_fb g0))"
    "\<forall>px py. on_screen g0 px py \<longrightarrow> shows_pixel (g0\<lparr>gx_fb := (gx_fb g0)\<lparr>fb_vram := v1\<rparr>\<rparr>) 0 px py"
    using blit_full_shows [OF ok0(1,2)] ok0(3,4) by auto
  define g1 where "g1 = g0\<lparr>gx_fb := fb_set_active_page 1 ((gx_fb g0)\<lparr>fb_vram := v1\<rparr>)\<rparr>"
  have ok1: "gfx_ok g1" "\<not> gx_clip_on g1" "fb_active (gx_fb g1) = 1" "page_fits g1 0" "page_fits g1 1" "on_screen g1 = on_screen g"
    using ok0 1(2) by (simp_all add: g1_def gfx_ok_def screen_ok_def pages_apart_def fb_set_active_page_def page_fits_def fb_page_base_def on_screen_def fun_eq_iff)
  have s1: "shows_pixel g1 0 px py" if "on_screen g px py" for px py
    using 1(3) that ok0(6) by (simp add: shows_pixel_def page_byte_def pixel_def g1_def fb_set_active_page_def fb_page_base_def)
  obtain v2 where 2: "blit_full g1 = Some (g1\<lparr>gx_fb := (gx_fb g1)\<lparr>fb_vram := v2\<rparr>\<rparr>)" "length v2 = length (fb_vram (gx_fb g1))"
    "\<forall>px py. on_screen g1 px py \<longrightarrow> shows_pixel (g1\<lparr>gx_fb := (gx_fb g1)\<lparr>fb_vram := v2\<rparr>\<rparr>) 1 px py"
    "\<forall>px py. on_screen g1 px py \<and> shows_pixel g1 0 px py \<longrightarrow> shows_pixel (g1\<lparr>gx_fb := (gx_fb g1)\<lparr>fb_vram := v2\<rparr>\<rparr>) 0 px py"
    using blit_full_shows [OF ok1(1,2)] ok1(3-5) by auto
  define g2 where "g2 = g1\<lparr>gx_fb := fb_set_active_page 0 ((gx_fb g1)\<lparr>fb_vram := v2\<rparr>)\<rparr>"
  have ok2: "gfx_ok g2" "\<not> gx_clip_on g2" "page_fits g2 0" "page_fits g2 1" "on_screen g2 = on_screen g"
    using ok1 2(2) by (simp_all add: g2_def gfx_ok_def screen_ok_def pages_apart_def fb_set_active_page_def page_fits_def fb_page_base_def on_screen_def fun_eq_iff)
  have sh: "shows_pixel g2 0 px py" "shows_pixel g2 1 px py" if "on_screen g px py" for px py
    using 2(3,4) s1 [OF that] that ok1(6)
    by (simp_all add: shows_pixel_def page_byte_def pixel_def g2_def fb_set_active_page_def fb_page_base_def)
  have same: "gx_bb g2 = gx_bb g" "gx_w g2 = gx_w g" "gx_h g2 = gx_h g" "gx_flip g2 = gx_flip g" "gx_front g2 = 0"
    using ok(3) by (simp_all add: g2_def g1_def g0_def)
  have run: "init_pages g = Some g2"
    using 1(1) 2(1) True by (simp add: init_pages_def g0_def [symmetric] g1_def [symmetric] g2_def [symmetric]) (simp add: g1_def g2_def)
  define g' where "g' = g2\<lparr>gx_dmg_on := False, gx_prev_on := False\<rparr>"
  have "gfx_ok g'" "\<not> gx_clip_on g'" "page_fits g' 0" "page_fits g' 1" "on_screen g' = on_screen g"
    "gx_front g' = 0" "\<not> gx_dmg_on g'" "\<not> gx_prev_on g'"
    using ok2 same(5) by (simp_all add: g'_def gfx_ok_def screen_ok_def pages_apart_def page_fits_def on_screen_def fun_eq_iff)
  moreover have "shows_pixel g' 0 px py" "shows_pixel g' 1 px py" if "on_screen g px py" for px py
    using sh [OF that] by (simp_all add: shows_pixel_def page_byte_def pixel_def g'_def)
  ultimately have "flip_inv g'" by (simp add: flip_inv_def)
  then show ?thesis using run same sh True by (simp add: g'_def)
qed

lemma enable_double_ok:
  assumes f: "fb_base0 f = Some a" "fb_base1 f = None" "fb_active f = 0" "\<not> fb_double f"
    and mem: "double_checks dev f \<Longrightarrow> a + 2 * (fb_pitch f * fb_h f) \<le> length (fb_vram f)"
  obtains flip f' where "fb_enable_double_buffer dev fbv hhdm f = Some (flip, f')" "fb_active f' = 0" "fb_base0 f' = Some a"
    "length (fb_vram f') = length (fb_vram f)" "flip \<Longrightarrow> fb_base1 f' = Some (a + fb_pitch f * fb_h f) \<and> double_checks dev f" "\<not> flip \<Longrightarrow> fb_base1 f' = None"
proof (cases "fb_present f \<and> double_checks dev f")
  case False
  then have "fb_enable_double_buffer dev fbv hhdm f = Some (False, f)" using f by (auto simp: fb_enable_double_buffer_def)
  then show ?thesis using that f by simp
next
  case True
  define page where "page = fb_pitch f * fb_h f"
  define f1 where "f1 = vbe_write VBE_Y_OFFSET (vbe_read dev VBE_YRES f) f"
  define f2 where "f2 = vbe_write VBE_Y_OFFSET 0 f1"
  define f3 where "f3 = f2\<lparr>fb_mapped := fb_mapped f2 @ [(hhdm, fbv - hhdm + of_nat page, of_nat page)]\<rparr>"
  have s: "fb_vram f3 = fb_vram f" "fb_base0 f3 = Some a" "fb_base1 f3 = None" "fb_active f3 = 0" "fb_base0 f2 = Some a"
    "fb_base0 f1 = Some a" "fb_base1 f1 = None" "fb_active f1 = 0" "fb_vram f1 = fb_vram f" "fb_base1 f2 = None" "fb_active f2 = 0" "fb_vram f2 = fb_vram f"
    using f by (simp_all add: f3_def f2_def f1_def vbe_write_def)
  have e: "fb_enable_double_buffer dev fbv hhdm f =
     (if vbe_read dev VBE_Y_OFFSET f1 \<noteq> vbe_read dev VBE_YRES f then Some (False, f1)
      else if page mod 4096 \<noteq> 0 then Some (False, f2)
      else do { v \<leftarrow> wr_range (fb_vram f3) (a + page) (le32 0xCAFEBABE);
                v \<leftarrow> wr_range v (a + page + page - 4) (le32 0xDEADBEEF);
                x \<leftarrow> rd_range v (a + page) 4; y \<leftarrow> rd_range v (a + page + page - 4) 4;
                (let s = f3\<lparr>fb_vram := v\<rparr> in
                 if x \<noteq> le32 0xCAFEBABE \<or> y \<noteq> le32 0xDEADBEEF then Some (False, s)
                 else Some (True, s\<lparr>fb_page_bytes := page, fb_base1 := Some (a + page), fb_double := True\<rparr>)) })"
    using True f(1,4) s(2,5,6) unfolding fb_enable_double_buffer_def Let_def page_def [symmetric] f1_def [symmetric] f2_def [symmetric] f3_def [symmetric]
    unfolding s(2,5,6) option.sel by simp
  show ?thesis
  proof (cases "vbe_read dev VBE_Y_OFFSET f1 \<noteq> vbe_read dev VBE_YRES f \<or> page mod 4096 \<noteq> 0")
    case stop: True
    show ?thesis
    proof (cases "vbe_read dev VBE_Y_OFFSET f1 \<noteq> vbe_read dev VBE_YRES f")
      case True
      then have "fb_enable_double_buffer dev fbv hhdm f = Some (False, f1)" using e by simp
      then show ?thesis using that [of False f1] s by simp
    next
      case False
      then have "fb_enable_double_buffer dev fbv hhdm f = Some (False, f2)" using e stop by simp
      then show ?thesis using that [of False f2] s by simp
    qed
  next
    case go: False
    have "page \<noteq> 0" using True by (simp add: double_checks_def page_def)
    then have p: "4096 \<le> page" using go by (metis mod_less not_less)
    have m: "a + 2 * page \<le> length (fb_vram f)" using mem True by (simp add: page_def)
    have l4: "length (le32 c) = 4" for c by (simp add: le32_def bytes32_def)
    obtain v1 where v1: "wr_range (fb_vram f3) (a + page) (le32 0xCAFEBABE) = Some v1" "length v1 = length (fb_vram f)"
      using m p wr_range_Some [of "a + page" "le32 0xCAFEBABE" "fb_vram f3"] by (auto simp: l4 s(1) dest: wr_range_length)
    obtain v2 where v2: "wr_range v1 (a + page + page - 4) (le32 0xDEADBEEF) = Some v2" "length v2 = length (fb_vram f)"
      using m p v1(2) wr_range_Some [of "a + page + page - 4" "le32 0xDEADBEEF" v1] by (auto simp: l4 dest: wr_range_length)
    obtain x where x: "rd_range v2 (a + page) 4 = Some x" using rd_range_Some [of "a + page" 4 v2] m p v2(2) by auto
    obtain y where y: "rd_range v2 (a + page + page - 4) 4 = Some y" using rd_range_Some [of "a + page + page - 4" 4 v2] m p v2(2) by auto
    have r: "fb_enable_double_buffer dev fbv hhdm f = (if x \<noteq> le32 0xCAFEBABE \<or> y \<noteq> le32 0xDEADBEEF then Some (False, f3\<lparr>fb_vram := v2\<rparr>)
        else Some (True, (f3\<lparr>fb_vram := v2\<rparr>)\<lparr>fb_page_bytes := page, fb_base1 := Some (a + page), fb_double := True\<rparr>))"
      using e go v1(1) v2(1) x y by (simp add: Let_def)
    show ?thesis
    proof (cases "x \<noteq> le32 0xCAFEBABE \<or> y \<noteq> le32 0xDEADBEEF")
      case True
      then show ?thesis using that [of False "f3\<lparr>fb_vram := v2\<rparr>"] r s v2(2) by simp
    next
      case False
      then show ?thesis using that [of True "(f3\<lparr>fb_vram := v2\<rparr>)\<lparr>fb_page_bytes := page, fb_base1 := Some (a + page), fb_double := True\<rparr>"] r s v2(2) True
        by (simp add: page_def)
    qed
  qed
qed

section \<open>What the boot loader and the hardware must provide\<close>

text \<open>A screen that the applications fit on, a heap block of the size that was asked for, a font, a clock, modules, and
  video memory for the mode, for two pages of it if the display controller says so.\<close>

definition boot_ok :: "boot \<Rightarrow> fb_info \<Rightarrow> bool" where
  "boot_ok b i \<longleftrightarrow> bt_info b = Some i \<and> fi_bpp i = 32 \<and> 720 \<le> fi_width i \<and> fi_width i \<le> 2 ^ 20 \<and> 508 \<le> fi_height i
     \<and> fi_height i \<le> 2 ^ 20 \<and> fi_width i * fi_height i \<le> 2 ^ 28 \<and> 4 * fi_width i \<le> fi_pitch i
     \<and> (\<exists>addr mem. bt_alloc b (fi_width i * fi_height i * 4 + BB_GUARD_BYTES) = Some (addr, mem)
           \<and> length mem = fi_width i * fi_height i + BB_CANARIES)
     \<and> font_ok (bt_font b) \<and> clock_ok (bt_now b) \<and> png_env_ok (bt_png b)
     \<and> (\<forall>ms m f. bt_modules b = Some ms \<and> m \<in> set ms \<and> wm_data m = Some f \<longrightarrow> length f < 2 ^ 32)
     \<and> (\<exists>f0. bt_fb b = snd (fb_init (Some i) f0) \<and> \<not> fb_double f0)
     \<and> fi_addr i + fi_height i * fi_pitch i \<le> length (fb_vram (bt_fb b))
     \<and> (double_checks (bt_vbe b) (bt_fb b) \<longrightarrow> fi_addr i + 2 * (fi_height i * fi_pitch i) \<le> length (fb_vram (bt_fb b)))"

lemma boot_flip_ok:
  assumes b: "boot_ok b i" and g: "screen_ok g" "gx_fb g = bt_fb b" "gx_w g = fi_width i" "gx_h g = fi_height i" "gx_pitch g = fi_pitch i"
  shows "\<exists>g'. boot_flip b g = Some g' \<and> pages_ok g' \<and> (\<exists>flip f. g' = g\<lparr>gx_flip := flip, gx_fb := f\<rparr>)"
proof -
  let ?f = "bt_fb b"
  obtain f0 where f0: "?f = snd (fb_init (Some i) f0)" "\<not> fb_double f0" using b by (auto simp: boot_ok_def)
  have f: "fb_base0 ?f = Some (fi_addr i)" "fb_base1 ?f = None" "fb_active ?f = 0" "\<not> fb_double ?f" "fb_pitch ?f = fi_pitch i" "fb_h ?f = fi_height i"
    using f0(2) by (simp_all add: f0(1) fb_init_def)
  have m: "fi_addr i + fi_height i * fi_pitch i \<le> length (fb_vram ?f)"
    "double_checks (bt_vbe b) ?f \<Longrightarrow> fi_addr i + 2 * (fb_pitch ?f * fb_h ?f) \<le> length (fb_vram ?f)" "4 * fi_width i \<le> fi_pitch i"
    using b unfolding f(5,6) by (simp_all add: boot_ok_def mult.commute)
  obtain flip f' where e: "fb_enable_double_buffer (bt_vbe b) (bt_fbv b) (bt_hhdm b) ?f = Some (flip, f')" "fb_active f' = 0" "fb_base0 f' = Some (fi_addr i)"
    "length (fb_vram f') = length (fb_vram ?f)" "flip \<Longrightarrow> fb_base1 f' = Some (fi_addr i + fb_pitch ?f * fb_h ?f) \<and> double_checks (bt_vbe b) ?f"
    "\<not> flip \<Longrightarrow> fb_base1 f' = None"
    using enable_double_ok [OF f(1-4) m(2)] by blast
  define g' where "g' = g\<lparr>gx_flip := flip, gx_fb := fb_vsync_probe (bt_retrace b) f'\<rparr>"
  have run: "boot_flip b g = Some g'" using e(1) g(2) by (simp add: boot_flip_def g'_def)
  have fields: "fb_active (gx_fb g') = 0" "fb_base0 (gx_fb g') = Some (fi_addr i)" "fb_base1 (gx_fb g') = fb_base1 f'"
    "length (fb_vram (gx_fb g')) = length (fb_vram ?f)" "gx_w g' = fi_width i" "gx_h g' = fi_height i" "gx_pitch g' = fi_pitch i" "gx_flip g' = flip"
    using e g by (simp_all add: g'_def fb_vsync_probe_def)
  have so: "screen_ok g'" using g(1) by (simp add: g'_def screen_ok_def)
  have "pages_apart g'"
  proof (cases flip)
    case True
    then show ?thesis using e(5) f(5,6) by (simp add: pages_apart_def fields mult.commute)
  next
    case False
    then show ?thesis using e(6) by (simp add: pages_apart_def fields)
  qed
  moreover have "flip \<longrightarrow> page_fits g' 1" using e(5) m(2) f(5,6) by (auto simp: page_fits_def fb_page_base_def fields mult.commute)
  moreover have "page_fits g' 0" using m(1) by (simp add: page_fits_def fb_page_base_def fields)
  ultimately have "pages_ok g'" using so m(3) by (simp add: pages_ok_def gfx_ok_def fields)
  then show ?thesis using run by (auto simp: g'_def)
qed

lemma boot_scene_ok:
  assumes s: "720 \<le> gw" "gw \<le> 2 ^ 20" "508 \<le> gh" "gh \<le> 2 ^ 20" and p: "font_ok (pt_font p)" "wall_ok (pt_wall p)" "clock_ok (pt_now p)"
    and g: "screen_ok g" "\<not> gx_clip_on g" "gx_w g = gw" "gx_h g = gh"
  shows "\<exists>pos g' d. boot_scene p g (zero_desk gw gh) = Some (pos, g', d) \<and> desk_inv d \<and> desk_legible d \<and> dk_gw d = gw \<and> dk_gh d = gh
    \<and> pos = (dk_cx d, dk_cy d) \<and> cursor_on g' pos \<and> same_surface g g' \<and> first_frame p g' d"
proof -
  note gh = s(4)
  obtain d0 where d0: "win_open (Title ''About Sol OS'') (120, 90, 460, 240) 0 about_lines (zero_desk gw gh) = Some (Some 0, d0)"
    "desk_inv d0" "desk_legible d0" "dk_gw d0 = gw" "dk_gh d0 = gh" "\<forall>r \<in> set (dk_redraws d0). near_rect r" "terms_fit d0"
    by (rule first_window [OF s(1-3) gh])
  define d1 where "d1 = d0\<lparr>dk_redraws := []\<rparr>"
  have d1: "desk_inv d1" "desk_legible d1" "dk_gw d1 = gw" "dk_gh d1 = gh" using d0 by (simp_all add: d1_def desk_legible_def)
  have fit1: "terms_fit d1" using d0(7) by (simp add: d1_def terms_fit_def)
  have pt: "paintable p d1" using p d1 fit1 by (simp add: paintable_def)
  have on1: "on_desk g d1" using g(3,4) d1(3,4) by (simp add: on_desk_def)
  obtain g2 d2 where 2: "compose_all p (dk_redraws d0) (g, d1) = Some (g2, d2)" "only_redraws d1 d2" "same_surface g g2"
    using compose_all_total [OF pt g(1,2) on1 d0(6)] by blast
  note f2 = same_surface_frame [OF 2(3)]
  have nm: "ascii (lit ''welcome.txt'')" "0 \<notin> set (lit ''welcome.txt'')" "length ''welcome.txt'' < NOTEPAD_MAX_FNAME"
    "ascii (lit ''notes.txt'')" "0 \<notin> set (lit ''notes.txt'')" "length ''notes.txt'' < NOTEPAD_MAX_FNAME"
    "length demo_welcome \<le> FS_MAX_FDATA" "length demo_notes \<le> FS_MAX_FDATA"
    by (simp_all add: ascii_lit NOTEPAD_MAX_FNAME_def FS_MAX_FDATA_def demo_welcome_def demo_notes_def) (simp_all add: lit_chars)
  obtain fs1 where fs1: "demo_file ''welcome.txt'' demo_welcome zero_fs = Some fs1" "fs_ok fs1" "\<forall>f \<in> set fs1. ascii (ff_name f)"
    using demo_file_ok [OF empty_fs_ok empty_names nm(1-3,7)] unfolding zero_fs_empty by blast
  obtain fs2 where fs2: "demo_file ''notes.txt'' demo_notes fs1 = Some fs2" "fs_ok fs2" "\<forall>f \<in> set fs2. ascii (ff_name f)"
    using demo_file_ok [OF fs1(2,3) nm(4-6,8)] by blast
  define d3 where "d3 = d2\<lparr>dk_fs := fs2\<rparr>"
  have i2: "desk_inv d2" "desk_legible d2" "dk_gw d2 = gw" "dk_gh d2 = gh"
    using only_redraws_inv [OF 2(2)] only_redraws_legible [OF 2(2)] only_redraws_keeps [OF 2(2)] d1 by simp_all
  have d3: "desk_inv d3" "desk_legible d3" "dk_gw d3 = gw" "dk_gh d3 = gh"
    using fs_keeps [OF i2(1) fs2(2)] i2 fs2(3) by (simp_all add: d3_def desk_legible_def)
  have "terms_fit d3" using only_redraws_fit [OF 2(2) fit1] by (simp add: d3_def terms_fit_def)
  then have pt3: "paintable p d3" using p d3 by (simp add: paintable_def)
  have so2: "screen_ok g2" "\<not> gx_clip_on g2" "gx_w g2 = dk_gw d3" "gx_h g2 = dk_gh d3" using g f2 d3 by simp_all
  have r: "rect_ends 0 0 (int (gx_w g2)) (int (gx_h g2))" using so2(1) by (simp add: rect_ends_def rect64_def in64_def screen_ok_def)
  define d4 where "d4 = (if hits_screen d3 0 0 (int (gx_w g2)) (int (gx_h g2)) then viewed d3 (0, 0, int (gx_w g2), int (gx_h g2)) else d3)"
  obtain g4 where 4: "scene_region p (0, 0, int (gx_w g2), int (gx_h g2)) (g2, d3) = Some (g4, d4)" "bb_only g2 g4"
      "shows_scene p d3 (0, 0, int (gx_w g2), int (gx_h g2)) g2 g4"
    using scene_region_ok [OF pt3 so2 r] unfolding d4_def by blast
  have k4: "only_redraws d3 d4" using viewed_only by (simp add: d4_def)
  have i4: "desk_inv d4" "desk_legible d4" "dk_gw d4 = gw" "dk_gh d4 = gh"
    using only_redraws_inv [OF k4] only_redraws_legible [OF k4] only_redraws_keeps [OF k4] d3 by simp_all
  note f4 = bb_only_frame [OF 4(2)]
  define cx where "cx = int (gw div 2) - CURSOR_W div 2"
  define cy where "cy = int (gh div 2) - CURSOR_H div 2"
  have so4: "screen_ok g4" "\<not> gx_clip_on g4" using so2 f4 by simp_all
  obtain g5 where 5: "cursor_draw_bb cx cy g4 = Some g5" "bb_only g4 g5" "cursor_on g5 (cx, cy)"
    "\<forall>px py. on_screen g4 px py \<and> cursor_shape (px - cx) (py - cy) = 0 \<longrightarrow> pixel g5 px py = pixel g4 px py"
    using cursor_draw_exact [OF so4] by blast
  define d5 where "d5 = d4\<lparr>dk_cx := cx, dk_cy := cy\<rparr>"
  have c: "0 \<le> cx" "cx \<le> int gw - CURSOR_W" "0 \<le> cy" "cy \<le> int gh - CURSOR_H"
    using s(1,3) by (simp_all add: cx_def cy_def CURSOR_W_def CURSOR_H_def)
  have "held_ok d5 = held_ok d4" "work_h d5 = work_h d4" "screen_fits d5 = screen_fits d4"
    by (simp_all add: d5_def held_ok_def work_h_def screen_fits_def)
  then have "desk_inv d5" using i4 c by (simp add: desk_inv_def) (simp add: d5_def)
  moreover have "desk_legible d5" "dk_gw d5 = gw" "dk_gh d5 = gh" "dk_cx d5 = cx" "dk_cy d5 = cy" using i4 by (simp_all add: d5_def desk_legible_def)
  moreover have "same_surface g g5" using same_surface_trans [OF 2(3) same_surface_trans [OF bb_only_same [OF 4(2)] bb_only_same [OF 5(2)]]] .
  moreover have w4: "gx_w g4 = gw" "gx_h g4 = gh" using f4 so2(3,4) d3(3,4) by simp_all
  have "boot_scene p g (zero_desk gw gh) = Some ((cx, cy), g5, d5)"
    unfolding boot_scene_def d0(1) bind.bind_lunit prod.case d1_def [symmetric] 2(1) fs1(1) fs2(1) d3_def [symmetric] Let_def
    using 4(1) 5(1) f2(3,4) g(3,4) w4 by (simp add: cx_def cy_def d5_def)
  moreover have "first_frame p g5 d5"
    unfolding first_frame_def
  proof (intro exI conjI allI impI)
    have "d4 = viewed d3 (0, 0, int gw, int gh)" using s(1,3) d3(3,4) f2 g by (simp add: d4_def hits_screen_def)
    then show "d5 = (viewed d3 (0, 0, int (dk_gw d5), int (dk_gh d5)))\<lparr>dk_cx := dk_cx d5, dk_cy := dk_cy d5, dk_last_sec := dk_last_sec d5\<rparr>"
      using i4(3,4) by (simp add: d5_def)
    fix px py
    assume "on_screen g5 px py \<and> cursor_shape (px - dk_cx d5) (py - dk_cy d5) = 0"
    then show "pixel g5 px py = scene_color p d3 (0, 0, int (dk_gw d5), int (dk_gh d5)) g2 px py"
      using 4(3) 5(4) bb_only_frame(3) [OF 5(2)] f4(3) f2(3,4) g(3,4) i4(3,4) fits_on [of g2 px py]
      by (simp add: shows_scene_def d5_def)
  qed
  ultimately show ?thesis using 5(3) by auto
qed

lemma desktop_init_ok:
  assumes b: "boot_ok b i"
  shows "\<exists>pos g d. desktop_init b = Some (Some (pos, g, d)) \<and> desk_inv d \<and> desk_legible d \<and> on_desk g d \<and> pos = (dk_cx d, dk_cy d)
    \<and> cursor_on g pos \<and> (\<forall>px py. on_screen g px py \<longrightarrow> shows_pixel g 0 px py) \<and> (gx_flip g \<longrightarrow> frame_inv g pos)
    \<and> (\<exists>wall. wallpaper_init (bt_png b) (bt_modules b) = Some wall \<and> first_frame \<lparr>pt_font = bt_font b, pt_wall = wall, pt_now = bt_now b\<rparr> g d)"
proof -
  define gw where "gw = fi_width i"
  define gh where "gh = fi_height i"
  have B: "bt_info b = Some i" "fi_bpp i = 32" "720 \<le> gw" "gw \<le> 2 ^ 20" "508 \<le> gh" "gh \<le> 2 ^ 20" "gw * gh \<le> 2 ^ 28" "font_ok (bt_font b)"
    "clock_ok (bt_now b)" "png_env_ok (bt_png b)"
    using b by (simp_all add: boot_ok_def gw_def gh_def)
  note gh = B(6)
  obtain addr mem where m: "bt_alloc b (gw * gh * 4 + BB_GUARD_BYTES) = Some (addr, mem)" "length mem = gw * gh + BB_CANARIES"
    using b by (auto simp: boot_ok_def gw_def gh_def)
  obtain mem' where m': "guard_words (gw * gh * 4 div 4) 0 BB_CANARIES mem = Some mem'" "length mem' = gw * gh + BB_CANARIES"
    using guard_words_ok [of "gw * gh" 0 BB_CANARIES mem] m(2) by auto
  obtain wall where w: "wallpaper_init (bt_png b) (bt_modules b) = Some wall" "wall_ok wall"
    using wallpaper_init_ok [OF B(10), of "bt_modules b"] b unfolding boot_ok_def wall_ok_def by blast
  define p where "p = \<lparr>pt_font = bt_font b, pt_wall = wall, pt_now = bt_now b\<rparr>"
  define g0 where "g0 = boot_gfx b i addr mem'"
  have g0: "screen_ok g0" "\<not> gx_clip_on g0" "canaries_ok g0" "gx_w g0 = gw" "gx_h g0 = gh" "gx_fb g0 = bt_fb b" "gx_pitch g0 = fi_pitch i" "gx_front g0 = 0"
    using B(4) gh m'(2) by (simp_all add: g0_def boot_gfx_def screen_ok_def gw_def gh_def guard_canaries)
  have sz: "101 \<le> gx_w g0" "51 \<le> gx_h g0" using B(3,5) g0(4,5) by simp_all
  obtain r g1 where 1: "gfx_selftest (bt_font b) (zero_desk gw gh) g0 = Some (r, g1)" "bb_only g0 g1"
    using gfx_selftest_ok [OF g0(1-3) sz B(8) zero_desk_inside] by blast
  note f1 = bb_only_frame [OF 1(2)]
  have f1': "gx_fb g1 = bt_fb b" "gx_pitch g1 = fi_pitch i" "gx_front g1 = 0" using 1(2) g0(6-8) by (auto simp: bb_only_def)
  obtain g2 flip f where 2: "boot_flip b g1 = Some g2" "pages_ok g2" "g2 = g1\<lparr>gx_flip := flip, gx_fb := f\<rparr>"
    using boot_flip_ok [OF b, of g1] f1 f1' g0 by (auto simp: gw_def gh_def)
  have g2: "screen_ok g2" "\<not> gx_clip_on g2" "gx_w g2 = gw" "gx_h g2 = gh" "gx_front g2 = 0"
    using f1 g0 f1'(3) by (simp_all add: 2(3) screen_ok_def)
  obtain pos g3 d where 3: "boot_scene p g2 (zero_desk gw gh) = Some (pos, g3, d)" "desk_inv d" "desk_legible d" "dk_gw d = gw" "dk_gh d = gh"
    "pos = (dk_cx d, dk_cy d)" "cursor_on g3 pos" "same_surface g2 g3" "first_frame p g3 d"
    using boot_scene_ok [OF B(3-6), of p g2] B(8,9) w(2) g2 unfolding p_def by auto
  note f3 = same_surface_frame [OF 3(8)]
  have pg: "pages_ok g3" using 2(2) 3(8) by (auto simp: same_surface_def pages_ok_def gfx_ok_def screen_ok_def pages_apart_def page_fits_def)
  obtain g4 where 4: "init_pages g3 = Some g4" "gx_bb g4 = gx_bb g3" "gx_w g4 = gx_w g3" "gx_h g4 = gx_h g3" "gx_flip g4 = gx_flip g3"
    "\<forall>px py. on_screen g3 px py \<longrightarrow> shows_pixel g4 0 px py" "gx_flip g3 \<longrightarrow> flip_inv (g4\<lparr>gx_dmg_on := False, gx_prev_on := False\<rparr>)"
    using init_pages_ok [OF pg] f3 g2(2,5) by auto
  define g5 where "g5 = g4\<lparr>gx_dmg_on := False, gx_prev_on := False\<rparr>"
  define d5 where "d5 = d\<lparr>dk_last_sec := bt_ticks b div 100\<rparr>"
  have os: "on_screen g5 = on_screen g3" by (simp add: on_screen_def g5_def 4(3,4) fun_eq_iff)
  have px: "pixel g5 px py = pixel g3 px py" for px py by (simp add: pixel_def g5_def 4(2,3))
  have cur: "cursor_on g5 pos" by (rule cursor_on_cong [OF 3(7) os]) (rule px)
  have sh: "shows_pixel g5 0 px py" if "on_screen g5 px py" for px py
    using 4(6) that unfolding os by (simp add: shows_pixel_def page_byte_def pixel_def g5_def)
  have "gw \<noteq> 0" "gh \<noteq> 0" "\<not> gw > 0x100000" "\<not> gh > 0x100000" "\<not> gw * gh > 0x40000000 div 4" using B(3-5,7) gh by simp_all
  then have "desktop_init b = Some (Some (pos, g5, d5))"
    unfolding desktop_init_def B(1) option.case Let_def gw_def [symmetric] gh_def [symmetric] m(1) prod.case
    using B(2) m'(1) w(1) 1(1) 2(1) 3(1) 4(1) by (simp add: g0_def p_def g5_def d5_def)
  moreover have "desk_inv d5" "desk_legible d5" "on_desk g5 d5" "pos = (dk_cx d5, dk_cy d5)"
    using 3(2-6) f3(3,4) g2(3,4) 4(3,4) by (simp_all add: d5_def desk_legible_def on_desk_def g5_def)
  moreover have "gx_flip g5 \<longrightarrow> frame_inv g5 pos" using 4(5,7) cur by (simp add: frame_inv_def g5_def)
  moreover have "first_frame p g5 d5"
  proof -
    obtain h0 d0 where v: "d = (viewed d0 (0, 0, int (dk_gw d), int (dk_gh d)))\<lparr>dk_cx := dk_cx d, dk_cy := dk_cy d, dk_last_sec := dk_last_sec d\<rparr>"
      and c: "\<forall>px py. on_screen g3 px py \<and> cursor_shape (px - dk_cx d) (py - dk_cy d) = 0
          \<longrightarrow> pixel g3 px py = scene_color p d0 (0, 0, int (dk_gw d), int (dk_gh d)) h0 px py"
      using 3(9) unfolding first_frame_def by blast
    have k: "dk_cx d5 = dk_cx d" "dk_cy d5 = dk_cy d" "dk_gw d5 = dk_gw d" "dk_gh d5 = dk_gh d" by (simp_all add: d5_def)
    have "d5 = (viewed d0 (0, 0, int (dk_gw d), int (dk_gh d)))\<lparr>dk_cx := dk_cx d, dk_cy := dk_cy d, dk_last_sec := dk_last_sec d5\<rparr>"
      unfolding d5_def by (subst v) simp
    then show ?thesis unfolding first_frame_def k os px using c by blast
  qed
  ultimately show ?thesis using cur sh w(1) unfolding p_def by blast
qed

section \<open>What the start-up guarantees\<close>

text \<open>The graphics self-test passes: on every screen of at least 101 by 51 pixels it stays inside the backbuffer, and up
  to 9500 by 9500, the size of its largest rectangle, every value that it reads back is the expected one.\<close>

theorem gfx_selftest_passes:
  assumes "screen_ok g" "\<not> gx_clip_on g" "canaries_ok g" "101 \<le> gx_w g" "51 \<le> gx_h g" "font_ok font" "windows_inside d"
  shows "\<exists>r g'. gfx_selftest font d g = Some (r, g') \<and> bb_only g g' \<and> (gx_w g \<le> 9500 \<and> gx_h g \<le> 9500 \<longrightarrow> r)"
  by (rule gfx_selftest_ok [OF assms])

text \<open>C7. The desktop starts in a state that every later step relies on: given the screen, the memory and the modules that the
  boot loader must provide, \<^verbatim>\<open>desktop_init\<close> completes without an access out of bounds, its windows, files and cursor
  satisfy the invariant of the rounds, the texts are in the font, the page on display shows the backbuffer at every
  pixel with the cursor on it, and with page flipping armed both pages are ready for the first frame.\<close>

theorem desktop_init_ready:
  assumes "boot_ok b i"
  shows "\<exists>pos g d. desktop_init b = Some (Some (pos, g, d)) \<and> desk_inv d \<and> desk_legible d \<and> on_desk g d \<and> pos = (dk_cx d, dk_cy d)
    \<and> cursor_on g pos \<and> (\<forall>px py. on_screen g px py \<longrightarrow> shows_pixel g 0 px py) \<and> (gx_flip g \<longrightarrow> frame_inv g pos)
    \<and> (\<exists>wall. wallpaper_init (bt_png b) (bt_modules b) = Some wall \<and> first_frame \<lparr>pt_font = bt_font b, pt_wall = wall, pt_now = bt_now b\<rparr> g d)"
  by (rule desktop_init_ok [OF assms])




section \<open>A concrete start\<close>

definition example_info :: fb_info where
  "example_info = \<lparr>fi_addr = 0, fi_width = 1024, fi_height = 768, fi_pitch = 4096, fi_bpp = 32\<rparr>"

text \<open>A display controller with room for two pages.\<close>

definition example_vbe :: vbe_regs where
  "example_vbe = (\<lambda>regs i.
     case find (\<lambda>(k, v). k = i) (rev regs) of
       Some (k, v) \<Rightarrow> v
     | None \<Rightarrow> if i = VBE_ID then 0xB0C5 else if i = VBE_BPP then 32 else if i = VBE_ENABLE then 0x41 else if i = VBE_XRES then 1024
         else if i = VBE_YRES then 768 else if i = VBE_VIDEO_MEMORY_64K then 256 else 0)"

definition example_boot :: boot where
  "example_boot =
     \<lparr>bt_info = Some example_info,
      bt_fb = snd (fb_init (Some example_info) \<lparr>fb_present = False, fb_w = 0, fb_h = 0, fb_pitch = 0, fb_vram = replicate 6291456 0,
        fb_base0 = None, fb_base1 = None, fb_active = 0, fb_double = False, fb_page_bytes = 0, fb_vsync = False, fb_regs = [], fb_mapped = []\<rparr>),
      bt_fb_addr = 0, bt_alloc = (\<lambda>n. Some (0, replicate (n div 4) 0)), bt_png = png_test_env, bt_modules = None, bt_font = font8x8_basic,
      bt_vbe = example_vbe, bt_fbv = 0, bt_hhdm = 0, bt_retrace = (\<lambda>k. odd k), bt_now = None, bt_ticks = 250\<rparr>"

lemma example_boot_ok: "boot_ok example_boot example_info"
proof -
  have "png_env_ok png_test_env" by (simp add: png_env_ok_def png_test_env_def)
  moreover have "length (fb_vram (bt_fb example_boot)) = 6291456" by (simp add: example_boot_def fb_init_def)
  moreover have "\<exists>f0. bt_fb example_boot = snd (fb_init (Some example_info) f0) \<and> \<not> fb_double f0"
    unfolding example_boot_def boot.simps by (intro exI conjI) (rule refl, simp)
  moreover have "bt_info example_boot = Some example_info" "font_ok (bt_font example_boot)" "clock_ok (bt_now example_boot)"
    "bt_png example_boot = png_test_env" "bt_modules example_boot = None"
    "bt_alloc example_boot n = Some (0, replicate (n div 4) 0)" for n
    using font8x8_basic_ok by (simp_all add: example_boot_def clock_ok_def)
  ultimately show ?thesis
    by (simp add: boot_ok_def example_info_def BB_GUARD_BYTES_def BB_CANARIES_def)
qed

theorem desktop_init_ready_witness:
  "\<exists>pos g d. desktop_init example_boot = Some (Some (pos, g, d)) \<and> desk_inv d \<and> cursor_on g pos"
  using desktop_init_ready [OF example_boot_ok] by blast


theorem gfx_selftest_passes_witness:
  "\<exists>g'. gfx_selftest font8x8_basic empty_desk (blank_gfx\<lparr>gx_canary := map (\<lambda>k. BB_CANARY_BASE + of_nat k) [0 ..< BB_CANARIES]\<rparr>) = Some (True, g')"
proof -
  let ?g = "blank_gfx\<lparr>gx_canary := map (\<lambda>k. BB_CANARY_BASE + of_nat k) [0 ..< BB_CANARIES]\<rparr>"
  have w: "gx_w ?g = 1024" "gx_h ?g = 768" "\<not> gx_clip_on ?g" by (simp_all add: blank_gfx_def)
  have "screen_ok ?g" using blank_gfx_inv(4) by (simp add: screen_ok_def)
  moreover have "canaries_ok ?g" by (rule guard_canaries) simp
  moreover have "windows_inside empty_desk" by (auto simp: windows_inside_def empty_desk_def list_all_iff idle_win_def)
  ultimately show ?thesis using gfx_selftest_passes [of ?g font8x8_basic empty_desk] w font8x8_basic_ok by auto
qed

end
