(* ===== verification/Sol_Interfaces.thy ===== *)
theory Sol_Interfaces
  imports Sol_Prelude "HOL-Library.Sublist"
begin

text \<open>
  The interfaces through which the components of the kernel use one another, each stated as a
  locale: the operations the client calls and the laws it relies on. A client's lemma is proved
  once here and holds for every provider.

  \<^item> \<open>resource_pool\<close>: an allocator that hands out resources and takes them back. Providers
    are the physical page allocator (\<open>Pmm\<close>) and the descriptor pool of a virtqueue
    (\<open>Virtqueue\<close>).
  \<^item> \<open>bounded_fifo\<close>: a bounded queue that drops what does not fit. Providers are the keyboard
    character rings of the PS/2 driver and of the virtio input driver (\<open>Char_Rings\<close>).
\<close>

section \<open>Resource pools\<close>

datatype 'r pool_op = Acquire | Release 'r

text \<open>Drawing \<open>n\<close> resources in a row, stopping when the pool is empty.\<close>

fun alloc_n :: "('s \<Rightarrow> ('r \<times> 's) option) \<Rightarrow> nat \<Rightarrow> 's \<Rightarrow> 'r list \<times> 's" where
  "alloc_n f 0 s = ([], s)"
| "alloc_n f (Suc n) s =
     (case f s of
        None \<Rightarrow> ([], s)
      | Some (r, s') \<Rightarrow> (let (rs, s'') = alloc_n f n s' in (r # rs, s'')))"

text \<open>
  A client's run: it owns a set of resources, adds what it acquires and gives back only what it
  owns (a release of anything else is skipped).
\<close>

fun pool_run :: "('s \<Rightarrow> ('r \<times> 's) option) \<Rightarrow> ('r \<Rightarrow> 's \<Rightarrow> 's) \<Rightarrow> 'r pool_op list \<Rightarrow>
    's \<Rightarrow> 'r set \<Rightarrow> 's \<times> 'r set" where
  "pool_run f g [] s own = (s, own)"
| "pool_run f g (Acquire # ops) s own =
     (case f s of
        None \<Rightarrow> pool_run f g ops s own
      | Some (r, s') \<Rightarrow> pool_run f g ops s' (insert r own))"
| "pool_run f g (Release r # ops) s own =
     (if r \<in> own then pool_run f g ops (g r s) (own - {r})
      else pool_run f g ops s own)"

locale resource_pool =
  fixes alloc :: "'s \<Rightarrow> ('r \<times> 's) option"
    and release :: "'r \<Rightarrow> 's \<Rightarrow> 's"
    and avail :: "'s \<Rightarrow> 'r set"
    and universe :: "'s \<Rightarrow> 'r set"
    and inv :: "'s \<Rightarrow> bool"
  assumes finite_universe: "inv s \<Longrightarrow> finite (universe s)"
    and avail_universe: "inv s \<Longrightarrow> avail s \<subseteq> universe s"
    and alloc_None: "inv s \<Longrightarrow> alloc s = None \<longleftrightarrow> avail s = {}"
    and alloc_Some: "inv s \<Longrightarrow> alloc s = Some (r, s') \<Longrightarrow>
        r \<in> avail s \<and> avail s' = avail s - {r} \<and> universe s' = universe s \<and> inv s'"
    and release_ok: "inv s \<Longrightarrow> r \<in> universe s \<Longrightarrow> r \<notin> avail s \<Longrightarrow>
        avail (release r s) = insert r (avail s) \<and> universe (release r s) = universe s
        \<and> inv (release r s)"
begin

lemma finite_avail: "inv s \<Longrightarrow> finite (avail s)"
  using finite_universe avail_universe finite_subset by blast

lemma alloc_n_spec:
  assumes "inv s" and "alloc_n alloc n s = (rs, s')"
  shows "distinct rs \<and> set rs \<subseteq> avail s \<and> avail s' = avail s - set rs \<and> inv s'
    \<and> universe s' = universe s \<and> length rs = min n (card (avail s))"
  using assms
proof (induction n arbitrary: s rs)
  case 0
  then show ?case by simp
next
  case (Suc n)
  show ?case
  proof (cases "alloc s")
    case None
    then have "avail s = {}" using alloc_None [OF Suc.prems(1)] by simp
    with None Suc.prems show ?thesis by simp
  next
    case (Some p)
    then obtain r t where al: "alloc s = Some (r, t)" by (cases p) auto
    obtain ts where ts: "alloc_n alloc n t = (ts, s')" and rs: "rs = r # ts"
      using Suc.prems(2) al by (auto split: prod.splits)
    have step: "r \<in> avail s" "avail t = avail s - {r}" "universe t = universe s" "inv t"
      using alloc_Some [OF Suc.prems(1) al] by simp_all
    have "card (avail t) = card (avail s) - 1" and "0 < card (avail s)"
      using step finite_avail [OF Suc.prems(1)] by (auto simp: card_gt_0_iff)
    then show ?thesis
      using Suc.IH [OF step(4) ts] step rs by auto
  qed
qed

lemma alloc_release_avail:
  assumes "inv s" and "alloc s = Some (r, s')"
  shows "avail (release r s') = avail s" and "inv (release r s')"
proof -
  have a: "r \<in> avail s" "avail s' = avail s - {r}" "universe s' = universe s" "inv s'"
    using alloc_Some [OF assms] by simp_all
  then have "r \<in> universe s'" and "r \<notin> avail s'"
    using avail_universe [OF assms(1)] by auto
  with a show "avail (release r s') = avail s" and "inv (release r s')"
    using release_ok [OF a(4)] by auto
qed

text \<open>
  Ownership: whatever a client does, what it owns and what the pool may still hand out stay
  disjoint, and together they are what they were at the start. So no resource is handed out
  twice and none is lost.
\<close>

lemma pool_run_ownership:
  assumes "inv s" and "own \<inter> avail s = {}" and "own \<subseteq> universe s"
    and "pool_run alloc release ops s own = (s', own')"
  shows "inv s' \<and> own' \<inter> avail s' = {} \<and> own' \<union> avail s' = own \<union> avail s
    \<and> universe s' = universe s"
  using assms
proof (induction ops arbitrary: s own)
  case Nil
  then show ?case by simp
next
  case (Cons x ops)
  show ?case
  proof (cases x)
    case Acquire
    show ?thesis
    proof (cases "alloc s")
      case None
      with Cons.prems Acquire Cons.IH show ?thesis by simp
    next
      case (Some p)
      then obtain r t where al: "alloc s = Some (r, t)" by (cases p) auto
      note st = alloc_Some [OF Cons.prems(1) al]
      have "insert r own \<inter> avail t = {}" and "insert r own \<subseteq> universe t"
        and "insert r own \<union> avail t = own \<union> avail s"
        using st Cons.prems(2,3) avail_universe [OF Cons.prems(1)] by auto
      then show ?thesis
        using Cons.IH [of t "insert r own"] st Cons.prems(4) al Acquire by auto
    qed
  next
    case (Release r)
    show ?thesis
    proof (cases "r \<in> own")
      case False
      with Cons.prems Release Cons.IH show ?thesis by simp
    next
      case True
      then have "r \<in> universe s" and "r \<notin> avail s" using Cons.prems(2,3) by auto
      note st = release_ok [OF Cons.prems(1) this]
      have "(own - {r}) \<inter> avail (release r s) = {}" and "own - {r} \<subseteq> universe (release r s)"
        and "(own - {r}) \<union> avail (release r s) = own \<union> avail s"
        using st Cons.prems(2,3) True by auto
      then show ?thesis
        using Cons.IH [of "release r s" "own - {r}"] st Cons.prems(4) True Release by auto
    qed
  qed
qed

end

section \<open>Bounded queues that drop what does not fit\<close>

datatype 'a queue_op = Push 'a | Pop

text \<open>The abstract queue: a list of at most \<open>cap\<close> elements.\<close>

fun spec_run :: "nat \<Rightarrow> 'a queue_op list \<Rightarrow> 'a list \<Rightarrow> 'a option list \<times> 'a list" where
  "spec_run cap [] q = ([], q)"
| "spec_run cap (Push c # ops) q = spec_run cap ops (if length q < cap then q @ [c] else q)"
| "spec_run cap (Pop # ops) q =
     (case q of
        [] \<Rightarrow> (let (outs, q') = spec_run cap ops [] in (None # outs, q'))
      | c # q1 \<Rightarrow> (let (outs, q') = spec_run cap ops q1 in (Some c # outs, q')))"

fun ring_run :: "('a \<Rightarrow> 's \<Rightarrow> 's) \<Rightarrow> ('s \<Rightarrow> ('a \<times> 's) option) \<Rightarrow> 'a queue_op list \<Rightarrow> 's \<Rightarrow>
    'a option list \<times> 's" where
  "ring_run push pop [] s = ([], s)"
| "ring_run push pop (Push c # ops) s = ring_run push pop ops (push c s)"
| "ring_run push pop (Pop # ops) s =
     (case pop s of
        None \<Rightarrow> (let (outs, s') = ring_run push pop ops s in (None # outs, s'))
      | Some (c, s1) \<Rightarrow> (let (outs, s') = ring_run push pop ops s1 in (Some c # outs, s')))"

fun pushed :: "'a queue_op list \<Rightarrow> 'a list" where
  "pushed [] = []"
| "pushed (Push c # ops) = c # pushed ops"
| "pushed (Pop # ops) = pushed ops"

fun returned :: "'a option list \<Rightarrow> 'a list" where
  "returned [] = []"
| "returned (None # outs) = returned outs"
| "returned (Some c # outs) = c # returned outs"

text \<open>
  What comes out of the abstract queue, followed by what is still in it, is what was in it
  followed by what was pushed, with some elements dropped and none moved.
\<close>

lemma spec_run_order:
  "spec_run cap ops q = (outs, q') \<Longrightarrow>
   subseq (returned outs @ q') (q @ pushed ops)"
proof (induction cap ops q arbitrary: outs q' rule: spec_run.induct)
  case (1 cap q)
  then show ?case by simp
next
  case (2 cap c ops q)
  show ?case
  proof (cases "length q < cap")
    case True
    with 2 show ?thesis by simp
  next
    case False
    with 2 have "subseq (returned outs @ q') (q @ pushed ops)" by simp
    moreover have "subseq (q @ pushed ops) (q @ c # pushed ops)"
      by (intro list_emb_append_mono subseq_order.refl) auto
    ultimately show ?thesis by (auto intro: subseq_order.trans)
  qed
next
  case (3 cap ops q)
  then show ?case
    by (cases q) (auto split: prod.splits)
qed

lemma spec_run_bound: "spec_run cap ops q = (outs, q') \<Longrightarrow> length q \<le> cap \<Longrightarrow> length q' \<le> cap"
  by (induction cap ops q arbitrary: outs q' rule: spec_run.induct)
     (auto split: list.splits prod.splits if_splits)

locale bounded_fifo =
  fixes push :: "'a \<Rightarrow> 's \<Rightarrow> 's"
    and pop :: "'s \<Rightarrow> ('a \<times> 's) option"
    and contents :: "'s \<Rightarrow> 'a list"
    and capacity :: nat
    and inv :: "'s \<Rightarrow> bool"
  assumes push_inv: "inv s \<Longrightarrow> inv (push c s)"
    and push_contents: "inv s \<Longrightarrow>
        contents (push c s) = (if length (contents s) < capacity then contents s @ [c] else contents s)"
    and pop_empty: "inv s \<Longrightarrow> contents s = [] \<Longrightarrow> pop s = None"
    and pop_some: "inv s \<Longrightarrow> contents s = c # q \<Longrightarrow>
        \<exists>s'. pop s = Some (c, s') \<and> contents s' = q \<and> inv s'"
    and bounded: "inv s \<Longrightarrow> length (contents s) \<le> capacity"
begin

text \<open>Every run of the ring gives what the abstract queue gives.\<close>

lemma ring_run_refines:
  "inv s \<Longrightarrow> ring_run push pop ops s = (outs, s') \<Longrightarrow>
   spec_run capacity ops (contents s) = (outs, contents s') \<and> inv s'"
proof (induction ops arbitrary: s outs s')
  case Nil
  then show ?case by simp
next
  case (Cons x ops)
  show ?case
  proof (cases x)
    case (Push c)
    have "spec_run capacity ops (contents (push c s)) = (outs, contents s') \<and> inv s'"
      using Cons.IH [OF push_inv [OF Cons.prems(1)]] Cons.prems(2) Push by simp
    then show ?thesis
      using push_contents [OF Cons.prems(1), of c] Push by (simp split: if_splits)
  next
    case Pop
    show ?thesis
    proof (cases "contents s")
      case Nil
      with pop_empty [OF Cons.prems(1)] Pop Cons.prems Cons.IH [OF Cons.prems(1)]
      show ?thesis by (auto split: prod.splits)
    next
      case (Cons c q)
      from pop_some [OF Cons.prems(1) this] obtain t
        where t: "pop s = Some (c, t)" "contents t = q" "inv t" by blast
      obtain o1 where o1: "ring_run push pop ops t = (o1, s')" and "outs = Some c # o1"
        using Cons.prems(2) Pop t by (auto split: prod.splits)
      then show ?thesis
        using Cons.IH [OF t(3) o1] Pop Cons t by simp
    qed
  qed
qed

lemma ring_run_order:
  assumes "inv s" and "ring_run push pop ops s = (outs, s')"
  shows "subseq (returned outs @ contents s') (contents s @ pushed ops)"
  using ring_run_refines [OF assms] spec_run_order by blast

end

end
