(* ===== verification/Kheap.thy ===== *)
theory Kheap
  imports Sol_Interfaces
begin

text \<open>
  The kernel heap, \<^verbatim>\<open>kernel/mm/kheap.c\<close>: a first-fit allocator over one contiguous range.
  Every block starts with a 32-byte header; the headers form a doubly linked list in address
  order. The headers are kept in an explicit store, a map from addresses to headers, because the
  code finds them by pointer arithmetic and a freed block's old header stays in memory after the
  block has been merged away. Reading a header at an address that holds none is \<open>None\<close>.

  Addresses and block sizes are \<open>nat\<close> (the heap is 96 MiB, far below \<open>2 ^ 64\<close>); the size
  a caller asks for is a 64-bit word, because \<^verbatim>\<open>align16\<close> can wrap around. The null pointer
  is 0.

  The lemmas refine the store to a list of (size, free) blocks: \<open>kmalloc\<close> and \<open>kfree\<close>
  on the store compute what first fit with splitting and coalescing computes on the list.
\<close>

section \<open>State\<close>

definition KHEAP_SIZE :: nat where "KHEAP_SIZE = 96 * 1024 * 1024"
definition HEAP_MAGIC :: u32 where "HEAP_MAGIC = 0x48454150"
definition HEAP_MIN_BLOCK :: nat where "HEAP_MIN_BLOCK = 16"

text \<open>\<^verbatim>\<open>sizeof(struct heap_block)\<close> is 32 on x86-64: 8 + 4 + 4 + 8 + 8.\<close>

definition BLOCK_HEADER_SIZE :: nat where "BLOCK_HEADER_SIZE = 32"

record heap_block =
  hb_size :: nat
  hb_magic :: u32
  hb_free :: bool
  hb_prev :: nat
  hb_next :: nat

type_synonym store = "nat \<Rightarrow> heap_block option"

record kheap =
  kheap_head :: nat
  kheap_mem :: store

definition align16 :: "u64 \<Rightarrow> u64" where
  "align16 n = (n + 15) AND NOT 15"

text \<open>The block that \<^verbatim>\<open>kheap_init\<close> lays over the mapped range at \<open>base\<close>.\<close>

definition kheap_start :: "nat \<Rightarrow> nat \<Rightarrow> kheap" where
  "kheap_start base bytes =
     \<lparr>kheap_head = base,
      kheap_mem = [base \<mapsto> \<lparr>hb_size = bytes - BLOCK_HEADER_SIZE, hb_magic = HEAP_MAGIC,
                            hb_free = True, hb_prev = 0, hb_next = 0\<rparr>]\<rparr>"

section \<open>Allocation\<close>

text \<open>The search loop of \<^verbatim>\<open>kmalloc\<close>; it may not end on a cyclic list.\<close>

partial_function (option) find_fit :: "store \<Rightarrow> nat \<Rightarrow> nat \<Rightarrow> nat option" where
  "find_fit m sz b =
     (if b = 0 then Some 0
      else case m b of
        None \<Rightarrow> None
      | Some blk \<Rightarrow>
          if \<not> hb_free blk \<or> hb_size blk < sz then find_fit m sz (hb_next blk) else Some b)"

text \<open>\<^verbatim>\<open>if (p != NULL) p->prev = v\<close>.\<close>

definition set_prev :: "nat \<Rightarrow> nat \<Rightarrow> store \<Rightarrow> store option" where
  "set_prev p v m =
     (if p = 0 then Some m
      else do { blk \<leftarrow> m p; Some (m(p \<mapsto> blk\<lparr>hb_prev := v\<rparr>)) })"

definition split_block :: "nat \<Rightarrow> nat \<Rightarrow> store \<Rightarrow> store option" where
  "split_block b sz m =
     do { blk \<leftarrow> m b;
          if hb_size blk \<ge> sz + BLOCK_HEADER_SIZE + HEAP_MIN_BLOCK then
            (let nb = b + BLOCK_HEADER_SIZE + sz;
                 m1 = m(nb \<mapsto> \<lparr>hb_size = hb_size blk - sz - BLOCK_HEADER_SIZE,
                               hb_magic = HEAP_MAGIC, hb_free = True,
                               hb_prev = b, hb_next = hb_next blk\<rparr>)
             in do { m2 \<leftarrow> set_prev (hb_next blk) nb m1;
                     blk2 \<leftarrow> m2 b;
                     Some (m2(b \<mapsto> blk2\<lparr>hb_next := nb, hb_size := sz\<rparr>)) })
          else Some m }"

definition kmalloc :: "u64 \<Rightarrow> kheap \<Rightarrow> (nat \<times> kheap) option" where
  "kmalloc request h =
     (if request = 0 then Some (0, h)
      else (let sz = unat (align16 request) in
        do { b \<leftarrow> find_fit (kheap_mem h) sz (kheap_head h);
             if b = 0 then Some (0, h)
             else do { m1 \<leftarrow> split_block b sz (kheap_mem h);
                       blk \<leftarrow> m1 b;
                       Some (b + BLOCK_HEADER_SIZE,
                             h\<lparr>kheap_mem := m1(b \<mapsto> blk\<lparr>hb_free := False\<rparr>)\<rparr>) } }))"

text \<open>
  \<^verbatim>\<open>kcalloc\<close> also yields the byte range that its \<^verbatim>\<open>memset\<close> clears: the address and
  the length, if there is one. The product is a 64-bit product.
\<close>

definition kcalloc :: "u64 \<Rightarrow> u64 \<Rightarrow> kheap \<Rightarrow> (nat \<times> (nat \<times> nat) option \<times> kheap) option" where
  "kcalloc n elem h =
     (if n = 0 \<or> elem = 0 then Some (0, None, h)
      else do { (p, h') \<leftarrow> kmalloc (n * elem) h;
                Some (p, (if p \<noteq> 0 then Some (p, unat (n * elem)) else None), h') })"

section \<open>Release\<close>

definition coalesce_prev :: "nat \<Rightarrow> store \<Rightarrow> (nat \<times> store) option" where
  "coalesce_prev b m =
     do { blk \<leftarrow> m b;
          if hb_prev blk = 0 then Some (b, m)
          else do { pb \<leftarrow> m (hb_prev blk);
            if \<not> hb_free pb then Some (b, m)
            else do { m1 \<leftarrow> set_prev (hb_next blk) (hb_prev blk)
                        (m(hb_prev blk \<mapsto> pb\<lparr>hb_size := hb_size pb + BLOCK_HEADER_SIZE + hb_size blk,
                                            hb_next := hb_next blk\<rparr>));
                      Some (hb_prev blk, m1) } } }"

definition coalesce_next :: "nat \<Rightarrow> store \<Rightarrow> store option" where
  "coalesce_next b m =
     do { blk \<leftarrow> m b;
          if hb_next blk = 0 then Some m
          else do { nb \<leftarrow> m (hb_next blk);
            if \<not> hb_free nb then Some m
            else set_prev (hb_next nb) b
                   (m(b \<mapsto> blk\<lparr>hb_size := hb_size blk + BLOCK_HEADER_SIZE + hb_size nb,
                               hb_next := hb_next nb\<rparr>)) } }"

definition kfree :: "nat \<Rightarrow> kheap \<Rightarrow> kheap option" where
  "kfree ptr h =
     (if ptr = 0 then Some h
      else if ptr < BLOCK_HEADER_SIZE then None
      else (let b = ptr - BLOCK_HEADER_SIZE in
        do { blk \<leftarrow> kheap_mem h b;
             if hb_magic blk \<noteq> HEAP_MAGIC then Some h
             else if hb_free blk then Some h
             else do { (b1, m1) \<leftarrow> coalesce_prev b ((kheap_mem h)(b \<mapsto> blk\<lparr>hb_free := True\<rparr>));
                       m2 \<leftarrow> coalesce_next b1 m1;
                       Some (h\<lparr>kheap_mem := m2\<rparr>) } }))"

section \<open>Statistics\<close>

partial_function (option) sum_blocks :: "bool \<Rightarrow> store \<Rightarrow> nat \<Rightarrow> nat \<Rightarrow> nat option" where
  "sum_blocks want_free m b acc =
     (if b = 0 then Some acc
      else case m b of
        None \<Rightarrow> None
      | Some blk \<Rightarrow>
          sum_blocks want_free m (hb_next blk)
            (if hb_free blk = want_free then acc + hb_size blk else acc))"

definition kheap_free_bytes :: "kheap \<Rightarrow> nat option" where
  "kheap_free_bytes h = sum_blocks True (kheap_mem h) (kheap_head h) 0"

definition kheap_used_bytes :: "kheap \<Rightarrow> nat option" where
  "kheap_used_bytes h = sum_blocks False (kheap_mem h) (kheap_head h) 0"


section \<open>The heap as a list of blocks\<close>

text \<open>
  A heap is seen as the list of its blocks in address order, each a payload size and a free flag.
  \<open>blocks_end\<close> is the address after the blocks laid out from \<open>a\<close>, \<open>blocks_last\<close> the
  address of the last header. \<open>heap_seg\<close> says that the store holds exactly these blocks, one
  right after the other, with the links between them.
\<close>

type_synonym blocks = "(nat \<times> bool) list"

fun blocks_end :: "nat \<Rightarrow> blocks \<Rightarrow> nat" where
  "blocks_end a [] = a"
| "blocks_end a ((n, f) # bs) = blocks_end (a + BLOCK_HEADER_SIZE + n) bs"

fun blocks_last :: "nat \<Rightarrow> nat \<Rightarrow> blocks \<Rightarrow> nat" where
  "blocks_last p a [] = p"
| "blocks_last p a ((n, f) # bs) = blocks_last a (a + BLOCK_HEADER_SIZE + n) bs"

fun heap_seg :: "store \<Rightarrow> nat \<Rightarrow> nat \<Rightarrow> blocks \<Rightarrow> nat \<Rightarrow> bool" where
  "heap_seg m p a [] q = True"
| "heap_seg m p a ((n, f) # bs) q =
     (m a = Some \<lparr>hb_size = n, hb_magic = HEAP_MAGIC, hb_free = f, hb_prev = p,
                  hb_next = (if bs = [] then q else a + BLOCK_HEADER_SIZE + n)\<rparr>
      \<and> heap_seg m a (a + BLOCK_HEADER_SIZE + n) bs q)"

lemma header_pos [simp]: "0 < BLOCK_HEADER_SIZE" "BLOCK_HEADER_SIZE \<noteq> 0"
  by (simp_all add: BLOCK_HEADER_SIZE_def)

lemma blocks_end_append [simp]: "blocks_end a (xs @ ys) = blocks_end (blocks_end a xs) ys"
  by (induction a xs rule: blocks_end.induct) auto

lemma blocks_last_append [simp]:
  "blocks_last p a (xs @ ys) = blocks_last (blocks_last p a xs) (blocks_end a xs) ys"
  by (induction p a xs rule: blocks_last.induct) auto

lemma blocks_end_ge: "a \<le> blocks_end a bs"
  by (induction a bs rule: blocks_end.induct) auto

lemma blocks_end_shift: "blocks_end (a + d) bs = blocks_end a bs + d"
  by (induction a bs arbitrary: d rule: blocks_end.induct) (auto simp: ac_simps)

lemma heap_seg_append:
  "heap_seg m p a (xs @ ys) q \<longleftrightarrow>
     heap_seg m p a xs (if ys = [] then q else blocks_end a xs)
     \<and> heap_seg m (blocks_last p a xs) (blocks_end a xs) ys q"
  by (induction m p a xs q rule: heap_seg.induct) auto

lemma heap_seg_cong:
  assumes "\<And>x. a \<le> x \<Longrightarrow> x < blocks_end a bs \<Longrightarrow> m' x = m x" and "heap_seg m p a bs q"
  shows "heap_seg m' p a bs q"
  using assms
proof (induction m p a bs q rule: heap_seg.induct)
  case (1 m p a q)
  then show ?case by simp
next
  case (2 m p a n f bs q)
  have "blocks_end a ((n, f) # bs) > a"
    using blocks_end_ge [of "a + BLOCK_HEADER_SIZE + n" bs]
    by (auto simp: BLOCK_HEADER_SIZE_def)
  moreover have "heap_seg m' a (a + BLOCK_HEADER_SIZE + n) bs q"
    using 2 by simp
  ultimately show ?case using 2 by simp
qed

lemma heap_seg_upd_end:
  "heap_seg m p a bs q \<Longrightarrow> blocks_end a bs \<le> x \<Longrightarrow> heap_seg (m(x \<mapsto> v)) p a bs q"
  by (rule heap_seg_cong) auto

lemma heap_seg_upd_front:
  "heap_seg m p a bs q \<Longrightarrow> x < a \<Longrightarrow> heap_seg (m(x \<mapsto> v)) p a bs q"
  by (rule heap_seg_cong) auto

lemma set_prev_seg:
  assumes "heap_seg m p a bs q" and "0 < a"
  shows "\<exists>m'. set_prev (if bs = [] then 0 else a) v m = Some m' \<and> heap_seg m' v a bs q
    \<and> (\<forall>x. x < a \<longrightarrow> m' x = m x)"
proof (cases bs)
  case Nil
  then show ?thesis by (simp add: set_prev_def)
next
  case (Cons b rest)
  then obtain n f where b: "bs = (n, f) # rest" by (cases b) auto
  have "heap_seg m a (a + BLOCK_HEADER_SIZE + n) rest q" using assms(1) b by simp
  then have "heap_seg (m(a \<mapsto> x)) a (a + BLOCK_HEADER_SIZE + n) rest q" for x
    by (rule heap_seg_upd_front) simp
  then show ?thesis
    using assms b by (simp add: set_prev_def)
qed

section \<open>Allocation on lists of blocks\<close>

definition fits :: "nat \<Rightarrow> nat \<times> bool \<Rightarrow> bool" where
  "fits sz b \<longleftrightarrow> snd b \<and> sz \<le> fst b"

fun first_fit :: "nat \<Rightarrow> blocks \<Rightarrow> (blocks \<times> nat \<times> blocks) option" where
  "first_fit sz [] = None"
| "first_fit sz ((n, f) # bs) =
     (if fits sz (n, f) then Some ([], n, bs)
      else (case first_fit sz bs of
          None \<Rightarrow> None
        | Some (xs, k, ys) \<Rightarrow> Some ((n, f) # xs, k, ys)))"

definition carve :: "nat \<Rightarrow> nat \<Rightarrow> blocks" where
  "carve sz n =
     (if n \<ge> sz + BLOCK_HEADER_SIZE + HEAP_MIN_BLOCK
      then [(sz, False), (n - sz - BLOCK_HEADER_SIZE, True)] else [(n, False)])"

lemma first_fit_None: "first_fit sz bs = None \<longleftrightarrow> (\<forall>b \<in> set bs. \<not> fits sz b)"
  by (induction sz bs rule: first_fit.induct) (auto split: option.splits)

lemma first_fit_Some:
  "first_fit sz bs = Some (xs, n, ys) \<Longrightarrow>
   bs = xs @ (n, True) # ys \<and> sz \<le> n \<and> (\<forall>b \<in> set xs. \<not> fits sz b)"
  by (induction sz bs arbitrary: xs n ys rule: first_fit.induct)
     (fastforce simp: fits_def split: option.splits if_splits)+

lemma find_fit_skip:
  assumes "heap_seg m p a xs q" and "\<forall>b \<in> set xs. \<not> fits sz b" and "0 < a"
  shows "find_fit m sz (if xs = [] then q else a) = find_fit m sz q"
  using assms
proof (induction m p a xs q rule: heap_seg.induct)
  case (1 m p a q)
  then show ?case by simp
next
  case (2 m p a n f bs q)
  have "find_fit m sz a = find_fit m sz (if bs = [] then q else a + BLOCK_HEADER_SIZE + n)"
    using 2 by (subst find_fit.simps) (auto simp: fits_def)
  then show ?case using 2 by simp
qed

lemma find_fit_first_fit:
  assumes "heap_seg m 0 a bs 0" and "0 < a" and "bs \<noteq> []"
  shows "find_fit m sz a =
    Some (case first_fit sz bs of None \<Rightarrow> 0 | Some (xs, n, ys) \<Rightarrow> blocks_end a xs)"
proof (cases "first_fit sz bs")
  case None
  then have "find_fit m sz a = find_fit m sz 0"
    using find_fit_skip [OF assms(1) _ assms(2)] assms(3) by (simp add: first_fit_None)
  also have "\<dots> = Some 0" by (subst find_fit.simps) simp
  finally show ?thesis using None by simp
next
  case (Some t)
  then obtain xs n ys where t: "first_fit sz bs = Some (xs, n, ys)" by (cases t) auto
  have bs: "bs = xs @ (n, True) # ys" and le: "sz \<le> n" and skip: "\<forall>b \<in> set xs. \<not> fits sz b"
    using first_fit_Some [OF t] by simp_all
  have seg: "heap_seg m 0 a xs (blocks_end a xs)"
    and hd: "heap_seg m (blocks_last 0 a xs) (blocks_end a xs) ((n, True) # ys) 0"
    using assms(1) unfolding bs heap_seg_append by simp_all
  have pos: "blocks_end a xs \<noteq> 0" using blocks_end_ge [of a xs] assms(2) by simp
  have "find_fit m sz a = find_fit m sz (if xs = [] then blocks_end a xs else a)" by simp
  also have "\<dots> = find_fit m sz (blocks_end a xs)"
    by (rule find_fit_skip [OF seg skip assms(2)])
  also have "\<dots> = Some (blocks_end a xs)"
    using hd le pos by (subst find_fit.simps) simp
  finally show ?thesis using t by simp
qed

lemma split_block_seg:
  assumes seg: "heap_seg m 0 a (xs @ (n, True) # ys) 0" and "0 < a" and "sz \<le> n"
  defines "b \<equiv> blocks_end a xs"
  shows "\<exists>m1 blk. split_block b sz m = Some m1 \<and> m1 b = Some blk
    \<and> heap_seg (m1(b \<mapsto> blk\<lparr>hb_free := False\<rparr>)) 0 a (xs @ carve sz n @ ys) 0"
proof -
  let ?H = BLOCK_HEADER_SIZE
  let ?p = "blocks_last 0 a xs"
  let ?nx = "if ys = [] then 0 else b + ?H + n"
  have xs: "heap_seg m 0 a xs b"
    and mb: "m b = Some \<lparr>hb_size = n, hb_magic = HEAP_MAGIC, hb_free = True, hb_prev = ?p,
      hb_next = ?nx\<rparr>"
    and ys: "heap_seg m b (b + ?H + n) ys 0"
    using seg unfolding heap_seg_append b_def by simp_all
  show ?thesis
  proof (cases "sz + ?H + HEAP_MIN_BLOCK \<le> n")
    case False
    let ?blk = "\<lparr>hb_size = n, hb_magic = HEAP_MAGIC, hb_free = False, hb_prev = ?p, hb_next = ?nx\<rparr>"
    have "heap_seg (m(b \<mapsto> ?blk)) 0 a xs b"
      by (rule heap_seg_upd_end [OF xs]) (simp add: b_def)
    moreover have "heap_seg (m(b \<mapsto> ?blk)) b (b + ?H + n) ys 0"
      by (rule heap_seg_upd_front [OF ys]) simp
    ultimately show ?thesis
      using False mb by (simp add: split_block_def carve_def heap_seg_append b_def)
  next
    case True
    let ?nb = "b + ?H + sz"
    let ?m1 = "m(?nb \<mapsto> \<lparr>hb_size = n - sz - ?H, hb_magic = HEAP_MAGIC, hb_free = True,
                 hb_prev = b, hb_next = ?nx\<rparr>)"
    have eq: "?nb + ?H + (n - sz - ?H) = b + ?H + n" using True by simp
    have "heap_seg ?m1 b (b + ?H + n) ys 0"
      by (rule heap_seg_upd_front [OF ys]) (use True in \<open>simp add: HEAP_MIN_BLOCK_def\<close>)
    then obtain m2 where m2: "set_prev ?nx ?nb ?m1 = Some m2" and ys2: "heap_seg m2 ?nb (b + ?H + n) ys 0"
      and below: "\<And>x. x < b + ?H + n \<Longrightarrow> m2 x = ?m1 x"
      using set_prev_seg [of ?m1 b "b + ?H + n" ys 0 ?nb] by auto
    let ?blk = "\<lparr>hb_size = sz, hb_magic = HEAP_MAGIC, hb_free = True, hb_prev = ?p, hb_next = ?nb\<rparr>"
    let ?m3 = "m2(b \<mapsto> ?blk)"
    let ?m4 = "?m3(b \<mapsto> ?blk\<lparr>hb_free := False\<rparr>)"
    have m2b: "m2 b = m b" using below [of b] by simp
    have split: "split_block b sz m = Some ?m3"
      using True mb m2 m2b by (simp add: split_block_def Let_def)
    have "heap_seg ?m4 0 a xs b"
    proof (rule heap_seg_cong [OF _ xs])
      fix x assume "x < blocks_end a xs"
      then show "?m4 x = m x" using below [of x] by (simp add: b_def)
    qed
    moreover have "heap_seg ?m4 ?nb (b + ?H + n) ys 0"
      by (rule heap_seg_cong [OF _ ys2]) auto
    moreover have "?m4 ?nb = ?m1 ?nb"
      using below [of ?nb] True by (simp add: HEAP_MIN_BLOCK_def)
    ultimately have "heap_seg ?m4 0 a (xs @ carve sz n @ ys) 0"
      using True eq by (simp add: carve_def heap_seg_append b_def [symmetric] add.assoc)
    then show ?thesis using split by auto
  qed
qed

section \<open>Release on lists of blocks\<close>

text \<open>
  The local coalescing of \<^verbatim>\<open>kfree\<close>: the freed block absorbs a free predecessor and a free
  successor. \<open>merge_free\<close> is the global specification, in which any run of free blocks
  becomes one block.
\<close>

definition absorb_prev :: "blocks \<Rightarrow> nat \<Rightarrow> blocks \<times> nat" where
  "absorb_prev xs n =
     (if xs \<noteq> [] \<and> snd (last xs) then (butlast xs, fst (last xs) + BLOCK_HEADER_SIZE + n)
      else (xs, n))"

definition absorb_next :: "nat \<Rightarrow> blocks \<Rightarrow> nat \<times> blocks" where
  "absorb_next n ys =
     (case ys of (k, True) # zs \<Rightarrow> (n + BLOCK_HEADER_SIZE + k, zs) | _ \<Rightarrow> (n, ys))"

definition free_between :: "blocks \<Rightarrow> nat \<Rightarrow> blocks \<Rightarrow> blocks" where
  "free_between xs n ys =
     (let (xs', n1) = absorb_prev xs n; (n2, ys') = absorb_next n1 ys in xs' @ (n2, True) # ys')"

fun merge_free :: "blocks \<Rightarrow> blocks" where
  "merge_free ((n, True) # (k, True) # bs) = merge_free ((n + BLOCK_HEADER_SIZE + k, True) # bs)"
| "merge_free (b # bs) = b # merge_free bs"
| "merge_free [] = []"

lemma coalesce_prev_seg:
  assumes seg: "heap_seg m 0 a (xs @ (n, True) # ys) 0" and "0 < a"
    and ab: "absorb_prev xs n = (xs', n')"
  shows "\<exists>m'. coalesce_prev (blocks_end a xs) m = Some (blocks_end a xs', m')
    \<and> heap_seg m' 0 a (xs' @ (n', True) # ys) 0
    \<and> m' (blocks_end a xs) = m (blocks_end a xs)"
proof -
  let ?H = BLOCK_HEADER_SIZE
  let ?b = "blocks_end a xs"
  let ?p = "blocks_last 0 a xs"
  let ?nx = "if ys = [] then 0 else ?b + ?H + n"
  have xs: "heap_seg m 0 a xs ?b" and ys: "heap_seg m ?b (?b + ?H + n) ys 0"
    and mb: "m ?b = Some \<lparr>hb_size = n, hb_magic = HEAP_MAGIC, hb_free = True, hb_prev = ?p,
      hb_next = ?nx\<rparr>"
    using seg unfolding heap_seg_append by simp_all
  show ?thesis
  proof (cases xs rule: rev_cases)
    case Nil
    then show ?thesis
      using ab mb seg by (auto simp: absorb_prev_def coalesce_prev_def)
  next
    case (snoc zs z)
    then obtain k f where z: "xs = zs @ [(k, f)]" by (cases z) auto
    let ?q = "blocks_end a zs"
    have q: "?p = ?q" "?q \<noteq> 0" "?b = ?q + ?H + k"
      using z blocks_end_ge [of a zs] assms(2) by simp_all
    have zs: "heap_seg m 0 a zs ?q"
      and mq: "m ?q = Some \<lparr>hb_size = k, hb_magic = HEAP_MAGIC, hb_free = f,
        hb_prev = blocks_last 0 a zs, hb_next = ?b\<rparr>"
      using xs unfolding z heap_seg_append by simp_all
    show ?thesis
    proof (cases f)
      case False
      then show ?thesis
        using ab mb mq q seg z by (auto simp: absorb_prev_def coalesce_prev_def)
    next
      case True
      have ab': "xs' = zs" "n' = k + ?H + n" using ab z True by (auto simp: absorb_prev_def)
      let ?new = "\<lparr>hb_size = n', hb_magic = HEAP_MAGIC, hb_free = True,
                    hb_prev = blocks_last 0 a zs, hb_next = ?nx\<rparr>"
      let ?m1 = "m(?q \<mapsto> ?new)"
      have "heap_seg ?m1 ?b (?b + ?H + n) ys 0"
        by (rule heap_seg_upd_front [OF ys]) (simp add: q)
      then obtain m2 where m2: "set_prev ?nx ?q ?m1 = Some m2"
        and ys2: "heap_seg m2 ?q (?b + ?H + n) ys 0"
        and below: "\<And>x. x < ?b + ?H + n \<Longrightarrow> m2 x = ?m1 x"
        using set_prev_seg [of ?m1 ?b "?b + ?H + n" ys 0 ?q] by auto
      have "coalesce_prev ?b m = Some (?q, m2)"
        using mb mq q True m2 ab' by (simp add: coalesce_prev_def)
      moreover have "m2 ?q = Some ?new" using below [of ?q] q by simp
      moreover have "m2 ?b = m ?b" using below [of ?b] q by simp
      moreover have "heap_seg m2 0 a zs ?q"
        by (rule heap_seg_cong [OF _ zs]) (use below q in auto)
      ultimately show ?thesis
        using ys2 ab' q by (auto simp: heap_seg_append add.assoc)
    qed
  qed
qed

lemma coalesce_next_seg:
  assumes seg: "heap_seg m 0 a (xs @ (n, True) # ys) 0" and "0 < a"
    and ab: "absorb_next n ys = (n', ys')"
  shows "\<exists>m'. coalesce_next (blocks_end a xs) m = Some m'
    \<and> heap_seg m' 0 a (xs @ (n', True) # ys') 0
    \<and> (\<forall>x. blocks_end a xs < x \<and> x < blocks_end a xs + BLOCK_HEADER_SIZE + n \<longrightarrow> m' x = m x)"
proof -
  let ?H = BLOCK_HEADER_SIZE
  let ?b = "blocks_end a xs"
  let ?p = "blocks_last 0 a xs"
  let ?nx = "if ys = [] then 0 else ?b + ?H + n"
  have xs: "heap_seg m 0 a xs ?b" and ys: "heap_seg m ?b (?b + ?H + n) ys 0"
    and mb: "m ?b = Some \<lparr>hb_size = n, hb_magic = HEAP_MAGIC, hb_free = True, hb_prev = ?p,
      hb_next = ?nx\<rparr>"
    using seg unfolding heap_seg_append by simp_all
  show ?thesis
  proof (cases ys)
    case Nil
    then show ?thesis
      using ab mb seg by (auto simp: absorb_next_def coalesce_next_def)
  next
    case (Cons z zs)
    then obtain k f where z: "ys = (k, f) # zs" by (cases z) auto
    let ?c = "?b + ?H + n"
    let ?nx2 = "if zs = [] then 0 else ?c + ?H + k"
    have mc: "m ?c = Some \<lparr>hb_size = k, hb_magic = HEAP_MAGIC, hb_free = f, hb_prev = ?b,
        hb_next = ?nx2\<rparr>" and zs: "heap_seg m ?c (?c + ?H + k) zs 0"
      using ys z by simp_all
    show ?thesis
    proof (cases f)
      case False
      then show ?thesis
        using ab mb mc seg z by (auto simp: absorb_next_def coalesce_next_def)
    next
      case True
      have ab': "ys' = zs" "n' = n + ?H + k" using ab z True by (auto simp: absorb_next_def)
      let ?new = "\<lparr>hb_size = n', hb_magic = HEAP_MAGIC, hb_free = True, hb_prev = ?p,
                    hb_next = ?nx2\<rparr>"
      let ?m1 = "m(?b \<mapsto> ?new)"
      have "heap_seg ?m1 ?c (?c + ?H + k) zs 0"
        by (rule heap_seg_upd_front [OF zs]) simp
      then obtain m2 where m2: "set_prev ?nx2 ?b ?m1 = Some m2"
        and zs2: "heap_seg m2 ?b (?c + ?H + k) zs 0"
        and below: "\<And>x. x < ?c + ?H + k \<Longrightarrow> m2 x = ?m1 x"
        using set_prev_seg [of ?m1 ?c "?c + ?H + k" zs 0 ?b] by auto
      have "coalesce_next ?b m = Some m2"
        using mb mc z True m2 ab' by (simp add: coalesce_next_def)
      moreover have "m2 ?b = Some ?new" using below [of ?b] by simp
      moreover have "\<forall>x. ?b < x \<and> x < ?c \<longrightarrow> m2 x = m x" using below by simp
      moreover have "heap_seg m2 0 a xs ?b"
        by (rule heap_seg_cong [OF _ xs]) (use below in auto)
      ultimately show ?thesis
        using zs2 ab' by (auto simp: heap_seg_append add.assoc)
    qed
  qed
qed

section \<open>The invariant\<close>

text \<open>Every payload size is a multiple of 16.\<close>

abbreviation aligned16 :: "blocks \<Rightarrow> bool" where
  "aligned16 bs \<equiv> list_all (\<lambda>b. 16 dvd fst b) bs"

text \<open>No two neighbouring blocks are both free.\<close>

fun coalesced :: "blocks \<Rightarrow> bool" where
  "coalesced [] \<longleftrightarrow> True"
| "coalesced [b] \<longleftrightarrow> True"
| "coalesced ((n, f) # (k, g) # bs) \<longleftrightarrow> \<not> (f \<and> g) \<and> coalesced ((k, g) # bs)"

text \<open>The allocated blocks, each with its payload address and size.\<close>

fun live_blocks :: "nat \<Rightarrow> blocks \<Rightarrow> (nat \<times> nat) list" where
  "live_blocks a [] = []"
| "live_blocks a ((n, f) # bs) =
     (if f then [] else [(a + BLOCK_HEADER_SIZE, n)]) @ live_blocks (a + BLOCK_HEADER_SIZE + n) bs"

text \<open>
  The invariant of a heap at \<open>base\<close> with the blocks \<open>bs\<close>: the store holds them, they tile
  the whole range, every size is a multiple of 16, and free blocks are coalesced.
\<close>

definition heap_ok :: "nat \<Rightarrow> blocks \<Rightarrow> kheap \<Rightarrow> bool" where
  "heap_ok base bs h \<longleftrightarrow>
     kheap_head h = base \<and> 0 < base \<and> 16 dvd base \<and> bs \<noteq> []
   \<and> heap_seg (kheap_mem h) 0 base bs 0
   \<and> blocks_end base bs = base + KHEAP_SIZE
   \<and> aligned16 bs \<and> coalesced bs"

lemma coalesced_append:
  "coalesced (xs @ ys) \<longleftrightarrow> coalesced xs \<and> coalesced ys
   \<and> (xs \<noteq> [] \<and> ys \<noteq> [] \<longrightarrow> \<not> (snd (last xs) \<and> snd (hd ys)))"
proof (induction xs rule: coalesced.induct)
  case 1
  then show ?case by simp
next
  case (2 b)
  then show ?case by (cases b; cases ys) (auto split: prod.splits)
next
  case (3 n f k g bs)
  then show ?case by auto
qed

lemma coalesced_Cons:
  "coalesced ((n, f) # bs) \<longleftrightarrow> coalesced bs \<and> (bs \<noteq> [] \<longrightarrow> \<not> (f \<and> snd (hd bs)))"
  by (cases bs) auto

lemma live_blocks_append [simp]:
  "live_blocks a (xs @ ys) = live_blocks a xs @ live_blocks (blocks_end a xs) ys"
  by (induction a xs rule: live_blocks.induct) auto

lemma blocks_end_dvd:
  "16 dvd a \<Longrightarrow> aligned16 bs \<Longrightarrow> 16 dvd blocks_end a bs"
  by (induction a bs rule: blocks_end.induct) (auto simp: BLOCK_HEADER_SIZE_def)

lemma live_blocks_range:
  "(p, n) \<in> set (live_blocks a bs) \<Longrightarrow>
   a + BLOCK_HEADER_SIZE \<le> p \<and> p + n \<le> blocks_end a bs"
proof (induction a bs rule: live_blocks.induct)
  case (1 a)
  then show ?case by simp
next
  case (2 a k f bs)
  then show ?case
    using blocks_end_ge [of "a + BLOCK_HEADER_SIZE + k" bs] by (auto split: if_splits)
qed

lemma live_blocks_split:
  "(p, n) \<in> set (live_blocks a bs) \<Longrightarrow>
   \<exists>xs ys. bs = xs @ (n, False) # ys \<and> p = blocks_end a xs + BLOCK_HEADER_SIZE"
proof (induction a bs rule: live_blocks.induct)
  case (1 a)
  then show ?case by simp
next
  case (2 a k f bs)
  show ?case
  proof (cases "\<not> f \<and> p = a + BLOCK_HEADER_SIZE \<and> n = k")
    case True
    then have "(k, f) # bs = [] @ (n, False) # bs \<and> p = blocks_end a [] + BLOCK_HEADER_SIZE"
      by simp
    then show ?thesis by blast
  next
    case False
    then have "(p, n) \<in> set (live_blocks (a + BLOCK_HEADER_SIZE + k) bs)"
      using 2(2) by (auto split: if_splits)
    from 2(1) [OF this] obtain xs ys where "bs = xs @ (n, False) # ys"
      and "p = blocks_end (a + BLOCK_HEADER_SIZE + k) xs + BLOCK_HEADER_SIZE" by blast
    then have "(k, f) # bs = ((k, f) # xs) @ (n, False) # ys
        \<and> p = blocks_end a ((k, f) # xs) + BLOCK_HEADER_SIZE" by simp
    then show ?thesis by blast
  qed
qed

text \<open>
  Where a block sits in the list decides where the other allocated blocks are: they end before
  its header or start after its payload.
\<close>

lemma live_blocks_apart:
  assumes "(q, k) \<in> set (live_blocks a xs) \<union> set (live_blocks (blocks_end a xs + BLOCK_HEADER_SIZE + n) ys)"
  defines "p \<equiv> blocks_end a xs + BLOCK_HEADER_SIZE"
  shows "q + k + BLOCK_HEADER_SIZE \<le> p \<or> p + n + BLOCK_HEADER_SIZE \<le> q"
  using assms live_blocks_range [of q k a xs]
    live_blocks_range [of q k "blocks_end a xs + BLOCK_HEADER_SIZE + n" ys] by auto

lemma absorb_prev_props:
  assumes "absorb_prev xs n = (xs', n')" and "coalesced xs"
  shows "coalesced xs' \<and> (xs' \<noteq> [] \<longrightarrow> \<not> snd (last xs'))
    \<and> blocks_end a xs' + BLOCK_HEADER_SIZE + n' = blocks_end a xs + BLOCK_HEADER_SIZE + n
    \<and> live_blocks a xs' = live_blocks a xs
    \<and> (aligned16 xs \<and> 16 dvd n \<longrightarrow> aligned16 xs' \<and> 16 dvd n')"
proof (cases xs rule: rev_cases)
  case Nil
  then show ?thesis using assms by (auto simp: absorb_prev_def)
next
  case (snoc zs z)
  then show ?thesis
    using assms by (cases z) (auto simp: absorb_prev_def coalesced_append BLOCK_HEADER_SIZE_def)
qed

lemma absorb_next_props:
  assumes "absorb_next n ys = (n', ys')" and "coalesced ys"
  shows "coalesced ys' \<and> (ys' \<noteq> [] \<longrightarrow> \<not> snd (hd ys'))
    \<and> blocks_end (a + n') ys' = blocks_end (a + n) ys
    \<and> live_blocks (a + n') ys' = live_blocks (a + n) ys
    \<and> (aligned16 ys \<and> 16 dvd n \<longrightarrow> aligned16 ys' \<and> 16 dvd n')"
proof (cases ys)
  case Nil
  then show ?thesis using assms by (auto simp: absorb_next_def)
next
  case (Cons z zs)
  then show ?thesis
    using assms by (cases z; cases "snd z")
      (auto simp: absorb_next_def coalesced_Cons BLOCK_HEADER_SIZE_def ac_simps)
qed


lemma free_between_props:
  assumes "coalesced (xs @ (n, f) # ys)" and "aligned16 (xs @ (n, f) # ys)"
  shows "coalesced (free_between xs n ys)" and "aligned16 (free_between xs n ys)"
    and "blocks_end a (free_between xs n ys) = blocks_end a (xs @ (n, f) # ys)"
    and "live_blocks a (free_between xs n ys) =
      live_blocks a xs @ live_blocks (blocks_end a xs + BLOCK_HEADER_SIZE + n) ys"
    and "free_between xs n ys \<noteq> []"
proof -
  obtain xs' n1 where p: "absorb_prev xs n = (xs', n1)" by fastforce
  obtain n2 ys' where q: "absorb_next n1 ys = (n2, ys')" by fastforce
  have fb: "free_between xs n ys = xs' @ (n2, True) # ys'"
    by (simp add: free_between_def p q)
  have c: "coalesced xs" "coalesced ys"
    using assms(1) by (simp_all add: coalesced_append coalesced_Cons)
  note P = absorb_prev_props [OF p c(1), of a]
  note Q = absorb_next_props [OF q c(2), of "blocks_end a xs' + BLOCK_HEADER_SIZE"]
  have e: "blocks_end a xs' + BLOCK_HEADER_SIZE + n1 = blocks_end a xs + BLOCK_HEADER_SIZE + n"
    using P by blast
  have e2: "blocks_end (blocks_end a xs' + BLOCK_HEADER_SIZE + n2) ys' =
      blocks_end (blocks_end a xs' + BLOCK_HEADER_SIZE + n1) ys"
    and l2: "live_blocks (blocks_end a xs' + BLOCK_HEADER_SIZE + n2) ys' =
      live_blocks (blocks_end a xs' + BLOCK_HEADER_SIZE + n1) ys"
    using Q by blast+
  show "coalesced (free_between xs n ys)"
    using P Q by (simp add: fb coalesced_append coalesced_Cons)
  show "aligned16 (free_between xs n ys)"
    using P Q assms(2) by (simp add: fb)
  show "blocks_end a (free_between xs n ys) = blocks_end a (xs @ (n, f) # ys)"
    by (simp only: fb blocks_end_append blocks_end.simps e2 e)
  show "live_blocks a (free_between xs n ys) =
      live_blocks a xs @ live_blocks (blocks_end a xs + BLOCK_HEADER_SIZE + n) ys"
    using P by (simp add: fb l2 e)
  show "free_between xs n ys \<noteq> []" by (simp add: fb)
qed

text \<open>Freeing one block and then coalescing locally is coalescing the whole list.\<close>

lemma merge_free_coalesced: "coalesced bs \<Longrightarrow> merge_free bs = bs"
  by (induction bs rule: merge_free.induct) (auto simp: coalesced_Cons)

lemma merge_free_append:
  "coalesced xs \<Longrightarrow> xs = [] \<or> \<not> snd (last xs) \<Longrightarrow> merge_free (xs @ ys) = xs @ merge_free ys"
  by (induction xs rule: merge_free.induct) (auto simp: coalesced_Cons split: if_splits)

lemma free_between_merge:
  assumes "coalesced (xs @ (n, False) # ys)"
  shows "free_between xs n ys = merge_free (xs @ (n, True) # ys)"
proof -
  have c: "coalesced xs" "coalesced ys"
    using assms by (simp_all add: coalesced_append coalesced_Cons)
  have nx: "merge_free ((k, True) # ys) = (case absorb_next k ys of (m, zs) \<Rightarrow> (m, True) # zs)" for k
  proof (cases ys)
    case Nil
    then show ?thesis by (simp add: absorb_next_def)
  next
    case (Cons z zs)
    then obtain j g where z: "ys = (j, g) # zs" by (cases z) auto
    have "g \<Longrightarrow> coalesced ((k + BLOCK_HEADER_SIZE + j, True) # zs)"
      using c(2) z by (simp add: coalesced_Cons)
    then show ?thesis
      using c(2) z merge_free_coalesced [of ys] merge_free_coalesced by (cases g) (auto simp: absorb_next_def)
  qed
  show ?thesis
  proof (cases xs rule: rev_cases)
    case Nil
    then show ?thesis by (simp add: free_between_def absorb_prev_def nx split: prod.splits)
  next
    case (snoc zs z)
    then obtain k f where z: "xs = zs @ [(k, f)]" by (cases z) auto
    show ?thesis
    proof (cases f)
      case False
      then have "merge_free (xs @ (n, True) # ys) = xs @ merge_free ((n, True) # ys)"
        using z c(1) by (intro merge_free_append) simp_all
      then show ?thesis
        using z False by (simp add: free_between_def absorb_prev_def nx split: prod.splits)
    next
      case True
      then have zs: "coalesced zs" "zs = [] \<or> \<not> snd (last zs)"
        using c(1) z by (auto simp: coalesced_append)
      have "merge_free (xs @ (n, True) # ys) = zs @ merge_free ((k, True) # (n, True) # ys)"
        using merge_free_append [OF zs] z True by simp
      then show ?thesis
        using z True by (simp add: free_between_def absorb_prev_def nx split: prod.splits)
    qed
  qed
qed

section \<open>What the operations do\<close>

lemma align16_unat:
  assumes "unat r + 15 < 2 ^ 64"
  shows "unat (align16 r) = (unat r + 15) div 16 * 16"
proof -
  have m: "(15 :: u64) = mask 4" by (simp add: mask_eq_exp_minus_1)
  have "align16 r = push_bit 4 (drop_bit 4 (r + 15))"
    unfolding align16_def
    by (subst (2) m, rule bit_word_eqI) (auto simp: bit_simps)
  moreover have "unat (r + 15) = unat r + 15"
    using assms by (simp add: unat_plus_lt)
  moreover have "(unat r + 15) div 16 * 16 < 2 ^ 64"
    using assms by (meson div_times_less_eq_dividend le_less_trans)
  ultimately show ?thesis
    by (simp add: push_bit_eq_mult drop_bit_eq_div unat_word_ariths(2) unat_div_distrib)
qed

lemma carve_props:
  assumes "sz \<le> n" and "16 dvd sz" and "16 dvd n"
  shows "\<exists>k rest. carve sz n = (k, False) # rest \<and> sz \<le> k \<and> k < sz + 48 \<and> 16 dvd k
    \<and> (rest = [] \<and> k = n \<or> k = sz \<and> sz + 48 \<le> n \<and> rest = [(n - sz - 32, True)])"
  using assms by (auto simp: carve_def BLOCK_HEADER_SIZE_def HEAP_MIN_BLOCK_def)


lemma align16_wrap:
  assumes "2 ^ 64 \<le> unat r + 15"
  shows "align16 r = 0"
proof -
  have m: "(15 :: u64) = mask 4" by (simp add: mask_eq_exp_minus_1)
  have "align16 r = push_bit 4 (drop_bit 4 (r + 15))"
    unfolding align16_def
    by (subst (2) m, rule bit_word_eqI) (auto simp: bit_simps)
  moreover have "unat (r + 15) < 16"
    using assms unat_u64_less [of r] by (simp add: unat_word_ariths(1) mod_if) linarith
  then have "unat ((r + 15) div 16) = 0" by (simp add: unat_div_distrib)
  then have "(r + 15) div 16 = 0" by (metis unat_eq_zero)
  ultimately show ?thesis by (simp add: push_bit_eq_mult drop_bit_eq_div)
qed

lemma heap_okD:
  assumes "heap_ok base bs h"
  shows "kheap_head h = base" and "0 < base" and "16 dvd base" and "bs \<noteq> []"
    and "heap_seg (kheap_mem h) 0 base bs 0" and "blocks_end base bs = base + KHEAP_SIZE"
    and "aligned16 bs" and "coalesced bs"
  using assms by (simp_all add: heap_ok_def)

lemma kmalloc_none:
  assumes "heap_ok base bs h" and "r \<noteq> 0" and "first_fit (unat (align16 r)) bs = None"
  shows "kmalloc r h = Some (0, h)"
  using assms find_fit_first_fit [OF heap_okD(5,2,4) [OF assms(1)], of "unat (align16 r)"]
  by (simp add: kmalloc_def heap_okD(1) Let_def)

lemma kmalloc_some:
  assumes ok: "heap_ok base bs h" and "r \<noteq> 0"
    and ff: "first_fit (unat (align16 r)) bs = Some (xs, n, ys)" and al: "16 dvd unat (align16 r)"
  shows "\<exists>h'. kmalloc r h = Some (blocks_end base xs + BLOCK_HEADER_SIZE, h')
    \<and> heap_ok base (xs @ carve (unat (align16 r)) n @ ys) h'"
proof -
  let ?sz = "unat (align16 r)"
  have bs: "bs = xs @ (n, True) # ys" and le: "?sz \<le> n"
    using first_fit_Some [OF ff] by simp_all
  note d = heap_okD [OF ok]
  obtain m1 blk where st: "split_block (blocks_end base xs) ?sz (kheap_mem h) = Some m1"
      "m1 (blocks_end base xs) = Some blk"
    and seg: "heap_seg (m1(blocks_end base xs \<mapsto> blk\<lparr>hb_free := False\<rparr>)) 0 base
      (xs @ carve ?sz n @ ys) 0"
    using split_block_seg [OF d(5) [unfolded bs] d(2) le] by blast
  have "blocks_end base xs \<noteq> 0" using blocks_end_ge [of base xs] d(2) by simp
  then have run: "kmalloc r h = Some (blocks_end base xs + BLOCK_HEADER_SIZE,
      h\<lparr>kheap_mem := m1(blocks_end base xs \<mapsto> blk\<lparr>hb_free := False\<rparr>)\<rparr>)"
    using assms(2) find_fit_first_fit [OF d(5,2,4), of ?sz] ff st d(1)
    by (simp add: kmalloc_def Let_def)
  have "16 dvd n" using d(7) by (simp add: bs)
  obtain k rest where cv: "carve ?sz n = (k, False) # rest" "16 dvd k"
      "rest = [] \<and> k = n \<or> k = ?sz \<and> ?sz + 48 \<le> n \<and> rest = [(n - ?sz - 32, True)]"
    using carve_props [OF le al \<open>16 dvd n\<close>] by blast
  have "16 dvd n - ?sz - 32" using al \<open>16 dvd n\<close> by (intro dvd_diff_nat) simp_all
  then have "aligned16 (carve ?sz n)" using cv by auto
  moreover have "blocks_end a (carve ?sz n) = a + BLOCK_HEADER_SIZE + n" for a
    using cv by (auto simp: BLOCK_HEADER_SIZE_def)
  moreover have "coalesced (xs @ carve ?sz n @ ys)"
    using d(8) cv unfolding bs by (auto simp: coalesced_append coalesced_Cons)
  ultimately have "heap_ok base (xs @ carve ?sz n @ ys)
      (h\<lparr>kheap_mem := m1(blocks_end base xs \<mapsto> blk\<lparr>hb_free := False\<rparr>)\<rparr>)"
    using d seg cv(1) by (simp add: heap_ok_def bs)
  then show ?thesis using run by blast
qed

lemma kfree_some:
  assumes ok: "heap_ok base (xs @ (n, False) # ys) h"
  defines "p \<equiv> blocks_end base xs + BLOCK_HEADER_SIZE"
  shows "\<exists>h'. kfree p h = Some h' \<and> heap_ok base (free_between xs n ys) h'
    \<and> kfree p h' = Some h'"
proof -
  let ?b = "blocks_end base xs"
  note d = heap_okD [OF ok]
  obtain xs' n1 where ap: "absorb_prev xs n = (xs', n1)" by fastforce
  obtain n2 ys' where an: "absorb_next n1 ys = (n2, ys')" by fastforce
  have fb: "free_between xs n ys = xs' @ (n2, True) # ys'"
    by (simp add: free_between_def ap an)
  have segs: "heap_seg (kheap_mem h) 0 base xs ?b"
      "heap_seg (kheap_mem h) ?b (?b + BLOCK_HEADER_SIZE + n) ys 0"
    using d(5) unfolding heap_seg_append by simp_all
  obtain blk where blk: "kheap_mem h ?b = Some blk" "\<not> hb_free blk" "hb_magic blk = HEAP_MAGIC"
    "blk = \<lparr>hb_size = n, hb_magic = HEAP_MAGIC, hb_free = False, hb_prev = blocks_last 0 base xs,
      hb_next = (if ys = [] then 0 else ?b + BLOCK_HEADER_SIZE + n)\<rparr>"
    using d(5) unfolding heap_seg_append by simp
  let ?m0 = "(kheap_mem h)(?b \<mapsto> blk\<lparr>hb_free := True\<rparr>)"
  have "heap_seg ?m0 0 base (xs @ (n, True) # ys) 0"
    using heap_seg_upd_end [OF segs(1)] heap_seg_upd_front [OF segs(2)] blk(4)
    by (simp add: heap_seg_append)
  from coalesce_prev_seg [OF this d(2) ap] obtain m1
    where m1: "coalesce_prev ?b ?m0 = Some (blocks_end base xs', m1)"
      "heap_seg m1 0 base (xs' @ (n1, True) # ys) 0" "m1 ?b = ?m0 ?b" by blast
  from coalesce_next_seg [OF m1(2) d(2) an] obtain m2
    where m2: "coalesce_next (blocks_end base xs') m1 = Some m2"
      "heap_seg m2 0 base (xs' @ (n2, True) # ys') 0"
      "\<And>x. blocks_end base xs' < x \<Longrightarrow> x < blocks_end base xs' + BLOCK_HEADER_SIZE + n1 \<Longrightarrow> m2 x = m1 x"
    by blast
  let ?h' = "h\<lparr>kheap_mem := m2\<rparr>"
  have run: "kfree p h = Some ?h'"
    using blk m1(1) m2(1) by (simp add: kfree_def p_def Let_def)
  note F = free_between_props [OF d(8,7)]
  have inv: "heap_ok base (free_between xs n ys) ?h'"
    unfolding heap_ok_def using d F m2(2) by (simp add: fb)
  have "coalesced xs" using d(8) by (simp add: coalesced_append)
  from absorb_prev_props [OF ap this, of base]
  have e: "blocks_end base xs' + BLOCK_HEADER_SIZE + n1 = ?b + BLOCK_HEADER_SIZE + n"
    by blast
  have "\<exists>blk'. m2 ?b = Some blk' \<and> hb_magic blk' = HEAP_MAGIC \<and> hb_free blk'"
  proof (cases "xs' = xs")
    case True
    then show ?thesis using m2(2) by (simp add: heap_seg_append)
  next
    case False
    then have "blocks_end base xs' < ?b"
      using ap by (cases xs rule: rev_cases) (auto simp: absorb_prev_def split: if_splits)
    moreover have "?b < blocks_end base xs' + BLOCK_HEADER_SIZE + n1"
      unfolding e by (simp add: BLOCK_HEADER_SIZE_def)
    ultimately have "m2 ?b = m1 ?b" by (rule m2(3))
    then show ?thesis using m1(3) blk by simp
  qed
  then have "kfree p ?h' = Some ?h'"
    by (auto simp: kfree_def p_def Let_def)
  then show ?thesis using run inv by blast
qed


section \<open>Statistics on lists of blocks\<close>

definition bytes_of :: "bool \<Rightarrow> blocks \<Rightarrow> nat" where
  "bytes_of f bs = sum_list (map fst (filter (\<lambda>b. snd b = f) bs))"

lemma sum_blocks_seg:
  "heap_seg m p a bs q \<Longrightarrow> 0 < a \<Longrightarrow>
   sum_blocks w m (if bs = [] then q else a) acc = sum_blocks w m q (acc + bytes_of w bs)"
proof (induction m p a bs q arbitrary: acc rule: heap_seg.induct)
  case (1 m p a q)
  then show ?case by (simp add: bytes_of_def)
next
  case (2 m p a n f bs q)
  have "sum_blocks w m a acc = sum_blocks w m (if bs = [] then q else a + BLOCK_HEADER_SIZE + n)
      (if f = w then acc + n else acc)"
    using 2(2,3) by (subst sum_blocks.simps) simp
  also have "\<dots> = sum_blocks w m q ((if f = w then acc + n else acc) + bytes_of w bs)"
    using 2 by (intro "2.IH") simp_all
  finally show ?case by (simp add: bytes_of_def add.assoc)
qed

lemma sum_blocks_ok: "heap_ok base bs h \<Longrightarrow> sum_blocks w (kheap_mem h) (kheap_head h) 0 = Some (bytes_of w bs)"
proof -
  assume ok: "heap_ok base bs h"
  note d = heap_okD [OF ok]
  have "sum_blocks w (kheap_mem h) base 0 = sum_blocks w (kheap_mem h) 0 (0 + bytes_of w bs)"
    using sum_blocks_seg [OF d(5,2), of w 0] d(4) by simp
  also have "\<dots> = Some (bytes_of w bs)" by (subst sum_blocks.simps) simp
  finally show ?thesis by (simp add: d(1))
qed

lemma blocks_end_sum:
  "blocks_end a bs = a + bytes_of True bs + bytes_of False bs + BLOCK_HEADER_SIZE * length bs"
  by (induction a bs rule: blocks_end.induct) (auto simp: bytes_of_def)

lemma bytes_of_live: "bytes_of False bs = sum_list (map snd (live_blocks a bs))"
  by (induction a bs rule: live_blocks.induct) (auto simp: bytes_of_def)

lemma no_live_blocks:
  assumes "live_blocks a bs = []" and "coalesced bs" and "bs \<noteq> []"
  shows "\<exists>n. bs = [(n, True)]"
proof (cases bs)
  case Nil
  then show ?thesis using assms by simp
next
  case (Cons b rest)
  then obtain n f where b: "bs = (n, f) # rest" by (cases b) auto
  then have "f" using assms(1) by (auto split: if_splits)
  then show ?thesis using assms b by (cases rest) (auto split: if_splits)
qed

lemma kheap_start_ok:
  assumes "0 < base" and "16 dvd base"
  shows "heap_ok base [(KHEAP_SIZE - BLOCK_HEADER_SIZE, True)] (kheap_start base KHEAP_SIZE)"
  using assms by (simp add: heap_ok_def kheap_start_def KHEAP_SIZE_def BLOCK_HEADER_SIZE_def)

section \<open>A client's view\<close>

lemma kmalloc_live:
  assumes ok: "heap_ok base bs h" and "r \<noteq> 0" and al: "16 dvd unat (align16 r)"
    and ff: "first_fit (unat (align16 r)) bs = Some t"
  shows "\<exists>p n h' bs'. kmalloc r h = Some (p, h') \<and> heap_ok base bs' h' \<and> 16 dvd p
    \<and> unat (align16 r) \<le> n \<and> n < unat (align16 r) + 48
    \<and> base + BLOCK_HEADER_SIZE \<le> p \<and> p + n \<le> base + KHEAP_SIZE
    \<and> set (live_blocks base bs') = insert (p, n) (set (live_blocks base bs))
    \<and> (\<forall>(q, k) \<in> set (live_blocks base bs).
         q + k + BLOCK_HEADER_SIZE \<le> p \<or> p + n + BLOCK_HEADER_SIZE \<le> q)"
proof -
  let ?sz = "unat (align16 r)"
  obtain xs n ys where t: "first_fit ?sz bs = Some (xs, n, ys)" using ff by (cases t) auto
  obtain h' where run: "kmalloc r h = Some (blocks_end base xs + BLOCK_HEADER_SIZE, h')"
    and ok': "heap_ok base (xs @ carve ?sz n @ ys) h'"
    using kmalloc_some [OF ok assms(2) t al] by blast
  have bs: "bs = xs @ (n, True) # ys" and le: "?sz \<le> n"
    using first_fit_Some [OF t] by simp_all
  have "16 dvd n" using heap_okD(7) [OF ok] by (simp add: bs)
  then obtain k rest where cv: "carve ?sz n = (k, False) # rest" "?sz \<le> k" "k < ?sz + 48"
      "rest = [] \<and> k = n \<or> k = ?sz \<and> ?sz + 48 \<le> n \<and> rest = [(n - ?sz - 32, True)]"
    using carve_props [OF le al] by blast
  let ?p = "blocks_end base xs + BLOCK_HEADER_SIZE"
  have kn: "k \<le> n" using cv(4) by auto
  have live: "live_blocks base (xs @ carve ?sz n @ ys) =
      live_blocks base xs @ (?p, k) # live_blocks (?p + n) ys"
    using cv(1,4) by (auto simp: BLOCK_HEADER_SIZE_def ac_simps)
  have live0: "live_blocks base bs = live_blocks base xs @ live_blocks (?p + n) ys"
    by (simp add: bs)
  have apart: "q + j + BLOCK_HEADER_SIZE \<le> ?p \<or> ?p + k + BLOCK_HEADER_SIZE \<le> q"
    if "(q, j) \<in> set (live_blocks base bs)" for q j
    using live_blocks_apart [of q j base xs n ys] that kn by (auto simp: live0)
  have "(?p, k) \<in> set (live_blocks base (xs @ carve ?sz n @ ys))" unfolding live by simp
  from live_blocks_range [OF this] have range: "base + BLOCK_HEADER_SIZE \<le> ?p"
      "?p + k \<le> base + KHEAP_SIZE"
    by (simp_all only: heap_okD(6) [OF ok'])
  have "aligned16 xs" using heap_okD(7) [OF ok] by (simp add: bs)
  then have "16 dvd ?p"
    using blocks_end_dvd [OF heap_okD(3) [OF ok]] by (simp add: BLOCK_HEADER_SIZE_def)
  moreover have "set (live_blocks base (xs @ carve ?sz n @ ys)) =
      insert (?p, k) (set (live_blocks base bs))"
    by (simp only: live live0) auto
  ultimately show ?thesis using run ok' cv range apart by blast
qed

lemma kfree_live:
  assumes ok: "heap_ok base bs h" and live: "(p, n) \<in> set (live_blocks base bs)"
  shows "\<exists>h' bs'. kfree p h = Some h' \<and> heap_ok base bs' h' \<and> kfree p h' = Some h'
    \<and> set (live_blocks base bs') = set (live_blocks base bs) - {(p, n)}
    \<and> (\<exists>xs ys. bs = xs @ (n, False) # ys \<and> p = blocks_end base xs + BLOCK_HEADER_SIZE
        \<and> bs' = merge_free (xs @ (n, True) # ys))"
proof -
  obtain xs ys where bs: "bs = xs @ (n, False) # ys" and p: "p = blocks_end base xs + BLOCK_HEADER_SIZE"
    using live_blocks_split [OF live] by blast
  note d = heap_okD [OF ok [unfolded bs]]
  obtain h' where h': "kfree p h = Some h'" "heap_ok base (free_between xs n ys) h'"
      "kfree p h' = Some h'"
    using kfree_some [OF ok [unfolded bs]] by (auto simp: p)
  have "(p, n) \<notin> set (live_blocks base xs) \<union> set (live_blocks (blocks_end base xs + BLOCK_HEADER_SIZE + n) ys)"
    using live_blocks_range [of p n base xs]
      live_blocks_range [of p n "blocks_end base xs + BLOCK_HEADER_SIZE + n" ys]
    by (auto simp: p BLOCK_HEADER_SIZE_def)
  then have "set (live_blocks base (free_between xs n ys)) = set (live_blocks base bs) - {(p, n)}"
    unfolding free_between_props(4) [OF d(8,7)] by (auto simp: bs p)
  then show ?thesis
    using h' free_between_merge [OF d(8)] bs p by auto
qed

lemma align16_dvd: "16 dvd unat (align16 r)"
proof (cases "unat r + 15 < 2 ^ 64")
  case True
  then show ?thesis by (simp add: align16_unat)
next
  case False
  then show ?thesis by (simp add: align16_wrap)
qed

text \<open>
  A client that frees only what it owns. The pointers it owns are a set, as in
  \<open>pool_run\<close>.
\<close>

datatype heap_op = Malloc u64 | Free nat

fun kheap_run :: "heap_op list \<Rightarrow> kheap \<Rightarrow> nat set \<Rightarrow> (kheap \<times> nat set) option" where
  "kheap_run [] h own = Some (h, own)"
| "kheap_run (Malloc r # ops) h own =
     do { (p, h') \<leftarrow> kmalloc r h; kheap_run ops h' (if p = 0 then own else insert p own) }"
| "kheap_run (Free p # ops) h own =
     (if p \<in> own then do { h' \<leftarrow> kfree p h; kheap_run ops h' (own - {p}) }
      else kheap_run ops h own)"

lemma live_inj:
  "(p, n) \<in> set (live_blocks a bs) \<Longrightarrow> (p, k) \<in> set (live_blocks a bs) \<Longrightarrow> n = k"
proof (induction a bs rule: live_blocks.induct)
  case (1 a)
  then show ?case by simp
next
  case (2 a j f bs)
  have "p \<noteq> a + BLOCK_HEADER_SIZE"
    if "(p, i) \<in> set (live_blocks (a + BLOCK_HEADER_SIZE + j) bs)" for i
    using live_blocks_range [OF that] by (auto simp: BLOCK_HEADER_SIZE_def)
  then show ?case using 2 by (auto split: if_splits)
qed

lemma kmalloc_total:
  assumes "heap_ok base bs h" and "own = fst ` set (live_blocks base bs)"
  shows "\<exists>p h' bs'. kmalloc r h = Some (p, h') \<and> heap_ok base bs' h'
    \<and> (if p = 0 then own else insert p own) = fst ` set (live_blocks base bs')"
proof (cases "r = 0 \<or> first_fit (unat (align16 r)) bs = None")
  case True
  then have "kmalloc r h = Some (0, h)"
    using kmalloc_none [OF assms(1)] by (auto simp: kmalloc_def)
  then show ?thesis using assms by auto
next
  case False
  then obtain t where "r \<noteq> 0" "first_fit (unat (align16 r)) bs = Some t" by auto
  from kmalloc_live [OF assms(1) this(1) align16_dvd this(2)] obtain p n h' bs'
    where r: "kmalloc r h = Some (p, h')" "heap_ok base bs' h'" "base + BLOCK_HEADER_SIZE \<le> p"
      "set (live_blocks base bs') = insert (p, n) (set (live_blocks base bs))"
    by blast
  have "p \<noteq> 0" using r(3) heap_okD(2) [OF assms(1)] by simp
  moreover have "insert p own = fst ` set (live_blocks base bs')" by (simp add: r(4) assms(2))
  ultimately show ?thesis using r(1,2) by auto
qed

lemma kfree_total:
  assumes "heap_ok base bs h" and "own = fst ` set (live_blocks base bs)" and "p \<in> own"
  shows "\<exists>h' bs'. kfree p h = Some h' \<and> heap_ok base bs' h'
    \<and> own - {p} = fst ` set (live_blocks base bs')"
proof -
  obtain n where pn: "(p, n) \<in> set (live_blocks base bs)" using assms(2,3) by auto
  obtain h' bs' where r: "kfree p h = Some h'" "heap_ok base bs' h'"
      "set (live_blocks base bs') = set (live_blocks base bs) - {(p, n)}"
    using kfree_live [OF assms(1) pn] by blast
  have "q \<noteq> p" if "(q, k) \<in> set (live_blocks base bs) - {(p, n)}" for q k
    using live_inj [OF pn, of k] that by auto
  then have "fst ` (set (live_blocks base bs) - {(p, n)}) = fst ` set (live_blocks base bs) - {p}"
    by force
  then have "own - {p} = fst ` set (live_blocks base bs')" by (simp only: assms(2) r(3))
  then show ?thesis using r(1,2) by blast
qed

lemma kheap_run_ok:
  "heap_ok base bs h \<Longrightarrow> own = fst ` set (live_blocks base bs) \<Longrightarrow>
   \<exists>h' own' bs'. kheap_run ops h own = Some (h', own') \<and> heap_ok base bs' h'
    \<and> own' = fst ` set (live_blocks base bs')"
proof (induction ops arbitrary: h own bs)
  case Nil
  then show ?case by auto
next
  case (Cons x ops)
  show ?case
  proof (cases x)
    case (Malloc r)
    from kmalloc_total [OF Cons.prems] obtain p h' bs' where
      "kmalloc r h = Some (p, h')" "heap_ok base bs' h'"
      "(if p = 0 then own else insert p own) = fst ` set (live_blocks base bs')" by blast
    with Cons.IH [OF this(2) this(3)] Malloc show ?thesis by simp
  next
    case (Free p)
    show ?thesis
    proof (cases "p \<in> own")
      case True
      from kfree_total [OF Cons.prems True] obtain h' bs' where
        "kfree p h = Some h'" "heap_ok base bs' h'"
        "own - {p} = fst ` set (live_blocks base bs')" by blast
      with Cons.IH [OF this(2) this(3)] Free True show ?thesis by simp
    next
      case False
      with Cons Free show ?thesis by simp
    qed
  qed
qed

section \<open>Properties\<close>

text \<open>A small heap for the witnesses: one block of 112 bytes in use, the rest free.\<close>

definition kheap_example :: kheap where
  "kheap_example =
     \<lparr>kheap_head = 4096,
      kheap_mem = [4096 \<mapsto> \<lparr>hb_size = 112, hb_magic = HEAP_MAGIC, hb_free = False,
                            hb_prev = 0, hb_next = 4240\<rparr>,
                   4240 \<mapsto> \<lparr>hb_size = KHEAP_SIZE - 176, hb_magic = HEAP_MAGIC, hb_free = True,
                            hb_prev = 4096, hb_next = 0\<rparr>]\<rparr>"

lemma kheap_example_ok: "heap_ok 4096 [(112, False), (KHEAP_SIZE - 176, True)] kheap_example"
  by (simp add: heap_ok_def kheap_example_def BLOCK_HEADER_SIZE_def KHEAP_SIZE_def)

text \<open>C15. A request that does not wrap around either fails, leaving the heap as it is, and then no free
  block is large enough for it; or it yields a 16-byte aligned payload of at least the requested
  bytes that lies inside the heap and overlaps neither the payload nor the header of any block
  allocated before, all of which stay allocated.\<close>

theorem kmalloc_contract:
  assumes ok: "heap_ok base bs h" and r: "r \<noteq> 0" "unat r + 15 < 2 ^ 64"
  shows "kmalloc r h = Some (0, h) \<and> (\<forall>(n, f) \<in> set bs. f \<longrightarrow> n < unat r)
    \<or> (\<exists>p n h' bs'. kmalloc r h = Some (p, h') \<and> heap_ok base bs' h' \<and> 16 dvd p
        \<and> unat r \<le> n \<and> base + BLOCK_HEADER_SIZE \<le> p \<and> p + n \<le> base + KHEAP_SIZE
        \<and> set (live_blocks base bs') = insert (p, n) (set (live_blocks base bs))
        \<and> (\<forall>(q, k) \<in> set (live_blocks base bs).
             q + k + BLOCK_HEADER_SIZE \<le> p \<or> p + n + BLOCK_HEADER_SIZE \<le> q))"
proof (cases "first_fit (unat (align16 r)) bs")
  case None
  have "n < unat r" if "(n, True) \<in> set bs" for n
  proof -
    have "n < (unat r + 15) div 16 * 16"
      using None that by (auto simp: first_fit_None fits_def align16_unat [OF r(2)])
    moreover have "16 dvd n" using heap_okD(7) [OF ok] that by (auto simp: list_all_iff)
    ultimately show ?thesis by (auto elim!: dvdE)
  qed
  then show ?thesis using kmalloc_none [OF ok r(1) None] by auto
next
  case (Some t)
  have "unat r \<le> unat (align16 r)" by (simp add: align16_unat [OF r(2)])
  then show ?thesis
    using kmalloc_live [OF ok r(1) align16_dvd Some] by (meson le_trans)
qed

theorem kmalloc_contract_witness:
  "\<exists>p n h' bs'. kmalloc 100 (kheap_start 4096 KHEAP_SIZE) = Some (p, h') \<and> heap_ok 4096 bs' h'
     \<and> 100 \<le> n \<and> set (live_blocks 4096 bs') = {(p, n)}"
proof -
  have ok: "heap_ok 4096 [(KHEAP_SIZE - BLOCK_HEADER_SIZE, True)] (kheap_start 4096 KHEAP_SIZE)"
    by (rule kheap_start_ok) simp_all
  show ?thesis using kmalloc_contract [OF ok, of 100]
    by (simp add: KHEAP_SIZE_def BLOCK_HEADER_SIZE_def) blast
qed

text \<open>C20. Freeing an allocated payload succeeds, takes exactly that block out of the allocated
  ones, leaves the list of blocks fully coalesced, and freeing it a second time changes nothing.\<close>

theorem kfree_contract:
  assumes ok: "heap_ok base bs h" and live: "(p, n) \<in> set (live_blocks base bs)"
  shows "\<exists>h' bs'. kfree p h = Some h' \<and> heap_ok base bs' h' \<and> kfree p h' = Some h'
    \<and> set (live_blocks base bs') = set (live_blocks base bs) - {(p, n)}
    \<and> (\<exists>xs ys. bs = xs @ (n, False) # ys \<and> p = blocks_end base xs + BLOCK_HEADER_SIZE
        \<and> bs' = merge_free (xs @ (n, True) # ys))"
  by (rule kfree_live [OF assms])

theorem kfree_contract_witness:
  "\<exists>h'. kfree 4128 kheap_example = Some h' \<and> kfree 4128 h' = Some h'
     \<and> heap_ok 4096 [(KHEAP_SIZE - 32, True)] h'"
proof -
  have "(4128, 112) \<in> set (live_blocks 4096 [(112, False), (KHEAP_SIZE - 176, True)])"
    by (simp add: BLOCK_HEADER_SIZE_def)
  from kfree_contract [OF kheap_example_ok this] obtain h' bs' xs ys
    where "kfree 4128 kheap_example = Some h'" "kfree 4128 h' = Some h'" "heap_ok 4096 bs' h'"
      and split: "[(112, False), (KHEAP_SIZE - 176, True)] = xs @ (112, False) # ys"
      and bs': "bs' = merge_free (xs @ (112, True) # ys)" by blast
  moreover have "xs = []" and "ys = [(KHEAP_SIZE - 176, True)]"
    using split by (auto simp: Cons_eq_append_conv)
  ultimately show ?thesis by (simp add: BLOCK_HEADER_SIZE_def KHEAP_SIZE_def)
qed

text \<open>An allocation followed by its release gives back the same list of blocks.\<close>

theorem kmalloc_kfree_restores:
  assumes ok: "heap_ok base bs h" and al: "kmalloc r h = Some (p, h1)" and p: "p \<noteq> 0"
  shows "\<exists>h2. kfree p h1 = Some h2 \<and> heap_ok base bs h2"
proof -
  let ?sz = "unat (align16 r)"
  have r: "r \<noteq> 0" using al p by (auto simp: kmalloc_def)
  then obtain xs n ys where t: "first_fit ?sz bs = Some (xs, n, ys)"
    using kmalloc_none [OF ok r] al p by (cases "first_fit ?sz bs") auto
  have bs: "bs = xs @ (n, True) # ys" and le: "?sz \<le> n" using first_fit_Some [OF t] by simp_all
  have co: "coalesced bs" and "aligned16 bs" using heap_okD(7,8) [OF ok] by simp_all
  then have "16 dvd n" by (simp add: bs)
  then obtain k rest where cv: "carve ?sz n = (k, False) # rest"
      "rest = [] \<and> k = n \<or> k = ?sz \<and> ?sz + 48 \<le> n \<and> rest = [(n - ?sz - 32, True)]"
    using carve_props [OF le align16_dvd] by blast
  have "p = blocks_end base xs + BLOCK_HEADER_SIZE" "heap_ok base (xs @ (k, False) # rest @ ys) h1"
    using kmalloc_some [OF ok r t align16_dvd] al cv(1) by auto
  then obtain h2 where h2: "kfree p h1 = Some h2" "heap_ok base (free_between xs k (rest @ ys)) h2"
    using kfree_some by blast
  have "absorb_prev xs k = (xs, k)"
    using co by (auto simp: bs coalesced_append absorb_prev_def)
  moreover have "absorb_next k (rest @ ys) = (n, ys)"
    using cv(2) co by (auto simp: bs coalesced_append coalesced_Cons absorb_next_def
        BLOCK_HEADER_SIZE_def split: list.splits bool.splits)
  ultimately have "free_between xs k (rest @ ys) = bs" by (simp add: free_between_def bs)
  then show ?thesis using h2 by auto
qed

theorem kmalloc_kfree_restores_witness:
  "\<exists>p h1 h2. kmalloc 100 kheap_example = Some (p, h1) \<and> p = 4272 \<and> kfree p h1 = Some h2
     \<and> heap_ok 4096 [(112, False), (KHEAP_SIZE - 176, True)] h2"
proof -
  have "align16 100 = 112" by code_simp
  then have "\<exists>h1. kmalloc 100 kheap_example = Some (4272, h1)"
    using kmalloc_some [OF kheap_example_ok, of 100 "[(112, False)]" "KHEAP_SIZE - 176" "[]"]
    by (auto simp: fits_def KHEAP_SIZE_def BLOCK_HEADER_SIZE_def)
  then show ?thesis using kmalloc_kfree_restores [OF kheap_example_ok, of 100 4272] by auto
qed

text \<open>The two statistics functions terminate, the used bytes are the bytes of the allocated
  blocks, and free bytes, used bytes and headers add up to the size of the heap.\<close>

theorem kheap_accounting:
  assumes "heap_ok base bs h"
  shows "\<exists>fr us. kheap_free_bytes h = Some fr \<and> kheap_used_bytes h = Some us
    \<and> us = sum_list (map snd (live_blocks base bs))
    \<and> fr + us + BLOCK_HEADER_SIZE * length bs = KHEAP_SIZE"
  using sum_blocks_ok [OF assms] blocks_end_sum [of base bs] heap_okD(6) [OF assms]
    bytes_of_live [of bs base]
  by (simp add: kheap_free_bytes_def kheap_used_bytes_def)

theorem kheap_accounting_witness:
  "\<exists>fr. kheap_free_bytes kheap_example = Some fr \<and> kheap_used_bytes kheap_example = Some 112
     \<and> fr + 112 + 2 * BLOCK_HEADER_SIZE = KHEAP_SIZE"
  using kheap_accounting [OF kheap_example_ok] by auto

text \<open>C2. Whatever a client does from a fresh heap, asking for any sizes and freeing what it owns in
  any order, no operation reads outside the headers, the heap stays well formed, the allocated
  blocks are the ones the client owns, and once it owns none the heap is again one free block.\<close>

theorem kheap_client_safe:
  assumes "0 < base" and "16 dvd base"
  shows "\<exists>h own bs. kheap_run ops (kheap_start base KHEAP_SIZE) {} = Some (h, own)
    \<and> heap_ok base bs h \<and> own = fst ` set (live_blocks base bs)
    \<and> (own = {} \<longrightarrow> bs = [(KHEAP_SIZE - BLOCK_HEADER_SIZE, True)])"
proof -
  have ok: "heap_ok base [(KHEAP_SIZE - BLOCK_HEADER_SIZE, True)] (kheap_start base KHEAP_SIZE)"
    by (rule kheap_start_ok [OF assms])
  obtain h own bs where r: "kheap_run ops (kheap_start base KHEAP_SIZE) {} = Some (h, own)"
      "heap_ok base bs h" "own = fst ` set (live_blocks base bs)"
    using kheap_run_ok [OF ok, of "{}" ops] by auto
  have "bs = [(KHEAP_SIZE - BLOCK_HEADER_SIZE, True)]" if "own = {}"
  proof -
    have "live_blocks base bs = []" using r(3) that by simp
    then obtain n where n: "bs = [(n, True)]"
      using no_live_blocks heap_okD(4,8) [OF r(2)] by blast
    then show ?thesis using heap_okD(6) [OF r(2)] by (simp add: BLOCK_HEADER_SIZE_def)
  qed
  with r have "heap_ok base bs h \<and> own = fst ` set (live_blocks base bs)
      \<and> (own = {} \<longrightarrow> bs = [(KHEAP_SIZE - BLOCK_HEADER_SIZE, True)])" by blast
  then show ?thesis unfolding r(1) by blast
qed

theorem kheap_client_safe_witness:
  "\<exists>h own bs. kheap_run [Malloc 100, Malloc 7, Free 4128] (kheap_start 4096 KHEAP_SIZE) {}
     = Some (h, own) \<and> heap_ok 4096 bs h \<and> own = fst ` set (live_blocks 4096 bs)"
  using kheap_client_safe [of 4096 "[Malloc 100, Malloc 7, Free 4128]"] by auto

text \<open>A request above \<open>2 ^ 64 - 16\<close> bytes wraps around in \<open>align16\<close>: when the heap has any free
  block, \<open>kmalloc\<close> reports success with a block of less than 48 bytes.\<close>

theorem kmalloc_wraps:
  assumes ok: "heap_ok base bs h" and r: "2 ^ 64 \<le> unat r + 15" and fr: "(n, True) \<in> set bs"
  shows "\<exists>p k h' bs'. kmalloc r h = Some (p, h') \<and> p \<noteq> 0 \<and> heap_ok base bs' h'
    \<and> (p, k) \<in> set (live_blocks base bs') \<and> k < 48"
proof -
  have z: "align16 r = 0" by (rule align16_wrap [OF r])
  have "r \<noteq> 0" using r by auto
  obtain t where "first_fit (unat (align16 r)) bs = Some t"
    using fr first_fit_None [of 0 bs] by (cases "first_fit 0 bs") (auto simp: z fits_def)
  from kmalloc_live [OF ok \<open>r \<noteq> 0\<close> align16_dvd this] show ?thesis
    using heap_okD(2) [OF ok] by (auto simp: z) (metis insertI1 add_is_0 le_zero_eq not_less_zero)
qed


theorem kmalloc_wraps_witness:
  "\<exists>p k h' bs'. kmalloc 0xFFFFFFFFFFFFFFF8 kheap_example = Some (p, h') \<and> p \<noteq> 0
     \<and> heap_ok 4096 bs' h' \<and> (p, k) \<in> set (live_blocks 4096 bs') \<and> k < 48"
  using kmalloc_wraps [OF kheap_example_ok, of "0xFFFFFFFFFFFFFFF8" "KHEAP_SIZE - 176"] by simp

text \<open>The product in \<open>kcalloc\<close> wraps around: some requests of \<open>n\<close> elements succeed with a
  block, and clear a range, smaller than \<open>n\<close> elements.\<close>

theorem kcalloc_wraps:
  assumes ok: "heap_ok base bs h" and fr: "(m, True) \<in> set bs" "16 \<le> m"
  shows "\<exists>p h'. kcalloc 0x4000000000000004 4 h = Some (p, Some (p, 16), h') \<and> p \<noteq> 0"
proof -
  have a: "align16 16 = 16" by code_simp
  obtain t where "first_fit (unat (align16 16)) bs = Some t"
    using fr first_fit_None [of 16 bs] by (cases "first_fit 16 bs") (auto simp: a fits_def)
  from kmalloc_live [OF ok _ align16_dvd this] obtain p h'
    where "kmalloc 16 h = Some (p, h')" "base + BLOCK_HEADER_SIZE \<le> p" by auto
  moreover have w: "0x4000000000000004 * 4 = (16 :: u64)" by code_simp
  ultimately show ?thesis using heap_okD(2) [OF ok] unfolding kcalloc_def w by auto
qed

theorem kcalloc_wraps_witness:
  "\<exists>p h'. kcalloc 0x4000000000000004 4 kheap_example = Some (p, Some (p, 16), h') \<and> p \<noteq> 0"
  using kcalloc_wraps [OF kheap_example_ok, of "KHEAP_SIZE - 176"] by (simp add: KHEAP_SIZE_def)

end
