(* ===== verification/Char_Ring.thy ===== *)
theory Char_Ring
  imports Sol_Interfaces
begin

text \<open>
  The character ring that \<^verbatim>\<open>kernel/arch/x86_64/keyboard.c\<close> (128 slots) and
  \<^verbatim>\<open>kernel/drivers/virtio/virtio_input.c\<close> (256 slots) each implement with a head, a tail and
  a static array, one slot staying empty so that full and empty differ. The definitions take the
  number of slots; the lemmas relate the ring to the list of characters waiting in it.
\<close>

record char_ring =
  ring_buf :: bytes
  ring_head :: nat
  ring_tail :: nat

definition ring_push :: "nat \<Rightarrow> u8 \<Rightarrow> char_ring \<Rightarrow> char_ring" where
  "ring_push n c r =
     (let nxt = (ring_head r + 1) mod n
      in if nxt = ring_tail r then r
         else r\<lparr>ring_buf := (ring_buf r)[ring_head r := c], ring_head := nxt\<rparr>)"

definition ring_pop :: "nat \<Rightarrow> char_ring \<Rightarrow> (u8 \<times> char_ring) option" where
  "ring_pop n r =
     (if ring_tail r = ring_head r then None
      else Some (ring_buf r ! ring_tail r, r\<lparr>ring_tail := (ring_tail r + 1) mod n\<rparr>))"

definition ring_empty :: "nat \<Rightarrow> char_ring" where
  "ring_empty n = \<lparr>ring_buf = replicate n 0, ring_head = 0, ring_tail = 0\<rparr>"

section \<open>The waiting characters\<close>

definition ring_inv :: "nat \<Rightarrow> char_ring \<Rightarrow> bool" where
  "ring_inv n r \<longleftrightarrow> length (ring_buf r) = n \<and> ring_head r < n \<and> ring_tail r < n"

definition ring_count :: "nat \<Rightarrow> char_ring \<Rightarrow> nat" where
  "ring_count n r =
     (if ring_tail r \<le> ring_head r then ring_head r - ring_tail r
      else ring_head r + n - ring_tail r)"

definition ring_contents :: "nat \<Rightarrow> char_ring \<Rightarrow> bytes" where
  "ring_contents n r =
     map (\<lambda>i. ring_buf r ! ((ring_tail r + i) mod n)) [0 ..< ring_count n r]"

lemma mod_wrap: "a < n \<Longrightarrow> i < n \<Longrightarrow> (a + i) mod n = (if a + i < n then a + i else a + i - n)" for n :: nat
  by (auto simp: mod_if)

lemma succ_mod: "a < n \<Longrightarrow> Suc a mod n = (if Suc a = n then 0 else Suc a)" for n :: nat
  by (simp add: mod_Suc)

lemma length_ring_contents [simp]: "length (ring_contents n r) = ring_count n r"
  by (simp add: ring_contents_def)

lemma ring_count_less: "ring_inv n r \<Longrightarrow> ring_count n r < n"
  by (auto simp: ring_inv_def ring_count_def)

lemma ring_full: "ring_inv n r \<Longrightarrow> (ring_head r + 1) mod n = ring_tail r \<longleftrightarrow> ring_count n r = n - 1"
  by (auto simp: ring_inv_def ring_count_def succ_mod)

lemma ring_empty_iff: "ring_inv n r \<Longrightarrow> ring_tail r = ring_head r \<longleftrightarrow> ring_count n r = 0"
  by (auto simp: ring_inv_def ring_count_def)

lemma ring_empty_inv: "0 < n \<Longrightarrow> ring_inv n (ring_empty n) \<and> ring_contents n (ring_empty n) = []"
  by (simp add: ring_inv_def ring_empty_def ring_contents_def ring_count_def)

lemma ring_push_inv: "ring_inv n r \<Longrightarrow> ring_inv n (ring_push n c r)"
  by (auto simp: ring_inv_def ring_push_def Let_def)

lemma ring_push_full: "ring_inv n r \<Longrightarrow> ring_count n r = n - 1 \<Longrightarrow> ring_push n c r = r"
  using ring_full [of n r] by (simp add: ring_push_def)

lemma ring_push_contents:
  assumes "ring_inv n r" and "ring_count n r < n - 1"
  shows "ring_contents n (ring_push n c r) = ring_contents n r @ [c]"
proof -
  let ?r = "ring_push n c r"
  have push: "?r = r\<lparr>ring_buf := (ring_buf r)[ring_head r := c],
      ring_head := (ring_head r + 1) mod n\<rparr>"
    using ring_full [OF assms(1)] assms(2) by (simp add: ring_push_def)
  have count: "ring_count n ?r = Suc (ring_count n r)"
    using assms unfolding push by (auto simp: ring_inv_def ring_count_def succ_mod)
  have other: "(ring_tail r + i) mod n \<noteq> ring_head r" if "i < ring_count n r" for i
  proof -
    have "i < n" using that ring_count_less [OF assms(1)] by simp
    then show ?thesis
      using assms(1) that by (auto simp: ring_inv_def ring_count_def mod_wrap split: if_splits)
  qed
  have last: "(ring_tail r + ring_count n r) mod n = ring_head r"
    using assms(1) ring_count_less [OF assms(1)]
    by (auto simp: ring_inv_def ring_count_def mod_wrap split: if_splits)
  have "length (ring_buf r) = n" and "ring_head r < n" using assms(1) by (auto simp: ring_inv_def)
  moreover have "\<forall>i \<in> set [0 ..< ring_count n r].
      (ring_buf r)[ring_head r := c] ! ((ring_tail r + i) mod n) = ring_buf r ! ((ring_tail r + i) mod n)"
    using other by (auto intro!: nth_list_update_neq dest: sym)
  ultimately show ?thesis
    unfolding ring_contents_def count using last by (simp add: push)
qed

lemma ring_pop_contents:
  assumes "ring_inv n r" and "ring_contents n r = c # q"
  shows "\<exists>r'. ring_pop n r = Some (c, r') \<and> ring_contents n r' = q \<and> ring_inv n r'"
proof -
  have pos: "0 < ring_count n r" using assms(2) by (metis length_ring_contents length_greater_0_conv list.distinct(1))
  let ?r = "r\<lparr>ring_tail := (ring_tail r + 1) mod n\<rparr>"
  have inv: "ring_inv n ?r" using assms(1) by (auto simp: ring_inv_def)
  have count: "ring_count n r = Suc (ring_count n ?r)"
    using assms(1) pos by (auto simp: ring_inv_def ring_count_def succ_mod split: if_splits)
  have "ring_contents n r =
      ring_buf r ! ring_tail r # map (\<lambda>i. ring_buf r ! ((ring_tail r + Suc i) mod n)) [0 ..< ring_count n ?r]"
    unfolding ring_contents_def count using assms(1)
    by (simp add: upt_conv_Cons map_Suc_upt [symmetric] ring_inv_def del: upt_Suc)
  also have "map (\<lambda>i. ring_buf r ! ((ring_tail r + Suc i) mod n)) [0 ..< ring_count n ?r]
      = ring_contents n ?r"
    by (simp add: ring_contents_def mod_simps)
  finally have "c = ring_buf r ! ring_tail r" and "q = ring_contents n ?r"
    using assms(2) by simp_all
  moreover have "ring_pop n r = Some (ring_buf r ! ring_tail r, ?r)"
    using pos ring_empty_iff [OF assms(1)] by (simp add: ring_pop_def)
  ultimately show ?thesis using inv by simp
qed

lemma ring_pop_empty: "ring_inv n r \<Longrightarrow> ring_contents n r = [] \<Longrightarrow> ring_pop n r = None"
  using ring_empty_iff [of n r] by (simp add: ring_pop_def ring_contents_def)

text \<open>A ring of \<open>n\<close> slots is a bounded queue of \<open>n - 1\<close> characters.\<close>

lemma ring_bounded_fifo:
  "bounded_fifo (ring_push n) (ring_pop n) (ring_contents n) (n - 1) (ring_inv n)"
proof unfold_locales
  fix s c assume inv: "ring_inv n s"
  have "ring_count n s < n" by (rule ring_count_less [OF inv])
  then show "ring_contents n (ring_push n c s) =
      (if length (ring_contents n s) < n - 1 then ring_contents n s @ [c] else ring_contents n s)"
    using ring_push_contents [OF inv] ring_push_full [OF inv] by auto
next
  fix s assume "ring_inv n s"
  then have "ring_count n s < n" by (rule ring_count_less)
  then show "length (ring_contents n s) \<le> n - 1" by simp
qed (use ring_push_inv ring_pop_empty ring_pop_contents in auto)

end
