(* ===== verification/Keyboard.thy ===== *)
theory Keyboard
  imports Char_Ring
begin

text \<open>
  The PS/2 keyboard driver, \<^verbatim>\<open>kernel/arch/x86_64/keyboard.c\<close>: the scancode tables, the shift
  state, the 128-slot character ring and the interrupt handler. The byte read from port 0x60 is
  an argument of the handler; the end-of-interrupt messages it sends are part of its result.
\<close>

definition ascii :: "string \<Rightarrow> bytes" where
  "ascii s = map of_char s"

definition scancode_ascii :: bytes where
  "scancode_ascii =
     [0, 27] @ ascii ''1234567890-='' @ [8, 9] @ ascii ''qwertyuiop[]'' @ [10, 0]
     @ ascii ''asdfghjkl;'' @ [39, 96, 0, 92] @ ascii ''zxcvbnm,./'' @ [0, 42, 0, 32]
     @ replicate 70 0"

definition scancode_shifted :: bytes where
  "scancode_shifted =
     [0, 27] @ ascii ''!@#$%^&*()_+'' @ [8, 9] @ ascii ''QWERTYUIOP{}'' @ [10, 0]
     @ ascii ''ASDFGHJKL:'' @ [34, 126, 0, 124] @ ascii ''ZXCVBNM<>?'' @ [0, 42, 0, 32]
     @ replicate 70 0"

definition KBD_BUF_SIZE :: nat where "KBD_BUF_SIZE = 128"
definition SHIFT_L :: u8 where "SHIFT_L = 1"
definition SHIFT_R :: u8 where "SHIFT_R = 2"

record keyboard =
  kbd_ring :: char_ring
  shift_state :: u8

definition keyboard_start :: keyboard where
  "keyboard_start = \<lparr>kbd_ring = ring_empty KBD_BUF_SIZE, shift_state = 0\<rparr>"

definition kbd_buf_push :: "u8 \<Rightarrow> keyboard \<Rightarrow> keyboard" where
  "kbd_buf_push c k = k\<lparr>kbd_ring := ring_push KBD_BUF_SIZE c (kbd_ring k)\<rparr>"

definition keyboard_read_char :: "keyboard \<Rightarrow> (u8 \<times> keyboard) option" where
  "keyboard_read_char k =
     (case ring_pop KBD_BUF_SIZE (kbd_ring k) of
        None \<Rightarrow> None
      | Some (c, r) \<Rightarrow> Some (c, k\<lparr>kbd_ring := r\<rparr>))"

text \<open>The handler: the new state and the IRQ lines acknowledged to the interrupt controller.\<close>

definition keyboard_handler :: "u8 \<Rightarrow> keyboard \<Rightarrow> keyboard \<times> nat list" where
  "keyboard_handler scancode k =
     (if scancode AND 0x80 \<noteq> 0 then
        (let code = scancode AND 0x7F in
           (if code = 0x2A then k\<lparr>shift_state := shift_state k AND NOT SHIFT_L\<rparr>
            else if code = 0x36 then k\<lparr>shift_state := shift_state k AND NOT SHIFT_R\<rparr>
            else k, [1]))
      else if scancode = 0x2A then (k\<lparr>shift_state := shift_state k OR SHIFT_L\<rparr>, [1])
      else if scancode = 0x36 then (k\<lparr>shift_state := shift_state k OR SHIFT_R\<rparr>, [1])
      else
        (let code = scancode AND 0x7F in
         if unat code < 128 then
           (let c = (if shift_state k \<noteq> 0 then scancode_shifted ! unat code
                     else scancode_ascii ! unat code)
            in (if c \<noteq> 0 then kbd_buf_push c k else k, [1]))
         else (k, [1])))"

fun keyboard_run :: "bytes \<Rightarrow> keyboard \<Rightarrow> keyboard" where
  "keyboard_run [] k = k"
| "keyboard_run (b # bs) k = keyboard_run bs (fst (keyboard_handler b k))"

section \<open>Shift keys\<close>

text \<open>Which shift keys are down after a list of scancodes, read off the scancodes alone.\<close>

definition shift_down :: "u8 \<Rightarrow> bytes \<Rightarrow> bool" where
  "shift_down code bs \<longleftrightarrow>
     (let xs = filter (\<lambda>b. b AND 0x7F = code) bs in xs \<noteq> [] \<and> last xs AND 0x80 = 0)"

definition keyboard_inv :: "keyboard \<Rightarrow> bool" where
  "keyboard_inv k \<longleftrightarrow> ring_inv KBD_BUF_SIZE (kbd_ring k)"

definition kbd_contents :: "keyboard \<Rightarrow> bytes" where
  "kbd_contents k = ring_contents KBD_BUF_SIZE (kbd_ring k)"

lemmas kbd_ring_defs = kbd_buf_push_def keyboard_read_char_def kbd_contents_def keyboard_inv_def

interpretation kbd_fifo: bounded_fifo kbd_buf_push keyboard_read_char kbd_contents 127 keyboard_inv
proof unfold_locales
  note laws = bounded_fifo.push_contents [OF ring_bounded_fifo, of 128]
    bounded_fifo.bounded [OF ring_bounded_fifo, of 128]
  fix s :: keyboard and c q assume inv: "keyboard_inv s"
  then have rinv: "ring_inv 128 (kbd_ring s)" by (simp add: keyboard_inv_def KBD_BUF_SIZE_def)
  show "keyboard_inv (kbd_buf_push c s)"
    using ring_push_inv inv by (simp add: kbd_ring_defs)
  show "kbd_contents (kbd_buf_push c s) =
      (if length (kbd_contents s) < 127 then kbd_contents s @ [c] else kbd_contents s)"
    using laws(1) [OF rinv, of c] by (simp add: kbd_ring_defs KBD_BUF_SIZE_def)
  show "length (kbd_contents s) \<le> 127"
    using laws(2) [OF rinv] by (simp add: kbd_ring_defs KBD_BUF_SIZE_def)
  show "keyboard_read_char s = None" if "kbd_contents s = []"
    using ring_pop_empty [OF rinv] that by (simp add: kbd_ring_defs KBD_BUF_SIZE_def)
  show "\<exists>s'. keyboard_read_char s = Some (c, s') \<and> kbd_contents s' = q \<and> keyboard_inv s'"
    if "kbd_contents s = c # q"
    using ring_pop_contents [OF rinv] that by (auto simp: kbd_ring_defs KBD_BUF_SIZE_def)
qed

text \<open>
  The shift state after any scancodes: bit 0 exactly when the last left-shift scancode was a
  make code, bit 1 exactly when the last right-shift scancode was.
\<close>

lemma shift_down_snoc:
  "shift_down code (bs @ [b]) = (if b AND 0x7F = code then b AND 0x80 = 0 else shift_down code bs)"
  by (auto simp: shift_down_def Let_def)

lemma keyboard_run_snoc: "keyboard_run (bs @ [b]) k = fst (keyboard_handler b (keyboard_run bs k))"
  by (induction bs arbitrary: k) auto

definition shift_word :: "bytes \<Rightarrow> u8" where
  "shift_word bs = (if shift_down 0x2A bs then SHIFT_L else 0) OR (if shift_down 0x36 bs then SHIFT_R else 0)"

lemma kbd_buf_push_shift [simp]: "shift_state (kbd_buf_push c k) = shift_state k"
  by (simp add: kbd_buf_push_def)

lemma make_code: "(b :: u8) AND 0x80 = 0 \<Longrightarrow> b AND 0x7F = b"
proof -
  assume "b AND 0x80 = 0"
  have "b AND 0x7F OR b AND 0x80 = b AND (0x7F OR 0x80)" by (simp only: bit.conj_disj_distrib)
  also have "(0x7F OR 0x80 :: u8) = - 1" by simp
  also have "b AND - 1 = b" by simp
  finally show ?thesis using \<open>b AND 0x80 = 0\<close> by simp
qed

lemma keyboard_handler_shift:
  "shift_state (fst (keyboard_handler b k)) =
     (if b AND 0x7F = 0x2A then
        (if b AND 0x80 = 0 then shift_state k OR SHIFT_L else shift_state k AND NOT SHIFT_L)
      else if b AND 0x7F = 0x36 then
        (if b AND 0x80 = 0 then shift_state k OR SHIFT_R else shift_state k AND NOT SHIFT_R)
      else shift_state k)"
  using make_code [of b] by (auto simp: keyboard_handler_def Let_def)

lemma shift_word_snoc:
  "shift_word (bs @ [b]) =
     (if b AND 0x7F = 0x2A then
        (if b AND 0x80 = 0 then shift_word bs OR SHIFT_L else shift_word bs AND NOT SHIFT_L)
      else if b AND 0x7F = 0x36 then
        (if b AND 0x80 = 0 then shift_word bs OR SHIFT_R else shift_word bs AND NOT SHIFT_R)
      else shift_word bs)"
  by (simp add: shift_word_def shift_down_snoc SHIFT_L_def SHIFT_R_def)

lemma keyboard_handler_inv: "keyboard_inv k \<Longrightarrow> keyboard_inv (fst (keyboard_handler b k))"
  using kbd_fifo.push_inv by (auto simp: keyboard_handler_def Let_def keyboard_inv_def)

lemma keyboard_run_inv: "keyboard_inv k \<Longrightarrow> keyboard_inv (keyboard_run bs k)"
  by (induction bs arbitrary: k) (auto intro: keyboard_handler_inv)

section \<open>Properties\<close>

text \<open>C36. The keyboard ring is a bounded first-in first-out queue of 127 characters: for every
  interleaving of pushes by the interrupt handler and reads by the main loop, the characters read
  are those the abstract queue delivers, so none is duplicated, reordered or overwritten; only
  keystrokes that arrive when the queue is full are dropped.\<close>

theorem keyboard_ring_fifo:
  assumes "keyboard_inv k" and "ring_run kbd_buf_push keyboard_read_char ops k = (outs, k')"
  shows "spec_run 127 ops (kbd_contents k) = (outs, kbd_contents k')
    \<and> subseq (returned outs @ kbd_contents k') (kbd_contents k @ pushed ops)"
  using kbd_fifo.ring_run_refines [OF assms] kbd_fifo.ring_run_order [OF assms] by simp_all

theorem keyboard_ring_fifo_witness:
  "fst (ring_run kbd_buf_push keyboard_read_char [Push 97, Push 98, Pop, Push 99, Pop, Pop, Pop]
     keyboard_start) = [Some 97, Some 98, Some 99, None]"
proof -
  have "keyboard_inv keyboard_start" and "kbd_contents keyboard_start = []"
    using ring_empty_inv [of 128]
    by (simp_all add: kbd_ring_defs keyboard_start_def KBD_BUF_SIZE_def)
  moreover obtain outs k' where "ring_run kbd_buf_push keyboard_read_char
      [Push 97, Push 98, Pop, Push 99, Pop, Pop, Pop] keyboard_start = (outs, k')"
    by (cases "ring_run kbd_buf_push keyboard_read_char
      [Push 97, Push 98, Pop, Push 99, Pop, Pop, Pop] keyboard_start")
  ultimately show ?thesis
    using keyboard_ring_fifo [of keyboard_start] by fastforce
qed

text \<open>After any sequence of scancodes from the start, the shift state records exactly which of
  the two shift keys had a make code as its last scancode, and every handler run acknowledges
  IRQ 1 once.\<close>

theorem keyboard_shift_tracks:
  "shift_state (keyboard_run bs keyboard_start) = shift_word bs
   \<and> snd (keyboard_handler b (keyboard_run bs keyboard_start)) = [1]"
proof
  show "shift_state (keyboard_run bs keyboard_start) = shift_word bs"
  proof (induction bs rule: rev_induct)
    case Nil
    show ?case by (simp add: keyboard_start_def shift_word_def shift_down_def)
  next
    case (snoc b bs)
    then show ?case by (simp add: keyboard_run_snoc keyboard_handler_shift shift_word_snoc)
  qed
qed (simp add: keyboard_handler_def Let_def)

end
