(* ===== verification/Klog.thy ===== *)
theory Klog
  imports Keyboard
begin

text \<open>
  The kernel log of \<^verbatim>\<open>kernel/klog.c\<close> as a formatter: from a format string and its arguments to
  the bytes that go to the serial port. A format is the list of its characters without the
  terminating zero; \<open>None\<close> is a read past that zero, or of an argument that was not passed. The
  busy wait for the transmitter is left out.
\<close>

datatype karg = Num u64 | Str "bytes option"

definition hex_digits :: "bool \<Rightarrow> bytes" where
  "hex_digits upper = (if upper then ascii ''0123456789ABCDEF'' else ascii ''0123456789abcdef'')"

text \<open>The digits, least significant first, as they are put into the 32-byte buffer.\<close>

function digits_rev :: "nat \<Rightarrow> nat \<Rightarrow> bool \<Rightarrow> bytes" where
  "digits_rev v base upper =
     (if v = 0 \<or> base < 2 then [] else hex_digits upper ! (v mod base) # digits_rev (v div base) base upper)"
  by pat_completeness auto
termination by (relation "measure (\<lambda>(v, base, upper). v)") auto

declare digits_rev.simps [simp del]

definition klog_putuint :: "u64 \<Rightarrow> nat \<Rightarrow> bool \<Rightarrow> bytes" where
  "klog_putuint v base upper = (if v = 0 then ascii ''0'' else rev (digits_rev (unat v) base upper))"

definition klog_putint :: "u64 \<Rightarrow> bytes" where
  "klog_putint v = (if v <s 0 then ascii ''-'' @ klog_putuint (- v) 10 False else klog_putuint v 10 False)"

definition serial_text :: "bytes \<Rightarrow> bytes" where
  "serial_text s = concat (map (\<lambda>c. if c = 10 then [13, c] else [c]) s)"

definition klog_puts :: "bytes option \<Rightarrow> bytes" where
  "klog_puts s = serial_text (case s of None \<Rightarrow> ascii ''(null)'' | Some t \<Rightarrow> t)"

text \<open>\<^verbatim>\<open>va_arg\<close> with a 32-bit type reads the low half, sign-extended for \<^verbatim>\<open>int\<close>.\<close>

definition as_int :: "u64 \<Rightarrow> u64" where
  "as_int v = scast (ucast v :: u32)"

definition as_uint :: "u64 \<Rightarrow> u64" where
  "as_uint v = ucast (ucast v :: u32)"

definition ch :: "char \<Rightarrow> u8" where
  "ch c = of_char c"

fun klog :: "bytes \<Rightarrow> karg list \<Rightarrow> bytes option" where
  "klog [] args = Some []"
| "klog (c # p) args =
     (if c \<noteq> ch CHR ''%'' then
        do { r \<leftarrow> klog p args; Some (serial_text [c] @ r) }
      else (case p of
          [] \<Rightarrow> None
        | f # q \<Rightarrow>
            if f = ch CHR ''s'' then
              (case args of Str s # as \<Rightarrow> do { r \<leftarrow> klog q as; Some (klog_puts s @ r) } | _ \<Rightarrow> None)
            else if f = ch CHR ''d'' then
              (case args of Num v # as \<Rightarrow> do { r \<leftarrow> klog q as; Some (klog_putint (as_int v) @ r) } | _ \<Rightarrow> None)
            else if f = ch CHR ''u'' then
              (case args of Num v # as \<Rightarrow> do { r \<leftarrow> klog q as; Some (klog_putuint (as_uint v) 10 False @ r) } | _ \<Rightarrow> None)
            else if f = ch CHR ''x'' then
              (case args of Num v # as \<Rightarrow> do { r \<leftarrow> klog q as; Some (klog_putuint (as_uint v) 16 False @ r) } | _ \<Rightarrow> None)
            else if f = ch CHR ''X'' then
              (case args of Num v # as \<Rightarrow> do { r \<leftarrow> klog q as; Some (klog_putuint (as_uint v) 16 True @ r) } | _ \<Rightarrow> None)
            else if f = ch CHR ''l'' then
              (case q of
                 [] \<Rightarrow> None
               | g # q2 \<Rightarrow>
                   if g = ch CHR ''d'' then
                     (case args of Num v # as \<Rightarrow> do { r \<leftarrow> klog q2 as; Some (klog_putint v @ r) } | _ \<Rightarrow> None)
                   else if g = ch CHR ''u'' then
                     (case args of Num v # as \<Rightarrow> do { r \<leftarrow> klog q2 as; Some (klog_putuint v 10 False @ r) } | _ \<Rightarrow> None)
                   else if g = ch CHR ''x'' then
                     (case args of Num v # as \<Rightarrow> do { r \<leftarrow> klog q2 as; Some (klog_putuint v 16 False @ r) } | _ \<Rightarrow> None)
                   else if g = ch CHR ''X'' then
                     (case args of Num v # as \<Rightarrow> do { r \<leftarrow> klog q2 as; Some (klog_putuint v 16 True @ r) } | _ \<Rightarrow> None)
                   else do { r \<leftarrow> klog q2 args; Some (ascii ''%l'' @ [g] @ r) })
            else if f = ch CHR ''p'' then
              (case args of Num v # as \<Rightarrow> do { r \<leftarrow> klog q as; Some (klog_putuint v 16 False @ r) } | _ \<Rightarrow> None)
            else if f = ch CHR ''c'' then
              (case args of Num v # as \<Rightarrow> do { r \<leftarrow> klog q as; Some ([ucast v] @ r) } | _ \<Rightarrow> None)
            else if f = ch CHR ''%'' then do { r \<leftarrow> klog q args; Some (ascii ''%'' @ r) }
            else do { r \<leftarrow> klog q args; Some (ascii ''%'' @ [f] @ r) }))"

section \<open>Numbers\<close>

text \<open>The value of a digit character, and of a list of them, least significant first.\<close>

definition digit_value :: "u8 \<Rightarrow> nat" where
  "digit_value c =
     (if c \<ge> 97 then unat c - 87 else if c \<ge> 65 then unat c - 55 else unat c - 48)"

fun digits_value :: "nat \<Rightarrow> bytes \<Rightarrow> nat" where
  "digits_value base [] = 0"
| "digits_value base (d # ds) = digit_value d + base * digits_value base ds"

lemma digit_value_hex:
  assumes k: "k < 16"
  shows "digit_value (hex_digits upper ! k) = k"
proof -
  have "list_all (\<lambda>k. digit_value (hex_digits True ! k) = k \<and> digit_value (hex_digits False ! k) = k) [0 ..< 16]"
    by code_simp
  then have all: "\<forall>k \<in> {0 ..< 16}. digit_value (hex_digits True ! k) = k \<and> digit_value (hex_digits False ! k) = k" by (simp only: list_all_iff set_upt)
  have "k \<in> {0 ..< 16}" using k by simp
  from bspec [OF all this] show ?thesis by (cases upper) simp_all
qed

lemma hex_digit_zero:
  assumes k: "k < 16"
  shows "hex_digits upper ! k = 48 \<longleftrightarrow> k = 0"
proof -
  have "list_all (\<lambda>k. (hex_digits True ! k = 48) = (k = 0) \<and> (hex_digits False ! k = 48) = (k = 0)) [0 ..< 16]"
    by code_simp
  then have all: "\<forall>k \<in> {0 ..< 16}. (hex_digits True ! k = 48) = (k = 0) \<and> (hex_digits False ! k = 48) = (k = 0)" by (simp only: list_all_iff set_upt)
  have "k \<in> {0 ..< 16}" using k by simp
  from bspec [OF all this] show ?thesis by (cases upper) simp_all
qed

lemma digits_rev_value: "2 \<le> base \<Longrightarrow> base \<le> 16 \<Longrightarrow> digits_value base (digits_rev v base upper) = v"
proof (induction v base upper rule: digits_rev.induct)
  case (1 v base upper)
  show ?case
  proof (cases "v = 0")
    case True
    then show ?thesis by (simp add: digits_rev.simps)
  next
    case False
    have "v mod base < base" using 1(2) by simp
    then have "v mod base < 16" using 1(3) by simp
    then show ?thesis
      using 1 False by (subst digits_rev.simps) (simp add: digit_value_hex mod_mult_div_eq)
  qed
qed

lemma digits_rev_length: "2 \<le> base \<Longrightarrow> v < base ^ n \<Longrightarrow> length (digits_rev v base upper) \<le> n"
proof (induction n arbitrary: v)
  case 0
  then show ?case by (simp add: digits_rev.simps)
next
  case (Suc n)
  show ?case
  proof (cases "v = 0")
    case True
    then show ?thesis by (simp add: digits_rev.simps)
  next
    case False
    have "v div base < base ^ n" using Suc.prems by (simp add: div_less_iff_less_mult mult.commute)
    from Suc.IH [OF Suc.prems(1) this] show ?thesis
      using False Suc.prems(1) by (subst digits_rev.simps) simp
  qed
qed

lemma digits_rev_last:
  "2 \<le> base \<Longrightarrow> base \<le> 16 \<Longrightarrow> v \<noteq> 0 \<Longrightarrow>
   digits_rev v base upper \<noteq> [] \<and> last (digits_rev v base upper) \<noteq> 48"
proof (induction v base upper rule: digits_rev.induct)
  case (1 v base upper)
  have eq: "digits_rev v base upper = hex_digits upper ! (v mod base) # digits_rev (v div base) base upper"
    using 1 by (subst digits_rev.simps) simp
  show ?case
  proof (cases "v div base = 0")
    case True
    then have "v < base" using 1(2) by (simp add: div_eq_0_iff)
    then have "hex_digits upper ! (v mod base) \<noteq> 48" using 1(3,4) hex_digit_zero [of v] by simp
    then show ?thesis using True by (simp add: eq digits_rev.simps [of 0])
  next
    case False
    then show ?thesis using 1 by (simp add: eq)
  qed
qed

section \<open>Properties\<close>

text \<open>The digits printed for a number, in base 10 or 16, denote that number, have no leading
  zero unless the number is 0, and fit the 32-byte buffer.\<close>

theorem klog_putuint_correct:
  assumes "base = 10 \<or> base = 16"
  shows "digits_value base (rev (klog_putuint v base upper)) = unat v
    \<and> (v \<noteq> 0 \<longrightarrow> hd (klog_putuint v base upper) \<noteq> 48)
    \<and> klog_putuint v base upper \<noteq> [] \<and> length (klog_putuint v base upper) \<le> 20"
proof (cases "v = 0")
  case True
  have "ascii ''0'' = [48]" by code_simp
  then show ?thesis using True by (simp add: klog_putuint_def digit_value_def)
next
  case False
  have b: "2 \<le> base" "base \<le> 16" using assms by auto
  have "unat v < 10 ^ 20" "unat v < 16 ^ 20" using unat_u64_less [of v] by simp_all
  then have "length (digits_rev (unat v) base upper) \<le> 20"
    using assms digits_rev_length [OF b(1)] by auto
  moreover have nz: "unat v \<noteq> 0" using False by (simp add: unat_eq_zero)
  ultimately show ?thesis
    using digits_rev_value [OF b, of "unat v" upper] digits_rev_last [OF b nz, of upper] False
    by (simp add: klog_putuint_def hd_rev)
qed

theorem klog_putuint_correct_witness:
  "digits_value 10 (rev (klog_putuint 1024 10 False)) = 1024"
  using klog_putuint_correct [of 10 1024 False] by simp

lemma map_option_append_Nil: "map_option ((@) []) x = x"
  by (cases x) simp_all

lemma klog_plain: "\<forall>c \<in> set p. c \<noteq> ch CHR ''%'' \<Longrightarrow>
    klog (p @ q) args = map_option (\<lambda>r. serial_text p @ r) (klog q args)"
  by (induction p) (auto simp: serial_text_def map_option_append_Nil option.map_comp o_def split: bind_splits)

text \<open>A format that ends in a lone percent sign, or in a percent sign and \<open>l\<close>, makes the
  formatter step over the terminating zero and read past the string, whatever comes before.\<close>

theorem klog_format_overrun:
  assumes "\<forall>c \<in> set p. c \<noteq> ch CHR ''%''"
  shows "klog (p @ [ch CHR ''%'']) args = None \<and> klog (p @ [ch CHR ''%'', ch CHR ''l'']) args = None"
proof -
  have "ch CHR ''l'' \<notin> {ch CHR ''s'', ch CHR ''d'', ch CHR ''u'', ch CHR ''x'', ch CHR ''X''}" by code_simp
  then show ?thesis using assms by (simp add: klog_plain)
qed

theorem klog_format_overrun_witness: "klog (ascii ''50%'') [] = None"
proof -
  have "\<forall>c \<in> set (ascii ''50''). c \<noteq> ch CHR ''%''" by code_simp
  moreover have "ascii ''50%'' = ascii ''50'' @ [ch CHR ''%'']" by code_simp
  ultimately show ?thesis using klog_format_overrun [of "ascii ''50''" "[]"] by simp
qed

end
