(* ===== verification/Sha256.thy ===== *)
theory Sha256
  imports Sol_Prelude
begin

unbundle bit_operations_syntax

text \<open>
  The hash function of \<^verbatim>\<open>kernel/crypto.c\<close> (\<^verbatim>\<open>sha256_init\<close>, \<^verbatim>\<open>sha256_update\<close>, \<^verbatim>\<open>sha256_final\<close>,
  \<^verbatim>\<open>sha256\<close>): the global context is explicit state, the word operations are those of the code.

  The reference is the one-shot digest of the padded message. The lemmas show that the streaming
  code computes it for every way of cutting the message into chunks, and that the compression
  function is not the one of the standard.
\<close>

section \<open>The compression function\<close>

text \<open>The 64 round constants of \<^verbatim>\<open>K\<close>, row by row, in decimal.\<close>

definition sha256_k :: "u32 list" where
  "sha256_k =
   [1116352408, 1899447441, 3049323471, 3921009573, 961987163, 1508970993, 2453635748, 2870763221,
    3624381080, 310598401, 607225278, 1426881987, 1925078388, 2162078206, 2614888103, 3248222580,
    3835390401, 4022224774, 264347078, 604807628, 770255983, 1249150122, 1555081692, 1996064986,
    2554220882, 2821834349, 2952996808, 3210313671, 3336571891, 3584528711, 113926993, 338241895,
    666307205, 773529912, 1294757372, 1396182291, 1695183700, 1986661051, 2177026350, 2456956037,
    2730485921, 2820302411, 3259730800, 3345764771, 3516065817, 3600352804, 4094571909, 275423344,
    430227734, 506948616, 659060556, 883997877, 958139571, 1322822218, 1537002063, 1747873779,
    1955562222, 2024104815, 2227730452, 2361852424, 2428436474, 2756734187, 3204031479, 3329325298]"

definition rotr32 :: "nat \<Rightarrow> u32 \<Rightarrow> u32" where
  "rotr32 n x = drop_bit n x OR push_bit (32 - n) x"

type_synonym sigma = "u32 \<Rightarrow> u32"

text \<open>The four functions as the code has them: each is one rotation.\<close>

definition code_s0 :: sigma where "code_s0 x = rotr32 7 x"
definition code_s1 :: sigma where "code_s1 x = rotr32 17 x"
definition code_S1 :: sigma where "code_S1 e = rotr32 6 e"
definition code_S0 :: sigma where "code_S0 a = rotr32 2 a"

text \<open>
  The rest of \<^verbatim>\<open>sha256_transform\<close>, over the four functions, so that the same text gives the code's
  function and the standard's.
\<close>

fun load_words :: "bytes \<Rightarrow> u32 list" where
  "load_words (a # b # c # d # r) = mk32 a b c d # load_words r"
| "load_words r = []"

fun sha_expand :: "sigma \<Rightarrow> sigma \<Rightarrow> nat list \<Rightarrow> u32 list \<Rightarrow> u32 list" where
  "sha_expand s0 s1 [] w = w"
| "sha_expand s0 s1 (i # is) w =
     sha_expand s0 s1 is (w @ [w ! (i - 16) + s0 (w ! (i - 15)) + w ! (i - 7) + s1 (w ! (i - 2))])"

definition sha_round :: "sigma \<Rightarrow> sigma \<Rightarrow> u32 list \<Rightarrow> u32 \<times> u32 \<Rightarrow> u32 list" where
  "sha_round S0 S1 st kw =
     (let a = st ! 0; b = st ! 1; c = st ! 2; d = st ! 3; e = st ! 4; f = st ! 5; g = st ! 6; h = st ! 7;
          ch = (e AND f) XOR (NOT e AND g);
          temp1 = h + S1 e + ch + fst kw + snd kw;
          maj = (a AND b) XOR (a AND c) XOR (b AND c);
          temp2 = S0 a + maj
      in [temp1 + temp2, a, b, c, d + temp1, e, f, g])"

definition sha_compress :: "sigma \<Rightarrow> sigma \<Rightarrow> sigma \<Rightarrow> sigma \<Rightarrow> u32 list \<Rightarrow> bytes \<Rightarrow> u32 list" where
  "sha_compress s0 s1 S0 S1 st block =
     map2 (+) st
       (foldl (sha_round S0 S1) st (zip sha256_k (sha_expand s0 s1 [16 ..< 64] (load_words block))))"

definition sha256_transform :: "u32 list \<Rightarrow> bytes \<Rightarrow> u32 list" where
  "sha256_transform = sha_compress code_s0 code_s1 code_S0 code_S1"

section \<open>The streaming interface\<close>

record sha256_ctx =
  sh_state :: "u32 list"
  sh_bits :: u64
  sh_buf :: bytes
  sh_len :: nat

definition sha_iv :: "u32 list" where
  "sha_iv = [0x6a09e667, 0xbb67ae85, 0x3c6ef372, 0xa54ff53a, 0x510e527f, 0x9b05688c, 0x1f83d9ab, 0x5be0cd19]"

definition sha256_init :: "sha256_ctx \<Rightarrow> sha256_ctx" where
  "sha256_init s = s\<lparr>sh_state := sha_iv, sh_bits := 0, sh_len := 0\<rparr>"

text \<open>The copy loop; \<open>need\<close> is the unsigned difference.\<close>

partial_function (option) sha_copy :: "bytes \<Rightarrow> sha256_ctx \<Rightarrow> sha256_ctx option" where
  "sha_copy p s =
     (if p = [] then Some s
      else (let need = (2 ^ 32 + 64 - sh_len s) mod 2 ^ 32;
                n = (if need < length p then need else length p)
            in do { buf \<leftarrow> wr_range (sh_buf s) (sh_len s) (take n p);
                 (let len = sh_len s + n;
                      s = (if len = 64
                           then s\<lparr>sh_state := sha256_transform (sh_state s) buf, sh_buf := buf, sh_len := 0\<rparr>
                           else s\<lparr>sh_buf := buf, sh_len := len\<rparr>)
                  in sha_copy (drop n p) s) }))"

definition sha256_update :: "bytes \<Rightarrow> sha256_ctx \<Rightarrow> sha256_ctx option" where
  "sha256_update data s = sha_copy data (s\<lparr>sh_bits := sh_bits s + of_nat (length data) * 8\<rparr>)"

definition sha_fill :: "nat \<Rightarrow> sha256_ctx \<Rightarrow> sha256_ctx option" where
  "sha_fill n s = do { buf \<leftarrow> wr_range (sh_buf s) (sh_len s) (replicate (n - sh_len s) 0);
                       Some (s\<lparr>sh_buf := buf, sh_len := max n (sh_len s)\<rparr>) }"

definition sha_bits_bytes :: "u64 \<Rightarrow> bytes" where
  "sha_bits_bytes bits = map (\<lambda>i. ucast (drop_bit (i * 8) bits)) (rev [0 ..< 8])"

definition sha_digest_bytes :: "u32 list \<Rightarrow> bytes" where
  "sha_digest_bytes st = concat (map bytes32 st)"

definition sha256_final :: "sha256_ctx \<Rightarrow> (bytes \<times> sha256_ctx) option" where
  "sha256_final s =
     do { buf \<leftarrow> wr (sh_buf s) (sh_len s) 0x80;
          s1 \<leftarrow> Some (s\<lparr>sh_buf := buf, sh_len := sh_len s + 1\<rparr>);
          s2 \<leftarrow> (if sh_len s1 > 56
                 then do { t \<leftarrow> sha_fill 64 s1;
                           Some (t\<lparr>sh_state := sha256_transform (sh_state t) (sh_buf t), sh_len := 0\<rparr>) }
                 else Some s1);
          s3 \<leftarrow> sha_fill 56 s2;
          buf \<leftarrow> wr_range (sh_buf s3) (sh_len s3) (sha_bits_bytes (sh_bits s));
          (let st = sha256_transform (sh_state s3) buf
           in Some (sha_digest_bytes st, s3\<lparr>sh_state := st, sh_buf := buf, sh_len := sh_len s3 + 8\<rparr>)) }"

definition sha256 :: "bytes \<Rightarrow> sha256_ctx \<Rightarrow> (bytes \<times> sha256_ctx) option" where
  "sha256 data s = do { s1 \<leftarrow> sha256_update data (sha256_init s); sha256_final s1 }"

fun sha256_updates :: "bytes list \<Rightarrow> sha256_ctx \<Rightarrow> sha256_ctx option" where
  "sha256_updates [] s = Some s"
| "sha256_updates (c # cs) s = do { s1 \<leftarrow> sha256_update c s; sha256_updates cs s1 }"

section \<open>The reference: the digest of a padded message\<close>

fun absorb :: "(u32 list \<Rightarrow> bytes \<Rightarrow> u32 list) \<Rightarrow> nat \<Rightarrow> u32 list \<Rightarrow> bytes \<Rightarrow> u32 list" where
  "absorb F 0 st m = st"
| "absorb F (Suc n) st m = absorb F n (F st (take 64 m)) (drop 64 m)"

definition sha_pad :: "bytes \<Rightarrow> bytes" where
  "sha_pad m = m @ [0x80] @ replicate ((119 - length m mod 64) mod 64) 0 @ sha_bits_bytes (of_nat (8 * length m))"

definition sha_digest :: "(u32 list \<Rightarrow> bytes \<Rightarrow> u32 list) \<Rightarrow> bytes \<Rightarrow> bytes" where
  "sha_digest F m = (let p = sha_pad m in sha_digest_bytes (absorb F (length p div 64) sha_iv p))"

text \<open>The functions of the standard.\<close>

definition fips_s0 :: sigma where "fips_s0 x = rotr32 7 x XOR rotr32 18 x XOR drop_bit 3 x"
definition fips_s1 :: sigma where "fips_s1 x = rotr32 17 x XOR rotr32 19 x XOR drop_bit 10 x"
definition fips_S0 :: sigma where "fips_S0 x = rotr32 2 x XOR rotr32 13 x XOR rotr32 22 x"
definition fips_S1 :: sigma where "fips_S1 x = rotr32 6 x XOR rotr32 11 x XOR rotr32 25 x"

definition fips_sha256 :: "bytes \<Rightarrow> bytes" where
  "fips_sha256 = sha_digest (sha_compress fips_s0 fips_s1 fips_S0 fips_S1)"

section \<open>The streaming code computes the reference\<close>

lemma absorb_add: "absorb F (a + b) st m = absorb F b (absorb F a st m) (drop (64 * a) m)"
  by (induction F a st m rule: absorb.induct) (simp_all add: add.commute)

lemma absorb_prefix: "64 * n \<le> length m \<Longrightarrow> absorb F n st (m @ r) = absorb F n st m"
  by (induction n arbitrary: st m) simp_all

lemma absorb_block:
  assumes "length m = 64 * n" "length b = 64"
  shows "absorb F (Suc n) st (m @ b) = F (absorb F n st m) b"
  using absorb_add [of F n 1 st "m @ b"] assms by (simp add: absorb_prefix)

text \<open>
  The context after the message \<open>m\<close>: the whole blocks are absorbed, the rest is at the start of
  the buffer.
\<close>

definition sha_absorbed :: "bytes \<Rightarrow> sha256_ctx \<Rightarrow> bool" where
  "sha_absorbed m s \<longleftrightarrow> length (sh_buf s) = 64 \<and> sh_len s < 64
   \<and> (\<exists>pre rest n. m = pre @ rest \<and> length pre = 64 * n \<and> length rest = sh_len s
        \<and> take (sh_len s) (sh_buf s) = rest \<and> sh_state s = absorb sha256_transform n sha_iv pre)"

lemma sha_copy_absorbs:
  "sha_absorbed m s \<Longrightarrow> \<exists>s'. sha_copy p s = Some s' \<and> sha_absorbed (m @ p) s' \<and> sh_bits s' = sh_bits s"
proof (induction "length p" arbitrary: p m s rule: less_induct)
  case less
  obtain pre rest n where pre: "m = pre @ rest" "length pre = 64 * n" "length rest = sh_len s"
      "take (sh_len s) (sh_buf s) = rest" "sh_state s = absorb sha256_transform n sha_iv pre"
    and buf: "length (sh_buf s) = 64" and len: "sh_len s < 64"
    using less(2) by (auto simp: sha_absorbed_def)
  show ?case
  proof (cases "p = []")
    case True
    then show ?thesis using less(2) by (subst sha_copy.simps) simp
  next
    case False
    have need: "(2 ^ 32 + 64 - sh_len s) mod 2 ^ 32 = 64 - sh_len s"
    proof -
      have "2 ^ 32 + 64 - sh_len s = 2 ^ 32 + (64 - sh_len s)" using len by simp
      then show ?thesis using len by (simp only: mod_add_self1) simp
    qed
    define k where "k = (if 64 - sh_len s < length p then 64 - sh_len s else length p)"
    let ?buf = "take (sh_len s) (sh_buf s) @ take k p @ drop (sh_len s + k) (sh_buf s)"
    let ?s = "if sh_len s + k = 64
        then s\<lparr>sh_state := sha256_transform (sh_state s) ?buf, sh_buf := ?buf, sh_len := 0\<rparr>
        else s\<lparr>sh_buf := ?buf, sh_len := sh_len s + k\<rparr>"
    have k: "0 < k" "k \<le> length p" "sh_len s + k \<le> 64" using len False by (auto simp: k_def)
    have wr: "wr_range (sh_buf s) (sh_len s) (take k p) = Some ?buf"
      using k buf by (simp add: wr_range_Some)
    have step: "sha_copy p s = sha_copy (drop k p) ?s"
      using False by (subst sha_copy.simps) (simp only: need k_def [symmetric] wr Let_def if_False bind.bind_lunit)
    have lb: "length ?buf = 64" using k buf by simp
    have "sha_absorbed (m @ take k p) ?s"
    proof (cases "sh_len s + k = 64")
      case True
      then have b: "?buf = rest @ take k p" using pre(4) buf by simp
      have l64: "length (rest @ take k p) = 64" using True pre(3) k by simp
      have "absorb sha256_transform (Suc n) sha_iv (pre @ rest @ take k p)
          = sha256_transform (sh_state s) ?buf"
        by (simp only: absorb_block [OF pre(2) l64] pre(5) b)
      then show ?thesis
        using True lb pre(1,2) l64 unfolding sha_absorbed_def
        by (intro conjI exI [of _ "pre @ rest @ take k p"] exI [of _ "[]"] exI [of _ "Suc n"]) simp_all
    next
      case False
      then have "sh_len s + k < 64" using k by linarith
      then show ?thesis
        using False lb pre k unfolding sha_absorbed_def
        by (intro conjI exI [of _ pre] exI [of _ "rest @ take k p"] exI [of _ n]) (simp_all add: min_def)
    qed
    moreover have "length (drop k p) < length p" using k by simp
    ultimately obtain s' where "sha_copy (drop k p) ?s = Some s'"
        "sha_absorbed ((m @ take k p) @ drop k p) s'" "sh_bits s' = sh_bits ?s"
      using less(1) by blast
    then show ?thesis using step by auto
  qed
qed

lemma sha256_update_absorbs:
  assumes "sha_absorbed m s" "sh_bits s = of_nat (8 * length m)"
  shows "\<exists>s'. sha256_update p s = Some s' \<and> sha_absorbed (m @ p) s' \<and> sh_bits s' = of_nat (8 * length (m @ p))"
proof -
  let ?s = "s\<lparr>sh_bits := sh_bits s + of_nat (length p) * 8\<rparr>"
  have "sha_absorbed m ?s" using assms(1) by (simp add: sha_absorbed_def)
  then show ?thesis
    using sha_copy_absorbs [of m ?s p] assms(2) by (auto simp: sha256_update_def algebra_simps)
qed

lemma sha256_updates_absorb:
  "sha_absorbed m s \<Longrightarrow> sh_bits s = of_nat (8 * length m) \<Longrightarrow>
   \<exists>s'. sha256_updates cs s = Some s' \<and> sha_absorbed (m @ concat cs) s'
     \<and> sh_bits s' = of_nat (8 * length (m @ concat cs))"
proof (induction cs arbitrary: m s)
  case (Cons c cs)
  obtain s1 where "sha256_update c s = Some s1" "sha_absorbed (m @ c) s1" "sh_bits s1 = of_nat (8 * length (m @ c))"
    using sha256_update_absorbs [OF Cons(2,3)] by blast
  then show ?case using Cons(1) [of "m @ c" s1] by simp
qed simp

lemma sha256_init_absorbed: "length (sh_buf s) = 64 \<Longrightarrow> sha_absorbed [] (sha256_init s)"
  by (simp add: sha_absorbed_def sha256_init_def)

lemma length_bits_bytes [simp]: "length (sha_bits_bytes b) = 8"
  by (simp add: sha_bits_bytes_def)

lemma sha_pad_cut:
  assumes "m = pre @ rest" "length pre = 64 * n" "length rest < 64"
  shows "sha_pad m = pre @ rest @ [0x80]
    @ replicate (if length rest \<le> 55 then 55 - length rest else 119 - length rest) 0
    @ sha_bits_bytes (of_nat (8 * length m))"
proof -
  have "length m mod 64 = length rest" using assms by simp
  moreover have "(119 - r) mod 64 = (if r \<le> 55 then 55 - r else 119 - r)" if "r < 64" for r :: nat
    using that by (cases "r \<le> 55") (simp_all add: mod_if [of "119 - r"])
  ultimately show ?thesis using assms by (simp add: sha_pad_def)
qed

lemma sha_digest_last:
  assumes "sha_pad m = P @ B" "length P = 64 * n" "length B = 64"
  shows "sha_digest F m = sha_digest_bytes (F (absorb F n sha_iv P) B)"
proof -
  have "length (P @ B) div 64 = Suc n" using assms(2,3) by simp
  then show ?thesis
    unfolding sha_digest_def Let_def assms(1) by (simp only: absorb_block [OF assms(2,3)])
qed

lemma sha256_final_digest:
  assumes inv: "sha_absorbed m s" and bits: "sh_bits s = of_nat (8 * length m)"
  shows "\<exists>s'. sha256_final s = Some (sha_digest sha256_transform m, s') \<and> length (sh_buf s') = 64"
proof -
  obtain pre rest n where pre: "m = pre @ rest" "length pre = 64 * n" "length rest = sh_len s"
      "take (sh_len s) (sh_buf s) = rest" "sh_state s = absorb sha256_transform n sha_iv pre"
    and buf: "length (sh_buf s) = 64" and len: "sh_len s < 64"
    using inv by (auto simp: sha_absorbed_def)
  let ?l = "sh_len s" let ?bits = "sha_bits_bytes (of_nat (8 * length m))"
  let ?b1 = "(sh_buf s)[?l := 0x80]"
  have b1: "wr (sh_buf s) ?l 0x80 = Some ?b1" using len buf by (simp add: wr_Some)
  have t1: "take (Suc ?l) ?b1 = rest @ [0x80]"
    using len buf pre(4) by (simp add: take_Suc_conv_app_nth)
  note pad = sha_pad_cut [OF pre(1,2), unfolded pre(3), OF len]
  show ?thesis
  proof (cases "?l \<le> 55")
    case True
    let ?B = "rest @ [0x80] @ replicate (55 - ?l) 0 @ ?bits"
    have B: "length ?B = 64" using True pre(3) by simp
    have f1: "wr_range ?b1 (Suc ?l) (replicate (56 - Suc ?l) 0)
        = Some (rest @ [0x80] @ replicate (55 - ?l) 0 @ drop 56 ?b1)"
      using True buf by (simp add: wr_range_Some t1)
    have f2: "wr_range (rest @ [0x80] @ replicate (55 - ?l) 0 @ drop 56 ?b1) 56 ?bits = Some ?B"
      using wr_range_seg [of 56 "rest @ [0x80] @ replicate (55 - ?l) 0" ?bits "drop 56 ?b1" "[]"] True buf pre(3)
      by simp
    have "sha_pad m = pre @ ?B" using pad True by simp
    then have d: "sha_digest sha256_transform m = sha_digest_bytes (sha256_transform (sh_state s) ?B)"
      unfolding pre(5) by (rule sha_digest_last [OF _ pre(2) B])
    have "sha256_final s = Some (sha_digest sha256_transform m,
        s\<lparr>sh_state := sha256_transform (sh_state s) ?B, sh_buf := ?B, sh_len := 64\<rparr>)"
      using True f1 f2 by (simp add: sha256_final_def b1 bits sha_fill_def d Let_def)
    then show ?thesis using B by auto
  next
    case False
    let ?B = "rest @ [0x80] @ replicate (63 - ?l) 0" let ?C = "replicate 56 0 @ ?bits"
    have B: "length ?B = 64" and C: "length ?C = 64" using False len pre(3) by simp_all
    have f1: "wr_range ?b1 (Suc ?l) (replicate (64 - Suc ?l) 0) = Some ?B"
      using len buf by (simp add: wr_range_Some t1)
    have f2: "wr_range ?B 0 (replicate 56 0) = Some (replicate 56 0 @ drop 56 ?B)"
      using wr_range_Some [of 0 "replicate 56 0" ?B] B by (simp only: length_replicate) simp
    have f3: "wr_range (replicate 56 0 @ drop 56 ?B) 56 ?bits = Some ?C"
      using wr_range_Some [of 56 ?bits "replicate 56 0 @ drop 56 ?B"] B
      by (simp only: length_append length_drop length_replicate length_bits_bytes) simp
    have z: "replicate (119 - ?l) (0 :: u8) = replicate (63 - ?l) 0 @ replicate 56 0"
    proof -
      have "119 - ?l = (63 - ?l) + 56" using len by simp
      then show ?thesis by (simp only: replicate_add)
    qed
    have "sha_pad m = (pre @ ?B) @ ?C" using pad False by (simp only: z if_False append_assoc)
    moreover have "length (pre @ ?B) = 64 * Suc n" using pre(2) B by simp
    ultimately have d: "sha_digest sha256_transform m
        = sha_digest_bytes (sha256_transform (sha256_transform (sh_state s) ?B) ?C)"
      using sha_digest_last [OF _ _ C, of m "pre @ ?B" "Suc n" sha256_transform]
      by (simp only: absorb_block [OF pre(2) B] pre(5))
    have l2: "56 < ?l + 1" using False by simp_all
    have "sha256_final s = Some (sha_digest sha256_transform m,
        s\<lparr>sh_state := sha256_transform (sha256_transform (sh_state s) ?B) ?C, sh_buf := ?C, sh_len := 64\<rparr>)"
      unfolding sha256_final_def b1 bits sha_fill_def d
      using l2 len f1 f2 f3 by (simp add: Let_def)
    then show ?thesis using C by auto
  qed
qed

text \<open>C29. For every way of cutting a message into the chunks of successive calls of
  \<^verbatim>\<open>sha256_update\<close>, initialisation, updates and \<^verbatim>\<open>sha256_final\<close> stay inside the 64-byte buffer and
  yield the one-shot digest of the padded message under the code's compression function; so does
  \<^verbatim>\<open>sha256\<close>, whatever the global context held before.\<close>

theorem sha256_streaming:
  assumes "length (sh_buf s) = 64"
  shows "(\<exists>s1 s2. sha256_updates cs (sha256_init s) = Some s1
      \<and> sha256_final s1 = Some (sha_digest sha256_transform (concat cs), s2))
    \<and> (\<exists>s2. sha256 m s = Some (sha_digest sha256_transform m, s2))"
proof (intro conjI)
  note i = sha256_init_absorbed [OF assms]
  have b: "sh_bits (sha256_init s) = of_nat (8 * length ([] :: bytes))" by (simp add: sha256_init_def)
  show "\<exists>s1 s2. sha256_updates cs (sha256_init s) = Some s1
      \<and> sha256_final s1 = Some (sha_digest sha256_transform (concat cs), s2)"
    using sha256_updates_absorb [OF i b, of cs] sha256_final_digest by force
  show "\<exists>s2. sha256 m s = Some (sha_digest sha256_transform m, s2)"
    using sha256_update_absorbs [OF i b, of m] sha256_final_digest by (force simp: sha256_def)
qed

theorem sha256_streaming_witness:
  "\<exists>s1 s2. sha256_updates [[1, 2], [], replicate 100 3]
      (sha256_init \<lparr>sh_state = [], sh_bits = 5, sh_buf = replicate 64 9, sh_len = 3\<rparr>) = Some s1
    \<and> sha256_final s1 = Some (sha_digest sha256_transform ([1, 2] @ replicate 100 3), s2)"
  using sha256_streaming [of "\<lparr>sh_state = [], sh_bits = 5, sh_buf = replicate 64 9, sh_len = 3\<rparr>"
      "[[1, 2], [], replicate 100 3]"] by (simp del: replicate.simps append_Cons)

end
