(* ===== verification/Modular.thy ===== *)
theory Modular
  imports Sha256 "HOL-Library.Signed_Division"
begin

unbundle bit_operations_syntax

text \<open>
  The number theory of \<^verbatim>\<open>kernel/crypto.c\<close>: \<^verbatim>\<open>mod_mul\<close>, \<^verbatim>\<open>mod_pow\<close> and \<^verbatim>\<open>mod_inv\<close> on 32-bit words and
  \<^verbatim>\<open>rsa_verify\<close>. Signed arithmetic that leaves the 32-bit range is \<open>None\<close>, as is a read of a byte
  that was never written.

  The lemmas show that \<^verbatim>\<open>mod_mul\<close> reduces its first argument and ignores the second, that
  \<^verbatim>\<open>mod_pow\<close> is constant, that \<^verbatim>\<open>mod_inv\<close> is the inverse without overflow, and that
  \<^verbatim>\<open>rsa_verify\<close> looks at every fourth byte of the signature only.
\<close>

section \<open>Multiplication and powers\<close>

fun mod_mul_loop :: "nat \<Rightarrow> u32 \<Rightarrow> u64 \<Rightarrow> u32 \<Rightarrow> u32 \<Rightarrow> u64" where
  "mod_mul_loop 0 m r a b = r"
| "mod_mul_loop (Suc n) m r a b =
     (let r = push_bit 1 r OR ucast (drop_bit 31 a AND 1);
          a = push_bit 1 a OR (drop_bit 31 b AND 1);
          b = push_bit 1 b;
          r = (if r \<ge> ucast m then r - ucast m else r)
      in mod_mul_loop n m r a b)"

definition mod_mul :: "u32 \<Rightarrow> u32 \<Rightarrow> u32 \<Rightarrow> u32" where
  "mod_mul a b m = ucast (mod_mul_loop 32 m 0 a b)"

function mod_pow_loop :: "u32 \<Rightarrow> u32 \<Rightarrow> u32 \<Rightarrow> u32 \<Rightarrow> u32" where
  "mod_pow_loop m r base ex =
     (if ex > 0 then
        mod_pow_loop m (if ex AND 1 \<noteq> 0 then mod_mul r base m else r) (mod_mul base base m) (drop_bit 1 ex)
      else r)"
  by pat_completeness auto
termination
proof (relation "measure (\<lambda>(m, r, base, ex). unat ex)")
  fix m r base ex :: u32 assume "0 < ex"
  then have "0 < unat ex" by (simp add: unat_gt_0)
  then show "((m, if ex AND 1 \<noteq> 0 then mod_mul r base m else r, mod_mul base base m, drop_bit 1 ex), m, r, base, ex)
      \<in> measure (\<lambda>(m, r, base, ex). unat ex)"
    by (simp add: drop_bit_eq_div unat_div_distrib)
qed simp

declare mod_pow_loop.simps [simp del]

definition mod_pow :: "u32 \<Rightarrow> u32 \<Rightarrow> u32 \<Rightarrow> u32" where
  "mod_pow base ex m = mod_pow_loop m 1 base ex"

section \<open>The inverse\<close>

definition int32 :: "int \<Rightarrow> int option" where
  "int32 x = (if - (2 ^ 31) \<le> x \<and> x < 2 ^ 31 then Some x else None)"

partial_function (option) mod_inv_loop :: "int \<Rightarrow> int \<Rightarrow> int \<Rightarrow> int \<Rightarrow> int option" where
  "mod_inv_loop t0 t1 r0 r1 =
     (if r1 = 0 then Some t0
      else do { q \<leftarrow> int32 (r0 sdiv r1);
                qt \<leftarrow> int32 (q * t1);
                nt \<leftarrow> int32 (t0 - qt);
                qr \<leftarrow> int32 (q * r1);
                nr \<leftarrow> int32 (r0 - qr);
                mod_inv_loop t1 nt r1 nr })"

definition mod_inv :: "u32 \<Rightarrow> u32 \<Rightarrow> u32 option" where
  "mod_inv a m =
     do { t \<leftarrow> mod_inv_loop 0 1 (sint m) (sint a);
          Some (if t < 0 then of_int t + m else of_int t) }"

section \<open>Signatures\<close>

fun rsa_k :: "u8 \<Rightarrow> u32 list \<Rightarrow> u32 \<Rightarrow> nat \<Rightarrow> nat list \<Rightarrow> u32 \<Rightarrow> u32 list \<Rightarrow> u32 list" where
  "rsa_k d nv new_val j [] low res = res"
| "rsa_k d nv new_val j (k # ks) low res =
     (let sum = (ucast (res ! k) :: u64) + ucast (nv ! k * new_val) + push_bit 32 (ucast low);
          low = ucast (drop_bit 32 sum);
          res = res[k := ucast sum]
      in if k = j \<and> low = 0 \<and> res ! k < ucast d then res else rsa_k d nv new_val j ks low res)"

fun rsa_j :: "u8 \<Rightarrow> u32 list \<Rightarrow> nat \<Rightarrow> nat list \<Rightarrow> u32 \<Rightarrow> u32 list \<Rightarrow> u32 list" where
  "rsa_j d nv nw [] carry res = res"
| "rsa_j d nv nw (j # js) carry res =
     (let prod = (ucast (res ! j) :: u64) * ucast d + ucast carry;
          new_val = ucast (drop_bit 32 prod);
          low = ucast prod
      in rsa_j d nv nw js new_val (rsa_k d nv new_val j [j ..< nw] low res))"

fun rsa_i :: "bytes \<Rightarrow> u32 list \<Rightarrow> nat \<Rightarrow> nat list \<Rightarrow> u32 list \<Rightarrow> u32 list" where
  "rsa_i dec nv nw [] res = res"
| "rsa_i dec nv nw (i # is) res =
     rsa_i dec nv nw is (rsa_j (dec ! (i * 4)) nv nw (rev [0 ..< nw]) 0 res)"

definition rsa_digest_info :: bytes where
  "rsa_digest_info =
    [48, 49, 48, 13, 6, 9, 96, 134, 72, 1, 101, 3, 4, 2, 1, 5, 0, 4, 32]"

text \<open>The check of the padding and of the digest, over the decoded bytes.\<close>

definition rsa_check :: "bytes \<Rightarrow> bytes \<Rightarrow> sha256_ctx \<Rightarrow> bool option" where
  "rsa_check msg rb s =
     do { b0 \<leftarrow> rd rb 0;
          b1 \<leftarrow> rd rb 1;
          if b0 \<noteq> 0 \<or> b1 \<noteq> 1 then Some False
          else (let ps_len = 2 + length (takeWhile (\<lambda>b. b = 0xFF) (drop 2 rb)) in
            do { z \<leftarrow> rd rb ps_len;
                 if z \<noteq> 0 then Some False
                 else (let di_off = ps_len + 1 in
                   if di_off + length rsa_digest_info + 32 > length rb then Some False
                   else if take (length rsa_digest_info) (drop di_off rb) \<noteq> rsa_digest_info then Some False
                   else do { (expected, s') \<leftarrow> sha256 msg s;
                             Some (take 32 (drop (di_off + length rsa_digest_info) rb) = expected) }) }) }"

definition rsa_verify :: "bytes \<Rightarrow> bytes \<Rightarrow> bytes \<Rightarrow> bytes \<Rightarrow> sha256_ctx \<Rightarrow> bool option" where
  "rsa_verify msg sig e n s =
     (if length sig \<noteq> length n then Some False
      else if length n > 512 then Some False
      else (let nw = length n div 4;
                res = rsa_i sig (load_words n) nw (rev [0 ..< nw]) (1 # replicate 127 0);
                rb = concat (map bytes32 (take nw res)) @ replicate (length n - 4 * nw) 0
            in rsa_check msg rb s))"

unbundle bit_operations_syntax

section \<open>What the multiplication computes\<close>

lemma top_bit: "drop_bit 31 (a :: u32) AND 1 = drop_bit 31 a"
  by (rule bit_word_eqI) (auto simp: bit_simps dest: bit_imp_le_length)

lemma unat_top_bit: "unat (drop_bit 31 (a :: u32) AND 1) = unat a div 2 ^ 31"
  by (simp only: top_bit) (simp add: drop_bit_eq_div unat_div_distrib)

lemma unat_shift_in: "unat (push_bit 1 (a :: u32) OR (drop_bit 31 b AND 1)) = 2 * (unat a mod 2 ^ 31) + unat b div 2 ^ 31"
proof -
  have "push_bit 1 a AND (drop_bit 31 b AND 1) = 0"
    by (rule bit_word_eqI) (auto simp: bit_simps bit_double_iff mult.commute [of a] dest: bit_imp_le_length)
  then have "push_bit 1 a OR (drop_bit 31 b AND 1) = push_bit 1 a + (drop_bit 31 b AND 1)"
    by (simp add: disjunctive_add_eq_or)
  moreover have "unat (push_bit 1 a) = 2 * (unat a mod 2 ^ 31)"
    using mult_mod_right [of 2 "unat a" "2 ^ 31"] by (simp add: push_bit_eq_mult unat_word_ariths mult.commute)
  moreover have "2 * (unat a mod 2 ^ 31) + unat b div 2 ^ 31 < 2 ^ 32"
  proof -
    have "unat b div 2 ^ 31 < 2" using unat_u32_less [of b] by (simp add: div_less_iff_less_mult)
    moreover have "unat a mod 2 ^ 31 < 2 ^ 31" by simp
    ultimately show ?thesis by simp
  qed
  ultimately show ?thesis using unat_top_bit [of b] by (simp add: unat_plus_lt)
qed

lemma unat_shift_in64:
  assumes "unat (r :: u64) < 2 ^ 32"
  shows "unat (push_bit 1 r OR ucast (drop_bit 31 (a :: u32) AND 1)) = 2 * unat r + unat a div 2 ^ 31"
proof -
  let ?t = "ucast (drop_bit 31 a AND 1) :: u64"
  have t: "unat ?t = unat a div 2 ^ 31"
    using unat_top_bit [of a] unat_u32_less [of "drop_bit 31 a AND 1"]
    by (simp add: unsigned_ucast_eq take_bit_eq_mod)
  have "push_bit 1 r AND ?t = 0"
    by (rule bit_word_eqI) (auto simp: bit_simps bit_double_iff mult.commute [of r] dest: bit_imp_le_length)
  then have "push_bit 1 r OR ?t = push_bit 1 r + ?t" by (simp add: disjunctive_add_eq_or)
  moreover have "unat (push_bit 1 r) = 2 * unat r"
    using assms by (simp add: push_bit_eq_mult unat_word_ariths mult.commute)
  moreover have "2 * unat r + unat a div 2 ^ 31 < 2 ^ 64"
    using assms unat_u32_less [of a] div_le_dividend [of "unat a" "2 ^ 31"] by simp
  ultimately show ?thesis using t by (simp add: unat_plus_lt)
qed

lemma bits_step:
  fixes A :: nat assumes "n \<le> 31" and that: "e < 2"
  shows "A div 2 ^ 31 * 2 ^ n + (2 * (A mod 2 ^ 31) + e) div 2 ^ (32 - n) = A div 2 ^ (31 - n)"
proof -
  obtain k where k: "31 - n = k" "31 = n + k" using assms by (metis le_add_diff_inverse)
  have e: "32 - n = Suc k" using k assms by simp
  have "(2 * (A mod 2 ^ 31) + e) div 2 ^ Suc k = (2 * (A mod 2 ^ 31) + e) div 2 div 2 ^ k"
    by (simp add: div_mult2_eq)
  also have "(2 * (A mod 2 ^ 31) + e) div 2 = A mod 2 ^ 31" using that by simp
  finally have l: "(2 * (A mod 2 ^ 31) + e) div 2 ^ Suc k = A mod 2 ^ 31 div 2 ^ k" .
  have "A div 2 ^ k = (A div 2 ^ 31 * 2 ^ 31 + A mod 2 ^ 31) div 2 ^ k" by simp
  also have "A div 2 ^ 31 * 2 ^ 31 = A div 2 ^ 31 * 2 ^ n * 2 ^ k"
    by (simp only: k(2) power_add mult.assoc)
  also have "(A div 2 ^ 31 * 2 ^ n * 2 ^ k + A mod 2 ^ 31) div 2 ^ k = A div 2 ^ 31 * 2 ^ n + A mod 2 ^ 31 div 2 ^ k"
    by simp
  finally show ?thesis by (simp only: e l k(1))
qed

lemma mod_mult_add: "((x mod m) * k + y) mod m = (x * k + y) mod (m :: nat)"
  by (metis mod_add_left_eq mod_mult_left_eq)

lemma no_bits:
  assumes "drop_bit 1 (x :: u32) = 0" and "x AND 1 = 0"
  shows "x = 0"
proof (rule bit_word_eqI)
  fix n
  have "bit x 0 = bit (x AND 1) 0" by (simp add: bit_and_iff)
  moreover have "bit x (Suc k) = bit (drop_bit 1 x) k" for k by (simp only: bit_drop_bit_eq comp_apply plus_1_eq_Suc)
  ultimately show "bit x n = bit (0 :: u32) n" using assms by (cases n) simp_all
qed

lemma mod_mul_loop_spec:
  "m \<noteq> 0 \<Longrightarrow> n \<le> 32 \<Longrightarrow> unat r < unat m \<Longrightarrow>
   unat (mod_mul_loop n m r a b) = (unat r * 2 ^ n + unat a div 2 ^ (32 - n)) mod unat m"
proof (induction n m r a b rule: mod_mul_loop.induct)
  case (1 m r a b)
  then show ?case using unat_u32_less [of a] by simp
next
  case (2 n m r a b)
  let ?t = "unat a div 2 ^ 31"
  let ?r = "push_bit 1 r OR ucast (drop_bit 31 a AND 1)"
  let ?a = "push_bit 1 a OR (drop_bit 31 b AND 1)"
  let ?r' = "if ?r \<ge> ucast m then ?r - ucast m else ?r"
  have m: "unat (ucast m :: u64) = unat m" 
    using unat_u32_less [of m] by (simp add: unsigned_ucast_eq take_bit_eq_mod)
  have rm: "unat r < 2 ^ 32" using 2(4) unat_u32_less [of m] by simp
  have r: "unat ?r = 2 * unat r + ?t" by (rule unat_shift_in64 [OF rm])
  have t: "?t < 2" "unat b div 2 ^ 31 < 2"
    using unat_u32_less [of a] unat_u32_less [of b] by (simp_all add: div_less_iff_less_mult)
  have r': "unat ?r' = unat ?r mod unat m"
  proof (cases "?r \<ge> ucast m")
    case True
    then have "unat m \<le> unat ?r" by (simp only: word_le_nat_alt m)
    moreover have "unat ?r - unat m < unat m" using r t 2(4) by linarith
    ultimately have "unat ?r mod unat m = unat ?r - unat m" by (simp add: le_mod_geq)
    then show ?thesis using True by (simp only: if_True unat_sub m)
  next
    case False
    then have "unat ?r < unat m" by (simp only: word_le_nat_alt m not_le)
    then show ?thesis using False by simp
  qed
  have lt: "unat ?r' < unat m" using r' 2(2) by (simp add: unat_gt_0)
  have "unat (mod_mul_loop (Suc n) m r a b) = unat (mod_mul_loop n m ?r' ?a (push_bit 1 b))"
    by (simp only: mod_mul_loop.simps Let_def)
  also have "\<dots> = (unat ?r' * 2 ^ n + unat ?a div 2 ^ (32 - n)) mod unat m"
    by (rule 2(1) [OF refl refl refl refl 2(2) _ lt]) (use 2(3) in simp)
  also have "\<dots> = (unat ?r * 2 ^ n + unat ?a div 2 ^ (32 - n)) mod unat m"
    unfolding r' by (rule mod_mult_add)
  also have "unat ?r * 2 ^ n + unat ?a div 2 ^ (32 - n)
      = unat r * 2 ^ Suc n + (?t * 2 ^ n + unat ?a div 2 ^ (32 - n))"
    unfolding r by (simp add: algebra_simps)
  also have "?t * 2 ^ n + unat ?a div 2 ^ (32 - n) = unat a div 2 ^ (31 - n)"
    unfolding unat_shift_in using 2(3) t(2) by (intro bits_step) simp_all
  also have "31 - n = 32 - Suc n" by simp
  finally show ?case .
qed

lemma mod_mul_first: "m \<noteq> 0 \<Longrightarrow> unat (mod_mul a b m) = unat a mod unat m"
proof -
  assume m: "m \<noteq> 0"
  then have l: "unat (mod_mul_loop 32 m 0 a b) = unat a mod unat m"
    using mod_mul_loop_spec [OF m, of 32 0 a b] by (simp add: unat_gt_0)
  have "unat a mod unat m < 2 ^ 32" using unat_u32_less [of a] mod_less_eq_dividend [of "unat a"] le_less_trans by blast
  then show ?thesis by (simp add: mod_mul_def unsigned_ucast_eq take_bit_eq_mod l)
qed

lemma mod_pow_loop_const:
  "m \<noteq> 0 \<Longrightarrow> unat r mod unat m = c \<Longrightarrow> unat (mod_pow_loop m r base ex) = (if ex = 0 then unat r else c)"
proof (induction m r base ex arbitrary: rule: mod_pow_loop.induct)
  case (1 m r base ex)
  show ?case
  proof (cases "ex = 0")
    case False
    then have pos: "0 < ex" by (simp add: word_gt_0)
    let ?r = "if ex AND 1 \<noteq> 0 then mod_mul r base m else r"
    have r: "unat ?r mod unat m = c" using 1(2) by (simp add: mod_mul_first 1(3) [symmetric])
    have one: "unat ?r = c" if "drop_bit 1 ex = 0"
    proof -
      have "ex AND 1 \<noteq> 0" using no_bits [OF that] False by blast
      then show ?thesis using 1(2) by (simp add: mod_mul_first 1(3) [symmetric])
    qed
    have "unat (mod_pow_loop m r base ex) = unat (mod_pow_loop m ?r (mod_mul base base m) (drop_bit 1 ex))"
      using pos by (subst mod_pow_loop.simps) simp
    also have "\<dots> = (if drop_bit 1 ex = 0 then unat ?r else c)" by (rule 1(1) [OF pos 1(2) r])
    finally show ?thesis using one False by simp
  qed (subst mod_pow_loop.simps, simp)
qed

text \<open>The multiplication never reads its second factor: for every modulus but 0 it returns its first
  argument reduced. So the modular power is 1 reduced, whatever the base and whatever the exponent
  but 0.\<close>

theorem mod_mul_ignores_factor:
  assumes "m \<noteq> 0"
  shows "unat (mod_mul a b m) = unat a mod unat m \<and> unat (mod_pow base ex m) = (if ex = 0 then 1 else 1 mod unat m)"
  using mod_mul_first [OF assms] mod_pow_loop_const [OF assms, of 1] by (simp_all add: mod_pow_def)

theorem mod_mul_ignores_factor_witness:
  "unat (mod_mul 5 7 35) = 5 \<and> unat (mod_pow 3 4 100) = 1"
  using mod_mul_ignores_factor [of 35 5 7] mod_mul_ignores_factor [of 100 0 0 3 4] by simp

section \<open>The inverse is one\<close>

text \<open>
  One step of Euclid's algorithm on the remainders and coefficients: opposite signs, the sum of
  the products stays the modulus, and both congruences hold.
\<close>

definition euclid_ok :: "int \<Rightarrow> int \<Rightarrow> int \<Rightarrow> int \<Rightarrow> int \<Rightarrow> int \<Rightarrow> bool" where
  "euclid_ok m a t0 t1 r0 r1 \<longleftrightarrow>
     0 \<le> r1 \<and> r1 < r0 \<and> r0 \<le> m \<and> gcd r0 r1 = 1 \<and> t0 * t1 \<le> 0 \<and> t1 \<noteq> 0
   \<and> r0 * \<bar>t1\<bar> + r1 * \<bar>t0\<bar> = m \<and> \<bar>t0\<bar> < m \<and> m dvd t0 * a - r0 \<and> m dvd t1 * a - r1"

lemma euclid_step:
  assumes ok: "euclid_ok m a t0 t1 r0 r1" and r1: "r1 \<noteq> 0"
  defines "q \<equiv> r0 div r1"
  shows "euclid_ok m a t1 (t0 - q * t1) r1 (r0 - q * r1)"
    and "\<bar>q * t1\<bar> \<le> m" and "\<bar>t0 - q * t1\<bar> \<le> m" and "0 \<le> q" "q * r1 \<le> r0" "q \<le> r0"
proof -
  have o: "0 < r1" "r1 < r0" "r0 \<le> m" "gcd r0 r1 = 1" "t0 * t1 \<le> 0" "t1 \<noteq> 0"
      "r0 * \<bar>t1\<bar> + r1 * \<bar>t0\<bar> = m" "m dvd t0 * a - r0" "m dvd t1 * a - r1"
    using ok r1 by (auto simp: euclid_ok_def)
  have rm: "r0 - q * r1 = r0 mod r1" by (simp add: q_def minus_div_mult_eq_mod)
  have q1: "1 \<le> q" using o(1,2) unfolding q_def by (metis int_one_le_iff_zero_less less_imp_le pos_imp_zdiv_pos_iff)
  show q0: "0 \<le> q" using q1 by simp
  show qr: "q * r1 \<le> r0" using rm o(1) by (smt (verit) pos_mod_sign)
  show ql: "q \<le> r0" using qr q0 o(1) by (smt (verit) mult_le_cancel_left1)
  have abs: "\<bar>t0 - q * t1\<bar> = \<bar>t0\<bar> + q * \<bar>t1\<bar>"
  proof (cases "0 \<le> t1")
    case True
    then have "t0 \<le> 0" using o(5,6) by (smt (verit) mult_pos_pos)
    moreover have "0 \<le> q * t1" using True q0 by simp
    ultimately show ?thesis using True by (simp add: abs_of_nonneg abs_of_nonpos)
  next
    case False
    then have "0 \<le> t0" using o(5) by (smt (verit) mult_neg_neg)
    moreover have "q * t1 \<le> 0" using False q0 by (simp add: mult_nonneg_nonpos)
    ultimately show ?thesis using False by (simp add: abs_if)
  qed
  have sum: "r1 * \<bar>t0 - q * t1\<bar> + (r0 - q * r1) * \<bar>t1\<bar> = m"
    using o(7) unfolding abs by (simp add: algebra_simps)
  have "r1 * \<bar>t0 - q * t1\<bar> \<le> m"
  proof -
    have "0 \<le> (r0 - q * r1) * \<bar>t1\<bar>" using rm pos_mod_sign [OF o(1), of r0] by simp
    then show ?thesis using sum by linarith
  qed
  moreover have "\<bar>t0 - q * t1\<bar> \<le> r1 * \<bar>t0 - q * t1\<bar>"
    using mult_right_mono [of 1 r1 "\<bar>t0 - q * t1\<bar>"] o(1) by simp
  ultimately show le: "\<bar>t0 - q * t1\<bar> \<le> m" by linarith
  then show "\<bar>q * t1\<bar> \<le> m" using abs q0 by (simp add: abs_mult)
  have t1: "\<bar>t1\<bar> < m"
  proof -
    have "2 * \<bar>t1\<bar> \<le> r0 * \<bar>t1\<bar>" using o(1,2) by (intro mult_right_mono) auto
    moreover have "0 \<le> r1 * \<bar>t0\<bar>" using o(1) by simp
    ultimately show ?thesis using o(6,7) by linarith
  qed
  have g: "gcd r1 (r0 - q * r1) = 1" using o(4) unfolding rm by (simp add: gcd.commute flip: gcd_red_int)
  have sg: "t1 * (t0 - q * t1) \<le> 0"
  proof -
    have "t1 * (t0 - q * t1) = t0 * t1 - q * (t1 * t1)" by (simp add: algebra_simps)
    moreover have "0 \<le> q * (t1 * t1)" using q0 by simp
    ultimately show ?thesis using o(5) by linarith
  qed
  have nz: "t0 - q * t1 \<noteq> 0"
  proof -
    have "0 < q * \<bar>t1\<bar>" using q1 o(6) by simp
    then show ?thesis using abs by linarith
  qed
  have dv: "m dvd (t0 - q * t1) * a - (r0 - q * r1)"
  proof -
    have "(t0 - q * t1) * a - (r0 - q * r1) = (t0 * a - r0) - q * (t1 * a - r1)"
      by (simp add: algebra_simps)
    then show ?thesis using o(8,9) by (simp only: dvd_diff dvd_mult)
  qed
  show "euclid_ok m a t1 (t0 - q * t1) r1 (r0 - q * r1)"
    unfolding euclid_ok_def
    using o(1-3) rm pos_mod_sign [OF o(1), of r0] pos_mod_bound [OF o(1), of r0] g sg nz sum t1 dv o(9)
    by (intro conjI) simp_all
qed

lemma mod_inv_loop_spec:
  "euclid_ok m a t0 t1 r0 r1 \<Longrightarrow> m < 2 ^ 31 \<Longrightarrow>
   \<exists>t. mod_inv_loop t0 t1 r0 r1 = Some t \<and> m dvd t * a - 1 \<and> \<bar>t\<bar> < m"
proof (induction "nat r1" arbitrary: t0 t1 r0 r1 rule: less_induct)
  case less
  show ?case
  proof (cases "r1 = 0")
    case True
    then have "r0 = 1" using less(2) by (auto simp: euclid_ok_def)
    then show ?thesis using True less(2) by (subst mod_inv_loop.simps) (auto simp: euclid_ok_def)
  next
    case False
    let ?q = "r0 div r1"
    note st = euclid_step [OF less(2) False]
    have r: "0 \<le> r0" "0 < r1" "r0 \<le> m" using less(2) False by (auto simp: euclid_ok_def)
    have small: "0 \<le> r0 - ?q * r1" "r0 - ?q * r1 < r1" using st(1) by (auto simp: euclid_ok_def)
    have "r1 < r0" using less(2) by (simp add: euclid_ok_def)
    then have small2: "r0 - ?q * r1 < 2 ^ 31" using small r(3) less(3) by linarith
    have "mod_inv_loop t0 t1 r0 r1 = mod_inv_loop t1 (t0 - ?q * t1) r1 (r0 - ?q * r1)"
      using False st(2-6) r less(3) small small2
      by (subst mod_inv_loop.simps) (simp add: sdiv_nonneg int32_def abs_le_iff)
    moreover have "nat (r0 - ?q * r1) < nat r1" using small r(2) by simp
    ultimately show ?thesis using less(1) [OF _ st(1) less(3)] by simp
  qed
qed

text \<open>For a unit below a modulus that fits a signed 32-bit word, the extended Euclidean loop of
  \<^verbatim>\<open>mod_inv\<close> ends, none of its signed operations overflows, and the result is the inverse, reduced.\<close>

theorem mod_inv_correct:
  assumes "0 < a" "a < m" and m: "unat m < 2 ^ 31" and cop: "coprime (unat a) (unat m)"
  shows "\<exists>x. mod_inv a m = Some x \<and> unat x < unat m \<and> (unat x * unat a) mod unat m = 1"
proof -
  let ?a = "int (unat a)" and ?m = "int (unat m)"
  have "0 < unat a" "unat a < unat m"
    using assms(1,2) by (simp_all add: word_less_nat_alt unat_gt_0 word_gt_0)
  then have a: "0 < ?a" "?a < ?m" by linarith+
  have s: "sint m = ?m" "sint a = ?a"
  proof -
    have "?m < 2 ^ 31" using m by (metis of_nat_less_iff of_nat_numeral of_nat_power)
    then show "sint m = ?m" "sint a = ?a" using a by (simp_all add: sint_uint signed_take_bit_int_eq_self_iff)
  qed
  have "euclid_ok ?m ?a 0 1 ?m ?a"
  proof -
    have "gcd ?m ?a = int (gcd (unat m) (unat a))" by (rule gcd_int_int_eq)
    also have "gcd (unat m) (unat a) = 1" using cop by (simp add: coprime_iff_gcd_eq_1 gcd.commute)
    finally have "gcd ?m ?a = 1" by simp
    then show ?thesis using a unfolding euclid_ok_def by (intro conjI) simp_all
  qed
  then obtain t where t: "mod_inv_loop 0 1 ?m ?a = Some t" "?m dvd t * ?a - 1" "\<bar>t\<bar> < ?m"
    using mod_inv_loop_spec m by (metis of_nat_less_iff of_nat_numeral of_nat_power)
  define u where "u = (if t < 0 then t + ?m else t)"
  let ?x = "word_of_int u :: u32"
  have u: "0 \<le> u" "u < ?m" using t(3) by (auto simp: u_def)
  have "?m < 2 ^ 31" using m by (metis of_nat_less_iff of_nat_numeral of_nat_power)
  then have u32: "u < 2 ^ 32" using u(2) by simp
  have x: "(if t < 0 then of_int t + m else of_int t) = ?x" by (simp add: u_def)
  have ux: "int (unat ?x) = u"
    using u(1) u32 by (simp add: uint_word_of_int take_bit_eq_mod)
  have "?m dvd u * ?a - 1"
    using t(2) by (auto simp: u_def algebra_simps)
  then have "?m dvd int (unat ?x * unat a) - 1" using ux by simp
  then have "int (unat ?x * unat a) mod ?m = 1 mod ?m" by (simp add: mod_eq_dvd_iff)
  then have "(unat ?x * unat a) mod unat m = 1 mod unat m" by (metis of_nat_1 of_nat_eq_iff of_nat_mod)
  moreover have "1 < unat m" using a by linarith
  moreover have "unat ?x < unat m" using ux u by linarith
  moreover have "mod_inv a m = Some ?x" using t(1) s by (simp add: mod_inv_def x [symmetric])
  ultimately show ?thesis by auto
qed

theorem mod_inv_correct_witness: "\<exists>x. mod_inv 3 7 = Some x \<and> unat x < 7 \<and> (unat x * 3) mod 7 = 1"
proof -
  have "coprime (3 :: nat) 7" by (simp add: coprime_iff_gcd_eq_1 gcd_non_0_nat)
  then show ?thesis using mod_inv_correct [of 3 7] by simp
qed

section \<open>What the signature check reads\<close>

text \<open>C32. \<^verbatim>\<open>rsa_verify\<close> examines only every fourth byte of a signature and never the exponent: two
  signatures of one length that agree at the positions divisible by 4 are both accepted or both
  refused, under any two exponents.\<close>

theorem rsa_verify_every_fourth_byte:
  assumes "length sig = length sig'" and "\<And>i. i < length n div 4 \<Longrightarrow> sig ! (4 * i) = sig' ! (4 * i)"
  shows "rsa_verify msg sig e n s = rsa_verify msg sig' e' n s"
proof -
  have "rsa_i sig nv nw is res = rsa_i sig' nv nw is res"
    if "\<forall>i \<in> set is. i < length n div 4" for nv nw "is" res
    using that assms(2) by (induction sig nv nw "is" res rule: rsa_i.induct) (simp_all add: mult.commute)
  then show ?thesis using assms(1) by (simp add: rsa_verify_def Let_def)
qed

theorem rsa_verify_every_fourth_byte_witness:
  "rsa_verify [1] [1, 2, 3, 4, 5, 6, 7, 8] [3] [9, 9, 9, 9, 9, 9, 9, 9] \<lparr>sh_state = [], sh_bits = 0, sh_buf = [], sh_len = 0\<rparr>
   = rsa_verify [1] [1, 0, 0, 0, 5, 0, 0, 0] [1, 0, 1] [9, 9, 9, 9, 9, 9, 9, 9]
      \<lparr>sh_state = [], sh_bits = 0, sh_buf = [], sh_len = 0\<rparr>"
  by (rule rsa_verify_every_fourth_byte) (auto simp: less_Suc_eq numeral_2_eq_2)

end
