(* ===== verification/Interrupts.thy ===== *)
theory Interrupts
  imports Sol_Prelude
begin

text \<open>
  Interrupt delivery: the interrupt controller of \<^verbatim>\<open>kernel/arch/x86_64/pic.c\<close> (its port writes,
  as pairs of port and value, in order), the gates, the vector table and the shared-line
  multiplexer of \<^verbatim>\<open>kernel/arch/x86_64/idt.c\<close>, and the tick handler of
  \<^verbatim>\<open>kernel/arch/x86_64/timer.c\<close>. The nodes that drivers register on a shared line are linked
  through their own memory, so they are an explicit store, and the loop that runs them is partial:
  it does not end on a cycle.
\<close>

section \<open>The interrupt controller\<close>

type_synonym port_writes = "(u16 \<times> u8) list"

definition PIC1_CMD :: u16 where "PIC1_CMD = 0x20"
definition PIC1_DATA :: u16 where "PIC1_DATA = 0x21"
definition PIC2_CMD :: u16 where "PIC2_CMD = 0xA0"
definition PIC2_DATA :: u16 where "PIC2_DATA = 0xA1"

definition io_wait :: port_writes where
  "io_wait = [(0x80, 0)]"

definition pic_remap :: port_writes where
  "pic_remap =
     [(PIC1_CMD, 0x10 OR 0x01)] @ io_wait @ [(PIC2_CMD, 0x10 OR 0x01)] @ io_wait
     @ [(PIC1_DATA, 0x20)] @ io_wait @ [(PIC2_DATA, 0x28)] @ io_wait
     @ [(PIC1_DATA, 4)] @ io_wait @ [(PIC2_DATA, 2)] @ io_wait
     @ [(PIC1_DATA, 0x01)] @ io_wait @ [(PIC2_DATA, 0x01)] @ io_wait
     @ [(PIC1_DATA, 0xFB), (PIC2_DATA, 0xFF)]"

definition pic_send_eoi :: "u8 \<Rightarrow> port_writes" where
  "pic_send_eoi irq = (if irq \<ge> 8 then [(PIC2_CMD, 0x20)] else []) @ [(PIC1_CMD, 0x20)]"

text \<open>\<open>inb\<close> is what the mask registers read.\<close>

definition pic_unmask_irq :: "(u16 \<Rightarrow> u8) \<Rightarrow> u8 \<Rightarrow> port_writes" where
  "pic_unmask_irq inb irq =
     (let port = (if irq < 8 then PIC1_DATA else PIC2_DATA);
          line = (if irq < 8 then irq else irq - 8)
      in [(port, inb port AND NOT (push_bit (unat line) 1))])"

section \<open>Gates and vectors\<close>

record idt_entry =
  offset_low :: u16
  selector :: u16
  ist :: u8
  type_attr :: u8
  offset_mid :: u16
  offset_high :: u32
  entry_zero :: u32

definition idt_set_entry :: "u64 \<Rightarrow> u8 \<Rightarrow> idt_entry" where
  "idt_set_entry addr attr =
     \<lparr>offset_low = ucast (addr AND 0xFFFF), selector = 0x08, ist = 0, type_attr = attr,
      offset_mid = ucast (drop_bit 16 addr AND 0xFFFF),
      offset_high = ucast (drop_bit 32 addr AND 0xFFFFFFFF), entry_zero = 0\<rparr>"

text \<open>The address a gate stands for, as the processor puts it together.\<close>

definition gate_target :: "idt_entry \<Rightarrow> u64" where
  "gate_target e = push_bit 32 (ucast (offset_high e)) OR push_bit 16 (ucast (offset_mid e))
     OR ucast (offset_low e)"

text \<open>
  A vector's handler is the multiplexer or some driver function, known by its address. \<open>0\<close> is the
  null pointer for nodes.
\<close>

datatype handler = Irq_generic | Driver u64

record irq_node =
  in_fn :: u64
  in_ctx :: u64
  in_next :: nat

record idt_state =
  handlers :: "u8 \<Rightarrow> handler option"
  irq_nodes :: "nat list"
  irq_store :: "nat \<Rightarrow> irq_node option"

definition IRQ_COUNT :: nat where "IRQ_COUNT = 16"

definition idt_empty :: idt_state where
  "idt_empty = \<lparr>handlers = (\<lambda>_. None), irq_nodes = replicate IRQ_COUNT 0, irq_store = (\<lambda>_. None)\<rparr>"

definition idt_register_handler :: "u8 \<Rightarrow> handler \<Rightarrow> idt_state \<Rightarrow> idt_state" where
  "idt_register_handler n h s = s\<lparr>handlers := (handlers s)(n := Some h)\<rparr>"

definition idt_register_irq_handler ::
    "u8 \<Rightarrow> u64 \<Rightarrow> u64 \<Rightarrow> nat \<Rightarrow> idt_state \<Rightarrow> bool \<times> idt_state" where
  "idt_register_irq_handler irq fn ctx node s =
     (if unat irq \<ge> IRQ_COUNT then (False, s)
      else (let existing = handlers s (32 + irq) in
        if existing \<noteq> None \<and> existing \<noteq> Some Irq_generic then (False, s)
        else (let s1 = s\<lparr>irq_store := (irq_store s)(node \<mapsto>
                        \<lparr>in_fn = fn, in_ctx = ctx, in_next = irq_nodes s ! unat irq\<rparr>),
                        irq_nodes := (irq_nodes s)[unat irq := node]\<rparr>
              in (True, idt_register_handler (32 + irq) Irq_generic s1))))"

text \<open>The calls the multiplexer makes, in order.\<close>

partial_function (option) irq_walk ::
    "(nat \<Rightarrow> irq_node option) \<Rightarrow> nat \<Rightarrow> (u64 \<times> u64) list \<Rightarrow> (u64 \<times> u64) list option" where
  "irq_walk st n calls =
     (if n = 0 then Some calls
      else case st n of
        None \<Rightarrow> None
      | Some node \<Rightarrow> irq_walk st (in_next node) (calls @ [(in_fn node, in_ctx node)]))"

definition irq_generic_dispatch :: "u64 \<Rightarrow> idt_state \<Rightarrow> ((u64 \<times> u64) list \<times> port_writes) option" where
  "irq_generic_dispatch int_no s =
     (let irq = (ucast (int_no - 32) :: u8) in
      do { calls \<leftarrow> (if unat irq < IRQ_COUNT then irq_walk (irq_store s) (irq_nodes s ! unat irq) []
                    else Some []);
           Some (calls, pic_send_eoi irq) })"

text \<open>\<^verbatim>\<open>interrupt_dispatch\<close>: a driver's function, the multiplexer, or the panic handler.\<close>

datatype dispatched =
    Called u64
  | Shared "(u64 \<times> u64) list" port_writes
  | Panic

definition interrupt_dispatch :: "u8 \<Rightarrow> idt_state \<Rightarrow> dispatched option" where
  "interrupt_dispatch int_no s =
     (case handlers s int_no of
        Some (Driver f) \<Rightarrow> Some (Called f)
      | Some Irq_generic \<Rightarrow>
          do { (calls, eoi) \<leftarrow> irq_generic_dispatch (ucast int_no) s; Some (Shared calls eoi) }
      | None \<Rightarrow> Some Panic)"

section \<open>The timer\<close>

definition timer_handler :: "u64 \<Rightarrow> u64 \<times> port_writes" where
  "timer_handler ticks = (ticks + 1, pic_send_eoi 0)"

text \<open>\<^verbatim>\<open>timer_init\<close>: the divisor of the PIT clock; a frequency of 0 divides by zero.\<close>

definition timer_init :: "u32 \<Rightarrow> (u16 \<Rightarrow> u8) \<Rightarrow> idt_state \<Rightarrow> (idt_state \<times> port_writes) option" where
  "timer_init hz inb s =
     (if hz = 0 then None
      else (let d = 1193182 div hz in
        Some (idt_register_handler 32 (Driver 0) s,
          [(0x43, 0x36), (0x40, ucast (d AND 0xFF)), (0x40, ucast (drop_bit 8 d AND 0xFF))]
          @ pic_unmask_irq inb 0)))"

section \<open>The nodes of a line\<close>









section \<open>Registration sequences\<close>






section \<open>Properties\<close>



text \<open>A vector that a driver owns directly is never taken over: registering on its line fails
  and changes nothing.\<close>

theorem irq_never_stolen:
  assumes "handlers s (32 + irq) = Some (Driver f)"
  shows "idt_register_irq_handler irq fn ctx node s = (False, s)
    \<and> interrupt_dispatch (32 + irq) s = Some (Called f)"
  using assms by (simp add: idt_register_irq_handler_def interrupt_dispatch_def)

theorem irq_never_stolen_witness:
  "interrupt_dispatch 33 (snd (idt_register_irq_handler 1 5 6 8
     (idt_register_handler 33 (Driver 99) idt_empty))) = Some (Called 99)"
  using irq_never_stolen [of "idt_register_handler 33 (Driver 99) idt_empty" 1 99 5 6 8]
  by (simp add: idt_register_handler_def)

text \<open>Unmasking a line clears that line's bit of its controller's mask and leaves the seven
  others as they were.\<close>

theorem pic_unmask_exact:
  assumes "irq < 16" and "n < 8"
  shows "\<exists>port v. pic_unmask_irq inb irq = [(port, v)] \<and> port = (if irq < 8 then PIC1_DATA else PIC2_DATA)
    \<and> bit v n = (bit (inb port) n \<and> n \<noteq> unat irq mod 8)"
proof -
  have "irq < 8 \<Longrightarrow> unat irq mod 8 = unat irq"
    by (simp add: word_less_nat_alt)
  moreover have "\<not> irq < 8 \<Longrightarrow> unat irq mod 8 = unat (irq - 8)"
  proof -
    assume "\<not> irq < 8"
    then have "unat (irq - 8) = unat irq - 8" and "8 \<le> unat irq" and "unat irq < 16"
      using assms(1) by (auto simp: unat_sub word_less_nat_alt word_le_nat_alt)
    then show ?thesis by (simp add: mod_if)
  qed
  ultimately show ?thesis
    using assms(2) by (auto simp: pic_unmask_irq_def Let_def bit_simps)
qed

theorem pic_unmask_exact_witness:
  "\<exists>v. pic_unmask_irq (\<lambda>_. 0xFF) 12 = [(PIC2_DATA, v)] \<and> \<not> bit v 4"
  using pic_unmask_exact [of 12 4 "\<lambda>_. 0xFF"] by auto

text \<open>A gate stands for the address of the stub it was made from, in the kernel's code segment.\<close>

theorem idt_gate_address:
  "gate_target (idt_set_entry addr attr) = addr \<and> selector (idt_set_entry addr attr) = 0x08
   \<and> type_attr (idt_set_entry addr attr) = attr"
proof -
  have "gate_target (idt_set_entry addr attr) = addr"
  proof (rule bit_word_eqI)
    fix n assume "n < LENGTH(64)"
    have m: "(0xFFFF :: u64) = mask 16" "(0xFFFFFFFF :: u64) = mask 32"
      by (simp_all add: mask_eq_exp_minus_1)
    show "bit (gate_target (idt_set_entry addr attr)) n = bit addr n"
      unfolding gate_target_def idt_set_entry_def m
      using \<open>n < LENGTH(64)\<close>
      by (cases "n < 16"; cases "n < 32") (auto simp: bit_simps)
  qed
  then show ?thesis by (simp add: idt_set_entry_def)
qed

end
