(* ===== verification/Mouse.thy ===== *)
theory Mouse
  imports Interrupts
begin

text \<open>
  The PS/2 mouse, \<^verbatim>\<open>kernel/arch/x86_64/mouse.c\<close>: assembly of three-byte packets in the interrupt
  handler and the accumulated movement that \<^verbatim>\<open>mouse_get_delta\<close> drains. The handler returns the
  new state and the port writes it makes to the interrupt controller. Movement is kept in 32-bit
  words, which wrap.
\<close>

record mouse =
  mouse_packet :: bytes
  mouse_cycle :: nat
  mouse_dx :: u32
  mouse_dy :: u32
  mouse_buttons :: u8
  mouse_events :: u64
  mouse_packets :: u64
  mouse_irqs :: u64

definition mouse_start :: mouse where
  "mouse_start = \<lparr>mouse_packet = [0, 0, 0], mouse_cycle = 0, mouse_dx = 0, mouse_dy = 0,
     mouse_buttons = 0, mouse_events = 0, mouse_packets = 0, mouse_irqs = 0\<rparr>"

definition mouse_handler :: "u8 \<Rightarrow> mouse \<Rightarrow> mouse \<times> port_writes" where
  "mouse_handler b m =
     (let m = m\<lparr>mouse_irqs := mouse_irqs m + 1\<rparr> in
      if mouse_cycle m = 0 then
        (if b AND 0x08 = 0 then (m, [])
         else (m\<lparr>mouse_packet := (mouse_packet m)[0 := b], mouse_cycle := 1\<rparr>, pic_send_eoi 12))
      else if mouse_cycle m = 1 then
        (m\<lparr>mouse_packet := (mouse_packet m)[1 := b], mouse_cycle := 2\<rparr>, pic_send_eoi 12)
      else
        (let pkt = (mouse_packet m)[2 := b];
             dx = (if pkt ! 0 AND 0x40 \<noteq> 0 then 0 else pkt ! 1);
             dy = (if pkt ! 0 AND 0x80 \<noteq> 0 then 0 else pkt ! 2)
         in (m\<lparr>mouse_packet := pkt, mouse_cycle := 0,
               mouse_buttons := pkt ! 0 AND 0x07,
               mouse_dx := mouse_dx m + scast dx,
               mouse_dy := mouse_dy m + scast dy,
               mouse_events := mouse_events m + 1,
               mouse_packets := mouse_packets m + 1\<rparr>, pic_send_eoi 12)))"

definition mouse_get_delta :: "mouse \<Rightarrow> (u32 \<times> u32 \<times> u8 \<times> bool) \<times> mouse" where
  "mouse_get_delta m =
     ((mouse_dx m, mouse_dy m, mouse_buttons m, 0 < mouse_events m),
      m\<lparr>mouse_dx := 0, mouse_dy := 0, mouse_events := 0\<rparr>)"

section \<open>Streams of bytes\<close>

fun mouse_run :: "bytes \<Rightarrow> mouse \<Rightarrow> mouse \<times> port_writes" where
  "mouse_run [] m = (m, [])"
| "mouse_run (b # bs) m =
     (let (m1, w1) = mouse_handler b m; (m2, w2) = mouse_run bs m1 in (m2, w1 @ w2))"

lemma mouse_run_append:
  "mouse_run (xs @ ys) m =
     (let (m1, w1) = mouse_run xs m; (m2, w2) = mouse_run ys m1 in (m2, w1 @ w2))"
  by (induction xs arbitrary: m) (auto split: prod.splits)

text \<open>A packet: three bytes, the first with the sync bit. Its movement is what the header says.\<close>

type_synonym packet = "u8 \<times> u8 \<times> u8"

fun packet_ok :: "packet \<Rightarrow> bool" where
  "packet_ok (b0, b1, b2) \<longleftrightarrow> b0 AND 0x08 \<noteq> 0"

fun packet_bytes :: "packet \<Rightarrow> bytes" where
  "packet_bytes (b0, b1, b2) = [b0, b1, b2]"

fun packet_dx :: "packet \<Rightarrow> u32" where
  "packet_dx (b0, b1, b2) = (if b0 AND 0x40 \<noteq> 0 then 0 else scast b1)"

fun packet_dy :: "packet \<Rightarrow> u32" where
  "packet_dy (b0, b1, b2) = (if b0 AND 0x80 \<noteq> 0 then 0 else scast b2)"

lemma mouse_run_packet:
  assumes "mouse_cycle m = 0" and "length (mouse_packet m) = 3" and "packet_ok p"
  shows "\<exists>m'. mouse_run (packet_bytes p) m = (m', pic_send_eoi 12 @ pic_send_eoi 12 @ pic_send_eoi 12)
    \<and> mouse_cycle m' = 0 \<and> length (mouse_packet m') = 3
    \<and> mouse_dx m' = mouse_dx m + packet_dx p \<and> mouse_dy m' = mouse_dy m + packet_dy p
    \<and> mouse_packets m' = mouse_packets m + 1
    \<and> mouse_buttons m' = fst p AND 0x07"
proof -
  obtain b0 b1 b2 where p: "p = (b0, b1, b2)" by (cases p) auto
  obtain x y z where pk: "mouse_packet m = [x, y, z]"
    using assms(2) by (auto simp: numeral_3_eq_3 length_Suc_conv)
  show ?thesis using assms pk by (simp add: p mouse_handler_def Let_def)
qed

section \<open>Interrupts and reads interleaved\<close>

datatype mouse_op = Move packet | Read

fun mouse_ops :: "mouse_op list \<Rightarrow> mouse \<Rightarrow> (u32 \<times> u32) list \<times> mouse" where
  "mouse_ops [] m = ([], m)"
| "mouse_ops (Move p # ops) m = mouse_ops ops (fst (mouse_run (packet_bytes p) m))"
| "mouse_ops (Read # ops) m =
     (let ((dx, dy, _, _), m1) = mouse_get_delta m; (out, m2) = mouse_ops ops m1
      in ((dx, dy) # out, m2))"

fun moves :: "mouse_op list \<Rightarrow> packet list" where
  "moves [] = []"
| "moves (Move p # ops) = p # moves ops"
| "moves (Read # ops) = moves ops"

lemma mouse_ops_sum:
  assumes "mouse_cycle m = 0" and "length (mouse_packet m) = 3" and "\<forall>p \<in> set (moves ops). packet_ok p"
    and "mouse_ops ops m = (out, m')"
  shows "sum_list (map fst out) + mouse_dx m' = mouse_dx m + sum_list (map packet_dx (moves ops))
    \<and> sum_list (map snd out) + mouse_dy m' = mouse_dy m + sum_list (map packet_dy (moves ops))"
  using assms
proof (induction ops arbitrary: m out)
  case Nil
  then show ?case by simp
next
  case (Cons x ops)
  show ?case
  proof (cases x)
    case (Move p)
    obtain m1 where m1: "mouse_run (packet_bytes p) m = (m1, pic_send_eoi 12 @ pic_send_eoi 12 @ pic_send_eoi 12)"
      "mouse_cycle m1 = 0" "length (mouse_packet m1) = 3"
      "mouse_dx m1 = mouse_dx m + packet_dx p" "mouse_dy m1 = mouse_dy m + packet_dy p"
      using mouse_run_packet [OF Cons.prems(1,2), of p] Cons.prems(3) Move by auto
    from Cons.IH [OF m1(2,3)] Cons.prems(3,4) Move m1 show ?thesis by (simp add: add.assoc)
  next
    case Read
    let ?m = "m\<lparr>mouse_dx := 0, mouse_dy := 0, mouse_events := 0\<rparr>"
    obtain o1 where o1: "mouse_ops ops ?m = (o1, m')" "out = (mouse_dx m, mouse_dy m) # o1"
      using Cons.prems(4) Read by (auto simp: mouse_get_delta_def split: prod.splits)
    from Cons.IH [OF _ _ _ o1(1)] Cons.prems Read o1(2) show ?thesis
      by (simp add: add.assoc)
  qed
qed

section \<open>Properties\<close>

text \<open>No movement is lost or counted twice: for packets and reads in any order, the movement
  the reads returned and the movement still pending add up to the movement of the packets, where
  an axis whose overflow flag is set counts as 0.\<close>

theorem mouse_movement_conserved:
  assumes "\<forall>p \<in> set (moves ops). packet_ok p" and "mouse_ops ops mouse_start = (out, m)"
  shows "sum_list (map fst out) + mouse_dx m = sum_list (map packet_dx (moves ops))
    \<and> sum_list (map snd out) + mouse_dy m = sum_list (map packet_dy (moves ops))"
  using mouse_ops_sum [of mouse_start ops out m] assms by (simp add: mouse_start_def)

theorem mouse_movement_conserved_witness:
  "\<exists>out m. mouse_ops [Move (0x08, 5, 0xFF), Read, Move (0x48, 9, 2), Read] mouse_start = (out, m)
     \<and> sum_list (map fst out) + mouse_dx m = 5 \<and> sum_list (map snd out) + mouse_dy m = 1"
proof -
  obtain out m where r: "mouse_ops [Move (0x08, 5, 0xFF), Read, Move (0x48, 9, 2), Read] mouse_start
      = (out, m)" by fastforce
  have "(scast (5 :: u8) :: u32) = 5" "(scast (0xFF :: u8) :: u32) = - 1" "(scast (2 :: u8) :: u32) = 2"
    by code_simp+
  then show ?thesis using mouse_movement_conserved [OF _ r] r by simp
qed

text \<open>A byte that arrives at the start of a packet without the sync bit is dropped, but the
  handler then returns without acknowledging the interrupt, as it does after every other byte.\<close>

theorem mouse_sync_no_eoi:
  assumes "mouse_cycle m = 0"
  shows "snd (mouse_handler b m) = (if b AND 0x08 = 0 then [] else pic_send_eoi 12)
    \<and> (b AND 0x08 = 0 \<longrightarrow> fst (mouse_handler b m) = m\<lparr>mouse_irqs := mouse_irqs m + 1\<rparr>)"
  using assms by (simp add: mouse_handler_def Let_def)

theorem mouse_sync_no_eoi_witness:
  "snd (mouse_handler 0x00 mouse_start) = [] \<and> snd (mouse_handler 0x08 mouse_start) \<noteq> []"
  using mouse_sync_no_eoi [of mouse_start 0] mouse_sync_no_eoi [of mouse_start 8]
  by (simp add: mouse_start_def pic_send_eoi_def)

end
