(* ===== verification/Inet.thy ===== *)
theory Inet
  imports Sol_Prelude
begin

text \<open>
  The Internet checksum, which \<^verbatim>\<open>kernel/netstack.c\<close> (\<^verbatim>\<open>csum\<close>, \<^verbatim>\<open>pseudo\<close>) and
  \<^verbatim>\<open>kernel/drivers/virtio/virtio_net.c\<close> (\<^verbatim>\<open>ip_checksum\<close>) each implement. The 32-bit running sum is a
  natural number with the wrap-around written out. The lemmas show that inserting the checksum
  makes a buffer verify.
\<close>

definition be16 :: "u8 \<Rightarrow> u8 \<Rightarrow> nat" where
  "be16 a b = unat a * 256 + unat b"

fun sum16 :: "bytes \<Rightarrow> nat \<Rightarrow> nat" where
  "sum16 [] s = s"
| "sum16 [a] s = (s + unat a * 256) mod 2 ^ 32"
| "sum16 (a # b # r) s = sum16 r ((s + be16 a b) mod 2 ^ 32)"

function fold16 :: "nat \<Rightarrow> nat" where
  "fold16 s = (if s div 65536 \<noteq> 0 then fold16 (s mod 65536 + (s div 65536) mod 65536) else s)"
  by pat_completeness auto
termination
proof (relation "measure id")
  fix s :: nat assume "s div 65536 \<noteq> 0"
  moreover have "(s div 65536) mod 65536 \<le> s div 65536" by simp
  moreover have "x < x * 65536" if "x \<noteq> 0" for x :: nat using that by (cases x) simp_all
  ultimately have "(s div 65536) mod 65536 < s div 65536 * 65536" by (meson le_less_trans)
  then show "(s mod 65536 + (s div 65536) mod 65536, s) \<in> measure id"
    using div_mult_mod_eq [of s 65536] by (simp only: in_measure id_apply)
qed simp

declare fold16.simps [simp del]

definition csum :: "bytes \<Rightarrow> nat \<Rightarrow> u16" where
  "csum data extra = of_nat (65535 - fold16 (sum16 data extra))"

definition ip_checksum :: "bytes \<Rightarrow> u16" where
  "ip_checksum data = of_nat (65535 - fold16 (sum16 data 0))"

text \<open>The folded sum of the TCP or UDP pseudo header; addresses are lists of four bytes.\<close>

definition pseudo :: "bytes \<Rightarrow> bytes \<Rightarrow> u8 \<Rightarrow> u16 \<Rightarrow> nat" where
  "pseudo src dst proto tlen =
     fold16 (be16 (src ! 0) (src ! 1) + be16 (src ! 2) (src ! 3)
       + be16 (dst ! 0) (dst ! 1) + be16 (dst ! 2) (dst ! 3) + unat proto + unat tlen)"

section \<open>The sum of a buffer\<close>

fun total16 :: "bytes \<Rightarrow> nat" where
  "total16 [] = 0"
| "total16 [a] = unat a * 256"
| "total16 (a # b # r) = be16 a b + total16 r"

lemma be16_less: "be16 a b < 65536"
  using unat_u8_less [of a] unat_u8_less [of b] by (simp add: be16_def)

lemma total16_bound: "total16 data \<le> 65535 * length data"
proof (induction data rule: total16.induct)
  case (2 a)
  then show ?case using unat_u8_less [of a] by simp
next
  case (3 a b r)
  then show ?case using be16_less [of a b] by simp
qed simp

lemma sum16_total: "s + total16 data < 2 ^ 32 \<Longrightarrow> sum16 data s = s + total16 data"
  by (induction data s rule: sum16.induct) (simp_all add: add.assoc)

lemma fold16_le: "fold16 s \<le> 65535"
proof (induction s rule: fold16.induct)
  case (1 s)
  then show ?case by (subst fold16.simps) (auto simp: div_eq_0_iff)
qed

lemma fold16_mod: "s < 2 ^ 32 \<Longrightarrow> fold16 s mod 65535 = s mod 65535"
proof (induction s rule: fold16.induct)
  case (1 s)
  show ?case
  proof (cases "s div 65536 = 0")
    case True
    then show ?thesis by (subst fold16.simps) simp
  next
    case False
    have small: "s div 65536 < 65536" using 1(2) by (simp add: div_less_iff_less_mult)
    let ?t = "s mod 65536 + (s div 65536) mod 65536"
    have t: "?t = s mod 65536 + s div 65536" using small by simp
    have "?t < 2 ^ 32" using small mod_less_divisor [of 65536 s] unfolding t by simp
    then have "fold16 s mod 65535 = ?t mod 65535"
      using 1(1) False by (subst fold16.simps) simp
    also have "?t mod 65535 = (?t + 65535 * (s div 65536)) mod 65535" by simp
    also have "?t + 65535 * (s div 65536) = s"
      using div_mult_mod_eq [of s 65536] unfolding t by simp
    finally show ?thesis .
  qed
qed

lemma fold16_zero: "s < 2 ^ 32 \<Longrightarrow> fold16 s = 0 \<longleftrightarrow> s = 0"
proof (induction s rule: fold16.induct)
  case (1 s)
  show ?case
  proof (cases "s div 65536 = 0")
    case True
    then show ?thesis by (subst fold16.simps) simp
  next
    case False
    have small: "s div 65536 < 65536" using 1(2) by (simp add: div_less_iff_less_mult)
    then have "s mod 65536 + (s div 65536) mod 65536 < 2 ^ 32"
      using mod_less_divisor [of 65536 s] by simp
    then have "fold16 s = 0 \<longleftrightarrow> s mod 65536 + (s div 65536) mod 65536 = 0"
      using 1(1) False by (subst fold16.simps) simp
    then show ?thesis using False small by auto
  qed
qed

text \<open>A sum that is a positive multiple of 65535 folds to 65535.\<close>

lemma fold16_full:
  assumes "s < 2 ^ 32" and "0 < s" and "s mod 65535 = 0"
  shows "fold16 s = 65535"
proof -
  have "fold16 s mod 65535 = 0" and "fold16 s \<noteq> 0" and "fold16 s \<le> 65535"
    using fold16_mod [OF assms(1)] fold16_zero [OF assms(1)] fold16_le assms by auto
  then show ?thesis by (metis le_neq_implies_less mod_less)
qed

lemma total16_update:
  "even k \<Longrightarrow> k + 1 < length data \<Longrightarrow>
   total16 (data[k := a, k + 1 := b]) + be16 (data ! k) (data ! (k + 1)) = total16 data + be16 a b"
proof (induction data arbitrary: k rule: total16.induct)
  case (3 x y r)
  show ?case
  proof (cases "k = 0")
    case True
    then show ?thesis by simp
  next
    case False
    then obtain j where j: "k = Suc (Suc j)" using 3(2) by (metis One_nat_def even_Suc not0_implies_Suc odd_one)
    then show ?thesis using 3 by simp
  qed
qed simp_all

lemma be16_split: "be16 (ucast (drop_bit 8 v)) (ucast v) = unat (v :: u16)"
proof -
  have "unat (ucast (drop_bit 8 v) :: u8) = unat v div 256"
    using unat_u16_less [of v]
    by (simp add: unsigned_ucast_eq unsigned_drop_bit_eq drop_bit_eq_div take_bit_eq_mod div_less_iff_less_mult
        unat_div_distrib)
  moreover have "unat (ucast v :: u8) = unat v mod 256"
    by (simp add: unsigned_ucast_eq take_bit_eq_mod)
  ultimately show ?thesis using div_mult_mod_eq [of "unat v" 256] by (simp add: be16_def)
qed

lemma unat_csum: "unat (csum data extra) = 65535 - fold16 (sum16 data extra)"
  by (simp add: csum_def unat_of_nat_lt)

lemma ip_checksum_csum: "ip_checksum data = csum data 0"
  by (simp add: ip_checksum_def csum_def)

text \<open>Writing the checksum of a buffer whose checksum field is zero makes the buffer verify.\<close>

lemma csum_insert:
  assumes k: "even k" "k + 1 < length data" and zero: "data ! k = 0" "data ! (k + 1) = 0"
    and len: "length data \<le> 60000" "extra \<le> 65535"
  defines "c \<equiv> csum data extra"
  shows "csum (data[k := ucast (drop_bit 8 c), k + 1 := ucast c]) extra = 0"
proof -
  let ?d = "data[k := ucast (drop_bit 8 c), k + 1 := ucast c]"
  let ?s = "extra + total16 data"
  have "total16 data \<le> 65535 * length data" by (rule total16_bound)
  also have "65535 * length data \<le> 65535 * 60000" using len(1) by simp
  finally have b: "?s < 2 ^ 32 - 65536" using len(2) by simp
  then have s: "sum16 data extra = ?s" by (intro sum16_total) simp
  have uc: "unat c = 65535 - fold16 ?s" by (simp add: c_def unat_csum s)
  have tot: "total16 ?d = total16 data + unat c"
    using total16_update [OF k, of "ucast (drop_bit 8 c)" "ucast c"] zero
    by (simp add: be16_split) (simp add: be16_def)
  have "extra + total16 ?d < 2 ^ 32" using b tot uc by simp
  then have "sum16 ?d extra = extra + total16 ?d" by (rule sum16_total)
  then have sd: "sum16 ?d extra = ?s + unat c" by (simp only: tot add.assoc)
  have "(?s + unat c) mod 65535 = (?s + (65535 - fold16 ?s)) mod 65535" by (simp add: uc)
  also have "\<dots> = (?s mod 65535 + (65535 - fold16 ?s)) mod 65535" by (simp add: mod_simps)
  also have "\<dots> = (fold16 ?s mod 65535 + (65535 - fold16 ?s)) mod 65535"
    using b fold16_mod [of ?s] by simp
  also have "\<dots> = (fold16 ?s + (65535 - fold16 ?s)) mod 65535" by (simp add: mod_simps)
  also have "\<dots> = 0" using fold16_le [of ?s] by simp
  finally have "(?s + unat c) mod 65535 = 0" .
  moreover have "0 < ?s + unat c"
  proof (cases "?s = 0")
    case True
    then have "unat c = 65535" using fold16_zero [of 0] uc by simp
    then show ?thesis by simp
  qed simp
  ultimately have "fold16 (?s + unat c) = 65535" using b uc by (intro fold16_full) simp_all
  then show ?thesis unfolding csum_def sd by simp
qed

section \<open>Properties\<close>

text \<open>Writing the checksum that \<^verbatim>\<open>csum\<close> computes into the zeroed checksum field of a header or
  segment, at an even offset, makes the whole buffer verify: its checksum with the same pseudo
  header is then 0.\<close>

theorem csum_verifies:
  assumes "even k" "k + 1 < length data" "data ! k = 0" "data ! (k + 1) = 0"
    and "length data \<le> 60000" "extra \<le> 65535"
  shows "csum (data[k := ucast (drop_bit 8 (csum data extra)), k + 1 := ucast (csum data extra)]) extra = 0"
  by (rule csum_insert [OF assms])

theorem csum_verifies_witness: "csum [0x45, 0, 0xBA, 0xFF] 0 = 0"
proof -
  have "sum16 [0x45, 0, 0, 0] 0 = 17664" by (simp add: be16_def)
  then have "csum [0x45, 0, 0, 0] 0 = 0xBAFF"
    by (simp add: csum_def fold16.simps [of 17664])
  moreover have e: "(0xBAFF :: u8) = 0xFF" by code_simp
  ultimately show ?thesis using csum_verifies [of 2 "[0x45, 0, 0, 0]" 0] by (simp add: e)
qed

end
