(* ===== verification/Aes_Gcm.thy ===== *)
theory Aes_Gcm
  imports Sha256
begin

unbundle bit_operations_syntax

text \<open>
  The block cipher and its counter mode in \<^verbatim>\<open>kernel/crypto.c\<close>: the key schedule, the rounds, the
  multiplication of the authentication hash and the \<^verbatim>\<open>gcm_\<close> operations. The global round keys are
  the record \<open>aes\<close>; a copy past the 16-byte buffer, or a key stream that was never written, is
  \<open>None\<close>.

  The lemmas show that the cipher as coded is not invertible under any key, and where the output of
  \<^verbatim>\<open>gcm_encrypt\<close> goes.
\<close>

section \<open>The block cipher\<close>

record aes =
  aes_rk :: "u32 list"
  aes_key_set :: bool

definition aes_sbox :: bytes where
  "aes_sbox =
   [0x63, 0x7c, 0x77, 0x7b, 0xf2, 0x6b, 0x6f, 0xc5, 0x30, 0x01, 0x67, 0x2b, 0xfe, 0xd7, 0xab, 0x76,
    0xca, 0x82, 0xc9, 0x7d, 0xfa, 0x59, 0x47, 0xf0, 0xad, 0xd4, 0xa2, 0xaf, 0x9c, 0xa4, 0x72, 0xc0,
    0xb7, 0xfd, 0x93, 0x26, 0x36, 0x3f, 0xf7, 0xcc, 0x34, 0xa5, 0xe5, 0xf1, 0x71, 0xd8, 0x31, 0x15,
    0x04, 0xc7, 0x23, 0xc3, 0x18, 0x96, 0x05, 0x9a, 0x07, 0x12, 0x80, 0xe2, 0xeb, 0x27, 0xb2, 0x75,
    0x09, 0x83, 0x2c, 0x1a, 0x1b, 0x6e, 0x5a, 0xa0, 0x52, 0x3b, 0xd6, 0xb3, 0x29, 0xe3, 0x2f, 0x84,
    0x53, 0xd1, 0x00, 0xed, 0x20, 0xfc, 0xb1, 0x5b, 0x6a, 0xcb, 0xbe, 0x39, 0x4a, 0x4c, 0x58, 0xcf,
    0xd0, 0xef, 0xaa, 0xfb, 0x43, 0x4d, 0x33, 0x85, 0x45, 0xf9, 0x02, 0x7f, 0x50, 0x3c, 0x9f, 0xa8,
    0x51, 0xa3, 0x40, 0x8f, 0x92, 0x9d, 0x38, 0xf5, 0xbc, 0xb6, 0xda, 0x21, 0x10, 0xff, 0xf3, 0xd2,
    0xcd, 0x0c, 0x13, 0xec, 0x5f, 0x97, 0x44, 0x17, 0xc4, 0xa7, 0x7e, 0x3d, 0x64, 0x5d, 0x19, 0x73,
    0x60, 0x81, 0x4f, 0xdc, 0x22, 0x2a, 0x90, 0x88, 0x46, 0xee, 0xb8, 0x14, 0xde, 0x5e, 0x0b, 0xdb,
    0xe0, 0x32, 0x3a, 0x0a, 0x49, 0x06, 0x24, 0x5c, 0xc2, 0xd3, 0xac, 0x62, 0x91, 0x95, 0xe4, 0x79,
    0xe7, 0xc8, 0x37, 0x6d, 0x8d, 0xd5, 0x4e, 0xa9, 0x6c, 0x56, 0xf4, 0xea, 0x65, 0x7a, 0xae, 0x08,
    0xba, 0x78, 0x25, 0x2e, 0x1c, 0xa6, 0xb4, 0xc6, 0xe8, 0xdd, 0x74, 0x1f, 0x4b, 0xbd, 0x8b, 0x8a,
    0x70, 0x3e, 0xb5, 0x66, 0x48, 0x03, 0xf6, 0x0e, 0x61, 0x35, 0x57, 0xb9, 0x86, 0xc1, 0x1d, 0x9e,
    0xe1, 0xf8, 0x98, 0x11, 0x69, 0xd9, 0x8e, 0x94, 0x9b, 0x1e, 0x87, 0xe9, 0xce, 0x55, 0x28, 0xdf,
    0x8c, 0xa1, 0x89, 0x0d, 0xbf, 0xe6, 0x42, 0x68, 0x41, 0x99, 0x2d, 0x0f, 0xb0, 0x54, 0xbb, 0x16]"

definition aes_xtime :: "u32 \<Rightarrow> u32" where
  "aes_xtime v = push_bit 1 v XOR (drop_bit 7 v * 0x1b)"

text \<open>The substitution of the four bytes of a word, of the key schedule and of a round.\<close>

definition sub_word :: "u32 \<Rightarrow> u32" where
  "sub_word t =
     mk32 (aes_sbox ! unat (ucast (drop_bit 24 t) :: u8)) (aes_sbox ! unat (ucast (drop_bit 16 t) :: u8))
          (aes_sbox ! unat (ucast (drop_bit 8 t) :: u8)) (aes_sbox ! unat (ucast t :: u8))"

fun aes_schedule :: "nat list \<Rightarrow> u32 list \<Rightarrow> u32 list" where
  "aes_schedule [] rk = rk"
| "aes_schedule (i # is) rk =
     (let t = rk ! (i - 1);
          t = (if i mod 4 = 0
               then sub_word (push_bit 8 t OR drop_bit 24 t) XOR push_bit ((i div 4 - 1) mod 8) 1
               else t)
      in aes_schedule is (rk @ [rk ! (i - 4) XOR t]))"

definition aes128_set_key :: "bytes \<Rightarrow> aes" where
  "aes128_set_key key =
     \<lparr>aes_rk = aes_schedule [4 ..< 44] (load_words (take 16 key)), aes_key_set = True\<rparr>"

definition aes_add_round_key :: "u32 list \<Rightarrow> nat \<Rightarrow> u32 list \<Rightarrow> u32 list" where
  "aes_add_round_key rk r s = map2 (XOR) s [rk ! (r * 4), rk ! (r * 4 + 1), rk ! (r * 4 + 2), rk ! (r * 4 + 3)]"

definition aes_sub_bytes :: "u32 list \<Rightarrow> u32 list" where
  "aes_sub_bytes s = map sub_word s"

definition aes_shift_rows :: "u32 list \<Rightarrow> u32 list" where
  "aes_shift_rows s =
     [s ! 0, drop_bit 8 (s ! 1) OR push_bit 24 (s ! 1), drop_bit 16 (s ! 2) OR push_bit 16 (s ! 2),
      drop_bit 24 (s ! 3) OR push_bit 8 (s ! 3)]"

definition aes_mix_word :: "u32 \<Rightarrow> u32" where
  "aes_mix_word v =
     (let a = ucast (ucast (drop_bit 24 v) :: u8); b = ucast (ucast (drop_bit 16 v) :: u8);
          c = ucast (ucast (drop_bit 8 v) :: u8); d = ucast (ucast v :: u8)
      in push_bit 24 (aes_xtime a XOR aes_xtime b XOR b XOR c XOR d)
         OR push_bit 16 (a XOR aes_xtime b XOR aes_xtime c XOR c XOR d)
         OR push_bit 8 (a XOR b XOR aes_xtime c XOR aes_xtime d XOR d)
         OR (aes_xtime a XOR a XOR b XOR c XOR aes_xtime d))"

definition aes_mix_columns :: "u32 list \<Rightarrow> u32 list" where
  "aes_mix_columns s = map aes_mix_word s"

fun aes_rounds :: "u32 list \<Rightarrow> nat list \<Rightarrow> u32 list \<Rightarrow> u32 list" where
  "aes_rounds rk [] s = s"
| "aes_rounds rk (i # is) s =
     aes_rounds rk is (aes_add_round_key rk i (aes_mix_columns (aes_shift_rows (aes_sub_bytes s))))"

text \<open>\<open>out\<close> is what the output buffer holds before, and keeps when no key is set.\<close>

definition aes128_encrypt :: "aes \<Rightarrow> bytes \<Rightarrow> bytes \<Rightarrow> bytes" where
  "aes128_encrypt k inp out =
     (if \<not> aes_key_set k then out
      else (let s = aes_add_round_key (aes_rk k) 0 (load_words (take 16 inp));
                s = aes_rounds (aes_rk k) [1 ..< 10] s;
                s = aes_add_round_key (aes_rk k) 10 (aes_shift_rows (aes_sub_bytes s))
            in concat (map bytes32 s)))"

section \<open>The authentication hash\<close>

definition ghash_step :: "bool \<Rightarrow> u32 list \<times> u32 list \<Rightarrow> u32 list \<times> u32 list" where
  "ghash_step b zv =
     (let (z, v) = zv;
          z = (if b then map2 (XOR) z v else z);
          carry = v ! 3 AND 1
      in (z, [drop_bit 1 (v ! 0) XOR (if carry \<noteq> 0 then 0xe1000000 else 0),
              drop_bit 1 (v ! 1) OR push_bit 31 (v ! 0),
              drop_bit 1 (v ! 2) OR push_bit 31 (v ! 1),
              drop_bit 1 (v ! 3) OR push_bit 31 (v ! 2)]))"

definition word_bits :: "u32 list \<Rightarrow> bool list" where
  "word_bits x = concat (map (\<lambda>w. map (\<lambda>j. drop_bit (31 - j) w AND 1 \<noteq> 0) [0 ..< 32]) x)"

definition ghash_mul :: "u32 list \<Rightarrow> u32 list \<Rightarrow> u32 list" where
  "ghash_mul r x = fst (fold ghash_step (word_bits x) ([0, 0, 0, 0], r))"

section \<open>Counter mode\<close>

record gcm_ctx =
  gc_h :: "u32 list"
  gc_j0 :: bytes
  gc_counter :: bytes
  gc_len_enc :: "u32 list"
  gc_len_aad :: "u32 list"
  gc_buf :: bytes
  gc_buf_len :: nat

text \<open>A copy of bytes over words of a little-endian machine, and back.\<close>

definition le_word :: "bytes \<Rightarrow> nat \<Rightarrow> u32" where
  "le_word b i = mk32 (b ! (4 * i + 3)) (b ! (4 * i + 2)) (b ! (4 * i + 1)) (b ! (4 * i))"

definition gcm_init :: "bytes \<Rightarrow> bytes \<Rightarrow> aes \<times> gcm_ctx" where
  "gcm_init key iv =
     (let k = aes128_set_key key;
          hb = aes128_encrypt k (replicate 16 0) (replicate 16 0)
      in (k, \<lparr>gc_h = map (le_word hb) [0 ..< 4], gc_j0 = take 12 iv @ [0, 0, 0, 1],
              gc_counter = replicate 16 0, gc_len_enc = [0, 0], gc_len_aad = [0, 0],
              gc_buf = replicate 16 0, gc_buf_len = 0\<rparr>))"

text \<open>A full buffer enters the hash: the accumulator is also the multiplier.\<close>

definition gcm_absorb :: "bytes \<Rightarrow> u32 list \<Rightarrow> u32 list" where
  "gcm_absorb buf h = (let h = map2 (XOR) h (load_words buf) in ghash_mul h h)"

definition gcm_need :: "gcm_ctx \<Rightarrow> nat" where
  "gcm_need ctx = (2 ^ 32 + 16 - gc_buf_len ctx) mod 2 ^ 32"

partial_function (option) gcm_copy :: "bytes \<Rightarrow> gcm_ctx \<Rightarrow> gcm_ctx option" where
  "gcm_copy aad ctx =
     (if aad = [] then Some ctx
      else (let n = (if gcm_need ctx < length aad then gcm_need ctx else length aad)
            in do { buf \<leftarrow> wr_range (gc_buf ctx) (gc_buf_len ctx) (take n aad);
                 (let len = gc_buf_len ctx + n;
                      ctx = (if len = 16 then ctx\<lparr>gc_h := gcm_absorb buf (gc_h ctx), gc_buf := buf, gc_buf_len := 0\<rparr>
                             else ctx\<lparr>gc_buf := buf, gc_buf_len := len\<rparr>)
                  in gcm_copy (drop n aad) ctx) }))"

definition len_words :: "nat \<Rightarrow> u32 list" where
  "len_words n = [of_nat (n * 8), of_nat (n div 2 ^ 29)]"

definition gcm_update :: "gcm_ctx \<Rightarrow> bytes \<Rightarrow> gcm_ctx option" where
  "gcm_update ctx aad = gcm_copy aad (ctx\<lparr>gc_len_aad := len_words (length aad)\<rparr>)"

fun inc_from :: "nat \<Rightarrow> bytes \<Rightarrow> bytes" where
  "inc_from i ctr =
     (if i < 12 then ctr
      else (let c = ctr ! i + 1 in
        if c \<noteq> 0 then ctr[i := c] else inc_from (i - 1) (ctr[i := c])))"

declare inc_from.simps [simp del]

definition gcm_inc_counter :: "bytes \<Rightarrow> bytes" where
  "gcm_inc_counter ctr = inc_from 15 ctr"

text \<open>
  One full block of \<^verbatim>\<open>gcm_encrypt\<close>: the output pointer is the one the caller passed, less the
  length of the buffer, plus 16.
\<close>

definition gcm_block :: "aes \<Rightarrow> bytes \<Rightarrow> gcm_ctx \<Rightarrow> bytes \<Rightarrow> (gcm_ctx \<times> bytes) option" where
  "gcm_block k buf ctx out =
     (if \<not> aes_key_set k then None
      else (let ctr = gcm_inc_counter (gc_counter ctx);
                buf = map2 (XOR) buf (aes128_encrypt k ctr (replicate 16 0))
            in do { out \<leftarrow> wr_range out (16 - 16) buf;
                 Some (ctx\<lparr>gc_counter := ctr, gc_h := gcm_absorb buf (gc_h ctx), gc_buf := buf,
                           gc_buf_len := 0\<rparr>, out) }))"

partial_function (option) gcm_crypt :: "aes \<Rightarrow> bytes \<Rightarrow> gcm_ctx \<Rightarrow> bytes \<Rightarrow> (gcm_ctx \<times> bytes) option" where
  "gcm_crypt k inp ctx out =
     (if inp = [] then Some (ctx, out)
      else (let n = (if gcm_need ctx < length inp then gcm_need ctx else length inp)
            in do { buf \<leftarrow> wr_range (gc_buf ctx) (gc_buf_len ctx) (take n inp);
                 (ctx, out) \<leftarrow> (let len = gc_buf_len ctx + n in
                    if len = 16 then gcm_block k buf ctx out
                    else Some (ctx\<lparr>gc_buf := buf, gc_buf_len := len\<rparr>, out));
                 gcm_crypt k (drop n inp) ctx out }))"

definition gcm_encrypt :: "aes \<Rightarrow> gcm_ctx \<Rightarrow> bytes \<Rightarrow> bytes \<Rightarrow> (gcm_ctx \<times> bytes) option" where
  "gcm_encrypt k ctx inp out = gcm_crypt k inp (ctx\<lparr>gc_len_enc := len_words (length inp)\<rparr>) out"

definition gcm_final :: "aes \<Rightarrow> gcm_ctx \<Rightarrow> bytes \<times> gcm_ctx" where
  "gcm_final k ctx =
     (let ctx = (if gc_buf_len ctx > 0 then
            (let ctr = gcm_inc_counter (gc_counter ctx);
                 buf = take (gc_buf_len ctx) (gc_buf ctx) @ replicate (16 - gc_buf_len ctx) 0;
                 buf = map2 (XOR) buf (aes128_encrypt k ctr (replicate 16 0))
             in ctx\<lparr>gc_counter := ctr, gc_h := gcm_absorb buf (gc_h ctx), gc_buf := buf\<rparr>)
          else ctx);
          len_buf = rev (bytes32 (gc_len_aad ctx ! 0)) @ rev (bytes32 (gc_len_enc ctx ! 0)) @ replicate 8 0;
          h = gcm_absorb len_buf (gc_h ctx);
          h = map2 (XOR) h (load_words (gc_j0 ctx))
      in (concat (map bytes32 h), ctx\<lparr>gc_h := h\<rparr>))"

section \<open>The cipher is not a permutation\<close>

lemma aes_word_collision:
  "aes_mix_word (sub_word 0x1d3dbba7) = aes_mix_word (sub_word 0x62c3b0da)"
  by code_simp

lemma load_block: "load_words (take 16 (bytes32 w @ rest)) = w # load_words (take 12 rest)"
  by (simp add: bytes32_def) (simp add: mk32_bytes32 [unfolded bytes32_def] )

lemma aes_first_round:
  assumes "aes_mix_word (sub_word a) = aes_mix_word (sub_word b)"
  shows "aes_rounds rk (i # is) (a # t) = aes_rounds rk (i # is) (b # t)"
  using assms by (simp add: aes_sub_bytes_def aes_shift_rows_def aes_mix_columns_def)

text \<open>The block cipher is not invertible: under every key, for every choice of the last twelve
  bytes, two different plaintext blocks have the same ciphertext, because a column of
  \<^verbatim>\<open>aes_mix_columns\<close> lets the carries of \<^verbatim>\<open>aes_xtime\<close> run into the neighbouring byte.\<close>

theorem aes128_encrypt_collision:
  "let k = aes128_set_key key;
       x = bytes32 (0x1d3dbba7 XOR aes_rk k ! 0) @ rest;
       y = bytes32 (0x62c3b0da XOR aes_rk k ! 0) @ rest
   in x \<noteq> y \<and> aes128_encrypt k x out = aes128_encrypt k y out"
proof -
  define k where "k = aes128_set_key key"
  let ?w = "\<lambda>a. a XOR aes_rk k ! 0"
  have ark: "aes_add_round_key (aes_rk k) 0 (?w a # t) = a # map2 (XOR) t (map ((!) (aes_rk k)) [1, 2, 3])" for a t
    by (simp add: aes_add_round_key_def xor.assoc numeral_2_eq_2)
  have enc: "aes128_encrypt k (bytes32 (?w 0x1d3dbba7) @ rest) out = aes128_encrypt k (bytes32 (?w 0x62c3b0da) @ rest) out"
  proof -
    have "[1 ..< 10] = 1 # [2 ..< 10 :: nat]" by (simp add: upt_conv_Cons)
    then show ?thesis
      unfolding aes128_encrypt_def load_block ark Let_def
      by (simp only: aes_first_round [OF aes_word_collision])
  qed
  have "bytes32 (?w 0x1d3dbba7) @ rest \<noteq> bytes32 (?w 0x62c3b0da) @ rest"
  proof
    assume "bytes32 (?w 0x1d3dbba7) @ rest = bytes32 (?w 0x62c3b0da) @ rest"
    then have "load_words (take 16 (bytes32 (?w 0x1d3dbba7) @ rest)) = load_words (take 16 (bytes32 (?w 0x62c3b0da) @ rest))"
      by (rule arg_cong)
    then have "?w 0x1d3dbba7 = ?w 0x62c3b0da" by (simp only: load_block list.inject)
    then have "?w (?w 0x1d3dbba7) = ?w (?w 0x62c3b0da)" by (rule arg_cong)
    then show False by (simp add: xor.assoc)
  qed
  then show ?thesis using enc unfolding k_def Let_def by blast
qed


section \<open>Where the ciphertext goes\<close>

lemma length_aes128_encrypt:
  "aes_key_set k \<Longrightarrow> length inp = 16 \<Longrightarrow> length (aes128_encrypt k inp out) = 16"
proof -
  have ark: "length (aes_add_round_key rk i s) = length s" if "length s = 4" for rk i s
    using that by (simp add: aes_add_round_key_def)
  have sr: "length (aes_shift_rows s) = 4" for s by (simp add: aes_shift_rows_def)
  have rounds: "length (aes_rounds rk is s) = 4" if "length s = 4" for rk "is" s
    using that by (induction rk "is" s rule: aes_rounds.induct) (simp_all add: ark sr aes_mix_columns_def)
  assume "aes_key_set k" "length inp = 16"
  moreover have "length (load_words inp) = 4" if "length inp = 16" for inp
    using that by (auto simp: numeral_eq_Suc length_Suc_conv)
  moreover have "length (concat (map bytes32 s)) = 4 * length s" for s by (induction s) simp_all
  ultimately show ?thesis by (simp add: aes128_encrypt_def Let_def ark sr rounds)
qed

lemma length_gcm_inc_counter [simp]: "length (gcm_inc_counter c) = length c"
proof -
  have "length (inc_from i c) = length c" for i
    by (induction i c rule: inc_from.induct) (subst inc_from.simps, simp add: Let_def)
  then show ?thesis by (simp add: gcm_inc_counter_def)
qed

lemma aes128_set_key_set [simp]: "aes_key_set (aes128_set_key key)"
  by (simp only: aes128_set_key_def aes.simps)

lemma gcm_need_empty: "gc_buf_len ctx = 0 \<Longrightarrow> gcm_need ctx = 16"
  by (simp add: gcm_need_def)

text \<open>The reference: the counter as twelve fixed bytes and a number of 32 bits, and the ciphertext of a block under it.\<close>

definition ctr_at :: "bytes \<Rightarrow> nat \<Rightarrow> bytes" where
  "ctr_at c i = take 12 c @ bytes32 (mk32 (c ! 12) (c ! 13) (c ! 14) (c ! 15) + of_nat i)"

definition gcm_cipher :: "aes \<Rightarrow> bytes \<Rightarrow> bytes \<Rightarrow> nat \<Rightarrow> bytes" where
  "gcm_cipher k c inp i = map2 (XOR) (take 16 (drop (16 * i) inp)) (aes128_encrypt k (ctr_at c (i + 1)) (replicate 16 0))"

lemma length_four: "length c = 4 \<Longrightarrow> c = [c ! 0, c ! 1, c ! 2, c ! 3]"
  by (auto simp: numeral_eq_Suc length_Suc_conv)

lemma gcm_inc_counter_ctr:
  assumes "length c = 16"
  shows "gcm_inc_counter c = ctr_at c 1"
proof -
  define t where "t = take 12 c"
  have t: "length t = 12" using assms by (simp add: t_def)
  have c: "c = t @ [c ! 12, c ! 13, c ! 14, c ! 15]"
  proof -
    have "drop 12 c = [c ! 12, c ! 13, c ! 14, c ! 15]" using length_four [of "drop 12 c"] assms by simp
    then show ?thesis by (metis append_take_drop_id t_def)
  qed
  have g: "gcm_inc_counter (t @ [x, y, z, w]) = t @ bytes32 (mk32 x y z w + 1)" for x y z w
    unfolding mk32_Suc gcm_inc_counter_def
    by (simp add: inc_from.simps Let_def t nth_append list_update_append bytes32_mk32)
  show ?thesis using g [of "c ! 12" "c ! 13" "c ! 14" "c ! 15"] unfolding c [symmetric] by (simp add: ctr_at_def t_def)
qed

lemma ctr_at_nth:
  assumes "length c = 16"
  shows "length (ctr_at c i) = 16" "ctr_at (ctr_at c i) j = ctr_at c (i + j)" "ctr_at c 0 = c"
proof -
  let ?w = "mk32 (c ! 12) (c ! 13) (c ! 14) (c ! 15)"
  show "length (ctr_at c i) = 16" using assms by (simp add: ctr_at_def)
  have m: "mk32 (ctr_at c i ! 12) (ctr_at c i ! 13) (ctr_at c i ! 14) (ctr_at c i ! 15) = ?w + of_nat i"
    using assms by (simp add: ctr_at_def nth_append bytes32_def mk32_bytes32)
  then show "ctr_at (ctr_at c i) j = ctr_at c (i + j)" using assms by (simp add: ctr_at_def add.assoc)
  have "drop 12 c = [c ! 12, c ! 13, c ! 14, c ! 15]" using length_four [of "drop 12 c"] assms by simp
  then show "ctr_at c 0 = c" unfolding ctr_at_def by (simp add: bytes32_mk32) (metis append_take_drop_id)
qed

text \<open>A call with a fresh buffer: the state after it and the output.\<close>

definition gcm_done :: "aes \<Rightarrow> gcm_ctx \<Rightarrow> bytes \<Rightarrow> bytes \<Rightarrow> gcm_ctx \<times> bytes" where
  "gcm_done k ctx inp buf =
     (let n = length inp div 16; blocks = map (gcm_cipher k (gc_counter ctx) inp) [0 ..< n] in
      (ctx\<lparr>gc_counter := ctr_at (gc_counter ctx) n, gc_h := fold gcm_absorb blocks (gc_h ctx),
           gc_buf := buf, gc_buf_len := length inp mod 16\<rparr>, concat (take 1 (rev blocks))))"

lemma gcm_crypt_done:
  assumes "aes_key_set k" and "length (gc_counter ctx) = 16" "length (gc_buf ctx) = 16" "gc_buf_len ctx = 0" "16 \<le> length out"
  shows "\<exists>buf. length buf = 16 \<and> take (length inp mod 16) buf = drop (16 * (length inp div 16)) inp
    \<and> gcm_crypt k inp ctx out = Some (fst (gcm_done k ctx inp buf),
        snd (gcm_done k ctx inp buf) @ drop (length (snd (gcm_done k ctx inp buf))) out)"
  using assms
proof (induction "length inp div 16" arbitrary: inp ctx out)
  case 0
  then have l: "length inp < 16" by (simp add: div_eq_0_iff)
  let ?buf = "inp @ drop (length inp) (gc_buf ctx)"
  have w: "wr_range (gc_buf ctx) 0 inp = Some ?buf" using l 0(4) by (simp add: wr_range_Some)
  have "gcm_crypt k inp ctx out = Some (ctx\<lparr>gc_buf := ?buf, gc_buf_len := length inp\<rparr>, out)"
  proof (cases "inp = []")
    case False
    then show ?thesis using l 0(5)
      by (subst gcm_crypt.simps) (simp add: gcm_need_def w Let_def gcm_crypt.simps [of k "[]"])
  qed (use 0(5) in \<open>simp add: gcm_crypt.simps\<close>)
  then show ?case using l 0(3,4) by (intro exI [of _ ?buf]) (simp add: gcm_done_def ctr_at_nth)
next
  case (Suc n)
  let ?c = "ctr_at (gc_counter ctx) (Suc 0)"
  let ?b = "gcm_cipher k (gc_counter ctx) inp 0"
  let ?ctx = "ctx\<lparr>gc_counter := ?c, gc_h := gcm_absorb ?b (gc_h ctx), gc_buf := ?b, gc_buf_len := 0\<rparr>"
  let ?rest = "drop 16 inp"
  have l: "16 \<le> length inp" using Suc.hyps(2) div_less [of "length inp" 16] by (cases "16 \<le> length inp") simp_all
  have c: "gcm_inc_counter (gc_counter ctx) = ?c" using gcm_inc_counter_ctr [OF Suc.prems(2)] by simp
  have b: "length ?b = 16" using Suc.prems l by (simp add: gcm_cipher_def length_aes128_encrypt ctr_at_nth)
  have bb: "map2 (XOR) (take 16 inp) (aes128_encrypt k ?c (replicate 16 0)) = ?b" by (simp add: gcm_cipher_def)
  have w: "wr_range (gc_buf ctx) 0 (take 16 inp) = Some (take 16 inp)" using Suc.prems l by (simp add: wr_range_def)
  have o: "wr_range out (16 - 16) ?b = Some (?b @ drop 16 out)" using Suc.prems b by (simp add: wr_range_Some)
  have e: "inp \<noteq> []" using l by auto
  have step: "gcm_crypt k inp ctx out = gcm_crypt k ?rest ?ctx (?b @ drop 16 out)"
  proof (cases "16 < length inp")
    case True
    then show ?thesis using e Suc.prems(1,4)
      by (subst gcm_crypt.simps) (simp add: gcm_need_empty w gcm_block_def c bb o [simplified] Let_def)
  next
    case False
    then have "length inp = 16" "take 16 inp = inp" using l by simp_all
    then show ?thesis using e Suc.prems(1,4) w bb
      by (subst gcm_crypt.simps) (simp add: gcm_need_empty gcm_block_def c o [simplified] Let_def)
  qed
  have n: "n = length ?rest div 16" "length ?rest mod 16 = length inp mod 16" "length inp div 16 = Suc n"
    using Suc.hyps(2) l by (simp_all add: le_mod_geq le_div_geq)
  have "length (gc_counter ?ctx) = 16" "length (gc_buf ?ctx) = 16" "gc_buf_len ?ctx = 0" "16 \<le> length (?b @ drop 16 out)"
    using Suc.prems b by (simp_all add: ctr_at_nth)
  from Suc.hyps(1) [OF n(1) Suc.prems(1) this] obtain buf where
    buf: "length buf = 16" "take (length ?rest mod 16) buf = drop (16 * (length ?rest div 16)) ?rest"
      "gcm_crypt k ?rest ?ctx (?b @ drop 16 out) = Some (fst (gcm_done k ?ctx ?rest buf),
        snd (gcm_done k ?ctx ?rest buf) @ drop (length (snd (gcm_done k ?ctx ?rest buf))) (?b @ drop 16 out))" by blast
  have cc: "gcm_cipher k ?c ?rest i = gcm_cipher k (gc_counter ctx) inp (Suc i)" for i
    using Suc.prems(2) by (simp add: gcm_cipher_def ctr_at_nth add.commute)
  have up: "[0 ..< Suc n] = 0 # map Suc [0 ..< n]" by (simp add: map_Suc_upt upt_conv_Cons del: upt_Suc)
  have d1: "fst (gcm_done k ?ctx ?rest buf) = fst (gcm_done k ctx inp buf)"
    using Suc.prems(2) unfolding gcm_done_def Let_def n(3) n(2) n(1) [symmetric] up
    by (simp add: cc [THEN ext [of "gcm_cipher k ?c ?rest"]] comp_def ctr_at_nth)
  have d2: "snd (gcm_done k ?ctx ?rest buf) @ drop (length (snd (gcm_done k ?ctx ?rest buf))) (?b @ drop 16 out)
      = snd (gcm_done k ctx inp buf) @ drop (length (snd (gcm_done k ctx inp buf))) out"
  proof (cases n)
    case 0
    then show ?thesis using b unfolding gcm_done_def Let_def n(3) n(1) [symmetric] by simp
  next
    case (Suc m)
    let ?l = "gcm_cipher k (gc_counter ctx) inp (Suc m)"
    have "snd (gcm_done k ?ctx ?rest buf) = ?l" "snd (gcm_done k ctx inp buf) = ?l"
      unfolding gcm_done_def Let_def n(3) n(1) [symmetric] Suc by (simp_all add: cc)
    moreover have "length ?l = 16"
    proof -
      have "16 * (Suc m + 1) \<le> length inp" using n(3) Suc div_times_less_eq_dividend [of "length inp" 16] by simp
      then show ?thesis using Suc.prems(1,2) by (simp add: gcm_cipher_def length_aes128_encrypt ctr_at_nth)
    qed
    ultimately show ?thesis using b by simp
  qed
  have "take (length inp mod 16) buf = drop (16 * (length inp div 16)) inp"
    using buf(2) unfolding n(2) n(3) n(1) [symmetric] by (simp add: add.commute)
  then show ?case using buf(1,3) step d1 d2 by (intro exI [of _ buf]) simp
qed

text \<open>C33. \<^verbatim>\<open>gcm_encrypt\<close> with an empty buffer, for a message of any length: the counter advances by its whole
  blocks, the hash absorbs the ciphertext of each in turn, and the bytes after the last whole block, fewer than
  sixteen, are in the buffer, which knows their number. But the output pointer never advances: the first sixteen
  bytes of the output hold the ciphertext of the last whole block and every other byte is unchanged, and without a whole block
  nothing is written.\<close>

theorem gcm_encrypt_output:
  assumes "aes_key_set k" and "length (gc_counter ctx) = 16" "length (gc_buf ctx) = 16" "gc_buf_len ctx = 0"
    and "16 \<le> length out" and n: "n = length inp div 16"
  shows "\<exists>buf. take (length inp mod 16) buf = drop (16 * n) inp \<and> length buf = 16
    \<and> gcm_encrypt k ctx inp out
      = Some (ctx\<lparr>gc_len_enc := [of_nat (8 * length inp), of_nat (length inp div 2 ^ 29)],
          gc_counter := ctr_at (gc_counter ctx) n,
          gc_h := fold gcm_absorb (map (gcm_cipher k (gc_counter ctx) inp) [0 ..< n]) (gc_h ctx),
          gc_buf := buf, gc_buf_len := length inp mod 16\<rparr>,
        if n = 0 then out else gcm_cipher k (gc_counter ctx) inp (n - 1) @ drop 16 out)"
proof -
  let ?ctx = "ctx\<lparr>gc_len_enc := len_words (length inp)\<rparr>"
  obtain buf where buf: "length buf = 16" "take (length inp mod 16) buf = drop (16 * n) inp"
    "gcm_crypt k inp ?ctx out = Some (fst (gcm_done k ?ctx inp buf), snd (gcm_done k ?ctx inp buf) @ drop (length (snd (gcm_done k ?ctx inp buf))) out)"
    using gcm_crypt_done [OF assms(1), of ?ctx out inp] assms(2-5) unfolding n by auto
  have "snd (gcm_done k ?ctx inp buf) @ drop (length (snd (gcm_done k ?ctx inp buf))) out
      = (if n = 0 then out else gcm_cipher k (gc_counter ctx) inp (n - 1) @ drop 16 out)"
  proof (cases n)
    case (Suc m)
    have "16 * (m + 1) \<le> length inp" using n Suc div_times_less_eq_dividend [of "length inp" 16] by simp
    then have "length (gcm_cipher k (gc_counter ctx) inp m) = 16"
      using assms(1,2) by (simp add: gcm_cipher_def length_aes128_encrypt ctr_at_nth)
    then show ?thesis unfolding gcm_done_def Let_def n [symmetric] Suc by simp
  qed (simp add: gcm_done_def Let_def flip: n)
  moreover have "fst (gcm_done k ?ctx inp buf) = ctx\<lparr>gc_len_enc := [of_nat (8 * length inp), of_nat (length inp div 2 ^ 29)],
          gc_counter := ctr_at (gc_counter ctx) n,
          gc_h := fold gcm_absorb (map (gcm_cipher k (gc_counter ctx) inp) [0 ..< n]) (gc_h ctx),
          gc_buf := buf, gc_buf_len := length inp mod 16\<rparr>"
    by (simp add: gcm_done_def Let_def len_words_def mult.commute flip: n)
  ultimately show ?thesis using buf(1,2) buf(3) by (intro exI [of _ buf]) (simp add: gcm_encrypt_def)
qed

theorem gcm_encrypt_output_witness:
  "\<exists>k ctx ctx'. (k, ctx) = gcm_init (replicate 16 1) (replicate 12 2)
   \<and> gcm_encrypt k ctx (replicate 55 5) (replicate 64 0)
        = Some (ctx', gcm_cipher k (gc_counter ctx) (replicate 55 5) 2 @ replicate 48 0)
   \<and> gc_buf_len ctx' = 7 \<and> take 7 (gc_buf ctx') = replicate 7 5"
proof -
  obtain k ctx where i: "(k, ctx) = gcm_init (replicate 16 1) (replicate 12 2)" by (metis surj_pair)
  then have h: "aes_key_set k" "length (gc_counter ctx) = 16" "length (gc_buf ctx) = 16" "gc_buf_len ctx = 0"
    by (simp_all add: gcm_init_def Let_def)
  have o: "16 \<le> length (replicate 64 (0 :: u8))" and n: "3 = length (replicate 55 (5 :: u8)) div 16" by simp_all
  obtain buf where b: "take 7 buf = replicate 7 5"
    "gcm_encrypt k ctx (replicate 55 5) (replicate 64 0)
      = Some (ctx\<lparr>gc_len_enc := [of_nat (8 * 55), of_nat (55 div 2 ^ 29)], gc_counter := ctr_at (gc_counter ctx) 3,
          gc_h := fold gcm_absorb (map (gcm_cipher k (gc_counter ctx) (replicate 55 5)) [0 ..< 3]) (gc_h ctx),
          gc_buf := buf, gc_buf_len := 7\<rparr>, gcm_cipher k (gc_counter ctx) (replicate 55 5) 2 @ replicate 48 0)"
    using gcm_encrypt_output [OF h o n] by (simp add: drop_replicate del: replicate.simps upt_rec_numeral) blast
  then show ?thesis using i by (intro exI [of _ k] exI [of _ ctx] exI conjI) (assumption, assumption, simp, simp)
qed

end
