(* ===== verification/X25519.thy ===== *)
theory X25519
  imports Sol_Prelude
begin

unbundle bit_operations_syntax

text \<open>
  The key exchange of \<^verbatim>\<open>kernel/crypto.c\<close> (\<^verbatim>\<open>x25519_\<close>): field elements are lists of ten 32-bit limbs,
  the temporaries lists of 64-bit words, and an access past the end of one of them is \<open>None\<close>. Where
  the code passes one element as result and argument, the model reads what the element holds then.

  The lemmas show that the conversion of a result back to bytes always runs past its temporary, so
  no shared secret is ever computed inside the bounds, while every field operation before it does
  stay inside.
\<close>

type_synonym fe = "u32 list"

definition LIMB_MASK :: u64 where "LIMB_MASK = push_bit 51 1 - 1"

definition fe_set :: "u32 \<Rightarrow> fe" where
  "fe_set a0 = (ucast ((ucast a0 :: u64) AND LIMB_MASK)) # replicate 9 0"

text \<open>The ten sums of five bytes each; only the first seven are not 0.\<close>

fun fe_gather :: "nat list \<Rightarrow> bytes \<Rightarrow> u64 list \<Rightarrow> u64 list option" where
  "fe_gather [] inp t = Some t"
| "fe_gather (i # is) inp t =
     do { b \<leftarrow> rd inp i;
          x \<leftarrow> rd t (i div 5);
          t \<leftarrow> wr t (i div 5) (x + push_bit (8 * (i mod 5)) (ucast b));
          fe_gather is inp t }"

definition fe_load :: "bytes \<Rightarrow> fe option" where
  "fe_load inp =
     do { t \<leftarrow> fe_gather [0 ..< 32] inp (replicate 10 0);
          (let limb = (\<lambda>i s k. ucast ((drop_bit s (t ! i) + push_bit k (t ! (i + 1))) AND LIMB_MASK))
           in Some [ucast (t ! 0 AND LIMB_MASK), limb 0 51 3, limb 1 48 6, limb 2 45 1, limb 3 50 4,
                    limb 4 47 7, limb 5 44 2, limb 6 49 5, limb 7 46 0, limb 8 51 3]) }"

text \<open>The carry pass that both \<^verbatim>\<open>x25519_fe_store\<close> and \<^verbatim>\<open>x25519_fe_mul\<close> make, twice.\<close>

fun fe_carry :: "nat list \<Rightarrow> u64 list \<Rightarrow> u64 list option" where
  "fe_carry [] t = Some t"
| "fe_carry (i # is) t =
     do { x \<leftarrow> rd t i;
          y \<leftarrow> rd t (i + 1);
          t \<leftarrow> wr t (i + 1) (y + drop_bit 51 x);
          t \<leftarrow> wr t i (x AND LIMB_MASK);
          fe_carry is t }"

definition fe_fold :: "nat \<Rightarrow> u64 list \<Rightarrow> u64 list option" where
  "fe_fold hi t =
     do { x \<leftarrow> rd t hi;
          t \<leftarrow> wr t hi (x AND 0x7fffffff);
          x \<leftarrow> rd t hi;
          y \<leftarrow> rd t 0;
          wr t 0 (y + 19 * drop_bit 51 x) }"

fun fe_bytes :: "(nat \<times> nat) list \<Rightarrow> u64 list \<Rightarrow> bytes \<Rightarrow> bytes option" where
  "fe_bytes [] t out = Some out"
| "fe_bytes ((i, j) # ijs) t out =
     (if i * 5 + j < 32
      then do { limb \<leftarrow> rd t i;
                out \<leftarrow> wr out (i * 5 + j) (ucast (drop_bit (j * 8) limb));
                fe_bytes ijs t out }
      else fe_bytes ijs t out)"

definition fe_store :: "fe \<Rightarrow> bytes \<Rightarrow> bytes option" where
  "fe_store a out =
     do { t \<leftarrow> Some (map ucast a);
          t \<leftarrow> fe_carry [0 ..< 10] t;
          t \<leftarrow> fe_fold 9 t;
          t \<leftarrow> fe_carry [0 ..< 10] t;
          x \<leftarrow> rd t 9;
          t \<leftarrow> wr t 9 (x AND 0x7fffffff);
          fe_bytes [(i, j). i \<leftarrow> [0 ..< 10], j \<leftarrow> [0 ..< 6]] t out }"

fun fe_products :: "(nat \<times> nat) list \<Rightarrow> fe \<Rightarrow> fe \<Rightarrow> u64 list \<Rightarrow> u64 list option" where
  "fe_products [] a b t = Some t"
| "fe_products ((i, j) # ijs) a b t =
     do { x \<leftarrow> rd a i;
          y \<leftarrow> rd b j;
          z \<leftarrow> rd t (i + j);
          t \<leftarrow> wr t (i + j) (z + ucast x * ucast y);
          fe_products ijs a b t }"

definition fe_mul :: "fe \<Rightarrow> fe \<Rightarrow> fe option" where
  "fe_mul a b =
     do { t \<leftarrow> fe_products [(i, j). i \<leftarrow> [0 ..< 10], j \<leftarrow> [0 ..< 10]] a b (replicate 20 0);
          t \<leftarrow> fe_carry [0 ..< 19] t;
          t \<leftarrow> fe_fold 19 t;
          t \<leftarrow> fe_carry [0 ..< 19] t;
          x \<leftarrow> rd t 19;
          t \<leftarrow> wr t 19 (x AND 0x7fffffff);
          Some (map ucast (take 10 t)) }"

definition fe_sq :: "fe \<Rightarrow> fe option" where
  "fe_sq a = fe_mul a a"

fun fe_sqs :: "nat \<Rightarrow> fe \<Rightarrow> fe option" where
  "fe_sqs 0 a = Some a"
| "fe_sqs (Suc n) a = do { b \<leftarrow> fe_sq a; fe_sqs n b }"

text \<open>
  \<^verbatim>\<open>x25519_fe_inv(&z2, &z2)\<close>, its only call: the argument is the result, so the product that should
  multiply by the argument squares the result.
\<close>

definition fe_inv_self :: "fe \<Rightarrow> fe option" where
  "fe_inv_self a =
     do { t \<leftarrow> fe_sqs 253 a;
          r \<leftarrow> fe_sq t;
          r \<leftarrow> fe_mul r r;
          fe_sqs 252 r }"

definition fe_add :: "fe \<Rightarrow> fe \<Rightarrow> fe" where
  "fe_add a b = map2 (\<lambda>x y. ucast ((ucast x + ucast y :: u64) AND LIMB_MASK)) a b"

fun fe_sub_loop :: "(u32 \<times> u32) list \<Rightarrow> u64 \<Rightarrow> fe" where
  "fe_sub_loop [] borrow = []"
| "fe_sub_loop ((x, y) # xys) borrow =
     (let v = ucast x - ucast y - borrow
      in ucast (v AND LIMB_MASK) # fe_sub_loop xys (drop_bit 63 v AND 1))"

definition fe_sub :: "fe \<Rightarrow> fe \<Rightarrow> fe" where
  "fe_sub a b = fe_sub_loop (zip a b) 0"

record ladder =
  ld_x2 :: fe
  ld_z2 :: fe
  ld_x3 :: fe
  ld_z3 :: fe
  ld_swap :: u8

definition ladder_bit :: "bytes \<Rightarrow> nat \<Rightarrow> u8 option" where
  "ladder_bit scalar i = do { b \<leftarrow> rd scalar (i div 8); Some (drop_bit (i mod 8) b AND 1) }"

definition ladder_swap :: "u8 \<Rightarrow> ladder \<Rightarrow> ladder" where
  "ladder_swap b l =
     (let l = (if ld_swap l XOR b \<noteq> 0
               then l\<lparr>ld_x2 := ld_x3 l, ld_x3 := ld_x2 l, ld_z2 := ld_z3 l, ld_z3 := ld_z2 l\<rparr> else l)
      in l\<lparr>ld_swap := b\<rparr>)"

definition ladder_step :: "fe \<Rightarrow> ladder \<Rightarrow> ladder option" where
  "ladder_step x1 l =
     do { t0 \<leftarrow> Some (fe_add (ld_x2 l) (ld_z2 l));
          t1 \<leftarrow> Some (fe_sub (ld_x2 l) (ld_z2 l));
          x2 \<leftarrow> fe_sq t0;
          z2 \<leftarrow> fe_sq (fe_sub x2 t1);
          z2 \<leftarrow> fe_mul z2 x1;
          t1 \<leftarrow> fe_sq t0;
          x3 \<leftarrow> Some (fe_add t1 z2);
          z3 \<leftarrow> fe_mul (fe_sub t1 z2) t0;
          t0 \<leftarrow> fe_sq x3;
          x3 \<leftarrow> fe_mul z3 t1;
          z3 \<leftarrow> fe_mul t0 z2;
          t1 \<leftarrow> fe_sq x2;
          x2 \<leftarrow> fe_mul t1 z2;
          Some (l\<lparr>ld_x2 := x2, ld_z2 := z2, ld_x3 := x3, ld_z3 := z3\<rparr>) }"

fun ladder_loop :: "nat list \<Rightarrow> bytes \<Rightarrow> fe \<Rightarrow> ladder \<Rightarrow> ladder option" where
  "ladder_loop [] scalar x1 l = Some l"
| "ladder_loop (i # is) scalar x1 l =
     do { b \<leftarrow> ladder_bit scalar i;
          l \<leftarrow> ladder_step x1 (ladder_swap b l);
          ladder_loop is scalar x1 l }"

definition ladder_start :: "fe \<Rightarrow> ladder" where
  "ladder_start x1 = \<lparr>ld_x2 = fe_set 1, ld_z2 = replicate 10 0, ld_x3 = x1, ld_z3 = 1 # replicate 9 0, ld_swap = 0\<rparr>"

text \<open>The result before its conversion to bytes.\<close>

definition x25519_point :: "bytes \<Rightarrow> bytes \<Rightarrow> fe option" where
  "x25519_point scalar point =
     do { x1 \<leftarrow> fe_load point;
          l \<leftarrow> ladder_loop (rev [0 ..< 256]) scalar x1 (ladder_start x1);
          z2 \<leftarrow> fe_mul (ld_z2 l) (ld_z3 l);
          z2 \<leftarrow> fe_inv_self z2;
          fe_mul (ld_x2 l) z2 }"

definition x25519_core :: "bytes \<Rightarrow> bytes \<Rightarrow> bytes \<Rightarrow> bytes option" where
  "x25519_core out scalar point = do { x2 \<leftarrow> x25519_point scalar point; fe_store x2 out }"

definition clamp :: "bytes \<Rightarrow> bytes" where
  "clamp k = k[0 := k ! 0 AND 0xf8, 31 := (k ! 31 AND 0x7f) OR 0x40]"

definition x25519_keygen :: bytes where
  "x25519_keygen = clamp (map (\<lambda>i. of_nat (i * 17 + 42)) [0 ..< 32])"

definition x25519_shared :: "bytes \<Rightarrow> bytes \<Rightarrow> bytes \<Rightarrow> bytes option" where
  "x25519_shared out my_priv peer_pub = x25519_core out (clamp (take 32 my_priv)) peer_pub"

section \<open>What stays inside its arrays\<close>

definition fe_ok :: "fe \<Rightarrow> bool" where
  "fe_ok a \<longleftrightarrow> length a = 10"

lemma fe_carry_ok:
  "\<forall>i \<in> set is. i + 1 < length t \<Longrightarrow> \<exists>t'. fe_carry is t = Some t' \<and> length t' = length t"
proof (induction "is" arbitrary: t)
  case (Cons i "is")
  let ?t = "t[i + 1 := t ! (i + 1) + drop_bit 51 (t ! i), i := t ! i AND LIMB_MASK]"
  have "\<exists>t'. fe_carry is ?t = Some t' \<and> length t' = length ?t"
    by (rule Cons.IH) (use Cons.prems in simp)
  then show ?case using Cons.prems by (simp add: rd_Some wr_Some)
qed simp

lemma fe_carry_append: "fe_carry (xs @ ys) = (\<lambda>t. do { t \<leftarrow> fe_carry xs t; fe_carry ys t })"
proof (induction xs)
  case (Cons i xs)
  show ?case by (rule ext) (simp add: Cons)
qed (simp add: fun_eq_iff)

lemma fe_fold_ok: "hi < length t \<Longrightarrow> \<exists>t'. fe_fold hi t = Some t' \<and> length t' = length t"
  by (frule gr_implies_not0) (simp add: fe_fold_def rd_Some wr_Some)

lemma fe_products_ok:
  "\<forall>(i, j) \<in> set ijs. i < length a \<and> j < length b \<and> i + j < length t \<Longrightarrow>
   \<exists>t'. fe_products ijs a b t = Some t' \<and> length t' = length t"
proof (induction ijs arbitrary: t)
  case (Cons ij ijs)
  obtain i j where ij: "ij = (i, j)" by (cases ij)
  let ?t = "t[i + j := t ! (i + j) + ucast (a ! i) * ucast (b ! j)]"
  have "\<exists>t'. fe_products ijs a b ?t = Some t' \<and> length t' = length ?t"
    by (rule Cons.IH) (use Cons.prems in auto)
  then show ?case using Cons.prems by (simp add: ij rd_Some wr_Some)
qed simp

lemma fe_gather_ok:
  "\<forall>i \<in> set is. i < length inp \<and> i div 5 < length t \<Longrightarrow> \<exists>t'. fe_gather is inp t = Some t' \<and> length t' = length t"
proof (induction "is" arbitrary: t)
  case (Cons i "is")
  let ?t = "t[i div 5 := t ! (i div 5) + push_bit (8 * (i mod 5)) (ucast (inp ! i))]"
  have "\<exists>t'. fe_gather is inp ?t = Some t' \<and> length t' = length ?t"
    by (rule Cons.IH) (use Cons.prems in simp)
  then show ?case using Cons.prems by (simp add: rd_Some wr_Some)
qed simp

lemma fe_mul_ok: "fe_ok a \<Longrightarrow> fe_ok b \<Longrightarrow> \<exists>r. fe_mul a b = Some r \<and> fe_ok r"
proof -
  assume ab: "fe_ok a" "fe_ok b"
  obtain t1 where 1: "fe_products [(i, j). i \<leftarrow> [0 ..< 10], j \<leftarrow> [0 ..< 10]] a b (replicate 20 0) = Some t1" "length t1 = 20"
    using fe_products_ok [of "[(i, j). i \<leftarrow> [0 ..< 10], j \<leftarrow> [0 ..< 10]]" a b "replicate 20 0"] ab
    by (auto simp: fe_ok_def)
  obtain t2 where 2: "fe_carry [0 ..< 19] t1 = Some t2" "length t2 = 20"
    using fe_carry_ok [of "[0 ..< 19]" t1] 1 by auto
  obtain t3 where 3: "fe_fold 19 t2 = Some t3" "length t3 = 20" using fe_fold_ok [of 19 t2] 2 by auto
  obtain t4 where 4: "fe_carry [0 ..< 19] t3 = Some t4" "length t4 = 20"
    using fe_carry_ok [of "[0 ..< 19]" t3] 3 by auto
  show ?thesis
    unfolding fe_mul_def 1(1) bind.bind_lunit 2(1) 3(1) 4(1) using 4(2) by (simp add: mem_simps fe_ok_def)
qed

lemma fe_sq_ok: "fe_ok a \<Longrightarrow> \<exists>r. fe_sq a = Some r \<and> fe_ok r"
  by (simp add: fe_sq_def fe_mul_ok)

lemma fe_sqs_ok: "fe_ok a \<Longrightarrow> \<exists>r. fe_sqs n a = Some r \<and> fe_ok r"
proof (induction n arbitrary: a)
  case (Suc n)
  obtain b where "fe_sq a = Some b" "fe_ok b" using fe_sq_ok Suc.prems by blast
  then show ?case using Suc.IH by simp
qed simp

lemma fe_add_ok: "fe_ok a \<Longrightarrow> fe_ok b \<Longrightarrow> fe_ok (fe_add a b)"
  by (simp add: fe_ok_def fe_add_def)

lemma fe_sub_ok: "fe_ok a \<Longrightarrow> fe_ok b \<Longrightarrow> fe_ok (fe_sub a b)"
proof -
  have "length (fe_sub_loop xys c) = length xys" for xys c
    by (induction xys c rule: fe_sub_loop.induct) (simp_all add: Let_def)
  then show "fe_ok a \<Longrightarrow> fe_ok b \<Longrightarrow> fe_ok (fe_sub a b)" by (simp add: fe_ok_def fe_sub_def)
qed

lemma ladder_step_ok:
  assumes "fe_ok x1" "fe_ok (ld_x2 l)" "fe_ok (ld_z2 l)"
  shows "\<exists>l'. ladder_step x1 l = Some l' \<and> fe_ok (ld_x2 l') \<and> fe_ok (ld_z2 l') \<and> fe_ok (ld_x3 l') \<and> fe_ok (ld_z3 l')"
proof -
  have t: "fe_ok (fe_add (ld_x2 l) (ld_z2 l))" "fe_ok (fe_sub (ld_x2 l) (ld_z2 l))"
    using assms by (simp_all add: fe_add_ok fe_sub_ok)
  obtain x2 where 1: "fe_sq (fe_add (ld_x2 l) (ld_z2 l)) = Some x2" "fe_ok x2" using fe_sq_ok t(1) by blast
  obtain z2 where 2: "fe_sq (fe_sub x2 (fe_sub (ld_x2 l) (ld_z2 l))) = Some z2" "fe_ok z2"
    using fe_sq_ok fe_sub_ok 1(2) t(2) by blast
  obtain z2' where 3: "fe_mul z2 x1 = Some z2'" "fe_ok z2'" using fe_mul_ok 2(2) assms(1) by blast
  obtain z3 where 4: "fe_mul (fe_sub x2 z2') (fe_add (ld_x2 l) (ld_z2 l)) = Some z3" "fe_ok z3"
    using fe_mul_ok fe_sub_ok 1(2) 3(2) t(1) by blast
  obtain t0 where 5: "fe_sq (fe_add x2 z2') = Some t0" "fe_ok t0" using fe_sq_ok fe_add_ok 1(2) 3(2) by blast
  obtain x3 where 6: "fe_mul z3 x2 = Some x3" "fe_ok x3" using fe_mul_ok 4(2) 1(2) by blast
  obtain z3' where 7: "fe_mul t0 z2' = Some z3'" "fe_ok z3'" using fe_mul_ok 5(2) 3(2) by blast
  obtain t1 where 8: "fe_sq x2 = Some t1" "fe_ok t1" using fe_sq_ok 1(2) by blast
  obtain x2' where 9: "fe_mul t1 z2' = Some x2'" "fe_ok x2'" using fe_mul_ok 8(2) 3(2) by blast
  show ?thesis
    unfolding ladder_step_def bind.bind_lunit 1(1) 2(1) 3(1) 4(1) 5(1) 6(1) 7(1) 8(1) 9(1)
    using 9(2) 3(2) 6(2) 7(2) by simp
qed

definition ladder_ok :: "ladder \<Rightarrow> bool" where
  "ladder_ok l \<longleftrightarrow> fe_ok (ld_x2 l) \<and> fe_ok (ld_z2 l) \<and> fe_ok (ld_x3 l) \<and> fe_ok (ld_z3 l)"

lemma ladder_loop_ok:
  "\<forall>i \<in> set is. i div 8 < length scalar \<Longrightarrow> fe_ok x1 \<Longrightarrow> ladder_ok l \<Longrightarrow>
   \<exists>l'. ladder_loop is scalar x1 l = Some l' \<and> ladder_ok l'"
proof (induction "is" arbitrary: l)
  case (Cons i "is")
  obtain b where b: "ladder_bit scalar i = Some b" using Cons(2) by (simp add: ladder_bit_def rd_Some)
  have "ladder_ok (ladder_swap b l)" using Cons(4) by (auto simp: ladder_ok_def ladder_swap_def Let_def)
  then obtain l' where "ladder_step x1 (ladder_swap b l) = Some l'" "ladder_ok l'"
    using ladder_step_ok [OF Cons(3)] by (auto simp: ladder_ok_def)
  then show ?case using Cons b by simp
qed simp

lemma fe_load_ok: "32 \<le> length inp \<Longrightarrow> \<exists>r. fe_load inp = Some r \<and> fe_ok r"
proof -
  assume "32 \<le> length inp"
  then obtain t where "fe_gather [0 ..< 32] inp (replicate 10 0) = Some t"
    using fe_gather_ok [of "[0 ..< 32]" inp "replicate 10 0"] by (auto simp: div_less_iff_less_mult)
  then show ?thesis by (simp add: fe_load_def Let_def fe_ok_def)
qed

lemma x25519_point_ok:
  assumes "32 \<le> length scalar" "32 \<le> length point"
  shows "\<exists>r. x25519_point scalar point = Some r \<and> fe_ok r"
proof -
  obtain x1 where x1: "fe_load point = Some x1" "fe_ok x1" using fe_load_ok assms(2) by blast
  have "ladder_ok (ladder_start x1)"
    using x1(2) by (simp add: ladder_ok_def ladder_start_def fe_ok_def fe_set_def)
  moreover have "\<forall>i \<in> set (rev [0 ..< 256]). i div 8 < length scalar"
    using assms(1) by (auto simp: div_less_iff_less_mult)
  ultimately obtain l where l: "ladder_loop (rev [0 ..< 256]) scalar x1 (ladder_start x1) = Some l" "ladder_ok l"
    using ladder_loop_ok x1(2) by blast
  obtain z where z: "fe_mul (ld_z2 l) (ld_z3 l) = Some z" "fe_ok z"
    using fe_mul_ok l(2) by (auto simp: ladder_ok_def)
  obtain t where t: "fe_sqs 253 z = Some t" "fe_ok t" using fe_sqs_ok z(2) by blast
  obtain r where r: "fe_sq t = Some r" "fe_ok r" using fe_sq_ok t(2) by blast
  obtain r2 where r2: "fe_mul r r = Some r2" "fe_ok r2" using fe_mul_ok r(2) by blast
  obtain w where w: "fe_sqs 252 r2 = Some w" "fe_ok w" using fe_sqs_ok r2(2) by blast
  have inv: "fe_inv_self z = Some w"
    unfolding fe_inv_self_def t(1) bind.bind_lunit r(1) r2(1) w(1) ..
  have "\<exists>p. fe_mul (ld_x2 l) w = Some p \<and> fe_ok p" using fe_mul_ok l(2) w(2) by (simp add: ladder_ok_def)
  then show ?thesis unfolding x25519_point_def x1(1) bind.bind_lunit l(1) z(1) inv .
qed

text \<open>C30. The shared secret is never computed inside the bounds: for every private key and every point
  of 32 bytes the ladder and the inversion stay inside their arrays, but the conversion of the
  result to bytes writes the eleventh of ten words of its temporary.\<close>

theorem x25519_out_of_bounds:
  assumes "length my_priv = 32" "length peer_pub = 32"
  shows "(\<exists>p. x25519_point (clamp my_priv) peer_pub = Some p \<and> length p = 10 \<and> fe_store p out = None)
    \<and> x25519_shared out my_priv peer_pub = None"
proof (intro conjI)
  have s: "fe_store p out = None" if p: "length p = 10" for p
  proof -
    obtain t where "fe_carry [0 ..< 9] (map ucast p) = Some t" "length t = 10"
      using fe_carry_ok [of "[0 ..< 9]" "map ucast p"] p by auto
    then have "fe_carry ([0 ..< 9] @ [9]) (map ucast p) = None"
      by (simp only: fe_carry_append) (simp add: rd_def)
    moreover have "[0 ..< 10] = [0 ..< 9] @ [9 :: nat]" by (simp add: upt_rec)
    ultimately show ?thesis by (simp only: fe_store_def bind.bind_lunit) simp
  qed
  show "\<exists>p. x25519_point (clamp my_priv) peer_pub = Some p \<and> length p = 10 \<and> fe_store p out = None"
    using x25519_point_ok [of "clamp my_priv" peer_pub] s assms by (auto simp: fe_ok_def clamp_def)
  then show "x25519_shared out my_priv peer_pub = None"
    using assms by (auto simp: x25519_shared_def x25519_core_def)
qed

theorem x25519_out_of_bounds_witness:
  "x25519_shared (replicate 32 0) x25519_keygen (replicate 32 9) = None"
  using x25519_out_of_bounds [of x25519_keygen "replicate 32 9"]
  by (simp add: x25519_keygen_def clamp_def del: replicate.simps)

end
