(* ===== verification/Tls.thy ===== *)
theory Tls
  imports Aes_Gcm X25519
begin

unbundle bit_operations_syntax

text \<open>
  The TLS client of \<^verbatim>\<open>kernel/tls.c\<close>: its connection, the key derivation, the records it sends, and the
  handshake's phases. What it sends is a list of payloads for the network stack, its callbacks are a
  list of events; reads and writes outside an array, a write through a null pointer among them, are
  \<open>None\<close>. Two things are parameters: the shared-secret routine (\<^verbatim>\<open>x25519_shared\<close> of the program is one
  instance) and what the stack memory of an uninitialised buffer holds.

  The lemmas show that received data never leaves the receive buffer, what is wrong with the messages
  the client builds and accepts, and that no application data ever reaches the network stack.
\<close>

section \<open>The connection\<close>

record tls_conn =
  tc_active :: bool
  tc_phase :: nat
  tc_deadline :: u64
  tc_retries :: nat
  tc_host :: bytes
  tc_server_pub :: bytes
  tc_server_pub_set :: bool
  tc_my_priv :: bytes
  tc_my_pub :: bytes
  tc_shared :: bytes
  tc_client_write_key :: bytes
  tc_server_write_key :: bytes
  tc_client_write_iv :: bytes
  tc_server_write_iv :: bytes
  tc_client_seq :: u64
  tc_server_seq :: u64
  tc_rx_buf :: bytes
  tc_rx_len :: nat
  tc_rx_consumed :: nat
  tc_app_buf :: bytes
  tc_app_len :: nat
  tc_app_cap :: nat
  tc_app_done :: bool
  tc_cb :: bool
  tc_cb_ctx :: nat
  tc_pending_handshake :: bytes
  tc_pending_len :: nat
  tc_last_send :: u64
  tc_app_ready :: bool
  tc_cb_delivered :: bool

text \<open>The connection after \<^verbatim>\<open>memset\<close>.\<close>

definition tls_zero :: tls_conn where
  "tls_zero =
     \<lparr>tc_active = False, tc_phase = 0, tc_deadline = 0, tc_retries = 0, tc_host = replicate 96 0,
      tc_server_pub = replicate 32 0, tc_server_pub_set = False, tc_my_priv = replicate 32 0,
      tc_my_pub = replicate 32 0, tc_shared = replicate 32 0, tc_client_write_key = replicate 16 0,
      tc_server_write_key = replicate 16 0, tc_client_write_iv = replicate 12 0,
      tc_server_write_iv = replicate 12 0, tc_client_seq = 0, tc_server_seq = 0,
      tc_rx_buf = replicate 8192 0, tc_rx_len = 0, tc_rx_consumed = 0, tc_app_buf = replicate 8192 0,
      tc_app_len = 0, tc_app_cap = 0, tc_app_done = False, tc_cb = False, tc_cb_ctx = 0,
      tc_pending_handshake = replicate 4096 0, tc_pending_len = 0, tc_last_send = 0,
      tc_app_ready = False, tc_cb_delivered = False\<rparr>"

text \<open>The global state: the connection, the hash context, the clock, the payloads sent so far and the
  callbacks made so far (status and length).\<close>

record tls =
  tls_c :: tls_conn
  tls_sha :: sha256_ctx
  tls_ticks :: u64
  tls_out :: "bytes list"
  tls_calls :: "(int \<times> nat) list"

text \<open>The routine for the shared secret (output's old bytes, private key, peer's key) and the old contents of
  a local buffer.\<close>

record tls_env =
  te_shared :: "bytes \<Rightarrow> bytes \<Rightarrow> bytes \<Rightarrow> bytes option"
  te_stack :: "nat \<Rightarrow> bytes"

definition tls_call :: "int \<Rightarrow> nat \<Rightarrow> tls \<Rightarrow> tls" where
  "tls_call st n s = (if tc_cb (tls_c s) then s\<lparr>tls_calls := tls_calls s @ [(st, n)]\<rparr> else s)"

definition set_conn :: "(tls_conn \<Rightarrow> tls_conn) \<Rightarrow> tls \<Rightarrow> tls" where
  "set_conn f s = s\<lparr>tls_c := f (tls_c s)\<rparr>"

section \<open>Keys\<close>

definition tls_hmac_sha256 :: "bytes \<Rightarrow> bytes \<Rightarrow> sha256_ctx \<Rightarrow> (bytes \<times> sha256_ctx) option" where
  "tls_hmac_sha256 key msg sh =
     (let pad = (\<lambda>x. map (\<lambda>i. if i < length key then x XOR key ! i else x) [0 ..< 64]) in
      do { sh \<leftarrow> sha256_update (pad 0x36) (sha256_init sh);
           sh \<leftarrow> sha256_update msg sh;
           (inner, sh) \<leftarrow> sha256_final sh;
           sh \<leftarrow> sha256_update (pad 0x5C) (sha256_init sh);
           sh \<leftarrow> sha256_update inner sh;
           sha256_final sh })"

function prf_loop :: "bytes \<Rightarrow> bytes \<Rightarrow> nat \<Rightarrow> sha256_ctx \<Rightarrow> (bytes \<times> sha256_ctx) option" where
  "prf_loop secret a n sh =
     (if n = 0 then Some ([], sh)
      else do { (tmp, sh) \<leftarrow> tls_hmac_sha256 secret a sh;
                (a, sh) \<leftarrow> tls_hmac_sha256 secret a sh;
                (rest, sh) \<leftarrow> prf_loop secret a (n - min n 32) sh;
                Some (take (min n 32) tmp @ rest, sh) })"
  by pat_completeness auto
termination
  by (relation "measure (\<lambda>(secret, a, n, sh). n)") auto

declare prf_loop.simps [simp del]

definition tls_prf :: "bytes \<Rightarrow> bytes \<Rightarrow> bytes \<Rightarrow> nat \<Rightarrow> sha256_ctx \<Rightarrow> (bytes \<times> sha256_ctx) option" where
  "tls_prf secret label seed n sh =
     do { (a, sh) \<leftarrow> tls_hmac_sha256 secret (label @ seed) sh; prf_loop secret a n sh }"

definition KEY_EXPANSION :: bytes where
  "KEY_EXPANSION = map of_char ''key expansion''"

definition TLS_VERIFY_LABEL :: bytes where
  "TLS_VERIFY_LABEL = map of_char ''TLS 1.2, Client Finished''"

definition tls_derive_keys :: "tls \<Rightarrow> tls option" where
  "tls_derive_keys s =
     do { (kb, sh) \<leftarrow> tls_prf (tc_shared (tls_c s)) KEY_EXPANSION (take 13 KEY_EXPANSION @ replicate 51 0) 128 (tls_sha s);
          Some (s\<lparr>tls_sha := sh, tls_c := (tls_c s)
            \<lparr>tc_client_write_key := take 16 kb, tc_server_write_key := take 16 (drop 16 kb),
             tc_client_write_iv := take 12 (drop 32 kb), tc_server_write_iv := take 12 (drop 44 kb),
             tc_client_seq := 0, tc_server_seq := 0\<rparr>\<rparr>) }"

section \<open>Records\<close>

definition TLS_CID_ALERT :: u8 where "TLS_CID_ALERT = 0x15"
definition TLS_CID_HANDSHAKE :: u8 where "TLS_CID_HANDSHAKE = 22"
definition TLS_CID_APPLICATION :: u8 where "TLS_CID_APPLICATION = 23"
definition TLS_CID_CHANGE_CIPHER :: u8 where "TLS_CID_CHANGE_CIPHER = 20"

definition TLS_HS_SERVER_HELLO :: u8 where "TLS_HS_SERVER_HELLO = 2"
definition TLS_HS_CERTIFICATE :: u8 where "TLS_HS_CERTIFICATE = 11"
definition TLS_HS_SERVER_KEY_EXCH :: u8 where "TLS_HS_SERVER_KEY_EXCH = 12"
definition TLS_HS_SERVER_HELLO_DONE :: u8 where "TLS_HS_SERVER_HELLO_DONE = 14"
definition TLS_HS_FINISHED :: u8 where "TLS_HS_FINISHED = 20"

definition tls_record_init :: "u8 \<Rightarrow> u16 \<Rightarrow> bytes" where
  "tls_record_init cid len = [cid, 3, 3] @ bytes16 len"

definition tls_be16 :: "bytes \<Rightarrow> nat \<Rightarrow> u16 option" where
  "tls_be16 p off = do { a \<leftarrow> rd p off; b \<leftarrow> rd p (off + 1); Some (mk16 a b) }"

definition tls_be24 :: "bytes \<Rightarrow> nat \<Rightarrow> u32 option" where
  "tls_be24 p off = do { a \<leftarrow> rd p off; b \<leftarrow> rd p (off + 1); c \<leftarrow> rd p (off + 2); Some (mk32 0 a b c) }"

text \<open>The senders' first component: whether they return 0.\<close>

definition tls_send_raw :: "bytes \<Rightarrow> tls \<Rightarrow> bool \<times> tls" where
  "tls_send_raw dat s =
     (if \<not> tc_active (tls_c s) then (False, s)
      else (True, s\<lparr>tls_out := tls_out s @ [take 8192 dat], tls_c := (tls_c s)\<lparr>tc_last_send := tls_ticks s\<rparr>\<rparr>))"

definition tls_send_record :: "u8 \<Rightarrow> bytes \<Rightarrow> u16 \<Rightarrow> tls \<Rightarrow> (bool \<times> tls) option" where
  "tls_send_record cid pay plen s =
     (if 5 + unat plen > 5 + 1500 then Some (False, s)
      else do { b \<leftarrow> rd_range pay 0 (unat plen); Some (tls_send_raw (tls_record_init cid plen @ b) s) })"

definition tls_send_handshake :: "bytes \<Rightarrow> nat \<Rightarrow> tls \<Rightarrow> (bool \<times> tls) option" where
  "tls_send_handshake msg len s =
     (if len > 512 then Some (False, s)
      else do { buf \<leftarrow> rd_range msg 0 len; tls_send_record TLS_CID_HANDSHAKE buf (of_nat len) s })"

section \<open>Handshake messages\<close>

definition host_string :: "bytes \<Rightarrow> bytes" where
  "host_string h = take 96 (takeWhile (\<lambda>c. c \<noteq> 0) h)"

definition hello_fixed :: bytes where
  "hello_fixed = [3, 3] @ replicate 32 0xAB @ [0] @ [0, 6] @ [0xc0, 0x2f] @ [0xc0, 0x2c] @ [0x00, 0x2f] @ [1] @ [0]"

definition sni_data_len :: "nat \<Rightarrow> nat" where
  "sni_data_len n = (if n > 0 then 2 + 1 + 2 + n else 0)"

definition ext_total :: "nat \<Rightarrow> nat" where
  "ext_total n = (if n > 0 then 4 + sni_data_len n else 0) + (4 + (2 + 2 * 2)) + (4 + (2 + 3 * 2)) + (4 + (1 + 1))
     + (4 + 1) + (4 + 1)"

definition hello_sni :: "bytes \<Rightarrow> bytes" where
  "hello_sni host =
     (if length host > 0 then
        [0, 0] @ bytes16 (of_nat (sni_data_len (length host))) @ bytes16 (of_nat (3 + length host)) @ [0]
        @ bytes16 (of_nat (length host)) @ host
      else [])"

definition hello_extensions :: bytes where
  "hello_extensions =
     [0, 0x0A] @ bytes16 6 @ [0x00, 0x17, 0x00, 0x1D]
     @ [0, 0x0D] @ bytes16 8 @ [0x04, 0x01, 0x05, 0x01, 0x04, 0x03]
     @ [0, 0x0B, 0, 2] @ [1, 0]
     @ [0, 0x17, 0, 1] @ [0]
     @ [0xFF, 0x01, 0, 1] @ [0]"

definition hello_body :: "bytes \<Rightarrow> bytes" where
  "hello_body host =
     hello_fixed @ bytes16 (of_nat (ext_total (length host))) @ hello_sni host @ hello_extensions"

definition tls_build_client_hello :: "tls_conn \<Rightarrow> bytes \<Rightarrow> (bytes \<times> nat) option" where
  "tls_build_client_hello c out =
     (let body = hello_body (host_string (tc_host c));
          msg = tl (bytes32 (of_nat (length body)))
      in do { out \<leftarrow> wr_range out 0 ([1] @ msg @ body); Some (out, 4 + length body) })"

definition tls_build_client_key_exchange :: "tls_conn \<Rightarrow> bytes \<Rightarrow> (bytes \<times> nat) option" where
  "tls_build_client_key_exchange c out =
     do { out \<leftarrow> wr_range out 0 ([16, 0, 0, 0] @ bytes16 32 @ take 32 (tc_my_pub c)); Some (out, 38) }"

definition tls_build_change_cipher :: bytes where
  "tls_build_change_cipher = [20, 0, 0, 0]"

definition tls_build_finished :: "tls \<Rightarrow> bytes \<Rightarrow> bytes \<Rightarrow> (bytes \<times> tls) option" where
  "tls_build_finished s out label =
     do { (verify, sh) \<leftarrow> tls_prf (tc_shared (tls_c s)) label (take 13 label @ replicate 51 0) 32 (tls_sha s);
          out \<leftarrow> wr_range out 0 ([TLS_HS_FINISHED, 0, 0, 12] @ take 12 verify);
          Some (out, s\<lparr>tls_sha := sh\<rparr>) }"

text \<open>The parsers read the receive buffer at \<open>off\<close>; their result says whether they return 0.\<close>

definition tls_parse_server_hello :: "bytes \<Rightarrow> nat \<Rightarrow> nat \<Rightarrow> bool option" where
  "tls_parse_server_hello p off n =
     (if n < 38 then Some False
      else do { ty \<leftarrow> rd p off;
        if ty \<noteq> TLS_HS_SERVER_HELLO then Some False
        else do { body_len \<leftarrow> tls_be24 p (off + 1);
          if unat body_len + 4 > n then Some False
          else do { v \<leftarrow> rd p (off + 4); w \<leftarrow> rd p (off + 5); Some (v = 3 \<and> w = 3) } } })"

definition kex_key :: "bytes \<Rightarrow> nat \<Rightarrow> nat \<Rightarrow> nat option option" where
  "kex_key p off n =
     (if n < 4 then Some None
      else do { ty \<leftarrow> rd p off;
        if ty \<noteq> TLS_HS_SERVER_KEY_EXCH then Some None
        else if n < 6 then Some None
        else do { kind \<leftarrow> rd p (off + 4);
          if kind = 3 then
            do { curve \<leftarrow> tls_be16 p (off + 5);
                 if curve \<noteq> 0x0017 \<and> curve \<noteq> 0x001D then Some None
                 else do { pl \<leftarrow> rd p (off + 7);
                   if curve = 0x0017 then
                     (if pl \<noteq> 65 \<or> unat pl + 4 > n then Some None else Some (Some (off + 9)))
                   else (if pl \<noteq> 32 \<or> unat pl + 4 > n then Some None else Some (Some (off + 8))) } }
          else do { pl \<leftarrow> rd p (off + 7);
                    if pl \<noteq> 32 \<or> 5 + 32 > n then Some None else Some (Some (off + 8)) } } })"

definition tls_parse_server_kex :: "nat \<Rightarrow> nat \<Rightarrow> tls_conn \<Rightarrow> (bool \<times> tls_conn) option" where
  "tls_parse_server_kex off n c =
     do { k \<leftarrow> kex_key (tc_rx_buf c) off n;
          case k of None \<Rightarrow> Some (False, c)
          | Some i \<Rightarrow> do { key \<leftarrow> rd_range (tc_rx_buf c) i 32;
                           Some (True, c\<lparr>tc_server_pub := key, tc_server_pub_set := True\<rparr>) } }"

section \<open>Encrypted records\<close>

definition seq_iv :: "bytes \<Rightarrow> u64 \<Rightarrow> bytes" where
  "seq_iv iv sq = take 8 iv @ bytes32 (ucast sq)"

definition seq_bytes :: "u64 \<Rightarrow> bytes" where
  "seq_bytes sq = bytes32 (ucast (drop_bit 32 sq)) @ bytes32 (ucast sq)"

text \<open>One record through the cipher: the output buffer and the tag.\<close>

definition tls_crypt :: "bytes \<Rightarrow> bytes \<Rightarrow> u64 \<Rightarrow> bytes \<Rightarrow> bytes \<Rightarrow> bytes \<Rightarrow> (bytes \<times> bytes) option" where
  "tls_crypt key iv sq hdr inp out =
     (let (k, g) = gcm_init key (seq_iv iv sq) in
      do { g \<leftarrow> gcm_update g (seq_bytes sq); g \<leftarrow> gcm_update g hdr;
           (g, out) \<leftarrow> gcm_encrypt k g inp out;
           Some (out, fst (gcm_final k g)) })"

text \<open>A sealed record in a buffer of \<open>m\<close> bytes whose old contents are \<open>stk\<close>.\<close>

definition tls_seal :: "u8 \<Rightarrow> bytes \<Rightarrow> bytes \<Rightarrow> tls_conn \<Rightarrow> bytes option" where
  "tls_seal cid dat stk c =
     (let n = length dat in
      do { (out, tag) \<leftarrow> tls_crypt (tc_client_write_key c) (tc_client_write_iv c) (tc_client_seq c)
             (tls_record_init cid (of_nat n)) dat (drop 5 stk);
           out \<leftarrow> wr_range out n tag;
           Some (tls_record_init cid (of_nat (n + 16)) @ take (n + 16) out) })"

definition tls_encrypt_record :: "bytes \<Rightarrow> bytes \<Rightarrow> u8 \<Rightarrow> tls_conn \<Rightarrow> (bytes \<times> tls_conn) option" where
  "tls_encrypt_record out dat cid c =
     do { rec \<leftarrow> tls_seal cid dat out c; Some (rec, c\<lparr>tc_client_seq := tc_client_seq c + 1\<rparr>) }"

definition tls_send_app_data :: "tls_env \<Rightarrow> bytes \<Rightarrow> tls \<Rightarrow> tls option" where
  "tls_send_app_data e dat s =
     do { rec \<leftarrow> tls_seal TLS_CID_APPLICATION (take 1400 dat) (te_stack e (5 + 1400 + 16)) (tls_c s);
          Some (s\<lparr>tls_out := tls_out s @ [rec],
                  tls_c := (tls_c s)\<lparr>tc_client_seq := tc_client_seq (tls_c s) + 1\<rparr>\<rparr>) }"

text \<open>\<open>cid\<close>: whether the caller passed a pointer for the record's type; the decoder writes through it.
  The result is the plain text, or the decoder's failure.\<close>

definition tls_decrypt_record ::
    "tls_env \<Rightarrow> nat \<Rightarrow> nat \<Rightarrow> bool \<Rightarrow> tls_conn \<Rightarrow> (bytes option \<times> tls_conn) option" where
  "tls_decrypt_record e off in_len cid c =
     (let p = tc_rx_buf c in
      if in_len < 5 then Some (None, c)
      else do { plen \<leftarrow> tls_be16 p (off + 3);
        if in_len < 5 + unat plen then Some (None, c)
        else do { ty \<leftarrow> rd p off;
          if ty \<noteq> TLS_CID_HANDSHAKE \<and> ty \<noteq> TLS_CID_APPLICATION then Some (None, c)
          else if \<not> cid then None
          else (let ct_len = unat (plen - 16) in
            if plen < 16 \<or> ct_len > in_len - 5 then Some (None, c)
            else do { ct \<leftarrow> rd_range p (off + 5) ct_len;
              (pt, tag) \<leftarrow> tls_crypt (tc_server_write_key c) (tc_server_write_iv c) (tc_server_seq c)
                 (tls_record_init ty (of_nat ct_len)) ct (te_stack e 4096);
              got \<leftarrow> rd_range p (off + 5 + ct_len) 16;
              if tag \<noteq> got then Some (None, c)
              else do { pt \<leftarrow> rd_range pt 0 ct_len;
                        Some (Some pt, c\<lparr>tc_server_seq := tc_server_seq c + 1\<rparr>) } }) } })"

section \<open>The phases\<close>

definition tls_phase_hello :: "tls_env \<Rightarrow> tls \<Rightarrow> tls option" where
  "tls_phase_hello e s =
     do { (buf, blen) \<leftarrow> tls_build_client_hello (tls_c s) (te_stack e 128);
          (ok, s) \<leftarrow> tls_send_handshake buf blen s;
          Some (if ok then set_conn (\<lambda>c. c\<lparr>tc_phase := 1, tc_retries := 0\<rparr>) s else s) }"

definition tls_feed :: "bytes \<Rightarrow> tls_conn \<Rightarrow> tls_conn option" where
  "tls_feed dat c =
     (if \<not> tc_active c \<or> dat = [] then Some c
      else if tc_phase c = 1 \<or> tc_phase c = 2 then
        (let dat = (if tc_rx_len c + length dat > 8192 then take (8192 - tc_rx_len c) dat else dat) in
         do { rx \<leftarrow> wr_range (tc_rx_buf c) (tc_rx_len c) dat;
              Some (c\<lparr>tc_rx_buf := rx, tc_rx_len := tc_rx_len c + length dat\<rparr>) })
      else Some c)"

text \<open>The move of the bytes after \<open>off\<close> to the buffer's front, and the buffer after a pass that stopped at
  \<open>off\<close>.\<close>

definition rx_shift :: "nat \<Rightarrow> tls_conn \<Rightarrow> tls_conn option" where
  "rx_shift off c =
     do { b \<leftarrow> rd_range (tc_rx_buf c) off (tc_rx_len c - off);
          rx \<leftarrow> wr_range (tc_rx_buf c) 0 b;
          Some (c\<lparr>tc_rx_buf := rx, tc_rx_len := tc_rx_len c - off\<rparr>) }"

definition rx_keep :: "nat \<Rightarrow> tls_conn \<Rightarrow> tls_conn option" where
  "rx_keep off c =
     (if off > 0 \<and> off < tc_rx_len c then rx_shift off c
      else if off = 0 \<and> tc_rx_len c > 0 then Some c
      else Some (c\<lparr>tc_rx_len := 0\<rparr>))"

definition rx_consume :: "tls_conn \<Rightarrow> tls_conn option" where
  "rx_consume c =
     do { c \<leftarrow> (if tc_rx_consumed c > 0 \<and> tc_rx_consumed c < tc_rx_len c then rx_shift (tc_rx_consumed c) c
               else if tc_rx_consumed c \<ge> tc_rx_len c then Some (c\<lparr>tc_rx_len := 0\<rparr>)
               else Some c);
          Some (c\<lparr>tc_rx_consumed := 0\<rparr>) }"

text \<open>The client's answer to the end of the server's messages.\<close>

definition tls_hello_done :: "tls_env \<Rightarrow> tls \<Rightarrow> tls option" where
  "tls_hello_done e s =
     do { s \<leftarrow> Some (set_conn (\<lambda>c. c\<lparr>tc_my_priv := x25519_keygen\<rparr>) s);
          sec \<leftarrow> te_shared e (tc_shared (tls_c s)) (tc_my_priv (tls_c s)) (tc_server_pub (tls_c s));
          s \<leftarrow> tls_derive_keys (set_conn (\<lambda>c. c\<lparr>tc_shared := sec\<rparr>) s);
          (ckex, n) \<leftarrow> tls_build_client_key_exchange (tls_c s) (te_stack e 128);
          (_, s) \<leftarrow> tls_send_handshake ckex n s;
          (_, s) \<leftarrow> tls_send_record TLS_CID_CHANGE_CIPHER tls_build_change_cipher 4 s;
          (cfin, s) \<leftarrow> tls_build_finished s (te_stack e 20) TLS_VERIFY_LABEL;
          (_, s) \<leftarrow> tls_send_handshake cfin 16 s;
          Some (set_conn (\<lambda>c. c\<lparr>tc_phase := 2, tc_retries := 0\<rparr>) s) }"

text \<open>Where the loop over the records ends: a return from the phase, or an offset.\<close>

datatype hs_end = Hs_return tls | Hs_break nat tls

definition keep_certificate :: "nat \<Rightarrow> nat \<Rightarrow> tls_conn \<Rightarrow> tls_conn option" where
  "keep_certificate off plen c =
     do { cert \<leftarrow> rd_range (tc_rx_buf c) off plen;
          pend \<leftarrow> wr_range (tc_pending_handshake c) 0 cert;
          Some (c\<lparr>tc_pending_handshake := pend, tc_pending_len := plen\<rparr>) }"

text \<open>One record: the end of the loop, or the next offset.\<close>

definition hs_message :: "tls_env \<Rightarrow> nat \<Rightarrow> nat \<Rightarrow> tls \<Rightarrow> (hs_end + nat \<times> tls) option" where
  "hs_message e off plen s =
     (let c = tls_c s; nxt = off + (5 + plen) in
      do { msg_type \<leftarrow> rd (tc_rx_buf c) (off + 5);
        if msg_type = TLS_HS_SERVER_HELLO then
          do { ok \<leftarrow> tls_parse_server_hello (tc_rx_buf c) (off + 5) plen;
               Some (if ok then Inr (nxt, s) else Inl (Hs_break off s)) }
        else if msg_type = TLS_HS_CERTIFICATE then
          do { c \<leftarrow> keep_certificate (off + 5) plen c; Some (Inr (nxt, s\<lparr>tls_c := c\<rparr>)) }
        else if msg_type = TLS_HS_SERVER_KEY_EXCH then
          do { (ok, c) \<leftarrow> tls_parse_server_kex (off + 5) plen c;
               Some (if ok then Inr (nxt, s\<lparr>tls_c := c\<rparr>) else Inl (Hs_break off s)) }
        else if msg_type = TLS_HS_SERVER_HELLO_DONE then
          do { s \<leftarrow> tls_hello_done e s;
               c \<leftarrow> rx_keep nxt (tls_c s);
               Some (Inl (Hs_return (s\<lparr>tls_c := c\<lparr>tc_rx_consumed := 0\<rparr>\<rparr>))) }
        else Some (Inr (nxt, s)) })"

definition hs_record :: "tls_env \<Rightarrow> nat \<Rightarrow> tls \<Rightarrow> (hs_end + nat \<times> tls) option" where
  "hs_record e off s =
     (let c = tls_c s; n = tc_rx_len c in
      if off + 5 > n then Some (Inl (Hs_break off s))
      else do { plen \<leftarrow> tls_be16 (tc_rx_buf c) (off + 3);
        ty \<leftarrow> rd (tc_rx_buf c) off;
        if ty = TLS_CID_ALERT then
          Some (Inl (Hs_return (tls_call (- 1) 0 (set_conn (\<lambda>c. c\<lparr>tc_active := False\<rparr>) s))))
        else if ty \<noteq> TLS_CID_HANDSHAKE \<or> off + 5 + unat plen > n then Some (Inl (Hs_break off s))
        else hs_message e off (unat plen) s })"

partial_function (option) hs_loop :: "tls_env \<Rightarrow> nat \<Rightarrow> tls \<Rightarrow> hs_end option" where
  "hs_loop e off s =
     do { r \<leftarrow> hs_record e off s;
          case r of Inl h \<Rightarrow> Some h | Inr q \<Rightarrow> hs_loop e (fst q) (snd q) }"

definition tls_phase_server_hello :: "tls_env \<Rightarrow> tls \<Rightarrow> tls option" where
  "tls_phase_server_hello e s =
     do { c \<leftarrow> rx_consume (tls_c s);
          r \<leftarrow> hs_loop e 0 (s\<lparr>tls_c := c\<rparr>);
          case r of
            Hs_return s \<Rightarrow> Some s
          | Hs_break off s \<Rightarrow>
              do { c \<leftarrow> rx_keep off (tls_c s); Some (s\<lparr>tls_c := c\<lparr>tc_rx_consumed := 0\<rparr>\<rparr>) } }"

definition app_store :: "bytes \<Rightarrow> tls_conn \<Rightarrow> tls_conn option" where
  "app_store pt c =
     (let pt = (if tc_app_len c + length pt > tc_app_cap c then take (tc_app_cap c - tc_app_len c) pt else pt) in
      do { a \<leftarrow> wr_range (tc_app_buf c) (tc_app_len c) pt;
           Some (c\<lparr>tc_app_buf := a, tc_app_len := tc_app_len c + length pt\<rparr>) })"

text \<open>One record: \<open>Inl\<close> ends the loop. The decoder is called with a null pointer for the record's type.\<close>

definition app_record :: "tls_env \<Rightarrow> nat \<Rightarrow> tls_conn \<Rightarrow> (nat \<times> tls_conn + nat \<times> tls_conn) option" where
  "app_record e off c =
     (let n = tc_rx_len c in
      if off + 5 > n then Some (Inl (off, c))
      else do { rec_len \<leftarrow> tls_be16 (tc_rx_buf c) (off + 3);
        ty \<leftarrow> rd (tc_rx_buf c) off;
        (let nxt = off + (5 + unat rec_len) in
         if ty = TLS_CID_CHANGE_CIPHER then Some (Inr (nxt, c))
         else if ty = TLS_CID_HANDSHAKE then
           do { msg_type \<leftarrow> rd (tc_rx_buf c) (off + 5);
                Some (if msg_type = TLS_HS_FINISHED then Inr (nxt, c) else Inl (off, c)) }
         else if ty \<noteq> TLS_CID_APPLICATION \<or> off + 5 + unat rec_len > n then Some (Inl (off, c))
         else do { (pt, c) \<leftarrow> tls_decrypt_record e off (5 + unat rec_len) False c;
                   c \<leftarrow> (if pt = None then Some c else app_store (the pt) c);
                   Some (Inr (nxt, c)) }) })"

partial_function (option) app_loop :: "tls_env \<Rightarrow> nat \<Rightarrow> tls_conn \<Rightarrow> (nat \<times> tls_conn) option" where
  "app_loop e off c =
     do { r \<leftarrow> app_record e off c;
          case r of Inl h \<Rightarrow> Some h | Inr q \<Rightarrow> app_loop e (fst q) (snd q) }"

definition tls_phase_app :: "tls_env \<Rightarrow> tls \<Rightarrow> tls option" where
  "tls_phase_app e s =
     do { (off, c) \<leftarrow> app_loop e 0 (tls_c s);
          c \<leftarrow> rx_keep off c;
          c \<leftarrow> Some (if tc_active c \<and> tc_phase c = 2 \<and> \<not> tc_app_ready c \<and> tc_app_len c > 0
                    then c\<lparr>tc_app_ready := True, tc_cb_delivered := False\<rparr> else c);
          Some (if tc_active c \<and> tc_phase c = 2 \<and> \<not> tc_cb_delivered c
                then tls_call 0 (tc_app_len c) (s\<lparr>tls_c := c\<lparr>tc_cb_delivered := True\<rparr>\<rparr>)
                else s\<lparr>tls_c := c\<rparr>) }"

section \<open>The interface\<close>

definition TLS_TIMEOUT :: u64 where "TLS_TIMEOUT = 2000"

definition tls_copy_host :: "bytes \<Rightarrow> bytes" where
  "tls_copy_host host =
     (let h = take 95 (takeWhile (\<lambda>c. c \<noteq> 0) host) in h @ replicate (96 - length h) 0)"

text \<open>\<open>cap\<close>, the callback and its argument as the caller gives them.\<close>

definition tls_connect :: "tls_env \<Rightarrow> bool \<Rightarrow> bytes \<Rightarrow> nat \<Rightarrow> bool \<Rightarrow> nat \<Rightarrow> tls \<Rightarrow> (bool \<times> tls) option" where
  "tls_connect e ns_active host cap cb ctx s =
     (if \<not> ns_active then Some (False, if cb then s\<lparr>tls_calls := tls_calls s @ [(- 1, 0)]\<rparr> else s)
      else do { s \<leftarrow> tls_phase_hello e (s\<lparr>tls_c := tls_zero
                  \<lparr>tc_active := True, tc_app_cap := cap, tc_cb := cb, tc_cb_ctx := ctx,
                   tc_host := tls_copy_host host, tc_deadline := tls_ticks s + TLS_TIMEOUT\<rparr>\<rparr>);
                Some (True, s) })"

definition tls_abort :: "nat \<Rightarrow> tls \<Rightarrow> tls" where
  "tls_abort ctx s =
     (if tc_active (tls_c s) \<and> tc_cb_ctx (tls_c s) = ctx then s\<lparr>tls_c := tls_zero\<rparr> else s)"

definition tls_poll :: "tls_env \<Rightarrow> tls \<Rightarrow> tls option" where
  "tls_poll e s =
     (if \<not> tc_active (tls_c s) then Some s
      else if tls_ticks s \<ge> tc_deadline (tls_c s) then
        Some (tls_call (- 1) 0 (set_conn (\<lambda>c. c\<lparr>tc_active := False\<rparr>) s))
      else if tc_phase (tls_c s) = 0 then tls_phase_hello e s
      else if tc_phase (tls_c s) = 1 then
        do { s \<leftarrow> tls_phase_server_hello e s;
             if tc_phase (tls_c s) = 2 \<and> tc_rx_len (tls_c s) > 0 then tls_phase_app e s else Some s }
      else if tc_phase (tls_c s) = 2 then tls_phase_app e s
      else Some s)"

definition tls_finish :: "tls \<Rightarrow> tls" where
  "tls_finish s =
     set_conn (\<lambda>c. c\<lparr>tc_active := False\<rparr>) (tls_call 0 0 (set_conn (\<lambda>c. c\<lparr>tc_app_done := True\<rparr>) s))"

definition tls_is_established :: "tls \<Rightarrow> bool" where
  "tls_is_established s \<longleftrightarrow> tc_active (tls_c s) \<and> tc_phase (tls_c s) = 2"

definition tls_is_active :: "tls \<Rightarrow> bool" where
  "tls_is_active s \<longleftrightarrow> tc_active (tls_c s)"

definition tls_app_ready :: "tls \<Rightarrow> bool" where
  "tls_app_ready s \<longleftrightarrow> tc_app_ready (tls_c s)"

definition tls_clear_app_ready :: "tls \<Rightarrow> tls" where
  "tls_clear_app_ready s = set_conn (\<lambda>c. c\<lparr>tc_app_ready := False\<rparr>) s"

definition tls_app_len :: "tls \<Rightarrow> nat" where
  "tls_app_len s = tc_app_len (tls_c s)"

definition tls_clear_app_len :: "tls \<Rightarrow> tls" where
  "tls_clear_app_len s = set_conn (\<lambda>c. c\<lparr>tc_app_len := 0\<rparr>) s"

definition tls_copy_app_data :: "nat \<Rightarrow> tls \<Rightarrow> bytes option" where
  "tls_copy_app_data cap s =
     rd_range (tc_app_buf (tls_c s)) 0 (if tc_app_len (tls_c s) < cap then tc_app_len (tls_c s) else cap)"

section \<open>The receive buffer\<close>

text \<open>What the handshake has still to read.\<close>

definition rx_bytes :: "tls_conn \<Rightarrow> bytes" where
  "rx_bytes c = take (tc_rx_len c) (tc_rx_buf c)"

definition rx_ok :: "tls_conn \<Rightarrow> bool" where
  "rx_ok c \<longleftrightarrow> length (tc_rx_buf c) = 8192 \<and> tc_rx_len c \<le> 8192"

lemma rx_shift_spec:
  assumes "rx_ok c" "off \<le> tc_rx_len c"
  shows "\<exists>c'. rx_shift off c = Some c' \<and> rx_ok c' \<and> rx_bytes c' = drop off (rx_bytes c)"
proof -
  have b: "rd_range (tc_rx_buf c) off (tc_rx_len c - off) = Some (drop off (rx_bytes c))"
    using assms by (simp add: rd_range_Some rx_ok_def rx_bytes_def drop_take)
  have l: "length (drop off (rx_bytes c)) = tc_rx_len c - off" using assms by (simp add: rx_bytes_def rx_ok_def)
  have "wr_range (tc_rx_buf c) 0 (drop off (rx_bytes c))
      = Some (drop off (rx_bytes c) @ drop (tc_rx_len c - off) (tc_rx_buf c))"
    using assms l by (subst wr_range_Some) (auto simp: rx_ok_def)
  then show ?thesis using b l assms by (auto simp: rx_shift_def rx_ok_def rx_bytes_def)
qed

text \<open>A pass that stopped at \<open>off\<close> keeps exactly the bytes from \<open>off\<close> on.\<close>

lemma rx_keep_spec:
  assumes "rx_ok c"
  shows "\<exists>c'. rx_keep off c = Some c' \<and> rx_ok c' \<and> rx_bytes c' = drop off (rx_bytes c)"
proof -
  have l: "length (rx_bytes c) = tc_rx_len c" using assms by (simp add: rx_bytes_def rx_ok_def)
  consider "off > 0" "off < tc_rx_len c" | "off = 0" "tc_rx_len c > 0" | "off \<ge> tc_rx_len c" by linarith
  then show ?thesis
  proof cases
    case 3
    then have "rx_bytes (c\<lparr>tc_rx_len := 0\<rparr>) = drop off (rx_bytes c)" using l by (simp add: rx_bytes_def)
    moreover have "rx_keep off c = Some (c\<lparr>tc_rx_len := 0\<rparr>)" using 3 by (auto simp: rx_keep_def)
    ultimately show ?thesis using assms by (simp add: rx_ok_def)
  qed (use assms rx_shift_spec in \<open>auto simp: rx_keep_def\<close>)
qed

text \<open>\<^verbatim>\<open>tls_feed\<close> never writes outside its buffer, however much arrives: a connection that expects
  data holds afterwards what it held followed by the new bytes, cut off at 8192 bytes.\<close>

theorem tls_feed_appends:
  assumes "rx_ok c" "tc_active c" "tc_phase c = 1 \<or> tc_phase c = 2"
  shows "\<exists>c'. tls_feed dat c = Some c' \<and> rx_ok c' \<and> rx_bytes c' = take 8192 (rx_bytes c @ dat)"
proof -
  define d where "d = (if tc_rx_len c + length dat > 8192 then take (8192 - tc_rx_len c) dat else dat)"
  have l: "length (rx_bytes c) = tc_rx_len c" using assms(1) by (simp add: rx_bytes_def rx_ok_def)
  have d: "tc_rx_len c + length d \<le> 8192" "take 8192 (rx_bytes c @ dat) = rx_bytes c @ d"
    using assms(1) l by (auto simp: d_def rx_ok_def)
  have w: "wr_range (tc_rx_buf c) (tc_rx_len c) d
      = Some (rx_bytes c @ d @ drop (tc_rx_len c + length d) (tc_rx_buf c))"
    using d(1) assms(1) by (simp add: wr_range_Some rx_ok_def rx_bytes_def)
  show ?thesis
  proof (cases "dat = []")
    case True
    have "take 8192 (rx_bytes c) = rx_bytes c" using l assms(1) by (simp add: rx_ok_def)
    then show ?thesis using True assms(1) by (simp add: tls_feed_def)
  next
    case False
    then have "tls_feed dat c = Some (c\<lparr>tc_rx_buf := rx_bytes c @ d @ drop (tc_rx_len c + length d) (tc_rx_buf c),
        tc_rx_len := tc_rx_len c + length d\<rparr>)"
      using assms(2,3) w unfolding tls_feed_def d_def [symmetric] by (auto simp: Let_def)
    then show ?thesis using d l assms(1) by (simp add: rx_ok_def rx_bytes_def)
  qed
qed

theorem tls_feed_appends_witness:
  "\<exists>c'. tls_feed [1, 2, 3] (tls_zero\<lparr>tc_active := True, tc_phase := 1\<rparr>) = Some c' \<and> rx_ok c' \<and> rx_bytes c' = [1, 2, 3]"
  using tls_feed_appends [of "tls_zero\<lparr>tc_active := True, tc_phase := 1\<rparr>" "[1, 2, 3]"]
  by (simp add: rx_ok_def rx_bytes_def tls_zero_def)

section \<open>The client hello\<close>

lemma length_host_string: "length (host_string h) \<le> 96"
  by (simp add: host_string_def)

lemma length_hello:
  "length (hello_fixed) = 45" "length hello_extensions = 34"
  "length (hello_sni h) = (if h = [] then 0 else 9 + length h)"
  by (simp_all add: hello_fixed_def hello_extensions_def hello_sni_def)

lemma ext_total_eq: "ext_total (length h) = length (hello_sni h) + length hello_extensions + 4"
  by (simp add: ext_total_def sni_data_len_def length_hello)

lemma length_hello_body:
  "length (hello_body h) = 47 + length (hello_sni h) + length hello_extensions"
  by (simp add: hello_body_def length_hello)

text \<open>The client hello does not fit its 128-byte buffer: building it writes outside exactly when the host
  name has 35 characters or more.\<close>

theorem tls_client_hello_overflow:
  assumes "length out = 128"
  shows "tls_build_client_hello c out = None \<longleftrightarrow> 35 \<le> length (host_string (tc_host c))"
  using assms
  by (auto simp: tls_build_client_hello_def Let_def bind_eq_None_conv wr_range_eq_None length_hello_body length_hello)

theorem tls_client_hello_overflow_witness:
  "tls_build_client_hello (tls_zero\<lparr>tc_host := replicate 35 0x61 @ replicate 61 0\<rparr>) (replicate 128 0) = None"
  using tls_client_hello_overflow [of "replicate 128 0" "tls_zero\<lparr>tc_host := replicate 35 0x61 @ replicate 61 0\<rparr>"]
  by (simp add: host_string_def takeWhile_append del: replicate.simps)

text \<open>Every client hello that the client builds is malformed: the two-byte length in front of its extensions,
  at offset 49, is four more than the number of extension bytes that follow, whatever the host.\<close>

theorem tls_client_hello_malformed:
  assumes "tls_build_client_hello c out = Some (out', n)"
  shows "unat (mk16 (out' ! 49) (out' ! 50)) = (n - 51) + 4"
proof -
  let ?h = "host_string (tc_host c)"
  let ?len = "of_nat (ext_total (length ?h)) :: u16"
  let ?hdr = "[1] @ tl (bytes32 (of_nat (length (hello_body ?h)))) @ hello_fixed"
  have n: "n = 4 + length (hello_body ?h)"
    and w: "wr_range out 0 (?hdr @ bytes16 ?len @ hello_sni ?h @ hello_extensions) = Some out'"
    using assms by (auto simp: tls_build_client_hello_def Let_def bind_eq_Some_conv hello_body_def)
  have l: "length ?hdr = 49" by (simp add: length_hello)
  have nth: "out' ! 49 = bytes16 ?len ! 0" "out' ! 50 = bytes16 ?len ! 1"
  proof -
    have le: "length (?hdr @ bytes16 ?len @ hello_sni ?h @ hello_extensions) \<le> length out"
      using w by (auto simp: wr_range_def split: if_splits)
    then have lt: "49 < length out" "50 < length out" using l by (simp_all add: length_hello)
    have "(?hdr @ bytes16 ?len @ hello_sni ?h @ hello_extensions) ! (49 + i) = bytes16 ?len ! i" if "i < 2" for i
      using that by (simp only: nth_append l) simp
    from this [of 0] this [of 1] show "out' ! 49 = bytes16 ?len ! 0" "out' ! 50 = bytes16 ?len ! 1"
      using wr_range_nth [OF w lt(1)] wr_range_nth [OF w lt(2)] l by (simp_all add: length_hello)
  qed
  have "ext_total (length ?h) < 65536" using length_host_string [of "tc_host c"] by (simp add: ext_total_eq length_hello)
  then have "unat ?len = ext_total (length ?h)" by (intro unat_of_nat_lt) simp
  moreover have "mk16 (out' ! 49) (out' ! 50) = ?len" by (simp add: nth bytes16_def mk16_bytes16)
  ultimately show ?thesis by (simp add: n length_hello_body ext_total_eq)
qed

theorem tls_client_hello_malformed_witness:
  "\<exists>out' n. tls_build_client_hello tls_zero (replicate 128 0) = Some (out', n)
     \<and> unat (mk16 (out' ! 49) (out' ! 50)) = (n - 51) + 4"
proof -
  obtain r where r: "tls_build_client_hello tls_zero (replicate 128 0) = Some r"
    by (auto simp: tls_build_client_hello_def Let_def wr_range_def length_hello_body length_hello host_string_def tls_zero_def)
  obtain out' n where "r = (out', n)" by (cases r)
  then show ?thesis using r tls_client_hello_malformed [of tls_zero "replicate 128 0" out' n] by blast
qed

section \<open>Records that break the client\<close>

text \<open>A complete record at the front of the buffer.\<close>

definition rx_record :: "tls_conn \<Rightarrow> u8 \<Rightarrow> bytes \<Rightarrow> bool" where
  "rx_record c ty pay \<longleftrightarrow> (\<exists>rest. rx_bytes c = tls_record_init ty (of_nat (length pay)) @ pay @ rest)
     \<and> length pay < 65536"

lemma rx_record_reads:
  assumes "rx_ok c" "rx_record c ty pay"
  shows "rd (tc_rx_buf c) 0 = Some ty" "tls_be16 (tc_rx_buf c) 3 = Some (of_nat (length pay))"
    "unat (of_nat (length pay) :: u16) = length pay" "5 + length pay \<le> tc_rx_len c"
    "rd_range (tc_rx_buf c) 5 (length pay) = Some pay"
proof -
  obtain rest where r: "rx_bytes c = tls_record_init ty (of_nat (length pay)) @ pay @ rest" and n: "length pay < 65536"
    using assms(2) by (auto simp: rx_record_def)
  have buf: "tc_rx_buf c = tls_record_init ty (of_nat (length pay)) @ pay @ rest @ drop (tc_rx_len c) (tc_rx_buf c)"
    using r append_take_drop_id [of "tc_rx_len c" "tc_rx_buf c"] by (simp add: rx_bytes_def)
  have len: "length (tls_record_init ty (of_nat (length pay))) = 5" by (simp add: tls_record_init_def)
  show "rd (tc_rx_buf c) 0 = Some ty"
    by (subst buf) (simp add: tls_record_init_def rd_def)
  show "tls_be16 (tc_rx_buf c) 3 = Some (of_nat (length pay))"
    by (subst buf) (simp add: tls_record_init_def tls_be16_def rd_def bytes16_def mk16_bytes16)
  show "unat (of_nat (length pay) :: u16) = length pay" using n by (intro unat_of_nat_lt) simp
  have "length (rx_bytes c) = tc_rx_len c" using assms(1) by (simp add: rx_bytes_def rx_ok_def)
  then show "5 + length pay \<le> tc_rx_len c" using len by (simp add: r)
  show "rd_range (tc_rx_buf c) 5 (length pay) = Some pay"
    by (subst buf) (simp add: rd_range_def len)
qed

definition tls_running :: "nat \<Rightarrow> tls \<Rightarrow> bool" where
  "tls_running ph s \<longleftrightarrow> tc_active (tls_c s) \<and> tc_phase (tls_c s) = ph \<and> tls_ticks s < tc_deadline (tls_c s)
     \<and> rx_ok (tls_c s) \<and> tc_rx_consumed (tls_c s) = 0 \<and> length (tc_pending_handshake (tls_c s)) = 4096"

text \<open>A certificate of more than 4096 bytes in one record, which the receive buffer has room for, overruns the
  buffer that keeps it: the next poll writes outside the connection's array.\<close>

theorem tls_certificate_overflow:
  assumes "tls_running 1 s" "rx_record (tls_c s) TLS_CID_HANDSHAKE (TLS_HS_CERTIFICATE # cert)" "4096 \<le> length cert"
  shows "tls_poll e s = None"
proof -
  let ?c = "tls_c s" and ?pay = "TLS_HS_CERTIFICATE # cert"
  have ok: "rx_ok ?c" and run: "tc_active ?c" "tc_phase ?c = 1" "tls_ticks s < tc_deadline ?c"
      "tc_rx_consumed ?c = 0" "length (tc_pending_handshake ?c) = 4096"
    using assms(1) by (simp_all add: tls_running_def)
  note r = rx_record_reads [OF ok assms(2)]
  have con: "rx_consume ?c = Some ?c"
    using r(4) run(4) by (simp add: rx_consume_def)
  have mt: "rd (tc_rx_buf ?c) 5 = Some TLS_HS_CERTIFICATE"
    using r(5) rd_range_nth [OF r(5), of 0] by (auto simp: rd_def rd_range_def split: if_splits)
  have "keep_certificate 5 (length ?pay) ?c = None"
    using r(5) assms(3) run(5) by (simp add: keep_certificate_def wr_range_def)
  then have "hs_record e 0 s = None"
    using r mt by (simp add: hs_record_def hs_message_def Let_def TLS_CID_ALERT_def TLS_CID_HANDSHAKE_def
        TLS_HS_CERTIFICATE_def TLS_HS_SERVER_HELLO_def)
  then have "hs_loop e 0 s = None" by (subst hs_loop.simps) simp
  then show ?thesis using con run by (simp add: tls_poll_def tls_phase_server_hello_def)
qed

text \<open>The first complete application record after the handshake is a crash: the client decodes it with a null
  pointer for the record's type, and the decoder writes through that pointer before it looks at the tag.\<close>

theorem tls_app_record_null:
  assumes "tls_running 2 s" "rx_record (tls_c s) TLS_CID_APPLICATION pay"
  shows "tls_poll e s = None"
proof -
  let ?c = "tls_c s"
  have ok: "rx_ok ?c" and run: "tc_active ?c" "tc_phase ?c = 2" "tls_ticks s < tc_deadline ?c"
    using assms(1) by (simp_all add: tls_running_def)
  note r = rx_record_reads [OF ok assms(2)]
  have "tls_decrypt_record e 0 (5 + length pay) False ?c = None"
    using r by (simp add: tls_decrypt_record_def TLS_CID_APPLICATION_def TLS_CID_HANDSHAKE_def)
  then have "app_record e 0 ?c = None"
    using r by (simp add: app_record_def Let_def TLS_CID_APPLICATION_def TLS_CID_HANDSHAKE_def
        TLS_CID_CHANGE_CIPHER_def)
  then have "app_loop e 0 ?c = None" by (subst app_loop.simps) simp
  then show ?thesis using run by (simp add: tls_poll_def tls_phase_app_def)
qed

text \<open>A connection of phase \<open>ph\<close> whose buffer holds one record.\<close>

definition tls_example :: "nat \<Rightarrow> u8 \<Rightarrow> bytes \<Rightarrow> tls" where
  "tls_example ph ty pay =
     (let r = tls_record_init ty (of_nat (length pay)) @ pay in
      \<lparr>tls_c = tls_zero\<lparr>tc_active := True, tc_phase := ph, tc_deadline := 10,
           tc_rx_buf := r @ replicate (8192 - length r) 0, tc_rx_len := length r\<rparr>,
       tls_sha = \<lparr>sh_state = [], sh_bits = 0, sh_buf = replicate 64 0, sh_len = 0\<rparr>,
       tls_ticks = 0, tls_out = [], tls_calls = []\<rparr>)"

definition tls_env_example :: tls_env where
  "tls_env_example = \<lparr>te_shared = (\<lambda>out priv pub. Some (replicate 32 7)), te_stack = (\<lambda>n. replicate n 0)\<rparr>"

lemma tls_example_running:
  assumes "length pay \<le> 8187"
  shows "tls_running ph (tls_example ph ty pay)" "rx_record (tls_c (tls_example ph ty pay)) ty pay"
proof -
  have l: "length (tls_record_init ty (of_nat (length pay))) = 5" by (simp add: tls_record_init_def)
  then have len: "5 + length pay + (8192 - (5 + length pay)) = 8192" using assms by simp
  show "tls_running ph (tls_example ph ty pay)"
    using assms l by (simp add: tls_running_def tls_example_def tls_zero_def rx_ok_def Let_def del: replicate.simps)
  show "rx_record (tls_c (tls_example ph ty pay)) ty pay"
    using assms l by (simp add: rx_record_def rx_bytes_def tls_example_def Let_def del: replicate.simps)
qed

theorem tls_certificate_overflow_witness:
  "tls_poll tls_env_example
     (tls_example 1 TLS_CID_HANDSHAKE (TLS_HS_CERTIFICATE # replicate 4096 0)) = None"
  by (rule tls_certificate_overflow [OF tls_example_running]) (simp_all del: replicate.simps)

theorem tls_app_record_null_witness:
  "tls_poll tls_env_example (tls_example 2 TLS_CID_APPLICATION [1, 2, 3]) = None"
  by (rule tls_app_record_null [OF tls_example_running]) simp_all

section \<open>No application data\<close>

text \<open>The network stack connects with no room for application data, and nothing changes that.\<close>

definition no_app :: "tls_conn \<Rightarrow> bool" where
  "no_app c \<longleftrightarrow> tc_app_cap c = 0 \<and> tc_app_len c = 0 \<and> \<not> tc_app_ready c"

lemma no_app_cong:
  "tc_app_cap c' = tc_app_cap c \<Longrightarrow> tc_app_len c' = tc_app_len c \<Longrightarrow> tc_app_ready c' = tc_app_ready c \<Longrightarrow>
   no_app c' = no_app c"
  by (simp add: no_app_def)

lemma no_app_feed: "tls_feed dat c = Some c' \<Longrightarrow> no_app c \<Longrightarrow> no_app c'"
  by (auto simp: tls_feed_def no_app_def Let_def bind_eq_Some_conv split: if_splits)

lemma no_app_rx:
  "rx_shift off c = Some c' \<Longrightarrow> no_app c' = no_app c"
  "rx_keep off c = Some c' \<Longrightarrow> no_app c' = no_app c"
  "rx_consume c = Some c' \<Longrightarrow> no_app c' = no_app c"
  by (auto simp: rx_shift_def rx_keep_def rx_consume_def no_app_def bind_eq_Some_conv split: if_splits)

lemma no_app_call [simp]: "no_app (tls_c (tls_call st n s)) = no_app (tls_c s)"
  by (simp add: tls_call_def)

lemma no_app_sends:
  "tls_send_record cid pay plen s = Some (ok, s') \<Longrightarrow> no_app (tls_c s') = no_app (tls_c s)"
  "tls_send_handshake msg len s = Some (ok, s') \<Longrightarrow> no_app (tls_c s') = no_app (tls_c s)"
  by (auto simp: tls_send_handshake_def tls_send_record_def tls_send_raw_def no_app_def bind_eq_Some_conv split: if_splits)

lemma no_app_hello: "tls_phase_hello e s = Some s' \<Longrightarrow> no_app (tls_c s') = no_app (tls_c s)"
  using no_app_sends(2) by (fastforce simp: tls_phase_hello_def set_conn_def no_app_def bind_eq_Some_conv split: if_splits)

lemma no_app_keys: "tls_derive_keys s = Some s' \<Longrightarrow> no_app (tls_c s') = no_app (tls_c s)"
  by (auto simp: tls_derive_keys_def no_app_def bind_eq_Some_conv)

lemma no_app_finished: "tls_build_finished s out l = Some (b, s') \<Longrightarrow> tls_c s' = tls_c s"
  by (auto simp: tls_build_finished_def bind_eq_Some_conv)

lemma no_app_hello_done:
  assumes "tls_hello_done e s = Some s'"
  shows "no_app (tls_c s') = no_app (tls_c s)"
proof -
  obtain sec s2 b n o1 s3 o2 s4 f s5 o3 s6 where
    s2: "tls_derive_keys (set_conn (\<lambda>c. c\<lparr>tc_shared := sec\<rparr>) (set_conn (\<lambda>c. c\<lparr>tc_my_priv := x25519_keygen\<rparr>) s)) = Some s2"
    and s3: "tls_send_handshake b n s2 = Some (o1, s3)"
    and s4: "tls_send_record TLS_CID_CHANGE_CIPHER tls_build_change_cipher 4 s3 = Some (o2, s4)"
    and s5: "tls_build_finished s4 (te_stack e 20) TLS_VERIFY_LABEL = Some (f, s5)"
    and s6: "tls_send_handshake f 16 s5 = Some (o3, s6)"
    and s': "s' = set_conn (\<lambda>c. c\<lparr>tc_phase := 2, tc_retries := 0\<rparr>) s6"
    using assms by (auto simp: tls_hello_done_def bind_eq_Some_conv)
  have "no_app (tls_c s') = no_app (tls_c s6)" by (simp add: s' set_conn_def no_app_def)
  also have "\<dots> = no_app (tls_c s2)"
    using no_app_sends(2) [OF s6] no_app_finished [OF s5] no_app_sends(1) [OF s4] no_app_sends(2) [OF s3] by simp
  also have "\<dots> = no_app (tls_c s)" using no_app_keys [OF s2] by (simp add: set_conn_def no_app_def)
  finally show ?thesis .
qed

definition hs_state :: "hs_end \<Rightarrow> tls" where
  "hs_state r = (case r of Hs_return s \<Rightarrow> s | Hs_break off s \<Rightarrow> s)"

lemma no_app_messages:
  "keep_certificate off plen c = Some c' \<Longrightarrow> no_app c' = no_app c"
  "tls_parse_server_kex off plen c = Some (ok, c') \<Longrightarrow> no_app c' = no_app c"
  by (auto simp: keep_certificate_def tls_parse_server_kex_def no_app_def bind_eq_Some_conv split: option.splits)

lemma no_app_hs_message:
  assumes "hs_message e off plen s = Some r"
  shows "case r of Inl h \<Rightarrow> no_app (tls_c (hs_state h)) = no_app (tls_c s)
    | Inr q \<Rightarrow> no_app (tls_c (snd q)) = no_app (tls_c s)"
proof -
  have done_case: "no_app (tls_c (s1\<lparr>tls_c := c\<lparr>tc_rx_consumed := 0\<rparr>\<rparr>)) = no_app (tls_c s)"
    if "tls_hello_done e s = Some s1" "rx_keep k (tls_c s1) = Some c" for s1 c k
    using no_app_hello_done [OF that(1)] no_app_rx(2) [OF that(2)] by (simp add: no_app_def)
  show ?thesis
    using assms done_case no_app_messages
    by (auto simp: hs_message_def Let_def bind_eq_Some_conv hs_state_def split: if_splits)
qed

lemma no_app_hs_record:
  assumes "hs_record e off s = Some r"
  shows "case r of Inl h \<Rightarrow> no_app (tls_c (hs_state h)) = no_app (tls_c s)
    | Inr q \<Rightarrow> no_app (tls_c (snd q)) = no_app (tls_c s)"
proof -
  have "no_app (tls_c (set_conn (\<lambda>c. c\<lparr>tc_active := False\<rparr>) s)) = no_app (tls_c s)"
    by (simp add: set_conn_def no_app_def)
  then show ?thesis
    using assms no_app_hs_message
    by (auto simp: hs_record_def Let_def bind_eq_Some_conv hs_state_def split: if_splits)
qed

lemma no_app_hs_loop:
  assumes "hs_loop e off s = Some r"
  shows "no_app (tls_c (hs_state r)) = no_app (tls_c s)"
proof (rule hs_loop.raw_induct [where P = "\<lambda>e off s r. no_app (tls_c (hs_state r)) = no_app (tls_c s)", OF _ assms])
  fix F :: "tls_env \<Rightarrow> nat \<Rightarrow> tls \<Rightarrow> hs_end option" and e off s r
  assume IH: "\<And>e off s r. F e off s = Some r \<Longrightarrow> no_app (tls_c (hs_state r)) = no_app (tls_c s)"
    and run: "hs_record e off s \<bind> (\<lambda>r. case r of Inl h \<Rightarrow> Some h | Inr q \<Rightarrow> F e (fst q) (snd q)) = Some r"
  obtain q where q: "hs_record e off s = Some q" using run by (auto simp: bind_eq_Some_conv)
  show "no_app (tls_c (hs_state r)) = no_app (tls_c s)"
  proof (cases q)
    case (Inl h)
    then show ?thesis using run q no_app_hs_record [OF q] by simp
  next
    case (Inr p)
    have "F e (fst p) (snd p) = Some r" using run q Inr by (simp add: case_prod_beta)
    then show ?thesis using IH no_app_hs_record [OF q] Inr by simp
  qed
qed

lemma no_app_server_hello:
  assumes "tls_phase_server_hello e s = Some s'"
  shows "no_app (tls_c s') = no_app (tls_c s)"
proof -
  obtain c r where c: "rx_consume (tls_c s) = Some c" and r: "hs_loop e 0 (s\<lparr>tls_c := c\<rparr>) = Some r"
    using assms by (auto simp: tls_phase_server_hello_def bind_eq_Some_conv)
  have st: "no_app (tls_c (hs_state r)) = no_app (tls_c s)" using no_app_hs_loop [OF r] no_app_rx(3) [OF c] by simp
  show ?thesis
  proof (cases r)
    case (Hs_return s1)
    then show ?thesis using assms c r st by (simp add: tls_phase_server_hello_def hs_state_def)
  next
    case (Hs_break off s1)
    then obtain c1 where c1: "rx_keep off (tls_c s1) = Some c1" and s': "s' = s1\<lparr>tls_c := c1\<lparr>tc_rx_consumed := 0\<rparr>\<rparr>"
      using assms c r by (auto simp: tls_phase_server_hello_def bind_eq_Some_conv)
    have "no_app (tls_c s') = no_app c1" by (simp add: s' no_app_def)
    then show ?thesis using st no_app_rx(2) [OF c1] Hs_break by (simp add: hs_state_def)
  qed
qed

lemma no_app_store: "app_store pt c = Some c' \<Longrightarrow> no_app c \<Longrightarrow> no_app c'"
  by (auto simp: app_store_def no_app_def Let_def bind_eq_Some_conv split: if_splits)

lemma app_record_keeps:
  "app_record e off c = Some r \<Longrightarrow> \<exists>k. r = Inl (k, c) \<or> r = Inr (k, c)"
  by (auto simp: app_record_def tls_decrypt_record_def Let_def bind_eq_Some_conv split: if_splits)

lemma app_loop_keeps:
  assumes "app_loop e off c = Some (o', c')"
  shows "c' = c"
proof -
  have "snd (o', c') = c"
  proof (rule app_loop.raw_induct [where P = "\<lambda>e off c r. snd r = c", OF _ assms])
    fix F :: "tls_env \<Rightarrow> nat \<Rightarrow> tls_conn \<Rightarrow> (nat \<times> tls_conn) option" and e off c r
    assume IH: "\<And>e off c r. F e off c = Some r \<Longrightarrow> snd r = c"
      and run: "app_record e off c \<bind> (\<lambda>r. case r of Inl h \<Rightarrow> Some h | Inr q \<Rightarrow> F e (fst q) (snd q)) = Some r"
    obtain q where q: "app_record e off c = Some q" using run by (auto simp: bind_eq_Some_conv)
    then consider k where "q = Inl (k, c)" | k where "q = Inr (k, c)" using app_record_keeps by blast
    then show "snd r = c"
    proof cases
      case 1
      then show ?thesis using run q by auto
    next
      case (2 k)
      then have "F e k c = Some r" using run q by simp
      then show ?thesis by (rule IH)
    qed
  qed
  then show ?thesis by simp
qed

lemma no_app_phase_app:
  assumes "tls_phase_app e s = Some s'" "no_app (tls_c s)"
  shows "no_app (tls_c s')"
proof -
  obtain off c1 c2 where a: "app_loop e 0 (tls_c s) = Some (off, c1)" and k: "rx_keep off c1 = Some c2"
    and s': "s' = (let c = (if tc_active c2 \<and> tc_phase c2 = 2 \<and> \<not> tc_app_ready c2 \<and> tc_app_len c2 > 0
                    then c2\<lparr>tc_app_ready := True, tc_cb_delivered := False\<rparr> else c2) in
         if tc_active c \<and> tc_phase c = 2 \<and> \<not> tc_cb_delivered c
         then tls_call 0 (tc_app_len c) (s\<lparr>tls_c := c\<lparr>tc_cb_delivered := True\<rparr>\<rparr>) else s\<lparr>tls_c := c\<rparr>)"
    using assms(1) by (auto simp: tls_phase_app_def bind_eq_Some_conv Let_def)
  have n: "no_app c2" using app_loop_keeps [OF a] no_app_rx(2) [OF k] assms(2) by simp
  then have "(if tc_active c2 \<and> tc_phase c2 = 2 \<and> \<not> tc_app_ready c2 \<and> tc_app_len c2 > 0
                    then c2\<lparr>tc_app_ready := True, tc_cb_delivered := False\<rparr> else c2) = c2"
    by (simp add: no_app_def)
  moreover have "no_app (c2\<lparr>tc_cb_delivered := True\<rparr>)" using n by (simp add: no_app_def)
  ultimately show ?thesis using n by (simp add: s' Let_def no_app_call)
qed

lemma no_app_poll:
  assumes "tls_poll e s = Some s'" "no_app (tls_c s)"
  shows "no_app (tls_c s')"
proof -
  have off: "no_app (tls_c (set_conn (\<lambda>c. c\<lparr>tc_active := False\<rparr>) s))"
    using assms(2) by (simp add: set_conn_def no_app_def)
  have "s' = s \<or> s' = tls_call (- 1) 0 (set_conn (\<lambda>c. c\<lparr>tc_active := False\<rparr>) s)
    \<or> tls_phase_hello e s = Some s' \<or> tls_phase_app e s = Some s'
    \<or> (\<exists>s1. tls_phase_server_hello e s = Some s1 \<and> (s' = s1 \<or> tls_phase_app e s1 = Some s'))"
    using assms(1) unfolding tls_poll_def
    by (cases "tls_phase_server_hello e s") (simp_all split: if_split_asm)
  then consider (idle) "s' = s"
    | (late) "s' = tls_call (- 1) 0 (set_conn (\<lambda>c. c\<lparr>tc_active := False\<rparr>) s)"
    | (hello) "tls_phase_hello e s = Some s'"
    | (app) "tls_phase_app e s = Some s'"
    | (shake) s1 where "tls_phase_server_hello e s = Some s1"
        "s' = s1 \<or> tls_phase_app e s1 = Some s'"
    by blast
  then show ?thesis
  proof cases
    case shake
    then have "no_app (tls_c s1)" using assms(2) no_app_server_hello by blast
    then show ?thesis using shake(2) no_app_phase_app by blast
  next
    case late
    then show ?thesis using off by (simp only: no_app_call)
  next
    case hello
    then show ?thesis using assms(2) no_app_hello by blast
  next
    case app
    then show ?thesis using assms(2) no_app_phase_app by blast
  next
    case idle
    then show ?thesis using assms(2) by simp
  qed
qed

lemma no_app_connect:
  assumes "tls_connect e True host 0 cb ctx s = Some (ok, s')"
  shows "no_app (tls_c s')"
proof -
  have "no_app (tls_zero\<lparr>tc_active := True, tc_app_cap := 0, tc_cb := cb, tc_cb_ctx := ctx,
                   tc_host := tls_copy_host host, tc_deadline := tls_ticks s + TLS_TIMEOUT\<rparr>)"
    by (simp add: no_app_def tls_zero_def)
  then show ?thesis using assms by (auto simp: tls_connect_def bind_eq_Some_conv dest: no_app_hello)
qed

text \<open>A run of the client as the stack drives it: bytes fed, polls, application data sent.\<close>

datatype tls_op = Op_feed bytes | Op_poll u64 | Op_send bytes

fun tls_step :: "tls_env \<Rightarrow> tls_op \<Rightarrow> tls \<Rightarrow> tls option" where
  "tls_step e (Op_feed dat) s = do { c \<leftarrow> tls_feed dat (tls_c s); Some (s\<lparr>tls_c := c\<rparr>) }"
| "tls_step e (Op_poll now) s = tls_poll e (s\<lparr>tls_ticks := now\<rparr>)"
| "tls_step e (Op_send dat) s = tls_send_app_data e dat s"

fun tls_run :: "tls_env \<Rightarrow> tls_op list \<Rightarrow> tls \<Rightarrow> tls option" where
  "tls_run e [] s = Some s"
| "tls_run e (x # xs) s = do { s \<leftarrow> tls_step e x s; tls_run e xs s }"

lemma no_app_send: "tls_send_app_data e dat s = Some s' \<Longrightarrow> no_app (tls_c s') = no_app (tls_c s)"
  by (auto simp: tls_send_app_data_def no_app_def bind_eq_Some_conv)

lemma no_app_run: "tls_run e xs s = Some s' \<Longrightarrow> no_app (tls_c s) \<Longrightarrow> no_app (tls_c s')"
proof (induction xs arbitrary: s)
  case (Cons x xs)
  then obtain s1 where s1: "tls_step e x s = Some s1" "tls_run e xs s1 = Some s'" by (auto simp: bind_eq_Some_conv)
  have "no_app (tls_c s1)"
    using s1(1) Cons.prems(2) no_app_feed no_app_poll no_app_send
    by (cases x) (auto simp: bind_eq_Some_conv)
  then show ?case using Cons.IH s1(2) by simp
qed simp

text \<open>The client never hands over application data: the stack connects with a buffer of no bytes, and after
  any sequence of bytes fed, polls and requests sent, whatever the server sends, there is no byte of application
  data and the flag that announces it is not set.\<close>

theorem tls_no_app_data:
  assumes "tls_connect e True host 0 cb ctx s = Some (ok, s0)" "tls_run e xs s0 = Some s'"
  shows "\<not> tls_app_ready s' \<and> tls_app_len s' = 0"
  using no_app_run [OF assms(2) no_app_connect [OF assms(1)]]
  by (simp add: no_app_def tls_app_ready_def tls_app_len_def)

theorem tls_no_app_data_witness:
  "\<exists>ok s0 s'. tls_connect tls_env_example True [] 0 False 0 (tls_example 0 22 []) = Some (ok, s0)
     \<and> tls_run tls_env_example [Op_feed [22, 3]] s0 = Some s' \<and> \<not> tls_app_ready s' \<and> tls_app_len s' = 0"
proof -
  obtain ok s0 where s0: "tls_connect tls_env_example True [] 0 False 0 (tls_example 0 22 []) = Some (ok, s0)"
      "length (tc_rx_buf (tls_c s0)) = 8192" "tc_rx_len (tls_c s0) = 0"
    by (auto simp: tls_connect_def tls_phase_hello_def tls_build_client_hello_def Let_def wr_range_Some rd_range_Some
        tls_send_handshake_def tls_send_record_def tls_send_raw_def tls_env_example_def set_conn_def
        tls_copy_host_def length_hello_body length_hello host_string_def tls_zero_def bytes32_def simp del: replicate.simps)
  have "tls_run tls_env_example [Op_feed [22, 3]] s0 \<noteq> None"
    using s0(2,3) by (simp add: tls_feed_def Let_def wr_range_Some)
  then obtain s' where s': "tls_run tls_env_example [Op_feed [22, 3]] s0 = Some s'" by blast
  show ?thesis using s0(1) s' tls_no_app_data [OF s0(1) s'] by blast
qed

end
