(* ===== verification/Netstack.thy ===== *)
theory Netstack
  imports Inet Tls
begin

unbundle bit_operations_syntax

text \<open>
  The network stack of \<^verbatim>\<open>kernel/netstack.c\<close>: the ARP cache, the frame builders, the DNS resolver, the
  single TCP connection with its HTTP client, the receive path and the poll. Frames sent are a list,
  the client's callbacks are a list of events, the clock is the one the TLS client reads. A frame
  received is the receive array's contents and the number of bytes the driver stored. Reads and writes
  outside an array and the use of a null pointer are \<open>None\<close>.

  What the stack promises is shown in \<open>Netstack_Stream\<close> (the data of a connection), \<open>Netstack_Request\<close>
  (every request is answered once), \<open>Netstack_Https\<close> (requests over TLS) and \<open>Netstack_Frames\<close> (what is
  sent).
\<close>

section \<open>The state\<close>

record arp_ent =
  ae_ip :: u32
  ae_mac :: bytes
  ae_valid :: bool

record ns_conn =
  nc_active :: bool
  nc_phase :: nat
  nc_tcp_state :: nat
  nc_host :: bytes
  nc_path :: bytes
  nc_cap :: nat
  nc_cb :: bool
  nc_ctx :: nat
  nc_use_tls :: bool
  nc_tls_sent :: bool
  nc_dns_id :: u16
  nc_dns_sport :: u16
  nc_dns_sent :: bool
  nc_dst_ip :: bytes
  nc_sport :: u16
  nc_isn :: u32
  nc_snd_nxt :: u32
  nc_rcv_nxt :: u32
  nc_req_sent :: bool
  nc_req_acked :: bool
  nc_req_len :: nat
  nc_req :: bytes
  nc_hdr_done :: bool
  nc_hdr_end :: nat
  nc_http_status :: nat
  nc_got :: nat
  nc_last_send :: u64
  nc_deadline :: u64
  nc_retries :: nat

definition ns_zero :: ns_conn where
  "ns_zero =
     \<lparr>nc_active = False, nc_phase = 0, nc_tcp_state = 0, nc_host = replicate 96 0, nc_path = replicate 256 0,
      nc_cap = 0, nc_cb = False, nc_ctx = 0, nc_use_tls = False, nc_tls_sent = False, nc_dns_id = 0,
      nc_dns_sport = 0, nc_dns_sent = False, nc_dst_ip = [0, 0, 0, 0], nc_sport = 0, nc_isn = 0,
      nc_snd_nxt = 0, nc_rcv_nxt = 0, nc_req_sent = False, nc_req_acked = False, nc_req_len = 0,
      nc_req = replicate 512 0, nc_hdr_done = False, nc_hdr_end = 0, nc_http_status = 0, nc_got = 0,
      nc_last_send = 0, nc_deadline = 0, nc_retries = 0\<rparr>"

text \<open>A callback: the argument, the status, the body's offset and length.\<close>

record ns_event =
  ev_ctx :: nat
  ev_status :: nat
  ev_off :: nat
  ev_len :: nat

record ns =
  ns_c :: ns_conn
  ns_arp :: "arp_ent list"
  ns_mac :: bytes
  ns_ip_id :: u16
  ns_port_ctr :: u16
  ns_buf :: bytes
  ns_tx :: "bytes list"
  ns_done :: "ns_event list"
  ns_tls :: tls

definition ns_ticks :: "ns \<Rightarrow> u64" where
  "ns_ticks s = tls_ticks (ns_tls s)"

definition upd_c :: "(ns_conn \<Rightarrow> ns_conn) \<Rightarrow> ns \<Rightarrow> ns" where
  "upd_c f s = s\<lparr>ns_c := f (ns_c s)\<rparr>"

definition NS_OK :: nat where "NS_OK = 0"
definition NS_ERR_NONET :: nat where "NS_ERR_NONET = 1"
definition NS_ERR_DNS :: nat where "NS_ERR_DNS = 2"
definition NS_ERR_CONN :: nat where "NS_ERR_CONN = 3"
definition NS_ERR_HTTP :: nat where "NS_ERR_HTTP = 4"
definition NS_ERR_TLS :: nat where "NS_ERR_TLS = 6"

definition NS_PH_DNS :: nat where "NS_PH_DNS = 0"
definition NS_PH_CONNECT :: nat where "NS_PH_CONNECT = 1"
definition NS_PH_TLS :: nat where "NS_PH_TLS = 2"
definition NS_PH_TRANSFER :: nat where "NS_PH_TRANSFER = 3"

definition TCP_S_SYN_SENT :: nat where "TCP_S_SYN_SENT = 1"
definition TCP_S_ESTAB :: nat where "TCP_S_ESTAB = 2"

definition TCP_FIN :: u8 where "TCP_FIN = 0x01"
definition TCP_SYN :: u8 where "TCP_SYN = 0x02"
definition TCP_RST :: u8 where "TCP_RST = 0x04"
definition TCP_PSH :: u8 where "TCP_PSH = 0x08"
definition TCP_ACK :: u8 where "TCP_ACK = 0x10"

definition ns_my_ip :: bytes where "ns_my_ip = [10, 0, 2, 15]"
definition ns_gw_ip :: bytes where "ns_gw_ip = [10, 0, 2, 2]"
definition ns_dns_ip :: bytes where "ns_dns_ip = [10, 0, 2, 3]"

section \<open>Fields of a frame\<close>

definition b16 :: "bytes \<Rightarrow> nat \<Rightarrow> u16 option" where
  "b16 p off = do { a \<leftarrow> rd p off; b \<leftarrow> rd p (off + 1); Some (mk16 a b) }"

definition b32 :: "bytes \<Rightarrow> nat \<Rightarrow> u32 option" where
  "b32 p off = do { a \<leftarrow> b16 p off; b \<leftarrow> b16 p (off + 2); Some (push_bit 16 (ucast a) OR ucast b) }"

section \<open>The ARP cache\<close>

definition ip4 :: "bytes \<Rightarrow> u32" where
  "ip4 p = mk32 (p ! 0) (p ! 1) (p ! 2) (p ! 3)"

fun arp_find :: "u32 \<Rightarrow> arp_ent list \<Rightarrow> bytes option" where
  "arp_find ip [] = None"
| "arp_find ip (e # es) = (if ae_valid e \<and> ae_ip e = ip then Some (ae_mac e) else arp_find ip es)"

definition arp_lookup :: "bytes \<Rightarrow> ns \<Rightarrow> bytes option" where
  "arp_lookup ip s = arp_find (ip4 ip) (ns_arp s)"

text \<open>The two passes of the update; \<open>None\<close> when a pass finds no entry.\<close>

fun arp_replace :: "u32 \<Rightarrow> bytes \<Rightarrow> arp_ent list \<Rightarrow> arp_ent list option" where
  "arp_replace ip mac [] = None"
| "arp_replace ip mac (e # es) =
     (if ae_valid e \<and> ae_ip e = ip then Some (e\<lparr>ae_mac := mac\<rparr> # es)
      else map_option ((#) e) (arp_replace ip mac es))"

fun arp_insert :: "u32 \<Rightarrow> bytes \<Rightarrow> arp_ent list \<Rightarrow> arp_ent list option" where
  "arp_insert ip mac [] = None"
| "arp_insert ip mac (e # es) =
     (if \<not> ae_valid e then Some (\<lparr>ae_ip = ip, ae_mac = mac, ae_valid = True\<rparr> # es)
      else map_option ((#) e) (arp_insert ip mac es))"

definition arp_update :: "bytes \<Rightarrow> bytes \<Rightarrow> arp_ent list \<Rightarrow> arp_ent list" where
  "arp_update ip mac es =
     (case arp_replace (ip4 ip) mac es of
        Some es' \<Rightarrow> es'
      | None \<Rightarrow>
          (case arp_insert (ip4 ip) mac es of
             Some es' \<Rightarrow> es'
           | None \<Rightarrow> es[0 := (es ! 0)\<lparr>ae_ip := ip4 ip, ae_mac := mac\<rparr>]))"

definition send_frame :: "bytes \<Rightarrow> ns \<Rightarrow> ns" where
  "send_frame f s = s\<lparr>ns_tx := ns_tx s @ [f]\<rparr>"

definition arp_request :: "bytes \<Rightarrow> ns \<Rightarrow> ns" where
  "arp_request ip s =
     send_frame (replicate 6 0xFF @ ns_mac s @ bytes16 0x0806
       @ bytes16 1 @ bytes16 0x0800 @ [6, 4] @ bytes16 1 @ ns_mac s @ ns_my_ip @ replicate 6 0 @ ip) s"

section \<open>Frame builders\<close>

definition ip_header :: "u8 \<Rightarrow> bytes \<Rightarrow> nat \<Rightarrow> u16 \<Rightarrow> u16 \<Rightarrow> bytes" where
  "ip_header proto dst plen ident ck =
     [0x45, 0] @ bytes16 (of_nat (20 + plen)) @ bytes16 ident @ bytes16 0 @ [64, proto] @ bytes16 ck
     @ ns_my_ip @ dst"

definition ip_send :: "u8 \<Rightarrow> bytes \<Rightarrow> bytes option \<Rightarrow> bytes \<Rightarrow> ns \<Rightarrow> ns option" where
  "ip_send proto dst_ip dst_mac pay s =
     (if length pay > 1500 then Some s
      else (let i = ns_ip_id s + 1;
                ck = csum (ip_header proto dst_ip (length pay) i 0) 0
            in do { mac \<leftarrow> dst_mac;
                 Some (send_frame (mac @ ns_mac s @ bytes16 0x0800
                         @ ip_header proto dst_ip (length pay) i ck @ pay) (s\<lparr>ns_ip_id := i\<rparr>)) }))"

definition udp_packet :: "u16 \<Rightarrow> u16 \<Rightarrow> bytes \<Rightarrow> u16 \<Rightarrow> bytes" where
  "udp_packet sport dport pay ck =
     bytes16 sport @ bytes16 dport @ bytes16 (of_nat (8 + length pay)) @ bytes16 ck @ pay"

definition udp_send :: "u16 \<Rightarrow> u16 \<Rightarrow> bytes \<Rightarrow> bytes option \<Rightarrow> bytes \<Rightarrow> ns \<Rightarrow> ns option" where
  "udp_send sport dport dst_ip dst_mac pay s =
     (if length pay > 1500 then Some s
      else (let ps = pseudo ns_my_ip dst_ip 0x11 (of_nat (8 + length pay));
                ck = csum (udp_packet sport dport pay 0) ps
            in ip_send 0x11 dst_ip dst_mac (udp_packet sport dport pay ck) s))"

definition tcp_segment :: "ns_conn \<Rightarrow> u8 \<Rightarrow> u32 \<Rightarrow> u32 \<Rightarrow> bytes \<Rightarrow> u16 \<Rightarrow> bytes" where
  "tcp_segment c flags sq ack pay ck =
     bytes16 (nc_sport c) @ bytes16 (if nc_use_tls c then 443 else 80) @ bytes32 sq @ bytes32 ack
     @ [0x50, flags] @ bytes16 65535 @ bytes16 ck @ bytes16 0 @ pay"

definition ns_emit :: "u8 \<Rightarrow> u32 \<Rightarrow> u32 \<Rightarrow> bytes \<Rightarrow> ns \<Rightarrow> ns option" where
  "ns_emit flags sq ack pay s =
     (if length pay > 1500 then Some s
      else (let c = ns_c s;
                ps = pseudo ns_my_ip (nc_dst_ip c) 0x06 (of_nat (20 + length pay));
                ck = csum (tcp_segment c flags sq ack pay 0) ps
            in ip_send 0x06 (nc_dst_ip c) (arp_lookup ns_gw_ip s) (tcp_segment c flags sq ack pay ck) s))"

definition ns_tls_send :: "bytes \<Rightarrow> ns \<Rightarrow> ns option" where
  "ns_tls_send dat s =
     (let c = ns_c s in
      if \<not> nc_active c \<or> nc_tcp_state c \<noteq> TCP_S_ESTAB then Some s
      else (let dat = take 1500 dat in
        do { s \<leftarrow> ns_emit (TCP_PSH OR TCP_ACK) (nc_snd_nxt c) (nc_rcv_nxt c) dat s;
             Some (upd_c (\<lambda>c. c\<lparr>nc_snd_nxt := nc_snd_nxt c + of_nat (length dat), nc_last_send := ns_ticks s\<rparr>) s) }))"

text \<open>The payloads that the TLS client has handed over, in order.\<close>

fun ns_flush_list :: "bytes list \<Rightarrow> ns \<Rightarrow> ns option" where
  "ns_flush_list [] s = Some s"
| "ns_flush_list (d # ds) s = do { s \<leftarrow> ns_tls_send d s; ns_flush_list ds s }"

definition ns_flush :: "tls \<Rightarrow> ns \<Rightarrow> ns option" where
  "ns_flush t s = ns_flush_list (tls_out t) (s\<lparr>ns_tls := t\<lparr>tls_out := []\<rparr>\<rparr>)"

definition ns_finish :: "nat \<Rightarrow> ns \<Rightarrow> ns" where
  "ns_finish status s =
     (let c = ns_c s;
          ok = (status = NS_OK \<and> nc_hdr_done c \<and> nc_hdr_end c \<le> nc_got c);
          off = (if ok then nc_hdr_end c else 0);
          len = (if ok then nc_got c - nc_hdr_end c else 0)
      in s\<lparr>ns_c := ns_zero,
           ns_done := (if nc_cb c then ns_done s @ [\<lparr>ev_ctx = nc_ctx c, ev_status = status, ev_off = off, ev_len = len\<rparr>]
                       else ns_done s)\<rparr>)"

section \<open>DNS\<close>

definition cstr :: "bytes \<Rightarrow> bytes" where
  "cstr p = takeWhile (\<lambda>c. c \<noteq> 0) p"

definition label_len :: "bytes \<Rightarrow> nat" where
  "label_len name = length (takeWhile (\<lambda>c. c \<noteq> 0x2E) (take 64 name))"

text \<open>\<open>name\<close> is the rest of the string; the result is the array and the offset behind the labels.\<close>

function dns_labels :: "nat \<Rightarrow> nat \<Rightarrow> bytes \<Rightarrow> bytes \<Rightarrow> (bytes \<times> nat) option" where
  "dns_labels cap off name dst =
     (if name = [] \<or> off \<ge> cap then Some (dst, off)
      else (let part = label_len name in
        if part > 63 \<or> off + part + 1 \<ge> cap then Some (dst, off)
        else do { dst \<leftarrow> wr dst off (of_nat part);
                  dst \<leftarrow> wr_range dst (off + 1) (take part name);
                  (let name = drop part name; off = off + 1 + part in
                   if name \<noteq> [] \<and> hd name = 0x2E then dns_labels cap off (tl name) dst
                   else Some (dst, off)) }))"
  by pat_completeness auto
termination
  by (relation "measure (\<lambda>(cap, off, name, dst). length name)") auto

declare dns_labels.simps [simp del]

definition dns_build_name :: "bytes \<Rightarrow> bytes \<Rightarrow> bytes option" where
  "dns_build_name dst name =
     do { (dst, off) \<leftarrow> dns_labels (length dst) 0 name dst;
          if off < length dst then wr dst off 0 else Some dst }"

definition dns_send_query :: "ns \<Rightarrow> ns option" where
  "dns_send_query s =
     do { qname \<leftarrow> dns_build_name (replicate 500 0) (cstr (nc_host (ns_c s)));
       (let q = bytes16 (nc_dns_id (ns_c s)) @ bytes16 0x0100 @ bytes16 1 @ replicate 6 0 @ qname;
            qend = 12 + (length (cstr qname) + 1)
        in do { q \<leftarrow> wr_range q qend (bytes16 1 @ bytes16 1);
                pay \<leftarrow> rd_range q 0 (qend + 4);
                s \<leftarrow> udp_send (nc_dns_sport (ns_c s)) 53 ns_dns_ip (arp_lookup ns_dns_ip s) pay s;
                Some (upd_c (\<lambda>c. c\<lparr>nc_last_send := ns_ticks s\<rparr>) s) }) }"

text \<open>\<open>q\<close> is at \<open>base\<close> of the array; 0 is the code's failure.\<close>

function dns_skip_name :: "bytes \<Rightarrow> nat \<Rightarrow> nat \<Rightarrow> nat \<Rightarrow> nat option" where
  "dns_skip_name f base n off =
     (case rd f (base + off) of
        None \<Rightarrow> None
      | Some len \<Rightarrow>
          if len = 0 then Some (off + 1)
          else if len AND 0xC0 = 0xC0 then Some (off + 2)
          else if len AND 0xC0 \<noteq> 0 then Some 0
          else if off + 1 + unat len \<ge> n then Some 0
          else dns_skip_name f base n (off + 1 + unat len))"
  by pat_completeness auto
termination
  by (relation "measure (\<lambda>(f, base, n, off). n - off)") auto

declare dns_skip_name.simps [simp del]

text \<open>The questions: \<open>Some None\<close> is a return from the handler.\<close>

fun dns_questions :: "nat \<Rightarrow> bytes \<Rightarrow> nat \<Rightarrow> nat \<Rightarrow> nat \<Rightarrow> nat option option" where
  "dns_questions 0 f base n off = Some (Some off)"
| "dns_questions (Suc k) f base n off =
     do { off \<leftarrow> dns_skip_name f base n off;
          if off = 0 then Some None
          else if off + 4 \<ge> n then Some None
          else dns_questions k f base n (off + 4) }"

datatype dns_result = Dns_ignore | Dns_address bytes | Dns_no_record

fun dns_answers :: "nat \<Rightarrow> bytes \<Rightarrow> nat \<Rightarrow> nat \<Rightarrow> nat \<Rightarrow> dns_result option" where
  "dns_answers 0 f base n off = Some Dns_no_record"
| "dns_answers (Suc k) f base n off =
     do { off \<leftarrow> dns_skip_name f base n off;
          if off = 0 \<or> off + 10 > n then Some Dns_ignore
          else do { ty \<leftarrow> b16 f (base + off); cls \<leftarrow> b16 f (base + off + 2); rdl \<leftarrow> b16 f (base + off + 8);
            if ty = 1 \<and> cls = 1 \<and> rdl = 4 \<and> off + 14 \<le> n then
              do { a \<leftarrow> rd_range f (base + off + 10) 4; Some (Dns_address a) }
            else if off + (10 + unat rdl) > n then Some Dns_ignore
            else dns_answers k f base n (off + (10 + unat rdl)) } }"

definition dns_handle :: "bytes \<Rightarrow> nat \<Rightarrow> nat \<Rightarrow> ns \<Rightarrow> ns option" where
  "dns_handle f base n s =
     (if n < 12 then Some s
      else do { i \<leftarrow> b16 f base;
        if i \<noteq> nc_dns_id (ns_c s) then Some s
        else do { flags \<leftarrow> b16 f (base + 2);
          if flags AND 0x8000 = 0 then Some s
          else if flags AND 0x000F \<noteq> 0 then Some (ns_finish NS_ERR_DNS s)
          else do { qd \<leftarrow> b16 f (base + 4); an \<leftarrow> b16 f (base + 6);
            q \<leftarrow> dns_questions (unat qd) f base n 12;
            case q of
              None \<Rightarrow> Some s
            | Some off \<Rightarrow>
                do { r \<leftarrow> dns_answers (unat an) f base n off;
                     Some (case r of
                       Dns_ignore \<Rightarrow> s
                     | Dns_address a \<Rightarrow> upd_c (\<lambda>c. c\<lparr>nc_dst_ip := a, nc_phase := NS_PH_CONNECT\<rparr>) s
                     | Dns_no_record \<Rightarrow> ns_finish NS_ERR_DNS s) } } } })"

section \<open>HTTP\<close>

definition CRLF :: bytes where "CRLF = [13, 10]"

definition http_request :: "ns_conn \<Rightarrow> bytes" where
  "http_request c =
     take 511 (map of_char ''GET '' @ cstr (nc_path c) @ map of_char '' HTTP/1.0'' @ CRLF @ map of_char ''Host: ''
       @ cstr (nc_host c) @ CRLF @ map of_char ''User-Agent: SolOS/0.1'' @ CRLF
       @ map of_char ''Connection: close'' @ CRLF @ CRLF)"

definition ns_send_request :: "tls_env \<Rightarrow> ns \<Rightarrow> ns option" where
  "ns_send_request e s =
     do { s \<leftarrow> (if nc_req_len (ns_c s) = 0 then
                 (let r = http_request (ns_c s) in
                  do { req \<leftarrow> wr_range (nc_req (ns_c s)) 0 (r @ [0]);
                       Some (upd_c (\<lambda>c. c\<lparr>nc_req := req, nc_req_len := length r\<rparr>) s) })
               else Some s);
          req \<leftarrow> rd_range (nc_req (ns_c s)) 0 (nc_req_len (ns_c s));
          s \<leftarrow> (if nc_use_tls (ns_c s) then do { t \<leftarrow> tls_send_app_data e req (ns_tls s); ns_flush t s }
               else do { s \<leftarrow> ns_emit TCP_ACK (nc_snd_nxt (ns_c s)) (nc_rcv_nxt (ns_c s)) req s;
                         Some (upd_c (\<lambda>c. c\<lparr>nc_snd_nxt := nc_snd_nxt c + of_nat (nc_req_len c)\<rparr>) s) });
          Some (upd_c (\<lambda>c. c\<lparr>nc_req_sent := True, nc_last_send := ns_ticks s\<rparr>) s) }"

text \<open>The position of the last byte of the first empty line among the first \<open>scan\<close> bytes.\<close>

definition find_header_end :: "bytes \<Rightarrow> nat \<Rightarrow> nat option" where
  "find_header_end buf scan =
     List.find (\<lambda>i. buf ! (i - 3) = 13 \<and> buf ! (i - 2) = 10 \<and> buf ! (i - 1) = 13 \<and> buf ! i = 10) [3 ..< scan]"

definition is_digit :: "u8 \<Rightarrow> bool" where
  "is_digit c \<longleftrightarrow> 0x30 \<le> c \<and> c \<le> 0x39"

definition digit_val :: "u8 \<Rightarrow> nat" where
  "digit_val c = unat (c - 0x30)"

text \<open>The status of a header that ends before \<open>hend\<close>, where the response has one.\<close>

definition http_status_of :: "bytes \<Rightarrow> nat \<Rightarrow> nat option" where
  "http_status_of buf hend =
     (if hend \<ge> 12 \<and> take 4 buf = [0x48, 0x54, 0x54, 0x50]
        \<and> is_digit (buf ! 9) \<and> is_digit (buf ! 10) \<and> is_digit (buf ! 11)
      then Some (digit_val (buf ! 9) * 100 + digit_val (buf ! 10) * 10 + digit_val (buf ! 11)) else None)"

definition NS_HDR_MAX :: nat where "NS_HDR_MAX = 2048"

definition scan_header :: "ns \<Rightarrow> ns" where
  "scan_header s =
     (let c = ns_c s; scan = (if nc_got c < NS_HDR_MAX then nc_got c else NS_HDR_MAX) in
      if nc_hdr_done c then s
      else case find_header_end (ns_buf s) scan of
        None \<Rightarrow> s
      | Some i \<Rightarrow>
          upd_c (\<lambda>c. c\<lparr>nc_hdr_done := True, nc_hdr_end := i + 1,
             nc_http_status := (case http_status_of (ns_buf s) (i + 1) of
                                  None \<Rightarrow> nc_http_status c | Some k \<Rightarrow> k)\<rparr>) s)"

definition http_result :: "ns_conn \<Rightarrow> nat" where
  "http_result c = (if nc_http_status c \<ge> 200 \<and> nc_http_status c < 400 then NS_OK else NS_ERR_HTTP)"

definition emit_ack :: "u8 \<Rightarrow> ns \<Rightarrow> ns option" where
  "emit_ack flags s = ns_emit flags (nc_snd_nxt (ns_c s)) (nc_rcv_nxt (ns_c s)) [] s"

section \<open>TCP\<close>

definition tcp_syn_sent :: "tls_env \<Rightarrow> u8 \<Rightarrow> u32 \<Rightarrow> u32 \<Rightarrow> ns \<Rightarrow> ns option" where
  "tcp_syn_sent e flags sq ack s =
     (if flags AND TCP_SYN = 0 \<or> flags AND TCP_ACK = 0 then Some s
      else if ack \<noteq> nc_isn (ns_c s) + 1 then Some s
      else if flags AND TCP_RST \<noteq> 0 then Some (ns_finish NS_ERR_CONN s)
      else (let s = upd_c (\<lambda>c. c\<lparr>nc_rcv_nxt := sq + 1, nc_tcp_state := TCP_S_ESTAB\<rparr>) s in
        if nc_use_tls (ns_c s) then
          (let s = upd_c (\<lambda>c. c\<lparr>nc_phase := NS_PH_TLS\<rparr>) s in
           do { (_, t) \<leftarrow> tls_connect e (nc_active (ns_c s)) (cstr (nc_host (ns_c s))) 0 False 0 (ns_tls s);
                s \<leftarrow> ns_flush t s;
                emit_ack TCP_ACK s })
        else ns_send_request e (upd_c (\<lambda>c. c\<lparr>nc_phase := NS_PH_TRANSFER\<rparr>) s)))"

text \<open>Application data that the TLS client has ready, into the client's buffer.\<close>

definition take_app_data :: "ns \<Rightarrow> ns option" where
  "take_app_data s =
     (let t = tls_clear_app_ready (ns_tls s);
          n = (if tls_app_len t < nc_cap (ns_c s) then tls_app_len t else nc_cap (ns_c s))
      in do { dat \<leftarrow> tls_copy_app_data n t;
              buf \<leftarrow> wr_range (ns_buf s) 0 dat;
              (let s = upd_c (\<lambda>c. c\<lparr>nc_got := length dat\<rparr>) (s\<lparr>ns_buf := buf, ns_tls := tls_clear_app_len t\<rparr>)
               in Some (if nc_got (ns_c s) \<ge> 4 then scan_header s else s)) })"

definition tcp_data_tls :: "tls_env \<Rightarrow> bytes \<Rightarrow> ns \<Rightarrow> ns option" where
  "tcp_data_tls e dat s =
     do { c \<leftarrow> tls_feed dat (tls_c (ns_tls s));
          t \<leftarrow> tls_poll e ((ns_tls s)\<lparr>tls_c := c\<rparr>);
          s \<leftarrow> ns_flush t s;
          s \<leftarrow> (if tls_app_ready (ns_tls s) then take_app_data s else Some s);
          emit_ack TCP_ACK (upd_c (\<lambda>c. c\<lparr>nc_rcv_nxt := nc_rcv_nxt c + of_nat (length dat)\<rparr>) s) }"

text \<open>The bytes of a plain response that fit the client's buffer.\<close>

definition tcp_store :: "bytes \<Rightarrow> ns \<Rightarrow> ns option" where
  "tcp_store dat s =
     (let c = ns_c s; room = nc_cap c - nc_got c; dat = (if length dat > room then take room dat else dat) in
      do { buf \<leftarrow> wr_range (ns_buf s) (nc_got c) dat;
           Some (scan_header (upd_c (\<lambda>c. c\<lparr>nc_got := nc_got c + length dat,
                    nc_rcv_nxt := nc_rcv_nxt c + of_nat (length dat)\<rparr>) (s\<lparr>ns_buf := buf\<rparr>))) })"

definition tcp_fin :: "ns \<Rightarrow> ns option" where
  "tcp_fin s =
     (let s = upd_c (\<lambda>c. c\<lparr>nc_rcv_nxt := nc_rcv_nxt c + 1\<rparr>) s in
      if nc_phase (ns_c s) = NS_PH_TLS then
        (let had_app = (tls_app_ready (ns_tls s) \<or> tls_app_len (ns_tls s) > 0) in
         do { s \<leftarrow> (if had_app then take_app_data s else Some s);
              s \<leftarrow> emit_ack (TCP_ACK OR TCP_FIN) s;
              Some (ns_finish (if had_app \<and> nc_hdr_done (ns_c s) \<and> http_result (ns_c s) = NS_OK then NS_OK
                               else if had_app then NS_ERR_HTTP else NS_ERR_CONN) s) })
      else do { s \<leftarrow> emit_ack (TCP_ACK OR TCP_FIN) s; Some (ns_finish (http_result (ns_c s)) s) })"

text \<open>A segment on an established connection, its fields taken apart.\<close>

definition tcp_established :: "tls_env \<Rightarrow> u8 \<Rightarrow> u32 \<Rightarrow> u32 \<Rightarrow> bytes \<Rightarrow> ns \<Rightarrow> ns option" where
  "tcp_established e flags sq ack dat s =
     (if flags AND TCP_RST \<noteq> 0 then Some (ns_finish NS_ERR_CONN s)
      else (let c = ns_c s;
                s = (if flags AND TCP_ACK \<noteq> 0 \<and> nc_req_sent c \<and> \<not> nc_req_acked c \<and> ack \<ge> nc_snd_nxt c
                     then upd_c (\<lambda>c. c\<lparr>nc_req_acked := True\<rparr>) s else s)
            in if dat \<noteq> [] \<and> sq = nc_rcv_nxt c then
                 (if nc_phase c = NS_PH_TLS then
                    do { s \<leftarrow> tcp_data_tls e dat s;
                         if flags AND TCP_FIN \<noteq> 0 then tcp_fin s else emit_ack TCP_ACK s }
                  else do { s1 \<leftarrow> tcp_store dat s;
                    (let n = nc_got (ns_c s1) - nc_got c in
                     if n < length dat then
                       do { s2 \<leftarrow> emit_ack TCP_ACK s1; Some (ns_finish (http_result (ns_c s2)) s2) }
                     else if flags AND TCP_FIN \<noteq> 0 then tcp_fin s1
                     else if n > 0 then emit_ack TCP_ACK s1 else Some s1) })
               else if dat \<noteq> [] then emit_ack TCP_ACK s
               else if flags AND TCP_FIN \<noteq> 0 then tcp_fin s else Some s))"

definition tcp_handle :: "tls_env \<Rightarrow> bytes \<Rightarrow> nat \<Rightarrow> nat \<Rightarrow> ns \<Rightarrow> ns option" where
  "tcp_handle e f base n s =
     (if n < 20 then Some s
      else do { fl \<leftarrow> rd f (base + 13); sq \<leftarrow> b32 f (base + 4); ack \<leftarrow> b32 f (base + 8); d \<leftarrow> rd f (base + 12);
        (let flags = fl AND 0x3F; doff = unat (drop_bit 4 d) * 4 in
         if n < doff then Some s
         else do { dat \<leftarrow> rd_range f (base + doff) (n - doff);
           if nc_tcp_state (ns_c s) = TCP_S_SYN_SENT then tcp_syn_sent e flags sq ack s
           else if nc_tcp_state (ns_c s) \<noteq> TCP_S_ESTAB then Some s
           else tcp_established e flags sq ack dat s }) })"

section \<open>Reception\<close>

definition rx_ipv4 :: "tls_env \<Rightarrow> bytes \<Rightarrow> nat \<Rightarrow> nat \<Rightarrow> ns \<Rightarrow> ns option" where
  "rx_ipv4 e f base n s =
     (if n < 20 then Some s
      else do { vh \<leftarrow> rd f base;
        (let ihl = unat (vh AND 0x0F) * 4 in
         if ihl < 20 \<or> ihl > n then Some s
         else do { proto \<leftarrow> rd f (base + 9); tl16 \<leftarrow> b16 f (base + 2);
           (let tlen = unat tl16 in
            if tlen < ihl then Some s
            else (let plen = (if tlen - ihl > n - ihl then n - ihl else tlen - ihl); pay = base + ihl in
              if proto = 0x11 \<and> plen \<ge> 8 then
                do { dport \<leftarrow> b16 f (pay + 2);
                     if dport = nc_dns_sport (ns_c s) \<and> nc_phase (ns_c s) = NS_PH_DNS
                     then dns_handle f (pay + 8) (plen - 8) s else Some s }
              else if proto = 0x06 \<and> plen \<ge> 20 then
                do { dport \<leftarrow> b16 f (pay + 2);
                     if nc_active (ns_c s) \<and> dport = nc_sport (ns_c s)
                     then tcp_handle e f pay plen s else Some s }
              else Some s)) }) })"

definition rx_frame :: "tls_env \<Rightarrow> bytes \<times> nat \<Rightarrow> ns \<Rightarrow> ns option" where
  "rx_frame e fr s =
     (let (f, n) = fr in
      if n < 14 then Some s
      else do { ty \<leftarrow> b16 f 12;
        if ty = 0x0800 then rx_ipv4 e f 14 (n - 14) s
        else if ty = 0x0806 \<and> n - 14 \<ge> 28 then
          do { op \<leftarrow> b16 f (14 + 6);
               if op = 2 then
                 do { spa \<leftarrow> rd_range f (14 + 14) 4; sha \<leftarrow> rd_range f (14 + 8) 6;
                      Some (s\<lparr>ns_arp := arp_update spa sha (ns_arp s)\<rparr>) }
               else Some s }
        else Some s })"

fun rx_frames :: "tls_env \<Rightarrow> (bytes \<times> nat) list \<Rightarrow> ns \<Rightarrow> ns option" where
  "rx_frames e [] s = Some s"
| "rx_frames e (fr # frs) s = do { s \<leftarrow> rx_frame e fr s; rx_frames e frs s }"

section \<open>The interface\<close>

definition NS_RETRY :: int where "NS_RETRY = 50"
definition NS_DEADLINE :: u64 where "NS_DEADLINE = 1500"

text \<open>The URL's scheme is stripped; the copy of the host stops at the path but not at the array's end.\<close>

definition HTTPS_SCHEME :: bytes where "HTTPS_SCHEME = map of_char ''https://''"
definition HTTP_SCHEME :: bytes where "HTTP_SCHEME = map of_char ''http://''"

definition url_host :: "bytes \<Rightarrow> bool \<times> bytes" where
  "url_host h =
     (let (use_tls, h) = (if take 8 h = HTTPS_SCHEME then (True, drop 8 h)
                          else if take 7 h = HTTP_SCHEME then (False, drop 7 h) else (False, h))
      in (use_tls, takeWhile (\<lambda>c. c \<noteq> 0x2F \<and> c \<noteq> 0x3F \<and> c \<noteq> 0x23) h))"

text \<open>\<open>up\<close>: the card is present and the link up. Strings are given without their terminator.\<close>

definition ns_http_get ::
    "bool \<Rightarrow> bytes \<Rightarrow> bytes option \<Rightarrow> bytes option \<Rightarrow> nat \<Rightarrow> bool \<Rightarrow> nat \<Rightarrow> ns \<Rightarrow> (bool \<times> ns) option" where
  "ns_http_get up mac host path cap cb ctx s =
     (if \<not> up then
        Some (False, if cb then s\<lparr>ns_done := ns_done s @ [\<lparr>ev_ctx = ctx, ev_status = NS_ERR_NONET, ev_off = 0, ev_len = 0\<rparr>]\<rparr>
                     else s)
      else (let (use_tls, h) = (case host of None \<Rightarrow> (False, []) | Some h \<Rightarrow> url_host h);
                p = (case path of None \<Rightarrow> [] | Some p \<Rightarrow> take 255 p);
                ctr = ns_port_ctr s + 1;
                isn = 0x12345678 + ucast (ns_ticks s * 97) + ucast ctr * 7919
            in do { hbuf \<leftarrow> (case host of None \<Rightarrow> Some (replicate 96 0) | Some _ \<Rightarrow> wr_range (replicate 96 0) 0 (h @ [0]));
                    pbuf \<leftarrow> wr_range (replicate 256 0) 0 p;
                    Some (True, s\<lparr>ns_port_ctr := ctr, ns_mac := mac, ns_c := ns_zero
                      \<lparr>nc_active := True, nc_cap := cap, nc_cb := cb, nc_ctx := ctx, nc_use_tls := use_tls,
                       nc_host := hbuf, nc_path := pbuf,
                       nc_sport := of_nat (40000 + unat ctr mod 15000),
                       nc_dns_sport := of_nat (50000 + unat ctr mod 10000),
                       nc_dns_id := of_nat (0x1000 + unat ctr mod 0x7000),
                       nc_isn := isn, nc_snd_nxt := isn + 1, nc_deadline := ns_ticks s + NS_DEADLINE\<rparr>\<rparr>) }))"

definition ns_abort :: "nat \<Rightarrow> ns \<Rightarrow> ns" where
  "ns_abort ctx s = (if nc_active (ns_c s) \<and> nc_ctx (ns_c s) = ctx then s\<lparr>ns_c := ns_zero\<rparr> else s)"

definition ns_is_active :: "ns \<Rightarrow> bool" where
  "ns_is_active s \<longleftrightarrow> nc_active (ns_c s)"

text \<open>Half a second without a transmission, in the code's signed 32-bit arithmetic.\<close>

definition retry_due :: "ns \<Rightarrow> bool" where
  "retry_due s \<longleftrightarrow> sint (ucast (ns_ticks s - nc_last_send (ns_c s)) :: 32 word) \<ge> NS_RETRY"

definition stamp_send :: "ns \<Rightarrow> ns" where
  "stamp_send s = upd_c (\<lambda>c. c\<lparr>nc_last_send := ns_ticks s\<rparr>) s"

definition poll_dns :: "ns \<Rightarrow> ns option" where
  "poll_dns s =
     (let s = upd_c (\<lambda>c. c\<lparr>nc_retries := 0\<rparr>) s in
      if \<not> nc_dns_sent (ns_c s) then
        (if arp_lookup ns_dns_ip s \<noteq> None then
           do { s \<leftarrow> dns_send_query s; Some (upd_c (\<lambda>c. c\<lparr>nc_dns_sent := True\<rparr>) s) }
         else if retry_due s then Some (stamp_send (arp_request ns_dns_ip s))
         else Some s)
      else if retry_due s then
        (let s = upd_c (\<lambda>c. c\<lparr>nc_retries := nc_retries c + 1\<rparr>) s in
         if nc_retries (ns_c s) > 8 then Some (ns_finish NS_ERR_DNS s) else dns_send_query s)
      else Some s)"

definition poll_connect :: "ns \<Rightarrow> ns option" where
  "poll_connect s =
     (let s = upd_c (\<lambda>c. c\<lparr>nc_retries := 0\<rparr>) s in
      if arp_lookup ns_gw_ip s = None then
        (if retry_due s then Some (stamp_send (arp_request ns_gw_ip s)) else Some s)
      else if nc_tcp_state (ns_c s) \<noteq> TCP_S_SYN_SENT then
        (let s = upd_c (\<lambda>c. c\<lparr>nc_tcp_state := TCP_S_SYN_SENT\<rparr>) s in
         do { s \<leftarrow> ns_emit TCP_SYN (nc_isn (ns_c s)) 0 [] s; Some (stamp_send s) })
      else if retry_due s then
        (let s = upd_c (\<lambda>c. c\<lparr>nc_retries := nc_retries c + 1\<rparr>) s in
         if nc_retries (ns_c s) > 24 then Some (ns_finish NS_ERR_CONN s)
         else do { s \<leftarrow> ns_emit TCP_SYN (nc_isn (ns_c s)) 0 [] s; Some (stamp_send s) })
      else Some s)"

definition poll_tls :: "tls_env \<Rightarrow> ns \<Rightarrow> ns option" where
  "poll_tls e s =
     (if \<not> nc_tls_sent (ns_c s) then
        do { t \<leftarrow> tls_poll e (ns_tls s);
             s \<leftarrow> ns_flush t s;
             if tls_is_established (ns_tls s) then
               do { s \<leftarrow> ns_send_request e s; Some (upd_c (\<lambda>c. c\<lparr>nc_tls_sent := True, nc_retries := 0\<rparr>) s) }
             else if \<not> tls_is_active (ns_tls s) then Some (ns_finish NS_ERR_TLS s)
             else Some s }
      else if ns_ticks s \<ge> nc_deadline (ns_c s) then Some (ns_finish NS_ERR_CONN s)
      else Some s)"

definition poll_transfer :: "ns \<Rightarrow> ns option" where
  "poll_transfer s =
     (if nc_req_sent (ns_c s) \<and> \<not> nc_req_acked (ns_c s) \<and> retry_due s then
        (let s = upd_c (\<lambda>c. c\<lparr>nc_retries := nc_retries c + 1\<rparr>) s in
         if nc_retries (ns_c s) > 10 then Some (ns_finish NS_ERR_CONN s)
         else do { req \<leftarrow> rd_range (nc_req (ns_c s)) 0 (nc_req_len (ns_c s));
                   s \<leftarrow> ns_emit TCP_ACK (nc_snd_nxt (ns_c s) - of_nat (nc_req_len (ns_c s)))
                          (nc_rcv_nxt (ns_c s)) req s;
                   Some (stamp_send s) })
      else Some s)"

definition ns_timers :: "tls_env \<Rightarrow> ns \<Rightarrow> ns option" where
  "ns_timers e s =
     (if \<not> nc_active (ns_c s) then Some s
      else if ns_ticks s \<ge> nc_deadline (ns_c s) then Some (ns_finish NS_ERR_CONN s)
      else if nc_phase (ns_c s) = NS_PH_DNS then poll_dns s
      else if nc_phase (ns_c s) = NS_PH_CONNECT then poll_connect s
      else if nc_phase (ns_c s) = NS_PH_TLS then poll_tls e s
      else poll_transfer s)"

text \<open>A poll: the frames that the driver hands out, then the timers.\<close>

definition ns_poll :: "tls_env \<Rightarrow> (bytes \<times> nat) list \<Rightarrow> ns \<Rightarrow> ns option" where
  "ns_poll e frames s = do { s \<leftarrow> rx_frames e frames s; ns_timers e s }"

end
