(* ===== verification/Netstack_Stream.thy ===== *)
theory Netstack_Stream
  imports Netstack "HOL-Library.Sublist"
begin

unbundle bit_operations_syntax

text \<open>
  The data of a plain connection. The reference is the stream that the server sends; a segment carries a
  piece of it. The lemmas show that the client's buffer always holds a prefix of the stream, and that it
  holds all of it once the pieces have arrived in order.
\<close>

section \<open>The stream of a plain connection\<close>

text \<open>Sending a segment changes only the identification counter and the frames sent.\<close>

definition only_tx :: "ns \<Rightarrow> ns \<Rightarrow> bool" where
  "only_tx s s' \<longleftrightarrow> (\<exists>i t. s' = s\<lparr>ns_ip_id := i, ns_tx := t\<rparr>)"

lemma only_txI [intro]: "only_tx s (s\<lparr>ns_ip_id := i, ns_tx := t\<rparr>)" "only_tx s s"
proof -
  show "only_tx s (s\<lparr>ns_ip_id := i, ns_tx := t\<rparr>)" by (auto simp: only_tx_def)
  have "s = s\<lparr>ns_ip_id := ns_ip_id s, ns_tx := ns_tx s\<rparr>" by simp
  then show "only_tx s s" unfolding only_tx_def by blast
qed

lemma ns_emit_only_tx:
  assumes "arp_lookup ns_gw_ip s = Some mac"
  shows "\<exists>s'. ns_emit fl sq ack pay s = Some s' \<and> only_tx s s'"
proof -
  have "\<exists>s'. ip_send pr dst (Some mac) p s = Some s' \<and> only_tx s s'" for pr dst p
    by (cases "length p > 1500") (auto simp: ip_send_def send_frame_def Let_def)
  then show ?thesis using assms by (cases "length pay > 1500") (auto simp: ns_emit_def Let_def)
qed

lemma only_tx_simps:
  assumes "only_tx s s'"
  shows "ns_c s' = ns_c s" "ns_arp s' = ns_arp s" "ns_buf s' = ns_buf s" "ns_done s' = ns_done s"
    "arp_lookup ip s' = arp_lookup ip s" "ns_tls s' = ns_tls s" "ns_ticks s' = ns_ticks s"
  using assms by (auto simp: only_tx_def arp_lookup_def ns_ticks_def)

text \<open>A plain connection that has received the first bytes of the stream \<open>S\<close>, which begins at \<open>r0\<close>.\<close>

definition stream_open :: "bytes \<Rightarrow> u32 \<Rightarrow> ns_event list \<Rightarrow> ns \<Rightarrow> bool" where
  "stream_open S r0 evs s \<longleftrightarrow>
     nc_active (ns_c s) \<and> nc_tcp_state (ns_c s) = TCP_S_ESTAB \<and> nc_phase (ns_c s) = NS_PH_TRANSFER \<and> nc_cb (ns_c s)
     \<and> arp_lookup ns_gw_ip s \<noteq> None \<and> ns_done s = evs
     \<and> nc_got (ns_c s) \<le> nc_cap (ns_c s) \<and> nc_cap (ns_c s) \<le> length (ns_buf s) \<and> nc_got (ns_c s) \<le> length S
     \<and> take (nc_got (ns_c s)) (ns_buf s) = take (nc_got (ns_c s)) S
     \<and> nc_rcv_nxt (ns_c s) = r0 + of_nat (nc_got (ns_c s))"

definition stream_closed :: "bytes \<Rightarrow> ns_event list \<Rightarrow> ns \<Rightarrow> bool" where
  "stream_closed S evs s \<longleftrightarrow>
     \<not> nc_active (ns_c s) \<and> nc_tcp_state (ns_c s) = 0
     \<and> (\<exists>ev. ns_done s = evs @ [ev] \<and> ev_off ev + ev_len ev \<le> length S
          \<and> take (ev_off ev + ev_len ev) (ns_buf s) = take (ev_off ev + ev_len ev) S)"

text \<open>The data of a segment is a piece of the stream at the place that its sequence number says.\<close>

definition piece_of :: "bytes \<Rightarrow> u32 \<Rightarrow> u32 \<Rightarrow> bytes \<Rightarrow> bool" where
  "piece_of S r0 sq dat \<longleftrightarrow>
     (\<exists>off. off + length dat \<le> length S \<and> sq = r0 + of_nat off \<and> dat = take (length dat) (drop off S))"

lemma finish_closes:
  assumes "nc_cb (ns_c s)" "ns_done s = evs" "nc_got (ns_c s) \<le> length S"
    "take (nc_got (ns_c s)) (ns_buf s) = take (nc_got (ns_c s)) S"
  shows "stream_closed S evs (ns_finish status s)"
  using assms by (auto simp: stream_closed_def ns_finish_def Let_def ns_zero_def)

lemma scan_header_keeps:
  "ns_buf (scan_header s) = ns_buf s" "ns_done (scan_header s) = ns_done s" "ns_arp (scan_header s) = ns_arp s"
  "nc_got (ns_c (scan_header s)) = nc_got (ns_c s)" "nc_cap (ns_c (scan_header s)) = nc_cap (ns_c s)"
  "nc_cb (ns_c (scan_header s)) = nc_cb (ns_c s)" "nc_active (ns_c (scan_header s)) = nc_active (ns_c s)"
  "nc_tcp_state (ns_c (scan_header s)) = nc_tcp_state (ns_c s)" "nc_phase (ns_c (scan_header s)) = nc_phase (ns_c s)"
  "nc_rcv_nxt (ns_c (scan_header s)) = nc_rcv_nxt (ns_c s)" "nc_use_tls (ns_c (scan_header s)) = nc_use_tls (ns_c s)"
  "nc_snd_nxt (ns_c (scan_header s)) = nc_snd_nxt (ns_c s)"
  by (auto simp: scan_header_def upd_c_def Let_def split: option.splits)

text \<open>Data at the expected place: the stream grows by what fits the client's buffer.\<close>

lemma tcp_store_grows:
  assumes open_s: "stream_open S r0 evs s" and piece: "piece_of S r0 (nc_rcv_nxt (ns_c s)) dat" and big: "length S < 2 ^ 32"
  shows "\<exists>s'. tcp_store dat s = Some s' \<and> stream_open S r0 evs s' \<and> nc_cap (ns_c s') = nc_cap (ns_c s)
    \<and> nc_got (ns_c s') = nc_got (ns_c s) + min (length dat) (nc_cap (ns_c s) - nc_got (ns_c s))"
proof -
  let ?c = "ns_c s" and ?got = "nc_got (ns_c s)"
  define d where "d = (if length dat > nc_cap ?c - ?got then take (nc_cap ?c - ?got) dat else dat)"
  have ld: "length d = min (length dat) (nc_cap ?c - ?got)" by (auto simp: d_def)
  obtain off where off: "off + length dat \<le> length S" "r0 + of_nat ?got = r0 + (of_nat off :: u32)"
      "dat = take (length dat) (drop off S)"
    using piece open_s by (auto simp: piece_of_def stream_open_def)
  have lt: "?got < 2 ^ 32" "off < 2 ^ 32" using big off(1) open_s by (auto simp: stream_open_def)
  have "unat (of_nat ?got :: u32) = unat (of_nat off :: u32)" using off(2) by simp
  moreover have "unat (of_nat ?got :: u32) = ?got" by (rule unat_of_nat_lt) (use lt(1) in simp)
  moreover have "unat (of_nat off :: u32) = off" by (rule unat_of_nat_lt) (use lt(2) in simp)
  ultimately have eq: "off = ?got" by (simp only:)
  have d: "d = take (length d) (drop ?got S)"
  proof -
    have "d = take (length d) dat" by (auto simp: d_def)
    also have "\<dots> = take (length d) (take (length dat) (drop ?got S))"
      by (simp only: off(3) [unfolded eq, symmetric])
    finally show ?thesis using ld by (simp add: min_def split: if_splits)
  qed
  have fits: "?got + length d \<le> length (ns_buf s)" "?got + length d \<le> nc_cap ?c" "?got + length d \<le> length S"
    using open_s ld off(1) eq by (auto simp: stream_open_def)
  let ?buf = "take ?got (ns_buf s) @ d @ drop (?got + length d) (ns_buf s)"
  have w: "wr_range (ns_buf s) ?got d = Some ?buf" using fits by (simp add: wr_range_Some)
  let ?s1 = "upd_c (\<lambda>c. c\<lparr>nc_got := nc_got c + length d, nc_rcv_nxt := nc_rcv_nxt c + of_nat (length d)\<rparr>) (s\<lparr>ns_buf := ?buf\<rparr>)"
  have run: "tcp_store dat s = Some (scan_header ?s1)"
    using w unfolding tcp_store_def d_def [symmetric] by (simp add: Let_def d_def [symmetric])
  have tk: "take (?got + length d) ?buf = take (?got + length d) S"
  proof -
    have "take (?got + length d) ?buf = take ?got (ns_buf s) @ d" using fits by simp
    also have "\<dots> = take ?got S @ take (length d) (drop ?got S)" using open_s d by (simp add: stream_open_def)
    finally show ?thesis by (simp add: take_add)
  qed
  have "stream_open S r0 evs (scan_header ?s1)"
    using open_s fits tk unfolding stream_open_def
    by (simp add: scan_header_keeps arp_lookup_def) (simp add: upd_c_def)
  then show ?thesis using run ld by (auto simp: scan_header_keeps) (simp_all add: upd_c_def)
qed

lemma stream_open_tx: "only_tx s s' \<Longrightarrow> stream_open S r0 evs s \<Longrightarrow> stream_open S r0 evs s'"
  by (simp add: stream_open_def only_tx_simps)

lemma emit_ack_open:
  assumes "arp_lookup ns_gw_ip s \<noteq> None"
  obtains s' where "emit_ack fl s = Some s'" "only_tx s s'"
  using assms ns_emit_only_tx unfolding emit_ack_def by blast

lemma stream_openD:
  assumes "stream_open S r0 evs s"
  shows "nc_cb (ns_c s)" "ns_done s = evs" "nc_got (ns_c s) \<le> length S"
    "take (nc_got (ns_c s)) (ns_buf s) = take (nc_got (ns_c s)) S" "arp_lookup ns_gw_ip s \<noteq> None"
    "nc_phase (ns_c s) \<noteq> NS_PH_TLS" "nc_tcp_state (ns_c s) = TCP_S_ESTAB"
  using assms unfolding stream_open_def by (simp_all add: NS_PH_TRANSFER_def NS_PH_TLS_def)

lemma finish_open: "stream_open S r0 evs s \<Longrightarrow> stream_closed S evs (ns_finish status s)"
  by (rule finish_closes) (rule stream_openD; assumption)+

lemma tcp_fin_closes:
  assumes "stream_open S r0 evs s"
  shows "\<exists>s'. tcp_fin s = Some s' \<and> stream_closed S evs s'"
proof -
  let ?s1 = "upd_c (\<lambda>c. c\<lparr>nc_rcv_nxt := nc_rcv_nxt c + 1\<rparr>) s"
  note o = stream_openD [OF assms]
  have c: "nc_cb (ns_c ?s1) = nc_cb (ns_c s)" "nc_got (ns_c ?s1) = nc_got (ns_c s)"
    "nc_phase (ns_c ?s1) = nc_phase (ns_c s)" "ns_done ?s1 = ns_done s"
    "ns_buf ?s1 = ns_buf s" "arp_lookup ns_gw_ip ?s1 = arp_lookup ns_gw_ip s"
    by (simp_all add: upd_c_def arp_lookup_def)
  obtain s2 where s2: "emit_ack (TCP_ACK OR TCP_FIN) ?s1 = Some s2" "only_tx ?s1 s2"
    by (rule emit_ack_open [of ?s1 "TCP_ACK OR TCP_FIN"]) (use o(5) c(6) in simp)
  note t = only_tx_simps [OF s2(2)]
  have "stream_closed S evs (ns_finish (http_result (ns_c s2)) s2)"
    by (rule finish_closes) (simp_all only: t(1,3,4) c o)
  moreover have "tcp_fin s = Some (ns_finish (http_result (ns_c s2)) s2)"
    unfolding tcp_fin_def Let_def c(3) using o(6) s2(1) by simp
  ultimately show ?thesis by blast
qed

lemma stream_open_acked:
  "stream_open S r0 evs s \<Longrightarrow> stream_open S r0 evs (upd_c (\<lambda>c. c\<lparr>nc_req_acked := True\<rparr>) s)"
  by (simp add: stream_open_def upd_c_def arp_lookup_def)

text \<open>The segment's data, once the acknowledgement is noted.\<close>

definition tcp_plain_data :: "u8 \<Rightarrow> bytes \<Rightarrow> ns \<Rightarrow> ns option" where
  "tcp_plain_data flags dat s =
     do { s1 \<leftarrow> tcp_store dat s;
          (let n = nc_got (ns_c s1) - nc_got (ns_c s) in
           if n < length dat then do { s2 \<leftarrow> emit_ack TCP_ACK s1; Some (ns_finish (http_result (ns_c s2)) s2) }
           else if flags AND TCP_FIN \<noteq> 0 then tcp_fin s1
           else if n > 0 then emit_ack TCP_ACK s1 else Some s1) }"

lemma tcp_plain_data_ok:
  assumes "stream_open S r0 evs s" "piece_of S r0 (nc_rcv_nxt (ns_c s)) dat" "length S < 2 ^ 32"
  shows "\<exists>s'. tcp_plain_data flags dat s = Some s' \<and> (stream_open S r0 evs s' \<or> stream_closed S evs s')"
proof -
  obtain s1 where s1: "tcp_store dat s = Some s1" "stream_open S r0 evs s1"
    using tcp_store_grows [OF assms] by blast
  obtain s2 where s2: "emit_ack TCP_ACK s1 = Some s2" "only_tx s1 s2"
    using emit_ack_open [OF stream_openD(5) [OF s1(2)]] .
  have o2: "stream_open S r0 evs s2" using stream_open_tx [OF s2(2) s1(2)] .
  have "stream_closed S evs (ns_finish (http_result (ns_c s2)) s2)"
    by (rule finish_open [OF o2])
  then show ?thesis using s1 s2(1) o2 tcp_fin_closes [OF s1(2)] by (auto simp: tcp_plain_data_def Let_def)
qed

lemma tcp_established_plain:
  assumes "stream_open S r0 evs s" "flags AND TCP_RST = 0"
  obtains s1 where "stream_open S r0 evs s1" "s1 = s \<or> s1 = upd_c (\<lambda>c. c\<lparr>nc_req_acked := True\<rparr>) s"
    "tcp_established e flags sq ack dat s =
       (if dat \<noteq> [] \<and> sq = nc_rcv_nxt (ns_c s) then tcp_plain_data flags dat s1
        else if dat \<noteq> [] then emit_ack TCP_ACK s1
        else if flags AND TCP_FIN \<noteq> 0 then tcp_fin s1 else Some s1)"
proof -
  let ?s1 = "if flags AND TCP_ACK \<noteq> 0 \<and> nc_req_sent (ns_c s) \<and> \<not> nc_req_acked (ns_c s) \<and> ack \<ge> nc_snd_nxt (ns_c s)
             then upd_c (\<lambda>c. c\<lparr>nc_req_acked := True\<rparr>) s else s"
  have g: "nc_got (ns_c ?s1) = nc_got (ns_c s)" by (simp add: upd_c_def)
  show ?thesis
  proof (rule that)
    show "stream_open S r0 evs ?s1" using assms(1) stream_open_acked by simp
    show "?s1 = s \<or> ?s1 = upd_c (\<lambda>c. c\<lparr>nc_req_acked := True\<rparr>) s" by simp
    have ph: "nc_phase (ns_c s) \<noteq> NS_PH_TLS"
      using assms(1) by (simp add: stream_open_def NS_PH_TRANSFER_def NS_PH_TLS_def)
    show "tcp_established e flags sq ack dat s =
       (if dat \<noteq> [] \<and> sq = nc_rcv_nxt (ns_c s) then tcp_plain_data flags dat ?s1
        else if dat \<noteq> [] then emit_ack TCP_ACK ?s1
        else if flags AND TCP_FIN \<noteq> 0 then tcp_fin ?s1 else Some ?s1)"
      unfolding tcp_established_def tcp_plain_data_def Let_def g using assms(2) ph by (simp only: if_False simp_thms)
  qed
qed

lemma tcp_established_stream:
  assumes "stream_open S r0 evs s" "dat = [] \<or> piece_of S r0 sq dat" "length S < 2 ^ 32"
  shows "\<exists>s'. tcp_established e flags sq ack dat s = Some s' \<and> (stream_open S r0 evs s' \<or> stream_closed S evs s')"
proof (cases "flags AND TCP_RST = 0")
  case False
  have "stream_closed S evs (ns_finish NS_ERR_CONN s)"
    by (rule finish_open [OF assms(1)])
  then show ?thesis using False by (simp add: tcp_established_def)
next
  case True
  obtain s1 where o1: "stream_open S r0 evs s1" and run: "tcp_established e flags sq ack dat s =
       (if dat \<noteq> [] \<and> sq = nc_rcv_nxt (ns_c s) then tcp_plain_data flags dat s1
        else if dat \<noteq> [] then emit_ack TCP_ACK s1
        else if flags AND TCP_FIN \<noteq> 0 then tcp_fin s1 else Some s1)"
    and same: "s1 = s \<or> s1 = upd_c (\<lambda>c. c\<lparr>nc_req_acked := True\<rparr>) s"
    by (rule tcp_established_plain [OF assms(1) True, where e = e and sq = sq and ack = ack and dat = dat])
  have r: "nc_rcv_nxt (ns_c s1) = nc_rcv_nxt (ns_c s)" using same by (auto simp: upd_c_def)
  obtain s2 where s2: "emit_ack TCP_ACK s1 = Some s2" "only_tx s1 s2"
    using emit_ack_open [OF stream_openD(5) [OF o1]] .
  show ?thesis
  proof (cases "dat \<noteq> [] \<and> sq = nc_rcv_nxt (ns_c s)")
    case True
    then show ?thesis using run tcp_plain_data_ok [OF o1 _ assms(3)] assms(2) r by simp
  next
    case False
    then show ?thesis using run s2(1) stream_open_tx [OF s2(2) o1] tcp_fin_closes [OF o1] o1 by auto
  qed
qed

text \<open>Segments handled one after another; a closed connection ignores them, as \<^verbatim>\<open>tcp_handle\<close> does.\<close>

fun tcp_segments :: "tls_env \<Rightarrow> (u8 \<times> u32 \<times> u32 \<times> bytes) list \<Rightarrow> ns \<Rightarrow> ns option" where
  "tcp_segments e [] s = Some s"
| "tcp_segments e ((flags, sq, ack, dat) # r) s =
     do { s \<leftarrow> (if nc_tcp_state (ns_c s) \<noteq> TCP_S_ESTAB then Some s else tcp_established e flags sq ack dat s);
          tcp_segments e r s }"

lemma tcp_segments_closed: "stream_closed S evs s \<Longrightarrow> tcp_segments e segs s = Some s"
  by (induction segs rule: list.induct) (auto simp: stream_closed_def TCP_S_ESTAB_def)

text \<open>C5. The client of a plain request never sees anything but the server's bytes, in order: whatever segments
  arrive, lost, repeated, out of order or with odd flags, as long as their data are pieces of one stream at
  the places their sequence numbers say, every one is handled, the buffer holds a prefix of the stream
  while the connection is open, and the one event that closes it announces a part of that prefix.\<close>

theorem tcp_stream_prefix:
  assumes "stream_open S r0 evs s" "length S < 2 ^ 32"
    and "\<forall>(flags, sq, ack, dat) \<in> set segs. dat = [] \<or> piece_of S r0 sq dat"
  shows "\<exists>s'. tcp_segments e segs s = Some s' \<and> (stream_open S r0 evs s' \<or> stream_closed S evs s')"
  using assms(1,3)
proof (induction segs arbitrary: s)
  case (Cons seg segs)
  obtain flags sq ack dat where seg: "seg = (flags, sq, ack, dat)" by (cases seg)
  obtain s1 where s1: "tcp_established e flags sq ack dat s = Some s1" "stream_open S r0 evs s1 \<or> stream_closed S evs s1"
    using tcp_established_stream [OF Cons.prems(1) _ assms(2), of dat sq e flags ack] Cons.prems(2) seg by auto
  have "nc_tcp_state (ns_c s) = TCP_S_ESTAB" using Cons.prems(1) by (simp add: stream_open_def)
  then have run: "tcp_segments e (seg # segs) s = tcp_segments e segs s1" using seg s1(1) by simp
  show ?case
  proof (cases "stream_open S r0 evs s1")
    case True
    then show ?thesis using run Cons.IH Cons.prems(2) by simp
  next
    case False
    then show ?thesis using run s1(2) tcp_segments_closed by auto
  qed
qed simp

text \<open>A connection for the witnesses: established, nothing received, room for \<open>cap\<close> bytes.\<close>

definition ns_example :: "nat \<Rightarrow> ns" where
  "ns_example cap =
     \<lparr>ns_c = ns_zero\<lparr>nc_active := True, nc_phase := NS_PH_TRANSFER, nc_tcp_state := TCP_S_ESTAB, nc_cap := cap,
        nc_cb := True, nc_rcv_nxt := 1000, nc_sport := 40001, nc_req_len := 1\<rparr>,
      ns_arp = [\<lparr>ae_ip = ip4 ns_gw_ip, ae_mac = [2, 0, 0, 0, 0, 1], ae_valid = True\<rparr>], ns_mac = replicate 6 0x52,
      ns_ip_id = 0, ns_port_ctr = 1, ns_buf = replicate cap 0, ns_tx = [], ns_done = [], ns_tls = tls_example 0 22 []\<rparr>"

lemma stream_open_example: "stream_open S 1000 [] (ns_example cap)"
  by (simp add: stream_open_def ns_example_def arp_lookup_def ns_zero_def)

theorem tcp_stream_prefix_witness:
  "\<exists>s'. tcp_segments tls_env_example [(TCP_ACK, 1002, 7, [3]), (TCP_ACK, 1000, 7, [1, 2]), (TCP_FIN, 1002, 7, [3])]
          (ns_example 8) = Some s'
     \<and> (stream_open [1, 2, 3] 1000 [] s' \<or> stream_closed [1, 2, 3] [] s')"
proof (rule tcp_stream_prefix [OF stream_open_example])
  have "piece_of [1, 2, 3] 1000 1002 [3]" unfolding piece_of_def by (rule exI [of _ 2]) simp
  moreover have "piece_of [1, 2, 3] 1000 1000 [1, 2]" unfolding piece_of_def by (rule exI [of _ 0]) simp
  ultimately show "\<forall>(flags, sq, ack, dat) \<in> set [(TCP_ACK, 1002, 7, [3]), (TCP_ACK, 1000, 7, [1, 2]), (TCP_FIN, 1002, 7, [3])].
      dat = [] \<or> piece_of [1, 2, 3] 1000 sq dat" by simp
qed simp

text \<open>A server that sends its stream in fixed pieces: the segment of piece \<open>i\<close>.\<close>

definition piece_pos :: "bytes list \<Rightarrow> nat \<Rightarrow> nat" where
  "piece_pos ps i = length (concat (take i ps))"

definition piece_segment :: "u32 \<Rightarrow> u32 \<Rightarrow> bytes list \<Rightarrow> nat \<Rightarrow> u8 \<times> u32 \<times> u32 \<times> bytes" where
  "piece_segment r0 ack ps i = (TCP_ACK, r0 + of_nat (piece_pos ps i), ack, ps ! i)"

lemma piece_pos_Suc: "i < length ps \<Longrightarrow> piece_pos ps (Suc i) = piece_pos ps i + length (ps ! i)"
  by (simp add: piece_pos_def take_Suc_conv_app_nth)

lemma piece_pos_le: "i \<le> j \<Longrightarrow> j \<le> length ps \<Longrightarrow> piece_pos ps i \<le> piece_pos ps j"
proof (induction j)
  case (Suc j)
  then show ?case using piece_pos_Suc [of j ps] by (cases "i = Suc j") auto
qed simp

lemma piece_pos_less:
  assumes "i < j" "j \<le> length ps" "[] \<notin> set ps"
  shows "piece_pos ps i < piece_pos ps j"
proof -
  have "ps ! i \<in> set ps" using assms(1,2) by (intro nth_mem) simp
  then have "ps ! i \<noteq> []" using assms(3) by (cases "ps ! i = []") auto
  then have "piece_pos ps i < piece_pos ps (Suc i)" using piece_pos_Suc [of i ps] assms(1,2) by simp
  also have "\<dots> \<le> piece_pos ps j" using piece_pos_le [of "Suc i" j ps] assms(1,2) by simp
  finally show ?thesis .
qed

lemma piece_pos_inj:
  assumes "i \<le> length ps" "j \<le> length ps" "[] \<notin> set ps" "piece_pos ps i = piece_pos ps j"
  shows "i = j"
  using assms piece_pos_less [of i j ps] piece_pos_less [of j i ps] by (cases i j rule: linorder_cases) auto

lemma piece_of_pieces:
  assumes "i < length ps"
  shows "piece_of (concat ps) r0 (r0 + of_nat (piece_pos ps i)) (ps ! i)"
proof -
  have "concat ps = concat (take i ps) @ ps ! i @ concat (drop (Suc i) ps)"
    using assms by (metis concat.simps(2) concat_append id_take_nth_drop)
  then show ?thesis unfolding piece_of_def piece_pos_def by (intro exI [of _ "length (concat (take i ps))"]) simp
qed

text \<open>The number of pieces taken: a piece counts only when it is the next one.\<close>

definition taken :: "nat \<Rightarrow> nat list \<Rightarrow> nat" where
  "taken k is = foldl (\<lambda>k i. if i = k then Suc k else k) k is"

lemma taken_all:
  "subseq [k ..< n] is \<Longrightarrow> k \<le> n \<Longrightarrow> set is \<subseteq> {..< n} \<Longrightarrow> taken k is = n"
proof (induction "is" arbitrary: k)
  case Nil
  then have "[k ..< n] = []" by (metis list_emb_Nil2)
  then have "n \<le> k" by (simp only: upt_eq_Nil_conv) auto
  then show ?case using Nil.prems(2) by (simp add: taken_def)
next
  case (Cons i r)
  show ?case
  proof (cases "k = n")
    case True
    then show ?thesis using Cons.IH [of k] Cons.prems(3) by (auto simp: taken_def)
  next
    case False
    then have up: "[k ..< n] = k # [Suc k ..< n]" using Cons.prems(2) by (simp add: upt_conv_Cons)
    show ?thesis
    proof (cases "i = k")
      case True
      then have "subseq [Suc k ..< n] r" using Cons.prems(1) up by simp
      then show ?thesis using Cons.IH [of "Suc k"] Cons.prems(2,3) False True by (simp add: taken_def)
    next
      case False
      then have "subseq [k ..< n] r" using Cons.prems(1) up by simp
      then show ?thesis using Cons.IH [of k] Cons.prems(2,3) False by (simp add: taken_def)
    qed
  qed
qed

text \<open>The state after \<open>k\<close> pieces.\<close>

definition pieces_in :: "bytes list \<Rightarrow> u32 \<Rightarrow> ns_event list \<Rightarrow> nat \<Rightarrow> ns \<Rightarrow> bool" where
  "pieces_in ps r0 evs k s \<longleftrightarrow>
     stream_open (concat ps) r0 evs s \<and> length (concat ps) \<le> nc_cap (ns_c s) \<and> nc_got (ns_c s) = piece_pos ps k"

lemma pieces_in_tx: "only_tx s s' \<Longrightarrow> pieces_in ps r0 evs k s \<Longrightarrow> pieces_in ps r0 evs k s'"
  using stream_open_tx by (simp add: pieces_in_def only_tx_simps)

lemma piece_step:
  assumes "pieces_in ps r0 evs k s" "k \<le> length ps" "i < length ps" "[] \<notin> set ps" "length (concat ps) < 2 ^ 32"
  shows "\<exists>s'. tcp_established e TCP_ACK (r0 + of_nat (piece_pos ps i)) ack (ps ! i) s = Some s'
    \<and> pieces_in ps r0 evs (if i = k then Suc k else k) s'"
proof -
  have o: "stream_open (concat ps) r0 evs s" and cap: "length (concat ps) \<le> nc_cap (ns_c s)"
    and got: "nc_got (ns_c s) = piece_pos ps k" using assms(1) by (simp_all add: pieces_in_def)
  have ne: "ps ! i \<noteq> []" using assms(3,4) nth_mem by metis
  have rcv: "nc_rcv_nxt (ns_c s) = r0 + of_nat (piece_pos ps k)" using o got by (simp add: stream_open_def)
  obtain s1 where o1: "stream_open (concat ps) r0 evs s1"
    and same: "s1 = s \<or> s1 = upd_c (\<lambda>c. c\<lparr>nc_req_acked := True\<rparr>) s"
    and run: "tcp_established e TCP_ACK (r0 + of_nat (piece_pos ps i)) ack (ps ! i) s =
       (if ps ! i \<noteq> [] \<and> r0 + of_nat (piece_pos ps i) = nc_rcv_nxt (ns_c s) then tcp_plain_data TCP_ACK (ps ! i) s1
        else if ps ! i \<noteq> [] then emit_ack TCP_ACK s1
        else if TCP_ACK AND TCP_FIN \<noteq> 0 then tcp_fin s1 else Some s1)"
    by (rule tcp_established_plain [OF o, where flags = TCP_ACK and e = e and ack = ack and dat = "ps ! i"
          and sq = "r0 + of_nat (piece_pos ps i)"]) (simp add: TCP_ACK_def TCP_RST_def)
  have c1: "nc_rcv_nxt (ns_c s1) = nc_rcv_nxt (ns_c s)" "nc_got (ns_c s1) = piece_pos ps k"
    "nc_cap (ns_c s1) = nc_cap (ns_c s)" using same got by (auto simp: upd_c_def)
  then have in1: "pieces_in ps r0 evs k s1" using o1 cap by (simp add: pieces_in_def)
  have fits: "piece_pos ps j \<le> length (concat ps)" if "j \<le> length ps" for j
    using piece_pos_le [of j "length ps" ps] that by (simp add: piece_pos_def)
  show ?thesis
  proof (cases "i = k")
    case True
    have pc: "piece_of (concat ps) r0 (nc_rcv_nxt (ns_c s1)) (ps ! i)"
      using piece_of_pieces [OF assms(3)] c1(1) rcv True by simp
    obtain s2 where s2: "tcp_store (ps ! i) s1 = Some s2" "stream_open (concat ps) r0 evs s2"
      "nc_cap (ns_c s2) = nc_cap (ns_c s1)"
      "nc_got (ns_c s2) = nc_got (ns_c s1) + min (length (ps ! i)) (nc_cap (ns_c s1) - nc_got (ns_c s1))"
      using tcp_store_grows [OF o1 pc assms(5)] by blast
    have up: "piece_pos ps (Suc k) = piece_pos ps k + length (ps ! i)" using piece_pos_Suc assms(3) True by simp
    have g2: "nc_got (ns_c s2) = piece_pos ps (Suc k)"
      using s2(4) c1 cap up fits [of "Suc k"] assms(3) True by simp
    then have in2: "pieces_in ps r0 evs (Suc k) s2" using s2(2,3) c1(3) cap by (simp add: pieces_in_def)
    obtain s3 where s3: "emit_ack TCP_ACK s2 = Some s3" "only_tx s2 s3"
      using emit_ack_open [OF stream_openD(5) [OF s2(2)]] .
    have n: "nc_got (ns_c s2) - nc_got (ns_c s1) = length (ps ! i)" using g2 c1(2) up by simp
    have "tcp_plain_data TCP_ACK (ps ! i) s1 = Some s3"
      using s2(1) s3(1) ne by (simp add: tcp_plain_data_def n TCP_ACK_def TCP_FIN_def)
    then show ?thesis using run ne rcv True pieces_in_tx [OF s3(2) in2] by simp
  next
    case False
    have "piece_pos ps i \<noteq> piece_pos ps k" using piece_pos_inj [of i ps k] assms False by auto
    moreover have "piece_pos ps i < 2 ^ 32" "piece_pos ps k < 2 ^ 32" using fits [of i] fits [of k] assms by auto
    moreover from this have "unat (of_nat (piece_pos ps i) :: u32) = piece_pos ps i"
      "unat (of_nat (piece_pos ps k) :: u32) = piece_pos ps k"
      by (auto intro!: unat_of_nat_lt)
    ultimately have "(of_nat (piece_pos ps i) :: u32) \<noteq> of_nat (piece_pos ps k)" by (metis (no_types))
    then have "r0 + of_nat (piece_pos ps i) \<noteq> nc_rcv_nxt (ns_c s)" using rcv by simp
    moreover obtain s2 where s2: "emit_ack TCP_ACK s1 = Some s2" "only_tx s1 s2"
      using emit_ack_open [OF stream_openD(5) [OF o1]] .
    ultimately show ?thesis using run ne pieces_in_tx [OF s2(2) in1] False by simp
  qed
qed

text \<open>C23. Nothing is lost: when a server sends its response in pieces and repeats them as it likes, the client
  has the whole response as soon as the segments delivered contain the pieces in order, whatever comes
  between them, for a buffer with room for it.\<close>

theorem tcp_stream_complete:
  assumes "stream_open (concat ps) r0 evs s" "nc_got (ns_c s) = 0" "length (concat ps) \<le> nc_cap (ns_c s)"
    and "length (concat ps) < 2 ^ 32" "[] \<notin> set ps"
    and "set is \<subseteq> {..< length ps}" "subseq [0 ..< length ps] is"
  shows "\<exists>s'. tcp_segments e (map (piece_segment r0 ack ps) is) s = Some s'
    \<and> nc_got (ns_c s') = length (concat ps) \<and> take (length (concat ps)) (ns_buf s') = concat ps"
proof -
  have run: "\<exists>s'. tcp_segments e (map (piece_segment r0 ack ps) js) t = Some s' \<and> pieces_in ps r0 evs (taken k js) s'"
    if "pieces_in ps r0 evs k t" "k \<le> length ps" "set js \<subseteq> {..< length ps}" for js k t
    using that
  proof (induction js arbitrary: k t)
    case (Cons i r)
    obtain t1 where t1: "tcp_established e TCP_ACK (r0 + of_nat (piece_pos ps i)) ack (ps ! i) t = Some t1"
        "pieces_in ps r0 evs (if i = k then Suc k else k) t1"
      using piece_step [OF Cons.prems(1,2) _ assms(5,4)] Cons.prems(3) by fastforce
    have "nc_tcp_state (ns_c t) = TCP_S_ESTAB" using Cons.prems(1) stream_openD(7) by (auto simp: pieces_in_def)
    moreover have "(if i = k then Suc k else k) \<le> length ps" using Cons.prems(2,3) by auto
    ultimately show ?case
      using Cons.IH [OF t1(2)] Cons.prems(3) t1(1) by (simp add: piece_segment_def taken_def)
  qed (simp add: taken_def)
  have "pieces_in ps r0 evs 0 s" using assms(1-3) by (simp add: pieces_in_def piece_pos_def)
  then obtain s' where s': "tcp_segments e (map (piece_segment r0 ack ps) is) s = Some s'"
      "pieces_in ps r0 evs (length ps) s'"
    using run [of 0 s "is"] assms(6) taken_all [OF assms(7) _ assms(6)] by auto
  then show ?thesis by (auto simp: pieces_in_def piece_pos_def stream_open_def)
qed

theorem tcp_stream_complete_witness:
  "\<exists>s'. tcp_segments tls_env_example (map (piece_segment 1000 7 [[1, 2], [3]]) [1, 0, 0, 1]) (ns_example 8) = Some s'
     \<and> nc_got (ns_c s') = length (concat [[1, 2], [3 :: u8]])
     \<and> take (length (concat [[1, 2], [3 :: u8]])) (ns_buf s') = concat [[1, 2], [3]]"
  by (rule tcp_stream_complete [OF stream_open_example])
     (simp_all add: ns_example_def ns_zero_def upt_rec)

end
