(* ===== verification/Netstack_Request.thy ===== *)
theory Netstack_Request
  imports Netstack_Stream
begin

unbundle bit_operations_syntax

text \<open>
  A plain request from its start to its answer. One invariant holds of all the states that polls lead to;
  it keeps every access in bounds and counts the events. The address cache must not overflow: the hosts
  that answer are at most as many as it has entries.
\<close>

section \<open>A request and its answer\<close>

abbreviation gw_known :: "ns \<Rightarrow> bool" where
  "gw_known s \<equiv> arp_find (ip4 ns_gw_ip) (ns_arp s) \<noteq> None"

abbreviation dns_known :: "ns \<Rightarrow> bool" where
  "dns_known s \<equiv> arp_find (ip4 ns_dns_ip) (ns_arp s) \<noteq> None"

text \<open>
  The invariant of a plain request with deadline \<open>d\<close>, begun when the events were \<open>evs\<close>. Its data fit their
  arrays, the servers it talks to are in the address cache, and there is exactly one event more as soon
  as it is no longer active.
\<close>

definition ns_safe :: "ns_event list \<Rightarrow> u64 \<Rightarrow> ns \<Rightarrow> bool" where
  "ns_safe evs d s \<longleftrightarrow>
     \<not> nc_use_tls (ns_c s) \<and> nc_phase (ns_c s) \<noteq> NS_PH_TLS
     \<and> length (nc_req (ns_c s)) = 512 \<and> nc_req_len (ns_c s) \<le> 511 \<and> length (nc_host (ns_c s)) = 96
     \<and> nc_got (ns_c s) \<le> nc_cap (ns_c s) \<and> nc_cap (ns_c s) \<le> length (ns_buf s)
     \<and> (nc_dns_sent (ns_c s) \<longrightarrow> dns_known s)
     \<and> (nc_tcp_state (ns_c s) \<noteq> 0 \<or> nc_phase (ns_c s) > NS_PH_CONNECT \<longrightarrow> gw_known s)
     \<and> (if nc_active (ns_c s) then nc_cb (ns_c s) \<and> ns_done s = evs \<and> nc_deadline (ns_c s) = d
        else \<not> nc_cb (ns_c s) \<and> (\<exists>ev. ns_done s = evs @ [ev]))"

text \<open>An operation that succeeds, keeps that, leaves the address cache alone and starts no request.\<close>

definition stays_safe :: "ns_event list \<Rightarrow> u64 \<Rightarrow> ns \<Rightarrow> ns option \<Rightarrow> bool" where
  "stays_safe evs d s r \<longleftrightarrow>
     (\<exists>s'. r = Some s' \<and> ns_safe evs d s' \<and> ns_arp s' = ns_arp s \<and> ns_tls s' = ns_tls s
      \<and> (nc_active (ns_c s') \<longrightarrow> nc_active (ns_c s)))"

lemma stays_safeI:
  "ns_safe evs d s' \<Longrightarrow> ns_arp s' = ns_arp s \<Longrightarrow> ns_tls s' = ns_tls s \<Longrightarrow>
   (nc_active (ns_c s') \<longrightarrow> nc_active (ns_c s)) \<Longrightarrow>
   stays_safe evs d s (Some s')"
  by (simp add: stays_safe_def)

lemma stays_safeE:
  assumes "stays_safe evs d s r"
  obtains s' where "r = Some s'" "ns_safe evs d s'" "ns_arp s' = ns_arp s" "ns_tls s' = ns_tls s" "nc_active (ns_c s') \<longrightarrow> nc_active (ns_c s)"
  using assms unfolding stays_safe_def by blast

lemma stays_safe_self [simp]: "stays_safe evs d s (Some s) \<longleftrightarrow> ns_safe evs d s"
  by (simp add: stays_safe_def)

lemma stays_safe_bind:
  assumes "stays_safe evs d s r"
    and "\<And>s'. ns_safe evs d s' \<Longrightarrow> ns_arp s' = ns_arp s \<Longrightarrow> stays_safe evs d s' (f s')"
  shows "stays_safe evs d s (r \<bind> f)"
  using assms by (fastforce simp: stays_safe_def)

lemma active_upd [simp]:
  "nc_active (ns_c (upd_c g s)) = nc_active (g (ns_c s))" "ns_tls (upd_c g s) = ns_tls s"
  by (simp_all add: upd_c_def)

lemma ns_safe_tx: "only_tx s s' \<Longrightarrow> ns_safe evs d s \<Longrightarrow> ns_safe evs d s'"
  by (simp add: ns_safe_def only_tx_simps)

lemma safe_emit:
  assumes "ns_safe evs d s" "arp_find (ip4 ns_gw_ip) (ns_arp s) \<noteq> None"
  shows "stays_safe evs d s (ns_emit fl sq ack pay s)"
proof -
  obtain mac where "arp_lookup ns_gw_ip s = Some mac" using assms(2) by (auto simp: arp_lookup_def)
  then obtain s' where s': "ns_emit fl sq ack pay s = Some s'" "only_tx s s'" using ns_emit_only_tx by blast
  then show ?thesis using ns_safe_tx [OF s'(2) assms(1)] only_tx_simps [OF s'(2)] by (simp add: stays_safe_def)
qed

lemma safe_emit_ack:
  "ns_safe evs d s \<Longrightarrow> arp_find (ip4 ns_gw_ip) (ns_arp s) \<noteq> None \<Longrightarrow> stays_safe evs d s (emit_ack fl s)"
  unfolding emit_ack_def by (rule safe_emit)

lemma safe_finish:
  "ns_safe evs d s \<Longrightarrow> ns_safe evs d (ns_finish st s)" "ns_arp (ns_finish st s) = ns_arp s"
  "\<not> nc_active (ns_c (ns_finish st s))" "ns_tls (ns_finish st s) = ns_tls s"
  by (auto simp: ns_safe_def ns_finish_def Let_def ns_zero_def NS_PH_TLS_def NS_PH_CONNECT_def split: if_splits)

lemma safe_scan: "ns_safe evs d s \<Longrightarrow> ns_safe evs d (scan_header s)" "ns_arp (scan_header s) = ns_arp s"
  "ns_tls (scan_header s) = ns_tls s"
  by (auto simp: scan_header_def ns_safe_def upd_c_def Let_def split: option.splits)

text \<open>Names and records of a reply.\<close>

lemma dns_skip_name_total:
  "off \<le> n \<Longrightarrow> base + n < length f \<Longrightarrow> \<exists>r. dns_skip_name f base n off = Some r"
proof (induction f base n off rule: dns_skip_name.induct)
  case (1 f base n off)
  have r: "rd f (base + off) = Some (f ! (base + off))" using "1.prems" by (simp add: rd_Some)
  show ?case
    using "1.IH" [OF r] "1.prems" by (subst dns_skip_name.simps) (auto simp: r)
qed

lemma dns_questions_total:
  "off \<le> n \<Longrightarrow> base + n < length f \<Longrightarrow>
   \<exists>r. dns_questions k f base n off = Some r \<and> (\<forall>o'. r = Some o' \<longrightarrow> o' \<le> n)"
proof (induction k arbitrary: off)
  case (Suc k)
  obtain r where r: "dns_skip_name f base n off = Some r" using dns_skip_name_total Suc.prems by blast
  show ?case
  proof (cases "r = 0 \<or> r + 4 \<ge> n")
    case False
    then show ?thesis using Suc.IH [of "r + 4"] Suc.prems(2) r by simp
  qed (use r in auto)
qed simp

lemma b16_total: "off + 1 < length f \<Longrightarrow> \<exists>w. b16 f off = Some w"
  by (simp add: b16_def rd_Some)

lemma b32_total: "off + 3 < length f \<Longrightarrow> \<exists>w. b32 f off = Some w"
  by (simp add: b32_def b16_def rd_Some)

lemma dns_answers_total:
  "off \<le> n \<Longrightarrow> base + n < length f \<Longrightarrow> \<exists>r. dns_answers k f base n off = Some r"
proof (induction k arbitrary: off)
  case (Suc k)
  obtain r where r: "dns_skip_name f base n off = Some r" using dns_skip_name_total Suc.prems by blast
  show ?case
  proof (cases "r = 0 \<or> r + 10 > n")
    case False
    then obtain ty cls rdl where f: "b16 f (base + r) = Some ty" "b16 f (base + r + 2) = Some cls"
        "b16 f (base + r + 8) = Some rdl"
      using b16_total [of "base + r" f] b16_total [of "base + r + 2" f] b16_total [of "base + r + 8" f] Suc.prems by auto
    show ?thesis
    proof (cases "ty = 1 \<and> cls = 1 \<and> rdl = 4 \<and> r + 14 \<le> n")
      case True
      then show ?thesis using r f False Suc.prems(2) by (simp add: rd_range_Some)
    next
      case no_addr: False
      show ?thesis
      proof (cases "r + (10 + unat rdl) > n")
        case False
        then have "dns_answers (Suc k) f base n off = dns_answers k f base n (r + (10 + unat rdl))"
          using r f no_addr \<open>\<not> (r = 0 \<or> r + 10 > n)\<close> by auto
        then show ?thesis using Suc.IH [of "r + (10 + unat rdl)"] Suc.prems(2) False by simp
      qed (use r f no_addr \<open>\<not> (r = 0 \<or> r + 10 > n)\<close> in auto)
    qed
  qed (use r in auto)
qed simp

lemma safe_dns_handle:
  assumes "ns_safe evs d s" "base + n < length f"
  shows "stays_safe evs d s (dns_handle f base n s)"
proof (cases "n < 12")
  case False
  obtain i flags qd an where f: "b16 f base = Some i" "b16 f (base + 2) = Some flags" "b16 f (base + 4) = Some qd"
      "b16 f (base + 6) = Some an"
    using b16_total [of base f] b16_total [of "base + 2" f] b16_total [of "base + 4" f] b16_total [of "base + 6" f]
      assms(2) False by auto
  obtain q where q: "dns_questions (unat qd) f base n 12 = Some q" "\<forall>o'. q = Some o' \<longrightarrow> o' \<le> n"
    using dns_questions_total [OF _ assms(2)] False by (metis not_less)
  show ?thesis
  proof (cases q)
    case None
    then show ?thesis
      using f q(1) False assms(1) safe_finish by (auto simp: dns_handle_def intro!: stays_safeI)
  next
    case (Some off)
    then obtain r where r: "dns_answers (unat an) f base n off = Some r"
      using dns_answers_total q(2) assms(2) by blast
    have "ns_safe evs d (upd_c (\<lambda>c. c\<lparr>nc_dst_ip := a, nc_phase := NS_PH_CONNECT\<rparr>) s)" for a
      using assms(1) by (simp add: ns_safe_def upd_c_def NS_PH_CONNECT_def NS_PH_TLS_def NS_PH_TRANSFER_def)
    moreover have "ns_arp (upd_c g s) = ns_arp s" for g by (simp add: upd_c_def)
    ultimately show ?thesis
      using f q(1) Some r False assms(1) safe_finish by (cases r) (auto simp: dns_handle_def intro!: stays_safeI)
  qed
qed (use assms in \<open>simp add: dns_handle_def\<close>)

text \<open>Segments of a plain connection.\<close>

lemma safe_upd [simp]:
  "ns_arp (upd_c g s) = ns_arp s"
  "ns_safe evs d (upd_c (\<lambda>c. c\<lparr>nc_rcv_nxt := k c\<rparr>) s) = ns_safe evs d s"
  "ns_safe evs d (upd_c (\<lambda>c. c\<lparr>nc_snd_nxt := k c\<rparr>) s) = ns_safe evs d s"
  "ns_safe evs d (upd_c (\<lambda>c. c\<lparr>nc_req_acked := b\<rparr>) s) = ns_safe evs d s"
  "ns_safe evs d (upd_c (\<lambda>c. c\<lparr>nc_req_sent := b, nc_last_send := t\<rparr>) s) = ns_safe evs d s"
  by (simp_all add: upd_c_def ns_safe_def)

lemma stays_safe_arp:
  "stays_safe evs d s r \<Longrightarrow> ns_arp t = ns_arp s \<Longrightarrow> ns_tls t = ns_tls s \<Longrightarrow> nc_active (ns_c t) = nc_active (ns_c s) \<Longrightarrow> stays_safe evs d t r"
  by (simp add: stays_safe_def)

lemma safe_send_request:
  assumes "ns_safe evs d s" "gw_known s"
  shows "stays_safe evs d s (ns_send_request e s)"
proof -
  have l: "length (http_request (ns_c s)) \<le> 511" by (simp add: http_request_def)
  have first: "stays_safe evs d s (if nc_req_len (ns_c s) = 0 then
       (let r = http_request (ns_c s) in
        do { req \<leftarrow> wr_range (nc_req (ns_c s)) 0 (r @ [0]);
             Some (upd_c (\<lambda>c. c\<lparr>nc_req := req, nc_req_len := length r\<rparr>) s) })
     else Some s)"
    using assms(1) l by (simp add: Let_def wr_range_Some ns_safe_def stays_safe_def upd_c_def)
  show ?thesis
    unfolding ns_send_request_def
  proof (rule stays_safe_bind [OF first], goal_cases)
    case (1 s1)
    have g: "gw_known s1" using 1(2) assms(2) by simp
    have r: "rd_range (nc_req (ns_c s1)) 0 (nc_req_len (ns_c s1)) = Some (take (nc_req_len (ns_c s1)) (nc_req (ns_c s1)))"
      using 1(1) by (simp add: rd_range_Some ns_safe_def)
    have plain: "\<not> nc_use_tls (ns_c s1)" using 1(1) by (simp add: ns_safe_def)
    have "stays_safe evs d s1 (ns_emit TCP_ACK (nc_snd_nxt (ns_c s1)) (nc_rcv_nxt (ns_c s1))
            (take (nc_req_len (ns_c s1)) (nc_req (ns_c s1))) s1)" by (rule safe_emit [OF 1(1) g])
    then show ?case by (rule stays_safeE) (simp add: r plain stays_safe_def)
  qed
qed

lemma safe_syn_sent:
  assumes "ns_safe evs d s" "gw_known s"
  shows "stays_safe evs d s (tcp_syn_sent e fl sq ack s)"
proof -
  let ?s1 = "upd_c (\<lambda>c. c\<lparr>nc_phase := NS_PH_TRANSFER\<rparr>) (upd_c (\<lambda>c. c\<lparr>nc_rcv_nxt := sq + 1, nc_tcp_state := TCP_S_ESTAB\<rparr>) s)"
  have "ns_safe evs d ?s1" using assms by (simp add: ns_safe_def upd_c_def NS_PH_TRANSFER_def NS_PH_TLS_def)
  moreover have "gw_known ?s1" using assms(2) by simp
  ultimately have "stays_safe evs d ?s1 (ns_send_request e ?s1)" by (rule safe_send_request)
  then have run: "stays_safe evs d s (ns_send_request e ?s1)" by (rule stays_safe_arp) simp_all
  have plain: "\<not> nc_use_tls (ns_c (upd_c (\<lambda>c. c\<lparr>nc_rcv_nxt := sq + 1, nc_tcp_state := TCP_S_ESTAB\<rparr>) s))"
    using assms(1) by (simp add: ns_safe_def upd_c_def)
  show ?thesis
    unfolding tcp_syn_sent_def Let_def using run plain assms(1) safe_finish
    by (auto intro!: stays_safeI simp del: safe_upd)
qed

lemma safe_store:
  assumes "ns_safe evs d s"
  shows "stays_safe evs d s (tcp_store dat s)"
proof -
  let ?c = "ns_c s"
  define x where "x = (if length dat > nc_cap ?c - nc_got ?c then take (nc_cap ?c - nc_got ?c) dat else dat)"
  have fits: "nc_got ?c + length x \<le> nc_cap ?c" "nc_cap ?c \<le> length (ns_buf s)" using assms by (auto simp: x_def ns_safe_def)
  let ?buf = "take (nc_got ?c) (ns_buf s) @ x @ drop (nc_got ?c + length x) (ns_buf s)"
  let ?s1 = "upd_c (\<lambda>c. c\<lparr>nc_got := nc_got c + length x, nc_rcv_nxt := nc_rcv_nxt c + of_nat (length x)\<rparr>) (s\<lparr>ns_buf := ?buf\<rparr>)"
  have w: "wr_range (ns_buf s) (nc_got ?c) x = Some ?buf" using fits by (simp add: wr_range_Some)
  have "tcp_store dat s = Some (scan_header ?s1)"
    using w unfolding tcp_store_def x_def [symmetric] by (simp add: Let_def x_def [symmetric])
  moreover have "ns_safe evs d ?s1" using assms fits by (simp add: ns_safe_def upd_c_def)
  ultimately show ?thesis using safe_scan by (simp add: stays_safe_def scan_header_keeps)
qed

lemma safe_fin:
  assumes "ns_safe evs d s" "gw_known s"
  shows "stays_safe evs d s (tcp_fin s)"
proof -
  let ?s1 = "upd_c (\<lambda>c. c\<lparr>nc_rcv_nxt := nc_rcv_nxt c + 1\<rparr>) s"
  have ph: "nc_phase (ns_c ?s1) \<noteq> NS_PH_TLS" using assms(1) by (simp add: ns_safe_def upd_c_def)
  have "stays_safe evs d ?s1 (emit_ack (TCP_ACK OR TCP_FIN) ?s1)" by (rule safe_emit_ack) (use assms in simp_all)
  then obtain s2 where "emit_ack (TCP_ACK OR TCP_FIN) ?s1 = Some s2" "ns_safe evs d s2" "ns_arp s2 = ns_arp s" "ns_tls s2 = ns_tls s" by (rule stays_safeE) simp
  then show ?thesis using ph safe_finish unfolding tcp_fin_def Let_def stays_safe_def by simp
qed

lemma safe_plain_data:
  assumes "ns_safe evs d s" "gw_known s"
  shows "stays_safe evs d s (tcp_plain_data flags dat s)"
  unfolding tcp_plain_data_def
proof (rule stays_safe_bind [OF safe_store [OF assms(1)]], goal_cases)
  case (1 s1)
  have g: "gw_known s1" using 1(2) assms(2) by simp
  obtain s2 where "emit_ack TCP_ACK s1 = Some s2" "ns_safe evs d s2" "ns_arp s2 = ns_arp s1" "ns_tls s2 = ns_tls s1"
      "nc_active (ns_c s2) \<longrightarrow> nc_active (ns_c s1)"
    using safe_emit_ack [OF 1(1) g] by (rule stays_safeE)
  then show ?case using 1(1) safe_fin [OF 1(1) g] safe_finish by (auto simp: Let_def intro!: stays_safeI)
qed

lemma safe_established:
  assumes "ns_safe evs d s" "gw_known s"
  shows "stays_safe evs d s (tcp_established e flags sq ack dat s)"
proof (cases "flags AND TCP_RST = 0")
  case False
  then show ?thesis using safe_finish assms(1) by (simp add: tcp_established_def stays_safe_def)
next
  case True
  let ?s1 = "if flags AND TCP_ACK \<noteq> 0 \<and> nc_req_sent (ns_c s) \<and> \<not> nc_req_acked (ns_c s) \<and> ack \<ge> nc_snd_nxt (ns_c s)
             then upd_c (\<lambda>c. c\<lparr>nc_req_acked := True\<rparr>) s else s"
  have s1: "ns_safe evs d ?s1" "gw_known ?s1" "ns_arp ?s1 = ns_arp s" using assms by simp_all
  have g: "nc_got (ns_c ?s1) = nc_got (ns_c s)" by (simp add: upd_c_def)
  have ph: "nc_phase (ns_c s) \<noteq> NS_PH_TLS" using assms(1) by (simp add: ns_safe_def)
  have run: "tcp_established e flags sq ack dat s =
       (if dat \<noteq> [] \<and> sq = nc_rcv_nxt (ns_c s) then tcp_plain_data flags dat ?s1
        else if dat \<noteq> [] then emit_ack TCP_ACK ?s1
        else if flags AND TCP_FIN \<noteq> 0 then tcp_fin ?s1 else Some ?s1)"
    unfolding tcp_established_def tcp_plain_data_def Let_def g using True ph by (simp only: if_False simp_thms)
  have "stays_safe evs d ?s1 (tcp_plain_data flags dat ?s1)" "stays_safe evs d ?s1 (emit_ack TCP_ACK ?s1)"
    "stays_safe evs d ?s1 (tcp_fin ?s1)" "stays_safe evs d ?s1 (Some ?s1)"
    using safe_plain_data [OF s1(1,2)] safe_emit_ack [OF s1(1,2)] safe_fin [OF s1(1,2)] s1(1) by simp_all
  then have "stays_safe evs d ?s1 (tcp_established e flags sq ack dat s)" unfolding run by (simp only: if_split) blast
  then show ?thesis by (rule stays_safe_arp) simp_all
qed

lemma safe_tcp_handle:
  assumes "ns_safe evs d s" "base + n < length f"
  shows "stays_safe evs d s (tcp_handle e f base n s)"
proof (cases "n < 20")
  case True
  then show ?thesis using assms(1) by (simp add: tcp_handle_def)
next
  case False
  obtain sq ack where h: "b32 f (base + 4) = Some sq" "b32 f (base + 8) = Some ack"
    using b32_total [of "base + 4" f] b32_total [of "base + 8" f] assms(2) False by auto
  have r: "rd f (base + 13) = Some (f ! (base + 13))" "rd f (base + 12) = Some (f ! (base + 12))"
    using assms(2) False by (simp_all add: rd_Some)
  let ?doff = "unat (drop_bit 4 (f ! (base + 12))) * 4"
  show ?thesis
  proof (cases "n < ?doff")
    case True
    then show ?thesis using h r False assms(1) by (simp add: tcp_handle_def Let_def)
  next
    case fits: False
    then have "rd_range f (base + ?doff) (n - ?doff) = Some (take (n - ?doff) (drop (base + ?doff) f))"
      using assms(2) by (simp add: rd_range_Some)
    moreover have "nc_tcp_state (ns_c s) \<noteq> 0 \<Longrightarrow> gw_known s" using assms(1) by (simp add: ns_safe_def)
    ultimately show ?thesis
      using h r False fits assms(1) safe_syn_sent [OF assms(1)] safe_established [OF assms(1)]
      by (simp add: tcp_handle_def Let_def TCP_S_SYN_SENT_def TCP_S_ESTAB_def)
  qed
qed

lemma safe_rx_ipv4:
  assumes "ns_safe evs d s" "base + n < length f"
  shows "stays_safe evs d s (rx_ipv4 e f base n s)"
proof (cases "n < 20")
  case True
  then show ?thesis using assms(1) by (simp add: rx_ipv4_def)
next
  case False
  obtain tl16 where h: "b16 f (base + 2) = Some tl16" using b16_total [of "base + 2" f] assms(2) False by auto
  have r: "rd f base = Some (f ! base)" "rd f (base + 9) = Some (f ! (base + 9))"
    using assms(2) False by (simp_all add: rd_Some)
  define ihl where "ihl = unat (f ! base AND 0x0F) * 4"
  define plen where "plen = (if unat tl16 - ihl > n - ihl then n - ihl else unat tl16 - ihl)"
  show ?thesis
  proof (cases "ihl < 20 \<or> ihl > n \<or> unat tl16 < ihl")
    case True
    then show ?thesis using h r False assms(1) unfolding rx_ipv4_def ihl_def by (auto simp: Let_def)
  next
    case in_range: False
    have plen: "base + ihl + plen < length f" using in_range assms(2) by (auto simp: plen_def)
    have run: "rx_ipv4 e f base n s =
       (if f ! (base + 9) = 0x11 \<and> plen \<ge> 8 then
          do { dport \<leftarrow> b16 f (base + ihl + 2);
               if dport = nc_dns_sport (ns_c s) \<and> nc_phase (ns_c s) = NS_PH_DNS
               then dns_handle f (base + ihl + 8) (plen - 8) s else Some s }
        else if f ! (base + 9) = 0x06 \<and> plen \<ge> 20 then
          do { dport \<leftarrow> b16 f (base + ihl + 2);
               if nc_active (ns_c s) \<and> dport = nc_sport (ns_c s)
               then tcp_handle e f (base + ihl) plen s else Some s }
        else Some s)"
      using h r False in_range unfolding rx_ipv4_def ihl_def plen_def by (simp add: Let_def)
    show ?thesis
    proof (cases "plen \<ge> 8")
      case True
      obtain dport where "b16 f (base + ihl + 2) = Some dport" using b16_total [of "base + ihl + 2" f] plen True by auto
      moreover have "stays_safe evs d s (dns_handle f (base + ihl + 8) (plen - 8) s)"
        by (rule safe_dns_handle [OF assms(1)]) (use plen True in simp)
      ultimately show ?thesis
        unfolding run using safe_tcp_handle [OF assms(1) plen] assms(1) by simp
    qed (use run assms(1) in auto)
  qed
qed

text \<open>A cache whose valid entries, and those still to come, are of at most as many hosts as it has entries.\<close>

definition arp_ips :: "arp_ent list \<Rightarrow> u32 list" where
  "arp_ips es = map ae_ip (filter ae_valid es)"

definition arp_room :: "u32 set \<Rightarrow> arp_ent list \<Rightarrow> bool" where
  "arp_room A es \<longleftrightarrow> finite A \<and> card A \<le> length es \<and> distinct (arp_ips es) \<and> set (arp_ips es) \<subseteq> A"

lemma arp_replace_None: "arp_replace ip m es = None \<longleftrightarrow> ip \<notin> set (arp_ips es)"
  by (induction es) (auto simp: arp_ips_def)

lemma arp_insert_None: "arp_insert ip m es = None \<longleftrightarrow> length (arp_ips es) = length es"
proof (induction es)
  case (Cons e es)
  have "length (arp_ips es) \<noteq> Suc (length es)" using length_filter_le [of ae_valid es] unfolding arp_ips_def length_map by linarith
  then show ?case using Cons by (auto simp: arp_ips_def)
qed (simp add: arp_ips_def)

lemma arp_replace_Some:
  "arp_replace ip m es = Some es' \<Longrightarrow>
   arp_ips es' = arp_ips es \<and> length es' = length es \<and> (\<forall>x. arp_find x es' = (if x = ip then Some m else arp_find x es))"
proof (induction es arbitrary: es')
  case (Cons e es)
  show ?case
  proof (cases "ae_valid e \<and> ae_ip e = ip")
    case True
    then show ?thesis using Cons.prems by (auto simp: arp_ips_def)
  next
    case False
    then obtain r where "arp_replace ip m es = Some r" "es' = e # r" using Cons.prems by auto
    then show ?thesis using Cons.IH [of r] False by (auto simp: arp_ips_def)
  qed
qed simp

lemma arp_insert_Some:
  "arp_insert ip m es = Some es' \<Longrightarrow> ip \<notin> set (arp_ips es) \<Longrightarrow>
   set (arp_ips es') = insert ip (set (arp_ips es)) \<and> (distinct (arp_ips es) \<longrightarrow> distinct (arp_ips es'))
   \<and> length es' = length es \<and> (\<forall>x. arp_find x es' = (if x = ip then Some m else arp_find x es))"
proof (induction es arbitrary: es')
  case (Cons e es)
  show ?case
  proof (cases "ae_valid e")
    case False
    then have es': "es' = \<lparr>ae_ip = ip, ae_mac = m, ae_valid = True\<rparr> # es" using Cons.prems by simp
    show ?thesis using es' False Cons.prems by (auto simp: arp_ips_def)
  next
    case True
    then obtain r where r: "arp_insert ip m es = Some r" "es' = e # r" using Cons.prems by auto
    have "ip \<notin> set (arp_ips es)" "ip \<noteq> ae_ip e" using Cons.prems(2) True by (auto simp: arp_ips_def)
    then show ?thesis using Cons.IH [OF r(1)] r(2) True by (auto simp: arp_ips_def)
  qed
qed simp

lemma arp_update_room:
  assumes "arp_room A es" "ip4 ip \<in> A"
  shows "arp_room A (arp_update ip m es)"
    "arp_find x (arp_update ip m es) = (if x = ip4 ip then Some m else arp_find x es)"
proof -
  have room: "finite A" "card A \<le> length es" "distinct (arp_ips es)" "set (arp_ips es) \<subseteq> A"
    using assms(1) by (simp_all add: arp_room_def)
  have "arp_room A (arp_update ip m es)
    \<and> (\<forall>x. arp_find x (arp_update ip m es) = (if x = ip4 ip then Some m else arp_find x es))"
  proof (cases "arp_replace (ip4 ip) m es")
    case (Some es')
    then show ?thesis using arp_replace_Some [OF Some] room by (simp add: arp_update_def arp_room_def)
  next
    case None
    then have new: "ip4 ip \<notin> set (arp_ips es)" by (simp add: arp_replace_None)
    then have "set (arp_ips es) \<subset> A" using room(4) assms(2) by blast
    then have "card (set (arp_ips es)) < card A" using psubset_card_mono [OF room(1)] by blast
    then have "length (arp_ips es) < length es" using room(2,3) by (simp add: distinct_card)
    then obtain es' where ins: "arp_insert (ip4 ip) m es = Some es'" using arp_insert_None [of "ip4 ip" m es] by fastforce
    then show ?thesis
      using arp_insert_Some [OF ins new] room assms(2) None by (simp add: arp_update_def arp_room_def)
  qed
  then show "arp_room A (arp_update ip m es)"
    "arp_find x (arp_update ip m es) = (if x = ip4 ip then Some m else arp_find x es)" by blast+
qed

text \<open>A frame within its array that, if it is an ARP reply, comes from one of the hosts \<open>A\<close>.\<close>

definition arp_reply :: "bytes \<Rightarrow> nat \<Rightarrow> bool" where
  "arp_reply f n \<longleftrightarrow> n \<ge> 42 \<and> b16 f 12 = Some 0x0806 \<and> b16 f 20 = Some 2"

definition frame_ok :: "u32 set \<Rightarrow> bytes \<times> nat \<Rightarrow> bool" where
  "frame_ok A fr \<longleftrightarrow>
     snd fr < length (fst fr) \<and> (arp_reply (fst fr) (snd fr) \<longrightarrow> ip4 (take 4 (drop 28 (fst fr))) \<in> A)"

definition ns_run_ok :: "u32 set \<Rightarrow> ns_event list \<Rightarrow> u64 \<Rightarrow> ns \<Rightarrow> bool" where
  "ns_run_ok A evs d s \<longleftrightarrow> ns_safe evs d s \<and> arp_room A (ns_arp s)"

lemma rx_frame_ok:
  assumes "ns_run_ok A evs d s" "frame_ok A fr"
  shows "\<exists>s'. rx_frame e fr s = Some s' \<and> ns_run_ok A evs d s' \<and> ns_tls s' = ns_tls s \<and> (nc_active (ns_c s') \<longrightarrow> nc_active (ns_c s))"
proof -
  obtain f n where fr: "fr = (f, n)" by (cases fr)
  have safe: "ns_safe evs d s" and room: "arp_room A (ns_arp s)" and n: "n < length f"
    using assms fr by (simp_all add: ns_run_ok_def frame_ok_def)
  show ?thesis
  proof (cases "n < 14")
    case True
    then show ?thesis using assms fr by (simp add: rx_frame_def)
  next
    case False
    have "12 + 1 < length f" using n False by simp
    then obtain ty where ty: "b16 f 12 = Some ty" using b16_total by blast
    have ip: "stays_safe evs d s (rx_ipv4 e f 14 (n - 14) s)" by (rule safe_rx_ipv4 [OF safe]) (use n False in simp)
    have arp: "\<exists>s'. do { op \<leftarrow> b16 f (14 + 6);
               if op = 2 then
                 do { spa \<leftarrow> rd_range f (14 + 14) 4; sha \<leftarrow> rd_range f (14 + 8) 6;
                      Some (s\<lparr>ns_arp := arp_update spa sha (ns_arp s)\<rparr>) }
               else Some s } = Some s' \<and> ns_run_ok A evs d s' \<and> ns_tls s' = ns_tls s \<and> (nc_active (ns_c s') \<longrightarrow> nc_active (ns_c s))"
      if big: "n - 14 \<ge> 28" and ty6: "ty = 0x0806"
    proof -
      have "20 + 1 < length f" using big n by simp
      then obtain op where op: "b16 f 20 = Some op" using b16_total by blast
      show ?thesis
      proof (cases "op = 2")
        case True
        let ?spa = "take 4 (drop 28 f)" and ?sha = "take 6 (drop 22 f)"
        have "ip4 ?spa \<in> A" using assms(2) fr True op ty ty6 big by (simp add: frame_ok_def arp_reply_def)
        note upd = arp_update_room [OF room this, where m = ?sha]
        have "ns_safe evs d (s\<lparr>ns_arp := arp_update ?spa ?sha (ns_arp s)\<rparr>)"
          using safe by (auto simp: ns_safe_def upd(2))
        then show ?thesis using op True upd(1) n big by (simp add: rd_range_Some ns_run_ok_def)
      qed (use op assms(1) in simp)
    qed
    show ?thesis
    proof (cases "ty = 0x0800")
      case True
      then show ?thesis using ip ty False fr room by (auto simp: rx_frame_def stays_safe_def ns_run_ok_def)
    next
      case no_ip: False
      show ?thesis
      proof (cases "ty = 0x0806 \<and> n - 14 \<ge> 28")
        case True
        then show ?thesis using arp ty False fr by (simp add: rx_frame_def)
      next
        case no_arp: False
        then have "rx_frame e fr s = Some s" using ty False fr no_ip by (auto simp: rx_frame_def)
        then show ?thesis using assms(1) by blast
      qed
    qed
  qed
qed

lemma rx_frames_ok:
  "ns_run_ok A evs d s \<Longrightarrow> list_all (frame_ok A) frames \<Longrightarrow>
   \<exists>s'. rx_frames e frames s = Some s' \<and> ns_run_ok A evs d s' \<and> ns_tls s' = ns_tls s \<and> (nc_active (ns_c s') \<longrightarrow> nc_active (ns_c s))"
proof (induction frames arbitrary: s)
  case (Cons fr frames)
  obtain s1 where "rx_frame e fr s = Some s1" "ns_run_ok A evs d s1" "ns_tls s1 = ns_tls s" "nc_active (ns_c s1) \<longrightarrow> nc_active (ns_c s)"
    using rx_frame_ok [OF Cons.prems(1), of fr e] Cons.prems(2) by auto
  then show ?case using Cons.IH [of s1] Cons.prems(2) by auto
qed simp

text \<open>The query's name: labels never leave the array, and the zero byte is at most one byte behind the name.\<close>

lemma wr_total: "i < length xs \<Longrightarrow> wr xs i v = Some (xs[i := v])"
  by (simp add: wr_def)

lemma dns_labels_total:
  assumes "length dst = cap" "off \<le> cap" "\<forall>i. off \<le> i \<and> i < cap \<longrightarrow> dst ! i = 0"
  shows "\<exists>dst' off'. dns_labels cap off name dst = Some (dst', off') \<and> length dst' = cap \<and> off' \<le> cap
    \<and> off' \<le> off + length name + 1 \<and> (\<forall>i. off' \<le> i \<and> i < cap \<longrightarrow> dst' ! i = 0)"
  using assms
proof (induction cap off name dst rule: dns_labels.induct)
  case (1 cap off name dst)
  define part where "part = label_len name"
  have part: "part \<le> length name"
    using length_takeWhile_le [of "\<lambda>c. c \<noteq> 0x2E" "take 64 name"] by (simp add: part_def label_len_def)
  show ?case
  proof (cases "name = [] \<or> off \<ge> cap \<or> part > 63 \<or> off + part + 1 \<ge> cap")
    case True
    then have "dns_labels cap off name dst = Some (dst, off)" by (subst dns_labels.simps) (auto simp: part_def)
    then show ?thesis using "1.prems" by auto
  next
    case False
    define d1 where "d1 = dst[off := of_nat part]"
    define d2 where "d2 = take (off + 1) d1 @ take part name @ drop (off + 1 + part) d1"
    have w1: "wr dst off (of_nat part) = Some d1" using False "1.prems"(1) by (simp add: wr_total d1_def)
    have w2: "wr_range d1 (off + 1) (take part name) = Some d2"
      using False "1.prems"(1) part by (simp add: wr_range_Some d1_def d2_def)
    have l2: "length d2 = cap" using False "1.prems"(1) part by (simp add: d2_def d1_def)
    have z2: "\<forall>i. off + 1 + part \<le> i \<and> i < cap \<longrightarrow> d2 ! i = 0"
      using False "1.prems"(1,3) part by (auto simp: d2_def d1_def nth_append)
    have run: "dns_labels cap off name dst =
        (if drop part name \<noteq> [] \<and> hd (drop part name) = 0x2E
         then dns_labels cap (off + 1 + part) (tl (drop part name)) d2 else Some (d2, off + 1 + part))"
      using False w1 w2 by (subst dns_labels.simps) (simp add: part_def [symmetric] Let_def)
    show ?thesis
    proof (cases "drop part name \<noteq> [] \<and> hd (drop part name) = 0x2E")
      case True
      have "\<exists>dst' off'. dns_labels cap (off + 1 + part) (tl (drop part name)) d2 = Some (dst', off') \<and> length dst' = cap
        \<and> off' \<le> cap \<and> off' \<le> (off + 1 + part) + length (tl (drop part name)) + 1
        \<and> (\<forall>i. off' \<le> i \<and> i < cap \<longrightarrow> dst' ! i = 0)"
      proof (rule "1.IH" [OF _ part_def _ w1 w2 refl refl True])
        show "\<not> (name = [] \<or> cap \<le> off)" "\<not> (63 < part \<or> cap \<le> off + part + 1)" using False by auto
        show "length d2 = cap" "off + 1 + part \<le> cap" using l2 False by auto
        show "\<forall>i. off + 1 + part \<le> i \<and> i < cap \<longrightarrow> d2 ! i = 0" by (rule z2)
      qed
      moreover have "(off + 1 + part) + length (tl (drop part name)) + 1 \<le> off + length name + 1"
        using True part by (auto simp: not_le)
      ultimately show ?thesis using run True by fastforce
    next
      case False
      then show ?thesis using run l2 z2 part \<open>\<not> (name = [] \<or> off \<ge> cap \<or> part > 63 \<or> off + part + 1 \<ge> cap)\<close> by auto
    qed
  qed
qed

lemma dns_build_name_total:
  assumes "length name \<le> 96"
  shows "\<exists>q. dns_build_name (replicate 500 0) name = Some q \<and> length q = 500 \<and> length (cstr q) \<le> 97"
proof -
  obtain d k where d: "dns_labels 500 0 name (replicate 500 0) = Some (d, k)" "length d = 500" "k \<le> length name + 1"
      "\<forall>i. k \<le> i \<and> i < 500 \<longrightarrow> d ! i = 0"
    using dns_labels_total [of "replicate 500 0" 500 0 name] by auto
  have k: "k < 500" using d(3) assms by simp
  have z: "d[k := 0] = d" using d(2,4) k by (metis list_update_id order_refl)
  have "length (cstr d) \<le> k"
  proof (rule ccontr)
    assume "\<not> length (cstr d) \<le> k"
    then have "cstr d ! k \<in> set (cstr d)" by (intro nth_mem) simp
    moreover have "cstr d ! k = d ! k" using \<open>\<not> length (cstr d) \<le> k\<close> by (simp add: cstr_def takeWhile_nth)
    ultimately have "d ! k \<noteq> 0" using set_takeWhileD [of "d ! k" "\<lambda>c. c \<noteq> 0" d] by (simp add: cstr_def)
    then show False using d(4) k by simp
  qed
  then show ?thesis using d k z assms by (simp add: dns_build_name_def wr_total)
qed

lemma only_tx_send: "only_tx s (send_frame f s)"
  unfolding send_frame_def only_tx_def by (intro exI [of _ "ns_ip_id s"] exI) simp

lemma udp_send_only_tx:
  "\<exists>s'. udp_send sport dport ip (Some mac) pay s = Some s' \<and> only_tx s s'"
  by (cases "length pay > 1500") (auto simp: udp_send_def ip_send_def send_frame_def Let_def)

lemma dns_send_query_total:
  assumes "length (nc_host (ns_c s)) = 96" "dns_known s"
  shows "\<exists>s1 t. dns_send_query s = Some (upd_c (\<lambda>c. c\<lparr>nc_last_send := t\<rparr>) s1) \<and> only_tx s s1"
proof -
  have "length (cstr (nc_host (ns_c s))) \<le> 96"
    using length_takeWhile_le assms(1) unfolding cstr_def by (metis (no_types))
  then obtain q where q: "dns_build_name (replicate 500 0) (cstr (nc_host (ns_c s))) = Some q" "length q = 500"
      "length (cstr q) \<le> 97" using dns_build_name_total by blast
  define m where "m = bytes16 (nc_dns_id (ns_c s)) @ bytes16 0x0100 @ bytes16 1 @ replicate 6 0 @ q"
  define k where "k = 12 + (length (cstr q) + 1)"
  have m: "length m = 512" "k + 4 \<le> 512" using q(2,3) by (simp_all add: m_def k_def bytes16_def)
  define m' where "m' = take k m @ (bytes16 1 @ bytes16 1) @ drop (k + length (bytes16 1 @ bytes16 1)) m"
  have w: "wr_range m k (bytes16 1 @ bytes16 1) = Some m'" unfolding m'_def by (rule wr_range_Some) (use m in \<open>simp add: bytes16_def\<close>)
  have "length m' = 512" using m by (simp add: m'_def bytes16_def)
  then have r: "rd_range m' 0 (k + 4) = Some (take (k + 4) m')" using m(2) by (simp add: rd_range_Some)
  obtain mac where mac: "arp_lookup ns_dns_ip s = Some mac" using assms(2) by (auto simp: arp_lookup_def)
  obtain s1 where s1: "udp_send (nc_dns_sport (ns_c s)) 53 ns_dns_ip (Some mac) (take (k + 4) m') s = Some s1" "only_tx s s1"
    using udp_send_only_tx by blast
  have "dns_send_query s = Some (upd_c (\<lambda>c. c\<lparr>nc_last_send := ns_ticks s1\<rparr>) s1)"
  proof -
    have "dns_send_query s = do { q \<leftarrow> wr_range m k (bytes16 1 @ bytes16 1); pay \<leftarrow> rd_range q 0 (k + 4);
        s \<leftarrow> udp_send (nc_dns_sport (ns_c s)) 53 ns_dns_ip (arp_lookup ns_dns_ip s) pay s;
        Some (upd_c (\<lambda>c. c\<lparr>nc_last_send := ns_ticks s\<rparr>) s) }"
      using q(1) by (simp add: dns_send_query_def m_def k_def Let_def)
    then show ?thesis using w r mac s1(1) by simp
  qed
  then show ?thesis using s1(2) by blast
qed

text \<open>The timers.\<close>

lemma safe_upd_timer [simp]:
  "ns_safe evs d (upd_c (\<lambda>c. c\<lparr>nc_last_send := t\<rparr>) s) = ns_safe evs d s"
  "ns_safe evs d (upd_c (\<lambda>c. c\<lparr>nc_retries := k c\<rparr>) s) = ns_safe evs d s"
  "dns_known s \<Longrightarrow> ns_safe evs d s \<Longrightarrow> ns_safe evs d (upd_c (\<lambda>c. c\<lparr>nc_dns_sent := True\<rparr>) s)"
  "gw_known s \<Longrightarrow> ns_safe evs d s \<Longrightarrow> ns_safe evs d (upd_c (\<lambda>c. c\<lparr>nc_tcp_state := st\<rparr>) s)"
  by (simp_all add: upd_c_def ns_safe_def)

lemma safe_query:
  assumes "ns_safe evs d s" "dns_known s"
  shows "stays_safe evs d s (dns_send_query s)"
proof -
  obtain s1 t where s1: "dns_send_query s = Some (upd_c (\<lambda>c. c\<lparr>nc_last_send := t\<rparr>) s1)" "only_tx s s1"
    using dns_send_query_total [of s] assms by (auto simp: ns_safe_def)
  then show ?thesis using ns_safe_tx [OF s1(2) assms(1)] only_tx_simps [OF s1(2)] by (simp add: stays_safe_def)
qed

lemma safe_arp_request:
  assumes "ns_safe evs d s"
  shows "stays_safe evs d s (Some (stamp_send (arp_request ip s)))"
proof -
  have t: "only_tx s (arp_request ip s)" unfolding arp_request_def by (rule only_tx_send)
  show ?thesis using ns_safe_tx [OF t assms] only_tx_simps [OF t] by (simp add: stamp_send_def stays_safe_def)
qed

lemma stays_safe_map:
  assumes "stays_safe evs d s r" "\<And>s'. ns_safe evs d s' \<Longrightarrow> ns_arp s' = ns_arp s \<Longrightarrow> ns_safe evs d (g s')"
    "\<And>s'. ns_arp (g s') = ns_arp s'" "\<And>s'. ns_tls (g s') = ns_tls s'" "\<And>s'. nc_active (ns_c (g s')) = nc_active (ns_c s')"
  shows "stays_safe evs d s (r \<bind> (\<lambda>s'. Some (g s')))"
  using assms by (fastforce simp: stays_safe_def)

lemma stays_safe_upd:
  assumes "stays_safe evs d (upd_c g s) r" "\<And>c. nc_active (g c) = nc_active c"
  shows "stays_safe evs d s r"
  using assms by (simp add: stays_safe_def)

lemma safe_poll_dns:
  assumes "ns_safe evs d s"
  shows "stays_safe evs d s (poll_dns s)"
proof -
  let ?s = "upd_c (\<lambda>c. c\<lparr>nc_retries := 0\<rparr>) s"
  let ?s2 = "upd_c (\<lambda>c. c\<lparr>nc_retries := nc_retries c + 1\<rparr>) ?s"
  have safe: "ns_safe evs d ?s" "ns_safe evs d ?s2" using assms by simp_all
  have first: "stays_safe evs d ?s (do { s \<leftarrow> dns_send_query ?s; Some (upd_c (\<lambda>c. c\<lparr>nc_dns_sent := True\<rparr>) s) })"
    if "dns_known ?s"
    by (rule stays_safe_map [OF safe_query [OF safe(1) that]]) (use that in simp_all)
  have sent: "dns_known ?s2" if "nc_dns_sent (ns_c ?s)" using safe(1) that by (simp add: ns_safe_def)
  have again: "stays_safe evs d ?s (dns_send_query ?s2)" if "nc_dns_sent (ns_c ?s)"
    by (rule stays_safe_upd [OF safe_query [OF safe(2) sent [OF that]]]) simp
  have gone: "stays_safe evs d ?s (Some (ns_finish NS_ERR_DNS ?s2))"
    using safe_finish(1) [OF safe(2)] safe_finish(2-4) [of NS_ERR_DNS ?s2] by (simp add: stays_safe_def)
  have "stays_safe evs d ?s (poll_dns s)"
    unfolding poll_dns_def Let_def arp_lookup_def using first again gone safe_arp_request [OF safe(1)] safe(1) by simp
  then show ?thesis by (rule stays_safe_upd) simp
qed

lemma safe_emit_stamp:
  assumes "ns_safe evs d s" "gw_known s"
  shows "stays_safe evs d s (do { s \<leftarrow> ns_emit fl sq ack pay s; Some (stamp_send s) })"
  by (rule stays_safe_map [OF safe_emit [OF assms]]) (simp_all add: stamp_send_def)

lemma safe_poll_connect:
  assumes "ns_safe evs d s"
  shows "stays_safe evs d s (poll_connect s)"
proof -
  let ?s = "upd_c (\<lambda>c. c\<lparr>nc_retries := 0\<rparr>) s"
  let ?s1 = "upd_c (\<lambda>c. c\<lparr>nc_tcp_state := TCP_S_SYN_SENT\<rparr>) ?s"
  let ?s2 = "upd_c (\<lambda>c. c\<lparr>nc_retries := nc_retries c + 1\<rparr>) ?s"
  have safe: "ns_safe evs d ?s" "ns_safe evs d ?s2" using assms by simp_all
  have first: "stays_safe evs d ?s (do { s \<leftarrow> ns_emit TCP_SYN (nc_isn (ns_c ?s1)) 0 [] ?s1; Some (stamp_send s) })"
    if "gw_known ?s"
    by (rule stays_safe_upd [where g = "\<lambda>c. c\<lparr>nc_tcp_state := TCP_S_SYN_SENT\<rparr>", OF safe_emit_stamp]) (use that assms in simp_all)
  have again: "stays_safe evs d ?s (do { s \<leftarrow> ns_emit TCP_SYN (nc_isn (ns_c ?s2)) 0 [] ?s2; Some (stamp_send s) })"
    if "gw_known ?s"
    by (rule stays_safe_upd [where g = "\<lambda>c. c\<lparr>nc_retries := nc_retries c + 1\<rparr>", OF safe_emit_stamp]) (use that assms in simp_all)
  have gone: "stays_safe evs d ?s (Some (ns_finish NS_ERR_CONN ?s2))"
    using safe_finish(1) [OF safe(2)] safe_finish(2-4) [of NS_ERR_CONN ?s2] by (simp add: stays_safe_def)
  have "stays_safe evs d ?s (poll_connect s)"
    unfolding poll_connect_def Let_def arp_lookup_def
    using first again gone safe_arp_request [OF safe(1)] safe(1) by simp
  then show ?thesis by (rule stays_safe_upd) simp
qed

lemma safe_poll_transfer:
  assumes "ns_safe evs d s" "gw_known s"
  shows "stays_safe evs d s (poll_transfer s)"
proof -
  let ?s2 = "upd_c (\<lambda>c. c\<lparr>nc_retries := nc_retries c + 1\<rparr>) s"
  have safe: "ns_safe evs d ?s2" using assms by simp
  have r: "rd_range (nc_req (ns_c ?s2)) 0 (nc_req_len (ns_c ?s2)) = Some (take (nc_req_len (ns_c ?s2)) (nc_req (ns_c ?s2)))"
    using safe by (simp add: rd_range_Some ns_safe_def)
  have again: "stays_safe evs d s (do { s \<leftarrow> ns_emit TCP_ACK sq ack pay ?s2; Some (stamp_send s) })" for sq ack pay
    by (rule stays_safe_upd [where g = "\<lambda>c. c\<lparr>nc_retries := nc_retries c + 1\<rparr>", OF safe_emit_stamp]) (use assms in simp_all)
  have gone: "stays_safe evs d s (Some (ns_finish NS_ERR_CONN ?s2))"
    using safe_finish(1) [OF safe] safe_finish(2-4) [of NS_ERR_CONN ?s2] by (simp add: stays_safe_def)
  show ?thesis unfolding poll_transfer_def Let_def r using again gone assms(1) by simp
qed

lemma safe_timers:
  assumes "ns_safe evs d s"
  shows "stays_safe evs d s (ns_timers e s)"
    and "ns_ticks s \<ge> d \<Longrightarrow> \<forall>s'. ns_timers e s = Some s' \<longrightarrow> \<not> nc_active (ns_c s')"
proof -
  have "stays_safe evs d s (Some (ns_finish NS_ERR_CONN s))"
    using safe_finish(1) [OF assms] safe_finish(2-4) by (simp add: stays_safe_def)
  moreover have "nc_phase (ns_c s) \<noteq> NS_PH_TLS" using assms by (simp add: ns_safe_def)
  moreover have "gw_known s" if "nc_phase (ns_c s) \<noteq> NS_PH_DNS" "nc_phase (ns_c s) \<noteq> NS_PH_CONNECT"
  proof -
    have "nc_phase (ns_c s) > NS_PH_CONNECT" using that by (simp add: NS_PH_DNS_def NS_PH_CONNECT_def)
    then show ?thesis using assms by (simp add: ns_safe_def)
  qed
  ultimately show "stays_safe evs d s (ns_timers e s)"
    using safe_poll_dns [OF assms] safe_poll_connect [OF assms] safe_poll_transfer [OF assms] assms
    by (simp add: ns_timers_def)
  show "\<forall>s'. ns_timers e s = Some s' \<longrightarrow> \<not> nc_active (ns_c s')" if "ns_ticks s \<ge> d"
    using assms that safe_finish(3) by (auto simp: ns_timers_def ns_safe_def)
qed

text \<open>The clock at a poll, and a run of polls: the time and the frames that the driver hands out at each.\<close>

definition set_clock :: "u64 \<Rightarrow> ns \<Rightarrow> ns" where
  "set_clock now s = s\<lparr>ns_tls := (ns_tls s)\<lparr>tls_ticks := now\<rparr>\<rparr>"

fun ns_polls :: "tls_env \<Rightarrow> (u64 \<times> (bytes \<times> nat) list) list \<Rightarrow> ns \<Rightarrow> ns option" where
  "ns_polls e [] s = Some s"
| "ns_polls e ((now, frames) # r) s = do { s \<leftarrow> ns_poll e frames (set_clock now s); ns_polls e r s }"

lemma set_clock_ok [simp]:
  "ns_run_ok A evs d (set_clock now s) = ns_run_ok A evs d s" "nc_active (ns_c (set_clock now s)) = nc_active (ns_c s)"
  "ns_ticks (set_clock now s) = now"
  by (simp_all add: ns_run_ok_def ns_safe_def set_clock_def ns_ticks_def)

lemma ns_poll_ok:
  assumes "ns_run_ok A evs d s" "list_all (frame_ok A) frames"
  shows "\<exists>s'. ns_poll e frames s = Some s' \<and> ns_run_ok A evs d s' \<and> (nc_active (ns_c s') \<longrightarrow> nc_active (ns_c s))
    \<and> (ns_ticks s \<ge> d \<longrightarrow> \<not> nc_active (ns_c s'))"
proof -
  obtain s1 where s1: "rx_frames e frames s = Some s1" "ns_run_ok A evs d s1" "ns_tls s1 = ns_tls s"
      "nc_active (ns_c s1) \<longrightarrow> nc_active (ns_c s)"
    using rx_frames_ok [OF assms] by blast
  have safe: "ns_safe evs d s1" using s1(2) by (simp add: ns_run_ok_def)
  obtain s2 where s2: "ns_timers e s1 = Some s2" "ns_safe evs d s2" "ns_arp s2 = ns_arp s1"
      "nc_active (ns_c s2) \<longrightarrow> nc_active (ns_c s1)"
    using safe_timers(1) [OF safe, of e] by (rule stays_safeE)
  have "ns_ticks s1 = ns_ticks s" using s1(3) by (simp add: ns_ticks_def)
  then have "ns_ticks s \<ge> d \<longrightarrow> \<not> nc_active (ns_c s2)" using safe_timers(2) [OF safe, of e] s2(1) by simp
  then show ?thesis using s1 s2 by (auto simp: ns_poll_def ns_run_ok_def)
qed

lemma ns_polls_ok:
  assumes "ns_run_ok A evs d s" "\<forall>(now, frames) \<in> set inputs. list_all (frame_ok A) frames"
  shows "\<exists>s'. ns_polls e inputs s = Some s' \<and> ns_run_ok A evs d s' \<and> (nc_active (ns_c s') \<longrightarrow> nc_active (ns_c s))
    \<and> ((\<exists>now frames. (now, frames) \<in> set inputs \<and> now \<ge> d) \<longrightarrow> \<not> nc_active (ns_c s'))"
  using assms
proof (induction inputs arbitrary: s)
  case (Cons x inputs)
  obtain now frames where x: "x = (now, frames)" by (cases x)
  have "ns_run_ok A evs d (set_clock now s)" "list_all (frame_ok A) frames" using Cons.prems x by auto
  from ns_poll_ok [OF this, of e] obtain s1 where
    s1: "ns_poll e frames (set_clock now s) = Some s1" "ns_run_ok A evs d s1" "nc_active (ns_c s1) \<longrightarrow> nc_active (ns_c s)"
      "now \<ge> d \<longrightarrow> \<not> nc_active (ns_c s1)" by auto
  obtain s2 where s2: "ns_polls e inputs s1 = Some s2" "ns_run_ok A evs d s2" "nc_active (ns_c s2) \<longrightarrow> nc_active (ns_c s1)"
      "(\<exists>now frames. (now, frames) \<in> set inputs \<and> now \<ge> d) \<longrightarrow> \<not> nc_active (ns_c s2)"
    using Cons.IH [OF s1(2)] Cons.prems(2) by auto
  have "ns_polls e (x # inputs) s = Some s2" using x s1(1) s2(1) by simp
  then show ?case using s1(3,4) s2(2-4) x by auto
qed simp

lemma ns_http_get_ok:
  assumes get: "ns_http_get True mac (Some host) path cap True ctx s = Some (ok, s0)"
    and plain: "\<not> fst (url_host host)" and cap: "cap \<le> length (ns_buf s)" and room: "arp_room A (ns_arp s)"
  shows "ns_run_ok A (ns_done s) (ns_ticks s + NS_DEADLINE) s0 \<and> nc_active (ns_c s0)"
proof -
  obtain h where h: "url_host host = (False, h)" using plain by (cases "url_host host") auto
  obtain hbuf pbuf where b: "wr_range (replicate 96 0) 0 (h @ [0]) = Some hbuf"
      and s0: "s0 = s\<lparr>ns_port_ctr := ns_port_ctr s + 1, ns_mac := mac, ns_c := ns_zero
                      \<lparr>nc_active := True, nc_cap := cap, nc_cb := True, nc_ctx := ctx, nc_use_tls := False,
                       nc_host := hbuf, nc_path := pbuf,
                       nc_sport := of_nat (40000 + unat (ns_port_ctr s + 1) mod 15000),
                       nc_dns_sport := of_nat (50000 + unat (ns_port_ctr s + 1) mod 10000),
                       nc_dns_id := of_nat (0x1000 + unat (ns_port_ctr s + 1) mod 0x7000),
                       nc_isn := 0x12345678 + ucast (ns_ticks s * 97) + ucast (ns_port_ctr s + 1) * 7919,
                       nc_snd_nxt := 0x12345678 + ucast (ns_ticks s * 97) + ucast (ns_port_ctr s + 1) * 7919 + 1,
                       nc_deadline := ns_ticks s + NS_DEADLINE\<rparr>\<rparr>"
    using get h by (auto simp: ns_http_get_def Let_def bind_eq_Some_conv)
  have "length hbuf = 96" using wr_range_length [OF b] by simp
  then show ?thesis using cap room unfolding s0
    by (simp add: ns_run_ok_def ns_safe_def ns_zero_def NS_PH_TLS_def NS_PH_CONNECT_def del: replicate.simps)
qed

text \<open>C4. Every plain request is answered exactly once, whatever the network does: for a request whose host fits
  its array and whose buffer is as long as it says, every run of polls is handled without an access out of
  bounds or a null hardware address, as long as no more hosts answer ARP requests than the cache has
  entries; until the request ends no event is delivered, when it ends exactly one is, and it has ended once
  a poll comes at or after its deadline.\<close>

theorem ns_request_answered:
  assumes "ns_http_get True mac (Some host) path cap True ctx s = Some (ok, s0)" "\<not> fst (url_host host)"
    and "cap \<le> length (ns_buf s)" "arp_room A (ns_arp s)"
    and "\<forall>(now, frames) \<in> set inputs. list_all (frame_ok A) frames"
  shows "\<exists>s'. ns_polls e inputs s0 = Some s'
    \<and> (if nc_active (ns_c s') then ns_done s' = ns_done s else \<exists>ev. ns_done s' = ns_done s @ [ev])
    \<and> ((\<exists>now frames. (now, frames) \<in> set inputs \<and> now \<ge> ns_ticks s + NS_DEADLINE) \<longrightarrow> \<not> nc_active (ns_c s'))"
proof -
  have "ns_run_ok A (ns_done s) (ns_ticks s + NS_DEADLINE) s0"
    using ns_http_get_ok [OF assms(1-4)] by blast
  from ns_polls_ok [OF this assms(5), of e] obtain s' where s': "ns_polls e inputs s0 = Some s'"
      "ns_safe (ns_done s) (ns_ticks s + NS_DEADLINE) s'"
      "(\<exists>now frames. (now, frames) \<in> set inputs \<and> now \<ge> ns_ticks s + NS_DEADLINE) \<longrightarrow> \<not> nc_active (ns_c s')"
    by (auto simp: ns_run_ok_def)
  have "if nc_active (ns_c s') then ns_done s' = ns_done s else \<exists>ev. ns_done s' = ns_done s @ [ev]"
    using s'(2) unfolding ns_safe_def by (simp split: if_splits)
  then show ?thesis using s'(1,3) by blast
qed

theorem ns_request_answered_witness:
  "\<exists>ok s0 s'. ns_http_get True [2, 0, 0, 0, 0, 2] (Some [0x61]) None 4 True 7 (ns_example 4) = Some (ok, s0)
    \<and> ns_polls tls_env_example [(10, [(replicate 1526 0xFF, 60)]), (2000, [])] s0 = Some s'
    \<and> \<not> nc_active (ns_c s') \<and> (\<exists>ev. ns_done s' = ns_done (ns_example 4) @ [ev])"
proof -
  have h: "url_host [0x61] = (False, [0x61])" by (simp add: url_host_def HTTPS_SCHEME_def HTTP_SCHEME_def)
  obtain ok s0 where s0: "ns_http_get True [2, 0, 0, 0, 0, 2] (Some [0x61]) None 4 True 7 (ns_example 4) = Some (ok, s0)"
    by (auto simp: ns_http_get_def h Let_def wr_range_def simp del: replicate.simps)
  have room: "arp_room {ip4 ns_gw_ip} (ns_arp (ns_example 4))"
    by (simp add: arp_room_def arp_ips_def ns_example_def)
  have b: "b16 (replicate 1526 0xFF) 12 = Some 0xFFFF"
    by (simp add: b16_def rd_Some mk16_def del: replicate.simps)
  have fr: "\<forall>(now, frames) \<in> set [(10, [(replicate 1526 0xFF, 60)]), (2000 :: u64, [])]. list_all (frame_ok {ip4 ns_gw_ip}) frames"
    using b by (simp add: frame_ok_def arp_reply_def del: replicate.simps)
  obtain s' where s': "ns_polls tls_env_example [(10, [(replicate 1526 0xFF, 60)]), (2000, [])] s0 = Some s'"
    and ev: "if nc_active (ns_c s') then ns_done s' = ns_done (ns_example 4)
             else \<exists>ev. ns_done s' = ns_done (ns_example 4) @ [ev]"
    and late: "(\<exists>now frames. (now, frames) \<in> set [(10, [(replicate 1526 0xFF, 60)]), (2000, [])]
                 \<and> now \<ge> ns_ticks (ns_example 4) + NS_DEADLINE) \<longrightarrow> \<not> nc_active (ns_c s')"
    using ns_request_answered [OF s0 _ _ room fr, of tls_env_example] h by (auto simp: ns_example_def)
  have "ns_ticks (ns_example 4) + NS_DEADLINE \<le> 2000"
    by (simp add: ns_ticks_def ns_example_def tls_example_def NS_DEADLINE_def Let_def)
  then have "\<not> nc_active (ns_c s')" using late by auto
  then show ?thesis using s0 s' ev by auto
qed

end
