(* ===== verification/Netstack_Frames.thy ===== *)
theory Netstack_Frames
  imports Netstack_Request
begin

unbundle bit_operations_syntax

text \<open>
  What the stack sends, names and checksums, and two ways in which it leaves its arrays: a full address
  cache and a long host name.
\<close>

section \<open>Names in queries\<close>

text \<open>The encoding of a name that consists of labels, and the name as a string.\<close>

definition dns_name :: "bytes list \<Rightarrow> bytes" where
  "dns_name ls = concat (map (\<lambda>l. of_nat (length l) # l) ls) @ [0]"

fun dot_join :: "bytes list \<Rightarrow> bytes" where
  "dot_join [] = []"
| "dot_join [l] = l"
| "dot_join (l # ls) = l @ 0x2E # dot_join ls"

definition label_ok :: "bytes \<Rightarrow> bool" where
  "label_ok l \<longleftrightarrow> l \<noteq> [] \<and> length l \<le> 63 \<and> 0x2E \<notin> set l"

lemma label_len_first:
  assumes "label_ok l" "r = [] \<or> hd r = 0x2E"
  shows "label_len (l @ r) = length l"
proof -
  have l: "length l \<le> 63" "\<forall>c \<in> set l. c \<noteq> 0x2E" using assms(1) by (auto simp: label_ok_def)
  have "take 64 (l @ r) = l @ take (64 - length l) r" using l(1) by simp
  moreover have "takeWhile (\<lambda>c. c \<noteq> 0x2E) (l @ take (64 - length l) r) = l @ takeWhile (\<lambda>c. c \<noteq> 0x2E) (take (64 - length l) r)"
    using l(2) by (simp add: takeWhile_append)
  moreover have "takeWhile (\<lambda>c. c \<noteq> 0x2E) (take (64 - length l) r) = []"
    using assms(2) l(1) by (cases r) (auto simp: take_Cons')
  ultimately show ?thesis by (simp add: label_len_def)
qed

definition labels_enc :: "bytes list \<Rightarrow> bytes" where
  "labels_enc ls = concat (map (\<lambda>l. of_nat (length l) # l) ls)"

lemma dns_labels_step:
  assumes "label_ok l" "rest = [] \<or> hd rest = 0x2E" "off + length l + 1 < cap" "length dst = cap"
  defines "d \<equiv> take off dst @ of_nat (length l) # l @ drop (off + length l + 1) dst"
  shows "dns_labels cap off (l @ rest) dst =
    (if rest \<noteq> [] then dns_labels cap (off + 1 + length l) (tl rest) d else Some (d, off + 1 + length l))"
proof -
  have l: "l \<noteq> []" "length l \<le> 63" using assms(1) by (auto simp: label_ok_def)
  have w1: "wr dst off (of_nat (length l)) = Some (take off dst @ of_nat (length l) # drop (off + 1) dst)"
    using assms(3,4) by (simp add: wr_def upd_conv_take_nth_drop)
  have w2: "wr_range (take off dst @ of_nat (length l) # drop (off + 1) dst) (off + 1) l = Some d"
    using assms(3,4) by (simp add: wr_range_Some d_def add.commute)
  show ?thesis
    using l w1 w2 label_len_first [OF assms(1,2)] assms(2,3)
    by (subst dns_labels.simps) (auto simp: Let_def)
qed

lemma dns_labels_enc:
  assumes "ls \<noteq> []" "list_all label_ok ls" "off + length (labels_enc ls) < cap" "length dst = cap"
  shows "dns_labels cap off (dot_join ls) dst
    = Some (take off dst @ labels_enc ls @ drop (off + length (labels_enc ls)) dst, off + length (labels_enc ls))"
  using assms
proof (induction ls arbitrary: off dst rule: dot_join.induct)
  case (2 l)
  then show ?case using dns_labels_step [of l "[]" off cap dst] by (simp add: labels_enc_def)
next
  case (3 l l' ls)
  let ?d = "take off dst @ of_nat (length l) # l @ drop (off + length l + 1) dst"
  have "dns_labels cap off (dot_join (l # l' # ls)) dst = dns_labels cap (off + 1 + length l) (dot_join (l' # ls)) ?d"
    using dns_labels_step [of l "0x2E # dot_join (l' # ls)" off cap dst] "3.prems" by (simp add: labels_enc_def)
  also have "\<dots> = Some (take (off + 1 + length l) ?d @ labels_enc (l' # ls) @ drop (off + 1 + length l + length (labels_enc (l' # ls))) ?d,
      off + 1 + length l + length (labels_enc (l' # ls)))"
    using "3.prems" by (intro "3.IH") (simp_all add: labels_enc_def)
  finally show ?case using "3.prems" by (simp add: labels_enc_def ac_simps)
qed simp

lemma small_label_byte:
  assumes "k \<le> 63"
  shows "(of_nat k :: u8) AND 0xC0 = 0" "unat (of_nat k :: u8) = k"
proof -
  have "\<forall>k \<in> set [0 ..< 64]. (of_nat k :: u8) AND 0xC0 = 0" by code_simp
  then show "(of_nat k :: u8) AND 0xC0 = 0" using assms by simp
  show "unat (of_nat k :: u8) = k" by (rule unat_of_nat_lt) (use assms in simp)
qed

lemma rd_drop:
  assumes "drop k f = x # r"
  shows "rd f k = Some x"
proof -
  have "k < length f" using assms by (cases "k < length f") auto
  moreover from this have "f ! k = x" using assms hd_drop_conv_nth [of k f] by simp
  ultimately show ?thesis by (simp add: rd_Some)
qed

lemma dns_skip_name_enc:
  assumes "list_all label_ok ls" "drop (base + off) f = labels_enc ls @ 0 # r" "off + length (labels_enc ls) < n"
  shows "dns_skip_name f base n off = Some (off + length (labels_enc ls) + 1)"
  using assms
proof (induction ls arbitrary: off)
  case Nil
  have d: "drop (base + off) f = 0 # r" using Nil.prems(2) by (simp add: labels_enc_def)
  have "rd f (base + off) = Some 0" by (rule rd_drop [OF d])
  then show ?case by (subst dns_skip_name.simps) (simp add: labels_enc_def)
next
  case (Cons l ls)
  have l: "l \<noteq> []" "length l \<le> 63" using Cons.prems(1) by (auto simp: label_ok_def)
  have d: "drop (base + off) f = of_nat (length l) # l @ labels_enc ls @ 0 # r"
    using Cons.prems(2) by (simp add: labels_enc_def)
  then have rd: "rd f (base + off) = Some (of_nat (length l))" by (rule rd_drop)
  have nz: "(of_nat (length l) :: u8) \<noteq> 0" using small_label_byte(2) [OF l(2)] l(1) by (metis length_0_conv unat_0)
  have "drop (base + (off + 1 + length l)) f = drop (1 + length l) (drop (base + off) f)" by (simp add: add.commute add.left_commute)
  then have d': "drop (base + (off + 1 + length l)) f = labels_enc ls @ 0 # r" using d by simp
  have len: "length (labels_enc (l # ls)) = 1 + length l + length (labels_enc ls)" by (simp add: labels_enc_def)
  have "dns_skip_name f base n off = dns_skip_name f base n (off + 1 + length l)"
    using rd nz small_label_byte [OF l(2)] Cons.prems(3) len by (subst dns_skip_name.simps) simp
  then show ?case using Cons.IH [OF _ d'] Cons.prems(1,3) len by simp
qed

text \<open>C25. The names of queries are encoded as DNS names: for a host of labels of one to 63 bytes that fits the
  query, \<^verbatim>\<open>dns_build_name\<close> gives each label with its length and the zero byte, and
  \<^verbatim>\<open>dns_skip_name\<close>, which reads the names of replies, finds the end of exactly that name.\<close>

theorem dns_name_roundtrip:
  assumes "ls \<noteq> []" "list_all label_ok ls" "length (dns_name ls) \<le> 500"
  shows "\<exists>q. dns_build_name (replicate 500 0) (dot_join ls) = Some q \<and> take (length (dns_name ls)) q = dns_name ls
    \<and> dns_skip_name q 0 500 0 = Some (length (dns_name ls))"
proof -
  have n: "dns_name ls = labels_enc ls @ [0]" by (simp add: dns_name_def labels_enc_def)
  have lt: "length (labels_enc ls) < 500" using assms(3) n by simp
  let ?k = "length (labels_enc ls)"
  let ?d = "labels_enc ls @ replicate (500 - ?k) 0"
  have "dns_labels 500 0 (dot_join ls) (replicate 500 0) = Some (?d, ?k)"
    using dns_labels_enc [of ls 0 500 "replicate 500 0"] assms(1,2) lt by simp
  moreover have d: "?d = labels_enc ls @ 0 # replicate (499 - ?k) 0"
    using lt by (simp add: Suc_diff_Suc flip: replicate_Suc)
  ultimately have b: "dns_build_name (replicate 500 0) (dot_join ls) = Some (labels_enc ls @ 0 # replicate (499 - ?k) 0)"
    using lt by (simp add: dns_build_name_def wr_def)
  have "dns_skip_name (labels_enc ls @ 0 # replicate (499 - ?k) 0) 0 500 0 = Some (0 + ?k + 1)"
    by (rule dns_skip_name_enc [OF assms(2)]) (use lt in simp_all)
  then show ?thesis using b n by simp
qed

theorem dns_name_roundtrip_witness:
  "\<exists>q. dns_build_name (replicate 500 0) (dot_join [[0x61, 0x62], [0x63]]) = Some q
    \<and> take (length (dns_name [[0x61, 0x62], [0x63]])) q = dns_name [[0x61, 0x62], [0x63]]
    \<and> dns_skip_name q 0 500 0 = Some (length (dns_name [[0x61, 0x62], [0x63]]))"
  by (rule dns_name_roundtrip) (simp_all add: label_ok_def dns_name_def)

section \<open>Frames sent\<close>

lemma bytes16_nth: "bytes16 w = [ucast (drop_bit 8 w), ucast w]"
  by (simp add: bytes16_def)

lemma length_headers:
  "length dst = 4 \<Longrightarrow> length (ip_header pr dst n i ck) = 20"
  "length (tcp_segment c fl sq ack pay ck) = 20 + length pay"
  by (simp_all add: ip_header_def tcp_segment_def bytes16_def bytes32_def ns_my_ip_def)

lemma ip_header_csum:
  assumes "length dst = 4"
  shows "csum (ip_header pr dst n i (csum (ip_header pr dst n i 0) 0)) 0 = 0"
proof -
  let ?h = "ip_header pr dst n i 0" and ?ck = "csum (ip_header pr dst n i 0) 0"
  have "ip_header pr dst n i ?ck = ?h[10 := ucast (drop_bit 8 ?ck), 10 + 1 := ucast ?ck]"
    by (simp add: ip_header_def bytes16_def)
  moreover have "csum (?h[10 := ucast (drop_bit 8 ?ck), 10 + 1 := ucast ?ck]) 0 = 0"
    by (rule csum_verifies) (use length_headers(1) [OF assms] in \<open>simp_all add: ip_header_def bytes16_def\<close>)
  ultimately show ?thesis by simp
qed

lemma frame_parts:
  assumes "length a = 14" "length h = 20"
  shows "take 20 (drop 14 (a @ h @ t)) = h" "drop 34 (a @ h @ t) = t" "drop 54 (a @ h @ t) = drop 20 t"
    "take 4 (drop 26 (a @ h @ t)) = take 4 (drop 12 h)" "take 4 (drop 30 (a @ h @ t)) = take 4 (drop 16 h)"
    "length (a @ h @ t) = 34 + length t"
  using assms by simp_all

lemma tcp_segment_csum:
  assumes "length pay \<le> 1480" "ps \<le> 65535"
  shows "csum (tcp_segment c fl sq ack pay (csum (tcp_segment c fl sq ack pay 0) ps)) ps = 0"
proof -
  let ?t = "tcp_segment c fl sq ack pay 0" and ?ck = "csum (tcp_segment c fl sq ack pay 0) ps"
  have "tcp_segment c fl sq ack pay ?ck = ?t[16 := ucast (drop_bit 8 ?ck), 16 + 1 := ucast ?ck]"
    by (simp add: tcp_segment_def bytes16_def bytes32_def)
  moreover have "csum (?t[16 := ucast (drop_bit 8 ?ck), 16 + 1 := ucast ?ck]) ps = 0"
    by (rule csum_verifies) (use assms length_headers(2) in \<open>simp_all add: tcp_segment_def bytes16_def bytes32_def\<close>)
  ultimately show ?thesis by simp
qed

text \<open>Every segment sent is accepted by a receiver's checks: for a payload of up to 1480 bytes exactly one frame
  goes out, addressed to the gateway, whose IP header has checksum zero, whose TCP segment has checksum zero
  over the pseudo header of its addresses and length, and which ends with the payload.\<close>

theorem ns_emit_frame:
  assumes "arp_lookup ns_gw_ip s = Some mac" "length mac = 6" "length (ns_mac s) = 6" "length (nc_dst_ip (ns_c s)) = 4"
    and "length pay \<le> 1480"
  shows "\<exists>s' f. ns_emit fl sq ack pay s = Some s' \<and> ns_tx s' = ns_tx s @ [f] \<and> take 6 f = mac
    \<and> csum (take 20 (drop 14 f)) 0 = 0
    \<and> csum (drop 34 f) (pseudo (take 4 (drop 26 f)) (take 4 (drop 30 f)) 0x06 (of_nat (length f - 34))) = 0
    \<and> drop 54 f = pay"
proof -
  let ?c = "ns_c s"
  let ?ps = "pseudo ns_my_ip (nc_dst_ip ?c) 0x06 (of_nat (20 + length pay))"
  let ?t = "tcp_segment ?c fl sq ack pay (csum (tcp_segment ?c fl sq ack pay 0) ?ps)"
  let ?h = "ip_header 0x06 (nc_dst_ip ?c) (length ?t) (ns_ip_id s + 1) (csum (ip_header 0x06 (nc_dst_ip ?c) (length ?t) (ns_ip_id s + 1) 0) 0)"
  let ?f = "mac @ ns_mac s @ bytes16 0x0800 @ ?h @ ?t"
  have lt: "length ?t = 20 + length pay" by (simp add: length_headers)
  have lh: "length ?h = 20" using length_headers(1) [OF assms(4)] by simp
  have run: "ns_emit fl sq ack pay s = Some (send_frame ?f (s\<lparr>ns_ip_id := ns_ip_id s + 1\<rparr>))"
    using assms(1,5) lt by (simp add: ns_emit_def ip_send_def Let_def)
  have l14: "length (mac @ ns_mac s @ bytes16 0x0800) = 14" using assms(2,3) by (simp add: bytes16_def)
  have f: "?f = (mac @ ns_mac s @ bytes16 0x0800) @ ?h @ ?t" by simp
  note parts = frame_parts [OF l14 lh, of ?t, folded f]
  have t20: "drop 20 ?t = pay" by (simp add: tcp_segment_def bytes16_def bytes32_def)
  have ips: "take 4 (drop 12 ?h) = ns_my_ip" "take 4 (drop 16 ?h) = nc_dst_ip ?c"
    using assms(4) by (simp_all add: ip_header_def bytes16_def ns_my_ip_def)
  have len: "length ?f - 34 = length ?t" by (simp only: parts(6) add_diff_cancel_left')
  have ck: "csum ?t ?ps = 0" by (rule tcp_segment_csum [OF assms(5)]) (simp add: pseudo_def fold16_le)
  show ?thesis
  proof (intro exI conjI)
    show "ns_emit fl sq ack pay s = Some (send_frame ?f (s\<lparr>ns_ip_id := ns_ip_id s + 1\<rparr>))" by (rule run)
    show "ns_tx (send_frame ?f (s\<lparr>ns_ip_id := ns_ip_id s + 1\<rparr>)) = ns_tx s @ [?f]" by (simp add: send_frame_def)
    show "take 6 ?f = mac" using assms(2) by simp
    show "csum (take 20 (drop 14 ?f)) 0 = 0" unfolding parts by (rule ip_header_csum [OF assms(4)])
    show "csum (drop 34 ?f) (pseudo (take 4 (drop 26 ?f)) (take 4 (drop 30 ?f)) 0x06 (of_nat (length ?f - 34))) = 0"
      unfolding parts(2,4,5) ips len by (subst lt) (rule ck)
    show "drop 54 ?f = pay" unfolding parts by (rule t20)
  qed
qed

theorem ns_emit_frame_witness:
  "\<exists>s' f. ns_emit TCP_ACK 5 6 [1, 2, 3] (ns_example 4) = Some s' \<and> ns_tx s' = ns_tx (ns_example 4) @ [f]
    \<and> take 6 f = [2, 0, 0, 0, 0, 1] \<and> csum (take 20 (drop 14 f)) 0 = 0
    \<and> csum (drop 34 f) (pseudo (take 4 (drop 26 f)) (take 4 (drop 30 f)) 0x06 (of_nat (length f - 34))) = 0
    \<and> drop 54 f = [1, 2, 3]"
  by (rule ns_emit_frame) (simp_all add: ns_example_def arp_lookup_def ns_zero_def)

text \<open>A full address cache loses the DNS server: when the server is in the first entry of a full cache and a
  host that is not in it answers an ARP request, its entry is overwritten, and the next repetition of the
  query uses a null hardware address.\<close>

theorem arp_eviction_null:
  assumes "nc_active (ns_c s)" "nc_phase (ns_c s) = NS_PH_DNS" "nc_dns_sent (ns_c s)" "retry_due s"
    and "ns_ticks s < nc_deadline (ns_c s)"
    and "ns_arp s = x # es" "ae_ip x = ip4 ns_dns_ip" "list_all ae_valid (x # es)" "arp_find (ip4 ns_dns_ip) es = None"
    and "arp_reply f n" "n < length f" "ip4 (take 4 (drop 28 f)) \<notin> ae_ip ` set (x # es)"
  shows "ns_poll e [(f, n)] s = None"
proof -
  let ?spa = "take 4 (drop 28 f)" and ?sha = "take 6 (drop 22 f)"
  let ?s = "s\<lparr>ns_arp := arp_update ?spa ?sha (ns_arp s)\<rparr>"
  have ips: "arp_ips (x # es) = map ae_ip (x # es)" using assms(8) by (simp add: arp_ips_def list_all_iff)
  have full: "arp_replace (ip4 ?spa) ?sha (x # es) = None" "arp_insert (ip4 ?spa) ?sha (x # es) = None"
    using assms(12) ips by (simp_all only: arp_replace_None arp_insert_None length_map set_map not_False_eq_True)
  then have upd: "arp_update ?spa ?sha (ns_arp s) = x\<lparr>ae_ip := ip4 ?spa, ae_mac := ?sha\<rparr> # es"
    by (simp only: arp_update_def assms(6) option.case) simp
  have "ip4 ?spa \<noteq> ip4 ns_dns_ip" using assms(7,12) by auto
  then have lost: "arp_lookup ns_dns_ip ?s = None" using assms(9) by (simp add: arp_lookup_def upd)
  have "n - 14 \<ge> 28" "b16 f 12 = Some 0x0806" "b16 f 20 = Some 2" "\<not> n < 14" using assms(10) by (auto simp: arp_reply_def)
  then have "rx_frame e (f, n) s = Some ?s" using assms(11) by (simp add: rx_frame_def rd_range_Some)
  then have rx: "rx_frames e [(f, n)] s = Some ?s" by simp
  have query: "dns_send_query t = None" if gone: "arp_lookup ns_dns_ip t = None" for t
  proof (rule ccontr)
    assume "dns_send_query t \<noteq> None"
    then obtain q q' k pay t' where w: "wr_range (bytes16 (nc_dns_id (ns_c t)) @ bytes16 0x0100 @ bytes16 1 @ replicate 6 0 @ q)
          (12 + (length (cstr q) + 1)) (bytes16 1 @ bytes16 1) = Some q'"
        and r: "rd_range q' 0 k = Some pay"
        and b: "dns_build_name (replicate 500 0) (cstr (nc_host (ns_c t))) = Some q"
        and u: "udp_send (nc_dns_sport (ns_c t)) 53 ns_dns_ip None pay t = Some t'"
      using gone by (auto simp: dns_send_query_def Let_def bind_eq_Some_conv)
    obtain d o' where "dns_labels 500 0 (cstr (nc_host (ns_c t))) (replicate 500 0) = Some (d, o')" "length d = 500"
      using dns_labels_total [of "replicate 500 0" 500 0] by fastforce
    then have "length q = 500" using b by (auto simp: dns_build_name_def wr_def split: if_splits)
    then have "length q' = 512" using wr_range_length [OF w] by (simp add: bytes16_def)
    then have "length pay \<le> 512" using r by (auto simp: rd_range_def split: if_splits)
    then show False using u by (simp add: udp_send_def ip_send_def udp_packet_def bytes16_def Let_def)
  qed
  have "retry_due (upd_c (\<lambda>c. c\<lparr>nc_retries := 0\<rparr>) ?s)" "ns_ticks ?s = ns_ticks s"
    using assms(4) by (simp_all add: retry_due_def ns_ticks_def upd_c_def)
  then have "ns_timers e ?s = None"
    using assms(1-3,5) lost query by (simp add: ns_timers_def poll_dns_def Let_def upd_c_def arp_lookup_def)
  then show ?thesis using rx by (simp add: ns_poll_def)
qed

text \<open>A query sent, a cache of eight entries with the DNS server in the first, and an answer from another host.\<close>

definition arp_full_example :: ns where
  "arp_full_example =
     set_clock 100 ((ns_example 4)
       \<lparr>ns_c := ns_zero\<lparr>nc_active := True, nc_phase := NS_PH_DNS, nc_dns_sent := True, nc_deadline := 1500\<rparr>,
        ns_arp := \<lparr>ae_ip = ip4 ns_dns_ip, ae_mac = [2, 0, 0, 0, 0, 3], ae_valid = True\<rparr>
          # map (\<lambda>i. \<lparr>ae_ip = of_nat i, ae_mac = [2, 0, 0, 0, 0, 4], ae_valid = True\<rparr>) [1, 2, 3, 4, 5, 6, 7]\<rparr>)"

definition arp_answer_example :: bytes where
  "arp_answer_example =
     replicate 12 0 @ [8, 6] @ replicate 6 0 @ [0, 2] @ replicate 6 0 @ [10, 0, 2, 99] @ replicate 30 0"

theorem arp_eviction_null_witness: "ns_poll tls_env_example [(arp_answer_example, 60)] arp_full_example = None"
proof (rule arp_eviction_null)
  show "arp_reply arp_answer_example 60"
    by (simp add: arp_reply_def arp_answer_example_def b16_def rd_Some mk16_def nth_append)
  show "ip4 (take 4 (drop 28 arp_answer_example)) \<notin> ae_ip ` set (\<lparr>ae_ip = ip4 ns_dns_ip, ae_mac = [2, 0, 0, 0, 0, 3], ae_valid = True\<rparr>
          # map (\<lambda>i. \<lparr>ae_ip = of_nat i, ae_mac = [2, 0, 0, 0, 0, 4], ae_valid = True\<rparr>) [1, 2, 3, 4, 5, 6, 7])"
    by (simp add: arp_answer_example_def ip4_def mk32_def ns_dns_ip_def)
  show "retry_due arp_full_example"
    by (simp add: retry_due_def arp_full_example_def set_clock_def ns_ticks_def ns_zero_def NS_RETRY_def)
qed (simp_all add: arp_full_example_def set_clock_def ns_ticks_def ns_zero_def ip4_def mk32_def ns_dns_ip_def arp_answer_example_def)

text \<open>A host name of 96 characters or more overruns the request's array: the copy of the URL's host has no bound.\<close>

theorem ns_http_get_overflow:
  "ns_http_get True mac (Some host) path cap cb ctx s = None \<longleftrightarrow> 96 \<le> length (snd (url_host host))"
proof -
  have p: "length (case path of None \<Rightarrow> [] | Some p \<Rightarrow> take 255 p) \<le> 256" by (cases path) simp_all
  show ?thesis using p
    by (cases "url_host host") (auto simp: ns_http_get_def Let_def bind_eq_None_conv wr_range_def simp del: replicate.simps)
qed

end
