(* ===== verification/Netstack_Https.thy ===== *)
theory Netstack_Https
  imports Netstack_Request
begin

unbundle bit_operations_syntax

text \<open>
  A request to an https URL. The TLS client is connected with no room for application data, so that no
  event can report success.
\<close>

section \<open>Requests over TLS\<close>

text \<open>
  The invariant of a request over TLS: it has delivered no success, and once the connection is up there is
  no application data.
\<close>

definition no_success :: "ns_event list \<Rightarrow> ns \<Rightarrow> bool" where
  "no_success evs s \<longleftrightarrow> (\<exists>ys. ns_done s = evs @ ys \<and> (\<forall>ev \<in> set ys. ev_status ev \<noteq> NS_OK))"

definition https_inv :: "ns_event list \<Rightarrow> ns \<Rightarrow> bool" where
  "https_inv evs s \<longleftrightarrow> no_success evs s
     \<and> (nc_active (ns_c s) \<longrightarrow> nc_use_tls (ns_c s) \<and> nc_phase (ns_c s) \<le> NS_PH_TLS
          \<and> (nc_tcp_state (ns_c s) = TCP_S_ESTAB \<longrightarrow> nc_phase (ns_c s) = NS_PH_TLS)
          \<and> (nc_phase (ns_c s) = NS_PH_TLS \<longrightarrow> no_app (tls_c (ns_tls s))))"

text \<open>What the invariant reads.\<close>

definition same_conn :: "ns \<Rightarrow> ns \<Rightarrow> bool" where
  "same_conn s s' \<longleftrightarrow> ns_done s' = ns_done s \<and> ns_tls s' = ns_tls s
     \<and> nc_active (ns_c s') = nc_active (ns_c s) \<and> nc_use_tls (ns_c s') = nc_use_tls (ns_c s)
     \<and> nc_phase (ns_c s') = nc_phase (ns_c s) \<and> nc_tcp_state (ns_c s') = nc_tcp_state (ns_c s)"

lemma same_conn_refl [simp]: "same_conn s s"
  by (simp add: same_conn_def)


lemma https_inv_same: "same_conn s s' \<Longrightarrow> https_inv evs s' = https_inv evs s"
  by (simp add: same_conn_def https_inv_def no_success_def)

lemma same_conn_tx: "only_tx s s' \<Longrightarrow> same_conn s s'"
  by (simp add: same_conn_def only_tx_simps)

lemma same_conn_upd [simp]:
  "same_conn s (upd_c (\<lambda>c. c\<lparr>nc_rcv_nxt := k c\<rparr>) s')= same_conn s s'"
  "same_conn s (upd_c (\<lambda>c. c\<lparr>nc_req_acked := b\<rparr>) s') = same_conn s s'"
  "same_conn s (upd_c (\<lambda>c. c\<lparr>nc_retries := j c\<rparr>) s') = same_conn s s'"
  "same_conn s (upd_c (\<lambda>c. c\<lparr>nc_dns_sent := b\<rparr>) s') = same_conn s s'"
  "same_conn s (upd_c (\<lambda>c. c\<lparr>nc_last_send := t\<rparr>) s') = same_conn s s'"
  "same_conn s (upd_c (\<lambda>c. c\<lparr>nc_snd_nxt := v c, nc_last_send := t\<rparr>) s') = same_conn s s'"
  "same_conn s (upd_c (\<lambda>c. c\<lparr>nc_req_sent := b, nc_last_send := t\<rparr>) s') = same_conn s s'"
  "same_conn s (upd_c (\<lambda>c. c\<lparr>nc_tls_sent := b, nc_retries := j c\<rparr>) s') = same_conn s s'"
  "same_conn s (upd_c (\<lambda>c. c\<lparr>nc_req := r, nc_req_len := n\<rparr>) s') = same_conn s s'"
  "same_conn s (s'\<lparr>ns_arp := a\<rparr>) = same_conn s s'"
  "same_conn (upd_c (\<lambda>c. c\<lparr>nc_retries := j c\<rparr>) s) s' = same_conn s s'"
  by (simp_all add: same_conn_def upd_c_def)

























text \<open>A result that keeps the invariant.\<close>

definition https_keeps :: "ns_event list \<Rightarrow> ns option \<Rightarrow> bool" where
  "https_keeps evs r \<longleftrightarrow> (\<forall>s'. r = Some s' \<longrightarrow> https_inv evs s')"

lemma https_keeps_Some [simp]: "https_keeps evs (Some s) = https_inv evs s"
  by (simp add: https_keeps_def)



lemma https_upd [simp]:
  "https_inv evs (upd_c (\<lambda>c. c\<lparr>nc_retries := j c\<rparr>) s) = https_inv evs s"
  "https_inv evs (upd_c (\<lambda>c. c\<lparr>nc_dns_sent := b\<rparr>) s) = https_inv evs s"
  "https_inv evs (stamp_send s) = https_inv evs s"
  "https_inv evs (arp_request ip s) = https_inv evs s"
  by (rule https_inv_same; simp add: stamp_send_def arp_request_def send_frame_def same_conn_def upd_c_def)+








end
