(* ===== verification/Pmm.thy ===== *)
theory Pmm
  imports Sol_Interfaces
begin

text \<open>
  The physical page allocator, \<^verbatim>\<open>kernel/mm/pmm.c\<close>: a bitmap with one bit per 4 KiB page
  (set means used), a moving hint where the next scan starts, and a count of the free pages.
  The static variables of the file are the record \<open>pmm\<close>. A read or a write of the bitmap
  outside the words that \<^verbatim>\<open>pmm_init\<close> initialised is \<open>None\<close>. Page numbers are \<open>nat\<close>
  (they stay below \<open>2 ^ 52\<close>), addresses and the free count are 64-bit words.

  The lemmas show that the bitmap, the count and the set of free pages agree after every
  operation, what each operation does to that set, and that the allocator is a
  \<open>resource_pool\<close>.
\<close>

section \<open>State and bitmap\<close>

record pmm =
  pmm_bitmap :: "u64 list option"
  pmm_total_pages :: nat
  pmm_first_free_hint :: nat
  pmm_free_count :: u64

definition bitmap_test :: "u64 list \<Rightarrow> nat \<Rightarrow> bool option" where
  "bitmap_test bm page =
     do { w \<leftarrow> rd bm (page div 64); Some (drop_bit (page mod 64) w AND 1 \<noteq> 0) }"

definition bitmap_set :: "u64 list \<Rightarrow> nat \<Rightarrow> u64 list option" where
  "bitmap_set bm page =
     do { w \<leftarrow> rd bm (page div 64); wr bm (page div 64) (w OR push_bit (page mod 64) 1) }"

definition bitmap_clear :: "u64 list \<Rightarrow> nat \<Rightarrow> u64 list option" where
  "bitmap_clear bm page =
     do { w \<leftarrow> rd bm (page div 64); wr bm (page div 64) (w AND NOT (push_bit (page mod 64) 1)) }"

section \<open>Allocation and release\<close>

text \<open>The inner loop of \<^verbatim>\<open>pmm_alloc_page\<close>: the first clear bit of \<open>[p, e)\<close>.\<close>

function find_free :: "u64 list \<Rightarrow> nat \<Rightarrow> nat \<Rightarrow> nat option option" where
  "find_free bm p e =
     (if p < e then
        (case bitmap_test bm p of
           None \<Rightarrow> None
         | Some used \<Rightarrow> if used then find_free bm (Suc p) e else Some (Some p))
      else Some None)"
  by pat_completeness auto
termination
  by (relation "measure (\<lambda>(bm, p, e). e - p)") auto

declare find_free.simps [simp del]

definition pmm_take :: "pmm \<Rightarrow> u64 list \<Rightarrow> nat \<Rightarrow> (u64 \<times> pmm) option" where
  "pmm_take s bm p =
     do { bm' \<leftarrow> bitmap_set bm p;
          Some (of_nat p * 4096,
                s\<lparr>pmm_bitmap := Some bm', pmm_free_count := pmm_free_count s - 1,
                  pmm_first_free_hint := Suc p\<rparr>) }"

definition pmm_alloc_page :: "pmm \<Rightarrow> (u64 \<times> pmm) option" where
  "pmm_alloc_page s =
     (case pmm_bitmap s of
        None \<Rightarrow> Some (0, s)
      | Some bm \<Rightarrow>
          do { pass0 \<leftarrow> find_free bm (pmm_first_free_hint s) (pmm_total_pages s);
               case pass0 of
                 Some p \<Rightarrow> pmm_take s bm p
               | None \<Rightarrow>
                   do { pass1 \<leftarrow> find_free bm 0 (pmm_first_free_hint s);
                        case pass1 of
                          Some p \<Rightarrow> pmm_take s bm p
                        | None \<Rightarrow> Some (0, s) } })"

text \<open>
  \<^verbatim>\<open>pmm_free_page\<close> before \<^verbatim>\<open>pmm_init\<close> has run: no page is below
  \<^verbatim>\<open>pmm_total_pages = 0\<close>, so the bitmap is not read.
\<close>

definition pmm_free_page :: "u64 \<Rightarrow> pmm \<Rightarrow> pmm option" where
  "pmm_free_page paddr s =
     (if paddr = 0 \<or> paddr mod 4096 \<noteq> 0 then Some s
      else (let p = unat (paddr div 4096) in
        if p \<ge> pmm_total_pages s then Some s
        else (case pmm_bitmap s of
            None \<Rightarrow> None
          | Some bm \<Rightarrow>
              do { used \<leftarrow> bitmap_test bm p;
                   if \<not> used then Some s
                   else do { bm' \<leftarrow> bitmap_clear bm p;
                     Some (s\<lparr>pmm_bitmap := Some bm', pmm_free_count := pmm_free_count s + 1,
                       pmm_first_free_hint :=
                         (if p < pmm_first_free_hint s then p else pmm_first_free_hint s)\<rparr>) } })))"

definition pmm_free_page_count :: "pmm \<Rightarrow> u64" where
  "pmm_free_page_count s = pmm_free_count s"

section \<open>Initialisation\<close>

text \<open>
  The bootloader's memory map. \<open>Halted\<close> is the \<^verbatim>\<open>cli; hlt\<close> loop after a fatal message;
  \<open>Out_of_bounds\<close> an access outside the initialised words of the bitmap.
\<close>

record memmap_entry =
  me_base :: u64
  me_length :: u64
  me_type :: u64

datatype pmm_stop = Halted | Out_of_bounds

definition LIMINE_MEMMAP_USABLE :: u64 where
  "LIMINE_MEMMAP_USABLE = 0"

definition me_usable :: "memmap_entry \<Rightarrow> bool" where
  "me_usable e \<longleftrightarrow> me_type e = LIMINE_MEMMAP_USABLE"

fun memmap_highest :: "memmap_entry list \<Rightarrow> u64 \<Rightarrow> u64" where
  "memmap_highest [] highest = highest"
| "memmap_highest (e # es) highest =
     (if \<not> me_usable e then memmap_highest es highest
      else (let top = me_base e + me_length e in
        memmap_highest es (if top > highest then top else highest)))"

text \<open>The loop that frees the pages of one usable entry, and the loop over the entries.\<close>

fun free_pages :: "nat list \<Rightarrow> u64 list \<Rightarrow> u64 \<Rightarrow> (u64 list \<times> u64) option" where
  "free_pages [] bm c = Some (bm, c)"
| "free_pages (p # ps) bm c =
     do { used \<leftarrow> bitmap_test bm p;
          if \<not> used then free_pages ps bm c
          else do { bm' \<leftarrow> bitmap_clear bm p; free_pages ps bm' (c + 1) } }"

definition entry_pages :: "nat \<Rightarrow> memmap_entry \<Rightarrow> nat list" where
  "entry_pages npages e =
     (let start_page = unat (me_base e div 4096);
          end_page = unat ((me_base e + me_length e + 4096 - 1) div 4096)
      in [start_page ..< (if end_page > npages then npages else end_page)])"

fun free_usable :: "nat \<Rightarrow> memmap_entry list \<Rightarrow> u64 list \<Rightarrow> u64 \<Rightarrow> (u64 list \<times> u64) option" where
  "free_usable npages [] bm c = Some (bm, c)"
| "free_usable npages (e # es) bm c =
     (if \<not> me_usable e then free_usable npages es bm c
      else do { (bm', c') \<leftarrow> free_pages (entry_pages npages e) bm c; free_usable npages es bm' c' })"

fun reserve_pages :: "nat list \<Rightarrow> u64 list \<Rightarrow> u64 \<Rightarrow> (u64 list \<times> u64) option" where
  "reserve_pages [] bm c = Some (bm, c)"
| "reserve_pages (p # ps) bm c =
     do { used \<leftarrow> bitmap_test bm p;
          if used then reserve_pages ps bm c
          else do { bm' \<leftarrow> bitmap_set bm p; reserve_pages ps bm' (c - 1) } }"

definition low_reserve_end :: nat where
  "low_reserve_end = 0x100000 div 4096"

text \<open>
  The number of tracked pages, the bytes and pages the bitmap takes, and the number of 64-bit
  words that are set to "used": \<^verbatim>\<open>bitmap_bytes\<close> is \<^verbatim>\<open>pmm_total_pages / 8\<close>, rounded down.
\<close>

definition memmap_total_pages :: "memmap_entry list \<Rightarrow> nat" where
  "memmap_total_pages es = unat ((memmap_highest es 0 + 4096 - 1) div 4096)"

definition bitmap_bytes :: "nat \<Rightarrow> nat" where
  "bitmap_bytes npages = npages div 8"

definition bitmap_pages :: "nat \<Rightarrow> nat" where
  "bitmap_pages npages = (bitmap_bytes npages + 4096 - 1) div 4096"

definition bitmap_words :: "nat \<Rightarrow> nat" where
  "bitmap_words npages = (bitmap_bytes npages + 7) div 8"

definition pmm_init :: "memmap_entry list option \<Rightarrow> pmm_stop + pmm" where
  "pmm_init memmap =
     (case memmap of
        None \<Rightarrow> Inl Halted
      | Some es \<Rightarrow>
          (let npages = memmap_total_pages es
           in case find me_usable es of
                None \<Rightarrow> Inl Halted
              | Some first \<Rightarrow>
                  (let bitmap_start_page = unat (me_base first div 4096);
                       bitmap_end_page = bitmap_start_page + bitmap_pages npages;
                       bm0 = replicate (bitmap_words npages) (- 1)
                   in case do { (bm1, c1) \<leftarrow> free_usable npages es bm0 0;
                                (bm2, c2) \<leftarrow> reserve_pages [0 ..< low_reserve_end] bm1 c1;
                                (bm3, c3) \<leftarrow> reserve_pages
                                  [bitmap_start_page ..< bitmap_end_page] bm2 c2;
                                Some \<lparr>pmm_bitmap = Some bm3, pmm_total_pages = npages,
                                      pmm_first_free_hint = bitmap_end_page,
                                      pmm_free_count = c3\<rparr> } of
                        None \<Rightarrow> Inl Out_of_bounds
                      | Some s \<Rightarrow> Inr s)))"

section \<open>The bitmap as a set of pages\<close>

definition in_bitmap :: "u64 list \<Rightarrow> nat \<Rightarrow> bool" where
  "in_bitmap bm p \<longleftrightarrow> p div 64 < length bm"

lemma in_bitmap_less: "p < 64 * length bm \<Longrightarrow> in_bitmap bm p"
  by (auto simp: in_bitmap_def)

lemma bitmap_test_bit:
  "in_bitmap bm p \<Longrightarrow> bitmap_test bm p = Some (bit (bm ! (p div 64)) (p mod 64))"
  by (simp add: bitmap_test_def in_bitmap_def rd_Some bit_iff_odd_drop_bit and_one_eq
      odd_iff_mod_2_eq_one)

lemma bitmap_test_None: "bitmap_test bm p = None \<longleftrightarrow> \<not> in_bitmap bm p"
  by (auto simp: bitmap_test_def in_bitmap_def rd_def)

lemma same_page: "p div 64 = q div 64 \<Longrightarrow> p mod 64 = q mod 64 \<Longrightarrow> p = (q :: nat)"
  by (metis div_mult_mod_eq)

lemma bitmap_set_Some:
  assumes "in_bitmap bm p"
  obtains bm' where "bitmap_set bm p = Some bm'" and "length bm' = length bm"
    and "\<And>q. bitmap_test bm' q = (if q = p then Some True else bitmap_test bm q)"
proof
  let ?bm = "bm[p div 64 := bm ! (p div 64) OR push_bit (p mod 64) 1]"
  show "bitmap_set bm p = Some ?bm"
    using assms by (simp add: bitmap_set_def in_bitmap_def rd_Some wr_Some)
  show "length ?bm = length bm" by simp
  fix q
  show "bitmap_test ?bm q = (if q = p then Some True else bitmap_test bm q)"
  proof (cases "in_bitmap bm q")
    case True
    then have "in_bitmap ?bm q" by (simp add: in_bitmap_def)
    then show ?thesis
      using True assms same_page [of p q]
      by (auto simp: bitmap_test_bit in_bitmap_def nth_list_update bit_simps)
  next
    case False
    then show ?thesis using assms bitmap_test_None [of bm q] bitmap_test_None [of ?bm q]
      by (auto simp: in_bitmap_def)
  qed
qed

lemma bitmap_clear_Some:
  assumes "in_bitmap bm p"
  obtains bm' where "bitmap_clear bm p = Some bm'" and "length bm' = length bm"
    and "\<And>q. bitmap_test bm' q = (if q = p then Some False else bitmap_test bm q)"
proof
  let ?bm = "bm[p div 64 := bm ! (p div 64) AND NOT (push_bit (p mod 64) 1)]"
  show "bitmap_clear bm p = Some ?bm"
    using assms by (simp add: bitmap_clear_def in_bitmap_def rd_Some wr_Some)
  show "length ?bm = length bm" by simp
  fix q
  show "bitmap_test ?bm q = (if q = p then Some False else bitmap_test bm q)"
  proof (cases "in_bitmap bm q")
    case True
    then have "in_bitmap ?bm q" by (simp add: in_bitmap_def)
    then show ?thesis
      using True assms same_page [of p q]
      by (auto simp: bitmap_test_bit in_bitmap_def nth_list_update bit_simps)
  next
    case False
    then show ?thesis using assms bitmap_test_None [of bm q] bitmap_test_None [of ?bm q]
      by (auto simp: in_bitmap_def)
  qed
qed

definition free_set :: "u64 list \<Rightarrow> nat \<Rightarrow> nat set" where
  "free_set bm n = {p. p < n \<and> bitmap_test bm p = Some False}"

lemma finite_free_set [simp]: "finite (free_set bm n)"
  by (simp add: free_set_def)

lemma card_free_set_le: "card (free_set bm n) \<le> n"
proof -
  have "free_set bm n \<subseteq> {..<n}" by (auto simp: free_set_def)
  then show ?thesis using card_mono [of "{..<n}"] by fastforce
qed

text \<open>A bitmap of \<open>n\<close> tracked pages whose free pages are counted by \<open>c\<close>.\<close>

definition counted :: "nat \<Rightarrow> u64 list \<Rightarrow> u64 \<Rightarrow> bool" where
  "counted n bm c \<longleftrightarrow>
     n \<le> 64 * length bm \<and> n < 2 ^ 52 \<and> unat c = card (free_set bm n)"

lemma counted_in_bitmap: "counted n bm c \<Longrightarrow> p < n \<Longrightarrow> in_bitmap bm p"
  by (rule in_bitmap_less) (simp add: counted_def)

lemma counted_set:
  assumes "counted n bm c" and "p \<in> free_set bm n"
  shows "\<exists>bm'. bitmap_set bm p = Some bm' \<and> length bm' = length bm \<and> counted n bm' (c - 1)
    \<and> free_set bm' n = free_set bm n - {p}"
proof -
  have "p < n" using assms(2) by (simp add: free_set_def)
  then obtain bm' where bm': "bitmap_set bm p = Some bm'" "length bm' = length bm"
    and test: "\<And>q. bitmap_test bm' q = (if q = p then Some True else bitmap_test bm q)"
    using bitmap_set_Some [OF counted_in_bitmap [OF assms(1)]] by metis
  have frees: "free_set bm' n = free_set bm n - {p}"
    by (auto simp: free_set_def test split: if_splits)
  have "0 < card (free_set bm n)" using assms(2) by (auto simp: card_gt_0_iff)
  then have "c \<noteq> 0" using assms(1) by (auto simp: counted_def)
  then have "unat (c - 1) = card (free_set bm' n)"
    using assms unfolding frees by (simp add: unat_minus_one counted_def)
  then show ?thesis using assms(1) bm' frees by (simp add: counted_def)
qed

lemma counted_clear:
  assumes "counted n bm c" and "p < n" and "p \<notin> free_set bm n"
  shows "\<exists>bm'. bitmap_clear bm p = Some bm' \<and> length bm' = length bm \<and> counted n bm' (c + 1)
    \<and> free_set bm' n = insert p (free_set bm n)"
proof -
  obtain bm' where bm': "bitmap_clear bm p = Some bm'" "length bm' = length bm"
    and test: "\<And>q. bitmap_test bm' q = (if q = p then Some False else bitmap_test bm q)"
    using bitmap_clear_Some [OF counted_in_bitmap [OF assms(1,2)]] by metis
  have frees: "free_set bm' n = insert p (free_set bm n)"
    using assms(2) by (auto simp: free_set_def test split: if_splits)
  have "card (free_set bm n) < 2 ^ 52"
    using card_free_set_le [of bm n] assms(1) by (simp add: counted_def)
  then have "unat (c + 1) = card (free_set bm n) + 1"
    using assms(1) by (simp add: unat_Suc_lt counted_def)
  then have "unat (c + 1) = card (free_set bm' n)"
    using assms(3) unfolding frees by simp
  then show ?thesis using assms(1) bm' frees by (simp add: counted_def)
qed

section \<open>The scan\<close>

lemma find_free_spec:
  assumes "e \<le> 64 * length bm"
  shows "(\<exists>q. find_free bm p e = Some (Some q) \<and> p \<le> q \<and> q < e \<and> bitmap_test bm q = Some False
            \<and> (\<forall>r. p \<le> r \<and> r < q \<longrightarrow> bitmap_test bm r = Some True))
       \<or> (find_free bm p e = Some None \<and> (\<forall>r. p \<le> r \<and> r < e \<longrightarrow> bitmap_test bm r = Some True))"
  using assms
proof (induction bm p e rule: find_free.induct)
  case (1 bm p e)
  show ?case
  proof (cases "p < e")
    case False
    then show ?thesis by (auto simp: find_free.simps [of bm p e])
  next
    case True
    then have "in_bitmap bm p" using "1.prems" by (intro in_bitmap_less) simp
    then obtain used where used: "bitmap_test bm p = Some used"
      by (auto simp: bitmap_test_bit)
    show ?thesis
    proof (cases used)
      case False
      with True used show ?thesis by (auto simp: find_free.simps [of bm p e])
    next
      case used_True: True
      have step: "find_free bm p e = find_free bm (Suc p) e"
        using True used used_True by (simp add: find_free.simps [of bm p e])
      have ext: "bitmap_test bm r = Some True"
        if "\<forall>r. Suc p \<le> r \<and> r < Q \<longrightarrow> bitmap_test bm r = Some True" and "p \<le> r" and "r < Q"
        for Q r
        using that used used_True by (cases "r = p") auto
      from "1.IH" [OF True used used_True "1.prems"] show ?thesis
      proof (elim disjE exE conjE)
        fix q
        assume q: "find_free bm (Suc p) e = Some (Some q)" "Suc p \<le> q" "q < e"
            "bitmap_test bm q = Some False"
          and before: "\<forall>r. Suc p \<le> r \<and> r < q \<longrightarrow> bitmap_test bm r = Some True"
        have "\<forall>r. p \<le> r \<and> r < q \<longrightarrow> bitmap_test bm r = Some True"
          using ext [OF before] by simp
        with q step show ?thesis by (intro disjI1 exI [of _ q]) simp
      next
        assume n: "find_free bm (Suc p) e = Some None"
          and all: "\<forall>r. Suc p \<le> r \<and> r < e \<longrightarrow> bitmap_test bm r = Some True"
        have "\<forall>r. p \<le> r \<and> r < e \<longrightarrow> bitmap_test bm r = Some True"
          using ext [OF all] by simp
        with n step show ?thesis by simp
      qed
    qed
  qed
qed

lemma find_free_first:
  assumes "e \<le> 64 * length bm" and "p \<le> q" and "q < e" and "bitmap_test bm q = Some False"
    and "\<And>r. p \<le> r \<Longrightarrow> r < q \<Longrightarrow> bitmap_test bm r = Some True"
  shows "find_free bm p e = Some (Some q)"
proof -
  from find_free_spec [OF assms(1), of p] show ?thesis
  proof (elim disjE exE conjE)
    fix q'
    assume q': "find_free bm p e = Some (Some q')" "p \<le> q'" "bitmap_test bm q' = Some False"
      and before: "\<forall>r. p \<le> r \<and> r < q' \<longrightarrow> bitmap_test bm r = Some True"
    have "\<not> q < q'" using before assms(2,4) by fastforce
    moreover have "\<not> q' < q" using assms(5) [of q'] q' by fastforce
    ultimately show ?thesis using q' by simp
  next
    assume "\<forall>r. p \<le> r \<and> r < e \<longrightarrow> bitmap_test bm r = Some True"
    then show ?thesis using assms by fastforce
  qed
qed

section \<open>The invariant\<close>

definition pmm_frees :: "pmm \<Rightarrow> nat set" where
  "pmm_frees s = (case pmm_bitmap s of None \<Rightarrow> {} | Some bm \<Rightarrow> free_set bm (pmm_total_pages s))"

definition pmm_inv :: "pmm \<Rightarrow> bool" where
  "pmm_inv s \<longleftrightarrow>
     (\<exists>bm. pmm_bitmap s = Some bm \<and> pmm_total_pages s \<le> 64 * length bm)
   \<and> pmm_total_pages s < 2 ^ 52 \<and> pmm_first_free_hint s \<le> pmm_total_pages s
   \<and> 0 \<notin> pmm_frees s \<and> unat (pmm_free_count s) = card (pmm_frees s)"

definition page_addr :: "nat \<Rightarrow> u64" where
  "page_addr p = of_nat p * 4096"

lemma pmm_invE:
  assumes "pmm_inv s"
  obtains bm where "pmm_bitmap s = Some bm" and "pmm_total_pages s \<le> 64 * length bm"
    and "pmm_frees s = free_set bm (pmm_total_pages s)" and "pmm_total_pages s < 2 ^ 52"
    and "pmm_first_free_hint s \<le> pmm_total_pages s" and "0 \<notin> pmm_frees s"
    and "unat (pmm_free_count s) = card (pmm_frees s)"
  using assms by (auto simp: pmm_inv_def pmm_frees_def)

lemma unat_page_addr: "p < 2 ^ 52 \<Longrightarrow> unat (page_addr p) = p * 4096"
proof -
  assume p: "p < 2 ^ 52"
  then have "p * 4096 < 2 ^ LENGTH(64)" by simp
  then have "unat (of_nat (p * 4096) :: u64) = p * 4096" by (rule unat_of_nat_lt)
  then show ?thesis by (simp add: page_addr_def)
qed

lemma page_addr_inj: "p < 2 ^ 52 \<Longrightarrow> q < 2 ^ 52 \<Longrightarrow> page_addr p = page_addr q \<Longrightarrow> p = q"
  using unat_page_addr [of p] unat_page_addr [of q]
  by (metis mult_cancel2 zero_neq_numeral)

lemma page_addr_facts:
  assumes "p < 2 ^ 52"
  shows "page_addr p mod 4096 = 0" and "unat (page_addr p div 4096) = p"
    and "page_addr p = 0 \<longleftrightarrow> p = 0"
proof -
  have "unat (page_addr p mod 4096) = 0"
    by (simp add: unat_mod_distrib unat_page_addr [OF assms])
  then show "page_addr p mod 4096 = 0" by (metis unat_eq_zero)
  show "unat (page_addr p div 4096) = p"
    by (simp add: unat_div_distrib unat_page_addr [OF assms])
  show "page_addr p = 0 \<longleftrightarrow> p = 0"
    using unat_page_addr [OF assms] by (metis mult_is_0 unat_0 unat_eq_zero zero_neq_numeral)
qed

section \<open>What the operations do\<close>

lemma pmm_inv_counted:
  assumes "pmm_inv s" and "pmm_bitmap s = Some bm"
  shows "counted (pmm_total_pages s) bm (pmm_free_count s)"
  using assms by (auto simp: pmm_inv_def pmm_frees_def counted_def)

lemma counted_pmm_inv:
  assumes "counted n bm c" and "h \<le> n" and "0 \<notin> free_set bm n"
  shows "pmm_inv (s\<lparr>pmm_bitmap := Some bm, pmm_total_pages := n, pmm_first_free_hint := h,
    pmm_free_count := c\<rparr>)"
  using assms by (auto simp: pmm_inv_def pmm_frees_def counted_def)

lemma pmm_take_spec:
  assumes "pmm_inv s" and "pmm_bitmap s = Some bm" and "p \<in> pmm_frees s"
  shows "\<exists>s'. pmm_take s bm p = Some (page_addr p, s') \<and> pmm_frees s' = pmm_frees s - {p}
    \<and> pmm_total_pages s' = pmm_total_pages s \<and> pmm_first_free_hint s' = Suc p \<and> pmm_inv s'"
proof -
  let ?n = "pmm_total_pages s"
  have frees: "pmm_frees s = free_set bm ?n" using assms(2) by (simp add: pmm_frees_def)
  have p: "p \<in> free_set bm ?n" and "p < ?n" using assms(3) frees by (auto simp: free_set_def)
  obtain bm' where bm': "bitmap_set bm p = Some bm'"
    and cnt: "counted ?n bm' (pmm_free_count s - 1)" and fr: "free_set bm' ?n = free_set bm ?n - {p}"
    using counted_set [OF pmm_inv_counted [OF assms(1,2)] p] by auto
  let ?s = "s\<lparr>pmm_bitmap := Some bm', pmm_free_count := pmm_free_count s - 1,
      pmm_first_free_hint := Suc p\<rparr>"
  have "0 \<notin> free_set bm' ?n" using fr frees assms(1) by (simp add: pmm_inv_def)
  then have "pmm_inv ?s"
    using counted_pmm_inv [OF cnt, of "Suc p" s] \<open>p < ?n\<close> by (simp add: pmm_inv_def pmm_frees_def)
  then show ?thesis
    using fr frees by (auto simp: pmm_take_def bm' page_addr_def pmm_frees_def)
qed

lemma pmm_alloc_page_spec:
  assumes "pmm_inv s"
  shows "(pmm_frees s = {} \<and> pmm_alloc_page s = Some (0, s)) \<or>
    (\<exists>p s'. pmm_alloc_page s = Some (page_addr p, s') \<and> p \<in> pmm_frees s
       \<and> pmm_frees s' = pmm_frees s - {p} \<and> pmm_total_pages s' = pmm_total_pages s
       \<and> pmm_first_free_hint s' = Suc p \<and> pmm_inv s')"
proof -
  obtain bm where bm: "pmm_bitmap s = Some bm"
    and len: "pmm_total_pages s \<le> 64 * length bm"
    and frees: "pmm_frees s = free_set bm (pmm_total_pages s)"
    and hint: "pmm_first_free_hint s \<le> pmm_total_pages s"
    using assms by (elim pmm_invE) simp
  have len': "pmm_first_free_hint s \<le> 64 * length bm" using hint len by simp
  from find_free_spec [OF len, of "pmm_first_free_hint s"] show ?thesis
  proof (elim disjE exE conjE)
    fix p assume f: "find_free bm (pmm_first_free_hint s) (pmm_total_pages s) = Some (Some p)"
      and p: "p < pmm_total_pages s" "bitmap_test bm p = Some False"
    then have pf: "p \<in> pmm_frees s" by (simp add: frees free_set_def)
    have "pmm_alloc_page s = pmm_take s bm p" by (simp add: pmm_alloc_page_def bm f)
    then show ?thesis using pmm_take_spec [OF assms bm pf] pf by auto
  next
    assume f: "find_free bm (pmm_first_free_hint s) (pmm_total_pages s) = Some None"
      and after: "\<forall>r. pmm_first_free_hint s \<le> r \<and> r < pmm_total_pages s \<longrightarrow>
        bitmap_test bm r = Some True"
    from find_free_spec [OF len', of 0] show ?thesis
    proof (elim disjE exE conjE)
      fix p assume g: "find_free bm 0 (pmm_first_free_hint s) = Some (Some p)"
        and p: "p < pmm_first_free_hint s" "bitmap_test bm p = Some False"
      then have pf: "p \<in> pmm_frees s" using hint by (simp add: frees free_set_def)
      have "pmm_alloc_page s = pmm_take s bm p" by (simp add: pmm_alloc_page_def bm f g)
      then show ?thesis using pmm_take_spec [OF assms bm pf] pf by auto
    next
      assume g: "find_free bm 0 (pmm_first_free_hint s) = Some None"
        and before: "\<forall>r. 0 \<le> r \<and> r < pmm_first_free_hint s \<longrightarrow> bitmap_test bm r = Some True"
      have "bitmap_test bm r = Some True" if "r < pmm_total_pages s" for r
        using after before that by (cases "r < pmm_first_free_hint s") auto
      then have "pmm_frees s = {}" unfolding frees by (auto simp: free_set_def)
      moreover have "pmm_alloc_page s = Some (0, s)" by (simp add: pmm_alloc_page_def bm f g)
      ultimately show ?thesis by simp
    qed
  qed
qed

lemma pmm_free_page_spec:
  assumes "pmm_inv s" and "0 < p" and "p < pmm_total_pages s" and "p \<notin> pmm_frees s"
  shows "\<exists>s'. pmm_free_page (page_addr p) s = Some s' \<and> pmm_frees s' = insert p (pmm_frees s)
    \<and> pmm_total_pages s' = pmm_total_pages s
    \<and> pmm_first_free_hint s' = min p (pmm_first_free_hint s) \<and> pmm_inv s'"
proof -
  let ?n = "pmm_total_pages s"
  obtain bm where bm: "pmm_bitmap s = Some bm" and frees: "pmm_frees s = free_set bm ?n"
    and small: "?n < 2 ^ 52" and hint: "pmm_first_free_hint s \<le> ?n" and zero: "0 \<notin> pmm_frees s"
    using assms(1) by (elim pmm_invE) simp
  note cnt = pmm_inv_counted [OF assms(1) bm]
  have "p < 2 ^ 52" using assms(3) small by simp
  note pa = page_addr_facts [OF this]
  have used: "bitmap_test bm p = Some True"
    using assms(3,4) frees counted_in_bitmap [OF cnt] by (auto simp: free_set_def bitmap_test_bit)
  obtain bm' where bm': "bitmap_clear bm p = Some bm'"
    and cnt': "counted ?n bm' (pmm_free_count s + 1)"
    and fr: "free_set bm' ?n = insert p (free_set bm ?n)"
    using counted_clear [OF cnt assms(3)] assms(4) frees by auto
  let ?s = "s\<lparr>pmm_bitmap := Some bm', pmm_free_count := pmm_free_count s + 1,
     pmm_first_free_hint := (if p < pmm_first_free_hint s then p else pmm_first_free_hint s)\<rparr>"
  have "pmm_inv ?s"
    using counted_pmm_inv [OF cnt', of "if p < pmm_first_free_hint s then p else pmm_first_free_hint s" s]
      fr frees hint zero assms(2,3) by (simp add: pmm_inv_def pmm_frees_def split: if_splits)
  moreover have "pmm_free_page (page_addr p) s = Some ?s"
    using pa assms(2,3) by (simp add: pmm_free_page_def bm used bm' Let_def)
  ultimately show ?thesis using frees fr by (auto simp: min_def pmm_frees_def)
qed

text \<open>Freeing a page that is free, page 0, a misaligned or an out-of-range address changes nothing.\<close>

lemma pmm_free_page_ignored:
  assumes "pmm_inv s"
    and "pa = 0 \<or> pa mod 4096 \<noteq> 0 \<or> unat (pa div 4096) \<ge> pmm_total_pages s
         \<or> unat (pa div 4096) \<in> pmm_frees s"
  shows "pmm_free_page pa s = Some s"
proof -
  obtain bm where bm: "pmm_bitmap s = Some bm"
    and frees: "pmm_frees s = free_set bm (pmm_total_pages s)"
    using assms(1) by (elim pmm_invE) simp
  show ?thesis
    using assms(2) by (auto simp: pmm_free_page_def bm Let_def frees free_set_def)
qed

section \<open>The allocator as a resource pool\<close>

text \<open>
  The clients of the allocator (the heap, the page tables, the virtqueues and the network
  driver) see addresses, with 0 for "out of memory".
\<close>

definition pmm_acquire :: "pmm \<Rightarrow> (u64 \<times> pmm) option" where
  "pmm_acquire s =
     (case pmm_alloc_page s of
        None \<Rightarrow> None
      | Some (pa, s') \<Rightarrow> if pa = 0 then None else Some (pa, s'))"

definition pmm_release :: "u64 \<Rightarrow> pmm \<Rightarrow> pmm" where
  "pmm_release pa s = (case pmm_free_page pa s of None \<Rightarrow> s | Some s' \<Rightarrow> s')"

definition pmm_avail :: "pmm \<Rightarrow> u64 set" where
  "pmm_avail s = page_addr ` pmm_frees s"

definition pmm_frames :: "pmm \<Rightarrow> u64 set" where
  "pmm_frames s = page_addr ` {0 <..< pmm_total_pages s}"

lemma pmm_frees_range: "pmm_inv s \<Longrightarrow> p \<in> pmm_frees s \<Longrightarrow> 0 < p \<and> p < pmm_total_pages s"
  by (cases "p = 0") (auto elim!: pmm_invE simp: free_set_def)

lemma pmm_frees_small: "pmm_inv s \<Longrightarrow> p \<in> pmm_frees s \<Longrightarrow> p < 2 ^ 52"
  using pmm_frees_range [of s p] by (auto simp: pmm_inv_def)

lemma page_addr_frees_eq:
  assumes "pmm_inv s" and "p < pmm_total_pages s"
  shows "page_addr p \<in> pmm_avail s \<longleftrightarrow> p \<in> pmm_frees s"
proof -
  have "p < 2 ^ 52" and "\<And>q. q \<in> pmm_frees s \<Longrightarrow> q < 2 ^ 52"
    using assms pmm_frees_small [OF assms(1)] by (auto simp: pmm_inv_def)
  then show ?thesis unfolding pmm_avail_def using page_addr_inj by blast
qed

interpretation pmm_pool: resource_pool pmm_acquire pmm_release pmm_avail pmm_frames pmm_inv
proof unfold_locales
  fix s assume inv: "pmm_inv s"
  show "finite (pmm_frames s)" by (simp add: pmm_frames_def)
  show "pmm_avail s \<subseteq> pmm_frames s"
    using pmm_frees_range [OF inv] by (auto simp: pmm_avail_def pmm_frames_def)
  have nz: "page_addr p \<noteq> 0" if "p \<in> pmm_frees s" for p
  proof -
    have "0 < p" and "p < 2 ^ 52"
      using pmm_frees_range [OF inv that] pmm_frees_small [OF inv that] by auto
    then show ?thesis using page_addr_facts(3) by simp
  qed
  show "pmm_acquire s = None \<longleftrightarrow> pmm_avail s = {}"
    using pmm_alloc_page_spec [OF inv] nz by (auto simp: pmm_acquire_def pmm_avail_def)
  fix r s' assume al: "pmm_acquire s = Some (r, s')"
  then obtain p where p: "r = page_addr p" "p \<in> pmm_frees s" "pmm_frees s' = pmm_frees s - {p}"
    "pmm_total_pages s' = pmm_total_pages s" "pmm_inv s'"
    using pmm_alloc_page_spec [OF inv] by (auto simp: pmm_acquire_def split: if_splits)
  have "pmm_avail s' = pmm_avail s - {r}"
  proof -
    have "inj_on page_addr (pmm_frees s)"
      by (intro inj_onI) (metis page_addr_inj pmm_frees_small [OF inv])
    then show ?thesis using p(1-3) by (simp add: pmm_avail_def inj_on_image_set_diff [of _ "pmm_frees s"])
  qed
  then show "r \<in> pmm_avail s \<and> pmm_avail s' = pmm_avail s - {r} \<and> pmm_frames s' = pmm_frames s
      \<and> pmm_inv s'"
    using p by (simp add: pmm_avail_def pmm_frames_def)
next
  fix s r assume inv: "pmm_inv s" and r: "r \<in> pmm_frames s" "r \<notin> pmm_avail s"
  then obtain p where p: "r = page_addr p" "0 < p" "p < pmm_total_pages s"
    by (auto simp: pmm_frames_def)
  then have "p \<notin> pmm_frees s" using r(2) by (auto simp: pmm_avail_def)
  from pmm_free_page_spec [OF inv p(2,3) this] show
    "pmm_avail (pmm_release r s) = insert r (pmm_avail s) \<and>
     pmm_frames (pmm_release r s) = pmm_frames s \<and> pmm_inv (pmm_release r s)"
    by (auto simp: p(1) pmm_release_def pmm_avail_def pmm_frames_def)
qed

section \<open>The loops of the initialisation\<close>

lemma free_pages_counted:
  assumes "counted n bm c" and "\<And>p. p \<in> set ps \<Longrightarrow> p < n"
  shows "\<exists>bm' c'. free_pages ps bm c = Some (bm', c') \<and> counted n bm' c'
    \<and> free_set bm' n = free_set bm n \<union> set ps"
  using assms
proof (induction ps arbitrary: bm c)
  case Nil
  then show ?case by simp
next
  case (Cons p ps)
  have "p < n" using Cons.prems(2) by simp
  then obtain used where used: "bitmap_test bm p = Some used"
    using counted_in_bitmap [OF Cons.prems(1)] by (auto simp: bitmap_test_bit)
  show ?case
  proof (cases used)
    case False
    with used \<open>p < n\<close> have "p \<in> free_set bm n" by (simp add: free_set_def)
    with False used Cons.IH [OF Cons.prems(1)] Cons.prems(2) show ?thesis by auto
  next
    case True
    with used have "p \<notin> free_set bm n" by (simp add: free_set_def)
    from counted_clear [OF Cons.prems(1) \<open>p < n\<close> this] obtain bm' where
      bm': "bitmap_clear bm p = Some bm'" "counted n bm' (c + 1)"
        "free_set bm' n = insert p (free_set bm n)" by blast
    from Cons.IH [OF bm'(2)] Cons.prems(2) True used bm' show ?thesis by auto
  qed
qed

lemma reserve_pages_counted:
  assumes "counted n bm c" and "\<And>p. p \<in> set ps \<Longrightarrow> p < n"
  shows "\<exists>bm' c'. reserve_pages ps bm c = Some (bm', c') \<and> counted n bm' c'
    \<and> free_set bm' n = free_set bm n - set ps"
  using assms
proof (induction ps arbitrary: bm c)
  case Nil
  then show ?case by simp
next
  case (Cons p ps)
  have "p < n" using Cons.prems(2) by simp
  then obtain used where used: "bitmap_test bm p = Some used"
    using counted_in_bitmap [OF Cons.prems(1)] by (auto simp: bitmap_test_bit)
  show ?case
  proof (cases used)
    case True
    with used have "p \<notin> free_set bm n" by (simp add: free_set_def)
    with True used Cons.IH [OF Cons.prems(1)] Cons.prems(2) show ?thesis by auto
  next
    case False
    with used \<open>p < n\<close> have "p \<in> free_set bm n" by (simp add: free_set_def)
    from counted_set [OF Cons.prems(1) this] obtain bm' where
      bm': "bitmap_set bm p = Some bm'" "counted n bm' (c - 1)"
        "free_set bm' n = free_set bm n - {p}" by blast
    from Cons.IH [OF bm'(2)] Cons.prems(2) False used bm' show ?thesis by auto
  qed
qed

definition usable_pages :: "nat \<Rightarrow> memmap_entry list \<Rightarrow> nat set" where
  "usable_pages n es = (\<Union>e \<in> set (filter me_usable es). set (entry_pages n e))"

lemma entry_pages_less: "p \<in> set (entry_pages n e) \<Longrightarrow> p < n"
  by (auto simp: entry_pages_def Let_def split: if_splits)

lemma free_usable_counted:
  assumes "counted n bm c"
  shows "\<exists>bm' c'. free_usable n es bm c = Some (bm', c') \<and> counted n bm' c'
    \<and> free_set bm' n = free_set bm n \<union> usable_pages n es"
  using assms
proof (induction es arbitrary: bm c)
  case Nil
  then show ?case by (simp add: usable_pages_def)
next
  case (Cons e es)
  show ?case
  proof (cases "me_usable e")
    case False
    with Cons show ?thesis by (simp add: usable_pages_def)
  next
    case True
    have "\<And>p. p \<in> set (entry_pages n e) \<Longrightarrow> p < n" by (rule entry_pages_less)
    from free_pages_counted [OF Cons.prems this] obtain bm' c'
      where f: "free_pages (entry_pages n e) bm c = Some (bm', c')" "counted n bm' c'"
        "free_set bm' n = free_set bm n \<union> set (entry_pages n e)" by blast
    from Cons.IH [OF f(2)] True f show ?thesis by (auto simp: usable_pages_def)
  qed
qed

lemma counted_initial:
  assumes "n \<le> 64 * w" and "n < 2 ^ 52"
  shows "counted n (replicate w (- 1)) 0" and "free_set (replicate w (- 1)) n = {}"
proof -
  have "bitmap_test (replicate w (- 1)) p = Some True" if "p < n" for p
  proof -
    have "in_bitmap (replicate w (- 1)) p" using assms(1) that by (intro in_bitmap_less) simp
    then show ?thesis by (simp add: bitmap_test_bit in_bitmap_def)
  qed
  then show "free_set (replicate w (- 1)) n = {}" by (auto simp: free_set_def)
  then show "counted n (replicate w (- 1)) 0" using assms by (simp add: counted_def)
qed

lemma memmap_total_pages_small: "memmap_total_pages es < 2 ^ 52"
proof -
  have "unat (memmap_highest es 0 + 4096 - 1) < 2 ^ 64" by (rule unat_u64_less)
  then show ?thesis by (simp add: memmap_total_pages_def unat_div_distrib)
qed

text \<open>
  The words cover every tracked page unless the number of pages is between 1 and 7 above a
  multiple of 64.
\<close>

lemma bitmap_words_eq:
  "bitmap_words n = n div 64 + (if n mod 64 < 8 then 0 else 1)"
proof -
  define m where "m = n div 8"
  have "n mod 64 = 8 * (m mod 8) + n mod 8"
    using mod_mult2_eq [of n 8 8] by (simp add: m_def)
  moreover have "n div 64 = m div 8" using div_mult2_eq [of n 8 8] by (simp add: m_def)
  moreover have "(m + 7) div 8 = m div 8 + (if m mod 8 = 0 then 0 else 1)" by presburger
  moreover have "n mod 8 < 8" by simp
  ultimately show ?thesis by (auto simp: bitmap_words_def bitmap_bytes_def m_def)
qed

lemma bitmap_words_enough: "n mod 64 = 0 \<or> 8 \<le> n mod 64 \<Longrightarrow> n \<le> 64 * bitmap_words n"
  using mult_div_mod_eq [of 64 n] mod_less_divisor [of 64 n] by (auto simp: bitmap_words_eq)

lemma bitmap_words_short: "n mod 64 \<in> {1..7} \<Longrightarrow> \<not> (n - 1) div 64 < bitmap_words n"
proof -
  assume r: "n mod 64 \<in> {1..7}"
  have "n - 1 = (n mod 64 - 1) + n div 64 * 64"
    using r mod_div_mult_eq [of n 64] by auto
  then have "(n - 1) div 64 = ((n mod 64 - 1) + n div 64 * 64) div 64" by simp
  also have "\<dots> = n div 64 + (n mod 64 - 1) div 64" by (rule div_mult_self1) simp
  also have "(n mod 64 - 1) div 64 = 0" using r by simp
  finally show ?thesis using r by (simp add: bitmap_words_eq)
qed

lemma free_pages_outside:
  "\<lbrakk>p \<in> set ps; \<not> in_bitmap bm p\<rbrakk> \<Longrightarrow> free_pages ps bm c = None"
proof (induction ps arbitrary: bm c)
  case (Cons q ps)
  show ?case
  proof (cases "in_bitmap bm q")
    case False
    then show ?thesis by (simp add: bitmap_test_None [THEN iffD2])
  next
    case True
    then have "p \<in> set ps" using Cons.prems by auto
    moreover obtain bm' where "bitmap_clear bm q = Some bm'" "length bm' = length bm"
      using bitmap_clear_Some [OF True] by metis
    ultimately show ?thesis
      using Cons True by (simp add: bitmap_test_bit in_bitmap_def)
  qed
qed simp

lemma free_pages_length:
  "free_pages ps bm c = Some (bm', c') \<Longrightarrow> length bm' = length bm"
proof (induction ps arbitrary: bm c)
  case (Cons q ps)
  then show ?case
    by (cases "bitmap_test bm q"; cases "bitmap_clear bm q")
       (auto simp: bitmap_clear_def wr_eq_Some rd_eq_Some split: if_splits bind_splits)
qed simp

lemma free_usable_outside:
  "\<lbrakk>e \<in> set es; me_usable e; p \<in> set (entry_pages n e); \<not> in_bitmap bm p\<rbrakk>
   \<Longrightarrow> free_usable n es bm c = None"
proof (induction es arbitrary: bm c)
  case (Cons x es)
  show ?case
  proof (cases "me_usable x")
    case False
    with Cons show ?thesis by auto
  next
    case True
    show ?thesis
    proof (cases "free_pages (entry_pages n x) bm c")
      case None
      with True show ?thesis by simp
    next
      case (Some r)
      then obtain bm' c' where r: "free_pages (entry_pages n x) bm c = Some (bm', c')"
        by (cases r) auto
      then have "e \<in> set es" using Cons.prems free_pages_outside [of p _ bm c] by auto
      moreover have "\<not> in_bitmap bm' p"
        using free_pages_length [OF r] Cons.prems(4) by (simp add: in_bitmap_def)
      ultimately show ?thesis using Cons r True by simp
    qed
  qed
qed simp


lemma pmm_alloc_at_hint:
  assumes "pmm_inv s" and "pmm_first_free_hint s \<in> pmm_frees s"
  shows "\<exists>s'. pmm_alloc_page s = Some (page_addr (pmm_first_free_hint s), s')"
proof -
  let ?h = "pmm_first_free_hint s"
  obtain bm where bm: "pmm_bitmap s = Some bm" and len: "pmm_total_pages s \<le> 64 * length bm"
    and frees: "pmm_frees s = free_set bm (pmm_total_pages s)"
    using assms(1) by (elim pmm_invE) simp
  have "find_free bm ?h (pmm_total_pages s) = Some (Some ?h)"
    using assms(2) by (intro find_free_first len) (auto simp: frees free_set_def)
  then have "pmm_alloc_page s = pmm_take s bm ?h" by (simp add: pmm_alloc_page_def bm)
  then show ?thesis using pmm_take_spec [OF assms(1) bm assms(2)] by auto
qed

lemma set_entry_pages:
  "set (entry_pages n e) = {unat (me_base e div 4096) ..<
     min (unat ((me_base e + me_length e + 4096 - 1) div 4096)) n}"
  by (auto simp: entry_pages_def Let_def)

text \<open>The highest tracked page belongs to a usable entry.\<close>

lemma memmap_highest_cases:
  "memmap_highest es h = h \<or>
   (\<exists>e \<in> set es. me_usable e \<and> memmap_highest es h = me_base e + me_length e)"
  by (induction es arbitrary: h) (fastforce simp: Let_def split: if_splits)+

lemma memmap_highest_mono: "h \<le> memmap_highest es h"
proof (induction es arbitrary: h)
  case (Cons e es)
  then show ?case
    using Cons.IH [of "me_base e + me_length e"]
    by (auto simp: Let_def intro: less_imp_le order.strict_trans2)
qed simp

lemma memmap_highest_ge:
  "e \<in> set es \<Longrightarrow> me_usable e \<Longrightarrow> me_base e + me_length e \<le> memmap_highest es h"
proof (induction es arbitrary: h)
  case (Cons x es)
  then show ?case
    using memmap_highest_mono [of "me_base e + me_length e" es]
      memmap_highest_mono [of h es] by (auto simp: Let_def not_less)
qed simp

lemma last_page_usable:
  assumes "\<exists>e \<in> set es. me_usable e"
    and "\<And>e. e \<in> set es \<Longrightarrow> me_usable e \<Longrightarrow>
        0 < me_length e \<and> unat (me_base e) + unat (me_length e) + 4096 < 2 ^ 64"
  shows "\<exists>e \<in> set es. me_usable e \<and>
    memmap_total_pages es - 1 \<in> set (entry_pages (memmap_total_pages es) e)"
proof -
  obtain x where x: "x \<in> set es" "me_usable x" using assms(1) by blast
  have sum: "unat (me_base e + me_length e) = unat (me_base e) + unat (me_length e)"
    "0 < unat (me_length e)"
    if "e \<in> set es" "me_usable e" for e
    using assms(2) [OF that] by (auto simp: unat_plus_lt unat_gt_0 word_gt_0)
  have "0 < unat (memmap_highest es 0)"
    using memmap_highest_ge [OF x, of 0] sum [OF x] by (simp add: word_le_nat_alt)
  then obtain e where e: "e \<in> set es" "me_usable e"
    and h: "memmap_highest es 0 = me_base e + me_length e"
    using memmap_highest_cases [of es 0] by auto
  let ?top = "unat (me_base e) + unat (me_length e)"
  have "unat (me_base e + me_length e + 4096 - 1) = ?top + 4095"
  proof -
    have "unat (me_base e + me_length e + 4095) = ?top + 4095"
      using assms(2) [OF e] sum [OF e] by (subst unat_plus_lt) auto
    moreover have "me_base e + me_length e + 4096 - 1 = me_base e + me_length e + 4095" by simp
    ultimately show ?thesis by (simp only:)
  qed
  then have n: "memmap_total_pages es = (?top + 4095) div 4096"
    by (simp add: memmap_total_pages_def h unat_div_distrib)
  have "unat (me_base e) div 4096 \<le> (?top + 4095) div 4096 - 1"
    and "0 < (?top + 4095) div 4096"
    using sum(2) [OF e] by (simp_all add: div_le_mono)
  then show ?thesis
    using e n by (intro bexI [of _ e]) (auto simp: entry_pages_def unat_div_distrib h [symmetric]
      memmap_total_pages_def)
qed

section \<open>Properties\<close>

text \<open>A small state for the witnesses: 64 tracked pages of which 5, 7 and 9 are free.\<close>

definition pmm_example :: pmm where
  "pmm_example = \<lparr>pmm_bitmap = Some [NOT (push_bit 5 1 OR push_bit 7 1 OR push_bit 9 1)],
     pmm_total_pages = 64, pmm_first_free_hint = 7, pmm_free_count = 3\<rparr>"

lemma pmm_example_frees: "pmm_frees pmm_example = {5, 7, 9}"
proof -
  have "list_all (\<lambda>p. bitmap_test [NOT (push_bit 5 1 OR push_bit 7 1 OR push_bit 9 1)] p
      = Some (p \<notin> {5, 7, 9})) [0..<64]"
    by code_simp
  then have "bitmap_test [NOT (push_bit 5 1 OR push_bit 7 1 OR push_bit 9 1)] p
      = Some (p \<notin> {5, 7, 9})" if "p < 64" for p
    using that by (simp only: list_all_iff set_upt) simp
  then show ?thesis by (auto simp: pmm_frees_def pmm_example_def free_set_def)
qed

lemma pmm_example_inv: "pmm_inv pmm_example"
  unfolding pmm_inv_def pmm_example_frees by (simp add: pmm_example_def)

text \<open>C3. \<^verbatim>\<open>pmm_alloc_page\<close> always terminates without leaving the bitmap. It returns 0 and
  changes nothing exactly when no page is free; otherwise it returns the address of a page that
  was free, nonzero and 4 KiB aligned, and that page alone becomes used, the free count and the
  invariant following.\<close>

theorem pmm_alloc_page_exact:
  assumes "pmm_inv s"
  shows "\<exists>pa s'. pmm_alloc_page s = Some (pa, s') \<and> pmm_inv s' \<and>
    (if pmm_frees s = {} then pa = 0 \<and> s' = s
     else \<exists>p \<in> pmm_frees s. pa = page_addr p \<and> pa \<noteq> 0 \<and> pa mod 4096 = 0
       \<and> pmm_frees s' = pmm_frees s - {p}
       \<and> unat (pmm_free_page_count s') = unat (pmm_free_page_count s) - 1)"
proof -
  have addr: "page_addr p \<noteq> 0" "page_addr p mod 4096 = 0" if "p \<in> pmm_frees s" for p
    using page_addr_facts [OF pmm_frees_small [OF assms that]] pmm_frees_range [OF assms that]
    by auto
  have fin: "finite (pmm_frees s)" using assms by (elim pmm_invE) simp
  from pmm_alloc_page_spec [OF assms] show ?thesis
  proof (elim disjE exE conjE)
    fix p s' assume p: "pmm_alloc_page s = Some (page_addr p, s')" "p \<in> pmm_frees s"
      "pmm_frees s' = pmm_frees s - {p}" "pmm_inv s'"
    have "unat (pmm_free_page_count s') = unat (pmm_free_page_count s) - 1"
      using assms p fin by (simp add: pmm_free_page_count_def pmm_inv_def)
    with p addr [OF p(2)] show ?thesis by auto
  qed (use assms in auto)
qed

theorem pmm_alloc_page_exact_witness:
  "\<exists>pa s'. pmm_alloc_page pmm_example = Some (pa, s') \<and> pmm_inv s' \<and>
    (\<exists>p \<in> {5, 7, 9}. pa = page_addr p \<and> pmm_frees s' = {5, 7, 9} - {p})"
  using pmm_alloc_page_exact [OF pmm_example_inv] unfolding pmm_example_frees by auto

text \<open>C13. \<^verbatim>\<open>pmm_free_page\<close> on any address whatever never leaves the bitmap and keeps the
  invariant; it frees the page exactly when the address is the nonzero, aligned address of a
  tracked page that is in use, and otherwise (page 0, a misaligned or out-of-range address, a
  double free) changes nothing.\<close>

theorem pmm_free_page_exact:
  assumes "pmm_inv s"
  shows "\<exists>s'. pmm_free_page pa s = Some s' \<and> pmm_inv s' \<and>
    (if pa \<noteq> 0 \<and> pa mod 4096 = 0 \<and> unat (pa div 4096) < pmm_total_pages s
        \<and> unat (pa div 4096) \<notin> pmm_frees s
     then pmm_frees s' = insert (unat (pa div 4096)) (pmm_frees s) else s' = s)"
proof (cases "pa \<noteq> 0 \<and> pa mod 4096 = 0 \<and> unat (pa div 4096) < pmm_total_pages s
    \<and> unat (pa div 4096) \<notin> pmm_frees s")
  case True
  let ?p = "unat (pa div 4096)"
  have "unat pa = ?p * 4096"
  proof -
    have "unat (pa mod 4096) = unat pa mod unat (4096 :: u64)" by (rule unat_mod_distrib)
    then have "unat pa mod 4096 = 0" using True by simp
    moreover have "?p = unat pa div 4096" by (simp add: unat_div_distrib)
    ultimately show ?thesis by (simp add: mod_0_imp_dvd)
  qed
  moreover have "?p < 2 ^ 52" using True assms by (auto simp: pmm_inv_def)
  ultimately have pa: "pa = page_addr ?p"
    using unat_page_addr [of ?p] by (simp add: word_unat_eq_iff)
  have "unat pa \<noteq> 0" using True by (simp add: unat_eq_zero)
  then have "0 < ?p" using \<open>unat pa = ?p * 4096\<close> by (metis gr0I mult_zero_left)
  from pmm_free_page_spec [OF assms this, unfolded pa [symmetric]] True show ?thesis by auto
next
  case False
  then have "pa = 0 \<or> pa mod 4096 \<noteq> 0 \<or> unat (pa div 4096) \<ge> pmm_total_pages s
      \<or> unat (pa div 4096) \<in> pmm_frees s"
    by (simp only: de_Morgan_conj not_less not_not)
  then have "pmm_free_page pa s = Some s" by (rule pmm_free_page_ignored [OF assms])
  then show ?thesis unfolding if_not_P [OF False] using assms by blast
qed

theorem pmm_free_page_exact_witness:
  "\<exists>s'. pmm_free_page (page_addr 6) pmm_example = Some s' \<and> pmm_inv s'
     \<and> pmm_frees s' = {5, 6, 7, 9}"
proof -
  have "page_addr 6 = 24576" by (simp add: page_addr_def)
  then show ?thesis
    using pmm_free_page_exact [OF pmm_example_inv, of "page_addr 6"]
    unfolding pmm_example_frees by (auto simp: pmm_example_def)
qed

text \<open>C1. Ownership of physical pages: for every sequence of requests and releases of a client
  that releases only pages it owns, no page it owns can be handed out again, and the pages it owns
  and the free ones are together exactly those at the start: none is lost or handed out twice.\<close>

theorem pmm_page_ownership:
  assumes "pmm_inv s" and "pool_run pmm_acquire pmm_release ops s {} = (s', own)"
  shows "pmm_inv s' \<and> own \<inter> pmm_avail s' = {} \<and> own \<union> pmm_avail s' = pmm_avail s"
  using pmm_pool.pool_run_ownership [OF assms(1) _ _ assms(2)] by simp

theorem pmm_page_ownership_witness:
  "\<exists>s' own. pool_run pmm_acquire pmm_release [Acquire, Acquire, Release 28672, Acquire]
       pmm_example {} = (s', own)
     \<and> own \<inter> pmm_avail s' = {} \<and> own \<union> pmm_avail s' = pmm_avail pmm_example"
  using pmm_page_ownership [OF pmm_example_inv] by (metis surj_pair)

text \<open>The check of \<^verbatim>\<open>pmm_selftest\<close> in \<^verbatim>\<open>kmain.c\<close>: after drawing three pages and
  freeing the second, the next allocation returns that second page again ("OK, reuse"), unless
  the third draw had wrapped around to a lower page.\<close>

theorem pmm_selftest_reuse:
  assumes "pmm_inv s" and "pmm_alloc_page s = Some (p1, s1)" and "pmm_alloc_page s1 = Some (p2, s2)"
    and "pmm_alloc_page s2 = Some (p3, s3)" and "p1 \<noteq> 0" and "p2 \<noteq> 0" and "p2 < p3"
    and "pmm_free_page p2 s3 = Some s4"
  shows "p1 \<noteq> p2 \<and> (\<exists>s5. pmm_alloc_page s4 = Some (p2, s5))"
proof -
  obtain a where a: "p1 = page_addr a" "a \<in> pmm_frees s" "pmm_frees s1 = pmm_frees s - {a}"
    and i1: "pmm_inv s1" and t1: "pmm_total_pages s1 = pmm_total_pages s"
    using pmm_alloc_page_spec [OF assms(1)] assms(2,5) by auto
  obtain b where b: "p2 = page_addr b" "b \<in> pmm_frees s1" "pmm_frees s2 = pmm_frees s1 - {b}"
    and i2: "pmm_inv s2" and t2: "pmm_total_pages s2 = pmm_total_pages s1"
    using pmm_alloc_page_spec [OF i1] assms(3,6) by auto
  have "p3 \<noteq> 0" using assms(7) by (auto simp: word_less_def)
  then obtain c where c: "p3 = page_addr c" "c \<in> pmm_frees s2" "pmm_frees s3 = pmm_frees s2 - {c}"
    and h3: "pmm_first_free_hint s3 = Suc c" and i3: "pmm_inv s3"
    and t3: "pmm_total_pages s3 = pmm_total_pages s2"
    using pmm_alloc_page_spec [OF i2] assms(4) by auto
  have small: "b < 2 ^ 52" "c < 2 ^ 52" "a < 2 ^ 52"
    using pmm_frees_small [OF i1 b(2)] pmm_frees_small [OF i2 c(2)] pmm_frees_small [OF assms(1) a(2)]
    by simp_all
  have "b < c"
    using assms(7) small by (simp add: b(1) c(1) word_less_nat_alt unat_page_addr)
  have range: "0 < b" "b < pmm_total_pages s3" "b \<notin> pmm_frees s3"
    using pmm_frees_range [OF i1 b(2)] t2 t3 b(3) c(3) by auto
  obtain s4' where "pmm_free_page (page_addr b) s3 = Some s4'"
    and f4: "pmm_frees s4' = insert b (pmm_frees s3)" and h4: "pmm_first_free_hint s4' = min b (Suc c)"
    and i4: "pmm_inv s4'"
    using pmm_free_page_spec [OF i3 range] h3 by auto
  then have "s4' = s4" using assms(8) b(1) by simp
  then have "\<exists>s5. pmm_alloc_page s4 = Some (page_addr b, s5)"
    using pmm_alloc_at_hint [OF i4] h4 f4 \<open>b < c\<close> by (simp add: min_def)
  moreover have "p1 \<noteq> p2" using page_addr_inj [OF small(3,1)] a b by auto
  ultimately show ?thesis by (simp add: b(1))
qed

theorem pmm_selftest_reuse_witness:
  "\<exists>s4 s5. pmm_free_page 28672 (pmm_example\<lparr>pmm_bitmap := Some [- 1],
        pmm_first_free_hint := 10, pmm_free_count := 0\<rparr>) = Some s4
     \<and> pmm_alloc_page s4 = Some (28672, s5)"
proof -
  let ?s0 = "pmm_example\<lparr>pmm_first_free_hint := 0\<rparr>"
  let ?s1 = "pmm_example\<lparr>pmm_bitmap := Some [NOT 640], pmm_first_free_hint := 6, pmm_free_count := 2\<rparr>"
  let ?s2 = "pmm_example\<lparr>pmm_bitmap := Some [NOT 512], pmm_first_free_hint := 8, pmm_free_count := 1\<rparr>"
  let ?s3 = "pmm_example\<lparr>pmm_bitmap := Some [- 1], pmm_first_free_hint := 10, pmm_free_count := 0\<rparr>"
  let ?s4 = "pmm_example\<lparr>pmm_bitmap := Some [NOT 128], pmm_first_free_hint := 7, pmm_free_count := 1\<rparr>"
  have "pmm_frees ?s0 = pmm_frees pmm_example" by (simp add: pmm_frees_def pmm_example_def)
  then have "pmm_inv ?s0" using pmm_example_inv by (simp add: pmm_inv_def)
  moreover have "pmm_alloc_page ?s0 = Some (20480, ?s1)" by code_simp
  moreover have "pmm_alloc_page ?s1 = Some (28672, ?s2)" by code_simp
  moreover have "pmm_alloc_page ?s2 = Some (36864, ?s3)" by code_simp
  moreover have f: "pmm_free_page 28672 ?s3 = Some ?s4" by code_simp
  ultimately have "\<exists>s5. pmm_alloc_page ?s4 = Some (28672, s5)"
    using pmm_selftest_reuse [of ?s0 20480 ?s1 28672 ?s2 36864 ?s3 ?s4] by simp
  with f show ?thesis by blast
qed

text \<open>C14. \<^verbatim>\<open>pmm_init\<close> on a memory map whose tracked page count is not 1 to 7 above a multiple
  of 64, covers the first MiB, and whose first usable region has room for the bitmap: it finishes
  with the invariant, and the free pages are exactly the pages of usable entries that are neither
  below 1 MiB nor under the bitmap.\<close>

theorem pmm_init_establishes:
  assumes "find me_usable es = Some first"
    and "memmap_total_pages es mod 64 = 0 \<or> 8 \<le> memmap_total_pages es mod 64"
    and "low_reserve_end \<le> memmap_total_pages es"
    and "unat (me_base first div 4096) + bitmap_pages (memmap_total_pages es) \<le> memmap_total_pages es"
  shows "\<exists>s. pmm_init (Some es) = Inr s \<and> pmm_inv s \<and> pmm_total_pages s = memmap_total_pages es
    \<and> pmm_frees s = usable_pages (memmap_total_pages es) es - {..< low_reserve_end}
        - {unat (me_base first div 4096) ..<
           unat (me_base first div 4096) + bitmap_pages (memmap_total_pages es)}"
proof -
  define n where "n = memmap_total_pages es"
  define b where "b = unat (me_base first div 4096)"
  let ?bm0 = "replicate (bitmap_words n) (- 1) :: u64 list"
  have "n < 2 ^ 52" unfolding n_def by (rule memmap_total_pages_small)
  have "n \<le> 64 * bitmap_words n" using assms(2) by (intro bitmap_words_enough) (simp add: n_def)
  note init = counted_initial [OF this \<open>n < 2 ^ 52\<close>]
  from free_usable_counted [OF init(1), of es] obtain bm1 c1 where
    1: "free_usable n es ?bm0 0 = Some (bm1, c1)" "counted n bm1 c1" "free_set bm1 n = usable_pages n es"
    by (auto simp: init(2))
  have "\<And>p. p \<in> set [0 ..< low_reserve_end] \<Longrightarrow> p < n" using assms(3) by (simp add: n_def)
  then obtain bm2 c2 where
    2: "reserve_pages [0 ..< low_reserve_end] bm1 c1 = Some (bm2, c2)" "counted n bm2 c2"
      "free_set bm2 n = usable_pages n es - {..< low_reserve_end}"
    using reserve_pages_counted [OF 1(2), of "[0 ..< low_reserve_end]"] 1(3)
    by (auto simp: atLeast0LessThan)
  have "\<And>p. p \<in> set [b ..< b + bitmap_pages n] \<Longrightarrow> p < n" using assms(4) by (auto simp: n_def b_def)
  then obtain bm3 c3 where
    3: "reserve_pages [b ..< b + bitmap_pages n] bm2 c2 = Some (bm3, c3)" "counted n bm3 c3"
      "free_set bm3 n = usable_pages n es - {..< low_reserve_end} - {b ..< b + bitmap_pages n}"
    using reserve_pages_counted [OF 2(2), of "[b ..< b + bitmap_pages n]"] 2(3) by auto
  let ?s = "\<lparr>pmm_bitmap = Some bm3, pmm_total_pages = n,
      pmm_first_free_hint = b + bitmap_pages n, pmm_free_count = c3\<rparr>"
  have "pmm_init (Some es) = Inr ?s"
    by (simp add: pmm_init_def assms(1) n_def [symmetric] b_def [symmetric] 1(1) 2(1) 3(1))
  moreover have "0 \<notin> free_set bm3 n" by (simp add: 3(3) low_reserve_end_def)
  then have "pmm_inv ?s"
    using counted_pmm_inv [OF 3(2) _ \<open>0 \<notin> free_set bm3 n\<close>, of "b + bitmap_pages n" ?s] assms(4)
    by (simp add: n_def b_def)
  moreover have "pmm_frees ?s = free_set bm3 n" by (simp add: pmm_frees_def)
  ultimately show ?thesis using 3(3) unfolding n_def [symmetric] b_def [symmetric] by auto
qed

text \<open>A 64 MiB machine with one usable region from 1 MiB on.\<close>

definition memmap_example :: "memmap_entry list" where
  "memmap_example =
    [\<lparr>me_base = 0, me_length = 0x9F000, me_type = 1\<rparr>,
     \<lparr>me_base = 0x100000, me_length = 0x3F00000, me_type = 0\<rparr>]"

theorem pmm_init_establishes_witness:
  "\<exists>s. pmm_init (Some memmap_example) = Inr s \<and> pmm_inv s \<and> pmm_total_pages s = 16384
     \<and> 300 \<in> pmm_frees s \<and> 256 \<notin> pmm_frees s"
proof -
  have n: "memmap_total_pages memmap_example = 16384"
    by (simp add: memmap_total_pages_def memmap_example_def me_usable_def LIMINE_MEMMAP_USABLE_def)
  have f: "find me_usable memmap_example = Some \<lparr>me_base = 0x100000, me_length = 0x3F00000, me_type = 0\<rparr>"
    by (simp add: memmap_example_def me_usable_def LIMINE_MEMMAP_USABLE_def)
  have u: "usable_pages 16384 memmap_example = {256 ..< 16384}"
    by (simp add: usable_pages_def memmap_example_def me_usable_def LIMINE_MEMMAP_USABLE_def
        set_entry_pages)
  have b: "bitmap_pages 16384 = 1" by (simp add: bitmap_pages_def bitmap_bytes_def)
  show ?thesis
    using pmm_init_establishes [OF f] unfolding n u b by (auto simp: low_reserve_end_def)
qed

text \<open>When the number of tracked pages is 1 to 7 above a multiple of 64, \<^verbatim>\<open>bitmap_bytes\<close>
  (rounded down) leaves the last pages without a bitmap word: \<^verbatim>\<open>pmm_init\<close> then reads and
  writes memory beyond the words it initialised, for every such memory map.\<close>

theorem pmm_init_short_bitmap:
  assumes "\<exists>e \<in> set es. me_usable e"
    and "\<And>e. e \<in> set es \<Longrightarrow> me_usable e \<Longrightarrow>
        0 < me_length e \<and> unat (me_base e) + unat (me_length e) + 4096 < 2 ^ 64"
    and "memmap_total_pages es mod 64 \<in> {1..7}"
  shows "pmm_init (Some es) = Inl Out_of_bounds"
proof -
  let ?n = "memmap_total_pages es"
  obtain e where e: "e \<in> set es" "me_usable e" "?n - 1 \<in> set (entry_pages ?n e)"
    using last_page_usable [OF assms(1,2)] by blast
  have "\<not> in_bitmap (replicate (bitmap_words ?n) (- 1)) (?n - 1)"
    using bitmap_words_short [OF assms(3)] by (simp add: in_bitmap_def)
  from free_usable_outside [OF e this]
  have "free_usable ?n es (replicate (bitmap_words ?n) (- 1)) 0 = None" .
  moreover obtain first where "find me_usable es = Some first"
    using assms(1) by (metis find_None_iff option.exhaust)
  ultimately show ?thesis by (simp add: pmm_init_def Let_def)
qed

theorem pmm_init_short_bitmap_witness:
  "pmm_init (Some [\<lparr>me_base = 0x100000, me_length = 0x3F01000, me_type = 0\<rparr>]) = Inl Out_of_bounds"
proof (rule pmm_init_short_bitmap)
  let ?es = "[\<lparr>me_base = 0x100000, me_length = 0x3F01000, me_type = 0\<rparr>]"
  have "memmap_total_pages ?es = 16385"
    by code_simp
  then show "memmap_total_pages ?es mod 64 \<in> {1..7}" by simp
  show "\<exists>e \<in> set ?es. me_usable e" by (simp add: me_usable_def LIMINE_MEMMAP_USABLE_def)
  show "0 < me_length e \<and> unat (me_base e) + unat (me_length e) + 4096 < 2 ^ 64"
    if "e \<in> set ?es" and "me_usable e" for e
    using that(1) by simp
qed

end
