(* ===== verification/Pci.thy ===== *)
theory Pci
  imports Sol_Prelude
begin

text \<open>
  PCI configuration space and enumeration, \<^verbatim>\<open>kernel/drivers/pci/pci.c\<close>. What the devices
  answer on the two I/O ports is a function from the address written to \<^verbatim>\<open>CONFIG_ADDRESS\<close> to the
  dword read from \<^verbatim>\<open>CONFIG_DATA\<close>; the device table with its count is the list of the recorded
  functions. The lemmas show that the enumeration records every present function once, in order,
  up to the bound of the table.
\<close>

section \<open>Configuration space\<close>

type_synonym pci_space = "u32 \<Rightarrow> u32"

definition pci_make_address :: "u8 \<Rightarrow> u8 \<Rightarrow> u8 \<Rightarrow> u8 \<Rightarrow> u32" where
  "pci_make_address bus dev func offset =
     0x80000000 OR push_bit 16 (ucast bus) OR push_bit 11 (ucast dev) OR push_bit 8 (ucast func)
     OR (ucast offset AND 0xFC)"

definition pci_config_read32 :: "pci_space \<Rightarrow> u8 \<Rightarrow> u8 \<Rightarrow> u8 \<Rightarrow> u8 \<Rightarrow> u32" where
  "pci_config_read32 sp bus dev func offset = sp (pci_make_address bus dev func offset)"

definition pci_config_read16 :: "pci_space \<Rightarrow> u8 \<Rightarrow> u8 \<Rightarrow> u8 \<Rightarrow> u8 \<Rightarrow> u16" where
  "pci_config_read16 sp bus dev func offset =
     ucast (drop_bit (unat (offset AND 3) * 8) (pci_config_read32 sp bus dev func offset))"

definition pci_config_read8 :: "pci_space \<Rightarrow> u8 \<Rightarrow> u8 \<Rightarrow> u8 \<Rightarrow> u8 \<Rightarrow> u8" where
  "pci_config_read8 sp bus dev func offset =
     ucast (drop_bit (unat (offset AND 3) * 8) (pci_config_read32 sp bus dev func offset))"

section \<open>Capabilities\<close>

definition pci_cap_first :: "pci_space \<Rightarrow> u8 \<Rightarrow> u8 \<Rightarrow> u8 \<Rightarrow> u8" where
  "pci_cap_first sp bus dev func =
     (let status = pci_config_read16 sp bus dev func 0x06 in
      if status AND 0x0010 = 0 then 0
      else (let ptr = pci_config_read8 sp bus dev func 0x34 in if ptr \<ge> 0x40 then ptr else 0))"

definition pci_cap_next :: "pci_space \<Rightarrow> u8 \<Rightarrow> u8 \<Rightarrow> u8 \<Rightarrow> u8 \<Rightarrow> u8" where
  "pci_cap_next sp bus dev func offset =
     (if offset = 0 \<or> offset \<ge> 0xFF then 0
      else (let nxt = pci_config_read8 sp bus dev func (offset + 1) in
            if nxt \<ge> 0x40 then nxt else 0))"

section \<open>The device table\<close>

record pci_device =
  pd_bus :: u8
  pd_dev :: u8
  pd_func :: u8
  pd_vendor :: u16
  pd_device_id :: u16
  pd_revision :: u8
  pd_prog_if :: u8
  pd_sub_class :: u8
  pd_base_class :: u8
  pd_header_type :: u8
  pd_bars :: "u32 list"

definition PCI_MAX_DEVICES :: nat where "PCI_MAX_DEVICES = 256"
definition PCI_VENDOR_NONE :: u16 where "PCI_VENDOR_NONE = 0xFFFF"

text \<open>
  The table is static and filled once, so the base address registers of a function with another
  header type than 0 keep their initial zeros.
\<close>

definition pci_describe :: "pci_space \<Rightarrow> u8 \<Rightarrow> u8 \<Rightarrow> u8 \<Rightarrow> pci_device" where
  "pci_describe sp bus dev func =
     (let header = pci_config_read8 sp bus dev func 0x0E AND 0x7F in
      \<lparr>pd_bus = bus, pd_dev = dev, pd_func = func,
       pd_vendor = pci_config_read16 sp bus dev func 0x00,
       pd_device_id = pci_config_read16 sp bus dev func 0x02,
       pd_revision = pci_config_read8 sp bus dev func 0x08,
       pd_prog_if = pci_config_read8 sp bus dev func 0x09,
       pd_sub_class = pci_config_read8 sp bus dev func 0x0A,
       pd_base_class = pci_config_read8 sp bus dev func 0x0B,
       pd_header_type = header,
       pd_bars = (if header = 0
                  then map (\<lambda>i. pci_config_read32 sp bus dev func (0x10 + of_nat i * 4)) [0 ..< 6]
                  else replicate 6 0)\<rparr>)"

definition pci_record :: "pci_space \<Rightarrow> u8 \<Rightarrow> u8 \<Rightarrow> u8 \<Rightarrow> pci_device list \<Rightarrow> pci_device list" where
  "pci_record sp bus dev func table =
     (if length table \<ge> PCI_MAX_DEVICES then table else table @ [pci_describe sp bus dev func])"

text \<open>The three nested loops of \<^verbatim>\<open>pci_init\<close>.\<close>

fun pci_scan_funcs :: "pci_space \<Rightarrow> nat \<Rightarrow> nat \<Rightarrow> nat list \<Rightarrow> pci_device list \<Rightarrow> pci_device list" where
  "pci_scan_funcs sp bus dev [] table = table"
| "pci_scan_funcs sp bus dev (func # fs) table =
     (if pci_config_read16 sp (of_nat bus) (of_nat dev) (of_nat func) 0x00 = PCI_VENDOR_NONE
      then pci_scan_funcs sp bus dev fs table
      else pci_scan_funcs sp bus dev fs
             (pci_record sp (of_nat bus) (of_nat dev) (of_nat func) table))"

definition pci_num_funcs :: "pci_space \<Rightarrow> nat \<Rightarrow> nat \<Rightarrow> nat" where
  "pci_num_funcs sp bus dev =
     (if pci_config_read8 sp (of_nat bus) (of_nat dev) 0 0x0E AND 0x80 \<noteq> 0 then 8 else 1)"

fun pci_scan_devs :: "pci_space \<Rightarrow> nat \<Rightarrow> nat list \<Rightarrow> pci_device list \<Rightarrow> pci_device list" where
  "pci_scan_devs sp bus [] table = table"
| "pci_scan_devs sp bus (dev # ds) table =
     (if pci_config_read16 sp (of_nat bus) (of_nat dev) 0 0x00 = PCI_VENDOR_NONE
      then pci_scan_devs sp bus ds table
      else pci_scan_devs sp bus ds
             (pci_scan_funcs sp bus dev [0 ..< pci_num_funcs sp bus dev] table))"

fun pci_scan_buses :: "pci_space \<Rightarrow> nat list \<Rightarrow> pci_device list \<Rightarrow> pci_device list" where
  "pci_scan_buses sp [] table = table"
| "pci_scan_buses sp (bus # bs) table =
     pci_scan_buses sp bs (pci_scan_devs sp bus [0 ..< 32] table)"

definition pci_init :: "pci_space \<Rightarrow> pci_device list" where
  "pci_init sp = pci_scan_buses sp [0 ..< 256] []"

definition pci_device_at :: "pci_device list \<Rightarrow> nat \<Rightarrow> pci_device option" where
  "pci_device_at table i = (if i \<ge> length table then None else Some (table ! i))"

text \<open>\<^verbatim>\<open>pci_find_device\<close> returns an index, or -1.\<close>

fun pci_find_from :: "u16 \<Rightarrow> u16 \<Rightarrow> pci_device list \<Rightarrow> int \<Rightarrow> int" where
  "pci_find_from vendor device_id [] i = -1"
| "pci_find_from vendor device_id (p # ps) i =
     (if pd_vendor p = vendor \<and> pd_device_id p = device_id then i
      else pci_find_from vendor device_id ps (i + 1))"

definition pci_find_device :: "u16 \<Rightarrow> u16 \<Rightarrow> pci_device list \<Rightarrow> int" where
  "pci_find_device vendor device_id table = pci_find_from vendor device_id table 0"

section \<open>Addresses\<close>

lemma small_bit: "unat (w :: u8) < 2 ^ k \<Longrightarrow> bit w n \<Longrightarrow> n < k"
proof (rule ccontr)
  assume w: "unat w < 2 ^ k" "bit w n" "\<not> n < k"
  then have "unat w < 2 ^ n" by (meson le_less_trans not_less power_increasing one_le_numeral less_le_trans)
  then have "\<not> bit (unat w) n" by (simp add: bit_iff_odd)
  then show False using w(2) by (simp add: bit_simps)
qed

lemma pci_make_address_fields:
  assumes "dev < 32" and "func < 8"
  shows "ucast (drop_bit 16 (pci_make_address bus dev func offset)) = bus" (is ?bus)
    and "ucast (drop_bit 11 (pci_make_address bus dev func offset)) AND mask 5 = dev" (is ?dev)
    and "ucast (drop_bit 8 (pci_make_address bus dev func offset)) AND mask 3 = func" (is ?func)
    and "ucast (pci_make_address bus dev func offset) = offset AND 0xFC" (is ?off)
proof -
  have d: "bit dev n \<Longrightarrow> n < 5" for n using small_bit [of dev 5 n] assms(1) by (simp add: word_less_nat_alt)
  have f: "bit func n \<Longrightarrow> n < 3" for n using small_bit [of func 3 n] assms(2) by (simp add: word_less_nat_alt)
  have "(0x80000000 :: u32) = push_bit 31 1" by simp
  then have e: "bit (0x80000000 :: u32) n \<longleftrightarrow> n = 31" for n
    by (simp only: bit_simps) auto
  have "(0xFC :: u32) = push_bit 2 (mask 6)" by (simp add: mask_eq_exp_minus_1)
  then have m32: "bit (0xFC :: u32) n \<longleftrightarrow> 2 \<le> n \<and> n < 8" for n
    by (simp only: bit_simps) auto
  have "(0xFC :: u8) = push_bit 2 (mask 6)" by (simp add: mask_eq_exp_minus_1)
  then have m8: "bit (0xFC :: u8) n \<longleftrightarrow> 2 \<le> n \<and> n < 8" for n
    by (simp only: bit_simps) auto
  have b: "bit (pci_make_address bus dev func offset) n \<longleftrightarrow>
      n = 31 \<or> 16 \<le> n \<and> bit bus (n - 16) \<or> 11 \<le> n \<and> bit dev (n - 11)
      \<or> 8 \<le> n \<and> bit func (n - 8) \<or> 2 \<le> n \<and> bit offset n" if "n < 32" for n
    unfolding pci_make_address_def bit_or_iff bit_and_iff bit_push_bit_iff bit_unsigned_iff e m32
    using that bit_imp_le_length [of offset n] by (auto simp: possible_bit_word)
  show ?bus
    by (rule bit_word_eqI)
       (auto simp: bit_unsigned_iff bit_drop_bit_eq b dest: d f bit_imp_le_length)
  show ?dev
    by (rule bit_word_eqI)
       (auto simp: bit_unsigned_iff bit_drop_bit_eq bit_and_iff bit_mask_iff b
         dest: d f bit_imp_le_length)
  show ?func
    by (rule bit_word_eqI)
       (auto simp: bit_unsigned_iff bit_drop_bit_eq bit_and_iff bit_mask_iff b
         dest: d f bit_imp_le_length)
  show ?off
  proof (rule bit_word_eqI)
    fix n assume "n < LENGTH(8)"
    then show "bit (ucast (pci_make_address bus dev func offset) :: u8) n = bit (offset AND 0xFC) n"
      unfolding bit_and_iff m8
      by (auto simp: bit_unsigned_iff b dest: d f)
  qed
qed

lemma pci_make_address_inject:
  assumes "dev < 32" "func < 8" "dev' < 32" "func' < 8"
    and "pci_make_address bus dev func offset = pci_make_address bus' dev' func' offset'"
  shows "bus = bus' \<and> dev = dev' \<and> func = func' \<and> offset AND 0xFC = offset' AND 0xFC"
  using pci_make_address_fields [OF assms(1,2), of bus offset]
    pci_make_address_fields [OF assms(3,4), of bus' offset'] assms(5)
  by metis

section \<open>The enumeration\<close>

text \<open>The functions that are present, in the order of the scan.\<close>

definition present :: "pci_space \<Rightarrow> nat \<Rightarrow> nat \<Rightarrow> nat \<Rightarrow> bool" where
  "present sp bus dev func \<longleftrightarrow>
     pci_config_read16 sp (of_nat bus) (of_nat dev) (of_nat func) 0x00 \<noteq> PCI_VENDOR_NONE"

definition present_funcs :: "pci_space \<Rightarrow> nat \<Rightarrow> nat \<Rightarrow> (nat \<times> nat \<times> nat) list" where
  "present_funcs sp bus dev =
     (if present sp bus dev 0
      then map (\<lambda>f. (bus, dev, f)) (filter (present sp bus dev) [0 ..< pci_num_funcs sp bus dev])
      else [])"

definition present_all :: "pci_space \<Rightarrow> (nat \<times> nat \<times> nat) list" where
  "present_all sp =
     concat (map (\<lambda>bus. concat (map (present_funcs sp bus) [0 ..< 32])) [0 ..< 256])"

definition describe3 :: "pci_space \<Rightarrow> nat \<times> nat \<times> nat \<Rightarrow> pci_device" where
  "describe3 sp t = (case t of (b, d, f) \<Rightarrow> pci_describe sp (of_nat b) (of_nat d) (of_nat f))"

text \<open>Recording a sequence of functions fills the table up to its bound.\<close>

lemma record_bounded:
  assumes "table = take PCI_MAX_DEVICES (map (describe3 sp) ts)"
  shows "pci_record sp (of_nat b) (of_nat d) (of_nat f) table =
    take PCI_MAX_DEVICES (map (describe3 sp) (ts @ [(b, d, f)]))"
  using assms by (auto simp: pci_record_def describe3_def take_Cons' min_def)

lemma pci_scan_funcs_take:
  "table = take PCI_MAX_DEVICES (map (describe3 sp) ts) \<Longrightarrow>
   pci_scan_funcs sp bus dev fs table =
     take PCI_MAX_DEVICES (map (describe3 sp) (ts @ map (\<lambda>f. (bus, dev, f)) (filter (present sp bus dev) fs)))"
proof (induction fs arbitrary: table ts)
  case Nil
  then show ?case by simp
next
  case (Cons f fs)
  show ?case
  proof (cases "present sp bus dev f")
    case True
    then show ?thesis
      using Cons.IH [OF record_bounded [OF Cons.prems, of bus dev f]] by (simp add: present_def)
  next
    case False
    then show ?thesis using Cons by (simp add: present_def)
  qed
qed

lemma pci_scan_devs_take:
  "table = take PCI_MAX_DEVICES (map (describe3 sp) ts) \<Longrightarrow>
   pci_scan_devs sp bus ds table =
     take PCI_MAX_DEVICES (map (describe3 sp) (ts @ concat (map (present_funcs sp bus) ds)))"
proof (induction ds arbitrary: table ts)
  case Nil
  then show ?case by simp
next
  case (Cons d ds)
  show ?case
  proof (cases "present sp bus d 0")
    case True
    then show ?thesis
      using Cons.IH [OF pci_scan_funcs_take [OF Cons.prems]]
      by (simp add: present_def present_funcs_def)
  next
    case False
    then show ?thesis using Cons by (simp add: present_def present_funcs_def)
  qed
qed

lemma pci_scan_buses_take:
  "table = take PCI_MAX_DEVICES (map (describe3 sp) ts) \<Longrightarrow>
   pci_scan_buses sp bs table =
     take PCI_MAX_DEVICES (map (describe3 sp)
       (ts @ concat (map (\<lambda>bus. concat (map (present_funcs sp bus) [0 ..< 32])) bs)))"
proof (induction bs arbitrary: table ts)
  case Nil
  then show ?case by simp
next
  case (Cons b bs)
  from Cons.IH [OF pci_scan_devs_take [OF Cons.prems]] show ?case by simp
qed

lemma pci_find_from_spec:
  "(\<exists>k. k < length ps \<and> pci_find_from v i ps n = n + int k
      \<and> pd_vendor (ps ! k) = v \<and> pd_device_id (ps ! k) = i
      \<and> (\<forall>j < k. \<not> (pd_vendor (ps ! j) = v \<and> pd_device_id (ps ! j) = i)))
   \<or> (pci_find_from v i ps n = -1 \<and> (\<forall>p \<in> set ps. \<not> (pd_vendor p = v \<and> pd_device_id p = i)))"
proof (induction ps arbitrary: n)
  case Nil
  then show ?case by simp
next
  case (Cons p ps)
  show ?case
  proof (cases "pd_vendor p = v \<and> pd_device_id p = i")
    case True
    then show ?thesis by (intro disjI1 exI [of _ 0]) simp
  next
    case False
    then have eq: "pci_find_from v i (p # ps) n = pci_find_from v i ps (n + 1)" by auto
    from Cons.IH [of "n + 1"] show ?thesis
    proof (elim disjE exE conjE)
      fix k assume k: "k < length ps" "pci_find_from v i ps (n + 1) = n + 1 + int k"
        "pd_vendor (ps ! k) = v" "pd_device_id (ps ! k) = i"
        "\<forall>j < k. \<not> (pd_vendor (ps ! j) = v \<and> pd_device_id (ps ! j) = i)"
      have "\<forall>j < Suc k. \<not> (pd_vendor ((p # ps) ! j) = v \<and> pd_device_id ((p # ps) ! j) = i)"
        using k(5) False by (auto simp: less_Suc_eq_0_disj)
      then show ?thesis using k eq by (intro disjI1 exI [of _ "Suc k"]) simp
    next
      assume "pci_find_from v i ps (n + 1) = - 1"
        "\<forall>p \<in> set ps. \<not> (pd_vendor p = v \<and> pd_device_id p = i)"
      then show ?thesis using eq False by auto
    qed
  qed
qed

section \<open>The configuration space as the bus defines it\<close>

text \<open>The dword of a function's register, at its number on the address port, and a field of it: registers are little endian.\<close>

definition cfg_dword :: "pci_space \<Rightarrow> nat \<times> nat \<times> nat \<Rightarrow> nat \<Rightarrow> u32" where
  "cfg_dword sp = (\<lambda>(b, d, f) reg. sp (of_nat (2 ^ 31 + b * 2 ^ 16 + d * 2 ^ 11 + f * 2 ^ 8 + 4 * reg)))"

definition cfg_field :: "pci_space \<Rightarrow> nat \<times> nat \<times> nat \<Rightarrow> nat \<Rightarrow> nat \<Rightarrow> nat \<Rightarrow> nat" where
  "cfg_field sp t reg lo width = unat (cfg_dword sp t reg) div 2 ^ lo mod 2 ^ width"

text \<open>A function is there when its vendor is not all ones; the functions from 1 on count only on a device whose function 0 is
  there and has the multi-function bit, the highest of its header type.\<close>

definition pci_there :: "pci_space \<Rightarrow> nat \<times> nat \<times> nat \<Rightarrow> bool" where
  "pci_there sp = (\<lambda>(b, d, f). cfg_field sp (b, d, 0) 0 0 16 \<noteq> 65535 \<and> cfg_field sp (b, d, f) 0 0 16 \<noteq> 65535
     \<and> (f = 0 \<or> cfg_field sp (b, d, 0) 3 23 1 = 1))"

definition pci_entry :: "pci_space \<Rightarrow> nat \<times> nat \<times> nat \<Rightarrow> pci_device" where
  "pci_entry sp t =
     \<lparr>pd_bus = of_nat (fst t), pd_dev = of_nat (fst (snd t)), pd_func = of_nat (snd (snd t)),
      pd_vendor = of_nat (cfg_field sp t 0 0 16), pd_device_id = of_nat (cfg_field sp t 0 16 16),
      pd_revision = of_nat (cfg_field sp t 2 0 8), pd_prog_if = of_nat (cfg_field sp t 2 8 8),
      pd_sub_class = of_nat (cfg_field sp t 2 16 8), pd_base_class = of_nat (cfg_field sp t 2 24 8),
      pd_header_type = of_nat (cfg_field sp t 3 16 7),
      pd_bars = (if cfg_field sp t 3 16 7 = 0 then map (cfg_dword sp t) [4, 5, 6, 7, 8, 9] else replicate 6 0)\<rparr>"

definition pci_slots :: "(nat \<times> nat \<times> nat) list" where
  "pci_slots = List.product [0 ..< 256] (List.product [0 ..< 32] [0 ..< 8])"

lemma pci_offset: "k < 256 \<Longrightarrow> (ucast (of_nat k :: u8) :: u32) AND 0xFC = of_nat (k div 4 * 4)"
proof -
  have "list_all (\<lambda>k. (ucast (of_nat k :: u8) :: u32) AND 0xFC = of_nat (k div 4 * 4)) [0 ..< 256]" by code_simp
  then show "k < 256 \<Longrightarrow> ?thesis" by (simp add: list_all_iff)
qed

lemma ucast_of_nat: "n < 256 \<Longrightarrow> (ucast (of_nat n :: u8) :: u32) = of_nat n"
  by (simp add: unsigned_of_nat take_bit_nat_eq_self)

lemma pci_address:
  assumes "b < 256" "d < 32" "f < 8" "k < 256"
  shows "pci_make_address (of_nat b) (of_nat d) (of_nat f) (of_nat k) = of_nat (2 ^ 31 + b * 2 ^ 16 + d * 2 ^ 11 + f * 2 ^ 8 + 4 * (k div 4))"
proof -
  have e: "0x80000000 OR of_nat m = (of_nat (2 ^ 31 + m) :: u32)" if "m < 2 ^ 31" for m
    using push_or [OF that, of 1] by simp
  have o: "k div 4 * 4 < 2 ^ 8" using assms(4) by simp
  have f: "push_bit 8 (of_nat f) OR of_nat (k div 4 * 4) = (of_nat (f * 2 ^ 8 + k div 4 * 4) :: u32)" by (rule push_or [OF o])
  have d: "push_bit 11 (of_nat d) OR of_nat (f * 2 ^ 8 + k div 4 * 4) = (of_nat (d * 2 ^ 11 + (f * 2 ^ 8 + k div 4 * 4)) :: u32)"
    by (rule push_or) (use assms(3) o in simp)
  have b: "push_bit 16 (of_nat b) OR of_nat (d * 2 ^ 11 + (f * 2 ^ 8 + k div 4 * 4))
      = (of_nat (b * 2 ^ 16 + (d * 2 ^ 11 + (f * 2 ^ 8 + k div 4 * 4))) :: u32)"
    by (rule push_or) (use assms(2,3) o in simp)
  have u: "(ucast (of_nat b :: u8) :: u32) = of_nat b" "(ucast (of_nat d :: u8) :: u32) = of_nat d" "(ucast (of_nat f :: u8) :: u32) = of_nat f"
    by (rule ucast_of_nat, use assms in simp)+
  show ?thesis
    unfolding pci_make_address_def pci_offset [OF assms(4)] or.assoc u f d b
    by (subst e) (use assms(1-3) o in \<open>simp_all add: ac_simps del: of_nat_add of_nat_mult\<close>)
qed

lemma mask_mod: "(k :: nat) AND 3 = k mod 4"
  using take_bit_eq_mask [of 2 k] by (simp add: take_bit_eq_mod mask_eq_exp_minus_1)

lemma ucast_field: "ucast (drop_bit n (w :: u32)) = (of_nat (unat w div 2 ^ n mod 2 ^ LENGTH('a)) :: 'a :: len word)"
  by (rule bit_word_eqI) (simp add: bit_simps flip: drop_bit_eq_div take_bit_eq_mod)

lemma low_bits: "(of_nat (v mod 2 ^ 8) :: u8) AND 0x7F = of_nat (v mod 2 ^ 7)"
proof -
  have "(0x7F :: u8) = mask 7" by (simp add: mask_eq_exp_minus_1)
  moreover have "v mod 256 mod 128 = v mod 128" by (rule mod_mod_cancel) simp
  moreover have "(of_nat (v mod 256) :: u8) AND mask 7 = of_nat (v mod 256 mod 128)"
    unfolding take_bit_eq_mask [symmetric] take_bit_of_nat by (simp add: take_bit_eq_mod)
  ultimately show ?thesis by simp
qed

lemma cfg_reads:
  assumes "b < 256" "d < 32" "f < 8" "k < 256"
  shows "pci_config_read32 sp (of_nat b) (of_nat d) (of_nat f) (of_nat k) = cfg_dword sp (b, d, f) (k div 4)"
    "pci_config_read16 sp (of_nat b) (of_nat d) (of_nat f) (of_nat k) = of_nat (cfg_field sp (b, d, f) (k div 4) (8 * (k mod 4)) 16)"
    "pci_config_read8 sp (of_nat b) (of_nat d) (of_nat f) (of_nat k) = of_nat (cfg_field sp (b, d, f) (k div 4) (8 * (k mod 4)) 8)"
proof -
  show r: "pci_config_read32 sp (of_nat b) (of_nat d) (of_nat f) (of_nat k) = cfg_dword sp (b, d, f) (k div 4)"
    using pci_address [OF assms] by (simp only: pci_config_read32_def cfg_dword_def prod.case)
  have "unat ((of_nat k :: u8) AND 3) = k mod 4"
  proof -
    have "(3 :: u8) = mask 2" by (simp add: mask_eq_exp_minus_1)
    then show ?thesis using assms(4) by (simp add: unsigned_and_eq flip: take_bit_eq_mask) (simp add: unsigned_take_bit_eq unsigned_of_nat take_bit_eq_mod mask_mod)
  qed
  then show "pci_config_read16 sp (of_nat b) (of_nat d) (of_nat f) (of_nat k) = of_nat (cfg_field sp (b, d, f) (k div 4) (8 * (k mod 4)) 16)"
    "pci_config_read8 sp (of_nat b) (of_nat d) (of_nat f) (of_nat k) = of_nat (cfg_field sp (b, d, f) (k div 4) (8 * (k mod 4)) 8)"
    by (simp_all add: pci_config_read16_def pci_config_read8_def r cfg_field_def mult.commute ucast_field)
qed

lemma present_field:
  assumes "b < 256" "d < 32" "f < 8"
  shows "present sp b d f \<longleftrightarrow> cfg_field sp (b, d, f) 0 0 16 \<noteq> 65535"
proof -
  have "cfg_field sp (b, d, f) 0 0 16 < 65536" by (simp add: cfg_field_def)
  then have "(of_nat (cfg_field sp (b, d, f) 0 0 16) :: u16) = 65535 \<longleftrightarrow> cfg_field sp (b, d, f) 0 0 16 = 65535"
    by (simp add: word_unat_eq_iff unsigned_of_nat take_bit_nat_eq_self)
  then show ?thesis using cfg_reads(2) [OF assms, of 0 sp] by (simp add: present_def PCI_VENDOR_NONE_def)
qed

lemma div_mod_256: "odd (v mod 256 div 128) \<longleftrightarrow> v div 128 mod 2 = Suc 0" for v :: nat
proof -
  have "v mod (128 * 2) = 128 * (v div 128 mod 2) + v mod 128" by (rule mod_mult2_eq)
  then have "v mod 256 div 128 = v div 128 mod 2" by simp
  then show ?thesis by (simp add: odd_iff_mod_2_eq_one)
qed

lemma num_funcs_field:
  assumes "b < 256" "d < 32"
  shows "pci_num_funcs sp b d = (if cfg_field sp (b, d, 0) 3 23 1 = 1 then 8 else 1)"
proof -
  have m: "x AND 0x80 \<noteq> 0 \<longleftrightarrow> bit x 7" for x :: u8
    using bit_iff_and_push_bit_not_eq_0 [of x 7] by simp
  have x: "bit (of_nat (v mod 256) :: u8) 7 \<longleftrightarrow> v div 128 mod 2 = 1" for v :: nat
  proof -
    have "bit (of_nat (v mod 256) :: u8) 7 \<longleftrightarrow> odd (v mod 256 div 128)"
      by (simp add: bit_of_nat_iff bit_iff_odd [of "v mod 256 :: nat"])
    also have "\<dots> \<longleftrightarrow> v div 128 mod 2 = 1" by (simp add: div_mod_256)
    finally show ?thesis .
  qed
  have "bit (of_nat (cfg_field sp (b, d, 0) 3 16 8) :: u8) 7 \<longleftrightarrow> cfg_field sp (b, d, 0) 3 23 1 = 1"
    using x [of "unat (cfg_dword sp (b, d, 0) 3) div 65536"] by (simp add: cfg_field_def flip: div_mult2_eq)
  then show ?thesis using cfg_reads(3) [OF assms, of 0 14 sp] by (simp add: pci_num_funcs_def m)
qed

lemma describe_entry:
  assumes "b < 256" "d < 32" "f < 8"
  shows "describe3 sp (b, d, f) = pci_entry sp (b, d, f)"
proof -
  note r = cfg_reads [OF assms, of _ sp]
  have m: "(of_nat (cfg_field sp (b, d, f) 3 16 8) :: u8) AND 0x7F = of_nat (cfg_field sp (b, d, f) 3 16 7)"
    unfolding cfg_field_def by (rule low_bits)
  have h: "(of_nat (cfg_field sp (b, d, f) 3 16 7) :: u8) = 0 \<longleftrightarrow> cfg_field sp (b, d, f) 3 16 7 = 0"
  proof -
    have "cfg_field sp (b, d, f) 3 16 7 < 256" by (simp add: cfg_field_def less_trans [of _ 128])
    then show ?thesis by (simp add: word_unat_eq_iff unsigned_of_nat take_bit_nat_eq_self)
  qed
  have bars: "map (\<lambda>i. pci_config_read32 sp (of_nat b) (of_nat d) (of_nat f) (0x10 + of_nat i * 4)) [0 ..< 6]
      = map (cfg_dword sp (b, d, f)) [4, 5, 6, 7, 8, 9]"
    using r(1) [of 16] r(1) [of 20] r(1) [of 24] r(1) [of 28] r(1) [of 32] r(1) [of 36] by (simp add: upt_conv_Cons)
  show ?thesis
    unfolding describe3_def pci_describe_def prod.case Let_def bars
    using r(2) [of 0] r(2) [of 2] r(3) [of 8] r(3) [of 9] r(3) [of 10] r(3) [of 11] r(3) [of 14]
    by (simp add: pci_entry_def m h)
qed

lemma filter_slots:
  "filter P (List.product bs (List.product ds fs)) = concat (map (\<lambda>b. concat (map (\<lambda>d. filter P (map (\<lambda>f. (b, d, f)) fs)) ds)) bs)"
proof (induction bs)
  case (Cons b bs)
  have "filter P (map (Pair b) (List.product ds fs)) = concat (map (\<lambda>d. filter P (map (\<lambda>f. (b, d, f)) fs)) ds)"
    by (induction ds) (simp_all add: comp_def)
  then show ?case using Cons by simp
qed simp

lemma present_all_there: "present_all sp = filter (pci_there sp) pci_slots"
proof -
  have one: "present_funcs sp b d = filter (pci_there sp) (map (\<lambda>f. (b, d, f)) [0 ..< 8])" if "b < 256" "d < 32" for b d
  proof -
    have p: "filter (present sp b d) [0 ..< n] = filter (\<lambda>f. cfg_field sp (b, d, f) 0 0 16 \<noteq> 65535) [0 ..< n]" if "n \<le> 8" for n
      by (rule filter_cong) (use present_field [OF \<open>b < 256\<close> \<open>d < 32\<close>] that in auto)
    let ?multi = "cfg_field sp (b, d, 0) 3 23 1 = 1" and ?on = "\<lambda>f. cfg_field sp (b, d, f) 0 0 16 \<noteq> 65535"
    have F: "filter (pci_there sp) (map (\<lambda>f. (b, d, f)) fs) = map (\<lambda>f. (b, d, f)) (filter (\<lambda>f. ?on 0 \<and> ?on f \<and> (f = 0 \<or> ?multi)) fs)" for fs
      by (simp only: filter_map comp_def pci_there_def prod.case)
    have "[0 ..< 8] = 0 # [1 ..< 8 :: nat]" "filter (\<lambda>f. ?on 0 \<and> ?on f \<and> f = 0) [1 ..< 8 :: nat] = []"
      by (simp_all add: upt_conv_Cons filter_empty_conv del: upt_rec_numeral)
    then have "filter (\<lambda>f. ?on 0 \<and> ?on f \<and> f = 0) [0 ..< 8] = (if ?on 0 then [0] else [])" by (simp del: upt_rec_numeral)
    moreover have "filter ?on [0 ..< 1] = (if ?on 0 then [0] else [])" by simp
    ultimately show ?thesis
      unfolding F present_funcs_def num_funcs_field [OF that] present_field [OF that, of 0 sp, simplified]
      using p [of 8] p [of 1] by (cases ?multi; cases "?on 0"; simp del: upt_rec_numeral)
  qed
  have "present_all sp = concat (map (\<lambda>b. concat (map (\<lambda>d. filter (pci_there sp) (map (\<lambda>f. (b, d, f)) [0 ..< 8])) [0 ..< 32])) [0 ..< 256])"
    unfolding present_all_def using one by (intro arg_cong [where f = concat] map_cong) simp_all
  then show ?thesis unfolding pci_slots_def filter_slots .
qed

section \<open>Properties\<close>

text \<open>C38. The enumeration of the bus, from the registers of the configuration space alone: over all buses, devices and
  functions in their order, the table gets an entry for each function that is there, up to 256 entries, with its numbers, its
  identification, its class and, for a header of type 0, its six base address registers. A function above 0 is
  there only if function 0 of its device answers and has the multi-function bit.\<close>

theorem pci_init_complete: "pci_init sp = take 256 (map (pci_entry sp) (filter (pci_there sp) pci_slots))"
proof -
  have eq: "map (describe3 sp) (present_all sp) = map (pci_entry sp) (present_all sp)"
    unfolding present_all_there by (rule map_cong) (auto simp: pci_slots_def describe_entry simp del: upt_rec_numeral)
  have "pci_init sp = take PCI_MAX_DEVICES (map (describe3 sp) (present_all sp))"
    using pci_scan_buses_take [of "[]" sp "[]" "[0 ..< 256]"]
    by (simp add: pci_init_def present_all_def [symmetric] del: upt_conv_Cons upt_rec_numeral)
  then show ?thesis unfolding eq by (simp only: present_all_there PCI_MAX_DEVICES_def)
qed

end
