(* ===== verification/Virtqueue.thy ===== *)
theory Virtqueue
  imports Pmm Pci
begin

text \<open>
  The virtio transport, \<^verbatim>\<open>kernel/drivers/virtio/virtio.c\<close>: discovery of the capability regions,
  feature negotiation, and split virtqueues.

  The device is a parameter of type \<open>mmio_dev\<close>: what it answers to a read of the common
  configuration, given every access made so far. Each access is recorded, newest first, in the
  field \<open>vd_log\<close>, and so are the calls of \<^verbatim>\<open>paging_map_physical\<close> and the notifications. The
  three ring pages of a queue are lists of the length that fits a 4096-byte page; an access past
  the page is \<open>None\<close>, and so is a division by a queue size of 0.

  The lemmas follow the chain of unused descriptors through every operation. The descriptors of a
  queue are a \<open>resource_pool\<close>.
\<close>

section \<open>State\<close>

datatype mmio_event =
    W8 nat u8 | W16 nat u16 | W32 nat u32
  | R8 nat | R16 nat | R32 nat
  | Map_region u64 u32
  | Notify u64

type_synonym mmio_dev = "mmio_event list \<Rightarrow> u32"

record virtq_desc =
  qd_addr :: u64
  qd_len :: u32
  qd_flags :: u16
  qd_next :: u16

record virtio_vq =
  vq_size :: u16
  vq_free_head :: u16
  vq_free_count :: u16
  vq_avail_idx :: u16
  vq_used_idx :: u16
  vq_desc :: "virtq_desc list"
  vq_avail_flags :: u16
  vq_avail_hw_idx :: u16
  vq_avail_ring :: "u16 list"
  vq_used_flags :: u16
  vq_used_hw_idx :: u16
  vq_used_ring :: "(u32 \<times> u32) list"
  vq_desc_phys :: u64
  vq_avail_phys :: u64
  vq_used_phys :: u64
  vq_notify_addr :: u64

record virtio_device =
  vd_hhdm :: u64
  vd_bus :: u8
  vd_dev :: u8
  vd_func :: u8
  vd_common :: u64
  vd_notify :: u64
  vd_isr :: u64
  vd_device_cfg :: u64
  vd_notify_mult :: u32
  vd_device_features_lo :: u32
  vd_device_features_hi :: u32
  vd_driver_features_lo :: u32
  vd_driver_features_hi :: u32
  vd_vq :: "virtio_vq list"
  vd_log :: "mmio_event list"

definition VIRTIO_MAX_QUEUES :: nat where "VIRTIO_MAX_QUEUES = 4"
definition VIRTIO_MAX_QUEUE_SIZE :: u16 where "VIRTIO_MAX_QUEUE_SIZE = 256"
definition VIRTQ_DESC_F_WRITE :: u16 where "VIRTQ_DESC_F_WRITE = 2"

section \<open>Registers\<close>

definition mmio_write8 :: "nat \<Rightarrow> u8 \<Rightarrow> virtio_device \<Rightarrow> virtio_device" where
  "mmio_write8 off v d = d\<lparr>vd_log := W8 off v # vd_log d\<rparr>"

definition mmio_write16 :: "nat \<Rightarrow> u16 \<Rightarrow> virtio_device \<Rightarrow> virtio_device" where
  "mmio_write16 off v d = d\<lparr>vd_log := W16 off v # vd_log d\<rparr>"

definition mmio_write32 :: "nat \<Rightarrow> u32 \<Rightarrow> virtio_device \<Rightarrow> virtio_device" where
  "mmio_write32 off v d = d\<lparr>vd_log := W32 off v # vd_log d\<rparr>"

definition mmio_read8 :: "mmio_dev \<Rightarrow> nat \<Rightarrow> virtio_device \<Rightarrow> u8 \<times> virtio_device" where
  "mmio_read8 hw off d = (ucast (hw (R8 off # vd_log d)), d\<lparr>vd_log := R8 off # vd_log d\<rparr>)"

definition mmio_read16 :: "mmio_dev \<Rightarrow> nat \<Rightarrow> virtio_device \<Rightarrow> u16 \<times> virtio_device" where
  "mmio_read16 hw off d = (ucast (hw (R16 off # vd_log d)), d\<lparr>vd_log := R16 off # vd_log d\<rparr>)"

definition mmio_read32 :: "mmio_dev \<Rightarrow> nat \<Rightarrow> virtio_device \<Rightarrow> u32 \<times> virtio_device" where
  "mmio_read32 hw off d = (hw (R32 off # vd_log d), d\<lparr>vd_log := R32 off # vd_log d\<rparr>)"

section \<open>Discovery and negotiation\<close>

definition virtio_bar_base :: "pci_device \<Rightarrow> u8 \<Rightarrow> u64 option" where
  "virtio_bar_base p bar =
     (if bar \<ge> 6 then None
      else (let lo = pd_bars p ! unat bar in
        if lo AND 1 \<noteq> 0 then None
        else if lo AND 4 \<noteq> 0 then
          (if unat bar + 1 \<ge> 6 then None
           else Some (push_bit 32 (ucast (pd_bars p ! (unat bar + 1))) OR ucast (lo AND 0xFFFFFFF0)))
        else Some (ucast (lo AND 0xFFFFFFF0))))"

text \<open>
  The body of the loop over the capabilities. The first component says whether the loop goes on;
  \<open>False\<close> is the \<^verbatim>\<open>return -1\<close> for a region that is too small.
\<close>

definition virtio_cap :: "pci_space \<Rightarrow> pci_device \<Rightarrow> u8 \<Rightarrow> virtio_device \<Rightarrow> bool \<times> virtio_device" where
  "virtio_cap sp p off d =
     (let rd8 = pci_config_read8 sp (pd_bus p) (pd_dev p) (pd_func p);
          rd32 = pci_config_read32 sp (pd_bus p) (pd_dev p) (pd_func p)
      in if rd8 off \<noteq> 0x09 then (True, d)
         else (let cfg_type = rd8 (off + 3);
                   cap_off = rd32 (off + 8);
                   cap_len = rd32 (off + 12)
               in case virtio_bar_base p (rd8 (off + 4)) of
                    None \<Rightarrow> (True, d)
                  | Some bar_base \<Rightarrow>
                      (let d1 = d\<lparr>vd_log := Map_region (bar_base + ucast cap_off) cap_len # vd_log d\<rparr>;
                           vaddr = vd_hhdm d + bar_base + ucast cap_off
                       in if cfg_type = 1 then
                            (if cap_len < 0x24 then (False, d1) else (True, d1\<lparr>vd_common := vaddr\<rparr>))
                          else if cfg_type = 2 then
                            (if cap_len < 0x14 then (False, d1)
                             else (True, d1\<lparr>vd_notify := vaddr, vd_notify_mult := rd32 (off + 16)\<rparr>))
                          else if cfg_type = 3 then
                            (if cap_len < 1 then (False, d1) else (True, d1\<lparr>vd_isr := vaddr\<rparr>))
                          else if cfg_type = 4 then
                            (if cap_len < 8 then (False, d1)
                             else (True, d1\<lparr>vd_device_cfg := vaddr\<rparr>))
                          else (True, d1))))"

text \<open>The loop itself has no bound of its own: \<open>None\<close> is a walk that does not end.\<close>

partial_function (option) virtio_walk ::
    "pci_space \<Rightarrow> pci_device \<Rightarrow> u8 \<Rightarrow> virtio_device \<Rightarrow> (bool \<times> virtio_device) option" where
  "virtio_walk sp p off d =
     (if off = 0 then Some (True, d)
      else (case virtio_cap sp p off d of
          (ok, d1) \<Rightarrow>
            if ok then virtio_walk sp p (pci_cap_next sp (pd_bus p) (pd_dev p) (pd_func p) off) d1
            else Some (False, d1)))"

definition virtio_device_failed :: "mmio_dev \<Rightarrow> virtio_device \<Rightarrow> virtio_device" where
  "virtio_device_failed hw d =
     (let (status, d1) = mmio_read8 hw 0x14 d in mmio_write8 0x14 (status OR 0x80) d1)"

text \<open>Reset, ACKNOWLEDGE and DRIVER, and the exchange of the feature words.\<close>

definition virtio_handshake :: "mmio_dev \<Rightarrow> virtio_device \<Rightarrow> bool \<times> virtio_device" where
  "virtio_handshake hw d =
     (let d = mmio_write8 0x14 0 d;
          d = snd (mmio_read8 hw 0x14 d);
          d = mmio_write8 0x14 0x01 d;
          d = mmio_write8 0x14 (0x01 OR 0x02) d;
          d = mmio_write32 0x00 0 d;
          (lo, d) = mmio_read32 hw 0x04 d;
          d = d\<lparr>vd_device_features_lo := lo\<rparr>;
          d = mmio_write32 0x00 1 d;
          (hi, d) = mmio_read32 hw 0x04 d;
          d = d\<lparr>vd_device_features_hi := hi\<rparr>;
          d = mmio_write32 0x00 0 d
      in if hi AND 1 = 0 then (False, virtio_device_failed hw d)
         else (let d = d\<lparr>vd_driver_features_lo := 0, vd_driver_features_hi := 1\<rparr>;
                   d = mmio_write32 0x08 0 d;
                   d = mmio_write32 0x0C (vd_driver_features_lo d) d;
                   d = mmio_write32 0x08 1 d;
                   d = mmio_write32 0x0C (vd_driver_features_hi d) d
               in (True, mmio_write32 0x08 0 d)))"

definition virtio_device_init ::
    "pci_space \<Rightarrow> mmio_dev \<Rightarrow> pci_device \<Rightarrow> u64 \<Rightarrow> virtio_device \<Rightarrow> (bool \<times> virtio_device) option" where
  "virtio_device_init sp hw p hhdm d =
     do { (ok, d1) \<leftarrow> virtio_walk sp p (pci_cap_first sp (pd_bus p) (pd_dev p) (pd_func p))
            (d\<lparr>vd_hhdm := hhdm, vd_bus := pd_bus p, vd_dev := pd_dev p, vd_func := pd_func p,
               vd_notify_mult := 1\<rparr>);
          Some (if \<not> ok then (False, d1)
                else if vd_common d1 = 0 \<or> vd_notify d1 = 0 \<or> vd_isr d1 = 0 then (False, d1)
                else virtio_handshake hw d1) }"

definition virtio_device_set_feature :: "u32 \<Rightarrow> virtio_device \<Rightarrow> virtio_device" where
  "virtio_device_set_feature b d =
     (let word = b div 32;
          m = push_bit (unat (b mod 32)) 1;
          d1 = (if word = 0 then d\<lparr>vd_driver_features_lo := vd_driver_features_lo d OR m\<rparr>
                else d\<lparr>vd_driver_features_hi := vd_driver_features_hi d OR m\<rparr>);
          v = (if word = 0 then vd_driver_features_lo d1 else vd_driver_features_hi d1)
      in mmio_write32 0x08 0 (mmio_write32 0x0C v (mmio_write32 0x08 word d1)))"

definition virtio_device_finish_features :: "mmio_dev \<Rightarrow> virtio_device \<Rightarrow> bool \<times> virtio_device" where
  "virtio_device_finish_features hw d =
     (let d = mmio_write8 0x14 (0x01 OR 0x02 OR 0x08) d;
          (status, d) = mmio_read8 hw 0x14 d
      in if status AND 0x08 = 0 then (False, virtio_device_failed hw d) else (True, d))"

definition virtio_device_set_driver_ok :: "mmio_dev \<Rightarrow> virtio_device \<Rightarrow> virtio_device" where
  "virtio_device_set_driver_ok hw d =
     (let (status, d1) = mmio_read8 hw 0x14 d in mmio_write8 0x14 (status OR 0x04) d1)"

definition virtio_queue_size :: "mmio_dev \<Rightarrow> u16 \<Rightarrow> virtio_device \<Rightarrow> u16 \<times> virtio_device" where
  "virtio_queue_size hw q d = mmio_read16 hw 0x18 (mmio_write16 0x16 q d)"

section \<open>Queue setup\<close>

text \<open>
  A page fresh from the allocator holds whatever it held before; what it holds when read as each
  of the three ring structures is the record \<open>page_view\<close>, by physical address.
\<close>

record page_view =
  pv_desc :: "u64 \<Rightarrow> virtq_desc list"
  pv_avail :: "u64 \<Rightarrow> u16 list"
  pv_used :: "u64 \<Rightarrow> (u32 \<times> u32) list"

text \<open>
  The loop that links every descriptor into the free pool, and the last link. With
  \<^verbatim>\<open>queue_size \<le> 256\<close> the descriptors fill at most one page.
\<close>

fun link_descs :: "nat list \<Rightarrow> virtq_desc list \<Rightarrow> virtq_desc list option" where
  "link_descs [] ds = Some ds"
| "link_descs (i # is) ds =
     do { q \<leftarrow> rd ds i; ds' \<leftarrow> wr ds i (q\<lparr>qd_next := of_nat i + 1\<rparr>); link_descs is ds' }"

definition init_descs :: "nat \<Rightarrow> virtq_desc list \<Rightarrow> virtq_desc list option" where
  "init_descs n ds =
     do { ds1 \<leftarrow> link_descs [0 ..< n] ds; q \<leftarrow> rd ds1 (n - 1); wr ds1 (n - 1) (q\<lparr>qd_next := 0\<rparr>) }"

text \<open>The three page allocations, all given back when one of them fails.\<close>

definition vq_free_opt :: "u64 \<Rightarrow> pmm \<Rightarrow> pmm option" where
  "vq_free_opt pa s = (if pa \<noteq> 0 then pmm_free_page pa s else Some s)"

definition vq_alloc_pages :: "pmm \<Rightarrow> ((u64 \<times> u64 \<times> u64) option \<times> pmm) option" where
  "vq_alloc_pages s =
     do { (a, s1) \<leftarrow> pmm_alloc_page s;
          (b, s2) \<leftarrow> pmm_alloc_page s1;
          (c, s3) \<leftarrow> pmm_alloc_page s2;
          if a = 0 \<or> b = 0 \<or> c = 0 then
            do { s4 \<leftarrow> vq_free_opt a s3; s5 \<leftarrow> vq_free_opt b s4; s6 \<leftarrow> vq_free_opt c s5;
                 Some (None, s6) }
          else Some (Some (a, b, c), s3) }"

text \<open>Programming the device, from the queue selection to the size it accepted.\<close>

definition vq_program :: "mmio_dev \<Rightarrow> u16 \<Rightarrow> virtio_vq \<Rightarrow> virtio_device \<Rightarrow> virtio_vq \<times> virtio_device" where
  "vq_program hw qidx vq d =
     (let d = mmio_write16 0x16 qidx d;
          d = mmio_write16 0x18 (vq_size vq) d;
          d = mmio_write32 0x20 (ucast (vq_desc_phys vq)) d;
          d = mmio_write32 0x24 (ucast (drop_bit 32 (vq_desc_phys vq))) d;
          d = mmio_write32 0x28 (ucast (vq_avail_phys vq)) d;
          d = mmio_write32 0x2C (ucast (drop_bit 32 (vq_avail_phys vq))) d;
          d = mmio_write32 0x30 (ucast (vq_used_phys vq)) d;
          d = mmio_write32 0x34 (ucast (drop_bit 32 (vq_used_phys vq))) d;
          (notify_off, d) = mmio_read16 hw 0x1E d;
          vq = vq\<lparr>vq_notify_addr := vd_notify d + ucast notify_off * ucast (vd_notify_mult d)\<rparr>;
          d = mmio_write16 0x1C 1 d;
          (accepted, d) = mmio_read16 hw 0x18 d
      in (if accepted < vq_size vq then vq\<lparr>vq_size := accepted\<rparr> else vq, d))"

definition virtio_queue_init ::
    "page_view \<Rightarrow> mmio_dev \<Rightarrow> nat \<Rightarrow> u16 \<Rightarrow> virtio_device \<Rightarrow> pmm \<Rightarrow> (bool \<times> virtio_device \<times> pmm) option" where
  "virtio_queue_init pv hw qidx sz d s =
     (if qidx \<ge> VIRTIO_MAX_QUEUES \<or> sz < 2 then Some (False, d, s)
      else (let n = (if sz > VIRTIO_MAX_QUEUE_SIZE then VIRTIO_MAX_QUEUE_SIZE else sz) in
        do { (pages, s') \<leftarrow> vq_alloc_pages s;
             case pages of
               None \<Rightarrow>
                 Some (False,
                   d\<lparr>vd_vq := (vd_vq d)[qidx := (vd_vq d ! qidx)
                       \<lparr>vq_desc_phys := 0, vq_avail_phys := 0, vq_used_phys := 0\<rparr>]\<rparr>, s')
             | Some (a, b, c) \<Rightarrow>
                 do { descs \<leftarrow> init_descs (unat n) (pv_desc pv a);
                      (let (vq, d') = vq_program hw (of_nat qidx)
                             \<lparr>vq_size = n, vq_free_head = 0, vq_free_count = n, vq_avail_idx = 0,
                              vq_used_idx = 0, vq_desc = descs, vq_avail_flags = 0,
                              vq_avail_hw_idx = 0, vq_avail_ring = pv_avail pv b,
                              vq_used_flags = 0, vq_used_hw_idx = 0, vq_used_ring = pv_used pv c,
                              vq_desc_phys = a, vq_avail_phys = b, vq_used_phys = c,
                              vq_notify_addr = 0\<rparr> d
                       in Some (True, d'\<lparr>vd_vq := (vd_vq d')[qidx := vq]\<rparr>, s')) } }))"

section \<open>Descriptors\<close>

text \<open>One queue of the device, updated in place.\<close>

definition set_vq :: "nat \<Rightarrow> virtio_vq \<Rightarrow> virtio_device \<Rightarrow> virtio_device" where
  "set_vq q vq d = d\<lparr>vd_vq := (vd_vq d)[q := vq]\<rparr>"

definition virtio_queue_alloc_desc :: "nat \<Rightarrow> virtio_device \<Rightarrow> (u16 option \<times> virtio_device) option" where
  "virtio_queue_alloc_desc q d =
     (if q \<ge> VIRTIO_MAX_QUEUES then Some (None, d)
      else do { vq \<leftarrow> rd (vd_vq d) q;
        if vq_free_count vq = 0 then Some (None, d)
        else do { ds \<leftarrow> rd (vq_desc vq) (unat (vq_free_head vq));
          Some (Some (vq_free_head vq),
                set_vq q (vq\<lparr>vq_free_head := qd_next ds, vq_free_count := vq_free_count vq - 1\<rparr>) d) } })"

definition virtio_queue_desc_fill ::
    "nat \<Rightarrow> u16 \<Rightarrow> u64 \<Rightarrow> u32 \<Rightarrow> bool \<Rightarrow> virtio_device \<Rightarrow> virtio_device option" where
  "virtio_queue_desc_fill q desc_id phys len device_writes d =
     (if q \<ge> VIRTIO_MAX_QUEUES then Some d
      else do { vq \<leftarrow> rd (vd_vq d) q;
        if desc_id \<ge> vq_size vq then Some d
        else do { ds \<leftarrow> wr (vq_desc vq) (unat desc_id)
                    \<lparr>qd_addr = phys, qd_len = len,
                     qd_flags = (if device_writes then VIRTQ_DESC_F_WRITE else 0), qd_next = 0\<rparr>;
          Some (set_vq q (vq\<lparr>vq_desc := ds\<rparr>) d) } })"

text \<open>\<^verbatim>\<open>virtio_queue_submit\<close>; \<^verbatim>\<open>virtio_queue_recycle\<close> has the same body.\<close>

definition vq_publish :: "u16 \<Rightarrow> virtio_vq \<Rightarrow> virtio_vq option" where
  "vq_publish desc_id vq =
     (if vq_size vq = 0 then None
      else do { ring \<leftarrow> wr (vq_avail_ring vq) (unat (vq_avail_idx vq mod vq_size vq)) desc_id;
                Some (vq\<lparr>vq_avail_ring := ring, vq_avail_idx := vq_avail_idx vq + 1,
                         vq_avail_hw_idx := vq_avail_idx vq + 1\<rparr>) })"

definition virtio_queue_submit :: "nat \<Rightarrow> u16 \<Rightarrow> virtio_device \<Rightarrow> virtio_device option" where
  "virtio_queue_submit q desc_id d =
     (if q \<ge> VIRTIO_MAX_QUEUES then Some d
      else do { vq \<leftarrow> rd (vd_vq d) q;
        if desc_id \<ge> vq_size vq then Some d
        else do { vq' \<leftarrow> vq_publish desc_id vq; Some (set_vq q vq' d) } })"

definition virtio_queue_recycle :: "nat \<Rightarrow> u16 \<Rightarrow> virtio_device \<Rightarrow> virtio_device option" where
  "virtio_queue_recycle q desc_id d =
     (if q \<ge> VIRTIO_MAX_QUEUES then Some d
      else do { vq \<leftarrow> rd (vd_vq d) q;
        if desc_id \<ge> vq_size vq then Some d
        else do { vq' \<leftarrow> vq_publish desc_id vq; Some (set_vq q vq' d) } })"

definition virtio_queue_free_desc :: "nat \<Rightarrow> u16 \<Rightarrow> virtio_device \<Rightarrow> virtio_device option" where
  "virtio_queue_free_desc q desc_id d =
     (if q \<ge> VIRTIO_MAX_QUEUES then Some d
      else do { vq \<leftarrow> rd (vd_vq d) q;
        if desc_id \<ge> vq_size vq then Some d
        else do { e \<leftarrow> rd (vq_desc vq) (unat desc_id);
          ds \<leftarrow> wr (vq_desc vq) (unat desc_id) (e\<lparr>qd_next := vq_free_head vq\<rparr>);
          Some (set_vq q (vq\<lparr>vq_desc := ds, vq_free_head := desc_id,
                             vq_free_count := vq_free_count vq + 1\<rparr>) d) } })"

definition virtio_queue_add_buffer_id ::
    "nat \<Rightarrow> u64 \<Rightarrow> u32 \<Rightarrow> bool \<Rightarrow> virtio_device \<Rightarrow> (u16 option \<times> virtio_device) option" where
  "virtio_queue_add_buffer_id q phys len device_writes d =
     do { (r, d1) \<leftarrow> virtio_queue_alloc_desc q d;
          case r of
            None \<Rightarrow> Some (None, d1)
          | Some out_id \<Rightarrow>
              do { d2 \<leftarrow> virtio_queue_desc_fill q out_id phys len device_writes d1;
                   d3 \<leftarrow> virtio_queue_submit q out_id d2;
                   Some (Some out_id, d3) } }"

definition virtio_queue_pop_used :: "nat \<Rightarrow> virtio_device \<Rightarrow> ((u16 \<times> u32) option \<times> virtio_device) option" where
  "virtio_queue_pop_used q d =
     (if q \<ge> VIRTIO_MAX_QUEUES then Some (None, d)
      else do { vq \<leftarrow> rd (vd_vq d) q;
        if vq_used_idx vq = vq_used_hw_idx vq then Some (None, d)
        else if vq_size vq = 0 then None
        else do { (i, len) \<leftarrow> rd (vq_used_ring vq) (unat (vq_used_idx vq mod vq_size vq));
          Some (Some (ucast i, len), set_vq q (vq\<lparr>vq_used_idx := vq_used_idx vq + 1\<rparr>) d) } })"

definition virtio_queue_kick :: "nat \<Rightarrow> virtio_device \<Rightarrow> virtio_device option" where
  "virtio_queue_kick q d =
     (if q \<ge> VIRTIO_MAX_QUEUES then Some d
      else do { vq \<leftarrow> rd (vd_vq d) q; Some (d\<lparr>vd_log := Notify (vq_notify_addr vq) # vd_log d\<rparr>) })"

section \<open>The chain of unused descriptors\<close>

fun chain :: "virtq_desc list \<Rightarrow> u16 \<Rightarrow> nat \<Rightarrow> u16 list" where
  "chain ds h 0 = []"
| "chain ds h (Suc n) = h # chain ds (qd_next (ds ! unat h)) n"

definition vq_free :: "virtio_vq \<Rightarrow> u16 list" where
  "vq_free vq = chain (vq_desc vq) (vq_free_head vq) (unat (vq_free_count vq))"

text \<open>
  A queue in order: at most 256 descriptors, rings of one page, and a chain of unused
  descriptors without repetition inside the queue.
\<close>

definition vq_inv :: "virtio_vq \<Rightarrow> bool" where
  "vq_inv vq \<longleftrightarrow>
     0 < vq_size vq \<and> unat (vq_size vq) \<le> 256 \<and> length (vq_desc vq) = 256
   \<and> length (vq_avail_ring vq) = 2046 \<and> length (vq_used_ring vq) = 511
   \<and> distinct (vq_free vq) \<and> (\<forall>i \<in> set (vq_free vq). i < vq_size vq)"

definition vq_ok :: "nat \<Rightarrow> virtio_device \<Rightarrow> bool" where
  "vq_ok q d \<longleftrightarrow> q < VIRTIO_MAX_QUEUES \<and> q < length (vd_vq d) \<and> vq_inv (vd_vq d ! q)"

lemma length_chain [simp]: "length (chain ds h n) = n"
  by (induction ds h n rule: chain.induct) auto

lemma chain_cong:
  "(\<And>i. i \<in> set (chain ds h n) \<Longrightarrow> qd_next (ds' ! unat i) = qd_next (ds ! unat i)) \<Longrightarrow>
   chain ds' h n = chain ds h n"
  by (induction ds h n rule: chain.induct) auto

lemma chain_update:
  assumes "i \<notin> set (chain ds h n)"
  shows "chain (ds[unat i := x]) h n = chain ds h n"
proof (rule chain_cong)
  fix j assume "j \<in> set (chain ds h n)"
  then have "unat i \<noteq> unat j" using assms by (metis word_unat_eq_iff)
  then show "qd_next (ds[unat i := x] ! unat j) = qd_next (ds ! unat j)" by simp
qed

lemma vq_free_count_card: "vq_inv vq \<Longrightarrow> unat (vq_free_count vq) = card (set (vq_free vq))"
  by (simp add: vq_inv_def vq_free_def distinct_card)

lemma vq_free_count_le: "vq_inv vq \<Longrightarrow> unat (vq_free_count vq) \<le> unat (vq_size vq)"
proof -
  assume inv: "vq_inv vq"
  have "unat ` set (vq_free vq) \<subseteq> {..< unat (vq_size vq)}"
    using inv by (auto simp: vq_inv_def word_less_nat_alt)
  then have "card (unat ` set (vq_free vq)) \<le> unat (vq_size vq)"
    using card_mono [of "{..< unat (vq_size vq)}"] by fastforce
  moreover have "card (unat ` set (vq_free vq)) = card (set (vq_free vq))"
    by (rule card_image) (simp add: inj_on_def word_unat_eq_iff)
  ultimately show ?thesis using vq_free_count_card [OF inv] by simp
qed

lemma vq_free_Nil: "vq_free vq = [] \<longleftrightarrow> vq_free_count vq = 0"
  by (metis length_0_conv length_chain unat_eq_zero vq_free_def)

lemma vq_free_Cons:
  assumes "vq_free_count vq \<noteq> 0"
  shows "vq_free vq = vq_free_head vq # chain (vq_desc vq) (qd_next (vq_desc vq ! unat (vq_free_head vq)))
    (unat (vq_free_count vq - 1))"
proof -
  have "unat (vq_free_count vq) = Suc (unat (vq_free_count vq - 1))"
    using assms by (simp add: unat_minus_one unat_gt_0)
  then show ?thesis by (simp add: vq_free_def)
qed

lemma alloc_desc_some:
  assumes ok: "vq_ok q d" and ne: "vq_free (vd_vq d ! q) = i # rest"
  shows "\<exists>d'. virtio_queue_alloc_desc q d = Some (Some i, d') \<and> vq_ok q d'
    \<and> vq_free (vd_vq d' ! q) = rest \<and> vq_size (vd_vq d' ! q) = vq_size (vd_vq d ! q)
    \<and> vq_desc (vd_vq d' ! q) = vq_desc (vd_vq d ! q)
    \<and> vq_avail_ring (vd_vq d' ! q) = vq_avail_ring (vd_vq d ! q)
    \<and> vq_avail_idx (vd_vq d' ! q) = vq_avail_idx (vd_vq d ! q)
    \<and> vd_log d' = vd_log d \<and> length (vd_vq d') = length (vd_vq d)
    \<and> vq_used_idx (vd_vq d' ! q) = vq_used_idx (vd_vq d ! q)"
proof -
  let ?vq = "vd_vq d ! q"
  have inv: "vq_inv ?vq" and q: "q < VIRTIO_MAX_QUEUES" "q < length (vd_vq d)"
    using ok by (simp_all add: vq_ok_def)
  have nz: "vq_free_count ?vq \<noteq> 0" using ne vq_free_Nil [of ?vq] by auto
  note c = vq_free_Cons [OF nz]
  have i: "i = vq_free_head ?vq"
    and rest: "rest = chain (vq_desc ?vq) (qd_next (vq_desc ?vq ! unat i)) (unat (vq_free_count ?vq - 1))"
    using c ne by simp_all
  let ?vq' = "?vq\<lparr>vq_free_head := qd_next (vq_desc ?vq ! unat i), vq_free_count := vq_free_count ?vq - 1\<rparr>"
  have fr: "vq_free ?vq' = rest" by (simp add: vq_free_def rest)
  have "unat i < length (vq_desc ?vq)"
    using inv ne by (auto simp: vq_inv_def word_less_nat_alt)
  then have run: "virtio_queue_alloc_desc q d = Some (Some i, set_vq q ?vq' d)"
    using q nz by (simp add: virtio_queue_alloc_desc_def rd_Some i)
  have "vq_inv ?vq'" using inv ne fr by (simp add: vq_inv_def)
  then show ?thesis using run fr q by (simp add: vq_ok_def set_vq_def)
qed

lemma alloc_desc_none:
  "vq_ok q d \<Longrightarrow> vq_free (vd_vq d ! q) = [] \<Longrightarrow> virtio_queue_alloc_desc q d = Some (None, d)"
  by (simp add: vq_ok_def virtio_queue_alloc_desc_def rd_Some vq_free_Nil)

lemma desc_fill_some:
  assumes ok: "vq_ok q d" and i: "i < vq_size (vd_vq d ! q)" "i \<notin> set (vq_free (vd_vq d ! q))"
  shows "\<exists>d'. virtio_queue_desc_fill q i phys len w d = Some d' \<and> vq_ok q d'
    \<and> vd_vq d' ! q = (vd_vq d ! q)\<lparr>vq_desc := (vq_desc (vd_vq d ! q))[unat i :=
        \<lparr>qd_addr = phys, qd_len = len, qd_flags = (if w then VIRTQ_DESC_F_WRITE else 0), qd_next = 0\<rparr>]\<rparr>
    \<and> vq_free (vd_vq d' ! q) = vq_free (vd_vq d ! q) \<and> vd_log d' = vd_log d
    \<and> length (vd_vq d') = length (vd_vq d)"
proof -
  let ?vq = "vd_vq d ! q"
  let ?e = "\<lparr>qd_addr = phys, qd_len = len, qd_flags = (if w then VIRTQ_DESC_F_WRITE else 0), qd_next = 0\<rparr>"
  let ?vq' = "?vq\<lparr>vq_desc := (vq_desc ?vq)[unat i := ?e]\<rparr>"
  have inv: "vq_inv ?vq" and q: "q < VIRTIO_MAX_QUEUES" "q < length (vd_vq d)"
    using ok by (simp_all add: vq_ok_def)
  have "unat i < 256" using inv i(1) by (auto simp: vq_inv_def word_less_nat_alt)
  then have run: "virtio_queue_desc_fill q i phys len w d = Some (set_vq q ?vq' d)"
    using inv q i(1) by (simp add: virtio_queue_desc_fill_def rd_Some wr_Some vq_inv_def not_le)
  have fr: "vq_free ?vq' = vq_free ?vq"
    using chain_update i(2) by (simp add: vq_free_def)
  have "vq_inv ?vq'" using inv fr by (simp add: vq_inv_def)
  then show ?thesis using run fr q by (simp add: vq_ok_def set_vq_def)
qed

lemma vq_publish_some:
  assumes inv: "vq_inv vq"
  shows "\<exists>ring. vq_publish i vq = Some (vq\<lparr>vq_avail_ring := ring, vq_avail_idx := vq_avail_idx vq + 1,
      vq_avail_hw_idx := vq_avail_idx vq + 1\<rparr>)
    \<and> ring = (vq_avail_ring vq)[unat (vq_avail_idx vq mod vq_size vq) := i]
    \<and> unat (vq_avail_idx vq mod vq_size vq) < unat (vq_size vq)"
proof -
  have "0 < unat (vq_size vq)" using inv by (simp add: vq_inv_def word_less_nat_alt)
  then have lt: "unat (vq_avail_idx vq mod vq_size vq) < unat (vq_size vq)"
    by (simp add: unat_mod_distrib)
  then have "unat (vq_avail_idx vq mod vq_size vq) < 2046" using inv by (simp add: vq_inv_def)
  then show ?thesis using inv lt by (auto simp: vq_publish_def vq_inv_def wr_Some)
qed

lemma submit_some:
  assumes ok: "vq_ok q d" and i: "i < vq_size (vd_vq d ! q)"
  shows "\<exists>d'. virtio_queue_submit q i d = Some d' \<and> vq_ok q d'
    \<and> vd_vq d' ! q = (vd_vq d ! q)
        \<lparr>vq_avail_ring := (vq_avail_ring (vd_vq d ! q))
           [unat (vq_avail_idx (vd_vq d ! q) mod vq_size (vd_vq d ! q)) := i],
         vq_avail_idx := vq_avail_idx (vd_vq d ! q) + 1,
         vq_avail_hw_idx := vq_avail_idx (vd_vq d ! q) + 1\<rparr>
    \<and> vq_free (vd_vq d' ! q) = vq_free (vd_vq d ! q) \<and> vd_log d' = vd_log d
    \<and> length (vd_vq d') = length (vd_vq d)
    \<and> unat (vq_avail_idx (vd_vq d ! q) mod vq_size (vd_vq d ! q)) < unat (vq_size (vd_vq d ! q))"
proof -
  let ?vq = "vd_vq d ! q"
  have inv: "vq_inv ?vq" and q: "q < VIRTIO_MAX_QUEUES" "q < length (vd_vq d)"
    using ok by (simp_all add: vq_ok_def)
  obtain vq' where p: "vq_publish i ?vq = Some vq'"
    and vq': "vq' = ?vq\<lparr>vq_avail_ring := (vq_avail_ring ?vq)[unat (vq_avail_idx ?vq mod vq_size ?vq) := i],
         vq_avail_idx := vq_avail_idx ?vq + 1, vq_avail_hw_idx := vq_avail_idx ?vq + 1\<rparr>"
    and lt: "unat (vq_avail_idx ?vq mod vq_size ?vq) < unat (vq_size ?vq)"
    using vq_publish_some [OF inv, of i] by auto
  have fr: "vq_free vq' = vq_free ?vq" by (simp add: vq' vq_free_def)
  have "vq_inv vq'" using inv fr by (simp add: vq_inv_def) (simp add: vq')
  moreover have "virtio_queue_submit q i d = Some (set_vq q vq' d)"
    using p q i by (simp add: virtio_queue_submit_def rd_Some not_le)
  ultimately show ?thesis using fr q lt by (simp add: vq_ok_def set_vq_def vq')
qed

lemma vq_slot_less: "vq_inv vq \<Longrightarrow> unat (vq_avail_idx vq mod vq_size vq) < unat (vq_size vq)"
  using vq_publish_some by blast

lemma add_buffer_some:
  assumes ok: "vq_ok q d" and ne: "vq_free (vd_vq d ! q) = i # rest"
  defines "vq \<equiv> vd_vq d ! q"
  shows "\<exists>d'. virtio_queue_add_buffer_id q phys len w d = Some (Some i, d') \<and> vq_ok q d'
    \<and> vq_free (vd_vq d' ! q) = rest \<and> vq_size (vd_vq d' ! q) = vq_size vq
    \<and> vq_desc (vd_vq d' ! q) = (vq_desc vq)[unat i := \<lparr>qd_addr = phys, qd_len = len,
        qd_flags = (if w then VIRTQ_DESC_F_WRITE else 0), qd_next = 0\<rparr>]
    \<and> vq_avail_ring (vd_vq d' ! q) =
        (vq_avail_ring vq)[unat (vq_avail_idx vq mod vq_size vq) := i]
    \<and> vq_avail_idx (vd_vq d' ! q) = vq_avail_idx vq + 1
    \<and> vq_avail_hw_idx (vd_vq d' ! q) = vq_avail_idx vq + 1
    \<and> vq_used_idx (vd_vq d' ! q) = vq_used_idx vq
    \<and> vd_log d' = vd_log d \<and> length (vd_vq d') = length (vd_vq d)"
proof -
  have inv: "vq_inv vq" using ok by (simp add: vq_ok_def vq_def)
  have i: "i < vq_size vq" "i \<notin> set rest" using inv ne by (auto simp: vq_inv_def vq_def)
  obtain d1 where d1: "virtio_queue_alloc_desc q d = Some (Some i, d1)" "vq_ok q d1"
    "vq_free (vd_vq d1 ! q) = rest" "vq_size (vd_vq d1 ! q) = vq_size vq"
    "vq_desc (vd_vq d1 ! q) = vq_desc vq"
    "vq_avail_ring (vd_vq d1 ! q) = vq_avail_ring vq" "vq_avail_idx (vd_vq d1 ! q) = vq_avail_idx vq"
    "vd_log d1 = vd_log d" "length (vd_vq d1) = length (vd_vq d)"
    "vq_used_idx (vd_vq d1 ! q) = vq_used_idx vq"
    using alloc_desc_some [OF ok ne] by (auto simp: vq_def)
  obtain d2 where d2: "virtio_queue_desc_fill q i phys len w d1 = Some d2" "vq_ok q d2"
    "vd_vq d2 ! q = (vd_vq d1 ! q)\<lparr>vq_desc := (vq_desc (vd_vq d1 ! q))[unat i :=
        \<lparr>qd_addr = phys, qd_len = len, qd_flags = (if w then VIRTQ_DESC_F_WRITE else 0), qd_next = 0\<rparr>]\<rparr>"
    "vq_free (vd_vq d2 ! q) = rest" "vd_log d2 = vd_log d1" "length (vd_vq d2) = length (vd_vq d1)"
    using desc_fill_some [OF d1(2), of i phys len w] d1 i by auto
  have i2: "i < vq_size (vd_vq d2 ! q)" using i d1(4) d2(3) by simp
  from submit_some [OF d2(2) i2] obtain d3 where
    d3: "virtio_queue_submit q i d2 = Some d3" "vq_ok q d3"
    "vd_vq d3 ! q = (vd_vq d2 ! q)
        \<lparr>vq_avail_ring := (vq_avail_ring vq)[unat (vq_avail_idx vq mod vq_size vq) := i],
         vq_avail_idx := vq_avail_idx vq + 1, vq_avail_hw_idx := vq_avail_idx vq + 1\<rparr>"
    "vq_free (vd_vq d3 ! q) = rest" "vd_log d3 = vd_log d2" "length (vd_vq d3) = length (vd_vq d2)"
    using d2(3,4) d1(4-7) by auto
  then show ?thesis
    using d1 d2 by (auto simp: virtio_queue_add_buffer_id_def)
qed

lemma recycle_submit: "virtio_queue_recycle = virtio_queue_submit"
  by (intro ext) (simp add: virtio_queue_recycle_def virtio_queue_submit_def)

lemma free_desc_some:
  assumes ok: "vq_ok q d" and i: "i < vq_size (vd_vq d ! q)" "i \<notin> set (vq_free (vd_vq d ! q))"
  shows "\<exists>d'. virtio_queue_free_desc q i d = Some d' \<and> vq_ok q d'
    \<and> vq_free (vd_vq d' ! q) = i # vq_free (vd_vq d ! q)
    \<and> vq_size (vd_vq d' ! q) = vq_size (vd_vq d ! q) \<and> vd_log d' = vd_log d
    \<and> length (vd_vq d') = length (vd_vq d)"
proof -
  let ?vq = "vd_vq d ! q"
  have inv: "vq_inv ?vq" and q: "q < VIRTIO_MAX_QUEUES" "q < length (vd_vq d)"
    using ok by (simp_all add: vq_ok_def)
  let ?ds = "(vq_desc ?vq)[unat i := (vq_desc ?vq ! unat i)\<lparr>qd_next := vq_free_head ?vq\<rparr>]"
  let ?vq' = "?vq\<lparr>vq_desc := ?ds, vq_free_head := i, vq_free_count := vq_free_count ?vq + 1\<rparr>"
  have lt: "unat i < 256" using inv i(1) by (auto simp: vq_inv_def word_less_nat_alt)
  then have run: "virtio_queue_free_desc q i d = Some (set_vq q ?vq' d)"
    using inv q i(1) by (simp add: virtio_queue_free_desc_def rd_Some wr_Some vq_inv_def not_le)
  have "unat (vq_free_count ?vq) \<le> 256" using vq_free_count_le [OF inv] inv by (simp add: vq_inv_def)
  then have "unat (vq_free_count ?vq + 1) = Suc (unat (vq_free_count ?vq))"
    by (simp add: unat_Suc_lt)
  then have fr: "vq_free ?vq' = i # vq_free ?vq"
    using chain_update [of i "vq_desc ?vq"] i(2) lt inv by (simp add: vq_free_def vq_inv_def)
  have "vq_inv ?vq'" using inv fr i by (simp add: vq_inv_def)
  then show ?thesis using run fr q by (simp add: vq_ok_def set_vq_def)
qed

section \<open>The descriptors as a resource pool\<close>

definition vq_acquire :: "nat \<Rightarrow> virtio_device \<Rightarrow> (u16 \<times> virtio_device) option" where
  "vq_acquire q d =
     (case virtio_queue_alloc_desc q d of
        Some (Some i, d') \<Rightarrow> Some (i, d')
      | _ \<Rightarrow> None)"

definition vq_release :: "nat \<Rightarrow> u16 \<Rightarrow> virtio_device \<Rightarrow> virtio_device" where
  "vq_release q i d = (case virtio_queue_free_desc q i d of None \<Rightarrow> d | Some d' \<Rightarrow> d')"

definition vq_avail :: "nat \<Rightarrow> virtio_device \<Rightarrow> u16 set" where
  "vq_avail q d = set (vq_free (vd_vq d ! q))"

definition vq_ids :: "nat \<Rightarrow> virtio_device \<Rightarrow> u16 set" where
  "vq_ids q d = {i. i < vq_size (vd_vq d ! q)}"

interpretation vq_pool: resource_pool "vq_acquire q" "vq_release q" "vq_avail q" "vq_ids q" "vq_ok q"
  for q
proof unfold_locales
  fix s assume ok: "vq_ok q s"
  then have inv: "vq_inv (vd_vq s ! q)" by (simp add: vq_ok_def)
  show "finite (vq_ids q s)" by (simp add: vq_ids_def)
  show "vq_avail q s \<subseteq> vq_ids q s" using inv by (auto simp: vq_inv_def vq_avail_def vq_ids_def)
  show "vq_acquire q s = None \<longleftrightarrow> vq_avail q s = {}"
    using alloc_desc_none [OF ok] alloc_desc_some [OF ok]
    by (cases "vq_free (vd_vq s ! q)") (auto simp: vq_acquire_def vq_avail_def)
  fix r s' assume al: "vq_acquire q s = Some (r, s')"
  then obtain i rest where fr: "vq_free (vd_vq s ! q) = i # rest"
    using alloc_desc_none [OF ok] by (cases "vq_free (vd_vq s ! q)") (auto simp: vq_acquire_def)
  have "distinct (i # rest)" using inv fr by (simp add: vq_inv_def)
  then show "r \<in> vq_avail q s \<and> vq_avail q s' = vq_avail q s - {r} \<and> vq_ids q s' = vq_ids q s
      \<and> vq_ok q s'"
    using alloc_desc_some [OF ok fr] al fr by (auto simp: vq_acquire_def vq_avail_def vq_ids_def)
next
  fix s r assume "vq_ok q s" "r \<in> vq_ids q s" "r \<notin> vq_avail q s"
  then show "vq_avail q (vq_release q r s) = insert r (vq_avail q s)
      \<and> vq_ids q (vq_release q r s) = vq_ids q s \<and> vq_ok q (vq_release q r s)"
    using free_desc_some [of q s r] by (auto simp: vq_release_def vq_avail_def vq_ids_def)
qed

section \<open>Queue setup\<close>

text \<open>The page allocator seen through addresses.\<close>

lemma pmm_alloc_avail:
  assumes "pmm_inv s"
  obtains (empty) "pmm_avail s = {}" and "pmm_alloc_page s = Some (0, s)"
  | (page) pa s' where "pmm_alloc_page s = Some (pa, s')" and "pa \<noteq> 0" and "pa \<in> pmm_avail s"
      and "pmm_avail s' = pmm_avail s - {pa}" and "pmm_frames s' = pmm_frames s" and "pmm_inv s'"
  using pmm_alloc_page_spec [OF assms]
proof (elim disjE exE conjE)
  assume "pmm_frees s = {}" "pmm_alloc_page s = Some (0, s)"
  then show thesis using empty by (simp add: pmm_avail_def)
next
  fix p s' assume al: "pmm_alloc_page s = Some (page_addr p, s')" "p \<in> pmm_frees s"
  then have "page_addr p \<noteq> 0"
    using pmm_frees_range [OF assms al(2)] page_addr_facts(3) [OF pmm_frees_small [OF assms al(2)]] by simp
  moreover from this have "pmm_acquire s = Some (page_addr p, s')" using al by (simp add: pmm_acquire_def)
  ultimately show thesis using page [OF al(1)] pmm_pool.alloc_Some [OF assms] by blast
qed

lemma pmm_free_avail:
  assumes "pmm_inv s" and "pa \<in> pmm_frames s" and "pa \<notin> pmm_avail s"
  shows "\<exists>s'. pmm_free_page pa s = Some s' \<and> pmm_avail s' = insert pa (pmm_avail s)
    \<and> pmm_frames s' = pmm_frames s \<and> pmm_inv s'"
proof -
  obtain p where p: "pa = page_addr p" "0 < p" "p < pmm_total_pages s"
    using assms(2) by (auto simp: pmm_frames_def)
  then have "p \<notin> pmm_frees s" using assms(3) by (auto simp: pmm_avail_def)
  from pmm_free_page_spec [OF assms(1) p(2,3) this] show ?thesis
    by (auto simp: p(1) pmm_avail_def pmm_frames_def)
qed

lemma pmm_frames_nonzero: "pmm_inv s \<Longrightarrow> pa \<in> pmm_avail s \<Longrightarrow> pa \<in> pmm_frames s \<and> pa \<noteq> 0"
  using pmm_pool.avail_universe [of s] page_addr_facts(3) pmm_frees_range pmm_frees_small
  by (fastforce simp: pmm_avail_def)

lemma vq_alloc_pages_spec:
  assumes inv: "pmm_inv s"
  shows "\<exists>r s'. vq_alloc_pages s = Some (r, s') \<and> pmm_inv s' \<and> pmm_frames s' = pmm_frames s
    \<and> (case r of
         None \<Rightarrow> pmm_avail s' = pmm_avail s
       | Some (a, b, c) \<Rightarrow> distinct [a, b, c] \<and> {a, b, c} \<subseteq> pmm_avail s
           \<and> pmm_avail s' = pmm_avail s - {a, b, c})"
  using inv
proof (cases rule: pmm_alloc_avail)
  case empty
  then show ?thesis using inv by (simp add: vq_alloc_pages_def vq_free_opt_def)
next
  case (page a s1)
  note A = this
  show ?thesis using A(6)
  proof (cases rule: pmm_alloc_avail)
    case empty
    have "a \<in> pmm_frames s1" "a \<notin> pmm_avail s1"
      using A pmm_frames_nonzero [OF inv] by simp_all
    from pmm_free_avail [OF A(6) this] obtain s4 where "pmm_free_page a s1 = Some s4"
      "pmm_avail s4 = insert a (pmm_avail s1)" "pmm_frames s4 = pmm_frames s1" "pmm_inv s4" by blast
    then show ?thesis using A empty by (auto simp: vq_alloc_pages_def vq_free_opt_def)
  next
    case (page b s2)
    note B = this
    show ?thesis using B(6)
    proof (cases rule: pmm_alloc_avail)
      case empty
      have "a \<in> pmm_frames s2" "a \<notin> pmm_avail s2"
        using A B pmm_frames_nonzero [OF inv] by simp_all
      from pmm_free_avail [OF B(6) this] obtain s4 where s4: "pmm_free_page a s2 = Some s4"
        "pmm_avail s4 = insert a (pmm_avail s2)" "pmm_frames s4 = pmm_frames s2" "pmm_inv s4" by blast
      have "b \<in> pmm_frames s4" "b \<notin> pmm_avail s4"
        using A B s4 pmm_frames_nonzero [OF A(6)] by auto
      from pmm_free_avail [OF s4(4) this] obtain s5 where "pmm_free_page b s4 = Some s5"
        "pmm_avail s5 = insert b (pmm_avail s4)" "pmm_frames s5 = pmm_frames s4" "pmm_inv s5" by blast
      then show ?thesis using A B s4 empty by (auto simp: vq_alloc_pages_def vq_free_opt_def)
    next
      case (page c s3)
      then show ?thesis using A B by (auto simp: vq_alloc_pages_def)
    qed
  qed
qed

lemma link_descs_spec:
  assumes "\<forall>i \<in> set is. i < length ds" and "distinct is"
  shows "\<exists>ds'. link_descs is ds = Some ds' \<and> length ds' = length ds
    \<and> (\<forall>i < length ds. qd_next (ds' ! i) = (if i \<in> set is then of_nat i + 1 else qd_next (ds ! i)))"
  using assms
proof (induction "is" arbitrary: ds)
  case Nil
  then show ?case by simp
next
  case (Cons j js)
  let ?ds = "ds[j := (ds ! j)\<lparr>qd_next := of_nat j + 1\<rparr>]"
  obtain ds' where ds': "link_descs js ?ds = Some ds'" "length ds' = length ?ds"
    "\<forall>i < length ?ds. qd_next (ds' ! i) = (if i \<in> set js then of_nat i + 1 else qd_next (?ds ! i))"
    using Cons.IH [of ?ds] Cons.prems by auto
  have "qd_next (ds' ! i) = (if i \<in> set (j # js) then of_nat i + 1 else qd_next (ds ! i))"
    if "i < length ds" for i
    using ds'(3) that Cons.prems by (auto simp: nth_list_update)
  then show ?case using ds'(1,2) Cons.prems by (auto simp: rd_Some wr_Some)
qed

lemma chain_upto:
  assumes "\<And>i. Suc i < n \<Longrightarrow> qd_next (ds ! i) = of_nat (Suc i)" and "n \<le> 256"
  shows "k + m \<le> n \<Longrightarrow> chain ds (of_nat k) m = map of_nat [k ..< k + m]"
proof (induction m arbitrary: k)
  case 0
  then show ?case by simp
next
  case (Suc m)
  have k: "unat (of_nat k :: u16) = k" using Suc.prems assms(2) by (simp add: unat_of_nat_lt)
  have "chain ds (of_nat (Suc k)) m = map of_nat [Suc k ..< Suc k + m]"
    by (rule Suc.IH) (use Suc.prems in simp)
  moreover have "qd_next (ds ! k) = of_nat (Suc k)" if "0 < m"
    using assms(1) [of k] that Suc.prems by simp
  then have "chain ds (qd_next (ds ! k)) m = chain ds (of_nat (Suc k)) m" by (cases m) simp_all
  ultimately have "chain ds (qd_next (ds ! k)) m = map of_nat [Suc k ..< Suc k + m]" by simp
  moreover have "[k ..< k + Suc m] = k # [Suc k ..< Suc k + m]" by (simp add: upt_conv_Cons del: upt_Suc)
  ultimately show ?case using k by simp
qed

lemma init_descs_spec:
  assumes "length ds = 256" and "0 < n" and "n \<le> 256"
  shows "\<exists>ds'. init_descs n ds = Some ds' \<and> length ds' = 256
    \<and> chain ds' 0 n = map of_nat [0 ..< n]"
proof -
  obtain ds1 where ds1: "link_descs [0 ..< n] ds = Some ds1" "length ds1 = 256"
    "\<forall>i < 256. qd_next (ds1 ! i) = (if i < n then of_nat i + 1 else qd_next (ds ! i))"
    using link_descs_spec [of "[0 ..< n]" ds] assms by auto
  let ?ds = "ds1[n - 1 := (ds1 ! (n - 1))\<lparr>qd_next := 0\<rparr>]"
  have "init_descs n ds = Some ?ds"
    using ds1 assms by (simp add: init_descs_def rd_Some wr_Some)
  moreover have "chain ?ds (of_nat 0) n = map of_nat [0 ..< 0 + n]"
    by (rule chain_upto [of n]) (use ds1 assms in \<open>auto simp: nth_list_update\<close>)
  ultimately show ?thesis using ds1 by simp
qed

lemma vq_program_spec:
  assumes "vq_program hw qidx vq d = (vq', d')"
  shows "vd_vq d' = vd_vq d"
    and "vq' = vq\<lparr>vq_notify_addr := vq_notify_addr vq', vq_size := vq_size vq'\<rparr>"
    and "vq_size vq' \<le> vq_size vq"
  using assms
  by (auto simp: vq_program_def Let_def mmio_write16_def mmio_write32_def mmio_read16_def
      split: prod.splits if_splits)

section \<open>The order of the handshake\<close>

text \<open>The values written to the device status register, oldest first.\<close>

fun status_writes :: "mmio_event list \<Rightarrow> u8 list" where
  "status_writes [] = []"
| "status_writes (e # es) =
     status_writes es @ (case e of W8 off v \<Rightarrow> if off = 0x14 then [v] else [] | _ \<Rightarrow> [])"

lemmas mmio_defs = mmio_write8_def mmio_write16_def mmio_write32_def mmio_read8_def mmio_read16_def
  mmio_read32_def

text \<open>The capability pointers that the loop visits.\<close>

abbreviation cap_next :: "pci_space \<Rightarrow> pci_device \<Rightarrow> u8 \<Rightarrow> u8" where
  "cap_next sp p \<equiv> pci_cap_next sp (pd_bus p) (pd_dev p) (pd_func p)"

lemma virtio_walk_ends:
  "(cap_next sp p ^^ n) off = 0 \<Longrightarrow> \<exists>r. virtio_walk sp p off d = Some r"
proof (induction n arbitrary: off d)
  case 0
  then show ?case by (intro exI [of _ "(True, d)"]) (subst virtio_walk.simps, simp)
next
  case (Suc n)
  then have "(cap_next sp p ^^ n) (cap_next sp p off) = 0"
    by (simp add: funpow_swap1)
  from Suc.IH [OF this] show ?case
    by (subst virtio_walk.simps) (auto split: prod.splits)
qed

lemma virtio_walk_loops:
  assumes "off \<noteq> 0" and "cap_next sp p off = off"
    and "pci_config_read8 sp (pd_bus p) (pd_dev p) (pd_func p) off \<noteq> 0x09"
  shows "virtio_walk sp p off d = None"
proof -
  have cap: "virtio_cap sp p off d = (True, d)"
    using assms(3) by (simp add: virtio_cap_def)
  let ?P = "\<lambda>sp' p' off' d' r. \<not> (sp' = sp \<and> p' = p \<and> off' = off \<and> d' = d)"
  have "?P sp p off d r" if "virtio_walk sp p off d = Some r" for r
  proof (rule virtio_walk.raw_induct [where P = ?P, OF _ that])
    fix walk and sp' :: pci_space and p' off' d' r'
    assume IH: "\<And>sp p off d r. walk sp p off d = Some r \<Longrightarrow> ?P sp p off d r"
      and body: "(if off' = 0 then Some (True, d')
        else case virtio_cap sp' p' off' d' of
          (ok, d1) \<Rightarrow> if ok then walk sp' p' (cap_next sp' p' off') d1 else Some (False, d1)) = Some r'"
    show "?P sp' p' off' d' r'"
    proof
      assume eq: "sp' = sp \<and> p' = p \<and> off' = off \<and> d' = d"
      have "walk sp p off d = Some r'"
        using body assms(1,2) cap by (simp add: eq)
      from IH [OF this] show False by simp
    qed
  qed
  then show ?thesis by (cases "virtio_walk sp p off d") auto
qed

section \<open>Properties\<close>

text \<open>
  For the witnesses: a device before any set-up, and one whose queue 0 has four descriptors, all
  in the pool, on otherwise zeroed pages.
\<close>

definition vq_zero :: virtio_vq where
  "vq_zero = \<lparr>vq_size = 0, vq_free_head = 0, vq_free_count = 0, vq_avail_idx = 0, vq_used_idx = 0,
     vq_desc = [], vq_avail_flags = 0, vq_avail_hw_idx = 0, vq_avail_ring = [], vq_used_flags = 0,
     vq_used_hw_idx = 0, vq_used_ring = [], vq_desc_phys = 0, vq_avail_phys = 0, vq_used_phys = 0,
     vq_notify_addr = 0\<rparr>"

definition vd_zero :: virtio_device where
  "vd_zero = \<lparr>vd_hhdm = 0, vd_bus = 0, vd_dev = 0, vd_func = 0, vd_common = 0, vd_notify = 0,
     vd_isr = 0, vd_device_cfg = 0, vd_notify_mult = 0, vd_device_features_lo = 0,
     vd_device_features_hi = 0, vd_driver_features_lo = 0, vd_driver_features_hi = 0,
     vd_vq = replicate 4 vq_zero, vd_log = []\<rparr>"

definition pv_zero :: page_view where
  "pv_zero = \<lparr>pv_desc = (\<lambda>_. replicate 256 \<lparr>qd_addr = 0, qd_len = 0, qd_flags = 0, qd_next = 0\<rparr>),
     pv_avail = (\<lambda>_. replicate 2046 0), pv_used = (\<lambda>_. replicate 511 (0, 0))\<rparr>"

definition vd_example :: virtio_device where
  "vd_example = vd_zero\<lparr>vd_vq := (vd_vq vd_zero)[0 := vq_zero
     \<lparr>vq_size := 4, vq_free_count := 4,
      vq_desc := map (\<lambda>i. \<lparr>qd_addr = 0, qd_len = 0, qd_flags = 0,
                         qd_next = (if i < 3 then of_nat i + 1 else 0)\<rparr>) [0 ..< 256],
      vq_avail_ring := pv_avail pv_zero 0, vq_used_ring := pv_used pv_zero 0\<rparr>]\<rparr>"

lemma vd_example_ok: "vq_ok 0 vd_example"
  by code_simp

lemma vd_example_free: "vq_free (vd_vq vd_example ! 0) = [0, 1, 2, 3]"
  by code_simp

text \<open>Setting up a queue takes three distinct free pages or, on failure, none: the pages
  already taken are given back. On success all descriptors are in the pool, in order, and the queue
  is well formed exactly when the device has kept the size the driver programmed.\<close>

theorem virtio_queue_init_contract:
  assumes inv: "pmm_inv s" and q: "q < VIRTIO_MAX_QUEUES" "length (vd_vq d) = VIRTIO_MAX_QUEUES"
    and pv: "\<And>a. length (pv_desc pv a) = 256" "\<And>a. length (pv_avail pv a) = 2046"
      "\<And>a. length (pv_used pv a) = 511" and sz: "2 \<le> sz"
  defines "n \<equiv> min sz VIRTIO_MAX_QUEUE_SIZE"
  shows "\<exists>ok d' s'. virtio_queue_init pv hw q sz d s = Some (ok, d', s') \<and> pmm_inv s'
    \<and> (\<not> ok \<longrightarrow> pmm_avail s' = pmm_avail s)
    \<and> (ok \<longrightarrow> (let vq = vd_vq d' ! q; pages = [vq_desc_phys vq, vq_avail_phys vq, vq_used_phys vq]
         in distinct pages \<and> set pages \<subseteq> pmm_avail s \<and> pmm_avail s' = pmm_avail s - set pages
          \<and> vq_free vq = map of_nat [0 ..< unat n] \<and> vq_size vq \<le> n
          \<and> (vq_ok q d' \<longleftrightarrow> vq_size vq = n)))"
proof -
  have n: "0 < unat n" "unat n \<le> 256" "(if sz > VIRTIO_MAX_QUEUE_SIZE then VIRTIO_MAX_QUEUE_SIZE else sz) = n"
    using sz by (auto simp: n_def min_def VIRTIO_MAX_QUEUE_SIZE_def word_le_nat_alt word_less_nat_alt)
  obtain r s1 where r: "vq_alloc_pages s = Some (r, s1)" "pmm_inv s1" "pmm_frames s1 = pmm_frames s"
    "case r of None \<Rightarrow> pmm_avail s1 = pmm_avail s
       | Some (a, b, c) \<Rightarrow> distinct [a, b, c] \<and> {a, b, c} \<subseteq> pmm_avail s
           \<and> pmm_avail s1 = pmm_avail s - {a, b, c}"
    using vq_alloc_pages_spec [OF inv] by blast
  show ?thesis
  proof (cases r)
    case None
    then show ?thesis using r q sz
      by (intro exI [of _ False]) (simp add: virtio_queue_init_def not_le [symmetric])
  next
    case (Some t)
    then obtain a b c where t: "r = Some (a, b, c)" by (cases t) auto
    obtain ds where ds: "init_descs (unat n) (pv_desc pv a) = Some ds" "length ds = 256"
      "chain ds 0 (unat n) = map of_nat [0 ..< unat n]"
      using init_descs_spec [OF pv(1) n(1,2)] by blast
    let ?vq = "\<lparr>vq_size = n, vq_free_head = 0, vq_free_count = n, vq_avail_idx = 0,
        vq_used_idx = 0, vq_desc = ds, vq_avail_flags = 0, vq_avail_hw_idx = 0,
        vq_avail_ring = pv_avail pv b, vq_used_flags = 0, vq_used_hw_idx = 0,
        vq_used_ring = pv_used pv c, vq_desc_phys = a, vq_avail_phys = b, vq_used_phys = c,
        vq_notify_addr = 0\<rparr>"
    obtain vq d1 where prog: "vq_program hw (of_nat q) ?vq d = (vq, d1)" by fastforce
    note P = vq_program_spec [OF prog]
    let ?d = "d1\<lparr>vd_vq := (vd_vq d1)[q := vq]\<rparr>"
    have run: "virtio_queue_init pv hw q sz d s = Some (True, ?d, s1)"
      using r(1) t q sz n(3) ds(1) prog by (simp add: virtio_queue_init_def not_le [symmetric])
    have vq: "vd_vq ?d ! q = vq" using q P(1) by simp
    have fr: "vq_free vq = map of_nat [0 ..< unat n]" by (subst P(2)) (simp add: vq_free_def ds(3))
    have "distinct (vq_free vq)"
      unfolding fr distinct_map
    proof (intro conjI inj_onI)
      fix x y assume "x \<in> set [0 ..< unat n]" "y \<in> set [0 ..< unat n]"
        "(of_nat x :: u16) = of_nat y"
      then have "unat (of_nat x :: u16) = unat (of_nat y :: u16)" "x < 256" "y < 256"
        using n(2) by auto
      then show "x = y" by (simp add: unat_of_nat_lt)
    qed simp
    moreover have "(\<forall>i \<in> set (vq_free vq). i < vq_size vq) \<longleftrightarrow> vq_size vq = n"
    proof
      assume "vq_size vq = n"
      then show "\<forall>i \<in> set (vq_free vq). i < vq_size vq"
        using n(2) by (auto simp: fr word_less_nat_alt unat_of_nat_lt)
    next
      assume all: "\<forall>i \<in> set (vq_free vq). i < vq_size vq"
      have "of_nat (unat n - 1) \<in> set (vq_free vq)"
        unfolding fr set_map by (rule imageI) (use n(1) in simp)
      then have "(of_nat (unat n - 1) :: u16) < vq_size vq" using all by blast
      then have "unat n - 1 < unat (vq_size vq)"
        using n(2) by (simp add: word_less_nat_alt unat_of_nat_lt)
      then show "vq_size vq = n" using P(3) n(1) by (auto simp: word_le_nat_alt word_unat_eq_iff)
    qed
    moreover have "length (vq_desc vq) = 256 \<and> length (vq_avail_ring vq) = 2046
        \<and> length (vq_used_ring vq) = 511" by (subst (1 2 3) P(2)) (simp add: ds pv)
    ultimately have "vq_ok q ?d \<longleftrightarrow> vq_size vq = n"
      using n(1,2) q P(1) by (auto simp: vq_ok_def vq_inv_def word_less_nat_alt)
    moreover have "vq_desc_phys vq = a" "vq_avail_phys vq = b" "vq_used_phys vq = c"
      by (subst P(2), simp)+
    ultimately show ?thesis using run r t vq fr P(3)
      by (intro exI [of _ True]) (simp add: Let_def)
  qed
qed

theorem virtio_queue_init_contract_witness:
  "\<exists>d' s'. virtio_queue_init pv_zero (\<lambda>_. 256) 1 8 vd_zero pmm_example = Some (True, d', s')
     \<and> vq_ok 1 d' \<and> vq_free (vd_vq d' ! 1) = map of_nat [0 ..< 8] \<and> pmm_avail s' = {}"
proof -
  have run: "map_option (\<lambda>(ok, d', s'). (ok, vq_size (vd_vq d' ! 1)))
      (virtio_queue_init pv_zero (\<lambda>_. 256) 1 8 vd_zero pmm_example) = Some (True, 8)"
    by code_simp
  have pre: "(1 :: nat) < VIRTIO_MAX_QUEUES" "length (vd_vq vd_zero) = VIRTIO_MAX_QUEUES" "(2 :: u16) \<le> 8"
    "\<And>a. length (pv_desc pv_zero a) = 256" "\<And>a. length (pv_avail pv_zero a) = 2046"
    "\<And>a. length (pv_used pv_zero a) = 511"
    by (simp_all add: pv_zero_def vd_zero_def VIRTIO_MAX_QUEUES_def)
  have n: "min 8 VIRTIO_MAX_QUEUE_SIZE = 8" by code_simp
  obtain ok d' s' where r: "virtio_queue_init pv_zero (\<lambda>_. 256) 1 8 vd_zero pmm_example = Some (ok, d', s')"
    "ok \<longrightarrow> (let vq = vd_vq d' ! 1; pages = [vq_desc_phys vq, vq_avail_phys vq, vq_used_phys vq]
         in distinct pages \<and> set pages \<subseteq> pmm_avail pmm_example
          \<and> pmm_avail s' = pmm_avail pmm_example - set pages
          \<and> vq_free vq = map of_nat [0 ..< unat (8 :: u16)] \<and> vq_size vq \<le> 8
          \<and> (vq_ok 1 d' \<longleftrightarrow> vq_size vq = 8))"
    using virtio_queue_init_contract [OF pmm_example_inv pre(1,2,4,5,6,3), of "\<lambda>_. 256"]
    unfolding n by blast
  have "ok" and sz: "vq_size (vd_vq d' ! 1) = 8" using run r(1) by simp_all
  let ?pages = "[vq_desc_phys (vd_vq d' ! 1), vq_avail_phys (vd_vq d' ! 1), vq_used_phys (vd_vq d' ! 1)]"
  have P: "distinct ?pages" "set ?pages \<subseteq> pmm_avail pmm_example"
    "pmm_avail s' = pmm_avail pmm_example - set ?pages"
    "vq_free (vd_vq d' ! 1) = map of_nat [0 ..< unat (8 :: u16)]" "vq_ok 1 d'"
    using r(2) \<open>ok\<close> sz unfolding Let_def by blast+
  have "finite (pmm_avail pmm_example)" "card (pmm_avail pmm_example) \<le> 3"
    unfolding pmm_avail_def pmm_example_frees
    by (simp, rule card_image_le [THEN le_trans]) simp_all
  moreover have "card (set ?pages) = 3" using P(1) by (simp only: distinct_card) simp
  ultimately have "set ?pages = pmm_avail pmm_example" using P(2) by (intro card_seteq) simp_all
  then show ?thesis using r(1) \<open>ok\<close> P by simp
qed

text \<open>Publishing a buffer: if the pool is empty nothing changes and failure is reported;
  otherwise the first free descriptor leaves the pool, describes the buffer, and its id is written
  to the next slot of the available ring, whose index advances by one.\<close>

theorem virtio_queue_add_buffer_contract:
  assumes ok: "vq_ok q d"
  defines "vq \<equiv> vd_vq d ! q"
  shows "case vq_free vq of
      [] \<Rightarrow> virtio_queue_add_buffer_id q phys len w d = Some (None, d)
    | i # rest \<Rightarrow> (\<exists>d'. virtio_queue_add_buffer_id q phys len w d = Some (Some i, d') \<and> vq_ok q d'
        \<and> (let vq' = vd_vq d' ! q in vq_free vq' = rest
          \<and> vq_desc vq' ! unat i = \<lparr>qd_addr = phys, qd_len = len,
              qd_flags = (if w then VIRTQ_DESC_F_WRITE else 0), qd_next = 0\<rparr>
          \<and> vq_avail_ring vq' ! unat (vq_avail_idx vq mod vq_size vq) = i
          \<and> vq_avail_hw_idx vq' = vq_avail_idx vq + 1 \<and> vq_avail_idx vq' = vq_avail_idx vq + 1))"
proof (cases "vq_free vq")
  case Nil
  then show ?thesis
    using alloc_desc_none [OF ok] by (simp add: virtio_queue_add_buffer_id_def vq_def)
next
  case (Cons i rest)
  have inv: "vq_inv vq" using ok by (simp add: vq_ok_def vq_def)
  have "unat (vq_avail_idx vq mod vq_size vq) < length (vq_avail_ring vq)"
    and "unat i < length (vq_desc vq)"
    using inv Cons vq_slot_less [OF inv] by (auto simp: vq_inv_def word_less_nat_alt)
  then show ?thesis
    using add_buffer_some [OF ok, of i rest phys len w] Cons by (auto simp: vq_def Let_def)
qed

theorem virtio_queue_add_buffer_contract_witness:
  "\<exists>d'. virtio_queue_add_buffer_id 0 4096 8 True vd_example = Some (Some 0, d') \<and> vq_ok 0 d'
     \<and> vq_free (vd_vq d' ! 0) = [1, 2, 3] \<and> vq_avail_hw_idx (vd_vq d' ! 0) = 1"
proof -
  have "vq_avail_idx (vd_vq vd_example ! 0) = 0" by code_simp
  then show ?thesis
    using virtio_queue_add_buffer_contract [OF vd_example_ok, of 4096 8 True]
    unfolding vd_example_free by (auto simp: Let_def)
qed

text \<open>C21. Ownership of descriptors: whatever sequence of allocations and releases a driver makes,
  releasing only what it holds, no descriptor it holds can be handed out again, and what it holds
  and the pool are together what the pool was.\<close>

theorem virtqueue_descriptor_ownership:
  assumes "vq_ok q d" and "pool_run (vq_acquire q) (vq_release q) ops d {} = (d', own)"
  shows "vq_ok q d' \<and> own \<inter> vq_avail q d' = {} \<and> own \<union> vq_avail q d' = vq_avail q d"
  using vq_pool.pool_run_ownership [OF assms(1) _ _ assms(2)] by simp

theorem virtqueue_descriptor_ownership_witness:
  "\<exists>d' own. pool_run (vq_acquire 0) (vq_release 0) [Acquire, Acquire, Release 0] vd_example {}
     = (d', own) \<and> own \<inter> vq_avail 0 d' = {} \<and> own \<union> vq_avail 0 d' = {0, 1, 2, 3}"
proof -
  obtain d' own where run: "pool_run (vq_acquire 0) (vq_release 0) [Acquire, Acquire, Release 0]
      vd_example {} = (d', own)" by fastforce
  have "vq_avail 0 vd_example = {0, 1, 2, 3}" by (simp add: vq_avail_def vd_example_free)
  then show ?thesis using virtqueue_descriptor_ownership [OF vd_example_ok run] run by blast
qed

text \<open>When the head of the pool is a descriptor beyond the size the device accepted, publishing
  a buffer is reported as a success with that descriptor, which leaves the pool, but nothing
  reaches the available ring: the buffer is lost.\<close>

theorem virtio_queue_add_buffer_lost:
  assumes q: "q < VIRTIO_MAX_QUEUES" "q < length (vd_vq d)"
    and h: "vq_free_count (vd_vq d ! q) \<noteq> 0" "vq_size (vd_vq d ! q) \<le> vq_free_head (vd_vq d ! q)"
      "unat (vq_free_head (vd_vq d ! q)) < length (vq_desc (vd_vq d ! q))"
  shows "\<exists>d'. virtio_queue_add_buffer_id q phys len w d = Some (Some (vq_free_head (vd_vq d ! q)), d')
    \<and> vq_avail_ring (vd_vq d' ! q) = vq_avail_ring (vd_vq d ! q)
    \<and> vq_avail_hw_idx (vd_vq d' ! q) = vq_avail_hw_idx (vd_vq d ! q)
    \<and> vq_free_count (vd_vq d' ! q) = vq_free_count (vd_vq d ! q) - 1"
  using assms
  by (simp add: virtio_queue_add_buffer_id_def virtio_queue_alloc_desc_def
      virtio_queue_desc_fill_def virtio_queue_submit_def rd_Some set_vq_def)

theorem virtio_queue_add_buffer_lost_witness:
  "\<exists>d'. virtio_queue_add_buffer_id 0 4096 8 True
       (vd_example\<lparr>vd_vq := [(vd_vq vd_example ! 0)\<lparr>vq_size := 2, vq_free_head := 2, vq_free_count := 2\<rparr>]\<rparr>)
     = Some (Some 2, d') \<and> vq_avail_hw_idx (vd_vq d' ! 0) = 0"
proof -
  have "vq_avail_hw_idx (vd_vq vd_example ! 0) = 0" "length (vq_desc (vd_vq vd_example ! 0)) = 256"
    by code_simp+
  then show ?thesis
    using virtio_queue_add_buffer_lost [of 0 "vd_example\<lparr>vd_vq := [(vd_vq vd_example ! 0)
        \<lparr>vq_size := 2, vq_free_head := 2, vq_free_count := 2\<rparr>]\<rparr>" 4096 8 True]
    by (auto simp: VIRTIO_MAX_QUEUES_def)
qed

text \<open>C39. The walk over the capabilities ends when the chain of pointers reaches 0, and never
  ends on a capability that is not virtio's and links to itself.\<close>

theorem virtio_walk_termination:
  "((cap_next sp p ^^ n) off = 0 \<longrightarrow> (\<exists>r. virtio_walk sp p off d = Some r))
   \<and> (off \<noteq> 0 \<and> cap_next sp p off = off
       \<and> pci_config_read8 sp (pd_bus p) (pd_dev p) (pd_func p) off \<noteq> 0x09
       \<longrightarrow> virtio_walk sp p off d = None)"
  using virtio_walk_ends virtio_walk_loops by blast

text \<open>The handshake writes the status register in the order reset, ACKNOWLEDGE, then
  ACKNOWLEDGE with DRIVER; it succeeds exactly when the device offers VERSION_1, which alone is
  then accepted, and otherwise it ends with the FAILED bit.\<close>

theorem virtio_handshake_order:
  assumes "virtio_handshake hw d = (ok, d')"
  shows "(ok \<longleftrightarrow> vd_device_features_hi d' AND 1 \<noteq> 0)
    \<and> (if ok then status_writes (vd_log d') = status_writes (vd_log d) @ [0, 1, 3]
          \<and> vd_driver_features_lo d' = 0 \<and> vd_driver_features_hi d' = 1
        else (\<exists>st. status_writes (vd_log d') = status_writes (vd_log d) @ [0, 1, 3, st OR 0x80]))"
  using assms
  by (auto simp: virtio_handshake_def virtio_device_failed_def mmio_defs Let_def split: if_splits)


text \<open>A PCI function for the witness whose only capability, at offset 0x40, is not virtio's.\<close>

definition sp_loop :: pci_space where
  "sp_loop a = (if ucast a = (0x40 :: u8) then 0x4005 else 0)"

theorem virtio_walk_termination_witness:
  "virtio_walk sp_loop (pci_describe sp_loop 0 0 0) 0x40 vd_zero = None"
proof -
  have "cap_next sp_loop (pci_describe sp_loop 0 0 0) 0x40 = 0x40"
    and "pci_config_read8 sp_loop 0 0 0 0x40 \<noteq> 0x09"
    by code_simp+
  then show ?thesis
    using virtio_walk_termination [where sp = sp_loop and p = "pci_describe sp_loop 0 0 0"
        and off = "0x40" and d = vd_zero]
    by (simp add: pci_describe_def Let_def)
qed

theorem virtio_handshake_order_witness:
  "fst (virtio_handshake (\<lambda>_. 1) vd_zero)
   \<and> status_writes (vd_log (snd (virtio_handshake (\<lambda>_. 1) vd_zero))) = [0, 1, 3]"
proof -
  have "fst (virtio_handshake (\<lambda>_. 1) vd_zero)" "status_writes (vd_log vd_zero) = []"
    by code_simp+
  moreover obtain ok d' where "virtio_handshake (\<lambda>_. 1) vd_zero = (ok, d')" by fastforce
  ultimately show ?thesis
    using virtio_handshake_order [of "\<lambda>_. 1" vd_zero ok d'] by simp
qed

end
