(* ===== verification/Virtio_Input.thy ===== *)
theory Virtio_Input
  imports Virtqueue Keyboard Interrupts
begin

text \<open>
  The virtio input driver, \<^verbatim>\<open>kernel/drivers/virtio/virtio_input.c\<close>: keyboards and mice that
  deliver fixed 8-byte events through a virtqueue. A device's state is the record
  \<open>virtio_input\<close>; the character ring is shared by all devices. The memory that the device writes
  its events to is the list \<open>vi_events\<close> (one page). Log messages are left out.

  The lemmas show that one drain handles every pending event once, in order, and gives its buffer
  back to the device.
\<close>

section \<open>Events\<close>

record input_event =
  ev_type :: u16
  ev_code :: u16
  ev_value :: u32

record virtio_input =
  vi_valid :: bool
  vi_index :: u8
  vi_vdev :: virtio_device
  vi_name :: bytes
  vi_events :: "input_event list"
  vi_events_phys :: u64
  vi_use_irq :: bool
  vi_irq :: u8
  vi_saw_keys :: bool
  vi_saw_buttons :: bool
  vi_shift_state :: u8
  vi_mouse_dx :: u32
  vi_mouse_dy :: u32
  vi_mouse_buttons :: u8
  vi_events_total :: u64
  vi_events_key :: u64
  vi_events_rel :: u64
  vi_events_abs :: u64
  vi_events_msc :: u64
  vi_events_syn :: u64
  vi_events_dropped :: u64
  vi_irq_count :: u64

definition VIRTIO_INPUT_MAX_QUEUE :: nat where "VIRTIO_INPUT_MAX_QUEUE = 256"
definition VIRTIO_INPUT_MAX_DEVICES :: nat where "VIRTIO_INPUT_MAX_DEVICES = 4"
definition VIRTIO_INPUT_MAX_NAME :: nat where "VIRTIO_INPUT_MAX_NAME = 48"
definition EV_SYN :: u16 where "EV_SYN = 0"
definition EV_KEY :: u16 where "EV_KEY = 1"
definition EV_REL :: u16 where "EV_REL = 2"
definition EV_ABS :: u16 where "EV_ABS = 3"
definition EV_MSC :: u16 where "EV_MSC = 4"
definition REL_X :: u16 where "REL_X = 0"
definition REL_Y :: u16 where "REL_Y = 1"
definition KEY_LEFT_SHIFT :: u16 where "KEY_LEFT_SHIFT = 0x2A"
definition KEY_RIGHT_SHIFT :: u16 where "KEY_RIGHT_SHIFT = 0x36"

definition keycode_map :: bytes where
  "keycode_map =
     [0, 27] @ ascii ''1234567890-='' @ [8, 9] @ ascii ''qwertyuiop[]'' @ [10, 0]
     @ ascii ''asdfghjkl;'' @ [39, 96, 0, 92] @ ascii ''zxcvbnm,./'' @ [0, 0, 0, 32]
     @ replicate 45 0 @ [5, 1, 3, 4, 0, 6, 2] @ replicate 18 0"

definition keycode_shifted :: bytes where
  "keycode_shifted =
     [0, 27] @ ascii ''!@#$%^&*()_+'' @ [8, 9] @ ascii ''QWERTYUIOP{}'' @ [10, 0]
     @ ascii ''ASDFGHJKL:'' @ [34, 126, 0, 124] @ ascii ''ZXCVBNM<>?'' @ [0, 0, 0, 32]
     @ replicate 45 0 @ [5, 1, 3, 4, 0, 6, 2] @ replicate 18 0"

definition keycode_to_char :: "u16 \<Rightarrow> u8 \<Rightarrow> u8" where
  "keycode_to_char code shift =
     (if code \<ge> 128 then 0
      else if shift \<noteq> 0 \<and> keycode_shifted ! unat code \<noteq> 0 then keycode_shifted ! unat code
      else keycode_map ! unat code)"

section \<open>The character queue\<close>

definition VKEY_BUF_SIZE :: nat where "VKEY_BUF_SIZE = 256"

definition vkey_push :: "u8 \<Rightarrow> char_ring \<Rightarrow> char_ring" where
  "vkey_push c r = ring_push VKEY_BUF_SIZE c r"

definition virtio_keyboard_read_char :: "char_ring \<Rightarrow> (u8 \<times> char_ring) option" where
  "virtio_keyboard_read_char r = ring_pop VKEY_BUF_SIZE r"

section \<open>Event handling\<close>

text \<open>The bit of the button mask for a \<^verbatim>\<open>BTN_*\<close> code; \<open>None\<close> is -1.\<close>

definition button_bit :: "u16 \<Rightarrow> nat option" where
  "button_bit code =
     (if code = 0x110 then Some 0 else if code = 0x111 then Some 1 else if code = 0x112 then Some 2
      else if code = 0x113 then Some 3 else if code = 0x114 then Some 4
      else if code = 0x115 then Some 5 else if code = 0x116 then Some 6 else None)"

text \<open>\<^verbatim>\<open>(uint8_t)(1u << n)\<close>: the shift is made on 32 bits and then truncated.\<close>

definition bit8 :: "nat \<Rightarrow> u8" where
  "bit8 n = ucast (push_bit n (1 :: u32))"

definition bit8_not :: "nat \<Rightarrow> u8" where
  "bit8_not n = ucast (NOT (push_bit n (1 :: u32)))"

definition handle_key :: "virtio_input \<Rightarrow> input_event \<Rightarrow> char_ring \<Rightarrow> virtio_input \<times> char_ring" where
  "handle_key vi ev r =
     (let code = ev_code ev; v = ev_value ev in
      if code \<ge> 0x100 then
        (let vi = vi\<lparr>vi_saw_buttons := True\<rparr> in
         case button_bit code of
           None \<Rightarrow> (vi, r)
         | Some b \<Rightarrow>
             (vi\<lparr>vi_mouse_buttons := (if v \<noteq> 0 then vi_mouse_buttons vi OR bit8 b
                                   else vi_mouse_buttons vi AND bit8_not b)\<rparr>, r))
      else if code = KEY_LEFT_SHIFT \<or> code = KEY_RIGHT_SHIFT then
        (let k = unat (code - KEY_LEFT_SHIFT) in
         (vi\<lparr>vi_shift_state := (if v \<noteq> 0 then vi_shift_state vi OR bit8 k
                             else vi_shift_state vi AND bit8_not k)\<rparr>, r))
      else
        (let c = keycode_to_char code (vi_shift_state vi) in
         if v \<noteq> 0 then (vi\<lparr>vi_saw_keys := True\<rparr>, if c \<noteq> 0 \<and> v = 1 then vkey_push c r else r)
         else (vi, r)))"

definition virtio_input_handle_event ::
    "virtio_input \<Rightarrow> input_event \<Rightarrow> u32 \<Rightarrow> char_ring \<Rightarrow> virtio_input \<times> char_ring" where
  "virtio_input_handle_event vi ev len r =
     (if len < 8 then (vi\<lparr>vi_events_dropped := vi_events_dropped vi + 1\<rparr>, r)
      else
        (let (vi, r) =
           (if ev_type ev = EV_SYN then (vi\<lparr>vi_events_syn := vi_events_syn vi + 1\<rparr>, r)
            else if ev_type ev = EV_KEY then
              handle_key (vi\<lparr>vi_events_key := vi_events_key vi + 1\<rparr>) ev r
            else if ev_type ev = EV_REL then
              (let vi = vi\<lparr>vi_events_rel := vi_events_rel vi + 1\<rparr> in
               if ev_code ev = REL_X then (vi\<lparr>vi_mouse_dx := vi_mouse_dx vi + ev_value ev\<rparr>, r)
               else if ev_code ev = REL_Y then (vi\<lparr>vi_mouse_dy := vi_mouse_dy vi + ev_value ev\<rparr>, r)
               else (vi, r))
            else if ev_type ev = EV_ABS then (vi\<lparr>vi_events_abs := vi_events_abs vi + 1\<rparr>, r)
            else if ev_type ev = EV_MSC then (vi\<lparr>vi_events_msc := vi_events_msc vi + 1\<rparr>, r)
            else (vi\<lparr>vi_events_dropped := vi_events_dropped vi + 1\<rparr>, r))
         in (vi\<lparr>vi_events_total := vi_events_total vi + 1\<rparr>, r)))"

text \<open>
  The loop of \<^verbatim>\<open>virtio_input_drain\<close>; the last component counts the recycled descriptors. What the
  device has published is fixed while the loop runs.
\<close>

definition drain_one :: "virtio_input \<Rightarrow> u16 \<Rightarrow> u32 \<Rightarrow> char_ring \<Rightarrow> (virtio_input \<times> char_ring) option" where
  "drain_one vi did len r =
     (if unat did < VIRTIO_INPUT_MAX_QUEUE
      then do { ev \<leftarrow> rd (vi_events vi) (unat did); Some (virtio_input_handle_event vi ev len r) }
      else Some (vi\<lparr>vi_events_dropped := vi_events_dropped vi + 1\<rparr>, r))"

partial_function (option) drain_loop ::
    "virtio_input \<Rightarrow> char_ring \<Rightarrow> nat \<Rightarrow> (virtio_input \<times> char_ring \<times> nat) option" where
  "drain_loop vi r n =
     do { (used, d1) \<leftarrow> virtio_queue_pop_used 0 (vi_vdev vi);
          case used of
            None \<Rightarrow> Some (vi, r, n)
          | Some (did, len) \<Rightarrow>
              do { (vi2, r2) \<leftarrow> drain_one (vi\<lparr>vi_vdev := d1\<rparr>) did len r;
                   d3 \<leftarrow> virtio_queue_recycle 0 did (vi_vdev vi2);
                   drain_loop (vi2\<lparr>vi_vdev := d3\<rparr>) r2 (Suc n) } }"

definition virtio_input_drain :: "virtio_input \<Rightarrow> char_ring \<Rightarrow> (virtio_input \<times> char_ring) option" where
  "virtio_input_drain vi r =
     do { (vi1, r1, n) \<leftarrow> drain_loop vi r 0;
          if n > 0 then do { d \<leftarrow> virtio_queue_kick 0 (vi_vdev vi1); Some (vi1\<lparr>vi_vdev := d\<rparr>, r1) }
          else Some (vi1, r1) }"

text \<open>\<open>isr\<close> is the byte that reading the ISR register yields.\<close>

definition virtio_input_irq :: "u8 \<Rightarrow> virtio_input \<Rightarrow> char_ring \<Rightarrow> (virtio_input \<times> char_ring) option" where
  "virtio_input_irq isr vi r =
     (if isr = 0 then Some (vi, r)
      else (let vi = vi\<lparr>vi_irq_count := vi_irq_count vi + 1\<rparr> in
            if isr AND 1 \<noteq> 0 then virtio_input_drain vi r else Some (vi, r)))"

fun virtio_input_poll :: "virtio_input list \<Rightarrow> char_ring \<Rightarrow> (virtio_input list \<times> char_ring) option" where
  "virtio_input_poll [] r = Some ([], r)"
| "virtio_input_poll (vi # vis) r =
     (if \<not> vi_valid vi then
        do { (vis', r') \<leftarrow> virtio_input_poll vis r; Some (vi # vis', r') }
      else do { (vi1, r1) \<leftarrow> virtio_input_drain vi r;
                (vis', r') \<leftarrow> virtio_input_poll vis r1; Some (vi1 # vis', r') })"

fun mouse_delta_loop :: "virtio_input list \<Rightarrow> u32 \<Rightarrow> u32 \<Rightarrow> u8 \<Rightarrow>
    (u32 \<times> u32 \<times> u8) \<times> virtio_input list" where
  "mouse_delta_loop [] dx dy b = ((dx, dy, b), [])"
| "mouse_delta_loop (vi # vis) dx dy b =
     (if \<not> vi_valid vi then (let (out, vis') = mouse_delta_loop vis dx dy b in (out, vi # vis'))
      else (let (out, vis') = mouse_delta_loop vis (dx + vi_mouse_dx vi) (dy + vi_mouse_dy vi)
                  (b OR vi_mouse_buttons vi)
            in (out, vi\<lparr>vi_mouse_dx := 0, vi_mouse_dy := 0\<rparr> # vis')))"

definition virtio_mouse_get_delta ::
    "virtio_input list \<Rightarrow> (bool \<times> u32 \<times> u32 \<times> u8) \<times> virtio_input list" where
  "virtio_mouse_get_delta vis =
     (let ((dx, dy, b), vis') = mouse_delta_loop vis 0 0 0 in ((dx \<noteq> 0 \<or> dy \<noteq> 0, dx, dy, b), vis'))"

definition count_valid :: "(virtio_input \<Rightarrow> u64) \<Rightarrow> virtio_input list \<Rightarrow> u64" where
  "count_valid f vis = sum_list (map f (filter vi_valid vis))"

section \<open>Initialisation\<close>

text \<open>
  What lies outside the driver: the PCI functions, their registers and device configuration, what
  fresh pages hold, and the addresses of the interrupt function and of the static nodes.
\<close>

record vinput_env =
  ve_space :: pci_space
  ve_hw :: "nat \<Rightarrow> mmio_dev"
  ve_cfg :: "nat \<Rightarrow> nat \<Rightarrow> u8"
  ve_pages :: page_view
  ve_event_page :: "u64 \<Rightarrow> input_event list"
  ve_irq_fn :: u64
  ve_ports :: "u16 \<Rightarrow> u8"
  ve_node :: "nat \<Rightarrow> nat"

record vinput_state =
  vs_inputs :: "virtio_input list"
  vs_pmm :: pmm
  vs_idt :: idt_state
  vs_ports :: port_writes

definition virtio_input_read_name :: "(nat \<Rightarrow> u8) \<Rightarrow> virtio_input \<Rightarrow> virtio_input" where
  "virtio_input_read_name cfg vi =
     (if vd_device_cfg (vi_vdev vi) = 0 then vi
      else (let n = min (unat (cfg 2)) (VIRTIO_INPUT_MAX_NAME - 1)
            in vi\<lparr>vi_name := map (\<lambda>i. cfg (8 + i)) [0 ..< n] @ [0] @ drop (Suc n) (vi_name vi)\<rparr>))"

text \<open>The loop that gives every event buffer to the device, until the pool is empty.\<close>

fun post_buffers :: "nat list \<Rightarrow> u64 \<Rightarrow> virtio_device \<Rightarrow> virtio_device option" where
  "post_buffers [] phys d = Some d"
| "post_buffers (n # ns) phys d =
     do { (r, d1) \<leftarrow> virtio_queue_add_buffer_id 0 (phys + of_nat n * 8) 8 True d;
          case r of None \<Rightarrow> Some d1 | Some _ \<Rightarrow> post_buffers ns phys d1 }"

definition hook_irq :: "vinput_env \<Rightarrow> nat \<Rightarrow> u8 \<Rightarrow> virtio_input \<Rightarrow> vinput_state \<Rightarrow> virtio_input \<times> vinput_state" where
  "hook_irq env found irq vi s =
     (if irq \<noteq> 0 \<and> irq < 16 then
        (let (ok, idt) = idt_register_irq_handler irq (ve_irq_fn env) (of_nat found) (ve_node env found) (vs_idt s)
         in if ok then (vi\<lparr>vi_use_irq := True, vi_irq := irq\<rparr>,
                        s\<lparr>vs_idt := idt, vs_ports := vs_ports s @ pic_unmask_irq (ve_ports env) irq\<rparr>)
            else (vi, s))
      else (vi, s))"

text \<open>
  One turn of the loop over the PCI table for a modern input device, on the slot \<open>found\<close>; the
  result says whether the device is ready. Every failure leaves the slot unused.
\<close>

definition virtio_input_probe ::
    "vinput_env \<Rightarrow> u64 \<Rightarrow> nat \<Rightarrow> pci_device \<Rightarrow> nat \<Rightarrow> vinput_state \<Rightarrow> (bool \<times> vinput_state) option" where
  "virtio_input_probe env hhdm i p found s =
     (let hw = ve_hw env i;
          vi = (vs_inputs s ! found)\<lparr>vi_index := of_nat found\<rparr>;
          put = (\<lambda>vi s. s\<lparr>vs_inputs := (vs_inputs s)[found := vi]\<rparr>)
      in do { (ok, d) \<leftarrow> virtio_device_init (ve_space env) hw p hhdm (vi_vdev vi);
           if \<not> ok then Some (False, put (vi\<lparr>vi_vdev := d\<rparr>) s)
           else (let (ok, d) = virtio_device_finish_features hw (virtio_device_set_feature 0 d) in
             if \<not> ok then Some (False, put (vi\<lparr>vi_vdev := d\<rparr>) s)
             else (let (sz, d) = virtio_queue_size hw 0 d;
                       sz = (if unat sz > VIRTIO_INPUT_MAX_QUEUE then of_nat VIRTIO_INPUT_MAX_QUEUE else sz)
               in do { (ok, d, pm) \<leftarrow> virtio_queue_init (ve_pages env) hw 0 sz d (vs_pmm s);
                    if \<not> ok then Some (False, put (vi\<lparr>vi_vdev := d\<rparr>) (s\<lparr>vs_pmm := pm\<rparr>))
                    else do { (pa, pm) \<leftarrow> pmm_alloc_page pm;
                      if pa = 0 then
                        Some (False, put (vi\<lparr>vi_vdev := d, vi_events_phys := 0\<rparr>) (s\<lparr>vs_pmm := pm\<rparr>))
                      else do { d \<leftarrow> post_buffers [0 ..< unat sz] pa d;
                        d \<leftarrow> virtio_queue_kick 0 d;
                        (let vi = virtio_input_read_name (ve_cfg env i)
                               (vi\<lparr>vi_vdev := d, vi_events_phys := pa, vi_events := ve_event_page env pa\<rparr>);
                             irq = pci_config_read8 (ve_space env) (pd_bus p) (pd_dev p) (pd_func p) 0x3C;
                             (vi, s) = hook_irq env found irq vi (s\<lparr>vs_pmm := pm\<rparr>);
                             d = virtio_device_set_driver_ok hw (vi_vdev vi)
                         in Some (True, put (vi\<lparr>vi_vdev := d, vi_valid := True\<rparr>) s)) } } })) })"

text \<open>The loop itself: vendor 0x1AF4, the modern id 0x1052 (a legacy 0x1012 is only reported).\<close>

fun virtio_input_scan ::
    "vinput_env \<Rightarrow> u64 \<Rightarrow> (nat \<times> pci_device) list \<Rightarrow> nat \<Rightarrow> vinput_state \<Rightarrow> (nat \<times> vinput_state) option" where
  "virtio_input_scan env hhdm [] found s = Some (found, s)"
| "virtio_input_scan env hhdm ((i, p) # ps) found s =
     (if found \<ge> VIRTIO_INPUT_MAX_DEVICES then Some (found, s)
      else if pd_vendor p \<noteq> 0x1AF4 \<or> (pd_device_id p \<noteq> 0x1052 \<and> pd_device_id p \<noteq> 0x1012) then
        virtio_input_scan env hhdm ps found s
      else if pd_device_id p \<noteq> 0x1052 then
        virtio_input_scan env hhdm ps found
          (s\<lparr>vs_inputs := (vs_inputs s)[found := (vs_inputs s ! found)\<lparr>vi_index := of_nat found\<rparr>]\<rparr>)
      else do { (ok, s') \<leftarrow> virtio_input_probe env hhdm i p found s;
                virtio_input_scan env hhdm ps (if ok then Suc found else found) s' })"

definition virtio_input_init ::
    "vinput_env \<Rightarrow> u64 \<Rightarrow> pci_device list \<Rightarrow> vinput_state \<Rightarrow> (nat \<times> vinput_state) option" where
  "virtio_input_init env hhdm table s =
     virtio_input_scan env hhdm (zip [0 ..< length table] table) 0 s"

section \<open>The character queue\<close>

interpretation vkey_fifo: bounded_fifo vkey_push virtio_keyboard_read_char "ring_contents 256" 255 "ring_inv 256"
proof -
  have "vkey_push = ring_push 256" and "virtio_keyboard_read_char = ring_pop 256"
    by (simp_all add: vkey_push_def virtio_keyboard_read_char_def VKEY_BUF_SIZE_def fun_eq_iff)
  then show "bounded_fifo vkey_push virtio_keyboard_read_char (ring_contents 256) 255 (ring_inv 256)"
    using ring_bounded_fifo [of 256] by simp
qed

section \<open>The drain\<close>

text \<open>The elements the device has published and the driver has not consumed, oldest first.\<close>

definition pending :: "virtio_vq \<Rightarrow> (u32 \<times> u32) list" where
  "pending vq =
     map (\<lambda>k. vq_used_ring vq ! unat ((vq_used_idx vq + of_nat k) mod vq_size vq))
       [0 ..< unat (vq_used_hw_idx vq - vq_used_idx vq)]"

text \<open>
  The specification of the drain: the events are handled one after the other, and the valid
  descriptors are published again in the same order.
\<close>

fun handle_all :: "(u32 \<times> u32) list \<Rightarrow> virtio_input \<Rightarrow> char_ring \<Rightarrow> virtio_input \<times> char_ring" where
  "handle_all [] vi r = (vi, r)"
| "handle_all ((i, len) # us) vi r =
     (let did = (ucast i :: u16);
          (vi1, r1) = (if unat did < VIRTIO_INPUT_MAX_QUEUE
                       then virtio_input_handle_event vi (vi_events vi ! unat did) len r
                       else (vi\<lparr>vi_events_dropped := vi_events_dropped vi + 1\<rparr>, r))
      in handle_all us vi1 r1)"

fun publish_all :: "u16 list \<Rightarrow> virtio_vq \<Rightarrow> virtio_vq" where
  "publish_all [] vq = vq"
| "publish_all (i # is) vq =
     publish_all is (if i < vq_size vq then
         vq\<lparr>vq_avail_ring := (vq_avail_ring vq)[unat (vq_avail_idx vq mod vq_size vq) := i],
            vq_avail_idx := vq_avail_idx vq + 1, vq_avail_hw_idx := vq_avail_idx vq + 1\<rparr> else vq)"

lemma vdev_commute:
  "(vi\<lparr>vi_vdev := d\<rparr>)\<lparr>vi_events_dropped := n\<rparr> = (vi\<lparr>vi_events_dropped := n\<rparr>)\<lparr>vi_vdev := d\<rparr>"
  "(vi\<lparr>vi_vdev := d\<rparr>)\<lparr>vi_events_key := n\<rparr> = (vi\<lparr>vi_events_key := n\<rparr>)\<lparr>vi_vdev := d\<rparr>"
  "(vi\<lparr>vi_vdev := d\<rparr>)\<lparr>vi_events_total := n\<rparr> = (vi\<lparr>vi_events_total := n\<rparr>)\<lparr>vi_vdev := d\<rparr>"
  by (cases vi; simp)+

lemma handle_key_frame:
  "handle_key (vi\<lparr>vi_vdev := d\<rparr>) ev r = apfst (\<lambda>v. v\<lparr>vi_vdev := d\<rparr>) (handle_key vi ev r)"
  by (cases vi; cases "button_bit (ev_code ev)") (simp_all add: handle_key_def Let_def)

lemma handle_event_frame:
  "virtio_input_handle_event (vi\<lparr>vi_vdev := d\<rparr>) ev len r =
     apfst (\<lambda>v. v\<lparr>vi_vdev := d\<rparr>) (virtio_input_handle_event vi ev len r)"
proof (cases "len < 8")
  case True
  then show ?thesis by (cases vi) (simp add: virtio_input_handle_event_def)
next
  case False
  show ?thesis
  proof (cases "ev_type ev = EV_KEY")
    case True
    show ?thesis
      using False True handle_key_frame [where vi = "vi\<lparr>vi_events_key := vi_events_key vi + 1\<rparr>" and d = d and ev = ev and r = r]
      by (simp add: virtio_input_handle_event_def EV_KEY_def EV_SYN_def vdev_commute split: prod.splits)
  next
    case False
    with \<open>\<not> len < 8\<close> show ?thesis
      by (cases vi) (simp add: virtio_input_handle_event_def Let_def)
  qed
qed

lemma handle_key_keeps:
  "handle_key vi ev r = (vi', r') \<Longrightarrow> vi_vdev vi' = vi_vdev vi \<and> vi_events vi' = vi_events vi"
  by (auto simp: handle_key_def Let_def split: if_splits option.splits)

lemma handle_event_keeps:
  "virtio_input_handle_event vi ev len r = (vi', r') \<Longrightarrow>
     vi_vdev vi' = vi_vdev vi \<and> vi_events vi' = vi_events vi"
  using handle_key_keeps [where vi = "vi\<lparr>vi_events_key := vi_events_key vi + 1\<rparr>" and ev = ev and r = r]
  by (auto simp: virtio_input_handle_event_def Let_def split: if_splits prod.splits)

lemma handle_all_frame:
  "handle_all us (vi\<lparr>vi_vdev := d\<rparr>) r = apfst (\<lambda>v. v\<lparr>vi_vdev := d\<rparr>) (handle_all us vi r)"
proof (induction us arbitrary: vi r)
  case Nil
  then show ?case by simp
next
  case (Cons u us)
  obtain i len where u: "u = (i, len)" by (cases u) auto
  show ?case
    using Cons.IH by (simp add: u Let_def handle_event_frame vdev_commute split: prod.splits)
qed

lemma pending_Cons:
  assumes "vq_used_idx vq \<noteq> vq_used_hw_idx vq"
  shows "pending vq = vq_used_ring vq ! unat (vq_used_idx vq mod vq_size vq)
    # pending (vq\<lparr>vq_used_idx := vq_used_idx vq + 1\<rparr>)"
proof -
  let ?m = "vq_used_hw_idx vq - vq_used_idx vq"
  have "?m \<noteq> 0" using assms by simp
  then have "unat ?m = Suc (unat (?m - 1))" by (simp add: unat_minus_one unat_gt_0)
  moreover have "?m - 1 = vq_used_hw_idx vq - (vq_used_idx vq + 1)" by simp
  ultimately have "unat ?m = Suc (unat (vq_used_hw_idx vq - (vq_used_idx vq + 1)))" by simp
  then show ?thesis
    unfolding pending_def
    by (simp add: upt_conv_Cons map_Suc_upt [symmetric] add.assoc del: upt_Suc)
qed

lemma pending_Nil: "vq_used_idx vq = vq_used_hw_idx vq \<Longrightarrow> pending vq = []"
  by (simp add: pending_def)

lemma pop_used_some:
  assumes ok: "vq_ok q d" and ne: "vq_used_idx (vd_vq d ! q) \<noteq> vq_used_hw_idx (vd_vq d ! q)"
  shows "\<exists>i len. hd (pending (vd_vq d ! q)) = (i, len)
    \<and> virtio_queue_pop_used q d = Some (Some (ucast i, len),
        set_vq q ((vd_vq d ! q)\<lparr>vq_used_idx := vq_used_idx (vd_vq d ! q) + 1\<rparr>) d)
    \<and> vq_ok q (set_vq q ((vd_vq d ! q)\<lparr>vq_used_idx := vq_used_idx (vd_vq d ! q) + 1\<rparr>) d)"
proof -
  let ?vq = "vd_vq d ! q"
  have inv: "vq_inv ?vq" and q: "q < VIRTIO_MAX_QUEUES" "q < length (vd_vq d)"
    using ok by (simp_all add: vq_ok_def)
  have "0 < unat (vq_size ?vq)" using inv by (simp add: vq_inv_def word_less_nat_alt)
  then have "unat (vq_used_idx ?vq mod vq_size ?vq) < unat (vq_size ?vq)"
    by (simp add: unat_mod_distrib)
  then have lt: "unat (vq_used_idx ?vq mod vq_size ?vq) < length (vq_used_ring ?vq)"
    using inv by (simp add: vq_inv_def)
  obtain i len where e: "vq_used_ring ?vq ! unat (vq_used_idx ?vq mod vq_size ?vq) = (i, len)"
    by fastforce
  have "vq_size ?vq \<noteq> 0" using inv by (auto simp: vq_inv_def)
  then have "virtio_queue_pop_used q d = Some (Some (ucast i, len),
      set_vq q (?vq\<lparr>vq_used_idx := vq_used_idx ?vq + 1\<rparr>) d)"
    using q ne lt e by (simp add: virtio_queue_pop_used_def rd_Some)
  moreover have "vq_inv (?vq\<lparr>vq_used_idx := vq_used_idx ?vq + 1\<rparr>)"
    using inv by (simp add: vq_inv_def vq_free_def)
  ultimately show ?thesis
    using e q pending_Cons [OF ne] by (simp add: vq_ok_def set_vq_def)
qed

lemma recycle_some:
  assumes ok: "vq_ok q d"
  shows "\<exists>d'. virtio_queue_recycle q i d = Some d' \<and> vq_ok q d'
    \<and> vd_vq d' ! q = publish_all [i] (vd_vq d ! q) \<and> vd_log d' = vd_log d
    \<and> pending (vd_vq d' ! q) = pending (vd_vq d ! q)"
proof (cases "i < vq_size (vd_vq d ! q)")
  case True
  from submit_some [OF ok this] show ?thesis
    unfolding recycle_submit using True by (auto simp: pending_def)
next
  case False
  then have "virtio_queue_recycle q i d = Some d"
    using ok by (simp add: virtio_queue_recycle_def vq_ok_def rd_Some not_less)
  then show ?thesis using ok False by simp
qed

lemma drain_loop_spec:
  assumes "vq_ok 0 (vi_vdev vi)" and "256 \<le> length (vi_events vi)"
    and "pending (vd_vq (vi_vdev vi) ! 0) = us"
  shows "\<exists>d'. drain_loop vi r n =
      Some ((fst (handle_all us vi r))\<lparr>vi_vdev := d'\<rparr>, snd (handle_all us vi r), n + length us)
    \<and> vq_ok 0 d' \<and> vd_log d' = vd_log (vi_vdev vi)
    \<and> vd_vq d' ! 0 = publish_all (map (\<lambda>u. ucast (fst u)) us)
        ((vd_vq (vi_vdev vi) ! 0)\<lparr>vq_used_idx := vq_used_hw_idx (vd_vq (vi_vdev vi) ! 0)\<rparr>)"
  using assms
proof (induction us arbitrary: vi r n)
  case Nil
  let ?vq = "vd_vq (vi_vdev vi) ! 0"
  have eq: "vq_used_idx ?vq = vq_used_hw_idx ?vq"
    using Nil.prems(3) pending_Cons [of ?vq] by fastforce
  then have "virtio_queue_pop_used 0 (vi_vdev vi) = Some (None, vi_vdev vi)"
    using Nil.prems(1) by (simp add: virtio_queue_pop_used_def vq_ok_def rd_Some)
  then have "drain_loop vi r n = Some (vi, r, n)" by (subst drain_loop.simps) simp
  moreover have "?vq\<lparr>vq_used_idx := vq_used_hw_idx ?vq\<rparr> = ?vq" using eq by (metis virtio_vq.surjective virtio_vq.update_convs(5))
  ultimately show ?case using Nil.prems(1) by (intro exI [of _ "vi_vdev vi"]) simp
next
  case (Cons u us)
  let ?vq = "vd_vq (vi_vdev vi) ! 0"
  have ne: "vq_used_idx ?vq \<noteq> vq_used_hw_idx ?vq" using Cons.prems(3) pending_Nil by fastforce
  let ?vq1 = "?vq\<lparr>vq_used_idx := vq_used_idx ?vq + 1\<rparr>"
  let ?d1 = "set_vq 0 ?vq1 (vi_vdev vi)"
  obtain i len where u: "u = (i, len)" and
    pop: "virtio_queue_pop_used 0 (vi_vdev vi) = Some (Some (ucast i, len), ?d1)" and ok1: "vq_ok 0 ?d1"
    using pop_used_some [OF Cons.prems(1) ne] Cons.prems(3) by auto
  have vq1: "vd_vq ?d1 ! 0 = ?vq1" using Cons.prems(1) by (simp add: set_vq_def vq_ok_def)
  have us: "pending ?vq1 = us" using pending_Cons [OF ne] Cons.prems(3) by simp
  define did where "did = (ucast i :: u16)"
  obtain vh rh where h: "handle_all [u] vi r = (vh, rh)" by fastforce
  have one: "drain_one (vi\<lparr>vi_vdev := ?d1\<rparr>) did len r = Some (vh\<lparr>vi_vdev := ?d1\<rparr>, rh)"
    using h Cons.prems(2)
    by (auto simp: drain_one_def u did_def Let_def rd_Some VIRTIO_INPUT_MAX_QUEUE_def
        handle_event_frame vdev_commute split: prod.splits if_splits)
  obtain d3 where d3: "virtio_queue_recycle 0 did ?d1 = Some d3" "vq_ok 0 d3"
    "vd_vq d3 ! 0 = publish_all [did] ?vq1" "vd_log d3 = vd_log ?d1" "pending (vd_vq d3 ! 0) = us"
    using recycle_some [OF ok1, of did] vq1 us by auto
  have ev: "vi_events vh = vi_events vi"
    using h handle_event_keeps [of vi "vi_events vi ! unat (ucast i :: u16)" len r]
    by (auto simp: u Let_def split: if_splits prod.splits)
  have step: "drain_loop vi r n = drain_loop (vh\<lparr>vi_vdev := d3\<rparr>) rh (Suc n)"
    using pop one d3(1) by (subst drain_loop.simps) (simp add: did_def)
  have all: "handle_all (u # us) vi r = handle_all us vh rh"
    using h by (auto simp: u Let_def split: prod.splits if_splits)
  have pub: "(publish_all [did] ?vq1)\<lparr>vq_used_idx := vq_used_hw_idx (publish_all [did] ?vq1)\<rparr>
      = publish_all [did] (?vq\<lparr>vq_used_idx := vq_used_hw_idx ?vq\<rparr>)"
    by (cases ?vq) simp
  have logs: "vd_log ?d1 = vd_log (vi_vdev vi)" by (simp add: set_vq_def)
  from Cons.IH [of "vh\<lparr>vi_vdev := d3\<rparr>" rh "Suc n"] d3 ev Cons.prems(2) obtain d' where
    "drain_loop (vh\<lparr>vi_vdev := d3\<rparr>) rh (Suc n) =
      Some ((fst (handle_all us vh rh))\<lparr>vi_vdev := d'\<rparr>, snd (handle_all us vh rh), Suc n + length us)"
    "vq_ok 0 d'" "vd_log d' = vd_log (vi_vdev vi)"
    "vd_vq d' ! 0 = publish_all (map (\<lambda>u. ucast (fst u)) us)
        (publish_all [did] (?vq\<lparr>vq_used_idx := vq_used_hw_idx ?vq\<rparr>))"
    unfolding handle_all_frame
    by (auto simp: pub logs simp del: publish_all.simps)
  moreover have "publish_all (map (\<lambda>u. ucast (fst u)) us) (publish_all [did] vq)
      = publish_all (map (\<lambda>u. ucast (fst u)) (u # us)) vq" for vq
    by (simp add: u did_def)
  ultimately show ?case unfolding step all
    by (intro exI [of _ d']) (simp del: publish_all.simps)
qed

section \<open>Posting the buffers\<close>

text \<open>
  After \<open>k\<close> buffers have been posted: descriptors 0 to \<open>k - 1\<close> point at the first \<open>k\<close> event slots, the
  available ring lists them, and the others are still in the pool.
\<close>

definition posted :: "u64 \<Rightarrow> nat \<Rightarrow> nat \<Rightarrow> virtio_device \<Rightarrow> bool" where
  "posted phys n k d \<longleftrightarrow>
     (let vq = vd_vq d ! 0 in
      vq_ok 0 d \<and> vq_size vq = of_nat n \<and> vq_free vq = map of_nat [k ..< n]
    \<and> vq_avail_idx vq = of_nat k
    \<and> (\<forall>j < k. vq_desc vq ! j =
          \<lparr>qd_addr = phys + of_nat j * 8, qd_len = 8, qd_flags = VIRTQ_DESC_F_WRITE, qd_next = 0\<rparr>)
    \<and> (\<forall>j < k. vq_avail_ring vq ! j = of_nat j))"

lemma posted_step:
  assumes p: "posted phys n k d" and kn: "k < n" "n \<le> 256"
  shows "\<exists>d'. virtio_queue_add_buffer_id 0 (phys + of_nat k * 8) 8 True d = Some (Some (of_nat k), d')
    \<and> posted phys n (Suc k) d'"
proof -
  let ?vq = "vd_vq d ! 0"
  have ok: "vq_ok 0 d" and fr: "vq_free ?vq = of_nat k # map of_nat [Suc k ..< n]"
    and idx: "vq_avail_idx ?vq = of_nat k" and sz: "vq_size ?vq = of_nat n"
    using p kn by (simp_all add: posted_def Let_def upt_conv_Cons)
  have u: "unat (of_nat k :: u16) = k" "unat (of_nat n :: u16) = n"
    using kn by (simp_all add: unat_of_nat_lt)
  have slot: "unat (of_nat k mod of_nat n :: u16) = k"
    using kn u by (simp add: unat_mod_distrib)
  have len: "length (vq_desc ?vq) = 256" "length (vq_avail_ring ?vq) = 2046"
    using ok by (simp_all add: vq_ok_def vq_inv_def)
  obtain d' where d': "virtio_queue_add_buffer_id 0 (phys + of_nat k * 8) 8 True d = Some (Some (of_nat k), d')"
    "vq_ok 0 d'" "vq_free (vd_vq d' ! 0) = map of_nat [Suc k ..< n]" "vq_size (vd_vq d' ! 0) = of_nat n"
    "vq_desc (vd_vq d' ! 0) = (vq_desc ?vq)[k := \<lparr>qd_addr = phys + of_nat k * 8, qd_len = 8,
        qd_flags = VIRTQ_DESC_F_WRITE, qd_next = 0\<rparr>]"
    "vq_avail_ring (vd_vq d' ! 0) = (vq_avail_ring ?vq)[k := of_nat k]"
    "vq_avail_idx (vd_vq d' ! 0) = of_nat k + 1"
    using add_buffer_some [OF ok fr, of "phys + of_nat k * 8" 8 True] unfolding u sz idx slot by auto
  have "\<forall>j < Suc k. vq_desc (vd_vq d' ! 0) ! j =
      \<lparr>qd_addr = phys + of_nat j * 8, qd_len = 8, qd_flags = VIRTQ_DESC_F_WRITE, qd_next = 0\<rparr>"
    "\<forall>j < Suc k. vq_avail_ring (vd_vq d' ! 0) ! j = of_nat j"
    using p kn len unfolding d'(5,6) by (auto simp: posted_def Let_def less_Suc_eq)
  then show ?thesis using d' by (simp add: posted_def Let_def)
qed

lemma posted_all:
  "posted phys n k d \<Longrightarrow> k \<le> n \<Longrightarrow> n \<le> 256 \<Longrightarrow>
   \<exists>d'. post_buffers [k ..< n] phys d = Some d' \<and> posted phys n n d'"
proof (induction "n - k" arbitrary: k d)
  case 0
  then show ?case by auto
next
  case (Suc m)
  then have k: "k < n" by simp
  from posted_step [OF Suc.prems(1) k Suc.prems(3)] obtain d1 where
    d1: "virtio_queue_add_buffer_id 0 (phys + of_nat k * 8) 8 True d = Some (Some (of_nat k), d1)"
    "posted phys n (Suc k) d1" by blast
  have "m = n - Suc k" using Suc.hyps(2) by simp
  from Suc.hyps(1) [OF this d1(2)] k Suc.prems(3) d1(1) show ?case
    by (simp add: upt_conv_Cons)
qed

section \<open>Properties\<close>

text \<open>C35. One drain handles every event that the device has published and the driver has not yet
  seen, each exactly once and in order, consumes all of them, gives the valid buffers back to the
  device in the same order, and notifies the device once if there was any event. It always ends
  and never leaves a ring.\<close>

theorem virtio_input_drain_exact:
  assumes ok: "vq_ok 0 (vi_vdev vi)" and ev: "256 \<le> length (vi_events vi)"
  defines "vq \<equiv> vd_vq (vi_vdev vi) ! 0"
  shows "\<exists>d'. virtio_input_drain vi r =
      Some ((fst (handle_all (pending vq) vi r))\<lparr>vi_vdev := d'\<rparr>, snd (handle_all (pending vq) vi r))
    \<and> vq_ok 0 d' \<and> pending (vd_vq d' ! 0) = []
    \<and> vd_vq d' ! 0 = publish_all (map (\<lambda>u. ucast (fst u)) (pending vq)) (vq\<lparr>vq_used_idx := vq_used_hw_idx vq\<rparr>)
    \<and> vd_log d' = (if pending vq = [] then [] else [Notify (vq_notify_addr vq)]) @ vd_log (vi_vdev vi)"
proof -
  obtain d where d: "drain_loop vi r 0 = Some ((fst (handle_all (pending vq) vi r))\<lparr>vi_vdev := d\<rparr>,
      snd (handle_all (pending vq) vi r), length (pending vq))"
    "vq_ok 0 d" "vd_log d = vd_log (vi_vdev vi)"
    "vd_vq d ! 0 = publish_all (map (\<lambda>u. ucast (fst u)) (pending vq)) (vq\<lparr>vq_used_idx := vq_used_hw_idx vq\<rparr>)"
    using drain_loop_spec [OF ok ev, of "pending vq" r 0] by (auto simp: vq_def)
  have pub: "vq_used_idx (publish_all is v) = vq_used_idx v \<and> vq_used_hw_idx (publish_all is v) = vq_used_hw_idx v
      \<and> vq_notify_addr (publish_all is v) = vq_notify_addr v" for "is" v
    by (induction "is" arbitrary: v) auto
  have dn: "pending (vd_vq d ! 0) = []" using pub by (intro pending_Nil) (simp add: d(4))
  have "rd (vd_vq d) 0 = Some (vd_vq d ! 0)" using d(2) by (simp add: vq_ok_def rd_Some)
  moreover have "vq_notify_addr (vd_vq d ! 0) = vq_notify_addr vq" using pub by (simp add: d(4))
  ultimately show ?thesis
    using d dn by (cases "pending vq = []")
      (auto simp: virtio_input_drain_def virtio_queue_kick_def VIRTIO_MAX_QUEUES_def vq_ok_def)
qed

text \<open>Posting the event buffers of a fresh queue of up to 256 descriptors makes descriptor
  \<open>j\<close> describe event slot \<open>j\<close>, write-only for the device, for every \<open>j\<close>, and offers all of them: so
  the slot that the drain reads for a completed descriptor is the one the device wrote.\<close>

theorem post_buffers_slots:
  assumes "vq_ok 0 d" and "vq_size (vd_vq d ! 0) = of_nat n" and "n \<le> 256"
    and "vq_free (vd_vq d ! 0) = map of_nat [0 ..< n]" and "vq_avail_idx (vd_vq d ! 0) = 0"
  shows "\<exists>d'. post_buffers [0 ..< n] phys d = Some d' \<and> vq_ok 0 d' \<and> vq_free (vd_vq d' ! 0) = []
    \<and> vq_avail_idx (vd_vq d' ! 0) = of_nat n
    \<and> (\<forall>j < n. vq_avail_ring (vd_vq d' ! 0) ! j = of_nat j
        \<and> vq_desc (vd_vq d' ! 0) ! j = \<lparr>qd_addr = phys + of_nat j * 8, qd_len = 8,
            qd_flags = VIRTQ_DESC_F_WRITE, qd_next = 0\<rparr>)"
proof -
  have "posted phys n 0 d" using assms by (simp add: posted_def Let_def)
  from posted_all [OF this _ assms(3)] show ?thesis by (auto simp: posted_def Let_def)
qed

theorem post_buffers_slots_witness:
  "\<exists>d'. post_buffers [0 ..< 4] 8192 vd_example = Some d' \<and> vq_free (vd_vq d' ! 0) = []
     \<and> qd_addr (vq_desc (vd_vq d' ! 0) ! 3) = 8216"
proof -
  have "vq_size (vd_vq vd_example ! 0) = of_nat 4" "vq_avail_idx (vd_vq vd_example ! 0) = 0"
    by code_simp+
  moreover have "vq_free (vd_vq vd_example ! 0) = map of_nat [0 ..< 4]"
    unfolding vd_example_free by code_simp
  ultimately show ?thesis
    using post_buffers_slots [OF vd_example_ok, of 4 8192] by auto
qed

text \<open>A device for the witnesses: the queue of \<open>vd_example\<close> with one completed event.\<close>

definition vi_example :: virtio_input where
  "vi_example = \<lparr>vi_valid = True, vi_index = 0,
     vi_vdev = vd_example\<lparr>vd_vq := [(vd_vq vd_example ! 0)\<lparr>vq_used_hw_idx := 1,
       vq_used_ring := (3, 8) # replicate 510 (0, 0)\<rparr>]\<rparr>,
     vi_name = replicate 48 0,
     vi_events = replicate 512 \<lparr>ev_type = EV_REL, ev_code = REL_X, ev_value = 5\<rparr>,
     vi_events_phys = 8192, vi_use_irq = False, vi_irq = 0, vi_saw_keys = False,
     vi_saw_buttons = False, vi_shift_state = 0, vi_mouse_dx = 0, vi_mouse_dy = 0,
     vi_mouse_buttons = 0, vi_events_total = 0, vi_events_key = 0, vi_events_rel = 0,
     vi_events_abs = 0, vi_events_msc = 0, vi_events_syn = 0, vi_events_dropped = 0,
     vi_irq_count = 0\<rparr>"

theorem virtio_input_drain_exact_witness:
  "\<exists>vi' r'. virtio_input_drain vi_example (ring_empty 256) = Some (vi', r') \<and> vi_mouse_dx vi' = 5
     \<and> vi_events_total vi' = 1 \<and> pending (vd_vq (vi_vdev vi') ! 0) = []"
proof -
  have "vq_ok 0 (vi_vdev vi_example)" "256 \<le> length (vi_events vi_example)"
    by code_simp+
  moreover have "vi_mouse_dx (fst (handle_all (pending (vd_vq (vi_vdev vi_example) ! 0)) vi_example (ring_empty 256))) = 5
      \<and> vi_events_total (fst (handle_all (pending (vd_vq (vi_vdev vi_example) ! 0)) vi_example (ring_empty 256))) = 1"
    by code_simp
  ultimately show ?thesis
    using virtio_input_drain_exact [of vi_example "ring_empty 256"] by auto
qed

lemma button_bit_less: "button_bit code = Some b \<Longrightarrow> b < 7 \<and> 0x100 \<le> code"
  by (auto simp: button_bit_def split: if_splits)

lemma bit_bit8: "b < 8 \<Longrightarrow> bit (bit8 b) n \<longleftrightarrow> n = b"
  by (auto simp: bit8_def bit_simps)

lemma bit_bit8_not: "n < 8 \<Longrightarrow> bit (bit8_not b) n \<longleftrightarrow> n \<noteq> b"
  by (auto simp: bit8_not_def bit_simps)

text \<open>A button event of a button that has a bit sets or clears exactly that bit of the mask,
  by whether the button is down, and counts as one key event and one event.\<close>

theorem virtio_input_button_tracks:
  assumes b: "button_bit (ev_code ev) = Some b" and ev: "ev_type ev = EV_KEY" "8 \<le> len" and n: "n < 8"
  shows "bit (vi_mouse_buttons (fst (virtio_input_handle_event vi ev len r))) n =
      (if n = b then ev_value ev \<noteq> 0 else bit (vi_mouse_buttons vi) n)
    \<and> snd (virtio_input_handle_event vi ev len r) = r
    \<and> vi_events_total (fst (virtio_input_handle_event vi ev len r)) = vi_events_total vi + 1"
  using button_bit_less [OF b] b ev n
  by (simp add: virtio_input_handle_event_def handle_key_def EV_KEY_def EV_SYN_def not_less [symmetric]
      bit_simps bit_bit8 bit_bit8_not Let_def)

theorem virtio_input_button_tracks_witness:
  "bit (vi_mouse_buttons (fst (virtio_input_handle_event vi_example
     \<lparr>ev_type = EV_KEY, ev_code = 0x112, ev_value = 1\<rparr> 8 (ring_empty 256)))) 2"
  using virtio_input_button_tracks [of "\<lparr>ev_type = EV_KEY, ev_code = 0x112, ev_value = 1\<rparr>" 2 8 2]
  by (simp add: button_bit_def)

text \<open>The left shift key is tracked by the driver, but an event for the right shift key never
  changes the shift state: the shift by twelve leaves no bit in the eight of the state.\<close>

theorem virtio_input_right_shift_lost:
  assumes ev: "ev_type ev = EV_KEY" "8 \<le> len"
  shows "(ev_code ev = KEY_LEFT_SHIFT \<longrightarrow>
      bit (vi_shift_state (fst (virtio_input_handle_event vi ev len r))) 0 = (ev_value ev \<noteq> 0))
    \<and> (ev_code ev = KEY_RIGHT_SHIFT \<longrightarrow>
      vi_shift_state (fst (virtio_input_handle_event vi ev len r)) = vi_shift_state vi)"
proof -
  have k: "bit8 12 = 0" "bit8_not 12 = - 1" "bit8 0 = 1" "bit8_not 0 = NOT 1" by code_simp+
  show ?thesis
    using ev by (auto simp: virtio_input_handle_event_def handle_key_def EV_KEY_def EV_SYN_def
        not_less [symmetric] KEY_LEFT_SHIFT_def KEY_RIGHT_SHIFT_def k bit_simps split: prod.splits)
qed

theorem virtio_input_right_shift_lost_witness:
  "vi_shift_state (fst (virtio_input_handle_event vi_example
     \<lparr>ev_type = EV_KEY, ev_code = KEY_RIGHT_SHIFT, ev_value = 1\<rparr> 8 (ring_empty 256))) = 0"
  using virtio_input_right_shift_lost [of "\<lparr>ev_type = EV_KEY, ev_code = KEY_RIGHT_SHIFT, ev_value = 1\<rparr>" 8
      vi_example "ring_empty 256"]
  by (simp add: vi_example_def)

end
