(* ===== verification/Virtio_Net.thy ===== *)
theory Virtio_Net
  imports Virtqueue Interrupts Inet
begin

text \<open>
  The network driver, \<^verbatim>\<open>kernel/drivers/virtio/virtio_net.c\<close>: transmission, reception into the
  inbox ring, and the responder for ARP and ICMP echo requests. The pages that the driver owns are
  a function from physical addresses to their 4096 bytes; \<open>cfg\<close> is what the bytes of the device
  configuration read. A write past a page or past the reply buffer on the stack is \<open>None\<close>.

  The lemmas show what the inbox keeps of the frames that arrive, that the reply to an ARP request
  is the right one, and what goes wrong with the reply to an echo request.
\<close>

section \<open>State\<close>

definition VIRTIO_NET_RX_QUEUE :: nat where "VIRTIO_NET_RX_QUEUE = 0"
definition VIRTIO_NET_TX_QUEUE :: nat where "VIRTIO_NET_TX_QUEUE = 1"
definition VIRTIO_NET_MAX_QUEUE :: nat where "VIRTIO_NET_MAX_QUEUE = 256"
definition VIRTIO_NET_INBOX :: nat where "VIRTIO_NET_INBOX = 32"
definition VIRTIO_NET_HDR_SIZE :: nat where "VIRTIO_NET_HDR_SIZE = 12"
definition VIRTIO_NET_MTU :: nat where "VIRTIO_NET_MTU = 1514"
definition VIRTIO_NET_RX_LEN :: nat where "VIRTIO_NET_RX_LEN = 1526"
definition ETH_HLEN :: nat where "ETH_HLEN = 14"
definition IPV4_HLEN :: nat where "IPV4_HLEN = 20"

record virtio_net =
  nn_present :: bool
  nn_vdev :: virtio_device
  nn_use_irq :: bool
  nn_irq :: u8
  nn_mac :: bytes
  nn_ip :: bytes
  nn_status :: u16
  nn_rx_phys :: "u64 list"
  nn_tx_phys :: "u64 list"
  nn_inbox_phys :: "u64 list"
  nn_inbox_len :: "nat list"
  nn_inbox_head :: nat
  nn_inbox_count :: nat
  nn_rx_packets :: u64
  nn_rx_dropped :: u64
  nn_tx_packets :: u64
  nn_tx_dropped :: u64
  nn_irq_count :: u64
  nn_mem :: "u64 \<Rightarrow> bytes"

type_synonym dev_cfg = "nat \<Rightarrow> u8"

definition page_write :: "u64 \<Rightarrow> nat \<Rightarrow> bytes \<Rightarrow> (u64 \<Rightarrow> bytes) \<Rightarrow> (u64 \<Rightarrow> bytes) option" where
  "page_write pa off bs mem = do { pg \<leftarrow> wr_range (mem pa) off bs; Some (mem(pa := pg)) }"

section \<open>Transmission\<close>

definition link_status :: "dev_cfg \<Rightarrow> u16" where
  "link_status cfg = ucast (cfg 6) OR push_bit 8 (ucast (cfg 7))"

definition net_link_up :: "dev_cfg \<Rightarrow> virtio_net \<Rightarrow> bool" where
  "net_link_up cfg n \<longleftrightarrow> nn_present n \<and> link_status cfg AND 1 \<noteq> 0"

text \<open>The result 0 is success, -1 failure.\<close>

definition net_send :: "dev_cfg \<Rightarrow> bytes \<Rightarrow> virtio_net \<Rightarrow> (int \<times> virtio_net) option" where
  "net_send cfg data n =
     (if \<not> nn_present n then Some (-1, n)
      else if length data < 14 \<or> length data > VIRTIO_NET_MTU then Some (-1, n)
      else if link_status cfg AND 1 = 0 then Some (-1, n\<lparr>nn_tx_dropped := nn_tx_dropped n + 1\<rparr>)
      else do { (r, d) \<leftarrow> virtio_queue_alloc_desc VIRTIO_NET_TX_QUEUE (nn_vdev n);
        case r of
          None \<Rightarrow> Some (-1, n\<lparr>nn_vdev := d, nn_tx_dropped := nn_tx_dropped n + 1\<rparr>)
        | Some did \<Rightarrow>
            do { pa \<leftarrow> rd (nn_tx_phys n) (unat did);
                 mem \<leftarrow> page_write pa 0 (replicate VIRTIO_NET_HDR_SIZE 0) (nn_mem n);
                 mem \<leftarrow> page_write pa VIRTIO_NET_HDR_SIZE data mem;
                 d \<leftarrow> virtio_queue_desc_fill VIRTIO_NET_TX_QUEUE did pa
                        (of_nat (VIRTIO_NET_HDR_SIZE + length data)) False d;
                 d \<leftarrow> virtio_queue_submit VIRTIO_NET_TX_QUEUE did d;
                 d \<leftarrow> virtio_queue_kick VIRTIO_NET_TX_QUEUE d;
                 Some (0, n\<lparr>nn_vdev := d, nn_mem := mem\<rparr>) } })"

section \<open>The responder\<close>

definition icmp_reply :: "bytes \<Rightarrow> bytes \<Rightarrow> bytes \<Rightarrow> nat \<Rightarrow> bytes \<Rightarrow> bytes option" where
  "icmp_reply mac ip p ihl_bytes src =
     (let icmp = drop ihl_bytes p;
          icmp_len = (if length icmp > 256 then 256 else length icmp)
      in do { out \<leftarrow> wr_range (replicate (ETH_HLEN + IPV4_HLEN + 256) 0) ETH_HLEN (take ihl_bytes p);
           out \<leftarrow> wr_range out (ETH_HLEN + ihl_bytes) (take icmp_len icmp);
           out \<leftarrow> wr_range out (ETH_HLEN + 12) ip;
           out \<leftarrow> wr_range out (ETH_HLEN + 16) (take 4 (drop 12 p));
           out \<leftarrow> wr out (ETH_HLEN + 9) 0x01;
           out \<leftarrow> wr_range out (ETH_HLEN + 10)
                    (bytes16 (ip_checksum (take ihl_bytes (drop ETH_HLEN out))));
           out \<leftarrow> wr out (ETH_HLEN + ihl_bytes) 0;
           out \<leftarrow> wr out (ETH_HLEN + ihl_bytes + 1) 0;
           out \<leftarrow> wr_range out (ETH_HLEN + ihl_bytes + 2) (bytes16 0);
           out \<leftarrow> wr_range out (ETH_HLEN + ihl_bytes + 2)
                    (bytes16 (ip_checksum (take icmp_len (drop (ETH_HLEN + ihl_bytes) out))));
           out \<leftarrow> wr_range out 0 src;
           out \<leftarrow> wr_range out 6 mac;
           out \<leftarrow> wr_range out 12 (bytes16 0x0800);
           rd_range out 0 (ETH_HLEN + ihl_bytes + icmp_len) })"

definition arp_reply :: "bytes \<Rightarrow> bytes \<Rightarrow> bytes \<Rightarrow> bytes \<Rightarrow> bytes" where
  "arp_reply mac ip p src =
     src @ mac @ bytes16 0x0806
     @ bytes16 0x0001 @ bytes16 0x0800 @ [6, 4] @ bytes16 2
     @ mac @ ip @ take 6 (drop 8 p) @ take 4 (drop 14 p)"

text \<open>What \<^verbatim>\<open>net_handle_frame\<close> sends back for a frame, if anything.\<close>

definition net_reply :: "bytes \<Rightarrow> bytes \<Rightarrow> bytes \<Rightarrow> bytes option option" where
  "net_reply mac ip frame =
     (if length frame < ETH_HLEN then Some None
      else (let src = take 6 (drop 6 frame);
                ethertype = mk16 (frame ! 12) (frame ! 13);
                p = drop ETH_HLEN frame;
                ours = mk32 (ip ! 0) (ip ! 1) (ip ! 2) (ip ! 3)
            in if ethertype = 0x0800 \<and> length p \<ge> IPV4_HLEN then
                 (let ihl_bytes = unat (p ! 0 AND 0x0F) * 4 in
                  if ihl_bytes < IPV4_HLEN \<or> ihl_bytes > length p then Some None
                  else if p ! 9 = 1 \<and> mk32 (p ! 16) (p ! 17) (p ! 18) (p ! 19) = ours then
                    (if length p < ihl_bytes + 8 then Some None
                     else if p ! ihl_bytes \<noteq> 8 then Some None
                     else map_option Some (icmp_reply mac ip p ihl_bytes src))
                  else Some None)
               else if ethertype = 0x0806 \<and> length p \<ge> 28 then
                 (if mk16 (p ! 6) (p ! 7) = 1 \<and> mk32 (p ! 24) (p ! 25) (p ! 26) (p ! 27) = ours
                  then Some (Some (arp_reply mac ip p src)) else Some None)
               else Some None))"

definition net_handle_frame :: "dev_cfg \<Rightarrow> bytes \<Rightarrow> virtio_net \<Rightarrow> virtio_net option" where
  "net_handle_frame cfg frame n =
     do { r \<leftarrow> net_reply (nn_mac n) (nn_ip n) frame;
          case r of None \<Rightarrow> Some n | Some f \<Rightarrow> map_option snd (net_send cfg f n) }"

section \<open>Reception\<close>

definition net_stage_rx :: "dev_cfg \<Rightarrow> u16 \<Rightarrow> u32 \<Rightarrow> virtio_net \<Rightarrow> virtio_net option" where
  "net_stage_rx cfg did len n =
     do { rx \<leftarrow> rd (nn_rx_phys n) (unat did);
       if unat len \<le> VIRTIO_NET_HDR_SIZE \<or> unat len > VIRTIO_NET_RX_LEN
       then Some (n\<lparr>nn_rx_dropped := nn_rx_dropped n + 1\<rparr>)
       else (let payload = unat len - VIRTIO_NET_HDR_SIZE in
         if payload > VIRTIO_NET_MTU then Some (n\<lparr>nn_rx_dropped := nn_rx_dropped n + 1\<rparr>)
         else (let n = (if nn_inbox_count n = VIRTIO_NET_INBOX
                        then n\<lparr>nn_inbox_head := (nn_inbox_head n + 1) mod VIRTIO_NET_INBOX,
                               nn_inbox_count := nn_inbox_count n - 1,
                               nn_rx_dropped := nn_rx_dropped n + 1\<rparr> else n);
                   slot = (nn_inbox_head n + nn_inbox_count n) mod VIRTIO_NET_INBOX
               in do { pa \<leftarrow> rd (nn_inbox_phys n) slot;
                    bs \<leftarrow> rd_range (nn_mem n rx) VIRTIO_NET_HDR_SIZE payload;
                    mem \<leftarrow> page_write pa 0 bs (nn_mem n);
                    net_handle_frame cfg bs
                      (n\<lparr>nn_mem := mem, nn_inbox_len := (nn_inbox_len n)[slot := payload],
                         nn_inbox_count := nn_inbox_count n + 1,
                         nn_rx_packets := nn_rx_packets n + 1\<rparr>) })) }"

text \<open>The two loops of \<^verbatim>\<open>net_drain_raw\<close>, over what the device has published.\<close>

partial_function (option) drain_tx :: "virtio_net \<Rightarrow> virtio_net option" where
  "drain_tx n =
     do { (used, d) \<leftarrow> virtio_queue_pop_used VIRTIO_NET_TX_QUEUE (nn_vdev n);
          case used of
            None \<Rightarrow> Some n
          | Some (did, len) \<Rightarrow>
              do { d \<leftarrow> virtio_queue_free_desc VIRTIO_NET_TX_QUEUE did d;
                   drain_tx (n\<lparr>nn_vdev := d, nn_tx_packets := nn_tx_packets n + 1\<rparr>) } }"

partial_function (option) drain_rx :: "dev_cfg \<Rightarrow> virtio_net \<Rightarrow> bool \<Rightarrow> (virtio_net \<times> bool) option" where
  "drain_rx cfg n recycled =
     do { (used, d) \<leftarrow> virtio_queue_pop_used VIRTIO_NET_RX_QUEUE (nn_vdev n);
          case used of
            None \<Rightarrow> Some (n, recycled)
          | Some (did, len) \<Rightarrow>
              do { n \<leftarrow> net_stage_rx cfg did len (n\<lparr>nn_vdev := d\<rparr>);
                   d \<leftarrow> virtio_queue_recycle VIRTIO_NET_RX_QUEUE did (nn_vdev n);
                   drain_rx cfg (n\<lparr>nn_vdev := d\<rparr>) True } }"

definition net_drain_raw :: "dev_cfg \<Rightarrow> virtio_net \<Rightarrow> virtio_net option" where
  "net_drain_raw cfg n =
     do { n \<leftarrow> drain_tx n;
          (n, recycled) \<leftarrow> drain_rx cfg n False;
          if recycled then do { d \<leftarrow> virtio_queue_kick VIRTIO_NET_RX_QUEUE (nn_vdev n);
                                Some (n\<lparr>nn_vdev := d\<rparr>) }
          else Some n }"

definition net_poll :: "dev_cfg \<Rightarrow> virtio_net \<Rightarrow> virtio_net option" where
  "net_poll cfg n = (if \<not> nn_present n then Some n else net_drain_raw cfg n)"

definition net_irq_handler :: "dev_cfg \<Rightarrow> u8 \<Rightarrow> virtio_net \<Rightarrow> virtio_net option" where
  "net_irq_handler cfg isr n =
     (if isr = 0 then Some n else net_drain_raw cfg (n\<lparr>nn_irq_count := nn_irq_count n + 1\<rparr>))"

text \<open>\<^verbatim>\<open>net_receive\<close>: the bytes copied to a buffer of \<open>cap\<close> bytes, if a frame is waiting.\<close>

definition net_receive :: "nat \<Rightarrow> virtio_net \<Rightarrow> (bytes option \<times> virtio_net) option" where
  "net_receive cap n =
     (if nn_inbox_count n = 0 then Some (None, n)
      else do { len \<leftarrow> rd (nn_inbox_len n) (nn_inbox_head n);
                pa \<leftarrow> rd (nn_inbox_phys n) (nn_inbox_head n);
                bs \<leftarrow> rd_range (nn_mem n pa) 0 (if len > cap then cap else len);
                Some (Some bs, n\<lparr>nn_inbox_head := (nn_inbox_head n + 1) mod VIRTIO_NET_INBOX,
                                 nn_inbox_count := nn_inbox_count n - 1\<rparr>) })"

section \<open>Initialisation\<close>

text \<open>
  What lies outside the driver: the PCI space, the registers and configuration of the device, what
  fresh ring pages hold, the port reads of the interrupt controller, and the addresses of the
  interrupt function and of the static node.
\<close>

record net_env =
  ne_space :: pci_space
  ne_hw :: mmio_dev
  ne_cfg :: dev_cfg
  ne_pages :: page_view
  ne_ports :: "u16 \<Rightarrow> u8"
  ne_irq_fn :: u64
  ne_node :: nat

record net_state =
  ns_net :: virtio_net
  ns_pmm :: pmm
  ns_idt :: idt_state
  ns_out :: port_writes

fun find_nic :: "pci_device list \<Rightarrow> pci_device option" where
  "find_nic [] = None"
| "find_nic (p # ps) =
     (if pd_vendor p = 0x1AF4 \<and> pd_base_class p = 2 \<and> pd_sub_class p = 0 then Some p else find_nic ps)"

fun seed_rx :: "nat list \<Rightarrow> virtio_net \<Rightarrow> pmm \<Rightarrow> (bool \<times> virtio_net \<times> pmm) option" where
  "seed_rx [] n pm = Some (True, n, pm)"
| "seed_rx (k # ks) n pm =
     do { (pa, pm) \<leftarrow> pmm_alloc_page pm;
          if pa = 0 then Some (False, n, pm)
          else do { rx \<leftarrow> wr (nn_rx_phys n) k pa;
                    (r, d) \<leftarrow> virtio_queue_add_buffer_id VIRTIO_NET_RX_QUEUE pa
                                (of_nat VIRTIO_NET_RX_LEN) True (nn_vdev n);
                    (let n = n\<lparr>nn_rx_phys := rx, nn_vdev := d\<rparr> in
                     case r of None \<Rightarrow> Some (True, n, pm) | Some _ \<Rightarrow> seed_rx ks n pm) } }"

fun seed_tx :: "nat list \<Rightarrow> virtio_net \<Rightarrow> pmm \<Rightarrow> (bool \<times> virtio_net \<times> pmm) option" where
  "seed_tx [] n pm = Some (True, n, pm)"
| "seed_tx (k # ks) n pm =
     do { (pa, pm) \<leftarrow> pmm_alloc_page pm;
          if pa = 0 then Some (False, n, pm)
          else do { tx \<leftarrow> wr (nn_tx_phys n) k pa;
                    seed_tx ks (n\<lparr>nn_tx_phys := tx\<rparr>) pm } }"

text \<open>The inbox pages; running out of memory here ends the loop and is not reported.\<close>

fun seed_inbox :: "nat list \<Rightarrow> virtio_net \<Rightarrow> pmm \<Rightarrow> (virtio_net \<times> pmm) option" where
  "seed_inbox [] n pm = Some (n, pm)"
| "seed_inbox (k # ks) n pm =
     do { (pa, pm) \<leftarrow> pmm_alloc_page pm;
          if pa = 0 then Some (n, pm)
          else do { ib \<leftarrow> wr (nn_inbox_phys n) k pa;
                    seed_inbox ks (n\<lparr>nn_inbox_phys := ib\<rparr>) pm } }"

definition net_hook_irq :: "net_env \<Rightarrow> u8 \<Rightarrow> net_state \<Rightarrow> net_state" where
  "net_hook_irq env irq s =
     (if irq \<noteq> 0 \<and> irq < 16 then
        (let (ok, idt) = idt_register_irq_handler irq (ne_irq_fn env) 0 (ne_node env) (ns_idt s)
         in if ok then s\<lparr>ns_net := (ns_net s)\<lparr>nn_use_irq := True, nn_irq := irq\<rparr>, ns_idt := idt,
                         ns_out := ns_out s @ pic_unmask_irq (ne_ports env) irq\<rparr>
            else s)
      else s)"

definition clamp_queue :: "u16 \<Rightarrow> u16" where
  "clamp_queue sz = (if unat sz > VIRTIO_NET_MAX_QUEUE then of_nat VIRTIO_NET_MAX_QUEUE else sz)"

text \<open>The queues and their buffers, once the features are agreed.\<close>

definition net_setup_queues :: "net_env \<Rightarrow> net_state \<Rightarrow> (bool \<times> net_state) option" where
  "net_setup_queues env s =
     (let n = ns_net s;
          (rx, d) = virtio_queue_size (ne_hw env) (of_nat VIRTIO_NET_RX_QUEUE) (nn_vdev n);
          (tx, d) = virtio_queue_size (ne_hw env) (of_nat VIRTIO_NET_TX_QUEUE) d;
          rx = clamp_queue rx; tx = clamp_queue tx;
          put = (\<lambda>d pm. s\<lparr>ns_net := n\<lparr>nn_vdev := d\<rparr>, ns_pmm := pm\<rparr>)
      in do { (ok, d, pm) \<leftarrow> virtio_queue_init (ne_pages env) (ne_hw env) VIRTIO_NET_RX_QUEUE rx d (ns_pmm s);
           if \<not> ok then Some (False, put d pm)
           else do { (ok, d, pm) \<leftarrow> virtio_queue_init (ne_pages env) (ne_hw env) VIRTIO_NET_TX_QUEUE tx d pm;
             if \<not> ok then Some (False, put d pm)
             else do { (ok, n, pm) \<leftarrow> seed_rx [0 ..< unat rx] (n\<lparr>nn_vdev := d\<rparr>) pm;
               if \<not> ok then Some (False, s\<lparr>ns_net := n, ns_pmm := pm\<rparr>)
               else do { d \<leftarrow> virtio_queue_kick VIRTIO_NET_RX_QUEUE (nn_vdev n);
                 (ok, n, pm) \<leftarrow> seed_tx [0 ..< unat tx] (n\<lparr>nn_vdev := d\<rparr>) pm;
                 if \<not> ok then Some (False, s\<lparr>ns_net := n, ns_pmm := pm\<rparr>)
                 else do { (n, pm) \<leftarrow> seed_inbox [0 ..< VIRTIO_NET_INBOX] n pm;
                           Some (True, s\<lparr>ns_net := n, ns_pmm := pm\<rparr>) } } } } })"

definition net_init :: "net_env \<Rightarrow> u64 \<Rightarrow> pci_device list \<Rightarrow> net_state \<Rightarrow> (bool \<times> net_state) option" where
  "net_init env hhdm table s =
     (if nn_present (ns_net s) then Some (True, s)
      else (let n = (ns_net s)\<lparr>nn_ip := [10, 0, 2, 15]\<rparr>;
                put = (\<lambda>n. s\<lparr>ns_net := n\<rparr>)
            in case find_nic table of
                 None \<Rightarrow> Some (False, put n)
               | Some p \<Rightarrow>
                   do { (ok, d) \<leftarrow> virtio_device_init (ne_space env) (ne_hw env) p hhdm (nn_vdev n);
                     if \<not> ok then Some (False, put (n\<lparr>nn_vdev := d\<rparr>))
                     else if vd_device_cfg d = 0 then Some (False, put (n\<lparr>nn_vdev := d\<rparr>))
                     else (let d = virtio_device_set_feature 15 (virtio_device_set_feature 16
                                     (virtio_device_set_feature 5 d));
                               (ok, d) = virtio_device_finish_features (ne_hw env) d
                       in if \<not> ok then Some (False, put (n\<lparr>nn_vdev := d\<rparr>))
                       else do { (ok, s) \<leftarrow> net_setup_queues env
                              (put (n\<lparr>nn_vdev := d, nn_mac := map (ne_cfg env) [0 ..< 6]\<rparr>));
                            if \<not> ok then Some (False, s)
                            else (let n = ns_net s;
                                      d = virtio_device_set_driver_ok (ne_hw env) (nn_vdev n);
                                      s = s\<lparr>ns_net := n\<lparr>nn_status := link_status (ne_cfg env), nn_vdev := d\<rparr>\<rparr>;
                                      irq = pci_config_read8 (ne_space env) (pd_bus p) (pd_dev p) (pd_func p) 0x3C;
                                      s = net_hook_irq env irq s
                                  in Some (True, s\<lparr>ns_net := (ns_net s)\<lparr>nn_present := True\<rparr>\<rparr>)) }) }))"

section \<open>The echo reply\<close>

text \<open>A request without IP options, cut into the fields of its header.\<close>

lemma icmp_reply_plain:
  fixes c0 c1 :: u8
  assumes len: "length h9 = 9" "length s4 = 4" "length d4 = 4" "length ip = 4" "length mac = 6"
      "length src = 6" and I: "4 \<le> length icmp" "length icmp \<le> 256"
  defines "p \<equiv> h9 @ [1] @ [c0, c1] @ s4 @ d4 @ icmp"
  shows "icmp_reply mac ip p 20 src = Some (src @ mac @ [8, 0]
     @ (h9 @ [1] @ bytes16 (ip_checksum (h9 @ [1] @ [c0, c1] @ ip @ s4)) @ ip @ s4)
     @ ([0, 0] @ bytes16 (ip_checksum ([0, 0, 0, 0] @ drop 4 icmp)) @ drop 4 icmp))"
proof -
  let ?m = "length icmp"
  let ?Z = "\<lambda>n. replicate n (0 :: u8)"
  let ?ck = "bytes16 (ip_checksum (h9 @ [1] @ [c0, c1] @ ip @ s4))"
  let ?ck2 = "bytes16 (ip_checksum ([0, 0, 0, 0] @ drop 4 icmp))"
  let ?T = "?Z (256 - ?m)"
  have z6: "?Z 14 = ?Z 6 @ ?Z 6 @ ?Z 2" by (simp only: replicate_add [symmetric]) simp
  have Z: "?Z (14 + 20 + 256) = ?Z 14 @ ?Z 20 @ ?Z ?m @ ?T"
    using I(2) by (simp only: replicate_add [symmetric]) simp
  have N: "(14::nat) + 20 = 34" "(14::nat) + 12 = 26" "(14::nat) + 16 = 30" "(14::nat) + 9 = 23"
    "(14::nat) + 10 = 24" "(34::nat) + 1 = 35" "(34::nat) + 2 = 36" by simp_all
  have m: "(if length icmp > 256 then 256 else ?m) = ?m" using I(2) by simp
  have tk: "take ?m icmp = icmp" by simp
  obtain i0 i1 i2 i3 rest where icmp: "icmp = i0 # i1 # i2 # i3 # rest"
    using I(1) by (auto simp: numeral_eq_Suc Suc_le_length_iff)
  have p20: "take 20 p = h9 @ [1] @ [c0, c1] @ s4 @ d4" and d20: "drop 20 p = icmp"
    and s: "take 4 (drop 12 p) = s4"
    by (simp_all add: p_def len)
  have st1: "wr_range (?Z 14 @ ?Z 20 @ ?Z ?m @ ?T) 14 (take 20 p) = Some (?Z 14 @ take 20 p @ ?Z ?m @ ?T)"
    by (rule wr_range_seg) (simp_all add: p20 len)
  have st2: "wr_range (?Z 14 @ take 20 p @ ?Z ?m @ ?T) 34 icmp = Some (?Z 14 @ take 20 p @ icmp @ ?T)"
    using wr_range_seg [of 34 "?Z 14 @ take 20 p" icmp "?Z ?m" ?T] by (simp add: p20 len)
  have st3: "wr_range (?Z 14 @ take 20 p @ icmp @ ?T) 26 ip
      = Some (?Z 14 @ h9 @ [1] @ [c0, c1] @ ip @ d4 @ icmp @ ?T)"
    using wr_range_seg [of 26 "?Z 14 @ h9 @ [1] @ [c0, c1]" ip s4 "d4 @ icmp @ ?T"]
    by (simp add: p20 len)
  have st4: "wr_range (?Z 14 @ h9 @ [1] @ [c0, c1] @ ip @ d4 @ icmp @ ?T) 30 s4
      = Some (?Z 14 @ h9 @ [1] @ [c0, c1] @ ip @ s4 @ icmp @ ?T)"
    using wr_range_seg [of 30 "?Z 14 @ h9 @ [1] @ [c0, c1] @ ip" s4 d4 "icmp @ ?T"]
    by (simp add: len)
  have st5: "wr (?Z 14 @ h9 @ [1] @ [c0, c1] @ ip @ s4 @ icmp @ ?T) 23 1
      = Some (?Z 14 @ h9 @ [1] @ [c0, c1] @ ip @ s4 @ icmp @ ?T)"
    using wr_seg [of 23 "?Z 14 @ h9" 1 "[c0, c1] @ ip @ s4 @ icmp @ ?T" 1] by (simp add: len)
  have hd: "take 20 (drop 14 (?Z 14 @ h9 @ [1] @ [c0, c1] @ ip @ s4 @ icmp @ ?T))
      = h9 @ [1] @ [c0, c1] @ ip @ s4" by (simp add: len)
  have st6: "wr_range (?Z 14 @ h9 @ [1] @ [c0, c1] @ ip @ s4 @ icmp @ ?T) 24 ?ck
      = Some (?Z 14 @ h9 @ [1] @ ?ck @ ip @ s4 @ icmp @ ?T)"
    using wr_range_seg [of 24 "?Z 14 @ h9 @ [1]" ?ck "[c0, c1]" "ip @ s4 @ icmp @ ?T"]
    by (simp add: len)
  let ?P = "?Z 14 @ h9 @ [1] @ ?ck @ ip @ s4"
  have P: "length ?P = 34" by (simp add: len)
  have st7: "wr (?P @ i0 # i1 # i2 # i3 # rest @ ?T) 34 0 = Some (?P @ 0 # i1 # i2 # i3 # rest @ ?T)"
    by (rule wr_seg) (simp add: len)
  have st8: "wr (?P @ 0 # i1 # i2 # i3 # rest @ ?T) 35 0 = Some (?P @ 0 # 0 # i2 # i3 # rest @ ?T)"
    using wr_seg [of 35 "?P @ [0]" i1 "i2 # i3 # rest @ ?T" 0] by (simp add: len)
  have st9: "wr_range (?P @ 0 # 0 # i2 # i3 # rest @ ?T) 36 (bytes16 0) = Some (?P @ 0 # 0 # 0 # 0 # rest @ ?T)"
    using wr_range_seg [of 36 "?P @ [0, 0]" "bytes16 0" "[i2, i3]" "rest @ ?T"] by (simp add: len bytes16_def)
  have ic: "take ?m (drop 34 (?P @ 0 # 0 # 0 # 0 # rest @ ?T)) = [0, 0, 0, 0] @ drop 4 icmp"
    by (simp add: icmp len)
  have st10: "wr_range (?P @ 0 # 0 # 0 # 0 # rest @ ?T) 36 ?ck2 = Some (?P @ [0, 0] @ ?ck2 @ rest @ ?T)"
    using wr_range_seg [of 36 "?P @ [0, 0]" ?ck2 "[0, 0]" "rest @ ?T"] by (simp add: len bytes16_def)
  let ?Q = "h9 @ [1] @ ?ck @ ip @ s4 @ [0, 0] @ ?ck2 @ rest @ ?T"
  have PQ: "?P @ [0, 0] @ ?ck2 @ rest @ ?T = ?Z 6 @ ?Z 6 @ ?Z 2 @ ?Q"
    by (simp only: z6 append_assoc)
  have st11: "wr_range (?Z 6 @ ?Z 6 @ ?Z 2 @ ?Q) 0 src = Some (src @ ?Z 6 @ ?Z 2 @ ?Q)"
    using wr_range_seg [of 0 "[]" src "?Z 6" "?Z 6 @ ?Z 2 @ ?Q"] len by simp
  have st12: "wr_range (src @ ?Z 6 @ ?Z 2 @ ?Q) 6 mac = Some (src @ mac @ ?Z 2 @ ?Q)"
    by (rule wr_range_seg) (simp_all add: len)
  have b: "bytes16 0x0800 = [8, 0]" by code_simp
  have st13: "wr_range (src @ mac @ ?Z 2 @ ?Q) 12 [8, 0] = Some (src @ mac @ [8, 0] @ ?Q)"
    using wr_range_seg [of 12 "src @ mac" "[8, 0]" "?Z 2" ?Q] by (simp add: len)
  have fin: "rd_range (src @ mac @ [8, 0] @ ?Q) 0 (34 + ?m) = Some (src @ mac @ [8, 0]
     @ (h9 @ [1] @ ?ck @ ip @ s4) @ ([0, 0] @ ?ck2 @ drop 4 icmp))"
    using rd_prefix [of "34 + ?m" "src @ mac @ [8, 0] @ (h9 @ [1] @ ?ck @ ip @ s4)
        @ ([0, 0] @ ?ck2 @ drop 4 icmp)" ?T]
    by (simp add: len icmp)
  show ?thesis
    unfolding icmp_reply_def Let_def ETH_HLEN_def IPV4_HLEN_def Z d20 m tk unfolding N
    by (simp only: st1 st2 st3 st4 st5 hd st6 s bind.bind_lunit append_assoc)
      (use st7 st8 st9 ic st10 PQ st11 st12 b st13 fin in \<open>simp only: icmp append_assoc append_Cons append_Nil bind.bind_lunit\<close>)
qed


lemma total16_append: "even (length xs) \<Longrightarrow> total16 (xs @ ys) = total16 xs + total16 ys"
  by (induction xs rule: total16.induct) simp_all

lemma ip_checksum_zero:
  assumes "length data \<le> 60000"
  shows "ip_checksum data = 0 \<longleftrightarrow> 0 < total16 data \<and> total16 data mod 65535 = 0"
proof -
  have "total16 data \<le> 65535 * length data" by (rule total16_bound)
  also have "65535 * length data \<le> 65535 * 60000" using assms by simp
  finally have b: "total16 data < 2 ^ 32" by simp
  then have s: "sum16 data 0 = total16 data" using sum16_total [of 0 data] by simp
  have "ip_checksum data = 0 \<longleftrightarrow> unat (csum data 0) = 0" by (simp add: ip_checksum_csum unat_eq_zero)
  also have "\<dots> \<longleftrightarrow> fold16 (total16 data) = 65535"
    using fold16_le [of "total16 data"] by (auto simp: unat_csum s)
  also have "\<dots> \<longleftrightarrow> 0 < total16 data \<and> total16 data mod 65535 = 0"
    using fold16_full [OF b] fold16_zero [OF b] fold16_mod [OF b]
    by (metis bot_nat_0.not_eq_extremum mod_self zero_neq_numeral)
  finally show ?thesis .
qed

lemma mod_sum_zero: "(a + b) mod m = 0 \<Longrightarrow> a mod m = 0 \<longleftrightarrow> b mod m = (0 :: nat)"
  by (metis add_0 add_0_right mod_add_left_eq mod_add_right_eq)

lemma icmp_header_sums:
  assumes len: "length h9 = 9" "length s4 = 4" "length ip = 4" and h: "h9 ! 0 \<noteq> 0"
    and ok: "ip_checksum (h9 @ [1] @ [c0, c1] @ s4 @ ip) = 0"
  shows "ip_checksum (h9 @ [1] @ [c0, c1] @ ip @ s4) = 0"
    and "ip_checksum (h9 @ [1] @ [0, 0] @ ip @ s4) = 0 \<longleftrightarrow> be16 c0 c1 mod 65535 = 0"
proof -
  let ?H = "total16 (h9 @ [1])" let ?A = "total16 s4 + total16 ip"
  have a: "total16 (h9 @ [1] @ [x, y] @ u @ v) = ?H + be16 x y + total16 u + total16 v"
    if "length u = 4" for x y :: u8 and u v
    using total16_append [of "h9 @ [1]" "[x, y] @ u @ v"] total16_append [of "[x, y]" "u @ v"]
      total16_append [of u v] that len by simp
  have l: "length (h9 @ [1] @ [x, y] @ u @ v) \<le> 60000" if "length u = 4" "length v = 4" for x y :: u8 and u v
    using that len by simp
  obtain g r where h9: "h9 = g # r" "g \<noteq> 0" using len(1) h by (cases h9) simp_all
  have "0 < unat g * 256" using h9(2) by (simp add: unat_gt_0)
  also have "unat g * 256 \<le> ?H" using len(1) h9 by (cases r) (simp_all add: be16_def)
  finally have H: "0 < ?H" .
  have o: "(?H + be16 c0 c1 + ?A) mod 65535 = 0"
    using ok l [of s4 ip] a [of s4 c0 c1 ip] len by (simp add: ip_checksum_zero add.assoc del: append_assoc)
  show "ip_checksum (h9 @ [1] @ [c0, c1] @ ip @ s4) = 0"
    using o H len by (simp add: ip_checksum_zero a [of ip c0 c1 s4, simplified] add_ac)
  have "(?H + ?A) mod 65535 = 0 \<longleftrightarrow> be16 c0 c1 mod 65535 = 0"
    using o mod_sum_zero [of "?H + ?A" "be16 c0 c1"] by (simp add: add_ac)
  then show "ip_checksum (h9 @ [1] @ [0, 0] @ ip @ s4) = 0 \<longleftrightarrow> be16 c0 c1 mod 65535 = 0"
    using H len by (simp add: ip_checksum_zero a [of ip 0 0 s4, simplified] be16_def add_ac)
qed

lemma icmp_body_sum:
  assumes "length body \<le> 252"
  shows "ip_checksum ([0, 0] @ bytes16 (ip_checksum ([0, 0, 0, 0] @ body)) @ body) = 0"
proof -
  have u: "([0, 0, 0, 0] @ body)[2 := x, 2 + 1 := y] = [0, 0] @ [x, y] @ body" for x y
    by (simp add: numeral_2_eq_2)
  show ?thesis
    using csum_insert [of 2 "[0, 0, 0, 0] @ body" 0] assms
    by (simp only: ip_checksum_csum bytes16_def u) simp
qed

text \<open>C34. The reply to an echo request for our address that carries a valid IP header without options
  and at most 256 bytes of ICMP: it goes back to the sender, the addresses are swapped, the
  ICMP part keeps identifier, sequence number and data and has a valid checksum. But the IP
  checksum is computed over the header that still holds the request's checksum, so the field of
  the reply is always 0, and the reply is a valid packet only when the request's checksum is 0
  or 0xFFFF.\<close>

theorem icmp_echo_reply:
  assumes len: "length dst = 6" "length src = 6" "length mac = 6" "length ip = 4" "length s4 = 4"
      "length t8 = 8" "length body = n + 4" "n \<le> 248"
    and ok: "ip_checksum ([0x45] @ t8 @ [1, c0, c1] @ s4 @ ip) = 0"
  shows "\<exists>ck. let hdr = [0x45] @ t8 @ [1, 0, 0] @ ip @ s4; echo = [0, 0] @ bytes16 ck @ body in
    net_reply mac ip (dst @ src @ [8, 0] @ ([0x45] @ t8 @ [1, c0, c1] @ s4 @ ip) @ ([8, cd, k0, k1] @ body))
      = Some (Some (src @ mac @ [8, 0] @ hdr @ echo))
    \<and> ip_checksum echo = 0 \<and> (ip_checksum hdr = 0 \<longleftrightarrow> be16 c0 c1 mod 65535 = 0)"
proof -
  let ?h9 = "0x45 # t8"
  let ?icmp = "[8, cd, k0, k1] @ body"
  let ?p = "?h9 @ [1] @ [c0, c1] @ s4 @ ip @ ?icmp"
  let ?f = "dst @ src @ [8, 0] @ ([0x45] @ t8 @ [1, c0, c1] @ s4 @ ip) @ ([8, cd, k0, k1] @ body)"
  let ?ck = "ip_checksum ([0, 0, 0, 0] @ body)"
  have h9: "length ?h9 = 9" and h0: "?h9 ! 0 \<noteq> 0" using len by simp_all
  note sums = icmp_header_sums [OF h9 len(5) len(4) h0, of c0 c1]
  have ok': "ip_checksum (?h9 @ [1] @ [c0, c1] @ s4 @ ip) = 0" using ok by simp
  have old: "bytes16 (ip_checksum (?h9 @ [1] @ [c0, c1] @ ip @ s4)) = [0, 0]"
    using sums(1) [OF ok'] by (simp add: bytes16_def)
  have r: "icmp_reply mac ip ?p 20 src = Some (src @ mac @ [8, 0]
     @ (?h9 @ [1] @ [0, 0] @ ip @ s4) @ ([0, 0] @ bytes16 ?ck @ body))"
    using icmp_reply_plain [of ?h9 s4 ip ip mac src ?icmp c0 c1] old len by simp
  obtain i0 i1 i2 i3 where ip: "ip = [i0, i1, i2, i3]" using len(4) by (auto simp: numeral_eq_Suc length_Suc_conv)
  have f: "length ?f = 38 + length body" using len by simp
  have s: "take 6 (drop 6 ?f) = src" and d: "drop 14 ?f = ?p" using len by simp_all
  have e: "mk16 (?f ! 12) (?f ! 13) = 0x0800"
  proof -
    have "?f ! 12 = 8" and "?f ! 13 = 0" using len by (simp_all add: nth_append)
    moreover have "mk16 8 0 = 0x0800" by code_simp
    ultimately show ?thesis by simp
  qed
  have pr: "?p ! 0 = 0x45" "?p ! 9 = 1" "?p ! 20 = 8" "?p ! 16 = i0" "?p ! 17 = i1" "?p ! 18 = i2" "?p ! 19 = i3"
    using len by (simp_all add: nth_append nth_Cons' ip)
  have ihl: "unat ((0x45 :: u8) AND 0x0F) * 4 = 20" by code_simp
  have pl: "length ?p = 24 + length body" using len by simp
  have "net_reply mac ip ?f = Some (Some (src @ mac @ [8, 0]
     @ (?h9 @ [1] @ [0, 0] @ ip @ s4) @ ([0, 0] @ bytes16 ?ck @ body)))"
    unfolding net_reply_def Let_def ETH_HLEN_def IPV4_HLEN_def s d e pr ihl pl
    using len by (simp add: f ip) (use r ip in simp)
  then show ?thesis
    using sums(2) [OF ok'] icmp_body_sum [of body] len by (intro exI [of _ ?ck]) simp
qed

theorem icmp_echo_reply_witness:
  "ip_checksum ([0x45] @ [0, 0, 0, 0, 0, 0, 0, 0] @ [1, 0xA2, 0xED] @ [10, 0, 2, 2] @ [10, 0, 2, 15]) = 0 \<and>
   (\<exists>ck. net_reply [1, 2, 3, 4, 5, 6] [10, 0, 2, 15]
       (replicate 6 0 @ replicate 6 7 @ [8, 0]
        @ ([0x45] @ [0, 0, 0, 0, 0, 0, 0, 0] @ [1, 0xA2, 0xED] @ [10, 0, 2, 2] @ [10, 0, 2, 15])
        @ ([8, 0, 0, 0] @ replicate 4 0))
     = Some (Some (replicate 6 7 @ [1, 2, 3, 4, 5, 6] @ [8, 0]
        @ ([0x45] @ [0, 0, 0, 0, 0, 0, 0, 0] @ [1, 0, 0] @ [10, 0, 2, 15] @ [10, 0, 2, 2])
        @ ([0, 0] @ bytes16 ck @ replicate 4 0)))
     \<and> ip_checksum ([0x45] @ [0, 0, 0, 0, 0, 0, 0, 0] @ [1, 0, 0] @ [10, 0, 2, 15] @ [10, 0, 2, 2]) \<noteq> 0)"
proof -
  let ?req = "[0x45] @ [0, 0, 0, 0, 0, 0, 0, 0] @ [1, 0xA2, 0xED] @ [10, 0, 2, 2] @ [10, 0, 2, 15] :: bytes"
  have ok: "ip_checksum ?req = 0" by (simp add: ip_checksum_zero be16_def)
  have bad: "be16 0xA2 0xED mod 65535 \<noteq> 0" by (simp add: be16_def)
  have t: "\<exists>ck. let hdr = [0x45] @ [0, 0, 0, 0, 0, 0, 0, 0] @ [1, 0, 0] @ [10, 0, 2, 15] @ [10, 0, 2, 2];
       echo = [0, 0] @ bytes16 ck @ replicate 4 0 in
     net_reply [1, 2, 3, 4, 5, 6] [10, 0, 2, 15] (replicate 6 0 @ replicate 6 7 @ [8, 0] @ ?req @ ([8, 0, 0, 0] @ replicate 4 0))
      = Some (Some (replicate 6 7 @ [1, 2, 3, 4, 5, 6] @ [8, 0] @ hdr @ echo))
    \<and> ip_checksum echo = 0 \<and> (ip_checksum hdr = 0 \<longleftrightarrow> be16 0xA2 0xED mod 65535 = 0)"
    by (rule icmp_echo_reply [where n = 0, OF _ _ _ _ _ _ _ _ ok]) simp_all
  show ?thesis using t ok bad unfolding Let_def by blast
qed

text \<open>The reply buffer on the stack has room for a header of 20 bytes and 256 bytes of ICMP only:
  for a request to our address whose IP header has options, so that header and ICMP part together
  exceed 276 bytes, the second copy runs past its end.\<close>

theorem icmp_reply_overflow:
  fixes p ip :: bytes
  defines "ihl \<equiv> unat (p ! 0 AND 0x0F) * 4"
  assumes eth: "length eth = 12" and ours: "mk32 (p ! 16) (p ! 17) (p ! 18) (p ! 19)
      = mk32 (ip ! 0) (ip ! 1) (ip ! 2) (ip ! 3)"
    and icmp: "p ! 9 = 1" "p ! ihl = 8" and ihl: "20 \<le> ihl" "ihl + 8 \<le> length p"
    and long: "276 < ihl + min 256 (length p - ihl)"
  shows "net_reply mac ip (eth @ [8, 0] @ p) = None"
proof -
  let ?f = "eth @ [8, 0] @ p"
  have ty: "mk16 (?f ! 12) (?f ! 13) = 0x0800"
  proof -
    have "?f ! 12 = 8" and "?f ! 13 = 0" using eth by (simp_all add: nth_append)
    moreover have "mk16 8 0 = 0x0800" by code_simp
    ultimately show ?thesis by simp
  qed
  have d: "drop 14 ?f = p" using eth by simp
  have "unat (p ! 0 AND 0x0F) \<le> 15" using word_and_le1 [of "p ! 0" "0x0F"] by (simp add: word_le_nat_alt)
  then have i60: "ihl \<le> 60" by (simp add: ihl_def)
  let ?n = "if length (drop ihl p) > 256 then 256 else length (drop ihl p)"
  let ?buf = "replicate (ETH_HLEN + IPV4_HLEN + 256) (0 :: u8)"
  have lb: "length ?buf = 290" by (simp add: ETH_HLEN_def IPV4_HLEN_def)
  have "wr_range ?buf ETH_HLEN (take ihl p) \<noteq> None"
    unfolding wr_range_eq_None lb using i60 by (simp add: ETH_HLEN_def)
  then obtain out where out: "wr_range ?buf ETH_HLEN (take ihl p) = Some out" by blast
  then have l: "length out = 290" using wr_range_length lb by metis
  have "wr_range out (ETH_HLEN + ihl) (take ?n (drop ihl p)) = None"
    using long l ihl by (cases "256 < length p - ihl") (simp_all add: wr_range_eq_None ETH_HLEN_def)
  then have "icmp_reply mac ip p ihl (take 6 (drop 6 ?f)) = None"
    unfolding icmp_reply_def Let_def out bind.bind_lunit by simp
  moreover have "\<not> length ?f < 14" and "20 \<le> length p" and "\<not> (ihl < 20 \<or> ihl > length p)"
    and "\<not> length p < ihl + 8"
    using ihl by simp_all
  ultimately show ?thesis
    unfolding net_reply_def Let_def ETH_HLEN_def IPV4_HLEN_def d ty ihl_def [symmetric]
    using icmp ours by simp
qed

theorem icmp_reply_overflow_witness:
  "net_reply (replicate 6 1) [10, 0, 2, 15] (replicate 12 0 @ [8, 0]
     @ ([0x46] @ replicate 8 0 @ [1, 0, 0, 10, 0, 2, 2, 10, 0, 2, 15] @ replicate 4 0 @ [8] @ replicate 255 0)) = None"
proof -
  have "unat ((0x46 :: u8) AND 0x0F) * 4 = 24" by code_simp
  then show ?thesis
    by (intro icmp_reply_overflow) (simp_all add: nth_append nth_Cons')
qed

end
