(* ===== verification/Spec2Isabelle.thy ===== *)
theory Spec2Isabelle
  imports Desktop_Boot Kheap Klog Libc Modular Mouse Netstack_Frames Netstack_Https Paging Png Rtc Virtio_Input Virtio_Net
begin

text \<open>
  A verification development for sol-os, a freestanding x86-64 kernel written in C.

  The parts of the program and how they interact. \<^verbatim>\<open>kmain\<close> brings up the descriptor tables, the
  page allocator (\<^verbatim>\<open>mm/pmm.c\<close>), the heap (\<^verbatim>\<open>mm/kheap.c\<close>) and the interrupt controllers, enumerates
  the PCI bus, starts the virtio drivers and enters the desktop loop, which polls the input
  devices, the network stack and the clock.

  Which theory models which part:
  \<^item> \<open>Sol_Prelude\<close>: the machine integers, arrays with checked accesses (an access out of range is
    \<open>None\<close>), the conversions between words and numbers.
  \<^item> \<open>Sol_Interfaces\<close>: the two contracts that components share, as locales: a pool of resources
    (pages, descriptors) and a bounded queue (the character rings).
  \<^item> \<open>Pmm\<close>, \<open>Kheap\<close>: the page allocator and its set-up from the memory map; the heap's block list,
    with blocks at addresses of an explicit store.
  \<^item> \<open>Paging\<close>: the page tables, with the page allocator that supplies them and the processor's walk
    as the reference.
  \<^item> \<open>Interrupts\<close>: the interrupt controller, the gates, shared lines and the timer.
  \<^item> \<open>Char_Ring\<close>, \<open>Keyboard\<close>, \<open>Mouse\<close>, \<open>Rtc\<close>, \<open>Klog\<close>, \<open>Libc\<close>: the PS/2 drivers, the clock, the log
    and the string functions.
  \<^item> \<open>Pci\<close>, \<open>Virtqueue\<close>, \<open>Virtio_Input\<close>, \<open>Virtio_Net\<close>: enumeration, the virtio transport and its
    queues, the input driver and the network driver.
  \<^item> \<open>Inet\<close>: the Internet checksum.
  \<^item> \<open>Sha256\<close>, \<open>Aes_Gcm\<close>, \<open>Modular\<close>, \<open>X25519\<close>: the routines of \<^verbatim>\<open>crypto.c\<close>, with what they compute,
    which is not always what their names say.
  \<^item> \<open>Tls\<close>, \<open>Netstack\<close>: the TLS client and the network stack that drives it and the network card.
  \<^item> \<open>Netstack_Stream\<close>, \<open>Netstack_Request\<close>, \<open>Netstack_Https\<close>, \<open>Netstack_Frames\<close>: what the network
    stack of \<^verbatim>\<open>netstack.c\<close> delivers of a TCP stream, the requests it sends, the records of an HTTPS fetch
    and the frames it emits.
  \<^item> \<open>Inflate\<close>, \<open>Png\<close>: the decoder of \<^verbatim>\<open>png.c\<close>, memory safe on every input and inverse to the format's
    encoder; \<open>Wallpaper\<close>: the choice and the drawing of the background of \<^verbatim>\<open>wallpaper.c\<close>.
  \<^item> \<open>Framebuffer\<close>: the boot framebuffer and the display controller (\<^verbatim>\<open>framebuffer.c\<close>, \<^verbatim>\<open>vbe.c\<close>);
    \<open>Font\<close>: the table of \<^verbatim>\<open>font.c\<close>.
  \<^item> The desktop of \<^verbatim>\<open>desktop.c\<close>. \<open>Desktop_Gfx\<close> models the backbuffer, its primitives, the damage list and the
    page flip, \<open>Desktop_Draw\<close> shows that a primitive changes the visible pixels of its shape and nothing else.
    \<open>Desktop_Files\<close> models the file store and the notepad, \<open>Desktop_Notepad\<close> refines it to text around a cursor.
    \<open>Desktop_Terminal\<close> models the terminal and the browser's address line, \<open>Desktop_Console\<close> refines them to
    lists of lines. \<open>Desktop_Windows\<close> and \<open>Desktop_Input\<close> model the windows, the mouse, the keys and a round of
    the event loop, \<open>Desktop_Safe\<close> shows the invariant of the windows over every round. \<open>Desktop_Paint\<close> models the
    drawing of the scene, the cursor and the frame as lists of calls of the primitives, \<open>Desktop_Scene\<close> shows
    that every routine is in range, and \<open>Desktop_Frame\<close> that a region changes only its pixels and that a presented
    frame shows the scene with the cursor on it. \<open>Desktop_Boot\<close> models the start-up with its self-test and shows that the
    invariants of the rounds and of the frames hold from then on.

  Conventions. Loops whose end depends on memory or on a device are \<open>partial_function (option)\<close>:
  \<open>None\<close> is an access out of range or a loop that does not end, and the theorems show results of
  the form \<open>Some\<close>. Hardware is a parameter: the PCI space is a function of the address, a device's
  registers a function of what was written to it, ports are functions and lists of writes.

  Bounds. A loop over a table or a buffer of constant size recurses over the list or over that constant, so it
  ends by its definition. Fuel is used twice: the search for the next file counts the 32 slots it can visit
  (\<open>next_used_enough\<close> shows that this is enough), and \<^verbatim>\<open>strcpy\<close>, which may read what it has just written,
  counts the bytes copied. A wait for a device takes the device's answers as a list or a function.

  What is not modelled: the assembly stubs, the segment tables (\<^verbatim>\<open>gdt.c\<close>), the request tags of the
  boot protocol, the serial port's registers (data or pure port I/O), and the entry \<^verbatim>\<open>kmain\<close>, which calls the
  parts in turn. A halt after a fatal message is a value of \<^verbatim>\<open>desktop_init\<close>, log lines are left out.
\<close>

end
